(* ===== verification/Prelude.thy ===== *)
theory Prelude
  imports Main "HOL-Library.Word" "HOL-Library.Monad_Syntax"
begin

text \<open>
  Shared vocabulary of the development: names for the machine integers of the
  LP64 target, facts about their wrap-around arithmetic read through \<open>unat\<close>,
  and facts about \<open>Option.bind\<close>, which carries the faults (null or
  inaccessible accesses, \<open>std::terminate\<close>) of the modelled code.
\<close>

unbundle bit_operations_syntax

type_synonym u8 = "8 word"
type_synonym u16 = "16 word"
type_synonym u32 = "32 word"
type_synonym u64 = "64 word"

text \<open>A pointer to an object named by a number; null is \<^term>\<open>None\<close>.\<close>

type_synonym ptr = "nat option"

named_theorems addr_simps \<open>address arithmetic\<close>
named_theorems byte_simps \<open>the bytes of a shifted, masked or combined word\<close>

section \<open>Words as counters\<close>

lemma unat_minus_one_u64:
  fixes n :: u64
  assumes "n \<noteq> 0"
  shows "unat (n - 1) = unat n - 1"
  using assms by (simp add: unat_minus_one)

lemma unat_minus_le_u64:
  fixes n k :: u64
  assumes "k \<le> n"
  shows "unat (n - k) = unat n - unat k"
  using assms by (simp add: unat_sub)

lemma unat_gt_zero_u64: "(n :: u64) \<noteq> 0 \<Longrightarrow> 0 < unat n"
  by (simp add: unat_gt_0)

lemma measure_minus_one_u64: "(n :: u64) \<noteq> 0 \<Longrightarrow> unat (n - 1) < unat n"
  using unat_gt_zero_u64 [of n] by (simp add: unat_minus_one_u64)

lemma measure_minus_eight_u64: "(8 :: u64) \<le> n \<Longrightarrow> unat (n - 8) < unat n"
  by (simp add: unat_minus_le_u64 word_le_nat_alt)

section \<open>Options\<close>

lemma bind_SomeE:
  assumes "Option.bind x f = Some y"
  obtains z where "x = Some z" "f z = Some y"
  using assms by (cases x) auto

section \<open>Loops that may fault\<close>

text \<open>
  A C \<open>while\<close> whose body may fault: \<open>None\<close> is a fault or a loop that never
  ends.  The second form has a body that may leave the loop with a value, as
  \<open>return\<close> and \<open>goto\<close> out of the loop do; the third is \<open>while (1)\<close>, which is left in
  no other way.
\<close>

partial_function (option) while_c ::
  "('s \<Rightarrow> bool) \<Rightarrow> ('s \<Rightarrow> 's option) \<Rightarrow> 's \<Rightarrow> 's option" where
  "while_c b c s = (if b s then Option.bind (c s) (while_c b c) else Some s)"

partial_function (option) while_ret ::
  "('s \<Rightarrow> bool) \<Rightarrow> ('s \<Rightarrow> ('r + 's) option) \<Rightarrow> 's \<Rightarrow> ('r + 's) option" where
  "while_ret b c s =
     (if b s then Option.bind (c s)
        (\<lambda>x. case x of Inl r \<Rightarrow> Some (Inl r) | Inr s' \<Rightarrow> while_ret b c s')
      else Some (Inr s))"

partial_function (option) loop_c :: "('s \<Rightarrow> ('r + 's) option) \<Rightarrow> 's \<Rightarrow> 'r option" where
  "loop_c c s = Option.bind (c s) (\<lambda>x. case x of Inl r \<Rightarrow> Some r | Inr s' \<Rightarrow> loop_c c s')"

declare while_c.simps [code] while_ret.simps [code] loop_c.simps [code]

text \<open>
  Total correctness by progress: a relation \<open>R k s\<close> between the state and a
  counter that the body increases and that never passes \<open>N\<close>.
\<close>

lemma while_c_progress:
  assumes "R k s" "k \<le> (N :: nat)"
    and step: "\<And>k s. R k s \<Longrightarrow> k \<le> N \<Longrightarrow> b s \<Longrightarrow> \<exists>s'. c s = Some s' \<and> (\<exists>k' > k. k' \<le> N \<and> R k' s')"
  obtains k' s' where "while_c b c s = Some s'" "k \<le> k'" "k' \<le> N" "R k' s'" "\<not> b s'"
proof -
  have "\<exists>k' s'. k \<le> k' \<and> k' \<le> N \<and> R k' s' \<and> \<not> b s' \<and> while_c b c s = Some s'"
    using assms(1,2)
  proof (induction "N - k" arbitrary: k s rule: less_induct)
    case less
    show ?case
    proof (cases "b s")
      case True
      then obtain k1 s1 where k1: "k < k1" "k1 \<le> N" "R k1 s1" "c s = Some s1"
        using step less.prems by blast
      then obtain k' s' where "k1 \<le> k'" "k' \<le> N" "R k' s'" "\<not> b s'" "while_c b c s1 = Some s'"
        using less.hyps [OF diff_less_mono2 [OF k1(1)]] by (meson less_le_trans)
      with k1 True show ?thesis
        by (intro exI [of _ k'] exI [of _ s']) (simp add: while_c.simps [of b c s])
    next
      case False
      with less.prems show ?thesis
        by (intro exI [of _ k] exI [of _ s]) (simp add: while_c.simps [of b c s])
    qed
  qed
  then show thesis using that by blast
qed

lemma while_ret_progress:
  assumes "R k s" "k \<le> (N :: nat)"
    and step: "\<And>k s. R k s \<Longrightarrow> k \<le> N \<Longrightarrow> b s \<Longrightarrow>
      (\<exists>s'. c s = Some (Inr s') \<and> (\<exists>k' > k. k' \<le> N \<and> R k' s')) \<or>
      (\<exists>r. c s = Some (Inl r) \<and> Q r)"
  obtains (stop) k' s' where "while_ret b c s = Some (Inr s')" "k \<le> k'" "k' \<le> N" "R k' s'" "\<not> b s'"
    | (ret) r where "while_ret b c s = Some (Inl r)" "Q r"
proof -
  have "(\<exists>k' s'. k \<le> k' \<and> k' \<le> N \<and> R k' s' \<and> \<not> b s' \<and> while_ret b c s = Some (Inr s')) \<or>
    (\<exists>r. Q r \<and> while_ret b c s = Some (Inl r))"
    using assms(1,2)
  proof (induction "N - k" arbitrary: k s rule: less_induct)
    case less
    note unfold = while_ret.simps [of b c s]
    consider (stop) "\<not> b s"
      | (ret) r where "b s" "c s = Some (Inl r)" "Q r"
      | (go) k1 s1 where "b s" "k < k1" "k1 \<le> N" "R k1 s1" "c s = Some (Inr s1)"
      using step less.prems by blast
    then show ?case
    proof cases
      case stop
      with less.prems show ?thesis by (auto simp: unfold)
    next
      case ret
      with less.prems show ?thesis by (auto simp: unfold)
    next
      case go
      then have "while_ret b c s = while_ret b c s1" by (simp add: unfold)
      moreover from go(2,3) have "N - k1 < N - k" by (intro diff_less_mono2) auto
      ultimately show ?thesis
        using less.hyps [of k1 s1] go(2-4) by simp (meson less_imp_le le_trans)
    qed
  qed
  then show thesis using stop ret by blast
qed

lemma loop_c_progress:
  assumes "R k s" "k \<le> (N :: nat)"
    and step: "\<And>k s. R k s \<Longrightarrow> k \<le> N \<Longrightarrow>
      (\<exists>r. c s = Some (Inl r) \<and> Q r) \<or> (\<exists>s'. c s = Some (Inr s') \<and> (\<exists>k' > k. k' \<le> N \<and> R k' s'))"
  obtains r where "loop_c c s = Some r" "Q r"
proof -
  have "\<exists>r. loop_c c s = Some r \<and> Q r"
    using assms(1,2)
  proof (induction "N - k" arbitrary: k s rule: less_induct)
    case less
    note unfold = loop_c.simps [of c s]
    consider (ret) r where "c s = Some (Inl r)" "Q r"
      | (go) k1 s1 where "k < k1" "k1 \<le> N" "R k1 s1" "c s = Some (Inr s1)"
      using step less.prems by blast
    then show ?case
    proof cases
      case ret
      then show ?thesis by (simp add: unfold)
    next
      case go
      then show ?thesis
        using less.hyps [of k1 s1] by (simp add: unfold diff_less_mono2)
    qed
  qed
  then show thesis using that by blast
qed

text \<open>The same rules with a postcondition; they fit a goal \<open>\<exists>x. loop = Some x \<and> Q x\<close>.\<close>

lemma while_c_post:
  assumes "R k s" "k \<le> (N :: nat)"
    and "\<And>k s. R k s \<Longrightarrow> k \<le> N \<Longrightarrow> b s \<Longrightarrow> \<exists>s'. c s = Some s' \<and> (\<exists>k' > k. k' \<le> N \<and> R k' s')"
    and "\<And>k s. R k s \<Longrightarrow> k \<le> N \<Longrightarrow> \<not> b s \<Longrightarrow> Q s"
  shows "\<exists>s'. while_c b c s = Some s' \<and> Q s'"
  using while_c_progress [of R k s N b c] assms by metis

lemma while_ret_post:
  assumes "R k s" "k \<le> (N :: nat)"
    and "\<And>k s. R k s \<Longrightarrow> k \<le> N \<Longrightarrow> b s \<Longrightarrow>
      (\<exists>s'. c s = Some (Inr s') \<and> (\<exists>k' > k. k' \<le> N \<and> R k' s')) \<or> (\<exists>r. c s = Some (Inl r) \<and> Q (Inl r))"
    and "\<And>k s. R k s \<Longrightarrow> k \<le> N \<Longrightarrow> \<not> b s \<Longrightarrow> Q (Inr s)"
  shows "\<exists>x. while_ret b c s = Some x \<and> Q x"
  by (rule while_ret_progress [of R k s N b c "\<lambda>r. Q (Inl r)"]) (use assms in blast)+

lemma loop_c_post:
  assumes "R k s" "k \<le> (N :: nat)"
    and "\<And>k s. R k s \<Longrightarrow> k \<le> N \<Longrightarrow>
      (\<exists>r. c s = Some (Inl r) \<and> Q r) \<or> (\<exists>s'. c s = Some (Inr s') \<and> (\<exists>k' > k. k' \<le> N \<and> R k' s'))"
  shows "\<exists>r. loop_c c s = Some r \<and> Q r"
  using loop_c_progress [of R k s N c Q] assms by metis

end
