(* ===== verification/CLoop.thy ===== *)
theory CLoop
  imports Prelude
begin

text \<open>
  Arrays and counting loops of the cryptographic code: an access outside an array is a fault, and a
  \<open>for\<close> loop over a 32-bit counter is shown equal to a bounded iteration over natural numbers.
\<close>

section \<open>Arrays\<close>

definition rd :: "'a list \<Rightarrow> u32 \<Rightarrow> 'a option" where
  "rd xs i = (if unat i < length xs then Some (xs ! unat i) else None)"

definition wr :: "'a list \<Rightarrow> u32 \<Rightarrow> 'a \<Rightarrow> 'a list option" where
  "wr xs i v = (if unat i < length xs then Some (xs[unat i := v]) else None)"

lemma rd_Some: "unat i < length xs \<Longrightarrow> rd xs i = Some (xs ! unat i)"
  by (simp add: rd_def)

lemma wr_Some: "unat i < length xs \<Longrightarrow> wr xs i v = Some (xs[unat i := v])"
  by (simp add: wr_def)

lemma unat_less_u32: "unat (x :: u32) < 4294967296"
  using unsigned_less [where 'b = 32 and 'a = nat, of x] by simp

lemma unat_of_nat_small: "k < 4294967296 \<Longrightarrow> unat (of_nat k :: u32) = k"
  by (simp add: unsigned_of_nat take_bit_nat_eq_self)

section \<open>Loops\<close>

text \<open>\<open>for (uint32_t i = a; c (i); i = next (i)) s = f (i, s);\<close>\<close>

definition for_c :: "u32 \<Rightarrow> (u32 \<Rightarrow> bool) \<Rightarrow> (u32 \<Rightarrow> u32) \<Rightarrow> (u32 \<Rightarrow> 's \<Rightarrow> 's option) \<Rightarrow> 's \<Rightarrow> 's option" where
  "for_c a c next f s = do {
     (i, s) \<leftarrow> while_c (\<lambda>(i, s). c i) (\<lambda>(i, s). do { s \<leftarrow> f i s; Some (next i, s) }) (a, s);
     Some s }"

abbreviation for_up :: "u32 \<Rightarrow> u32 \<Rightarrow> (u32 \<Rightarrow> 's \<Rightarrow> 's option) \<Rightarrow> 's \<Rightarrow> 's option" where
  "for_up a n \<equiv> for_c a (\<lambda>i. i < n) (\<lambda>i. i + 1)"

text \<open>\<open>for (uint32_t i = n - 1; i < n; --i)\<close>: the loop ends when the counter wraps around.\<close>

abbreviation for_down :: "u32 \<Rightarrow> (u32 \<Rightarrow> 's \<Rightarrow> 's option) \<Rightarrow> 's \<Rightarrow> 's option" where
  "for_down n \<equiv> for_c (n - 1) (\<lambda>i. i < n) (\<lambda>i. i - 1)"

primrec up :: "nat \<Rightarrow> (nat \<Rightarrow> 's \<Rightarrow> 's option) \<Rightarrow> 's \<Rightarrow> 's option" where
  "up 0 f s = Some s"
| "up (Suc n) f s = do { s \<leftarrow> up n f s; f n s }"

primrec down :: "nat \<Rightarrow> (nat \<Rightarrow> 's \<Rightarrow> 's option) \<Rightarrow> 's \<Rightarrow> 's option" where
  "down 0 f s = Some s"
| "down (Suc n) f s = do { s \<leftarrow> f n s; down n f s }"

lemma up_first: "up (Suc n) f s = do { s \<leftarrow> f 0 s; up n (\<lambda>i. f (Suc i)) s }"
  by (induction n) (simp_all add: bind_assoc)

lemma up_inv:
  assumes "I 0 s" "\<And>k s. k < n \<Longrightarrow> I k s \<Longrightarrow> \<exists>s'. f k s = Some s' \<and> I (Suc k) s'"
  shows "\<exists>s'. up n f s = Some s' \<and> I n s'"
  using assms(2)
proof (induction n)
  case (Suc n)
  then obtain s' where "up n f s = Some s'" "I n s'" using less_SucI by blast
  then show ?case using Suc.prems [of n s'] by auto
qed (use assms(1) in simp)

lemma up_cong:
  assumes "\<And>k. k < n \<Longrightarrow> f k = g k"
  shows "up n f s = up n g s"
  using assms
proof (induction n)
  case (Suc n)
  then have "up n f s = up n g s" "f n = g n" by simp_all
  then show ?case by simp
qed simp

lemma for_c_up:
  assumes "\<And>k. k < n \<Longrightarrow> c (a + of_nat k)" "\<not> c (a + of_nat n)"
  shows "for_c a c (\<lambda>i. i + 1) f s = up n (\<lambda>k. f (a + of_nat k)) s"
  using assms
proof (induction n arbitrary: a s)
  case 0
  then show ?case by (simp add: for_c_def while_c.simps)
next
  case (Suc n)
  have "c a" using Suc.prems(1) [of 0] by simp
  then have "for_c a c (\<lambda>i. i + 1) f s = do { s \<leftarrow> f a s; for_c (a + 1) c (\<lambda>i. i + 1) f s }"
    by (simp add: for_c_def while_c.simps [of _ _ "(a, s)"] split_beta bind_assoc)
  also have "for_c (a + 1) c (\<lambda>i. i + 1) f = up n (\<lambda>k. f (a + 1 + of_nat k))"
  proof (rule ext, rule Suc.IH)
    show "\<And>k. k < n \<Longrightarrow> c (a + 1 + of_nat k)" using Suc.prems(1) [of "Suc _"] by (simp add: add.assoc)
    show "\<not> c (a + 1 + of_nat n)" using Suc.prems(2) by (simp add: add.assoc)
  qed
  finally show ?case by (simp only: up_first) (simp add: add.assoc)
qed

lemma for_up_0: "for_up 0 n f s = up (unat n) (\<lambda>k. f (of_nat k)) s"
proof -
  have "for_up 0 n f s = up (unat n) (\<lambda>k. f (0 + of_nat k)) s"
  proof (rule for_c_up)
    fix k assume k: "k < unat n"
    then have "unat (of_nat k :: u32) = k" using unat_less_u32 [of n] by (intro unat_of_nat_small) simp
    then show "0 + of_nat k < n" using k by (simp add: word_less_nat_alt)
  qed simp
  then show ?thesis by simp
qed

lemma for_down_down: "0 < unat n \<Longrightarrow> for_down n f s = down (unat n) (\<lambda>k. f (of_nat k)) s"
proof -
  have *: "for_c (of_nat k - 1) (\<lambda>i. i < n) (\<lambda>i. i - 1) f s = down k (\<lambda>k. f (of_nat k)) s" if "k \<le> unat n" "0 < unat n" for k
    using that
  proof (induction k arbitrary: s)
    case 0
    have "\<not> (- 1 :: u32) < n" by (simp add: not_less)
    then show ?case by (simp add: for_c_def while_c.simps)
  next
    case (Suc k)
    have "unat (of_nat k :: u32) = k" using Suc.prems unat_less_u32 [of n] by (intro unat_of_nat_small) simp
    then have "(of_nat k :: u32) < n" using Suc.prems by (simp add: word_less_nat_alt)
    then have "for_c (of_nat k) (\<lambda>i. i < n) (\<lambda>i. i - 1) f s = do { s \<leftarrow> f (of_nat k) s; for_c (of_nat k - 1) (\<lambda>i. i < n) (\<lambda>i. i - 1) f s }"
      by (simp add: for_c_def while_c.simps [of _ _ "(of_nat k, s)"] split_beta bind_assoc)
    then show ?case using Suc by simp
  qed
  assume "0 < unat n"
  then show ?thesis using * [of "unat n"] by simp
qed

section \<open>Filling arrays in a loop\<close>

lemma up_fill:
  assumes "length xs = n" "\<And>k xs. k < n \<Longrightarrow> length xs = n \<Longrightarrow> f k xs = Some (xs[k := v k])"
  shows "up n f xs = Some (map v [0..<n])"
proof -
  have "\<exists>ys. up n f xs = Some ys \<and> length ys = n \<and> (\<forall>k < n. ys ! k = v k)"
    by (rule up_inv [where I = "\<lambda>m ys. length ys = n \<and> (\<forall>k < m. ys ! k = v k)"])
      (use assms in \<open>auto simp: nth_list_update less_Suc_eq\<close>)
  then obtain ys where "up n f xs = Some ys" "length ys = n" "\<forall>k < n. ys ! k = v k" by blast
  then show ?thesis by (auto intro: nth_equalityI)
qed

text \<open>The value of element \<open>k\<close> may depend on the old element, which no earlier round has changed.\<close>

lemma up_modify:
  assumes "length xs = n" "\<And>k ys. k < n \<Longrightarrow> length ys = n \<Longrightarrow> f k ys = Some (ys[k := g (ys ! k)])"
  shows "up n f xs = Some (map g xs)"
proof -
  have "\<exists>ys. up n f xs = Some ys \<and> length ys = n \<and> (\<forall>k < n. ys ! k = g (xs ! k)) \<and> (\<forall>k. n \<le> k \<and> k < n \<longrightarrow> ys ! k = xs ! k)"
    by (rule up_inv [where I = "\<lambda>m ys. length ys = n \<and> (\<forall>k < m. ys ! k = g (xs ! k)) \<and> (\<forall>k. m \<le> k \<and> k < n \<longrightarrow> ys ! k = xs ! k)"])
      (use assms in \<open>auto simp: nth_list_update less_Suc_eq\<close>)
  then obtain ys where "up n f xs = Some ys" "length ys = n" "\<forall>k < n. ys ! k = g (xs ! k)" by blast
  then show ?thesis using assms(1) by (auto intro: nth_equalityI)
qed

end
