(* ===== verification/NtruEncode.thy ===== *)
theory NtruEncode
  imports CLoop
begin

text \<open>
  The encoding of rounded polynomials of NTRU LPRime
  (\<open>src/crypto/pk/ntru_lprime/encode.c\<close>): 653 coefficients in 865 bytes and back.
\<close>

section \<open>The functions\<close>

definition NTRU_LPR_Q :: u32 where "NTRU_LPR_Q = 4621"

text \<open>\<open>cmp\<close> and \<open>csel\<close> with the condition \<open>hs\<close>, unsigned higher or same.\<close>

definition uint32_cmp_ge_branch :: "u32 \<Rightarrow> u32 \<Rightarrow> u32 \<Rightarrow> u32 \<Rightarrow> u32" where
  "uint32_cmp_ge_branch x y a b = (if y \<le> x then a else b)"

text \<open>\<open>*ptr = r & 0xff; ptr++; r >>= 8\<close>, \<open>k\<close> times; the bytes written so far are a list.\<close>

fun emit :: "nat \<Rightarrow> u32 \<Rightarrow> u8 list \<Rightarrow> u32 \<times> u8 list" where
  "emit 0 r out = (r, out)"
| "emit (Suc k) r out = emit k (drop_bit 8 r) (out @ [ucast (r AND 0xff)])"

text \<open>\<open>r = (r << 8) + *ptr; ptr--\<close>, \<open>k\<close> times.\<close>

fun fetch :: "nat \<Rightarrow> u8 list \<Rightarrow> u32 \<Rightarrow> u32 \<Rightarrow> (u32 \<times> u32) option" where
  "fetch 0 enc r ptr = Some (r, ptr)"
| "fetch (Suc k) enc r ptr = do {
     b \<leftarrow> rd enc ptr;
     fetch k enc (push_bit 8 r + ucast b) (ptr - 1) }"

text \<open>One pair becomes one number; \<open>M\<close> bounds the first of the two and \<open>k\<close> bytes are written.\<close>

definition encode_pair :: "u32 \<Rightarrow> nat \<Rightarrow> u32 \<Rightarrow> u32 list \<times> u8 list \<Rightarrow> (u32 list \<times> u8 list) option" where
  "encode_pair M k i = (\<lambda>(buf, out). do {
     x \<leftarrow> rd buf (i * 2);
     y \<leftarrow> rd buf (i * 2 + 1);
     let (r, out) = emit k (x + y * M) out;
     buf \<leftarrow> wr buf i r;
     Some (buf, out) })"

definition encode_level :: "u32 \<Rightarrow> u32 \<Rightarrow> nat \<Rightarrow> u32 list \<times> u8 list \<Rightarrow> (u32 list \<times> u8 list) option" where
  "encode_level n M k = for_up 0 n (encode_pair M k)"

definition copy_item :: "u32 \<Rightarrow> u32 \<Rightarrow> u32 list \<Rightarrow> u32 list option" where
  "copy_item i j buf = do { x \<leftarrow> rd buf j; wr buf i x }"

definition encode_convert :: "u16 list \<Rightarrow> u32 \<Rightarrow> u32 list \<Rightarrow> u32 list option" where
  "encode_convert poly i buf = do {
     p \<leftarrow> rd poly i;
     let x = uint32_cmp_ge_branch (ucast p) ((NTRU_LPR_Q + 1) div 2) (ucast p - (NTRU_LPR_Q + 1) div 2) (ucast p + (NTRU_LPR_Q - 1) div 2);
     wr buf i (x div 3) }"

definition encode_final :: "u32 list \<times> u8 list \<Rightarrow> u8 list option" where
  "encode_final = (\<lambda>(buf, out). do {
     x \<leftarrow> rd buf 0;
     y \<leftarrow> rd buf 1;
     let (r, out) = emit 1 (x + y * 134) out;
     z \<leftarrow> rd buf 2;
     let (r, out) = emit 3 (r + z * 71) out;
     Some out })"

text \<open>The list \<open>buf\<close> is the local array as the function finds it.\<close>

definition ntrulpr_653_encode_poly_round :: "u32 list \<Rightarrow> u16 list \<Rightarrow> u8 list option" where
  "ntrulpr_653_encode_poly_round buf poly = do {
     buf \<leftarrow> for_up 0 653 (encode_convert poly) buf;
     (buf, out) \<leftarrow> encode_level 326 1541 1 (buf, []);
     buf \<leftarrow> copy_item 326 652 buf;
     (buf, out) \<leftarrow> encode_level 163 9277 2 (buf, out);
     buf \<leftarrow> copy_item 163 326 buf;
     (buf, out) \<leftarrow> encode_level 81 1314 1 (buf, out);
     (buf, out) \<leftarrow> encode_pair 1314 1 81 (buf, out);
     (buf, out) \<leftarrow> encode_level 40 6745 2 (buf, out);
     (buf, out) \<leftarrow> encode_pair 6745 2 40 (buf, out);
     (buf, out) \<leftarrow> encode_level 20 695 1 (buf, out);
     buf \<leftarrow> copy_item 20 40 buf;
     (buf, out) \<leftarrow> encode_level 10 1887 1 (buf, out);
     buf \<leftarrow> copy_item 10 20 buf;
     (buf, out) \<leftarrow> encode_level 5 13910 2 (buf, out);
     buf \<leftarrow> copy_item 5 10 buf;
     (buf, out) \<leftarrow> encode_pair 2953 2 0 (buf, out);
     (buf, out) \<leftarrow> encode_pair 2953 2 1 (buf, out);
     (buf, out) \<leftarrow> encode_pair 2953 1 2 (buf, out);
     encode_final (buf, out) }"

definition decode_pair :: "u8 list \<Rightarrow> u32 \<Rightarrow> nat \<Rightarrow> u32 \<Rightarrow> u32 list \<times> u32 \<Rightarrow> (u32 list \<times> u32) option" where
  "decode_pair enc M k i = (\<lambda>(buf, ptr). do {
     r \<leftarrow> rd buf i;
     (r, ptr) \<leftarrow> fetch k enc r ptr;
     buf \<leftarrow> wr buf (i * 2 + 1) (r div M);
     buf \<leftarrow> wr buf (i * 2) (r mod M);
     Some (buf, ptr) })"

definition decode_level :: "u8 list \<Rightarrow> u32 \<Rightarrow> u32 \<Rightarrow> nat \<Rightarrow> u32 list \<times> u32 \<Rightarrow> (u32 list \<times> u32) option" where
  "decode_level enc n M k = for_down n (decode_pair enc M k)"

definition decode_final :: "u8 list \<Rightarrow> u32 list \<Rightarrow> (u32 list \<times> u32) option" where
  "decode_final enc buf = do {
     b \<leftarrow> rd enc 864;
     (r, ptr) \<leftarrow> fetch 2 enc (ucast b) (864 - 1);
     buf \<leftarrow> wr buf 2 (r div 71);
     (r, ptr) \<leftarrow> fetch 1 enc (r mod 71) ptr;
     buf \<leftarrow> wr buf 1 (r div 134);
     buf \<leftarrow> wr buf 0 (r mod 134);
     Some (buf, ptr) }"

definition decode_convert :: "u32 \<Rightarrow> u32 list \<times> u16 list \<Rightarrow> (u32 list \<times> u16 list) option" where
  "decode_convert i = (\<lambda>(buf, poly). do {
     x \<leftarrow> rd buf i;
     buf \<leftarrow> wr buf i (x * 3);
     y \<leftarrow> rd buf i;
     let p = uint32_cmp_ge_branch y ((NTRU_LPR_Q - 1) div 2) (y - (NTRU_LPR_Q - 1) div 2) (y + (NTRU_LPR_Q + 1) div 2);
     poly \<leftarrow> wr poly i (ucast p);
     Some (buf, poly) })"

definition ntrulpr_653_decode_poly_round :: "u32 list \<Rightarrow> u8 list \<Rightarrow> u16 list \<Rightarrow> u16 list option" where
  "ntrulpr_653_decode_poly_round buf enc poly = do {
     (buf, ptr) \<leftarrow> decode_final enc buf;
     (buf, ptr) \<leftarrow> decode_pair enc 2953 1 2 (buf, ptr);
     (buf, ptr) \<leftarrow> decode_pair enc 2953 2 1 (buf, ptr);
     (buf, ptr) \<leftarrow> decode_pair enc 2953 2 0 (buf, ptr);
     buf \<leftarrow> copy_item 10 5 buf;
     (buf, ptr) \<leftarrow> decode_level enc 5 13910 2 (buf, ptr);
     buf \<leftarrow> copy_item 20 10 buf;
     (buf, ptr) \<leftarrow> decode_level enc 10 1887 1 (buf, ptr);
     buf \<leftarrow> copy_item 40 20 buf;
     (buf, ptr) \<leftarrow> decode_level enc 20 695 1 (buf, ptr);
     (buf, ptr) \<leftarrow> decode_pair enc 6745 2 40 (buf, ptr);
     (buf, ptr) \<leftarrow> decode_level enc 40 6745 2 (buf, ptr);
     (buf, ptr) \<leftarrow> decode_pair enc 1314 1 81 (buf, ptr);
     (buf, ptr) \<leftarrow> decode_level enc 81 1314 1 (buf, ptr);
     buf \<leftarrow> copy_item 326 163 buf;
     (buf, ptr) \<leftarrow> decode_level enc 163 9277 2 (buf, ptr);
     buf \<leftarrow> copy_item 652 326 buf;
     (buf, ptr) \<leftarrow> decode_level enc 326 1541 1 (buf, ptr);
     (buf, poly) \<leftarrow> for_up 0 653 decode_convert (buf, poly);
     Some poly }"

end
