(* ===== verification/NtruMult.thy ===== *)
theory NtruMult
  imports NtruEncode
begin

text \<open>
  The ring behind NTRU LPRime: vectors of 653 coefficients modulo \<open>x^653 - x - 1\<close>.  Multiplication
  by a polynomial is a sum of powers of the multiplication by \<open>x\<close>, so any two such multiplications
  commute; a product with a short polynomial of small vectors is small.

  Multiplication by a short polynomial and rounding (\<open>ntrulpr_653_poly_mult_short\<close> and
  \<open>ntrulpr_653_round\<close> of \<open>src/crypto/pk/ntru_lprime/utility.c\<close>), over this ring.
\<close>

type_synonym poly = "nat \<Rightarrow> int"

text \<open>\<open>x^653 = x + 1\<close>: the highest coefficient goes to the first and the second place.\<close>

definition xtimes :: "poly \<Rightarrow> poly" where
  "xtimes f k = (if k = 0 then f 652 else if k = 1 then f 0 + f 652 else f (k - 1))"

definition pmult :: "poly \<Rightarrow> poly \<Rightarrow> poly" where
  "pmult a f k = (\<Sum>i<653. a i * (xtimes ^^ i) f k)"

lemma xtimes_simps [simp]:
  "xtimes f 0 = f 652" "xtimes f (Suc 0) = f 0 + f 652" "k \<noteq> 0 \<Longrightarrow> xtimes f (Suc k) = f k"
  by (simp_all add: xtimes_def)

section \<open>Linearity\<close>

lemma xtimes_add: "xtimes (\<lambda>k. f k + g k) = (\<lambda>k. xtimes f k + xtimes g k)"
  by (auto simp: xtimes_def)

lemma xtimes_scale: "xtimes (\<lambda>k. c * f k) = (\<lambda>k. c * xtimes f k)"
  by (auto simp: xtimes_def distrib_left)

lemma xpow_add: "(xtimes ^^ i) (\<lambda>k. f k + g k) = (\<lambda>k. (xtimes ^^ i) f k + (xtimes ^^ i) g k)"
  by (induction i) (simp_all add: xtimes_add)

lemma xpow_scale: "(xtimes ^^ i) (\<lambda>k. c * f k) = (\<lambda>k. c * (xtimes ^^ i) f k)"
  by (induction i) (simp_all add: xtimes_scale)

lemma xpow_zero: "(xtimes ^^ i) (\<lambda>k. 0) = (\<lambda>k. 0)"
  using xpow_scale [of i 0 "\<lambda>k. 0"] by simp

lemma xpow_sum: "finite A \<Longrightarrow> (xtimes ^^ i) (\<lambda>k. \<Sum>j\<in>A. c j * f j k) = (\<lambda>k. \<Sum>j\<in>A. c j * (xtimes ^^ i) (f j) k)"
  by (induction A rule: finite_induct) (simp_all add: xpow_zero xpow_add xpow_scale)

lemma pmult_add: "pmult a (\<lambda>k. f k + g k) k = pmult a f k + pmult a g k"
  by (simp add: pmult_def xpow_add distrib_left sum.distrib)

lemma pmult_scale: "pmult a (\<lambda>k. c * f k) k = c * pmult a f k"
  by (simp add: pmult_def xpow_scale sum_distrib_left algebra_simps)

lemma pmult_commute: "pmult a (pmult b f) = pmult b (pmult a f)"
proof
  fix k
  have expand: "pmult a (pmult b f) k = (\<Sum>i<653. \<Sum>j<653. a i * (b j * (xtimes ^^ (i + j)) f k))" for a b :: poly
  proof -
    have "pmult b f = (\<lambda>k. \<Sum>j<653. b j * (xtimes ^^ j) f k)" by (simp add: fun_eq_iff pmult_def)
    then have "pmult a (pmult b f) k = (\<Sum>i<653. a i * (\<Sum>j<653. b j * (xtimes ^^ i) ((xtimes ^^ j) f) k))"
      unfolding pmult_def [of a] by (simp only: xpow_sum finite_lessThan)
    then show ?thesis by (simp add: sum_distrib_left funpow_add)
  qed
  have "pmult a (pmult b f) k = (\<Sum>j<653. \<Sum>i<653. a i * (b j * (xtimes ^^ (i + j)) f k))"
    unfolding expand by (rule sum.swap)
  also have "\<dots> = pmult b (pmult a f) k"
    unfolding expand by (intro sum.cong refl) (simp add: add.commute algebra_simps)
  finally show "pmult a (pmult b f) k = pmult b (pmult a f) k" .
qed

section \<open>Congruence\<close>

text \<open>Only the first 653 coefficients count, and they count modulo any number.\<close>

lemma xpow_cong:
  assumes "\<And>k. k < 653 \<Longrightarrow> f k mod q = g k mod q" "k < 653"
  shows "(xtimes ^^ i) f k mod q = (xtimes ^^ i) g k mod q"
  using assms(2)
proof (induction i arbitrary: k)
  case 0
  then show ?case using assms(1) by simp
next
  case (Suc i)
  consider "k = 0" | "k = Suc 0" | k' where "k = Suc k'" "k' \<noteq> 0" by (metis not0_implies_Suc)
  then show ?case
  proof cases
    case 2
    have "((xtimes ^^ i) f 0 + (xtimes ^^ i) f 652) mod q = ((xtimes ^^ i) g 0 + (xtimes ^^ i) g 652) mod q"
      by (rule mod_add_cong) (simp_all add: Suc.IH)
    then show ?thesis using 2 by simp
  qed (use Suc in simp_all)
qed

lemma pmult_cong:
  assumes "\<And>i. i < 653 \<Longrightarrow> a i = b i" "\<And>k. k < 653 \<Longrightarrow> f k mod q = g k mod q" "k < 653"
  shows "pmult a f k mod q = pmult b g k mod q"
proof -
  have "pmult a f k mod q = (\<Sum>i<653. (a i * (xtimes ^^ i) f k) mod q) mod q" by (simp add: pmult_def mod_sum_eq)
  also have "\<dots> = (\<Sum>i<653. (b i * (xtimes ^^ i) g k) mod q) mod q"
  proof (rule arg_cong [where f = "\<lambda>s. s mod q"], rule sum.cong [OF refl])
    fix i :: nat assume "i \<in> {..<653}"
    then show "(a i * (xtimes ^^ i) f k) mod q = (b i * (xtimes ^^ i) g k) mod q"
      using mod_mult_cong [OF refl xpow_cong [OF assms(2,3)]] assms(1) by simp
  qed
  also have "\<dots> = pmult b g k mod q" by (simp add: pmult_def mod_sum_eq)
  finally show ?thesis .
qed

section \<open>Small products\<close>

text \<open>A coefficient of \<open>x^i f\<close> is the sum of at most two coefficients of \<open>f\<close>.\<close>

lemma xpow_coeff:
  assumes "i < 653" "k < 653"
  shows "(xtimes ^^ i) f k =
    (if k < i then f (653 + k - i) + (if k = 0 then 0 else f (652 + k - i))
     else if k = i \<and> k \<noteq> 0 then f 0 + f 652 else f (k - i))"
  using assms
proof (induction i arbitrary: k)
  case (Suc i)
  have top: "(xtimes ^^ i) f 652 = f (652 - i)" using Suc.IH [of 652] Suc.prems by (simp split: if_splits)
  have bottom: "(xtimes ^^ i) f 0 = (if 0 < i then f (653 - i) else f 0)" using Suc.IH [of 0] Suc.prems by simp
  consider "k = 0" | "k = Suc 0" | k' where "k = Suc k'" "k' \<noteq> 0" by (metis not0_implies_Suc)
  then show ?case
  proof cases
    case 1
    then show ?thesis using top by simp
  next
    case 2
    then show ?thesis using top bottom Suc.prems by (cases i) simp_all
  next
    case 3
    then show ?thesis using Suc.IH [of k'] Suc.prems by auto
  qed
qed simp

lemma xpow_small:
  assumes "i < 653" "k < 653" "\<And>j. j < 653 \<Longrightarrow> \<bar>f j\<bar> \<le> 1"
  shows "\<bar>(xtimes ^^ i) f k\<bar> \<le> 2"
proof -
  have f: "- 1 \<le> f j \<and> f j \<le> 1" if "j < 653" for j using assms(3) [OF that] by (simp add: abs_le_iff)
  have "k < i \<Longrightarrow> 653 + k - i < 653 \<and> 652 + k - i < 653" "k - i < 653" using assms(2) by auto
  then show ?thesis
    unfolding xpow_coeff [OF assms(1,2)] using f [of "653 + k - i"] f [of "652 + k - i"] f [of 0] f [of 652] f [of "k - i"]
    by auto
qed

text \<open>A short polynomial of weight \<open>w\<close> has \<open>w\<close> coefficients that are 1 or -1.\<close>

definition short :: "nat \<Rightarrow> poly \<Rightarrow> bool" where
  "short w a \<longleftrightarrow> (\<forall>i < 653. \<bar>a i\<bar> \<le> 1) \<and> card {i. i < 653 \<and> a i \<noteq> 0} = w"

lemma pmult_small:
  assumes "short w a" "\<And>j. j < 653 \<Longrightarrow> \<bar>e j\<bar> \<le> 1" "k < 653"
  shows "\<bar>pmult a e k\<bar> \<le> 2 * int w"
proof -
  let ?S = "{i. i < 653 \<and> a i \<noteq> 0}"
  have "\<bar>pmult a e k\<bar> \<le> (\<Sum>i<653. \<bar>a i * (xtimes ^^ i) e k\<bar>)" unfolding pmult_def by (rule sum_abs)
  also have "\<dots> = (\<Sum>i\<in>?S. \<bar>a i * (xtimes ^^ i) e k\<bar>)"
    by (rule sum.mono_neutral_right) auto
  also have "\<dots> \<le> (\<Sum>i\<in>?S. 2)"
  proof (rule sum_mono)
    fix i assume "i \<in> ?S"
    then have "\<bar>a i\<bar> \<le> 1" "i < 653" using assms(1) by (auto simp: short_def)
    then have "\<bar>a i\<bar> * \<bar>(xtimes ^^ i) e k\<bar> \<le> 1 * 2" using xpow_small [of i k e] assms(2,3) by (intro mult_mono) auto
    then show "\<bar>a i * (xtimes ^^ i) e k\<bar> \<le> 2" by (simp add: abs_mult)
  qed
  also have "\<dots> = 2 * int w" using assms(1) by (simp add: short_def)
  finally show ?thesis .
qed

section \<open>Multiplication\<close>

definition NTRU_LPR_P :: u32 where "NTRU_LPR_P = 653"

text \<open>\<open>memset\<close> and \<open>memcpy\<close> on whole elements.\<close>

definition zero_items :: "'a :: zero list \<Rightarrow> u32 \<Rightarrow> 'a list option" where
  "zero_items out n = (if unat n \<le> length out then Some (replicate (unat n) 0 @ drop (unat n) out) else None)"

definition copy_items :: "'a list \<Rightarrow> u32 \<Rightarrow> 'a list option" where
  "copy_items src n = (if unat n \<le> length src then Some (take (unat n) src) else None)"

text \<open>Each coefficient of a short polynomial is 2 bits: 0 stands for -1, 1 for 0 and 2 for 1.\<close>

definition mult_addent :: "u32 \<Rightarrow> u32 \<Rightarrow> u32" where
  "mult_addent coeff g = uint32_cmp_ge_branch coeff 1 (uint32_cmp_ge_branch coeff 2 g 0) (NTRU_LPR_Q - g)"

definition reduce_once :: "u32 \<Rightarrow> u32" where
  "reduce_once x = uint32_cmp_ge_branch x NTRU_LPR_Q (x - NTRU_LPR_Q) x"

definition mult_set :: "u32 \<Rightarrow> u16 list \<Rightarrow> u32 \<Rightarrow> u16 list \<Rightarrow> u16 list option" where
  "mult_set coeff0 g_times_xi j out = do {
     g \<leftarrow> rd g_times_xi j;
     wr out j (ucast (reduce_once (mult_addent coeff0 (ucast g)))) }"

definition mult_add :: "u32 \<Rightarrow> u16 list \<Rightarrow> u32 \<Rightarrow> u32 \<Rightarrow> u16 list \<Rightarrow> u16 list option" where
  "mult_add coeff g_times_xi j k out = do {
     g \<leftarrow> rd g_times_xi j;
     x \<leftarrow> rd out k;
     wr out k (ucast (reduce_once (mult_addent coeff (ucast g) + ucast x))) }"

definition linear_term :: "u16 list \<Rightarrow> u32 \<Rightarrow> u32 \<Rightarrow> u16 list option" where
  "linear_term g_times_xi hi lo = do {
     x \<leftarrow> rd g_times_xi hi;
     y \<leftarrow> rd g_times_xi lo;
     wr g_times_xi lo (ucast (reduce_once (ucast x + ucast y))) }"

definition short_coeff :: "u8 list \<Rightarrow> u32 \<Rightarrow> u32 option" where
  "short_coeff a i = do {
     b \<leftarrow> rd a (drop_bit 2 i);
     Some (drop_bit (unat (2 * (i AND 0x03))) (ucast b) AND 0x03) }"

definition mult_round :: "u8 list \<Rightarrow> u32 \<Rightarrow> u32 \<Rightarrow> u16 list \<times> u16 list \<Rightarrow> (u16 list \<times> u16 list) option" where
  "mult_round a out_terms i = (\<lambda>(g_times_xi, out). do {
     coeff \<leftarrow> short_coeff a i;
     out \<leftarrow> for_c (NTRU_LPR_P - i) (\<lambda>j. j < NTRU_LPR_P \<and> j - (NTRU_LPR_P - i) < out_terms) (\<lambda>j. j + 1)
       (\<lambda>j. mult_add coeff g_times_xi j (j - (NTRU_LPR_P - i))) out;
     out \<leftarrow> for_c 0 (\<lambda>j. j < NTRU_LPR_P - i \<and> j + i < out_terms) (\<lambda>j. j + 1)
       (\<lambda>j. mult_add coeff g_times_xi j (j + i)) out;
     g_times_xi \<leftarrow> linear_term g_times_xi (NTRU_LPR_P - i - 1) (NTRU_LPR_P - i);
     Some (g_times_xi, out) })"

definition ntrulpr_653_poly_mult_short :: "u16 list \<Rightarrow> u8 list \<Rightarrow> u32 \<Rightarrow> u16 list \<Rightarrow> u16 list option" where
  "ntrulpr_653_poly_mult_short g a out_terms out = do {
     out \<leftarrow> zero_items out out_terms;
     g_times_xi \<leftarrow> copy_items g NTRU_LPR_P;
     a0 \<leftarrow> rd a 0;
     let coeff0 = ucast a0 AND 0x03;
     out \<leftarrow> for_up 0 out_terms (mult_set coeff0 g_times_xi) out;
     g_times_xi \<leftarrow> linear_term g_times_xi (NTRU_LPR_P - 1) 0;
     (g_times_xi, out) \<leftarrow> for_up 1 NTRU_LPR_P (mult_round a out_terms) (g_times_xi, out);
     Some out }"

section \<open>Rounding\<close>

definition round_coeff :: "u16 \<Rightarrow> u16" where
  "round_coeff g =
     (let coeff = ucast g :: u64;
          div3 = drop_bit 14 (coeff * 5462);
          rem3 = ucast (coeff - div3 * 3) :: u32;
          round1 = uint32_cmp_ge_branch rem3 1 (uint32_cmp_ge_branch rem3 2 (ucast (coeff + 1)) (ucast (coeff - 1))) (ucast coeff);
          round2 = uint32_cmp_ge_branch rem3 1 (uint32_cmp_ge_branch rem3 2 (ucast (coeff - 1)) (ucast coeff)) (ucast (coeff + 1));
          round2 = uint32_cmp_ge_branch round2 NTRU_LPR_Q 0 round2
      in ucast (uint32_cmp_ge_branch (ucast coeff) ((NTRU_LPR_Q + 1) div 2) round2 round1))"

definition ntrulpr_653_round :: "u16 list \<Rightarrow> u16 list option" where
  "ntrulpr_653_round g = for_up 0 NTRU_LPR_P (\<lambda>i g. do { x \<leftarrow> rd g i; wr g i (round_coeff x) }) g"

section \<open>Reduction\<close>

abbreviation q :: int where "q \<equiv> 4621"

definition small :: "u16 \<Rightarrow> bool" where
  "small x \<longleftrightarrow> unat x < 4621"

definition val :: "u16 \<Rightarrow> int" where
  "val x = int (unat x)"

lemma unat_ucast16: "unat (x :: u32) < 65536 \<Longrightarrow> unat (ucast x :: u16) = unat x"
  by (simp add: unsigned_ucast_eq take_bit_nat_eq_self)

lemma unat_ucast_u16_32: "unat (ucast (p :: u16) :: u32) = unat p"
  using unsigned_less [where 'b = 16 and 'a = nat, of p] by (simp add: unsigned_ucast_eq take_bit_nat_eq_self)

lemma reduce_once:
  assumes "unat x < 9242"
  shows "unat (reduce_once x) = unat x mod 4621"
proof (cases "4621 \<le> unat x")
  case True
  then have "unat (x - 4621) = unat x - 4621" by (subst unat_sub) (simp_all add: word_le_nat_alt)
  moreover have "unat x mod 4621 = unat x - 4621" using True assms by (simp add: mod_if)
  ultimately show ?thesis using True by (simp add: reduce_once_def uint32_cmp_ge_branch_def NTRU_LPR_Q_def word_le_nat_alt)
next
  case False
  then show ?thesis by (simp add: reduce_once_def uint32_cmp_ge_branch_def NTRU_LPR_Q_def word_le_nat_alt)
qed

lemma reduced16: "unat x < 9242 \<Longrightarrow> unat (ucast (reduce_once x) :: u16) = unat x mod 4621"
  using reduce_once [of x] less_trans [of "unat x mod 4621" 4621 65536] by (simp add: unat_ucast16)

text \<open>The coefficient that two bits stand for.\<close>

definition sign :: "u32 \<Rightarrow> int" where
  "sign c = (if c = 0 then - 1 else if c = 1 then 0 else 1)"

lemma mult_addent:
  assumes "unat g \<le> 4621"
  shows "unat (mult_addent c g) \<le> 4621" "int (unat (mult_addent c g)) mod q = (sign c * int (unat g)) mod q"
proof -
  have e: "mult_addent c g = (if c = 0 then 4621 - g else if c = 1 then 0 else g)"
  proof -
    have "unat c = 0 \<or> unat c = 1 \<or> 2 \<le> unat c" by linarith
    then show ?thesis
      by (auto simp: mult_addent_def uint32_cmp_ge_branch_def NTRU_LPR_Q_def word_le_nat_alt word_unat_eq_iff)
  qed
  have u: "unat (4621 - g) = 4621 - unat g" using assms by (subst unat_sub) (simp_all add: word_le_nat_alt)
  then show "unat (mult_addent c g) \<le> 4621" using assms by (simp add: e)
  have "int (unat (4621 - g)) mod q = (- int (unat g)) mod q"
    unfolding u using assms mod_add_self1 [of q "- int (unat g)"] by (simp add: of_nat_diff)
  then show "int (unat (mult_addent c g)) mod q = (sign c * int (unat g)) mod q" unfolding e sign_def by simp
qed

lemma addent_reduced:
  assumes "small g" "unat x < 4621"
  shows "val (ucast (reduce_once (mult_addent c (ucast g) + x))) = (sign c * val g + int (unat x)) mod q"
    "small (ucast (reduce_once (mult_addent c (ucast g) + x)))"
proof -
  have g: "unat (ucast g :: u32) \<le> 4621" using assms(1) by (simp add: small_def unat_ucast_u16_32)
  note m = mult_addent [OF g, of c]
  have s: "unat (mult_addent c (ucast g) + x) = unat (mult_addent c (ucast g)) + unat x"
    using m(1) assms(2) by (simp add: unat_word_ariths)
  then have "unat (mult_addent c (ucast g) + x) < 9242" using m(1) assms(2) by linarith
  note r = reduced16 [OF this]
  have "val (ucast (reduce_once (mult_addent c (ucast g) + x))) = (int (unat (mult_addent c (ucast g))) + int (unat x)) mod q"
    unfolding val_def r s by (simp add: zmod_int)
  also have "\<dots> = (sign c * val g + int (unat x)) mod q"
    using m(2) unfolding unat_ucast_u16_32 val_def by (rule mod_add_cong) simp
  finally show "val (ucast (reduce_once (mult_addent c (ucast g) + x))) = (sign c * val g + int (unat x)) mod q" .
  show "small (ucast (reduce_once (mult_addent c (ucast g) + x)))" by (simp add: small_def r)
qed

section \<open>The loops of a round\<close>

definition smalls :: "u16 list \<Rightarrow> bool" where
  "smalls g \<longleftrightarrow> length g = 653 \<and> (\<forall>k < 653. small (g ! k))"

lemma mult_add_ok:
  assumes "unat j < length gx" "unat k < length out" "small (gx ! unat j)" "small (out ! unat k)"
  shows "\<exists>v. mult_add c gx j k out = Some (out[unat k := v]) \<and> small v \<and>
    val v = (sign c * val (gx ! unat j) + val (out ! unat k)) mod q"
proof -
  have x: "unat (ucast (out ! unat k) :: u32) < 4621" using assms(4) by (simp add: small_def unat_ucast_u16_32)
  note r = addent_reduced [OF assms(3) x, of c]
  show ?thesis
    by (intro exI [of _ "ucast (reduce_once (mult_addent c (ucast (gx ! unat j)) + ucast (out ! unat k)))"] conjI)
      (use assms(1,2) r in \<open>simp_all add: mult_add_def rd_def wr_def val_def unat_ucast_u16_32\<close>)
qed

lemma add_loop:
  assumes len: "\<And>k. k < n \<Longrightarrow> A + k < length gx" "\<And>k. k < n \<Longrightarrow> B + k < length out"
    and sm: "\<And>k. k < n \<Longrightarrow> small (gx ! (A + k))" "\<And>k. k < n \<Longrightarrow> small (out ! (B + k))"
    and j: "\<And>k. k < n \<Longrightarrow> unat (J k) = A + k" "\<And>k. k < n \<Longrightarrow> unat (K k) = B + k"
  shows "\<exists>out'. up n (\<lambda>k. mult_add c gx (J k) (K k)) out = Some out' \<and> length out' = length out \<and>
    (\<forall>k < n. small (out' ! (B + k)) \<and> val (out' ! (B + k)) = (sign c * val (gx ! (A + k)) + val (out ! (B + k))) mod q) \<and>
    (\<forall>k. k < B \<or> B + n \<le> k \<longrightarrow> out' ! k = out ! k)"
proof -
  let ?I = "\<lambda>m out'. length out' = length out \<and>
    (\<forall>k < m. small (out' ! (B + k)) \<and> val (out' ! (B + k)) = (sign c * val (gx ! (A + k)) + val (out ! (B + k))) mod q) \<and>
    (\<forall>k. k < B \<or> B + m \<le> k \<longrightarrow> out' ! k = out ! k)"
  have "\<exists>out'. up n (\<lambda>k. mult_add c gx (J k) (K k)) out = Some out' \<and> ?I n out'"
  proof (rule up_inv [where I = ?I])
    fix k out' assume k: "k < n" and I: "?I k out'"
    have o: "out' ! (B + k) = out ! (B + k)" using I by simp
    obtain v where v: "mult_add c gx (J k) (K k) out' = Some (out'[B + k := v])" "small v"
      "val v = (sign c * val (gx ! (A + k)) + val (out ! (B + k))) mod q"
      using mult_add_ok [of "J k" gx "K k" out' c] j [OF k] len [OF k] sm [OF k] I o by auto
    have "?I (Suc k) (out'[B + k := v])"
      using I v(2,3) len(2) [OF k] by (auto simp: nth_list_update less_Suc_eq)
    then show "\<exists>s'. mult_add c gx (J k) (K k) out' = Some s' \<and> ?I (Suc k) s'" using v(1) by blast
  qed simp
  then show ?thesis by blast
qed

lemma linear_term_ok:
  assumes "unat h < length gx" "unat l < length gx" "small (gx ! unat h)" "small (gx ! unat l)"
  shows "\<exists>v. linear_term gx h l = Some (gx[unat l := v]) \<and> small v \<and> val v = (val (gx ! unat h) + val (gx ! unat l)) mod q"
proof -
  let ?x = "gx ! unat h" and ?y = "gx ! unat l"
  have s: "unat (ucast ?x + ucast ?y :: u32) = unat ?x + unat ?y"
    using assms(3,4) by (simp add: small_def unat_word_ariths unat_ucast_u16_32)
  then have "unat (ucast ?x + ucast ?y :: u32) < 9242" using assms(3,4) by (simp add: small_def)
  note r = reduced16 [OF this]
  show ?thesis
  proof (intro exI conjI)
    show "linear_term gx h l = Some (gx[unat l := ucast (reduce_once (ucast ?x + ucast ?y))])"
      using assms(1,2) by (simp add: linear_term_def rd_def wr_def)
    show "small (ucast (reduce_once (ucast ?x + ucast ?y)))" by (simp add: small_def r)
    show "val (ucast (reduce_once (ucast ?x + ucast ?y))) = (val ?x + val ?y) mod q" unfolding val_def r s by (simp add: zmod_int)
  qed
qed

end
