(* ===== verification/NtruMultOk.thy ===== *)
theory NtruMultOk
  imports NtruMult
begin

text \<open>
  \<open>ntrulpr_653_poly_mult_short\<close> computes the first coefficients of a product in the ring:
  \<open>g_times_xi\<close> holds \<open>x^i g\<close>, rotated by \<open>i\<close> places.
\<close>

section \<open>The rotated array\<close>

definition place :: "nat \<Rightarrow> nat \<Rightarrow> nat" where
  "place i k = (if k < i then 653 - i + k else k - i)"

definition holds :: "nat \<Rightarrow> poly \<Rightarrow> u16 list \<Rightarrow> bool" where
  "holds i f gx \<longleftrightarrow> smalls gx \<and> (\<forall>k < 653. val (gx ! place i k) = (xtimes ^^ i) f k mod q)"

lemma holds_step:
  assumes h: "holds i f gx" and i: "i < 653" and v: "small v" "val v = (val (gx ! (652 - i)) + val (gx ! place i 0)) mod q"
  shows "holds (Suc i) f (gx[place i 0 := v])"
proof -
  have len: "length gx = 653" using h by (simp add: holds_def smalls_def)
  have p0: "place i 0 < 653" "place i 0 \<noteq> 652 - i" using i by (auto simp: place_def)
  have "place i 652 = 652 - i" using i by (simp add: place_def)
  then have x652: "val (gx ! (652 - i)) = (xtimes ^^ i) f 652 mod q" using h unfolding holds_def by (metis lessI numeral_eq_Suc pred_numeral_simps(3) eval_nat_numeral(3))
  have x0: "val (gx ! place i 0) = (xtimes ^^ i) f 0 mod q" using h by (simp add: holds_def)
  have "val (gx[place i 0 := v] ! place (Suc i) k) = (xtimes ^^ Suc i) f k mod q" if k: "k < 653" for k
  proof -
    consider "k = 0" | "k = Suc 0" | k' where "k = Suc k'" "k' \<noteq> 0" by (metis not0_implies_Suc)
    then show ?thesis
    proof cases
      case 1
      then have "place (Suc i) k = 652 - i" by (simp add: place_def)
      then show ?thesis using 1 x652 p0(2) by simp
    next
      case 2
      then have "place (Suc i) k = place i 0" using i by (auto simp: place_def)
      then show ?thesis using 2 v(2) x652 x0 p0(1) len by (simp add: mod_add_eq add.commute)
    next
      case 3
      then have "place (Suc i) k = place i k'" "place i k' \<noteq> place i 0" using k i by (auto simp: place_def)
      then show ?thesis using 3 h k by (simp add: holds_def)
    qed
  qed
  moreover have "smalls (gx[place i 0 := v])" using h v(1) p0(1) by (auto simp: holds_def smalls_def nth_list_update)
  ultimately show ?thesis by (simp add: holds_def)
qed

lemma val_mod: "small x \<Longrightarrow> val x mod q = val x"
proof -
  assume "small x"
  then have "0 \<le> val x" "val x < q" unfolding small_def val_def by linarith+
  then show ?thesis by simp
qed

section \<open>One round\<close>

definition digits :: "u8 list \<Rightarrow> poly" where
  "digits a i = (case short_coeff a (of_nat i) of Some c \<Rightarrow> sign c | None \<Rightarrow> 0)"

lemma short_coeff_Some:
  assumes "i < 653" "164 \<le> length a"
  shows "\<exists>c. short_coeff a (of_nat i) = Some c \<and> digits a i = sign c"
proof -
  have "unat (drop_bit 2 (of_nat i :: u32)) = i div 4"
    using assms(1) by (subst unsigned_drop_bit_eq) (simp add: drop_bit_eq_div take_bit_nat_eq_self unat_of_nat_small)
  then have "unat (drop_bit 2 (of_nat i :: u32)) < length a" using assms by simp
  then show ?thesis by (simp add: short_coeff_def digits_def rd_def)
qed

lemma unat_P_minus: "i < 653 \<Longrightarrow> unat (653 - of_nat i :: u32) = 653 - i"
  by (subst unat_sub) (simp_all add: word_le_nat_alt unat_of_nat_small)

lemma unat_P_plus: "i < 653 \<Longrightarrow> k \<le> 653 \<Longrightarrow> unat (653 - of_nat i + of_nat k :: u32) = 653 - i + k"
  by (simp add: unat_word_ariths unat_P_minus unat_of_nat_small)

lemma upper_loop:
  assumes "0 < i" "i < 653" "n \<le> 653"
  shows "for_c (653 - of_nat i) (\<lambda>j. j < 653 \<and> j - (653 - of_nat i) < of_nat n) (\<lambda>j. j + 1) (\<lambda>j. mult_add c gx j (j - (653 - of_nat i))) out =
    up (min i n) (\<lambda>k. mult_add c gx (653 - of_nat i + of_nat k) (of_nat k)) out"
proof -
  have lt: "(653 - of_nat i + of_nat k :: u32) < 653 \<longleftrightarrow> k < i" "(of_nat k :: u32) < of_nat n \<longleftrightarrow> k < n" if "k \<le> 653" for k
    using that assms unat_P_plus [of i k] by (auto simp: word_less_nat_alt unat_of_nat_small)
  have "for_c (653 - of_nat i) (\<lambda>j. j < 653 \<and> j - (653 - of_nat i) < of_nat n) (\<lambda>j. j + 1) (\<lambda>j. mult_add c gx j (j - (653 - of_nat i))) out =
      up (min i n) (\<lambda>k. mult_add c gx (653 - of_nat i + of_nat k) (653 - of_nat i + of_nat k - (653 - of_nat i))) out"
  proof (rule for_c_up)
    fix k assume "k < min i n"
    then show "653 - of_nat i + of_nat k < (653 :: u32) \<and> 653 - of_nat i + of_nat k - (653 - of_nat i) < (of_nat n :: u32)"
      using lt [of k] assms by simp
  next
    show "\<not> (653 - of_nat i + of_nat (min i n) < (653 :: u32) \<and> 653 - of_nat i + of_nat (min i n) - (653 - of_nat i) < (of_nat n :: u32))"
      using lt [of "min i n"] assms by (auto simp: min_def split: if_splits)
  qed
  then show ?thesis by simp
qed

lemma lower_loop:
  assumes "0 < i" "i < 653" "n \<le> 653"
  shows "for_c 0 (\<lambda>j. j < 653 - of_nat i \<and> j + of_nat i < of_nat n) (\<lambda>j. j + 1) (\<lambda>j. mult_add c gx j (j + of_nat i)) out =
    up (n - i) (\<lambda>k. mult_add c gx (of_nat k) (of_nat (i + k))) out"
proof -
  have lt: "(of_nat k :: u32) < 653 - of_nat i \<longleftrightarrow> k < 653 - i" "(of_nat (k + i) :: u32) < of_nat n \<longleftrightarrow> k + i < n" if "k \<le> 653" for k
    using that assms by (simp_all add: word_less_nat_alt unat_P_minus unat_of_nat_small del: of_nat_add)
  have "for_c 0 (\<lambda>j. j < 653 - of_nat i \<and> j + of_nat i < of_nat n) (\<lambda>j. j + 1) (\<lambda>j. mult_add c gx j (j + of_nat i)) out =
      up (n - i) (\<lambda>k. mult_add c gx (0 + of_nat k) (0 + of_nat k + of_nat i)) out"
    by (rule for_c_up) (use lt assms in auto)
  then show ?thesis by (simp add: add.commute)
qed

lemma round_out:
  assumes h: "holds i f gx" and i: "0 < i" "i < 653" and n: "n \<le> 653" "n \<le> length out" and out: "\<forall>k < n. small (out ! k)"
  shows "\<exists>out1 out'. up (min i n) (\<lambda>k. mult_add c gx (653 - of_nat i + of_nat k) (of_nat k)) out = Some out1 \<and>
    up (n - i) (\<lambda>k. mult_add c gx (of_nat k) (of_nat (i + k))) out1 = Some out' \<and> length out' = length out \<and>
    (\<forall>k < n. small (out' ! k) \<and> val (out' ! k) = (sign c * (xtimes ^^ i) f k + val (out ! k)) mod q) \<and> (\<forall>k \<ge> n. out' ! k = out ! k)"
proof -
  have gx: "length gx = 653" "\<And>k. k < 653 \<Longrightarrow> small (gx ! k)" using h by (auto simp: holds_def smalls_def)
  have "\<exists>out1. up (min i n) (\<lambda>k. mult_add c gx (653 - of_nat i + of_nat k) (of_nat k)) out = Some out1 \<and> length out1 = length out \<and>
      (\<forall>k < min i n. small (out1 ! (0 + k)) \<and> val (out1 ! (0 + k)) = (sign c * val (gx ! (653 - i + k)) + val (out ! (0 + k))) mod q) \<and>
      (\<forall>k. k < 0 \<or> 0 + min i n \<le> k \<longrightarrow> out1 ! k = out ! k)"
    by (rule add_loop) (use gx i n out in \<open>auto simp: unat_P_plus unat_of_nat_small\<close>)
  then obtain out1 where 1: "up (min i n) (\<lambda>k. mult_add c gx (653 - of_nat i + of_nat k) (of_nat k)) out = Some out1" "length out1 = length out"
    "\<And>k. k < min i n \<Longrightarrow> small (out1 ! k) \<and> val (out1 ! k) = (sign c * val (gx ! (653 - i + k)) + val (out ! k)) mod q"
    "\<And>k. min i n \<le> k \<Longrightarrow> out1 ! k = out ! k" by auto
  have s1: "small (out1 ! k)" if "k < n" for k using 1(3,4) [of k] out that by (cases "k < min i n") auto
  have "\<exists>out'. up (n - i) (\<lambda>k. mult_add c gx (of_nat k) (of_nat (i + k))) out1 = Some out' \<and> length out' = length out1 \<and>
      (\<forall>k < n - i. small (out' ! (i + k)) \<and> val (out' ! (i + k)) = (sign c * val (gx ! (0 + k)) + val (out1 ! (i + k))) mod q) \<and>
      (\<forall>k. k < i \<or> i + (n - i) \<le> k \<longrightarrow> out' ! k = out1 ! k)"
    by (rule add_loop) (use gx i n s1 1(2) in \<open>auto simp: unat_of_nat_small simp del: of_nat_add\<close>)
  then obtain out' where 2: "up (n - i) (\<lambda>k. mult_add c gx (of_nat k) (of_nat (i + k))) out1 = Some out'" "length out' = length out1"
    "\<And>k. k < n - i \<Longrightarrow> small (out' ! (i + k)) \<and> val (out' ! (i + k)) = (sign c * val (gx ! k) + val (out1 ! (i + k))) mod q"
    "\<And>k. k < i \<or> i + (n - i) \<le> k \<Longrightarrow> out' ! k = out1 ! k" by auto
  have "small (out' ! k) \<and> val (out' ! k) = (sign c * (xtimes ^^ i) f k + val (out ! k)) mod q" if k: "k < n" for k
  proof -
    have x: "val (gx ! place i k) = (xtimes ^^ i) f k mod q" using h k n(1) by (simp add: holds_def)
    have "small (out' ! k) \<and> val (out' ! k) = (sign c * val (gx ! place i k) + val (out ! k)) mod q"
    proof (cases "k < i")
      case True
      then show ?thesis using 1(3) [of k] 2(4) [of k] k by (simp add: place_def)
    next
      case False
      then show ?thesis using 1(4) [of k] 2(3) [of "k - i"] k by (simp add: place_def)
    qed
    moreover have "(sign c * ((xtimes ^^ i) f k mod q) + val (out ! k)) mod q = (sign c * (xtimes ^^ i) f k + val (out ! k)) mod q"
      by (rule mod_add_cong) (simp_all add: mod_mult_right_eq)
    ultimately show ?thesis unfolding x by simp
  qed
  moreover have "out' ! k = out ! k" if "n \<le> k" for k
  proof -
    have "k < i \<or> i + (n - i) \<le> k" "min i n \<le> k" using that by auto
    then show ?thesis using 1(4) 2(4) by simp
  qed
  ultimately show ?thesis using 1(1,2) 2(1,2) by auto
qed

lemma round_ok:
  assumes h: "holds i f gx" and i: "0 < i" "i < 653" and a: "164 \<le> length a"
    and n: "n \<le> 653" "n \<le> length out" and out: "\<forall>k < n. small (out ! k)"
  shows "\<exists>gx' out'. mult_round a (of_nat n) (of_nat i) (gx, out) = Some (gx', out') \<and> holds (Suc i) f gx' \<and> length out' = length out \<and>
    (\<forall>k < n. small (out' ! k) \<and> val (out' ! k) = (digits a i * (xtimes ^^ i) f k + val (out ! k)) mod q) \<and> (\<forall>k \<ge> n. out' ! k = out ! k)"
proof -
  obtain c where c: "short_coeff a (of_nat i) = Some c" "digits a i = sign c" using short_coeff_Some [OF i(2) a] by blast
  obtain out1 out' where o: "up (min i n) (\<lambda>k. mult_add c gx (653 - of_nat i + of_nat k) (of_nat k)) out = Some out1"
    "up (n - i) (\<lambda>k. mult_add c gx (of_nat k) (of_nat (i + k))) out1 = Some out'" "length out' = length out"
    "\<forall>k < n. small (out' ! k) \<and> val (out' ! k) = (sign c * (xtimes ^^ i) f k + val (out ! k)) mod q" "\<forall>k \<ge> n. out' ! k = out ! k"
    using round_out [OF h i n out, of c] by blast
  have gx: "length gx = 653" "\<And>k. k < 653 \<Longrightarrow> small (gx ! k)" using h by (auto simp: holds_def smalls_def)
  have u: "unat (653 - of_nat i :: u32) = 653 - i" by (rule unat_P_minus [OF i(2)])
  have u': "unat (653 - of_nat i - 1 :: u32) = 652 - i" using u i by (subst unat_minus_one) (auto simp: word_unat_eq_iff)
  have p0: "place i 0 = 653 - i" using i(1) by (simp add: place_def)
  have "\<exists>v. linear_term gx (653 - of_nat i - 1) (653 - of_nat i) = Some (gx[653 - i := v]) \<and> small v \<and>
      val v = (val (gx ! (652 - i)) + val (gx ! (653 - i))) mod q"
  proof (rule linear_term_ok [of "653 - of_nat i - 1" gx "653 - of_nat i", unfolded u u' gx(1)])
    show lt: "652 - i < 653" "653 - i < 653" using i by arith+
    show "small (gx ! (652 - i))" "small (gx ! (653 - i))" using gx(2) lt by blast+
  qed
  then obtain v where v: "linear_term gx (653 - of_nat i - 1) (653 - of_nat i) = Some (gx[place i 0 := v])" "small v"
    "val v = (val (gx ! (652 - i)) + val (gx ! place i 0)) mod q" unfolding p0 by blast
  have run: "mult_round a (of_nat n) (of_nat i) (gx, out) = Some (gx[place i 0 := v], out')"
    by (simp only: mult_round_def NTRU_LPR_P_def prod.case c(1) Option.bind.bind_lunit upper_loop [OF i n(1)] lower_loop [OF i n(1)] o(1,2) v(1))
  show ?thesis unfolding c(2) by (intro exI conjI) (rule run holds_step [OF h i(2) v(2,3)] o(3-5))+
qed

section \<open>The product\<close>

definition coeffs :: "u16 list \<Rightarrow> poly" where
  "coeffs g k = val (g ! k)"

lemma first_row:
  assumes "length gx = 653" "\<forall>k < 653. small (gx ! k)" "n \<le> 653" "length out = m" "n \<le> m" "\<forall>k < n. out ! k = 0"
  shows "\<exists>out'. for_up 0 (of_nat n) (mult_set c gx) out = Some out' \<and> length out' = m \<and>
    (\<forall>k < n. small (out' ! k) \<and> val (out' ! k) = (sign c * val (gx ! k)) mod q) \<and> (\<forall>k \<ge> n. out' ! k = out ! k)"
proof -
  let ?I = "\<lambda>j out'. length out' = m \<and> (\<forall>k < j. small (out' ! k) \<and> val (out' ! k) = (sign c * val (gx ! k)) mod q) \<and> (\<forall>k \<ge> j. out' ! k = out ! k)"
  have u: "unat (of_nat n :: u32) = n" using assms(3) by (simp add: unat_of_nat_small)
  have "\<exists>out'. up n (\<lambda>k. mult_set c gx (of_nat k)) out = Some out' \<and> ?I n out'"
  proof (rule up_inv [where I = ?I])
    fix k out' assume k: "k < n" and I: "?I k out'"
    let ?v = "ucast (reduce_once (mult_addent c (ucast (gx ! k)))) :: u16"
    have sm: "small (gx ! k)" using assms(2,3) k by simp
    note r = addent_reduced [OF sm, of 0 c, simplified]
    have uk: "unat (of_nat k :: u32) = k" using k assms(3) by (simp add: unat_of_nat_small)
    have "mult_set c gx (of_nat k) out' = Some (out'[k := ?v])"
      using uk k assms(1,3,5) I by (simp add: mult_set_def rd_def wr_def)
    moreover have "?I (Suc k) (out'[k := ?v])" using I r assms(5) k by (auto simp: nth_list_update less_Suc_eq)
    ultimately show "\<exists>s'. mult_set c gx (of_nat k) out' = Some s' \<and> ?I (Suc k) s'" by blast
  qed (use assms(4) in simp)
  then show ?thesis unfolding for_up_0 u by blast
qed

lemma poly_mult_ok:
  assumes g: "653 \<le> length g" "\<forall>k < 653. small (g ! k)" and a: "164 \<le> length a" and n: "n \<le> 653" "n \<le> length out"
  shows "\<exists>out'. ntrulpr_653_poly_mult_short g a (of_nat n) out = Some out' \<and> length out' = length out \<and>
    (\<forall>k < n. small (out' ! k) \<and> val (out' ! k) = pmult (digits a) (coeffs g) k mod q) \<and> (\<forall>k \<ge> n. out' ! k = out ! k)"
proof -
  let ?f = "coeffs g" and ?gx = "take 653 g" and ?z = "replicate n 0 @ drop n out"
  have un: "unat (of_nat n :: u32) = n" using n(1) by (simp add: unat_of_nat_small)
  obtain c where c: "short_coeff a (of_nat 0) = Some c" "digits a 0 = sign c" using short_coeff_Some [of 0 a] a by auto
  then have c': "rd a 0 = Some (a ! 0)" "ucast (a ! 0) AND 0x03 = c" using a by (cases a; auto simp: short_coeff_def rd_def)+
  have gx: "length ?gx = 653" "\<forall>k < 653. small (?gx ! k)" using g by auto
  obtain out0 where o: "for_up 0 (of_nat n) (mult_set c ?gx) ?z = Some out0" "length out0 = length out"
    "\<forall>k < n. small (out0 ! k) \<and> val (out0 ! k) = (sign c * val (?gx ! k)) mod q" "\<forall>k \<ge> n. out0 ! k = ?z ! k"
    using first_row [OF gx n(1), of ?z "length out" c] n by (auto simp: nth_append)
  have h0: "holds 0 ?f ?gx" using gx g by (simp add: holds_def smalls_def place_def coeffs_def val_mod)
  obtain v where v: "linear_term ?gx 652 0 = Some (?gx[0 := v])" "small v" "val v = (val (?gx ! 652) + val (?gx ! 0)) mod q"
    using linear_term_ok [of 652 ?gx 0] gx g(1) by auto
  have h1: "holds 1 ?f (?gx[0 := v])" using holds_step [OF h0, of v] v by (simp add: place_def)
  let ?I = "\<lambda>m (gx, out'). holds (Suc m) ?f gx \<and> length out' = length out \<and>
    (\<forall>k < n. small (out' ! k) \<and> val (out' ! k) = (\<Sum>i<Suc m. digits a i * (xtimes ^^ i) ?f k) mod q) \<and> (\<forall>k \<ge> n. out' ! k = out ! k)"
  have loop: "for_up 1 NTRU_LPR_P (mult_round a (of_nat n)) (?gx[0 := v], out0) =
      up 652 (\<lambda>k. mult_round a (of_nat n) (1 + of_nat k)) (?gx[0 := v], out0)"
  proof (rule for_c_up)
    fix k :: nat assume "k < 652"
    then have "unat (1 + of_nat k :: u32) = 1 + k" using unat_of_nat_small [of "1 + k"] by simp
    then show "1 + of_nat k < NTRU_LPR_P" using \<open>k < 652\<close> by (simp add: word_less_nat_alt NTRU_LPR_P_def)
  qed (simp add: NTRU_LPR_P_def)
  have "\<exists>s. up 652 (\<lambda>k. mult_round a (of_nat n) (1 + of_nat k)) (?gx[0 := v], out0) = Some s \<and> ?I 652 s"
  proof (rule up_inv [where I = ?I])
    show "?I 0 (?gx[0 := v], out0)" using h1 o(2-4) c(2) n g by (auto simp: coeffs_def nth_append)
  next
    fix k s assume k: "k < 652" and I: "?I k s"
    obtain gx' out' where s: "s = (gx', out')" by (cases s)
    have I': "holds (Suc k) ?f gx'" "length out' = length out" "\<forall>k < n. small (out' ! k)" "n \<le> length out'" using I n by (auto simp: s)
    have "(1 + of_nat k :: u32) = of_nat (Suc k)" by simp
    moreover obtain gx'' out'' where r: "mult_round a (of_nat n) (of_nat (Suc k)) (gx', out') = Some (gx'', out'')"
      "holds (Suc (Suc k)) ?f gx''" "length out'' = length out'"
      "\<forall>j < n. small (out'' ! j) \<and> val (out'' ! j) = (digits a (Suc k) * (xtimes ^^ Suc k) ?f j + val (out' ! j)) mod q" "\<forall>j \<ge> n. out'' ! j = out' ! j"
      using round_ok [OF I'(1) _ _ a n(1) I'(4,3)] k by auto
    moreover have "(digits a (Suc k) * (xtimes ^^ Suc k) ?f j + val (out' ! j)) mod q = (\<Sum>i<Suc (Suc k). digits a i * (xtimes ^^ i) ?f j) mod q"
      if "j < n" for j
    proof -
      have "val (out' ! j) = (\<Sum>i<Suc k. digits a i * (xtimes ^^ i) ?f j) mod q" using I that by (simp add: s)
      then show ?thesis by (simp only: mod_add_right_eq sum.lessThan_Suc [of _ "Suc k"] add.commute)
    qed
    ultimately have "mult_round a (of_nat n) (1 + of_nat k) s = Some (gx'', out'') \<and> ?I (Suc k) (gx'', out'')"
      using I unfolding s by (simp del: sum.lessThan_Suc funpow.simps)
    then show "\<exists>s'. mult_round a (of_nat n) (1 + of_nat k) s = Some s' \<and> ?I (Suc k) s'" by blast
  qed
  then obtain gx' out' where "for_up 1 NTRU_LPR_P (mult_round a (of_nat n)) (?gx[0 := v], out0) = Some (gx', out')" "?I 652 (gx', out')"
    unfolding loop by blast
  then show ?thesis
    using o(1) v(1) c' g n un
    by (simp add: ntrulpr_653_poly_mult_short_def zero_items_def copy_items_def NTRU_LPR_P_def pmult_def Let_def)
qed

text \<open>C23: \<open>ntrulpr_653_poly_mult_short\<close> computes the product in the ring of polynomials modulo \<open>x^653 - x - 1\<close>
  and 4621: the rotating array never leaves its bounds, the sums never wrap around, and the first
  coefficients of the product, all of them reduced, are written.\<close>

theorem poly_mult_short_correct:
  assumes g: "653 \<le> length g" "\<forall>k < 653. small (g ! k)" and a: "164 \<le> length a" and n: "n \<le> 653" "n \<le> length out"
  shows "\<exists>out'. ntrulpr_653_poly_mult_short g a (of_nat n) out = Some out' \<and> length out' = length out \<and>
    (\<forall>k < n. small (out' ! k) \<and> val (out' ! k) = pmult (digits a) (coeffs g) k mod q) \<and> (\<forall>k \<ge> n. out' ! k = out ! k)"
  by (rule poly_mult_ok [OF assms])

lemma poly_mult_short_correct_witness:
  "\<exists>out'. ntrulpr_653_poly_mult_short (replicate 653 5) (replicate 164 0x46) (of_nat 256) (replicate 256 9) = Some out' \<and> length out' = 256 \<and>
    (\<forall>k < 256. small (out' ! k) \<and> val (out' ! k) = pmult (digits (replicate 164 0x46)) (coeffs (replicate 653 5)) k mod q)"
  using poly_mult_short_correct [of "replicate 653 5" "replicate 164 0x46" 256 "replicate 256 9"] by (auto simp: small_def)

section \<open>Rounding\<close>

lemma unat_ucast_64_32: "unat (w :: u64) < 4294967296 \<Longrightarrow> unat (ucast w :: u32) = unat w"
  by (simp add: unsigned_ucast_eq take_bit_nat_eq_self)

lemma unat_ucast_16_64: "unat (ucast (x :: u16) :: u64) = unat x"
  using unsigned_less [where 'b = 16 and 'a = nat, of x] by (simp add: unsigned_ucast_eq take_bit_nat_eq_self)

lemma barrett_3: "x < 4621 \<Longrightarrow> x * 5462 div 16384 = x div (3 :: nat)"
proof -
  assume x: "x < 4621"
  obtain d m where d: "x = 3 * d + m" "m \<le> 2" "x div 3 = d"
    by (metis mult_div_mod_eq mod_less_divisor zero_less_numeral less_Suc_eq_le numeral_3_eq_3 numeral_2_eq_2)
  have "16384 * d \<le> x * 5462" "x * 5462 < 16384 * Suc d" using x d(1,2) by simp_all
  then show ?thesis unfolding d(3) by (rule div_nat_eqI)
qed

definition round_nat :: "nat \<Rightarrow> nat" where
  "round_nat x =
     (if 2311 \<le> x then (if x mod 3 = 0 then (if x + 1 = 4621 then 0 else x + 1) else if x mod 3 = 1 then (if x = 4621 then 0 else x) else x - 1)
      else (if x mod 3 = 0 then x else if x mod 3 = 1 then x - 1 else x + 1))"

lemma unat_round_coeff:
  assumes "small x"
  shows "unat (round_coeff x) = round_nat (unat x)"
proof -
  let ?x = "unat x" and ?c = "ucast x :: u64"
  have x: "?x < 4621" using assms by (simp add: small_def)
  have c: "unat ?c = ?x" by (rule unat_ucast_16_64)
  have "unat (?c * 5462) = ?x * 5462" using c x by (simp add: unat_word_ariths)
  then have d: "unat (drop_bit 14 (?c * 5462)) = ?x div 3"
    using x barrett_3 [OF x] by (subst unsigned_drop_bit_eq) (simp add: drop_bit_eq_div take_bit_nat_eq_self)
  then have d3: "unat (drop_bit 14 (?c * 5462) * 3) = ?x div 3 * 3" using x by (simp add: unat_word_ariths)
  have "?x div 3 * 3 \<le> ?x" by simp
  then have "unat (?c - drop_bit 14 (?c * 5462) * 3) = ?x - ?x div 3 * 3" using c d3 by (subst unat_sub) (simp_all add: word_le_nat_alt)
  also have "\<dots> = ?x mod 3" by (simp add: minus_div_mult_eq_mod)
  finally have r64: "unat (?c - drop_bit 14 (?c * 5462) * 3) = ?x mod 3" .
  have "?x mod 3 < 3" by simp
  then have r: "unat (ucast (?c - drop_bit 14 (?c * 5462) * 3) :: u32) = ?x mod 3"
    using r64 by (subst unat_ucast_64_32) simp_all
  have p: "unat (ucast (?c + 1) :: u32) = ?x + 1" using c x by (subst unat_ucast_64_32) (simp_all add: unat_word_ariths)
  have m: "unat (ucast (?c - 1) :: u32) = ?x - 1" if "0 < ?x"
    using c x that by (subst unat_ucast_64_32) (simp_all add: unat_sub word_le_nat_alt)
  have e: "unat (ucast ?c :: u32) = ?x" using c x by (subst unat_ucast_64_32) simp_all
  have y: "unat (ucast y :: u16) = unat y" if "unat y < 65536" for y :: u32 using that by (rule unat_ucast16)
  have "?x mod 3 = 0 \<or> ?x mod 3 = 1 \<and> 0 < ?x \<or> ?x mod 3 = 2 \<and> 0 < ?x" by presburger
  then consider "?x mod 3 = 0" | "?x mod 3 = 1" "0 < ?x" | "?x mod 3 = 2" "0 < ?x" by metis
  then show ?thesis
  proof cases
    case 1
    then show ?thesis using x p e r
      by (simp add: round_coeff_def Let_def uint32_cmp_ge_branch_def NTRU_LPR_Q_def word_le_nat_alt round_nat_def y)
  next
    case 2
    then show ?thesis using x p e r m
      by (simp add: round_coeff_def Let_def uint32_cmp_ge_branch_def NTRU_LPR_Q_def word_le_nat_alt round_nat_def y)
  next
    case 3
    then show ?thesis using x p e r m
      by (simp add: round_coeff_def Let_def uint32_cmp_ge_branch_def NTRU_LPR_Q_def word_le_nat_alt round_nat_def y)
  qed
qed

text \<open>The result is a multiple of 3 around 0, at most 1 away.\<close>

lemma round_nat_rounded:
  assumes "x < 4621"
  shows "round_nat x < 4621" "if round_nat x \<le> 2310 then round_nat x mod 3 = 0 else (4621 - round_nat x) mod 3 = 0"
    "\<exists>e \<in> {- 1, 0, 1}. int (round_nat x) = (int x + e) mod q"
proof -
  have m: "x mod 3 = 0 \<or> x mod 3 = 1 \<and> 0 < x \<or> x mod 3 = 2 \<and> 0 < x" by presburger
  show "round_nat x < 4621" using assms m by (auto simp: round_nat_def)
  show "if round_nat x \<le> 2310 then round_nat x mod 3 = 0 else (4621 - round_nat x) mod 3 = 0"
  proof -
    obtain a r where x: "x = 3 * a + r" "r < 3" by (metis mult_div_mod_eq mod_less_divisor zero_less_numeral)
    consider "r = 0" | "r = 1" | "r = 2" using x(2) by linarith
    then show ?thesis
    proof cases
      case 1
      then have "round_nat x = (if 2311 \<le> 3 * a then (if 3 * a = 4620 then 0 else 3 * a + 1) else 3 * a)" using x by (simp add: round_nat_def)
      moreover have "4621 - (3 * a + 1) = 3 * (1540 - a)" using x assms by simp
      ultimately show ?thesis using 1 x assms by auto
    next
      case 2
      then have "round_nat x = (if 2311 \<le> 3 * a + 1 then (if 3 * a + 1 = 4621 then 0 else 3 * a + 1) else 3 * a)" using x by (simp add: round_nat_def)
      moreover have "4621 - (3 * a + 1) = 3 * (1540 - a)" using x assms by simp
      ultimately show ?thesis using 2 x assms by auto
    next
      case 3
      then have "x mod 3 = 2" using x by presburger
      then have "round_nat x = (if 2311 \<le> 3 * a + 2 then 3 * a + 1 else 3 * a + 3)" using 3 x by (simp add: round_nat_def)
      moreover have "4621 - (3 * a + 1) = 3 * (1540 - a)" "3 * a + 3 = 3 * (a + 1)" "3 * a + 2 \<noteq> 2310" using x assms by (simp, simp, presburger)
      ultimately show ?thesis using 3 x assms by auto
    qed
  qed
  have "int (round_nat x) = int x \<or> int (round_nat x) = (int x + 1) mod q \<or> 0 < x \<and> int (round_nat x) = int x - 1"
    using assms m by (auto simp: round_nat_def)
  moreover have "int x mod q = int x" "0 < x \<Longrightarrow> (int x - 1) mod q = int x - 1" using assms by simp_all
  ultimately show "\<exists>e \<in> {- 1, 0, 1}. int (round_nat x) = (int x + e) mod q" by auto
qed

lemma round_ok_list:
  assumes "length g = 653" "\<forall>k < 653. small (g ! k)"
  shows "ntrulpr_653_round g = Some (map round_coeff g)"
proof -
  have u: "unat NTRU_LPR_P = 653" by (simp add: NTRU_LPR_P_def)
  show ?thesis unfolding ntrulpr_653_round_def for_up_0 u
    by (rule up_modify [OF assms(1)]) (simp add: rd_def wr_def unat_of_nat_small)
qed

end
