(* ===== verification/Sponge.thy ===== *)
theory Sponge
  imports Prelude
begin

text \<open>
  The sponge construction of \<open>include/crypto/hash/keccak/keccak_p.h\<close>, over a permutation that is
  a parameter.  The state is the 200 bytes of the array of 25 words.  The functions, which work
  on blocks, are shown equal to a sponge that takes and gives one byte at a time; from this
  follows that a message may be absorbed, and output squeezed, in pieces.
\<close>

section \<open>The functions\<close>

type_synonym perm = "u8 list \<Rightarrow> u8 list"

definition keccak_p_1600_extract_bytes :: "u8 list \<Rightarrow> u32 \<Rightarrow> u32 \<Rightarrow> u8 list option" where
  "keccak_p_1600_extract_bytes state offset len =
     (if unat offset + unat len \<le> length state then Some (take (unat len) (drop (unat offset) state)) else None)"

definition keccak_p_1600_xor_bytes :: "u8 list \<Rightarrow> u8 list \<Rightarrow> u32 \<Rightarrow> u32 \<Rightarrow> u8 list option" where
  "keccak_p_1600_xor_bytes state data offset len =
     (if unat offset + unat len \<le> length state \<and> unat len \<le> length data
      then Some (take (unat offset) state @ map2 (XOR) (take (unat len) (drop (unat offset) state)) (take (unat len) data) @
        drop (unat offset + unat len) state)
      else None)"

definition sponge_keccak_1600_absorb :: "perm \<Rightarrow> u8 list \<Rightarrow> u32 \<Rightarrow> u8 list \<Rightarrow> u64 \<Rightarrow> u32 \<Rightarrow> (u8 list \<times> u32) option" where
  "sponge_keccak_1600_absorb permute state curr_offset data len rate =
     (let t = rate - curr_offset in
      if len < ucast t then do {
        state \<leftarrow> keccak_p_1600_xor_bytes state data curr_offset (ucast len);
        Some (state, curr_offset + ucast len) }
      else do {
        state \<leftarrow> keccak_p_1600_xor_bytes state data curr_offset t;
        (state, data, len) \<leftarrow> while_c (\<lambda>(state, data, len). ucast rate \<le> len) (\<lambda>(state, data, len). do {
            state \<leftarrow> keccak_p_1600_xor_bytes state data 0 rate;
            Some (permute state, drop (unat rate) data, len - ucast rate) })
          (permute state, drop (unat t) data, len - ucast t);
        state \<leftarrow> keccak_p_1600_xor_bytes state data 0 (ucast len);
        Some (state, ucast len) })"

definition sponge_keccak_1600_finalize :: "perm \<Rightarrow> u8 list \<Rightarrow> u32 \<Rightarrow> u8 \<Rightarrow> u32 \<Rightarrow> u8 list option" where
  "sponge_keccak_1600_finalize permute state curr_offset final_byte rate = do {
     state \<leftarrow> (if curr_offset < rate - 1 then do {
         state \<leftarrow> keccak_p_1600_xor_bytes state [final_byte] curr_offset 1;
         keccak_p_1600_xor_bytes state [128] (rate - 1) 1 }
       else keccak_p_1600_xor_bytes state [final_byte OR 128] (rate - 1) 1);
     Some (permute state) }"

text \<open>The bytes written to \<open>out\<close> so far are a list.\<close>

definition sponge_keccak_1600_squeeze :: "perm \<Rightarrow> u8 list \<Rightarrow> u32 \<Rightarrow> u64 \<Rightarrow> u32 \<Rightarrow> (u8 list \<times> u32 \<times> u8 list) option" where
  "sponge_keccak_1600_squeeze permute state curr_offset out_len rate =
     (let (state, curr_offset) = (if curr_offset = rate then (permute state, 0) else (state, curr_offset)) in
      if out_len \<le> ucast (rate - curr_offset) then do {
        out \<leftarrow> keccak_p_1600_extract_bytes state curr_offset (ucast out_len);
        Some (state, curr_offset + ucast out_len, out) }
      else do {
        let t = rate - curr_offset;
        out \<leftarrow> keccak_p_1600_extract_bytes state curr_offset t;
        (state, out, out_len) \<leftarrow> while_c (\<lambda>(state, out, out_len). ucast rate < out_len) (\<lambda>(state, out, out_len). do {
            bs \<leftarrow> keccak_p_1600_extract_bytes state 0 rate;
            Some (permute state, out @ bs, out_len - ucast rate) })
          (permute state, out, out_len - ucast t);
        bs \<leftarrow> keccak_p_1600_extract_bytes state 0 (ucast out_len);
        Some (state, ucast out_len, out @ bs) })"

section \<open>A sponge of single bytes\<close>

definition absorb_byte :: "perm \<Rightarrow> nat \<Rightarrow> u8 list \<times> nat \<Rightarrow> u8 \<Rightarrow> u8 list \<times> nat" where
  "absorb_byte permute rate = (\<lambda>(state, off) b.
     let state = state[off := state ! off XOR b]
     in if Suc off = rate then (permute state, 0) else (state, Suc off))"

definition absorb_bytes :: "perm \<Rightarrow> nat \<Rightarrow> u8 list \<times> nat \<Rightarrow> u8 list \<Rightarrow> u8 list \<times> nat" where
  "absorb_bytes permute rate = foldl (absorb_byte permute rate)"

text \<open>A full position is left only when another byte is asked for.\<close>

fun squeeze_bytes :: "perm \<Rightarrow> nat \<Rightarrow> u8 list \<times> nat \<Rightarrow> nat \<Rightarrow> (u8 list \<times> nat) \<times> u8 list" where
  "squeeze_bytes permute rate (state, off) 0 = ((state, off), [])"
| "squeeze_bytes permute rate (state, off) (Suc n) =
     (let (state, off) = (if off = rate then (permute state, 0) else (state, off));
          (s, bs) = squeeze_bytes permute rate (state, Suc off) n
      in (s, state ! off # bs))"

text \<open>What is known of the permutation and the rate.\<close>

definition sponge_ok :: "perm \<Rightarrow> nat \<Rightarrow> bool" where
  "sponge_ok permute rate \<longleftrightarrow> (\<forall>s. length s = 200 \<longrightarrow> length (permute s) = 200) \<and> 0 < rate \<and> rate \<le> 200"

section \<open>Absorbing\<close>

definition xored :: "u8 list \<Rightarrow> nat \<Rightarrow> u8 list \<Rightarrow> u8 list" where
  "xored s off bs = take off s @ map2 (XOR) (take (length bs) (drop off s)) bs @ drop (off + length bs) s"

lemma length_xored [simp]: "off + length bs \<le> length s \<Longrightarrow> length (xored s off bs) = length s"
  by (simp add: xored_def)

lemma xored_Nil [simp]: "xored s off [] = s"
  by (simp add: xored_def)

lemma xored_Cons: "off < length s \<Longrightarrow> xored s off (b # bs) = xored (s[off := s ! off XOR b]) (Suc off) bs"
  by (simp add: xored_def upd_conv_take_nth_drop take_Suc_conv_app_nth Cons_nth_drop_Suc [symmetric] min_def add.commute)

lemma xor_bytes_Some:
  assumes "unat offset + unat len \<le> length state" "unat len \<le> length data"
  shows "keccak_p_1600_xor_bytes state data offset len = Some (xored state (unat offset) (take (unat len) data))"
  using assms by (simp add: keccak_p_1600_xor_bytes_def xored_def min_def)

lemma absorb_partial:
  "off + length bs < rate \<Longrightarrow> rate \<le> length s \<Longrightarrow> absorb_bytes permute rate (s, off) bs = (xored s off bs, off + length bs)"
proof (induction bs arbitrary: s off)
  case (Cons b bs)
  then show ?case by (simp add: absorb_bytes_def absorb_byte_def xored_Cons Let_def)
qed (simp add: absorb_bytes_def)

lemma absorb_full:
  "off + length bs = rate \<Longrightarrow> bs \<noteq> [] \<Longrightarrow> rate \<le> length s \<Longrightarrow> absorb_bytes permute rate (s, off) bs = (permute (xored s off bs), 0)"
proof (induction bs arbitrary: s off)
  case (Cons b bs)
  then show ?case by (cases bs) (simp_all add: absorb_bytes_def absorb_byte_def xored_Cons Let_def)
qed simp

lemma absorb_append: "absorb_bytes permute rate s (xs @ ys) = absorb_bytes permute rate (absorb_bytes permute rate s xs) ys"
  by (simp add: absorb_bytes_def)

lemma length_absorb_byte:
  "sponge_ok permute rate \<Longrightarrow> length (fst s) = 200 \<Longrightarrow> length (fst (absorb_byte permute rate s b)) = 200"
  by (auto simp: absorb_byte_def sponge_ok_def Let_def split_beta)

lemma absorb_bytes_ok:
  "sponge_ok permute rate \<Longrightarrow> length (fst s) = 200 \<Longrightarrow> snd s < rate \<Longrightarrow>
    length (fst (absorb_bytes permute rate s bs)) = 200 \<and> snd (absorb_bytes permute rate s bs) < rate"
proof (induction bs arbitrary: s)
  case (Cons b bs)
  have "snd (absorb_byte permute rate s b) < rate" using Cons.prems(1,3) by (auto simp: absorb_byte_def sponge_ok_def Let_def split_beta)
  then show ?case using Cons length_absorb_byte [of permute rate s b] by (simp add: absorb_bytes_def)
qed (simp add: absorb_bytes_def)

lemma unat_ucast_32_64 [simp]: "unat (ucast (x :: u32) :: u64) = unat x"
  using unsigned_less [where 'b = 32 and 'a = nat, of x] by (simp add: unsigned_ucast_eq take_bit_nat_eq_self)

lemma unat_ucast_64_32': "unat (x :: u64) < 4294967296 \<Longrightarrow> unat (ucast x :: u32) = unat x"
  by (simp add: unsigned_ucast_eq take_bit_nat_eq_self)

lemma absorb_loop:
  assumes p: "sponge_ok permute (unat rate)"
  defines "body \<equiv> \<lambda>(state, data, len :: u64). do {
            state \<leftarrow> keccak_p_1600_xor_bytes state data 0 rate;
            Some (permute state, drop (unat rate) data, len - ucast rate) }"
  shows "length s = 200 \<Longrightarrow> unat len \<le> length data \<Longrightarrow>
    \<exists>s' data' len'. while_c (\<lambda>(state, data, len). ucast rate \<le> len) body (s, data, len) = Some (s', data', len') \<and>
      unat len' < unat rate \<and> unat len' \<le> length data' \<and> length s' = 200 \<and>
      absorb_bytes permute (unat rate) (s, 0) (take (unat len) data) = absorb_bytes permute (unat rate) (s', 0) (take (unat len') data')"
proof (induction "unat len" arbitrary: s data len rule: less_induct)
  case less
  have r: "0 < unat rate" "unat rate \<le> 200" using p by (simp_all add: sponge_ok_def)
  show ?case
  proof (cases "ucast rate \<le> len")
    case False
    then have "unat len < unat rate" by (simp add: word_le_nat_alt)
    then show ?thesis using False less.prems by (simp add: while_c.simps)
  next
    case True
    then have le: "unat rate \<le> unat len" by (simp add: word_le_nat_alt)
    let ?s = "permute (xored s 0 (take (unat rate) data))" and ?len = "len - ucast rate"
    have u: "unat ?len = unat len - unat rate" using True by (simp add: unat_sub)
    have b: "body (s, data, len) = Some (?s, drop (unat rate) data, ?len)"
      unfolding body_def using xor_bytes_Some [of 0 rate s data] le less.prems r by simp
    have s': "length ?s = 200" using p less.prems le r by (simp add: sponge_ok_def min_def)
    obtain s' data' len' where IH: "while_c (\<lambda>(state, data, len). ucast rate \<le> len) body (?s, drop (unat rate) data, ?len) = Some (s', data', len')"
      "unat len' < unat rate" "unat len' \<le> length data'" "length s' = 200"
      "absorb_bytes permute (unat rate) (?s, 0) (take (unat ?len) (drop (unat rate) data)) = absorb_bytes permute (unat rate) (s', 0) (take (unat len') data')"
    proof -
      have "unat ?len < unat len" using u le r by simp
      moreover have "unat ?len \<le> length (drop (unat rate) data)" using u less.prems by (simp add: diff_le_mono)
      ultimately show thesis using that less.hyps [of ?len ?s "drop (unat rate) data"] s' by blast
    qed
    have t: "take (unat len) data = take (unat rate) data @ take (unat ?len) (drop (unat rate) data)"
      using le u by (simp flip: take_add)
    have "take (unat rate) data \<noteq> []" "length (take (unat rate) data) = unat rate" using r le less.prems by auto
    then have "absorb_bytes permute (unat rate) (s, 0) (take (unat rate) data) = (?s, 0)"
      using r less.prems by (intro absorb_full) simp_all
    then have "absorb_bytes permute (unat rate) (s, 0) (take (unat len) data) = absorb_bytes permute (unat rate) (s', 0) (take (unat len') data')"
      unfolding t absorb_append using IH(5) by simp
    then show ?thesis using IH(1-4) True b by (simp add: while_c.simps [of _ body "(s, data, len)"])
  qed
qed

lemma absorb_eq:
  assumes p: "sponge_ok permute (unat rate)" and s: "length state = 200" "unat off < unat rate" and d: "unat len \<le> length data"
  shows "\<exists>s' off'. sponge_keccak_1600_absorb permute state off data len rate = Some (s', off') \<and>
    (s', unat off') = absorb_bytes permute (unat rate) (state, unat off) (take (unat len) data)"
proof -
  have r: "0 < unat rate" "unat rate \<le> 200" using p by (simp_all add: sponge_ok_def)
  have t: "unat (rate - off) = unat rate - unat off" using s(2) by (simp add: unat_sub word_le_nat_alt)
  show ?thesis
  proof (cases "len < ucast (rate - off)")
    case True
    then have l: "unat len < unat rate - unat off" by (simp add: word_less_nat_alt t)
    then have u: "unat (ucast len :: u32) = unat len" using r by (intro unat_ucast_64_32') simp
    then have "unat (off + ucast len) = unat off + unat len" using l r by (simp add: unat_word_ariths)
    then show ?thesis
      using True u l r s d xor_bytes_Some [of off "ucast len" state data] absorb_partial [of "unat off" "take (unat len) data" "unat rate" state permute]
      by (simp add: sponge_keccak_1600_absorb_def Let_def)
  next
    case False
    then have l: "unat rate - unat off \<le> unat len" by (simp add: word_less_nat_alt t)
    let ?t = "unat rate - unat off"
    let ?s = "permute (xored state (unat off) (take ?t data))" and ?len = "len - ucast (rate - off)"
    have x: "keccak_p_1600_xor_bytes state data off (rate - off) = Some (xored state (unat off) (take ?t data))"
      using xor_bytes_Some [of off "rate - off" state data] t s r l d by simp
    have u: "unat ?len = unat len - ?t" using False t by (subst unat_sub) simp_all
    have "length (xored state (unat off) (take ?t data)) = 200" using s r l d by simp
    then have s': "length ?s = 200" using p by (simp add: sponge_ok_def)
    obtain s' data' len' where w: "while_c (\<lambda>(state, data, len). ucast rate \<le> len) (\<lambda>(state, data, len). do {
            state \<leftarrow> keccak_p_1600_xor_bytes state data 0 rate;
            Some (permute state, drop (unat rate) data, len - ucast rate) }) (?s, drop ?t data, ?len) = Some (s', data', len')"
      "unat len' < unat rate" "unat len' \<le> length data'" "length s' = 200"
      "absorb_bytes permute (unat rate) (?s, 0) (take (unat ?len) (drop ?t data)) = absorb_bytes permute (unat rate) (s', 0) (take (unat len') data')"
    proof -
      have "unat ?len \<le> length (drop ?t data)" using u d by (simp add: diff_le_mono)
      from absorb_loop [OF p s' this] show thesis using that by blast
    qed
    have u': "unat (ucast len' :: u32) = unat len'" using w(2) r by (intro unat_ucast_64_32') simp
    have "absorb_bytes permute (unat rate) (state, unat off) (take ?t data) = (?s, 0)"
      using s r l d by (intro absorb_full) auto
    moreover have "take (unat len) data = take ?t data @ take (unat ?len) (drop ?t data)" using l u by (simp flip: take_add)
    ultimately have e: "absorb_bytes permute (unat rate) (state, unat off) (take (unat len) data) = absorb_bytes permute (unat rate) (s', 0) (take (unat len') data')"
      using w(5) by (simp add: absorb_append)
    also have "\<dots> = (xored s' 0 (take (unat len') data'), unat len')"
      using absorb_partial [of 0 "take (unat len') data'" "unat rate" s' permute] w(2-4) r by simp
    finally show ?thesis
      using False x w u' xor_bytes_Some [of 0 "ucast len'" s' data'] r t by (simp add: sponge_keccak_1600_absorb_def Let_def)
  qed
qed

section \<open>Finishing and squeezing\<close>

text \<open>The final byte holds the domain suffix and the first bit of the padding, the last byte of the block its last bit.\<close>

lemma finalize_eq:
  assumes p: "sponge_ok permute (unat rate)" and s: "length state = 200" "unat off < unat rate" and f: "final_byte AND 128 = 0"
  shows "sponge_keccak_1600_finalize permute state off final_byte rate =
    Some (permute (let s = state[unat off := state ! unat off XOR final_byte] in s[unat rate - 1 := s ! (unat rate - 1) XOR 128]))"
proof -
  have r: "0 < unat rate" "unat rate \<le> 200" using p by (simp_all add: sponge_ok_def)
  have r1: "unat (rate - 1) = unat rate - 1" using r by (intro unat_minus_one) auto
  have x: "keccak_p_1600_xor_bytes t [b] i 1 = Some (t[unat i := t ! unat i XOR b])" if "unat i < length t" for t b i
    using that by (simp add: xor_bytes_Some xored_Cons)
  show ?thesis
  proof (cases "off < rate - 1")
    case True
    then show ?thesis using r r1 s by (simp add: sponge_keccak_1600_finalize_def x word_less_nat_alt Let_def)
  next
    case False
    then have "unat off = unat rate - 1" using s(2) r1 by (simp add: word_less_nat_alt)
    moreover have "final_byte OR 128 = final_byte XOR 128" using f by (rule disjunctive_xor_eq_or [symmetric])
    ultimately show ?thesis using False r r1 s by (simp add: sponge_keccak_1600_finalize_def x Let_def xor.assoc)
  qed
qed

lemma squeeze_run:
  "off + n \<le> rate \<Longrightarrow> rate \<le> length s \<Longrightarrow> squeeze_bytes permute rate (s, off) n = ((s, off + n), take n (drop off s))"
proof (induction n arbitrary: off)
  case (Suc n)
  then show ?case by (simp add: take_Suc_conv_app_nth Cons_nth_drop_Suc [symmetric] Let_def)
qed simp

lemma squeeze_append:
  "squeeze_bytes permute rate s (m + n) =
    (let (s', xs) = squeeze_bytes permute rate s m; (s'', ys) = squeeze_bytes permute rate s' n in (s'', xs @ ys))"
proof (induction m arbitrary: s)
  case 0
  obtain st off where s: "s = (st, off)" by (cases s)
  show ?case by (simp add: s split_beta)
next
  case (Suc m)
  obtain st off where s: "s = (st, off)" by (cases s)
  show ?case by (simp add: s Suc Let_def split_beta)
qed

lemma squeeze_length: "length (snd (squeeze_bytes permute rate s n)) = n"
proof (induction n arbitrary: s)
  case 0
  show ?case by (cases s) simp
next
  case (Suc n)
  show ?case using Suc by (cases s) (simp add: Let_def split_beta)
qed

lemma squeeze_full:
  assumes "0 < n" "0 < rate"
  shows "squeeze_bytes permute rate (s, rate) n = squeeze_bytes permute rate (permute s, 0) n"
  using assms by (cases n) (auto simp: Let_def)

lemma extract_Some: "unat off + unat n \<le> length s \<Longrightarrow> keccak_p_1600_extract_bytes s off n = Some (take (unat n) (drop (unat off) s))"
  by (simp add: keccak_p_1600_extract_bytes_def)

lemma squeeze_loop:
  assumes p: "sponge_ok permute (unat rate)"
  defines "body \<equiv> \<lambda>(state, out, out_len :: u64). do {
            bs \<leftarrow> keccak_p_1600_extract_bytes state 0 rate;
            Some (permute state, out @ bs, out_len - ucast rate) }"
  shows "length s = 200 \<Longrightarrow> 0 < unat n \<Longrightarrow>
    \<exists>s' bs n'. while_c (\<lambda>(state, out, out_len). ucast rate < out_len) body (s, out, n) = Some (s', out @ bs, n') \<and>
      0 < unat n' \<and> unat n' \<le> unat rate \<and> length s' = 200 \<and>
      squeeze_bytes permute (unat rate) (s, 0) (unat n) =
        (let (t, cs) = squeeze_bytes permute (unat rate) (s', 0) (unat n') in (t, bs @ cs))"
proof (induction "unat n" arbitrary: s out n rule: less_induct)
  case less
  have r: "0 < unat rate" "unat rate \<le> 200" using p by (simp_all add: sponge_ok_def)
  show ?case
  proof (cases "ucast rate < n")
    case False
    then have "unat n \<le> unat rate" by (simp add: word_less_nat_alt)
    then show ?thesis using False less.prems by (intro exI [of _ s] exI [of _ "[]"] exI [of _ n]) (simp add: while_c.simps)
  next
    case True
    then have lt: "unat rate < unat n" by (simp add: word_less_nat_alt)
    let ?n = "n - ucast rate"
    have u: "unat ?n = unat n - unat rate" using lt by (subst unat_sub) (simp_all add: word_le_nat_alt)
    have b: "body (s, out, n) = Some (permute s, out @ take (unat rate) s, ?n)"
      unfolding body_def using extract_Some [of 0 rate s] less.prems r by simp
    have s': "length (permute s) = 200" using p less.prems by (simp add: sponge_ok_def)
    obtain s' bs n' where IH: "while_c (\<lambda>(state, out, out_len). ucast rate < out_len) body (permute s, out @ take (unat rate) s, ?n) =
        Some (s', (out @ take (unat rate) s) @ bs, n')" "0 < unat n'" "unat n' \<le> unat rate" "length s' = 200"
      "squeeze_bytes permute (unat rate) (permute s, 0) (unat ?n) = (let (t, cs) = squeeze_bytes permute (unat rate) (s', 0) (unat n') in (t, bs @ cs))"
      using less.hyps [of ?n "permute s" "out @ take (unat rate) s"] u lt r s' by auto
    have n: "unat n = unat rate + unat ?n" using u lt by simp
    have "squeeze_bytes permute (unat rate) (s, 0) (unat n) =
        (let (t, cs) = squeeze_bytes permute (unat rate) (s', 0) (unat n') in (t, (take (unat rate) s @ bs) @ cs))"
      unfolding n squeeze_append using squeeze_run [of 0 "unat rate" "unat rate" s permute] less.prems r
        squeeze_full [of "unat ?n" "unat rate" permute s] u lt IH(5) by (simp add: split_beta Let_def)
    then show ?thesis
      using IH(1-4) True b by (intro exI [of _ s'] exI [of _ "take (unat rate) s @ bs"] exI [of _ n']) (simp add: while_c.simps [of _ body "(s, out, n)"])
  qed
qed

lemma squeeze_eq:
  assumes p: "sponge_ok permute (unat rate)" and s: "length state = 200" "unat off \<le> unat rate" and n: "0 < unat n"
  shows "\<exists>s' off' out. sponge_keccak_1600_squeeze permute state off n rate = Some (s', off', out) \<and>
    ((s', unat off'), out) = squeeze_bytes permute (unat rate) (state, unat off) (unat n)"
proof -
  have r: "0 < unat rate" "unat rate \<le> 200" using p by (simp_all add: sponge_ok_def)
  define s0 where "s0 = (if off = rate then permute state else state)"
  define o0 where "o0 = (if off = rate then 0 else off)"
  have l0: "length s0 = 200" using p s by (simp add: s0_def sponge_ok_def)
  have o0: "unat o0 < unat rate" using s(2) r by (auto simp: o0_def word_unat_eq_iff)
  have start: "(if off = rate then (permute state, 0) else (state, off)) = (s0, o0)" by (simp add: s0_def o0_def)
  have sq0: "squeeze_bytes permute (unat rate) (state, unat off) (unat n) = squeeze_bytes permute (unat rate) (s0, unat o0) (unat n)"
    using squeeze_full [OF n r(1)] by (simp add: s0_def o0_def)
  have t: "unat (rate - o0) = unat rate - unat o0" using o0 by (simp add: unat_sub word_le_nat_alt)
  show ?thesis
  proof (cases "n \<le> ucast (rate - o0)")
    case True
    then have l: "unat n \<le> unat rate - unat o0" by (simp add: word_le_nat_alt t)
    then have u: "unat (ucast n :: u32) = unat n" using r by (intro unat_ucast_64_32') simp
    then have "unat (o0 + ucast n) = unat o0 + unat n" using l r o0 by (simp add: unat_word_ariths)
    then show ?thesis
      using True u l r o0 l0 extract_Some [of o0 "ucast n" s0] squeeze_run [of "unat o0" "unat n" "unat rate" s0 permute]
      unfolding sq0 by (simp add: sponge_keccak_1600_squeeze_def start)
  next
    case False
    then have l: "unat rate - unat o0 < unat n" by (simp add: word_le_nat_alt t)
    let ?t = "unat rate - unat o0" and ?n = "n - ucast (rate - o0)"
    have u: "unat ?n = unat n - ?t" using l t by (subst unat_sub) (simp_all add: word_le_nat_alt)
    have lp: "length (permute s0) = 200" using p l0 by (simp add: sponge_ok_def)
    have x: "keccak_p_1600_extract_bytes s0 o0 (rate - o0) = Some (take ?t (drop (unat o0) s0))"
      using extract_Some [of o0 "rate - o0" s0] t o0 r l0 by simp
    obtain s' bs n' where w: "while_c (\<lambda>(state, out, out_len). ucast rate < out_len) (\<lambda>(state, out, out_len). do {
            bs \<leftarrow> keccak_p_1600_extract_bytes state 0 rate;
            Some (permute state, out @ bs, out_len - ucast rate) }) (permute s0, take ?t (drop (unat o0) s0), ?n) =
        Some (s', take ?t (drop (unat o0) s0) @ bs, n')" "0 < unat n'" "unat n' \<le> unat rate" "length s' = 200"
      "squeeze_bytes permute (unat rate) (permute s0, 0) (unat ?n) = (let (t, cs) = squeeze_bytes permute (unat rate) (s', 0) (unat n') in (t, bs @ cs))"
      using squeeze_loop [OF p lp, of ?n "take ?t (drop (unat o0) s0)"] u l by auto
    have u': "unat (ucast n' :: u32) = unat n'" using w(3) r by (intro unat_ucast_64_32') simp
    have nn: "unat n = ?t + unat ?n" using u l by simp
    have "squeeze_bytes permute (unat rate) (s0, unat o0) (unat n) =
        ((s', unat n'), take ?t (drop (unat o0) s0) @ bs @ take (unat n') s')"
      unfolding nn squeeze_append
      using squeeze_run [of "unat o0" ?t "unat rate" s0 permute] o0 r l0 squeeze_full [of "unat ?n" "unat rate" permute s0] u l w(5)
        squeeze_run [of 0 "unat n'" "unat rate" s' permute] w(3,4) by (simp add: split_beta Let_def)
    then show ?thesis
      using False x w(1-4) u' r extract_Some [of 0 "ucast n'" s'] unfolding sq0 by (simp add: sponge_keccak_1600_squeeze_def start Let_def)
  qed
qed

end
