(* ===== verification/SortNet.thy ===== *)
theory SortNet
  imports Prelude "HOL-Library.Multiset"
begin

text \<open>
  The sorting network behind \<open>safe_sort_uint32\<close> and \<open>safe_sort_uint64\<close>: comparators on the
  elements of a list, the zero-one principle, and Batcher's merge exchange on \<open>2 ^ L\<close> places.
  A list that is shorter is treated as if it ended with infinitely large elements.
\<close>

section \<open>Comparators\<close>

definition comparator :: "nat \<times> nat \<Rightarrow> 'a :: linorder list \<Rightarrow> 'a list" where
  "comparator = (\<lambda>(i, j) xs. xs[i := min (xs ! i) (xs ! j), j := max (xs ! i) (xs ! j)])"

abbreviation network :: "(nat \<times> nat) list \<Rightarrow> 'a :: linorder list \<Rightarrow> 'a list" where
  "network ps xs \<equiv> fold comparator ps xs"

definition inside :: "nat \<Rightarrow> (nat \<times> nat) list \<Rightarrow> bool" where
  "inside n ps \<longleftrightarrow> (\<forall>(i, j) \<in> set ps. i < j \<and> j < n)"

lemma inside_simps [simp]:
  "inside n []" "inside n (p # ps) \<longleftrightarrow> fst p < snd p \<and> snd p < n \<and> inside n ps"
  by (auto simp: inside_def)

lemma length_comparator [simp]: "length (comparator p xs) = length xs"
  by (simp add: comparator_def split_beta)

lemma length_network [simp]: "length (network ps xs) = length xs"
  by (induction ps arbitrary: xs) simp_all

lemma mset_comparator: "fst p < length xs \<Longrightarrow> snd p < length xs \<Longrightarrow> mset (comparator p xs) = mset xs"
  by (cases "xs ! fst p \<le> xs ! snd p") (simp_all add: comparator_def split_beta min_def max_def mset_swap)

lemma mset_network: "inside (length xs) ps \<Longrightarrow> mset (network ps xs) = mset xs"
  by (induction ps arbitrary: xs) (simp_all add: mset_comparator)

section \<open>The zero-one principle\<close>

lemma map_comparator:
  assumes "mono f" "fst p < length xs" "snd p < length xs"
  shows "map f (comparator p xs) = comparator p (map f xs)"
  using assms min_of_mono [OF assms(1)] max_of_mono [OF assms(1)] by (simp add: comparator_def split_beta map_update)

lemma map_network: "mono f \<Longrightarrow> inside (length xs) ps \<Longrightarrow> map f (network ps xs) = network ps (map f xs)"
  by (induction ps arbitrary: xs) (simp_all add: map_comparator)

theorem zero_one:
  fixes xs :: "'a :: linorder list"
  assumes ps: "inside (length xs) ps" and bools: "\<And>bs :: bool list. length bs = length xs \<Longrightarrow> sorted (network ps bs)"
  shows "sorted (network ps xs)"
proof (rule ccontr)
  let ?ys = "network ps xs"
  assume "\<not> sorted ?ys"
  then obtain i j where ij: "i < j" "j < length xs" "\<not> ?ys ! i \<le> ?ys ! j" by (auto simp: sorted_iff_nth_mono_less)
  define f where "f x \<longleftrightarrow> ?ys ! j < x" for x
  have "mono f" by (auto simp: mono_def f_def intro: less_le_trans)
  then have "map f ?ys = network ps (map f xs)" using ps by (rule map_network)
  then have "sorted (map f ?ys)" using bools [of "map f xs"] by simp
  then have "f (?ys ! i) \<le> f (?ys ! j)" using ij by (simp add: sorted_iff_nth_mono_less)
  then show False using ij(3) by (simp add: f_def)
qed

section \<open>Places beyond the end\<close>

definition pad :: "bool list \<Rightarrow> nat \<Rightarrow> bool" where
  "pad bs p \<longleftrightarrow> (p < length bs \<longrightarrow> bs ! p)"

definition exchange :: "nat \<times> nat \<Rightarrow> (nat \<Rightarrow> bool) \<Rightarrow> nat \<Rightarrow> bool" where
  "exchange = (\<lambda>(i, j) x. x(i := x i \<and> x j, j := x i \<or> x j))"

lemma pad_comparator:
  assumes "fst p < snd p" "snd p < length bs"
  shows "pad (comparator p bs) = exchange p (pad bs)"
  using assms by (auto simp: fun_eq_iff pad_def comparator_def exchange_def split_beta nth_list_update min_def max_def)

lemma exchange_beyond: "fst p < snd p \<Longrightarrow> length bs \<le> snd p \<Longrightarrow> exchange p (pad bs) = pad bs"
  by (auto simp: fun_eq_iff pad_def exchange_def split_beta)

lemma pad_network:
  assumes "\<forall>p \<in> set ps. fst p < snd p"
  shows "pad (network (filter (\<lambda>p. snd p < length bs) ps) bs) = fold exchange ps (pad bs)"
  using assms
proof (induction ps arbitrary: bs)
  case (Cons p ps)
  show ?case
  proof (cases "snd p < length bs")
    case True
    then show ?thesis using Cons.IH [of "comparator p bs"] Cons.prems by (simp add: pad_comparator)
  next
    case False
    then show ?thesis using Cons by (simp add: exchange_beyond)
  qed
qed simp

text \<open>Comparators on different places work as if at the same time.\<close>

lemma exchange_other: "i \<notin> fst ` set ps \<Longrightarrow> i \<notin> snd ` set ps \<Longrightarrow> fold exchange ps x i = x i"
proof (induction ps arbitrary: x)
  case (Cons p ps)
  then have "fold exchange ps (exchange p x) i = exchange p x i" by simp
  also have "\<dots> = x i" using Cons.prems by (simp add: exchange_def split_beta)
  finally show ?case by simp
qed simp

lemma exchange_all:
  assumes "distinct us" "inj_on lo (set us)" "inj_on hi (set us)" "\<forall>u \<in> set us. \<forall>v \<in> set us. lo u \<noteq> hi v" "u \<in> set us"
  shows "fold exchange (map (\<lambda>u. (lo u, hi u)) us) x (lo u) = (x (lo u) \<and> x (hi u)) \<and>
    fold exchange (map (\<lambda>u. (lo u, hi u)) us) x (hi u) = (x (lo u) \<or> x (hi u))"
  using assms
proof (induction us arbitrary: x)
  case (Cons v us)
  let ?ps = "map (\<lambda>u. (lo u, hi u)) us" and ?x = "exchange (lo v, hi v) x"
  show ?case
  proof (cases "u = v")
    case True
    have "lo v \<notin> fst ` set ?ps" "lo v \<notin> snd ` set ?ps" "hi v \<notin> fst ` set ?ps" "hi v \<notin> snd ` set ?ps"
      using Cons.prems(1-4) by (auto simp: inj_on_def image_iff)
    then have "fold exchange ?ps ?x (lo v) = ?x (lo v)" "fold exchange ?ps ?x (hi v) = ?x (hi v)" using exchange_other by blast+
    moreover have "lo v \<noteq> hi v" using Cons.prems(4) by simp
    ultimately show ?thesis using True by (simp add: exchange_def)
  next
    case False
    then have u: "u \<in> set us" using Cons.prems(5) by simp
    have "lo u \<noteq> lo v" "hi u \<noteq> hi v" using u False Cons.prems(2,3) by (auto simp: inj_on_def)
    moreover have "lo u \<noteq> hi v" "hi u \<noteq> lo v" using u Cons.prems(4) by fastforce+
    ultimately have "?x (lo u) = x (lo u)" "?x (hi u) = x (hi u)" by (simp_all add: exchange_def)
    moreover have "inj_on lo (set us)" "inj_on hi (set us)" "\<forall>u \<in> set us. \<forall>v \<in> set us. lo u \<noteq> hi v" "distinct us"
      using Cons.prems(1-4) by (auto simp: inj_on_def)
    ultimately show ?thesis using Cons.IH [of ?x] u by simp
  qed
qed simp

section \<open>Merge exchange\<close>

text \<open>With \<open>2 ^ L\<close> places, round \<open>i\<close> merges the places that are equal modulo \<open>2 ^ (L - i)\<close>: their even
  and odd places are sorted before the round.  \<open>spread\<close> gives the \<open>u\<close>-th even place.\<close>

definition spread :: "nat \<Rightarrow> nat \<Rightarrow> nat" where
  "spread s u = u mod s + 2 * s * (u div s)"

definition first_pass :: "nat \<Rightarrow> nat \<Rightarrow> (nat \<times> nat) list" where
  "first_pass L i = map (\<lambda>u. (spread (2 ^ (L - i)) u, spread (2 ^ (L - i)) u + 2 ^ (L - i))) [0..<2 ^ (L - 1)]"

definition later_pass :: "nat \<Rightarrow> nat \<Rightarrow> nat \<Rightarrow> (nat \<times> nat) list" where
  "later_pass L i t = map (\<lambda>u. (spread (2 ^ (L - i)) u + 2 ^ (L - i) - 2 ^ (L - t), spread (2 ^ (L - i)) u)) [2 ^ (L - t - 1)..<2 ^ (L - 1)]"

definition sort_round :: "nat \<Rightarrow> nat \<Rightarrow> (nat \<times> nat) list" where
  "sort_round L i = first_pass L i @ concat (map (later_pass L i) [1..<i])"

definition merge_exchange :: "nat \<Rightarrow> (nat \<times> nat) list" where
  "merge_exchange L = concat (map (sort_round L) [1..<Suc L])"

text \<open>Even and odd places of one residue class.\<close>

definition cell :: "nat \<Rightarrow> nat \<Rightarrow> nat \<Rightarrow> nat \<Rightarrow> nat" where
  "cell s r c j = r + s * (2 * j + c)"

lemma spread_cell: "r < s \<Longrightarrow> spread s (r + s * j) = cell s r 0 j"
  by (simp add: spread_def cell_def algebra_simps)

lemma cell_inj:
  assumes "r < s" "r' < s" "c < 2" "c' < 2" "cell s r c j = cell s r' c' j'"
  shows "r = r' \<and> c = c' \<and> j = j'"
proof -
  have "cell s r c j mod s = r" "cell s r' c' j' mod s = r'" "cell s r c j div s = 2 * j + c" "cell s r' c' j' div s = 2 * j' + c'"
    using assms(1,2) by (simp_all add: cell_def)
  then have "r = r'" "2 * j + c = 2 * j' + c'" using assms(5) by simp_all
  then show ?thesis using assms(3,4) by presburger
qed

lemma cell_split: "(0 :: nat) < s \<Longrightarrow> u = u mod s + s * (u div s)"
  by simp

text \<open>A pass on the cells: even places \<open>j\<close> from \<open>h\<close> on meet the odd place \<open>j - h\<close>.\<close>

lemma cells_pass:
  fixes x :: "nat \<Rightarrow> bool" and lo hi :: "nat \<Rightarrow> nat" and s h m g g' c c' :: nat
  assumes s: "0 < s" and m: "h \<le> m" and c: "c < 2" "c' < 2" "c \<noteq> c'"
    and lo: "\<And>r j. r < s \<Longrightarrow> h \<le> j \<Longrightarrow> j < m \<Longrightarrow> lo (r + s * j) = cell s r c (j - g)"
    and hi: "\<And>r j. r < s \<Longrightarrow> h \<le> j \<Longrightarrow> j < m \<Longrightarrow> hi (r + s * j) = cell s r c' (j - g')"
    and g: "g \<le> h" "g' \<le> h"
  defines "y \<equiv> fold exchange (map (\<lambda>u. (lo u, hi u)) [s * h..<s * m]) x"
  assumes r: "r < s"
  shows "\<And>j. h \<le> j \<Longrightarrow> j < m \<Longrightarrow> y (cell s r c (j - g)) = (x (cell s r c (j - g)) \<and> x (cell s r c' (j - g')))"
    "\<And>j. h \<le> j \<Longrightarrow> j < m \<Longrightarrow> y (cell s r c' (j - g')) = (x (cell s r c (j - g)) \<or> x (cell s r c' (j - g')))"
    "\<And>j. j + g < h \<or> m \<le> j + g \<Longrightarrow> y (cell s r c j) = x (cell s r c j)"
    "\<And>j. j + g' < h \<or> m \<le> j + g' \<Longrightarrow> y (cell s r c' j) = x (cell s r c' j)"
proof -
  let ?us = "[s * h..<s * m]"
  have u: "u = u mod s + s * (u div s) \<and> u mod s < s \<and> h \<le> u div s \<and> u div s < m" if "u \<in> set ?us" for u
  proof -
    have "s * h \<le> u" "u < s * m" using that by simp_all
    then have "h \<le> u div s" "u div s < m" using s by (simp_all add: less_eq_div_iff_mult_less_eq div_less_iff_less_mult mult.commute)
    then show ?thesis using s by simp
  qed
  have l: "lo u = cell s (u mod s) c (u div s - g)" "hi u = cell s (u mod s) c' (u div s - g')" if "u \<in> set ?us" for u
    using lo [of "u mod s" "u div s"] hi [of "u mod s" "u div s"] u [OF that] by simp_all
  have inj: "inj_on lo (set ?us)"
  proof (rule inj_onI)
    fix u v assume uv: "u \<in> set ?us" "v \<in> set ?us" "lo u = lo v"
    have e: "u mod s = v mod s \<and> c = c \<and> u div s - g = v div s - g"
      by (rule cell_inj [OF _ _ c(1,1)]) (use uv l s in auto)
    moreover have "h \<le> u div s" "h \<le> v div s" using u uv by blast+
    ultimately have "u div s = v div s" using g(1) by linarith
    then show "u = v" using e by (metis div_mult_mod_eq)
  qed
  have inj': "inj_on hi (set ?us)"
  proof (rule inj_onI)
    fix u v assume uv: "u \<in> set ?us" "v \<in> set ?us" "hi u = hi v"
    have e: "u mod s = v mod s \<and> c' = c' \<and> u div s - g' = v div s - g'"
      by (rule cell_inj [OF _ _ c(2,2)]) (use uv l s in auto)
    moreover have "h \<le> u div s" "h \<le> v div s" using u uv by blast+
    ultimately have "u div s = v div s" using g(2) by linarith
    then show "u = v" using e by (metis div_mult_mod_eq)
  qed
  have ne: "lo u \<noteq> hi v" if "u \<in> set ?us" "v \<in> set ?us" for u v
  proof
    assume "lo u = hi v"
    then have "cell s (u mod s) c (u div s - g) = cell s (v mod s) c' (v div s - g')" by (simp only: l [OF that(1)] l [OF that(2)])
    from cell_inj [OF _ _ c(1,2) this] s c(3) show False by simp
  qed
  have mem: "r + s * j \<in> set ?us" if "h \<le> j" "j < m" for j
  proof -
    have "r + s * j < s * Suc j" using r by simp
    also have "\<dots> \<le> s * m" using that(2) by (intro mult_le_mono2) simp
    finally show ?thesis using that(1) by (simp add: trans_le_add2)
  qed
  note all = exchange_all [OF _ inj inj', of _ x]
  show "y (cell s r c (j - g)) = (x (cell s r c (j - g)) \<and> x (cell s r c' (j - g')))"
    "y (cell s r c' (j - g')) = (x (cell s r c (j - g)) \<or> x (cell s r c' (j - g')))" if "h \<le> j" "j < m" for j
    using all [OF _ _ mem [OF that]] ne lo [OF r that] hi [OF r that] unfolding y_def by auto
  have out: "y (cell s r c j) = x (cell s r c j)" if "j + g < h \<or> m \<le> j + g" for j
    unfolding y_def
  proof (rule exchange_other)
    have "cell s r c j \<noteq> lo u" if uu: "u \<in> set ?us" for u
    proof
      assume "cell s r c j = lo u"
      then have "cell s r c j = cell s (u mod s) c (u div s - g)" by (simp only: l [OF uu])
      from cell_inj [OF r _ c(1,1) this] s have "j = u div s - g" by simp
      then show False using \<open>j + g < h \<or> m \<le> j + g\<close> u [OF uu] g(1) by linarith
    qed
    then have "cell s r c j \<notin> lo ` set ?us" by blast
    then show "cell s r c j \<notin> fst ` set (map (\<lambda>u. (lo u, hi u)) ?us)" by (simp add: image_image)
    have "cell s r c j \<noteq> hi u" if uu: "u \<in> set ?us" for u
    proof
      assume "cell s r c j = hi u"
      then have "cell s r c j = cell s (u mod s) c' (u div s - g')" by (simp only: l [OF uu])
      from cell_inj [OF r _ c(1,2) this] s c(3) show False by simp
    qed
    then have "cell s r c j \<notin> hi ` set ?us" by blast
    then show "cell s r c j \<notin> snd ` set (map (\<lambda>u. (lo u, hi u)) ?us)" by (simp add: image_image)
  qed
  then show "y (cell s r c j) = x (cell s r c j)" if "j + g < h \<or> m \<le> j + g" for j using that .
  show "y (cell s r c' j) = x (cell s r c' j)" if j: "j + g' < h \<or> m \<le> j + g'" for j
    unfolding y_def
  proof (rule exchange_other)
    have "cell s r c' j \<noteq> hi u" if uu: "u \<in> set ?us" for u
    proof
      assume "cell s r c' j = hi u"
      then have "cell s r c' j = cell s (u mod s) c' (u div s - g')" by (simp only: l [OF uu])
      from cell_inj [OF r _ c(2,2) this] s have "j = u div s - g'" by simp
      then show False using j u [OF uu] g(2) by linarith
    qed
    then have "cell s r c' j \<notin> hi ` set ?us" by blast
    then show "cell s r c' j \<notin> snd ` set (map (\<lambda>u. (lo u, hi u)) ?us)" by (simp add: image_image)
    have "cell s r c' j \<noteq> lo u" if uu: "u \<in> set ?us" for u
    proof
      assume "cell s r c' j = lo u"
      then have "cell s r c' j = cell s (u mod s) c (u div s - g)" by (simp only: l [OF uu])
      from cell_inj [OF r _ c(2,1) this] s c(3) show False by simp
    qed
    then have "cell s r c' j \<notin> lo ` set ?us" by blast
    then show "cell s r c' j \<notin> fst ` set (map (\<lambda>u. (lo u, hi u)) ?us)" by (simp add: image_image)
  qed
qed


section \<open>One round on false and true\<close>

text \<open>Of the class \<open>r\<close>, the even places are true from the \<open>a\<close>-th on and the odd ones from the \<open>b\<close>-th on.\<close>

definition halves :: "nat \<Rightarrow> nat \<Rightarrow> (nat \<Rightarrow> bool) \<Rightarrow> nat \<Rightarrow> nat \<Rightarrow> nat \<Rightarrow> bool" where
  "halves s m x r a b \<longleftrightarrow> a \<le> m \<and> b \<le> m \<and> (\<forall>j < m. x (cell s r 0 j) = (a \<le> j) \<and> x (cell s r 1 j) = (b \<le> j))"

lemma round_sizes:
  assumes "1 \<le> i" "i \<le> L"
  shows "2 ^ (L - i) * 2 ^ (i - 1) = (2 ^ (L - 1) :: nat)" "2 ^ (L - (i - 1)) = 2 * (2 ^ (L - i) :: nat)" "2 * 2 ^ (i - 1) = (2 ^ i :: nat)"
  using assms by (simp_all flip: power_add power_Suc add: Suc_diff_le)

lemma pass_sizes:
  assumes "1 \<le> t" "t < i" "i \<le> L"
  shows "2 ^ (L - i) * 2 ^ (i - t - 1) = (2 ^ (L - t - 1) :: nat)" "2 ^ (L - t) = 2 * (2 ^ (L - i) * 2 ^ (i - t - 1) :: nat)"
    "2 ^ (i - t - 1) \<le> (2 ^ (i - 1) :: nat)" "2 * 2 ^ (i - t - 1) = (2 ^ (i - t) :: nat)"
  using assms by (simp_all flip: power_add power_Suc)

lemma first_pass_halves:
  assumes i: "1 \<le> i" "i \<le> L" and r: "r < 2 ^ (L - i)" and x: "halves (2 ^ (L - i)) (2 ^ (i - 1)) x r a b"
  shows "halves (2 ^ (L - i)) (2 ^ (i - 1)) (fold exchange (first_pass L i) x) r (max a b) (min a b)"
proof -
  define s :: nat where "s = 2 ^ (L - i)"
  define m :: nat where "m = 2 ^ (i - 1)"
  let ?y = "fold exchange (first_pass L i) x"
  have p: "first_pass L i = map (\<lambda>u. (spread s u, spread s u + s)) [0..<s * m]"
    using round_sizes(1) [OF i] by (simp add: first_pass_def s_def m_def)
  have s0: "0 < s" and rs: "r < s" using r by (simp_all add: s_def)
  have lo: "spread s (r' + s * j) = cell s r' 0 (j - 0)" if "r' < s" "0 \<le> j" "j < m" for r' j
    using that(1) by (simp add: spread_cell)
  have hi: "spread s (r' + s * j) + s = cell s r' 1 (j - 0)" if "r' < s" "0 \<le> j" "j < m" for r' j
    by (simp only: spread_cell [OF that(1)]) (simp add: cell_def algebra_simps)
  note y = cells_pass(1,2) [OF s0 _ _ _ _ lo hi _ _ rs, where x = x and h = 0 and m = m, simplified, folded p]
  show ?thesis using x y unfolding s_def [symmetric] m_def [symmetric] halves_def by auto
qed

lemma later_pass_halves:
  assumes t: "1 \<le> t" "t < i" "i \<le> L" and r: "r < 2 ^ (L - i)" and x: "halves (2 ^ (L - i)) (2 ^ (i - 1)) x r a b"
  shows "halves (2 ^ (L - i)) (2 ^ (i - 1)) (fold exchange (later_pass L i t) x) r
    (min a (b + 2 ^ (i - t - 1))) (max b (a - 2 ^ (i - t - 1)))"
proof -
  define s :: nat where "s = 2 ^ (L - i)"
  define m :: nat where "m = 2 ^ (i - 1)"
  define h :: nat where "h = 2 ^ (i - t - 1)"
  let ?y = "fold exchange (later_pass L i t) x"
  have i: "1 \<le> i" "i \<le> L" using t by simp_all
  have p: "later_pass L i t = map (\<lambda>u. (spread s u + s - 2 * (s * h), spread s u)) [s * h..<s * m]"
    using round_sizes(1) [OF i] pass_sizes [OF t] by (simp add: later_pass_def s_def m_def h_def)
  have s0: "0 < s" and hm: "h \<le> m" and rs: "r < s" using pass_sizes(3) [OF t] r by (simp_all add: s_def m_def h_def)
  have lo: "spread s (r' + s * j) + s - 2 * (s * h) = cell s r' 1 (j - h)" if r': "r' < s" and j: "h \<le> j" "j < m" for r' j
  proof -
    obtain k where "j = h + k" using j(1) by (auto simp: le_iff_add)
    then show ?thesis by (simp only: spread_cell [OF r']) (simp add: cell_def algebra_simps)
  qed
  have hi: "spread s (r' + s * j) = cell s r' 0 (j - 0)" if "r' < s" "h \<le> j" "j < m" for r' j
    using that(1) by (simp add: spread_cell)
  note y = cells_pass [OF s0 hm _ _ _ lo hi _ _ rs, where x = x, simplified, folded p]
  have even: "?y (cell s r 0 j) = (min a (b + h) \<le> j)" if j: "j < m" for j
  proof (cases "h \<le> j")
    case True
    then show ?thesis using y(2) [OF True j] x j by (auto simp: halves_def s_def m_def)
  next
    case False
    then show ?thesis using y(4) [of j] x j by (auto simp: halves_def s_def m_def)
  qed
  have odd: "?y (cell s r 1 j) = (max b (a - h) \<le> j)" if j: "j < m" for j
  proof (cases "j + h < m")
    case True
    then show ?thesis using y(1) [of "j + h"] x j by (auto simp: halves_def s_def m_def)
  next
    case False
    then show ?thesis using y(3) [of j] x j by (auto simp: halves_def s_def m_def)
  qed
  have "a \<le> m" "b \<le> m" using x by (simp_all add: halves_def m_def)
  then have "min a (b + h) \<le> m" "max b (a - h) \<le> m" by simp_all
  then show ?thesis using even odd unfolding halves_def s_def m_def h_def by blast
qed

text \<open>The passes bring the two boundaries together.\<close>

lemma later_passes_halves:
  assumes "k < i" "i \<le> L" "r < 2 ^ (L - i)" "halves (2 ^ (L - i)) (2 ^ (i - 1)) x r a b" "b \<le> a" "a \<le> b + 2 ^ (i - 1)"
  shows "\<exists>a' b'. halves (2 ^ (L - i)) (2 ^ (i - 1)) (fold exchange (concat (map (later_pass L i) [1..<Suc k])) x) r a' b' \<and>
    b' \<le> a' \<and> a' \<le> b' + 2 ^ (i - 1 - k)"
  using assms(1)
proof (induction k)
  case 0
  then show ?case using assms(4-6) by auto
next
  case (Suc k)
  then obtain a' b' where ab: "halves (2 ^ (L - i)) (2 ^ (i - 1)) (fold exchange (concat (map (later_pass L i) [1..<Suc k])) x) r a' b'"
    "b' \<le> a'" "a' \<le> b' + 2 ^ (i - 1 - k)" by auto
  let ?h = "2 ^ (i - Suc k - 1) :: nat"
  have "2 ^ (i - 1 - k) = 2 * ?h" using pass_sizes(4) [of "Suc k" i L] Suc.prems assms(2) by simp
  then have "max b' (a' - ?h) \<le> min a' (b' + ?h)" "min a' (b' + ?h) \<le> max b' (a' - ?h) + ?h" using ab(2,3) by linarith+
  moreover have "halves (2 ^ (L - i)) (2 ^ (i - 1)) (fold exchange (later_pass L i (Suc k)) (fold exchange (concat (map (later_pass L i) [1..<Suc k])) x)) r
    (min a' (b' + ?h)) (max b' (a' - ?h))"
    by (rule later_pass_halves) (use Suc.prems assms(2,3) ab(1) in simp_all)
  ultimately show ?case by (intro exI [of _ "min a' (b' + ?h)"] exI [of _ "max b' (a' - ?h)"]) simp
qed

text \<open>The classes modulo \<open>2 ^ (L - i)\<close> are sorted.\<close>

definition classes :: "nat \<Rightarrow> nat \<Rightarrow> (nat \<Rightarrow> bool) \<Rightarrow> bool" where
  "classes L i x \<longleftrightarrow> (\<forall>r < 2 ^ (L - i). \<exists>c. \<forall>q < 2 ^ i. x (r + 2 ^ (L - i) * q) = (c \<le> q))"

lemma classes_halves:
  assumes i: "1 \<le> i" "i \<le> L" and x: "classes L (i - 1) x" and r: "r < 2 ^ (L - i)"
  shows "\<exists>a b. halves (2 ^ (L - i)) (2 ^ (i - 1)) x r a b"
proof -
  let ?s = "2 ^ (L - i) :: nat" and ?m = "2 ^ (i - 1) :: nat"
  have s2: "2 ^ (L - (i - 1)) = 2 * ?s" by (rule round_sizes(2) [OF i])
  obtain a where a: "\<And>q. q < ?m \<Longrightarrow> x (r + 2 * ?s * q) = (a \<le> q)"
    using x r unfolding classes_def s2 by (metis add_lessD1 mult_2 trans_less_add1)
  have "r + ?s < 2 * ?s" using r by simp
  then obtain b where b: "\<And>q. q < ?m \<Longrightarrow> x (r + ?s + 2 * ?s * q) = (b \<le> q)"
    using x unfolding classes_def s2 by blast
  have "x (cell ?s r 0 j) = (min a ?m \<le> j)" "x (cell ?s r 1 j) = (min b ?m \<le> j)" if "j < ?m" for j
  proof -
    have "cell ?s r 0 j = r + 2 * ?s * j" "cell ?s r 1 j = r + ?s + 2 * ?s * j" by (simp_all add: cell_def algebra_simps)
    then show "x (cell ?s r 0 j) = (min a ?m \<le> j)" "x (cell ?s r 1 j) = (min b ?m \<le> j)"
      using a [OF that] b [OF that] that by (simp_all add: min_le_iff_disj)
  qed
  then have "halves ?s ?m x r (min a ?m) (min b ?m)" by (simp add: halves_def)
  then show ?thesis by blast
qed

lemma halves_class:
  assumes x: "halves s m x r a b" and ab: "b \<le> a" "a \<le> b + 1" and q: "q < 2 * m"
  shows "x (r + s * q) = (a + b \<le> q)"
proof -
  obtain j c where j: "q = 2 * j + c" "c < 2" by (metis mult_div_mod_eq mod_less_divisor zero_less_numeral)
  then have jm: "j < m" using q by simp
  have "x (cell s r c j) = (a + b \<le> q)"
  proof (cases "c = 0")
    case True
    then show ?thesis using x jm j ab by (auto simp: halves_def)
  next
    case False
    then have "c = 1" using j(2) by simp
    then show ?thesis using x jm j ab by (auto simp: halves_def)
  qed
  then show ?thesis using j(1) by (simp add: cell_def)
qed

lemma round_classes:
  assumes i: "1 \<le> i" "i \<le> L" and x: "classes L (i - 1) x"
  shows "classes L i (fold exchange (sort_round L i) x)"
proof -
  let ?s = "2 ^ (L - i) :: nat" and ?m = "2 ^ (i - 1) :: nat" and ?y = "fold exchange (sort_round L i) x"
  have "\<exists>c. \<forall>q < 2 ^ i. ?y (r + ?s * q) = (c \<le> q)" if r: "r < ?s" for r
  proof -
    obtain a b where ab: "halves ?s ?m x r a b" using classes_halves [OF i x r] by blast
    have h: "halves ?s ?m (fold exchange (first_pass L i) x) r (max a b) (min a b)" by (rule first_pass_halves [OF i r ab])
    have "max a b \<le> min a b + ?m" using ab by (auto simp: halves_def)
    then have "\<exists>a' b'. halves ?s ?m (fold exchange (concat (map (later_pass L i) [1..<Suc (i - 1)])) (fold exchange (first_pass L i) x)) r a' b' \<and>
      b' \<le> a' \<and> a' \<le> b' + 2 ^ (i - 1 - (i - 1))" by (intro later_passes_halves [OF _ i(2) r h]) (use i in simp_all)
    moreover have "fold exchange (concat (map (later_pass L i) [1..<Suc (i - 1)])) (fold exchange (first_pass L i) x) = ?y"
      using i(1) by (simp add: sort_round_def)
    ultimately obtain a' b' where "halves ?s ?m ?y r a' b'" "b' \<le> a'" "a' \<le> b' + 1" by (simp only:) auto
    then have "\<forall>q < 2 * ?m. ?y (r + ?s * q) = (a' + b' \<le> q)" using halves_class by blast
    then show ?thesis unfolding round_sizes(3) [OF i] by blast
  qed
  then show ?thesis by (simp add: classes_def)
qed

lemma rounds_classes: "k \<le> L \<Longrightarrow> classes L k (fold exchange (concat (map (sort_round L) [1..<Suc k])) x)"
proof (induction k)
  case 0
  have "classes L 0 x"
  proof -
    have "\<exists>c. \<forall>q < 2 ^ 0. x (r + 2 ^ (L - 0) * q) = (c \<le> q)" for r
      by (rule exI [of _ "if x r then 0 else 1"]) simp
    then show ?thesis by (simp add: classes_def)
  qed
  then show ?case by simp
next
  case (Suc k)
  then show ?case using round_classes [of "Suc k" L "fold exchange (concat (map (sort_round L) [1..<Suc k])) x"] by simp
qed

section \<open>The network sorts\<close>

lemma merge_exchange_less: "\<forall>p \<in> set (merge_exchange L). fst p < snd p"
proof -
  have "spread (2 ^ (L - i)) u + 2 ^ (L - i) - 2 ^ (L - t) < spread (2 ^ (L - i)) u" if "1 \<le> t" "t < i" "i \<le> L" "2 ^ (L - t - 1) \<le> u" for i t u
  proof -
    have less: "(2 :: nat) ^ (L - i) < 2 ^ (L - t)" using that by simp
    have "(2 :: nat) ^ (L - i) \<le> 2 ^ (L - t - 1)" using that by (intro power_increasing) simp_all
    also note that(4)
    finally have "0 < u div 2 ^ (L - i)" by (simp add: div_greater_zero_iff)
    then have "0 < spread (2 ^ (L - i)) u" by (simp add: spread_def)
    then show ?thesis using less by linarith
  qed
  then show ?thesis by (fastforce simp: merge_exchange_def sort_round_def first_pass_def later_pass_def)
qed

theorem merge_exchange_sorts:
  fixes xs :: "'a :: linorder list"
  assumes "length xs \<le> 2 ^ L"
  shows "sorted (network (filter (\<lambda>p. snd p < length xs) (merge_exchange L)) xs)"
proof (rule zero_one)
  show "inside (length xs) (filter (\<lambda>p. snd p < length xs) (merge_exchange L))"
    using merge_exchange_less [of L] by (auto simp: inside_def split_beta)
  fix bs :: "bool list"
  assume bs: "length bs = length xs"
  let ?bs = "network (filter (\<lambda>p. snd p < length xs) (merge_exchange L)) bs"
  have "classes L L (pad ?bs)"
    using rounds_classes [of L L "pad bs"] pad_network [of "merge_exchange L" bs] merge_exchange_less bs by (simp add: merge_exchange_def)
  then obtain c where "\<forall>q < 2 ^ L. pad ?bs q = (c \<le> q)" by (auto simp: classes_def)
  moreover have "q < 2 ^ L" if "q < length bs" for q using that bs assms by linarith
  ultimately have "pad ?bs q = (c \<le> q)" if "q < length bs" for q using that by blast
  then have "?bs ! q = (c \<le> q)" if "q < length bs" for q using that by (simp add: pad_def)
  then show "sorted ?bs" by (auto simp: sorted_iff_nth_mono_less)
qed

end
