(* ===== verification/TaggedPtr.thy ===== *)
theory TaggedPtr
  imports Prelude
begin

text \<open>
  \<open>mini_libcxx/include/tagged_ptr.hpp\<close> outside constant evaluation: the 16-byte
  header in front of every node (container id and a word that is a reference
  count or the head of a list of references), \<open>tagged_ptr\<close>, \<open>counted_ref\<close> and
  \<open>linked_ref\<close>.  Blocks are named by natural numbers that are never reused; the
  null pointer is \<^term>\<open>None\<close>.  A reference object of the linked kind has an
  address, a 64-bit word, because the header and its neighbours point to it.
  Reading or writing the header of a freed block, a missing reference object and
  \<open>std::terminate\<close> are faults, the value \<^term>\<open>None\<close>.
\<close>

section \<open>The store\<close>

record tag =
  tag_id :: u64
  tag_word :: u64

record linked_ref =
  lr_ptr :: ptr
  lr_prev :: u64
  lr_next :: u64

record tag_store =
  tags :: "nat \<Rightarrow> tag option"
  next_block :: nat
  lrefs :: "u64 \<Rightarrow> linked_ref option"

definition COUNTER_MODE :: u64 where "COUNTER_MODE = push_bit 63 1"
definition TOMBSTONE :: u64 where "TOMBSTONE = push_bit 62 1"

definition tag_at :: "tag_store \<Rightarrow> ptr \<Rightarrow> tag option" where
  "tag_at s p = do { i \<leftarrow> p; tags s i }"

definition set_word :: "tag_store \<Rightarrow> ptr \<Rightarrow> u64 \<Rightarrow> tag_store option" where
  "set_word s p w = do {
     i \<leftarrow> p;
     t \<leftarrow> tags s i;
     Some (s\<lparr>tags := (tags s)(i \<mapsto> t\<lparr>tag_word := w\<rparr>)\<rparr>) }"

definition free_block :: "tag_store \<Rightarrow> ptr \<Rightarrow> tag_store option" where
  "free_block s p = do {
     i \<leftarrow> p;
     t \<leftarrow> tags s i;
     Some (s\<lparr>tags := (tags s)(i := None)\<rparr>) }"

section \<open>counted_ref\<close>

text \<open>A \<open>counted_ref\<close> is the pointer it holds; operations on one return the new pointer.\<close>

definition counted_copy :: "tag_store \<Rightarrow> ptr \<Rightarrow> (tag_store \<times> ptr) option" where
  "counted_copy s other =
     (if other \<noteq> None then do {
        t \<leftarrow> tag_at s other;
        s \<leftarrow> set_word s other (tag_word t + 1);
        Some (s, other) }
      else Some (s, None))"

definition counted_move :: "ptr \<Rightarrow> ptr \<times> ptr" where
  "counted_move other = (other, None)"

definition counted_clear :: "tag_store \<Rightarrow> ptr \<Rightarrow> (tag_store \<times> ptr) option" where
  "counted_clear s this =
     (if this \<noteq> None then do {
        t \<leftarrow> tag_at s this;
        let w = tag_word t - 1;
        s \<leftarrow> set_word s this w;
        s \<leftarrow> (if w = TOMBSTONE OR COUNTER_MODE then free_block s this else Some s);
        Some (s, None) }
      else Some (s, None))"

text \<open>Assignments between two different reference objects.\<close>

definition counted_assign :: "tag_store \<Rightarrow> ptr \<Rightarrow> ptr \<Rightarrow> (tag_store \<times> ptr) option" where
  "counted_assign s this other = do {
     (s, this) \<leftarrow> counted_clear s this;
     counted_copy s other }"

definition counted_move_assign :: "tag_store \<Rightarrow> ptr \<Rightarrow> ptr \<Rightarrow> (tag_store \<times> ptr \<times> ptr) option" where
  "counted_move_assign s this other = do {
     (s, this) \<leftarrow> counted_clear s this;
     Some (s, other, None) }"

definition counted_get_id :: "tag_store \<Rightarrow> ptr \<Rightarrow> u64 option" where
  "counted_get_id s p = do { t \<leftarrow> tag_at s p; Some (tag_id t) }"

definition counted_bool :: "tag_store \<Rightarrow> ptr \<Rightarrow> bool option" where
  "counted_bool s p =
     (if p = None then Some False
      else do { t \<leftarrow> tag_at s p; Some (tag_word t AND TOMBSTONE = 0) })"

definition counted_check :: "tag_store \<Rightarrow> ptr \<Rightarrow> u64 \<Rightarrow> bool option" where
  "counted_check s p cid =
     (if p = None then Some False
      else do {
        t \<leftarrow> tag_at s p;
        if tag_id t \<noteq> cid then Some False else Some (tag_word t AND TOMBSTONE = 0) })"

definition counted_check_maybe_null :: "tag_store \<Rightarrow> ptr \<Rightarrow> u64 \<Rightarrow> u32 option" where
  "counted_check_maybe_null s p cid =
     (if p = None then Some 0
      else do {
        t \<leftarrow> tag_at s p;
        if tag_id t \<noteq> cid then Some 1 else Some (if tag_word t AND TOMBSTONE = 0 then 2 else 1) })"

section \<open>linked_ref\<close>

definition lref_at :: "tag_store \<Rightarrow> u64 \<Rightarrow> linked_ref option" where
  "lref_at s a = (if a = 0 then None else lrefs s a)"

definition lref_update :: "tag_store \<Rightarrow> u64 \<Rightarrow> (linked_ref \<Rightarrow> linked_ref) \<Rightarrow> tag_store option" where
  "lref_update s a f = do {
     r \<leftarrow> lref_at s a;
     Some (s\<lparr>lrefs := (lrefs s)(a \<mapsto> f r)\<rparr>) }"

text \<open>\<open>if (q != nullptr) q->field = v;\<close>\<close>

definition lref_update_opt :: "tag_store \<Rightarrow> u64 \<Rightarrow> (linked_ref \<Rightarrow> linked_ref) \<Rightarrow> tag_store option" where
  "lref_update_opt s a f = (if a \<noteq> 0 then lref_update s a f else Some s)"

definition null_ref :: linked_ref where
  "null_ref = \<lparr>lr_ptr = None, lr_prev = 0, lr_next = 0\<rparr>"

text \<open>The default constructor, at address \<open>this\<close>.\<close>

definition linked_new :: "tag_store \<Rightarrow> u64 \<Rightarrow> tag_store" where
  "linked_new s this = s\<lparr>lrefs := (lrefs s)(this \<mapsto> null_ref)\<rparr>"

text \<open>Put the reference at \<open>this\<close>, whose links are null, in front of the list of \<open>p\<close>.\<close>

definition linked_push :: "tag_store \<Rightarrow> u64 \<Rightarrow> ptr \<Rightarrow> tag_store option" where
  "linked_push s this p =
     (if p \<noteq> None then do {
        t \<leftarrow> tag_at s p;
        s \<leftarrow> lref_update s this (\<lambda>r. r\<lparr>lr_ptr := p, lr_next := tag_word t\<rparr>);
        s \<leftarrow> lref_update_opt s (tag_word t) (\<lambda>r. r\<lparr>lr_prev := this\<rparr>);
        set_word s p this }
      else lref_update s this (\<lambda>r. r\<lparr>lr_ptr := None, lr_next := 0\<rparr>))"

definition linked_copy :: "tag_store \<Rightarrow> u64 \<Rightarrow> u64 \<Rightarrow> tag_store option" where
  "linked_copy s this other = do {
     r \<leftarrow> lref_at s other;
     linked_push (linked_new s this) this (lr_ptr r) }"

definition linked_clear :: "tag_store \<Rightarrow> u64 \<Rightarrow> tag_store option" where
  "linked_clear s this = do {
     r \<leftarrow> lref_at s this;
     s \<leftarrow> lref_update_opt s (lr_next r) (\<lambda>q. q\<lparr>lr_prev := lr_prev r\<rparr>);
     s \<leftarrow> (if lr_prev r \<noteq> 0 then lref_update s (lr_prev r) (\<lambda>q. q\<lparr>lr_next := lr_next r\<rparr>)
          else if lr_ptr r \<noteq> None then set_word s (lr_ptr r) (lr_next r)
          else Some s);
     lref_update s this (\<lambda>_. null_ref) }"

text \<open>Take over the place of \<open>other\<close> in its list; the reference at \<open>this\<close> is in no list.\<close>

definition linked_take :: "tag_store \<Rightarrow> u64 \<Rightarrow> u64 \<Rightarrow> tag_store option" where
  "linked_take s this other = do {
     r \<leftarrow> lref_at s other;
     s \<leftarrow> lref_update s this (\<lambda>_. r);
     s \<leftarrow> lref_update s other (\<lambda>_. null_ref);
     s \<leftarrow> lref_update_opt s (lr_next r) (\<lambda>q. q\<lparr>lr_prev := this\<rparr>);
     (if lr_prev r \<noteq> 0 then lref_update s (lr_prev r) (\<lambda>q. q\<lparr>lr_next := this\<rparr>)
      else if lr_ptr r \<noteq> None then set_word s (lr_ptr r) this
      else Some s) }"

definition linked_move :: "tag_store \<Rightarrow> u64 \<Rightarrow> u64 \<Rightarrow> tag_store option" where
  "linked_move s this other = linked_take (linked_new s this) this other"

definition linked_assign :: "tag_store \<Rightarrow> u64 \<Rightarrow> u64 \<Rightarrow> tag_store option" where
  "linked_assign s this other =
     (if this = other then Some s
      else do {
        s \<leftarrow> linked_clear s this;
        r \<leftarrow> lref_at s other;
        linked_push s this (lr_ptr r) })"

definition linked_move_assign :: "tag_store \<Rightarrow> u64 \<Rightarrow> u64 \<Rightarrow> tag_store option" where
  "linked_move_assign s this other =
     (if this = other then Some s
      else do {
        s \<leftarrow> linked_clear s this;
        linked_take s this other })"

definition linked_destroy :: "tag_store \<Rightarrow> u64 \<Rightarrow> tag_store option" where
  "linked_destroy s this = do {
     s \<leftarrow> linked_clear s this;
     Some (s\<lparr>lrefs := (lrefs s)(this := None)\<rparr>) }"

definition linked_check :: "tag_store \<Rightarrow> u64 \<Rightarrow> u64 \<Rightarrow> bool option" where
  "linked_check s this cid = do {
     r \<leftarrow> lref_at s this;
     if lr_ptr r = None then Some False
     else do { t \<leftarrow> tag_at s (lr_ptr r); Some (tag_id t = cid) } }"

definition linked_check_maybe_null :: "tag_store \<Rightarrow> u64 \<Rightarrow> u64 \<Rightarrow> u32 option" where
  "linked_check_maybe_null s this cid = do {
     r \<leftarrow> lref_at s this;
     if lr_ptr r = None then Some 0
     else do { t \<leftarrow> tag_at s (lr_ptr r); Some (if tag_id t = cid then 2 else 1) } }"

section \<open>tagged_ptr\<close>

definition tagged_allocate :: "tag_store \<Rightarrow> u64 \<Rightarrow> tag_store \<times> ptr" where
  "tagged_allocate s cid =
     (s\<lparr>tags := (tags s)(next_block s \<mapsto> \<lparr>tag_id = cid, tag_word = COUNTER_MODE\<rparr>), next_block := Suc (next_block s)\<rparr>,
      Some (next_block s))"

text \<open>\<open>while (p != nullptr) { next = p->next; *p = null; p = next; }\<close>\<close>

partial_function (option) nullify_loop :: "tag_store \<Rightarrow> u64 \<Rightarrow> tag_store option" where
  "nullify_loop s p =
     (if p \<noteq> 0 then do {
        r \<leftarrow> lref_at s p;
        s \<leftarrow> lref_update s p (\<lambda>_. null_ref);
        nullify_loop s (lr_next r) }
      else Some s)"

declare nullify_loop.simps [code]

definition tagged_deallocate :: "tag_store \<Rightarrow> ptr \<Rightarrow> tag_store option" where
  "tagged_deallocate s p =
     (if p = None then Some s
      else do {
        t \<leftarrow> tag_at s p;
        if tag_word t AND COUNTER_MODE \<noteq> 0 then
          (if tag_word t \<noteq> COUNTER_MODE then set_word s p (tag_word t OR TOMBSTONE)
           else free_block s p)
        else do {
          s \<leftarrow> nullify_loop s (tag_word t);
          free_block s p } })"

definition create_counted_ref :: "tag_store \<Rightarrow> ptr \<Rightarrow> ptr \<Rightarrow> (tag_store \<times> ptr) option" where
  "create_counted_ref s p result = do {
     (s, result) \<leftarrow> counted_clear s result;
     t \<leftarrow> tag_at s p;
     if tag_word t AND COUNTER_MODE \<noteq> 0 then do {
       s \<leftarrow> set_word s p (tag_word t + 1);
       Some (s, p) }
     else if tag_word t = 0 then do {
       s \<leftarrow> set_word s p (COUNTER_MODE OR 1);
       Some (s, p) }
     else None }"

definition create_linked_ref :: "tag_store \<Rightarrow> ptr \<Rightarrow> u64 \<Rightarrow> tag_store option" where
  "create_linked_ref s p result = do {
     s \<leftarrow> linked_clear s result;
     t \<leftarrow> tag_at s p;
     s \<leftarrow> (if tag_word t AND COUNTER_MODE \<noteq> 0 then
            (if tag_word t = COUNTER_MODE then set_word s p result else None)
          else do {
            s \<leftarrow> lref_update s result (\<lambda>r. r\<lparr>lr_next := tag_word t\<rparr>);
            s \<leftarrow> lref_update_opt s (tag_word t) (\<lambda>r. r\<lparr>lr_prev := result\<rparr>);
            set_word s p result });
     lref_update s result (\<lambda>r. r\<lparr>lr_prev := 0, lr_ptr := p\<rparr>) }"

definition deref_counted_ref :: "tag_store \<Rightarrow> ptr \<Rightarrow> nat option" where
  "deref_counted_ref s p = do {
     i \<leftarrow> p;
     t \<leftarrow> tags s i;
     if tag_word t AND TOMBSTONE \<noteq> 0 then None else Some i }"


section \<open>The counter word\<close>

definition count_word :: "bool \<Rightarrow> nat \<Rightarrow> u64" where
  "count_word owned n = COUNTER_MODE + (if owned then 0 else TOMBSTONE) + of_nat n"

lemma bit_mode [simp]: "bit COUNTER_MODE k \<longleftrightarrow> k = 63" "bit TOMBSTONE k \<longleftrightarrow> k = 62"
  unfolding COUNTER_MODE_def TOMBSTONE_def
  by (simp_all only: bit_push_bit_iff bit_1_iff) (auto simp: not_less)

lemma mode_nonzero [simp]: "COUNTER_MODE \<noteq> 0" "TOMBSTONE \<noteq> 0"
  by (metis bit_mode bit_0_eq bot_apply bot_bool_def)+

lemma bit_mode_and: "COUNTER_MODE AND COUNTER_MODE \<noteq> 0"
  by simp

lemma count_bit_high:
  fixes n :: nat
  assumes "n < 2 ^ 62" "62 \<le> k"
  shows "\<not> bit n k"
proof
  assume b: "bit n k"
  have "n = take_bit 62 n" using assms(1) by (simp add: take_bit_nat_eq_self)
  with b have "bit (take_bit 62 n) k" by simp
  with assms(2) show False by (simp add: bit_simps)
qed

lemma count_word_or:
  assumes "n < 2 ^ 62"
  shows "count_word owned n = COUNTER_MODE OR ((if owned then 0 else TOMBSTONE) OR of_nat n)"
proof -
  note hi = count_bit_high [OF assms]
  have "(if owned then 0 else TOMBSTONE) AND of_nat n = (0 :: u64)"
    by (rule bit_word_eqI) (auto simp: bit_simps hi)
  then have "(if owned then 0 else TOMBSTONE) + of_nat n = (if owned then 0 else TOMBSTONE) OR (of_nat n :: u64)"
    by (rule disjunctive_add_eq_or)
  moreover have "COUNTER_MODE AND ((if owned then 0 else TOMBSTONE) OR of_nat n) = 0"
    by (rule bit_word_eqI) (auto simp: bit_simps hi)
  ultimately show ?thesis
    by (simp only: count_word_def add.assoc disjunctive_add_eq_or)
qed

lemma bit_count_word:
  "n < 2 ^ 62 \<Longrightarrow> k < 64 \<Longrightarrow> bit (count_word owned n) k \<longleftrightarrow> k = 63 \<or> k = 62 \<and> \<not> owned \<or> bit (of_nat n :: u64) k"
  by (auto simp: count_word_or bit_simps)

lemma count_word_tests:
  assumes "n < 2 ^ 62"
  shows "count_word owned n AND COUNTER_MODE \<noteq> 0" "count_word owned n AND TOMBSTONE = 0 \<longleftrightarrow> owned"
proof -
  have "bit (count_word owned n AND COUNTER_MODE) 63" using assms by (simp add: bit_count_word bit_simps)
  then show "count_word owned n AND COUNTER_MODE \<noteq> 0" by (metis bit_0_eq bot_apply bot_bool_def)
  have "count_word owned n AND TOMBSTONE = (if owned then 0 else TOMBSTONE)"
    using assms by (intro bit_word_eqI) (auto simp: bit_count_word bit_simps count_bit_high)
  then show "count_word owned n AND TOMBSTONE = 0 \<longleftrightarrow> owned" by simp
qed

lemma count_word_steps:
  "count_word owned n + 1 = count_word owned (Suc n)" "0 < n \<Longrightarrow> count_word owned n - 1 = count_word owned (n - 1)"
  by (simp_all add: count_word_def of_nat_diff)

lemma count_word_tomb: "n < 2 ^ 62 \<Longrightarrow> count_word True n OR TOMBSTONE = count_word False n"
  by (simp add: count_word_or or.left_commute or.commute)

lemma of_nat_eq_0_u64: "n < 2 ^ 62 \<Longrightarrow> of_nat n = (0 :: u64) \<longleftrightarrow> n = 0"
  by (auto simp: word_of_nat_eq_0_iff dest: nat_dvd_not_less)

lemma count_word_eqs:
  assumes n: "n < 2 ^ 62"
  shows "count_word owned n = COUNTER_MODE \<longleftrightarrow> owned \<and> n = 0"
    "count_word owned n = TOMBSTONE OR COUNTER_MODE \<longleftrightarrow> \<not> owned \<and> n = 0"
proof -
  have d: "count_word owned n = count_word owned' 0 \<longleftrightarrow> owned = owned' \<and> n = 0" for owned'
  proof
    assume e: "count_word owned n = count_word owned' 0"
    then have "owned = owned'"
      using count_word_tests(2) [OF n, of owned] count_word_tests(2) [of 0 owned'] by simp
    with e have "of_nat n = (0 :: u64)" by (simp add: count_word_def)
    with \<open>owned = owned'\<close> n show "owned = owned' \<and> n = 0" by (simp add: of_nat_eq_0_u64)
  qed auto
  show "count_word owned n = COUNTER_MODE \<longleftrightarrow> owned \<and> n = 0"
    using d [of True] by (simp add: count_word_def)
  show "count_word owned n = TOMBSTONE OR COUNTER_MODE \<longleftrightarrow> \<not> owned \<and> n = 0"
    using d [of False] count_word_or [of 0 False] by (simp add: or.commute)
qed

section \<open>Counted references never dangle\<close>

text \<open>A run of a container and of its clients: the store, the blocks the container
  holds, and the pointers of all \<open>counted_ref\<close> objects alive.\<close>

type_synonym counted_state = "tag_store \<times> nat set \<times> ptr list"

inductive counted_step :: "counted_state \<Rightarrow> counted_state \<Rightarrow> bool" where
  allocate: "tagged_allocate s cid = (s', Some i) \<Longrightarrow> counted_step (s, own, hs) (s', insert i own, hs)"
| create: "i \<in> own \<Longrightarrow> create_counted_ref s (Some i) None = Some (s', h) \<Longrightarrow> length hs < 2 ^ 61 \<Longrightarrow>
    counted_step (s, own, hs) (s', own, h # hs)"
| copy: "h \<in> set hs \<Longrightarrow> counted_copy s h = Some (s', h') \<Longrightarrow> length hs < 2 ^ 61 \<Longrightarrow>
    counted_step (s, own, hs) (s', own, h' # hs)"
| clear: "hs = xs @ h # ys \<Longrightarrow> counted_clear s h = Some (s', h') \<Longrightarrow>
    counted_step (s, own, hs) (s', own, xs @ ys)"
| assign: "hs = xs @ h # ys \<Longrightarrow> other \<in> set (xs @ ys) \<Longrightarrow> counted_assign s h other = Some (s', h') \<Longrightarrow>
    counted_step (s, own, hs) (s', own, xs @ h' # ys)"
| deallocate: "i \<in> own \<Longrightarrow> tagged_deallocate s (Some i) = Some s' \<Longrightarrow>
    counted_step (s, own, hs) (s', own - {i}, hs)"

inductive counted_reachable :: "counted_state \<Rightarrow> bool" where
  start: "counted_reachable (\<lparr>tags = Map.empty, next_block = 0, lrefs = Map.empty\<rparr>, {}, [])"
| step: "counted_reachable st \<Longrightarrow> counted_step st st' \<Longrightarrow> counted_reachable st'"

inductive_cases counted_stepE: "counted_step (s, own, hs) st'"

definition handles_of :: "ptr list \<Rightarrow> nat \<Rightarrow> nat" where
  "handles_of hs i = length (filter (\<lambda>h. h = Some i) hs)"

text \<open>The header of a block counts the references to it and knows whether the
  container has given it up; a block is freed as soon as neither holds it.\<close>

fun block_ok :: "tag option \<Rightarrow> bool \<Rightarrow> nat \<Rightarrow> bool \<Rightarrow> bool" where
  "block_ok None owned n old \<longleftrightarrow> \<not> owned \<and> n = 0"
| "block_ok (Some t) owned n old \<longleftrightarrow> (owned \<or> 0 < n) \<and> old \<and> tag_word t = count_word owned n"

definition counted_ok :: "counted_state \<Rightarrow> bool" where
  "counted_ok = (\<lambda>(s, own, hs). length hs \<le> 2 ^ 61 \<and>
     (\<forall>i. block_ok (tags s i) (i \<in> own) (handles_of hs i) (i < next_block s)))"

lemma handles_of_simps [simp]:
  "handles_of [] i = 0" "handles_of (h # hs) i = (if h = Some i then Suc (handles_of hs i) else handles_of hs i)"
  "handles_of (xs @ ys) i = handles_of xs i + handles_of ys i"
  by (simp_all add: handles_of_def)

lemma block_old: "block_ok x b n old \<Longrightarrow> (old \<Longrightarrow> old') \<Longrightarrow> block_ok x b n old'"
  by (cases x) auto

lemma handles_of_bound: "handles_of hs i \<le> length hs"
  by (simp add: handles_of_def)

lemma handles_of_pos: "0 < handles_of hs i \<longleftrightarrow> Some i \<in> set hs"
  by (induction hs) auto

lemma counted_okD:
  assumes "counted_ok (s, own, hs)"
  shows "tags s i = None \<Longrightarrow> i \<notin> own \<and> handles_of hs i = 0"
    and "tags s i = Some t \<Longrightarrow> i < next_block s \<and> (i \<in> own \<or> 0 < handles_of hs i) \<and>
      tag_word t = count_word (i \<in> own) (handles_of hs i) \<and> handles_of hs i < 2 ^ 62"
    and "Some i \<in> set hs \<Longrightarrow> tags s i \<noteq> None" and "i \<in> own \<Longrightarrow> tags s i \<noteq> None"
  using assms handles_of_bound [of hs i] handles_of_pos [of hs i]
  unfolding counted_ok_def by (cases "tags s i"; auto dest!: spec [of _ i])+

lemma counted_ok_upd:
  assumes "counted_ok (s, own, hs)" "length hs' \<le> 2 ^ 61" "next_block s \<le> nb"
    and "\<And>j. j \<noteq> i \<Longrightarrow> (j \<in> own' \<longleftrightarrow> j \<in> own) \<and> handles_of hs' j = handles_of hs j"
    and "block_ok x (i \<in> own') (handles_of hs' i) (i < nb)"
  shows "counted_ok (s\<lparr>tags := (tags s)(i := x), next_block := nb\<rparr>, own', hs')"
  unfolding counted_ok_def
proof (simp, intro conjI allI impI)
  show "length hs' \<le> 2305843009213693952" using assms(2) by simp
next
  fix j assume "j \<noteq> i"
  moreover have "block_ok (tags s j) (j \<in> own) (handles_of hs j) (j < next_block s)"
    using assms(1) by (simp add: counted_ok_def)
  ultimately show "block_ok (tags s j) (j \<in> own') (handles_of hs' j) (j < nb)"
    using assms(3) assms(4) [of j] block_old [of "tags s j" "j \<in> own" "handles_of hs j" "j < next_block s" "j < nb"] by simp
qed (use assms(5) in simp)

lemma counted_ok_upd_same:
  assumes "counted_ok (s, own, hs)" "length hs' \<le> 2 ^ 61"
    and "\<And>j. j \<noteq> i \<Longrightarrow> (j \<in> own' \<longleftrightarrow> j \<in> own) \<and> handles_of hs' j = handles_of hs j"
    and "block_ok x (i \<in> own') (handles_of hs' i) (i < next_block s)"
  shows "counted_ok (s\<lparr>tags := (tags s)(i := x)\<rparr>, own', hs')"
  using counted_ok_upd [OF assms(1,2) order.refl assms(3,4)] by simp

text \<open>Every operation succeeds, with the effect of one more or one less reference.\<close>

lemma counted_copy_ok:
  assumes ok: "counted_ok (s, own, hs)" and h: "h \<in> set hs" and len: "length hs < 2 ^ 61"
  shows "\<exists>s'. counted_copy s h = Some (s', h) \<and> counted_ok (s', own, h # hs)"
proof (cases h)
  case None
  then show ?thesis using ok len by (auto simp: counted_copy_def counted_ok_def)
next
  case (Some i)
  with counted_okD(3) [OF ok] h obtain t where t: "tags s i = Some t" by auto
  note D = counted_okD(2) [OF ok t]
  have "counted_copy s h = Some (s\<lparr>tags := (tags s)(i \<mapsto> t\<lparr>tag_word := tag_word t + 1\<rparr>)\<rparr>, h)"
    by (simp add: counted_copy_def Some tag_at_def set_word_def t)
  moreover have "counted_ok (s\<lparr>tags := (tags s)(i \<mapsto> t\<lparr>tag_word := tag_word t + 1\<rparr>)\<rparr>, own, h # hs)"
    using D len by (intro counted_ok_upd_same [OF ok]) (auto simp: Some count_word_steps)
  ultimately show ?thesis by blast
qed

lemma counted_clear_ok:
  assumes ok: "counted_ok (s, own, xs @ h # ys)"
  shows "\<exists>s'. counted_clear s h = Some (s', None) \<and> counted_ok (s', own, xs @ ys)"
proof (cases h)
  case None
  then show ?thesis using ok by (auto simp: counted_clear_def counted_ok_def)
next
  case (Some i)
  with counted_okD(3) [OF ok, of i] obtain t where t: "tags s i = Some t" by auto
  note D = counted_okD(2) [OF ok t]
  let ?n = "handles_of (xs @ ys) i"
  have n: "handles_of (xs @ h # ys) i = Suc ?n" by (simp add: Some)
  have w: "tag_word t - 1 = count_word (i \<in> own) ?n" and "?n < 2 ^ 62"
    using D n count_word_steps(2) [of "Suc ?n"] by simp_all
  note last = count_word_eqs(2) [OF \<open>?n < 2 ^ 62\<close>, of "i \<in> own"]
  show ?thesis
  proof (cases "i \<notin> own \<and> ?n = 0")
    case True
    then have "counted_clear s h = Some (s\<lparr>tags := (tags s)(i := None)\<rparr>, None)"
      using w last by (simp add: counted_clear_def Some tag_at_def set_word_def free_block_def t Let_def)
    moreover have "counted_ok (s\<lparr>tags := (tags s)(i := None)\<rparr>, own, xs @ ys)"
      using True ok by (intro counted_ok_upd_same [OF ok]) (auto simp: Some counted_ok_def)
    ultimately show ?thesis by blast
  next
    case False
    with last have "count_word (i \<in> own) ?n \<noteq> TOMBSTONE OR COUNTER_MODE" by blast
    then have "counted_clear s h = Some (s\<lparr>tags := (tags s)(i \<mapsto> t\<lparr>tag_word := count_word (i \<in> own) ?n\<rparr>)\<rparr>, None)"
      using w by (simp add: counted_clear_def Some tag_at_def set_word_def t Let_def)
    moreover have "counted_ok (s\<lparr>tags := (tags s)(i \<mapsto> t\<lparr>tag_word := count_word (i \<in> own) ?n\<rparr>)\<rparr>, own, xs @ ys)"
      using False D ok by (intro counted_ok_upd_same [OF ok]) (auto simp: Some counted_ok_def)
    ultimately show ?thesis by blast
  qed
qed

lemma create_counted_ref_ok:
  assumes ok: "counted_ok (s, own, hs)" and i: "i \<in> own" and len: "length hs < 2 ^ 61"
  shows "\<exists>s'. create_counted_ref s (Some i) None = Some (s', Some i) \<and> counted_ok (s', own, Some i # hs)"
proof -
  from counted_okD(4) [OF ok i] obtain t where t: "tags s i = Some t" by auto
  note D = counted_okD(2) [OF ok t]
  have "create_counted_ref s (Some i) None = Some (s\<lparr>tags := (tags s)(i \<mapsto> t\<lparr>tag_word := tag_word t + 1\<rparr>)\<rparr>, Some i)"
    using D count_word_tests(1) by (simp add: create_counted_ref_def counted_clear_def tag_at_def set_word_def t)
  moreover have "counted_ok (s\<lparr>tags := (tags s)(i \<mapsto> t\<lparr>tag_word := tag_word t + 1\<rparr>)\<rparr>, own, Some i # hs)"
    using D len by (intro counted_ok_upd_same [OF ok]) (auto simp: count_word_steps)
  ultimately show ?thesis by blast
qed

lemma tagged_deallocate_ok:
  assumes ok: "counted_ok (s, own, hs)" and i: "i \<in> own"
  shows "\<exists>s'. tagged_deallocate s (Some i) = Some s' \<and> counted_ok (s', own - {i}, hs)"
proof -
  from counted_okD(4) [OF ok i] obtain t where t: "tags s i = Some t" by auto
  note D = counted_okD(2) [OF ok t]
  have n: "handles_of hs i < 2 ^ 62" using D by blast
  have w: "tag_word t = count_word True (handles_of hs i)" using D i by simp
  show ?thesis
  proof (cases "handles_of hs i = 0")
    case True
    then have "tagged_deallocate s (Some i) = Some (s\<lparr>tags := (tags s)(i := None)\<rparr>)"
      using count_word_tests(1) [OF n] count_word_eqs(1) [OF n] w
      by (simp add: tagged_deallocate_def tag_at_def free_block_def t)
    moreover have "counted_ok (s\<lparr>tags := (tags s)(i := None)\<rparr>, own - {i}, hs)"
      using True ok by (intro counted_ok_upd_same [OF ok]) (auto simp: counted_ok_def)
    ultimately show ?thesis by blast
  next
    case False
    then have "tagged_deallocate s (Some i) =
        Some (s\<lparr>tags := (tags s)(i \<mapsto> t\<lparr>tag_word := count_word False (handles_of hs i)\<rparr>)\<rparr>)"
      using count_word_tests(1) [OF n] count_word_eqs(1) [OF n] count_word_tomb [OF n] w
      by (simp add: tagged_deallocate_def tag_at_def set_word_def t)
    moreover have "counted_ok (s\<lparr>tags := (tags s)(i \<mapsto> t\<lparr>tag_word := count_word False (handles_of hs i)\<rparr>)\<rparr>, own - {i}, hs)"
      using False D ok by (intro counted_ok_upd_same [OF ok]) (auto simp: counted_ok_def)
    ultimately show ?thesis by blast
  qed
qed

lemma tagged_allocate_ok:
  assumes ok: "counted_ok (s, own, hs)"
  shows "counted_ok (fst (tagged_allocate s cid), insert (next_block s) own, hs)"
proof -
  have "tags s (next_block s) = None"
    using counted_okD(2) [OF ok, of "next_block s"] by (cases "tags s (next_block s)") auto
  with counted_okD(1) [OF ok this] ok show ?thesis
    unfolding tagged_allocate_def fst_conv
    by (intro counted_ok_upd [OF ok]) (auto simp: count_word_def counted_ok_def)
qed

lemma handles_of_perm: "handles_of (xs @ h # ys) i = handles_of (h # xs @ ys) i"
  by simp

lemma counted_ok_perm: "counted_ok (s, own, h # xs @ ys) \<longleftrightarrow> counted_ok (s, own, xs @ h # ys)"
  by (auto simp: counted_ok_def)

lemma counted_step_ok:
  assumes "counted_step st st'" "counted_ok st"
  shows "counted_ok st'"
  using assms
proof (cases rule: counted_step.cases)
  case (allocate s cid s' i own hs)
  then show ?thesis using tagged_allocate_ok [of s own hs cid] assms(2) by (auto simp: tagged_allocate_def)
next
  case (create i own s s' h hs)
  then show ?thesis using create_counted_ref_ok [of s own hs i] assms(2) by auto
next
  case (copy h hs s s' h' own)
  then show ?thesis using counted_copy_ok [of s own hs h] assms(2) by auto
next
  case (clear hs xs h ys s s' h' own)
  then show ?thesis using counted_clear_ok [of s own xs h ys] assms(2) by auto
next
  case (assign hs xs h ys other s s' h' own)
  then obtain s1 where s1: "counted_clear s h = Some (s1, None)" "counted_ok (s1, own, xs @ ys)"
    using counted_clear_ok [of s own xs h ys] assms(2) by auto
  have "length (xs @ ys) < 2 ^ 61" using assms(2) assign by (simp add: counted_ok_def)
  with counted_copy_ok [OF s1(2) assign(4)] s1 assign show ?thesis
    by (auto simp: counted_assign_def counted_ok_perm)
next
  case (deallocate i own s s' hs)
  then show ?thesis using tagged_deallocate_ok [of s own hs i] assms(2) by auto
qed

lemma counted_reachable_ok: "counted_reachable st \<Longrightarrow> counted_ok st"
proof (induction rule: counted_reachable.induct)
  case start
  then show ?case by (simp add: counted_ok_def)
next
  case (step st st')
  then show ?case using counted_step_ok by blast
qed

lemma counted_check_ok:
  assumes "counted_ok (s, own, hs)" "Some i \<in> set hs"
  shows "\<exists>t. tags s i = Some t \<and> counted_check s (Some i) cid = Some (i \<in> own \<and> tag_id t = cid)"
proof -
  obtain t where t: "tags s i = Some t" using counted_okD(3) [OF assms] by blast
  then show ?thesis
    using counted_okD(2) [OF assms(1) t] count_word_tests(2)
    by (auto simp: counted_check_def tag_at_def)
qed

text \<open>A run in which a container with id 7 makes one node and hands out a reference to it.\<close>

definition demo_store :: tag_store where
  "demo_store = \<lparr>tags = [0 \<mapsto> \<lparr>tag_id = 7, tag_word = COUNTER_MODE + 1\<rparr>], next_block = 1, lrefs = Map.empty\<rparr>"

lemma demo_reachable: "counted_reachable (demo_store, {0}, [Some 0])"
proof -
  let ?s = "\<lparr>tags = [0 \<mapsto> \<lparr>tag_id = 7, tag_word = COUNTER_MODE\<rparr>], next_block = 1, lrefs = Map.empty\<rparr>"
  have "counted_step (\<lparr>tags = Map.empty, next_block = 0, lrefs = Map.empty\<rparr>, {}, []) (?s, {0}, [])"
    using counted_step.allocate [of _ 7 ?s 0 "{}" "[]"] by (simp add: tagged_allocate_def)
  moreover have "counted_step (?s, {0}, []) (demo_store, {0}, [Some 0])"
    by (rule counted_step.create)
      (auto simp: create_counted_ref_def counted_clear_def tag_at_def set_word_def demo_store_def intro!: bit_mode_and)
  ultimately show ?thesis
    using counted_reachable.step [OF counted_reachable.step [OF counted_reachable.start]] by blast
qed

text \<open>C10: a reference never dangles: in every reachable state the header of each
  block that a \<open>counted_ref\<close> points to exists, and \<open>check\<close> answers whether the
  container still holds the block and has the id asked for.\<close>

theorem counted_ref_check_sound:
  assumes "counted_reachable (s, own, hs)" "Some i \<in> set hs"
  shows "\<exists>t. tags s i = Some t \<and> counted_check s (Some i) cid = Some (i \<in> own \<and> tag_id t = cid)"
  using counted_check_ok [OF counted_reachable_ok [OF assms(1)] assms(2)] .

theorem counted_ref_check_sound_witness:
  "counted_check demo_store (Some 0) 7 = Some True"
  using counted_ref_check_sound [OF demo_reachable, of 0 7] by (simp add: demo_store_def)

text \<open>C11: nothing leaks and nothing is freed early: a block exists exactly as long
  as the container holds it or some \<open>counted_ref\<close> points to it.\<close>

theorem counted_no_leak:
  assumes "counted_reachable (s, own, hs)"
  shows "tags s i \<noteq> None \<longleftrightarrow> i \<in> own \<or> Some i \<in> set hs"
proof -
  have ok: "counted_ok (s, own, hs)" using assms by (rule counted_reachable_ok)
  show ?thesis
    using counted_okD(1,2) [OF ok, of i] handles_of_pos [of hs i] by (cases "tags s i") auto
qed

theorem counted_no_leak_witness:
  "tags demo_store 0 \<noteq> None \<longleftrightarrow> 0 \<in> {0 :: nat} \<or> Some 0 \<in> set [Some (0 :: nat)]"
  using counted_no_leak [OF demo_reachable, of 0] .

text \<open>In a reachable state, four operations do not fault: clearing a live handle; copying one, and
  taking a new one to a block that its container holds, while the count is below its limit; and
  deallocating such a block.  Dereferencing is not among them: it terminates when the block has been released.\<close>

lemma counted_progress:
  assumes "counted_reachable (s, own, hs)"
  shows "(h \<in> set hs \<longrightarrow> counted_clear s h \<noteq> None) \<and>
    (h \<in> set hs \<and> length hs < 2 ^ 61 \<longrightarrow> counted_copy s h \<noteq> None) \<and>
    (i \<in> own \<longrightarrow> tagged_deallocate s (Some i) \<noteq> None) \<and>
    (i \<in> own \<and> length hs < 2 ^ 61 \<longrightarrow> create_counted_ref s (Some i) None \<noteq> None)"
proof -
  have ok: "counted_ok (s, own, hs)" using assms by (rule counted_reachable_ok)
  have "counted_clear s h \<noteq> None" if "h \<in> set hs"
    using split_list [OF that] counted_clear_ok [of s own _ h] ok by force
  moreover have "h \<in> set hs \<and> length hs < 2 ^ 61 \<longrightarrow> counted_copy s h \<noteq> None"
    using counted_copy_ok [OF ok, of h] by auto
  moreover have "i \<in> own \<longrightarrow> tagged_deallocate s (Some i) \<noteq> None"
    using tagged_deallocate_ok [OF ok, of i] by auto
  moreover have "i \<in> own \<and> length hs < 2 ^ 61 \<longrightarrow> create_counted_ref s (Some i) None \<noteq> None"
    using create_counted_ref_ok [OF ok, of i] by auto
  ultimately show ?thesis by blast
qed

lemma counted_progress_witness:
  "counted_clear demo_store (Some 0) \<noteq> None \<and> tagged_deallocate demo_store (Some 0) \<noteq> None"
  using counted_progress [OF demo_reachable, of "Some 0" 0] by simp

end
