(* ===== verification/NodeStore.thy ===== *)
theory NodeStore
  imports TaggedPtr
begin

text \<open>
  What the containers of mini_libcxx share: their nodes live on a heap, one node per
  tagged allocation, and are reached through \<open>tagged_ptr\<close>s; a container hands out
  \<open>counted_ref\<close> handles to its nodes and checks them when they come back.
\<close>

section \<open>Heaps of nodes\<close>

type_synonym 'n heap = "nat \<Rightarrow> 'n option"

definition node_at :: "'n heap \<Rightarrow> ptr \<Rightarrow> 'n option" where
  "node_at h p = do { i \<leftarrow> p; h i }"

definition update_node :: "'n heap \<Rightarrow> ptr \<Rightarrow> ('n \<Rightarrow> 'n) \<Rightarrow> 'n heap option" where
  "update_node h p f = do { i \<leftarrow> p; n \<leftarrow> h i; Some (h(i \<mapsto> f n)) }"

definition live :: "'n heap \<Rightarrow> nat \<Rightarrow> bool" where
  "live h i \<longleftrightarrow> h i \<noteq> None"

lemma live_upd [simp]: "live (h(i \<mapsto> n)) j \<longleftrightarrow> j = i \<or> live h j"
  by (simp add: live_def)

lemma node_at_dom: "live h i \<Longrightarrow> node_at h (Some i) = Some (the (h i))"
  by (auto simp: node_at_def live_def)

lemma update_node_dom: "live h i \<Longrightarrow> update_node h (Some i) f = Some (h(i \<mapsto> f (the (h i))))"
  by (auto simp: update_node_def live_def)

section \<open>Stores\<close>

record 'n node_store =
  tagged :: tag_store
  nodes :: "'n heap"

definition empty_store :: "'n node_store" where
  "empty_store = \<lparr>tagged = \<lparr>tags = Map.empty, next_block = 0, lrefs = Map.empty\<rparr>, nodes = Map.empty\<rparr>"

text \<open>\<open>tagged_ptr::allocate\<close> followed by the construction of the node.\<close>

definition new_node :: "'n node_store \<Rightarrow> u64 \<Rightarrow> 'n \<Rightarrow> 'n node_store \<times> nat" where
  "new_node s cid n =
     (let (ts, p) = tagged_allocate (tagged s) cid; i = the p in
      (\<lparr>tagged = ts, nodes = (nodes s)(i \<mapsto> n)\<rparr>, i))"

text \<open>The destruction of the node followed by \<open>tagged_ptr::deallocate\<close>.\<close>

definition drop_node :: "'n node_store \<Rightarrow> ptr \<Rightarrow> 'n node_store option" where
  "drop_node s p = do {
     i \<leftarrow> p;
     n \<leftarrow> node_at (nodes s) p;
     ts \<leftarrow> tagged_deallocate (tagged s) p;
     Some \<lparr>tagged = ts, nodes = (nodes s)(i := None)\<rparr> }"

text \<open>A fresh handle to a node, \<open>handle_type h; p.create_counted_ref (h);\<close>\<close>

definition with_handle :: "'n node_store \<Rightarrow> nat \<Rightarrow> ('n node_store \<times> ptr) option" where
  "with_handle s i = do {
     (ts, h) \<leftarrow> create_counted_ref (tagged s) (Some i) None;
     Some (s\<lparr>tagged := ts\<rparr>, h) }"

definition handle_or_null :: "'n node_store \<Rightarrow> ptr \<Rightarrow> ('n node_store \<times> ptr) option" where
  "handle_or_null s p = (case p of None \<Rightarrow> Some (s, None) | Some i \<Rightarrow> with_handle s i)"

section \<open>Well-formed stores\<close>

text \<open>\<open>own\<close> gives for each node the id of the container that holds it, over all
  containers that share the store; \<open>hs\<close> are the handles alive.\<close>

definition store_ok :: "'n node_store \<Rightarrow> (nat \<Rightarrow> u64 option) \<Rightarrow> ptr list \<Rightarrow> bool" where
  "store_ok s own hs \<longleftrightarrow> counted_ok (tagged s, dom own, hs) \<and> (\<forall>i. live (nodes s) i \<longleftrightarrow> own i \<noteq> None) \<and>
     (\<forall>i cid. own i = Some cid \<longrightarrow> map_option tag_id (tags (tagged s) i) = Some cid)"

lemma store_okD:
  assumes "store_ok s own hs"
  shows "counted_ok (tagged s, dom own, hs)" "live (nodes s) i \<longleftrightarrow> own i \<noteq> None"
    "own i = Some cid \<Longrightarrow> map_option tag_id (tags (tagged s) i) = Some cid"
  using assms by (auto simp: store_ok_def)

lemma store_ok_empty: "store_ok empty_store Map.empty []"
  by (simp add: store_ok_def empty_store_def counted_ok_def live_def)

text \<open>Only the set of live nodes matters, not what they hold.\<close>

lemma store_ok_nodes:
  assumes "store_ok s own hs" "\<And>i. live h i \<longleftrightarrow> live (nodes s) i"
  shows "store_ok (s\<lparr>nodes := h\<rparr>) own hs"
  using assms by (simp add: store_ok_def)

lemma check_in_store:
  assumes "store_ok s own hs" "own x = Some cid"
  shows "counted_check (tagged s) (Some x) cid = Some True"
proof -
  note ok = store_okD(1) [OF assms(1)]
  have "map_option tag_id (tags (tagged s) x) = Some cid" using assms by (auto simp: store_ok_def)
  then obtain tg where tg: "tags (tagged s) x = Some tg" "tag_id tg = cid" by auto
  then show ?thesis
    using counted_okD(2) [OF ok tg(1)] assms(2) count_word_tests(2) by (auto simp: counted_check_def tag_at_def)
qed

lemma counted_check_owned:
  assumes ok: "store_ok s own hs"
  shows "counted_check (tagged s) (Some i) cid = Some True \<longleftrightarrow> own i = Some cid"
proof
  assume "own i = Some cid"
  then show "counted_check (tagged s) (Some i) cid = Some True" using check_in_store [OF ok] by blast
next
  assume c: "counted_check (tagged s) (Some i) cid = Some True"
  then obtain t where t: "tags (tagged s) i = Some t" by (auto simp: counted_check_def tag_at_def elim!: bind_SomeE)
  then have "tag_word t AND TOMBSTONE = 0" "tag_id t = cid" using c by (auto simp: counted_check_def tag_at_def split: if_splits)
  moreover from this(1) have "i \<in> dom own"
    using counted_okD(2) [OF store_okD(1) [OF ok] t] count_word_tests(2) by metis
  ultimately show "own i = Some cid" using store_okD(3) [OF ok, of i] t by (cases "own i") auto
qed

lemma new_node_ok:
  assumes ok: "store_ok s own hs" and n: "new_node s cid n = (s', y)"
  shows "store_ok s' (own(y \<mapsto> cid)) hs" "own y = None" "nodes s y = None" "nodes s' = (nodes s)(y \<mapsto> n)"
proof -
  have y: "y = next_block (tagged s)" using n by (auto simp: new_node_def tagged_allocate_def Let_def)
  note c = store_okD(1) [OF ok]
  have "tags (tagged s) y = None"
    using counted_okD(2) [OF c, of y] y by (cases "tags (tagged s) y") auto
  then show new: "own y = None" using counted_okD(1) [OF c, of y] by (auto simp: dom_def)
  then show "nodes s y = None" using store_okD(2) [OF ok, of y] by (simp add: live_def)
  show eq: "nodes s' = (nodes s)(y \<mapsto> n)" using n by (auto simp: new_node_def tagged_allocate_def Let_def)
  have "counted_ok (tagged s', dom (own(y \<mapsto> cid)), hs)"
    using tagged_allocate_ok [OF c, of cid] n by (auto simp: new_node_def tagged_allocate_def Let_def)
  moreover have "map_option tag_id (tags (tagged s') i) = Some k" if "(own(y \<mapsto> cid)) i = Some k" for i k
    using that n store_okD(3) [OF ok] by (auto simp: new_node_def tagged_allocate_def Let_def split: if_splits)
  ultimately show "store_ok s' (own(y \<mapsto> cid)) hs"
    using store_okD(2) [OF ok] by (auto simp: store_ok_def eq)
qed

lemma with_handle_store:
  assumes ok: "store_ok s own hs" and i: "own i \<noteq> None" and len: "length hs < 2 ^ 61"
  shows "\<exists>s'. with_handle s i = Some (s', Some i) \<and> store_ok s' own (Some i # hs) \<and> nodes s' = nodes s"
proof -
  have "i \<in> dom own" using i by auto
  from create_counted_ref_ok [OF store_okD(1) [OF ok] this len] obtain ts where
    ts: "create_counted_ref (tagged s) (Some i) None = Some (ts, Some i)" "counted_ok (ts, dom own, Some i # hs)" by blast
  have "map_option tag_id (tags ts j) = map_option tag_id (tags (tagged s) j)" for j
    using ts(1) by (auto simp: create_counted_ref_def counted_clear_def tag_at_def set_word_def elim!: bind_SomeE split: if_splits)
  then have "store_ok (s\<lparr>tagged := ts\<rparr>) own (Some i # hs)"
    using ok ts(2) by (simp add: store_ok_def)
  then show ?thesis using ts(1) by (simp add: with_handle_def)
qed

lemma handle_or_null_store:
  assumes "store_ok s own hs" "\<And>i. p = Some i \<Longrightarrow> own i \<noteq> None" "length hs < 2 ^ 61"
  shows "\<exists>s'. handle_or_null s p = Some (s', p) \<and> store_ok s' own (p # hs) \<and> nodes s' = nodes s"
proof (cases p)
  case None
  then show ?thesis using assms(1,3) by (auto simp: handle_or_null_def store_ok_def counted_ok_def)
next
  case (Some i)
  then show ?thesis using with_handle_store [OF assms(1) assms(2) assms(3), of i] by (auto simp: handle_or_null_def)
qed

text \<open>A handle dropped again.\<close>

definition drop_handle :: "'n node_store \<Rightarrow> ptr \<Rightarrow> 'n node_store option" where
  "drop_handle s h = do { (ts, _) \<leftarrow> counted_clear (tagged s) h; Some (s\<lparr>tagged := ts\<rparr>) }"

lemma counted_clear_ids:
  assumes ok: "counted_ok (s, own, xs @ h # ys)" and j: "j \<in> own" and c: "counted_clear s h = Some (s', h')"
  shows "map_option tag_id (tags s' j) = map_option tag_id (tags s j)"
proof (cases "h = Some j")
  case True
  have "Some j \<in> set (xs @ h # ys)" using True by simp
  with counted_okD(3) [OF ok] obtain t where t: "tags s j = Some t" by auto
  note D = counted_okD(2) [OF ok t]
  have n: "handles_of (xs @ h # ys) j = Suc (handles_of (xs @ ys) j)" using True by simp
  then have "tag_word t - 1 = count_word True (handles_of (xs @ ys) j)" "handles_of (xs @ ys) j < 2 ^ 62"
    using D j count_word_steps(2) [of "Suc (handles_of (xs @ ys) j)"] by auto
  then have "tag_word t - 1 \<noteq> TOMBSTONE OR COUNTER_MODE" using count_word_eqs(2) by metis
  then show ?thesis using c t True by (auto simp: counted_clear_def tag_at_def set_word_def Let_def)
next
  case False
  then show ?thesis using c
    by (auto simp: counted_clear_def tag_at_def set_word_def free_block_def Let_def elim!: bind_SomeE split: if_splits)
qed

lemma drop_handle_ok:
  assumes ok: "store_ok s own (xs @ h # ys)"
  shows "\<exists>s'. drop_handle s h = Some s' \<and> store_ok s' own (xs @ ys) \<and> nodes s' = nodes s"
proof -
  note c = store_okD(1) [OF ok]
  obtain ts where ts: "counted_clear (tagged s) h = Some (ts, None)" "counted_ok (ts, dom own, xs @ ys)"
    using counted_clear_ok [OF c] by blast
  have "map_option tag_id (tags ts j) = Some cid" if "own j = Some cid" for j cid
    using store_okD(3) [OF ok that] counted_clear_ids [OF c _ ts(1), of j] that by (simp add: domIff)
  then have "store_ok (s\<lparr>tagged := ts\<rparr>) own (xs @ ys)" using ok ts(2) by (simp add: store_ok_def)
  then show ?thesis using ts(1) by (simp add: drop_handle_def)
qed

lemma tagged_deallocate_ids:
  assumes ok: "counted_ok (s, own, hs)" and i: "i \<in> own" "j \<noteq> i" and s': "tagged_deallocate s (Some i) = Some s'"
  shows "map_option tag_id (tags s' j) = map_option tag_id (tags s j)"
  using s' i counted_okD(4) [OF ok i(1)] counted_okD(2) [OF ok, of i] count_word_tests(1)
  by (auto simp: tagged_deallocate_def tag_at_def set_word_def free_block_def elim!: bind_SomeE split: if_splits)

lemma drop_node_ok:
  assumes ok: "store_ok s own hs" and i: "own i \<noteq> None"
  shows "\<exists>s'. drop_node s (Some i) = Some s' \<and> store_ok s' (own(i := None)) hs \<and> nodes s' = (nodes s)(i := None)"
proof -
  note c = store_okD(1) [OF ok]
  have i': "i \<in> dom own" using i by auto
  obtain ts where ts: "tagged_deallocate (tagged s) (Some i) = Some ts" "counted_ok (ts, dom own - {i}, hs)"
    using tagged_deallocate_ok [OF c i'] by blast
  have "map_option tag_id (tags ts j) = Some cid" if "(own(i := None)) j = Some cid" for j cid
    using that store_okD(3) [OF ok, of j cid] tagged_deallocate_ids [OF c i' _ ts(1), of j] by (auto split: if_splits)
  then have "store_ok \<lparr>tagged = ts, nodes = (nodes s)(i := None)\<rparr> (own(i := None)) hs"
    using ts(2) store_okD(2) [OF ok] by (auto simp: store_ok_def live_def)
  then show ?thesis using ts(1) store_okD(2) [OF ok, of i] i by (simp add: drop_node_def node_at_dom)
qed

end
