(* ===== verification/Dll.thy ===== *)
theory Dll
  imports NodeStore
begin

text \<open>
  Doubly linked chains of nodes, as \<open>list.hpp\<close> and \<open>hive.hpp\<close> keep them.  The links
  are given as two functions, so that one chain can be read off several kinds of
  nodes and a node can be on several chains.
\<close>

definition first :: "nat list \<Rightarrow> ptr \<Rightarrow> ptr" where
  "first xs q = (case xs of [] \<Rightarrow> q | x # _ \<Rightarrow> Some x)"

definition final :: "ptr \<Rightarrow> nat list \<Rightarrow> ptr" where
  "final p xs = (if xs = [] then p else Some (last xs))"

lemma first_simps [simp]: "first [] q = q" "first (x # xs) q = Some x" "first (xs @ ys) q = first xs (first ys q)"
  by (cases xs; simp add: first_def)+

lemma final_simps [simp]: "final p [] = p" "final p (x # xs) = final (Some x) xs" "final p (xs @ ys) = final (final p xs) ys"
  by (auto simp: final_def)

lemma first_None_iff [simp]: "first xs None = None \<longleftrightarrow> xs = []"
  by (cases xs) auto

lemma final_None_iff [simp]: "final None xs = None \<longleftrightarrow> xs = []"
  by (auto simp: final_def)

lemma first_in: "first xs q = Some i \<Longrightarrow> i \<in> set xs \<or> q = Some i"
  by (cases xs) auto

lemma final_in: "final p xs = Some i \<Longrightarrow> i \<in> set xs \<or> p = Some i"
  by (auto simp: final_def split: if_splits)

text \<open>\<open>seg prv nxt p xs q\<close>: the nodes \<open>xs\<close> are chained in this order, with \<open>p\<close> before the
  first and \<open>q\<close> after the last.\<close>

fun seg :: "(nat \<Rightarrow> ptr) \<Rightarrow> (nat \<Rightarrow> ptr) \<Rightarrow> ptr \<Rightarrow> nat list \<Rightarrow> ptr \<Rightarrow> bool" where
  "seg prv nxt p [] q \<longleftrightarrow> True"
| "seg prv nxt p (x # xs) q \<longleftrightarrow> prv x = p \<and> nxt x = first xs q \<and> seg prv nxt (Some x) xs q"

abbreviation chain :: "(nat \<Rightarrow> ptr) \<Rightarrow> (nat \<Rightarrow> ptr) \<Rightarrow> nat list \<Rightarrow> bool" where
  "chain prv nxt xs \<equiv> seg prv nxt None xs None"

lemma seg_append [simp]:
  "seg prv nxt p (xs @ ys) q \<longleftrightarrow> seg prv nxt p xs (first ys q) \<and> seg prv nxt (final p xs) ys q"
  by (induction xs arbitrary: p) auto

lemma seg_cong:
  assumes "\<And>x. x \<in> set xs \<Longrightarrow> prv' x = prv x \<and> nxt' x = nxt x"
  shows "seg prv' nxt' p xs q = seg prv nxt p xs q"
  using assms by (induction xs arbitrary: p) auto

lemma seg_upd_other [simp]:
  "x \<notin> set xs \<Longrightarrow> seg (prv(x := a)) nxt p xs q = seg prv nxt p xs q"
  "x \<notin> set xs \<Longrightarrow> seg prv (nxt(x := a)) p xs q = seg prv nxt p xs q"
  by (rule seg_cong; auto)+

text \<open>A node put between two parts of a chain, and taken out again.\<close>

definition link_prev :: "ptr \<Rightarrow> ptr \<Rightarrow> (nat \<Rightarrow> ptr) \<Rightarrow> nat \<Rightarrow> ptr" where
  "link_prev at p prv = (\<lambda>j. if at = Some j then p else prv j)"

definition link_next :: "ptr \<Rightarrow> ptr \<Rightarrow> (nat \<Rightarrow> ptr) \<Rightarrow> nat \<Rightarrow> ptr" where
  "link_next at q nxt = (\<lambda>j. if at = Some j then q else nxt j)"

lemma link_simps [simp]:
  "link_prev at p prv j = (if at = Some j then p else prv j)" "link_next at q nxt j = (if at = Some j then q else nxt j)"
  by (simp_all add: link_prev_def link_next_def)

lemma first_notin [simp]: "j \<notin> set xs \<Longrightarrow> first xs None \<noteq> Some j"
  by (cases xs) auto

lemma final_notin [simp]: "j \<notin> set xs \<Longrightarrow> final None xs \<noteq> Some j"
  by (auto simp: final_def)

lemma chain_insert:
  assumes c: "chain prv nxt (xs @ ys)" and d: "distinct (xs @ y # ys)"
    and y: "prv' y = final None xs" "nxt' y = first ys None"
    and o: "\<And>j. j \<in> set (xs @ ys) \<Longrightarrow> prv' j = link_prev (first ys None) (Some y) prv j \<and>
      nxt' j = link_next (final None xs) (Some y) nxt j"
  shows "chain prv' nxt' (xs @ y # ys)"
proof -
  have "seg prv' nxt' None xs (Some y)"
  proof (cases xs rule: rev_cases)
    case (snoc zs z)
    have "prv' j = prv j" if "j \<in> set xs" for j
      using o [of j] that d by (auto dest!: first_in final_in)
    moreover have "nxt' j = (if j = z then Some y else nxt j)" if "j \<in> set xs" for j
      using o [of j] that snoc by (auto simp: final_def)
    ultimately have "seg prv' nxt' None zs (Some z) = seg prv nxt None zs (Some z)" "prv' z = prv z" "nxt' z = Some y"
      using d snoc by (auto intro!: seg_cong)
    then show ?thesis using c snoc by auto
  qed simp
  moreover have "seg prv' nxt' (Some y) ys None"
  proof (cases ys)
    case (Cons z zs)
    have "nxt' j = nxt j" if "j \<in> set ys" for j
      using o [of j] that d by (auto dest!: first_in final_in)
    moreover have "prv' j = (if j = z then Some y else prv j)" if "j \<in> set ys" for j
      using o [of j] that Cons by auto
    ultimately have "seg prv' nxt' (Some z) zs None = seg prv nxt (Some z) zs None" "nxt' z = nxt z" "prv' z = Some y"
      using d Cons by (auto intro!: seg_cong)
    then show ?thesis using c Cons by auto
  qed simp
  ultimately show ?thesis using y by simp
qed

lemma chain_remove:
  assumes c: "chain prv nxt (xs @ y # ys)" and d: "distinct (xs @ y # ys)"
    and o: "\<And>j. j \<in> set (xs @ ys) \<Longrightarrow> prv' j = link_prev (first ys None) (final None xs) prv j \<and>
      nxt' j = link_next (final None xs) (first ys None) nxt j"
  shows "chain prv' nxt' (xs @ ys)"
proof -
  have "seg prv' nxt' None xs (first ys None)"
  proof (cases xs rule: rev_cases)
    case (snoc zs z)
    have "prv' j = prv j" if "j \<in> set xs" for j
      using o [of j] that d by (auto dest!: first_in final_in)
    moreover have "nxt' j = (if j = z then first ys None else nxt j)" if "j \<in> set xs" for j
      using o [of j] that snoc by (auto simp: final_def)
    ultimately have "seg prv' nxt' None zs (Some z) = seg prv nxt None zs (Some z)" "prv' z = prv z" "nxt' z = first ys None"
      using d snoc by (auto intro!: seg_cong)
    then show ?thesis using c snoc by auto
  qed simp
  moreover have "seg prv' nxt' (final None xs) ys None"
  proof (cases ys)
    case (Cons z zs)
    have "nxt' j = nxt j" if "j \<in> set ys" for j
      using o [of j] that d by (auto dest!: first_in final_in)
    moreover have "prv' j = (if j = z then final None xs else prv j)" if "j \<in> set ys" for j
      using o [of j] that Cons by auto
    ultimately have "seg prv' nxt' (Some z) zs None = seg prv nxt (Some z) zs None" "nxt' z = nxt z" "prv' z = final None xs"
      using d Cons by (auto intro!: seg_cong)
    then show ?thesis using c Cons by auto
  qed simp
  ultimately show ?thesis by simp
qed

lemma chain_prev: "chain prv nxt (xs @ y # ys) \<Longrightarrow> prv y = final None xs"
  by simp

lemma chain_next: "chain prv nxt (xs @ y # ys) \<Longrightarrow> nxt y = first ys None"
  by simp

end
