(* ===== verification/Hive.thy ===== *)
theory Hive
  imports Dll
begin

text \<open>
  \<open>mini_libcxx/include/hive.hpp\<close>: a container whose values never move.  Values live in
  chunks of \<open>2 ^ log2_len\<close> slots with a bitmap of the slots in use; the chunks with a free
  slot form one chain, the chunks with a value another.  A handle is a reference to the
  chunk and a slot number.  Dereferencing null, reading past the bitmap, a shift by the
  width of the type or more, destroying a value that does not exist and \<open>std::terminate\<close>
  are \<^term>\<open>None\<close>.
\<close>

section \<open>State\<close>

record 'a hive_chunk =
  prev_empty :: ptr
  next_empty :: ptr
  prev_filled :: ptr
  next_filled :: ptr
  log2_len :: u32
  filled_count :: u32
  bitmap :: "u64 list"
  slots :: "nat \<Rightarrow> 'a option"

type_synonym 'a hive_store = "'a hive_chunk node_store"

record hive =
  hlen :: u64
  hive_id :: u64
  empty_head :: ptr
  filled_head :: ptr
  filled_tail :: ptr
  next_log2_len :: u32

definition hive_new :: "u64 \<Rightarrow> hive" where
  "hive_new i = \<lparr>hlen = 0, hive_id = i, empty_head = None, filled_head = None, filled_tail = None, next_log2_len = 3\<rparr>"

text \<open>\<open>hive_handle\<close>: the reference to the chunk and the slot.\<close>

type_synonym hive_handle = "ptr \<times> u32"

definition null_handle :: hive_handle where
  "null_handle = (None, 0)"

definition hive_handle_eq :: "tag_store \<Rightarrow> hive_handle \<Rightarrow> hive_handle \<Rightarrow> bool option" where
  "hive_handle_eq s h h' = do {
     a \<leftarrow> counted_bool s (fst h);
     b \<leftarrow> (if a then Some True else counted_bool s (fst h'));
     Some (if \<not> a \<and> \<not> b then True else fst h = fst h' \<and> snd h = snd h') }"

section \<open>Bits\<close>

definition count_trailing_zeros_u64 :: "u64 \<Rightarrow> u32" where
  "count_trailing_zeros_u64 val = of_nat (length (takeWhile (\<lambda>i. \<not> bit val i) [0..<64]))"

definition count_leading_zeros_u64 :: "u64 \<Rightarrow> u32" where
  "count_leading_zeros_u64 val = of_nat (length (takeWhile (\<lambda>i. \<not> bit val (63 - i)) [0..<64]))"

definition get_capacity :: "'a hive_chunk \<Rightarrow> u32 option" where
  "get_capacity c = (if log2_len c < 32 then Some (push_bit (unat (log2_len c)) 1) else None)"

definition get_bitmap_word :: "'a hive_chunk \<Rightarrow> u32 \<Rightarrow> u64 option" where
  "get_bitmap_word c w = (if unat w < length (bitmap c) then Some (bitmap c ! unat w) else None)"

definition set_bitmap_word :: "'a hive_chunk \<Rightarrow> u32 \<Rightarrow> u64 \<Rightarrow> 'a hive_chunk option" where
  "set_bitmap_word c w val =
     (if unat w < length (bitmap c) then Some (c\<lparr>bitmap := (bitmap c)[unat w := val]\<rparr>) else None)"

definition is_slot_filled :: "'a hive_chunk \<Rightarrow> u32 \<Rightarrow> bool option" where
  "is_slot_filled c slot = do {
     let w = drop_bit 6 slot;
     let b = slot AND 63;
     val \<leftarrow> get_bitmap_word c w;
     Some (val AND push_bit (unat b) 1 \<noteq> 0) }"

definition set_slot_filled :: "'a hive_chunk \<Rightarrow> u32 \<Rightarrow> bool \<Rightarrow> 'a hive_chunk option" where
  "set_slot_filled c slot filled = do {
     let w = drop_bit 6 slot;
     let b = slot AND 63;
     val \<leftarrow> get_bitmap_word c w;
     set_bitmap_word c w (if filled then val OR push_bit (unat b) 1 else val AND NOT (push_bit (unat b) 1)) }"

text \<open>The five searches through the bitmap.\<close>

partial_function (option) first_empty_loop :: "'a hive_chunk \<Rightarrow> u32 \<Rightarrow> u32 \<Rightarrow> u32 \<Rightarrow> u32 option" where
  "first_empty_loop c cap num_words w =
     (if w < num_words then do {
        val \<leftarrow> get_bitmap_word c w;
        let val = (if w = num_words - 1 \<and> cap AND 63 \<noteq> 0 then val OR push_bit (unat (cap AND 63)) (NOT 0) else val);
        let slot = push_bit 6 w OR count_trailing_zeros_u64 (NOT val);
        if NOT val \<noteq> 0 \<and> slot < cap then Some slot
        else first_empty_loop c cap num_words (w + 1) }
      else Some cap)"

definition find_first_empty_slot :: "'a hive_chunk \<Rightarrow> u32 option" where
  "find_first_empty_slot c = do {
     cap \<leftarrow> get_capacity c;
     let num_words = drop_bit 6 (cap + 63);
     first_empty_loop c cap num_words 0 }"

partial_function (option) first_filled_loop :: "'a hive_chunk \<Rightarrow> u32 \<Rightarrow> u32 \<Rightarrow> u32 \<Rightarrow> u32 option" where
  "first_filled_loop c cap num_words w =
     (if w < num_words then do {
        val \<leftarrow> get_bitmap_word c w;
        let val = (if w = num_words - 1 \<and> cap AND 63 \<noteq> 0 then val AND (push_bit (unat (cap AND 63)) 1 - 1) else val);
        let slot = push_bit 6 w OR count_trailing_zeros_u64 val;
        if val \<noteq> 0 \<and> slot < cap then Some slot
        else first_filled_loop c cap num_words (w + 1) }
      else Some cap)"

definition find_first_filled_slot :: "'a hive_chunk \<Rightarrow> u32 option" where
  "find_first_filled_slot c = do {
     cap \<leftarrow> get_capacity c;
     let num_words = drop_bit 6 (cap + 63);
     first_filled_loop c cap num_words 0 }"

text \<open>The loop counter of the downward searches is an \<open>int32_t\<close> that ends at \<open>-1\<close>; here it
  is one more, so that it ends at \<open>0\<close>.\<close>

partial_function (option) last_filled_loop :: "'a hive_chunk \<Rightarrow> u32 \<Rightarrow> u32 \<Rightarrow> u32 \<Rightarrow> u32 option" where
  "last_filled_loop c cap num_words w1 =
     (if w1 \<noteq> 0 then do {
        let w = w1 - 1;
        val \<leftarrow> get_bitmap_word c w;
        let val = (if w = num_words - 1 \<and> cap AND 63 \<noteq> 0 then val AND (push_bit (unat (cap AND 63)) 1 - 1) else val);
        if val \<noteq> 0 then Some (push_bit 6 w OR (63 - count_leading_zeros_u64 val))
        else last_filled_loop c cap num_words w }
      else Some cap)"

definition find_last_filled_slot :: "'a hive_chunk \<Rightarrow> u32 option" where
  "find_last_filled_slot c = do {
     cap \<leftarrow> get_capacity c;
     let num_words = drop_bit 6 (cap + 63);
     last_filled_loop c cap num_words num_words }"

partial_function (option) next_filled_loop ::
  "'a hive_chunk \<Rightarrow> u32 \<Rightarrow> u32 \<Rightarrow> u32 \<Rightarrow> u32 \<Rightarrow> u32 \<Rightarrow> u32 option" where
  "next_filled_loop c cap num_words start_word start_bit w =
     (if w < num_words then do {
        val \<leftarrow> get_bitmap_word c w;
        let val = (if w = start_word \<and> start_bit > 0 then val AND push_bit (unat start_bit) (NOT 0) else val);
        let val = (if w = num_words - 1 \<and> cap AND 63 \<noteq> 0 then val AND (push_bit (unat (cap AND 63)) 1 - 1) else val);
        let found = push_bit 6 w OR count_trailing_zeros_u64 val;
        if val \<noteq> 0 \<and> found < cap then Some found
        else next_filled_loop c cap num_words start_word start_bit (w + 1) }
      else Some cap)"

definition find_next_filled_slot :: "'a hive_chunk \<Rightarrow> u32 \<Rightarrow> u32 option" where
  "find_next_filled_slot c cur_slot = do {
     cap \<leftarrow> get_capacity c;
     if cur_slot + 1 \<ge> cap then Some cap
     else do {
       let next_slot = cur_slot + 1;
       let start_word = drop_bit 6 next_slot;
       let start_bit = next_slot AND 63;
       let num_words = drop_bit 6 (cap + 63);
       next_filled_loop c cap num_words start_word start_bit start_word } }"

partial_function (option) prev_filled_loop ::
  "'a hive_chunk \<Rightarrow> u32 \<Rightarrow> u32 \<Rightarrow> u32 \<Rightarrow> u32 \<Rightarrow> u32 \<Rightarrow> u32 option" where
  "prev_filled_loop c cap num_words start_word start_bit w1 =
     (if w1 \<noteq> 0 then do {
        let w = w1 - 1;
        val \<leftarrow> get_bitmap_word c w;
        let val = (if w = start_word \<and> start_bit < 63 then val AND (push_bit (unat (start_bit + 1)) 1 - 1) else val);
        let val = (if w = num_words - 1 \<and> cap AND 63 \<noteq> 0 then val AND (push_bit (unat (cap AND 63)) 1 - 1) else val);
        if val \<noteq> 0 then Some (push_bit 6 w OR (63 - count_leading_zeros_u64 val))
        else prev_filled_loop c cap num_words start_word start_bit w }
      else Some cap)"

definition find_prev_filled_slot :: "'a hive_chunk \<Rightarrow> u32 \<Rightarrow> u32 option" where
  "find_prev_filled_slot c cur_slot =
     (if cur_slot = 0 then get_capacity c
      else do {
        let target_slot = cur_slot - 1;
        cap \<leftarrow> get_capacity c;
        let start_word = drop_bit 6 target_slot;
        let start_bit = target_slot AND 63;
        let num_words = drop_bit 6 (cap + 63);
        prev_filled_loop c cap num_words start_word start_bit (start_word + 1) })"

declare first_empty_loop.simps [code] first_filled_loop.simps [code] last_filled_loop.simps [code]
  next_filled_loop.simps [code] prev_filled_loop.simps [code]

section \<open>Chunks and their chains\<close>

text \<open>\<open>create_chunk\<close>; the size computation of the allocation is left to \<open>new_node\<close>.\<close>

definition create_chunk :: "'a hive_store \<Rightarrow> hive \<Rightarrow> u32 \<Rightarrow> ('a hive_store \<times> nat) option" where
  "create_chunk s h log2 =
     (if log2 < 64 then
        (let cap = push_bit (unat log2) 1 :: u64; bm_words = drop_bit 6 (cap + 63) in
         Some (new_node s (hive_id h)
           \<lparr>prev_empty = None, next_empty = None, prev_filled = None, next_filled = None,
            log2_len = log2, filled_count = 0, bitmap = replicate (unat bm_words) 0, slots = Map.empty\<rparr>))
      else None)"

definition destroy_chunk :: "'a hive_store \<Rightarrow> ptr \<Rightarrow> 'a hive_store option" where
  "destroy_chunk s p = drop_node s p"

definition update_chunk :: "'a hive_store \<Rightarrow> ptr \<Rightarrow> ('a hive_chunk \<Rightarrow> 'a hive_chunk) \<Rightarrow> 'a hive_store option" where
  "update_chunk s p f = do { h \<leftarrow> update_node (nodes s) p f; Some (s\<lparr>nodes := h\<rparr>) }"

definition add_to_empty_list :: "'a hive_store \<Rightarrow> hive \<Rightarrow> ptr \<Rightarrow> ('a hive_store \<times> hive) option" where
  "add_to_empty_list s h p = do {
     s \<leftarrow> update_chunk s p (next_empty_update (\<lambda>_. empty_head h));
     s \<leftarrow> update_chunk s p (prev_empty_update (\<lambda>_. None));
     s \<leftarrow> (if empty_head h \<noteq> None then update_chunk s (empty_head h) (prev_empty_update (\<lambda>_. p)) else Some s);
     Some (s, h\<lparr>empty_head := p\<rparr>) }"

definition remove_from_empty_list :: "'a hive_store \<Rightarrow> hive \<Rightarrow> ptr \<Rightarrow> ('a hive_store \<times> hive) option" where
  "remove_from_empty_list s h p = do {
     c \<leftarrow> node_at (nodes s) p;
     let prev = prev_empty c;
     let nxt = next_empty c;
     (s, h) \<leftarrow> (if prev \<noteq> None then do { s \<leftarrow> update_chunk s prev (next_empty_update (\<lambda>_. nxt)); Some (s, h) }
                else Some (s, h\<lparr>empty_head := nxt\<rparr>));
     s \<leftarrow> (if nxt \<noteq> None then update_chunk s nxt (prev_empty_update (\<lambda>_. prev)) else Some s);
     s \<leftarrow> update_chunk s p (prev_empty_update (\<lambda>_. None));
     s \<leftarrow> update_chunk s p (next_empty_update (\<lambda>_. None));
     Some (s, h) }"

definition add_to_filled_list :: "'a hive_store \<Rightarrow> hive \<Rightarrow> ptr \<Rightarrow> ('a hive_store \<times> hive) option" where
  "add_to_filled_list s h p = do {
     s \<leftarrow> update_chunk s p (next_filled_update (\<lambda>_. None));
     s \<leftarrow> update_chunk s p (prev_filled_update (\<lambda>_. filled_tail h));
     (s, h) \<leftarrow> (if filled_tail h \<noteq> None
                then do { s \<leftarrow> update_chunk s (filled_tail h) (next_filled_update (\<lambda>_. p)); Some (s, h) }
                else Some (s, h\<lparr>filled_head := p\<rparr>));
     Some (s, h\<lparr>filled_tail := p\<rparr>) }"

definition remove_from_filled_list :: "'a hive_store \<Rightarrow> hive \<Rightarrow> ptr \<Rightarrow> ('a hive_store \<times> hive) option" where
  "remove_from_filled_list s h p = do {
     c \<leftarrow> node_at (nodes s) p;
     let prev = prev_filled c;
     let nxt = next_filled c;
     (s, h) \<leftarrow> (if prev \<noteq> None then do { s \<leftarrow> update_chunk s prev (next_filled_update (\<lambda>_. nxt)); Some (s, h) }
                else Some (s, h\<lparr>filled_head := nxt\<rparr>));
     (s, h) \<leftarrow> (if nxt \<noteq> None then do { s \<leftarrow> update_chunk s nxt (prev_filled_update (\<lambda>_. prev)); Some (s, h) }
                else Some (s, h\<lparr>filled_tail := prev\<rparr>));
     s \<leftarrow> update_chunk s p (prev_filled_update (\<lambda>_. None));
     s \<leftarrow> update_chunk s p (next_filled_update (\<lambda>_. None));
     Some (s, h) }"

section \<open>Slots\<close>

definition fresh_or_head :: "'a hive_store \<Rightarrow> hive \<Rightarrow> ('a hive_store \<times> hive \<times> ptr) option" where
  "fresh_or_head s h =
     (if empty_head h \<noteq> None then Some (s, h, empty_head h)
      else do {
        let log2 = next_log2_len h;
        let h = (if next_log2_len h < 16 then h\<lparr>next_log2_len := next_log2_len h + 1\<rparr> else h);
        (s, i) \<leftarrow> create_chunk s h log2;
        (s, h) \<leftarrow> add_to_empty_list s h (Some i);
        Some (s, h, Some i) })"

definition allocate_slot :: "'a hive_store \<Rightarrow> hive \<Rightarrow> ('a hive_store \<times> hive \<times> ptr \<times> u32) option" where
  "allocate_slot s h = do {
     (s, h, p) \<leftarrow> fresh_or_head s h;
     c \<leftarrow> node_at (nodes s) p;
     slot \<leftarrow> find_first_empty_slot c;
     c \<leftarrow> set_slot_filled c slot True;
     let fc = filled_count c + 1;
     s \<leftarrow> update_chunk s p (\<lambda>_. c\<lparr>filled_count := fc\<rparr>);
     let h = h\<lparr>hlen := hlen h + 1\<rparr>;
     (s, h) \<leftarrow> (if fc = 1 then add_to_filled_list s h p else Some (s, h));
     cap \<leftarrow> get_capacity c;
     (s, h) \<leftarrow> (if fc = cap then remove_from_empty_list s h p else Some (s, h));
     Some (s, h, p, slot) }"

definition remove_slot :: "'a hive_store \<Rightarrow> hive \<Rightarrow> ptr \<Rightarrow> u32 \<Rightarrow> ('a hive_store \<times> hive) option" where
  "remove_slot s h p slot = do {
     c \<leftarrow> node_at (nodes s) p;
     c \<leftarrow> set_slot_filled c slot False;
     let fc = filled_count c - 1;
     s \<leftarrow> update_chunk s p (\<lambda>_. c\<lparr>filled_count := fc\<rparr>);
     let h = h\<lparr>hlen := hlen h - 1\<rparr>;
     cap \<leftarrow> get_capacity c;
     (s, h) \<leftarrow> (if fc = cap - 1 then add_to_empty_list s h p else Some (s, h));
     if fc = 0 then do {
       (s, h) \<leftarrow> remove_from_filled_list s h p;
       (s, h) \<leftarrow> remove_from_empty_list s h p;
       s \<leftarrow> destroy_chunk s p;
       Some (s, h) }
     else Some (s, h) }"

section \<open>The interface\<close>

definition set_next_log2_len :: "hive \<Rightarrow> u32 \<Rightarrow> hive" where
  "set_next_log2_len h n = h\<lparr>next_log2_len := n\<rparr>"

definition slot_handle :: "'a hive_store \<Rightarrow> ptr \<Rightarrow> u32 \<Rightarrow> ('a hive_store \<times> hive_handle) option" where
  "slot_handle s p slot = do { i \<leftarrow> p; (s, r) \<leftarrow> with_handle s i; Some (s, (r, slot)) }"

definition construct_slot :: "'a hive_store \<Rightarrow> ptr \<Rightarrow> u32 \<Rightarrow> 'a \<Rightarrow> 'a hive_store option" where
  "construct_slot s p slot v = update_chunk s p (slots_update (\<lambda>f. f(unat slot \<mapsto> v)))"

definition hive_emplace_null :: "'a hive_store \<Rightarrow> hive \<Rightarrow> ('a hive_store \<times> hive \<times> hive_handle) option" where
  "hive_emplace_null s h = do {
     (s, h, p, slot) \<leftarrow> allocate_slot s h;
     (s, ha) \<leftarrow> slot_handle s p slot;
     Some (s, h, ha) }"

text \<open>\<open>v\<close> is the value the constructor makes, by default, from arguments, or as a copy or by a
  move (\<open>emplace_default\<close>, \<open>emplace\<close>, \<open>insert\<close>, \<open>push_back\<close>).\<close>

definition hive_emplace :: "'a hive_store \<Rightarrow> hive \<Rightarrow> 'a \<Rightarrow> ('a hive_store \<times> hive \<times> hive_handle) option" where
  "hive_emplace s h v = do {
     (s, h, p, slot) \<leftarrow> allocate_slot s h;
     (s, ha) \<leftarrow> slot_handle s p slot;
     s \<leftarrow> construct_slot s p slot v;
     Some (s, h, ha) }"

definition hive_check :: "'a hive_store \<Rightarrow> hive \<Rightarrow> hive_handle \<Rightarrow> bool option" where
  "hive_check s h ha = do {
     ok \<leftarrow> counted_check (tagged s) (fst ha) (hive_id h);
     if \<not> ok then Some False
     else do {
       c \<leftarrow> node_at (nodes s) (fst ha);
       cap \<leftarrow> get_capacity c;
       if snd ha \<ge> cap then Some False else is_slot_filled c (snd ha) } }"

definition hive_remove :: "'a hive_store \<Rightarrow> hive \<Rightarrow> hive_handle \<Rightarrow> ('a hive_store \<times> hive) option" where
  "hive_remove s h ha = do {
     ok \<leftarrow> hive_check s h ha;
     if \<not> ok then None
     else do {
       c \<leftarrow> node_at (nodes s) (fst ha);
       v \<leftarrow> slots c (unat (snd ha));
       s \<leftarrow> update_chunk s (fst ha) (slots_update (\<lambda>f. f(unat (snd ha) := None)));
       remove_slot s h (fst ha) (snd ha) } }"

text \<open>The value has been destroyed by the client.\<close>

definition hive_inform_destruct :: "'a hive_store \<Rightarrow> hive \<Rightarrow> hive_handle \<Rightarrow> ('a hive_store \<times> hive) option" where
  "hive_inform_destruct s h ha = do {
     ok \<leftarrow> hive_check s h ha;
     if \<not> ok then None else remove_slot s h (fst ha) (snd ha) }"

definition hive_data :: "'a hive_store \<Rightarrow> hive \<Rightarrow> hive_handle \<Rightarrow> 'a option" where
  "hive_data s h ha = do {
     ok \<leftarrow> hive_check s h ha;
     if \<not> ok then None
     else do { c \<leftarrow> node_at (nodes s) (fst ha); slots c (unat (snd ha)) } }"

definition hive_size :: "hive \<Rightarrow> u64" where
  "hive_size h = hlen h"

definition hive_empty :: "hive \<Rightarrow> bool" where
  "hive_empty h \<longleftrightarrow> hlen h = 0"

section \<open>Iteration\<close>

partial_function (option) front_loop :: "'a hive_store \<Rightarrow> ptr \<Rightarrow> (ptr \<times> u32) option" where
  "front_loop s p =
     (if p \<noteq> None then do {
        c \<leftarrow> node_at (nodes s) p;
        slot \<leftarrow> find_first_filled_slot c;
        cap \<leftarrow> get_capacity c;
        if slot < cap then Some (p, slot) else front_loop s (next_filled c) }
      else Some (None, 0))"

partial_function (option) back_loop :: "'a hive_store \<Rightarrow> ptr \<Rightarrow> (ptr \<times> u32) option" where
  "back_loop s p =
     (if p \<noteq> None then do {
        c \<leftarrow> node_at (nodes s) p;
        slot \<leftarrow> find_last_filled_slot c;
        cap \<leftarrow> get_capacity c;
        if slot < cap then Some (p, slot) else back_loop s (prev_filled c) }
      else Some (None, 0))"

declare front_loop.simps [code] back_loop.simps [code]

text \<open>The handle for a position, the null handle when there is none.\<close>

definition position_handle :: "'a hive_store \<Rightarrow> ptr \<times> u32 \<Rightarrow> ('a hive_store \<times> hive_handle) option" where
  "position_handle s pos = (if fst pos = None then Some (s, null_handle) else slot_handle s (fst pos) (snd pos))"

definition hive_front :: "'a hive_store \<Rightarrow> hive \<Rightarrow> ('a hive_store \<times> hive_handle) option" where
  "hive_front s h = do { pos \<leftarrow> front_loop s (filled_head h); position_handle s pos }"

definition hive_back :: "'a hive_store \<Rightarrow> hive \<Rightarrow> ('a hive_store \<times> hive_handle) option" where
  "hive_back s h = do { pos \<leftarrow> back_loop s (filled_tail h); position_handle s pos }"

definition next_position :: "'a hive_store \<Rightarrow> ptr \<Rightarrow> u32 \<Rightarrow> (ptr \<times> u32) option" where
  "next_position s p offs = do {
     c \<leftarrow> node_at (nodes s) p;
     slot \<leftarrow> find_next_filled_slot c offs;
     cap \<leftarrow> get_capacity c;
     if slot < cap then Some (p, slot) else front_loop s (next_filled c) }"

definition prev_position :: "'a hive_store \<Rightarrow> ptr \<Rightarrow> u32 \<Rightarrow> (ptr \<times> u32) option" where
  "prev_position s p offs = do {
     c \<leftarrow> node_at (nodes s) p;
     slot \<leftarrow> find_prev_filled_slot c offs;
     cap \<leftarrow> get_capacity c;
     if slot < cap then Some (p, slot) else back_loop s (prev_filled c) }"

definition hive_next_unsafe :: "'a hive_store \<Rightarrow> hive_handle \<Rightarrow> ('a hive_store \<times> hive_handle) option" where
  "hive_next_unsafe s ha = do { pos \<leftarrow> next_position s (fst ha) (snd ha); position_handle s pos }"

definition hive_prev_unsafe :: "'a hive_store \<Rightarrow> hive_handle \<Rightarrow> ('a hive_store \<times> hive_handle) option" where
  "hive_prev_unsafe s ha = do { pos \<leftarrow> prev_position s (fst ha) (snd ha); position_handle s pos }"

definition hive_next :: "'a hive_store \<Rightarrow> hive \<Rightarrow> hive_handle \<Rightarrow> ('a hive_store \<times> hive_handle) option" where
  "hive_next s h ha = do { ok \<leftarrow> hive_check s h ha; if \<not> ok then None else hive_next_unsafe s ha }"

definition hive_prev :: "'a hive_store \<Rightarrow> hive \<Rightarrow> hive_handle \<Rightarrow> ('a hive_store \<times> hive_handle) option" where
  "hive_prev s h ha = do { ok \<leftarrow> hive_check s h ha; if \<not> ok then None else hive_prev_unsafe s ha }"

text \<open>\<open>pop_front\<close> and \<open>pop_back\<close> drop the handle they made.\<close>

definition hive_pop :: "'a hive_store \<times> hive_handle \<Rightarrow> hive \<Rightarrow> ('a hive_store \<times> hive) option" where
  "hive_pop = (\<lambda>(s, ha) h. do {
     b \<leftarrow> counted_bool (tagged s) (fst ha);
     if \<not> b then None
     else do {
       (s, h) \<leftarrow> hive_remove s h ha;
       s \<leftarrow> drop_handle s (fst ha);
       Some (s, h) } })"

definition hive_pop_front :: "'a hive_store \<Rightarrow> hive \<Rightarrow> ('a hive_store \<times> hive) option" where
  "hive_pop_front s h = do { r \<leftarrow> hive_front s h; hive_pop r h }"

definition hive_pop_back :: "'a hive_store \<Rightarrow> hive \<Rightarrow> ('a hive_store \<times> hive) option" where
  "hive_pop_back s h = do { r \<leftarrow> hive_back s h; hive_pop r h }"

section \<open>Whole hives\<close>

partial_function (option) destroy_bits :: "'a hive_chunk \<Rightarrow> u32 \<Rightarrow> u64 \<Rightarrow> 'a hive_chunk option" where
  "destroy_bits c w val =
     (if val \<noteq> 0 then do {
        let slot = push_bit 6 w OR count_trailing_zeros_u64 val;
        v \<leftarrow> slots c (unat slot);
        destroy_bits (c\<lparr>slots := (slots c)(unat slot := None)\<rparr>) w (val AND (val - 1)) }
      else Some c)"

partial_function (option) destroy_values :: "'a hive_chunk \<Rightarrow> u32 \<Rightarrow> u32 \<Rightarrow> u32 \<Rightarrow> 'a hive_chunk option" where
  "destroy_values c cap num_words w =
     (if w < num_words then do {
        val \<leftarrow> get_bitmap_word c w;
        let val = (if w = num_words - 1 \<and> cap AND 63 \<noteq> 0 then val AND (push_bit (unat (cap AND 63)) 1 - 1) else val);
        c \<leftarrow> destroy_bits c w val;
        destroy_values c cap num_words (w + 1) }
      else Some c)"

partial_function (option) clear_filled :: "'a hive_store \<Rightarrow> hive \<Rightarrow> ('a hive_store \<times> hive) option" where
  "clear_filled s h =
     (if filled_head h \<noteq> None then do {
        let p = filled_head h;
        c \<leftarrow> node_at (nodes s) p;
        cap \<leftarrow> get_capacity c;
        c \<leftarrow> destroy_values c cap (drop_bit 6 (cap + 63)) 0;
        s \<leftarrow> update_chunk s p (\<lambda>_. c);
        (s, h) \<leftarrow> remove_from_filled_list s h p;
        (s, h) \<leftarrow> (if filled_count c < cap then remove_from_empty_list s h p else Some (s, h));
        s \<leftarrow> destroy_chunk s p;
        clear_filled s h }
      else Some (s, h))"

partial_function (option) clear_empty :: "'a hive_store \<Rightarrow> hive \<Rightarrow> ('a hive_store \<times> hive) option" where
  "clear_empty s h =
     (if empty_head h \<noteq> None then do {
        let p = empty_head h;
        (s, h) \<leftarrow> remove_from_empty_list s h p;
        s \<leftarrow> destroy_chunk s p;
        clear_empty s h }
      else Some (s, h))"

definition hive_clear :: "'a hive_store \<Rightarrow> hive \<Rightarrow> ('a hive_store \<times> hive) option" where
  "hive_clear s h = do {
     (s, h) \<leftarrow> clear_filled s h;
     (s, h) \<leftarrow> clear_empty s h;
     Some (s, h\<lparr>hlen := 0, next_log2_len := 3\<rparr>) }"

text \<open>The loop that copies another hive, \<open>for (h = other.front (); h; h = other.next_unsafe (h))\<close>;
  the assignment moves the new handle over the old one.\<close>

definition hive_push :: "'a hive_store \<Rightarrow> hive \<Rightarrow> 'a \<Rightarrow> ('a hive_store \<times> hive) option" where
  "hive_push s h v = do {
     (s, h, ha) \<leftarrow> hive_emplace s h v;
     s \<leftarrow> drop_handle s (fst ha);
     Some (s, h) }"

partial_function (option) copy_values :: "'a hive_store \<Rightarrow> hive \<Rightarrow> hive_handle \<Rightarrow> ('a hive_store \<times> hive) option" where
  "copy_values s h ha = do {
     b \<leftarrow> counted_bool (tagged s) (fst ha);
     if b then do {
       c \<leftarrow> node_at (nodes s) (fst ha);
       v \<leftarrow> slots c (unat (snd ha));
       (s, h) \<leftarrow> hive_push s h v;
       (s, nh) \<leftarrow> hive_next_unsafe s ha;
       s \<leftarrow> drop_handle s (fst ha);
       copy_values s h nh }
     else do {
       s \<leftarrow> drop_handle s (fst ha);
       Some (s, h) } }"

definition hive_copy :: "'a hive_store \<Rightarrow> u64 \<Rightarrow> hive \<Rightarrow> ('a hive_store \<times> hive) option" where
  "hive_copy s new_id other = do {
     (s, ha) \<leftarrow> hive_front s other;
     copy_values s (hive_new new_id) ha }"

definition hive_move :: "u64 \<Rightarrow> hive \<Rightarrow> hive \<times> hive" where
  "hive_move new_id other =
     (other, other\<lparr>empty_head := None, filled_head := None, filled_tail := None, hlen := 0, next_log2_len := 3,
        hive_id := new_id\<rparr>)"

text \<open>Assignments between two different hives.\<close>

definition hive_assign :: "'a hive_store \<Rightarrow> hive \<Rightarrow> hive \<Rightarrow> ('a hive_store \<times> hive) option" where
  "hive_assign s h other = do {
     (s, h) \<leftarrow> hive_clear s h;
     (s, ha) \<leftarrow> hive_front s other;
     copy_values s h ha }"

definition hive_move_assign :: "'a hive_store \<Rightarrow> u64 \<Rightarrow> hive \<Rightarrow> hive \<Rightarrow> ('a hive_store \<times> hive \<times> hive) option" where
  "hive_move_assign s new_id h other = do {
     (s, h) \<leftarrow> hive_clear s h;
     let (h, other) = hive_move new_id other;
     Some (s, h, other) }"

partial_function (option) filled_capacity :: "'a hive_store \<Rightarrow> ptr \<Rightarrow> u64 \<Rightarrow> u64 option" where
  "filled_capacity s p acc =
     (if p \<noteq> None then do {
        c \<leftarrow> node_at (nodes s) p;
        cap \<leftarrow> get_capacity c;
        filled_capacity s (next_filled c) (acc + ucast cap) }
      else Some acc)"

partial_function (option) unused_capacity :: "'a hive_store \<Rightarrow> ptr \<Rightarrow> u64 \<Rightarrow> u64 option" where
  "unused_capacity s p acc =
     (if p \<noteq> None then do {
        c \<leftarrow> node_at (nodes s) p;
        cap \<leftarrow> get_capacity c;
        unused_capacity s (next_empty c) (if filled_count c = 0 then acc + ucast cap else acc) }
      else Some acc)"

definition hive_capacity :: "'a hive_store \<Rightarrow> hive \<Rightarrow> u64 option" where
  "hive_capacity s h = do {
     acc \<leftarrow> filled_capacity s (filled_head h) 0;
     unused_capacity s (empty_head h) acc }"

declare destroy_bits.simps [code] destroy_values.simps [code] clear_filled.simps [code] clear_empty.simps [code]
  copy_values.simps [code] filled_capacity.simps [code] unused_capacity.simps [code]

end
