(* ===== verification/HiveBits.thy ===== *)
theory HiveBits
  imports Hive
begin

text \<open>The searches through the bitmap of a chunk find the first, last, next and previous
  slot in use, or the first free one, and return the capacity when there is none.\<close>

section \<open>Searching a range of numbers\<close>

definition seek :: "(nat \<Rightarrow> bool) \<Rightarrow> nat \<Rightarrow> nat \<Rightarrow> nat" where
  "seek P a n = a + length (takeWhile (\<lambda>i. \<not> P i) [a..<n])"

definition seek_down :: "(nat \<Rightarrow> bool) \<Rightarrow> nat \<Rightarrow> nat \<Rightarrow> nat" where
  "seek_down P a n = (case filter P [0..<a] of [] \<Rightarrow> n | xs \<Rightarrow> last xs)"

lemma seek_found:
  assumes "a \<le> r" "r < n" "P r" "\<And>i. a \<le> i \<Longrightarrow> i < r \<Longrightarrow> \<not> P i"
  shows "seek P a n = r"
proof -
  have "[a..<n] = [a..<r] @ r # [Suc r..<n]"
    using assms(1,2) by (metis le_add_diff_inverse less_imp_le_nat upt_add_eq_append upt_conv_Cons)
  moreover have "takeWhile (\<lambda>i. \<not> P i) ([a..<r] @ r # [Suc r..<n]) = [a..<r]"
    using assms(3,4) by (subst takeWhile_append2) auto
  ultimately show ?thesis using assms(1) by (simp add: seek_def)
qed

lemma seek_none: "a \<le> n \<Longrightarrow> (\<And>i. a \<le> i \<Longrightarrow> i < n \<Longrightarrow> \<not> P i) \<Longrightarrow> seek P a n = n"
  by (simp add: seek_def takeWhile_eq_all_conv [THEN iffD2])

lemma seek_cases:
  assumes "a \<le> n"
  obtains (found) r where "seek P a n = r" "a \<le> r" "r < n" "P r" "\<And>i. a \<le> i \<Longrightarrow> i < r \<Longrightarrow> \<not> P i"
  | (none) "seek P a n = n" "\<And>i. a \<le> i \<Longrightarrow> i < n \<Longrightarrow> \<not> P i"
proof (cases "\<exists>i. a \<le> i \<and> i < n \<and> P i")
  case True
  define r where "r = (LEAST i. a \<le> i \<and> P i)"
  obtain i where i: "a \<le> i" "i < n" "P i" using True by blast
  have r: "a \<le> r" "P r" "r \<le> i" using LeastI [of "\<lambda>i. a \<le> i \<and> P i" i] Least_le [of "\<lambda>i. a \<le> i \<and> P i" i] i by (auto simp: r_def)
  moreover have "\<not> P j" if "a \<le> j" "j < r" for j using not_less_Least [of j "\<lambda>i. a \<le> i \<and> P i"] that by (auto simp: r_def)
  ultimately show thesis using found [of r] seek_found [of a r n P] i(2) by auto
next
  case False
  then show thesis using none seek_none [OF assms, of P] by blast
qed

lemma seek_cong: "a \<le> n \<Longrightarrow> (\<And>i. a \<le> i \<Longrightarrow> i < n \<Longrightarrow> P i = Q i) \<Longrightarrow> seek P a n = seek Q a n"
  unfolding seek_def by (rule arg_cong2 [where f = "(+)"], simp, rule arg_cong [where f = length], rule takeWhile_cong) auto

lemma seekD:
  assumes "a \<le> i" "i < n" "P i"
  shows "a \<le> seek P a n" "seek P a n \<le> i" "P (seek P a n)" "\<And>j. a \<le> j \<Longrightarrow> j < seek P a n \<Longrightarrow> \<not> P j"
proof -
  have "a \<le> n" using assms by simp
  then have "a \<le> seek P a n \<and> seek P a n \<le> i \<and> P (seek P a n) \<and> (\<forall>j. a \<le> j \<longrightarrow> j < seek P a n \<longrightarrow> \<not> P j)"
  proof (cases rule: seek_cases [where P = P])
    case (found r)
    then show ?thesis using assms by (metis not_le)
  next
    case none
    then show ?thesis using assms by blast
  qed
  then show "a \<le> seek P a n" "seek P a n \<le> i" "P (seek P a n)" "\<And>j. a \<le> j \<Longrightarrow> j < seek P a n \<Longrightarrow> \<not> P j" by blast+
qed

lemma seek_down_found:
  assumes "r < a" "P r" "\<And>i. r < i \<Longrightarrow> i < a \<Longrightarrow> \<not> P i"
  shows "seek_down P a n = r"
proof -
  have "[0..<a] = [0..<r] @ r # [Suc r..<a]" using assms(1) by (metis le0 less_imp_le_nat upt_add_eq_append le_add_diff_inverse upt_conv_Cons)
  moreover have "filter P [Suc r..<a] = []" using assms(3) by (auto simp: filter_empty_conv)
  ultimately have "filter P [0..<a] = filter P [0..<r] @ [r]" using assms(2) by simp
  then show ?thesis by (cases "filter P [0..<r]") (simp_all add: seek_down_def)
qed

lemma seek_down_none: "(\<And>i. i < a \<Longrightarrow> \<not> P i) \<Longrightarrow> seek_down P a n = n"
proof -
  assume "\<And>i. i < a \<Longrightarrow> \<not> P i"
  then have "filter P [0..<a] = []" by (auto simp: filter_empty_conv)
  then show ?thesis by (simp add: seek_down_def)
qed

section \<open>The lowest and the highest bit\<close>

lemma ctz_eq:
  assumes "val \<noteq> 0"
  shows "unat (count_trailing_zeros_u64 val) = seek (bit val) 0 64" "seek (bit val) 0 64 < 64"
proof -
  obtain k where k: "k < 64" "bit val k" using assms bit_word_eqI [of val 0] by auto
  show lt: "seek (bit val) 0 64 < 64" using seekD(2) [of 0 k 64 "bit val"] k by simp
  have "count_trailing_zeros_u64 val = of_nat (seek (bit val) 0 64)"
    by (simp add: count_trailing_zeros_u64_def seek_def)
  then show "unat (count_trailing_zeros_u64 val) = seek (bit val) 0 64"
    using lt by (simp add: unat_of_nat take_bit_nat_eq_self)
qed

lemma clz_eq:
  assumes "val \<noteq> 0"
  shows "unat (63 - count_leading_zeros_u64 val) = seek_down (bit val) 64 0" "seek_down (bit val) 64 0 < 64"
    "bit val (seek_down (bit val) 64 0)" "\<And>i. seek_down (bit val) 64 0 < i \<Longrightarrow> \<not> bit val i"
proof -
  define k where "k = seek (\<lambda>i. bit val (63 - i)) 0 64"
  obtain j where j: "j < 64" "bit val j" using assms bit_word_eqI [of val 0] by auto
  have j': "63 - j < 64" "bit val (63 - (63 - j))" using j by simp_all
  note D = seekD [of 0 "63 - j" 64 "\<lambda>i. bit val (63 - i)", OF le0 j']
  have K: "k < 64" "bit val (63 - k)" "\<And>i. i < k \<Longrightarrow> \<not> bit val (63 - i)"
    unfolding k_def using D(2) j'(1) apply linarith using D(3) apply assumption using D(4) by simp
  have hi: "\<not> bit val i" if "63 - k < i" for i
  proof (cases "i < 64")
    case True
    then have "63 - (63 - i) = i" "63 - i < k" using that by auto
    then show ?thesis using K(3) by metis
  next
    case False
    then show ?thesis using bit_imp_le_length [of val i] by auto
  qed
  have sd: "seek_down (bit val) 64 0 = 63 - k" using K(2) hi by (intro seek_down_found) auto
  have "count_leading_zeros_u64 val = of_nat k" by (simp add: count_leading_zeros_u64_def k_def seek_def)
  moreover have "unat (of_nat k :: u32) = k" using K(1) by (simp add: unat_of_nat take_bit_nat_eq_self)
  ultimately show "unat (63 - count_leading_zeros_u64 val) = seek_down (bit val) 64 0"
    using K(1) by (simp add: sd unat_sub word_le_nat_alt)
  show "seek_down (bit val) 64 0 < 64" "bit val (seek_down (bit val) 64 0)" "\<And>i. seek_down (bit val) 64 0 < i \<Longrightarrow> \<not> bit val i"
    using K(2) hi by (auto simp: sd)
qed

lemma slot_number:
  assumes "unat (w :: u32) < 2 ^ 26" "unat b < 64"
  shows "unat (push_bit 6 w OR b) = 64 * unat w + unat b"
proof -
  have b6: "\<not> bit b k" if "6 \<le> k" for k
  proof -
    have "take_bit 6 b = b" using assms(2) by (simp add: word_unat_eq_iff unsigned_take_bit_eq take_bit_nat_eq_self)
    then show ?thesis using that by (metis bit_take_bit_iff not_le)
  qed
  have "push_bit 6 w AND b = 0" using b6 by (intro bit_word_eqI) (auto simp: bit_simps not_le)
  then have "push_bit 6 w OR b = push_bit 6 w + b" by (simp add: disjunctive_add_eq_or)
  moreover have "unat (push_bit 6 w) = 64 * unat w"
  proof -
    have "64 * unat w < 2 ^ 32" using assms(1) by simp
    then show ?thesis by (simp add: push_bit_eq_mult unat_word_ariths mult.commute)
  qed
  ultimately show ?thesis using assms by (simp add: unat_word_ariths)
qed

section \<open>The two kinds of loops\<close>

lemma unat_inc: "w < nw \<Longrightarrow> unat (w + 1 :: u32) = unat w + 1"
proof -
  assume "w < nw"
  then have "unat w + 1 < 2 ^ 32" using unsigned_less [where 'a = nat and w = nw] by (simp add: word_less_nat_alt)
  then show ?thesis by (simp add: unat_word_ariths)
qed

lemma dec_less: "0 < w1 \<Longrightarrow> w1 \<le> nw \<Longrightarrow> w1 - 1 < (nw :: u32)"
proof -
  assume w: "0 < w1" "w1 \<le> nw"
  then have "w1 \<noteq> 0" by auto
  then show ?thesis using w unat_minus_one [of w1] by (simp add: word_less_nat_alt word_le_nat_alt)
qed

lemma seek_skip:
  assumes "a \<le> b" "b \<le> n" "\<And>i. a \<le> i \<Longrightarrow> i < b \<Longrightarrow> \<not> P i"
  shows "seek P a n = seek P b n"
  using assms(2)
proof (cases rule: seek_cases [where P = P])
  case (found r)
  have "\<not> P i" if "a \<le> i" "i < r" for i using assms(3) [OF that(1)] found(5) [OF _ that(2)] by (cases "i < b") auto
  then show ?thesis using assms(1) found(1-4) by (intro seek_found) auto
next
  case none
  have "\<not> P i" if "a \<le> i" "i < n" for i using assms(3) [OF that(1)] none(2) [OF _ that(2)] by (cases "i < b") auto
  then show ?thesis using assms(1,2) none(1) by (simp add: seek_none)
qed

lemma scan_up:
  fixes f :: "u32 \<Rightarrow> u32 option" and cap nw :: u32
  assumes rec: "\<And>w. w < nw \<Longrightarrow> w0 \<le> w \<Longrightarrow> f w = (if m w \<noteq> 0 \<and> push_bit 6 w OR count_trailing_zeros_u64 (m w) < cap
        then Some (push_bit 6 w OR count_trailing_zeros_u64 (m w)) else f (w + 1))"
    and stop: "f nw = Some cap" and nw: "unat nw = (unat cap + 63) div 64" "unat nw \<le> 2 ^ 26"
    and P: "\<And>w k. w < nw \<Longrightarrow> w0 \<le> w \<Longrightarrow> k < 64 \<Longrightarrow> 64 * unat w + k < unat cap \<Longrightarrow> bit (m w) k = P (64 * unat w + k)"
    and w0: "w0 \<le> w" "w \<le> nw"
  shows "\<exists>r. f w = Some r \<and> unat r = (if 64 * unat w \<le> unat cap then seek P (64 * unat w) (unat cap) else unat cap)"
  using w0
proof (induction "unat nw - unat w" arbitrary: w)
  case 0
  then have "w = nw" by (simp add: word_le_nat_alt word_unat_eq_iff)
  moreover have "unat cap \<le> 64 * unat nw" using nw(1) by linarith
  ultimately show ?case using stop by (auto intro!: exI [of _ cap] simp: seek_none dest: le_antisym)
next
  case (Suc d)
  have lt: "w < nw" using Suc.hyps(2) by (simp add: word_less_nat_alt)
  have w1: "unat (w + 1) = unat w + 1" using unat_inc [OF lt] .
  have small: "unat w < 2 ^ 26" using lt nw(2) by (simp add: word_less_nat_alt)
  let ?s = "push_bit 6 w OR count_trailing_zeros_u64 (m w)"
  have num: "unat ?s = 64 * unat w + seek (bit (m w)) 0 64" if "m w \<noteq> 0"
    using slot_number [OF small] ctz_eq [OF that] by simp
  have le: "64 * unat w < unat cap" using lt nw(1) by (simp add: word_less_nat_alt)
  show ?case
  proof (cases "m w \<noteq> 0 \<and> ?s < cap")
    case True
    let ?k = "seek (bit (m w)) 0 64"
    have k: "?k < 64" "64 * unat w + ?k < unat cap" using True num ctz_eq(2) by (auto simp: word_less_nat_alt)
    obtain i where i: "i < 64" "bit (m w) i" using True bit_word_eqI [of "m w" 0] by auto
    note D = seekD [of 0 i 64 "bit (m w)", OF le0 i]
    have "seek P (64 * unat w) (unat cap) = 64 * unat w + ?k"
    proof (rule seek_found)
      show "P (64 * unat w + ?k)" using P [OF lt Suc.prems(1) k] D(3) by simp
      fix j assume j: "64 * unat w \<le> j" "j < 64 * unat w + ?k"
      then have "\<not> bit (m w) (j - 64 * unat w)" using D(4) [of "j - 64 * unat w"] by simp
      then show "\<not> P j" using P [OF lt Suc.prems(1), of "j - 64 * unat w"] j k by simp
    qed (use k in simp_all)
    then show ?thesis using rec [OF lt Suc.prems(1)] True num le by simp
  next
    case False
    have none: "\<not> P j" if "64 * unat w \<le> j" "j < 64 * unat w + 64" "j < unat cap" for j
    proof
      assume "P j"
      then have b: "bit (m w) (j - 64 * unat w)" using P [OF lt Suc.prems(1), of "j - 64 * unat w"] that by simp
      then have nz: "m w \<noteq> 0" by auto
      have "seek (bit (m w)) 0 64 \<le> j - 64 * unat w" using seekD(2) [of 0 "j - 64 * unat w" 64 "bit (m w)"] b that by simp
      then have "?s < cap" using num [OF nz] that by (simp add: word_less_nat_alt)
      with nz False show False by blast
    qed
    have "w0 \<le> w + 1" "w + 1 \<le> nw" using w1 lt Suc.prems(1) by (simp_all add: word_le_nat_alt word_less_nat_alt)
    then obtain r where r: "f (w + 1) = Some r"
        "unat r = (if 64 * unat (w + 1) \<le> unat cap then seek P (64 * unat (w + 1)) (unat cap) else unat cap)"
    proof -
      have "d = unat nw - unat (w + 1)" using Suc.hyps(2) w1 by simp
      then show ?thesis using Suc.hyps(1) [of "w + 1"] \<open>w0 \<le> w + 1\<close> \<open>w + 1 \<le> nw\<close> that by blast
    qed
    have "seek P (64 * unat w) (unat cap) = unat r"
    proof (cases "64 * unat (w + 1) \<le> unat cap")
      case True
      then show ?thesis using seek_skip [of "64 * unat w" "64 * unat (w + 1)" "unat cap" P] none r(2) w1 by simp
    next
      case False
      then show ?thesis using none r(2) w1 le by (subst seek_none) auto
    qed
    then show ?thesis using rec [OF lt Suc.prems(1)] False r(1) le by auto
  qed
qed

lemma seek_down_limit: "l \<le> a \<Longrightarrow> seek_down (\<lambda>i. P i \<and> i < l) a n = seek_down P l n"
proof -
  assume l: "l \<le> a"
  have "filter (\<lambda>i. P i \<and> i < l) [0..<a] = filter P [0..<l]"
  proof -
    have "[0..<a] = [0..<l] @ [l..<a]" using l by (metis le0 le_add_diff_inverse upt_add_eq_append)
    moreover have "filter (\<lambda>i. P i \<and> i < l) [l..<a] = []" by (auto simp: filter_empty_conv)
    moreover have "filter (\<lambda>i. P i \<and> i < l) [0..<l] = filter P [0..<l]" by (rule filter_cong) auto
    ultimately show ?thesis by simp
  qed
  then show ?thesis by (simp add: seek_down_def)
qed

lemma scan_down:
  fixes f :: "u32 \<Rightarrow> u32 option" and cap :: u32
  assumes rec: "\<And>w1. 0 < w1 \<Longrightarrow> w1 \<le> nw \<Longrightarrow> f w1 = (if m (w1 - 1) \<noteq> 0 then Some (push_bit 6 (w1 - 1) OR (63 - count_leading_zeros_u64 (m (w1 - 1))))
        else f (w1 - 1))"
    and stop: "f 0 = Some cap" and nw: "unat nw \<le> 2 ^ 26"
    and Q: "\<And>w k. w < nw \<Longrightarrow> k < 64 \<Longrightarrow> bit (m w) k = Q (64 * unat w + k)"
    and w1: "w1 \<le> nw"
  shows "\<exists>r. f w1 = Some r \<and> unat r = seek_down Q (64 * unat w1) (unat cap)"
  using w1
proof (induction "unat w1" arbitrary: w1)
  case 0
  then have "w1 = 0" by (simp add: unat_eq_0)
  then show ?case using stop by (simp add: seek_down_def)
next
  case (Suc d)
  let ?w = "w1 - 1"
  have pos: "0 < w1" using Suc.hyps(2) by (simp add: word_less_nat_alt)
  then have nz: "w1 \<noteq> 0" by auto
  have w: "unat w1 = unat ?w + 1" using Suc.hyps(2) unat_minus_one [OF nz] by simp
  have lt: "?w < nw" using w Suc.prems by (simp add: word_less_nat_alt word_le_nat_alt)
  have small: "unat ?w < 2 ^ 26" using lt nw by (simp add: word_less_nat_alt)
  show ?case
  proof (cases "m ?w = 0")
    case True
    have none: "\<not> Q (64 * unat ?w + k)" if "k < 64" for k using Q [OF lt that] True by simp
    have "?w \<le> nw" using lt by simp
    then obtain r where r: "f ?w = Some r" "unat r = seek_down Q (64 * unat ?w) (unat cap)"
      using Suc.hyps(1) [of ?w] Suc.hyps(2) w by auto
    have "filter Q [0..<64 * unat w1] = filter Q [0..<64 * unat ?w] @ filter Q [64 * unat ?w..<64 * unat w1]"
    proof -
      have "[0..<64 * unat ?w + 64] = [0..<64 * unat ?w] @ [64 * unat ?w..<64 * unat ?w + 64]" by (rule upt_add_eq_append) simp
      moreover have "64 * unat w1 = 64 * unat ?w + 64" using w by simp
      ultimately show ?thesis by (metis filter_append)
    qed
    moreover have "filter Q [64 * unat ?w..<64 * unat w1] = []"
    proof -
      have "\<not> Q i" if "64 * unat ?w \<le> i" "i < 64 * unat w1" for i
        using none [of "i - 64 * unat ?w"] that w by simp
      then show ?thesis by (auto simp: filter_empty_conv)
    qed
    ultimately have "seek_down Q (64 * unat w1) (unat cap) = seek_down Q (64 * unat ?w) (unat cap)" by (simp add: seek_down_def)
    then show ?thesis using rec [OF pos Suc.prems] True r by simp
  next
    case False
    note C = clz_eq [OF False]
    let ?k = "seek_down (bit (m ?w)) 64 0"
    have "unat (push_bit 6 ?w OR (63 - count_leading_zeros_u64 (m ?w))) = 64 * unat ?w + ?k"
      using slot_number [OF small] C(1,2) by simp
    moreover have "seek_down Q (64 * unat w1) (unat cap) = 64 * unat ?w + ?k"
    proof (rule seek_down_found)
      show "64 * unat ?w + ?k < 64 * unat w1" using C(2) w by simp
      show "Q (64 * unat ?w + ?k)" using Q [OF lt C(2)] C(3) by simp
      fix i assume i: "64 * unat ?w + ?k < i" "i < 64 * unat w1"
      then have "?k < i - 64 * unat ?w" "i - 64 * unat ?w < 64" using w by auto
      then show "\<not> Q i" using Q [OF lt, of "i - 64 * unat ?w"] C(4) i by auto
    qed
    ultimately show ?thesis using rec [OF pos Suc.prems] False by simp
  qed
qed

section \<open>Masks\<close>

lemma bit_low_mask: "bit (push_bit n 1 - 1 :: u64) k \<longleftrightarrow> k < n \<and> k < 64"
  by (simp add: push_bit_of_1 flip: mask_eq_exp_minus_1) (auto simp: bit_simps)

lemma unat_and_63: "unat ((v :: u32) AND 63) = unat v mod 64"
proof -
  have "v AND 63 = take_bit 6 v" by (simp add: take_bit_eq_mask mask_eq_exp_minus_1)
  then show ?thesis by (simp only: unsigned_take_bit_eq) (simp add: take_bit_eq_mod)
qed

lemma unat_power: "k < 32 \<Longrightarrow> unat (push_bit k 1 :: u32) = 2 ^ k"
  by (simp only: unsigned_push_bit_eq) (simp add: take_bit_nat_eq_self push_bit_eq_mult)

lemma unat_div_64: "unat (drop_bit 6 (v :: u32)) = unat v div 64"
proof -
  have "drop_bit 6 v = v div 64" by (simp add: drop_bit_eq_div)
  then show ?thesis by (simp add: unat_div_distrib)
qed

text \<open>The mask of the last word.\<close>

lemma last_word_nat:
  fixes cap w k :: nat
  assumes "w < (cap + 63) div 64" "k < 64"
  shows "64 * w + k < cap \<longleftrightarrow> (w = (cap + 63) div 64 - 1 \<and> cap mod 64 \<noteq> 0 \<longrightarrow> k < cap mod 64)"
proof -
  obtain q r where c: "cap = 64 * q + r" "r < 64" by (metis mod_less_divisor mult_div_mod_eq zero_less_numeral)
  have m: "cap mod 64 = r" using c by simp
  show ?thesis
  proof (cases "r = 0")
    case True
    then have "(cap + 63) div 64 = q" using c by simp
    then show ?thesis using True m c(1) assms by simp
  next
    case False
    have "cap + 63 = 64 * (q + 1) + (r - 1)" using False c by simp
    moreover have "(64 * (q + 1) + (r - 1)) div 64 = q + 1" using c(2) by (intro div_nat_eqI) auto
    ultimately have "(cap + 63) div 64 = q + 1" by simp
    then show ?thesis using False m c assms by auto
  qed
qed

lemma is_last_word:
  fixes cap nw w :: u32
  assumes nw: "unat nw = (unat cap + 63) div 64" and w: "w < nw"
  shows "w = nw - 1 \<and> cap AND 63 \<noteq> 0 \<longleftrightarrow> unat w = (unat cap + 63) div 64 - 1 \<and> unat cap mod 64 \<noteq> 0"
proof -
  have nz: "nw \<noteq> 0" using w by auto
  have "w = nw - 1 \<longleftrightarrow> unat w = unat nw - 1" using unat_minus_one [OF nz] by (metis word_unat_eq_iff)
  moreover have "cap AND 63 = 0 \<longleftrightarrow> unat cap mod 64 = 0" using unat_and_63 [of cap] by (metis unat_eq_0)
  ultimately show ?thesis using nw by simp
qed

lemma bit_last_word:
  fixes cap nw w :: u32
  assumes "unat nw = (unat cap + 63) div 64" "w < nw" "k < 64"
  shows "bit (if w = nw - 1 \<and> cap AND 63 \<noteq> 0 then val AND (push_bit (unat (cap AND 63)) 1 - 1) else val :: u64) k \<longleftrightarrow>
    bit val k \<and> 64 * unat w + k < unat cap"
proof -
  have "unat w < (unat cap + 63) div 64" using assms by (simp add: word_less_nat_alt)
  note iff = last_word_nat [OF this assms(3)]
  have "bit (val AND (push_bit (unat (cap AND 63)) 1 - 1)) k \<longleftrightarrow> bit val k \<and> k < unat cap mod 64"
    unfolding bit_and_iff bit_low_mask unat_and_63 using assms(3) by simp
  then show ?thesis unfolding is_last_word [OF assms(1,2)] iff by (simp del: push_bit_of_1)
qed

lemma bit_last_word_ones:
  fixes cap nw w :: u32
  assumes "unat nw = (unat cap + 63) div 64" "w < nw" "k < 64" "64 * unat w + k < unat cap"
  shows "bit (if w = nw - 1 \<and> cap AND 63 \<noteq> 0 then val OR push_bit (unat (cap AND 63)) (NOT 0) else val :: u64) k \<longleftrightarrow> bit val k"
proof -
  have "unat w < (unat cap + 63) div 64" using assms by (simp add: word_less_nat_alt)
  note iff = last_word_nat [OF this assms(3), THEN iffD1, OF assms(4)]
  show ?thesis unfolding is_last_word [OF assms(1,2)]
    using assms(3) iff by (auto simp: bit_or_iff bit_not_iff bit_mask_iff bit_push_bit_iff unat_and_63)
qed

section \<open>The five searches\<close>

definition slot_filled :: "'a hive_chunk \<Rightarrow> nat \<Rightarrow> bool" where
  "slot_filled c i \<longleftrightarrow> bit (bitmap c ! (i div 64)) (i mod 64)"

definition slot_cap :: "'a hive_chunk \<Rightarrow> nat" where
  "slot_cap c = 2 ^ unat (log2_len c)"

definition words_ok :: "'a hive_chunk \<Rightarrow> bool" where
  "words_ok c \<longleftrightarrow> log2_len c < 32 \<and> length (bitmap c) = (slot_cap c + 63) div 64"

lemma get_capacity_ok:
  assumes "words_ok c"
  obtains cap where "get_capacity c = Some cap" "unat cap = slot_cap c" "slot_cap c \<le> 2 ^ 31" "0 < slot_cap c"
    "unat (drop_bit 6 (cap + 63)) = (slot_cap c + 63) div 64" "(slot_cap c + 63) div 64 \<le> 2 ^ 26"
proof -
  have l: "log2_len c < 32" using assms by (simp add: words_ok_def)
  then have l': "unat (log2_len c) \<le> 31" by (simp add: word_less_nat_alt)
  then have le: "slot_cap c \<le> 2 ^ 31" unfolding slot_cap_def by (intro power_increasing) auto
  have u: "unat (push_bit (unat (log2_len c)) 1 :: u32) = slot_cap c" using l' unat_power [of "unat (log2_len c)"] unfolding slot_cap_def by linarith
  then have "unat (push_bit (unat (log2_len c)) 1 + 63 :: u32) = slot_cap c + 63" using le by (simp add: unat_word_ariths)
  then show thesis using that [of "push_bit (unat (log2_len c)) 1"] l u le by (simp add: get_capacity_def unat_div_64 slot_cap_def)
qed

lemma get_bitmap_word_ok:
  "words_ok c \<Longrightarrow> unat nw = (slot_cap c + 63) div 64 \<Longrightarrow> w < nw \<Longrightarrow> get_bitmap_word c w = Some (bitmap c ! unat w)"
  by (simp add: get_bitmap_word_def words_ok_def word_less_nat_alt)

lemma slot_filled_word: "k < 64 \<Longrightarrow> slot_filled c (64 * w + k) = bit (bitmap c ! w) k"
  by (simp add: slot_filled_def)

lemma find_first_empty_ok:
  assumes "words_ok c"
  shows "\<exists>r. find_first_empty_slot c = Some r \<and> unat r = seek (\<lambda>i. \<not> slot_filled c i) 0 (slot_cap c)"
proof -
  obtain cap where cap: "get_capacity c = Some cap" "unat cap = slot_cap c" "unat (drop_bit 6 (cap + 63)) = (slot_cap c + 63) div 64"
    "(slot_cap c + 63) div 64 \<le> 2 ^ 26" using get_capacity_ok [OF assms] by metis
  let ?nw = "drop_bit 6 (cap + 63)"
  let ?m = "\<lambda>w. NOT (if w = ?nw - 1 \<and> cap AND 63 \<noteq> 0 then bitmap c ! unat w OR push_bit (unat (cap AND 63)) (NOT 0) else bitmap c ! unat w)"
  have "\<exists>r. first_empty_loop c cap ?nw 0 = Some r \<and>
      unat r = (if 64 * unat (0 :: u32) \<le> unat cap then seek (\<lambda>i. \<not> slot_filled c i) (64 * unat (0 :: u32)) (unat cap) else unat cap)"
  proof (rule scan_up [where w0 = 0 and m = ?m and nw = ?nw])
    show "first_empty_loop c cap ?nw w = (if ?m w \<noteq> 0 \<and> push_bit 6 w OR count_trailing_zeros_u64 (?m w) < cap
        then Some (push_bit 6 w OR count_trailing_zeros_u64 (?m w)) else first_empty_loop c cap ?nw (w + 1))"
      if "w < ?nw" for w
      using that get_bitmap_word_ok [OF assms cap(3) that] by (subst first_empty_loop.simps) (simp add: Let_def)
    show "bit (?m w) k = (\<not> slot_filled c (64 * unat w + k))" if "w < ?nw" "k < 64" "64 * unat w + k < unat cap" for w k
      using bit_last_word_ones [of ?nw cap w k "bitmap c ! unat w"] that cap by (simp add: bit_not_iff slot_filled_word)
  qed (use cap in \<open>simp_all add: first_empty_loop.simps\<close>)
  then show ?thesis using cap by (simp add: find_first_empty_slot_def Let_def)
qed

lemma find_first_filled_ok:
  assumes "words_ok c"
  shows "\<exists>r. find_first_filled_slot c = Some r \<and> unat r = seek (slot_filled c) 0 (slot_cap c)"
proof -
  obtain cap where cap: "get_capacity c = Some cap" "unat cap = slot_cap c" "unat (drop_bit 6 (cap + 63)) = (slot_cap c + 63) div 64"
    "(slot_cap c + 63) div 64 \<le> 2 ^ 26" using get_capacity_ok [OF assms] by metis
  let ?nw = "drop_bit 6 (cap + 63)"
  let ?m = "\<lambda>w. if w = ?nw - 1 \<and> cap AND 63 \<noteq> 0 then bitmap c ! unat w AND (push_bit (unat (cap AND 63)) 1 - 1) else bitmap c ! unat w"
  have "\<exists>r. first_filled_loop c cap ?nw 0 = Some r \<and>
      unat r = (if 64 * unat (0 :: u32) \<le> unat cap then seek (slot_filled c) (64 * unat (0 :: u32)) (unat cap) else unat cap)"
  proof (rule scan_up [where w0 = 0 and m = ?m and nw = ?nw])
    show "first_filled_loop c cap ?nw w = (if ?m w \<noteq> 0 \<and> push_bit 6 w OR count_trailing_zeros_u64 (?m w) < cap
        then Some (push_bit 6 w OR count_trailing_zeros_u64 (?m w)) else first_filled_loop c cap ?nw (w + 1))"
      if "w < ?nw" for w
      using that get_bitmap_word_ok [OF assms cap(3) that] by (subst first_filled_loop.simps) (simp add: Let_def)
    show "bit (?m w) k = slot_filled c (64 * unat w + k)" if "w < ?nw" "k < 64" "64 * unat w + k < unat cap" for w k
      using bit_last_word [of ?nw cap w k "bitmap c ! unat w"] that cap by (simp add: slot_filled_word)
  qed (use cap in \<open>simp_all add: first_filled_loop.simps\<close>)
  then show ?thesis using cap by (simp add: find_first_filled_slot_def Let_def)
qed

lemma find_last_filled_ok:
  assumes "words_ok c"
  shows "\<exists>r. find_last_filled_slot c = Some r \<and> unat r = seek_down (slot_filled c) (slot_cap c) (slot_cap c)"
proof -
  obtain cap where cap: "get_capacity c = Some cap" "unat cap = slot_cap c" "unat (drop_bit 6 (cap + 63)) = (slot_cap c + 63) div 64"
    "(slot_cap c + 63) div 64 \<le> 2 ^ 26" using get_capacity_ok [OF assms] by metis
  let ?nw = "drop_bit 6 (cap + 63)"
  let ?m = "\<lambda>w. if w = ?nw - 1 \<and> cap AND 63 \<noteq> 0 then bitmap c ! unat w AND (push_bit (unat (cap AND 63)) 1 - 1) else bitmap c ! unat w"
  have "\<exists>r. last_filled_loop c cap ?nw ?nw = Some r \<and>
      unat r = seek_down (\<lambda>i. slot_filled c i \<and> i < slot_cap c) (64 * unat ?nw) (unat cap)"
  proof (rule scan_down [where f = "last_filled_loop c cap ?nw" and m = ?m and nw = ?nw])
    show "last_filled_loop c cap ?nw w1 = (if ?m (w1 - 1) \<noteq> 0 then Some (push_bit 6 (w1 - 1) OR (63 - count_leading_zeros_u64 (?m (w1 - 1))))
        else last_filled_loop c cap ?nw (w1 - 1))"
      if w: "0 < w1" "w1 \<le> ?nw" for w1
    proof -
      have "w1 - 1 < ?nw" using dec_less w by blast
      then show ?thesis using w(1) get_bitmap_word_ok [OF assms cap(3)] by (subst last_filled_loop.simps) (auto simp: Let_def)
    qed
    show "bit (?m w) k = (slot_filled c (64 * unat w + k) \<and> 64 * unat w + k < slot_cap c)" if "w < ?nw" "k < 64" for w k
      using bit_last_word [of ?nw cap w k "bitmap c ! unat w"] that cap by (simp add: slot_filled_word)
  qed (use cap in \<open>simp_all add: last_filled_loop.simps\<close>)
  moreover have "slot_cap c \<le> 64 * unat ?nw" using cap(3) by linarith
  ultimately show ?thesis using cap by (simp add: find_last_filled_slot_def Let_def seek_down_limit)
qed

lemma find_next_filled_ok:
  assumes ok: "words_ok c" and cur: "unat cur < slot_cap c"
  shows "\<exists>r. find_next_filled_slot c cur = Some r \<and> unat r = seek (slot_filled c) (unat cur + 1) (slot_cap c)"
proof -
  obtain cap where cap: "get_capacity c = Some cap" "unat cap = slot_cap c" "slot_cap c \<le> 2 ^ 31"
    "unat (drop_bit 6 (cap + 63)) = (slot_cap c + 63) div 64" "(slot_cap c + 63) div 64 \<le> 2 ^ 26"
    using get_capacity_ok [OF ok] by metis
  have inc: "unat (cur + 1) = unat cur + 1" using cur cap(2) by (intro unat_inc [of _ cap]) (simp add: word_less_nat_alt)
  show ?thesis
  proof (cases "cur + 1 \<ge> cap")
    case True
    then have "slot_cap c = unat cur + 1" using inc cap(2) cur by (simp add: word_le_nat_alt)
    then show ?thesis using True cap(1,2) by (simp add: find_next_filled_slot_def seek_none)
  next
    case False
    let ?nw = "drop_bit 6 (cap + 63)" and ?sw = "drop_bit 6 (cur + 1)" and ?sb = "(cur + 1) AND 63"
    let ?v = "\<lambda>w. if w = ?sw \<and> ?sb > 0 then bitmap c ! unat w AND push_bit (unat ?sb) (NOT 0) else bitmap c ! unat w"
    let ?m = "\<lambda>w. if w = ?nw - 1 \<and> cap AND 63 \<noteq> 0 then ?v w AND (push_bit (unat (cap AND 63)) 1 - 1) else ?v w"
    let ?P = "\<lambda>i. slot_filled c i \<and> unat cur < i"
    have lt: "unat cur + 1 < slot_cap c" using False inc cap(2) by (simp add: word_le_nat_alt)
    have sw: "unat ?sw = (unat cur + 1) div 64" "unat ?sb = (unat cur + 1) mod 64" by (simp_all only: unat_div_64 unat_and_63 inc)
    have le: "?sw \<le> ?nw" using sw(1) cap(4) lt by (simp add: word_le_nat_alt div_le_mono)
    have "\<exists>r. next_filled_loop c cap ?nw ?sw ?sb ?sw = Some r \<and>
        unat r = (if 64 * unat ?sw \<le> unat cap then seek ?P (64 * unat ?sw) (unat cap) else unat cap)"
    proof (rule scan_up [where f = "next_filled_loop c cap ?nw ?sw ?sb" and w0 = ?sw and m = ?m and nw = ?nw])
      show "next_filled_loop c cap ?nw ?sw ?sb w = (if ?m w \<noteq> 0 \<and> push_bit 6 w OR count_trailing_zeros_u64 (?m w) < cap
          then Some (push_bit 6 w OR count_trailing_zeros_u64 (?m w)) else next_filled_loop c cap ?nw ?sw ?sb (w + 1))"
        if "w < ?nw" for w
        using that get_bitmap_word_ok [OF ok cap(4) that] by (subst next_filled_loop.simps) (simp add: Let_def)
      show "bit (?m w) k = (slot_filled c (64 * unat w + k) \<and> unat cur < 64 * unat w + k)"
        if w: "w < ?nw" "?sw \<le> w" "k < 64" "64 * unat w + k < unat cap" for w k
      proof -
        have "bit (?v w) k \<longleftrightarrow> bit (bitmap c ! unat w) k \<and> unat cur < 64 * unat w + k"
        proof (cases "w = ?sw")
          case True
          then have "unat cur + 1 = 64 * unat w + (unat cur + 1) mod 64" using sw(1) by simp
          moreover have "?sb > 0 \<longleftrightarrow> (unat cur + 1) mod 64 > 0" using sw(2) by (simp add: word_less_nat_alt)
          ultimately show ?thesis using True w(3) by (auto simp: bit_and_iff bit_not_iff bit_mask_iff sw(2))
        next
          case False
          then have "unat ?sw < unat w" using w(2) by (metis word_le_nat_alt word_unat_eq_iff le_neq_implies_less)
          then have "unat cur + 1 < 64 * unat w" using sw(1) by linarith
          then show ?thesis using False by simp
        qed
        then show ?thesis using bit_last_word [of ?nw cap w k "?v w"] w cap by (simp add: slot_filled_word)
      qed
    qed (use cap le in \<open>simp_all add: next_filled_loop.simps\<close>)
    moreover have "64 * unat ?sw \<le> unat cur + 1" using sw(1) by simp
    moreover from this have "seek ?P (64 * unat ?sw) (slot_cap c) = seek ?P (unat cur + 1) (slot_cap c)"
      using lt by (intro seek_skip) auto
    moreover have "seek ?P (unat cur + 1) (slot_cap c) = seek (slot_filled c) (unat cur + 1) (slot_cap c)"
      using lt by (intro seek_cong) auto
    ultimately show ?thesis using cap lt False by (simp add: find_next_filled_slot_def Let_def)
  qed
qed

lemma find_prev_filled_ok:
  assumes ok: "words_ok c" and cur: "unat cur < slot_cap c"
  shows "\<exists>r. find_prev_filled_slot c cur = Some r \<and> unat r = seek_down (slot_filled c) (unat cur) (slot_cap c)"
proof -
  obtain cap where cap: "get_capacity c = Some cap" "unat cap = slot_cap c" "slot_cap c \<le> 2 ^ 31"
    "unat (drop_bit 6 (cap + 63)) = (slot_cap c + 63) div 64" "(slot_cap c + 63) div 64 \<le> 2 ^ 26"
    using get_capacity_ok [OF ok] by metis
  show ?thesis
  proof (cases "cur = 0")
    case True
    then show ?thesis using cap(1,2) by (simp add: find_prev_filled_slot_def seek_down_def)
  next
    case False
    let ?t = "cur - 1"
    let ?nw = "drop_bit 6 (cap + 63)" and ?sw = "drop_bit 6 ?t" and ?sb = "?t AND 63"
    let ?v = "\<lambda>w. if w = ?sw \<and> ?sb < 63 then bitmap c ! unat w AND (push_bit (unat (?sb + 1)) 1 - 1) else bitmap c ! unat w"
    let ?m = "\<lambda>w. if w = ?nw - 1 \<and> cap AND 63 \<noteq> 0 then ?v w AND (push_bit (unat (cap AND 63)) 1 - 1) else ?v w"
    let ?Q = "\<lambda>i. slot_filled c i \<and> i < unat cur"
    have dec: "unat cur = unat ?t + 1" using unat_minus_one [OF False] False by (simp add: unat_gt_0)
    have sw: "unat ?sw = unat ?t div 64" "unat ?sb = unat ?t mod 64" by (simp_all only: unat_div_64 unat_and_63)
    have le: "?sw < ?nw" using sw(1) cap(4) dec cur by (simp add: word_less_nat_alt)
    have swb: "unat (?sw + 1) = unat ?sw + 1" by (rule unat_inc [OF le])
    have "\<exists>r. prev_filled_loop c cap ?nw ?sw ?sb (?sw + 1) = Some r \<and>
        unat r = seek_down ?Q (64 * unat (?sw + 1)) (unat cap)"
    proof (rule scan_down [where f = "prev_filled_loop c cap ?nw ?sw ?sb" and m = ?m and nw = "?sw + 1"])
      show "prev_filled_loop c cap ?nw ?sw ?sb w1 = (if ?m (w1 - 1) \<noteq> 0 then Some (push_bit 6 (w1 - 1) OR (63 - count_leading_zeros_u64 (?m (w1 - 1))))
          else prev_filled_loop c cap ?nw ?sw ?sb (w1 - 1))"
        if w: "0 < w1" "w1 \<le> ?sw + 1" for w1
      proof -
        have "w1 - 1 < ?nw" using dec_less [OF w] le swb by (simp add: word_less_nat_alt)
        then show ?thesis using w(1) get_bitmap_word_ok [OF ok cap(4)] by (subst prev_filled_loop.simps) (auto simp: Let_def)
      qed
      show "bit (?m w) k = (slot_filled c (64 * unat w + k) \<and> 64 * unat w + k < unat cur)" if w: "w < ?sw + 1" "k < 64" for w k
      proof -
        have w': "w < ?nw" using w(1) le swb by (simp add: word_less_nat_alt)
        have "bit (?v w) k \<longleftrightarrow> bit (bitmap c ! unat w) k \<and> 64 * unat w + k < unat cur"
        proof (cases "w = ?sw")
          case True
          have c: "unat cur = 64 * unat w + unat ?t mod 64 + 1" using True sw(1) dec by simp
          have "unat (?sb + 1) = unat ?t mod 64 + 1" using sw(2) unat_inc [of ?sb 64] by (simp add: word_less_nat_alt)
          moreover have "?sb < 63 \<longleftrightarrow> unat ?t mod 64 < 63" using sw(2) by (simp add: word_less_nat_alt)
          moreover have "unat ?t mod 64 < 64" by simp
          ultimately show ?thesis using True w(2) c unfolding if_distrib [of "\<lambda>v. bit v k"] bit_and_iff bit_low_mask by auto
        next
          case False
          then have "unat w < unat ?sw" using w(1) swb by (metis Suc_eq_plus1 less_antisym word_less_nat_alt word_unat_eq_iff)
          then have "64 * unat w + k < unat cur" using sw(1) dec w(2) by linarith
          then show ?thesis using False by simp
        qed
        moreover have "64 * unat w + k < unat cur \<Longrightarrow> 64 * unat w + k < unat cap" using cur cap(2) by simp
        ultimately show ?thesis using bit_last_word [of ?nw cap w k "?v w"] w' w(2) cap by (auto simp: slot_filled_word)
      qed
    qed (use cap le swb in \<open>simp_all add: prev_filled_loop.simps word_le_nat_alt word_less_nat_alt\<close>)
    moreover have "t + 1 \<le> 64 * (t div 64 + 1)" for t :: nat by presburger
    then have "unat cur \<le> 64 * unat (?sw + 1)" unfolding swb sw(1) dec .
    ultimately show ?thesis using cap False by (simp add: find_prev_filled_slot_def Let_def seek_down_limit)
  qed
qed

end
