(* ===== verification/Sort.thy ===== *)
theory Sort
  imports SortNet HiveBits
begin

text \<open>
  The constant-time sorting functions \<open>safe_sort_uint32\<close> and \<open>safe_sort_uint64\<close>
  (\<open>src/crypto/sort/sort.c\<close>): the loops over places computed with masks and shifts of 64-bit
  words are the merge exchange network restricted to the places of the array.  The two functions
  have the same text but for the type of the elements, so that one model over words of any length
  serves both.
\<close>

section \<open>The functions\<close>

text \<open>\<open>uint32_min\<close> and \<open>uint64_min\<close>: \<open>cmp\<close> and \<open>csel\<close> with the condition \<open>ls\<close>, unsigned lower or same.\<close>

definition uint_min :: "'a :: len word \<Rightarrow> 'a word \<Rightarrow> 'a word" where
  "uint_min a b = (if a \<le> b then a else b)"

definition sort_step :: "'a :: len word list \<Rightarrow> u64 \<Rightarrow> u64 \<Rightarrow> 'a word list option" where
  "sort_step input offset1 offset2 =
     (if unat offset1 < length input \<and> unat offset2 < length input
      then let x = input ! unat offset1; y = input ! unat offset2; sum = x + y;
               lo = uint_min x y; hi = sum - lo
           in Some (input[unat offset1 := lo, unat offset2 := hi])
      else None)"

text \<open>\<open>v << k\<close> and \<open>1ull << k\<close>, undefined unless \<open>k < 64\<close>.\<close>

definition shift_u64 :: "u64 \<Rightarrow> u32 \<Rightarrow> u64 option" where
  "shift_u64 v k = (if k < 64 then Some (push_bit (unat k) v) else None)"

definition spread_u64 :: "u64 \<Rightarrow> u64 \<Rightarrow> u64 \<Rightarrow> u64" where
  "spread_u64 mask1 mask2 u = (u AND mask1) OR push_bit 1 (u AND mask2)"

definition sort_first_loop :: "u64 \<Rightarrow> u32 \<Rightarrow> u32 \<Rightarrow> u64 \<Rightarrow> u64 \<Rightarrow> 'a :: len word list \<Rightarrow> 'a word list option" where
  "sort_first_loop len len_log2 i mask1 mask2 input =
     loop_c (\<lambda>(input, u). do {
       let offset1 = spread_u64 mask1 mask2 u;
       d \<leftarrow> shift_u64 1 (len_log2 - i);
       let offset2 = offset1 + d;
       if len \<le> offset2 then Some (Inl input)
       else do {
         input' \<leftarrow> sort_step input offset1 offset2;
         Some (Inr (input', u + 1)) } }) (input, 0)"

definition sort_later_loop :: "u64 \<Rightarrow> u32 \<Rightarrow> u32 \<Rightarrow> u64 \<Rightarrow> u64 \<Rightarrow> u32 \<Rightarrow> 'a :: len word list \<Rightarrow> 'a word list option" where
  "sort_later_loop len len_log2 i mask1 mask2 t input = do {
     start \<leftarrow> shift_u64 1 (len_log2 - t - 1);
     loop_c (\<lambda>(input, u). do {
       let offset2 = spread_u64 mask1 mask2 u;
       d \<leftarrow> shift_u64 1 (len_log2 - i);
       e \<leftarrow> shift_u64 1 (len_log2 - t);
       let offset1 = offset2 + d - e;
       if len \<le> offset2 then Some (Inl input)
       else do {
         input' \<leftarrow> sort_step input offset1 offset2;
         Some (Inr (input', u + 1)) } }) (input, start) }"

definition sort_round_loop :: "u64 \<Rightarrow> u32 \<Rightarrow> u32 \<Rightarrow> 'a :: len word list \<Rightarrow> 'a word list option" where
  "sort_round_loop len len_log2 i input = do {
     m1 \<leftarrow> shift_u64 1 (len_log2 - i);
     let mask1 = m1 - 1;
     m2 \<leftarrow> shift_u64 1 i;
     mask2 \<leftarrow> shift_u64 (m2 - 1) (len_log2 - i);
     input \<leftarrow> sort_first_loop len len_log2 i mask1 mask2 input;
     (input, t) \<leftarrow> while_c (\<lambda>(input, t). t < i) (\<lambda>(input, t). do {
       input \<leftarrow> sort_later_loop len len_log2 i mask1 mask2 t input;
       Some (input, t + 1) }) (input, 1);
     Some input }"

text \<open>\<open>__builtin_clzll\<close> is undefined on 0, so \<open>len\<close> is not 1.\<close>

definition safe_sort :: "'a :: len word list \<Rightarrow> u64 \<Rightarrow> 'a word list option" where
  "safe_sort input len =
     (if len - 1 = 0 then None
      else let len_log2 = 64 - count_leading_zeros_u64 (len - 1) in do {
        (input, i) \<leftarrow> while_c (\<lambda>(input, i). i \<le> len_log2) (\<lambda>(input, i). do {
          input \<leftarrow> sort_round_loop len len_log2 i input;
          Some (input, i + 1) }) (input, 1);
        Some input })"

definition safe_sort_uint32 :: "u32 list \<Rightarrow> u64 \<Rightarrow> u32 list option" where
  "safe_sort_uint32 = safe_sort"

definition safe_sort_uint64 :: "u64 list \<Rightarrow> u64 \<Rightarrow> u64 list option" where
  "safe_sort_uint64 = safe_sort"

section \<open>One exchange\<close>

lemma sort_step_comparator:
  assumes "unat a = i" "unat b = j" "i < j" "j < length input"
  shows "sort_step input a b = Some (comparator (i, j) input)"
proof -
  have "x + y - uint_min x y = max x y" "uint_min x y = min x y" for x y :: "'a word"
    by (auto simp: uint_min_def max_def min_def)
  then show ?thesis using assms by (simp add: sort_step_def comparator_def Let_def)
qed

section \<open>The places\<close>

lemma high_bits:
  assumes "x < 2 ^ (k + i)"
  shows "x AND push_bit k (mask i) = push_bit k (drop_bit k (x :: nat))"
proof -
  have "drop_bit k x < 2 ^ i" using assms by (simp add: drop_bit_eq_div less_mult_imp_div_less power_add mult.commute)
  then have "drop_bit k x AND mask i = drop_bit k x" by (simp add: take_bit_nat_eq_self flip: take_bit_eq_mask)
  moreover have "x AND push_bit k (mask i) = push_bit k (drop_bit k x AND mask i)"
    by (rule bit_eqI) (auto simp: bit_simps)
  ultimately show ?thesis by simp
qed

lemma spread_bits_nat:
  assumes "x < 2 ^ (k + i)"
  shows "(x AND mask k) OR push_bit 1 (x AND push_bit k (mask i)) = spread (2 ^ k) (x :: nat)"
proof -
  have "(x AND mask k) OR push_bit 1 (x AND push_bit k (mask i)) = take_bit k x OR push_bit (Suc k) (drop_bit k x)"
    by (simp add: take_bit_eq_mask high_bits [OF assms])
  also have "\<dots> = take_bit k x + push_bit (Suc k) (drop_bit k x)"
    by (rule disjunctive_add_eq_or [symmetric], rule bit_eqI) (simp add: bit_simps)
  also have "\<dots> = spread (2 ^ k) x"
    by (simp add: spread_def take_bit_eq_mod push_bit_eq_mult drop_bit_eq_div)
  finally show ?thesis .
qed

lemma spread_eq: "spread s u = u + s * (u div s)"
proof -
  have "s * (u div s) + u mod s = u" by simp
  then show ?thesis unfolding spread_def by linarith
qed

lemma spread_mono: "u \<le> v \<Longrightarrow> spread s u \<le> spread s v"
  unfolding spread_eq by (intro add_mono mult_le_mono2 div_le_mono)

lemma spread_half: "0 < s \<Longrightarrow> spread s (s * q) = 2 * s * q"
  by (simp add: spread_def)

lemma unat_push_bit: "push_bit n (unat w) < 2 ^ LENGTH('a) \<Longrightarrow> unat (push_bit n (w :: 'a :: len word)) = push_bit n (unat w)"
  by (simp add: unsigned_push_bit_eq take_bit_nat_eq_self)

lemma spread_u64:
  assumes "unat u < 2 ^ (k + i)" "k + i \<le> 63"
  shows "unat (spread_u64 (mask k) (push_bit k (mask i)) u) = spread (2 ^ k) (unat u)"
proof -
  let ?x = "unat u"
  have m: "unat (mask k :: u64) = mask k" "unat (push_bit k (mask i) :: u64) = push_bit k (mask i)"
    by (rule bit_eqI; use assms(2) in \<open>auto simp: bit_simps\<close>)+
  have "?x AND push_bit k (mask i) \<le> ?x" by (simp only: high_bits [OF assms(1)]) (simp add: push_bit_eq_mult drop_bit_eq_div)
  then have "unat (push_bit 1 (u AND push_bit k (mask i))) = push_bit 1 (unat (u AND push_bit k (mask i)))"
    using assms power_increasing [OF assms(2), of "2 :: nat"]
    by (intro unat_push_bit) (simp only: unsigned_and_eq m, simp add: push_bit_eq_mult)
  then have "unat (push_bit 1 (u AND push_bit k (mask i))) = push_bit 1 (?x AND push_bit k (mask i))"
    by (simp only: unsigned_and_eq m)
  then show ?thesis
    by (simp only: spread_u64_def unsigned_or_eq unsigned_and_eq m spread_bits_nat [OF assms(1)])
qed

section \<open>The loops run the network\<close>

lemma sort_loop:
  fixes xs :: "'a :: len word list"
  assumes body: "\<And>k xs. k0 \<le> k \<Longrightarrow> k \<le> N \<Longrightarrow> length (xs :: 'a word list) = m \<Longrightarrow>
      c (xs, of_nat k) = (if n \<le> hi k then Some (Inl xs) else Some (Inr (comparator (lo k, hi k) xs, of_nat (Suc k))))"
    and mono: "\<And>k l. k \<le> l \<Longrightarrow> hi k \<le> hi l" and last: "n \<le> hi N"
    and k: "k0 \<le> k" "k \<le> N" "length xs = m"
  shows "loop_c c (xs, of_nat k :: u64) = Some (network (filter (\<lambda>p. snd p < n) (map (\<lambda>u. (lo u, hi u)) [k..<N])) xs)"
  using k
proof (induction "N - k" arbitrary: k xs)
  case 0
  then show ?case using body [of N xs] last by (simp add: loop_c.simps)
next
  case (Suc d)
  then have kN: "k < N" by simp
  show ?case
  proof (cases "n \<le> hi k")
    case True
    then have "filter (\<lambda>p. snd p < n) (map (\<lambda>u. (lo u, hi u)) [k..<N]) = []"
      using mono by (force simp: filter_empty_conv intro: order_trans)
    then show ?thesis using body [of k xs] True Suc.prems by (simp add: loop_c.simps)
  next
    case False
    have "loop_c c (xs, of_nat k) = loop_c c (comparator (lo k, hi k) xs, of_nat (Suc k))"
      using body [of k xs] False Suc.prems by (simp add: loop_c.simps [of c "(xs, of_nat k)"])
    also have "\<dots> = Some (network (filter (\<lambda>p. snd p < n) (map (\<lambda>u. (lo u, hi u)) [Suc k..<N])) (comparator (lo k, hi k) xs))"
      by (rule Suc.hyps(1)) (use Suc.hyps(2) Suc.prems kN in simp_all)
    finally show ?thesis using False kN by (simp add: upt_conv_Cons)
  qed
qed

text \<open>The last place of a round: \<open>L\<close> is \<open>len_log2\<close>.\<close>

lemma spread_last: "1 \<le> i \<Longrightarrow> i \<le> L \<Longrightarrow> spread (2 ^ (L - i)) (2 ^ (L - 1)) = 2 ^ L"
proof -
  assume i: "1 \<le> i" "i \<le> L"
  have "spread (2 ^ (L - i)) (2 ^ (L - 1)) = 2 * 2 ^ (L - 1)"
    using spread_half [of "2 ^ (L - i)" "2 ^ (i - 1)"] unfolding mult.assoc round_sizes(1) [OF i] by simp
  also have "\<dots> = 2 ^ L" using i by (simp flip: power_Suc)
  finally show ?thesis .
qed

lemma spread_le: "1 \<le> i \<Longrightarrow> i \<le> L \<Longrightarrow> u \<le> 2 ^ (L - 1) \<Longrightarrow> spread (2 ^ (L - i)) u \<le> 2 ^ L"
  using spread_mono [of u "2 ^ (L - 1)" "2 ^ (L - i)"] spread_last [of i L] by simp

lemma power_le_u64: "L \<le> 63 \<Longrightarrow> 2 ^ L \<le> (9223372036854775808 :: nat)"
  using power_increasing [of L 63 "2 :: nat"] by simp

lemma unat_of_nat_le: "u \<le> 2 ^ 63 \<Longrightarrow> unat (of_nat u :: u64) = u"
  by (simp add: unsigned_of_nat take_bit_nat_eq_self)

lemma shift_one: "k < 64 \<Longrightarrow> shift_u64 v k = Some (push_bit (unat k) v)"
  by (simp add: shift_u64_def)

lemma unat_two_power_u64: "k < 64 \<Longrightarrow> unat (2 ^ k :: u64) = 2 ^ k"
  using unat_push_bit [of k "1 :: u64"] power_strict_increasing [of k 64 "2 :: nat"] by simp

text \<open>A place as a word and as a number.\<close>

lemma place_u64:
  assumes i: "1 \<le> i" "i \<le> L" and L: "L \<le> 63" and u: "u \<le> 2 ^ (L - 1)"
  shows "unat (spread_u64 (mask (L - i)) (push_bit (L - i) (mask i)) (of_nat u)) = spread (2 ^ (L - i)) u"
    "spread (2 ^ (L - i)) u \<le> 9223372036854775808" "unat (of_nat u :: u64) = u"
proof -
  have L63: "2 ^ L \<le> (9223372036854775808 :: nat)" using L by (rule power_le_u64)
  have "2 * 2 ^ (L - 1) = (2 ^ L :: nat)" using i by (simp flip: power_Suc)
  moreover have "0 < (2 ^ (L - 1) :: nat)" by simp
  ultimately have uL: "u < 2 ^ L" using u by linarith
  then show un: "unat (of_nat u :: u64) = u" using L63 by (intro unat_of_nat_le) simp
  show "unat (spread_u64 (mask (L - i)) (push_bit (L - i) (mask i)) (of_nat u)) = spread (2 ^ (L - i)) u"
    using spread_u64 [of "of_nat u" "L - i" i] i L uL un by simp
  show "spread (2 ^ (L - i)) u \<le> 9223372036854775808" using spread_le [OF i u] L63 by linarith
qed

lemma shift_one_u64:
  assumes "unat k = n" "n < 64"
  shows "shift_u64 1 k = Some (2 ^ n)" "unat (2 ^ n :: u64) = 2 ^ n"
  using assms unat_two_power_u64 [of n] by (simp_all add: shift_u64_def word_less_nat_alt)

lemma first_loop:
  fixes input :: "'a :: len word list"
  assumes i: "1 \<le> unat i" "unat i \<le> unat L" and L: "unat L \<le> 63" and len: "unat len \<le> 2 ^ unat L" "unat len \<le> length input"
  shows "sort_first_loop len L i (mask (unat L - unat i)) (push_bit (unat L - unat i) (mask (unat i))) input =
    Some (network (filter (\<lambda>p. snd p < unat len) (first_pass (unat L) (unat i))) input)"
proof -
  let ?k = "unat L - unat i" and ?N = "2 ^ (unat L - 1) :: nat"
  let ?s = "2 ^ ?k :: nat"
  let ?hi = "\<lambda>u. spread ?s u + ?s"
  have Li: "unat (L - i) = ?k" using i by (simp add: unat_sub word_le_nat_alt)
  have k: "?k < 64" using i L by simp
  note sh = shift_one_u64 [OF Li k]
  have s63: "?s \<le> 4611686018427387904" using power_increasing [of ?k 62 "2 :: nat"] i L by simp
  have "loop_c (\<lambda>(input, u). do {
       let offset1 = spread_u64 (mask ?k) (push_bit ?k (mask (unat i))) u;
       d \<leftarrow> shift_u64 1 (L - i);
       let offset2 = offset1 + d;
       if len \<le> offset2 then Some (Inl input)
       else do {
         input' \<leftarrow> sort_step input offset1 offset2;
         Some (Inr (input', u + 1)) } }) (input, of_nat 0) =
      Some (network (filter (\<lambda>p. snd p < unat len) (map (\<lambda>u. (spread ?s u, ?hi u)) [0..<?N])) input)"
  proof (rule sort_loop [where k0 = 0 and m = "length input"])
    fix u and xs :: "'a word list"
    assume u: "u \<le> ?N" and xs: "length xs = length input"
    let ?o = "spread_u64 (mask ?k) (push_bit ?k (mask (unat i))) (of_nat u)"
    note p = place_u64 [OF i L u]
    have "?hi u < 18446744073709551616" using p(2) s63 by linarith
    then have o2: "unat (?o + 2 ^ ?k) = ?hi u" by (simp add: unat_word_ariths p(1) sh(2))
    then show "(case (xs, of_nat u) of (input, u) \<Rightarrow> do {
       let offset1 = spread_u64 (mask ?k) (push_bit ?k (mask (unat i))) u;
       d \<leftarrow> shift_u64 1 (L - i);
       let offset2 = offset1 + d;
       if len \<le> offset2 then Some (Inl input)
       else do {
         input' \<leftarrow> sort_step input offset1 offset2;
         Some (Inr (input', u + 1)) } }) =
      (if unat len \<le> ?hi u then Some (Inl xs) else Some (Inr (comparator (spread ?s u, ?hi u) xs, of_nat (Suc u))))"
      using sort_step_comparator [OF p(1) o2, of xs] len(2) xs by (simp add: Let_def sh(1) word_le_nat_alt add.commute)
  next
    show "unat len \<le> ?hi ?N" using len(1) spread_last [OF i] by simp
  qed (simp_all add: spread_mono)
  then show ?thesis by (simp add: sort_first_loop_def first_pass_def)
qed

lemma later_loop:
  fixes input :: "'a :: len word list"
  assumes i: "1 \<le> unat i" "unat i \<le> unat L" and t: "1 \<le> unat t" "unat t < unat i"
    and L: "unat L \<le> 63" and len: "unat len \<le> 2 ^ unat L" "unat len \<le> length input"
  shows "sort_later_loop len L i (mask (unat L - unat i)) (push_bit (unat L - unat i) (mask (unat i))) t input =
    Some (network (filter (\<lambda>p. snd p < unat len) (later_pass (unat L) (unat i) (unat t))) input)"
proof -
  let ?k = "unat L - unat i" and ?N = "2 ^ (unat L - 1) :: nat" and ?k' = "unat L - unat t"
  let ?s = "2 ^ ?k :: nat" and ?e = "2 ^ ?k' :: nat" and ?start = "2 ^ (?k' - 1) :: nat"
  let ?lo = "\<lambda>u. spread ?s u + ?s - ?e"
  have Li: "unat (L - i) = ?k" "unat (L - t) = ?k'" using i t by (simp_all add: unat_sub word_le_nat_alt)
  then have Lt: "unat (L - t - 1) = ?k' - 1" using i t by (subst unat_sub) (simp_all add: word_le_nat_alt)
  have k: "?k < 64" "?k' < 64" "?k' - 1 < 64" using i L by simp_all
  note sh = shift_one_u64 [OF Li(1) k(1)] and sh' = shift_one_u64 [OF Li(2) k(2)] and sh0 = shift_one_u64 [OF Lt k(3)]
  have s63: "?s \<le> 4611686018427387904" using power_increasing [of ?k 62 "2 :: nat"] i L by simp
  have "?k' = Suc (?k' - 1)" using i t by simp
  then have e2: "?e = 2 * ?start" by (metis power_Suc)
  have kN: "?start \<le> ?N" by (intro power_increasing) simp_all
  have "loop_c (\<lambda>(input, u). do {
       let offset2 = spread_u64 (mask ?k) (push_bit ?k (mask (unat i))) u;
       d \<leftarrow> shift_u64 1 (L - i);
       e \<leftarrow> shift_u64 1 (L - t);
       let offset1 = offset2 + d - e;
       if len \<le> offset2 then Some (Inl input)
       else do {
         input' \<leftarrow> sort_step input offset1 offset2;
         Some (Inr (input', u + 1)) } }) (input, of_nat ?start) =
      Some (network (filter (\<lambda>p. snd p < unat len) (map (\<lambda>u. (?lo u, spread ?s u)) [?start..<?N])) input)"
  proof (rule sort_loop [where k0 = ?start and m = "length input"])
    fix u and xs :: "'a word list"
    assume u0: "?start \<le> u" and u: "u \<le> ?N" and xs: "length xs = length input"
    let ?o = "spread_u64 (mask ?k) (push_bit ?k (mask (unat i))) (of_nat u)"
    note p = place_u64 [OF i L u]
    have "spread ?s u + ?s < 18446744073709551616" using p(2) s63 by linarith
    then have o1: "unat (?o + 2 ^ ?k) = spread ?s u + ?s" by (simp add: unat_word_ariths p(1) sh(2))
    have "u = ?s * (u div ?s) + u mod ?s" "u mod ?s < ?s" by simp_all
    then have "?e \<le> spread ?s u + ?s" unfolding spread_eq e2 using u0 by linarith
    then have o1: "unat (?o + 2 ^ ?k - 2 ^ ?k') = ?lo u" by (subst unat_sub) (simp_all add: word_le_nat_alt o1 sh'(2))
    have "?s < ?e" using i t by simp
    moreover have "0 < spread ?s u" using u0 by (auto simp: spread_eq intro: less_le_trans [of 0 ?start])
    ultimately have "?lo u < spread ?s u" by linarith
    then show "(case (xs, of_nat u) of (input, u) \<Rightarrow> do {
       let offset2 = spread_u64 (mask ?k) (push_bit ?k (mask (unat i))) u;
       d \<leftarrow> shift_u64 1 (L - i);
       e \<leftarrow> shift_u64 1 (L - t);
       let offset1 = offset2 + d - e;
       if len \<le> offset2 then Some (Inl input)
       else do {
         input' \<leftarrow> sort_step input offset1 offset2;
         Some (Inr (input', u + 1)) } }) =
      (if unat len \<le> spread ?s u then Some (Inl xs) else Some (Inr (comparator (?lo u, spread ?s u) xs, of_nat (Suc u))))"
      using sort_step_comparator [OF o1 p(1), of xs] len(2) xs
      by (simp add: Let_def sh(1) sh'(1) word_le_nat_alt p(1) add.commute)
  next
    show "unat len \<le> spread ?s ?N" using len(1) spread_last [OF i] by simp
  qed (use kN in \<open>simp_all add: spread_mono\<close>)
  then show ?thesis by (simp add: sort_later_loop_def sh0(1) later_pass_def)
qed

lemma while_count:
  assumes step: "\<And>k x. k0 \<le> k \<Longrightarrow> k < N \<Longrightarrow> length x = m \<Longrightarrow> c (x, of_nat k) = Some (f k x, of_nat (Suc k)) \<and> length (f k x) = m"
    and cond: "\<And>k x. k \<le> N \<Longrightarrow> b (x, of_nat k) \<longleftrightarrow> k < N"
    and k: "k0 \<le> k" "k \<le> N" "length x = m"
  shows "while_c b c (x :: 'a list, of_nat k :: u32) = Some (fold f [k..<N] x, of_nat N)"
  using k
proof (induction "N - k" arbitrary: k x)
  case 0
  then show ?case using cond [of k x] by (simp add: while_c.simps)
next
  case (Suc d)
  then have kN: "k < N" by simp
  then have "while_c b c (x, of_nat k) = while_c b c (f k x, of_nat (Suc k))"
    using cond [of k x] step [of k x] Suc.prems by (simp add: while_c.simps [of b c "(x, of_nat k)"])
  also have "\<dots> = Some (fold f [Suc k..<N] (f k x), of_nat N)"
    by (rule Suc.hyps(1)) (use Suc.hyps(2) Suc.prems kN step [of k x] in simp_all)
  finally show ?case using kN by (simp add: upt_conv_Cons)
qed

lemma fold_network: "fold (\<lambda>k. network (filter P (g k))) ks xs = network (filter P (concat (map g ks))) xs"
  by (induction ks arbitrary: xs) simp_all

lemma unat_of_nat_u32: "k \<le> 64 \<Longrightarrow> unat (of_nat k :: u32) = k"
  by (simp add: unsigned_of_nat take_bit_nat_eq_self)

lemma sort_round_ok:
  fixes input :: "'a :: len word list"
  assumes i: "1 \<le> unat i" "unat i \<le> unat L" and L: "unat L \<le> 63" and len: "unat len \<le> 2 ^ unat L" "unat len \<le> length input"
  shows "sort_round_loop len L i input =
    Some (network (filter (\<lambda>p. snd p < unat len) (sort_round (unat L) (unat i))) input)"
proof -
  let ?k = "unat L - unat i" and ?P = "\<lambda>p :: nat \<times> nat. snd p < unat len"
  let ?f = "\<lambda>t. network (filter ?P (later_pass (unat L) (unat i) t)) :: 'a word list \<Rightarrow> _"
  define m1 :: u64 where "m1 = mask ?k"
  define m2 :: u64 where "m2 = push_bit ?k (mask (unat i))"
  let ?x = "network (filter ?P (first_pass (unat L) (unat i))) input"
  have Li: "unat (L - i) = ?k" using i by (simp add: unat_sub word_le_nat_alt)
  have k: "?k < 64" "unat i < 64" using i L by simp_all
  have sh: "shift_u64 1 (L - i) = Some (2 ^ ?k)" "shift_u64 1 i = Some (2 ^ unat i)" "shift_u64 v (L - i) = Some (push_bit ?k v)" for v
    using shift_one_u64(1) [OF Li k(1)] shift_one_u64(1) [OF refl k(2)] k Li by (simp_all add: shift_u64_def word_less_nat_alt)
  have masks: "2 ^ ?k - 1 = m1" "push_bit ?k (2 ^ unat i - 1) = m2" by (simp_all add: m1_def m2_def mask_eq_exp_minus_1)
  have "while_c (\<lambda>(input, t). t < i) (\<lambda>(input, t). do {
       input \<leftarrow> sort_later_loop len L i m1 m2 t input;
       Some (input, t + 1) }) (?x, of_nat 1) = Some (fold ?f [1..<unat i] ?x, of_nat (unat i))"
  proof (rule while_count [where k0 = 1 and m = "length input"])
    fix t and xs :: "'a word list"
    assume t: "1 \<le> t" "t < unat i" and xs: "length xs = length input"
    have "unat (of_nat t :: u32) = t" using t k by (intro unat_of_nat_u32) simp
    then show "(case (xs, of_nat t) of (input, t) \<Rightarrow> do {
       input \<leftarrow> sort_later_loop len L i m1 m2 t input;
       Some (input, t + 1) }) = Some (?f t xs, of_nat (Suc t)) \<and> length (?f t xs) = length input"
      using later_loop [of i L "of_nat t" len xs] i L len xs t by (simp add: m1_def m2_def add.commute)
  next
    fix t and xs :: "'a word list"
    assume "t \<le> unat i"
    then have "unat (of_nat t :: u32) = t" using k by (intro unat_of_nat_u32) simp
    then show "(case (xs, of_nat t) of (input, t) \<Rightarrow> t < i) \<longleftrightarrow> t < unat i" by (simp add: word_less_nat_alt)
  qed (use i in simp_all)
  then show ?thesis
    using first_loop [OF assms] by (simp add: sort_round_loop_def sh masks Let_def fold_network sort_round_def m1_def [symmetric] m2_def [symmetric])
qed

section \<open>Sorting\<close>

lemma nat_less_exp_bits:
  assumes "\<And>j. k \<le> j \<Longrightarrow> \<not> bit x j"
  shows "(x :: nat) < 2 ^ k"
proof -
  have "take_bit k x = x" using assms by (intro bit_eqI) (metis bit_take_bit_iff not_le)
  then show ?thesis by (metis take_bit_nat_less_exp)
qed

lemma nat_bit_le: "bit (x :: nat) j \<Longrightarrow> 2 ^ j \<le> x"
  by (metis bit_take_bit_iff less_irrefl not_le take_bit_nat_eq_self)

lemma ceil_log2:
  assumes "1 < len" "unat len \<le> 2 ^ 63"
  shows "unat len \<le> 2 ^ unat (64 - count_leading_zeros_u64 (len - 1))" "unat (64 - count_leading_zeros_u64 (len - 1)) \<le> 63"
proof -
  let ?v = "len - 1" and ?c = "count_leading_zeros_u64 (len - 1)"
  let ?j = "seek_down (bit ?v) 64 0"
  have v0: "?v \<noteq> 0" using assms(1) by auto
  note c = clz_eq [OF v0]
  have v: "unat ?v = unat len - 1" using assms(1) by (intro unat_minus_one) auto
  have "2 ^ ?j \<le> unat ?v" using c(3) by (intro nat_bit_le) (simp add: bit_unsigned_iff)
  also have "\<dots> < 2 ^ 63" unfolding v using assms by (simp add: word_less_nat_alt)
  finally have "?j < 63" by (rule power_less_imp_less_exp [rotated]) simp
  define w where "w = 63 - ?c"
  have "w + 1 = 64 - ?c" by (simp add: w_def)
  moreover have "unat (w + 1) = ?j + 1" using c(1) \<open>?j < 63\<close> unfolding w_def [symmetric] by (simp add: unat_word_ariths)
  ultimately have L: "unat (64 - ?c) = ?j + 1" by (simp only:)
  then show "unat (64 - ?c) \<le> 63" using \<open>?j < 63\<close> by simp
  have "unat ?v < 2 ^ (?j + 1)" by (rule nat_less_exp_bits) (use c(4) in \<open>simp add: bit_unsigned_iff\<close>)
  then show "unat len \<le> 2 ^ unat (64 - ?c)" unfolding L v by linarith
qed

lemma safe_sort_ok:
  fixes input :: "'a :: len word list"
  assumes "1 < len" "unat len \<le> 2 ^ 63" "unat len \<le> length input"
  obtains L where "unat len \<le> 2 ^ L" "safe_sort input len = Some (network (filter (\<lambda>p. snd p < unat len) (merge_exchange L)) input)"
proof -
  define L where "L = 64 - count_leading_zeros_u64 (len - 1)"
  let ?P = "\<lambda>p :: nat \<times> nat. snd p < unat len"
  let ?f = "\<lambda>i. network (filter ?P (sort_round (unat L) i)) :: 'a word list \<Rightarrow> _"
  have len: "unat len \<le> 2 ^ unat L" and L: "unat L \<le> 63" unfolding L_def by (rule ceil_log2 [OF assms(1,2)])+
  have "while_c (\<lambda>(input, i). i \<le> L) (\<lambda>(input, i). do {
          input \<leftarrow> sort_round_loop len L i input;
          Some (input, i + 1) }) (input, of_nat 1) = Some (fold ?f [1..<Suc (unat L)] input, of_nat (Suc (unat L)))"
  proof (rule while_count [where k0 = 1 and m = "length input"])
    fix i and xs :: "'a word list"
    assume i: "1 \<le> i" "i < Suc (unat L)" and xs: "length xs = length input"
    have "unat (of_nat i :: u32) = i" using i L by (intro unat_of_nat_u32) simp
    then show "(case (xs, of_nat i) of (input, i) \<Rightarrow> do {
          input \<leftarrow> sort_round_loop len L i input;
          Some (input, i + 1) }) = Some (?f i xs, of_nat (Suc i)) \<and> length (?f i xs) = length input"
      using sort_round_ok [of "of_nat i" L len xs] i L len assms(3) xs by (simp add: add.commute)
  next
    fix i and xs :: "'a word list"
    assume "i \<le> Suc (unat L)"
    then have "unat (of_nat i :: u32) = i" using L by (intro unat_of_nat_u32) simp
    then show "(case (xs, of_nat i) of (input, i) \<Rightarrow> i \<le> L) \<longleftrightarrow> i < Suc (unat L)" by (simp add: word_le_nat_alt less_Suc_eq_le)
  qed simp_all
  then have "safe_sort input len = Some (network (filter ?P (merge_exchange (unat L))) input)"
    using assms(1) by (auto simp: safe_sort_def L_def [symmetric] fold_network merge_exchange_def Let_def)
  then show thesis using that len by blast
qed

lemma network_append: "inside (length xs) ps \<Longrightarrow> network ps (xs @ ys) = network ps xs @ ys"
proof (induction ps arbitrary: xs)
  case (Cons p ps)
  have "comparator p (xs @ ys) = comparator p xs @ ys"
    using Cons.prems by (simp add: comparator_def split_beta nth_append list_update_append)
  then show ?case using Cons.prems Cons.IH [of "comparator p xs"] by simp
qed simp

lemma safe_sort_run:
  fixes input :: "'a :: len word list"
  assumes "1 < len" "unat len \<le> 2 ^ 63" "unat len \<le> length input"
  shows "\<exists>output. safe_sort input len = Some output \<and> sorted (take (unat len) output) \<and>
    mset (take (unat len) output) = mset (take (unat len) input) \<and> drop (unat len) output = drop (unat len) input"
proof -
  obtain L where L: "unat len \<le> 2 ^ L" and s: "safe_sort input len = Some (network (filter (\<lambda>p. snd p < unat len) (merge_exchange L)) input)"
    by (rule safe_sort_ok [OF assms])
  let ?ps = "filter (\<lambda>p. snd p < unat len) (merge_exchange L)" and ?xs = "take (unat len) input"
  have ps: "inside (unat len) ?ps" using merge_exchange_less [of L] by (auto simp: inside_def split_beta)
  have "network ?ps input = network ?ps ?xs @ drop (unat len) input" 
    using network_append [of ?xs ?ps "drop (unat len) input"] ps assms(3) by simp
  moreover have "sorted (network ?ps ?xs)" using merge_exchange_sorts [of ?xs L] assms(3) L by simp
  moreover have "mset (network ?ps ?xs) = mset ?xs" using mset_network [of ?xs ?ps] ps assms(3) by simp
  ultimately show ?thesis using s assms(3) by simp
qed

text \<open>C28: for \<open>1 < len \<le> 2^63\<close> and an array of at least \<open>len\<close> elements, \<open>safe_sort\<close> neither faults
  nor runs forever; the first \<open>len\<close> elements become a sorted permutation of what they were and the
  others are left alone.\<close>

theorem safe_sort_sorts:
  fixes input :: "'a :: len word list"
  assumes "1 < len" "unat len \<le> 2 ^ 63" "unat len \<le> length input"
  shows "\<exists>output. safe_sort input len = Some output \<and> sorted (take (unat len) output) \<and>
    mset (take (unat len) output) = mset (take (unat len) input) \<and> drop (unat len) output = drop (unat len) input"
  by (rule safe_sort_run [OF assms])

lemma safe_sort_sorts_witness:
  "\<exists>output. safe_sort_uint32 [5, 3, 9, 3, 7] 4 = Some output \<and> sorted (take 4 output) \<and> mset (take 4 output) = {#3, 3, 5, 9#} \<and> drop 4 output = [7]"
  using safe_sort_sorts [of 4 "[5, 3, 9, 3, 7 :: u32]"] by (simp add: safe_sort_uint32_def add_mset_commute)

end
