(* ===== verification/NtruShort.thy ===== *)
theory NtruShort
  imports NtruMultOk Sponge Sort
begin

text \<open>
  Random polynomials of NTRU LPRime: \<open>ntrulpr_653_expand_seed\<close> and \<open>ntrulpr_653_hashshort\<close> of
  \<open>src/crypto/pk/ntru_lprime/utility.c\<close>.  The Keccak permutation and the AES functions are
  parameters; so is what the local arrays hold before they are written, in the first words, halfwords
  and bytes of these lists.
\<close>

section \<open>The functions\<close>

record ntru_env =
  keccak_p_1600_permute :: perm
  aes256_expandkey :: "u8 list \<Rightarrow> u8 list"
  aes256_encrypt_one_block :: "u8 list \<Rightarrow> u8 list \<Rightarrow> u8 list"
  local_words :: "u32 list"
  local_halves :: "u16 list"
  local_bytes :: "u8 list"

text \<open>Words as bytes in memory, the lowest first.\<close>

definition bytes_of_u32 :: "u32 \<Rightarrow> u8 list" where
  "bytes_of_u32 w = map (\<lambda>k. ucast (drop_bit (8 * k) w)) [0..<4]"

definition u32_of_bytes :: "u8 list \<Rightarrow> u32" where
  "u32_of_bytes bs = foldr (\<lambda>b w. ucast b OR push_bit 8 w) bs 0"

definition words_of_bytes :: "nat \<Rightarrow> u8 list \<Rightarrow> u32 list" where
  "words_of_bytes n bs = map (\<lambda>k. u32_of_bytes (take 4 (drop (4 * k) bs))) [0..<n]"

text \<open>Four words come from one block in counter mode.  Until the first block, \<open>aes_out\<close> holds nothing.\<close>

definition next_block :: "ntru_env \<Rightarrow> u8 list \<Rightarrow> u32 \<Rightarrow> u32 list \<times> u32 list \<Rightarrow> (u32 list \<times> u32 list) option" where
  "next_block env aes_exkey i = (\<lambda>(aes_in, aes_out).
     if i AND 0x03 = 0 then do {
       let aes_out = words_of_bytes 4 (aes256_encrypt_one_block env aes_exkey (concat (map bytes_of_u32 aes_in)));
       x \<leftarrow> rd aes_in 0;
       aes_in \<leftarrow> wr aes_in 0 (x + 1);
       Some (aes_in, aes_out) }
     else Some (aes_in, aes_out))"

definition expand_coeff :: "u32 \<Rightarrow> u32" where
  "expand_coeff x =
     (let div1 = ucast (drop_bit 43 (ucast x * 1903504225 :: u64)) :: u32;
          y = x - div1 * NTRU_LPR_Q
      in uint32_cmp_ge_branch y ((NTRU_LPR_Q - 1) div 2) (y - (NTRU_LPR_Q - 1) div 2) (y + (NTRU_LPR_Q + 1) div 2))"

definition expand_words :: "ntru_env \<Rightarrow> u8 list \<Rightarrow> (u32 \<Rightarrow> u32) \<Rightarrow> u32 list \<Rightarrow> u32 list option" where
  "expand_words env aes_exkey f poly = do {
     (aes_in, aes_out, poly) \<leftarrow> for_up 0 NTRU_LPR_P (\<lambda>i (aes_in, aes_out, poly). do {
         (aes_in, aes_out) \<leftarrow> next_block env aes_exkey i (aes_in, aes_out);
         x \<leftarrow> rd aes_out (i AND 0x03);
         poly \<leftarrow> wr poly i (f x);
         Some (aes_in, aes_out, poly) }) ([0, 0, 0, 0], [], poly);
     Some poly }"

definition ntrulpr_653_expand_seed :: "ntru_env \<Rightarrow> u8 list \<Rightarrow> u16 list \<Rightarrow> u16 list option" where
  "ntrulpr_653_expand_seed env seed out_g = do {
     seed \<leftarrow> copy_items seed 32;
     poly \<leftarrow> expand_words env (aes256_expandkey env seed) expand_coeff (local_words env);
     for_up 0 NTRU_LPR_P (\<lambda>i out_g. do { x \<leftarrow> rd poly i; wr out_g i (ucast x) }) out_g }"

text \<open>One hash: pieces of a message are absorbed in turn, then the result of \<open>n\<close> bytes is squeezed.\<close>

fun absorb_pieces :: "perm \<Rightarrow> u32 \<Rightarrow> u8 list \<times> u32 \<Rightarrow> (u8 list \<times> u64) list \<Rightarrow> (u8 list \<times> u32) option" where
  "absorb_pieces permute rate (state, off) [] = Some (state, off)"
| "absorb_pieces permute rate (state, off) ((data, len) # ps) = do {
     (state, off) \<leftarrow> sponge_keccak_1600_absorb permute state off data len rate;
     absorb_pieces permute rate (state, off) ps }"

definition ntru_hash :: "ntru_env \<Rightarrow> (u8 list \<times> u64) list \<Rightarrow> u8 list option" where
  "ntru_hash env ps = do {
     (state, curr_offset) \<leftarrow> absorb_pieces (keccak_p_1600_permute env) 72 (replicate 200 0, 0) ps;
     state \<leftarrow> sponge_keccak_1600_finalize (keccak_p_1600_permute env) state curr_offset (2 + 4) 72;
     (state, curr_offset, out) \<leftarrow> sponge_keccak_1600_squeeze (keccak_p_1600_permute env) state 0 32 72;
     Some out }"

definition clear_bottom :: "u32 \<Rightarrow> u32 list \<Rightarrow> u32 list option" where
  "clear_bottom i poly = do { x \<leftarrow> rd poly i; wr poly i (x AND NOT 1) }"

definition set_bottom :: "u32 \<Rightarrow> u32 list \<Rightarrow> u32 list option" where
  "set_bottom i poly = do { x \<leftarrow> rd poly i; wr poly i ((x OR 1) AND NOT 2) }"

definition pack_coeff :: "u32 list \<Rightarrow> u32 \<Rightarrow> u8 list \<Rightarrow> u8 list option" where
  "pack_coeff poly i out = do {
     x \<leftarrow> rd poly i;
     let coeff = x AND 0x03;
     b \<leftarrow> rd out (drop_bit 2 i);
     wr out (drop_bit 2 i) (b OR ucast (push_bit (unat (2 * (i AND 0x03))) coeff)) }"

definition NTRU_LPR_W :: u32 where "NTRU_LPR_W = 252"

definition NTRU_LPR_SHORT_ENC_LEN :: u32 where "NTRU_LPR_SHORT_ENC_LEN = (NTRU_LPR_P - 1) div 4 + 1"

definition ntrulpr_653_hashshort :: "ntru_env \<Rightarrow> u8 list \<Rightarrow> u8 list \<Rightarrow> u8 list option" where
  "ntrulpr_653_hashshort env input out = do {
     hash_out \<leftarrow> ntru_hash env [([5], 1), (input, 32)];
     poly \<leftarrow> expand_words env (aes256_expandkey env hash_out) (\<lambda>x. x) (local_words env);
     poly \<leftarrow> for_up 0 NTRU_LPR_W clear_bottom poly;
     poly \<leftarrow> for_up NTRU_LPR_W NTRU_LPR_P set_bottom poly;
     poly \<leftarrow> safe_sort_uint32 poly 653;
     out \<leftarrow> zero_items out NTRU_LPR_SHORT_ENC_LEN;
     for_up 0 NTRU_LPR_P (pack_coeff poly) out }"

section \<open>Hashing succeeds\<close>

definition env_ok :: "ntru_env \<Rightarrow> bool" where
  "env_ok env \<longleftrightarrow> (\<forall>s. length s = 200 \<longrightarrow> length (keccak_p_1600_permute env s) = 200) \<and>
    length (local_words env) = 653 \<and> length (local_halves env) = 653 \<and> length (local_bytes env) = 1025"

lemma env_sponge: "env_ok env \<Longrightarrow> sponge_ok (keccak_p_1600_permute env) (unat (72 :: u32))"
  by (simp add: env_ok_def sponge_ok_def)

lemma absorb_pieces_ok:
  assumes p: "sponge_ok permute (unat rate)"
  shows "length state = 200 \<Longrightarrow> unat off < unat rate \<Longrightarrow> \<forall>(d, n) \<in> set ps. unat n \<le> length d \<Longrightarrow>
    \<exists>s' off'. absorb_pieces permute rate (state, off) ps = Some (s', off') \<and> length s' = 200 \<and> unat off' < unat rate \<and>
      (s', unat off') = absorb_bytes permute (unat rate) (state, unat off) (concat (map (\<lambda>(d, n). take (unat n) d) ps))"
proof (induction ps arbitrary: state off)
  case (Cons p ps)
  obtain d n where dn: "p = (d, n)" by (cases p)
  have n: "unat n \<le> length d" using Cons.prems(3) dn by auto
  obtain s1 o1 where 1: "sponge_keccak_1600_absorb permute state off d n rate = Some (s1, o1)"
    "(s1, unat o1) = absorb_bytes permute (unat rate) (state, unat off) (take (unat n) d)"
    using absorb_eq [OF p Cons.prems(1,2) n] by blast
  have "length s1 = 200 \<and> unat o1 < unat rate"
    using absorb_bytes_ok [OF p, of "(state, unat off)" "take (unat n) d"] Cons.prems(1,2) 1(2) [symmetric] by simp
  then obtain s' off' where "absorb_pieces permute rate (s1, o1) ps = Some (s', off')" "length s' = 200" "unat off' < unat rate"
    "(s', unat off') = absorb_bytes permute (unat rate) (s1, unat o1) (concat (map (\<lambda>(d, n). take (unat n) d) ps))"
    using Cons.IH [of s1 o1] Cons.prems(3) by auto
  then show ?case using 1 dn by (simp add: absorb_append)
qed (simp add: absorb_bytes_def)

lemma ntru_hash_ok:
  assumes "env_ok env" "\<forall>(d, n) \<in> set ps. unat n \<le> length d"
  shows "\<exists>h. ntru_hash env ps = Some h \<and> length h = 32"
proof -
  note p = env_sponge [OF assms(1)]
  obtain s1 o1 where 1: "absorb_pieces (keccak_p_1600_permute env) 72 (replicate 200 0, 0) ps = Some (s1, o1)"
    "length s1 = 200" "unat o1 < unat (72 :: u32)" using absorb_pieces_ok [OF p, of "replicate 200 0" 0 ps] assms(2) by auto
  have "(6 :: u8) AND 128 = 0" by simp
  then obtain s2 where 2: "sponge_keccak_1600_finalize (keccak_p_1600_permute env) s1 o1 6 72 = Some s2" "length s2 = 200"
    using finalize_eq [OF p 1(2,3)] assms(1) 1(2) by (auto simp: env_ok_def Let_def)
  obtain s3 o3 h where 3: "sponge_keccak_1600_squeeze (keccak_p_1600_permute env) s2 0 32 72 = Some (s3, o3, h)"
    "((s3, unat o3), h) = squeeze_bytes (keccak_p_1600_permute env) (unat (72 :: u32)) (s2, unat (0 :: u32)) (unat (32 :: u64))"
    using squeeze_eq [OF p 2(2), of 0 32] by auto
  have "length h = length (snd (squeeze_bytes (keccak_p_1600_permute env) (unat (72 :: u32)) (s2, unat (0 :: u32)) (unat (32 :: u64))))"
    unfolding 3(2) [symmetric] snd_conv ..
  then have "length h = 32" unfolding squeeze_length by simp
  then show ?thesis using 1(1) 2(1) 3(1) by (simp add: ntru_hash_def)
qed

section \<open>Expanded words\<close>

lemma unat_and_3: "unat (x AND 0x03 :: u32) = unat x mod 4"
proof -
  have "x AND 0x03 = take_bit 2 x" by (simp add: take_bit_eq_mask mask_eq_exp_minus_1)
  then have "unat (x AND 0x03) = take_bit 2 (unat x)" by (simp only: unsigned_take_bit_eq)
  then show ?thesis by (simp add: take_bit_eq_mod)
qed

lemma expand_words_ok:
  assumes "length poly = 653"
  shows "\<exists>poly'. expand_words env exkey f poly = Some poly' \<and> length poly' = 653 \<and> (\<forall>k < 653. \<exists>x. poly' ! k = f x)"
proof -
  let ?body = "\<lambda>i (aes_in, aes_out, poly). do {
         (aes_in, aes_out) \<leftarrow> next_block env exkey i (aes_in, aes_out);
         x \<leftarrow> rd aes_out (i AND 0x03);
         poly \<leftarrow> wr poly i (f x);
         Some (aes_in, aes_out, poly) }"
  let ?I = "\<lambda>m (aes_in :: u32 list, aes_out :: u32 list, poly'). length aes_in = 4 \<and> (m \<noteq> 0 \<longrightarrow> length aes_out = 4) \<and> length poly' = 653 \<and>
    (\<forall>k < m. \<exists>x. poly' ! k = f x)"
  have u: "unat NTRU_LPR_P = 653" by (simp add: NTRU_LPR_P_def)
  have "\<exists>s. up 653 (\<lambda>k. ?body (of_nat k)) ([0, 0, 0, 0], [], poly) = Some s \<and> ?I 653 s"
  proof (rule up_inv [where I = ?I])
    fix k s assume k: "k < 653" and I: "?I k s"
    obtain ai ao p where s: "s = (ai, ao, p)" by (metis prod_cases3)
    have uk: "unat (of_nat k :: u32) = k" using k by (simp add: unat_of_nat_small)
    then have u3: "unat (of_nat k AND 0x03 :: u32) = k mod 4" "unat (of_nat k AND 0x03 :: u32) < 4" by (simp_all add: unat_and_3)
    obtain ai' ao' where b: "next_block env exkey (of_nat k) (ai, ao) = Some (ai', ao')" "length ai' = 4" "length ao' = 4"
    proof (cases "of_nat k AND 0x03 = (0 :: u32)")
      case True
      have "ai \<noteq> []" using I s by auto
      then show thesis using that I s True by (simp add: next_block_def rd_def wr_def words_of_bytes_def)
    next
      case False
      then have "k \<noteq> 0" by (cases k) simp_all
      then show thesis using that False I s by (simp add: next_block_def)
    qed
    have "?body (of_nat k) s = Some (ai', ao', p[k := f (ao' ! (k mod 4))])"
      using b I k u3 uk s by (simp add: rd_def wr_def)
    moreover have "?I (Suc k) (ai', ao', p[k := f (ao' ! (k mod 4))])"
      using b I k s by (auto simp: nth_list_update less_Suc_eq)
    ultimately show "\<exists>s'. ?body (of_nat k) s = Some s' \<and> ?I (Suc k) s'" by blast
  qed (use assms in simp)
  then obtain ai ao p where "up 653 (\<lambda>k. ?body (of_nat k)) ([0, 0, 0, 0], [], poly) = Some (ai, ao, p)" "length p = 653" "\<forall>k < 653. \<exists>x. p ! k = f x"
    by auto
  then show ?thesis unfolding expand_words_def for_up_0 u by simp
qed

text \<open>The Barrett reduction is exact on all 32-bit words.\<close>

lemma barrett_q: "x < 4294967296 \<Longrightarrow> x * 1903504225 div 8796093022208 = x div (4621 :: nat)"
proof -
  assume x: "x < 4294967296"
  obtain d m where d: "x = 4621 * d + m" "m \<le> 4620" "x div 4621 = d"
    by (metis mult_div_mod_eq mod_less_divisor zero_less_numeral less_Suc_eq_le numeral_eq_Suc eval_nat_numeral)
  have "8796093022208 * d \<le> x * 1903504225" "x * 1903504225 < 8796093022208 * Suc d" using x d(1,2) by simp_all
  then show ?thesis unfolding d(3) by (rule div_nat_eqI)
qed

lemma shift_half: "m < 4621 \<Longrightarrow> (if 2310 \<le> m then m - 2310 else m + 2311) = (m + 2311) mod (4621 :: nat)"
  by (simp add: mod_if)

lemma expand_coeff: "unat (expand_coeff x) < 4621" "unat (expand_coeff x) = (unat x mod 4621 + 2311) mod 4621"
proof -
  have x: "unat x < 4294967296" by (rule unat_less_u32)
  then have "unat (ucast x * 1903504225 :: u64) = unat x * 1903504225" by (simp add: unat_word_ariths)
  then have "unat (drop_bit 43 (ucast x * 1903504225 :: u64)) = unat x div 4621"
    using x barrett_q [OF x] by (subst unsigned_drop_bit_eq) (simp add: drop_bit_eq_div take_bit_nat_eq_self)
  moreover have "unat x div 4621 < 4294967296" using x by (simp add: div_less_iff_less_mult)
  ultimately have d: "unat (ucast (drop_bit 43 (ucast x * 1903504225 :: u64)) :: u32) = unat x div 4621" by (subst unat_ucast_64_32) simp_all
  have le: "unat x div 4621 * 4621 \<le> unat x" by simp
  then have m: "unat (ucast (drop_bit 43 (ucast x * 1903504225 :: u64)) * 4621 :: u32) = unat x div 4621 * 4621"
    using x d by (simp add: unat_word_ariths)
  let ?y = "x - ucast (drop_bit 43 (ucast x * 1903504225 :: u64)) * 4621 :: u32"
  have y: "unat ?y = unat x mod 4621" using m le by (subst unat_sub) (simp_all add: word_le_nat_alt minus_div_mult_eq_mod)
  have y': "unat x mod 4621 < 4621" by simp
  have e: "unat (expand_coeff x) = (if 2310 \<le> unat ?y then unat ?y - 2310 else unat ?y + 2311)"
  proof (cases "2310 \<le> unat ?y")
    case True
    then have "unat (?y - 2310) = unat ?y - 2310" by (subst unat_sub) (simp_all add: word_le_nat_alt)
    then show ?thesis using True by (simp add: expand_coeff_def NTRU_LPR_Q_def uint32_cmp_ge_branch_def word_le_nat_alt Let_def)
  next
    case False
    then have "unat (?y + 2311) = unat ?y + 2311" by (simp add: unat_word_ariths)
    then show ?thesis using False by (simp add: expand_coeff_def NTRU_LPR_Q_def uint32_cmp_ge_branch_def word_le_nat_alt Let_def)
  qed
  show "unat (expand_coeff x) < 4621" unfolding e y shift_half [OF y'] by simp
  show "unat (expand_coeff x) = (unat x mod 4621 + 2311) mod 4621"
    unfolding e y by (rule shift_half [OF y'])
qed

lemma expand_seed_ok:
  assumes "env_ok env" "32 \<le> length seed" "length out_g = 653"
  shows "\<exists>g. ntrulpr_653_expand_seed env seed out_g = Some g \<and> smalls g"
proof -
  have len: "length (local_words env) = 653" using assms(1) by (simp add: env_ok_def)
  obtain poly where p: "expand_words env (aes256_expandkey env (take 32 seed)) expand_coeff (local_words env) = Some poly"
    "length poly = 653" "\<forall>k < 653. \<exists>x. poly ! k = expand_coeff x"
    using expand_words_ok [OF len] by blast
  have u: "unat NTRU_LPR_P = 653" by (simp add: NTRU_LPR_P_def)
  have "up 653 (\<lambda>k out_g. do { x \<leftarrow> rd poly (of_nat k); wr out_g (of_nat k) (ucast x) }) out_g = Some (map (\<lambda>k. ucast (poly ! k)) [0..<653])"
    by (rule up_fill [OF assms(3)]) (simp add: rd_def wr_def p(2) unat_of_nat_small)
  moreover have "small (ucast (poly ! k))" if "k < 653" for k
  proof -
    have "unat (poly ! k) < 4621" using p(3) that expand_coeff(1) by metis
    then show ?thesis by (simp add: small_def unat_ucast16)
  qed
  ultimately show ?thesis using p(1) assms(2) by (simp add: ntrulpr_653_expand_seed_def copy_items_def for_up_0 u smalls_def)
qed

end
