(* ===== verification/NtruShortOk.thy ===== *)
theory NtruShortOk
  imports NtruShort
begin

text \<open>
  Small numbers packed into bytes: \<open>w\<close> bits each, \<open>per\<close> of them in a byte, written one after the
  other with a bitwise or into bytes that were zero.

  \<open>ntrulpr_653_hashshort\<close> gives a short polynomial of weight 252: sorting only permutes the words.
\<close>

definition packed_bit :: "nat \<Rightarrow> nat \<Rightarrow> nat \<Rightarrow> u8 list \<Rightarrow> nat \<Rightarrow> nat \<Rightarrow> bool" where
  "packed_bit w per base out j b \<longleftrightarrow> bit (out ! (base + j div per)) (w * (j mod per) + b)"

lemma packed_place:
  assumes "w * per = (8 :: nat)" "b < w"
  shows "w * (j mod per) + b < 8"
proof -
  have "0 < per" using assms(1) by (cases per) simp_all
  then have "Suc (j mod per) \<le> per" by (simp add: Suc_leI)
  then have "w * Suc (j mod per) \<le> w * per" by (rule mult_le_mono2)
  then show ?thesis using assms by (simp add: algebra_simps)
qed

lemma packed_or:
  assumes w: "w * per = 8" and v: "\<And>n. w \<le> n \<Longrightarrow> \<not> bit (v :: u32) n" and b: "b < w"
    and k: "base + k div per < length out"
  shows "packed_bit w per base (out[base + k div per := out ! (base + k div per) OR ucast (push_bit (w * (k mod per)) v)]) j b \<longleftrightarrow>
    packed_bit w per base out j b \<or> j = k \<and> bit v b"
proof (cases "j div per = k div per")
  case False
  then show ?thesis by (auto simp: packed_bit_def)
next
  case True
  note n8 = packed_place [OF w b, of j]
  have "bit (ucast (push_bit (w * (k mod per)) v) :: u8) (w * (j mod per) + b) \<longleftrightarrow> j = k \<and> bit v b"
  proof (cases "j = k")
    case True
    then show ?thesis using n8 by (simp add: bit_simps)
  next
    case False
    then have ne: "j mod per \<noteq> k mod per" using True by (metis div_mult_mod_eq)
    have "w * (j mod per) + b < w * (k mod per) \<or> w \<le> w * (j mod per) + b - w * (k mod per)"
    proof (cases "j mod per < k mod per")
      case True
      then have "w * Suc (j mod per) \<le> w * (k mod per)" by (intro mult_le_mono2) simp
      then show ?thesis using b by simp
    next
      case False
      then have "w * Suc (k mod per) \<le> w * (j mod per)" using ne by (intro mult_le_mono2) simp
      then show ?thesis by simp
    qed
    then show ?thesis using False v by (auto simp: bit_simps)
  qed
  then show ?thesis using True k by (simp add: packed_bit_def bit_or_iff)
qed

lemma pack_up:
  assumes w: "w * per = 8" and v: "\<And>k n. k < N \<Longrightarrow> w \<le> n \<Longrightarrow> \<not> bit (v k :: u32) n"
    and len: "\<And>k. k < N \<Longrightarrow> k div per < m" "base + m \<le> length out" and zero: "\<And>i. base \<le> i \<Longrightarrow> i < base + m \<Longrightarrow> out ! i = 0"
    and f: "\<And>k out'. k < N \<Longrightarrow> length out' = length out \<Longrightarrow>
      f k out' = Some (out'[base + k div per := out' ! (base + k div per) OR ucast (push_bit (w * (k mod per)) (v k))])"
  shows "\<exists>out'. up N f out = Some out' \<and> length out' = length out \<and> (\<forall>j < N. \<forall>b < w. packed_bit w per base out' j b \<longleftrightarrow> bit (v j) b) \<and>
    (\<forall>i. i < base \<or> base + m \<le> i \<longrightarrow> out' ! i = out ! i)"
proof -
  let ?I = "\<lambda>n out'. length out' = length out \<and> (\<forall>j < N. \<forall>b < w. packed_bit w per base out' j b \<longleftrightarrow> j < n \<and> bit (v j) b) \<and>
    (\<forall>i. i < base \<or> base + m \<le> i \<longrightarrow> out' ! i = out ! i)"
  have "\<exists>out'. up N f out = Some out' \<and> ?I N out'"
  proof (rule up_inv [where I = ?I])
    show "?I 0 out" using zero len by (auto simp: packed_bit_def)
  next
    fix k out' assume k: "k < N" and I: "?I k out'"
    let ?o = "out'[base + k div per := out' ! (base + k div per) OR ucast (push_bit (w * (k mod per)) (v k))]"
    have in_len: "base + k div per < length out'" using len(1) [OF k] len(2) I by simp
    have "packed_bit w per base ?o j b \<longleftrightarrow> j < Suc k \<and> bit (v j) b" if "j < N" "b < w" for j b
      using packed_or [OF w v [OF k] that(2) in_len, of j] I that by (auto simp: less_Suc_eq)
    moreover have "\<forall>i. i < base \<or> base + m \<le> i \<longrightarrow> ?o ! i = out ! i" using I len(1) [OF k] by auto
    ultimately have "?I (Suc k) ?o" using I by simp
    then show "\<exists>s'. f k out' = Some s' \<and> ?I (Suc k) s'" using f [OF k] I by blast
  qed
  then show ?thesis by auto
qed

section \<open>Packed coefficients\<close>

lemma unat_drop_2: "unat (drop_bit 2 (of_nat i :: u32)) = i div 4" if "i < 653"
  using that by (subst unsigned_drop_bit_eq) (simp add: drop_bit_eq_div take_bit_nat_eq_self unat_of_nat_small)

lemma unat_shift: "unat (2 * (of_nat i AND 0x03) :: u32) = 2 * (i mod 4)" if "i < 653"
  using that by (simp add: unat_word_ariths unat_and_3 unat_of_nat_small)

lemma and_3_take_bit: "(x :: u32) AND 0x03 = take_bit 2 x"
  by (simp add: take_bit_eq_mask mask_eq_exp_minus_1)

lemma short_coeff_packed:
  assumes i: "i < 653" "164 \<le> length a" and b: "\<And>b. b < 2 \<Longrightarrow> packed_bit 2 4 0 a i b \<longleftrightarrow> bit x b"
  shows "short_coeff a (of_nat i) = Some (x AND 0x03)"
proof -
  have "i div 4 < length a" using i by simp
  then have "short_coeff a (of_nat i) = Some (drop_bit (2 * (i mod 4)) (ucast (a ! (i div 4))) AND 0x03)"
    by (simp add: short_coeff_def rd_def unat_drop_2 [OF i(1)] unat_shift [OF i(1)])
  also have "drop_bit (2 * (i mod 4)) (ucast (a ! (i div 4))) AND 0x03 = x AND 0x03"
    unfolding and_3_take_bit
  proof (rule bit_word_eqI)
    fix n assume "n < LENGTH(32)"
    have "2 * (i mod 4) + n < 8" if "n < 2" using that mod_less_divisor [of 4 i] by linarith
    then show "bit (take_bit 2 (drop_bit (2 * (i mod 4)) (ucast (a ! (i div 4)))) :: u32) n = bit (take_bit 2 x) n"
      using b [of n] by (auto simp: packed_bit_def bit_simps)
  qed
  finally show ?thesis .
qed

lemma pack_loop:
  assumes poly: "length poly = 653" and out: "164 \<le> length out" "\<forall>k < 164. out ! k = 0"
  shows "\<exists>out'. for_up 0 NTRU_LPR_P (pack_coeff poly) out = Some out' \<and> length out' = length out \<and>
    (\<forall>j < 653. short_coeff out' (of_nat j) = Some (poly ! j AND 0x03)) \<and> (\<forall>k \<ge> 164. out' ! k = out ! k)"
proof -
  have u: "unat NTRU_LPR_P = 653" by (simp add: NTRU_LPR_P_def)
  have "\<exists>out'. up 653 (\<lambda>k. pack_coeff poly (of_nat k)) out = Some out' \<and> length out' = length out \<and>
      (\<forall>j < 653. \<forall>b < 2. packed_bit 2 4 0 out' j b \<longleftrightarrow> bit (poly ! j AND 0x03) b) \<and> (\<forall>i. i < 0 \<or> 0 + 164 \<le> i \<longrightarrow> out' ! i = out ! i)"
  proof (rule pack_up)
    fix k and out' :: "u8 list" assume k: "k < (653 :: nat)" and l: "length out' = length out"
    have "k div 4 < length out'" using k l out(1) by simp
    moreover have "unat (of_nat k :: u32) = k" using k by (simp add: unat_of_nat_small)
    ultimately show "pack_coeff poly (of_nat k) out' =
        Some (out'[0 + k div 4 := out' ! (0 + k div 4) OR ucast (push_bit (2 * (k mod 4)) (poly ! k AND 0x03))])"
      using k poly by (simp add: pack_coeff_def rd_def wr_def unat_drop_2 unat_shift)
  next
    show "\<not> bit (poly ! k AND 0x03) n" if "k < 653" "2 \<le> n" for k n using that unfolding and_3_take_bit by (simp add: bit_simps)
  qed (use out in auto)
  then obtain out' where o: "up 653 (\<lambda>k. pack_coeff poly (of_nat k)) out = Some out'" "length out' = length out"
    "\<forall>j < 653. \<forall>b < 2. packed_bit 2 4 0 out' j b \<longleftrightarrow> bit (poly ! j AND 0x03) b" "\<forall>i \<ge> 164. out' ! i = out ! i" by auto
  have "short_coeff out' (of_nat j) = Some (poly ! j AND 0x03)" if "j < 653" for j
  proof (rule short_coeff_packed)
    show "packed_bit 2 4 0 out' j b \<longleftrightarrow> bit (poly ! j) b" if "b < 2" for b
      using o(3) \<open>j < 653\<close> that unfolding and_3_take_bit by (simp add: bit_simps)
  qed (use o(2) out(1) that in auto)
  then show ?thesis unfolding for_up_0 u using o by blast
qed

section \<open>The weight\<close>

lemma modify_range:
  assumes "A + n \<le> length xs" "\<And>k ys. k < n \<Longrightarrow> length ys = length xs \<Longrightarrow> f k ys = Some (ys[A + k := g (ys ! (A + k))])"
  shows "\<exists>ys. up n f xs = Some ys \<and> length ys = length xs \<and> (\<forall>k. ys ! k = (if A \<le> k \<and> k < A + n then g (xs ! k) else xs ! k))"
proof -
  let ?I = "\<lambda>m ys. length ys = length xs \<and> (\<forall>k. ys ! k = (if A \<le> k \<and> k < A + m then g (xs ! k) else xs ! k))"
  have "\<exists>ys. up n f xs = Some ys \<and> ?I n ys"
  proof (rule up_inv [where I = ?I])
    fix k ys assume k: "k < n" and I: "?I k ys"
    have "ys[A + k := g (ys ! (A + k))] ! l = (if A \<le> l \<and> l < A + Suc k then g (xs ! l) else xs ! l)" for l
      using I k assms(1) by (cases "l = A + k") auto
    then show "\<exists>s'. f k ys = Some s' \<and> ?I (Suc k) s'" using assms(2) [OF k] I by simp
  qed auto
  then show ?thesis by blast
qed

lemma clear_loop:
  assumes "length poly = 653"
  shows "\<exists>ys. for_up 0 NTRU_LPR_W clear_bottom poly = Some ys \<and> length ys = 653 \<and>
    (\<forall>k. ys ! k = (if k < 252 then poly ! k AND NOT 1 else poly ! k))"
proof -
  have u: "unat NTRU_LPR_W = 252" by (simp add: NTRU_LPR_W_def)
  show ?thesis unfolding for_up_0 u
    using modify_range [of 0 252 poly "\<lambda>k. clear_bottom (of_nat k)" "\<lambda>x. x AND NOT 1"] assms
    by (simp add: clear_bottom_def rd_def wr_def unat_of_nat_small)
qed

lemma set_loop:
  assumes "length poly = 653"
  shows "\<exists>ys. for_up NTRU_LPR_W NTRU_LPR_P set_bottom poly = Some ys \<and> length ys = 653 \<and>
    (\<forall>k. ys ! k = (if 252 \<le> k \<and> k < 653 then (poly ! k OR 1) AND NOT 2 else poly ! k))"
proof -
  have u: "unat (252 + of_nat k :: u32) = 252 + k" if "k \<le> 401" for k
    using that by (simp add: unat_word_ariths unat_of_nat_small)
  have "for_up NTRU_LPR_W NTRU_LPR_P set_bottom poly = up 401 (\<lambda>k. set_bottom (252 + of_nat k)) poly"
    unfolding NTRU_LPR_W_def NTRU_LPR_P_def by (rule for_c_up) (use u in \<open>simp_all add: word_less_nat_alt\<close>)
  moreover have "\<exists>ys. up 401 (\<lambda>k. set_bottom (252 + of_nat k)) poly = Some ys \<and> length ys = length poly \<and>
      (\<forall>k. ys ! k = (if 252 \<le> k \<and> k < 252 + 401 then (poly ! k OR 1) AND NOT 2 else poly ! k))"
    by (rule modify_range) (use assms u in \<open>simp_all add: set_bottom_def rd_def wr_def\<close>)
  ultimately show ?thesis using assms by simp
qed

lemma sign_cleared: "sign ((x AND NOT 1) AND 0x03) \<noteq> 0"
proof -
  have nb: "\<not> bit ((x AND NOT 1) AND 0x03) 0" unfolding bit_and_iff bit_not_iff by simp
  have "(x AND NOT 1) AND 0x03 \<noteq> 1"
  proof
    assume e: "(x AND NOT 1) AND 0x03 = 1"
    show False using nb unfolding e by simp
  qed
  then show ?thesis by (simp add: sign_def)
qed

lemma sign_set: "sign (((x OR 1) AND NOT 2) AND 0x03) = 0"
proof -
  have "((x OR 1) AND NOT 2) AND 0x03 = 1"
    unfolding and_3_take_bit
  proof (rule bit_word_eqI)
    fix n assume "n < LENGTH(32)"
    have "n = 0 \<or> n = 1 \<or> 2 \<le> n" by linarith
    then show "bit (take_bit 2 ((x OR 1) AND NOT 2)) n = bit (1 :: u32) n" by (auto simp: bit_simps)
  qed
  then show ?thesis by (simp add: sign_def)
qed

lemma hashshort_ok:
  assumes env: "env_ok env" and "32 \<le> length input" "164 \<le> length out"
  shows "\<exists>out'. ntrulpr_653_hashshort env input out = Some out' \<and> length out' = length out \<and> short 252 (digits out') \<and> (\<forall>k \<ge> 164. out' ! k = out ! k)"
proof -
  obtain h where h: "ntru_hash env [([5], 1), (input, 32)] = Some h" using ntru_hash_ok [OF env, of "[([5], 1), (input, 32)]"] assms(2) by auto
  have len: "length (local_words env) = 653" using env by (simp add: env_ok_def)
  obtain p0 where 0: "expand_words env (aes256_expandkey env h) (\<lambda>x. x) (local_words env) = Some p0" "length p0 = 653"
    using expand_words_ok [OF len] by blast
  obtain p1 where 1: "for_up 0 NTRU_LPR_W clear_bottom p0 = Some p1" "length p1 = 653" "\<forall>k. p1 ! k = (if k < 252 then p0 ! k AND NOT 1 else p0 ! k)"
    using clear_loop [OF 0(2)] by blast
  obtain p2 where 2: "for_up NTRU_LPR_W NTRU_LPR_P set_bottom p1 = Some p2" "length p2 = 653"
    "\<forall>k. p2 ! k = (if 252 \<le> k \<and> k < 653 then (p1 ! k OR 1) AND NOT 2 else p1 ! k)" using set_loop [OF 1(2)] by blast
  obtain p3 where "safe_sort_uint32 p2 653 = Some p3" "mset (take 653 p3) = mset (take 653 p2)" "drop 653 p3 = drop 653 p2"
    using safe_sort_run [of 653 p2] 2(2) by (auto simp: safe_sort_uint32_def)
  moreover from this(2,3) have "length p3 = 653" using 2(2) by (auto dest: mset_eq_length)
  ultimately have 3: "safe_sort_uint32 p2 653 = Some p3" "length p3 = 653" "mset p3 = mset p2" using 2(2) by simp_all
  let ?z = "replicate 164 0 @ drop 164 out"
  have z: "zero_items out NTRU_LPR_SHORT_ENC_LEN = Some ?z"
    using assms(3) by (simp add: zero_items_def NTRU_LPR_SHORT_ENC_LEN_def NTRU_LPR_P_def)
  obtain out' where o: "for_up 0 NTRU_LPR_P (pack_coeff p3) ?z = Some out'" "length out' = length out"
    "\<forall>j < 653. short_coeff out' (of_nat j) = Some (p3 ! j AND 0x03)" "\<forall>k \<ge> 164. out' ! k = out ! k"
    using pack_loop [OF 3(2), of ?z] assms(3) by (auto simp: nth_append)
  have d: "digits out' i = sign (p3 ! i AND 0x03)" if "i < 653" for i using o(3) that by (simp add: digits_def)
  let ?P = "\<lambda>y. sign (y AND 0x03) \<noteq> 0"
  have "{i. i < 653 \<and> digits out' i \<noteq> 0} = {i. i < length p3 \<and> ?P (p3 ! i)}" using d 3(2) by auto
  then have "card {i. i < 653 \<and> digits out' i \<noteq> 0} = length (filter ?P p3)" by (simp add: length_filter_conv_card)
  also have "\<dots> = length (filter ?P p2)" using 3(3) by (metis mset_filter size_mset)
  also have "\<dots> = card {i. i < 653 \<and> ?P (p2 ! i)}" using 2(2) by (simp add: length_filter_conv_card)
  also have "{i. i < 653 \<and> ?P (p2 ! i)} = {..<252}" using 1(3) 2(3) sign_cleared sign_set by (auto split: if_splits)
  finally have "card {i. i < 653 \<and> digits out' i \<noteq> 0} = 252" by simp
  moreover have "\<bar>digits out' i\<bar> \<le> 1" if "i < 653" for i using d [OF that] by (simp add: sign_def)
  ultimately have "short 252 (digits out')" by (simp add: short_def)
  then show ?thesis using h 0(1) 1(1) 2(1) 3(1) z o(1,2,4) by (simp add: ntrulpr_653_hashshort_def)
qed

text \<open>C25: whatever the hash and the cipher give, \<open>ntrulpr_653_hashshort\<close> ends with a short polynomial:
  every coefficient is -1, 0 or 1 and exactly 252 of them are not 0, packed into the first 164 bytes.\<close>

theorem hashshort_weight:
  assumes env: "env_ok env" and "32 \<le> length input" "164 \<le> length out"
  shows "\<exists>out'. ntrulpr_653_hashshort env input out = Some out' \<and> length out' = length out \<and> short 252 (digits out') \<and> (\<forall>k \<ge> 164. out' ! k = out ! k)"
  by (rule hashshort_ok [OF assms])

definition demo_ntru :: ntru_env where
  "demo_ntru = \<lparr>keccak_p_1600_permute = rev, aes256_expandkey = (\<lambda>k. k), aes256_encrypt_one_block = (\<lambda>k b. map2 (XOR) k b),
     local_words = replicate 653 3, local_halves = replicate 653 70, local_bytes = replicate 1025 9\<rparr>"

lemma demo_ntru_ok: "env_ok demo_ntru"
  by (simp add: env_ok_def demo_ntru_def)

lemma hashshort_weight_witness:
  "\<exists>out'. ntrulpr_653_hashshort demo_ntru (replicate 32 4) (replicate 164 1) = Some out' \<and> length out' = 164 \<and> short 252 (digits out')"
  using hashshort_weight [OF demo_ntru_ok, of "replicate 32 4" "replicate 164 1"] by auto

end
