(* ===== verification/NtruCodec.thy ===== *)
theory NtruCodec
  imports NtruEncode "HOL-Library.Sublist"
begin

text \<open>
  Decoding undoes encoding: bytes that were written are read back, a pair is recovered from its
  number, a level from the next one, and the levels are put together.
\<close>

section \<open>Bytes\<close>

lemma emit_split: "emit k r out = (drop_bit (8 * k) r, out @ snd (emit k r []))" "length (snd (emit k r [])) = k"
proof -
  have "fst (emit k r out) = drop_bit (8 * k) r \<and> (\<exists>bs. length bs = k \<and> (\<forall>out. snd (emit k r out) = out @ bs))" for out
  proof (induction k arbitrary: r out)
    case (Suc k)
    obtain bs where bs: "length bs = k" "\<forall>out. snd (emit k (drop_bit 8 r) out) = out @ bs" using Suc by blast
    then have "length (ucast (r AND 0xff) # bs) = Suc k \<and> (\<forall>out. snd (emit (Suc k) r out) = out @ ucast (r AND 0xff) # bs)" by simp
    moreover have "fst (emit (Suc k) r out) = drop_bit (8 * Suc k) r" using Suc by (simp add: drop_bit_drop_bit add.commute)
    ultimately show ?case by blast
  qed simp
  then obtain bs where "length bs = k" "\<forall>out. snd (emit k r out) = out @ bs" "\<forall>out. fst (emit k r out) = drop_bit (8 * k) r" by metis
  then show "emit k r out = (drop_bit (8 * k) r, out @ snd (emit k r []))" "length (snd (emit k r [])) = k"
    by (auto simp: prod_eq_iff)
qed

lemma fetch_last: "fetch (Suc k) enc r ptr = do { (r, ptr) \<leftarrow> fetch k enc r ptr; fetch 1 enc r ptr }"
proof (induction k arbitrary: r ptr)
  case (Suc k)
  have "fetch (Suc (Suc k)) enc r ptr = do { b \<leftarrow> rd enc ptr; fetch (Suc k) enc (push_bit 8 r + ucast b) (ptr - 1) }"
    by (rule fetch.simps)
  also have "\<dots> = do { b \<leftarrow> rd enc ptr; (r, ptr) \<leftarrow> fetch k enc (push_bit 8 r + ucast b) (ptr - 1); fetch 1 enc r ptr }"
    unfolding Suc.IH ..
  also have "\<dots> = do { (r, ptr) \<leftarrow> fetch (Suc k) enc r ptr; fetch 1 enc r ptr }"
    unfolding fetch.simps(2) [of k] bind_assoc ..
  finally show ?case .
qed (simp add: split_beta)

lemma byte_split: "push_bit 8 (drop_bit 8 r) + ucast (ucast (r AND 0xff) :: u8) = (r :: u32)"
proof -
  have ff: "(0xff :: u32) = mask 8" by (simp add: mask_eq_exp_minus_1)
  have "ucast (ucast (r AND 0xff) :: u8) = take_bit 8 r" unfolding ff by (rule bit_word_eqI) (auto simp: bit_simps)
  moreover have "push_bit 8 (drop_bit 8 r) + take_bit 8 r = r" by (simp add: bits_ident)
  ultimately show ?thesis by simp
qed

lemma fetch_emit:
  assumes "prefix (snd (emit k r out)) enc" "length enc < 4294967296"
  shows "fetch k enc (drop_bit (8 * k) r) (of_nat (length out + k) - 1) = Some (r, of_nat (length out) - 1)"
  using assms(1)
proof (induction k arbitrary: r out)
  case (Suc k)
  let ?b = "ucast (r AND 0xff) :: u8"
  have "prefix (snd (emit k (drop_bit 8 r) (out @ [?b]))) enc" using Suc.prems by simp
  from Suc.IH [OF this]
  have f: "fetch k enc (drop_bit (8 * Suc k) r) (of_nat (length out + Suc k) - 1) = Some (drop_bit 8 r, of_nat (length out))"
    by (simp add: drop_bit_drop_bit add.commute)
  obtain bs where "snd (emit k (drop_bit 8 r) (out @ [?b])) = (out @ [?b]) @ bs" using emit_split(1) by (metis snd_conv)
  then have "prefix (out @ [?b]) enc" using Suc.prems by (auto simp: prefix_def)
  then have "length out < length enc" "enc ! length out = ?b" by (auto simp: prefix_def)
  then have "rd enc (of_nat (length out)) = Some ?b" using assms(2) by (simp add: rd_def unat_of_nat_small)
  then have "fetch 1 enc (drop_bit 8 r) (of_nat (length out)) = Some (r, of_nat (length out) - 1)"
    using byte_split [of r] by simp
  then show ?case by (simp only: fetch_last f) simp
qed simp

section \<open>Pairs\<close>

lemma pair_index:
  assumes "2 * i + 1 < length (buf :: 'a list)" "length buf < 4294967296"
  shows "unat (of_nat i * 2 :: u32) = 2 * i" "unat (of_nat i * 2 + 1 :: u32) = 2 * i + 1" "unat (of_nat i :: u32) = i"
proof -
  have e: "(of_nat i * 2 :: u32) = of_nat (2 * i)" "(of_nat i * 2 + 1 :: u32) = of_nat (2 * i + 1)" by (simp_all add: mult.commute)
  show "unat (of_nat i * 2 :: u32) = 2 * i" unfolding e(1) by (rule unat_of_nat_small) (use assms in simp)
  show "unat (of_nat i * 2 + 1 :: u32) = 2 * i + 1" unfolding e(2) by (rule unat_of_nat_small) (use assms in simp)
  show "unat (of_nat i :: u32) = i" by (rule unat_of_nat_small) (use assms in simp)
qed

definition pair_sum :: "u32 \<Rightarrow> u32 list \<Rightarrow> nat \<Rightarrow> u32" where
  "pair_sum M buf i = buf ! (2 * i) + buf ! (2 * i + 1) * M"

lemma encode_pair_eq:
  assumes "2 * i + 1 < length buf" "length buf < 4294967296"
  shows "encode_pair M k (of_nat i) (buf, out) =
    Some (buf[i := drop_bit (8 * k) (pair_sum M buf i)], snd (emit k (pair_sum M buf i) out))"
  using pair_index [OF assms] assms(1) emit_split(1) [of k "pair_sum M buf i" out]
  by (simp add: encode_pair_def rd_def wr_def pair_sum_def split_beta)

lemma pair_recover:
  assumes "unat x < unat M" "unat x + unat y * unat M < 4294967296"
  shows "(x + y * M) div M = y" "(x + y * M) mod M = (x :: u32)" "unat (x + y * M) = unat x + unat y * unat M"
proof -
  have "unat y * unat M < 4294967296" using assms(2) by simp
  then show e: "unat (x + y * M) = unat x + unat y * unat M" using assms(2) by (simp add: unat_word_ariths)
  show "(x + y * M) div M = y" "(x + y * M) mod M = x"
    using assms(1) by (simp_all add: word_arith_nat_div word_arith_nat_mod e unat_of_nat_small)
qed

lemma decode_pair_eq:
  assumes "2 * i + 1 < length buf" "length buf < 4294967296" "length buf' = length buf"
    and r: "buf' ! i = drop_bit (8 * k) (pair_sum M buf i)"
    and x: "unat (buf ! (2 * i)) < unat M" "unat (buf ! (2 * i)) + unat (buf ! (2 * i + 1)) * unat M < 4294967296"
    and enc: "prefix (snd (emit k (pair_sum M buf i) out)) enc" "length enc < 4294967296"
  shows "decode_pair enc M k (of_nat i) (buf', of_nat (length out + k) - 1) =
    Some (buf'[2 * i + 1 := buf ! (2 * i + 1), 2 * i := buf ! (2 * i)], of_nat (length out) - 1)"
proof -
  have "pair_sum M buf i div M = buf ! (2 * i + 1)" "pair_sum M buf i mod M = buf ! (2 * i)"
    unfolding pair_sum_def using pair_recover [OF x] by simp_all
  moreover have "rd buf' (of_nat i) = Some (drop_bit (8 * k) (pair_sum M buf i))"
    using pair_index [OF assms(1,2)] assms(1,3) r by (simp add: rd_def)
  ultimately show ?thesis
    using pair_index [OF assms(1,2)] assms(1,3) fetch_emit [OF enc] by (simp add: decode_pair_def wr_def)
qed

section \<open>Levels\<close>

text \<open>The pairs of a level may differ in the number of bytes.\<close>

abbreviation pairs_up :: "nat \<Rightarrow> u32 \<Rightarrow> (nat \<Rightarrow> nat) \<Rightarrow> u32 list \<times> u8 list \<Rightarrow> (u32 list \<times> u8 list) option" where
  "pairs_up n M K \<equiv> up n (\<lambda>i. encode_pair M (K i) (of_nat i))"

abbreviation pairs_down :: "u8 list \<Rightarrow> nat \<Rightarrow> u32 \<Rightarrow> (nat \<Rightarrow> nat) \<Rightarrow> u32 list \<times> u32 \<Rightarrow> (u32 list \<times> u32) option" where
  "pairs_down enc n M K \<equiv> down n (\<lambda>i. decode_pair enc M (K i) (of_nat i))"

lemma pairs_up_ok:
  assumes "2 * n \<le> length buf" "length buf < 4294967296"
  shows "\<exists>buf1 out1. pairs_up n M K (buf, out) = Some (buf1, out1) \<and> length buf1 = length buf \<and> (\<forall>j \<ge> n. buf1 ! j = buf ! j) \<and>
    (\<forall>i < n. buf1 ! i = drop_bit (8 * K i) (pair_sum M buf i)) \<and> prefix out out1 \<and> length out1 = length out + (\<Sum>i<n. K i)"
  using assms(1)
proof (induction n)
  case (Suc n)
  then obtain buf1 out1 where 1: "pairs_up n M K (buf, out) = Some (buf1, out1)" "length buf1 = length buf" "\<forall>j \<ge> n. buf1 ! j = buf ! j"
    "\<forall>i < n. buf1 ! i = drop_bit (8 * K i) (pair_sum M buf i)" "prefix out out1" "length out1 = length out + (\<Sum>i<n. K i)" by auto
  have p: "pair_sum M buf1 n = pair_sum M buf n" using 1(3) by (simp add: pair_sum_def)
  let ?r = "pair_sum M buf n"
  have e: "encode_pair M (K n) (of_nat n) (buf1, out1) = Some (buf1[n := drop_bit (8 * K n) ?r], snd (emit (K n) ?r out1))"
    using encode_pair_eq [of n buf1 M "K n" out1] Suc.prems assms(2) 1(2) p by simp
  have "snd (emit (K n) ?r out1) = out1 @ snd (emit (K n) ?r [])" using emit_split(1) [of "K n" ?r out1] by (metis snd_conv)
  then have "prefix out (snd (emit (K n) ?r out1))" "length (snd (emit (K n) ?r out1)) = length out + (\<Sum>i<Suc n. K i)"
    using 1(5,6) emit_split(2) [of "K n" ?r] by (auto intro: prefix_order.trans)
  moreover have "\<forall>j \<ge> Suc n. buf1[n := drop_bit (8 * K n) ?r] ! j = buf ! j" using 1(3) by simp
  moreover have "\<forall>i < Suc n. buf1[n := drop_bit (8 * K n) ?r] ! i = drop_bit (8 * K i) (pair_sum M buf i)"
    using 1(2,4) Suc.prems by (simp add: nth_list_update less_Suc_eq)
  ultimately show ?case using 1(1,2) e by simp
qed simp

lemma pairs_down_ok:
  assumes "2 * n \<le> length buf" "length buf < 4294967296" "pairs_up n M K (buf, out) = Some (buf1, out1)"
    "length buf' = length buf" "\<forall>j < n. buf' ! j = buf1 ! j" "prefix out1 enc" "length enc < 4294967296"
    "\<forall>i < n. unat (buf ! (2 * i)) < unat M \<and> unat (buf ! (2 * i)) + unat (buf ! (2 * i + 1)) * unat M < 4294967296"
  shows "\<exists>buf2. pairs_down enc n M K (buf', of_nat (length out1) - 1) = Some (buf2, of_nat (length out) - 1) \<and>
    length buf2 = length buf \<and> (\<forall>j < 2 * n. buf2 ! j = buf ! j) \<and> (\<forall>j \<ge> 2 * n. buf2 ! j = buf' ! j)"
  using assms(1,3-6,8)
proof (induction n arbitrary: buf1 out1 buf')
  case (Suc n)
  obtain buf0 out0 where 0: "pairs_up n M K (buf, out) = Some (buf0, out0)" "length buf0 = length buf" "\<forall>j \<ge> n. buf0 ! j = buf ! j"
    using pairs_up_ok [of n buf M K out] Suc.prems(1) assms(2) by auto
  have p: "pair_sum M buf0 n = pair_sum M buf n" using 0(3) by (simp add: pair_sum_def)
  let ?r = "pair_sum M buf n"
  have e: "encode_pair M (K n) (of_nat n) (buf0, out0) = Some (buf0[n := drop_bit (8 * K n) ?r], snd (emit (K n) ?r out0))"
    using encode_pair_eq [of n buf0 M "K n" out0] Suc.prems(1) assms(2) 0(2) p by simp
  then have 1: "buf1 = buf0[n := drop_bit (8 * K n) ?r]" "out1 = snd (emit (K n) ?r out0)" using Suc.prems(2) 0(1) by simp_all
  have out1: "out1 = out0 @ snd (emit (K n) ?r [])" using emit_split(1) [of "K n" ?r out0] 1(2) by (metis snd_conv)
  then have len: "length out1 = length out0 + K n" using emit_split(2) [of "K n" ?r] by simp
  let ?buf = "buf'[2 * n + 1 := buf ! (2 * n + 1), 2 * n := buf ! (2 * n)]"
  have "decode_pair enc M (K n) (of_nat n) (buf', of_nat (length out0 + K n) - 1) = Some (?buf, of_nat (length out0) - 1)"
  proof (rule decode_pair_eq)
    show "buf' ! n = drop_bit (8 * K n) ?r" using Suc.prems(1,4) 1(1) 0(2) by simp
    show "prefix (snd (emit (K n) ?r out0)) enc" using Suc.prems(5) 1(2) by simp
  qed (use Suc.prems(1,3,6) assms(2,7) in auto)
  moreover have "\<exists>buf2. pairs_down enc n M K (?buf, of_nat (length out0) - 1) = Some (buf2, of_nat (length out) - 1) \<and>
    length buf2 = length buf \<and> (\<forall>j < 2 * n. buf2 ! j = buf ! j) \<and> (\<forall>j \<ge> 2 * n. buf2 ! j = ?buf ! j)"
  proof (rule Suc.IH [OF _ 0(1)])
    show "\<forall>j < n. ?buf ! j = buf0 ! j" using Suc.prems(4) 1(1) by (simp add: nth_list_update)
    show "prefix out0 enc" using Suc.prems(5) out1 by (metis prefixI prefix_order.trans)
  qed (use Suc.prems(1,3,6) in auto)
  ultimately obtain buf2 where 2: "pairs_down enc (Suc n) M K (buf', of_nat (length out1) - 1) = Some (buf2, of_nat (length out) - 1)"
    "length buf2 = length buf" "\<forall>j < 2 * n. buf2 ! j = buf ! j" "\<forall>j \<ge> 2 * n. buf2 ! j = ?buf ! j" unfolding len by auto
  have "buf2 ! j = buf ! j" if "j < 2 * Suc n" for j
  proof (cases "j < 2 * n")
    case False
    then have "j = 2 * n \<or> j = 2 * n + 1" using that by auto
    then show ?thesis using 2(4) Suc.prems(1,3) by (auto simp: nth_list_update)
  qed (use 2(3) in blast)
  moreover have "\<forall>j \<ge> 2 * Suc n. buf2 ! j = buf' ! j" using 2(4) by simp
  ultimately show ?case using 2(1,2) by blast
qed simp

section \<open>Stages\<close>

definition agree :: "nat \<Rightarrow> u32 list \<Rightarrow> u32 list \<Rightarrow> bool" where
  "agree m xs ys \<longleftrightarrow> length xs = length ys \<and> (\<forall>j < m. xs ! j = ys ! j)"

text \<open>\<open>U * n + V\<close> in the notation of the header file.\<close>

definition within :: "nat \<Rightarrow> nat \<Rightarrow> nat \<Rightarrow> u32 list \<Rightarrow> bool" where
  "within U n V buf \<longleftrightarrow> (\<forall>j < n. unat (buf ! j) < U) \<and> unat (buf ! n) < V"

text \<open>A stage of the encoder and its inverse, on the first \<open>m\<close> elements before it and \<open>m'\<close> after it.\<close>

definition undoes :: "(u32 list \<times> u8 list \<Rightarrow> (u32 list \<times> u8 list) option) \<Rightarrow> (u8 list \<Rightarrow> u32 list \<times> u32 \<Rightarrow> (u32 list \<times> u32) option) \<Rightarrow>
    nat \<Rightarrow> nat \<Rightarrow> u32 list \<times> u8 list \<Rightarrow> u32 list \<times> u8 list \<Rightarrow> bool" where
  "undoes E D m m' = (\<lambda>(buf, out) (buf1, out1). E (buf, out) = Some (buf1, out1) \<and> length buf1 = length buf \<and> prefix out out1 \<and>
     (\<forall>enc buf'. prefix out1 enc \<longrightarrow> length enc < 4294967296 \<longrightarrow> agree m' buf' buf1 \<longrightarrow>
       (\<exists>buf2. D enc (buf', of_nat (length out1) - 1) = Some (buf2, of_nat (length out) - 1) \<and> agree m buf2 buf)))"

lemma undoesD:
  assumes "undoes E D m m' (buf, out) (buf1, out1)"
  shows "E (buf, out) = Some (buf1, out1)" "length buf1 = length buf" "prefix out out1"
    "prefix out1 enc \<Longrightarrow> length enc < 4294967296 \<Longrightarrow> agree m' buf' buf1 \<Longrightarrow>
      \<exists>buf2. D enc (buf', of_nat (length out1) - 1) = Some (buf2, of_nat (length out) - 1) \<and> agree m buf2 buf"
  using assms by (auto simp: undoes_def)

lemma undoesI:
  assumes "E (buf, out) = Some (buf1, out1)" "length buf1 = length buf" "prefix out out1"
    "\<And>enc buf'. prefix out1 enc \<Longrightarrow> length enc < 4294967296 \<Longrightarrow> agree m' buf' buf1 \<Longrightarrow>
      \<exists>buf2. D enc (buf', of_nat (length out1) - 1) = Some (buf2, of_nat (length out) - 1) \<and> agree m buf2 buf"
  shows "undoes E D m m' (buf, out) (buf1, out1)"
  using assms by (auto simp: undoes_def)

lemma unat_drop_bit: "unat (drop_bit m (w :: u32)) = unat w div 2 ^ m"
  using unat_less_u32 [of w] by (subst unsigned_drop_bit_eq) (simp add: drop_bit_eq_div take_bit_nat_eq_self)

lemma pair_sum_less:
  assumes "unat (buf ! (2 * i)) < U" "unat (buf ! (2 * i + 1)) < V" "unat M = U" "U * V \<le> 4294967296" "U * V \<le> W * 256 ^ k"
  shows "unat (drop_bit (8 * k) (pair_sum M buf i)) < W" "unat (buf ! (2 * i)) + unat (buf ! (2 * i + 1)) * unat M < 4294967296"
proof -
  let ?x = "unat (buf ! (2 * i))" and ?y = "unat (buf ! (2 * i + 1))"
  have "?y + 1 \<le> V" using assms(2) by simp
  then have "U * (?y + 1) \<le> U * V" by (rule mult_le_mono2)
  then have less: "?x + ?y * unat M < U * V" using assms(1,3) by (simp add: algebra_simps)
  then show l: "?x + ?y * unat M < 4294967296" using assms(4) by linarith
  have "unat (pair_sum M buf i) = ?x + ?y * unat M"
    unfolding pair_sum_def by (rule pair_recover(3)) (use assms(1,3) l in simp_all)
  then have "unat (pair_sum M buf i) < W * 256 ^ k" using less assms(5) by linarith
  then have "unat (pair_sum M buf i) div 256 ^ k < W" by (simp add: less_mult_imp_div_less)
  moreover have "(2 :: nat) ^ (8 * k) = 256 ^ k" by (simp add: power_mult)
  ultimately show "unat (drop_bit (8 * k) (pair_sum M buf i)) < W" by (simp only: unat_drop_bit)
qed

definition even_level :: "nat \<Rightarrow> u32 \<Rightarrow> (nat \<Rightarrow> nat) \<Rightarrow> u32 list \<times> u8 list \<Rightarrow> u32 list \<times> u8 list \<Rightarrow> bool" where
  "even_level n M K = undoes (pairs_up (Suc n) M K) (\<lambda>enc. pairs_down enc (Suc n) M K) (2 * n + 2) (Suc n)"

definition odd_level :: "nat \<Rightarrow> u32 \<Rightarrow> nat \<Rightarrow> u32 \<Rightarrow> u32 \<Rightarrow> u32 list \<times> u8 list \<Rightarrow> u32 list \<times> u8 list \<Rightarrow> bool" where
  "odd_level n M k i j = undoes (\<lambda>s. do { (buf, out) \<leftarrow> pairs_up n M (\<lambda>_. k) s; buf \<leftarrow> copy_item i j buf; Some (buf, out) })
      (\<lambda>enc (buf, ptr). do { buf \<leftarrow> copy_item j i buf; pairs_down enc n M (\<lambda>_. k) (buf, ptr) }) (2 * n + 1) (n + 1)"

text \<open>An even number of elements, the last pair of which has bounds of its own.\<close>

lemma even_stage:
  assumes len: "length buf < 4294967296" "2 * n + 2 \<le> length buf" and w: "within U (2 * n + 1) V buf" and M: "unat M = U"
    and K: "\<And>i. i < n \<Longrightarrow> K i = k" "K n = l"
    and b: "U * U \<le> 4294967296" "U * V \<le> 4294967296" "U * U \<le> W * 256 ^ k" "U * V \<le> X * 256 ^ l"
  shows "\<exists>buf1 out1. even_level n M K (buf, out) (buf1, out1) \<and> length buf1 = length buf \<and> within W n X buf1 \<and> length out1 = length out + n * k + l"
proof -
  have len2: "2 * Suc n \<le> length buf" using len(2) by simp
  obtain buf1 out1 where 1: "pairs_up (Suc n) M K (buf, out) = Some (buf1, out1)" "length buf1 = length buf"
    "\<forall>i < Suc n. buf1 ! i = drop_bit (8 * K i) (pair_sum M buf i)" "prefix out out1" "length out1 = length out + (\<Sum>i<Suc n. K i)"
    using pairs_up_ok [OF len2 len(1), of M K out] by blast
  have low: "unat (buf ! (2 * i)) < U" "unat (buf ! (2 * i + 1)) < U" if "i < n" for i using w that by (simp_all add: within_def)
  have top: "unat (buf ! (2 * n)) < U" "unat (buf ! (2 * n + 1)) < V" using w by (simp_all add: within_def)
  note pl = pair_sum_less [OF low(1) low(2) M b(1,3)] and pt = pair_sum_less [OF top M b(2,4)]
  have "within W n X buf1" using 1(3) pl(1) pt(1) K by (simp add: within_def)
  moreover have "(\<Sum>i<Suc n. K i) = n * k + l" using K by simp
  moreover have "\<forall>i < Suc n. unat (buf ! (2 * i)) < unat M \<and> unat (buf ! (2 * i)) + unat (buf ! (2 * i + 1)) * unat M < 4294967296"
    using low(1) top(1) pl(2) pt(2) M by (simp add: less_Suc_eq)
  moreover have "undoes (pairs_up (Suc n) M K) (\<lambda>enc. pairs_down enc (Suc n) M K) (2 * n + 2) (Suc n) (buf, out) (buf1, out1)"
    if pre: "\<forall>i < Suc n. unat (buf ! (2 * i)) < unat M \<and> unat (buf ! (2 * i)) + unat (buf ! (2 * i + 1)) * unat M < 4294967296"
  proof (rule undoesI, rule 1(1), rule 1(2), rule 1(4))
    fix enc buf' assume enc: "prefix out1 enc" "length enc < 4294967296" "agree (Suc n) buf' buf1"
    then have "length buf' = length buf" "\<forall>j < Suc n. buf' ! j = buf1 ! j" using 1(2) by (simp_all add: agree_def)
    from pairs_down_ok [OF len2 len(1) 1(1) this enc(1,2) pre]
    show "\<exists>buf2. pairs_down enc (Suc n) M K (buf', of_nat (length out1) - 1) = Some (buf2, of_nat (length out) - 1) \<and> agree (2 * n + 2) buf2 buf"
      by (auto simp: agree_def simp del: down.simps)
  qed
  ultimately have "even_level n M K (buf, out) (buf1, out1) \<and> length buf1 = length buf \<and> within W n X buf1 \<and> length out1 = length out + n * k + l"
    using 1(2,5) by (simp add: even_level_def del: up.simps down.simps sum.lessThan_Suc)
  then show ?thesis by blast
qed

text \<open>An odd number of elements: the last one is copied.\<close>

lemma odd_stage:
  assumes len: "length buf < 4294967296" "2 * n + 1 \<le> length buf" "0 < n" and w: "within U (2 * n) V buf" and M: "unat M = U"
    and b: "U * U \<le> 4294967296" "U * U \<le> W * 256 ^ k" and ij: "unat i = n" "unat j = 2 * n"
  shows "\<exists>buf1 out1. odd_level n M k i j (buf, out) (buf1, out1) \<and> length buf1 = length buf \<and> within W n V buf1 \<and> length out1 = length out + n * k"
proof -
  have len2: "2 * n \<le> length buf" using len(2) by simp
  obtain buf1 out1 where 1: "pairs_up n M (\<lambda>_. k) (buf, out) = Some (buf1, out1)" "length buf1 = length buf" "\<forall>j \<ge> n. buf1 ! j = buf ! j"
    "\<forall>i < n. buf1 ! i = drop_bit (8 * k) (pair_sum M buf i)" "prefix out out1" "length out1 = length out + n * k"
    using pairs_up_ok [OF len2 len(1), of M "\<lambda>_. k" out] by auto
  let ?buf1 = "buf1[n := buf ! (2 * n)]"
  have cp: "copy_item i j buf1 = Some ?buf1" using ij len(2,3) 1(2,3) by (simp add: copy_item_def rd_def wr_def)
  have low: "unat (buf ! (2 * i)) < U" "unat (buf ! (2 * i + 1)) < U" if "i < n" for i using w that by (simp_all add: within_def)
  note pl = pair_sum_less [OF low(1) low(2) M b(1,2)]
  have "within W n V ?buf1" using w 1(2,4) pl(1) len(2,3) by (auto simp: within_def)
  moreover have pre: "\<forall>i < n. unat (buf ! (2 * i)) < unat M \<and> unat (buf ! (2 * i)) + unat (buf ! (2 * i + 1)) * unat M < 4294967296"
    using low(1) pl(2) M by simp
  have "\<exists>buf2. (do { buf \<leftarrow> copy_item j i buf'; pairs_down enc n M (\<lambda>_. k) (buf, of_nat (length out1) - 1) }) = Some (buf2, of_nat (length out) - 1) \<and>
      agree (2 * n + 1) buf2 buf"
    if "prefix out1 enc" "length enc < 4294967296" "agree (n + 1) buf' ?buf1" for enc buf'
  proof -
    let ?b = "buf'[2 * n := buf ! (2 * n)]"
    have b': "length buf' = length buf" "buf' ! n = buf ! (2 * n)" "\<forall>j < n. buf' ! j = buf1 ! j"
      using that(3) len(2) 1(2) by (auto simp: agree_def nth_list_update)
    then have cp': "copy_item j i buf' = Some ?b" using ij len(2) by (simp add: copy_item_def rd_def wr_def)
    have "length ?b = length buf" "\<forall>j < n. ?b ! j = buf1 ! j" using b' len(3) by simp_all
    from pairs_down_ok [OF len2 len(1) 1(1) this that(1,2) pre]
    obtain buf2 where 2: "pairs_down enc n M (\<lambda>_. k) (?b, of_nat (length out1) - 1) = Some (buf2, of_nat (length out) - 1)"
      "length buf2 = length buf" "\<forall>j < 2 * n. buf2 ! j = buf ! j" "\<forall>j \<ge> 2 * n. buf2 ! j = ?b ! j" by blast
    then have "agree (2 * n + 1) buf2 buf" using b'(1) len(2) by (auto simp: agree_def less_Suc_eq)
    then show ?thesis using 2(1) cp' by simp
  qed
  then have "odd_level n M k i j (buf, out) (?buf1, out1)"
    unfolding odd_level_def using 1(1,2,5) cp by (intro undoesI) simp_all
  ultimately show ?thesis using 1(2,6) by (intro exI [of _ ?buf1] exI [of _ out1]) simp
qed

section \<open>The last step\<close>

lemma final_ok:
  assumes w: "within 134 2 9402 buf" and len: "2 < length buf" and out: "length out = 861"
  shows "\<exists>out1. encode_final (buf, out) = Some out1 \<and> length out1 = 865 \<and> prefix out out1 \<and>
    (\<forall>buf'. length buf' = length buf \<longrightarrow>
      (\<exists>buf2. decode_final out1 buf' = Some (buf2, of_nat (length out) - 1) \<and> agree 3 buf2 buf))"
proof -
  let ?x = "buf ! 0" and ?y = "buf ! 1" and ?z = "buf ! 2"
  have b: "unat ?x < 134" "unat ?y < 134" "unat ?z < 9402" using w by (auto simp: within_def)
  define r where "r = ?x + ?y * 134"
  have xy: "unat ?x < unat (134 :: u32)" "unat ?x + unat ?y * unat (134 :: u32) < 4294967296" using b by simp_all
  note r = pair_recover [OF xy, folded r_def]
  have r1: "unat (drop_bit 8 r) < 71" using r(3) b by (simp add: unat_drop_bit)
  define q where "q = drop_bit 8 r + ?z * 71"
  have qz: "unat (drop_bit 8 r) < unat (71 :: u32)" "unat (drop_bit 8 r) + unat ?z * unat (71 :: u32) < 4294967296" using r1 b by simp_all
  note q = pair_recover [OF qz, folded q_def]
  have "unat (drop_bit 24 q) = 0" unfolding unat_drop_bit using q(3) r1 b by simp
  then have q0: "drop_bit 24 q = 0" by (simp only: unat_eq_zero)
  define out0 where "out0 = snd (emit 1 r out)"
  define out1 where "out1 = snd (emit 3 q out0)"
  have 0: "emit 1 r out = (drop_bit 8 r, out0)" "length out0 = 862" "prefix out out0"
    using emit_split(1) [of 1 r out] emit_split(2) [of 1 r] out by (auto simp: out0_def simp del: emit.simps)
  have 1: "emit 3 q out0 = (drop_bit 24 q, out1)" "length out1 = 865" "prefix out0 out1"
    using emit_split(1) [of 3 q out0] emit_split(2) [of 3 q] 0(2) by (auto simp: out1_def simp del: emit.simps)
  have enc: "encode_final (buf, out) = Some out1"
    using len 0(1) 1(1) unfolding q_def by (auto simp: encode_final_def rd_def r_def simp del: emit.simps)
  have "\<exists>buf2. decode_final out1 buf' = Some (buf2, of_nat (length out) - 1) \<and> agree 3 buf2 buf" if "length buf' = length buf" for buf'
  proof -
    let ?b = "buf'[2 := ?z, 1 := ?y, 0 := ?x]"
    have f3: "fetch 3 out1 0 864 = Some (q, 861)"
      using fetch_emit [of 3 q out0 out1] 0(2) 1(2) q0 by (simp add: out1_def)
    have "fetch (Suc 2) out1 0 864 = do { b \<leftarrow> rd out1 864; fetch 2 out1 (push_bit 8 0 + ucast b) (864 - 1) }" by (rule fetch.simps)
    then have "fetch 3 out1 0 864 = do { b \<leftarrow> rd out1 864; fetch 2 out1 (ucast b) (864 - 1) }" by simp
    then have "do { b \<leftarrow> rd out1 864; fetch 2 out1 (ucast b) (864 - 1) } = Some (q, 861)" using f3 by (simp only:)
    then obtain b where b2: "rd out1 864 = Some b" "fetch 2 out1 (ucast b) (864 - 1) = Some (q, 861)" by (rule bind_SomeE)
    have f1: "fetch 1 out1 (drop_bit 8 r) 861 = Some (r, 860)"
      using fetch_emit [of 1 r out out1] 0(2) 1(2,3) out by (simp add: out0_def)
    have ne: "buf' \<noteq> []" using that len by auto
    then have "decode_final out1 buf' = Some (?b, 860)"
      using b2 f1 q r that len by (simp add: decode_final_def wr_def del: fetch.simps)
    moreover have "agree 3 ?b buf"
    proof -
      have "?b ! j = buf ! j" if "j \<in> {0, 1, 2}" for j
        using that ne less_trans [OF zero_less_numeral len] \<open>length buf' = length buf\<close> len by auto
      moreover have "j \<in> {0, 1, 2}" if "j < 3" for j :: nat using that by auto
      ultimately show ?thesis using that by (simp add: agree_def)
    qed
    ultimately show ?thesis using out by auto
  qed
  then show ?thesis using enc 0(3) 1(2,3) by (blast intro: prefix_order.trans)
qed

section \<open>Coefficients\<close>

definition enc_coeff :: "u16 \<Rightarrow> u32" where
  "enc_coeff p = uint32_cmp_ge_branch (ucast p) 2311 (ucast p - 2311) (ucast p + 2310) div 3"

definition dec_coeff :: "u32 \<Rightarrow> u16" where
  "dec_coeff y = ucast (uint32_cmp_ge_branch (y * 3) 2310 (y * 3 - 2310) (y * 3 + 2311))"

text \<open>Reduced, and a multiple of 3 in the representation around 0.\<close>

definition rounded :: "u16 \<Rightarrow> bool" where
  "rounded p \<longleftrightarrow> unat p < 4621 \<and> (if unat p \<le> 2310 then unat p mod 3 = 0 else (4621 - unat p) mod 3 = 0)"

lemma unat_less_u16: "unat (x :: u16) < 65536"
  using unsigned_less [where 'b = 16 and 'a = nat, of x] by simp

lemma unat_ucast_u16: "unat (ucast (p :: u16) :: u32) = unat p"
  using unat_less_u16 [of p] by (simp add: unsigned_ucast_eq take_bit_nat_eq_self)

lemma enc_coeff:
  assumes "unat p < 4621"
  shows "unat (enc_coeff p) = (if 2311 \<le> unat p then unat p - 2311 else unat p + 2310) div 3" "unat (enc_coeff p) < 1541"
proof -
  have p: "unat (ucast p :: u32) = unat p" by (simp add: unat_ucast_u16)
  show e: "unat (enc_coeff p) = (if 2311 \<le> unat p then unat p - 2311 else unat p + 2310) div 3"
  proof (cases "2311 \<le> unat p")
    case True
    then have "unat (ucast p - 2311 :: u32) = unat p - 2311" using p by (subst unat_sub) (simp_all add: word_le_nat_alt)
    then show ?thesis using True p by (simp add: enc_coeff_def uint32_cmp_ge_branch_def word_le_nat_alt unat_div)
  next
    case False
    then have "unat (ucast p + 2310 :: u32) = unat p + 2310" using p by (simp add: unat_word_ariths)
    then show ?thesis using False p by (simp add: enc_coeff_def uint32_cmp_ge_branch_def word_le_nat_alt unat_div)
  qed
  show "unat (enc_coeff p) < 1541" unfolding e using assms by auto
qed

lemma dec_coeff_enc:
  assumes "rounded p"
  shows "dec_coeff (enc_coeff p) = p"
proof -
  have lt: "unat p < 4621" using assms by (simp add: rounded_def)
  let ?y = "unat (enc_coeff p)"
  note e = enc_coeff [OF lt]
  have y3: "unat (enc_coeff p * 3) = ?y * 3" using e(2) by (simp add: unat_word_ariths)
  have "unat (dec_coeff (enc_coeff p)) = unat p"
  proof (cases "2311 \<le> unat p")
    case True
    then have "(4621 - unat p) mod 3 = 0" "?y = (unat p - 2311) div 3" using assms e(1) by (simp_all add: rounded_def)
    then have "?y * 3 + 2311 = unat p" "?y * 3 < 2310" using True lt by presburger+
    then show ?thesis
      using y3 lt by (simp add: dec_coeff_def uint32_cmp_ge_branch_def word_le_nat_alt unsigned_ucast_eq take_bit_nat_eq_self unat_word_ariths)
  next
    case False
    then have "unat p mod 3 = 0" "?y = (unat p + 2310) div 3" using assms e(1) by (simp_all add: rounded_def)
    then have "?y * 3 = unat p + 2310" by presburger
    then show ?thesis
      using y3 lt False by (simp add: dec_coeff_def uint32_cmp_ge_branch_def word_le_nat_alt unsigned_ucast_eq take_bit_nat_eq_self unat_sub)
  qed
  then show ?thesis by (simp only: word_unat_eq_iff)
qed

section \<open>The whole encoding\<close>

lemma convert_ok:
  assumes "length buf = 653" "length poly = 653"
  shows "for_up 0 653 (encode_convert poly) buf = Some (map (\<lambda>i. enc_coeff (poly ! i)) [0..<653])"
proof -
  have u: "unat (653 :: u32) = 653" by simp
  have "up 653 (\<lambda>k. encode_convert poly (of_nat k)) buf = Some (map (\<lambda>i. enc_coeff (poly ! i)) [0..<653])"
    by (rule up_fill [OF assms(1)])
      (simp add: encode_convert_def rd_def wr_def assms(2) unat_of_nat_small enc_coeff_def NTRU_LPR_Q_def)
  then show ?thesis unfolding for_up_0 u .
qed

lemma decode_convert_ok:
  assumes "length buf = 653" "length poly = 653"
  shows "\<exists>buf'. for_up 0 653 decode_convert (buf, poly) = Some (buf', map (\<lambda>i. dec_coeff (buf ! i)) [0..<653])"
proof -
  let ?I = "\<lambda>m (b, p). length b = 653 \<and> length p = 653 \<and> (\<forall>k. m \<le> k \<and> k < 653 \<longrightarrow> b ! k = buf ! k) \<and> (\<forall>k < m. p ! k = dec_coeff (buf ! k))"
  have u: "unat (653 :: u32) = 653" by simp
  have "\<exists>s. up 653 (\<lambda>k. decode_convert (of_nat k)) (buf, poly) = Some s \<and> ?I 653 s"
  proof (rule up_inv [where I = ?I])
    fix k s assume k: "k < 653" and I: "?I k s"
    then show "\<exists>s'. decode_convert (of_nat k) s = Some s' \<and> ?I (Suc k) s'"
      by (auto simp: decode_convert_def rd_def wr_def unat_of_nat_small dec_coeff_def NTRU_LPR_Q_def nth_list_update less_Suc_eq split_beta)
  qed (use assms in simp)
  then obtain b p where "up 653 (\<lambda>k. decode_convert (of_nat k)) (buf, poly) = Some (b, p)" "length p = 653" "\<forall>k < 653. p ! k = dec_coeff (buf ! k)"
    by auto
  moreover from this have "p = map (\<lambda>i. dec_coeff (buf ! i)) [0..<653]" by (auto intro: nth_equalityI)
  ultimately show ?thesis unfolding for_up_0 u by auto
qed

lemma encode_level_up: "encode_level n M k s = pairs_up (unat n) M (\<lambda>_. k) s"
  by (simp add: encode_level_def for_up_0)

lemma decode_level_down: "0 < unat n \<Longrightarrow> decode_level enc n M k s = pairs_down enc (unat n) M (\<lambda>_. k) s"
  by (simp add: decode_level_def for_down_down)

text \<open>What a level says of the code.\<close>

lemma odd_level_encode:
  assumes "odd_level (unat n) M k i j (buf, out) (buf1, out1)"
  shows "\<exists>c. encode_level n M k (buf, out) = Some (c, out1) \<and> copy_item i j c = Some buf1 \<and> prefix out out1"
  using undoesD(1,3) [OF assms [unfolded odd_level_def]] by (auto simp: encode_level_up elim!: bind_SomeE)

lemma odd_level_decode:
  assumes "odd_level (unat n) M k i j (buf, out) (buf1, out1)" "0 < unat n"
    and "prefix out1 enc" "length enc < 4294967296" "agree (unat n + 1) buf' buf1"
  shows "\<exists>d buf2. copy_item j i buf' = Some d \<and> decode_level enc n M k (d, of_nat (length out1) - 1) = Some (buf2, of_nat (length out) - 1) \<and>
    agree (2 * unat n + 1) buf2 buf"
  using undoesD(4) [OF assms(1) [unfolded odd_level_def] assms(3-5)] assms(2) by (auto simp: decode_level_down elim!: bind_SomeE)

lemma even_level_encode:
  assumes "even_level (unat n) M (\<lambda>_. k) (buf, out) (buf1, out1)" "of_nat (unat n) = i"
  shows "\<exists>c o1. encode_level n M k (buf, out) = Some (c, o1) \<and> encode_pair M k i (c, o1) = Some (buf1, out1) \<and> prefix out out1"
  using undoesD(1,3) [OF assms(1) [unfolded even_level_def], unfolded up.simps(2) assms(2)] by (auto simp: encode_level_up elim!: bind_SomeE)

lemma even_level_decode:
  assumes "even_level (unat n) M (\<lambda>_. k) (buf, out) (buf1, out1)" "0 < unat n" "of_nat (unat n) = i"
    and "prefix out1 enc" "length enc < 4294967296" "agree (Suc (unat n)) buf' buf1"
  shows "\<exists>d p buf2. decode_pair enc M k i (buf', of_nat (length out1) - 1) = Some (d, p) \<and>
    decode_level enc n M k (d, p) = Some (buf2, of_nat (length out) - 1) \<and> agree (2 * unat n + 2) buf2 buf"
  using undoesD(4) [OF assms(1) [unfolded even_level_def] assms(4-6), unfolded down.simps(2) assms(3)] assms(2)
  by (auto simp: decode_level_down elim!: bind_SomeE)

end
