(* ===== verification/NtruRoundtrip.thy ===== *)
theory NtruRoundtrip
  imports NtruCodec
begin

text \<open>
  The ten steps of the encoding put together: \<open>ntrulpr_653_decode_poly_round\<close> gives back the
  polynomial that \<open>ntrulpr_653_encode_poly_round\<close> was given.
\<close>

abbreviation last_bytes :: "nat \<Rightarrow> nat" where
  "last_bytes \<equiv> \<lambda>i. if i < 2 then 2 else 1"

lemma last_up: "pairs_up (Suc 2) 2953 last_bytes s = do { s \<leftarrow> encode_pair 2953 2 0 s; s \<leftarrow> encode_pair 2953 2 1 s; encode_pair 2953 1 2 s }"
  by (simp add: numeral_2_eq_2 bind_assoc)

lemma last_down: "pairs_down enc (Suc 2) 2953 last_bytes s =
    do { s \<leftarrow> decode_pair enc 2953 1 2 s; s \<leftarrow> decode_pair enc 2953 2 1 s; decode_pair enc 2953 2 0 s }"
  by (simp add: numeral_2_eq_2)

lemma last_level_encode:
  assumes "even_level 2 2953 last_bytes (buf, out) (buf1, out1)"
  shows "\<exists>c o1 d o2. encode_pair 2953 2 0 (buf, out) = Some (c, o1) \<and> encode_pair 2953 2 1 (c, o1) = Some (d, o2) \<and>
    encode_pair 2953 1 2 (d, o2) = Some (buf1, out1) \<and> prefix out out1"
  using undoesD(1,3) [OF assms [unfolded even_level_def], unfolded last_up] by (auto elim!: bind_SomeE)

lemma last_level_decode:
  assumes "even_level 2 2953 last_bytes (buf, out) (buf1, out1)" "prefix out1 enc" "length enc < 4294967296" "agree 3 buf' buf1"
  shows "\<exists>d p d' p' buf2. decode_pair enc 2953 1 2 (buf', of_nat (length out1) - 1) = Some (d, p) \<and> decode_pair enc 2953 2 1 (d, p) = Some (d', p') \<and>
    decode_pair enc 2953 2 0 (d', p') = Some (buf2, of_nat (length out) - 1) \<and> agree 6 buf2 buf"
proof -
  have "agree (Suc 2) buf' buf1" using assms(4) by (simp add: eval_nat_numeral)
  from undoesD(4) [OF assms(1) [unfolded even_level_def] assms(2,3) this, unfolded last_down] obtain buf2 where b: "agree (2 * 2 + 2) buf2 buf"
    "do { s \<leftarrow> decode_pair enc 2953 1 2 (buf', of_nat (length out1) - 1); s \<leftarrow> decode_pair enc 2953 2 1 s; decode_pair enc 2953 2 0 s } =
      Some (buf2, of_nat (length out) - 1)" by blast
  then show ?thesis by (auto elim!: bind_SomeE)
qed

section \<open>The levels of a polynomial\<close>

lemma all_levels:
  assumes l0: "length b0 = 653" and w0: "within 1541 652 1541 b0"
  obtains b1 o1 b2 o2 b3 o3 b4 o4 b5 o5 b6 o6 b7 o7 b8 o8 where
    "odd_level 326 1541 1 326 652 (b0, []) (b1, o1)" "odd_level 163 9277 2 163 326 (b1, o1) (b2, o2)"
    "even_level 81 1314 (\<lambda>_. 1) (b2, o2) (b3, o3)" "even_level 40 6745 (\<lambda>_. 2) (b3, o3) (b4, o4)"
    "odd_level 20 695 1 20 40 (b4, o4) (b5, o5)" "odd_level 10 1887 1 10 20 (b5, o5) (b6, o6)"
    "odd_level 5 13910 2 5 10 (b6, o6) (b7, o7)" "even_level 2 2953 last_bytes (b7, o7) (b8, o8)"
    "length b8 = 653" "within 134 2 9402 b8" "length o8 = 861"
proof -
  obtain b1 o1 where 1: "odd_level 326 1541 1 326 652 (b0, []) (b1, o1)" "length b1 = 653" "within 9277 326 1541 b1" "length o1 = 326"
    using odd_stage [of b0 326 1541 1541 1541 9277 1 326 652 "[]"] l0 w0 by auto
  obtain b2 o2 where 2: "odd_level 163 9277 2 163 326 (b1, o1) (b2, o2)" "length b2 = 653" "within 1314 163 1541 b2" "length o2 = 652"
    using odd_stage [of b1 163 9277 1541 9277 1314 2 163 326 o1] 1 by auto
  obtain b3 o3 where 3: "even_level 81 1314 (\<lambda>_. 1) (b2, o2) (b3, o3)" "length b3 = 653" "within 6745 81 7910 b3" "length o3 = 734"
    using even_stage [of b2 81 1314 1541 1314 "\<lambda>_. 1" 1 1 6745 7910 o2] 2 by auto
  obtain b4 o4 where 4: "even_level 40 6745 (\<lambda>_. 2) (b3, o3) (b4, o4)" "length b4 = 653" "within 695 40 815 b4" "length o4 = 816"
    using even_stage [of b3 40 6745 7910 6745 "\<lambda>_. 2" 2 2 695 815 o3] 3 by auto
  obtain b5 o5 where 5: "odd_level 20 695 1 20 40 (b4, o4) (b5, o5)" "length b5 = 653" "within 1887 20 815 b5" "length o5 = 836"
    using odd_stage [of b4 20 695 815 695 1887 1 20 40 o4] 4 by auto
  obtain b6 o6 where 6: "odd_level 10 1887 1 10 20 (b5, o5) (b6, o6)" "length b6 = 653" "within 13910 10 815 b6" "length o6 = 846"
    using odd_stage [of b5 10 1887 815 1887 13910 1 10 20 o5] 5 by auto
  obtain b7 o7 where 7: "odd_level 5 13910 2 5 10 (b6, o6) (b7, o7)" "length b7 = 653" "within 2953 5 815 b7" "length o7 = 856"
    using odd_stage [of b6 5 13910 815 13910 2953 2 5 10 o6] 6 by auto
  obtain b8 o8 where 8: "even_level 2 2953 last_bytes (b7, o7) (b8, o8)" "length b8 = 653" "within 134 2 9402 b8" "length o8 = 861"
    using even_stage [of b7 2 2953 815 2953 last_bytes 2 1 134 9402 o7] 7 by auto
  show thesis by (rule that) (rule 1 2 3 4 5 6 7 8)+
qed

lemma levels_encode:
  assumes l: "odd_level 326 1541 1 326 652 (b0, []) (b1, o1)" "odd_level 163 9277 2 163 326 (b1, o1) (b2, o2)"
    "even_level 81 1314 (\<lambda>_. 1) (b2, o2) (b3, o3)" "even_level 40 6745 (\<lambda>_. 2) (b3, o3) (b4, o4)"
    "odd_level 20 695 1 20 40 (b4, o4) (b5, o5)" "odd_level 10 1887 1 10 20 (b5, o5) (b6, o6)"
    "odd_level 5 13910 2 5 10 (b6, o6) (b7, o7)" "even_level 2 2953 last_bytes (b7, o7) (b8, o8)"
    and conv: "for_up 0 653 (encode_convert poly) buf = Some b0" and final: "encode_final (b8, o8) = Some out"
  shows "ntrulpr_653_encode_poly_round buf poly = Some out"
    "prefix o1 o2" "prefix o2 o3" "prefix o3 o4" "prefix o4 o5" "prefix o5 o6" "prefix o6 o7" "prefix o7 o8"
proof -
  obtain c1 where 1: "encode_level 326 1541 1 (b0, []) = Some (c1, o1)" "copy_item 326 652 c1 = Some b1" "prefix [] o1"
    using odd_level_encode [of 326 1541 1 326 652 b0 "[]" b1 o1] l(1) by auto
  obtain c2 where 2: "encode_level 163 9277 2 (b1, o1) = Some (c2, o2)" "copy_item 163 326 c2 = Some b2" "prefix o1 o2"
    using odd_level_encode [of 163 9277 2 163 326 b1 "o1" b2 o2] l(2) by auto
  obtain c3 p3 where 3: "encode_level 81 1314 1 (b2, o2) = Some (c3, p3)" "encode_pair 1314 1 81 (c3, p3) = Some (b3, o3)" "prefix o2 o3"
    using even_level_encode [of 81 1314 1 b2 o2 b3 o3 81] l(3) by auto
  obtain c4 p4 where 4: "encode_level 40 6745 2 (b3, o3) = Some (c4, p4)" "encode_pair 6745 2 40 (c4, p4) = Some (b4, o4)" "prefix o3 o4"
    using even_level_encode [of 40 6745 2 b3 o3 b4 o4 40] l(4) by auto
  obtain c5 where 5: "encode_level 20 695 1 (b4, o4) = Some (c5, o5)" "copy_item 20 40 c5 = Some b5" "prefix o4 o5"
    using odd_level_encode [of 20 695 1 20 40 b4 "o4" b5 o5] l(5) by auto
  obtain c6 where 6: "encode_level 10 1887 1 (b5, o5) = Some (c6, o6)" "copy_item 10 20 c6 = Some b6" "prefix o5 o6"
    using odd_level_encode [of 10 1887 1 10 20 b5 "o5" b6 o6] l(6) by auto
  obtain c7 where 7: "encode_level 5 13910 2 (b6, o6) = Some (c7, o7)" "copy_item 5 10 c7 = Some b7" "prefix o6 o7"
    using odd_level_encode [of 5 13910 2 5 10 b6 "o6" b7 o7] l(7) by auto
  obtain c8 p8 d8 q8 where 8: "encode_pair 2953 2 0 (b7, o7) = Some (c8, p8)" "encode_pair 2953 2 1 (c8, p8) = Some (d8, q8)"
      "encode_pair 2953 1 2 (d8, q8) = Some (b8, o8)" "prefix o7 o8"
    using last_level_encode [OF l(8)] by blast
  show "ntrulpr_653_encode_poly_round buf poly = Some out"
    using final by (simp add: ntrulpr_653_encode_poly_round_def conv 1 2 3 4 5 6 7 8 del: One_nat_def)
  show "prefix o1 o2" "prefix o2 o3" "prefix o3 o4" "prefix o4 o5" "prefix o5 o6" "prefix o6 o7" "prefix o7 o8"
    by (fact 2 3 4 5 6 7 8)+
qed

lemma levels_decode:
  assumes l: "odd_level 326 1541 1 326 652 (b0, []) (b1, o1)" "odd_level 163 9277 2 163 326 (b1, o1) (b2, o2)"
    "even_level 81 1314 (\<lambda>_. 1) (b2, o2) (b3, o3)" "even_level 40 6745 (\<lambda>_. 2) (b3, o3) (b4, o4)"
    "odd_level 20 695 1 20 40 (b4, o4) (b5, o5)" "odd_level 10 1887 1 10 20 (b5, o5) (b6, o6)"
    "odd_level 5 13910 2 5 10 (b6, o6) (b7, o7)" "even_level 2 2953 last_bytes (b7, o7) (b8, o8)"
    and enc: "prefix o8 enc" "length enc < 4294967296" and final: "decode_final enc buf = Some (e8, of_nat (length o8) - 1)" "agree 3 e8 b8"
    and pre: "prefix o1 enc" "prefix o2 enc" "prefix o3 enc" "prefix o4 enc" "prefix o5 enc" "prefix o6 enc" "prefix o7 enc"
    and len: "length b0 = 653" "length poly = 653"
  shows "ntrulpr_653_decode_poly_round buf enc poly = Some (map (\<lambda>i. dec_coeff (b0 ! i)) [0..<653])"
proof -
  obtain f8 p8 g8 q8 e7 where 8: "decode_pair enc 2953 1 2 (e8, of_nat (length o8) - 1) = Some (f8, p8)" "decode_pair enc 2953 2 1 (f8, p8) = Some (g8, q8)"
      "decode_pair enc 2953 2 0 (g8, q8) = Some (e7, of_nat (length o7) - 1)" "agree 6 e7 b7"
    using last_level_decode [OF l(8) enc final(2)] by blast
  obtain f7 e6 where 7: "copy_item 10 5 e7 = Some f7" "decode_level enc 5 13910 2 (f7, of_nat (length o7) - 1) = Some (e6, of_nat (length o6) - 1)"
      "agree 11 e6 b6"
    using odd_level_decode [of 5 13910 2 5 10 b6 "o6" b7 o7 enc e7] l(7) pre(7) enc(2) 8(4) by auto
  obtain f6 e5 where 6: "copy_item 20 10 e6 = Some f6" "decode_level enc 10 1887 1 (f6, of_nat (length o6) - 1) = Some (e5, of_nat (length o5) - 1)"
      "agree 21 e5 b5"
    using odd_level_decode [of 10 1887 1 10 20 b5 "o5" b6 o6 enc e6] l(6) pre(6) enc(2) 7(3) by auto
  obtain f5 e4 where 5: "copy_item 40 20 e5 = Some f5" "decode_level enc 20 695 1 (f5, of_nat (length o5) - 1) = Some (e4, of_nat (length o4) - 1)"
      "agree 41 e4 b4"
    using odd_level_decode [of 20 695 1 20 40 b4 "o4" b5 o5 enc e5] l(5) pre(5) enc(2) 6(3) by auto
  obtain f4 p4 e3 where 4: "decode_pair enc 6745 2 40 (e4, of_nat (length o4) - 1) = Some (f4, p4)"
      "decode_level enc 40 6745 2 (f4, p4) = Some (e3, of_nat (length o3) - 1)" "agree 82 e3 b3"
    using even_level_decode [of 40 6745 2 b3 o3 b4 o4 40 enc e4] l(4) pre(4) enc(2) 5(3) by auto
  obtain f3 p3 e2 where 3: "decode_pair enc 1314 1 81 (e3, of_nat (length o3) - 1) = Some (f3, p3)"
      "decode_level enc 81 1314 1 (f3, p3) = Some (e2, of_nat (length o2) - 1)" "agree 164 e2 b2"
    using even_level_decode [of 81 1314 1 b2 o2 b3 o3 81 enc e3] l(3) pre(3) enc(2) 4(3) by auto
  obtain f2 e1 where 2: "copy_item 326 163 e2 = Some f2" "decode_level enc 163 9277 2 (f2, of_nat (length o2) - 1) = Some (e1, of_nat (length o1) - 1)"
      "agree 327 e1 b1"
    using odd_level_decode [of 163 9277 2 163 326 b1 "o1" b2 o2 enc e2] l(2) pre(2) enc(2) 3(3) by auto
  obtain f1 e0 where 1: "copy_item 652 326 e1 = Some f1" "decode_level enc 326 1541 1 (f1, of_nat (length o1) - 1) = Some (e0, of_nat (length ([] :: u8 list)) - 1)"
      "agree 653 e0 b0"
    using odd_level_decode [of 326 1541 1 326 652 b0 "[]" b1 o1 enc e1] l(1) pre(1) enc(2) 2(3) by auto
  obtain b where "for_up 0 653 decode_convert (e0, poly) = Some (b, map (\<lambda>i. dec_coeff (e0 ! i)) [0..<653])"
    using decode_convert_ok [of e0 poly] 1(3) len by (auto simp: agree_def)
  moreover have "map (\<lambda>i. dec_coeff (e0 ! i)) [0..<653] = map (\<lambda>i. dec_coeff (b0 ! i)) [0..<653]"
    using 1(3) by (simp add: agree_def)
  ultimately show ?thesis
    by (simp add: ntrulpr_653_decode_poly_round_def final(1) 1 2 3 4 5 6 7 8 del: One_nat_def)
qed

lemma codec_ok:
  assumes buf: "length buf = 653" and poly: "length poly = 653" "\<forall>i < 653. unat (poly ! i) < 4621"
  shows "\<exists>enc. ntrulpr_653_encode_poly_round buf poly = Some enc \<and> length enc = 865 \<and>
    (\<forall>buf' poly'. length buf' = 653 \<longrightarrow> length poly' = 653 \<longrightarrow>
       ntrulpr_653_decode_poly_round buf' enc poly' = Some (map (\<lambda>i. dec_coeff (enc_coeff (poly ! i))) [0..<653]))"
proof -
  define b0 where "b0 = map (\<lambda>i. enc_coeff (poly ! i)) [0..<653]"
  have conv: "for_up 0 653 (encode_convert poly) buf = Some b0" unfolding b0_def by (rule convert_ok [OF buf poly(1)])
  have l0: "length b0 = 653" and w0: "within 1541 652 1541 b0" using poly(2) by (simp_all add: b0_def within_def enc_coeff(2))
  obtain b1 o1 b2 o2 b3 o3 b4 o4 b5 o5 b6 o6 b7 o7 b8 o8 where
    l: "odd_level 326 1541 1 326 652 (b0, []) (b1, o1)" "odd_level 163 9277 2 163 326 (b1, o1) (b2, o2)"
    "even_level 81 1314 (\<lambda>_. 1) (b2, o2) (b3, o3)" "even_level 40 6745 (\<lambda>_. 2) (b3, o3) (b4, o4)"
    "odd_level 20 695 1 20 40 (b4, o4) (b5, o5)" "odd_level 10 1887 1 10 20 (b5, o5) (b6, o6)"
    "odd_level 5 13910 2 5 10 (b6, o6) (b7, o7)" "even_level 2 2953 last_bytes (b7, o7) (b8, o8)"
    and l8: "length b8 = 653" "within 134 2 9402 b8" "length o8 = 861" by (rule all_levels [OF l0 w0])
  obtain enc where 9: "encode_final (b8, o8) = Some enc" "length enc = 865" "prefix o8 enc"
    "\<And>buf'. length buf' = length b8 \<Longrightarrow> \<exists>buf2. decode_final enc buf' = Some (buf2, of_nat (length o8) - 1) \<and> agree 3 buf2 b8"
    using final_ok [OF l8(2) _ l8(3)] l8(1) by auto
  note e = levels_encode [OF l conv 9(1)]
  have p7: "prefix o7 enc" using e(8) 9(3) by (rule prefix_order.trans)
  have p6: "prefix o6 enc" using e(7) p7 by (rule prefix_order.trans)
  have p5: "prefix o5 enc" using e(6) p6 by (rule prefix_order.trans)
  have p4: "prefix o4 enc" using e(5) p5 by (rule prefix_order.trans)
  have p3: "prefix o3 enc" using e(4) p4 by (rule prefix_order.trans)
  have p2: "prefix o2 enc" using e(3) p3 by (rule prefix_order.trans)
  have p1: "prefix o1 enc" using e(2) p2 by (rule prefix_order.trans)
  have len: "length enc < 4294967296" using 9(2) by simp
  have "ntrulpr_653_decode_poly_round buf' enc poly' = Some (map (\<lambda>i. dec_coeff (enc_coeff (poly ! i))) [0..<653])"
    if b': "length buf' = 653" and p': "length poly' = 653" for buf' poly'
  proof -
    obtain e8 where e8: "decode_final enc buf' = Some (e8, of_nat (length o8) - 1)" "agree 3 e8 b8" using 9(4) [of buf'] b' l8(1) by auto
    have "ntrulpr_653_decode_poly_round buf' enc poly' = Some (map (\<lambda>i. dec_coeff (b0 ! i)) [0..<653])"
      by (rule levels_decode [OF l 9(3) len e8 p1 p2 p3 p4 p5 p6 p7 l0 p'])
    also have "map (\<lambda>i. dec_coeff (b0 ! i)) [0..<653] = map (\<lambda>i. dec_coeff (enc_coeff (poly ! i))) [0..<653]" by (simp add: b0_def)
    finally show ?thesis .
  qed
  then show ?thesis using e(1) 9(2) by blast
qed


text \<open>C24: every polynomial of 653 rounded coefficients is encoded in 865 bytes, and decoding them
  gives the polynomial back, whatever the local arrays held.\<close>

theorem ntru_encode_roundtrip:
  assumes "length buf = 653" "length buf' = 653" "length poly' = 653" and poly: "length poly = 653" "\<forall>i < 653. rounded (poly ! i)"
  shows "\<exists>enc. ntrulpr_653_encode_poly_round buf poly = Some enc \<and> length enc = 865 \<and>
    ntrulpr_653_decode_poly_round buf' enc poly' = Some poly"
proof -
  have "\<forall>i < 653. unat (poly ! i) < 4621" using poly(2) by (simp add: rounded_def)
  moreover have "map (\<lambda>i. dec_coeff (enc_coeff (poly ! i))) [0..<653] = poly"
    using poly by (intro nth_equalityI) (simp_all add: dec_coeff_enc)
  ultimately show ?thesis using codec_ok [OF assms(1) poly(1)] assms(2,3) by auto
qed

lemma ntru_encode_roundtrip_witness:
  "\<exists>enc. ntrulpr_653_encode_poly_round (replicate 653 7) (replicate 326 3 @ replicate 327 4618) = Some enc \<and> length enc = 865 \<and>
    ntrulpr_653_decode_poly_round (replicate 653 1) enc (replicate 653 0) = Some (replicate 326 3 @ replicate 327 4618)"
  by (rule ntru_encode_roundtrip) (auto simp: nth_append rounded_def)

end
