(* ===== verification/ByteMem.thy ===== *)
theory ByteMem
  imports Prelude
begin

text \<open>
  The byte memory under the string routines, and \<open>include/string_internal.h\<close>.
  A memory is its contents, total over the 64-bit addresses, together with the
  set of addresses the program may touch.  \<open>read_u64\<close> and \<open>write_u64\<close> follow
  the contract stated in that header: an aligned 8-byte read is allowed as soon
  as one of its bytes may be read, an aligned 8-byte write needs all of them.
  Every other access is a fault, the value \<^term>\<open>None\<close>.
\<close>

section \<open>Bytes of a word\<close>

definition byte_of :: "u64 \<Rightarrow> nat \<Rightarrow> u8" where
  "byte_of w i = ucast (drop_bit (8 * i) w)"

definition word_of_bytes :: "u8 list \<Rightarrow> u64" where
  "word_of_bytes bs = foldr (\<lambda>b w. ucast b OR push_bit 8 w) bs 0"

lemma bit_byte_of: "bit (byte_of w i) j \<longleftrightarrow> j < 8 \<and> bit w (8 * i + j)"
  by (auto simp: byte_of_def bit_simps dest: bit_imp_le_length)

lemma byte_of_eqI: "(\<And>i. i < 8 \<Longrightarrow> byte_of v i = byte_of w i) \<Longrightarrow> v = w"
proof (rule bit_word_eqI)
  fix n assume eq: "\<And>i. i < 8 \<Longrightarrow> byte_of v i = byte_of w i" and n: "n < LENGTH(64)"
  have "bit (byte_of v (n div 8)) (n mod 8) = bit (byte_of w (n div 8)) (n mod 8)"
    using n by (subst eq) auto
  then show "bit v n = bit w n"
    by (simp add: bit_byte_of)
qed

lemma byte_of_ge [byte_simps]: "8 \<le> i \<Longrightarrow> byte_of w i = 0"
  by (rule bit_word_eqI) (auto simp: bit_byte_of dest!: bit_imp_le_length)

lemma byte_of_0_word [byte_simps]: "byte_of 0 i = 0"
  by (simp add: byte_of_def)

lemma byte_of_drop [byte_simps]: "byte_of (drop_bit (8 * k) w) i = byte_of w (k + i)"
  by (rule bit_word_eqI) (simp add: bit_byte_of bit_simps algebra_simps)

lemma byte_of_push [byte_simps]:
  "byte_of (push_bit (8 * k) w) i = (if k \<le> i \<and> i < 8 then byte_of w (i - k) else 0)"
proof (rule bit_word_eqI)
  fix n assume "n < LENGTH(8)"
  then have n: "n < 8" by simp
  have "8 * k \<le> 8 * i + n \<longleftrightarrow> k \<le> i" "8 * i + n < 64 \<longleftrightarrow> i < 8"
    using n by arith+
  then show "bit (byte_of (push_bit (8 * k) w) i) n =
      bit (if k \<le> i \<and> i < 8 then byte_of w (i - k) else 0) n"
    using n by (auto simp: bit_byte_of bit_simps diff_mult_distrib2)
qed

lemma byte_of_or [byte_simps]: "byte_of (v OR w) i = byte_of v i OR byte_of w i"
  by (rule bit_word_eqI) (auto simp: bit_byte_of bit_simps)

lemma byte_of_and [byte_simps]: "byte_of (v AND w) i = byte_of v i AND byte_of w i"
  by (rule bit_word_eqI) (auto simp: bit_byte_of bit_simps)

lemma byte_of_xor [byte_simps]: "byte_of (v XOR w) i = byte_of v i XOR byte_of w i"
  by (rule bit_word_eqI) (auto simp: bit_byte_of bit_simps)

lemma byte_of_cons:
  "byte_of (ucast b OR push_bit 8 w) i = (if i = 0 then b else if i < 8 then byte_of w (i - 1) else 0)"
proof -
  have "byte_of (ucast b) i = (if i = 0 then b else 0)"
    by (rule bit_word_eqI) (auto simp: bit_byte_of bit_simps dest!: bit_imp_le_length)
  moreover have "push_bit 8 w = push_bit (8 * 1) w" by simp
  ultimately show ?thesis
    by (simp only: byte_of_or byte_of_push) auto
qed

lemma byte_of_word_of_bytes:
  "byte_of (word_of_bytes bs) i = (if i < length bs \<and> i < 8 then bs ! i else 0)"
proof (induction bs arbitrary: i)
  case Nil
  then show ?case by (simp add: word_of_bytes_def byte_of_0_word)
next
  case (Cons b bs)
  have "word_of_bytes (b # bs) = ucast b OR push_bit 8 (word_of_bytes bs)"
    by (simp add: word_of_bytes_def)
  then show ?case
    by (simp only: byte_of_cons Cons.IH) (auto simp: nth_Cons')
qed

lemma byte_of_0: "byte_of w 0 = ucast w"
  by (simp add: byte_of_def)

lemma ff_mask: "(0xff :: u64) = mask 8"
  by (simp add: mask_eq_exp_minus_1)

lemma ucast_and_ff: "(ucast (w AND 0xff) :: u8) = byte_of w 0"
  unfolding ff_mask by (rule bit_word_eqI) (auto simp: bit_byte_of bit_simps)

lemma and_ff_ucast: "w AND 0xff = (ucast (byte_of w 0) :: u64)"
  unfolding ff_mask by (rule bit_word_eqI) (auto simp: bit_byte_of bit_simps)

lemma and_ff_eq_iff: "v AND 0xff = w AND 0xff \<longleftrightarrow> byte_of v 0 = byte_of w 0"
proof
  assume "v AND 0xff = w AND 0xff"
  then show "byte_of v 0 = byte_of w 0"
    by (metis ucast_and_ff)
qed (simp add: and_ff_ucast)

lemma and_ff_zero_iff: "v AND 0xff = 0 \<longleftrightarrow> byte_of v 0 = 0"
  using and_ff_eq_iff [of v 0] by (simp add: byte_of_0_word)

section \<open>Memory\<close>

record mem =
  content :: "u64 \<Rightarrow> u8"
  accessible :: "u64 \<Rightarrow> bool"

definition read_byte :: "mem \<Rightarrow> u64 \<Rightarrow> u8 option" where
  "read_byte m p = (if accessible m p then Some (content m p) else None)"

definition write_byte :: "mem \<Rightarrow> u64 \<Rightarrow> u8 \<Rightarrow> mem option" where
  "write_byte m p b =
     (if accessible m p then Some (m\<lparr>content := (content m)(p := b)\<rparr>) else None)"

definition aligned8 :: "u64 \<Rightarrow> bool" where
  "aligned8 p \<longleftrightarrow> p AND 7 = 0"

definition read_u64 :: "mem \<Rightarrow> u64 \<Rightarrow> u64 option" where
  "read_u64 m p =
     (if aligned8 p \<and> list_ex (\<lambda>i. accessible m (p + of_nat i)) [0..<8]
      then Some (word_of_bytes (map (\<lambda>i. content m (p + of_nat i)) [0..<8]))
      else None)"

definition write_u64 :: "mem \<Rightarrow> u64 \<Rightarrow> u64 \<Rightarrow> mem option" where
  "write_u64 m p w =
     (if aligned8 p \<and> list_all (\<lambda>i. accessible m (p + of_nat i)) [0..<8]
      then Some (m\<lparr>content := (\<lambda>a. if unat (a - p) < 8 then byte_of w (unat (a - p)) else content m a)\<rparr>)
      else None)"

text \<open>The specification counterpart of a stretch of writes: the bytes at offsets
  \<open>lo \<le> i < hi\<close> from \<open>d\<close> become \<open>f i\<close>.\<close>

definition put_range :: "mem \<Rightarrow> u64 \<Rightarrow> nat \<Rightarrow> nat \<Rightarrow> (nat \<Rightarrow> u8) \<Rightarrow> mem" where
  "put_range m d lo hi f =
     m\<lparr>content := (\<lambda>a. if lo \<le> unat (a - d) \<and> unat (a - d) < hi then f (unat (a - d)) else content m a)\<rparr>"

abbreviation put_bytes :: "mem \<Rightarrow> u64 \<Rightarrow> nat \<Rightarrow> (nat \<Rightarrow> u8) \<Rightarrow> mem" where
  "put_bytes m d k f \<equiv> put_range m d 0 k f"

text \<open>The bytes from \<open>p\<close>: their addresses, their contents and the right to touch them.\<close>

definition addr :: "u64 \<Rightarrow> nat \<Rightarrow> u64" where
  "addr p k = p + of_nat k"

definition bytes_at :: "mem \<Rightarrow> u64 \<Rightarrow> nat \<Rightarrow> u8" where
  "bytes_at m p i = content m (addr p i)"

definition can_access :: "mem \<Rightarrow> u64 \<Rightarrow> nat \<Rightarrow> bool" where
  "can_access m p n \<longleftrightarrow> (\<forall>i < n. accessible m (addr p i))"

text \<open>What is left of a counter that started at \<open>N\<close>.\<close>

definition remaining :: "nat \<Rightarrow> nat \<Rightarrow> u64" where
  "remaining N k = of_nat (N - k)"

subsection \<open>Address arithmetic\<close>

lemma unat_less_2p64: "unat (x :: u64) < 2 ^ 64"
  using unsigned_less [where 'b = 64 and 'a = nat, of x] by simp

lemma unat_offset: "k < 2 ^ 64 \<Longrightarrow> unat (d + of_nat k - d :: u64) = k"
  by (simp add: unat_of_nat take_bit_nat_eq_self)

lemma unat_of_nat_u64 [addr_simps]: "k < 2 ^ 64 \<Longrightarrow> unat (of_nat k :: u64) = k"
  by (simp add: unat_of_nat take_bit_nat_eq_self)

lemma of_nat_eq_iff_u64 [addr_simps]:
  "i < 2 ^ 64 \<Longrightarrow> j < 2 ^ 64 \<Longrightarrow> (of_nat i :: u64) = of_nat j \<longleftrightarrow> i = j"
  by (metis unat_of_nat_u64)

lemma offset_cancel: "a = d + of_nat (unat (a - d :: u64))"
  by simp

lemma unat_diff_offset:
  fixes a d :: u64
  assumes "j \<le> unat (a - d)"
  shows "unat (a - (d + of_nat j)) = unat (a - d) - j"
proof -
  have j: "j < 2 ^ 64" using assms unat_less_2p64 [of "a - d"] by simp
  then have "of_nat j \<le> a - d"
    using assms by (simp add: word_le_nat_alt unat_of_nat_u64)
  then have "unat (a - d - of_nat j) = unat (a - d) - unat (of_nat j :: u64)"
    by (rule unat_minus_le_u64)
  then show ?thesis using j by (simp add: unat_of_nat_u64 diff_diff_eq)
qed

subsection \<open>Stretches of writes\<close>

lemma accessible_put [simp]: "accessible (put_range m d lo hi f) = accessible m"
  by (simp add: put_range_def)

lemma can_access_put [simp]: "can_access (put_range m d lo hi f) = can_access m"
  by (simp add: can_access_def fun_eq_iff)

lemma content_put:
  "j < 2 ^ 64 \<Longrightarrow> content (put_range m d lo hi f) (d + of_nat j)
     = (if lo \<le> j \<and> j < hi then f j else content m (d + of_nat j))"
  by (simp add: put_range_def unat_of_nat_u64)

lemma content_put_outside:
  "(\<And>j. lo \<le> j \<Longrightarrow> j < hi \<Longrightarrow> d + of_nat j \<noteq> a) \<Longrightarrow> content (put_range m d lo hi f) a = content m a"
  by (auto simp: put_range_def) (metis offset_cancel)

lemma content_update_eqI:
  "(\<And>a. f a = g a) \<Longrightarrow> m\<lparr>content := f\<rparr> = m\<lparr>content := g\<rparr>"
  by presburger

lemma content_update_selfI: "(\<And>a. f a = content m a) \<Longrightarrow> m\<lparr>content := f\<rparr> = m"
  by (cases m) auto

lemma put_range_empty [simp]: "put_range m d k k f = m"
  unfolding put_range_def by (rule content_update_selfI) auto

lemma put_range_cong:
  "(\<And>i. lo \<le> i \<Longrightarrow> i < hi \<Longrightarrow> f i = g i) \<Longrightarrow> put_range m d lo hi f = put_range m d lo hi g"
  unfolding put_range_def by (rule content_update_eqI) simp

lemma put_range_content_eqI:
  "(\<And>a. (if lo \<le> unat (a - d) \<and> unat (a - d) < hi then f (unat (a - d)) else content m a) =
     content m' a) \<Longrightarrow> accessible m = accessible m' \<Longrightarrow> put_range m d lo hi f = m'" for m m' :: mem
  by (cases m; cases m') (auto simp: put_range_def)

lemma unat_diff_eq_iff: "k < 2 ^ 64 \<Longrightarrow> unat (a - d) = k \<longleftrightarrow> a = d + of_nat k" for a d :: u64
  using offset_cancel [of a d] unat_of_nat_u64 [of k] by fastforce

lemma unat_window:
  fixes a d :: u64
  assumes "k + w \<le> 2 ^ 64"
  shows "unat (a - (d + of_nat k)) < w \<longleftrightarrow> k \<le> unat (a - d) \<and> unat (a - d) < k + w"
proof
  let ?i = "unat (a - (d + of_nat k))"
  assume i: "?i < w"
  have "a - d = of_nat (k + ?i)" by simp
  then have "unat (a - d) = k + ?i"
    using assms i by (metis unat_of_nat_u64 add_less_cancel_left less_le_trans)
  with i show "k \<le> unat (a - d) \<and> unat (a - d) < k + w" by simp
qed (simp add: unat_diff_offset less_diff_conv2 add.commute)

text \<open>A store is a stretch of one byte, or of eight; adjacent stretches merge.\<close>

lemma write_byte_eq:
  assumes "accessible m (d + of_nat k)" "k < 2 ^ 64" "b = f k"
  shows "write_byte m (d + of_nat k) b = Some (put_range m d k (Suc k) f)"
proof -
  have "((content m)(d + of_nat k := b)) a =
      (if k \<le> unat (a - d) \<and> unat (a - d) < Suc k then f (unat (a - d)) else content m a)" for a
    using assms unat_diff_eq_iff [OF assms(2), of a d] by (auto simp: less_Suc_eq_le le_antisym)
  then have "(content m)(d + of_nat k := b) =
      (\<lambda>a. if k \<le> unat (a - d) \<and> unat (a - d) < Suc k then f (unat (a - d)) else content m a)"
    by (rule ext)
  then show ?thesis
    using assms(1) unfolding write_byte_def put_range_def by (simp only: if_True)
qed

lemma write_u64_eq:
  assumes "aligned8 (d + of_nat k)" "\<And>i. i < 8 \<Longrightarrow> accessible m (d + of_nat (k + i))"
    "k + 8 \<le> 2 ^ 64" "\<And>i. i < 8 \<Longrightarrow> byte_of w i = f (k + i)"
  shows "write_u64 m (d + of_nat k) w = Some (put_range m d k (k + 8) f)"
proof -
  have window: "unat (a - (d + of_nat k)) < 8 \<longleftrightarrow> k \<le> unat (a - d) \<and> unat (a - d) < k + 8" for a
    using assms(3) by (rule unat_window)
  have "(if unat (a - (d + of_nat k)) < 8 then byte_of w (unat (a - (d + of_nat k))) else content m a) =
      (if k \<le> unat (a - d) \<and> unat (a - d) < k + 8 then f (unat (a - d)) else content m a)" for a
  proof (cases "k \<le> unat (a - d) \<and> unat (a - d) < k + 8")
    case True
    then have "byte_of w (unat (a - (d + of_nat k))) = f (unat (a - d))"
      using assms(4) [of "unat (a - d) - k"] by (auto simp: unat_diff_offset)
    with True show ?thesis by (simp only: window)
  qed (simp only: window if_False)
  then show ?thesis
    using assms(1,2) unfolding write_u64_def put_range_def
    by (simp add: list_all_iff ac_simps)
qed

lemma put_range_append [simp]:
  "lo \<le> k \<Longrightarrow> k \<le> hi \<Longrightarrow> put_range (put_range m d lo k f) d k hi f = put_range m d lo hi f"
  unfolding put_range_def by (simp, rule content_update_eqI) auto

lemma put_range_prepend [simp]:
  "lo \<le> k \<Longrightarrow> k \<le> hi \<Longrightarrow> put_range (put_range m d k hi f) d lo k f = put_range m d lo hi f"
  unfolding put_range_def by (simp, rule content_update_eqI) auto

subsection \<open>Reading words\<close>

definition word_at :: "mem \<Rightarrow> u64 \<Rightarrow> u64" where
  "word_at m p = word_of_bytes (map (\<lambda>i. content m (p + of_nat i)) [0..<8])"

lemma byte_of_word_at [byte_simps]:
  "byte_of (word_at m p) i = (if i < 8 then content m (p + of_nat i) else 0)"
  by (simp add: word_at_def byte_of_word_of_bytes del: upt_Suc)

lemma read_u64_eq:
  "aligned8 p \<Longrightarrow> accessible m (p + of_nat j) \<Longrightarrow> j < 8 \<Longrightarrow> read_u64 m p = Some (word_at m p)"
  by (auto simp: read_u64_def word_at_def list_ex_iff)

lemma read_byte_eq: "accessible m p \<Longrightarrow> read_byte m p = Some (content m p)"
  by (simp add: read_byte_def)

subsection \<open>Alignment\<close>

definition off8 :: "u64 \<Rightarrow> nat" where
  "off8 p = unat p mod 8"

lemma unat_and_7 [addr_simps]: "unat (p AND 7 :: u64) = off8 p"
proof -
  have "(7 :: u64) = mask 3" by (simp add: mask_eq_exp_minus_1)
  then show ?thesis
    by (simp only: off8_def flip: take_bit_eq_mask) (simp add: take_bit_eq_mod unat_mod_distrib)
qed

lemma and_7_zero_iff [addr_simps]: "p AND 7 = (0 :: u64) \<longleftrightarrow> off8 p = 0"
  by (simp add: unat_and_7 [symmetric] unat_eq_0)

lemma aligned8_iff [addr_simps]: "aligned8 p \<longleftrightarrow> off8 p = 0"
  by (simp add: aligned8_def and_7_zero_iff)

lemma off8_less: "off8 p < 8"
  by (simp add: off8_def)

lemma off8_add [addr_simps]: "off8 (p + of_nat k) = (off8 p + k) mod 8"
proof -
  have "(2 :: nat) ^ 64 = 8 * 2 ^ 61" by simp
  then have "off8 (p + of_nat k) = (unat p + k mod 2 ^ 64) mod 2 ^ 64 mod 8"
    by (simp add: off8_def unat_word_ariths unat_of_nat take_bit_eq_mod)
  also have "\<dots> = (unat p + k) mod 8"
    by (simp add: mod_mod_cancel mod_add_right_eq)
  finally show ?thesis by (simp add: off8_def mod_add_left_eq)
qed

lemma off8_add_8 [addr_simps]: "off8 (p + 8) = off8 p"
  using off8_add [of p 8] off8_less [of p] by simp

lemma off8_diff [addr_simps]: "k \<le> off8 p \<Longrightarrow> off8 (p - of_nat k) = off8 p - k"
  using off8_add [of "p - of_nat k" k] off8_less [of p] off8_less [of "p - of_nat k"]
  by (simp add: mod_if split: if_splits) 

subsection \<open>Walking a buffer\<close>

lemma addr_0 [addr_simps]: "addr p 0 = p"
  by (simp add: addr_def)

lemma addr_addr [addr_simps]: "addr (addr p i) j = addr p (i + j)"
  by (simp add: addr_def)

lemma addr_Suc [addr_simps]: "addr p k + 1 = addr p (Suc k)"
  by (simp add: addr_def)

lemma addr_plus_8 [addr_simps]: "addr p k + 8 = addr p (k + 8)"
  by (simp add: addr_def)

lemma addr_plus [addr_simps]: "addr p k + of_nat j = addr p (k + j)"
  by (simp add: addr_def)

lemma addr_minus [addr_simps]: "j \<le> k \<Longrightarrow> addr p k - of_nat j = addr p (k - j)"
  by (simp add: addr_def of_nat_diff)

lemma off8_addr: "off8 (addr p k) = (off8 p + k) mod 8"
  by (simp add: addr_def off8_add)

lemma off8_addr_plus: "off8 (addr p (k + j)) = (off8 (addr p k) + j) mod 8"
  by (simp add: off8_addr mod_add_left_eq add.assoc)

lemma off8_addr_plus_8 [addr_simps]: "off8 (addr p (k + 8)) = off8 (addr p k)"
  using off8_addr_plus [of p k 8] by (simp add: off8_less)

lemma unat_remaining: "N < 2 ^ 64 \<Longrightarrow> unat (remaining N k) = N - k"
  by (simp add: remaining_def unat_of_nat_u64)

lemma remaining_0 [addr_simps]: "remaining (unat n) 0 = n"
  by (simp add: remaining_def)

lemma remaining_eq_0 [addr_simps]: "N < 2 ^ 64 \<Longrightarrow> remaining N k = 0 \<longleftrightarrow> N \<le> k"
  using unat_remaining [of N k] by (metis diff_is_0_eq unat_eq_zero)

lemma remaining_ge_8 [addr_simps]: "N < 2 ^ 64 \<Longrightarrow> 8 \<le> remaining N k \<longleftrightarrow> k + 8 \<le> N"
  using unat_remaining [of N k] by (auto simp: word_le_nat_alt)

lemma remaining_Suc [addr_simps]: "k < N \<Longrightarrow> remaining N k - 1 = remaining N (Suc k)"
  by (simp add: remaining_def of_nat_diff)

lemma remaining_minus_8 [addr_simps]: "k + 8 \<le> N \<Longrightarrow> remaining N k - 8 = remaining N (k + 8)"
  by (simp add: remaining_def of_nat_diff)

lemma content_put_addr:
  "j < 2 ^ 64 \<Longrightarrow> content (put_range m d lo hi f) (addr d j)
     = (if lo \<le> j \<and> j < hi then f j else content m (addr d j))"
  by (simp add: addr_def content_put)

lemma content_put_other:
  "(\<And>j. lo \<le> j \<Longrightarrow> j < hi \<Longrightarrow> addr d j \<noteq> a) \<Longrightarrow> content (put_range m d lo hi f) a = content m a"
  by (simp add: addr_def content_put_outside)

lemma can_accessD: "can_access m p n \<Longrightarrow> i < n \<Longrightarrow> accessible m (addr p i)"
  by (simp add: can_access_def)

lemma can_access_mono: "can_access m p n \<Longrightarrow> k \<le> n \<Longrightarrow> can_access m p k"
  by (simp add: can_access_def)

lemma write_byte_addr:
  "accessible m (addr d k) \<Longrightarrow> k < 2 ^ 64 \<Longrightarrow> b = f k \<Longrightarrow>
     write_byte m (addr d k) b = Some (put_range m d k (Suc k) f)"
  by (simp add: addr_def write_byte_eq)

lemma write_u64_addr:
  "off8 (addr d k) = 0 \<Longrightarrow> (\<And>i. i < 8 \<Longrightarrow> accessible m (addr d (k + i))) \<Longrightarrow> k + 8 \<le> 2 ^ 64 \<Longrightarrow>
     (\<And>i. i < 8 \<Longrightarrow> byte_of w i = f (k + i)) \<Longrightarrow>
     write_u64 m (addr d k) w = Some (put_range m d k (k + 8) f)"
  unfolding addr_def by (rule write_u64_eq) (simp_all add: aligned8_iff)

lemma read_u64_addr:
  "off8 p = 0 \<Longrightarrow> accessible m (addr p j) \<Longrightarrow> j < 8 \<Longrightarrow> read_u64 m p = Some (word_at m p)"
  by (simp add: addr_def aligned8_iff read_u64_eq)

lemma byte_of_word_at_addr:
  "i < 8 \<Longrightarrow> byte_of (word_at m p) i = content m (addr p i)"
  by (simp add: addr_def byte_of_word_at)

end
