(* ===== verification/StrCopy.thy ===== *)
theory StrCopy
  imports ByteMem
begin

text \<open>
  \<open>memset\<close> and \<open>memcpy\<close> of \<open>src/string\<close>.  \<open>memcpy\<close> works eight bytes at a time between an
  unaligned head and tail; where source and destination are aligned
  differently, a buffer word carries the bytes that have been read and not yet
  been written.  The counters \<open>d_off\<close> and \<open>i\<close>, at most 8, are natural
  numbers.  The theorems say that every run ends without a fault and writes
  exactly the bytes the byte-wise description names.
\<close>

section \<open>Loops shared by the routines\<close>

text \<open>\<open>while (n && (s & 7)) { *dp = *sp; s++; d++; n--; }\<close>\<close>

definition copy_head :: "mem \<Rightarrow> u64 \<Rightarrow> u64 \<Rightarrow> u64 \<Rightarrow> (mem \<times> u64 \<times> u64 \<times> u64) option" where
  "copy_head m s d n =
     while_c (\<lambda>(m, s, d, n). n \<noteq> 0 \<and> s AND 7 \<noteq> 0)
       (\<lambda>(m, s, d, n). do {
          b \<leftarrow> read_byte m s;
          m \<leftarrow> write_byte m d b;
          Some (m, s + 1, d + 1, n - 1) })
       (m, s, d, n)"

text \<open>\<open>while (n) { *dp = buf & 0xff; buf >>= 8; d++; n--; }\<close>\<close>

definition store_tail :: "mem \<Rightarrow> u64 \<Rightarrow> u64 \<Rightarrow> u64 \<Rightarrow> (mem \<times> u64 \<times> u64 \<times> u64) option" where
  "store_tail m d buf n =
     while_c (\<lambda>(m, d, buf, n). n \<noteq> 0)
       (\<lambda>(m, d, buf, n). do {
          m \<leftarrow> write_byte m d (ucast (buf AND 0xff));
          Some (m, d + 1, drop_bit 8 buf, n - 1) })
       (m, d, buf, n)"

text \<open>\<open>while (i && n) { *dp = buf & 0xff; buf >>= 8; d++; n--; i--; }\<close>\<close>

definition store_upto :: "mem \<Rightarrow> u64 \<Rightarrow> u64 \<Rightarrow> nat \<Rightarrow> u64 \<Rightarrow> (mem \<times> u64 \<times> u64 \<times> nat \<times> u64) option" where
  "store_upto m d buf i n =
     while_c (\<lambda>(m, d, buf, i, n). i \<noteq> 0 \<and> n \<noteq> 0)
       (\<lambda>(m, d, buf, i, n). do {
          m \<leftarrow> write_byte m d (ucast (buf AND 0xff));
          Some (m, d + 1, drop_bit 8 buf, i - 1, n - 1) })
       (m, d, buf, i, n)"

section \<open>memset\<close>

definition memset :: "mem \<Rightarrow> u64 \<Rightarrow> u8 \<Rightarrow> u64 \<Rightarrow> (mem \<times> u64) option" where
  "memset m dest c n = do {
     let c_long = (ucast c :: u64) * 0x0101010101010101;
     (m, d, n) \<leftarrow> while_c (\<lambda>(m, d, n). n \<noteq> 0 \<and> d AND 7 \<noteq> 0)
        (\<lambda>(m, d, n). do { m \<leftarrow> write_byte m d c; Some (m, d + 1, n - 1) }) (m, dest, n);
     (m, d, n) \<leftarrow> while_c (\<lambda>(m, d, n). n \<ge> 8)
        (\<lambda>(m, d, n). do { m \<leftarrow> write_u64 m d c_long; Some (m, d + 8, n - 8) }) (m, d, n);
     (m, d, n) \<leftarrow> while_c (\<lambda>(m, d, n). n \<noteq> 0)
        (\<lambda>(m, d, n). do { m \<leftarrow> write_byte m d c; Some (m, d + 1, n - 1) }) (m, d, n);
     Some (m, dest) }"

section \<open>memcpy\<close>

text \<open>The two ways of copying once the source is aligned, shared by \<open>memcpy\<close>
  and the forward half of \<open>memmove\<close>: whole words where the destination is
  aligned too, and otherwise words put together from two source words.\<close>

definition copy_words :: "mem \<Rightarrow> u64 \<Rightarrow> u64 \<Rightarrow> u64 \<Rightarrow> (mem \<times> u64 \<times> u64 \<times> u64) option" where
  "copy_words m s d n =
     while_c (\<lambda>(m, s, d, n). n \<ge> 8)
       (\<lambda>(m, s, d, n). do {
          s_buf \<leftarrow> read_u64 m s;
          m \<leftarrow> write_u64 m d s_buf;
          Some (m, s + 8, d + 8, n - 8) })
       (m, s, d, n)"

definition shift_words ::
  "nat \<Rightarrow> mem \<Rightarrow> u64 \<Rightarrow> u64 \<Rightarrow> u64 \<Rightarrow> u64 \<Rightarrow> (mem \<times> u64 \<times> u64 \<times> u64 \<times> u64) option" where
  "shift_words d_off m s d n s_buf =
     while_c (\<lambda>(m, s, d, n, s_buf). n \<ge> 8)
       (\<lambda>(m, s, d, n, s_buf). do {
          s_buf2 \<leftarrow> read_u64 m s;
          let s_buf3 = s_buf OR push_bit (8 * d_off) s_buf2;
          m \<leftarrow> write_u64 m d s_buf3;
          let s_buf = drop_bit (8 * (8 - d_off)) s_buf2;
          Some (m, s + 8, d + 8, n - 8, s_buf) })
       (m, s, d, n, s_buf)"

definition copy_shifted :: "mem \<Rightarrow> u64 \<Rightarrow> u64 \<Rightarrow> u64 \<Rightarrow> u64 \<Rightarrow> (mem \<times> u64) option" where
  "copy_shifted m dest s d n = do {
     let d_off = unat (d AND 7);
     s_buf \<leftarrow> read_u64 m s;
     (m, d, s_buf, i, n) \<leftarrow> store_upto m d s_buf (8 - d_off) n;
     if n = 0 then Some (m, dest)
     else do {
       (m, s, d, n, s_buf) \<leftarrow> shift_words d_off m (s + 8) d n s_buf;
       if n = 0 then Some (m, dest)
       else do {
         s_buf2 \<leftarrow> (if n \<le> of_nat d_off then Some 0 else read_u64 m s);
         let s_buf3 = s_buf OR push_bit (8 * d_off) s_buf2;
         (m, d, s_buf3, n) \<leftarrow> store_tail m d s_buf3 n;
         Some (m, dest) } } }"

definition memcpy :: "mem \<Rightarrow> u64 \<Rightarrow> u64 \<Rightarrow> u64 \<Rightarrow> (mem \<times> u64) option" where
  "memcpy m dest src n = do {
     (m, s, d, n) \<leftarrow> copy_head m src dest n;
     if n = 0 then Some (m, dest)
     else if d AND 7 = 0 then do {
       (m, s, d, n) \<leftarrow> copy_words m s d n;
       if n = 0 then Some (m, dest)
       else do {
         s_buf \<leftarrow> read_u64 m s;
         (m, d, s_buf, n) \<leftarrow> store_tail m d s_buf n;
         Some (m, dest) } }
     else copy_shifted m dest s d n }"

section \<open>Copying forwards\<close>

text \<open>Copying upwards is safe when no destination byte is a source byte of a
  higher index: disjoint buffers, and overlapping ones with \<open>dest\<close> below
  \<open>src\<close>.\<close>

definition fwd_ok :: "u64 \<Rightarrow> u64 \<Rightarrow> nat \<Rightarrow> bool" where
  "fwd_ok d s N \<longleftrightarrow> (\<forall>i < N. \<forall>j < i. addr d j \<noteq> addr s i)"

abbreviation copied :: "mem \<Rightarrow> u64 \<Rightarrow> u64 \<Rightarrow> nat \<Rightarrow> mem" where
  "copied m d s k \<equiv> put_bytes m d k (bytes_at m s)"

lemma copied_source:
  "fwd_ok d s N \<Longrightarrow> k \<le> i \<Longrightarrow> i < N \<Longrightarrow> content (copied m d s k) (addr s i) = bytes_at m s i"
  by (subst content_put_other) (auto simp: fwd_ok_def bytes_at_def)

definition copy_pre :: "mem \<Rightarrow> u64 \<Rightarrow> u64 \<Rightarrow> nat \<Rightarrow> bool" where
  "copy_pre m d s N \<longleftrightarrow> N < 2 ^ 64 \<and> fwd_ok d s N \<and> can_access m s N \<and> can_access m d N"

lemma copy_preD:
  assumes "copy_pre m d s N"
  shows "N < 2 ^ 64" "fwd_ok d s N" "can_access m s N" "can_access m d N"
  using assms by (simp_all add: copy_pre_def)

lemma copy_byte_step:
  assumes pre: "copy_pre m d s N" and k: "k < N"
  shows "read_byte (copied m d s k) (addr s k) = Some (bytes_at m s k)"
    and "write_byte (copied m d s k) (addr d k) (bytes_at m s k) = Some (copied m d s (Suc k))"
  using copy_preD [OF pre] k
  by (simp_all add: read_byte_eq copied_source can_accessD write_byte_addr [where f = "bytes_at m s"])

lemma copy_head_ok:
  assumes pre: "copy_pre m d s N"
  obtains k where "k \<le> N" "k = N \<or> off8 (addr s k) = 0"
    "copy_head m s d (remaining N 0) = Some (copied m d s k, addr s k, addr d k, remaining N k)"
proof -
  note N = copy_preD(1) [OF pre]
  obtain k st where "copy_head m s d (remaining N 0) = Some st" "k \<le> N"
      "st = (copied m d s k, addr s k, addr d k, remaining N k)"
      "\<not> (\<lambda>(m, s, d, n). n \<noteq> 0 \<and> s AND 7 \<noteq> 0) st"
    unfolding copy_head_def
  proof (rule while_c_progress [where N = N and k = 0 and
        R = "\<lambda>k st. st = (copied m d s k, addr s k, addr d k, remaining N k)"])
    show "(m, s, d, remaining N 0) = (copied m d s 0, addr s 0, addr d 0, remaining N 0)"
      by (simp add: addr_simps)
  next
    fix k st
    assume "st = (copied m d s k, addr s k, addr d k, remaining N k)" "k \<le> N"
      and "(\<lambda>(m, s, d, n). n \<noteq> 0 \<and> s AND 7 \<noteq> 0) st"
    then have "k < N" "st = (copied m d s k, addr s k, addr d k, remaining N k)"
      using N by (auto simp: addr_simps)
    then show "\<exists>st'. (case st of (m, s, d, n) \<Rightarrow> do {
          b \<leftarrow> read_byte m s; m \<leftarrow> write_byte m d b; Some (m, s + 1, d + 1, n - 1) }) = Some st' \<and>
        (\<exists>k'>k. k' \<le> N \<and> st' = (copied m d s k', addr s k', addr d k', remaining N k'))"
      by (auto simp: copy_byte_step [OF pre] addr_simps intro!: exI [of _ "Suc k"])
  qed auto
  with N show thesis by (intro that) (auto simp: addr_simps)
qed

lemma copy_words_ok:
  assumes pre: "copy_pre m d s N" and k0: "k0 \<le> N" "off8 (addr s k0) = 0" "off8 (addr d k0) = 0"
  obtains k where "k0 \<le> k" "k \<le> N" "N < k + 8" "off8 (addr s k) = 0"
    "copy_words (copied m d s k0) (addr s k0) (addr d k0) (remaining N k0) =
       Some (copied m d s k, addr s k, addr d k, remaining N k)"
proof -
  note N = copy_preD(1) [OF pre]
  let ?st = "\<lambda>k. (copied m d s k, addr s k, addr d k, remaining N k)"
  obtain k st where "copy_words (copied m d s k0) (addr s k0) (addr d k0) (remaining N k0) = Some st"
      "k0 \<le> k" "k \<le> N" "st = ?st k \<and> off8 (addr s k) = 0 \<and> off8 (addr d k) = 0"
      "\<not> (\<lambda>(m, s, d, n). n \<ge> 8) st"
    unfolding copy_words_def
  proof (rule while_c_progress [where N = N and k = k0 and
        R = "\<lambda>k st. st = ?st k \<and> off8 (addr s k) = 0 \<and> off8 (addr d k) = 0"])
    fix k st
    assume R: "st = ?st k \<and> off8 (addr s k) = 0 \<and> off8 (addr d k) = 0"
      and "k \<le> N" "(\<lambda>(m, s, d, n). n \<ge> 8) st"
    then have k: "k + 8 \<le> N" using N by (auto simp: addr_simps)
    have rd: "read_u64 (copied m d s k) (addr s k) = Some (word_at (copied m d s k) (addr s k))"
      using R k copy_preD [OF pre] by (intro read_u64_addr [where j = 0]) (auto simp: addr_simps can_accessD)
    have wr: "write_u64 (copied m d s k) (addr d k) (word_at (copied m d s k) (addr s k)) =
        Some (copied m d s (k + 8))"
      using R k copy_preD [OF pre]
      by (subst write_u64_addr [where f = "bytes_at m s"])
        (auto simp: byte_of_word_at_addr addr_simps copied_source can_accessD)
    show "\<exists>st'. (case st of (m, s, d, n) \<Rightarrow> do {
          s_buf \<leftarrow> read_u64 m s; m \<leftarrow> write_u64 m d s_buf; Some (m, s + 8, d + 8, n - 8) }) = Some st' \<and>
        (\<exists>k'>k. k' \<le> N \<and> st' = ?st k' \<and> off8 (addr s k') = 0 \<and> off8 (addr d k') = 0)"
      using R k rd wr by (auto simp: addr_simps intro!: exI [of _ "k + 8"])
  qed (use k0 in auto)
  with N show thesis by (intro that [of k]) (auto simp: addr_simps)
qed

section \<open>Storing the bytes of a buffer word\<close>

lemma store_byte_step:
  assumes "N < 2 ^ 64" "can_access m d N" "k0 \<le> k" "k < N"
    and buf: "\<And>j. k0 + j < N \<Longrightarrow> j < J \<Longrightarrow> byte_of buf j = f (k0 + j)" and "k < k0 + J"
  shows "write_byte (put_bytes m d k f) (addr d k) (ucast (drop_bit (8 * (k - k0)) buf AND 0xff)) =
    Some (put_bytes m d (Suc k) f)"
proof -
  have "(ucast (drop_bit (8 * (k - k0)) buf AND 0xff) :: u8) = f k"
    using assms(3,4,6) buf [of "k - k0"] by (simp add: ucast_and_ff byte_of_drop)
  then show ?thesis
    using assms by (simp add: write_byte_addr [where f = f] can_accessD)
qed

lemma store_tail_ok:
  assumes N: "N < 2 ^ 64" "can_access m d N" "k0 \<le> N"
    and buf: "\<And>j. k0 + j < N \<Longrightarrow> byte_of buf j = f (k0 + j)"
  obtains d' buf' where
    "store_tail (put_bytes m d k0 f) (addr d k0) buf (remaining N k0) = Some (put_bytes m d N f, d', buf', 0)"
proof -
  let ?st = "\<lambda>k. (put_bytes m d k f, addr d k, drop_bit (8 * (k - k0)) buf, remaining N k)"
  obtain k st where "store_tail (put_bytes m d k0 f) (addr d k0) buf (remaining N k0) = Some st"
      "k0 \<le> k" "k \<le> N" "st = ?st k \<and> k0 \<le> k" "\<not> (\<lambda>(m, d, buf, n). n \<noteq> 0) st"
    unfolding store_tail_def
  proof (rule while_c_progress [where N = N and k = k0 and R = "\<lambda>k st. st = ?st k \<and> k0 \<le> k"])
    fix k st
    assume R: "st = ?st k \<and> k0 \<le> k" and "k \<le> N" "(\<lambda>(m, d, buf, n). n \<noteq> 0) st"
    then have k: "k0 \<le> k" "k < N" using N by (auto simp: addr_simps)
    show "\<exists>st'. (case st of (m, d, buf, n) \<Rightarrow> do {
          m \<leftarrow> write_byte m d (ucast (buf AND 0xff)); Some (m, d + 1, drop_bit 8 buf, n - 1) }) = Some st' \<and>
        (\<exists>k'>k. k' \<le> N \<and> st' = ?st k' \<and> k0 \<le> k')"
      using R k store_byte_step [OF N(1,2) k, of N buf f] buf
      by (auto simp: addr_simps Suc_diff_le intro!: exI [of _ "Suc k"])
  qed (use N in auto)
  moreover from this have "k = N" using N by (auto simp: addr_simps)
  ultimately show thesis using N by (intro that) (auto simp: addr_simps)
qed

lemma store_upto_ok:
  assumes N: "N < 2 ^ 64" "can_access m d N" "k0 \<le> N" and i0: "i0 \<le> 8"
    and buf: "\<And>j. k0 + j < N \<Longrightarrow> j < i0 \<Longrightarrow> byte_of buf j = f (k0 + j)"
  shows "store_upto (put_bytes m d k0 f) (addr d k0) buf i0 (remaining N k0) =
    (let k = min N (k0 + i0) in
     Some (put_bytes m d k f, addr d k, drop_bit (8 * (k - k0)) buf, k0 + i0 - k, remaining N k))"
proof -
  let ?st = "\<lambda>k. (put_bytes m d k f, addr d k, drop_bit (8 * (k - k0)) buf, k0 + i0 - k, remaining N k)"
  obtain k st where "store_upto (put_bytes m d k0 f) (addr d k0) buf i0 (remaining N k0) = Some st"
      "k0 \<le> k" "k \<le> N" "st = ?st k \<and> k0 \<le> k \<and> k \<le> k0 + i0" "\<not> (\<lambda>(m, d, buf, i, n). i \<noteq> 0 \<and> n \<noteq> 0) st"
    unfolding store_upto_def
  proof (rule while_c_progress [where N = N and k = k0 and R = "\<lambda>k st. st = ?st k \<and> k0 \<le> k \<and> k \<le> k0 + i0"])
    fix k st
    assume R: "st = ?st k \<and> k0 \<le> k \<and> k \<le> k0 + i0" and "k \<le> N" "(\<lambda>(m, d, buf, i, n). i \<noteq> 0 \<and> n \<noteq> 0) st"
    then have k: "k0 \<le> k" "k < N" "k < k0 + i0" using N by (auto simp: addr_simps)
    show "\<exists>st'. (case st of (m, d, buf, i, n) \<Rightarrow> do {
          m \<leftarrow> write_byte m d (ucast (buf AND 0xff)); Some (m, d + 1, drop_bit 8 buf, i - 1, n - 1) }) = Some st' \<and>
        (\<exists>k'>k. k' \<le> N \<and> st' = ?st k' \<and> k0 \<le> k' \<and> k' \<le> k0 + i0)"
      using R k store_byte_step [OF N(1,2) k(1,2), of i0 buf f] buf
      by (auto simp: addr_simps Suc_diff_le intro!: exI [of _ "Suc k"])
  qed (use N in auto)
  moreover from this have "k = min N (k0 + i0)" using N by (auto simp: addr_simps)
  ultimately show ?thesis by (simp add: Let_def)
qed

section \<open>Copying between different alignments\<close>

lemma shift_words_ok:
  assumes pre: "copy_pre m d s N" and off: "0 < off" "off < 8"
    and k0: "k0 \<le> N" "off8 (addr s (k0 + off)) = 0" "off8 (addr d k0) = 0"
    and buf: "\<And>i. i < off \<Longrightarrow> k0 + i < N \<Longrightarrow> byte_of buf i = bytes_at m s (k0 + i)"
      "\<And>i. off \<le> i \<Longrightarrow> byte_of buf i = 0"
  obtains k buf' where "k0 \<le> k" "k \<le> N" "N < k + 8" "off8 (addr s (k + off)) = 0"
    "\<And>i. i < off \<Longrightarrow> k + i < N \<Longrightarrow> byte_of buf' i = bytes_at m s (k + i)"
    "\<And>i. off \<le> i \<Longrightarrow> byte_of buf' i = 0"
    "shift_words off (copied m d s k0) (addr s (k0 + off)) (addr d k0) (remaining N k0) buf =
       Some (copied m d s k, addr s (k + off), addr d k, remaining N k, buf')"
proof -
  note N = copy_preD(1) [OF pre]
  let ?R = "\<lambda>k st. \<exists>buf. st = (copied m d s k, addr s (k + off), addr d k, remaining N k, buf) \<and>
      off8 (addr s (k + off)) = 0 \<and> off8 (addr d k) = 0 \<and>
      (\<forall>i < off. k + i < N \<longrightarrow> byte_of buf i = bytes_at m s (k + i)) \<and> (\<forall>i \<ge> off. byte_of buf i = 0)"
  obtain k st where "shift_words off (copied m d s k0) (addr s (k0 + off)) (addr d k0) (remaining N k0) buf = Some st"
      "k0 \<le> k" "k \<le> N" "?R k st" "\<not> (\<lambda>(m, s, d, n, s_buf). n \<ge> 8) st"
    unfolding shift_words_def
  proof (rule while_c_progress [where N = N and k = k0 and R = ?R])
    fix k st
    assume "?R k st" and "k \<le> N" and b: "(\<lambda>(m, s, d, n, s_buf). n \<ge> 8) st"
    then obtain buf where st: "st = (copied m d s k, addr s (k + off), addr d k, remaining N k, buf)"
      and al: "off8 (addr s (k + off)) = 0" "off8 (addr d k) = 0"
      and lo: "\<And>i. i < off \<Longrightarrow> k + i < N \<Longrightarrow> byte_of buf i = bytes_at m s (k + i)"
      and hi: "\<And>i. off \<le> i \<Longrightarrow> byte_of buf i = 0"
      by blast
    have k: "k + 8 \<le> N" using b st N by (auto simp: addr_simps)
    define w where "w = word_at (copied m d s k) (addr s (k + off))"
    have w: "byte_of w i = bytes_at m s (k + off + i)" if "i < 8" "k + off + i < N" for i
      using that copy_preD(2) [OF pre] by (simp add: w_def byte_of_word_at_addr addr_simps copied_source add.assoc)
    have rd: "read_u64 (copied m d s k) (addr s (k + off)) = Some w"
      unfolding w_def using al k off copy_preD [OF pre]
      by (intro read_u64_addr [where j = 0]) (auto simp: addr_simps can_accessD)
    have bytes: "byte_of (buf OR push_bit (8 * off) w) i = bytes_at m s (k + i)" if "i < 8" for i
      using that k off lo [of i] hi [of i] w [of "i - off"] by (auto simp: byte_simps)
    have wr: "write_u64 (copied m d s k) (addr d k) (buf OR push_bit (8 * off) w) = Some (copied m d s (k + 8))"
      using al k bytes copy_preD [OF pre]
      by (subst write_u64_addr [where f = "bytes_at m s"]) (auto simp: addr_simps can_accessD)
    have "byte_of (drop_bit (8 * (8 - off)) w) i = bytes_at m s (k + 8 + i)" if "i < off" "k + 8 + i < N" for i
      using that off w [of "8 - off + i"] by (simp add: byte_of_drop add.assoc)
    moreover have "byte_of (drop_bit (8 * (8 - off)) w) i = 0" if "off \<le> i" for i
      using that by (simp only: byte_of_drop) (simp add: byte_of_ge)
    moreover have e: "k + 8 + off = k + off + 8" by simp
    ultimately have "?R (k + 8) (copied m d s (k + 8), addr s (k + off) + 8, addr d k + 8, remaining N k - 8,
        drop_bit (8 * (8 - off)) w)"
      using al k off8_addr_plus_8 [of s "k + off"] addr_plus_8 [of s "k + off"]
      by (simp add: addr_plus_8 remaining_minus_8 off8_addr_plus_8 e)
    then show "\<exists>st'. (case st of (m, s, d, n, s_buf) \<Rightarrow> do {
          s_buf2 \<leftarrow> read_u64 m s;
          let s_buf3 = s_buf OR push_bit (8 * off) s_buf2;
          m \<leftarrow> write_u64 m d s_buf3;
          let s_buf = drop_bit (8 * (8 - off)) s_buf2;
          Some (m, s + 8, d + 8, n - 8, s_buf) }) = Some st' \<and> (\<exists>k'>k. k' \<le> N \<and> ?R k' st')"
      using st rd wr k by (intro exI conjI) (auto simp: Let_def)
  qed (use k0 buf in auto)
  with N show thesis by (elim exE conjE, intro that [of k]) (auto simp: addr_simps)
qed

lemma copy_shifted_ok:
  assumes pre: "copy_pre m d s N" and k0: "k0 < N" "off8 (addr s k0) = 0" "off8 (addr d k0) \<noteq> 0"
  shows "copy_shifted (copied m d s k0) dest (addr s k0) (addr d k0) (remaining N k0) =
    Some (copied m d s N, dest)"
proof -
  note P = copy_preD [OF pre]
  define off where "off = off8 (addr d k0)"
  have off: "0 < off" "off < 8" using k0(3) by (simp_all add: off_def off8_less)
  define w where "w = word_at (copied m d s k0) (addr s k0)"
  have w: "byte_of w i = bytes_at m s (k0 + i)" if "i < 8" "k0 + i < N" for i
    using that P by (simp add: w_def byte_of_word_at_addr addr_simps copied_source)
  have rd: "read_u64 (copied m d s k0) (addr s k0) = Some w"
    unfolding w_def using k0 P by (intro read_u64_addr [where j = 0]) (auto simp: addr_simps can_accessD)
  define k1 where "k1 = min N (k0 + (8 - off))"
  have head: "store_upto (copied m d s k0) (addr d k0) w (8 - off) (remaining N k0) =
      Some (copied m d s k1, addr d k1, drop_bit (8 * (k1 - k0)) w, k0 + (8 - off) - k1, remaining N k1)"
    unfolding k1_def using k0 P off w by (subst store_upto_ok) (auto simp: Let_def)
  show ?thesis
  proof (cases "k1 = N")
    case True
    then show ?thesis
      using P(1) by (simp add: copy_shifted_def addr_simps rd head off_def [symmetric])
  next
    case False
    then have k1: "k1 = k0 + (8 - off)" "k1 < N" by (auto simp: k1_def)
    have "(off8 (addr d k0) + (8 - off)) mod 8 = 0" using off by (simp add: off_def)
    then have "off8 (addr d k1) = 0" by (simp only: k1 off8_addr_plus)
    moreover have "k1 + off = k0 + 8" using k1 off by simp
    ultimately have al: "off8 (addr s (k1 + off)) = 0" "off8 (addr d k1) = 0"
      using k0(2) by (simp_all add: addr_simps)
    have s8: "addr s k0 + 8 = addr s (k1 + off)" using k1 off by (simp add: addr_simps)
    have "byte_of (drop_bit (8 * (k1 - k0)) w) i = bytes_at m s (k1 + i)" if "i < off" "k1 + i < N" for i
      using that off k1 w [of "8 - off + i"] by (simp add: byte_of_drop add.assoc)
    moreover have "byte_of (drop_bit (8 * (k1 - k0)) w) i = 0" if "off \<le> i" for i
      using that k1 by (simp only: byte_of_drop) (simp add: byte_of_ge)
    ultimately obtain k buf where k: "k1 \<le> k" "k \<le> N" "N < k + 8" "off8 (addr s (k + off)) = 0"
      and buf: "\<And>i. i < off \<Longrightarrow> k + i < N \<Longrightarrow> byte_of buf i = bytes_at m s (k + i)"
        "\<And>i. off \<le> i \<Longrightarrow> byte_of buf i = 0"
      and body: "shift_words off (copied m d s k1) (addr s (k1 + off)) (addr d k1) (remaining N k1)
          (drop_bit (8 * (k1 - k0)) w) =
        Some (copied m d s k, addr s (k + off), addr d k, remaining N k, buf)"
      using shift_words_ok [OF pre off less_imp_le [OF k1(2)] al, of "drop_bit (8 * (k1 - k0)) w"] by blast
    define w2 where "w2 = (if N - k \<le> off then 0 else word_at (copied m d s k) (addr s (k + off)))"
    have le_off: "remaining N k \<le> of_nat off \<longleftrightarrow> N - k \<le> off"
      using P(1) off by (simp add: word_le_nat_alt unat_remaining unat_of_nat_u64)
    have rd2: "(if remaining N k \<le> of_nat off then Some 0 else read_u64 (copied m d s k) (addr s (k + off))) = Some w2"
      using k off P by (auto simp: w2_def le_off addr_simps can_accessD intro!: read_u64_addr [where j = 0])
    have "byte_of (buf OR push_bit (8 * off) w2) i = bytes_at m s (k + i)" if "k + i < N" for i
    proof -
      have "byte_of w2 (i - off) = bytes_at m s (k + i)" if "off \<le> i"
        using that \<open>k + i < N\<close> k P by (auto simp: w2_def byte_of_word_at_addr addr_simps copied_source)
      then show ?thesis
        using that k off buf [of i] by (auto simp: byte_simps not_le)
    qed
    then obtain d' buf' where tail: "store_tail (copied m d s k) (addr d k) (buf OR push_bit (8 * off) w2) (remaining N k) =
        Some (copied m d s N, d', buf', 0)"
      using store_tail_ok [of N m d k "buf OR push_bit (8 * off) w2" "bytes_at m s"] P k by metis
    show ?thesis
      using False k(2) P(1) k1(2)
      by (cases "k = N")
        (simp_all add: copy_shifted_def unat_and_7 remaining_eq_0 rd head off_def [symmetric] s8 body rd2 tail)
  qed
qed

text \<open>What every routine that copies forwards does.\<close>

lemma memcpy_forward:
  assumes pre: "copy_pre m dest src (unat n)"
  shows "memcpy m dest src n = Some (copied m dest src (unat n), dest)"
proof -
  let ?N = "unat n"
  note P = copy_preD [OF pre]
  obtain k where k: "k \<le> ?N" "k = ?N \<or> off8 (addr src k) = 0"
    and head: "copy_head m src dest n = Some (copied m dest src k, addr src k, addr dest k, remaining ?N k)"
    using copy_head_ok [OF pre] by (metis remaining_0)
  consider "k = ?N" | "k < ?N" "off8 (addr dest k) = 0" | "k < ?N" "off8 (addr dest k) \<noteq> 0"
    using k by linarith
  then show ?thesis
  proof cases
    case 1
    then show ?thesis using P(1) by (simp add: memcpy_def head addr_simps)
  next
    case 2
    with k have "off8 (addr src k) = 0" by simp
    with 2 k obtain k' where k': "k \<le> k'" "k' \<le> ?N" "?N < k' + 8" "off8 (addr src k') = 0"
      and body: "copy_words (copied m dest src k) (addr src k) (addr dest k) (remaining ?N k) =
        Some (copied m dest src k', addr src k', addr dest k', remaining ?N k')"
      using copy_words_ok [OF pre] by metis
    define w where "w = word_at (copied m dest src k') (addr src k')"
    have "byte_of w j = bytes_at m src (k' + j)" if "k' + j < ?N" for j
      using that k' P by (simp add: w_def byte_of_word_at_addr addr_simps copied_source)
    then obtain d' buf' where tail: "store_tail (copied m dest src k') (addr dest k') w (remaining ?N k') =
        Some (copied m dest src ?N, d', buf', 0)"
      using store_tail_ok [of ?N m dest k' w "bytes_at m src"] P k' by metis
    have rd: "read_u64 (copied m dest src k') (addr src k') = Some w" if "k' < ?N"
      unfolding w_def using that k' P by (intro read_u64_addr [where j = 0]) (auto simp: addr_simps can_accessD)
    show ?thesis
      using 2 k' P(1) rd
      by (cases "k' = ?N") (simp_all add: memcpy_def head addr_simps body tail)
  next
    case 3
    with k have "off8 (addr src k) = 0" by simp
    with 3 show ?thesis
      using P(1) by (simp add: memcpy_def head addr_simps copy_shifted_ok [OF pre])
  qed
qed

section \<open>Filling\<close>

lemma byte_of_cons_mult: "byte_of (ucast b + w * 256) i = (if i = 0 then b else if i < 8 then byte_of w (i - 1) else 0)"
proof -
  have "ucast b AND push_bit 8 w = 0"
    by (rule bit_word_eqI) (auto simp: bit_simps dest: bit_imp_le_length)
  then have "ucast b + w * 256 = (ucast b OR push_bit 8 w :: u64)"
    by (simp add: push_bit_eq_mult flip: disjunctive_add_eq_or)
  then show ?thesis by (simp only: byte_of_cons)
qed
lemma byte_of_repeat: 
  assumes "i < 8" shows "byte_of (ucast c * 0x0101010101010101) i = c"
proof -
  define f :: "u64 \<Rightarrow> u64" where "f w = ucast c + w * 256" for w
  have f: "byte_of (f w) i = (if i = 0 then c else if i < 8 then byte_of w (i - 1) else 0)" for w i
    by (simp only: f_def byte_of_cons_mult)
  have "ucast c * 0x0101010101010101 = f (f (f (f (f (f (f (f 0)))))))"
    by (simp add: f_def algebra_simps)
  then show ?thesis
    using assms by (auto simp: f)
qed

abbreviation filled :: "mem \<Rightarrow> u64 \<Rightarrow> nat \<Rightarrow> u8 \<Rightarrow> mem" where
  "filled m d k c \<equiv> put_bytes m d k (\<lambda>_. c)"

lemma fill_bytes_ok:
  assumes N: "N < 2 ^ 64" "can_access m d N" "k0 \<le> N"
    and b: "\<And>k. k \<le> N \<Longrightarrow> b (addr d k, remaining N k) \<Longrightarrow> k < N"
  obtains k where "k0 \<le> k" "k \<le> N" "\<not> b (addr d k, remaining N k)"
    "while_c (\<lambda>(m, d, n). b (d, n)) (\<lambda>(m, d, n). do { m \<leftarrow> write_byte m d c; Some (m, d + 1, n - 1) })
       (filled m d k0 c, addr d k0, remaining N k0) = Some (filled m d k c, addr d k, remaining N k)"
proof (rule while_c_progress [where N = N and k = k0 and
      R = "\<lambda>k st. st = (filled m d k c, addr d k, remaining N k)"])
  fix k st
  assume "st = (filled m d k c, addr d k, remaining N k)" "k \<le> N" "(\<lambda>(m, d, n). b (d, n)) st"
  with b have "k < N" "st = (filled m d k c, addr d k, remaining N k)" by auto
  then show "\<exists>st'. (case st of (m, d, n) \<Rightarrow> do { m \<leftarrow> write_byte m d c; Some (m, d + 1, n - 1) }) = Some st' \<and>
      (\<exists>k'>k. k' \<le> N \<and> st' = (filled m d k' c, addr d k', remaining N k'))"
    using N by (auto simp: addr_simps can_accessD write_byte_addr [where f = "\<lambda>_. c"] intro!: exI [of _ "Suc k"])
qed (use N that in auto)

lemma fill_words_ok:
  assumes N: "N < 2 ^ 64" "can_access m d N" "k0 \<le> N" and al: "off8 (addr d k0) = 0"
    and w: "\<And>i. i < 8 \<Longrightarrow> byte_of w i = c"
  obtains k where "k0 \<le> k" "k \<le> N"
    "while_c (\<lambda>(m, d, n). n \<ge> 8) (\<lambda>(m, d, n). do { m \<leftarrow> write_u64 m d w; Some (m, d + 8, n - 8) })
       (filled m d k0 c, addr d k0, remaining N k0) = Some (filled m d k c, addr d k, remaining N k)"
proof (rule while_c_progress [where N = N and k = k0 and
      R = "\<lambda>k st. st = (filled m d k c, addr d k, remaining N k) \<and> off8 (addr d k) = 0"])
  fix k st
  assume st: "st = (filled m d k c, addr d k, remaining N k) \<and> off8 (addr d k) = 0"
    and "k \<le> N" "(\<lambda>(m, d, n). n \<ge> 8) st"
  then have k: "k + 8 \<le> N" using N by (auto simp: addr_simps)
  then have "write_u64 (filled m d k c) (addr d k) w = Some (filled m d (k + 8) c)"
    using N st w by (subst write_u64_addr [where f = "\<lambda>_. c"]) (auto simp: can_accessD)
  then show "\<exists>st'. (case st of (m, d, n) \<Rightarrow> do { m \<leftarrow> write_u64 m d w; Some (m, d + 8, n - 8) }) = Some st' \<and>
      (\<exists>k'>k. k' \<le> N \<and> st' = (filled m d k' c, addr d k', remaining N k') \<and> off8 (addr d k') = 0)"
    using st k by (auto simp: addr_simps intro!: exI [of _ "k + 8"])
qed (use N al that in auto)

text \<open>A memory for the examples: 64 bytes at address 0, each holding its own address.\<close>

definition demo_mem :: mem where
  "demo_mem = \<lparr>content = (\<lambda>a. ucast a), accessible = (\<lambda>a. a < 64)\<rparr>"

lemma demo_mem_access: "unat p + k \<le> 64 \<Longrightarrow> can_access demo_mem p k"
  by (auto simp: can_access_def demo_mem_def addr_def word_less_nat_alt unat_word_ariths
      unat_of_nat take_bit_eq_mod)

lemma memset_ok:
  assumes "can_access m dest (unat n)"
  shows "memset m dest c n = Some (put_bytes m dest (unat n) (\<lambda>_. c), dest)"
proof -
  let ?N = "unat n"
  note N = unat_less_2p64 [of n] assms
  note byte = fill_bytes_ok [OF N, where b = "\<lambda>(d, n). n \<noteq> 0 \<and> d AND 7 \<noteq> 0" and ?k0.0 = 0 and c = c]
    fill_bytes_ok [OF N, where b = "\<lambda>(d, n). n \<noteq> 0" and c = c]
  obtain k1 where k1: "k1 \<le> ?N" "k1 = ?N \<or> off8 (addr dest k1) = 0"
    and head: "while_c (\<lambda>(m, d, n). n \<noteq> 0 \<and> d AND 7 \<noteq> 0)
        (\<lambda>(m, d, n). do { m \<leftarrow> write_byte m d c; Some (m, d + 1, n - 1) }) (m, dest, n) =
      Some (filled m dest k1 c, addr dest k1, remaining ?N k1)"
    by (rule byte(1)) (use N in \<open>auto simp: addr_simps\<close>)
  obtain k2 where k2: "k2 \<le> ?N"
    and words: "while_c (\<lambda>(m, d, n). n \<ge> 8)
        (\<lambda>(m, d, n). do { m \<leftarrow> write_u64 m d (ucast c * 0x0101010101010101); Some (m, d + 8, n - 8) })
        (filled m dest k1 c, addr dest k1, remaining ?N k1) =
      Some (filled m dest k2 c, addr dest k2, remaining ?N k2)"
  proof (cases "k1 = ?N")
    case True
    with N show ?thesis by (intro that [of ?N]) (simp_all add: while_c.simps addr_simps)
  next
    case False
    with k1 that show ?thesis
      by (blast intro: fill_words_ok [OF N, of k1 "ucast c * 0x0101010101010101" c] byte_of_repeat)
  qed
  have tail: "while_c (\<lambda>(m, d, n). n \<noteq> 0)
        (\<lambda>(m, d, n). do { m \<leftarrow> write_byte m d c; Some (m, d + 1, n - 1) })
        (filled m dest k2 c, addr dest k2, remaining ?N k2) =
      Some (filled m dest ?N c, addr dest ?N, remaining ?N ?N)"
    by (rule byte(2) [OF k2]) (use N in \<open>auto simp: addr_simps\<close>)
  show ?thesis
    by (simp add: memset_def head words tail Let_def)
qed

text \<open>\<open>memset\<close> returns \<open>dest\<close> and leaves exactly the \<open>n\<close> bytes from \<open>dest\<close>
  set to \<open>c\<close>, whatever the alignment, for every accessible buffer.\<close>

theorem memset_correct:
  assumes "can_access m dest (unat n)"
  shows "memset m dest c n = Some (put_bytes m dest (unat n) (\<lambda>_. c), dest)"
  using assms by (rule memset_ok)

theorem memset_witness:
  "can_access demo_mem 3 (unat (13 :: u64)) \<and>
   memset demo_mem 3 0xab 13 = Some (put_bytes demo_mem 3 (unat (13 :: u64)) (\<lambda>_. 0xab), 3)"
  using memset_correct [of demo_mem 3 13 "0xab"] by (simp add: demo_mem_access)

section \<open>memcpy\<close>

definition disjoint_buffers :: "u64 \<Rightarrow> u64 \<Rightarrow> nat \<Rightarrow> bool" where
  "disjoint_buffers d s N \<longleftrightarrow> (\<forall>i < N. \<forall>j < N. addr d j \<noteq> addr s i)"

lemma disjoint_fwd_ok: "disjoint_buffers d s N \<Longrightarrow> fwd_ok d s N"
  by (auto simp: disjoint_buffers_def fwd_ok_def)

text \<open>C35: for disjoint accessible buffers, whatever their alignments, \<open>memcpy\<close>
  returns \<open>dest\<close>; the \<open>n\<close> bytes from \<open>dest\<close> then hold the bytes at \<open>src\<close>
  and no other byte has changed.\<close>

theorem memcpy_correct:
  assumes "disjoint_buffers dest src (unat n)"
    and "can_access m src (unat n)" "can_access m dest (unat n)"
  shows "memcpy m dest src n = Some (put_bytes m dest (unat n) (bytes_at m src), dest)"
  using assms unat_less_2p64 [of n] by (intro memcpy_forward) (simp add: copy_pre_def disjoint_fwd_ok)

lemma disjoint_demo: "disjoint_buffers 29 2 21"
  by (auto simp: disjoint_buffers_def addr_def word_unat_eq_iff unat_word_ariths unat_of_nat take_bit_eq_mod)

theorem memcpy_witness:
  "disjoint_buffers 29 2 (unat (21 :: u64)) \<and>
   memcpy demo_mem 29 2 21 = Some (put_bytes demo_mem 29 (unat (21 :: u64)) (bytes_at demo_mem 2), 29)"
  using memcpy_correct [of 29 2 21 demo_mem] by (simp add: demo_mem_access disjoint_demo)

end
