(* ===== verification/StrBlend.thy ===== *)
theory StrBlend
  imports StrCopy
begin

text \<open>
  \<open>memxor\<close> and \<open>cond_memcpy\<close> of \<open>src/string\<close>.  Both walk through source and destination
  as \<open>memcpy\<close> does and combine the two bytes instead of overwriting, with one operation
  on bytes and the same operation on words of eight bytes.  The walk is written once, over
  the two operations; the locale \<open>blend\<close> is the contract between them and holds its proof.
\<close>

section \<open>The walk\<close>

definition blend_head :: "(u8 \<Rightarrow> u8 \<Rightarrow> u8) \<Rightarrow> mem \<Rightarrow> u64 \<Rightarrow> u64 \<Rightarrow> u64 \<Rightarrow> (mem \<times> u64 \<times> u64 \<times> u64) option" where
  "blend_head g m s d n =
     while_c (\<lambda>(m, s, d, n). s AND 7 \<noteq> 0 \<and> n \<noteq> 0)
       (\<lambda>(m, s, d, n). do {
          a \<leftarrow> read_byte m d;
          b \<leftarrow> read_byte m s;
          m \<leftarrow> write_byte m d (g a b);
          Some (m, s + 1, d + 1, n - 1) })
       (m, s, d, n)"

definition blend_words :: "(u64 \<Rightarrow> u64 \<Rightarrow> u64) \<Rightarrow> mem \<Rightarrow> u64 \<Rightarrow> u64 \<Rightarrow> u64 \<Rightarrow> (mem \<times> u64 \<times> u64 \<times> u64) option" where
  "blend_words G m s d n =
     while_c (\<lambda>(m, s, d, n). n \<ge> 8)
       (\<lambda>(m, s, d, n). do {
          s_buf \<leftarrow> read_u64 m s;
          d_buf \<leftarrow> read_u64 m d;
          m \<leftarrow> write_u64 m d (G d_buf s_buf);
          Some (m, s + 8, d + 8, n - 8) })
       (m, s, d, n)"

definition blend_shift ::
  "(u64 \<Rightarrow> u64 \<Rightarrow> u64) \<Rightarrow> nat \<Rightarrow> mem \<Rightarrow> u64 \<Rightarrow> u64 \<Rightarrow> u64 \<Rightarrow> u64 \<Rightarrow> (mem \<times> u64 \<times> u64 \<times> u64 \<times> u64) option" where
  "blend_shift G d_off m s d n s_buf =
     while_c (\<lambda>(m, s, d, n, s_buf). n \<ge> 8)
       (\<lambda>(m, s, d, n, s_buf). do {
          s_buf2 \<leftarrow> read_u64 m s;
          d_buf \<leftarrow> read_u64 m d;
          let d_buf = G d_buf (s_buf OR push_bit (8 * d_off) s_buf2);
          m \<leftarrow> write_u64 m d d_buf;
          let s_buf = drop_bit (8 * (8 - d_off)) s_buf2;
          Some (m, s + 8, d + 8, n - 8, s_buf) })
       (m, s, d, n, s_buf)"

definition blend_shifted :: "(u64 \<Rightarrow> u64 \<Rightarrow> u64) \<Rightarrow> mem \<Rightarrow> u64 \<Rightarrow> u64 \<Rightarrow> u64 \<Rightarrow> mem option" where
  "blend_shifted G m s d n = do {
     let d_off = unat (d AND 7);
     s_buf \<leftarrow> read_u64 m s;
     d_buf \<leftarrow> read_u64 m (d - of_nat d_off);
     let d_buf = drop_bit (8 * d_off) d_buf;
     let d_buf = G d_buf s_buf;
     (m, d, d_buf, i, n) \<leftarrow> store_upto m d d_buf (8 - d_off) n;
     if n = 0 then Some m
     else do {
       let s_buf = drop_bit (8 * (8 - d_off)) s_buf;
       (m, s, d, n, s_buf) \<leftarrow> blend_shift G d_off m (s + 8) d n s_buf;
       if n = 0 then Some m
       else do {
         s_buf2 \<leftarrow> (if n \<le> of_nat d_off then Some 0 else read_u64 m s);
         d_buf \<leftarrow> read_u64 m d;
         let d_buf = G d_buf (s_buf OR push_bit (8 * d_off) s_buf2);
         (m, d, d_buf, n) \<leftarrow> store_tail m d d_buf n;
         Some m } } }"

definition blend_bytes :: "(u8 \<Rightarrow> u8 \<Rightarrow> u8) \<Rightarrow> (u64 \<Rightarrow> u64 \<Rightarrow> u64) \<Rightarrow> mem \<Rightarrow> u64 \<Rightarrow> u64 \<Rightarrow> u64 \<Rightarrow> mem option" where
  "blend_bytes g G m dest src n = do {
     (m, s, d, n) \<leftarrow> blend_head g m src dest n;
     if n = 0 then Some m
     else if d AND 7 = 0 then do {
       (m, s, d, n) \<leftarrow> blend_words G m s d n;
       if n = 0 then Some m
       else do {
         s_buf \<leftarrow> read_u64 m s;
         d_buf \<leftarrow> read_u64 m d;
         let d_buf = G d_buf s_buf;
         (m, d, d_buf, n) \<leftarrow> store_tail m d d_buf n;
         Some m } }
     else blend_shifted G m s d n }"

section \<open>The two routines\<close>

definition memxor :: "mem \<Rightarrow> u64 \<Rightarrow> u64 \<Rightarrow> u64 \<Rightarrow> (mem \<times> u64) option" where
  "memxor m dest src n = do {
     m \<leftarrow> blend_bytes (\<lambda>a b. a XOR b) (\<lambda>a b. a XOR b) m dest src n;
     Some (m, dest) }"

text \<open>The masks of \<open>cond_memcpy\<close>, from the condition as 0 or 1.\<close>

definition cond_val :: "bool \<Rightarrow> u32" where
  "cond_val cond = (if cond then 1 else 0)"

definition mask_src :: "bool \<Rightarrow> u8" where
  "mask_src cond = ucast (cond_val cond * 0xff)"

definition mask_dst :: "bool \<Rightarrow> u8" where
  "mask_dst cond = ucast ((cond_val cond XOR 1) * 0xff)"

definition mask_src_long :: "bool \<Rightarrow> u64" where
  "mask_src_long cond = ucast (cond_val cond) * (- 1)"

definition mask_dst_long :: "bool \<Rightarrow> u64" where
  "mask_dst_long cond = ucast (cond_val cond XOR 1) * (- 1)"

definition cond_memcpy :: "mem \<Rightarrow> bool \<Rightarrow> u64 \<Rightarrow> u64 \<Rightarrow> u64 \<Rightarrow> mem option" where
  "cond_memcpy m cond vd vs n =
     blend_bytes (\<lambda>a b. (a AND mask_dst cond) OR (b AND mask_src cond))
       (\<lambda>a b. (b AND mask_src_long cond) OR (a AND mask_dst_long cond)) m vd vs n"

section \<open>Correctness of the walk\<close>

locale blend =
  fixes g :: "u8 \<Rightarrow> u8 \<Rightarrow> u8" and G :: "u64 \<Rightarrow> u64 \<Rightarrow> u64"
  assumes bytewise: "i < 8 \<Longrightarrow> byte_of (G v w) i = g (byte_of v i) (byte_of w i)"
begin

definition mixed :: "mem \<Rightarrow> u64 \<Rightarrow> u64 \<Rightarrow> nat \<Rightarrow> u8" where
  "mixed m d s i = g (bytes_at m d i) (bytes_at m s i)"

abbreviation blended :: "mem \<Rightarrow> u64 \<Rightarrow> u64 \<Rightarrow> nat \<Rightarrow> mem" where
  "blended m d s k \<equiv> put_bytes m d k (mixed m d s)"

lemma blended_source:
  "fwd_ok d s N \<Longrightarrow> k \<le> i \<Longrightarrow> i < N \<Longrightarrow> content (blended m d s k) (addr s i) = bytes_at m s i"
  by (subst content_put_other) (auto simp: fwd_ok_def bytes_at_def)

lemma blended_dest: "k \<le> i \<Longrightarrow> i < 2 ^ 64 \<Longrightarrow> content (blended m d s k) (addr d i) = bytes_at m d i"
  by (simp add: content_put_addr bytes_at_def)

lemma blend_head_ok:
  assumes pre: "copy_pre m d s N"
  obtains k where "k \<le> N" "k = N \<or> off8 (addr s k) = 0"
    "blend_head g m s d (remaining N 0) = Some (blended m d s k, addr s k, addr d k, remaining N k)"
proof -
  note P = copy_preD [OF pre]
  let ?st = "\<lambda>k. (blended m d s k, addr s k, addr d k, remaining N k)"
  obtain k st where "blend_head g m s d (remaining N 0) = Some st" "k \<le> N" "st = ?st k"
      "\<not> (\<lambda>(m, s, d, n). s AND 7 \<noteq> 0 \<and> n \<noteq> 0) st"
    unfolding blend_head_def
  proof (rule while_c_progress [where N = N and k = 0 and R = "\<lambda>k st. st = ?st k"])
    show "(m, s, d, remaining N 0) = ?st 0" by (simp add: addr_simps)
  next
    fix k st
    assume st: "st = ?st k" and "k \<le> N" and "(\<lambda>(m, s, d, n). s AND 7 \<noteq> 0 \<and> n \<noteq> 0) st"
    then have k: "k < N" using P(1) by (auto simp: addr_simps)
    have rd: "read_byte (blended m d s k) (addr d k) = Some (bytes_at m d k)" "read_byte (blended m d s k) (addr s k) = Some (bytes_at m s k)"
      using P k by (simp_all add: read_byte_eq can_accessD blended_dest blended_source)
    have "write_byte (blended m d s k) (addr d k) (g (bytes_at m d k) (bytes_at m s k)) = Some (blended m d s (Suc k))"
      using P k by (subst write_byte_addr [where f = "mixed m d s"]) (auto simp: can_accessD mixed_def)
    then show "\<exists>st'. (case st of (m, s, d, n) \<Rightarrow> do {
          a \<leftarrow> read_byte m d; b \<leftarrow> read_byte m s; m \<leftarrow> write_byte m d (g a b); Some (m, s + 1, d + 1, n - 1) }) = Some st' \<and>
        (\<exists>k'>k. k' \<le> N \<and> st' = ?st k')"
      using st k rd by (auto simp: addr_simps intro!: exI [of _ "Suc k"])
  qed auto
  with P(1) show thesis by (intro that) (auto simp: addr_simps)
qed

lemma blend_words_ok:
  assumes pre: "copy_pre m d s N" and k0: "k0 \<le> N" "off8 (addr s k0) = 0" "off8 (addr d k0) = 0"
  obtains k where "k0 \<le> k" "k \<le> N" "N < k + 8" "off8 (addr s k) = 0" "off8 (addr d k) = 0"
    "blend_words G (blended m d s k0) (addr s k0) (addr d k0) (remaining N k0) =
       Some (blended m d s k, addr s k, addr d k, remaining N k)"
proof -
  note P = copy_preD [OF pre]
  let ?st = "\<lambda>k. (blended m d s k, addr s k, addr d k, remaining N k)"
  obtain k st where "blend_words G (blended m d s k0) (addr s k0) (addr d k0) (remaining N k0) = Some st"
      "k0 \<le> k" "k \<le> N" "st = ?st k \<and> off8 (addr s k) = 0 \<and> off8 (addr d k) = 0"
      "\<not> (\<lambda>(m, s, d, n). n \<ge> 8) st"
    unfolding blend_words_def
  proof (rule while_c_progress [where N = N and k = k0 and
        R = "\<lambda>k st. st = ?st k \<and> off8 (addr s k) = 0 \<and> off8 (addr d k) = 0"])
    fix k st
    assume R: "st = ?st k \<and> off8 (addr s k) = 0 \<and> off8 (addr d k) = 0"
      and "k \<le> N" "(\<lambda>(m, s, d, n). n \<ge> 8) st"
    then have k: "k + 8 \<le> N" using P(1) by (auto simp: addr_simps)
    let ?m = "blended m d s k"
    have rd: "read_u64 ?m (addr s k) = Some (word_at ?m (addr s k))" "read_u64 ?m (addr d k) = Some (word_at ?m (addr d k))"
      using R k P by (auto intro!: read_u64_addr [where j = 0] simp: addr_simps can_accessD)
    have wr: "write_u64 ?m (addr d k) (G (word_at ?m (addr d k)) (word_at ?m (addr s k))) = Some (blended m d s (k + 8))"
      using R k P
      by (subst write_u64_addr [where f = "mixed m d s"])
        (auto simp: bytewise byte_of_word_at_addr addr_simps blended_source blended_dest can_accessD mixed_def)
    show "\<exists>st'. (case st of (m, s, d, n) \<Rightarrow> do {
          s_buf \<leftarrow> read_u64 m s; d_buf \<leftarrow> read_u64 m d; m \<leftarrow> write_u64 m d (G d_buf s_buf); Some (m, s + 8, d + 8, n - 8) }) = Some st' \<and>
        (\<exists>k'>k. k' \<le> N \<and> st' = ?st k' \<and> off8 (addr s k') = 0 \<and> off8 (addr d k') = 0)"
      using R k rd wr by (auto simp: addr_simps intro!: exI [of _ "k + 8"])
  qed (use k0 in auto)
  with P(1) show thesis by (intro that [of k]) (auto simp: addr_simps)
qed

lemma blend_shift_ok:
  assumes pre: "copy_pre m d s N" and off: "0 < off" "off < 8"
    and k0: "k0 \<le> N" "off8 (addr s (k0 + off)) = 0" "off8 (addr d k0) = 0"
    and buf: "\<And>i. i < off \<Longrightarrow> k0 + i < N \<Longrightarrow> byte_of buf i = bytes_at m s (k0 + i)"
      "\<And>i. off \<le> i \<Longrightarrow> byte_of buf i = 0"
  obtains k buf' where "k0 \<le> k" "k \<le> N" "N < k + 8" "off8 (addr s (k + off)) = 0" "off8 (addr d k) = 0"
    "\<And>i. i < off \<Longrightarrow> k + i < N \<Longrightarrow> byte_of buf' i = bytes_at m s (k + i)"
    "\<And>i. off \<le> i \<Longrightarrow> byte_of buf' i = 0"
    "blend_shift G off (blended m d s k0) (addr s (k0 + off)) (addr d k0) (remaining N k0) buf =
       Some (blended m d s k, addr s (k + off), addr d k, remaining N k, buf')"
proof -
  note P = copy_preD [OF pre]
  let ?R = "\<lambda>k st. \<exists>buf. st = (blended m d s k, addr s (k + off), addr d k, remaining N k, buf) \<and>
      off8 (addr s (k + off)) = 0 \<and> off8 (addr d k) = 0 \<and>
      (\<forall>i < off. k + i < N \<longrightarrow> byte_of buf i = bytes_at m s (k + i)) \<and> (\<forall>i \<ge> off. byte_of buf i = 0)"
  obtain k st where "blend_shift G off (blended m d s k0) (addr s (k0 + off)) (addr d k0) (remaining N k0) buf = Some st"
      "k0 \<le> k" "k \<le> N" "?R k st" "\<not> (\<lambda>(m, s, d, n, s_buf). n \<ge> 8) st"
    unfolding blend_shift_def
  proof (rule while_c_progress [where N = N and k = k0 and R = ?R])
    fix k st
    assume "?R k st" and "k \<le> N" and b: "(\<lambda>(m, s, d, n, s_buf). n \<ge> 8) st"
    then obtain buf where st: "st = (blended m d s k, addr s (k + off), addr d k, remaining N k, buf)"
      and al: "off8 (addr s (k + off)) = 0" "off8 (addr d k) = 0"
      and lo: "\<And>i. i < off \<Longrightarrow> k + i < N \<Longrightarrow> byte_of buf i = bytes_at m s (k + i)"
      and hi: "\<And>i. off \<le> i \<Longrightarrow> byte_of buf i = 0"
      by blast
    let ?m = "blended m d s k"
    have k: "k + 8 \<le> N" using b st P(1) by (auto simp: addr_simps)
    define w where "w = word_at ?m (addr s (k + off))"
    have w: "byte_of w i = bytes_at m s (k + off + i)" if "i < 8" "k + off + i < N" for i
      using that P(2) by (simp add: w_def byte_of_word_at_addr addr_simps blended_source add.assoc)
    have rd: "read_u64 ?m (addr s (k + off)) = Some w" "read_u64 ?m (addr d k) = Some (word_at ?m (addr d k))"
      unfolding w_def using al k off P by (auto intro!: read_u64_addr [where j = 0] simp: addr_simps can_accessD)
    have bytes: "byte_of (buf OR push_bit (8 * off) w) i = bytes_at m s (k + i)" if "i < 8" for i
      using that k off lo [of i] hi [of i] w [of "i - off"] by (auto simp: byte_simps)
    have wr: "write_u64 ?m (addr d k) (G (word_at ?m (addr d k)) (buf OR push_bit (8 * off) w)) = Some (blended m d s (k + 8))"
      using al k bytes P
      by (subst write_u64_addr [where f = "mixed m d s"])
        (auto simp: bytewise byte_of_word_at_addr blended_dest addr_simps can_accessD mixed_def)
    have "byte_of (drop_bit (8 * (8 - off)) w) i = bytes_at m s (k + 8 + i)" if "i < off" "k + 8 + i < N" for i
      using that off w [of "8 - off + i"] by (simp add: byte_of_drop add.assoc)
    moreover have "byte_of (drop_bit (8 * (8 - off)) w) i = 0" if "off \<le> i" for i
      using that by (simp only: byte_of_drop) (simp add: byte_of_ge)
    moreover have e: "k + 8 + off = k + off + 8" by simp
    ultimately have "?R (k + 8) (blended m d s (k + 8), addr s (k + off) + 8, addr d k + 8, remaining N k - 8,
        drop_bit (8 * (8 - off)) w)"
      using al k off8_addr_plus_8 [of s "k + off"] addr_plus_8 [of s "k + off"]
      by (simp add: addr_plus_8 remaining_minus_8 off8_addr_plus_8 e)
    then show "\<exists>st'. (case st of (m, s, d, n, s_buf) \<Rightarrow> do {
          s_buf2 \<leftarrow> read_u64 m s;
          d_buf \<leftarrow> read_u64 m d;
          let d_buf = G d_buf (s_buf OR push_bit (8 * off) s_buf2);
          m \<leftarrow> write_u64 m d d_buf;
          let s_buf = drop_bit (8 * (8 - off)) s_buf2;
          Some (m, s + 8, d + 8, n - 8, s_buf) }) = Some st' \<and> (\<exists>k'>k. k' \<le> N \<and> ?R k' st')"
      using st rd wr k by (intro exI conjI) (auto simp: Let_def)
  qed (use k0 buf in auto)
  with P(1) show thesis by (elim exE conjE, intro that [of k]) (auto simp: addr_simps)
qed

lemma blend_shifted_ok:
  assumes pre: "copy_pre m d s N" and k0: "k0 < N" "off8 (addr s k0) = 0" "off8 (addr d k0) \<noteq> 0"
  shows "blend_shifted G (blended m d s k0) (addr s k0) (addr d k0) (remaining N k0) = Some (blended m d s N)"
proof -
  note P = copy_preD [OF pre]
  let ?m = "blended m d s"
  define off where "off = off8 (addr d k0)"
  have off: "0 < off" "off < 8" using k0(3) by (simp_all add: off_def off8_less)
  define w where "w = word_at (?m k0) (addr s k0)"
  define dw where "dw = word_at (?m k0) (addr d k0 - of_nat off)"
  have w: "byte_of w i = bytes_at m s (k0 + i)" if "i < 8" "k0 + i < N" for i
    using that P by (simp add: w_def byte_of_word_at_addr addr_simps blended_source)
  have dw: "byte_of (drop_bit (8 * off) dw) i = bytes_at m d (k0 + i)" if "i < 8 - off" "k0 + i < N" for i
  proof -
    have "addr (addr d k0 - of_nat off) (off + i) = addr d (k0 + i)" by (simp add: addr_def)
    then show ?thesis using that off P by (simp add: byte_of_drop dw_def byte_of_word_at_addr blended_dest)
  qed
  have "addr (addr d k0 - of_nat off) off = addr d k0" by (simp add: addr_def)
  then have acc: "accessible (?m k0) (addr (addr d k0 - of_nat off) off)" using k0 P by (simp add: can_accessD)
  have rd: "read_u64 (?m k0) (addr s k0) = Some w"
    unfolding w_def using k0 P by (intro read_u64_addr [where j = 0]) (auto simp: addr_simps can_accessD)
  have "off8 (addr d k0 - of_nat off) = 0" by (subst off8_diff) (simp_all add: off_def)
  then have rd': "read_u64 (?m k0) (addr d k0 - of_nat off) = Some dw"
    unfolding dw_def using acc off(2) by (rule read_u64_addr)
  define k1 where "k1 = min N (k0 + (8 - off))"
  have head: "store_upto (?m k0) (addr d k0) (G (drop_bit (8 * off) dw) w) (8 - off) (remaining N k0) =
      Some (?m k1, addr d k1, drop_bit (8 * (k1 - k0)) (G (drop_bit (8 * off) dw) w), k0 + (8 - off) - k1, remaining N k1)"
    unfolding k1_def using k0 P off w dw by (subst store_upto_ok) (auto simp: Let_def bytewise mixed_def)
  show ?thesis
  proof (cases "k1 = N")
    case True
    then show ?thesis
      using P(1) by (simp add: blend_shifted_def addr_simps rd rd' head off_def [symmetric])
  next
    case False
    then have k1: "k1 = k0 + (8 - off)" "k1 < N" by (auto simp: k1_def)
    have "(off8 (addr d k0) + (8 - off)) mod 8 = 0" using off by (simp add: off_def)
    then have "off8 (addr d k1) = 0" by (simp only: k1 off8_addr_plus)
    moreover have "k1 + off = k0 + 8" using k1 off by simp
    ultimately have al: "off8 (addr s (k1 + off)) = 0" "off8 (addr d k1) = 0"
      using k0(2) by (simp_all add: addr_simps)
    have s8: "addr s k0 + 8 = addr s (k1 + off)" using k1 off by (simp add: addr_simps)
    have "byte_of (drop_bit (8 * (8 - off)) w) i = bytes_at m s (k1 + i)" if "i < off" "k1 + i < N" for i
      using that off k1 w [of "8 - off + i"] by (simp add: byte_of_drop add.assoc)
    moreover have "byte_of (drop_bit (8 * (8 - off)) w) i = 0" if "off \<le> i" for i
      using that by (simp only: byte_of_drop) (simp add: byte_of_ge)
    ultimately obtain k buf where k: "k1 \<le> k" "k \<le> N" "N < k + 8" "off8 (addr s (k + off)) = 0" "off8 (addr d k) = 0"
      and buf: "\<And>i. i < off \<Longrightarrow> k + i < N \<Longrightarrow> byte_of buf i = bytes_at m s (k + i)"
        "\<And>i. off \<le> i \<Longrightarrow> byte_of buf i = 0"
      and body: "blend_shift G off (?m k1) (addr s (k1 + off)) (addr d k1) (remaining N k1)
          (drop_bit (8 * (8 - off)) w) =
        Some (?m k, addr s (k + off), addr d k, remaining N k, buf)"
      using blend_shift_ok [OF pre off less_imp_le [OF k1(2)] al, of "drop_bit (8 * (8 - off)) w"] by blast
    define w2 where "w2 = (if N - k \<le> off then 0 else word_at (?m k) (addr s (k + off)))"
    have le_off: "remaining N k \<le> of_nat off \<longleftrightarrow> N - k \<le> off"
      using P(1) off by (simp add: word_le_nat_alt unat_remaining unat_of_nat_u64)
    have rd2: "(if remaining N k \<le> of_nat off then Some 0 else read_u64 (?m k) (addr s (k + off))) = Some w2"
      using k off P by (auto simp: w2_def le_off addr_simps can_accessD intro!: read_u64_addr [where j = 0])
    have rd3: "read_u64 (?m k) (addr d k) = Some (word_at (?m k) (addr d k))" if "k < N"
      using that k P by (intro read_u64_addr [where j = 0]) (auto simp: addr_simps can_accessD)
    have "byte_of (G (word_at (?m k) (addr d k)) (buf OR push_bit (8 * off) w2)) i = mixed m d s (k + i)" if "k + i < N" for i
    proof -
      have i: "i < 8" using that k(3) by simp
      have "byte_of w2 (i - off) = bytes_at m s (k + i)" if "off \<le> i"
        using that \<open>k + i < N\<close> k P by (auto simp: w2_def byte_of_word_at_addr addr_simps blended_source)
      then have "byte_of (buf OR push_bit (8 * off) w2) i = bytes_at m s (k + i)"
        using that k off buf [of i] by (auto simp: byte_simps not_le)
      moreover have "byte_of (word_at (?m k) (addr d k)) i = bytes_at m d (k + i)"
        using i that P(1) by (simp add: byte_of_word_at_addr addr_simps blended_dest)
      ultimately show ?thesis using i by (simp add: bytewise mixed_def)
    qed
    then obtain d' buf' where tail: "store_tail (?m k) (addr d k) (G (word_at (?m k) (addr d k)) (buf OR push_bit (8 * off) w2)) (remaining N k) =
        Some (?m N, d', buf', 0)"
      using store_tail_ok [of N m d k "G (word_at (?m k) (addr d k)) (buf OR push_bit (8 * off) w2)" "mixed m d s"] P k by metis
    show ?thesis
      using False k(2) P(1) k1(2) rd3
      by (cases "k = N")
        (simp_all add: blend_shifted_def unat_and_7 remaining_eq_0 rd rd' head off_def [symmetric] s8 body rd2 tail Let_def)
  qed
qed

lemma blend_bytes_ok:
  assumes pre: "copy_pre m dest src (unat n)"
  shows "blend_bytes g G m dest src n = Some (blended m dest src (unat n))"
proof -
  let ?N = "unat n" and ?m = "blended m dest src"
  note P = copy_preD [OF pre]
  obtain k where k: "k \<le> ?N" "k = ?N \<or> off8 (addr src k) = 0"
    and head: "blend_head g m src dest n = Some (?m k, addr src k, addr dest k, remaining ?N k)"
    using blend_head_ok [OF pre] by (metis remaining_0)
  consider "k = ?N" | "k < ?N" "off8 (addr dest k) = 0" | "k < ?N" "off8 (addr dest k) \<noteq> 0"
    using k by linarith
  then show ?thesis
  proof cases
    case 1
    then show ?thesis using P(1) by (simp add: blend_bytes_def head addr_simps)
  next
    case 2
    with k have "off8 (addr src k) = 0" by simp
    with 2 k obtain k' where k': "k \<le> k'" "k' \<le> ?N" "?N < k' + 8" "off8 (addr src k') = 0" "off8 (addr dest k') = 0"
      and body: "blend_words G (?m k) (addr src k) (addr dest k) (remaining ?N k) =
        Some (?m k', addr src k', addr dest k', remaining ?N k')"
      using blend_words_ok [OF pre] by metis
    define v where "v = G (word_at (?m k') (addr dest k')) (word_at (?m k') (addr src k'))"
    have "byte_of v j = mixed m dest src (k' + j)" if "k' + j < ?N" for j
      using that k' P by (simp add: v_def bytewise mixed_def byte_of_word_at_addr addr_simps blended_source blended_dest)
    then obtain d' buf' where tail: "store_tail (?m k') (addr dest k') v (remaining ?N k') = Some (?m ?N, d', buf', 0)"
      using store_tail_ok [of ?N m dest k' v "mixed m dest src"] P k' by metis
    have rd: "read_u64 (?m k') (addr src k') = Some (word_at (?m k') (addr src k'))"
      "read_u64 (?m k') (addr dest k') = Some (word_at (?m k') (addr dest k'))" if "k' < ?N"
      using that k' P by (auto intro!: read_u64_addr [where j = 0] simp: addr_simps can_accessD)
    show ?thesis
      using 2 k' P(1) rd
      by (cases "k' = ?N") (simp_all add: blend_bytes_def head addr_simps body tail v_def [symmetric] Let_def)
  next
    case 3
    with k have "off8 (addr src k) = 0" by simp
    with 3 show ?thesis
      using P(1) by (simp add: blend_bytes_def head addr_simps blend_shifted_ok [OF pre])
  qed
qed

end

section \<open>The two instances\<close>

interpretation xor: blend "\<lambda>a b. a XOR b" "\<lambda>a b. a XOR b"
  by unfold_locales (simp add: byte_of_xor)

lemma masks:
  "mask_src True = NOT 0" "mask_dst True = 0" "mask_src False = 0" "mask_dst False = NOT 0"
  "mask_src_long True = NOT 0" "mask_dst_long True = 0" "mask_src_long False = 0" "mask_dst_long False = NOT 0"
  by (simp_all add: mask_src_def mask_dst_def mask_src_long_def mask_dst_long_def cond_val_def)

interpretation cnd: blend "\<lambda>a b. (a AND mask_dst cond) OR (b AND mask_src cond)"
    "\<lambda>a b. (b AND mask_src_long cond) OR (a AND mask_dst_long cond)" for cond
proof unfold_locales
  fix i :: nat and v w :: u64 assume "i < 8"
  show "byte_of ((w AND mask_src_long cond) OR (v AND mask_dst_long cond)) i =
      (byte_of v i AND mask_dst cond) OR (byte_of w i AND mask_src cond)"
    by (cases cond) (simp_all add: masks)
qed

section \<open>Properties\<close>

text \<open>For disjoint accessible buffers, whatever their alignments, \<open>memxor\<close> replaces the \<open>n\<close>
  bytes from \<open>dest\<close> by their exclusive or with the bytes from \<open>src\<close> and changes nothing else;
  doing it twice gives back the memory.\<close>

theorem memxor_correct:
  assumes "disjoint_buffers dest src (unat n)" "can_access m src (unat n)" "can_access m dest (unat n)"
  shows "memxor m dest src n = Some (put_bytes m dest (unat n) (\<lambda>i. bytes_at m dest i XOR bytes_at m src i), dest) \<and>
    Option.bind (memxor m dest src n) (\<lambda>(m', d). memxor m' d src n) = Some (m, dest)"
proof -
  let ?N = "unat n" and ?m = "put_bytes m dest (unat n) (\<lambda>i. bytes_at m dest i XOR bytes_at m src i)"
  have run: "memxor m' dest src n = Some (put_bytes m' dest ?N (\<lambda>i. bytes_at m' dest i XOR bytes_at m' src i), dest)"
    if "can_access m' src ?N" "can_access m' dest ?N" for m'
  proof -
    have "copy_pre m' dest src ?N" using assms(1) that unat_less_2p64 [of n] by (simp add: copy_pre_def disjoint_fwd_ok)
    from xor.blend_bytes_ok [OF this] show ?thesis by (simp add: memxor_def xor.mixed_def cong: put_range_cong)
  qed
  have src: "bytes_at ?m src i = bytes_at m src i" if "i < ?N" for i
    using assms(1) that unfolding bytes_at_def by (subst content_put_other) (auto simp: disjoint_buffers_def)
  have dest: "bytes_at ?m dest i = bytes_at m dest i XOR bytes_at m src i" if "i < ?N" for i
    using that unat_less_2p64 [of n] by (simp add: bytes_at_def content_put_addr)
  have "put_bytes ?m dest ?N (\<lambda>i. bytes_at ?m dest i XOR bytes_at ?m src i) = put_bytes ?m dest ?N (bytes_at m dest)"
    by (rule put_range_cong) (simp add: src dest xor.assoc)
  also have "\<dots> = m"
    by (rule put_range_content_eqI) (auto simp: put_range_def bytes_at_def addr_def)
  finally show ?thesis using run [of m] run [of ?m] assms(2,3) by simp
qed

theorem memxor_witness:
  "disjoint_buffers 29 2 (unat (21 :: u64)) \<and>
   memxor demo_mem 29 2 21 = Some (put_bytes demo_mem 29 21 (\<lambda>i. bytes_at demo_mem 29 i XOR bytes_at demo_mem 2 i), 29)"
  using memxor_correct [of 29 2 21 demo_mem] by (simp add: demo_mem_access disjoint_demo)

lemma cond_memcpy_run:
  assumes "disjoint_buffers vd vs (unat n)" "can_access m vs (unat n)" "can_access m vd (unat n)"
  shows "cond_memcpy m cond vd vs n = Some (if cond then put_bytes m vd (unat n) (bytes_at m vs) else m)"
proof -
  have "copy_pre m vd vs (unat n)" using assms unat_less_2p64 [of n] by (simp add: copy_pre_def disjoint_fwd_ok)
  from cnd.blend_bytes_ok [OF this, of cond]
  have run: "cond_memcpy m cond vd vs n = Some (put_bytes m vd (unat n) (\<lambda>i. if cond then bytes_at m vs i else bytes_at m vd i))"
    unfolding cond_memcpy_def cnd.mixed_def by (cases cond) (simp_all add: masks cong: put_range_cong)
  moreover have "put_bytes m vd (unat n) (bytes_at m vd) = m"
    by (rule put_range_content_eqI) (auto simp: bytes_at_def addr_def)
  ultimately show ?thesis by (cases cond) simp_all
qed

text \<open>\<open>cond_memcpy\<close> copies like \<open>memcpy\<close> when the condition is 1 and leaves the memory as it
  was when it is 0, through the same reads and writes.\<close>

theorem cond_memcpy_correct:
  assumes "disjoint_buffers vd vs (unat n)" "can_access m vs (unat n)" "can_access m vd (unat n)"
  shows "cond_memcpy m cond vd vs n = Some (if cond then put_bytes m vd (unat n) (bytes_at m vs) else m)"
  using assms by (rule cond_memcpy_run)

theorem cond_memcpy_witness:
  "cond_memcpy demo_mem False 29 2 21 = Some demo_mem \<and>
   cond_memcpy demo_mem True 29 2 21 = Some (put_bytes demo_mem 29 21 (bytes_at demo_mem 2))"
  using cond_memcpy_correct [of 29 2 21 demo_mem] by (simp add: demo_mem_access disjoint_demo)

end
