(* ===== verification/Swar.thy ===== *)
theory Swar
  imports StrBlend
begin

text \<open>
  The zero-byte test of the string routines, the macros \<open>ONES\<close>, \<open>HIGHS\<close> and \<open>HASZERO\<close> of
  \<open>strlen.c\<close>: eight bytes are tested at once by one subtraction on the whole word.
\<close>

definition ONES :: u64 where
  "ONES = (- 1) div 255"

definition HIGHS :: u64 where
  "HIGHS = ONES * 128"

definition HASZERO :: "u64 \<Rightarrow> bool" where
  "HASZERO x \<longleftrightarrow> (x - ONES) AND NOT x AND HIGHS \<noteq> 0"

section \<open>The subtraction, byte by byte\<close>

fun ones :: "nat \<Rightarrow> u64" where
  "ones 0 = 0"
| "ones (Suc k) = 1 + ones k * 256"

lemma ONES_val: "ONES = 0x0101010101010101"
  by (simp add: ONES_def word_unat_eq_iff unat_div)

lemma ONES_ones: "ONES = ones 8"
proof -
  have "ones 8 = 0x0101010101010101"
    by (simp add: eval_nat_numeral)
  then show ?thesis by (simp only: ONES_val)
qed

lemma word_split_low: "x = ucast (byte_of x 0) + drop_bit 8 x * 256" for x :: u64
proof -
  have "ucast (byte_of x 0) AND push_bit 8 (drop_bit 8 x) = 0"
    by (rule bit_word_eqI) (auto simp: bit_simps dest: bit_imp_le_length)
  moreover have "ucast (byte_of x 0) OR push_bit 8 (drop_bit 8 x) = x"
    by (rule bit_word_eqI) (auto simp: bit_simps bit_byte_of, metis le_add_diff_inverse not_less)
  ultimately show ?thesis
    by (simp add: push_bit_eq_mult flip: disjunctive_add_eq_or)
qed

lemma unat_ucast_u8: "unat (ucast (b :: u8) :: u64) = unat b"
  using unsigned_less [where 'b = 8 and 'a = nat, of b] by (simp add: unsigned_ucast_eq take_bit_nat_eq_self)

lemma u8_cases:
  fixes b :: u8
  obtains "b = 0" | "b = 1" | "2 \<le> b" "b \<noteq> 0" "b \<noteq> 1" "1 \<le> b"
proof -
  consider "unat b = 0" | "unat b = 1" | "2 \<le> unat b" by linarith
  then show thesis using that by cases (auto simp: word_le_nat_alt word_unat_eq_iff)
qed

lemma byte_borrow:
  fixes b :: u8
  shows "(ucast b :: u64) - 1 - of_bool c =
    ucast (b - 1 - of_bool c) - (if b = 0 \<or> b = 1 \<and> c then 256 else 0)"
proof -
  have *: "(ucast (b - k) :: u64) = ucast b - ucast k" if "k \<le> b" for k
  proof -
    have "(ucast k :: u64) \<le> ucast b"
      using that by (simp add: word_le_nat_alt unat_ucast_u8)
    then show ?thesis
      using that by (simp add: word_unat_eq_iff unat_sub unat_ucast_u8)
  qed
  show ?thesis
  proof (cases b rule: u8_cases)
    case 3
    then show ?thesis using *[of 1] *[of 2] by (cases c) (simp_all add: diff_diff_eq)
  qed (cases c; simp add: unsigned_minus_1_eq_mask mask_eq_exp_minus_1)+
qed

text \<open>Byte \<open>i\<close> of the difference lost one, and one more where a lower byte was zero.\<close>

lemma byte_of_sub_ones:
  assumes "i < k" "k \<le> 8"
  shows "\<exists>c'. byte_of (x - ones k - of_bool c) i = byte_of x i - 1 - of_bool c' \<and>
    (c' \<longrightarrow> c \<or> (\<exists>j < i. byte_of x j = 0))"
  using assms
proof (induction k arbitrary: x c i)
  case (Suc k)
  let ?b = "byte_of x 0" and ?x = "drop_bit 8 x"
  define br where "br \<longleftrightarrow> ?b = 0 \<or> ?b = 1 \<and> c"
  have "x - ones (Suc k) - of_bool c = (ucast ?b - 1 - of_bool c) + (?x - ones k) * 256"
    by (subst word_split_low [of x]) (simp add: algebra_simps)
  also have "\<dots> = ucast (?b - 1 - of_bool c) + (?x - ones k - of_bool br) * 256"
    by (simp only: byte_borrow) (simp add: br_def algebra_simps)
  finally have split: "x - ones (Suc k) - of_bool c = ucast (?b - 1 - of_bool c) + (?x - ones k - of_bool br) * 256" .
  have x: "byte_of ?x j = byte_of x (Suc j)" for j
    using byte_of_drop [of 1 x j] by simp
  show ?case
  proof (cases i)
    case 0
    then show ?thesis unfolding split by (intro exI [of _ c]) (simp only: byte_of_cons_mult 0, simp)
  next
    case (Suc i')
    with Suc.prems Suc.IH [of i' ?x br] obtain c' where
      c': "byte_of (?x - ones k - of_bool br) i' = byte_of x i - 1 - of_bool c'"
      "c' \<longrightarrow> br \<or> (\<exists>j < i'. byte_of x (Suc j) = 0)"
      by (auto simp: x)
    have c'_cause: "c' \<longrightarrow> c \<or> (\<exists>j < i. byte_of x j = 0)"
      using c'(2) Suc by (auto simp: br_def)
    have "byte_of (x - ones (Suc k) - of_bool c) i = byte_of x i - 1 - of_bool c'"
      unfolding split using Suc.prems
      by (simp only: byte_of_cons_mult Suc diff_Suc_1 nat.distinct if_False less_le_trans [OF _ Suc.prems(2)] if_True c'(1) [unfolded Suc])
    with c'_cause show ?thesis by blast
  qed
qed simp

lemma byte_of_HIGHS: "i < 8 \<Longrightarrow> byte_of HIGHS i = 0x80"
  using byte_of_repeat [of i "0x80"] by (simp add: HIGHS_def ONES_val)

lemma byte_of_not [byte_simps]: "i < 8 \<Longrightarrow> byte_of (NOT w) i = NOT (byte_of w i)"
  by (rule bit_word_eqI) (auto simp: bit_byte_of bit_simps)

lemma top_bit: "(b :: u8) AND 0x80 \<noteq> 0 \<longleftrightarrow> 128 \<le> unat b"
proof -
  have "b AND 0x80 \<noteq> 0 \<longleftrightarrow> bit b 7"
    using and_exp_eq_0_iff_not_bit [of b 7] by simp
  also have "\<dots> \<longleftrightarrow> bit (unat b) 7"
    by (auto simp: bit_simps dest: bit_imp_le_length)
  also have "\<dots> \<longleftrightarrow> odd (unat b div 128)"
    by (simp add: bit_iff_odd)
  also have "\<dots> \<longleftrightarrow> 128 \<le> unat b"
    using unsigned_less [where 'b = 8 and 'a = nat, of b] by (cases "unat b < 128") (simp_all add: div_if)
  finally show ?thesis .
qed

lemma flag_byte: "((b :: u8) - 1 - of_bool c) AND NOT b AND 0x80 \<noteq> 0 \<longleftrightarrow> b = 0 \<or> b = 1 \<and> c"
proof -
  have "(v AND NOT b) AND 0x80 \<noteq> 0 \<longleftrightarrow> v AND 0x80 \<noteq> 0 \<and> b AND 0x80 = 0" for v :: u8
    using and_exp_eq_0_iff_not_bit [of _ 7, where 'a = "8 word"] by (simp add: bit_simps)
  then have "((b - 1 - of_bool c) AND NOT b) AND 0x80 \<noteq> 0 \<longleftrightarrow>
      128 \<le> unat (b - 1 - of_bool c) \<and> unat b < 128"
    using top_bit by (metis not_less)
  moreover have "128 \<le> unat (b - 1 - of_bool c) \<and> unat b < 128 \<longleftrightarrow> b = 0 \<or> b = 1 \<and> c"
  proof (cases b rule: u8_cases)
    case 3
    then show ?thesis
      using unat_sub [of 1 b] unat_sub [of 2 b] by (cases c) (auto simp: diff_diff_eq)
  qed (cases c; simp add: unsigned_minus_1_eq_mask mask_eq_exp_minus_1)+
  ultimately show ?thesis by (simp only: and.assoc)
qed

lemma HASZERO_iff: "HASZERO x \<longleftrightarrow> (\<exists>i < 8. byte_of x i = 0)"
proof
  let ?m = "(x - ONES) AND NOT x AND HIGHS"
  have m: "\<exists>c. byte_of ?m i = (byte_of x i - 1 - of_bool c) AND NOT (byte_of x i) AND 0x80 \<and>
      (c \<longrightarrow> (\<exists>j < i. byte_of x j = 0))" if i: "i < 8" for i
  proof -
    obtain c where c: "byte_of (x - ONES) i = byte_of x i - 1 - of_bool c" "c \<longrightarrow> (\<exists>j < i. byte_of x j = 0)"
      using byte_of_sub_ones [OF i order_refl, of x False, folded ONES_ones]
      by (simp only: of_bool_eq diff_zero simp_thms) blast
    then have "byte_of ?m i = (byte_of x i - 1 - of_bool c) AND NOT (byte_of x i) AND 0x80"
      using i by (simp only: byte_of_and byte_of_not byte_of_HIGHS)
    with c(2) show ?thesis by blast
  qed
  {
    assume "HASZERO x"
    then have "?m \<noteq> 0" by (simp only: HASZERO_def and.assoc not_False_eq_True)
    then have "\<not> (\<forall>i < 8. byte_of ?m i = byte_of 0 i)"
      using byte_of_eqI by blast
    then obtain i where i: "i < 8" "byte_of ?m i \<noteq> 0"
      by (auto simp only: byte_of_0_word)
    from m [OF i(1)] obtain c where c: "byte_of ?m i = (byte_of x i - 1 - of_bool c) AND NOT (byte_of x i) AND 0x80"
      "c \<longrightarrow> (\<exists>j < i. byte_of x j = 0)"
      by blast
    from i(2) have "byte_of x i = 0 \<or> byte_of x i = 1 \<and> c"
      unfolding c(1) flag_byte .
    with c(2) i(1) show "\<exists>i < 8. byte_of x i = 0"
      by (meson less_trans)
  next
    assume "\<exists>i < 8. byte_of x i = 0"
    then obtain i where i: "i < 8" "byte_of x i = 0" by blast
    from m [OF i(1)] obtain c where "byte_of ?m i = (byte_of x i - 1 - of_bool c) AND NOT (byte_of x i) AND 0x80"
      by blast
    then have "byte_of ?m i \<noteq> 0"
      using i(2) flag_byte [of "byte_of x i" c] by (simp only: simp_thms)
    then have "?m \<noteq> 0" by (metis byte_of_0_word)
    then show "HASZERO x"
      by (simp only: HASZERO_def and.assoc not_False_eq_True)
  }
qed

end
