(* ===== verification/StrLen.thy ===== *)
theory StrLen
  imports Swar
begin

text \<open>
  \<open>strlen\<close> and \<open>strnlen\<close> of \<open>src/string\<close>: byte by byte up to an aligned
  address, then eight bytes at a time, then the last bytes.
\<close>

section \<open>strlen\<close>

text \<open>\<open>while (buf & 0xff) { buf >>= 8; s++; }\<close>, and with a counter
  \<open>while (n && (buf & 0xff)) { buf >>= 8; s++; n--; }\<close>\<close>

definition skip_nonzero :: "u64 \<Rightarrow> u64 \<Rightarrow> (u64 \<times> u64) option" where
  "skip_nonzero s buf = while_c (\<lambda>(s, buf). buf AND 0xff \<noteq> 0) (\<lambda>(s, buf). Some (s + 1, drop_bit 8 buf)) (s, buf)"

definition skip_nonzero_n :: "u64 \<Rightarrow> u64 \<Rightarrow> u64 \<Rightarrow> (u64 \<times> u64 \<times> u64) option" where
  "skip_nonzero_n s buf n =
     while_c (\<lambda>(s, buf, n). n \<noteq> 0 \<and> buf AND 0xff \<noteq> 0) (\<lambda>(s, buf, n). Some (s + 1, drop_bit 8 buf, n - 1)) (s, buf, n)"

text \<open>The search for a zero in the bytes before an aligned address, which may return, and
  in the words from there.\<close>

definition strlen_bytes :: "mem \<Rightarrow> u64 \<Rightarrow> (u64 + u64) option" where
  "strlen_bytes m str =
     while_ret (\<lambda>s. s AND 7 \<noteq> 0)
       (\<lambda>s. do {
          b \<leftarrow> read_byte m s;
          Some (if b = 0 then Inl (s - str) else Inr (s + 1)) })
       str"

definition strlen_words :: "mem \<Rightarrow> u64 \<Rightarrow> (u64 \<times> u64) option" where
  "strlen_words m =
     loop_c (\<lambda>s. do {
       buf \<leftarrow> read_u64 m s;
       Some (if HASZERO buf then Inl (s, buf) else Inr (s + 8)) })"

definition strlen :: "mem \<Rightarrow> u64 \<Rightarrow> u64 option" where
  "strlen m str = do {
     r \<leftarrow> strlen_bytes m str;
     case r of
       Inl len \<Rightarrow> Some len
     | Inr s \<Rightarrow> do {
         (s, buf) \<leftarrow> strlen_words m s;
         (s, buf) \<leftarrow> skip_nonzero s buf;
         Some (s - str) } }"

section \<open>strnlen\<close>

definition strnlen_bytes :: "mem \<Rightarrow> u64 \<Rightarrow> u64 \<Rightarrow> (u64 + u64 \<times> u64) option" where
  "strnlen_bytes m str n =
     while_ret (\<lambda>(s, n). n \<noteq> 0 \<and> s AND 7 \<noteq> 0)
       (\<lambda>(s, n). do {
          b \<leftarrow> read_byte m s;
          Some (if b = 0 then Inl (s - str) else Inr (s + 1, n - 1)) })
       (str, n)"

definition strnlen_words :: "mem \<Rightarrow> u64 \<Rightarrow> u64 \<Rightarrow> (u64 \<times> u64 + u64 \<times> u64) option" where
  "strnlen_words m s n =
     while_ret (\<lambda>(s, n). n \<ge> 8)
       (\<lambda>(s, n). do {
          buf \<leftarrow> read_u64 m s;
          Some (if HASZERO buf then Inl (s, buf) else Inr (s + 8, n - 8)) })
       (s, n)"

definition strnlen :: "mem \<Rightarrow> u64 \<Rightarrow> u64 \<Rightarrow> u64 option" where
  "strnlen m str n = do {
     r \<leftarrow> strnlen_bytes m str n;
     case r of
       Inl len \<Rightarrow> Some len
     | Inr (s, n) \<Rightarrow>
         if n = 0 then Some (s - str)
         else do {
           r \<leftarrow> strnlen_words m s n;
           case r of
             Inl (s, buf) \<Rightarrow> do {
               (s, buf) \<leftarrow> skip_nonzero s buf;
               Some (s - str) }
           | Inr (s, n) \<Rightarrow>
               if n = 0 then Some (s - str)
               else do {
                 buf \<leftarrow> read_u64 m s;
                 (s, buf, n) \<leftarrow> skip_nonzero_n s buf n;
                 Some (s - str) } } }"

section \<open>The bytes up to a zero\<close>

text \<open>A string of length \<open>k\<close>, and the first zero among the first \<open>N\<close> bytes, or \<open>N\<close>.\<close>

definition is_string :: "mem \<Rightarrow> u64 \<Rightarrow> nat \<Rightarrow> bool" where
  "is_string m p k \<longleftrightarrow> k < 2 ^ 64 \<and> (\<forall>i < k. bytes_at m p i \<noteq> 0) \<and> bytes_at m p k = 0 \<and> can_access m p (Suc k)"

definition is_prefix :: "mem \<Rightarrow> u64 \<Rightarrow> nat \<Rightarrow> nat \<Rightarrow> bool" where
  "is_prefix m p N k \<longleftrightarrow> k \<le> N \<and> N < 2 ^ 64 \<and> (\<forall>i < k. bytes_at m p i \<noteq> 0) \<and>
     (k < N \<longrightarrow> bytes_at m p k = 0) \<and> can_access m p (min (Suc k) N)"

lemma bytes_of_word:
  "i < 8 \<Longrightarrow> byte_of (word_at m (addr p k)) i = bytes_at m p (k + i)"
  by (simp add: byte_of_word_at_addr bytes_at_def addr_simps)

lemma addr_diff [simp]: "addr p k - p = of_nat k"
  by (simp add: addr_def)

lemma skip_nonzero_ok:
  assumes "\<And>i. k + i < K \<Longrightarrow> byte_of buf i \<noteq> 0" "k \<le> K" "byte_of buf (K - k) = 0"
  shows "\<exists>buf'. skip_nonzero (addr p k) buf = Some (addr p K, buf')"
proof -
  have stop: "j = K" if "k \<le> j" "j \<le> K" "byte_of buf (j - k) = 0" for j
    using assms(1) [of "j - k"] that by (cases "j = K") auto
  have "\<exists>st. skip_nonzero (addr p k) buf = Some st \<and> fst st = addr p K"
    unfolding skip_nonzero_def
  proof (rule while_c_post [where N = K and k = k and
        R = "\<lambda>j st. st = (addr p j, drop_bit (8 * (j - k)) buf) \<and> k \<le> j"], goal_cases)
    case (3 j st)
    then have "j < K"
      using assms by (cases "j = K") (auto simp: and_ff_zero_iff byte_of_drop)
    then show ?case
      using 3 by (auto simp: addr_simps drop_bit_drop_bit Suc_diff_le intro!: exI [of _ "Suc j"])
  next
    case (4 j st)
    then show ?case using stop [of j] by (auto simp: and_ff_zero_iff byte_of_drop)
  qed (use assms in auto)
  then show ?thesis by auto
qed

lemma word_zero_ahead:
  assumes "\<And>i. i < K \<Longrightarrow> bytes_at m p i \<noteq> 0" "k \<le> K"
  shows "HASZERO (word_at m (addr p k)) \<Longrightarrow> K < k + 8"
    and "\<not> HASZERO (word_at m (addr p k)) \<Longrightarrow> bytes_at m p K = 0 \<Longrightarrow> k + 8 \<le> K"
proof -
  have *: "byte_of (word_at m (addr p k)) i = bytes_at m p (k + i)" if "i < 8" for i
    using that by (simp add: byte_of_word_at_addr bytes_at_def addr_simps)
  show "HASZERO (word_at m (addr p k)) \<Longrightarrow> K < k + 8"
    using assms(1) * unfolding HASZERO_iff by (metis add_less_cancel_left not_less le_less_trans leI)
  show "\<not> HASZERO (word_at m (addr p k)) \<Longrightarrow> bytes_at m p K = 0 \<Longrightarrow> k + 8 \<le> K"
    using assms(2) * [of "K - k"] unfolding HASZERO_iff by (metis add_diff_cancel_left' le_add_diff_inverse less_diff_conv2 not_less add.commute)
qed

lemma strlen_bytes_ok:
  assumes "is_string m str K"
  shows "\<exists>r. strlen_bytes m str = Some r \<and> (r = Inl (of_nat K) \<or> (\<exists>k \<le> K. r = Inr (addr str k) \<and> off8 (addr str k) = 0))"
  unfolding strlen_bytes_def
proof (rule while_ret_post [where N = K and k = 0 and R = "\<lambda>k s. s = addr str k"], goal_cases)
  case (3 k s)
  then have "read_byte m s = Some (bytes_at m str k)"
    using assms by (auto simp: is_string_def read_byte_eq can_accessD bytes_at_def)
  then show ?case
    using 3 assms by (cases "k = K") (auto simp: is_string_def addr_simps intro!: exI [of _ "Suc k"])
qed (auto simp: addr_simps)

lemma strlen_words_ok:
  assumes str: "is_string m str K" and k0: "k0 \<le> K" "off8 (addr str k0) = 0"
  shows "\<exists>r. strlen_words m (addr str k0) = Some r \<and> (\<exists>k \<le> K. K < k + 8 \<and> r = (addr str k, word_at m (addr str k)))"
  unfolding strlen_words_def
proof (rule loop_c_post [where N = K and k = k0 and R = "\<lambda>k s. s = addr str k \<and> off8 s = 0"], goal_cases)
  case (3 k s)
  then have "read_u64 m s = Some (word_at m s)"
    using str by (intro read_u64_addr [where j = 0]) (auto simp: is_string_def addr_simps can_accessD)
  then show ?case
    using 3 word_zero_ahead [of K m str k] str
    by (cases "HASZERO (word_at m s)") (auto simp: is_string_def addr_simps, rule exI [of _ "k + 8"], simp)
qed (use k0 in auto)

section \<open>The bounded search\<close>

lemma is_prefixD:
  assumes "is_prefix m p N K"
  shows "K \<le> N" "N < 2 ^ 64" "i < K \<Longrightarrow> bytes_at m p i \<noteq> 0" "K < N \<Longrightarrow> bytes_at m p K = 0"
    "k \<le> K \<Longrightarrow> k < N \<Longrightarrow> accessible m (addr p k)"
  using assms by (auto simp: is_prefix_def can_access_def)

lemma skip_nonzero_n_ok:
  assumes pre: "is_prefix m p N K" and k: "k \<le> K" "K < k + 8"
    and buf: "\<And>i. i < 8 \<Longrightarrow> byte_of buf i = bytes_at m p (k + i)"
  shows "\<exists>st. skip_nonzero_n (addr p k) buf (remaining N k) = Some st \<and> fst st = addr p K"
  unfolding skip_nonzero_n_def
proof (rule while_c_post [where N = K and k = k and
      R = "\<lambda>j st. st = (addr p j, drop_bit (8 * (j - k)) buf, remaining N j) \<and> k \<le> j"], goal_cases)
  case (3 j st)
  note P = is_prefixD [OF pre]
  have "j < K"
    using 3 P(1,2,4) buf [of "j - k"] k by (cases "j = K") (auto simp: and_ff_zero_iff byte_of_drop addr_simps)
  then show ?case
    using 3 P(1) by (auto simp: addr_simps drop_bit_drop_bit Suc_diff_le intro!: exI [of _ "Suc j"])
next
  case (4 j st)
  note P = is_prefixD [OF pre]
  have "\<not> j < K"
  proof
    assume "j < K"
    with 4 P(1,2) P(3) [of j] buf [of "j - k"] k show False
      by (auto simp: and_ff_zero_iff byte_of_drop addr_simps)
  qed
  then have "j = K" using 4 by simp
  then show ?case using 4 by simp
qed (use k in auto)

lemma strnlen_bytes_ok:
  assumes pre: "is_prefix m str N K"
  shows "\<exists>r. strnlen_bytes m str (remaining N 0) = Some r \<and>
    (r = Inl (of_nat K) \<or>
     (\<exists>k \<le> K. r = Inr (addr str k, remaining N k) \<and> (k < N \<longrightarrow> off8 (addr str k) = 0)))"
  unfolding strnlen_bytes_def
proof (rule while_ret_post [where N = K and k = 0 and R = "\<lambda>k st. st = (addr str k, remaining N k)"], goal_cases)
  case (3 k st)
  note P = is_prefixD [OF pre]
  from 3 have k: "k < N" using P(1,2) by (auto simp: addr_simps)
  then have rd: "read_byte m (addr str k) = Some (bytes_at m str k)"
    using P(5) 3 by (simp add: read_byte_eq bytes_at_def)
  show ?case
  proof (cases "k = K")
    case True
    then show ?thesis using 3 rd P(4) k by simp
  next
    case False
    then show ?thesis using 3 rd P(3) k by (auto simp: addr_simps intro!: exI [of _ "Suc k"])
  qed
next
  case (4 k st)
  with is_prefixD [OF pre] show ?case by (auto simp: addr_simps)
qed (auto simp: addr_simps)

lemma strnlen_words_ok:
  assumes pre: "is_prefix m str N K" and k0: "k0 \<le> K" "off8 (addr str k0) = 0"
  shows "\<exists>r. strnlen_words m (addr str k0) (remaining N k0) = Some r \<and>
    (\<exists>k \<le> K. K < k + 8 \<and> off8 (addr str k) = 0 \<and>
      (r = Inl (addr str k, word_at m (addr str k)) \<and> K < N \<or> r = Inr (addr str k, remaining N k)))"
  unfolding strnlen_words_def
proof (rule while_ret_post [where N = K and k = k0 and
      R = "\<lambda>k st. st = (addr str k, remaining N k) \<and> off8 (addr str k) = 0"], goal_cases)
  case (3 k st)
  note P = is_prefixD [OF pre]
  from 3 have k: "k + 8 \<le> N" using P(1,2) by (auto simp: addr_simps)
  then have rd: "read_u64 m (addr str k) = Some (word_at m (addr str k))"
    using 3 P(5) [of k] by (intro read_u64_addr [where j = 0]) (auto simp: addr_simps)
  show ?case
  proof (cases "HASZERO (word_at m (addr str k))")
    case True
    then have "K < k + 8" using word_zero_ahead(1) [of K m str k] P(3) 3 by blast
    then show ?thesis using True 3 rd k by auto
  next
    case False
    then have "k + 8 \<le> K"
      using word_zero_ahead(2) [of K m str k] P(1,3,4) 3 k by (cases "K = N") auto
    then show ?thesis
      using False 3 rd k by (auto simp: addr_simps intro!: exI [of _ "k + 8"])
  qed
next
  case (4 k st)
  with is_prefixD [OF pre] show ?case by (auto simp: addr_simps)
qed (use k0 in auto)

section \<open>Properties\<close>

text \<open>C40: on every string, whatever its alignment, \<open>strlen\<close> returns its length.\<close>

theorem strlen_correct:
  assumes str: "is_string m str K"
  shows "strlen m str = Some (of_nat K)"
proof -
  have K: "\<And>i. i < K \<Longrightarrow> bytes_at m str i \<noteq> 0" "bytes_at m str K = 0"
    using str by (auto simp: is_string_def)
  consider "strlen_bytes m str = Some (Inl (of_nat K))"
    | k where "k \<le> K" "strlen_bytes m str = Some (Inr (addr str k))" "off8 (addr str k) = 0"
    using strlen_bytes_ok [OF str] by blast
  then show ?thesis
  proof cases
    case 2
    then obtain k' where k': "k' \<le> K" "K < k' + 8"
      "strlen_words m (addr str k) = Some (addr str k', word_at m (addr str k'))"
      using strlen_words_ok [OF str] by blast
    then have "\<exists>buf'. skip_nonzero (addr str k') (word_at m (addr str k')) = Some (addr str K, buf')"
      using K by (intro skip_nonzero_ok) (auto simp: bytes_of_word)
    with 2 k' show ?thesis by (auto simp: strlen_def)
  qed (simp add: strlen_def)
qed

theorem strlen_witness:
  "is_string (demo_mem\<lparr>content := (\<lambda>a. if a = 21 then 0 else 7)\<rparr>) 5 16 \<and>
   strlen (demo_mem\<lparr>content := (\<lambda>a. if a = 21 then 0 else 7)\<rparr>) 5 = Some 16"
proof -
  let ?m = "demo_mem\<lparr>content := (\<lambda>a. if a = 21 then 0 else 7)\<rparr>"
  have acc: "can_access ?m 5 17"
    using demo_mem_access [of 5 17] by (simp add: can_access_def)
  have "addr 5 i \<noteq> 21" if "i < 16" for i
    using that by (auto simp: addr_def word_unat_eq_iff unat_word_ariths unat_of_nat take_bit_eq_mod)
  then have "is_string ?m 5 16"
    using acc by (simp add: is_string_def bytes_at_def addr_def)
  with strlen_correct [OF this] show ?thesis by simp
qed

text \<open>\<open>strnlen\<close> returns the length of the string, or \<open>n\<close> where the first \<open>n\<close> bytes hold no
  zero; it needs no access beyond the zero it finds.\<close>

theorem strnlen_correct:
  assumes pre: "is_prefix m str (unat n) K"
  shows "strnlen m str n = Some (of_nat K)"
proof -
  let ?N = "unat n"
  note P = is_prefixD [OF pre]
  consider "strnlen_bytes m str n = Some (Inl (of_nat K))"
    | k where "k \<le> K" "strnlen_bytes m str n = Some (Inr (addr str k, remaining ?N k))" "k < ?N \<longrightarrow> off8 (addr str k) = 0"
    using strnlen_bytes_ok [OF pre] by (auto simp: addr_simps)
  then show ?thesis
  proof cases
    case 2
    show ?thesis
    proof (cases "k < ?N")
      case True
      with 2 have "off8 (addr str k) = 0" by simp
      from strnlen_words_ok [OF pre 2(1) this] obtain k' r where
        w: "strnlen_words m (addr str k) (remaining ?N k) = Some r" "k' \<le> K" "K < k' + 8" "off8 (addr str k') = 0"
        and r: "r = Inl (addr str k', word_at m (addr str k')) \<and> K < ?N \<or> r = Inr (addr str k', remaining ?N k')"
        by blast
      show ?thesis
      proof (cases "r = Inr (addr str k', remaining ?N k') \<and> k' < ?N")
        case last: True
        have "read_u64 m (addr str k') = Some (word_at m (addr str k'))"
          using w(4) P(5) [of k'] w(2) last by (intro read_u64_addr [where j = 0]) (auto simp: addr_simps)
        moreover obtain st where "skip_nonzero_n (addr str k') (word_at m (addr str k')) (remaining ?N k') = Some st" "fst st = addr str K"
          using skip_nonzero_n_ok [OF pre w(2,3), of "word_at m (addr str k')"] bytes_of_word by blast
        ultimately show ?thesis
          using 2 True w(1) last P(2) by (cases st) (auto simp: strnlen_def addr_simps)
      next
        case other: False
        show ?thesis
        proof (cases "r = Inr (addr str k', remaining ?N k')")
          case r': True
          then show ?thesis using other w(2) P(1,2) 2 True w(1) by (auto simp: strnlen_def addr_simps)
        next
          case False
          with r have r': "r = Inl (addr str k', word_at m (addr str k'))" "K < ?N" by auto
          then have "\<exists>buf'. skip_nonzero (addr str k') (word_at m (addr str k')) = Some (addr str K, buf')"
            using w(2,3) P(3,4) by (intro skip_nonzero_ok) (auto simp: bytes_of_word)
          then show ?thesis using 2 True w(1) r' P(2) by (auto simp: strnlen_def addr_simps)
        qed
      qed
    next
      case False
      with 2(1) P(1) have "k = ?N" "K = ?N" by auto
      then show ?thesis using 2 P(2) by (simp add: strnlen_def addr_simps)
    qed
  qed (simp add: strnlen_def)
qed

theorem strnlen_witness: "strnlen demo_mem 5 11 = Some 11"
proof -
  have "list_all (\<lambda>i. bytes_at demo_mem 5 i \<noteq> 0) [0..<11]" by code_simp
  then have "is_prefix demo_mem 5 11 11"
    using demo_mem_access [of 5 11] by (simp add: is_prefix_def list_all_iff)
  then show ?thesis using strnlen_correct [of demo_mem 5 11 11] by simp
qed

end
