(* ===== verification/SafeCmp.thy ===== *)
theory SafeCmp
  imports StrLen
begin

text \<open>
  \<open>memcmp_zero\<close> and \<open>safe_memcmp\<close> of \<open>src/string\<close>.  Both accumulate every difference, so
  that the course of the loops does not depend on the contents.  Differently aligned buffers
  are compared through a carried word, as in \<open>memcpy\<close>.
\<close>

section \<open>memcmp_zero\<close>

text \<open>\<open>while (...) { result |= *p; vp++; n--; }\<close>, at the start as long as \<open>vp\<close> is not
  aligned and at the end as long as bytes are left\<close>

definition zero_bytes :: "(u64 \<Rightarrow> u64 \<Rightarrow> bool) \<Rightarrow> mem \<Rightarrow> u64 \<times> u64 \<times> u64 \<Rightarrow> (u64 \<times> u64 \<times> u64) option" where
  "zero_bytes b m =
     while_c (\<lambda>(vp, n, result). b n vp)
       (\<lambda>(vp, n, result). do {
          x \<leftarrow> read_byte m vp;
          Some (vp + 1, n - 1, result OR ucast x) })"

definition zero_words :: "mem \<Rightarrow> u64 \<times> u64 \<times> u64 \<Rightarrow> (u64 \<times> u64 \<times> u64) option" where
  "zero_words m =
     while_c (\<lambda>(vp, n, result). n \<ge> 8)
       (\<lambda>(vp, n, result). do {
          buf \<leftarrow> read_u64 m vp;
          Some (vp + 8, n - 8, result OR buf) })"

definition memcmp_zero :: "mem \<Rightarrow> u64 \<Rightarrow> u64 \<Rightarrow> u64 option" where
  "memcmp_zero m v n = do {
     (vp, n, result) \<leftarrow> zero_bytes (\<lambda>n vp. n \<noteq> 0 \<and> vp AND 7 \<noteq> 0) m (v, n, 0);
     if n = 0 then Some result
     else do {
       (vp, n, result) \<leftarrow> zero_words m (vp, n, result);
       if n = 0 then Some result
       else do {
         (vp, n, result) \<leftarrow> zero_bytes (\<lambda>n vp. n \<noteq> 0) m (vp, n, result);
         Some result } } }"

section \<open>safe_memcmp\<close>

definition safe_bytes :: "mem \<Rightarrow> u64 \<Rightarrow> u64 \<Rightarrow> u64 \<Rightarrow> (u64 \<times> u64 \<times> u64 \<times> u64) option" where
  "safe_bytes m vl vr n =
     while_c (\<lambda>(l, r, n, result). n \<noteq> 0 \<and> l AND 7 \<noteq> 0)
       (\<lambda>(l, r, n, result). do {
          a \<leftarrow> read_byte m l;
          b \<leftarrow> read_byte m r;
          Some (l + 1, r + 1, n - 1, result OR ucast (a XOR b)) })
       (vl, vr, n, 0)"

definition safe_words :: "mem \<Rightarrow> u64 \<Rightarrow> u64 \<Rightarrow> u64 \<Rightarrow> u64 \<Rightarrow> (u64 \<times> u64 \<times> u64 \<times> u64) option" where
  "safe_words m l r n result =
     while_c (\<lambda>(l, r, n, result). n \<ge> 8)
       (\<lambda>(l, r, n, result). do {
          l_buf \<leftarrow> read_u64 m l;
          r_buf \<leftarrow> read_u64 m r;
          Some (l + 8, r + 8, n - 8, result OR (l_buf XOR r_buf)) })
       (l, r, n, result)"

definition safe_shift ::
  "nat \<Rightarrow> mem \<Rightarrow> u64 \<Rightarrow> u64 \<Rightarrow> u64 \<Rightarrow> u64 \<Rightarrow> u64 \<Rightarrow> (u64 \<times> u64 \<times> u64 \<times> u64 \<times> u64) option" where
  "safe_shift r_off m l r n result l_buf =
     while_c (\<lambda>(l, r, n, result, l_buf). n \<ge> 8)
       (\<lambda>(l, r, n, result, l_buf). do {
          l_buf2 \<leftarrow> read_u64 m l;
          r_buf \<leftarrow> read_u64 m r;
          let l_buf3 = l_buf OR push_bit (8 * r_off) l_buf2;
          let result = result OR (l_buf3 XOR r_buf);
          let l_buf = drop_bit (8 * (8 - r_off)) l_buf2;
          Some (l + 8, r + 8, n - 8, result, l_buf) })
       (l, r, n, result, l_buf)"

text \<open>\<open>((uint64_t) -1) << (8 * n)\<close>, and the comparison of two words outside of it\<close>

definition high_mask :: "u64 \<Rightarrow> u64" where
  "high_mask n = push_bit (unat (8 * n)) (- 1)"

definition masked_diff :: "u64 \<Rightarrow> u64 \<Rightarrow> u64 \<Rightarrow> u64" where
  "masked_diff l_buf r_buf hi = (l_buf OR hi) XOR (r_buf OR hi)"

definition safe_shifted :: "mem \<Rightarrow> u64 \<Rightarrow> u64 \<Rightarrow> u64 \<Rightarrow> u64 \<Rightarrow> u64 option" where
  "safe_shifted m l r n result = do {
     let r_off = unat (r AND 7);
     l_buf \<leftarrow> read_u64 m l;
     r_buf \<leftarrow> read_u64 m (r - of_nat r_off);
     let r_buf = drop_bit (8 * r_off) r_buf;
     if n \<le> of_nat (8 - r_off) then Some (result OR masked_diff l_buf r_buf (high_mask n))
     else do {
       let result = result OR masked_diff l_buf r_buf (high_mask (of_nat (8 - r_off)));
       let l_buf = drop_bit (8 * (8 - r_off)) l_buf;
       (l, r, n, result, l_buf) \<leftarrow>
         safe_shift r_off m (l + 8) (r + of_nat (8 - r_off)) (n - of_nat (8 - r_off)) result l_buf;
       if n = 0 then Some result
       else do {
         l_buf2 \<leftarrow> (if n \<le> of_nat r_off then Some 0 else read_u64 m l);
         r_buf \<leftarrow> read_u64 m r;
         let l_buf3 = l_buf OR push_bit (8 * r_off) l_buf2;
         Some (result OR masked_diff l_buf3 r_buf (high_mask n)) } } }"

definition safe_memcmp :: "mem \<Rightarrow> u64 \<Rightarrow> u64 \<Rightarrow> u64 \<Rightarrow> u64 option" where
  "safe_memcmp m vl vr n = do {
     (l, r, n, result) \<leftarrow> safe_bytes m vl vr n;
     if n = 0 then Some result
     else if r AND 7 = 0 then do {
       (l, r, n, result) \<leftarrow> safe_words m l r n result;
       if n = 0 then Some result
       else do {
         l_buf \<leftarrow> read_u64 m l;
         r_buf \<leftarrow> read_u64 m r;
         Some (result OR masked_diff l_buf r_buf (high_mask n)) } }
     else safe_shifted m l r n result }"

section \<open>Accumulated differences\<close>

lemma or_eq_0 [simp]: "v OR w = 0 \<longleftrightarrow> v = 0 \<and> w = 0" for v w :: "'a :: len word"
  by (auto simp: bit_eq_iff bit_simps)

lemma xor_eq_0 [simp]: "v XOR w = 0 \<longleftrightarrow> v = w" for v w :: "'a :: len word"
  by (auto simp: bit_eq_iff bit_simps)

lemma ucast_u8_eq_0 [simp]: "(ucast (b :: u8) :: u64) = 0 \<longleftrightarrow> b = 0"
  by (metis unat_ucast_u8 unat_eq_0)

lemma word_eq_bytes: "v = w \<longleftrightarrow> (\<forall>i < 8. byte_of v i = byte_of w i)"
  using byte_of_eqI by blast

lemma byte_of_minus_1 [byte_simps]: "i < 8 \<Longrightarrow> byte_of (- 1) i = - 1"
  using byte_of_not [of i 0] by (simp add: byte_of_0_word)

lemma masked_diff_0:
  assumes "unat n \<le> 8"
  shows "masked_diff v w (high_mask n) = 0 \<longleftrightarrow> (\<forall>i < unat n. byte_of v i = byte_of w i)"
proof -
  have "unat (8 * n) = 8 * unat n"
    using assms by (simp add: unat_word_ariths)
  then have "byte_of (high_mask n) i = (if unat n \<le> i then - 1 else 0)" if "i < 8" for i
    using that by (simp only: high_mask_def byte_of_push) (simp add: byte_of_minus_1)
  then show ?thesis
    using assms by (auto simp: masked_diff_def word_eq_bytes [of "_ OR _"] byte_of_or not_le)
qed

lemma all_less_add: "(\<forall>i < k + j. P i) \<longleftrightarrow> (\<forall>i < k. P i) \<and> (\<forall>i < j. P (k + i))" for k j :: nat
  by (metis add_less_cancel_left le_add_diff_inverse less_diff_conv2 not_less trans_less_add1 add.commute)

text \<open>What the accumulator knows of the first \<open>k\<close> bytes.\<close>

definition zero_upto :: "mem \<Rightarrow> u64 \<Rightarrow> nat \<Rightarrow> u64 \<Rightarrow> bool" where
  "zero_upto m v k result \<longleftrightarrow> (result = 0 \<longleftrightarrow> (\<forall>i < k. bytes_at m v i = 0))"

lemma zero_upto_0: "zero_upto m v 0 0"
  by (simp add: zero_upto_def)

lemma zero_bytes_ok:
  assumes "can_access m v N" "N < 2 ^ 64" "k0 \<le> N" "zero_upto m v k0 result"
    and b: "\<And>k. k \<le> N \<Longrightarrow> b (remaining N k) (addr v k) \<Longrightarrow> k < N"
  shows "\<exists>k \<le> N. \<exists>result'. zero_bytes b m (addr v k0, remaining N k0, result) = Some (addr v k, remaining N k, result') \<and>
    \<not> b (remaining N k) (addr v k) \<and> zero_upto m v k result'"
proof -
  let ?ok = "\<lambda>k st. \<exists>result. st = (addr v k, remaining N k, result) \<and> zero_upto m v k result"
  have "\<exists>st. zero_bytes b m (addr v k0, remaining N k0, result) = Some st \<and>
      (\<exists>k \<le> N. ?ok k st \<and> \<not> b (remaining N k) (addr v k))"
    unfolding zero_bytes_def
  proof (rule while_c_post [where N = N and k = k0 and R = ?ok], goal_cases)
    case (3 k st)
    then have "k < N" using b by auto
    then have "read_byte m (addr v k) = Some (bytes_at m v k)"
      using assms by (simp add: read_byte_eq can_accessD bytes_at_def)
    then show ?case
      using 3 \<open>k < N\<close> by (auto simp: addr_simps less_Suc_eq zero_upto_def intro!: exI [of _ "Suc k"])
  qed (use assms in auto)
  then show ?thesis by blast
qed

lemma zero_words_ok:
  assumes "can_access m v N" "N < 2 ^ 64" "k0 \<le> N" "off8 (addr v k0) = 0" "zero_upto m v k0 result"
  shows "\<exists>k \<le> N. \<exists>result'. zero_words m (addr v k0, remaining N k0, result) = Some (addr v k, remaining N k, result') \<and>
    zero_upto m v k result'"
proof -
  let ?ok = "\<lambda>k st. off8 (addr v k) = 0 \<and> (\<exists>result. st = (addr v k, remaining N k, result) \<and> zero_upto m v k result)"
  have "\<exists>st. zero_words m (addr v k0, remaining N k0, result) = Some st \<and> (\<exists>k \<le> N. ?ok k st)"
    unfolding zero_words_def
  proof (rule while_c_post [where N = N and k = k0 and R = ?ok], goal_cases)
    case (3 k st)
    then have k: "k + 8 \<le> N" using assms(2) by (auto simp: addr_simps)
    then have "read_u64 m (addr v k) = Some (word_at m (addr v k))"
      using assms 3 by (intro read_u64_addr [where j = 0]) (auto simp: addr_simps can_accessD)
    moreover have "zero_upto m v (k + 8) (result OR word_at m (addr v k))" if "zero_upto m v k result" for result
      using that by (simp add: zero_upto_def all_less_add [of k 8] word_eq_bytes [of "word_at m (addr v k)"] bytes_of_word byte_of_0_word)
    ultimately show ?case
      using 3 k by (auto simp: addr_simps intro!: exI [of _ "k + 8"])
  qed (use assms in auto)
  then show ?thesis by blast
qed

text \<open>A buffer word that carries the bytes \<open>k, \<dots>, k + off - 1\<close> from \<open>p\<close>, and nothing above.\<close>

definition carries :: "mem \<Rightarrow> u64 \<Rightarrow> nat \<Rightarrow> nat \<Rightarrow> u64 \<Rightarrow> bool" where
  "carries m p off k buf \<longleftrightarrow> (\<forall>i < off. byte_of buf i = bytes_at m p (k + i)) \<and> (\<forall>i \<ge> off. byte_of buf i = 0)"

lemma carries_drop:
  assumes "off < 8" "k' = k + (8 - off)"
  shows "carries m p off k' (drop_bit (8 * (8 - off)) (word_at m (addr p k)))"
  unfolding carries_def
proof safe
  fix i assume "i < off"
  then show "byte_of (drop_bit (8 * (8 - off)) (word_at m (addr p k))) i = bytes_at m p (k' + i)"
    using assms by (simp add: byte_of_drop bytes_of_word add.assoc)
next
  fix i assume "off \<le> i"
  then show "byte_of (drop_bit (8 * (8 - off)) (word_at m (addr p k))) i = 0"
    by (simp only: byte_of_drop) (simp add: byte_of_ge)
qed

lemma carries_combine:
  assumes "carries m p off k buf" "off < 8" "i < 8" "w = word_at m (addr p (k + off)) \<or> i < off"
  shows "byte_of (buf OR push_bit (8 * off) w) i = bytes_at m p (k + i)"
  using assms by (auto simp: carries_def byte_of_or byte_of_push bytes_of_word not_less)

lemma addr_minus_offset:
  assumes "off = off8 (addr p k)" "off \<noteq> 0" "accessible m (addr p k)"
  shows "read_u64 m (addr p k - of_nat off) = Some (word_at m (addr p k - of_nat off))"
    and "i < 8 - off \<Longrightarrow> byte_of (drop_bit (8 * off) (word_at m (addr p k - of_nat off))) i = bytes_at m p (k + i)"
proof -
  have "off < 8" by (simp add: assms(1) off8_less)
  have a: "addr (addr p k - of_nat off) (off + i) = addr p (k + i)" for i by (simp add: addr_def)
  have "off8 (addr p k - of_nat off) = 0" by (subst off8_diff) (simp_all add: assms(1))
  then show "read_u64 m (addr p k - of_nat off) = Some (word_at m (addr p k - of_nat off))"
    using a [of 0] assms(3) \<open>off < 8\<close> by (intro read_u64_addr [where j = off]) (simp_all add: addr_simps)
  show "byte_of (drop_bit (8 * off) (word_at m (addr p k - of_nat off))) i = bytes_at m p (k + i)" if "i < 8 - off"
    using that a [of i] by (simp add: byte_of_drop byte_of_word_at_addr bytes_at_def)
qed

section \<open>Properties of the accumulating comparisons\<close>

text \<open>\<open>memcmp_zero\<close> returns 0 exactly when all \<open>n\<close> bytes are zero.\<close>

theorem memcmp_zero_correct:
  assumes "can_access m v (unat n)"
  shows "\<exists>result. memcmp_zero m v n = Some result \<and> (result = 0 \<longleftrightarrow> (\<forall>i < unat n. bytes_at m v i = 0))"
proof -
  let ?N = "unat n"
  note N = unat_less_2p64 [of n]
  obtain k result where 1: "zero_bytes (\<lambda>n vp. n \<noteq> 0 \<and> vp AND 7 \<noteq> 0) m (v, n, 0) = Some (addr v k, remaining ?N k, result)"
    "k \<le> ?N" "\<not> (remaining ?N k \<noteq> 0 \<and> addr v k AND 7 \<noteq> 0)" "zero_upto m v k result"
    using zero_bytes_ok [OF assms N _ zero_upto_0, of "\<lambda>n vp. n \<noteq> 0 \<and> vp AND 7 \<noteq> 0"] N
    by (auto simp: addr_simps)
  have al: "off8 (addr v k) = 0" if "k < ?N" using 1(3) that N by (auto simp: addr_simps)
  show ?thesis
  proof (cases "k < ?N")
    case True
    obtain k2 result2 where 2: "zero_words m (addr v k, remaining ?N k, result) = Some (addr v k2, remaining ?N k2, result2)"
      "k2 \<le> ?N" "zero_upto m v k2 result2"
      using zero_words_ok [OF assms N 1(2) al [OF True] 1(4)] by blast
    obtain result3 where 3: "zero_bytes (\<lambda>n vp. n \<noteq> 0) m (addr v k2, remaining ?N k2, result2) =
        Some (addr v ?N, remaining ?N ?N, result3)" "zero_upto m v ?N result3"
      using zero_bytes_ok [OF assms N 2(2,3), of "\<lambda>n vp. n \<noteq> 0"] N by (auto simp: addr_simps)
    then show ?thesis
      using 1 2 3 True N by (cases "k2 < ?N") (auto simp: memcmp_zero_def addr_simps zero_upto_def)
  next
    case False
    then show ?thesis
      using 1 N by (auto simp: memcmp_zero_def addr_simps zero_upto_def)
  qed
qed

theorem memcmp_zero_witness:
  "\<exists>result. memcmp_zero demo_mem 3 13 = Some result \<and> (result = 0 \<longleftrightarrow> (\<forall>i < unat (13 :: u64). bytes_at demo_mem 3 i = 0))"
  by (rule memcmp_zero_correct) (simp add: demo_mem_access)

section \<open>Correctness of \<open>safe_memcmp\<close>\<close>

definition same_upto :: "mem \<Rightarrow> u64 \<Rightarrow> u64 \<Rightarrow> nat \<Rightarrow> u64 \<Rightarrow> bool" where
  "same_upto m l r k result \<longleftrightarrow> (result = 0 \<longleftrightarrow> (\<forall>i < k. bytes_at m l i = bytes_at m r i))"

lemma same_upto_0: "same_upto m l r 0 0"
  by (simp add: same_upto_def)

lemma same_upto_more:
  assumes "same_upto m l r k result"
    and "d = 0 \<longleftrightarrow> (\<forall>i < j. bytes_at m l (k + i) = bytes_at m r (k + i))"
  shows "same_upto m l r (k + j) (result OR d)"
  using assms by (simp add: same_upto_def all_less_add [of k j])

lemma same_upto_masked:
  assumes "same_upto m l r k result" "unat n \<le> 8"
    and "\<And>i. i < unat n \<Longrightarrow> byte_of v i = bytes_at m l (k + i)" "\<And>i. i < unat n \<Longrightarrow> byte_of w i = bytes_at m r (k + i)"
  shows "same_upto m l r (k + unat n) (result OR masked_diff v w (high_mask n))"
  using assms by (intro same_upto_more) (simp_all add: masked_diff_0)

lemma same_upto_word:
  assumes "same_upto m l r k result"
    and "\<And>i. i < 8 \<Longrightarrow> byte_of v i = bytes_at m l (k + i)" "\<And>i. i < 8 \<Longrightarrow> byte_of w i = bytes_at m r (k + i)"
  shows "same_upto m l r (k + 8) (result OR (v XOR w))"
  using assms by (intro same_upto_more) (simp_all add: word_eq_bytes [of v])

lemma safe_bytes_ok:
  assumes "can_access m l N" "can_access m r N" "N < 2 ^ 64"
  shows "\<exists>k \<le> N. \<exists>result. safe_bytes m l r (remaining N 0) = Some (addr l k, addr r k, remaining N k, result) \<and>
    (k < N \<longrightarrow> off8 (addr l k) = 0) \<and> same_upto m l r k result"
proof -
  let ?ok = "\<lambda>k st. \<exists>result. st = (addr l k, addr r k, remaining N k, result) \<and> same_upto m l r k result"
  have "\<exists>st. safe_bytes m l r (remaining N 0) = Some st \<and>
      (\<exists>k \<le> N. ?ok k st \<and> (k < N \<longrightarrow> off8 (addr l k) = 0))"
    unfolding safe_bytes_def
  proof (rule while_c_post [where N = N and k = 0 and R = ?ok], goal_cases)
    case (3 k st)
    then have k: "k < N" using assms by (auto simp: addr_simps)
    then have rd: "read_byte m (addr l k) = Some (bytes_at m l k)" "read_byte m (addr r k) = Some (bytes_at m r k)"
      using assms by (simp_all add: read_byte_eq can_accessD bytes_at_def)
    have "same_upto m l r (Suc k) (result OR ucast (bytes_at m l k XOR bytes_at m r k))" if "same_upto m l r k result" for result
      using same_upto_more [OF that, of "ucast (bytes_at m l k XOR bytes_at m r k)" 1] by simp
    then show ?case
      using 3 k rd by (auto simp: addr_simps intro!: exI [of _ "Suc k"])
  qed (use assms in \<open>auto simp: addr_simps same_upto_0\<close>)
  then show ?thesis by blast
qed

lemma safe_words_ok:
  assumes "can_access m l N" "can_access m r N" "N < 2 ^ 64" "k0 \<le> N" "off8 (addr l k0) = 0" "off8 (addr r k0) = 0"
    and "same_upto m l r k0 result"
  shows "\<exists>k \<le> N. \<exists>result'. safe_words m (addr l k0) (addr r k0) (remaining N k0) result =
      Some (addr l k, addr r k, remaining N k, result') \<and>
    N < k + 8 \<and> off8 (addr l k) = 0 \<and> off8 (addr r k) = 0 \<and> same_upto m l r k result'"
proof -
  let ?ok = "\<lambda>k st. off8 (addr l k) = 0 \<and> off8 (addr r k) = 0 \<and>
    (\<exists>result. st = (addr l k, addr r k, remaining N k, result) \<and> same_upto m l r k result)"
  have "\<exists>st. safe_words m (addr l k0) (addr r k0) (remaining N k0) result = Some st \<and>
      (\<exists>k \<le> N. ?ok k st \<and> N < k + 8)"
    unfolding safe_words_def
  proof (rule while_c_post [where N = N and k = k0 and R = ?ok], goal_cases)
    case (3 k st)
    then have k: "k + 8 \<le> N" using assms by (auto simp: addr_simps)
    then have rd: "read_u64 m (addr l k) = Some (word_at m (addr l k))" "read_u64 m (addr r k) = Some (word_at m (addr r k))"
      using assms 3 by (auto intro!: read_u64_addr [where j = 0] simp: addr_simps can_accessD)
    then show ?case
      using 3 k by (auto simp: addr_simps bytes_of_word intro!: exI [of _ "k + 8"] same_upto_word)
  qed (use assms in \<open>auto simp: addr_simps\<close>)
  then show ?thesis by blast
qed

lemma safe_shift_ok:
  assumes "can_access m l N" "can_access m r N" "N < 2 ^ 64" "0 < off" "off < 8"
    and "k0 \<le> N" "off8 (addr l (k0 + off)) = 0" "off8 (addr r k0) = 0"
    and "same_upto m l r k0 result" "carries m l off k0 buf"
  shows "\<exists>k \<le> N. \<exists>result' buf'. safe_shift off m (addr l (k0 + off)) (addr r k0) (remaining N k0) result buf =
      Some (addr l (k + off), addr r k, remaining N k, result', buf') \<and>
    N < k + 8 \<and> off8 (addr l (k + off)) = 0 \<and> off8 (addr r k) = 0 \<and> same_upto m l r k result' \<and> carries m l off k buf'"
proof -
  let ?ok = "\<lambda>k st. off8 (addr l (k + off)) = 0 \<and> off8 (addr r k) = 0 \<and>
    (\<exists>result buf. st = (addr l (k + off), addr r k, remaining N k, result, buf) \<and> same_upto m l r k result \<and> carries m l off k buf)"
  have "\<exists>st. safe_shift off m (addr l (k0 + off)) (addr r k0) (remaining N k0) result buf = Some st \<and>
      (\<exists>k \<le> N. ?ok k st \<and> N < k + 8)"
    unfolding safe_shift_def
  proof (rule while_c_post [where N = N and k = k0 and R = ?ok], goal_cases)
    case (3 k st)
    then have k: "k + 8 \<le> N" using assms by (auto simp: addr_simps)
    then have rd: "read_u64 m (addr l (k + off)) = Some (word_at m (addr l (k + off)))" "read_u64 m (addr r k) = Some (word_at m (addr r k))"
      using assms 3 by (auto intro!: read_u64_addr [where j = 0] simp: addr_simps can_accessD)
    have e: "k + 8 + off = k + off + 8" by simp
    then have "carries m l off (k + 8) (drop_bit (8 * (8 - off)) (word_at m (addr l (k + off))))"
      using assms by (intro carries_drop) auto
    then show ?case
      using 3 k rd assms(4,5)
      by (auto simp: addr_simps bytes_of_word e carries_combine Let_def intro!: exI [of _ "k + 8"] same_upto_word)
  qed (use assms in \<open>auto simp: addr_simps\<close>)
  then show ?thesis by blast
qed

lemma remaining_minus: "k + j \<le> N \<Longrightarrow> remaining N k - of_nat j = remaining N (k + j)"
  by (simp add: remaining_def of_nat_diff)

lemma remaining_le: "N < 2 ^ 64 \<Longrightarrow> j < 2 ^ 64 \<Longrightarrow> remaining N k \<le> of_nat j \<longleftrightarrow> N - k \<le> j"
  by (simp add: word_le_nat_alt unat_remaining unat_of_nat_u64)

lemma off8_next_word:
  assumes "off = off8 (addr r k)"
  shows "off8 (addr r (k + (8 - off))) = 0"
proof -
  have "off < 8" by (simp add: assms off8_less)
  then have "(off8 (addr r k) + (8 - off)) mod 8 = 0" by (simp add: assms)
  then show ?thesis by (simp only: off8_addr_plus)
qed

text \<open>The last word: the carried bytes, and the next word where more are needed.\<close>

lemma carries_last:
  assumes "carries m l off k buf" "off < 8" "i < 8" "k + i < N"
  shows "byte_of (buf OR push_bit (8 * off) (if N - k \<le> off then 0 else word_at m (addr l (k + off)))) i = bytes_at m l (k + i)"
proof (cases "i < off")
  case True
  then show ?thesis using assms by (intro carries_combine) auto
next
  case False
  then have "\<not> N - k \<le> off" using assms by auto
  then show ?thesis using assms by (auto intro!: carries_combine)
qed

lemma read_last:
  assumes "off8 (addr l (k + off)) = 0" "can_access m l N" "N < 2 ^ 64" "off < 8"
  shows "(if remaining N k \<le> of_nat off then Some 0 else read_u64 m (addr l (k + off))) =
    Some (if N - k \<le> off then 0 else word_at m (addr l (k + off)))"
  using assms by (auto simp: remaining_le addr_simps can_accessD intro!: read_u64_addr [where j = 0])

lemma safe_shifted_ok:
  assumes acc: "can_access m l N" "can_access m r N" "N < 2 ^ 64"
    and k: "k < N" "off8 (addr l k) = 0" "off = off8 (addr r k)" "off \<noteq> 0" "same_upto m l r k result"
  shows "\<exists>result'. safe_shifted m (addr l k) (addr r k) (remaining N k) result = Some result' \<and> same_upto m l r N result'"
    (is "\<exists>result'. ?run = Some result' \<and> _")
proof -
  have off: "0 < off" "off < 8" using k(3,4) by (simp_all add: off8_less)
  have le: "remaining N k \<le> of_nat (8 - off) \<longleftrightarrow> N - k \<le> 8 - off"
    using acc(3) by (intro remaining_le) auto
  note unfold = safe_shifted_def unat_and_7 k(3) [symmetric] Let_def le
  define rw where "rw = drop_bit (8 * off) (word_at m (addr r k - of_nat off))"
  have rd: "read_u64 m (addr l k) = Some (word_at m (addr l k))"
    "read_u64 m (addr r k - of_nat off) = Some (word_at m (addr r k - of_nat off))"
    using k acc addr_minus_offset(1) [OF k(3,4)] by (auto intro!: read_u64_addr [where j = 0] simp: addr_simps can_accessD)
  have rw: "byte_of rw i = bytes_at m r (k + i)" if "i < 8 - off" for i
    using addr_minus_offset(2) [OF k(3,4)] k acc that by (simp add: rw_def can_accessD)
  show ?thesis
  proof (cases "N - k \<le> 8 - off")
    case True
    have u: "unat (remaining N k) = N - k" using acc(3) by (rule unat_remaining)
    have "same_upto m l r (k + unat (remaining N k)) (result OR masked_diff (word_at m (addr l k)) rw (high_mask (remaining N k)))"
      using True rw k(5) by (intro same_upto_masked) (simp_all add: u bytes_of_word)
    moreover have "k + unat (remaining N k) = N" using k(1) u by simp
    ultimately have "same_upto m l r N (result OR masked_diff (word_at m (addr l k)) rw (high_mask (remaining N k)))"
      by simp
    then show ?thesis
      using True by (simp add: unfold rd rw_def [symmetric])
  next
    case False
    define k1 where "k1 = k + (8 - off)"
    define result1 where "result1 = result OR masked_diff (word_at m (addr l k)) rw (high_mask (of_nat (8 - off)))"
    have k1: "k1 < N" "k1 + off = k + 8" using False off by (simp_all add: k1_def)
    have u: "unat (of_nat (8 - off) :: u64) = 8 - off" using off by (intro unat_of_nat_u64) auto
    have "same_upto m l r (k + unat (of_nat (8 - off) :: u64)) result1"
      unfolding result1_def using rw k(5) by (intro same_upto_masked) (simp_all only: u, simp_all add: bytes_of_word)
    then have r1: "same_upto m l r k1 result1" by (simp only: u k1_def)
    have al: "off8 (addr l (k1 + off)) = 0" "off8 (addr r k1) = 0"
      using k(2) off8_next_word [OF k(3)] by (simp_all add: k1(2) addr_simps) (simp add: k1_def)
    have "carries m l off k1 (drop_bit (8 * (8 - off)) (word_at m (addr l k)))"
      by (rule carries_drop) (simp_all add: off k1_def)
    from safe_shift_ok [OF acc off less_imp_le [OF k1(1)] al r1 this] obtain k2 result2 buf where 2:
      "safe_shift off m (addr l (k1 + off)) (addr r k1) (remaining N k1) result1 (drop_bit (8 * (8 - off)) (word_at m (addr l k))) =
        Some (addr l (k2 + off), addr r k2, remaining N k2, result2, buf)"
      "k2 \<le> N" "N < k2 + 8" "off8 (addr l (k2 + off)) = 0" "off8 (addr r k2) = 0" "same_upto m l r k2 result2" "carries m l off k2 buf"
      by blast
    have args: "addr l k + 8 = addr l (k1 + off)" "addr r k + of_nat (8 - off) = addr r k1"
      "remaining N k - of_nat (8 - off) = remaining N k1"
      using k1 False by (simp_all only: addr_plus_8 addr_plus k1_def) (intro remaining_minus, simp)
    let ?w = "if N - k2 \<le> off then 0 else word_at m (addr l (k2 + off))"
    let ?result = "result2 OR masked_diff (buf OR push_bit (8 * off) ?w) (word_at m (addr r k2)) (high_mask (remaining N k2))"
    have run: "?run = (if k2 = N then Some result2 else do { r_buf \<leftarrow> read_u64 m (addr r k2);
         Some (result2 OR masked_diff (buf OR push_bit (8 * off) ?w) r_buf (high_mask (remaining N k2))) })"
      using 2(2) acc(3) read_last [OF 2(4) acc(1,3) off(2)]
      by (simp add: unfold rd rw_def [symmetric] False args 2(1) result1_def [symmetric] remaining_eq_0 del: of_nat_diff)
    show ?thesis
    proof (cases "k2 = N")
      case True
      then show ?thesis using run 2(6) by simp
    next
      case False
      have u2: "unat (remaining N k2) = N - k2" using acc(3) by (rule unat_remaining)
      have "same_upto m l r (k2 + unat (remaining N k2)) ?result"
        using 2 off(2) by (intro same_upto_masked) (simp_all add: u2 bytes_of_word carries_last)
      moreover have "k2 + unat (remaining N k2) = N" using 2(2) u2 by simp
      ultimately have "same_upto m l r N ?result" by simp
      moreover have "read_u64 m (addr r k2) = Some (word_at m (addr r k2))"
        using False 2 acc by (intro read_u64_addr [where j = 0]) (auto simp: addr_simps can_accessD)
      ultimately show ?thesis using run False by simp
    qed
  qed
qed

text \<open>\<open>safe_memcmp\<close> returns 0 exactly when the \<open>n\<close> bytes agree, for every alignment.\<close>

theorem safe_memcmp_correct:
  assumes "can_access m vl (unat n)" "can_access m vr (unat n)"
  shows "\<exists>result. safe_memcmp m vl vr n = Some result \<and>
    (result = 0 \<longleftrightarrow> (\<forall>i < unat n. bytes_at m vl i = bytes_at m vr i))"
proof -
  let ?N = "unat n"
  note N = unat_less_2p64 [of n]
  obtain k result where 1: "k \<le> ?N" "safe_bytes m vl vr n = Some (addr vl k, addr vr k, remaining ?N k, result)"
    "k < ?N \<longrightarrow> off8 (addr vl k) = 0" "same_upto m vl vr k result"
    using safe_bytes_ok [OF assms N] by (auto simp: addr_simps)
  consider (none) "k = ?N" | (words) "k < ?N" "off8 (addr vr k) = 0" | (shift) "k < ?N" "off8 (addr vr k) \<noteq> 0"
    using 1(1) by linarith
  then have "\<exists>result. safe_memcmp m vl vr n = Some result \<and> same_upto m vl vr ?N result"
  proof cases
    case none
    then show ?thesis using 1 N by (simp add: safe_memcmp_def addr_simps)
  next
    case words
    with 1 have al: "off8 (addr vl k) = 0" by simp
    from safe_words_ok [OF assms N 1(1) al words(2) 1(4)] obtain k2 result2 where 2:
      "k2 \<le> ?N" "safe_words m (addr vl k) (addr vr k) (remaining ?N k) result = Some (addr vl k2, addr vr k2, remaining ?N k2, result2)"
      "?N < k2 + 8" "off8 (addr vl k2) = 0" "off8 (addr vr k2) = 0" "same_upto m vl vr k2 result2"
      by blast
    show ?thesis
    proof (cases "k2 = ?N")
      case True
      then show ?thesis using 1 2 words N by (simp add: safe_memcmp_def addr_simps)
    next
      case False
      have rd: "read_u64 m (addr vl k2) = Some (word_at m (addr vl k2))" "read_u64 m (addr vr k2) = Some (word_at m (addr vr k2))"
        using False 2 assms by (auto intro!: read_u64_addr [where j = 0] simp: addr_simps can_accessD)
      have u: "unat (remaining ?N k2) = ?N - k2" using N by (rule unat_remaining)
      have "same_upto m vl vr (k2 + unat (remaining ?N k2))
          (result2 OR masked_diff (word_at m (addr vl k2)) (word_at m (addr vr k2)) (high_mask (remaining ?N k2)))"
        using 2 by (intro same_upto_masked) (simp_all add: u bytes_of_word)
      moreover have "k2 + unat (remaining ?N k2) = ?N" using 2(1) u by simp
      ultimately show ?thesis
        using 1 2 words N rd False by (simp add: safe_memcmp_def addr_simps)
    qed
  next
    case shift
    with 1 have al: "off8 (addr vl k) = 0" by simp
    show ?thesis
      using safe_shifted_ok [OF assms N shift(1) al refl shift(2) 1(4)] 1(2) shift N
      by (simp add: safe_memcmp_def and_7_zero_iff remaining_eq_0)
  qed
  then show ?thesis by (simp add: same_upto_def)
qed

theorem safe_memcmp_witness:
  "\<exists>result. safe_memcmp demo_mem 3 20 13 = Some result \<and>
    (result = 0 \<longleftrightarrow> (\<forall>i < unat (13 :: u64). bytes_at demo_mem 3 i = bytes_at demo_mem 20 i))"
  by (rule safe_memcmp_correct) (simp_all add: demo_mem_access)

end
