(* ===== verification/NtruKem.thy ===== *)
theory NtruKem
  imports NtruShortOk NtruRoundtrip SafeCmp StrBlend
begin

text \<open>
  Key generation, encapsulation and decapsulation of NTRU LPRime (\<open>gen_key.c\<close>, \<open>encrypt.c\<close> and
  \<open>decrypt.c\<close> of \<open>src/crypto/pk/ntru_lprime\<close>).  The bytes that \<open>getrandom\<close> delivers are
  arguments.  A pointer into a buffer is a part of its list.
\<close>

section \<open>Parts of buffers\<close>

definition field :: "'a list \<Rightarrow> nat \<Rightarrow> nat \<Rightarrow> 'a list option" where
  "field xs off n = (if off + n \<le> length xs then Some (take n (drop off xs)) else None)"

definition store :: "'a list \<Rightarrow> nat \<Rightarrow> 'a list \<Rightarrow> 'a list option" where
  "store xs off ys = (if off + length ys \<le> length xs then Some (take off xs @ ys @ drop (off + length ys) xs) else None)"

text \<open>Two buffers in memory, for the routines of \<open>src/string\<close>.\<close>

definition two_buffers :: "u8 list \<Rightarrow> u8 list \<Rightarrow> mem" where
  "two_buffers xs ys =
     \<lparr>content = (\<lambda>a. if a < 0x20000 then xs ! unat (a - 0x10000) else ys ! unat (a - 0x20000)),
      accessible = (\<lambda>a. unat (a - 0x10000) < length xs \<or> unat (a - 0x20000) < length ys)\<rparr>"

definition list_memcmp :: "u8 list \<Rightarrow> u8 list \<Rightarrow> u64 \<Rightarrow> u64 option" where
  "list_memcmp xs ys n = safe_memcmp (two_buffers xs ys) 0x10000 0x20000 n"

definition list_cond_memcpy :: "bool \<Rightarrow> u8 list \<Rightarrow> u8 list \<Rightarrow> u64 \<Rightarrow> u8 list option" where
  "list_cond_memcpy cond xs ys n = do {
     m \<leftarrow> cond_memcpy (two_buffers xs ys) cond 0x10000 0x20000 n;
     Some (map (\<lambda>i. content m (0x10000 + of_nat i)) [0..<length xs]) }"

section \<open>Key generation\<close>

definition NTRU_LPR_ROUND_ENC_LEN :: nat where "NTRU_LPR_ROUND_ENC_LEN = 865"

definition NTRU_LPR_PK_LEN :: nat where "NTRU_LPR_PK_LEN = 32 + NTRU_LPR_ROUND_ENC_LEN"

definition NTRU_LPR_CT_LEN :: nat where "NTRU_LPR_CT_LEN = NTRU_LPR_ROUND_ENC_LEN + 128 + 32"

abbreviation short_len :: nat where "short_len \<equiv> unat NTRU_LPR_SHORT_ENC_LEN"

definition ntrulpr_653_gen_key_from_seed ::
  "ntru_env \<Rightarrow> u8 list \<Rightarrow> u8 list \<Rightarrow> u8 list \<Rightarrow> u8 list \<Rightarrow> (u8 list \<times> u8 list) option" where
  "ntrulpr_653_gen_key_from_seed env a_seed rho sk_out pk_out = do {
     g \<leftarrow> ntrulpr_653_expand_seed env pk_out (local_halves env);
     sk_out \<leftarrow> ntrulpr_653_hashshort env a_seed sk_out;
     ag \<leftarrow> ntrulpr_653_poly_mult_short g sk_out NTRU_LPR_P (local_halves env);
     ag \<leftarrow> ntrulpr_653_round ag;
     enc \<leftarrow> ntrulpr_653_encode_poly_round (local_words env) ag;
     pk_out \<leftarrow> store pk_out 32 enc;
     pk \<leftarrow> field pk_out 0 NTRU_LPR_PK_LEN;
     sk_out \<leftarrow> store sk_out short_len pk;
     sk_out \<leftarrow> store sk_out (short_len + NTRU_LPR_PK_LEN) rho;
     key_hash \<leftarrow> ntru_hash env [([4], 1), (pk_out, of_nat NTRU_LPR_PK_LEN)];
     sk_out \<leftarrow> store sk_out (short_len + NTRU_LPR_PK_LEN + 32) key_hash;
     Some (sk_out, pk_out) }"

definition ntrulpr_653_gen_key ::
  "ntru_env \<Rightarrow> u8 list \<Rightarrow> u8 list \<Rightarrow> u8 list \<Rightarrow> u8 list \<Rightarrow> u8 list \<Rightarrow> (u8 list \<times> u8 list) option" where
  "ntrulpr_653_gen_key env seed a_seed rho sk_out pk_out = do {
     pk_out \<leftarrow> store pk_out 0 seed;
     ntrulpr_653_gen_key_from_seed env a_seed rho sk_out pk_out }"

section \<open>Encapsulation\<close>

text \<open>One bit of the message, its number between 0 and 15, and its place in the ciphertext.\<close>

definition top_value :: "u32 \<Rightarrow> u16 \<Rightarrow> u32" where
  "top_value t y =
     (let t = t * ((NTRU_LPR_Q - 1) div 2) + ucast y;
          t = uint32_cmp_ge_branch t NTRU_LPR_Q (t - NTRU_LPR_Q) t;
          top1 = 113 * t + 262159;
          top2 = top1 - 522173
      in drop_bit 15 (uint32_cmp_ge_branch t ((NTRU_LPR_Q + 1) div 2) top2 top1))"

definition top_step :: "u8 list \<Rightarrow> u16 list \<Rightarrow> u32 \<Rightarrow> u8 list \<Rightarrow> u8 list option" where
  "top_step input b_ag_round i ct = do {
     x \<leftarrow> rd input (drop_bit 3 i);
     let t = drop_bit (unat (i AND 0x07)) (ucast x) AND 1;
     y \<leftarrow> rd b_ag_round i;
     b \<leftarrow> rd ct (of_nat NTRU_LPR_ROUND_ENC_LEN + drop_bit 1 i);
     wr ct (of_nat NTRU_LPR_ROUND_ENC_LEN + drop_bit 1 i)
       (b OR ucast (push_bit (unat (4 * (i AND 1))) (top_value t y))) }"

definition ntrulpr_653_encapsulate_internal ::
  "ntru_env \<Rightarrow> u8 list \<Rightarrow> u8 list \<Rightarrow> u8 list option \<Rightarrow> u8 list \<Rightarrow> u8 list option" where
  "ntrulpr_653_encapsulate_internal env pk input key_hash_cache ct_out = do {
     g \<leftarrow> ntrulpr_653_expand_seed env pk (local_halves env);
     enc \<leftarrow> field pk 32 NTRU_LPR_ROUND_ENC_LEN;
     ag_round \<leftarrow> ntrulpr_653_decode_poly_round (local_words env) enc (local_halves env);
     b \<leftarrow> ntrulpr_653_hashshort env input (take short_len (local_bytes env));
     bg \<leftarrow> ntrulpr_653_poly_mult_short g b NTRU_LPR_P (local_halves env);
     bg \<leftarrow> ntrulpr_653_round bg;
     enc \<leftarrow> ntrulpr_653_encode_poly_round (local_words env) bg;
     ct_out \<leftarrow> store ct_out 0 enc;
     b_ag_round \<leftarrow> ntrulpr_653_poly_mult_short ag_round b 256 (take 256 (local_halves env));
     ct_out \<leftarrow> store ct_out NTRU_LPR_ROUND_ENC_LEN (replicate 128 0);
     ct_out \<leftarrow> for_up 0 256 (top_step input b_ag_round) ct_out;
     key_hash \<leftarrow> (case key_hash_cache of
         None \<Rightarrow> ntru_hash env [([4], 1), (pk, of_nat NTRU_LPR_PK_LEN)]
       | Some cache \<Rightarrow> Some cache);
     confirm \<leftarrow> ntru_hash env [([2], 1), (input, 32), (key_hash, 32)];
     store ct_out (NTRU_LPR_ROUND_ENC_LEN + 128) confirm }"

definition ntrulpr_653_encapsulate :: "ntru_env \<Rightarrow> u8 list \<Rightarrow> u8 list \<Rightarrow> u8 list \<Rightarrow> (u8 list \<times> u8 list) option" where
  "ntrulpr_653_encapsulate env input pk ct_out = do {
     ct_out \<leftarrow> ntrulpr_653_encapsulate_internal env pk input None ct_out;
     key_out \<leftarrow> ntru_hash env [([1], 1), (input, 32), (ct_out, of_nat NTRU_LPR_CT_LEN)];
     Some (ct_out, key_out) }"

section \<open>Decapsulation\<close>

definition recover_bit :: "u32 \<Rightarrow> u16 \<Rightarrow> u32" where
  "recover_bit t y =
     (let r = t * 290 + (NTRU_LPR_Q - 2031) + 4 * NTRU_LPR_W + 1;
          r = uint32_cmp_ge_branch r NTRU_LPR_Q (r - NTRU_LPR_Q) r;
          r = r + (NTRU_LPR_Q - ucast y);
          r = uint32_cmp_ge_branch r NTRU_LPR_Q (r - NTRU_LPR_Q) r
      in uint32_cmp_ge_branch r ((NTRU_LPR_Q + 1) div 2) 1 0)"

definition recover_step :: "u8 list \<Rightarrow> u16 list \<Rightarrow> u32 \<Rightarrow> u8 list \<Rightarrow> u8 list option" where
  "recover_step ct ab i secret = do {
     x \<leftarrow> rd ct (of_nat NTRU_LPR_ROUND_ENC_LEN + drop_bit 1 i);
     let t = drop_bit (unat (4 * (i AND 1))) (ucast x) AND 0x0f;
     y \<leftarrow> rd ab i;
     b \<leftarrow> rd secret (drop_bit 3 i);
     wr secret (drop_bit 3 i) (b OR ucast (push_bit (unat (i AND 0x07)) (recover_bit t y))) }"

definition recover_secret :: "ntru_env \<Rightarrow> u8 list \<Rightarrow> u8 list \<Rightarrow> u8 list option" where
  "recover_secret env sk ct = do {
     enc \<leftarrow> field ct 0 NTRU_LPR_ROUND_ENC_LEN;
     b \<leftarrow> ntrulpr_653_decode_poly_round (local_words env) enc (local_halves env);
     ab \<leftarrow> ntrulpr_653_poly_mult_short b sk 256 (take 256 (local_halves env));
     for_up 0 256 (recover_step ct ab) (replicate 32 0) }"

definition ntrulpr_653_decapsulate :: "ntru_env \<Rightarrow> u8 list \<Rightarrow> u8 list \<Rightarrow> u8 list option" where
  "ntrulpr_653_decapsulate env sk ct = do {
     secret \<leftarrow> recover_secret env sk ct;
     pk \<leftarrow> field sk short_len NTRU_LPR_PK_LEN;
     rho \<leftarrow> field sk (short_len + NTRU_LPR_PK_LEN) 32;
     key_hash \<leftarrow> field sk (short_len + NTRU_LPR_PK_LEN + 32) 32;
     new_ct \<leftarrow> ntrulpr_653_encapsulate_internal env pk secret (Some key_hash) (local_bytes env);
     cmp \<leftarrow> list_memcmp ct new_ct (of_nat NTRU_LPR_CT_LEN);
     let cmp_byte = (cmp \<noteq> 0);
     secret \<leftarrow> list_cond_memcpy cmp_byte secret rho 32;
     ntru_hash env [([of_bool cmp_byte], 1), (secret, 32), (ct, of_nat NTRU_LPR_CT_LEN)] }"

section \<open>The routines of \<open>src/string\<close> on lists\<close>

lemma buffer_addresses:
  assumes "i < 65536"
  shows "unat (addr 0x10000 i) = 65536 + i" "unat (addr 0x20000 i) = 131072 + i"
    "unat (of_nat i :: u64) = i"
proof -
  show i: "unat (of_nat i :: u64) = i" using assms by (simp add: unsigned_of_nat take_bit_nat_eq_self)
  then show "unat (addr 0x10000 i) = 65536 + i" "unat (addr 0x20000 i) = 131072 + i"
    using assms by (simp_all add: addr_def unat_word_ariths)
qed

lemma buffer_bytes:
  assumes "length xs \<le> 65536" "length ys \<le> 65536"
  shows "i < length xs \<Longrightarrow> bytes_at (two_buffers xs ys) 0x10000 i = xs ! i"
    "i < length ys \<Longrightarrow> bytes_at (two_buffers xs ys) 0x20000 i = ys ! i"
    "n \<le> length xs \<Longrightarrow> can_access (two_buffers xs ys) 0x10000 n"
    "n \<le> length ys \<Longrightarrow> can_access (two_buffers xs ys) 0x20000 n"
  using assms
  by (auto simp: bytes_at_def can_access_def two_buffers_def word_less_nat_alt buffer_addresses)

lemma list_memcmp_ok:
  assumes "unat n \<le> length xs" "unat n \<le> length ys" "length xs \<le> 65536" "length ys \<le> 65536"
  shows "\<exists>r. list_memcmp xs ys n = Some r \<and> (r = 0 \<longleftrightarrow> take (unat n) xs = take (unat n) ys)"
proof -
  note b = buffer_bytes [OF assms(3,4)]
  obtain r where r: "safe_memcmp (two_buffers xs ys) 0x10000 0x20000 n = Some r"
    "r = 0 \<longleftrightarrow> (\<forall>i < unat n. bytes_at (two_buffers xs ys) 0x10000 i = bytes_at (two_buffers xs ys) 0x20000 i)"
    using safe_memcmp_correct [OF b(3) [OF assms(1)] b(4) [OF assms(2)]] by blast
  have "(\<forall>i < unat n. bytes_at (two_buffers xs ys) 0x10000 i = bytes_at (two_buffers xs ys) 0x20000 i) \<longleftrightarrow>
      take (unat n) xs = take (unat n) ys"
    using assms(1,2) by (auto simp: b(1,2) list_eq_iff_nth_eq)
  then show ?thesis using r by (simp add: list_memcmp_def)
qed

lemma list_cond_memcpy_ok:
  assumes "unat n = length xs" "unat n \<le> length ys" "length ys \<le> 65536"
  shows "list_cond_memcpy cond xs ys n = Some (if cond then take (unat n) ys else xs)"
proof -
  have xs: "length xs \<le> 65536" using assms by simp
  note b = buffer_bytes [OF xs assms(3)]
  have "addr 0x10000 j \<noteq> addr 0x20000 i" if "i < unat n" "j < unat n" for i j
  proof -
    have "i < 65536" "j < 65536" using that assms(2,3) by simp_all
    then have "unat (addr 0x10000 j) \<noteq> unat (addr 0x20000 i)" by (simp add: buffer_addresses)
    then show ?thesis by auto
  qed
  then have "disjoint_buffers 0x10000 0x20000 (unat n)" by (simp add: disjoint_buffers_def)
  then have run: "cond_memcpy (two_buffers xs ys) cond 0x10000 0x20000 n =
      Some (if cond then put_bytes (two_buffers xs ys) 0x10000 (unat n) (bytes_at (two_buffers xs ys) 0x20000) else two_buffers xs ys)"
    by (rule cond_memcpy_run) (use b assms in auto)
  have "content (if cond then put_bytes (two_buffers xs ys) 0x10000 (unat n) (bytes_at (two_buffers xs ys) 0x20000) else two_buffers xs ys)
      (0x10000 + of_nat i) = (if cond then ys ! i else xs ! i)" if "i < length xs" for i
  proof -
    have "unat (of_nat i :: u64) = i" using that xs by (simp add: unsigned_of_nat take_bit_nat_eq_self)
    then show ?thesis using that assms b(1,2) [of i] by (simp add: put_range_def bytes_at_def addr_def)
  qed
  then have "map (\<lambda>i. content (if cond then put_bytes (two_buffers xs ys) 0x10000 (unat n) (bytes_at (two_buffers xs ys) 0x20000) else two_buffers xs ys)
      (0x10000 + of_nat i)) [0..<length xs] = (if cond then take (unat n) ys else xs)"
    using assms(1,2) by (auto intro!: nth_equalityI)
  then show ?thesis by (simp add: list_cond_memcpy_def run del: if_image_distrib)
qed

end
