(* ===== verification/NtruKemOk.thy ===== *)
theory NtruKemOk
  imports NtruKem
begin

text \<open>
  The steps of the key exchange one by one: the bit lists, \<open>Top\<close> and \<open>Right\<close>, and the rounded
  products with their errors.

  Every call of an honest run succeeds, and what the calls leave in the buffers.
\<close>

section \<open>Packed lists\<close>

lemma packed_ext:
  assumes w: "w * per = 8" and len: "base + m \<le> length out" "base + m \<le> length out'"
    and bits: "\<And>j b. j < m * per \<Longrightarrow> b < w \<Longrightarrow> packed_bit w per base out j b = packed_bit w per base out' j b"
    and i: "i < m"
  shows "out ! (base + i) = out' ! (base + i)"
proof (rule bit_word_eqI)
  fix n assume "n < LENGTH(8)"
  then have n: "n < w * per" using w by simp
  have w0: "0 < w" using w by (cases w) simp_all
  let ?j = "i * per + n div w"
  have d: "n div w < per" using n by (simp add: less_mult_imp_div_less mult.commute)
  have "?j < m * per"
  proof -
    have "?j < Suc i * per" using d by simp
    also have "\<dots> \<le> m * per" using i by (intro mult_le_mono1) simp
    finally show ?thesis .
  qed
  moreover have "?j div per = i" "?j mod per = n div w" using d by simp_all
  ultimately show "bit (out ! (base + i)) n = bit (out' ! (base + i)) n"
    using bits [of ?j "n mod w"] w0 by (simp add: packed_bit_def)
qed

lemma bit_less_unat: "unat (x :: u32) < 2 ^ w \<Longrightarrow> w \<le> n \<Longrightarrow> \<not> bit x n"
proof -
  assume x: "unat x < 2 ^ w" and n: "w \<le> n"
  have "take_bit w (unat x) = unat x" using x by (simp add: take_bit_nat_eq_self)
  then have "\<not> bit (unat x) n" using n by (metis bit_take_bit_iff not_le)
  then show ?thesis by (simp add: bit_unsigned_iff)
qed

section \<open>Indices\<close>

lemma unat_and_mask: "unat (of_nat i AND mask n :: u32) = i mod 2 ^ n" if "i < 256"
proof -
  have "unat (of_nat i AND mask n :: u32) = take_bit n (unat (of_nat i :: u32))"
    by (simp only: take_bit_eq_mask [symmetric] unsigned_take_bit_eq)
  then show ?thesis using that by (simp add: take_bit_eq_mod unat_of_nat_small)
qed

lemma unat_index:
  assumes "i < 256"
  shows "unat (of_nat i :: u32) = i" "unat (of_nat i AND 0x07 :: u32) = i mod 8" "unat (4 * (of_nat i AND 1) :: u32) = 4 * (i mod 2)"
    "unat (drop_bit 3 (of_nat i) :: u32) = i div 8" "unat (of_nat NTRU_LPR_ROUND_ENC_LEN + drop_bit (Suc 0) (of_nat i) :: u32) = 865 + i div 2"
proof -
  show i: "unat (of_nat i :: u32) = i" using assms by (simp add: unat_of_nat_small)
  show "unat (of_nat i AND 0x07 :: u32) = i mod 8" using unat_and_mask [OF assms, of 3] by (simp add: mask_eq_exp_minus_1)
  have "unat (of_nat i AND 1 :: u32) = i mod 2" using unat_and_mask [OF assms, of 1] by (simp add: mask_eq_exp_minus_1)
  then show "unat (4 * (of_nat i AND 1) :: u32) = 4 * (i mod 2)" by (simp add: unat_word_ariths)
  have d: "unat (drop_bit k (of_nat i) :: u32) = i div 2 ^ k" for k
    using i assms by (subst unsigned_drop_bit_eq) (simp add: drop_bit_eq_div take_bit_nat_eq_self)
  show "unat (drop_bit 3 (of_nat i) :: u32) = i div 8" using d [of 3] by simp
  show "unat (of_nat NTRU_LPR_ROUND_ENC_LEN + drop_bit (Suc 0) (of_nat i) :: u32) = 865 + i div 2"
    using d [of 1] assms by (simp add: unat_word_ariths NTRU_LPR_ROUND_ENC_LEN_def)
qed

section \<open>Top and Right\<close>

lemma right_top:
  fixes c T :: int
  assumes c: "- 2310 \<le> c" "c \<le> 2310" and T: "T = (113 * c + 262159) div 32768"
  shows "0 \<le> T" "T < 16" "0 \<le> 290 * T - 2031 - c" "290 * T - 2031 - c \<le> 289"
proof -
  have b: "32768 * T \<le> 113 * c + 262159" "113 * c + 262159 < 32768 * T + 32768"
    using mult_div_mod_eq [of 32768 "113 * c + 262159"] pos_mod_bound [of 32768 "113 * c + 262159"]
      pos_mod_sign [of 32768 "113 * c + 262159"] unfolding T by linarith+
  show "0 \<le> T" "T < 16" "0 \<le> 290 * T - 2031 - c" "290 * T - 2031 - c \<le> 289" using b c by linarith+
qed

lemma reduce_once_eq: "uint32_cmp_ge_branch x NTRU_LPR_Q (x - NTRU_LPR_Q) x = reduce_once x"
  by (simp add: reduce_once_def)

text \<open>The number of a bit: \<open>Top\<close> of the reduced sum, brought into \<open>-2310, \<dots>, 2310\<close>.\<close>

lemma top_value:
  fixes t :: bool
  assumes "small y"
  defines "c \<equiv> (2310 * (if t then 1 else 0) + unat y) mod 4621"
  shows "int (unat (top_value (of_bool t) y)) = (113 * (if 2311 \<le> c then int c - q else int c) + 262159) div 32768"
proof -
  have y: "unat (ucast y :: u32) < 4621" using assms by (simp add: small_def unat_ucast_u16_32)
  let ?t = "of_bool t * 2310 + ucast y :: u32"
  have s: "unat ?t = 2310 * (if t then 1 else 0) + unat y" using y by (simp add: unat_word_ariths unat_ucast_u16_32)
  then have "unat ?t < 9242" using y by (simp add: unat_ucast_u16_32)
  from reduce_once [OF this] have r: "unat (reduce_once ?t) = c" unfolding s c_def .
  have c: "c < 4621" by (simp add: c_def)
  have top1: "unat (113 * reduce_once ?t + 262159) = 113 * c + 262159" using c r by (simp add: unat_word_ariths)
  have sh: "unat (drop_bit 15 x) = unat x div 32768" for x :: u32
    using unat_less_u32 [of x] by (subst unsigned_drop_bit_eq) (simp add: drop_bit_eq_div take_bit_nat_eq_self)
  show ?thesis
  proof (cases "2311 \<le> c")
    case True
    then have "unat (113 * reduce_once ?t + 262159 - 522173) = 113 * c + 262159 - 522173"
      using top1 by (subst unat_sub) (simp_all add: word_le_nat_alt)
    then have "unat (top_value (of_bool t) y) = (113 * c + 262159 - 522173) div 32768"
      using True r by (simp add: top_value_def Let_def NTRU_LPR_Q_def reduce_once_eq [unfolded NTRU_LPR_Q_def] uint32_cmp_ge_branch_def [of _ 2311] word_le_nat_alt sh)
    then show ?thesis using True by (simp add: zdiv_int of_nat_diff algebra_simps)
  next
    case False
    then have "unat (top_value (of_bool t) y) = (113 * c + 262159) div 32768"
      using top1 r by (simp add: top_value_def Let_def NTRU_LPR_Q_def reduce_once_eq [unfolded NTRU_LPR_Q_def] uint32_cmp_ge_branch_def [of _ 2311] word_le_nat_alt sh)
    then show ?thesis using False by (simp add: zdiv_int)
  qed
qed

lemma recover_bit:
  assumes "unat T < 16" "small z"
  shows "recover_bit T z = of_bool (2311 \<le> (290 * int (unat T) + 3599 - val z) mod q)"
proof -
  have z: "unat z < 4621" using assms(2) by (simp add: small_def)
  let ?r = "T * 290 + (4621 - 2031) + 4 * 252 + 1 :: u32"
  have u: "unat ?r = 290 * unat T + 3599" using assms(1) by (simp add: unat_word_ariths)
  then have "unat ?r < 9242" using assms(1) by simp
  from reduce_once [OF this] have r: "unat (reduce_once ?r) = (290 * unat T + 3599) mod 4621" unfolding u .
  have "unat (4621 - ucast z :: u32) = 4621 - unat z" using z by (subst unat_sub) (simp_all add: word_le_nat_alt unat_ucast_u16_32)
  moreover have m: "(290 * unat T + 3599) mod 4621 < 4621" by simp
  ultimately have s: "unat (reduce_once ?r + (4621 - ucast z)) = (290 * unat T + 3599) mod 4621 + (4621 - unat z)" using r by (simp add: unat_word_ariths)
  moreover have "unat (reduce_once ?r + (4621 - ucast z)) < 9242" using s m by linarith
  ultimately have "unat (reduce_once (reduce_once ?r + (4621 - ucast z))) = ((290 * unat T + 3599) mod 4621 + (4621 - unat z)) mod 4621"
    by (simp only: reduce_once)
  also have "\<dots> = (290 * unat T + 3599 + (4621 - unat z)) mod 4621" by (rule mod_add_left_eq)
  finally have f: "unat (reduce_once (reduce_once ?r + (4621 - ucast z))) = (290 * unat T + 3599 + (4621 - unat z)) mod 4621" .
  have "int (unat (reduce_once (reduce_once ?r + (4621 - ucast z)))) = (290 * int (unat T) + 3599 - val z + q) mod q"
    unfolding f using z by (simp add: zmod_int val_def of_nat_diff algebra_simps)
  also have "\<dots> = (290 * int (unat T) + 3599 - val z) mod q" by (rule mod_add_self2)
  finally have v: "int (unat (reduce_once (reduce_once ?r + (4621 - ucast z)))) = (290 * int (unat T) + 3599 - val z) mod q" .
  have "recover_bit T z = uint32_cmp_ge_branch (reduce_once (reduce_once ?r + (4621 - ucast z))) 2311 1 0"
    by (simp add: recover_bit_def Let_def NTRU_LPR_Q_def NTRU_LPR_W_def reduce_once_eq [unfolded NTRU_LPR_Q_def])
  moreover have "2311 \<le> int n \<longleftrightarrow> 2311 \<le> n" for n :: nat by linarith
  ultimately show ?thesis unfolding v [symmetric] by (simp only:) (simp add: uint32_cmp_ge_branch_def word_le_nat_alt)
qed

text \<open>A bit survives as long as the two products differ by at most \<open>4 * 252\<close>.\<close>

lemma bit_recovered:
  assumes y: "small y" and z: "small z" and d: "val y mod q = (val z + d) mod q" "\<bar>d\<bar> \<le> 1008"
  shows "unat (top_value (of_bool t) y) < 16" "recover_bit (top_value (of_bool t) y) z = of_bool t"
proof -
  let ?c = "(2310 * (if t then 1 else 0) + unat y) mod 4621"
  let ?C = "if 2311 \<le> ?c then int ?c - q else int ?c"
  let ?T = "unat (top_value (of_bool t) y)"
  have "?c < 4621" by simp
  then have C: "- 2310 \<le> ?C" "?C \<le> 2310" by (auto simp del: mod_less_divisor)
  note r = right_top [OF C top_value [OF y, of t]]
  show T: "?T < 16" using r(2) by (simp only: of_nat_less_numeral_iff)
  let ?e = "290 * int ?T - 2031 - ?C"
  have "?C mod q = int ?c mod q" by (auto simp: mod_simps)
  also have "\<dots> = (2310 * (if t then 1 else 0) + val y) mod q" by (simp add: val_def zmod_int)
  finally have c: "?C mod q = (2310 * (if t then 1 else 0) + val y) mod q" .
  have "(290 * int ?T + 3599 - val z) mod q = (?C + (?e + 5630 - val z)) mod q" by (simp add: algebra_simps)
  also have "\<dots> = (2310 * (if t then 1 else 0) + val y + (?e + 5630 - val z)) mod q" by (rule mod_add_cong [OF c refl])
  also have "\<dots> = (val y + (2310 * (if t then 1 else 0) + ?e + 5630 - val z)) mod q" by (simp add: algebra_simps)
  also have "\<dots> = (val z + d + (2310 * (if t then 1 else 0) + ?e + 5630 - val z)) mod q" by (rule mod_add_cong [OF d(1) refl])
  also have "\<dots> = (2310 * (if t then 1 else 0) + d + ?e + 1009 + q) mod q" by (simp add: algebra_simps)
  also have "\<dots> = (2310 * (if t then 1 else 0) + d + ?e + 1009) mod q" by (rule mod_add_self2)
  also have "\<dots> = 2310 * (if t then 1 else 0) + d + ?e + 1009"
    by (rule mod_pos_pos_trivial) (use d(2) r(3,4) in \<open>auto simp del: if_cancel\<close>)
  finally have v: "(290 * int ?T + 3599 - val z) mod q = 2310 * (if t then 1 else 0) + d + ?e + 1009" .
  have "2311 \<le> 2310 * (if t then 1 else 0 :: int) + d + ?e + 1009 \<longleftrightarrow> t"
    using d(2) r(3,4) by (cases t) auto
  then show "recover_bit (top_value (of_bool t) y) z = of_bool t"
    unfolding recover_bit [OF T z] v by simp
qed

section \<open>Rounded products\<close>

definition noisy_product :: "poly \<Rightarrow> u16 list \<Rightarrow> u16 list \<Rightarrow> bool" where
  "noisy_product a g r \<longleftrightarrow> smalls r \<and>
     (\<exists>e. (\<forall>k < 653. \<bar>e k\<bar> \<le> 1) \<and> (\<forall>k < 653. val (r ! k) mod q = (pmult a (coeffs g) k + e k) mod q))"

lemma smallsD: "smalls g \<Longrightarrow> 653 \<le> length g" "smalls g \<Longrightarrow> \<forall>k < 653. small (g ! k)" "smalls g \<Longrightarrow> length g = 653"
  by (auto simp: smalls_def)

lemma P_of_nat: "NTRU_LPR_P = of_nat 653"
  by (simp add: NTRU_LPR_P_def)

lemma round_small:
  assumes "small x"
  shows "rounded (round_coeff x)" "small (round_coeff x)" "\<exists>e. \<bar>e\<bar> \<le> 1 \<and> val (round_coeff x) = (val x + e) mod q"
proof -
  have x: "unat x < 4621" using assms by (simp add: small_def)
  note r = round_nat_rounded [OF x, folded unat_round_coeff [OF assms]]
  show "rounded (round_coeff x)" using r(1,2) by (simp add: rounded_def)
  show "small (round_coeff x)" using r(1) by (simp add: small_def)
  show "\<exists>e. \<bar>e\<bar> \<le> 1 \<and> val (round_coeff x) = (val x + e) mod q" using r(3) unfolding val_def by force
qed

lemma round_product:
  assumes env: "env_ok env" and g: "smalls g" and a: "164 \<le> length a"
  shows "\<exists>ag r enc. ntrulpr_653_poly_mult_short g a NTRU_LPR_P (local_halves env) = Some ag \<and> ntrulpr_653_round ag = Some r \<and>
    noisy_product (digits a) g r \<and> ntrulpr_653_encode_poly_round (local_words env) r = Some enc \<and> length enc = 865 \<and>
    ntrulpr_653_decode_poly_round (local_words env) enc (local_halves env) = Some r"
proof -
  have len: "length (local_words env) = 653" "length (local_halves env) = 653" using env by (simp_all add: env_ok_def)
  obtain ag where ag: "ntrulpr_653_poly_mult_short g a NTRU_LPR_P (local_halves env) = Some ag" "length ag = 653"
    "\<forall>k < 653. small (ag ! k) \<and> val (ag ! k) = pmult (digits a) (coeffs g) k mod q"
    using poly_mult_ok [OF smallsD(1,2) [OF g] a, of 653 "local_halves env"] len(2) unfolding P_of_nat by auto
  let ?r = "map round_coeff ag"
  have r: "ntrulpr_653_round ag = Some ?r" using round_ok_list ag(2,3) by blast
  have "\<forall>k < 653. \<exists>e. \<bar>e\<bar> \<le> 1 \<and> val (?r ! k) = (pmult (digits a) (coeffs g) k + e) mod q"
  proof safe
    fix k :: nat assume k: "k < 653"
    then obtain e where "\<bar>e\<bar> \<le> 1" "val (round_coeff (ag ! k)) = (val (ag ! k) + e) mod q" using round_small(3) ag(3) by blast
    then show "\<exists>e. \<bar>e\<bar> \<le> 1 \<and> val (?r ! k) = (pmult (digits a) (coeffs g) k + e) mod q"
      using ag(2,3) k by (auto simp: mod_add_left_eq)
  qed
  then obtain e where "\<forall>k < 653. \<bar>e k\<bar> \<le> 1 \<and> val (?r ! k) = (pmult (digits a) (coeffs g) k + e k) mod q" by metis
  moreover have "smalls ?r" using round_small(2) ag(2,3) by (simp add: smalls_def)
  ultimately have n: "noisy_product (digits a) g ?r" by (auto simp: noisy_product_def intro!: exI [of _ e])
  have poly: "length ?r = 653" "\<forall>i < 653. rounded (?r ! i)" using round_small(1) ag(2,3) by simp_all
  then have dec: "map (\<lambda>i. dec_coeff (enc_coeff (?r ! i))) [0..<653] = ?r" by (auto intro!: nth_equalityI simp: dec_coeff_enc)
  have "\<forall>i < 653. unat (?r ! i) < 4621" using poly(2) by (simp add: rounded_def)
  from codec_ok [OF len(1) poly(1) this] obtain enc where "ntrulpr_653_encode_poly_round (local_words env) ?r = Some enc" "length enc = 865"
    "\<forall>buf' poly'. length buf' = 653 \<longrightarrow> length poly' = 653 \<longrightarrow>
       ntrulpr_653_decode_poly_round buf' enc poly' = Some (map (\<lambda>i. dec_coeff (enc_coeff (?r ! i))) [0..<653])" by blast
  then show ?thesis using ag(1) r n len unfolding dec by blast
qed

text \<open>The two sides of the exchange differ only by the errors.\<close>

lemma exchange:
  assumes a: "short 252 a" "noisy_product a g ag" and b: "short 252 b" "noisy_product b g bg" and k: "k < 653"
  shows "\<exists>d. \<bar>d\<bar> \<le> 1008 \<and> pmult b (coeffs ag) k mod q = (pmult a (coeffs bg) k + d) mod q"
proof -
  obtain e1 where e1: "\<forall>k < 653. \<bar>e1 k\<bar> \<le> 1" "\<forall>k < 653. val (ag ! k) mod q = (pmult a (coeffs g) k + e1 k) mod q"
    using a(2) unfolding noisy_product_def by blast
  obtain e2 where e2: "\<forall>k < 653. \<bar>e2 k\<bar> \<le> 1" "\<forall>k < 653. val (bg ! k) mod q = (pmult b (coeffs g) k + e2 k) mod q"
    using b(2) unfolding noisy_product_def by blast
  let ?d = "pmult b e1 k - pmult a e2 k"
  have "\<bar>pmult b e1 k\<bar> \<le> 504" "\<bar>pmult a e2 k\<bar> \<le> 504"
    using pmult_small [OF b(1), of e1 k] pmult_small [OF a(1), of e2 k] e1(1) e2(1) k by simp_all
  then have small_d: "\<bar>?d\<bar> \<le> 1008" by linarith
  have l: "pmult b (coeffs ag) k mod q = (pmult b (pmult a (coeffs g)) k + pmult b e1 k) mod q"
    unfolding pmult_add [symmetric] by (rule pmult_cong) (use e1(2) k in \<open>auto simp: coeffs_def\<close>)
  have r: "pmult a (coeffs bg) k mod q = (pmult a (pmult b (coeffs g)) k + pmult a e2 k) mod q"
    unfolding pmult_add [symmetric] by (rule pmult_cong) (use e2(2) k in \<open>auto simp: coeffs_def\<close>)
  have "(pmult a (coeffs bg) k + ?d) mod q = (pmult a (pmult b (coeffs g)) k + pmult a e2 k + ?d) mod q" by (rule mod_add_cong [OF r refl])
  also have "\<dots> = (pmult b (pmult a (coeffs g)) k + pmult b e1 k) mod q" unfolding pmult_commute [of a b] by simp
  finally show ?thesis using l small_d by metis
qed

section \<open>The two bit loops\<close>

lemma extract_bit: "drop_bit n (ucast (x :: u8)) AND 1 = (of_bool (bit x n) :: u32)"
proof (rule bit_word_eqI)
  fix m assume "m < LENGTH(32)"
  show "bit (drop_bit n (ucast x) AND 1 :: u32) m = bit (of_bool (bit x n) :: u32) m"
    by (cases "m = 0") (auto simp: bit_simps dest: bit_imp_le_length)
qed

definition input_bit :: "u8 list \<Rightarrow> nat \<Rightarrow> bool" where
  "input_bit input j \<longleftrightarrow> bit (input ! (j div 8)) (j mod 8)"

lemma top_loop:
  assumes input: "length input = 32" and y: "length ys = 256" "\<And>j. j < 256 \<Longrightarrow> unat (top_value (of_bool (input_bit input j)) (ys ! j)) < 16"
    and ct: "length ct = 1025" "\<And>i. 865 \<le> i \<Longrightarrow> i < 993 \<Longrightarrow> ct ! i = 0"
  shows "\<exists>ct'. for_up 0 256 (top_step input ys) ct = Some ct' \<and> length ct' = 1025 \<and>
    (\<forall>j < 256. \<forall>b < 4. packed_bit 4 2 865 ct' j b \<longleftrightarrow> bit (top_value (of_bool (input_bit input j)) (ys ! j)) b) \<and>
    (\<forall>i. i < 865 \<or> 993 \<le> i \<longrightarrow> ct' ! i = ct ! i)"
proof -
  have "\<exists>ct'. up 256 (\<lambda>k. top_step input ys (of_nat k)) ct = Some ct' \<and> length ct' = length ct \<and>
    (\<forall>j < 256. \<forall>b < 4. packed_bit 4 2 865 ct' j b \<longleftrightarrow> bit (top_value (of_bool (input_bit input j)) (ys ! j)) b) \<and>
    (\<forall>i. i < 865 \<or> 865 + 128 \<le> i \<longrightarrow> ct' ! i = ct ! i)"
  proof (rule pack_up)
    fix k n :: nat assume "k < 256" "4 \<le> n"
    then show "\<not> bit (top_value (of_bool (input_bit input k)) (ys ! k)) n" using y(2) by (intro bit_less_unat [where w = 4]) simp_all
  next
    fix k :: nat and ct' :: "u8 list" assume k: "k < 256" and l: "length ct' = length ct"
    have "k div 8 < 32" "k div 2 < 128" using k by simp_all
    then show "top_step input ys (of_nat k) ct' = Some (ct'[865 + k div 2 := ct' ! (865 + k div 2) OR
        ucast (push_bit (4 * (k mod 2)) (top_value (of_bool (input_bit input k)) (ys ! k)))])"
      using k l input y(1) ct(1) by (simp add: top_step_def rd_def wr_def unat_index extract_bit input_bit_def)
  qed (use ct in auto)
  then show ?thesis using ct(1) unfolding for_up_0 by simp
qed

lemma nibble:
  assumes "j < 256" "unat v < 16" "\<And>b. b < 4 \<Longrightarrow> packed_bit 4 2 865 ct j b \<longleftrightarrow> bit v b"
  shows "drop_bit (4 * (j mod 2)) (ucast (ct ! (865 + j div 2))) AND 0x0f = (v :: u32)"
proof (rule bit_word_eqI)
  fix n assume "n < LENGTH(32)"
  have m: "(x :: u32) AND 0x0f = take_bit 4 x" for x by (simp add: take_bit_eq_mask mask_eq_exp_minus_1)
  have v: "\<not> bit v n" if "4 \<le> n" using that assms(2) by (intro bit_less_unat [where w = 4]) simp_all
  have "4 * (j mod 2) + n < 8" if "n < 4"
  proof -
    have "j mod 2 \<le> 1" by simp
    then show ?thesis using that by linarith
  qed
  then show "bit (drop_bit (4 * (j mod 2)) (ucast (ct ! (865 + j div 2))) AND 0x0f :: u32) n = bit v n"
    using assms(3) [of n] v unfolding m by (cases "n < 4") (auto simp: packed_bit_def bit_simps)
qed

lemma recover_loop:
  assumes input: "length input = 32" and z: "length zs = 256" and ct: "993 \<le> length ct"
    and v: "\<And>j. j < 256 \<Longrightarrow> unat (v j) < 16" "\<And>j b. j < 256 \<Longrightarrow> b < 4 \<Longrightarrow> packed_bit 4 2 865 ct j b \<longleftrightarrow> bit (v j) b"
    and r: "\<And>j. j < 256 \<Longrightarrow> recover_bit (v j) (zs ! j) = of_bool (input_bit input j)"
  shows "for_up 0 256 (recover_step ct zs) (replicate 32 0) = Some input"
proof -
  let ?z = "replicate 32 0 :: u8 list"
  have "\<exists>s. up 256 (\<lambda>k. recover_step ct zs (of_nat k)) ?z = Some s \<and> length s = length ?z \<and>
    (\<forall>j < 256. \<forall>b < 1. packed_bit 1 8 0 s j b \<longleftrightarrow> bit (of_bool (input_bit input j) :: u32) b) \<and> (\<forall>i. i < 0 \<or> 0 + 32 \<le> i \<longrightarrow> s ! i = ?z ! i)"
  proof (rule pack_up)
    fix k :: nat and s :: "u8 list" assume k: "k < 256" and l: "length s = length ?z"
    have "k div 8 < 32" "k div 2 < 128" using k by simp_all
    then show "recover_step ct zs (of_nat k) s = Some (s[0 + k div 8 := s ! (0 + k div 8) OR ucast (push_bit (1 * (k mod 8)) (of_bool (input_bit input k) :: u32))])"
      using k l z ct nibble [OF k v(1) [OF k] v(2) [OF k]] r [OF k]
      by (simp add: recover_step_def rd_def wr_def unat_index)
  qed (auto simp: bit_simps)
  then obtain s where s: "up 256 (\<lambda>k. recover_step ct zs (of_nat k)) ?z = Some s" "length s = 32"
    "\<forall>j < 256. \<forall>b < 1. packed_bit 1 8 0 s j b \<longleftrightarrow> bit (of_bool (input_bit input j) :: u32) b" by auto
  have "s = input"
  proof (rule nth_equalityI)
    fix i assume "i < length s"
    then have "i < 32" using s(2) by simp
    from packed_ext [of 1 8 0 32 s input, OF _ _ _ _ this] show "s ! i = input ! i"
      using s(2,3) input by (simp add: packed_bit_def input_bit_def)
  qed (use s(2) input in simp)
  then show ?thesis using s(1) unfolding for_up_0 by simp
qed

end
