(* ===== verification/NtruDecaps.thy ===== *)
theory NtruDecaps
  imports NtruKemOk
begin

text \<open>
  The whole exchange: honest key generation, encapsulation and decapsulation succeed, the secret is
  recovered and the second encapsulation gives the same ciphertext.

  Decapsulation: the secret comes back, and what the session key is a hash of.
\<close>

section \<open>Buffers\<close>

lemma store_Some: "off + length ys \<le> length xs \<Longrightarrow> store xs off ys = Some (take off xs @ ys @ drop (off + length ys) xs)"
  by (simp add: store_def)

lemma field_Some: "off + n \<le> length xs \<Longrightarrow> field xs off n = Some (take n (drop off xs))"
  by (simp add: field_def)

lemma digits_take: "164 \<le> length a \<Longrightarrow> i < 653 \<Longrightarrow> digits (take 164 a @ b) i = digits a i"
proof -
  assume "164 \<le> length a" "i < 653"
  moreover from this have "i div 4 < 164" by simp
  ultimately show ?thesis by (simp add: digits_def short_coeff_def rd_def unat_drop_2 nth_append)
qed

lemma pmult_digits: "164 \<le> length a \<Longrightarrow> pmult (digits (take 164 a @ b)) f = pmult (digits a) f"
  by (simp add: fun_eq_iff pmult_def digits_take)

lemma short_digits: "164 \<le> length a \<Longrightarrow> short w (digits a) \<Longrightarrow> short w (digits (take 164 a @ b))"
proof -
  assume a: "164 \<le> length a" "short w (digits a)"
  then have "{i. i < 653 \<and> digits (take 164 a @ b) i \<noteq> 0} = {i. i < 653 \<and> digits a i \<noteq> 0}" by (auto simp: digits_take)
  then show ?thesis using a by (simp add: short_def digits_take)
qed

section \<open>Key generation\<close>

definition key_pair :: "ntru_env \<Rightarrow> u8 list \<Rightarrow> u8 list \<Rightarrow> bool" where
  "key_pair env sk pk \<longleftrightarrow> (\<exists>a seed enc rho kh g ag.
     sk = a @ pk @ rho @ kh \<and> pk = seed @ enc \<and> length a = 164 \<and> length seed = 32 \<and> length enc = 865 \<and> length rho = 32 \<and> length kh = 32 \<and>
     ntrulpr_653_expand_seed env pk (local_halves env) = Some g \<and> smalls g \<and> short 252 (digits a) \<and>
     ntrulpr_653_decode_poly_round (local_words env) enc (local_halves env) = Some ag \<and> noisy_product (digits a) g ag \<and>
     ntru_hash env [([4], 1), (pk, 897)] = Some kh)"

lemma short_len: "short_len = 164"
  by (simp add: NTRU_LPR_SHORT_ENC_LEN_def NTRU_LPR_P_def)

lemmas kem_sizes = short_len NTRU_LPR_PK_LEN_def NTRU_LPR_CT_LEN_def NTRU_LPR_ROUND_ENC_LEN_def

lemma gen_key_ok:
  assumes env: "env_ok env" and len: "length seed = 32" "length a_seed = 32" "length rho = 32" "length sk = 1125" "length pk = 897"
  shows "\<exists>sk' pk'. ntrulpr_653_gen_key env seed a_seed rho sk pk = Some (sk', pk') \<and> key_pair env sk' pk'"
proof -
  let ?p = "seed @ drop 32 pk"
  have halves: "length (local_halves env) = 653" using env by (simp add: env_ok_def)
  obtain g where g: "ntrulpr_653_expand_seed env ?p (local_halves env) = Some g" "smalls g"
    using expand_seed_ok [OF env _ halves, of ?p] len by auto
  obtain a where a: "ntrulpr_653_hashshort env a_seed sk = Some a" "length a = 1125" "short 252 (digits a)"
    using hashshort_ok [OF env, of a_seed sk] len by auto
  obtain p r enc where r: "ntrulpr_653_poly_mult_short g a NTRU_LPR_P (local_halves env) = Some p" "ntrulpr_653_round p = Some r"
    "noisy_product (digits a) g r" "ntrulpr_653_encode_poly_round (local_words env) r = Some enc" "length enc = 865"
    "ntrulpr_653_decode_poly_round (local_words env) enc (local_halves env) = Some r"
    using round_product [OF env g(2), of a] a(2) by auto
  let ?pk = "seed @ enc"
  obtain kh where kh: "ntru_hash env [([4], 1), (?pk, 897)] = Some kh" "length kh = 32"
    using ntru_hash_ok [OF env, of "[([4], 1), (?pk, 897)]"] len r(5) by auto
  let ?a = "take 164 a" and ?sk = "take 164 a @ ?pk @ rho @ kh"
  have run: "ntrulpr_653_gen_key env seed a_seed rho sk pk = Some (?sk, ?pk)"
    using len g(1) a(1,2) r(1,2,4,5) kh
    by (simp add: ntrulpr_653_gen_key_def ntrulpr_653_gen_key_from_seed_def store_Some field_Some kem_sizes)
  have exp: "ntrulpr_653_expand_seed env ?pk (local_halves env) = ntrulpr_653_expand_seed env ?p (local_halves env)"
    using len r(5) by (simp add: ntrulpr_653_expand_seed_def copy_items_def)
  have "key_pair env ?sk ?pk"
    unfolding key_pair_def
    by (rule exI [of _ ?a], rule exI [of _ seed], rule exI [of _ enc], rule exI [of _ rho], rule exI [of _ kh],
        rule exI [of _ g], rule exI [of _ r])
      (use len g a r kh exp digits_take [of a _ "[]"] short_digits [of a 252 "[]"] pmult_digits [of a "[]"] in \<open>simp add: noisy_product_def\<close>)
  then show ?thesis using run by blast
qed

section \<open>Encapsulation\<close>

text \<open>A ciphertext: the rounded product, the numbers of the bits, the confirmation.\<close>

definition ciphertext :: "ntru_env \<Rightarrow> u16 list \<Rightarrow> u16 list \<Rightarrow> u8 list \<Rightarrow> u8 list \<Rightarrow> bool" where
  "ciphertext env g ag input ct \<longleftrightarrow> (\<exists>b bg ys. length ct = 1025 \<and> short 252 (digits b) \<and> noisy_product (digits b) g bg \<and>
     ntrulpr_653_decode_poly_round (local_words env) (take 865 ct) (local_halves env) = Some bg \<and>
     (\<forall>j < 256. small (ys j) \<and> val (ys j) = pmult (digits b) (coeffs ag) j mod q) \<and>
     (\<forall>j < 256. \<forall>n < 4. packed_bit 4 2 865 ct j n \<longleftrightarrow> bit (top_value (of_bool (input_bit input j)) (ys j)) n))"

lemma internal_ok:
  assumes env: "env_ok env" and len: "length pk = 897" "length input = 32"
    and g: "ntrulpr_653_expand_seed env pk (local_halves env) = Some g" "smalls g"
    and ag: "ntrulpr_653_decode_poly_round (local_words env) (drop 32 pk) (local_halves env) = Some ag" "smalls ag"
    and kh: "ntru_hash env [([4], 1), (pk, 897)] = Some kh" "length kh = 32"
  shows "\<exists>ct. ciphertext env g ag input ct \<and> (\<forall>out cache. length out = 1025 \<longrightarrow> cache = None \<or> cache = Some kh \<longrightarrow>
    ntrulpr_653_encapsulate_internal env pk input cache out = Some ct)"
proof -
  have halves: "length (local_halves env) = 653" "length (local_bytes env) = 1025" using env by (simp_all add: env_ok_def)
  obtain b where b: "ntrulpr_653_hashshort env input (take 164 (local_bytes env)) = Some b" "length b = 164" "short 252 (digits b)"
    using hashshort_ok [OF env, of input "take 164 (local_bytes env)"] len halves by auto
  obtain p r enc where r: "ntrulpr_653_poly_mult_short g b NTRU_LPR_P (local_halves env) = Some p" "ntrulpr_653_round p = Some r"
    "noisy_product (digits b) g r" "ntrulpr_653_encode_poly_round (local_words env) r = Some enc" "length enc = 865"
    "ntrulpr_653_decode_poly_round (local_words env) enc (local_halves env) = Some r"
    using round_product [OF env g(2), of b] b(2) by auto
  obtain ys where ys: "ntrulpr_653_poly_mult_short ag b 256 (take 256 (local_halves env)) = Some ys" "length ys = 256"
    "\<forall>k < 256. small (ys ! k) \<and> val (ys ! k) = pmult (digits b) (coeffs ag) k mod q"
    using poly_mult_ok [OF smallsD(1,2) [OF ag(2)], of b 256 "take 256 (local_halves env)"] b(2) halves by auto
  obtain h where h: "ntru_hash env [([2], 1), (input, 32), (kh, 32)] = Some h" "length h = 32"
    using ntru_hash_ok [OF env, of "[([2], 1), (input, 32), (kh, 32)]"] len kh(2) by auto
  have top: "unat (top_value (of_bool t) (ys ! j)) < 16" if "j < 256" for t j
    using bit_recovered(1) [of "ys ! j" "ys ! j" 0 t] ys(3) that by simp
  let ?f = "\<lambda>out. enc @ replicate 128 0 @ drop 993 out"
  have loop: "\<exists>ct'. for_up 0 256 (top_step input ys) (?f out) = Some ct' \<and> length ct' = 1025 \<and>
      (\<forall>j < 256. \<forall>b < 4. packed_bit 4 2 865 ct' j b \<longleftrightarrow> bit (top_value (of_bool (input_bit input j)) (ys ! j)) b) \<and>
      (\<forall>i. i < 865 \<or> 993 \<le> i \<longrightarrow> ct' ! i = ?f out ! i)" if "length out = 1025" for out
    by (rule top_loop [OF len(2) ys(2) top]) (use that r(5) in \<open>auto simp: nth_append\<close>)
  obtain t where t: "for_up 0 256 (top_step input ys) (?f (replicate 1025 0)) = Some t" "length t = 1025"
    "\<forall>j < 256. \<forall>b < 4. packed_bit 4 2 865 t j b \<longleftrightarrow> bit (top_value (of_bool (input_bit input j)) (ys ! j)) b"
    "\<forall>i. i < 865 \<or> 993 \<le> i \<longrightarrow> t ! i = ?f (replicate 1025 0) ! i"
    using loop [of "replicate 1025 0"] by auto
  let ?ct = "take 993 t @ h"
  have enc: "take 865 t = enc" using t(2,4) r(5) by (auto intro!: nth_equalityI simp: nth_append)
  have "packed_bit 4 2 865 ?ct j n = packed_bit 4 2 865 t j n" if "j < 256" for j n
  proof -
    have "j div 2 < 128" using that by simp
    then show ?thesis using t(2) by (simp add: packed_bit_def nth_append)
  qed
  then have "ciphertext env g ag input ?ct"
    unfolding ciphertext_def
    by (intro exI [of _ b] exI [of _ r] exI [of _ "\<lambda>j. ys ! j"] conjI allI impI)
      (use b(3) r(3,6) t(2,3) h(2) ys(3) enc in \<open>auto simp: min_def\<close>)
  moreover have "ntrulpr_653_encapsulate_internal env pk input cache out = Some ?ct"
    if out: "length out = 1025" and cache: "cache = None \<or> cache = Some kh" for out cache
  proof -
    obtain t' where t': "for_up 0 256 (top_step input ys) (?f out) = Some t'" "length t' = 1025"
      "\<forall>j < 256. \<forall>b < 4. packed_bit 4 2 865 t' j b \<longleftrightarrow> bit (top_value (of_bool (input_bit input j)) (ys ! j)) b"
      "\<forall>i. i < 865 \<or> 993 \<le> i \<longrightarrow> t' ! i = ?f out ! i"
      using loop [OF out] by blast
    have "take 993 t' = take 993 t"
    proof (rule nth_equalityI)
      fix i assume "i < length (take 993 t')"
      then have i: "i < 993" by simp
      show "take 993 t' ! i = take 993 t ! i"
      proof (cases "i < 865")
        case True
        then show ?thesis using i t(4) t'(4) r(5) by (simp add: nth_append)
      next
        case False
        then have "i - 865 < 128" using i by simp
        from packed_ext [of 4 2 865 128 t' t, OF _ _ _ _ this] show ?thesis using False i t(2,3) t'(2,3) by simp
      qed
    qed (use t(2) t'(2) in simp)
    moreover have "store t' 993 h = Some (take 993 t' @ h)" using t'(2) h(2) by (simp add: store_def)
    ultimately have s3: "store t' 993 h = Some ?ct" by simp
    have s1: "store out 0 enc = Some (enc @ drop 865 out)" using out r(5) by (simp add: store_def)
    have s2: "store (enc @ drop 865 out) 865 (replicate 128 0) = Some (?f out)" using out r(5) by (simp add: store_def)
    have f: "field pk 32 865 = Some (drop 32 pk)" using len(1) by (simp add: field_def)
    have c: "(case cache of None \<Rightarrow> ntru_hash env [([4], 1), (pk, 897)] | Some cache \<Rightarrow> Some cache) = Some kh" using cache kh(1) by auto
    have n: "32 + 865 = (897 :: nat)" "865 + 128 = (993 :: nat)" "of_nat 897 = (897 :: u64)" by simp_all
    show ?thesis
      unfolding ntrulpr_653_encapsulate_internal_def kem_sizes n
      by (simp only: g(1) ag(1) b(1) r(1,2,4) ys(1) t'(1) h(1) s1 s2 s3 f c Option.bind.bind_lunit)
  qed
  ultimately show ?thesis by blast
qed

section \<open>The secret\<close>

lemma sk_digits:
  assumes "length a = 164"
  shows "pmult (digits (a @ b)) f = pmult (digits a) f" "short w (digits (a @ b)) = short w (digits a)"
proof -
  have e: "digits (a @ b) i = digits a i" if "i < 653" for i using digits_take [of a i b] assms that by simp
  then show "pmult (digits (a @ b)) f = pmult (digits a) f" by (simp add: fun_eq_iff pmult_def)
  have "{i. i < 653 \<and> digits (a @ b) i \<noteq> 0} = {i. i < 653 \<and> digits a i \<noteq> 0}" using e by auto
  then show "short w (digits (a @ b)) = short w (digits a)" using e by (simp add: short_def)
qed

lemma recover_ok:
  assumes env: "env_ok env" and a: "length a = 164" "short 252 (digits a)" "noisy_product (digits a) g ag"
    and ct: "ciphertext env g ag input ct" and input: "length input = 32"
  shows "recover_secret env (a @ rest) ct = Some input"
proof -
  have halves: "length (local_halves env) = 653" using env by (simp add: env_ok_def)
  obtain b bg ys where c: "length ct = 1025" "short 252 (digits b)" "noisy_product (digits b) g bg"
    "ntrulpr_653_decode_poly_round (local_words env) (take 865 ct) (local_halves env) = Some bg"
    "\<forall>j < 256. small (ys j) \<and> val (ys j) = pmult (digits b) (coeffs ag) j mod q"
    "\<forall>j < 256. \<forall>n < 4. packed_bit 4 2 865 ct j n \<longleftrightarrow> bit (top_value (of_bool (input_bit input j)) (ys j)) n"
    using ct unfolding ciphertext_def by blast
  have bg: "smalls bg" using c(3) by (simp add: noisy_product_def)
  obtain zs where z: "ntrulpr_653_poly_mult_short bg (a @ rest) 256 (take 256 (local_halves env)) = Some zs" "length zs = 256"
    "\<forall>k < 256. small (zs ! k) \<and> val (zs ! k) = pmult (digits a) (coeffs bg) k mod q"
    using poly_mult_ok [OF smallsD(1,2) [OF bg], of "a @ rest" 256 "take 256 (local_halves env)"] a(1) halves by (auto simp: sk_digits)
  have bit: "unat (top_value (of_bool t) (ys j)) < 16 \<and> recover_bit (top_value (of_bool t) (ys j)) (zs ! j) = of_bool t" if j: "j < 256" for t j
  proof -
    obtain d where d: "\<bar>d\<bar> \<le> 1008" "pmult (digits b) (coeffs ag) j mod q = (pmult (digits a) (coeffs bg) j + d) mod q"
      using exchange [OF a(2,3) c(2,3), of j] j by auto
    have "val (ys j) mod q = (val (zs ! j) + d) mod q" using c(5) z(3) d(2) j by (simp add: mod_add_left_eq)
    then show ?thesis using bit_recovered [of "ys j" "zs ! j" d t] c(5) z(3) d(1) j by blast
  qed
  have "for_up 0 256 (recover_step ct zs) (replicate 32 0) = Some input"
    by (rule recover_loop [OF input z(2), where v = "\<lambda>j. top_value (of_bool (input_bit input j)) (ys j)"]) (use bit c(1,6) in auto)
  then show ?thesis using c(1,4) z(1) by (simp add: recover_secret_def field_Some kem_sizes)
qed

section \<open>The comparison of the ciphertexts\<close>

lemma key_pair_fields:
  assumes "key_pair env sk pk"
  shows "length pk = 897" "length sk = 1125" "field sk short_len NTRU_LPR_PK_LEN = Some pk"
    "\<exists>rho. field sk (short_len + NTRU_LPR_PK_LEN) 32 = Some rho \<and> length rho = 32"
    "\<exists>kh. field sk (short_len + NTRU_LPR_PK_LEN + 32) 32 = Some kh \<and> ntru_hash env [([4], 1), (pk, 897)] = Some kh \<and> length kh = 32"
  using assms by (auto simp: key_pair_def field_def kem_sizes)

lemma decapsulate_eq:
  assumes env: "env_ok env" and k: "key_pair env sk pk" and ct: "length ct = 1025"
    and s: "recover_secret env sk ct = Some s" "length s = 32" and rho: "field sk (164 + 897) 32 = Some rho" and out: "length out = 1025"
  shows "\<exists>ct'. ntrulpr_653_encapsulate_internal env pk s None out = Some ct' \<and> length ct' = 1025 \<and>
    ntrulpr_653_decapsulate env sk ct =
      (if ct' = ct then ntru_hash env [([0], 1), (s, 32), (ct, 1025)] else ntru_hash env [([1], 1), (rho, 32), (ct, 1025)])"
proof -
  obtain a seed enc rho' kh g ag where K: "sk = a @ pk @ rho' @ kh" "pk = seed @ enc" "length a = 164" "length seed = 32" "length enc = 865"
    "length rho' = 32" "length kh = 32" "ntrulpr_653_expand_seed env pk (local_halves env) = Some g" "smalls g"
    "ntrulpr_653_decode_poly_round (local_words env) enc (local_halves env) = Some ag" "noisy_product (digits a) g ag"
    "ntru_hash env [([4], 1), (pk, 897)] = Some kh" using k unfolding key_pair_def by blast
  have f: "field sk short_len NTRU_LPR_PK_LEN = Some pk" "field sk (short_len + NTRU_LPR_PK_LEN) 32 = Some rho"
    "field sk (short_len + NTRU_LPR_PK_LEN + 32) 32 = Some kh" "length rho = 32"
    using K(1-7) rho by (auto simp: field_def kem_sizes)
  have bytes: "length (local_bytes env) = 1025" using env by (simp add: env_ok_def)
  have ag: "smalls ag" using K(11) by (simp add: noisy_product_def)
  have pk: "length pk = 897" "drop 32 pk = enc" using K(2,4,5) by simp_all
  obtain ct' where c: "ciphertext env g ag s ct'" "\<And>out cache. length out = 1025 \<Longrightarrow> cache = None \<or> cache = Some kh \<Longrightarrow>
      ntrulpr_653_encapsulate_internal env pk s cache out = Some ct'"
    using internal_ok [OF env pk(1) s(2) K(8,9) _ ag K(12,7)] K(10) pk(2) by auto
  have l: "length ct' = 1025" using c(1) by (auto simp: ciphertext_def)
  obtain r where r: "list_memcmp ct ct' 1025 = Some r" "r = 0 \<longleftrightarrow> ct = ct'"
    using list_memcmp_ok [of 1025 ct ct'] ct l by auto
  have m: "list_cond_memcpy (r \<noteq> 0) s rho 32 = Some (if r \<noteq> 0 then rho else s)"
    using list_cond_memcpy_ok [of 32 s rho "r \<noteq> 0"] s(2) f(4) by auto
  have n: "865 + 128 + 32 = (1025 :: nat)" "of_nat 1025 = (1025 :: u64)" by simp_all
  have "ntrulpr_653_decapsulate env sk ct = ntru_hash env [([of_bool (r \<noteq> 0)], 1), (if r \<noteq> 0 then rho else s, 32), (ct, 1025)]"
    unfolding ntrulpr_653_decapsulate_def NTRU_LPR_CT_LEN_def
    by (simp only: s(1) f c(2) [OF bytes disjI2 [OF refl]] Option.bind.bind_lunit NTRU_LPR_ROUND_ENC_LEN_def n r(1) m Let_def)
  then show ?thesis using c(2) [OF out] l r(2) by auto
qed

lemma exchange_ok:
  assumes env: "env_ok env" and k: "key_pair env sk pk" and len: "length input = 32" "length out = 1025"
  shows "\<exists>ct key. ntrulpr_653_encapsulate env input pk out = Some (ct, key) \<and> length ct = 1025 \<and>
    ntru_hash env [([1], 1), (input, 32), (ct, 1025)] = Some key \<and>
    recover_secret env sk ct = Some input \<and> ntrulpr_653_decapsulate env sk ct = ntru_hash env [([0], 1), (input, 32), (ct, 1025)]"
proof -
  obtain a seed enc rho' kh g ag where K: "sk = a @ pk @ rho' @ kh" "pk = seed @ enc" "length a = 164" "length seed = 32" "length enc = 865"
    "length rho' = 32" "length kh = 32" "ntrulpr_653_expand_seed env pk (local_halves env) = Some g" "smalls g" "short 252 (digits a)"
    "ntrulpr_653_decode_poly_round (local_words env) enc (local_halves env) = Some ag" "noisy_product (digits a) g ag"
    "ntru_hash env [([4], 1), (pk, 897)] = Some kh" using k unfolding key_pair_def by blast
  have ag: "smalls ag" using K(12) by (simp add: noisy_product_def)
  have pk: "length pk = 897" "drop 32 pk = enc" using K(2,4,5) by simp_all
  obtain ct where c: "ciphertext env g ag input ct" "\<And>out cache. length out = 1025 \<Longrightarrow> cache = None \<or> cache = Some kh \<Longrightarrow>
      ntrulpr_653_encapsulate_internal env pk input cache out = Some ct"
    using internal_ok [OF env pk(1) len(1) K(8,9) _ ag K(13,7)] K(11) pk(2) by auto
  have l: "length ct = 1025" using c(1) by (auto simp: ciphertext_def)
  have s: "recover_secret env sk ct = Some input"
    unfolding K(1) by (rule recover_ok [OF env K(3,10,12) c(1) len(1)])
  obtain key where key: "ntru_hash env [([1], 1), (input, 32), (ct, 1025)] = Some key"
    using ntru_hash_ok [OF env, of "[([1], 1), (input, 32), (ct, 1025)]"] len l by auto
  have rho: "field sk (164 + 897) 32 = Some rho'" using K(1-7) by (simp add: field_def)
  have "ntrulpr_653_decapsulate env sk ct = ntru_hash env [([0], 1), (input, 32), (ct, 1025)]"
    using decapsulate_eq [OF env k l s len(1) rho len(2)] c(2) [OF len(2)] by auto
  then show ?thesis using c(2) [OF len(2)] key s l by (simp add: ntrulpr_653_encapsulate_def kem_sizes)
qed

section \<open>Properties of the key exchange\<close>

text \<open>C21: key generation and encapsulation succeed on every seed and message, and decapsulation
  recovers the message; the re-encryption check passes, so that the session key of the receiver is
  a hash of the recovered message and not of the random string of the secret key.  The hash starts
  with the byte 0, while the sender's starts with 1.\<close>

theorem decapsulate_recovers_input:
  assumes "env_ok env" "length seed = 32" "length a_seed = 32" "length rho = 32" "length input = 32"
    and "length sk0 = 1125" "length pk0 = 897" "length ct0 = 1025"
  shows "\<exists>sk pk ct key. ntrulpr_653_gen_key env seed a_seed rho sk0 pk0 = Some (sk, pk) \<and>
    ntrulpr_653_encapsulate env input pk ct0 = Some (ct, key) \<and> ntru_hash env [([1], 1), (input, 32), (ct, 1025)] = Some key \<and>
    recover_secret env sk ct = Some input \<and>
    ntrulpr_653_decapsulate env sk ct = ntru_hash env [([0], 1), (input, 32), (ct, 1025)]"
  using gen_key_ok [OF assms(1-4,6,7)] exchange_ok [OF assms(1) _ assms(5,8)] by blast

lemma decapsulate_recovers_input_witness:
  "\<exists>sk pk ct key. ntrulpr_653_gen_key demo_ntru (replicate 32 1) (replicate 32 2) (replicate 32 3) (replicate 1125 0) (replicate 897 0) = Some (sk, pk) \<and>
    ntrulpr_653_encapsulate demo_ntru (replicate 32 5) pk (replicate 1025 0) = Some (ct, key) \<and>
    ntru_hash demo_ntru [([1], 1), (replicate 32 5, 32), (ct, 1025)] = Some key \<and> recover_secret demo_ntru sk ct = Some (replicate 32 5) \<and>
    ntrulpr_653_decapsulate demo_ntru sk ct = ntru_hash demo_ntru [([0], 1), (replicate 32 5, 32), (ct, 1025)]"
  by (rule decapsulate_recovers_input) (simp_all add: demo_ntru_ok)

end
