(* ===== verification/NtruTotal.thy ===== *)
theory NtruTotal
  imports NtruDecaps
begin

text \<open>
  Decapsulation never faults: on any ciphertext the decoder, the multiplication and the bit loop stay
  inside their arrays, also where the decoded coefficients are out of range.
\<close>

section \<open>The decoder on any bytes\<close>

lemma fetch_total:
  "k \<le> p \<Longrightarrow> p \<le> length enc \<Longrightarrow> length enc < 4294967296 \<Longrightarrow> \<exists>r'. fetch k enc r (of_nat p - 1) = Some (r', of_nat (p - k) - 1)"
proof (induction k arbitrary: p r)
  case (Suc k)
  then obtain p' where p': "p = Suc p'" by (cases p) simp_all
  then have "rd enc (of_nat p - 1) = Some (enc ! p')" using Suc.prems by (simp add: rd_def unat_of_nat_small)
  then show ?case using Suc.IH [of p'] Suc.prems p' by auto
qed simp

definition decoding :: "nat \<Rightarrow> u32 list \<times> u32 \<Rightarrow> bool" where
  "decoding p s \<longleftrightarrow> length (fst s) = 653 \<and> snd s = of_nat p - 1"

lemma decode_pair_total:
  assumes "decoding (p + k) s" "p + k \<le> length enc" "length enc = 865" "unat i < 326"
  shows "\<exists>s'. decode_pair enc M k i s = Some s' \<and> decoding p s'"
proof -
  obtain buf where s: "s = (buf, of_nat (p + k) - 1)" "length buf = 653" using assms(1) by (cases s) (simp add: decoding_def)
  obtain r' where "fetch k enc (buf ! unat i) (of_nat (p + k) - 1) = Some (r', of_nat p - 1)"
    using fetch_total [of k "p + k" enc "buf ! unat i"] assms(2,3) by auto
  moreover have "unat (i * 2) = unat i * 2" "unat (i * 2 + 1) = unat i * 2 + 1" using assms(4) by (simp_all add: unat_word_ariths)
  ultimately show ?thesis
    using s assms(4) by (auto simp: decode_pair_def rd_def wr_def decoding_def simp del: of_nat_add)
qed

lemma decode_level_total:
  assumes "decoding (p + n * k) s" "p + n * k \<le> length enc" "length enc = 865" "n \<le> 326" "0 < n" "N = of_nat n"
  shows "\<exists>s'. decode_level enc N M k s = Some s' \<and> decoding p s'"
proof -
  have "decoding (p + m * k) s \<Longrightarrow> m \<le> n \<Longrightarrow> \<exists>s'. down m (\<lambda>i. decode_pair enc M k (of_nat i)) s = Some s' \<and> decoding p s'" for m s
  proof (induction m arbitrary: s)
    case (Suc m)
    have "m * k \<le> n * k" "Suc m * k \<le> n * k" using Suc.prems(2) by (intro mult_le_mono1; simp)+
    then have le: "p + m * k + k \<le> length enc" using assms(2) by simp
    have "decoding (p + m * k + k) s" using Suc.prems(1) by (simp add: algebra_simps)
    moreover have "unat (of_nat m :: u32) < 326" using Suc.prems(2) assms(4) by (simp add: unat_of_nat_small)
    ultimately obtain s1 where "decode_pair enc M k (of_nat m) s = Some s1" "decoding (p + m * k) s1"
      using decode_pair_total [OF _ le assms(3)] by blast
    then show ?case using Suc.IH [of s1] Suc.prems(2) by simp
  qed simp
  from this [of n s] show ?thesis
    using assms(1,4-6) by (simp add: decode_level_def for_down_down unat_of_nat_small)
qed

lemma copy_item_total: "decoding p s \<Longrightarrow> unat i < 653 \<Longrightarrow> unat j < 653 \<Longrightarrow> \<exists>b. copy_item i j (fst s) = Some b \<and> decoding p (b, snd s)"
  by (auto simp: decoding_def copy_item_def rd_def wr_def)

lemma decode_final_total:
  assumes "length buf = 653" "length enc = 865"
  shows "\<exists>s. decode_final enc buf = Some s \<and> decoding 861 s"
proof -
  obtain r where 1: "fetch 2 enc (ucast (enc ! 864)) (of_nat 864 - 1) = Some (r, of_nat 862 - 1)"
    using fetch_total [of 2 864 enc "ucast (enc ! 864)"] assms(2) by auto
  obtain r' where 2: "fetch 1 enc (r mod 71) (of_nat 862 - 1) = Some (r', of_nat 861 - 1)"
    using fetch_total [of 1 862 enc "r mod 71"] assms(2) by auto
  show ?thesis using 1 2 assms by (auto simp: decode_final_def rd_def wr_def decoding_def)
qed

lemma decode_total:
  assumes buf: "length buf = 653" and enc: "length enc = 865" and poly: "length poly = 653"
  shows "\<exists>p. ntrulpr_653_decode_poly_round buf enc poly = Some p \<and> length p = 653"
proof -
  note pair = decode_pair_total [OF _ _ enc] and level = decode_level_total [OF _ _ enc]
  obtain b1 p1 where 1: "decode_final enc buf = Some (b1, p1)" "decoding 861 (b1, p1)" using decode_final_total [OF buf enc] by fastforce
  obtain b2 p2 where 2: "decode_pair enc 2953 1 2 (b1, p1) = Some (b2, p2)" "decoding 860 (b2, p2)"
    using pair [of 860 1 "(b1, p1)" 2 2953] 1 enc by force
  obtain b3 p3 where 3: "decode_pair enc 2953 2 1 (b2, p2) = Some (b3, p3)" "decoding 858 (b3, p3)"
    using pair [of 858 2 "(b2, p2)" 1 2953] 2 enc by force
  obtain b4 p4 where 4: "decode_pair enc 2953 2 0 (b3, p3) = Some (b4, p4)" "decoding 856 (b4, p4)"
    using pair [of 856 2 "(b3, p3)" 0 2953] 3 enc by force
  obtain c4 where 5: "copy_item 10 5 b4 = Some c4" "decoding 856 (c4, p4)" using copy_item_total [OF 4(2), of 10 5] by auto
  obtain b6 p6 where 6: "decode_level enc 5 13910 2 (c4, p4) = Some (b6, p6)" "decoding 846 (b6, p6)"
    using level [of 846 5 2 "(c4, p4)" 5 13910] 5 enc by force
  obtain c6 where 7: "copy_item 20 10 b6 = Some c6" "decoding 846 (c6, p6)" using copy_item_total [OF 6(2), of 20 10] by auto
  obtain b8 p8 where 8: "decode_level enc 10 1887 1 (c6, p6) = Some (b8, p8)" "decoding 836 (b8, p8)"
    using level [of 836 10 1 "(c6, p6)" 10 1887] 7 enc by force
  obtain c8 where 9: "copy_item 40 20 b8 = Some c8" "decoding 836 (c8, p8)" using copy_item_total [OF 8(2), of 40 20] by auto
  obtain b10 p10 where 10: "decode_level enc 20 695 1 (c8, p8) = Some (b10, p10)" "decoding 816 (b10, p10)"
    using level [of 816 20 1 "(c8, p8)" 20 695] 9 enc by force
  obtain b11 p11 where 11: "decode_pair enc 6745 2 40 (b10, p10) = Some (b11, p11)" "decoding 814 (b11, p11)"
    using pair [of 814 2 "(b10, p10)" 40 6745] 10 enc by force
  obtain b12 p12 where 12: "decode_level enc 40 6745 2 (b11, p11) = Some (b12, p12)" "decoding 734 (b12, p12)"
    using level [of 734 40 2 "(b11, p11)" 40 6745] 11 enc by force
  obtain b13 p13 where 13: "decode_pair enc 1314 1 81 (b12, p12) = Some (b13, p13)" "decoding 733 (b13, p13)"
    using pair [of 733 1 "(b12, p12)" 81 1314] 12 enc by force
  obtain b14 p14 where 14: "decode_level enc 81 1314 1 (b13, p13) = Some (b14, p14)" "decoding 652 (b14, p14)"
    using level [of 652 81 1 "(b13, p13)" 81 1314] 13 enc by force
  obtain c14 where 15: "copy_item 326 163 b14 = Some c14" "decoding 652 (c14, p14)" using copy_item_total [OF 14(2), of 326 163] by auto
  obtain b16 p16 where 16: "decode_level enc 163 9277 2 (c14, p14) = Some (b16, p16)" "decoding 326 (b16, p16)"
    using level [of 326 163 2 "(c14, p14)" 163 9277] 15 enc by force
  obtain c16 where 17: "copy_item 652 326 b16 = Some c16" "decoding 326 (c16, p16)" using copy_item_total [OF 16(2), of 652 326] by auto
  obtain b18 p18 where 18: "decode_level enc 326 1541 1 (c16, p16) = Some (b18, p18)" "decoding 0 (b18, p18)"
    using level [of 0 326 1 "(c16, p16)" 326 1541] 17 enc by force
  let ?I = "\<lambda>_ s. length (fst s) = 653 \<and> length (snd s) = 653"
  have u: "unat (653 :: u32) = 653" by simp
  have "\<exists>s. up 653 (\<lambda>k. decode_convert (of_nat k)) (b18, poly) = Some s \<and> ?I 653 s"
  proof (rule up_inv [where I = ?I])
    fix k and s :: "u32 list \<times> u16 list" assume "k < (653 :: nat)" "?I k s"
    then show "\<exists>s'. decode_convert (of_nat k) s = Some s' \<and> ?I (Suc k) s'"
      by (cases s) (simp add: decode_convert_def rd_def wr_def unat_of_nat_small Let_def)
  qed (use 18(2) poly in \<open>simp add: decoding_def\<close>)
  then obtain b19 p where "for_up 0 653 decode_convert (b18, poly) = Some (b19, p)" "length p = 653" unfolding for_up_0 u by auto
  then show ?thesis
    unfolding ntrulpr_653_decode_poly_round_def
    by (simp only: 1(1) 2(1) 3(1) 4(1) 5(1) 6(1) 7(1) 8(1) 9(1) 10(1) 11(1) 12(1) 13(1) 14(1) 15(1) 16(1) 17(1) 18(1)
        Option.bind.bind_lunit prod.case) simp
qed

section \<open>The multiplication on any coefficients\<close>

lemma up_length:
  assumes "\<And>k xs. k < n \<Longrightarrow> length xs = m \<Longrightarrow> \<exists>ys. f k xs = Some ys \<and> length ys = m" "length xs = m"
  shows "\<exists>ys. up n f xs = Some ys \<and> length ys = m"
  using up_inv [where I = "\<lambda>_ ys. length ys = m", of xs n f] assms by blast

lemma mult_add_total: "unat j < length gx \<Longrightarrow> unat k < length out \<Longrightarrow> \<exists>ys. mult_add c gx j k out = Some ys \<and> length ys = length out"
  by (simp add: mult_add_def rd_def wr_def)

lemma mult_round_total:
  assumes i: "0 < i" "i < 653" and a: "164 \<le> length a" and n: "n \<le> 653" "length gx = 653" "length out = n"
  shows "\<exists>gx' out'. mult_round a (of_nat n) (of_nat i) (gx, out) = Some (gx', out') \<and> length gx' = 653 \<and> length out' = n"
proof -
  obtain c where c: "short_coeff a (of_nat i) = Some c" using short_coeff_Some [OF i(2) a] by blast
  have "\<exists>ys. up (min i n) (\<lambda>k. mult_add c gx (653 - of_nat i + of_nat k) (of_nat k)) out = Some ys \<and> length ys = n"
  proof (rule up_length [OF _ n(3)])
    fix k and xs :: "u16 list" assume k: "k < min i n" and l: "length xs = n"
    have "unat (653 - of_nat i + of_nat k :: u32) = 653 - i + k" using k i n by (intro unat_P_plus) simp_all
    moreover have "653 - i + k < 653" using k i by linarith
    ultimately have "unat (653 - of_nat i + of_nat k :: u32) < 653" by presburger
    then show "\<exists>ys. mult_add c gx (653 - of_nat i + of_nat k) (of_nat k) xs = Some ys \<and> length ys = n"
      using mult_add_total [of "653 - of_nat i + of_nat k" gx "of_nat k" xs c] k l n by (simp add: unat_of_nat_small)
  qed
  then obtain o1 where 1: "up (min i n) (\<lambda>k. mult_add c gx (653 - of_nat i + of_nat k) (of_nat k)) out = Some o1" "length o1 = n" by blast
  have "\<exists>ys. up (n - i) (\<lambda>k. mult_add c gx (of_nat k) (of_nat (i + k))) o1 = Some ys \<and> length ys = n"
  proof (rule up_length [OF _ 1(2)])
    fix k and xs :: "u16 list" assume k: "k < n - i" and l: "length xs = n"
    then have "unat (of_nat k :: u32) = k" "unat (of_nat (i + k) :: u32) = i + k" using n i unat_of_nat_small by (simp_all del: of_nat_add)
    then show "\<exists>ys. mult_add c gx (of_nat k) (of_nat (i + k)) xs = Some ys \<and> length ys = n"
      using mult_add_total [of "of_nat k" gx "of_nat (i + k)" xs c] k l n by (simp del: of_nat_add)
  qed
  then obtain o2 where 2: "up (n - i) (\<lambda>k. mult_add c gx (of_nat k) (of_nat (i + k))) o1 = Some o2" "length o2 = n" by blast
  have u: "unat (653 - of_nat i :: u32) = 653 - i" by (rule unat_P_minus [OF i(2)])
  have u': "unat (653 - of_nat i - 1 :: u32) = 652 - i" using u i by (subst unat_minus_one) (auto simp: word_unat_eq_iff)
  have "\<exists>gx'. linear_term gx (653 - of_nat i - 1) (653 - of_nat i) = Some gx' \<and> length gx' = 653"
  proof -
    have "unat (653 - of_nat i - 1 :: u32) < length gx" "unat (653 - of_nat i :: u32) < length gx" unfolding u u' using i n(2) by simp_all
    then show ?thesis using n(2) by (simp only: linear_term_def rd_Some wr_Some Option.bind.bind_lunit) simp
  qed
  then obtain gx' where "linear_term gx (653 - of_nat i - 1) (653 - of_nat i) = Some gx'" "length gx' = 653" by blast
  then show ?thesis
    by (simp only: mult_round_def NTRU_LPR_P_def prod.case c(1) Option.bind.bind_lunit upper_loop [OF i n(1)] lower_loop [OF i n(1)] 1(1) 2(1))
      (use 2(2) in simp)
qed

lemma mult_total:
  assumes g: "length g = 653" and a: "164 \<le> length a" and n: "n \<le> 653" "length out = n"
  shows "\<exists>out'. ntrulpr_653_poly_mult_short g a (of_nat n) out = Some out' \<and> length out' = n"
proof -
  have un: "unat (of_nat n :: u32) = n" using n(1) by (simp add: unat_of_nat_small)
  have "\<exists>ys. up n (\<lambda>k. mult_set (ucast (a ! 0) AND 3) g (of_nat k)) (replicate n 0) = Some ys \<and> length ys = n"
    by (rule up_length) (use n(1) g in \<open>auto simp: mult_set_def rd_def wr_def unat_of_nat_small\<close>)
  then obtain o0 where 0: "for_up 0 (of_nat n) (mult_set (ucast (a ! 0) AND 3) g) (replicate n 0) = Some o0" "length o0 = n"
    unfolding for_up_0 un by blast
  have "\<exists>gx. linear_term g (653 - 1) 0 = Some gx \<and> length gx = 653" using g by (auto simp: linear_term_def rd_def wr_def)
  then obtain gx where gx: "linear_term g (653 - 1) 0 = Some gx" "length gx = 653" by blast
  let ?I = "\<lambda>_ s. length (fst s) = 653 \<and> length (snd s) = n"
  have loop: "for_up 1 653 (mult_round a (of_nat n)) (gx, o0) = up 652 (\<lambda>k. mult_round a (of_nat n) (1 + of_nat k)) (gx, o0)"
  proof (rule for_c_up)
    fix k :: nat assume "k < 652"
    then have "unat (1 + of_nat k :: u32) = 1 + k" using unat_of_nat_small [of "1 + k"] by simp
    then show "1 + of_nat k < (653 :: u32)" using \<open>k < 652\<close> by (simp add: word_less_nat_alt)
  qed simp
  have "\<exists>s. up 652 (\<lambda>k. mult_round a (of_nat n) (1 + of_nat k)) (gx, o0) = Some s \<and> ?I 652 s"
  proof (rule up_inv [where I = ?I])
    fix k and s :: "u16 list \<times> u16 list" assume k: "k < (652 :: nat)" and I: "?I k s"
    have "(1 + of_nat k :: u32) = of_nat (Suc k)" by simp
    then show "\<exists>s'. mult_round a (of_nat n) (1 + of_nat k) s = Some s' \<and> ?I (Suc k) s'"
      using mult_round_total [of "Suc k" a n "fst s" "snd s"] k I a n(1) by fastforce
  qed (use gx(2) 0(2) in simp)
  then obtain gx' out' where "for_up 1 653 (mult_round a (of_nat n)) (gx, o0) = Some (gx', out')" "length out' = n" unfolding loop by auto
  moreover have "rd a 0 = Some (a ! 0)" using a by (auto simp: rd_def)
  moreover have "zero_items out (of_nat n) = Some (replicate n 0)" using n(2) un by (simp add: zero_items_def)
  moreover have "copy_items g 653 = Some g" using g by (simp add: copy_items_def)
  ultimately show ?thesis
    unfolding ntrulpr_653_poly_mult_short_def NTRU_LPR_P_def
    by (simp only: Option.bind.bind_lunit Let_def 0(1) gx(1) prod.case) simp
qed

lemma recover_total:
  assumes env: "env_ok env" and sk: "164 \<le> length sk" and ct: "length ct = 1025"
  shows "\<exists>s. recover_secret env sk ct = Some s \<and> length s = 32"
proof -
  have len: "length (local_words env) = 653" "length (local_halves env) = 653" using env by (simp_all add: env_ok_def)
  have "length (take 865 ct) = 865" using ct by simp
  from decode_total [OF len(1) this len(2)] obtain b where
    b: "ntrulpr_653_decode_poly_round (local_words env) (take 865 ct) (local_halves env) = Some b" "length b = 653" by blast
  obtain ab where ab: "ntrulpr_653_poly_mult_short b sk 256 (take 256 (local_halves env)) = Some ab" "length ab = 256"
    using mult_total [OF b(2) sk, of 256 "take 256 (local_halves env)"] len(2) by auto
  have "\<exists>s. up 256 (\<lambda>k. recover_step ct ab (of_nat k)) (replicate 32 0) = Some s \<and> length s = 32"
  proof (rule up_length)
    fix k :: nat and s :: "u8 list" assume k: "k < 256" and l: "length s = 32"
    have "k div 8 < 32" "k div 2 < 128" using k by simp_all
    then show "\<exists>s'. recover_step ct ab (of_nat k) s = Some s' \<and> length s' = 32"
      using k l ct ab(2) by (simp add: recover_step_def rd_def wr_def unat_index Let_def)
  qed simp
  then show ?thesis using b(1) ab(1) ct by (simp add: recover_secret_def field_Some kem_sizes for_up_0)
qed

section \<open>Rejection\<close>

text \<open>C22: on every ciphertext of the right length decapsulation succeeds.  It encrypts the recovered
  secret again; where this gives another ciphertext, the session key depends on the secret only
  through the random string of the secret key.\<close>

theorem decapsulate_rejects:
  assumes "env_ok env" "key_pair env sk pk" "length ct = 1025" "length out = 1025"
  shows "\<exists>s ct' rho. recover_secret env sk ct = Some s \<and> ntrulpr_653_encapsulate_internal env pk s None out = Some ct' \<and>
    field sk 1061 32 = Some rho \<and>
    ntrulpr_653_decapsulate env sk ct =
      (if ct' = ct then ntru_hash env [([0], 1), (s, 32), (ct, 1025)] else ntru_hash env [([1], 1), (rho, 32), (ct, 1025)]) \<and>
    (\<exists>key. ntrulpr_653_decapsulate env sk ct = Some key \<and> length key = 32)"
proof -
  note k = key_pair_fields [OF assms(2)]
  obtain s where s: "recover_secret env sk ct = Some s" "length s = 32" using recover_total [OF assms(1) _ assms(3), of sk] k(2) by auto
  obtain rho where rho: "field sk (164 + 897) 32 = Some rho" "length rho = 32" using k(4) by (auto simp: kem_sizes)
  obtain ct' where c: "ntrulpr_653_encapsulate_internal env pk s None out = Some ct'" "ntrulpr_653_decapsulate env sk ct =
      (if ct' = ct then ntru_hash env [([0], 1), (s, 32), (ct, 1025)] else ntru_hash env [([1], 1), (rho, 32), (ct, 1025)])"
    using decapsulate_eq [OF assms(1-3) s rho(1) assms(4)] by blast
  have "\<exists>key. ntru_hash env [([x], 1), (y, 32), (ct, 1025)] = Some key \<and> length key = 32" if "length y = 32" for x y
    using ntru_hash_ok [OF assms(1), of "[([x], 1), (y, 32), (ct, 1025)]"] that assms(3) by simp
  then have "\<exists>key. ntrulpr_653_decapsulate env sk ct = Some key \<and> length key = 32" using c(2) s(2) rho(2) by simp
  moreover have "field sk 1061 32 = Some rho" using rho(1) by simp
  ultimately show ?thesis using s(1) c by blast
qed

lemma decapsulate_rejects_witness:
  "\<exists>sk pk. ntrulpr_653_gen_key demo_ntru (replicate 32 1) (replicate 32 2) (replicate 32 3) (replicate 1125 0) (replicate 897 0) = Some (sk, pk) \<and>
    (\<exists>s ct' rho. recover_secret demo_ntru sk (replicate 1025 6) = Some s \<and>
      ntrulpr_653_encapsulate_internal demo_ntru pk s None (replicate 1025 0) = Some ct' \<and> field sk 1061 32 = Some rho \<and>
      ntrulpr_653_decapsulate demo_ntru sk (replicate 1025 6) =
        (if ct' = replicate 1025 6 then ntru_hash demo_ntru [([0], 1), (s, 32), (replicate 1025 6, 1025)]
         else ntru_hash demo_ntru [([1], 1), (rho, 32), (replicate 1025 6, 1025)]) \<and>
      (\<exists>key. ntrulpr_653_decapsulate demo_ntru sk (replicate 1025 6) = Some key \<and> length key = 32))"
proof -
  obtain sk pk where k: "ntrulpr_653_gen_key demo_ntru (replicate 32 1) (replicate 32 2) (replicate 32 3) (replicate 1125 0) (replicate 897 0) = Some (sk, pk)"
    "key_pair demo_ntru sk pk"
    using gen_key_ok [OF demo_ntru_ok, of "replicate 32 1" "replicate 32 2" "replicate 32 3" "replicate 1125 0" "replicate 897 0"] by auto
  from decapsulate_rejects [OF demo_ntru_ok k(2), of "replicate 1025 6" "replicate 1025 0"] k(1) show ?thesis by simp
qed

end
