(* ===== verification/Fips.thy ===== *)
theory Fips
  imports Sponge ByteMem
begin

text \<open>
  SHA-3, SHAKE, cSHAKE, KMAC and TupleHash of \<open>src/crypto/hash/keccak/fips202.c\<close>, over the sponge
  of theory \<open>Sponge\<close>.  A state is the 200 bytes of the array; an output buffer is the list of the
  bytes written to it.
\<close>

section \<open>Encodings\<close>

definition byte_len :: "u64 \<Rightarrow> u32 option" where
  "byte_len n = do {
     (len, n) \<leftarrow> while_c (\<lambda>(len, n). 0 < n) (\<lambda>(len, n). Some (len + 1, drop_bit 8 n)) (0, n);
     Some (if len = 0 then 1 else len) }"

text \<open>The bytes of a word in memory, and \<open>__builtin_bswap64\<close>.\<close>

definition mem_bytes :: "u64 \<Rightarrow> u8 list" where
  "mem_bytes n = map (byte_of n) [0..<8]"

definition bswap64 :: "u64 \<Rightarrow> u64" where
  "bswap64 n = word_of_bytes (rev (mem_bytes n))"

definition left_encode :: "perm \<Rightarrow> u8 list \<Rightarrow> u32 \<Rightarrow> u64 \<Rightarrow> u32 \<Rightarrow> (u8 list \<times> u32) option" where
  "left_encode permute state curr_offset n rate = do {
     l \<leftarrow> byte_len n;
     (state, curr_offset) \<leftarrow> sponge_keccak_1600_absorb permute state curr_offset [ucast l] 1 rate;
     let n = drop_bit (unat (8 * (8 - l))) (bswap64 n);
     sponge_keccak_1600_absorb permute state curr_offset (mem_bytes n) (ucast l) rate }"

definition right_encode :: "perm \<Rightarrow> u8 list \<Rightarrow> u32 \<Rightarrow> u64 \<Rightarrow> u32 \<Rightarrow> (u8 list \<times> u32) option" where
  "right_encode permute state curr_offset n rate = do {
     l \<leftarrow> byte_len n;
     let n = drop_bit (unat (8 * (8 - l))) (bswap64 n);
     (state, curr_offset) \<leftarrow> sponge_keccak_1600_absorb permute state curr_offset (mem_bytes n) (ucast l) rate;
     sponge_keccak_1600_absorb permute state curr_offset [ucast l] 1 rate }"

text \<open>The two bytes of \<open>pad\<close> and the end of a padded part.\<close>

definition absorb_pad :: "perm \<Rightarrow> u8 list \<Rightarrow> u32 \<Rightarrow> u32 \<Rightarrow> (u8 list \<times> u32) option" where
  "absorb_pad permute state curr_offset rate =
     (let pad = ucast (1 + push_bit 8 rate) :: u16
      in sponge_keccak_1600_absorb permute state curr_offset [ucast pad, ucast (drop_bit 8 pad)] 2 rate)"

definition end_pad :: "perm \<Rightarrow> u8 list \<Rightarrow> u32 \<Rightarrow> u8 list" where
  "end_pad permute state curr_offset = (if curr_offset \<noteq> 0 then permute state else state)"

section \<open>SHA-3 and SHAKE\<close>

definition sha3_prepare_msg :: "perm \<Rightarrow> u8 list \<Rightarrow> u8 list \<Rightarrow> u64 \<Rightarrow> u8 \<Rightarrow> u32 \<Rightarrow> u8 list option" where
  "sha3_prepare_msg permute state data len final_byte rate = do {
     (state, curr_offset) \<leftarrow> sponge_keccak_1600_absorb permute state 0 data len rate;
     sponge_keccak_1600_finalize permute state curr_offset final_byte rate }"

definition sha3_template :: "perm \<Rightarrow> u8 list \<Rightarrow> u64 \<Rightarrow> u64 \<Rightarrow> u8 \<Rightarrow> u32 \<Rightarrow> u8 list option" where
  "sha3_template permute data len out_len final_byte rate = do {
     state \<leftarrow> sha3_prepare_msg permute (replicate 200 0) data len final_byte rate;
     (state, curr_offset, out) \<leftarrow> sponge_keccak_1600_squeeze permute state 0 out_len rate;
     Some out }"

definition sha3_224 :: "perm \<Rightarrow> u8 list \<Rightarrow> u64 \<Rightarrow> u8 list option" where
  "sha3_224 permute data len = sha3_template permute data len 28 (2 + 4) 144"

definition sha3_256 :: "perm \<Rightarrow> u8 list \<Rightarrow> u64 \<Rightarrow> u8 list option" where
  "sha3_256 permute data len = sha3_template permute data len 32 (2 + 4) 136"

definition sha3_384 :: "perm \<Rightarrow> u8 list \<Rightarrow> u64 \<Rightarrow> u8 list option" where
  "sha3_384 permute data len = sha3_template permute data len 48 (2 + 4) 104"

definition sha3_512 :: "perm \<Rightarrow> u8 list \<Rightarrow> u64 \<Rightarrow> u8 list option" where
  "sha3_512 permute data len = sha3_template permute data len 64 (2 + 4) 72"

definition shake128 :: "perm \<Rightarrow> u8 list \<Rightarrow> u64 \<Rightarrow> u64 \<Rightarrow> u8 list option" where
  "shake128 permute data len out_len = sha3_template permute data len out_len (15 + 16) 168"

definition shake256 :: "perm \<Rightarrow> u8 list \<Rightarrow> u64 \<Rightarrow> u64 \<Rightarrow> u8 list option" where
  "shake256 permute data len out_len = sha3_template permute data len out_len (15 + 16) 136"

definition shake128_xof_prepare :: "perm \<Rightarrow> u8 list \<Rightarrow> u8 list \<Rightarrow> u64 \<Rightarrow> u8 list option" where
  "shake128_xof_prepare permute state data len = sha3_prepare_msg permute state data len (15 + 16) 168"

definition shake128_xof_squeeze :: "perm \<Rightarrow> u8 list \<Rightarrow> u32 \<Rightarrow> u64 \<Rightarrow> (u8 list \<times> u32 \<times> u8 list) option" where
  "shake128_xof_squeeze permute state curr_offset out_len = sponge_keccak_1600_squeeze permute state curr_offset out_len 168"

definition shake256_xof_prepare :: "perm \<Rightarrow> u8 list \<Rightarrow> u8 list \<Rightarrow> u64 \<Rightarrow> u8 list option" where
  "shake256_xof_prepare permute state data len = sha3_prepare_msg permute state data len (15 + 16) 136"

definition shake256_xof_squeeze :: "perm \<Rightarrow> u8 list \<Rightarrow> u32 \<Rightarrow> u64 \<Rightarrow> (u8 list \<times> u32 \<times> u8 list) option" where
  "shake256_xof_squeeze permute state curr_offset out_len = sponge_keccak_1600_squeeze permute state curr_offset out_len 136"

section \<open>cSHAKE\<close>

text \<open>A string argument is a list and its length.\<close>

definition cshake_prepare_state :: "perm \<Rightarrow> u8 list \<Rightarrow> u8 list \<times> u64 \<Rightarrow> u8 list \<times> u64 \<Rightarrow> u32 \<Rightarrow> u8 list option" where
  "cshake_prepare_state permute state n s rate = do {
     (state, curr_offset) \<leftarrow> absorb_pad permute state 0 rate;
     (state, curr_offset) \<leftarrow> left_encode permute state curr_offset (push_bit 3 (snd n)) rate;
     (state, curr_offset) \<leftarrow> sponge_keccak_1600_absorb permute state curr_offset (fst n) (snd n) rate;
     (state, curr_offset) \<leftarrow> left_encode permute state curr_offset (push_bit 3 (snd s)) rate;
     (state, curr_offset) \<leftarrow> sponge_keccak_1600_absorb permute state curr_offset (fst s) (snd s) rate;
     Some (end_pad permute state curr_offset) }"

definition cshake_template ::
  "perm \<Rightarrow> u8 list \<times> u64 \<Rightarrow> u8 list \<times> u64 \<Rightarrow> u8 list \<Rightarrow> u64 \<Rightarrow> u64 \<Rightarrow> u8 \<Rightarrow> u32 \<Rightarrow> u8 list option" where
  "cshake_template permute n s data len out_len final_byte rate = do {
     state \<leftarrow> cshake_prepare_state permute (replicate 200 0) n s rate;
     state \<leftarrow> sha3_prepare_msg permute state data len final_byte rate;
     (state, curr_offset, out) \<leftarrow> sponge_keccak_1600_squeeze permute state 0 out_len rate;
     Some out }"

definition cshake128 :: "perm \<Rightarrow> u8 list \<times> u64 \<Rightarrow> u8 list \<times> u64 \<Rightarrow> u8 list \<Rightarrow> u64 \<Rightarrow> u64 \<Rightarrow> u8 list option" where
  "cshake128 permute n s data len out_len =
     (if snd n = 0 \<and> snd s = 0 then shake128 permute data len out_len
      else cshake_template permute n s data len out_len (0 + 4) 168)"

definition cshake256 :: "perm \<Rightarrow> u8 list \<times> u64 \<Rightarrow> u8 list \<times> u64 \<Rightarrow> u8 list \<Rightarrow> u64 \<Rightarrow> u64 \<Rightarrow> u8 list option" where
  "cshake256 permute n s data len out_len =
     (if snd n = 0 \<and> snd s = 0 then shake256 permute data len out_len
      else cshake_template permute n s data len out_len (0 + 4) 136)"

definition cshake128_xof_prepare :: "perm \<Rightarrow> u8 list \<Rightarrow> u8 list \<times> u64 \<Rightarrow> u8 list \<times> u64 \<Rightarrow> u8 list \<Rightarrow> u64 \<Rightarrow> u8 list option" where
  "cshake128_xof_prepare permute state n s data len =
     (if snd n = 0 \<and> snd s = 0 then shake128_xof_prepare permute state data len
      else do {
        state \<leftarrow> cshake_prepare_state permute state n s 168;
        sha3_prepare_msg permute state data len (0 + 4) 168 })"

definition cshake128_xof_squeeze :: "perm \<Rightarrow> u8 list \<Rightarrow> u32 \<Rightarrow> u64 \<Rightarrow> (u8 list \<times> u32 \<times> u8 list) option" where
  "cshake128_xof_squeeze permute state curr_offset out_len = sponge_keccak_1600_squeeze permute state curr_offset out_len 168"

definition cshake256_xof_prepare :: "perm \<Rightarrow> u8 list \<Rightarrow> u8 list \<times> u64 \<Rightarrow> u8 list \<times> u64 \<Rightarrow> u8 list \<Rightarrow> u64 \<Rightarrow> u8 list option" where
  "cshake256_xof_prepare permute state n s data len =
     (if snd n = 0 \<and> snd s = 0 then shake256_xof_prepare permute state data len
      else do {
        state \<leftarrow> cshake_prepare_state permute state n s 136;
        sha3_prepare_msg permute state data len (0 + 4) 136 })"

definition cshake256_xof_squeeze :: "perm \<Rightarrow> u8 list \<Rightarrow> u32 \<Rightarrow> u64 \<Rightarrow> (u8 list \<times> u32 \<times> u8 list) option" where
  "cshake256_xof_squeeze permute state curr_offset out_len = sponge_keccak_1600_squeeze permute state curr_offset out_len 136"

section \<open>KMAC\<close>

definition kmac_prepare_state :: "perm \<Rightarrow> u8 list \<Rightarrow> u8 list \<times> u64 \<Rightarrow> u32 \<Rightarrow> u8 list option" where
  "kmac_prepare_state permute state s rate = cshake_prepare_state permute state (map (of_nat \<circ> of_char) ''KMAC'', 4) s rate"

definition kmac_prepare_key :: "perm \<Rightarrow> u8 list \<Rightarrow> u8 list \<Rightarrow> u64 \<Rightarrow> u32 \<Rightarrow> u8 list option" where
  "kmac_prepare_key permute state key key_len rate = do {
     (state, curr_offset) \<leftarrow> absorb_pad permute state 0 rate;
     (state, curr_offset) \<leftarrow> left_encode permute state curr_offset (push_bit 3 key_len) rate;
     (state, curr_offset) \<leftarrow> sponge_keccak_1600_absorb permute state curr_offset key key_len rate;
     Some (end_pad permute state curr_offset) }"

definition kmac_prepare_msg :: "perm \<Rightarrow> u8 list \<Rightarrow> u8 list \<Rightarrow> u64 \<Rightarrow> u64 \<Rightarrow> u8 \<Rightarrow> u32 \<Rightarrow> u8 list option" where
  "kmac_prepare_msg permute state data len out_len final_byte rate = do {
     (state, curr_offset) \<leftarrow> sponge_keccak_1600_absorb permute state 0 data len rate;
     (state, curr_offset) \<leftarrow> right_encode permute state curr_offset (push_bit 3 out_len) rate;
     sponge_keccak_1600_finalize permute state curr_offset final_byte rate }"

definition kmac_template ::
  "perm \<Rightarrow> u8 list \<times> u64 \<Rightarrow> u8 list \<Rightarrow> u64 \<Rightarrow> u8 list \<Rightarrow> u64 \<Rightarrow> u64 \<Rightarrow> u8 \<Rightarrow> u32 \<Rightarrow> u8 list option" where
  "kmac_template permute s key key_len data len out_len final_byte rate = do {
     state \<leftarrow> kmac_prepare_state permute (replicate 200 0) s rate;
     state \<leftarrow> kmac_prepare_key permute state key key_len rate;
     state \<leftarrow> kmac_prepare_msg permute state data len out_len final_byte rate;
     (state, curr_offset, out) \<leftarrow> sponge_keccak_1600_squeeze permute state 0 out_len rate;
     Some out }"

definition kmac128 :: "perm \<Rightarrow> u8 list \<times> u64 \<Rightarrow> u8 list \<Rightarrow> u64 \<Rightarrow> u8 list \<Rightarrow> u64 \<Rightarrow> u64 \<Rightarrow> u8 list option" where
  "kmac128 permute s key key_len data len out_len = kmac_template permute s key key_len data len out_len (0 + 4) 168"

definition kmac256 :: "perm \<Rightarrow> u8 list \<times> u64 \<Rightarrow> u8 list \<Rightarrow> u64 \<Rightarrow> u8 list \<Rightarrow> u64 \<Rightarrow> u64 \<Rightarrow> u8 list option" where
  "kmac256 permute s key key_len data len out_len = kmac_template permute s key key_len data len out_len (0 + 4) 136"

definition kmac128_xof_prepare :: "perm \<Rightarrow> u8 list \<Rightarrow> u8 list \<times> u64 \<Rightarrow> u8 list \<Rightarrow> u64 \<Rightarrow> u8 list \<Rightarrow> u64 \<Rightarrow> u8 list option" where
  "kmac128_xof_prepare permute state s key key_len data len = do {
     state \<leftarrow> kmac_prepare_state permute state s 168;
     state \<leftarrow> kmac_prepare_key permute state key key_len 168;
     kmac_prepare_msg permute state data len 0 (0 + 4) 168 }"

definition kmac128_xof_squeeze :: "perm \<Rightarrow> u8 list \<Rightarrow> u32 \<Rightarrow> u64 \<Rightarrow> (u8 list \<times> u32 \<times> u8 list) option" where
  "kmac128_xof_squeeze permute state curr_offset out_len = sponge_keccak_1600_squeeze permute state curr_offset out_len 168"

definition kmac256_xof_prepare :: "perm \<Rightarrow> u8 list \<Rightarrow> u8 list \<times> u64 \<Rightarrow> u8 list \<Rightarrow> u64 \<Rightarrow> u8 list \<Rightarrow> u64 \<Rightarrow> u8 list option" where
  "kmac256_xof_prepare permute state s key key_len data len = do {
     state \<leftarrow> kmac_prepare_state permute state s 136;
     state \<leftarrow> kmac_prepare_key permute state key key_len 136;
     kmac_prepare_msg permute state data len 0 (0 + 4) 136 }"

definition kmac256_xof_squeeze :: "perm \<Rightarrow> u8 list \<Rightarrow> u32 \<Rightarrow> u64 \<Rightarrow> (u8 list \<times> u32 \<times> u8 list) option" where
  "kmac256_xof_squeeze permute state curr_offset out_len = sponge_keccak_1600_squeeze permute state curr_offset out_len 136"

section \<open>TupleHash\<close>

definition tuplehash_prepare_state :: "perm \<Rightarrow> u8 list \<Rightarrow> u8 list \<times> u64 \<Rightarrow> u32 \<Rightarrow> u8 list option" where
  "tuplehash_prepare_state permute state s rate = cshake_prepare_state permute state (map (of_nat \<circ> of_char) ''TupleHash'', 9) s rate"

definition tuplehash_add_msg :: "perm \<Rightarrow> u8 list \<Rightarrow> u32 \<Rightarrow> u8 list \<Rightarrow> u64 \<Rightarrow> u32 \<Rightarrow> (u8 list \<times> u32) option" where
  "tuplehash_add_msg permute state curr_offset str len rate = do {
     (state, curr_offset) \<leftarrow> left_encode permute state curr_offset (push_bit 3 len) rate;
     sponge_keccak_1600_absorb permute state curr_offset str len rate }"

definition tuplehash_finalize :: "perm \<Rightarrow> u8 list \<Rightarrow> u32 \<Rightarrow> u64 \<Rightarrow> u8 \<Rightarrow> u32 \<Rightarrow> (u8 list \<times> u32) option" where
  "tuplehash_finalize permute state curr_offset out_len final_byte rate = do {
     (state, curr_offset) \<leftarrow> right_encode permute state curr_offset (push_bit 3 out_len) rate;
     state \<leftarrow> sponge_keccak_1600_finalize permute state curr_offset final_byte rate;
     Some (state, curr_offset) }"

text \<open>The loop over the strings of a tuple, which all three callers have.\<close>

definition tuplehash_add_all :: "perm \<Rightarrow> u8 list \<Rightarrow> u32 \<Rightarrow> u8 list list \<Rightarrow> u64 list \<Rightarrow> u64 \<Rightarrow> u32 \<Rightarrow> (u8 list \<times> u32) option" where
  "tuplehash_add_all permute state curr_offset str_list len_list num_of_str rate = do {
     (i, state, curr_offset) \<leftarrow> while_c (\<lambda>(i, state, curr_offset). i < num_of_str) (\<lambda>(i, state, curr_offset).
         if unat i < length str_list \<and> unat i < length len_list then do {
           (state, curr_offset) \<leftarrow> tuplehash_add_msg permute state curr_offset (str_list ! unat i) (len_list ! unat i) rate;
           Some (i + 1, state, curr_offset) }
         else None) (0 :: u64, state, curr_offset);
     Some (state, curr_offset) }"

definition tuplehash_template ::
  "perm \<Rightarrow> u8 list \<times> u64 \<Rightarrow> u8 list list \<Rightarrow> u64 list \<Rightarrow> u64 \<Rightarrow> u64 \<Rightarrow> u8 \<Rightarrow> u32 \<Rightarrow> u8 list option" where
  "tuplehash_template permute s str_list len_list num_of_str out_len final_byte rate = do {
     state \<leftarrow> tuplehash_prepare_state permute (replicate 200 0) s rate;
     (state, curr_offset) \<leftarrow> tuplehash_add_all permute state 0 str_list len_list num_of_str rate;
     (state, curr_offset) \<leftarrow> tuplehash_finalize permute state curr_offset out_len final_byte rate;
     (state, curr_offset, out) \<leftarrow> sponge_keccak_1600_squeeze permute state 0 out_len rate;
     Some out }"

definition tuplehash128 :: "perm \<Rightarrow> u8 list \<times> u64 \<Rightarrow> u8 list list \<Rightarrow> u64 list \<Rightarrow> u64 \<Rightarrow> u64 \<Rightarrow> u8 list option" where
  "tuplehash128 permute s str_list len_list num_of_str out_len = tuplehash_template permute s str_list len_list num_of_str out_len (0 + 4) 168"

definition tuplehash256 :: "perm \<Rightarrow> u8 list \<times> u64 \<Rightarrow> u8 list list \<Rightarrow> u64 list \<Rightarrow> u64 \<Rightarrow> u64 \<Rightarrow> u8 list option" where
  "tuplehash256 permute s str_list len_list num_of_str out_len = tuplehash_template permute s str_list len_list num_of_str out_len (0 + 4) 136"

definition tuplehash128_xof_prepare :: "perm \<Rightarrow> u8 list \<Rightarrow> u8 list \<times> u64 \<Rightarrow> u8 list list \<Rightarrow> u64 list \<Rightarrow> u64 \<Rightarrow> u8 list option" where
  "tuplehash128_xof_prepare permute state s str_list len_list num_of_str = do {
     state \<leftarrow> tuplehash_prepare_state permute state s 168;
     (state, curr_offset) \<leftarrow> tuplehash_add_all permute state 0 str_list len_list num_of_str 168;
     (state, curr_offset) \<leftarrow> tuplehash_finalize permute state curr_offset 0 (0 + 4) 168;
     Some state }"

definition tuplehash128_xof_squeeze :: "perm \<Rightarrow> u8 list \<Rightarrow> u32 \<Rightarrow> u64 \<Rightarrow> (u8 list \<times> u32 \<times> u8 list) option" where
  "tuplehash128_xof_squeeze permute state curr_offset out_len = sponge_keccak_1600_squeeze permute state curr_offset out_len 168"

definition tuplehash256_xof_prepare :: "perm \<Rightarrow> u8 list \<Rightarrow> u8 list \<times> u64 \<Rightarrow> u8 list list \<Rightarrow> u64 list \<Rightarrow> u64 \<Rightarrow> u8 list option" where
  "tuplehash256_xof_prepare permute state s str_list len_list num_of_str = do {
     state \<leftarrow> tuplehash_prepare_state permute state s 136;
     (state, curr_offset) \<leftarrow> tuplehash_add_all permute state 0 str_list len_list num_of_str 136;
     (state, curr_offset) \<leftarrow> tuplehash_finalize permute state curr_offset 0 (0 + 4) 136;
     Some state }"

definition tuplehash256_xof_squeeze :: "perm \<Rightarrow> u8 list \<Rightarrow> u32 \<Rightarrow> u64 \<Rightarrow> (u8 list \<times> u32 \<times> u8 list) option" where
  "tuplehash256_xof_squeeze permute state curr_offset out_len = sponge_keccak_1600_squeeze permute state curr_offset out_len 136"

end
