(* ===== verification/FipsSpec.thy ===== *)
theory FipsSpec
  imports Fips
begin

text \<open>
  The functions of FIPS 202 and SP 800-185 on byte strings: padding, the sponge that absorbs and
  squeezes whole blocks, and the encodings of numbers and strings.
\<close>

section \<open>The sponge of whole blocks\<close>

text \<open>Domain suffix and padding: at least one byte, at most a block.\<close>

definition pad10 :: "nat \<Rightarrow> nat \<Rightarrow> u8 \<Rightarrow> u8 list" where
  "pad10 rate len suffix =
     (let n = rate - len mod rate in if n = 1 then [suffix XOR 128] else suffix # replicate (n - 2) 0 @ [128])"

definition block :: "nat \<Rightarrow> 'a list \<Rightarrow> nat \<Rightarrow> 'a list" where
  "block rate xs i = take rate (drop (i * rate) xs)"

definition keccak_blocks :: "perm \<Rightarrow> nat \<Rightarrow> u8 list \<Rightarrow> u8 list" where
  "keccak_blocks permute rate xs =
     foldl (\<lambda>s i. permute (xored s 0 (block rate xs i))) (replicate 200 0) [0..<length xs div rate]"

definition keccak :: "perm \<Rightarrow> nat \<Rightarrow> u8 \<Rightarrow> u8 list \<Rightarrow> nat \<Rightarrow> u8 list" where
  "keccak permute rate suffix msg n =
     (let s = keccak_blocks permute rate (msg @ pad10 rate (length msg) suffix)
      in take n (concat (map (\<lambda>i. take rate ((permute ^^ i) s)) [0..<n div rate + 1])))"

section \<open>Encodings\<close>

text \<open>A number as bytes, the highest first, and a string with its length in bits before it.\<close>

fun octets :: "nat \<Rightarrow> u8 list" where
  "octets n = (if n < 256 then [of_nat n] else octets (n div 256) @ [of_nat (n mod 256)])"

declare octets.simps [simp del]

definition encode_left :: "nat \<Rightarrow> u8 list" where
  "encode_left n = of_nat (length (octets n)) # octets n"

definition encode_right :: "nat \<Rightarrow> u8 list" where
  "encode_right n = octets n @ [of_nat (length (octets n))]"

definition encode_string :: "u8 list \<Rightarrow> u8 list" where
  "encode_string s = encode_left (8 * length s) @ s"

definition bytepad :: "u8 list \<Rightarrow> nat \<Rightarrow> u8 list" where
  "bytepad x w = (let y = encode_left w @ x in y @ replicate ((w - length y mod w) mod w) 0)"

section \<open>The functions\<close>

definition cshake :: "perm \<Rightarrow> nat \<Rightarrow> u8 list \<Rightarrow> nat \<Rightarrow> u8 list \<Rightarrow> u8 list \<Rightarrow> u8 list" where
  "cshake permute rate x n name s =
     (if name = [] \<and> s = [] then keccak permute rate 31 x n
      else keccak permute rate 4 (bytepad (encode_string name @ encode_string s) rate @ x) n)"

definition kmac :: "perm \<Rightarrow> nat \<Rightarrow> u8 list \<Rightarrow> u8 list \<Rightarrow> nat \<Rightarrow> u8 list \<Rightarrow> u8 list" where
  "kmac permute rate key x n s =
     cshake permute rate (bytepad (encode_string key) rate @ x @ encode_right (8 * n)) n (map (of_nat \<circ> of_char) ''KMAC'') s"

definition tuplehash :: "perm \<Rightarrow> nat \<Rightarrow> u8 list list \<Rightarrow> nat \<Rightarrow> u8 list \<Rightarrow> u8 list" where
  "tuplehash permute rate xs n s =
     cshake permute rate (concat (map encode_string xs) @ encode_right (8 * n)) n (map (of_nat \<circ> of_char) ''TupleHash'') s"

section \<open>Blocks and bytes\<close>

text \<open>The byte-wise sponge that has taken whole blocks.\<close>

lemma absorb_whole:
  assumes p: "sponge_ok permute rate"
  shows "length s = 200 \<Longrightarrow> length xs = n * rate \<Longrightarrow>
    absorb_bytes permute rate (s, 0) xs = (foldl (\<lambda>s i. permute (xored s 0 (block rate xs i))) s [0..<n], 0) \<and>
    length (foldl (\<lambda>s i. permute (xored s 0 (block rate xs i))) s [0..<n]) = 200"
proof (induction n arbitrary: xs)
  case 0
  then show ?case by (simp add: absorb_bytes_def)
next
  case (Suc n)
  let ?ys = "take (n * rate) xs" and ?z = "drop (n * rate) xs"
  have r: "0 < rate" "rate \<le> 200" using p by (simp_all add: sponge_ok_def)
  have len: "length ?ys = n * rate" "length ?z = rate" using Suc.prems by simp_all
  have b: "block rate ?ys i = block rate xs i" if "i < n" for i
  proof -
    have "Suc i * rate \<le> n * rate" using that by (intro mult_le_mono1) simp
    then show ?thesis by (simp add: block_def drop_take min_def)
  qed
  have f: "foldl (\<lambda>s i. permute (xored s 0 (block rate ?ys i))) s [0..<n] = foldl (\<lambda>s i. permute (xored s 0 (block rate xs i))) s [0..<n]"
    by (rule foldl_cong) (simp_all add: b)
  note IH = Suc.IH [OF Suc.prems(1) len(1), unfolded f]
  let ?t = "foldl (\<lambda>s i. permute (xored s 0 (block rate xs i))) s [0..<n]"
  have z: "?z = block rate xs n" using Suc.prems(2) by (simp add: block_def)
  have "absorb_bytes permute rate (?t, 0) ?z = (permute (xored ?t 0 ?z), 0)"
    using absorb_full [of 0 ?z rate ?t permute] len(2) r IH by auto
  then have "absorb_bytes permute rate (s, 0) (?ys @ ?z) = (permute (xored ?t 0 ?z), 0)" unfolding absorb_append using IH by simp
  moreover have "length (permute (xored ?t 0 ?z)) = 200" using p IH len(2) r by (simp add: sponge_ok_def)
  ultimately show ?case by (simp add: z del: append_take_drop_id) (simp add: z [symmetric])
qed

lemma squeeze_blocks:
  assumes p: "sponge_ok permute rate"
  shows "length s = 200 \<Longrightarrow> snd (squeeze_bytes permute rate (s, 0) n) = take n (concat (map (\<lambda>i. take rate ((permute ^^ i) s)) [0..<n div rate + 1]))"
proof (induction n arbitrary: s rule: less_induct)
  case (less n)
  have r: "0 < rate" "rate \<le> 200" using p by (simp_all add: sponge_ok_def)
  show ?case
  proof (cases "n < rate")
    case True
    then show ?thesis using squeeze_run [of 0 n rate s permute] less.prems r by (simp add: min_def)
  next
    case False
    let ?m = "n - rate"
    have l: "length (permute s) = 200" using p less.prems by (simp add: sponge_ok_def)
    have m: "?m < n" "n = rate + ?m" "n div rate = Suc (?m div rate)" using False r by (simp_all add: le_div_geq)
    have "snd (squeeze_bytes permute rate (s, 0) (rate + ?m)) = take rate s @ snd (squeeze_bytes permute rate (s, rate) ?m)"
      unfolding squeeze_append using squeeze_run [of 0 rate rate s permute] less.prems r by (simp add: split_beta)
    also have "snd (squeeze_bytes permute rate (s, rate) ?m) = snd (squeeze_bytes permute rate (permute s, 0) ?m)"
      using squeeze_full [of ?m rate permute s] r by (cases "?m = 0") simp_all
    also have "\<dots> = take ?m (concat (map (\<lambda>i. take rate ((permute ^^ i) (permute s))) [0..<?m div rate + 1]))"
      by (rule less.IH [OF m(1) l])
    finally have e: "snd (squeeze_bytes permute rate (s, 0) n) =
        take rate s @ take ?m (concat (map (\<lambda>i. take rate ((permute ^^ Suc i) s)) [0..<?m div rate + 1]))"
      using m(2) by (simp add: funpow_swap1)
    have "concat (map (\<lambda>i. take rate ((permute ^^ i) s)) [0..<n div rate + 1]) =
        take rate s @ concat (map (\<lambda>i. take rate ((permute ^^ Suc i) s)) [0..<?m div rate + 1])"
      unfolding m(3) by (simp add: upt_conv_Cons map_Suc_upt [symmetric] comp_def del: upt_Suc)
    then show ?thesis using e m(2) less.prems r by simp
  qed
qed

end
