(* ===== verification/FipsProps.thy ===== *)
theory FipsProps
  imports FipsSpec
begin

text \<open>
  The functions of \<open>fips202.c\<close> compute the functions of theory \<open>FipsSpec\<close>.  The state is tracked
  through the bytes it has absorbed.

  The hash functions of \<open>fips202.c\<close> are those of FIPS 202 and SP 800-185.
\<close>

section \<open>What a state has absorbed\<close>

definition absorbed :: "perm \<Rightarrow> u32 \<Rightarrow> u8 list \<Rightarrow> u8 list \<Rightarrow> u32 \<Rightarrow> bool" where
  "absorbed permute rate bs s off \<longleftrightarrow> length s = 200 \<and> unat off = length bs mod unat rate \<and>
     absorb_bytes permute (unat rate) (replicate 200 0, 0) bs = (s, unat off)"

text \<open>A string argument: a pointer and a length in bytes that still fits when it counts bits.\<close>

definition arg :: "u8 list \<Rightarrow> u8 list \<Rightarrow> u64 \<Rightarrow> bool" where
  "arg x d n \<longleftrightarrow> unat n \<le> length d \<and> x = take (unat n) d \<and> unat n < 2 ^ 61"

lemma absorbed_Nil: "absorbed permute rate [] (replicate 200 0) 0"
  by (simp add: absorbed_def absorb_bytes_def)

lemma absorb_offset:
  assumes "0 < rate" "off < rate"
  shows "snd (absorb_bytes permute rate (s, off) bs) = (off + length bs) mod rate"
  using assms(2)
proof (induction bs arbitrary: s off)
  case (Cons b bs)
  then show ?case
    using Cons.IH [of 0 "permute (s[off := s ! off XOR b])"] Cons.IH [of "Suc off" "s[off := s ! off XOR b]"] assms(1)
    by (auto simp: absorb_bytes_def absorb_byte_def Let_def) (metis add_Suc mod_add_self1)
qed (simp add: absorb_bytes_def)

lemma rate_bounds: "sponge_ok permute rate \<Longrightarrow> 0 < rate" "sponge_ok permute rate \<Longrightarrow> rate \<le> 200"
  by (simp_all add: sponge_ok_def)

lemma absorb_step:
  assumes p: "sponge_ok permute (unat rate)" and a: "absorbed permute rate bs s off" and n: "unat n \<le> length d"
  shows "\<exists>s' off'. sponge_keccak_1600_absorb permute s off d n rate = Some (s', off') \<and> absorbed permute rate (bs @ take (unat n) d) s' off'"
proof -
  have off: "length s = 200" "unat off < unat rate" using a rate_bounds [OF p] by (simp_all add: absorbed_def)
  obtain s' off' where r: "sponge_keccak_1600_absorb permute s off d n rate = Some (s', off')"
    "(s', unat off') = absorb_bytes permute (unat rate) (s, unat off) (take (unat n) d)" using absorb_eq [OF p off n] by blast
  have "length s' = 200" using absorb_bytes_ok [OF p, of "(s, unat off)" "take (unat n) d"] off r(2) [symmetric] by simp
  moreover have e: "absorb_bytes permute (unat rate) (replicate 200 0, 0) (bs @ take (unat n) d) = (s', unat off')"
    using a r(2) by (simp add: absorbed_def absorb_append)
  moreover have "unat off' = length (bs @ take (unat n) d) mod unat rate"
    using absorb_offset [of "unat rate" 0 permute "replicate 200 0" "bs @ take (unat n) d"] rate_bounds [OF p] e by simp
  ultimately show ?thesis using r(1) by (simp add: absorbed_def)
qed

lemma absorb_all:
  "sponge_ok permute (unat rate) \<Longrightarrow> absorbed permute rate bs s off \<Longrightarrow> unat n = length d \<Longrightarrow>
    \<exists>s' off'. sponge_keccak_1600_absorb permute s off d n rate = Some (s', off') \<and> absorbed permute rate (bs @ d) s' off'"
  using absorb_step [of permute rate bs s off n d] by simp

section \<open>Padding\<close>

lemma length_pad10:
  assumes "0 < rate"
  shows "(len + length (pad10 (rate) len f)) mod rate = 0" "length (pad10 (rate) len f) = rate - len mod rate"
proof -
  have "len mod rate < rate" using assms by simp
  then show l: "length (pad10 (rate) len f) = rate - len mod rate" by (auto simp: pad10_def Let_def)
  have "len + (rate - len mod rate) = (len div rate) * rate + rate"
    using assms mod_less_divisor [of "rate" len] div_mult_mod_eq [of len "rate"] by linarith
  then show "(len + length (pad10 (rate) len f)) mod rate = 0" unfolding l by simp
qed

lemma xored_zeros: "off + n \<le> length s \<Longrightarrow> xored s off (replicate n 0) = s"
proof (induction n arbitrary: off)
  case (Suc n)
  have "s[off := s ! off XOR 0] = s" by simp
  then show ?case using Suc by (simp add: xored_Cons)
qed simp

lemma xored_append: "off + length xs + length ys \<le> length s \<Longrightarrow> xored s off (xs @ ys) = xored (xored s off xs) (off + length xs) ys"
proof (induction xs arbitrary: s off)
  case (Cons x xs)
  then show ?case by (simp add: xored_Cons)
qed simp

lemma sponge_finalize_ok:
  assumes p: "sponge_ok permute (unat rate)" and a: "absorbed permute rate bs s off" and f: "f AND 128 = 0"
  shows "sponge_keccak_1600_finalize permute s off f rate =
    Some (keccak_blocks permute (unat rate) (bs @ pad10 (unat rate) (length bs) f))"
    "length (keccak_blocks permute (unat rate) (bs @ pad10 (unat rate) (length bs) f)) = 200"
proof -
  let ?r = "unat rate" and ?p = "pad10 (unat rate) (length bs) f"
  have off: "length s = 200" "unat off < ?r" "unat off = length bs mod ?r" using a rate_bounds [OF p] by (simp_all add: absorbed_def)
  have len: "length ?p = ?r - unat off" using length_pad10(2) [OF rate_bounds(1) [OF p]] off(3) by simp
  have ne: "?p \<noteq> []" using len off(2) by auto
  have "xored s (unat off) ?p = (let s = s[unat off := s ! unat off XOR f] in s[?r - 1 := s ! (?r - 1) XOR 128])"
  proof (cases "?r - unat off = 1")
    case True
    then have "unat off = ?r - 1" using off(2) by simp
    moreover have "?p = [f XOR 128]" using True off(3) by (simp add: pad10_def)
    ultimately show ?thesis using off(1,2) rate_bounds [OF p] by (simp add: xored_Cons xor.assoc Let_def)
  next
    case False
    let ?n = "?r - unat off - 2"
    have "?p = f # replicate ?n 0 @ [128]" using False off(3) by (simp add: pad10_def Let_def)
    moreover have "Suc (unat off) + ?n = ?r - 1" using False off(2) by simp
    moreover have "Suc (?r - 2) = ?r - 1" using False off(2) by simp
    ultimately show ?thesis using off(1,2) rate_bounds [OF p] by (simp add: xored_Cons xored_append xored_zeros Let_def)
  qed
  then have fin: "sponge_keccak_1600_finalize permute s off f rate = Some (permute (xored s (unat off) ?p))"
    using finalize_eq [OF p off(1,2) f] by simp
  have "absorb_bytes permute ?r (s, unat off) ?p = (permute (xored s (unat off) ?p), 0)"
    using absorb_full [of "unat off" ?p ?r s permute] len ne off(1,2) rate_bounds [OF p] by simp
  then have e: "absorb_bytes permute ?r (replicate 200 0, 0) (bs @ ?p) = (permute (xored s (unat off) ?p), 0)"
    using a by (simp add: absorbed_def absorb_append)
  have "length (bs @ ?p) mod ?r = 0" using length_pad10(1) [OF rate_bounds(1) [OF p]] by simp
  then have "length (bs @ ?p) = (length (bs @ ?p) div ?r) * ?r" by (metis add_0_right div_mult_mod_eq)
  from absorb_whole [OF p _ this, of "replicate 200 0", folded keccak_blocks_def]
  have w: "absorb_bytes permute ?r (replicate 200 0, 0) (bs @ ?p) = (keccak_blocks permute ?r (bs @ ?p), 0)"
    "length (keccak_blocks permute ?r (bs @ ?p)) = 200" by simp_all
  then show "sponge_keccak_1600_finalize permute s off f rate = Some (keccak_blocks permute ?r (bs @ ?p))"
    "length (keccak_blocks permute ?r (bs @ ?p)) = 200" using e fin by simp_all
qed

lemma sponge_squeeze_ok:
  assumes p: "sponge_ok permute (unat rate)" and "length s = 200"
  shows "\<exists>s' off'. sponge_keccak_1600_squeeze permute s 0 n rate =
    Some (s', off', take (unat n) (concat (map (\<lambda>i. take (unat rate) ((permute ^^ i) s)) [0..<unat n div unat rate + 1])))"
proof (cases "n = 0")
  case True
  moreover have "0 \<noteq> rate" using rate_bounds [OF p] by auto
  ultimately show ?thesis by (simp add: sponge_keccak_1600_squeeze_def keccak_p_1600_extract_bytes_def)
next
  case False
  then have "0 < unat n" by (simp add: unat_gt_0)
  then obtain s' off' out where o: "sponge_keccak_1600_squeeze permute s 0 n rate = Some (s', off', out)"
    "((s', unat off'), out) = squeeze_bytes permute (unat rate) (s, 0) (unat n)" using squeeze_eq [OF assms, of 0 n] by auto
  then show ?thesis using squeeze_blocks [OF assms, of "unat n"] by (metis snd_conv)
qed

lemma finish_ok:
  assumes p: "sponge_ok permute (unat rate)" and "absorbed permute rate bs s off" "f AND 128 = 0"
  shows "do { s \<leftarrow> sponge_keccak_1600_finalize permute s off f rate;
     (s, off, out) \<leftarrow> sponge_keccak_1600_squeeze permute s 0 n rate; Some out } = Some (keccak permute (unat rate) f bs (unat n))"
proof -
  note k = sponge_finalize_ok [OF assms]
  show ?thesis using sponge_squeeze_ok [OF p k(2), of n] k(1) by (auto simp: keccak_def Let_def simp del: upt_Suc)
qed

section \<open>Encoded numbers\<close>

lemma word_unat_eqI: "unat v = unat w \<Longrightarrow> v = w" for v w :: "'a :: len word"
  by (simp add: word_unat_eq_iff)

lemma length_octets: "0 < length (octets n)" "0 < m \<Longrightarrow> n < 256 ^ m \<Longrightarrow> length (octets n) \<le> m"
proof -
  show "0 < length (octets n)" by (subst octets.simps) simp
  show "0 < m \<Longrightarrow> n < 256 ^ m \<Longrightarrow> length (octets n) \<le> m"
  proof (induction m arbitrary: n)
    case (Suc m)
    show ?case
    proof (cases "n < 256")
      case True
      then show ?thesis by (subst octets.simps) simp
    next
      case False
      then have "0 < m" using Suc.prems(2) by (cases m) simp_all
      moreover have "n div 256 < 256 ^ m" using Suc.prems(2) by (simp add: less_mult_imp_div_less mult.commute)
      ultimately show ?thesis using False Suc.IH [of "n div 256"] by (subst octets.simps) simp
    qed
  qed simp
qed

lemma u8_of_nat_mod: "(of_nat (n mod 256) :: u8) = of_nat n"
  by (rule word_unat_eqI) (simp add: unsigned_of_nat take_bit_eq_mod)

lemma rev_octets: "rev (octets n) = map (\<lambda>i. of_nat (n div 256 ^ i)) [0..<length (octets n)]"
proof (induction n rule: octets.induct)
  case (1 n)
  show ?case
  proof (cases "n < 256")
    case True
    then have "octets n = [of_nat n]" by (subst octets.simps) simp
    then show ?thesis by simp
  next
    case False
    then have o: "octets n = octets (n div 256) @ [of_nat n]" by (subst octets.simps) (simp add: u8_of_nat_mod)
    have "[0..<length (octets n)] = 0 # map Suc [0..<length (octets (n div 256))]"
      unfolding o length_append by (simp add: upt_conv_Cons map_Suc_upt del: upt_Suc)
    then have "map (\<lambda>i. of_nat (n div 256 ^ i) :: u8) [0..<length (octets n)] = of_nat n # map (\<lambda>i. of_nat (n div 256 div 256 ^ i)) [0..<length (octets (n div 256))]"
      by (simp add: comp_def div_mult2_eq)
    then show ?thesis using 1 [OF False] unfolding o by simp
  qed
qed

lemma byte_of_nat: "byte_of n i = of_nat (unat n div 256 ^ i)"
proof (rule word_unat_eqI)
  have "unat (drop_bit (8 * i) n) = unat n div 256 ^ i"
    using unat_less_2p64 [of n] by (subst unsigned_drop_bit_eq) (simp add: drop_bit_eq_div take_bit_nat_eq_self power_mult)
  then show "unat (byte_of n i) = unat (of_nat (unat n div 256 ^ i) :: u8)"
    by (simp add: byte_of_def unsigned_ucast_eq unsigned_of_nat)
qed

lemma octets_bytes: "octets (unat n) = map (byte_of n) (rev [0..<length (octets (unat n))])"
proof -
  have "byte_of n = (\<lambda>i. of_nat (unat n div 256 ^ i))" by (simp add: fun_eq_iff byte_of_nat)
  then show ?thesis using rev_octets [of "unat n"] by (simp add: rev_map rev_swap)
qed

lemma octets_u64: "length (octets (unat (n :: u64))) \<le> 8"
  using length_octets(2) [of 8 "unat n"] unat_less_2p64 [of n] by simp

lemma byte_len_loop:
  "while_c (\<lambda>(len, n). 0 < n) (\<lambda>(len, n). Some (len + 1, drop_bit 8 n)) (k, n) =
    Some (k + (if n = 0 then 0 else of_nat (length (octets (unat n)))), 0 :: u64)"
proof (induction "unat n" arbitrary: k n rule: less_induct)
  case less
  show ?case
  proof (cases "n = 0")
    case True
    then show ?thesis by (simp add: while_c.simps)
  next
    case False
    then have n: "0 < unat n" "0 < n" "n \<noteq> 0" by (simp_all add: unat_gt_0 word_gt_0)
    have d: "unat (drop_bit 8 n) = unat n div 256"
      using unat_less_2p64 [of n] by (subst unsigned_drop_bit_eq) (simp add: drop_bit_eq_div take_bit_nat_eq_self)
    have "unat (drop_bit 8 n) < unat n" unfolding d using n by simp
    note IH = less [OF this, of "k + 1"]
    show ?thesis
    proof (cases "unat n < 256")
      case True
      then have "drop_bit 8 n = 0" "octets (unat n) = [of_nat (unat n)]" using d by (simp add: unat_eq_0 [symmetric], subst octets.simps, simp)
      then show ?thesis using n IH by (subst while_c.simps) simp
    next
      case False
      then have "drop_bit 8 n \<noteq> 0" "length (octets (unat n)) = Suc (length (octets (unat (drop_bit 8 n))))"
        using d by (auto simp: octets.simps [of "unat n"] unat_eq_0 [symmetric])
      then show ?thesis using n IH by (subst while_c.simps) (simp add: add.assoc)
    qed
  qed
qed

lemma byte_len_ok: "byte_len n = Some (of_nat (length (octets (unat n))))"
proof -
  have "of_nat (length (octets (unat n))) \<noteq> (0 :: u32)"
    using octets_u64 [of n] length_octets(1) [of "unat n"] by (auto simp: word_unat_eq_iff unsigned_of_nat take_bit_nat_eq_self)
  moreover have "length (octets 0) = 1" by (subst octets.simps) simp
  ultimately show ?thesis by (cases "n = 0") (simp_all add: byte_len_def byte_len_loop)
qed

text \<open>The swapped and shifted word holds the octets.\<close>

lemma swapped_octets:
  assumes "l = of_nat (length (octets (unat n)))"
  shows "unat (ucast (l :: u32) :: u64) = length (octets (unat n))" "ucast l = (of_nat (length (octets (unat n))) :: u8)"
    "take (length (octets (unat n))) (mem_bytes (drop_bit (unat (8 * (8 - l))) (bswap64 n))) = octets (unat n)"
proof -
  let ?L = "length (octets (unat n))"
  have L: "?L \<le> 8" "0 < ?L" by (rule octets_u64, rule length_octets(1))
  then have u: "unat l = ?L" unfolding assms by (simp add: unsigned_of_nat take_bit_nat_eq_self)
  then show "unat (ucast l :: u64) = ?L" by simp
  show "ucast l = (of_nat ?L :: u8)" using u L by (intro word_unat_eqI) (simp add: unsigned_ucast_eq unsigned_of_nat)
  have "unat (8 - l) = 8 - ?L" using u L by (subst unat_sub) (simp_all add: word_le_nat_alt)
  moreover have "unat (8 * v) = 8 * unat v" if "unat v \<le> 8" for v :: u32 using that by (simp add: unat_word_ariths)
  ultimately have s: "unat (8 * (8 - l)) = 8 * (8 - ?L)" using diff_le_self [of 8 ?L] by metis
  have b: "byte_of (bswap64 n) i = byte_of n (7 - i)" if "i < 8" for i
    using that by (simp add: bswap64_def mem_bytes_def byte_of_word_of_bytes rev_nth del: upt_Suc)
  show "take ?L (mem_bytes (drop_bit (unat (8 * (8 - l))) (bswap64 n))) = octets (unat n)"
    unfolding s
  proof (rule nth_equalityI)
    fix i assume "i < length (take ?L (mem_bytes (drop_bit (8 * (8 - ?L)) (bswap64 n))))"
    then have i: "i < ?L" by simp
    then have "take ?L (mem_bytes (drop_bit (8 * (8 - ?L)) (bswap64 n))) ! i = byte_of (bswap64 n) (8 - ?L + i)"
      using L by (simp add: mem_bytes_def byte_of_drop del: upt_Suc)
    also have "\<dots> = byte_of n (?L - Suc i)" using b [of "8 - ?L + i"] i L by simp
    also have "\<dots> = octets (unat n) ! i" using i by (subst (2) octets_bytes) (simp add: rev_nth)
    finally show "take ?L (mem_bytes (drop_bit (8 * (8 - ?L)) (bswap64 n))) ! i = octets (unat n) ! i" .
  qed (use L in \<open>simp add: mem_bytes_def\<close>)
qed

lemma length_mem_bytes [simp]: "length (mem_bytes n) = 8"
  by (simp add: mem_bytes_def)

lemma left_encode_ok:
  assumes p: "sponge_ok permute (unat rate)" and a: "absorbed permute rate bs s off"
  shows "\<exists>s' off'. left_encode permute s off n rate = Some (s', off') \<and> absorbed permute rate (bs @ encode_left (unat n)) s' off'"
proof -
  let ?l = "of_nat (length (octets (unat n))) :: u32"
  note o = swapped_octets [of ?l n, OF refl]
  obtain s1 o1 where 1: "sponge_keccak_1600_absorb permute s off [ucast ?l] 1 rate = Some (s1, o1)" "absorbed permute rate (bs @ [ucast ?l]) s1 o1"
    using absorb_all [OF p a, of 1 "[ucast ?l]"] by auto
  have "unat (ucast ?l :: u64) \<le> length (mem_bytes (drop_bit (unat (8 * (8 - ?l))) (bswap64 n)))" unfolding o(1) using octets_u64 [of n] by simp
  from absorb_step [OF p 1(2) this] show ?thesis
    unfolding o(1,3) using 1(1) o(2) by (auto simp: left_encode_def byte_len_ok encode_left_def Let_def)
qed

lemma right_encode_ok:
  assumes p: "sponge_ok permute (unat rate)" and a: "absorbed permute rate bs s off"
  shows "\<exists>s' off'. right_encode permute s off n rate = Some (s', off') \<and> absorbed permute rate (bs @ encode_right (unat n)) s' off'"
proof -
  let ?l = "of_nat (length (octets (unat n))) :: u32"
  let ?n = "mem_bytes (drop_bit (unat (8 * (8 - ?l))) (bswap64 n))"
  note o = swapped_octets [of ?l n, OF refl]
  have "unat (ucast ?l :: u64) \<le> length ?n" unfolding o(1) using octets_u64 [of n] by simp
  from absorb_step [OF p a this] obtain s1 o1 where 1: "sponge_keccak_1600_absorb permute s off ?n (ucast ?l) rate = Some (s1, o1)"
    "absorbed permute rate (bs @ octets (unat n)) s1 o1" unfolding o(1,3) by blast
  from absorb_all [OF p 1(2), of 1 "[ucast ?l]"] show ?thesis
    using 1(1) o(2) by (auto simp: right_encode_def byte_len_ok encode_right_def Let_def)
qed

section \<open>Encoded strings\<close>

lemma bit_length: "unat n < 2 ^ 61 \<Longrightarrow> unat (push_bit 3 n :: u64) = 8 * unat n"
  by (simp add: push_bit_eq_mult unat_word_ariths)

lemma encode_string_ok:
  assumes p: "sponge_ok permute (unat rate)" and a: "absorbed permute rate bs s off" and x: "arg x d n"
  shows "\<exists>s1 o1 s' off'. left_encode permute s off (push_bit 3 n) rate = Some (s1, o1) \<and>
    sponge_keccak_1600_absorb permute s1 o1 d n rate = Some (s', off') \<and> absorbed permute rate (bs @ encode_string x) s' off'"
proof -
  have "length x = unat n" using x by (auto simp: arg_def)
  then have l: "unat (push_bit 3 n) = 8 * length x" using x bit_length [of n] by (simp add: arg_def)
  obtain s1 o1 where 1: "left_encode permute s off (push_bit 3 n) rate = Some (s1, o1)" "absorbed permute rate (bs @ encode_left (8 * length x)) s1 o1"
    using left_encode_ok [OF p a, of "push_bit 3 n"] unfolding l by blast
  have "unat n \<le> length d" using x by (simp add: arg_def)
  from absorb_step [OF p 1(2) this] show ?thesis using 1(1) x by (auto simp: encode_string_def arg_def)
qed

lemma absorb_pad_ok:
  assumes p: "sponge_ok permute (unat rate)" and a: "absorbed permute rate bs s 0"
  shows "\<exists>s' off'. absorb_pad permute s 0 rate = Some (s', off') \<and> absorbed permute rate (bs @ encode_left (unat rate)) s' off'"
proof -
  define pad where "pad = (ucast (1 + push_bit 8 rate) :: u16)"
  have r: "unat rate \<le> 200" by (rule rate_bounds(2) [OF p])
  have "unat (1 + push_bit 8 rate :: u32) = 1 + 256 * unat rate" using r by (simp add: push_bit_eq_mult unat_word_ariths)
  then have u: "unat pad = 1 + 256 * unat rate" using r by (simp add: pad_def unsigned_ucast_eq take_bit_nat_eq_self)
  then have "unat (drop_bit 8 pad) = unat rate" using r by (subst unsigned_drop_bit_eq) (simp add: drop_bit_eq_div take_bit_nat_eq_self)
  then have "(ucast (drop_bit 8 pad) :: u8) = of_nat (unat rate)" by (intro word_unat_eqI) (simp add: unsigned_ucast_eq unsigned_of_nat)
  moreover have "(ucast pad :: u8) = 1" using u by (intro word_unat_eqI) (simp add: unsigned_ucast_eq take_bit_eq_mod)
  moreover have "octets (unat rate) = [of_nat (unat rate)]" using r by (subst octets.simps) simp
  ultimately have e: "encode_left (unat rate) = [ucast pad, ucast (drop_bit 8 pad)]" by (simp add: encode_left_def)
  have "unat (2 :: u64) = length [ucast pad :: u8, ucast (drop_bit 8 pad)]" by simp
  from absorb_all [OF p a this] show ?thesis unfolding e by (simp add: absorb_pad_def pad_def Let_def)
qed

lemma end_pad_ok:
  assumes p: "sponge_ok permute (unat rate)" and a: "absorbed permute rate bs s off"
  shows "absorbed permute rate (bs @ replicate ((unat rate - length bs mod unat rate) mod unat rate) 0) (end_pad permute s off) 0"
proof (cases "off = 0")
  case True
  then show ?thesis using a by (simp add: absorbed_def end_pad_def)
next
  case False
  let ?z = "replicate (unat rate - unat off) 0 :: u8 list"
  have off: "length s = 200" "unat off < unat rate" "unat off = length bs mod unat rate"
    using a rate_bounds [OF p] by (simp_all add: absorbed_def)
  have "0 < unat off" using False by (simp add: unat_gt_0)
  note off = off this
  have "absorb_bytes permute (unat rate) (s, unat off) ?z = (permute (xored s (unat off) ?z), 0)"
    using absorb_full [of "unat off" ?z "unat rate" s permute] off rate_bounds [OF p] by simp
  then have e: "absorb_bytes permute (unat rate) (s, unat off) ?z = (permute s, 0)" using off rate_bounds [OF p] by (simp add: xored_zeros)
  have "length (permute s) = 200" using p off(1) by (simp add: sponge_ok_def)
  moreover have "(length bs + (unat rate - unat off)) mod unat rate = 0"
  proof -
    have "length bs + (unat rate - unat off) = (length bs div unat rate) * unat rate + unat rate"
      using off(2,3) div_mult_mod_eq [of "length bs" "unat rate"] by linarith
    then show ?thesis by simp
  qed
  ultimately show ?thesis using a e off False by (simp add: absorbed_def end_pad_def absorb_append)
qed

lemma bytepad_ok:
  assumes p: "sponge_ok permute (unat rate)" and bs: "length bs mod unat rate = 0" and a: "absorbed permute rate (bs @ encode_left (unat rate) @ x) s off"
  shows "absorbed permute rate (bs @ bytepad x (unat rate)) (end_pad permute s off) 0"
proof -
  have "length (bs @ encode_left (unat rate) @ x) mod unat rate = length (encode_left (unat rate) @ x) mod unat rate"
    using bs by (metis add_0 length_append mod_add_left_eq)
  then show ?thesis using end_pad_ok [OF p a] by (simp add: bytepad_def Let_def)
qed

lemma absorbed_aligned: "absorbed permute rate bs s 0 \<Longrightarrow> length bs mod unat rate = 0"
  by (simp add: absorbed_def)

lemma cshake_prepare_ok:
  assumes p: "sponge_ok permute (unat rate)" and a: "absorbed permute rate bs s 0" and x: "arg x (fst n) (snd n)" and y: "arg y (fst m) (snd m)"
  shows "\<exists>s'. cshake_prepare_state permute s n m rate = Some s' \<and>
    absorbed permute rate (bs @ bytepad (encode_string x @ encode_string y) (unat rate)) s' 0"
proof -
  obtain s1 o1 where 1: "absorb_pad permute s 0 rate = Some (s1, o1)" "absorbed permute rate (bs @ encode_left (unat rate)) s1 o1"
    using absorb_pad_ok [OF p a] by blast
  obtain s2 o2 s3 o3 where 2: "left_encode permute s1 o1 (push_bit 3 (snd n)) rate = Some (s2, o2)"
    "sponge_keccak_1600_absorb permute s2 o2 (fst n) (snd n) rate = Some (s3, o3)"
    "absorbed permute rate ((bs @ encode_left (unat rate)) @ encode_string x) s3 o3" using encode_string_ok [OF p 1(2) x] by blast
  obtain s4 o4 s5 o5 where 3: "left_encode permute s3 o3 (push_bit 3 (snd m)) rate = Some (s4, o4)"
    "sponge_keccak_1600_absorb permute s4 o4 (fst m) (snd m) rate = Some (s5, o5)"
    "absorbed permute rate (((bs @ encode_left (unat rate)) @ encode_string x) @ encode_string y) s5 o5" using encode_string_ok [OF p 2(3) y] by blast
  have "absorbed permute rate (bs @ encode_left (unat rate) @ encode_string x @ encode_string y) s5 o5" using 3(3) by simp
  from bytepad_ok [OF p absorbed_aligned [OF a] this] show ?thesis using 1(1) 2(1,2) 3(1,2) by (simp add: cshake_prepare_state_def)
qed

lemma kmac_key_ok:
  assumes p: "sponge_ok permute (unat rate)" and a: "absorbed permute rate bs s 0" and x: "arg x key kl"
  shows "\<exists>s'. kmac_prepare_key permute s key kl rate = Some s' \<and> absorbed permute rate (bs @ bytepad (encode_string x) (unat rate)) s' 0"
proof -
  obtain s1 o1 where 1: "absorb_pad permute s 0 rate = Some (s1, o1)" "absorbed permute rate (bs @ encode_left (unat rate)) s1 o1"
    using absorb_pad_ok [OF p a] by blast
  obtain s2 o2 s3 o3 where 2: "left_encode permute s1 o1 (push_bit 3 kl) rate = Some (s2, o2)"
    "sponge_keccak_1600_absorb permute s2 o2 key kl rate = Some (s3, o3)"
    "absorbed permute rate ((bs @ encode_left (unat rate)) @ encode_string x) s3 o3" using encode_string_ok [OF p 1(2) x] by blast
  have "absorbed permute rate (bs @ encode_left (unat rate) @ encode_string x) s3 o3" using 2(3) by simp
  from bytepad_ok [OF p absorbed_aligned [OF a] this] show ?thesis using 1(1) 2(1,2) by (simp add: kmac_prepare_key_def)
qed

section \<open>The templates\<close>

lemma template_ok:
  assumes p: "sponge_ok permute (unat rate)" and a: "absorbed permute rate bs s 0" and x: "arg x d n" and f: "f AND 128 = 0"
  shows "do { state \<leftarrow> sha3_prepare_msg permute s d n f rate;
     (state, curr_offset, out) \<leftarrow> sponge_keccak_1600_squeeze permute state 0 k rate; Some out } = Some (keccak permute (unat rate) f (bs @ x) (unat k))"
proof -
  obtain s1 o1 where 1: "sponge_keccak_1600_absorb permute s 0 d n rate = Some (s1, o1)" "absorbed permute rate (bs @ x) s1 o1"
    using absorb_step [OF p a, of n d] x by (auto simp: arg_def)
  show ?thesis using finish_ok [OF p 1(2) f, of k] 1(1) by (simp add: sha3_prepare_msg_def)
qed

lemma sha3_template_ok:
  assumes "sponge_ok permute (unat rate)" "arg x d n" "f AND 128 = 0"
  shows "sha3_template permute d n k f rate = Some (keccak permute (unat rate) f x (unat k))"
  using template_ok [OF assms(1) absorbed_Nil assms(2,3), of k] by (simp add: sha3_template_def)

lemma cshake_template_ok:
  assumes p: "sponge_ok permute (unat rate)" and n: "arg name (fst n) (snd n)" and m: "arg str (fst m) (snd m)" and x: "arg x d l" and f: "f AND 128 = 0"
  shows "cshake_template permute n m d l k f rate =
    Some (keccak permute (unat rate) f (bytepad (encode_string name @ encode_string str) (unat rate) @ x) (unat k))"
proof -
  obtain s where s: "cshake_prepare_state permute (replicate 200 0) n m rate = Some s"
    "absorbed permute rate (bytepad (encode_string name @ encode_string str) (unat rate)) s 0"
    using cshake_prepare_ok [OF p absorbed_Nil n m] by auto
  then show ?thesis using template_ok [OF p s(2) x f, of k] by (simp add: cshake_template_def)
qed

lemma arg_empty: "arg x d n \<Longrightarrow> x = [] \<longleftrightarrow> n = 0"
  by (auto simp: arg_def unat_eq_0)

lemma kmac_template_ok:
  assumes p: "sponge_ok permute (unat rate)" and m: "arg str (fst m) (snd m)" and key: "arg key kd kl" and x: "arg x d l"
    and f: "f AND 128 = 0" and k: "unat k < 2 ^ 61"
  shows "kmac_template permute m kd kl d l k f rate =
    Some (keccak permute (unat rate) f (bytepad (encode_string (map (of_nat \<circ> of_char) ''KMAC'') @ encode_string str) (unat rate) @
      bytepad (encode_string key) (unat rate) @ x @ encode_right (8 * unat k)) (unat k))"
proof -
  have name: "arg (map (of_nat \<circ> of_char) ''KMAC'') (fst (map (of_nat \<circ> of_char) ''KMAC'' :: u8 list, 4)) (snd (map (of_nat \<circ> of_char) ''KMAC'' :: u8 list, 4))"
    by (simp add: arg_def)
  obtain s where s: "kmac_prepare_state permute (replicate 200 0) m rate = Some s"
    "absorbed permute rate (bytepad (encode_string (map (of_nat \<circ> of_char) ''KMAC'') @ encode_string str) (unat rate)) s 0"
    using cshake_prepare_ok [OF p absorbed_Nil name m] unfolding kmac_prepare_state_def by auto
  obtain s1 where 1: "kmac_prepare_key permute s kd kl rate = Some s1" "absorbed permute rate
      (bytepad (encode_string (map (of_nat \<circ> of_char) ''KMAC'') @ encode_string str) (unat rate) @ bytepad (encode_string key) (unat rate)) s1 0"
    using kmac_key_ok [OF p s(2) key] by blast
  have "unat l \<le> length d" "x = take (unat l) d" using x by (simp_all add: arg_def)
  from absorb_step [OF p 1(2) this(1), folded this(2)] obtain s2 o2 where 2: "sponge_keccak_1600_absorb permute s1 0 d l rate = Some (s2, o2)" "absorbed permute rate
      ((bytepad (encode_string (map (of_nat \<circ> of_char) ''KMAC'') @ encode_string str) (unat rate) @ bytepad (encode_string key) (unat rate)) @ x) s2 o2"
    by blast
  from right_encode_ok [OF p 2(2), of "push_bit 3 k"] obtain s3 o3 where 3: "right_encode permute s2 o2 (push_bit 3 k) rate = Some (s3, o3)"
    "absorbed permute rate (((bytepad (encode_string (map (of_nat \<circ> of_char) ''KMAC'') @ encode_string str) (unat rate) @
      bytepad (encode_string key) (unat rate)) @ x) @ encode_right (8 * unat k)) s3 o3"
    unfolding bit_length [OF k] by blast
  show ?thesis using finish_ok [OF p 3(2) f, of k] s(1) 1(1) 2(1) 3(1) by (simp add: kmac_template_def kmac_prepare_msg_def)
qed

lemma tuplehash_add_ok:
  assumes p: "sponge_ok permute (unat rate)" and len: "unat num = length xs" "length strs = length xs" "length lens = length xs"
    and x: "\<And>j. j < length xs \<Longrightarrow> arg (xs ! j) (strs ! j) (lens ! j)" and a: "absorbed permute rate bs s off"
  shows "\<exists>s' off'. tuplehash_add_all permute s off strs lens num rate = Some (s', off') \<and>
    absorbed permute rate (bs @ concat (map encode_string xs)) s' off'"
proof -
  let ?body = "\<lambda>(i, state, curr_offset).
         if unat i < length strs \<and> unat i < length lens then do {
           (state, curr_offset) \<leftarrow> tuplehash_add_msg permute state curr_offset (strs ! unat i) (lens ! unat i) rate;
           Some (i + 1, state, curr_offset) }
         else None"
  let ?b = "\<lambda>(i, state :: u8 list, curr_offset :: u32). i < num"
  have "\<exists>i' s' off'. while_c ?b ?body (i, s, off) = Some (i', s', off') \<and> absorbed permute rate (bs @ concat (map encode_string (drop (unat i) xs))) s' off'"
    if "absorbed permute rate bs s off" "unat i \<le> unat num" for i :: u64 and bs s off
    using that
  proof (induction "unat num - unat i" arbitrary: i bs s off)
    case 0
    then show ?case using len by (simp add: while_c.simps word_less_nat_alt)
  next
    case (Suc k)
    then have i: "unat i < length xs" "i < num" using len by (simp_all add: word_less_nat_alt)
    then have i1: "unat (i + 1) = Suc (unat i)" using unat_less_2p64 [of num] by (simp add: unat_word_ariths word_less_nat_alt)
    obtain s1 o1 s2 o2 where 1: "left_encode permute s off (push_bit 3 (lens ! unat i)) rate = Some (s1, o1)"
      "sponge_keccak_1600_absorb permute s1 o1 (strs ! unat i) (lens ! unat i) rate = Some (s2, o2)"
      "absorbed permute rate (bs @ encode_string (xs ! unat i)) s2 o2" using encode_string_ok [OF p Suc.prems(1) x [OF i(1)]] by blast
    then have "?body (i, s, off) = Some (i + 1, s2, o2)" using i len by (simp add: tuplehash_add_msg_def)
    moreover have "k = unat num - unat (i + 1)" "unat (i + 1) \<le> unat num" using Suc.hyps(2) i i1 by (simp_all add: word_less_nat_alt)
    from Suc.hyps(1) [OF this(1) 1(3) this(2)] obtain i' s' off' where "while_c ?b ?body (i + 1, s2, o2) = Some (i', s', off')"
      "absorbed permute rate ((bs @ encode_string (xs ! unat i)) @ concat (map encode_string (drop (unat (i + 1)) xs))) s' off'" by blast
    moreover have "drop (unat i) xs = xs ! unat i # drop (unat (i + 1)) xs" using i i1 by (simp add: Cons_nth_drop_Suc)
    ultimately show ?case using i(2) by (subst while_c.simps) simp
  qed
  from this [of bs s off 0] show ?thesis using a by (auto simp: tuplehash_add_all_def)
qed

lemma tuplehash_template_ok:
  assumes p: "sponge_ok permute (unat rate)" and m: "arg str (fst m) (snd m)"
    and len: "unat num = length xs" "length strs = length xs" "length lens = length xs" and x: "\<And>j. j < length xs \<Longrightarrow> arg (xs ! j) (strs ! j) (lens ! j)"
    and f: "f AND 128 = 0" and k: "unat k < 2 ^ 61"
  shows "tuplehash_template permute m strs lens num k f rate =
    Some (keccak permute (unat rate) f (bytepad (encode_string (map (of_nat \<circ> of_char) ''TupleHash'') @ encode_string str) (unat rate) @
      concat (map encode_string xs) @ encode_right (8 * unat k)) (unat k))"
proof -
  have name: "arg (map (of_nat \<circ> of_char) ''TupleHash'') (fst (map (of_nat \<circ> of_char) ''TupleHash'' :: u8 list, 9)) (snd (map (of_nat \<circ> of_char) ''TupleHash'' :: u8 list, 9))"
    by (simp add: arg_def)
  let ?b = "bytepad (encode_string (map (of_nat \<circ> of_char) ''TupleHash'') @ encode_string str) (unat rate)"
  obtain s where s: "tuplehash_prepare_state permute (replicate 200 0) m rate = Some s" "absorbed permute rate ?b s 0"
    using cshake_prepare_ok [OF p absorbed_Nil name m] unfolding tuplehash_prepare_state_def by auto
  obtain s1 o1 where 1: "tuplehash_add_all permute s 0 strs lens num rate = Some (s1, o1)" "absorbed permute rate (?b @ concat (map encode_string xs)) s1 o1"
    using tuplehash_add_ok [OF p len x s(2)] by blast
  from right_encode_ok [OF p 1(2), of "push_bit 3 k"] obtain s2 o2 where 2: "right_encode permute s1 o1 (push_bit 3 k) rate = Some (s2, o2)"
    "absorbed permute rate ((?b @ concat (map encode_string xs)) @ encode_right (8 * unat k)) s2 o2" unfolding bit_length [OF k] by blast
  show ?thesis using finish_ok [OF p 2(2) f, of k] s(1) 1(1) 2(1)
    by (simp add: tuplehash_template_def tuplehash_finalize_def bind_assoc)
qed

section \<open>The standard functions\<close>

definition good_perm :: "perm \<Rightarrow> bool" where
  "good_perm permute \<longleftrightarrow> (\<forall>s. length s = 200 \<longrightarrow> length (permute s) = 200)"

lemma good_rates: "good_perm permute \<Longrightarrow> 0 < rate \<Longrightarrow> rate \<le> 200 \<Longrightarrow> sponge_ok permute (unat (rate :: u32))"
  by (simp add: good_perm_def sponge_ok_def word_le_nat_alt unat_gt_0 word_gt_0)

lemma sha3_run:
  assumes p: "good_perm permute" and x: "arg x d n" and r: "0 < rate" "rate \<le> 200" and f: "f \<in> {6, 31}"
  shows "sha3_template permute d n k f rate = Some (keccak permute (unat rate) f x (unat k))"
proof (rule sha3_template_ok [OF good_rates [OF p r] x])
  show "f AND 128 = 0" using f by auto
qed

text \<open>C26: the SHA-3 functions and SHAKE are the sponge functions of FIPS 202 with their rates, suffixes
  and output lengths, for messages of every length.\<close>

theorem sha3_correct:
  assumes "good_perm permute" "arg x d n"
  shows "sha3_224 permute d n = Some (keccak permute 144 6 x 28) \<and>
    sha3_256 permute d n = Some (keccak permute 136 6 x 32) \<and>
    sha3_384 permute d n = Some (keccak permute 104 6 x 48) \<and>
    sha3_512 permute d n = Some (keccak permute 72 6 x 64) \<and>
    shake128 permute d n k = Some (keccak permute 168 31 x (unat k)) \<and>
    shake256 permute d n k = Some (keccak permute 136 31 x (unat k))"
  using sha3_run [OF assms, of 144 6 28] sha3_run [OF assms, of 136 6 32] sha3_run [OF assms, of 104 6 48] sha3_run [OF assms, of 72 6 64]
    sha3_run [OF assms, of 168 31 k] sha3_run [OF assms, of 136 31 k]
  by (simp_all add: sha3_224_def sha3_256_def sha3_384_def sha3_512_def shake128_def shake256_def word_le_nat_alt)

lemma cshake_run:
  assumes p: "good_perm permute" and n: "arg name (fst n) (snd n)" and m: "arg str (fst m) (snd m)" and x: "arg x d l"
    and r: "0 < rate" "rate \<le> 200"
  shows "(if snd n = 0 \<and> snd m = 0 then sha3_template permute d l k 31 rate else cshake_template permute n m d l k 4 rate) =
    Some (cshake permute (unat rate) x (unat k) name str)"
proof -
  note p' = good_rates [OF p r]
  have "(4 :: u8) AND 128 = 0" by simp
  from cshake_template_ok [OF p' n m x this, of k] sha3_run [OF p x r, of 31 k]
  show ?thesis using arg_empty [OF n] arg_empty [OF m] by (simp add: cshake_def)
qed

lemma kmac_run:
  assumes p: "good_perm permute" and m: "arg str (fst m) (snd m)" and key: "arg key kd kl" and x: "arg x d l"
    and r: "0 < rate" "rate \<le> 200" and k: "unat k < 2 ^ 61"
  shows "kmac_template permute m kd kl d l k 4 rate = Some (kmac permute (unat rate) key x (unat k) str)"
proof -
  have "(4 :: u8) AND 128 = 0" by simp
  from kmac_template_ok [OF good_rates [OF p r] m key x this k] show ?thesis by (simp add: kmac_def cshake_def)
qed

definition args :: "u8 list list \<Rightarrow> u8 list list \<Rightarrow> u64 list \<Rightarrow> u64 \<Rightarrow> bool" where
  "args xs ds ns num \<longleftrightarrow> unat num = length xs \<and> length ds = length xs \<and> length ns = length xs \<and>
     (\<forall>j < length xs. arg (xs ! j) (ds ! j) (ns ! j))"

lemma tuplehash_run:
  assumes p: "good_perm permute" and m: "arg str (fst m) (snd m)" and x: "args xs ds ns num"
    and r: "0 < rate" "rate \<le> 200" and k: "unat k < 2 ^ 61"
  shows "tuplehash_template permute m ds ns num k 4 rate = Some (tuplehash permute (unat rate) xs (unat k) str)"
proof -
  have "(4 :: u8) AND 128 = 0" by simp
  from tuplehash_template_ok [OF good_rates [OF p r] m _ _ _ _ this k, of num xs ds ns] show ?thesis
    using x by (simp add: tuplehash_def cshake_def args_def)
qed

text \<open>C27: cSHAKE, KMAC and TupleHash are the functions of SP 800-185: the name, the customisation string
  and the key are encoded with their lengths and padded to whole blocks, the strings of a tuple
  are encoded one by one, and the length of the output is appended.\<close>

theorem sp800_185_correct:
  assumes "good_perm permute" "arg name (fst n) (snd n)" "arg str (fst m) (snd m)" "arg key kd kl" "arg x d l" "args xs ds ns num" "unat k < 2 ^ 61"
  shows "cshake128 permute n m d l k = Some (cshake permute 168 x (unat k) name str) \<and>
    cshake256 permute n m d l k = Some (cshake permute 136 x (unat k) name str) \<and>
    kmac128 permute m kd kl d l k = Some (kmac permute 168 key x (unat k) str) \<and>
    kmac256 permute m kd kl d l k = Some (kmac permute 136 key x (unat k) str) \<and>
    tuplehash128 permute m ds ns num k = Some (tuplehash permute 168 xs (unat k) str) \<and>
    tuplehash256 permute m ds ns num k = Some (tuplehash permute 136 xs (unat k) str)"
  using cshake_run [OF assms(1,2,3,5), of 168 k] cshake_run [OF assms(1,2,3,5), of 136 k]
    kmac_run [OF assms(1,3,4,5) _ _ assms(7), of 168] kmac_run [OF assms(1,3,4,5) _ _ assms(7), of 136]
    tuplehash_run [OF assms(1,3,6) _ _ assms(7), of 168] tuplehash_run [OF assms(1,3,6) _ _ assms(7), of 136]
  by (auto simp: cshake128_def cshake256_def shake128_def shake256_def kmac128_def kmac256_def tuplehash128_def tuplehash256_def word_le_nat_alt split: if_splits)

lemma good_rev: "good_perm rev"
  by (simp add: good_perm_def)

lemma sha3_correct_witness:
  "sha3_256 rev (replicate 300 7) 300 = Some (keccak rev 136 6 (replicate 300 7) 32) \<and>
   shake128 rev (replicate 300 7) 300 500 = Some (keccak rev 168 31 (replicate 300 7) 500)"
  using sha3_correct [OF good_rev, of "replicate 300 7" "replicate 300 7" 300] by (simp add: arg_def)

lemma demo_args: "args [[5], [6]] [[5], [6, 7]] [1, 1] 2"
  by (auto simp: args_def arg_def less_Suc_eq)

lemma sp800_185_correct_witness:
  "kmac128 rev ([2, 3], 2) [4] 1 [] 0 32 = Some (kmac rev 168 [4] [] 32 [2, 3]) \<and>
   tuplehash256 rev ([2, 3], 2) [[5], [6, 7]] [1, 1] 2 32 = Some (tuplehash rev 136 [[5], [6]] 32 [2, 3])"
proof -
  have a: "arg [] (fst ([], 0)) (snd ([], 0))" "arg [2, 3] (fst ([2, 3], 2)) (snd ([2, 3], 2))" "arg [4] [4] 1" "arg [] [] 0"
    by (simp_all add: arg_def)
  have k: "unat (32 :: u64) < 2 ^ 61" by simp
  have n: "unat (32 :: u64) = 32" by simp
  from sp800_185_correct [OF good_rev a demo_args k] show ?thesis unfolding n by blast
qed

end
