(* ===== verification/StrMove.thy ===== *)
theory StrMove
  imports StrCopy
begin

text \<open>
  \<open>memmove\<close> of \<open>src/string\<close>: buffers that do not overlap go to \<open>memcpy\<close>; with \<open>dest\<close> below
  \<open>src\<close> the bytes are copied upwards as there, and otherwise downwards, the words of the
  source shifted the other way.
\<close>

section \<open>Definitions\<close>

text \<open>\<open>while (n) { *dp = *sp; s++; d++; n--; }\<close>, and backwards
  \<open>while (n) { s--; d--; *dp = *sp; n--; }\<close>\<close>

definition copy_tail :: "mem \<Rightarrow> u64 \<Rightarrow> u64 \<Rightarrow> u64 \<Rightarrow> (mem \<times> u64 \<times> u64 \<times> u64) option" where
  "copy_tail m s d n =
     while_c (\<lambda>(m, s, d, n). n \<noteq> 0)
       (\<lambda>(m, s, d, n). do {
          b \<leftarrow> read_byte m s;
          m \<leftarrow> write_byte m d b;
          Some (m, s + 1, d + 1, n - 1) })
       (m, s, d, n)"

definition copy_tail_back :: "mem \<Rightarrow> u64 \<Rightarrow> u64 \<Rightarrow> u64 \<Rightarrow> (mem \<times> u64 \<times> u64 \<times> u64) option" where
  "copy_tail_back m s d n =
     while_c (\<lambda>(m, s, d, n). n \<noteq> 0)
       (\<lambda>(m, s, d, n). do {
          let s = s - 1;
          let d = d - 1;
          b \<leftarrow> read_byte m s;
          m \<leftarrow> write_byte m d b;
          Some (m, s, d, n - 1) })
       (m, s, d, n)"

definition memmove_forward :: "mem \<Rightarrow> u64 \<Rightarrow> u64 \<Rightarrow> u64 \<Rightarrow> (mem \<times> u64) option" where
  "memmove_forward m dest src n = do {
     (m, s, d, n) \<leftarrow> copy_head m src dest n;
     if n = 0 then Some (m, dest)
     else if d AND 7 = 0 then do {
       (m, s, d, n) \<leftarrow> copy_words m s d n;
       (m, s, d, n) \<leftarrow> copy_tail m s d n;
       Some (m, dest) }
     else copy_shifted m dest s d n }"

text \<open>The loops of the backward half; here \<open>n\<close> bytes remain below \<open>s\<close> and \<open>d\<close>.\<close>

definition copy_head_back :: "mem \<Rightarrow> u64 \<Rightarrow> u64 \<Rightarrow> u64 \<Rightarrow> (mem \<times> u64 \<times> u64 \<times> u64) option" where
  "copy_head_back m s d n =
     while_c (\<lambda>(m, s, d, n). n \<noteq> 0 \<and> s AND 7 \<noteq> 0)
       (\<lambda>(m, s, d, n). do {
          let s = s - 1;
          let d = d - 1;
          b \<leftarrow> read_byte m s;
          m \<leftarrow> write_byte m d b;
          Some (m, s, d, n - 1) })
       (m, s, d, n)"

definition copy_words_back :: "mem \<Rightarrow> u64 \<Rightarrow> u64 \<Rightarrow> u64 \<Rightarrow> (mem \<times> u64 \<times> u64 \<times> u64) option" where
  "copy_words_back m s d n =
     while_c (\<lambda>(m, s, d, n). n \<ge> 8)
       (\<lambda>(m, s, d, n). do {
          let s = s - 8;
          let d = d - 8;
          s_buf \<leftarrow> read_u64 m s;
          m \<leftarrow> write_u64 m d s_buf;
          Some (m, s, d, n - 8) })
       (m, s, d, n)"

definition store_upto_back :: "mem \<Rightarrow> u64 \<Rightarrow> u64 \<Rightarrow> nat \<Rightarrow> u64 \<Rightarrow> (mem \<times> u64 \<times> u64 \<times> nat \<times> u64) option" where
  "store_upto_back m d buf i n =
     while_c (\<lambda>(m, d, buf, i, n). i \<noteq> 0 \<and> n \<noteq> 0)
       (\<lambda>(m, d, buf, i, n). do {
          let d = d - 1;
          m \<leftarrow> write_byte m d (ucast (drop_bit 56 buf));
          Some (m, d, push_bit 8 buf, i - 1, n - 1) })
       (m, d, buf, i, n)"

definition store_tail_back :: "mem \<Rightarrow> u64 \<Rightarrow> u64 \<Rightarrow> u64 \<Rightarrow> (mem \<times> u64 \<times> u64 \<times> u64) option" where
  "store_tail_back m d buf n =
     while_c (\<lambda>(m, d, buf, n). n \<noteq> 0)
       (\<lambda>(m, d, buf, n). do {
          let d = d - 1;
          m \<leftarrow> write_byte m d (ucast (drop_bit 56 buf));
          Some (m, d, push_bit 8 buf, n - 1) })
       (m, d, buf, n)"

definition shift_words_back ::
  "nat \<Rightarrow> mem \<Rightarrow> u64 \<Rightarrow> u64 \<Rightarrow> u64 \<Rightarrow> u64 \<Rightarrow> (mem \<times> u64 \<times> u64 \<times> u64 \<times> u64) option" where
  "shift_words_back d_off m s d n s_buf =
     while_c (\<lambda>(m, s, d, n, s_buf). n \<ge> 8)
       (\<lambda>(m, s, d, n, s_buf). do {
          let s = s - 8;
          let d = d - 8;
          s_buf2 \<leftarrow> read_u64 m s;
          m \<leftarrow> write_u64 m d (s_buf OR drop_bit (8 * (8 - d_off)) s_buf2);
          Some (m, s, d, n - 8, push_bit (8 * d_off) s_buf2) })
       (m, s, d, n, s_buf)"

definition memmove_backward :: "mem \<Rightarrow> u64 \<Rightarrow> u64 \<Rightarrow> u64 \<Rightarrow> (mem \<times> u64) option" where
  "memmove_backward m dest src n = do {
     (m, s, d, n) \<leftarrow> copy_head_back m (src + n) (dest + n) n;
     if n = 0 then Some (m, dest)
     else if d AND 7 = 0 then do {
       (m, s, d, n) \<leftarrow> copy_words_back m s d n;
       (m, s, d, n) \<leftarrow> copy_tail_back m s d n;
       Some (m, dest) }
     else do {
       let d_off = unat (d AND 7);
       let s = s - 8;
       s_buf \<leftarrow> read_u64 m s;
       (m, d, s_buf, i, n) \<leftarrow> store_upto_back m d s_buf d_off n;
       if n = 0 then Some (m, dest)
       else do {
         (m, s, d, n, s_buf) \<leftarrow> shift_words_back d_off m s d n s_buf;
         if n = 0 then Some (m, dest)
         else do {
           let s = s - 8;
           s_buf2 \<leftarrow> (if n \<le> of_nat (8 - d_off) then Some 0 else read_u64 m s);
           let s_buf = s_buf OR drop_bit (8 * (8 - d_off)) s_buf2;
           (m, d, s_buf, n) \<leftarrow> store_tail_back m d s_buf n;
           Some (m, dest) } } } }"

definition memmove :: "mem \<Rightarrow> u64 \<Rightarrow> u64 \<Rightarrow> u64 \<Rightarrow> (mem \<times> u64) option" where
  "memmove m dest src n =
     (if dest = src then Some (m, dest)
      else if src - dest - n \<le> - 2 * n then memcpy m dest src n
      else if dest < src then memmove_forward m dest src n
      else memmove_backward m dest src n)"

section \<open>Copying upwards\<close>

lemma copy_tail_ok:
  assumes pre: "copy_pre m d s N" and k0: "k0 \<le> N"
  shows "copy_tail (copied m d s k0) (addr s k0) (addr d k0) (remaining N k0) =
    Some (copied m d s N, addr s N, addr d N, remaining N N)"
proof -
  note N = copy_preD(1) [OF pre]
  let ?st = "\<lambda>k. (copied m d s k, addr s k, addr d k, remaining N k)"
  have "\<exists>st. copy_tail (copied m d s k0) (addr s k0) (addr d k0) (remaining N k0) = Some st \<and> st = ?st N"
    unfolding copy_tail_def
  proof (rule while_c_post [where N = N and k = k0 and R = "\<lambda>k st. st = ?st k"], goal_cases)
    case (3 k st)
    then have "k < N" using N by (auto simp: addr_simps)
    then show ?case
      using 3 by (auto simp: copy_byte_step [OF pre] addr_simps intro!: exI [of _ "Suc k"])
  next
    case (4 k st)
    then show ?case using N by (auto simp: addr_simps)
  qed (use k0 in auto)
  then show ?thesis by simp
qed

lemma memmove_forward_ok:
  assumes pre: "copy_pre m dest src (unat n)"
  shows "memmove_forward m dest src n = Some (copied m dest src (unat n), dest)"
proof -
  let ?N = "unat n"
  note P = copy_preD [OF pre]
  obtain k where k: "k \<le> ?N" "k = ?N \<or> off8 (addr src k) = 0"
    and head: "copy_head m src dest n = Some (copied m dest src k, addr src k, addr dest k, remaining ?N k)"
    using copy_head_ok [OF pre] by (metis remaining_0)
  consider "k = ?N" | "k < ?N" "off8 (addr dest k) = 0" | "k < ?N" "off8 (addr dest k) \<noteq> 0"
    using k by linarith
  then show ?thesis
  proof cases
    case 1
    then show ?thesis using P(1) by (simp add: memmove_forward_def head addr_simps)
  next
    case 2
    with k have "off8 (addr src k) = 0" by simp
    with 2 k obtain k' where k': "k' \<le> ?N"
      and body: "copy_words (copied m dest src k) (addr src k) (addr dest k) (remaining ?N k) =
        Some (copied m dest src k', addr src k', addr dest k', remaining ?N k')"
      using copy_words_ok [OF pre] by metis
    show ?thesis
      using 2 P(1) by (simp add: memmove_forward_def head addr_simps body copy_tail_ok [OF pre k'])
  next
    case 3
    with k have "off8 (addr src k) = 0" by simp
    with 3 show ?thesis
      using P(1) by (simp add: memmove_forward_def head addr_simps copy_shifted_ok [OF pre])
  qed
qed

section \<open>Copying downwards\<close>

text \<open>Copying downwards is safe when no destination byte is a source byte of a lower index.\<close>

definition back_pre :: "mem \<Rightarrow> u64 \<Rightarrow> u64 \<Rightarrow> nat \<Rightarrow> bool" where
  "back_pre m d s N \<longleftrightarrow> N < 2 ^ 64 \<and> (\<forall>i < N. \<forall>j < N. i < j \<longrightarrow> addr d j \<noteq> addr s i) \<and> can_access m s N \<and> can_access m d N"

lemma back_preD:
  assumes "back_pre m d s N"
  shows "N < 2 ^ 64" "i < j \<Longrightarrow> j < N \<Longrightarrow> addr d j \<noteq> addr s i" "can_access m s N" "can_access m d N"
  using assms by (auto simp: back_pre_def)

text \<open>The memory when all but the first \<open>k\<close> bytes are copied; \<open>down k\<close> is the counter.\<close>

abbreviation copied_from :: "mem \<Rightarrow> u64 \<Rightarrow> u64 \<Rightarrow> nat \<Rightarrow> nat \<Rightarrow> mem" where
  "copied_from m d s N k \<equiv> put_range m d k N (bytes_at m s)"

abbreviation down :: "nat \<Rightarrow> u64" where
  "down k \<equiv> of_nat k"

lemma copied_from_source:
  "back_pre m d s N \<Longrightarrow> i < k \<Longrightarrow> k \<le> N \<Longrightarrow> content (copied_from m d s N k) (addr s i) = bytes_at m s i"
  by (subst content_put_other) (auto simp: bytes_at_def back_preD(2))

lemma down_simps:
  assumes "k < 2 ^ 64"
  shows "down k = 0 \<longleftrightarrow> k = 0" "8 \<le> down k \<longleftrightarrow> 8 \<le> k" "j < 2 ^ 64 \<Longrightarrow> down k \<le> of_nat j \<longleftrightarrow> k \<le> j"
  using assms unat_of_nat_u64 [of k] by (auto simp: word_le_nat_alt unat_of_nat_u64 unat_eq_0 [symmetric])

lemma back_byte_step:
  assumes pre: "back_pre m d s N" and k: "Suc k \<le> N"
  shows "read_byte (copied_from m d s N (Suc k)) (addr s k) = Some (bytes_at m s k)"
    and "write_byte (copied_from m d s N (Suc k)) (addr d k) (bytes_at m s k) = Some (copied_from m d s N k)"
proof -
  note P = back_preD [OF pre]
  show "read_byte (copied_from m d s N (Suc k)) (addr s k) = Some (bytes_at m s k)"
    using k P(3) copied_from_source [OF pre, of k "Suc k"] by (simp add: read_byte_eq can_accessD)
  show "write_byte (copied_from m d s N (Suc k)) (addr d k) (bytes_at m s k) = Some (copied_from m d s N k)"
    using k P by (subst write_byte_addr [where f = "bytes_at m s"]) (auto simp: can_accessD)
qed

lemma addr_pred: "addr p (Suc k) - 1 = addr p k"
  by (simp add: addr_def)

lemma back_bytes_ok:
  assumes pre: "back_pre m d s N" and k0: "k0 \<le> N"
    and b: "\<And>k. b (addr s k, down k) \<Longrightarrow> k \<le> N \<Longrightarrow> k \<noteq> 0"
  shows "\<exists>k \<le> k0. while_c (\<lambda>(m, s, d, n). b (s, n)) (\<lambda>(m, s, d, n). do {
        let s = s - 1;
        let d = d - 1;
        x \<leftarrow> read_byte m s;
        m \<leftarrow> write_byte m d x;
        Some (m, s, d, n - 1) }) (copied_from m d s N k0, addr s k0, addr d k0, down k0) =
      Some (copied_from m d s N k, addr s k, addr d k, down k) \<and> \<not> b (addr s k, down k)"
proof -
  let ?st = "\<lambda>k. (copied_from m d s N k, addr s k, addr d k, down k)"
  have "\<exists>st. while_c (\<lambda>(m, s, d, n). b (s, n)) (\<lambda>(m, s, d, n). do {
        let s = s - 1;
        let d = d - 1;
        x \<leftarrow> read_byte m s;
        m \<leftarrow> write_byte m d x;
        Some (m, s, d, n - 1) }) (?st k0) = Some st \<and> (\<exists>k \<le> k0. st = ?st k \<and> \<not> b (addr s k, down k))"
  proof (rule while_c_post [where N = k0 and k = 0 and R = "\<lambda>j st. st = ?st (k0 - j)"], goal_cases)
    case (3 j st)
    then have "k0 - j \<noteq> 0" using b [of "k0 - j"] k0 by auto
    then obtain k where k: "k0 - j = Suc k" by (cases "k0 - j") auto
    then have "Suc k \<le> N" "k = k0 - Suc j" "Suc j \<le> k0" using k0 by simp_all
    then show ?case
      using 3 k back_byte_step [OF pre, of k] by (auto simp: Let_def addr_pred intro!: exI [of _ "Suc j"])
  next
    case (4 j st)
    then show ?case by (intro exI [of _ "k0 - j"]) (simp del: of_nat_diff)
  qed auto
  then show ?thesis by blast
qed

lemma addr_minus_8: "8 \<le> k \<Longrightarrow> addr p k - 8 = addr p (k - 8)"
  using addr_minus [of 8 k p] by simp

lemma off8_addr_minus_8: "8 \<le> k \<Longrightarrow> off8 (addr p (k - 8)) = off8 (addr p k)"
  using off8_addr_plus_8 [of p "k - 8"] by simp

lemma down_minus_8: "8 \<le> k \<Longrightarrow> down k - 8 = down (k - 8)"
  by (simp add: of_nat_diff)

lemma back_write_word:
  assumes pre: "back_pre m d s N" and k: "8 \<le> k" "k \<le> N" "off8 (addr d k) = 0"
    and w: "\<And>y. y < 8 \<Longrightarrow> byte_of w y = bytes_at m s (k - 8 + y)"
  shows "write_u64 (copied_from m d s N k) (addr d (k - 8)) w = Some (copied_from m d s N (k - 8))"
  using assms back_preD(1,4) [OF pre]
  by (subst write_u64_addr [where f = "bytes_at m s"]) (auto simp: can_accessD off8_addr_minus_8)

text \<open>The word whose top byte, byte 7, is the source byte \<open>k - 1\<close>\<close>

lemma back_word:
  assumes pre: "back_pre m d s N" and k: "j \<le> k" "k \<le> N" "t < j" "t < 8"
  shows "byte_of (word_at (copied_from m d s N k) (addr s j - 8)) (7 - t) = bytes_at m s (j - 1 - t)"
proof -
  have "addr (addr s j - 8) (7 - t) = addr s (j - 1 - t)"
    using k by (simp add: addr_def of_nat_diff algebra_simps)
  then show ?thesis
    using k copied_from_source [OF pre, of "j - 1 - t" k] by (simp add: byte_of_word_at_addr)
qed

lemma back_read:
  assumes pre: "back_pre m d s N" and j: "0 < j" "j \<le> N" "off8 (addr s j) = 0"
  shows "read_u64 (copied_from m d s N k) (addr s j - 8) = Some (word_at (copied_from m d s N k) (addr s j - 8))"
proof -
  have "addr (addr s j - 8) 7 = addr s (j - 1)"
    using j by (simp add: addr_def of_nat_diff)
  moreover have "off8 (addr s j - 8) = 0" using off8_add_8 [of "addr s j - 8"] j by simp
  ultimately show ?thesis
    using j back_preD(3) [OF pre] by (intro read_u64_addr [where j = 7]) (simp_all add: can_accessD)
qed

lemma copy_words_back_ok:
  assumes pre: "back_pre m d s N" and k0: "k0 \<le> N" "off8 (addr s k0) = 0" "off8 (addr d k0) = 0"
  shows "\<exists>k \<le> k0. copy_words_back (copied_from m d s N k0) (addr s k0) (addr d k0) (down k0) =
    Some (copied_from m d s N k, addr s k, addr d k, down k)"
proof -
  let ?st = "\<lambda>k. (copied_from m d s N k, addr s k, addr d k, down k)"
  have "\<exists>st. copy_words_back (copied_from m d s N k0) (addr s k0) (addr d k0) (down k0) = Some st \<and> (\<exists>k \<le> k0. st = ?st k)"
    unfolding copy_words_back_def
  proof (rule while_c_post [where N = k0 and k = 0 and
        R = "\<lambda>j st. \<exists>k. k0 = k + j \<and> st = ?st k \<and> off8 (addr s k) = 0 \<and> off8 (addr d k) = 0"], goal_cases)
    case (3 j st)
    then obtain k where k: "k0 = k + j" "st = ?st k" "off8 (addr s k) = 0" "off8 (addr d k) = 0" by blast
    note P = back_preD [OF pre]
    have k8: "8 \<le> k" "k \<le> N" using 3(3) k k0 P(1) by (simp_all add: down_simps)
    let ?w = "word_at (copied_from m d s N k) (addr s (k - 8))"
    have s8: "addr s k - 8 = addr s (k - 8)" using k8 by (simp add: addr_minus_8)
    have rd: "read_u64 (copied_from m d s N k) (addr s (k - 8)) = Some ?w"
      using back_read [OF pre _ _ k(3), of k] k8 by (simp add: s8)
    have "byte_of ?w y = bytes_at m s (k - 8 + y)" if "y < 8" for y
      using back_word [OF pre order_refl k8(2), of "7 - y"] k8 that by (simp add: s8)
    then have wr: "write_u64 (copied_from m d s N k) (addr d (k - 8)) ?w = Some (copied_from m d s N (k - 8))"
      by (rule back_write_word [OF pre k8 k(4)])
    show ?case
      using k k8 rd wr k0
      by (intro exI [of _ "?st (k - 8)"] conjI exI [of _ "j + 8"] exI [of _ "k - 8"])
        (simp_all add: Let_def addr_minus_8 down_minus_8 off8_addr_minus_8 del: of_nat_diff)
  next
    case (4 j st)
    then obtain k where "k0 = k + j" "st = ?st k" by blast
    then show ?case by (intro exI [of _ k]) simp
  qed (use k0 in auto)
  then show ?thesis by blast
qed

text \<open>\<open>*dp = s_buf >> 56; s_buf <<= 8\<close>: the bytes of a word from the top\<close>

lemma top_byte: "(ucast (drop_bit 56 (push_bit (8 * t) buf)) :: u8) = byte_of buf (7 - t)" if "t < 8" for buf :: u64
proof -
  have "(ucast (drop_bit 56 (push_bit (8 * t) buf)) :: u8) = byte_of (push_bit (8 * t) buf) 7"
    by (simp add: byte_of_def)
  then show ?thesis using that by (simp add: byte_of_push)
qed

lemma store_back_ok:
  assumes pre: "back_pre m d s N" and k0: "k0 \<le> N" "x \<le> k0" "x \<le> 8"
    and buf: "\<And>t. t < x \<Longrightarrow> byte_of buf (7 - t) = bytes_at m s (k0 - 1 - t)"
  shows "x = min i k0 \<Longrightarrow> store_upto_back (copied_from m d s N k0) (addr d k0) buf i (down k0) =
      Some (copied_from m d s N (k0 - x), addr d (k0 - x), push_bit (8 * x) buf, i - x, down (k0 - x))"
    and "x = k0 \<Longrightarrow> store_tail_back (copied_from m d s N k0) (addr d k0) buf (down k0) =
      Some (copied_from m d s N 0, addr d 0, push_bit (8 * x) buf, 0)"
proof -
  note P = back_preD [OF pre]
  have wr: "write_byte (copied_from m d s N (k0 - t)) (addr d (k0 - Suc t)) (ucast (drop_bit 56 (push_bit (8 * t) buf))) =
      Some (copied_from m d s N (k0 - Suc t))" if "t < x" for t
  proof -
    have "k0 - t = Suc (k0 - Suc t)" "Suc (k0 - Suc t) \<le> N" using that k0 by simp_all
    moreover have "(ucast (drop_bit 56 (push_bit (8 * t) buf)) :: u8) = bytes_at m s (k0 - Suc t)"
      using that k0 buf by (simp only: top_byte less_le_trans) simp
    ultimately show ?thesis using back_byte_step(2) [OF pre] by simp
  qed
  have args: "addr d (k0 - t) - 1 = addr d (k0 - Suc t)" "down (k0 - t) - 1 = down (k0 - Suc t)" if "t < x" for t
    using that k0 by (simp_all add: addr_def of_nat_diff)
  have small: "k0 - t < 2 ^ 64" for t using k0 P(1) by simp
  show "store_upto_back (copied_from m d s N k0) (addr d k0) buf i (down k0) =
      Some (copied_from m d s N (k0 - x), addr d (k0 - x), push_bit (8 * x) buf, i - x, down (k0 - x))" if x: "x = min i k0"
  proof -
    let ?st = "\<lambda>t. (copied_from m d s N (k0 - t), addr d (k0 - t), push_bit (8 * t) buf, i - t, down (k0 - t))"
    have "\<exists>st. store_upto_back (copied_from m d s N k0) (addr d k0) buf i (down k0) = Some st \<and> st = ?st x"
      unfolding store_upto_back_def
    proof (rule while_c_post [where N = x and k = 0 and R = "\<lambda>t st. st = ?st t"], goal_cases)
      case (3 t st)
      then have "t < x" using x small [of t] by (auto simp: down_simps simp del: of_nat_diff)
      then show ?case
        using 3 wr args by (auto simp: Let_def push_bit_push_bit add.commute simp del: of_nat_diff intro!: exI [of _ "Suc t"])
    next
      case (4 t st)
      then have "\<not> t < x" using x small [of t] by (auto simp: down_simps simp del: of_nat_diff)
      then show ?case using 4 by simp
    qed auto
    then show ?thesis by simp
  qed
  show "store_tail_back (copied_from m d s N k0) (addr d k0) buf (down k0) =
      Some (copied_from m d s N 0, addr d 0, push_bit (8 * x) buf, 0)" if x: "x = k0"
  proof -
    let ?st = "\<lambda>t. (copied_from m d s N (k0 - t), addr d (k0 - t), push_bit (8 * t) buf, down (k0 - t))"
    have "\<exists>st. store_tail_back (copied_from m d s N k0) (addr d k0) buf (down k0) = Some st \<and> st = ?st x"
      unfolding store_tail_back_def
    proof (rule while_c_post [where N = x and k = 0 and R = "\<lambda>t st. st = ?st t"], goal_cases)
      case (3 t st)
      then have "t < x" using x small [of t] by (auto simp: down_simps simp del: of_nat_diff)
      then show ?case
        using 3 wr args by (auto simp: Let_def push_bit_push_bit add.commute simp del: of_nat_diff intro!: exI [of _ "Suc t"])
    next
      case (4 t st)
      then have "\<not> t < x" using x small [of t] by (auto simp: down_simps simp del: of_nat_diff)
      then show ?case using 4 by simp
    qed auto
    then show ?thesis using x by simp
  qed
qed

text \<open>The carried word: its upper \<open>8 - off\<close> bytes are the next ones to be written.\<close>

definition carries_down :: "mem \<Rightarrow> u64 \<Rightarrow> nat \<Rightarrow> nat \<Rightarrow> u64 \<Rightarrow> bool" where
  "carries_down m s off k buf \<longleftrightarrow>
     (\<forall>t < 8 - off. t < k \<longrightarrow> byte_of buf (7 - t) = bytes_at m s (k - 1 - t)) \<and> (\<forall>i < off. byte_of buf i = 0)"

lemma back_combine:
  assumes pre: "back_pre m d s N" and off: "off < 8" and buf: "carries_down m s off k buf"
    and k: "k \<le> N" "8 \<le> k + off" and t: "t < 8" "t < k"
  shows "byte_of (buf OR drop_bit (8 * (8 - off)) (word_at (copied_from m d s N k) (addr s (k + off - 8) - 8))) (7 - t) = bytes_at m s (k - 1 - t)"
proof (cases "t < 8 - off")
  case True
  then have "byte_of (drop_bit (8 * (8 - off)) w) (7 - t) = 0" for w
    by (simp only: byte_of_drop) (simp add: byte_of_ge)
  then show ?thesis using True buf t by (simp add: carries_down_def byte_of_or)
next
  case False
  then have "7 - t < off" using t off by simp
  then have "byte_of buf (7 - t) = 0" using buf by (simp add: carries_down_def)
  moreover have "8 - off + (7 - t) = 7 - (t - (8 - off))" using False t by simp
  moreover have "byte_of (word_at (copied_from m d s N k) (addr s (k + off - 8) - 8)) (7 - (t - (8 - off))) =
      bytes_at m s (k + off - 8 - 1 - (t - (8 - off)))"
    using False t k off by (intro back_word [OF pre]) auto
  moreover have "k + off - 8 - 1 - (t - (8 - off)) = k - 1 - t" using False t k off by simp
  ultimately show ?thesis by (simp only: byte_of_or byte_of_drop) simp
qed

lemma back_carry:
  assumes pre: "back_pre m d s N" and off: "off < 8" and k: "k \<le> N" "j \<le> k" "j = k' + off"
  shows "carries_down m s off k' (push_bit (8 * off) (word_at (copied_from m d s N k) (addr s j - 8)))"
  unfolding carries_down_def
proof safe
  fix t assume t: "t < 8 - off" "t < k'"
  then have "off \<le> 7 - t" "7 - t < 8" by simp_all
  then have "byte_of (push_bit (8 * off) (word_at (copied_from m d s N k) (addr s j - 8))) (7 - t) =
      byte_of (word_at (copied_from m d s N k) (addr s j - 8)) (7 - (t + off))"
    using off by (simp add: byte_of_push)
  also have "\<dots> = bytes_at m s (j - 1 - (t + off))"
    using t k by (intro back_word [OF pre]) auto
  also have "j - 1 - (t + off) = k' - 1 - t" using k by simp
  finally show "byte_of (push_bit (8 * off) (word_at (copied_from m d s N k) (addr s j - 8))) (7 - t) = bytes_at m s (k' - 1 - t)" .
qed (simp add: byte_of_push)

lemma shift_words_back_ok:
  assumes pre: "back_pre m d s N" and off: "0 < off" "off < 8"
    and k0: "k0 + off \<le> N" "off8 (addr s (k0 + off)) = 0" "off8 (addr d k0) = 0" "carries_down m s off k0 buf"
  shows "\<exists>k \<le> k0. \<exists>buf'. k < 8 \<and> off8 (addr s (k + off)) = 0 \<and> carries_down m s off k buf' \<and>
    shift_words_back off (copied_from m d s N k0) (addr s (k0 + off) - 8) (addr d k0) (down k0) buf =
      Some (copied_from m d s N k, addr s (k + off) - 8, addr d k, down k, buf')"
proof -
  let ?st = "\<lambda>k buf. (copied_from m d s N k, addr s (k + off) - 8, addr d k, down k, buf)"
  have "\<exists>st. shift_words_back off (copied_from m d s N k0) (addr s (k0 + off) - 8) (addr d k0) (down k0) buf = Some st \<and>
      (\<exists>k \<le> k0. \<exists>buf'. st = ?st k buf' \<and> k < 8 \<and> off8 (addr s (k + off)) = 0 \<and> carries_down m s off k buf')"
    unfolding shift_words_back_def
  proof (rule while_c_post [where N = k0 and k = 0 and
        R = "\<lambda>j st. \<exists>k buf. k0 = k + j \<and> st = ?st k buf \<and> off8 (addr s (k + off)) = 0 \<and> off8 (addr d k) = 0 \<and>
          carries_down m s off k buf"], goal_cases)
    case (3 j st)
    then obtain k buf where k: "k0 = k + j" "st = ?st k buf" "off8 (addr s (k + off)) = 0" "off8 (addr d k) = 0"
      "carries_down m s off k buf" by blast
    note P = back_preD [OF pre]
    have k8: "8 \<le> k" "k \<le> N" "k - 8 + off \<le> k" "k - 8 + off = k + off - 8" using 3(3) k(1,2) k0(1) P(1) off by (simp_all add: down_simps)
    let ?w = "word_at (copied_from m d s N k) (addr s (k - 8 + off) - 8)"
    have s16: "addr s (k + off) - 8 - 8 = addr s (k - 8 + off) - 8"
      using k8 by (simp add: addr_def of_nat_diff)
    have al: "off8 (addr s (k - 8 + off)) = 0"
      using off8_addr_minus_8 [of "k + off" s] k(3) k8 by simp
    have rd: "read_u64 (copied_from m d s N k) (addr s (k - 8 + off) - 8) = Some ?w"
      using off k8 by (intro back_read [OF pre _ _ al]) auto
    have "byte_of (buf OR drop_bit (8 * (8 - off)) ?w) y = bytes_at m s (k - 8 + y)" if "y < 8" for y
      using back_combine [OF pre off(2) k(5) k8(2), of "7 - y"] that k8 by simp
    then have wr: "write_u64 (copied_from m d s N k) (addr d (k - 8)) (buf OR drop_bit (8 * (8 - off)) ?w) =
        Some (copied_from m d s N (k - 8))"
      by (rule back_write_word [OF pre k8(1,2) k(4)])
    have carry: "carries_down m s off (k - 8) (push_bit (8 * off) ?w)"
      by (rule back_carry [OF pre off(2) k8(2,3) refl])
    show ?case
      using k k8 rd wr carry al s16
      by (intro exI [of _ "?st (k - 8) (push_bit (8 * off) ?w)"] conjI exI [of _ "j + 8"] exI [of _ "k - 8"] exI [of _ "push_bit (8 * off) ?w"])
        (simp_all add: Let_def addr_minus_8 down_minus_8 off8_addr_minus_8 del: of_nat_diff)
  next
    case (4 j st)
    then obtain k buf where k: "k0 = k + j" "st = ?st k buf" "off8 (addr s (k + off)) = 0" "carries_down m s off k buf"
      "\<not> 8 \<le> down k" by auto
    then have "k < 8" using k0(1) back_preD(1) [OF pre] by (simp add: down_simps)
    then show ?case using k by (intro exI [of _ k] exI [of _ buf]) simp
  qed (use k0 in auto)
  then show ?thesis by blast
qed

lemma memmove_backward_ok:
  assumes pre: "back_pre m dest src (unat n)"
  shows "memmove_backward m dest src n = Some (copied m dest src (unat n), dest)"
proof -
  let ?N = "unat n"
  note P = back_preD [OF pre]
  have start: "src + n = addr src ?N" "dest + n = addr dest ?N" "n = down ?N" by (simp_all add: addr_def)
  obtain k where k: "k \<le> ?N" and head: "copy_head_back m (src + n) (dest + n) n =
      Some (copied_from m dest src ?N k, addr src k, addr dest k, down k)"
    and stop: "\<not> (down k \<noteq> 0 \<and> addr src k AND 7 \<noteq> 0)"
  proof -
    have "k \<noteq> 0" if "case (addr src k, down k) of (s, n) \<Rightarrow> n \<noteq> 0 \<and> s AND 7 \<noteq> 0" for k
      using that by (cases k) auto
    from back_bytes_ok [OF pre order_refl, where b = "\<lambda>(s, n). n \<noteq> 0 \<and> s AND 7 \<noteq> 0", OF this] that show thesis
      unfolding copy_head_back_def start(1,2) by auto
  qed
  consider (none) "k = 0" | (words) "0 < k" "off8 (addr dest k) = 0" | (shift) "0 < k" "off8 (addr dest k) \<noteq> 0"
    by blast
  then show ?thesis
  proof cases
    case none
    then show ?thesis by (simp add: memmove_backward_def head)
  next
    case words
    have nz: "down k \<noteq> 0" using words k P(1) by (simp add: down_simps)
    have al: "off8 (addr src k) = 0" using stop nz by (simp add: and_7_zero_iff)
    obtain k2 where k2: "k2 \<le> k" and body: "copy_words_back (copied_from m dest src ?N k) (addr src k) (addr dest k) (down k) =
        Some (copied_from m dest src ?N k2, addr src k2, addr dest k2, down k2)"
      using copy_words_back_ok [OF pre k al words(2)] by blast
    have "k2 \<le> ?N" using k k2 by simp
    then obtain k3 where "copy_tail_back (copied_from m dest src ?N k2) (addr src k2) (addr dest k2) (down k2) =
        Some (copied_from m dest src ?N k3, addr src k3, addr dest k3, down k3)" "k3 \<le> k2" "down k3 = 0"
    proof -
      have "k \<noteq> 0" if "case (addr src k, down k) of (s, n) \<Rightarrow> n \<noteq> 0" for k
        using that by (cases k) auto
      from back_bytes_ok [OF pre \<open>k2 \<le> ?N\<close>, where b = "\<lambda>(s, n). n \<noteq> 0", OF this] that show thesis
        unfolding copy_tail_back_def by auto
    qed
    moreover from this have "k3 = 0" using k k2 P(1) by (simp add: down_simps)
    ultimately show ?thesis
      using nz words by (simp add: memmove_backward_def head and_7_zero_iff body)
  next
    case shift
    have nz: "down k \<noteq> 0" using shift k P(1) by (simp add: down_simps)
    have al: "off8 (addr src k) = 0" using stop nz by (simp add: and_7_zero_iff)
    define off where "off = off8 (addr dest k)"
    have off: "0 < off" "off < 8" using shift(2) by (simp_all add: off_def off8_less)
    let ?w = "word_at (copied_from m dest src ?N k) (addr src k - 8)"
    have rd: "read_u64 (copied_from m dest src ?N k) (addr src k - 8) = Some ?w"
      by (rule back_read [OF pre shift(1) k al])
    note unfold = memmove_backward_def head nz shift(2) and_7_zero_iff unat_and_7 off_def [symmetric] Let_def rd
    have bw: "byte_of ?w (7 - t) = bytes_at m src (k - 1 - t)" if "t < k" "t < 8" for t
      using back_word [OF pre order_refl k] that by simp
    have first: "store_upto_back (copied_from m dest src ?N k) (addr dest k) ?w off (down k) =
        Some (copied_from m dest src ?N (k - min off k), addr dest (k - min off k), push_bit (8 * min off k) ?w, off - min off k, down (k - min off k))"
      using off k bw by (intro store_back_ok(1) [OF pre]) auto
    show ?thesis
    proof (cases "k \<le> off")
      case True
      then show ?thesis using first off by (simp add: unfold)
    next
      case False
      define k1 where "k1 = k - off"
      have k1: "k = k1 + off" "0 < k1" "k1 + off \<le> ?N" using False k by (simp_all add: k1_def)
      have first': "store_upto_back (copied_from m dest src ?N k) (addr dest k) ?w off (down k) =
          Some (copied_from m dest src ?N k1, addr dest k1, push_bit (8 * off) ?w, 0, down k1)"
        using first False by (simp add: k1_def)
      have nz1: "down k1 \<noteq> 0" using k1 k P(1) by (simp add: down_simps)
      have carry: "carries_down m src off k1 (push_bit (8 * off) ?w)"
        by (rule back_carry [OF pre off(2) k order_refl k1(1)])
      have "off8 (addr dest k - of_nat off) = 0" by (subst off8_diff) (simp_all add: off_def)
      then have ald: "off8 (addr dest k1) = 0" using False by (simp add: k1_def addr_minus)
      from shift_words_back_ok [OF pre off k1(3) _ ald carry] al k1(1) obtain k2 buf where
        k2: "k2 \<le> k1" "k2 < 8" "off8 (addr src (k2 + off)) = 0" "carries_down m src off k2 buf"
        and body: "shift_words_back off (copied_from m dest src ?N k1) (addr src k - 8) (addr dest k1) (down k1) (push_bit (8 * off) ?w) =
          Some (copied_from m dest src ?N k2, addr src (k2 + off) - 8, addr dest k2, down k2, buf)"
        by auto
      note run = unfold first' nz1 body
      have k2N: "k2 \<le> ?N" using k2(1) k1 k by simp
      show ?thesis
      proof (cases "k2 = 0")
        case True
        then show ?thesis using off by (simp add: run)
      next
        case False
        then have nz2: "down k2 \<noteq> 0" using k2N P(1) by (simp add: down_simps)
        have le: "down k2 \<le> of_nat (8 - off) \<longleftrightarrow> k2 \<le> 8 - off"
          using k2N P(1) by (intro down_simps(3)) auto
        let ?w2 = "if k2 \<le> 8 - off then 0 else word_at (copied_from m dest src ?N k2) (addr src (k2 + off - 8) - 8)"
        have s16: "addr src (k2 + off) - 8 - 8 = addr src (k2 + off - 8) - 8" if "\<not> k2 \<le> 8 - off"
          using that by (simp add: addr_def of_nat_diff)
        have al2: "off8 (addr src (k2 + off - 8)) = 0" if "\<not> k2 \<le> 8 - off"
          using that k2(3) off8_addr_minus_8 [of "k2 + off" src] by simp
        have rd2: "(if down k2 \<le> of_nat (8 - off) then Some 0 else read_u64 (copied_from m dest src ?N k2) (addr src (k2 + off) - 8 - 8)) = Some ?w2"
        proof (cases "k2 \<le> 8 - off")
          case True
          then show ?thesis by (simp only: le if_True)
        next
          case False
          have "read_u64 (copied_from m dest src ?N k2) (addr src (k2 + off - 8) - 8) = Some ?w2"
            using False k2(1,2) k1 off k by (simp only: if_False) (intro back_read [OF pre _ _ al2], auto)
          with False show ?thesis by (simp only: le s16 [OF False] if_False)
        qed
        have "byte_of (buf OR drop_bit (8 * (8 - off)) ?w2) (7 - t) = bytes_at m src (k2 - 1 - t)" if "t < k2" for t
        proof (cases "k2 \<le> 8 - off")
          case True
          then show ?thesis using k2(4) that by (simp add: carries_down_def)
        next
          case False
          then show ?thesis
            using back_combine [OF pre off(2) k2(4) k2N, of t] that k2(2) by simp
        qed
        then have "store_tail_back (copied_from m dest src ?N k2) (addr dest k2) (buf OR drop_bit (8 * (8 - off)) ?w2) (down k2) =
            Some (copied_from m dest src ?N 0, addr dest 0, push_bit (8 * k2) (buf OR drop_bit (8 * (8 - off)) ?w2), 0)"
          using k2N k2(2) by (intro store_back_ok(2) [OF pre]) auto
        then show ?thesis
          using rd2 nz2 off le by (cases "k2 \<le> 8 - off") (simp_all add: run del: of_nat_diff)
      qed
    qed
  qed
qed

section \<open>The choice of direction\<close>

lemma addr_eq_iff: "addr d j = addr s i \<longleftrightarrow> d - s = of_nat i - of_nat j"
  by (auto simp: addr_def algebra_simps)

lemma unat_diff_cases:
  fixes d s :: u64
  shows "unat (d - s) = (if s \<le> d then unat d - unat s else 2 ^ 64 + unat d - unat s)"
proof (cases "s \<le> d")
  case True
  then show ?thesis by (simp add: unat_sub)
next
  case False
  have lt: "2 ^ 64 + unat d - unat s < 2 ^ 64"
    using False by (simp add: word_le_nat_alt)
  have "d - s = of_nat (2 ^ 64 + unat d - unat s)"
    using unat_less_2p64 [of s] by (simp add: of_nat_diff)
  then show ?thesis using False unat_of_nat_u64 [OF lt] by simp
qed

lemma unat_addr: "unat p + i < 2 ^ 64 \<Longrightarrow> unat (addr p i) = unat p + i"
  by (simp add: addr_def unat_word_ariths unat_of_nat take_bit_nat_eq_self)

lemma addr_eq_unat:
  "unat d + j < 2 ^ 64 \<Longrightarrow> unat s + i < 2 ^ 64 \<Longrightarrow> addr d j = addr s i \<longleftrightarrow> unat d + j = unat s + i"
  by (metis unat_addr word_unat_eq_iff)

lemma far_apart:
  fixes dest src n :: u64
  assumes "src - dest - n \<le> - 2 * n" "n \<noteq> 0" "2 * unat n < 2 ^ 64"
  shows "unat dest + unat n \<le> unat src \<or> unat src + unat n \<le> unat dest"
proof -
  have n: "unat (2 * n) = 2 * unat n" using assms(3) by (simp add: unat_word_ariths)
  have "0 < unat n" using assms(2) by (simp add: unat_gt_0)
  then have "\<not> 2 * n \<le> 0" using n by (simp add: word_le_nat_alt)
  then have neg: "unat (- 2 * n) = 2 ^ 64 - 2 * unat n"
    using unat_diff_cases [of 0 "2 * n"] n by simp
  have "unat (src - dest - n) \<le> unat (- 2 * n)" using assms(1) by (simp only: word_le_nat_alt)
  then show ?thesis
    using \<open>0 < unat n\<close> assms(3) unat_less_2p64 [of "src - dest"] unat_less_2p64 [of src] unat_less_2p64 [of dest]
      unat_diff_cases [of src dest]
    unfolding neg unat_diff_cases [of "src - dest" n]
    by (auto simp: word_le_nat_alt split: if_splits)
qed

lemma copied_self: "copied m p p N = m" if "N \<le> 2 ^ 64"
  by (rule put_range_content_eqI) (auto simp: bytes_at_def addr_def)

text \<open>C36: whatever the overlap and the alignments of the two accessible buffers, \<open>memmove\<close>
  returns \<open>dest\<close>; the \<open>n\<close> bytes from \<open>dest\<close> then hold what \<open>src\<close> held before the call, and no
  other byte changes. The buffers end within the address space, and \<open>2 n\<close> does not overflow.\<close>

theorem memmove_correct:
  assumes "unat dest + unat n \<le> 2 ^ 64" "unat src + unat n \<le> 2 ^ 64" "2 * unat n < 2 ^ 64"
    and "can_access m src (unat n)" "can_access m dest (unat n)"
  shows "memmove m dest src n = Some (put_bytes m dest (unat n) (bytes_at m src), dest)"
proof -
  have eq: "addr dest j = addr src i \<longleftrightarrow> unat dest + j = unat src + i" if "i < unat n" "j < unat n" for i j
    using that assms(1,2) by (intro addr_eq_unat) auto
  have up: "copy_pre m dest src (unat n)" if "\<And>i j. j < i \<Longrightarrow> i < unat n \<Longrightarrow> unat dest + j \<noteq> unat src + i"
    using that assms(4,5) unat_less_2p64 [of n] by (auto simp: copy_pre_def fwd_ok_def eq)
  have "back_pre m dest src (unat n)" if "unat src \<le> unat dest"
    using that assms(4,5) unat_less_2p64 [of n] by (auto simp: back_pre_def eq)
  moreover have "copy_pre m dest src (unat n)" if "unat dest < unat src"
    using that by (intro up) auto
  moreover have "copy_pre m dest src (unat n)" if "src - dest - n \<le> - 2 * n"
    using far_apart [OF that] assms(3) by (intro up) fastforce
  ultimately show ?thesis
    using unat_less_2p64 [of n]
    by (auto simp: memmove_def memcpy_forward memmove_forward_ok memmove_backward_ok copied_self word_less_nat_alt)
qed

theorem memmove_witness:
  "memmove demo_mem 21 18 17 = Some (put_bytes demo_mem 21 (unat (17 :: u64)) (bytes_at demo_mem 18), 21) \<and>
   memmove demo_mem 18 21 17 = Some (put_bytes demo_mem 18 (unat (17 :: u64)) (bytes_at demo_mem 21), 18)"
  using memmove_correct [of 21 17 18 demo_mem] memmove_correct [of 18 17 21 demo_mem]
  by (simp add: demo_mem_access)

end
