(* ===== verification/MemCmp.thy ===== *)
theory MemCmp
  imports SafeCmp
begin

text \<open>
  \<open>memcmp\<close> of \<open>src/string\<close>, and what it shares with \<open>strcmp\<close> and \<open>strncmp\<close>: the loops that
  walk through two buffer words up to the first difference, and the position at which a
  comparison stops.
\<close>

section \<open>The comparison of two buffer words\<close>

text \<open>\<open>((int32_t) a) - ((int32_t) b)\<close> of two bytes, in 32-bit arithmetic\<close>

definition byte_diff :: "u8 \<Rightarrow> u8 \<Rightarrow> u32" where
  "byte_diff a b = ucast a - ucast b"

definition diff_low :: "u64 \<Rightarrow> u64 \<Rightarrow> u32" where
  "diff_low l_buf r_buf = ucast (l_buf AND 0xff) - ucast (r_buf AND 0xff)"

text \<open>\<open>while (i && n && (l_buf & 0xff) && (l_buf & 0xff) == (r_buf & 0xff))
  { l_buf >>= 8; r_buf >>= 8; i--; n--; }\<close>; the flags say which of the first three conditions
  a loop has, and so which of the counters it decrements.\<close>

definition match_low :: "bool \<Rightarrow> bool \<Rightarrow> bool \<Rightarrow> u64 \<times> u64 \<times> nat \<times> u64 \<Rightarrow> (u64 \<times> u64 \<times> nat \<times> u64) option" where
  "match_low ti tn tz =
     while_c (\<lambda>(l_buf, r_buf, i, n). (ti \<longrightarrow> i \<noteq> 0) \<and> (tn \<longrightarrow> n \<noteq> 0) \<and> (tz \<longrightarrow> l_buf AND 0xff \<noteq> 0) \<and>
         l_buf AND 0xff = r_buf AND 0xff)
       (\<lambda>(l_buf, r_buf, i, n).
          Some (drop_bit 8 l_buf, drop_bit 8 r_buf, if ti then i - 1 else i, if tn then n - 1 else n))"

section \<open>memcmp\<close>

text \<open>The loop over single bytes is left by \<open>break\<close> at a difference.\<close>

definition memcmp_bytes :: "mem \<Rightarrow> u64 \<Rightarrow> u64 \<Rightarrow> u64 \<Rightarrow> (u64 \<times> u64 \<times> u64 + u64 \<times> u64 \<times> u64) option" where
  "memcmp_bytes m vl vr n =
     while_ret (\<lambda>(l, r, n). n \<noteq> 0 \<and> l AND 7 \<noteq> 0)
       (\<lambda>(l, r, n). do {
          a \<leftarrow> read_byte m l;
          b \<leftarrow> read_byte m r;
          Some (if a \<noteq> b then Inl (l, r, n) else Inr (l + 1, r + 1, n - 1)) })
       (vl, vr, n)"

definition memcmp_words :: "mem \<Rightarrow> u64 \<Rightarrow> u64 \<Rightarrow> u64 \<Rightarrow> (u32 + u64 \<times> u64 \<times> u64) option" where
  "memcmp_words m l r n =
     while_ret (\<lambda>(l, r, n). n \<ge> 8)
       (\<lambda>(l, r, n). do {
          l_buf \<leftarrow> read_u64 m l;
          r_buf \<leftarrow> read_u64 m r;
          if l_buf \<noteq> r_buf then do {
            (l_buf, r_buf, _) \<leftarrow> match_low False False False (l_buf, r_buf, 0, 0);
            Some (Inl (diff_low l_buf r_buf)) }
          else Some (Inr (l + 8, r + 8, n - 8)) })
       (l, r, n)"

definition memcmp_shift ::
  "nat \<Rightarrow> mem \<Rightarrow> u64 \<Rightarrow> u64 \<Rightarrow> u64 \<Rightarrow> u64 \<Rightarrow> (u64 \<times> u64 + u64 \<times> u64 \<times> u64 \<times> u64) option" where
  "memcmp_shift r_off m l r n l_buf =
     while_ret (\<lambda>(l, r, n, l_buf). n \<ge> 8)
       (\<lambda>(l, r, n, l_buf). do {
          l_buf2 \<leftarrow> read_u64 m l;
          r_buf \<leftarrow> read_u64 m r;
          let l_buf3 = l_buf OR push_bit (8 * r_off) l_buf2;
          Some (if l_buf3 \<noteq> r_buf then Inl (l_buf3, r_buf)
                else Inr (l + 8, r + 8, n - 8, drop_bit (8 * (8 - r_off)) l_buf2)) })
       (l, r, n, l_buf)"

definition memcmp_shifted :: "mem \<Rightarrow> u64 \<Rightarrow> u64 \<Rightarrow> u64 \<Rightarrow> u32 option" where
  "memcmp_shifted m l r n = do {
     let r_off = unat (r AND 7);
     l_buf \<leftarrow> read_u64 m l;
     r_buf \<leftarrow> read_u64 m (r - of_nat r_off);
     let r_buf = drop_bit (8 * r_off) r_buf;
     (l_buf, r_buf, i, n) \<leftarrow> match_low True True False (l_buf, r_buf, 8 - r_off, n);
     if n = 0 then Some 0
     else if i \<noteq> 0 then Some (diff_low l_buf r_buf)
     else do {
       x \<leftarrow> memcmp_shift r_off m (l + 8) (r + of_nat (8 - r_off)) n l_buf;
       case x of
         Inl (l_buf3, r_buf) \<Rightarrow> do {
           (l_buf3, r_buf, _) \<leftarrow> match_low False False False (l_buf3, r_buf, 0, 0);
           Some (diff_low l_buf3 r_buf) }
       | Inr (l, r, n, l_buf) \<Rightarrow>
           if n = 0 then Some 0
           else do {
             l_buf2 \<leftarrow> (if n \<le> of_nat r_off then Some 0 else read_u64 m l);
             r_buf \<leftarrow> read_u64 m r;
             let l_buf3 = l_buf OR push_bit (8 * r_off) l_buf2;
             (l_buf3, r_buf, _, n) \<leftarrow> match_low False True False (l_buf3, r_buf, 0, n);
             Some (if n = 0 then 0 else diff_low l_buf3 r_buf) } } }"

definition memcmp :: "mem \<Rightarrow> u64 \<Rightarrow> u64 \<Rightarrow> u64 \<Rightarrow> u32 option" where
  "memcmp m vl vr n = do {
     x \<leftarrow> memcmp_bytes m vl vr n;
     let (l, r, n) = (case x of Inl st \<Rightarrow> st | Inr st \<Rightarrow> st);
     if n = 0 then Some 0
     else do {
       a \<leftarrow> read_byte m l;
       b \<leftarrow> read_byte m r;
       if a \<noteq> b then Some (byte_diff a b)
       else if r AND 7 = 0 then do {
         x \<leftarrow> memcmp_words m l r n;
         case x of
           Inl v \<Rightarrow> Some v
         | Inr (l, r, n) \<Rightarrow>
             if n = 0 then Some 0
             else do {
               l_buf \<leftarrow> read_u64 m l;
               r_buf \<leftarrow> read_u64 m r;
               (l_buf, r_buf, _, n) \<leftarrow> match_low False True False (l_buf, r_buf, 0, n);
               Some (if n = 0 then 0 else diff_low l_buf r_buf) } }
       else memcmp_shifted m l r n } }"

section \<open>Where a comparison stops\<close>

text \<open>The first position \<open>j\<close> below \<open>N\<close> at which the bytes differ, or the left one is zero where
  that ends the comparison; \<open>N\<close> if there is none.  On the left \<open>A\<close> bytes are accessible, on
  the right nothing beyond that position need be.\<close>

definition cmp_stop :: "bool \<Rightarrow> mem \<Rightarrow> u64 \<Rightarrow> u64 \<Rightarrow> nat \<Rightarrow> nat \<Rightarrow> nat \<Rightarrow> bool" where
  "cmp_stop tz m l r A N j \<longleftrightarrow> j \<le> N \<and>
     (\<forall>i < j. bytes_at m l i = bytes_at m r i \<and> (tz \<longrightarrow> bytes_at m l i \<noteq> 0)) \<and>
     (j < N \<longrightarrow> bytes_at m l j \<noteq> bytes_at m r j \<or> tz \<and> bytes_at m l j = 0) \<and>
     min (Suc j) N \<le> A \<and> can_access m l A \<and> can_access m r (min (Suc j) N)"

definition cmp_value :: "mem \<Rightarrow> u64 \<Rightarrow> u64 \<Rightarrow> nat \<Rightarrow> nat \<Rightarrow> u32" where
  "cmp_value m l r N j = (if j < N then byte_diff (bytes_at m l j) (bytes_at m r j) else 0)"

lemma cmp_stopD:
  assumes "cmp_stop tz m l r A N j"
  shows "j \<le> N" "i < j \<Longrightarrow> bytes_at m l i = bytes_at m r i" "i < j \<Longrightarrow> tz \<Longrightarrow> bytes_at m r i \<noteq> 0"
    "j < N \<Longrightarrow> bytes_at m l j = bytes_at m r j \<Longrightarrow> tz \<and> bytes_at m r j = 0"
    "k \<le> j \<Longrightarrow> k < N \<Longrightarrow> accessible m (addr l k)" "k \<le> j \<Longrightarrow> k < N \<Longrightarrow> accessible m (addr r k)"
    "k < A \<Longrightarrow> accessible m (addr l k)"
  using assms by (auto simp: cmp_stop_def can_access_def)

text \<open>Two words that hold the bytes from position \<open>k\<close> on, as far as \<open>X\<close> goes.\<close>

definition holds :: "mem \<Rightarrow> u64 \<Rightarrow> u64 \<Rightarrow> nat \<Rightarrow> nat \<Rightarrow> u64 \<Rightarrow> u64 \<Rightarrow> bool" where
  "holds m l r k X v w \<longleftrightarrow> X \<le> 8 \<and> (\<forall>y < X. byte_of v y = bytes_at m l (k + y) \<and> byte_of w y = bytes_at m r (k + y))"

lemma ucast_u8_u32 [simp]: "(ucast (ucast (b :: u8) :: u64) :: u32) = ucast b"
  by (rule bit_word_eqI) (auto simp: bit_simps dest: bit_imp_le_length)

lemma diff_low_drop: "diff_low (drop_bit (8 * x) v) (drop_bit (8 * x) w) = byte_diff (byte_of v x) (byte_of w x)"
  by (simp add: diff_low_def byte_diff_def and_ff_ucast byte_of_drop)

lemma match_low_gen:
  assumes stop: "cmp_stop tz m l r A N j" and k: "k \<le> j" and v: "holds m l r k X v w"
    and x: "x \<le> j - k" "x \<le> X" "ti \<Longrightarrow> x \<le> i"
    and n: "tn \<Longrightarrow> n = remaining N k" "tn \<Longrightarrow> N < 2 ^ 64"
    and tz: "tz' \<noteq> tz \<Longrightarrow> \<not> tz' \<and> (\<forall>y < X. byte_of v y \<noteq> 0)"
    and halt: "ti \<and> x = i \<or> x = j - k \<and> (tn \<and> j = N \<or> j < N \<and> x < X)"
  shows "match_low ti tn tz' (v, w, i, n) =
    Some (drop_bit (8 * x) v, drop_bit (8 * x) w, if ti then i - x else i, if tn then remaining N (k + x) else n)"
proof -
  note P = cmp_stopD [OF stop]
  let ?st = "\<lambda>y. (drop_bit (8 * y) v, drop_bit (8 * y) w, if ti then i - y else i, if tn then remaining N (k + y) else n)"
  have nz: "tz' \<noteq> tz \<Longrightarrow> \<not> tz'" "tz' \<noteq> tz \<Longrightarrow> x < X \<Longrightarrow> byte_of v x \<noteq> 0"
    using tz by blast+
  have "\<exists>st. match_low ti tn tz' (v, w, i, n) = Some st \<and> st = ?st x"
    unfolding match_low_def
  proof (rule while_c_post [where N = x and k = 0 and R = "\<lambda>y st. st = ?st y"], goal_cases)
    case (3 y st)
    have "y < x"
    proof (rule ccontr)
      assume "\<not> y < x"
      then have "y = x" using 3 by simp
      then show False
        using 3 halt v P(4) k n(2) nz by (auto simp: holds_def and_ff_eq_iff and_ff_zero_iff byte_of_drop remaining_eq_0)
    qed
    then show ?case
      using 3 P(1) x k by (auto simp: drop_bit_drop_bit addr_simps intro!: exI [of _ "Suc y"])
  next
    case (4 y st)
    have "\<not> y < x"
    proof
      assume "y < x"
      moreover from this have "k + y < j" "k + y < N" using x(1) k P(1) by auto
      ultimately show False
        using 4 v x k n(2) tz P(1) P(2) [of "k + y"] P(3) [of "k + y"]
        by (auto simp: holds_def and_ff_eq_iff and_ff_zero_iff byte_of_drop remaining_eq_0)
    qed
    then show ?case using 4 by simp
  qed (use n in auto)
  then show ?thesis by simp
qed

lemmas match_low_at = match_low_gen [where tz' = tz and tz = tz for tz, simplified]

lemma match_low_value:
  assumes "cmp_stop tz m l r A N j" "k \<le> j" "holds m l r k X v w" "j - k < X" "j < N"
  shows "diff_low (drop_bit (8 * (j - k)) v) (drop_bit (8 * (j - k)) w) = cmp_value m l r N j"
  using assms by (simp add: diff_low_drop cmp_value_def holds_def)

lemma holds_neq:
  assumes "cmp_stop tz m l r A N j" "k \<le> j" "holds m l r k 8 v w" "v \<noteq> w"
  shows "j < k + 8"
proof (rule ccontr)
  assume "\<not> j < k + 8"
  then have "byte_of v i = byte_of w i" if "i < 8" for i
    using that assms(3) cmp_stopD(2) [OF assms(1), of "k + i"] by (simp add: holds_def)
  with assms(4) show False using byte_of_eqI by blast
qed

lemma holds_eq:
  assumes "cmp_stop tz m l r A N j" "k \<le> j" "holds m l r k 8 v v" "j < k + 8 \<Longrightarrow> j < N" "tz \<Longrightarrow> \<forall>i < 8. byte_of v i \<noteq> 0"
  shows "k + 8 \<le> j"
proof (rule ccontr)
  assume "\<not> k + 8 \<le> j"
  then have "bytes_at m l j = bytes_at m r j" "tz \<Longrightarrow> bytes_at m r j \<noteq> 0"
    using assms(2,3,5) by (auto simp: holds_def dest!: spec [of _ "j - k"])
  with cmp_stopD(4) [OF assms(1)] \<open>\<not> k + 8 \<le> j\<close> assms(4) show False by auto
qed

lemma holds_words: "holds m l r k 8 (word_at m (addr l k)) (word_at m (addr r k))"
  by (simp add: holds_def bytes_of_word)

lemma holds_carried:
  assumes "carries m l off k buf" "off < 8"
  shows "holds m l r k 8 (buf OR push_bit (8 * off) (word_at m (addr l (k + off)))) (word_at m (addr r k))"
  using assms by (simp add: holds_def bytes_of_word carries_combine)

lemma read_at_stop:
  assumes "cmp_stop tz m l r A N j" "k \<le> j" "k < N"
  shows "off8 (addr l k) = 0 \<Longrightarrow> read_u64 m (addr l k) = Some (word_at m (addr l k))"
    and "off8 (addr r k) = 0 \<Longrightarrow> read_u64 m (addr r k) = Some (word_at m (addr r k))"
    and "read_byte m (addr l k) = Some (bytes_at m l k)"
    and "read_byte m (addr r k) = Some (bytes_at m r k)"
  using cmp_stopD(5,6) [OF assms] by (auto intro!: read_u64_addr [where j = 0] simp: addr_simps read_byte_eq bytes_at_def)

section \<open>Correctness of \<open>memcmp\<close>\<close>

lemma memcmp_bytes_ok:
  assumes stop: "cmp_stop False m l r A N j" and N: "N < 2 ^ 64"
  shows "\<exists>x. memcmp_bytes m l r (remaining N 0) = Some x \<and>
    (\<exists>k \<le> j. (case x of Inl st \<Rightarrow> st | Inr st \<Rightarrow> st) = (addr l k, addr r k, remaining N k) \<and>
      (k < j \<longrightarrow> off8 (addr l k) = 0))"
  unfolding memcmp_bytes_def
proof (rule while_ret_post [where N = j and k = 0 and R = "\<lambda>k st. st = (addr l k, addr r k, remaining N k)"], goal_cases)
  case (3 k st)
  note P = cmp_stopD [OF stop]
  from 3 have k: "k < N" using P(1) N by (auto simp: addr_simps)
  show ?case
  proof (cases "k = j")
    case True
    then show ?thesis using 3 k P(4) read_at_stop [OF stop _ k] by auto
  next
    case False
    with 3 have "k < j" by simp
    then show ?thesis
      using 3 k P(2) read_at_stop [OF stop _ k] by (auto simp: addr_simps intro!: exI [of _ "Suc k"])
  qed
next
  case (4 k st)
  then show ?case using cmp_stopD(1) [OF stop] N by (auto simp: addr_simps)
qed (auto simp: addr_simps)

lemma memcmp_words_ok:
  assumes stop: "cmp_stop False m l r A N j" and N: "N < 2 ^ 64"
    and k0: "k0 \<le> j" "off8 (addr l k0) = 0" "off8 (addr r k0) = 0"
  shows "\<exists>x. memcmp_words m (addr l k0) (addr r k0) (remaining N k0) = Some x \<and>
    (x = Inl (cmp_value m l r N j) \<or>
     (\<exists>k \<le> j. x = Inr (addr l k, addr r k, remaining N k) \<and> N < k + 8 \<and> off8 (addr l k) = 0 \<and> off8 (addr r k) = 0))"
  unfolding memcmp_words_def
proof (rule while_ret_post [where N = j and k = k0 and
      R = "\<lambda>k st. st = (addr l k, addr r k, remaining N k) \<and> off8 (addr l k) = 0 \<and> off8 (addr r k) = 0"], goal_cases)
  case (3 k st)
  then have k: "k + 8 \<le> N" using cmp_stopD(1) [OF stop] N by (auto simp: addr_simps)
  then have rd: "read_u64 m (addr l k) = Some (word_at m (addr l k))" "read_u64 m (addr r k) = Some (word_at m (addr r k))"
    using 3 read_at_stop [OF stop, of k] by auto
  note hold = holds_words [of m l r k]
  show ?case
  proof (cases "word_at m (addr l k) = word_at m (addr r k)")
    case True
    then have "k + 8 \<le> j" using holds_eq [OF stop] 3 hold k by simp
    then show ?thesis using 3 k rd True by (auto simp: addr_simps intro!: exI [of _ "k + 8"])
  next
    case False
    then have j: "j < k + 8" using holds_neq [OF stop _ hold] 3 by simp
    moreover have "match_low False False False (word_at m (addr l k), word_at m (addr r k), 0, 0) =
        Some (drop_bit (8 * (j - k)) (word_at m (addr l k)), drop_bit (8 * (j - k)) (word_at m (addr r k)), 0, 0)"
      using match_low_at [OF stop _ hold, of "j - k" False 0 False 0] j 3 k by simp
    ultimately show ?thesis
      using 3 k rd False match_low_value [OF stop _ hold] by auto
  qed
qed (use k0 N in \<open>auto simp: addr_simps\<close>)

lemma read_left:
  "cmp_stop tz m l r A N j \<Longrightarrow> k < A \<Longrightarrow> off8 (addr l k) = 0 \<Longrightarrow> read_u64 m (addr l k) = Some (word_at m (addr l k))"
  by (intro read_u64_addr [where j = 0]) (auto simp: addr_simps dest: cmp_stopD(7))

lemma memcmp_shift_ok:
  assumes stop: "cmp_stop False m l r N N j" and N: "N < 2 ^ 64" and off: "0 < off" "off < 8"
    and k0: "k0 \<le> j" "off8 (addr l (k0 + off)) = 0" "off8 (addr r k0) = 0" "carries m l off k0 buf"
  shows "\<exists>x. memcmp_shift off m (addr l (k0 + off)) (addr r k0) (remaining N k0) buf = Some x \<and>
    ((\<exists>k v w. x = Inl (v, w) \<and> holds m l r k 8 v w \<and> v \<noteq> w \<and> k \<le> j \<and> j < N) \<or>
     (\<exists>k \<le> j. \<exists>buf. x = Inr (addr l (k + off), addr r k, remaining N k, buf) \<and> N < k + 8 \<and>
        off8 (addr l (k + off)) = 0 \<and> off8 (addr r k) = 0 \<and> carries m l off k buf))"
  unfolding memcmp_shift_def
proof (rule while_ret_post [where N = j and k = k0 and
      R = "\<lambda>k st. \<exists>buf. st = (addr l (k + off), addr r k, remaining N k, buf) \<and>
        off8 (addr l (k + off)) = 0 \<and> off8 (addr r k) = 0 \<and> carries m l off k buf"], goal_cases)
  case (3 k st)
  then obtain buf where st: "st = (addr l (k + off), addr r k, remaining N k, buf)"
    and al: "off8 (addr l (k + off)) = 0" "off8 (addr r k) = 0" and buf: "carries m l off k buf"
    by blast
  have k: "k + 8 \<le> N" using 3 st cmp_stopD(1) [OF stop] N by (auto simp: addr_simps)
  note hold = holds_carried [OF buf off(2), of r]
  let ?w = "word_at m (addr l (k + off))"
  have e: "k + 8 + off = k + off + 8" by simp
  have next_buf: "carries m l off (k + 8) (drop_bit (8 * (8 - off)) ?w)"
    using off by (intro carries_drop) auto
  have r: "read_u64 m (addr r k) = Some (word_at m (addr r k))"
    using al read_at_stop [OF stop 3(2)] k by simp
  have rd: "read_u64 m (addr l (k + off)) = Some ?w"
    using read_left [OF stop _ al(1)] k off by simp
  show ?case
  proof (cases "buf OR push_bit (8 * off) ?w = word_at m (addr r k)")
    case True
    then have "k + 8 \<le> j" using holds_eq [OF stop 3(2)] hold k by simp
    then show ?thesis
      using st al rd r True next_buf k by (auto simp: Let_def addr_simps e intro!: exI [of _ "k + 8"])
  next
    case False
    then have "j < k + 8" using holds_neq [OF stop 3(2) hold] by simp
    then show ?thesis
      using st rd r False hold 3(2) k by (auto simp: Let_def)
  qed
next
  case (4 k st)
  then show ?case using N cmp_stopD(1) [OF stop] by (fastforce simp: addr_simps)
qed (use k0 in \<open>auto simp: addr_simps\<close>)

lemma match_last:
  assumes "cmp_stop tz m l r A N j" "N < 2 ^ 64" "k \<le> j" "holds m l r k X v w" "j - k \<le> X" "j < N \<Longrightarrow> j - k < X"
  obtains v' w' n' where "match_low False True tz (v, w, 0, remaining N k) = Some (v', w', 0, n')"
    "(if n' = 0 then 0 else diff_low v' w') = cmp_value m l r N j"
proof
  note P = cmp_stopD(1) [OF assms(1)]
  let ?x = "j - k"
  show "match_low False True tz (v, w, 0, remaining N k) =
      Some (drop_bit (8 * ?x) v, drop_bit (8 * ?x) w, 0, remaining N j)"
    using match_low_at [OF assms(1,3,4), of ?x False 0 True "remaining N k"] assms(2,3,5,6) P le_less [of j N] by auto
  show "(if remaining N j = 0 then 0 else diff_low (drop_bit (8 * ?x) v) (drop_bit (8 * ?x) w)) = cmp_value m l r N j"
    using match_low_value [OF assms(1,3,4)] assms(2,3,6) P by (auto simp: addr_simps cmp_value_def)
qed

lemma match_differing:
  assumes "cmp_stop tz m l r A N j" "k \<le> j" "holds m l r k X v w" "j - k < X" "j < N"
  obtains v' w' where "match_low False False tz (v, w, 0, 0) = Some (v', w', 0, 0)" "diff_low v' w' = cmp_value m l r N j"
  using match_low_at [OF assms(1-3), of "j - k" False 0 False 0] match_low_value [OF assms(1-3)] assms(2,4,5) by auto

lemma memcmp_shifted_ok:
  assumes stop: "cmp_stop False m l r N N j" and N: "N < 2 ^ 64"
    and k: "k < j" "off8 (addr l k) = 0" "off = off8 (addr r k)" "off \<noteq> 0"
  shows "memcmp_shifted m (addr l k) (addr r k) (remaining N k) = Some (cmp_value m l r N j)"
proof -
  note P = cmp_stopD [OF stop]
  have off: "0 < off" "off < 8" using k(3,4) by (simp_all add: off8_less)
  have kN: "k < N" "k \<le> j" using k(1) P(1) by simp_all
  define lw where "lw = word_at m (addr l k)"
  define rw where "rw = drop_bit (8 * off) (word_at m (addr r k - of_nat off))"
  have rd: "read_u64 m (addr l k) = Some lw"
    "read_u64 m (addr r k - of_nat off) = Some (word_at m (addr r k - of_nat off))"
    using read_at_stop(1) [OF stop kN(2,1) k(2)] addr_minus_offset(1) [OF k(3,4) P(6) [OF kN(2,1)]] by (simp_all add: lw_def)
  have hold: "holds m l r k (8 - off) lw rw"
    using addr_minus_offset(2) [OF k(3,4) P(6) [OF kN(2,1)]] by (simp add: holds_def rw_def lw_def bytes_of_word)
  note unfold = memcmp_shifted_def unat_and_7 k(3) [symmetric] Let_def rd rw_def [symmetric]
  show ?thesis
  proof (cases "j - k < 8 - off")
    case True
    have "match_low True True False (lw, rw, 8 - off, remaining N k) =
        Some (drop_bit (8 * (j - k)) lw, drop_bit (8 * (j - k)) rw, 8 - off - (j - k), remaining N j)"
      using match_low_at [OF stop kN(2) hold, of "j - k" True "8 - off" True "remaining N k"] True N k(1) le_neq_trans [OF P(1)]
      by auto
    moreover have "\<not> 8 \<le> off + (j - k)" using True by simp
    ultimately show ?thesis
      using True N P(1) match_low_value [OF stop kN(2) hold]
      by (cases "j = N") (simp_all add: unfold remaining_eq_0 cmp_value_def)
  next
    case False
    define k1 where "k1 = k + (8 - off)"
    have k1: "k1 \<le> j" "k1 + off = k + 8" using False off k(1) by (simp_all add: k1_def)
    define buf where "buf = drop_bit (8 * (8 - off)) lw"
    have first: "match_low True True False (lw, rw, 8 - off, remaining N k) =
        Some (buf, drop_bit (8 * (8 - off)) rw, 0, remaining N k1)"
      using match_low_at [OF stop kN(2) hold, of "8 - off" True "8 - off" True] False N by (simp add: buf_def k1_def)
    show ?thesis
    proof (cases "k1 = N")
      case True
      then show ?thesis using first k1 P(1) N by (simp add: unfold remaining_eq_0 cmp_value_def)
    next
      case False
      then have k1N: "k1 < N" using k1 P(1) by simp
      have al: "off8 (addr l (k1 + off)) = 0" "off8 (addr r k1) = 0"
        using k(2) off8_next_word [OF k(3)] by (simp_all add: k1(2) addr_simps) (simp add: k1_def)
      have "carries m l off k1 buf"
        unfolding buf_def lw_def by (rule carries_drop) (simp_all add: off k1_def)
      from memcmp_shift_ok [OF stop N off k1(1) al this] obtain x where
        x: "memcmp_shift off m (addr l (k1 + off)) (addr r k1) (remaining N k1) buf = Some x"
        and cases: "(\<exists>k v w. x = Inl (v, w) \<and> holds m l r k 8 v w \<and> v \<noteq> w \<and> k \<le> j \<and> j < N) \<or>
         (\<exists>k \<le> j. \<exists>buf. x = Inr (addr l (k + off), addr r k, remaining N k, buf) \<and> N < k + 8 \<and>
            off8 (addr l (k + off)) = 0 \<and> off8 (addr r k) = 0 \<and> carries m l off k buf)"
        by blast
      have args: "addr l k + 8 = addr l (k1 + off)" "addr r k + of_nat (8 - off) = addr r k1"
        by (simp only: addr_plus_8 k1(2)) (simp only: addr_plus k1_def)
      note run = unfold first args x
      from cases consider
          (neq) k2 v w where "x = Inl (v, w)" "holds m l r k2 8 v w" "v \<noteq> w" "k2 \<le> j" "j < N"
        | (last) k2 buf2 where "k2 \<le> j" "x = Inr (addr l (k2 + off), addr r k2, remaining N k2, buf2)" "N < k2 + 8"
            "off8 (addr l (k2 + off)) = 0" "off8 (addr r k2) = 0" "carries m l off k2 buf2"
        by blast
      then show ?thesis
      proof cases
        case neq
        have "j - k2 < 8" using holds_neq [OF stop neq(4,2,3)] by simp
        then obtain v' w' where "match_low False False False (v, w, 0, 0) = Some (v', w', 0, 0)" "diff_low v' w' = cmp_value m l r N j"
          using match_differing [OF stop neq(4,2) _ neq(5)] by blast
        then show ?thesis using k1N N neq(1) by (simp add: run remaining_eq_0 del: of_nat_diff)
      next
        case last
        show ?thesis
        proof (cases "k2 = N")
          case True
          then have "\<not> j < N" using last(1) by simp
          then show ?thesis
            using k1N N last(2) True by (simp add: run remaining_eq_0 cmp_value_def del: of_nat_diff)
        next
          case False
          then have "k2 < N" using last(1) P(1) by simp
          let ?w = "if N - k2 \<le> off then 0 else word_at m (addr l (k2 + off))"
          have "(if remaining N k2 \<le> of_nat off then Some 0 else read_u64 m (addr l (k2 + off))) = Some ?w"
            using stop last(4) N off by (intro read_last) (auto simp: cmp_stop_def)
          moreover have "holds m l r k2 (N - k2) (buf2 OR push_bit (8 * off) ?w) (word_at m (addr r k2))"
            using last(3) carries_last [OF last(6) off(2)] by (auto simp: holds_def bytes_of_word)
          then obtain v' w' n' where "match_low False True False (buf2 OR push_bit (8 * off) ?w, word_at m (addr r k2), 0, remaining N k2) = Some (v', w', 0, n')"
            "(if n' = 0 then 0 else diff_low v' w') = cmp_value m l r N j"
            using match_last [OF stop N last(1)] last(1) P(1) by (metis diff_le_mono diff_less_mono)
          moreover have "read_u64 m (addr r k2) = Some (word_at m (addr r k2))"
            using read_at_stop(2) [OF stop last(1) \<open>k2 < N\<close> last(5)] .
          ultimately show ?thesis
            using k1N N last(2) \<open>k2 < N\<close> by (simp add: run remaining_eq_0 del: of_nat_diff)
        qed
      qed
    qed
  qed
qed

lemma memcmp_at:
  assumes stop: "cmp_stop False m l r (unat n) (unat n) j"
  shows "memcmp m l r n = Some (cmp_value m l r (unat n) j)"
proof -
  let ?N = "unat n"
  note N = unat_less_2p64 [of n] and P = cmp_stopD [OF stop]
  obtain x k where 1: "memcmp_bytes m l r n = Some x" "k \<le> j"
    "(case x of Inl st \<Rightarrow> st | Inr st \<Rightarrow> st) = (addr l k, addr r k, remaining ?N k)" "k < j \<longrightarrow> off8 (addr l k) = 0"
    using memcmp_bytes_ok [OF stop N] by (auto simp: addr_simps)
  consider (none) "k = ?N" | (diff) "k < ?N" "k = j" | (words) "k < j" "off8 (addr r k) = 0" | (shift) "k < j" "off8 (addr r k) \<noteq> 0"
    using 1(2) P(1) by linarith
  then show ?thesis
  proof cases
    case none
    then show ?thesis using 1 N P(1) by (simp add: memcmp_def addr_simps cmp_value_def)
  next
    case diff
    then have "bytes_at m l j \<noteq> bytes_at m r j" using P(4) by auto
    then show ?thesis
      using 1 N diff read_at_stop [OF stop 1(2) diff(1)] by (simp add: memcmp_def addr_simps cmp_value_def)
  next
    case words
    have k: "k < ?N" using words P(1) by simp
    have same: "bytes_at m l k = bytes_at m r k" using words P(2) by simp
    from words 1 have "off8 (addr l k) = 0" by simp
    from memcmp_words_ok [OF stop N 1(2) this words(2)] obtain x2 where 2:
      "memcmp_words m (addr l k) (addr r k) (remaining ?N k) = Some x2"
      "x2 = Inl (cmp_value m l r ?N j) \<or>
       (\<exists>k \<le> j. x2 = Inr (addr l k, addr r k, remaining ?N k) \<and> ?N < k + 8 \<and> off8 (addr l k) = 0 \<and> off8 (addr r k) = 0)"
      by blast
    have run: "memcmp m l r n = (case x2 of Inl v \<Rightarrow> Some v | Inr (l, r, n) \<Rightarrow>
        if n = 0 then Some 0 else do {
          l_buf \<leftarrow> read_u64 m l;
          r_buf \<leftarrow> read_u64 m r;
          (l_buf, r_buf, _, n) \<leftarrow> match_low False True False (l_buf, r_buf, 0, n);
          Some (if n = 0 then 0 else diff_low l_buf r_buf) })"
      using 1 N k same words 2(1) read_at_stop(3,4) [OF stop 1(2) k] by (simp add: memcmp_def addr_simps)
    from 2(2) consider "x2 = Inl (cmp_value m l r ?N j)"
      | k2 where "k2 \<le> j" "x2 = Inr (addr l k2, addr r k2, remaining ?N k2)" "?N < k2 + 8" "off8 (addr l k2) = 0" "off8 (addr r k2) = 0"
      by blast
    then show ?thesis
    proof cases
      case (2 k2)
      show ?thesis
      proof (cases "k2 = ?N")
        case True
        then show ?thesis using run 2 N P(1) by (simp add: remaining_eq_0 cmp_value_def)
      next
        case False
        then have "k2 < ?N" using 2(1) P(1) by simp
        have "holds m l r k2 (?N - k2) (word_at m (addr l k2)) (word_at m (addr r k2))"
          using 2(3) by (auto simp: holds_def bytes_of_word)
        then obtain v' w' n' where "match_low False True False (word_at m (addr l k2), word_at m (addr r k2), 0, remaining ?N k2) = Some (v', w', 0, n')"
          "(if n' = 0 then 0 else diff_low v' w') = cmp_value m l r ?N j"
          using match_last [OF stop N 2(1)] 2(1) P(1) by (metis diff_le_mono diff_less_mono)
        then show ?thesis
          using run 2 N \<open>k2 < ?N\<close> read_at_stop(1) [OF stop 2(1) \<open>k2 < ?N\<close> 2(4)] read_at_stop(2) [OF stop 2(1) \<open>k2 < ?N\<close> 2(5)]
          by (simp add: remaining_eq_0)
      qed
    qed (use run in simp)
  next
    case shift
    have k: "k < ?N" using shift P(1) by simp
    have same: "bytes_at m l k = bytes_at m r k" using shift P(2) by simp
    from shift 1 have "off8 (addr l k) = 0" by simp
    from memcmp_shifted_ok [OF stop N shift(1) this refl shift(2)] show ?thesis
      using 1 N k same shift read_at_stop(3,4) [OF stop 1(2) k] by (simp add: memcmp_def addr_simps)
  qed
qed

section \<open>The byte-wise comparison\<close>

fun memcmp_ref :: "u8 list \<Rightarrow> u8 list \<Rightarrow> u32" where
  "memcmp_ref (a # as) (b # bs) = (if a = b then memcmp_ref as bs else byte_diff a b)"
| "memcmp_ref _ _ = 0"

abbreviation bytes_of :: "mem \<Rightarrow> u64 \<Rightarrow> nat \<Rightarrow> u8 list" where
  "bytes_of m p n \<equiv> map (bytes_at m p) [0..<n]"

lemma first_index: "\<exists>j \<le> N. (\<forall>i < j. \<not> D i) \<and> (j < N \<longrightarrow> D j)" for N :: nat
proof (induction N)
  case (Suc N)
  then obtain j where j: "j \<le> N" "\<forall>i < j. \<not> D i" "j < N \<longrightarrow> D j" by blast
  show ?case
  proof (cases "j = N \<and> \<not> D N")
    case True
    with j show ?thesis by (intro exI [of _ "Suc N"]) (auto simp: less_Suc_eq)
  next
    case False
    with j show ?thesis by (intro exI [of _ j]) (auto simp: less_Suc_eq)
  qed
qed simp

lemma memcmp_ref_at:
  assumes "length xs = length ys" "j \<le> length xs" "\<forall>i < j. xs ! i = ys ! i" "j < length xs \<longrightarrow> xs ! j \<noteq> ys ! j"
  shows "memcmp_ref xs ys = (if j < length xs then byte_diff (xs ! j) (ys ! j) else 0)"
  using assms
proof (induction xs ys arbitrary: j rule: list_induct2')
  case (4 x xs y ys)
  then show ?case
  proof (cases j)
    case (Suc j')
    with 4 have "x = y" "\<forall>i < j'. xs ! i = ys ! i" by auto
    with 4 Suc show ?thesis by auto
  qed simp
qed auto

text \<open>C37: \<open>memcmp\<close> computes the byte-wise comparison: the difference of the first two bytes that
  differ, 0 if none of the \<open>n\<close> do, for every alignment of the two buffers.\<close>

theorem memcmp_correct:
  assumes "can_access m l (unat n)" "can_access m r (unat n)"
  shows "memcmp m l r n = Some (memcmp_ref (bytes_of m l (unat n)) (bytes_of m r (unat n)))"
proof -
  obtain j where j: "j \<le> unat n" "\<forall>i < j. bytes_at m l i = bytes_at m r i" "j < unat n \<longrightarrow> bytes_at m l j \<noteq> bytes_at m r j"
    using first_index [of "unat n" "\<lambda>i. bytes_at m l i \<noteq> bytes_at m r i"] by auto
  then have "cmp_stop False m l r (unat n) (unat n) j"
    using assms by (auto simp: cmp_stop_def intro: can_access_mono)
  moreover have "memcmp_ref (bytes_of m l (unat n)) (bytes_of m r (unat n)) = cmp_value m l r (unat n) j"
    using j by (subst memcmp_ref_at [where j = j]) (auto simp: cmp_value_def)
  ultimately show ?thesis using memcmp_at by metis
qed

theorem memcmp_witness:
  "memcmp demo_mem 3 20 13 = Some (memcmp_ref (bytes_of demo_mem 3 (unat (13 :: u64))) (bytes_of demo_mem 20 (unat (13 :: u64))))"
  by (rule memcmp_correct) (simp_all add: demo_mem_access)

end
