(* ===== verification/StrCmp.thy ===== *)
theory StrCmp
  imports MemCmp
begin

text \<open>
  \<open>strcmp\<close> and \<open>strncmp\<close> of \<open>src/string\<close>: as \<open>memcmp\<close>, but the end of the strings is found
  on the way, by \<open>HASZERO\<close> on the words of the left one.  No word is read that lies wholly
  beyond the end of a string.
\<close>

section \<open>strcmp\<close>

definition strcmp_bytes :: "mem \<Rightarrow> u64 \<Rightarrow> u64 \<Rightarrow> (u64 \<times> u64 + u64 \<times> u64) option" where
  "strcmp_bytes m sl sr =
     while_ret (\<lambda>(l, r). l AND 7 \<noteq> 0)
       (\<lambda>(l, r). do {
          a \<leftarrow> read_byte m l;
          b \<leftarrow> read_byte m r;
          Some (if a \<noteq> 0 \<and> a = b then Inr (l + 1, r + 1) else Inl (l, r)) })
       (sl, sr)"

definition strcmp_words :: "mem \<Rightarrow> u64 \<Rightarrow> u64 \<Rightarrow> (u64 \<times> u64) option" where
  "strcmp_words m l r =
     loop_c (\<lambda>(l, r). do {
          l_buf \<leftarrow> read_u64 m l;
          r_buf \<leftarrow> read_u64 m r;
          Some (if HASZERO l_buf \<or> l_buf \<noteq> r_buf then Inl (l_buf, r_buf) else Inr (l + 8, r + 8)) })
       (l, r)"

text \<open>The loop over shifted words ends at \<open>l_end_flag\<close>, the value \<^term>\<open>True\<close>, or at
  \<open>neq_flag\<close>.\<close>

definition strcmp_shift ::
  "nat \<Rightarrow> mem \<Rightarrow> u64 \<Rightarrow> u64 \<Rightarrow> u64 \<Rightarrow> (bool \<times> u64 \<times> u64 \<times> u64 \<times> u64) option" where
  "strcmp_shift r_off m l r l_buf =
     loop_c (\<lambda>(l, r, l_buf). do {
          l_buf2 \<leftarrow> read_u64 m l;
          r_buf \<leftarrow> read_u64 m r;
          let l_buf3 = l_buf OR push_bit (8 * r_off) l_buf2;
          Some (if HASZERO l_buf2 then Inl (True, r, l_buf2, l_buf3, r_buf)
                else if l_buf3 \<noteq> r_buf then Inl (False, r, l_buf2, l_buf3, r_buf)
                else Inr (l + 8, r + 8, drop_bit (8 * (8 - r_off)) l_buf2)) })
       (l, r, l_buf)"

definition strcmp_shifted :: "mem \<Rightarrow> u64 \<Rightarrow> u64 \<Rightarrow> u32 option" where
  "strcmp_shifted m l r = do {
     let r_off = unat (r AND 7);
     l_buf \<leftarrow> read_u64 m l;
     r_buf \<leftarrow> read_u64 m (r - of_nat r_off);
     let r_buf = drop_bit (8 * r_off) r_buf;
     let l_end_flag = HASZERO l_buf;
     (l_buf, r_buf, i, _) \<leftarrow> match_low True False True (l_buf, r_buf, 8 - r_off, 0);
     if i \<noteq> 0 then Some (diff_low l_buf r_buf)
     else do {
       let l = l + 8;
       let r = r + of_nat (8 - r_off);
       if l_end_flag then do {
         r_buf \<leftarrow> read_u64 m r;
         (l_buf, r_buf, _) \<leftarrow> match_low False False True (l_buf, r_buf, 0, 0);
         Some (diff_low l_buf r_buf) }
       else do {
         (l_end, r, l_buf2, l_buf3, r_buf) \<leftarrow> strcmp_shift r_off m l r l_buf;
         if l_end then do {
           (l_buf3, r_buf, i, _) \<leftarrow> match_low True False True (l_buf3, r_buf, 8, 0);
           if i \<noteq> 0 then Some (diff_low l_buf3 r_buf)
           else do {
             let l_buf = drop_bit (8 * (8 - r_off)) l_buf2;
             r_buf \<leftarrow> read_u64 m (r + 8);
             (l_buf, r_buf, _) \<leftarrow> match_low False False True (l_buf, r_buf, 0, 0);
             Some (diff_low l_buf r_buf) } }
         else do {
           (l_buf3, r_buf, _) \<leftarrow> match_low False False True (l_buf3, r_buf, 0, 0);
           Some (diff_low l_buf3 r_buf) } } } }"

definition strcmp :: "mem \<Rightarrow> u64 \<Rightarrow> u64 \<Rightarrow> u32 option" where
  "strcmp m sl sr = do {
     x \<leftarrow> strcmp_bytes m sl sr;
     let (l, r) = (case x of Inl st \<Rightarrow> st | Inr st \<Rightarrow> st);
     a \<leftarrow> read_byte m l;
     b \<leftarrow> read_byte m r;
     if a \<noteq> b then Some (byte_diff a b)
     else if a = 0 then Some 0
     else if r AND 7 = 0 then do {
       (l_buf, r_buf) \<leftarrow> strcmp_words m l r;
       (l_buf, r_buf, _) \<leftarrow> match_low False False True (l_buf, r_buf, 0, 0);
       Some (diff_low l_buf r_buf) }
     else strcmp_shifted m l r }"

section \<open>strncmp\<close>

definition strncmp_bytes :: "mem \<Rightarrow> u64 \<Rightarrow> u64 \<Rightarrow> u64 \<Rightarrow> (u64 \<times> u64 \<times> u64 + u64 \<times> u64 \<times> u64) option" where
  "strncmp_bytes m sl sr n =
     while_ret (\<lambda>(l, r, n). n \<noteq> 0 \<and> l AND 7 \<noteq> 0)
       (\<lambda>(l, r, n). do {
          a \<leftarrow> read_byte m l;
          b \<leftarrow> read_byte m r;
          Some (if a \<noteq> 0 \<and> a = b then Inr (l + 1, r + 1, n - 1) else Inl (l, r, n)) })
       (sl, sr, n)"

definition strncmp_words :: "mem \<Rightarrow> u64 \<Rightarrow> u64 \<Rightarrow> u64 \<Rightarrow> (u64 \<times> u64 + u64 \<times> u64 \<times> u64) option" where
  "strncmp_words m l r n =
     while_ret (\<lambda>(l, r, n). n \<ge> 8)
       (\<lambda>(l, r, n). do {
          l_buf \<leftarrow> read_u64 m l;
          r_buf \<leftarrow> read_u64 m r;
          Some (if HASZERO l_buf \<or> l_buf \<noteq> r_buf then Inl (l_buf, r_buf) else Inr (l + 8, r + 8, n - 8)) })
       (l, r, n)"

definition strncmp_shift ::
  "nat \<Rightarrow> mem \<Rightarrow> u64 \<Rightarrow> u64 \<Rightarrow> u64 \<Rightarrow> u64 \<Rightarrow>
     (bool \<times> u64 \<times> u64 \<times> u64 \<times> u64 \<times> u64 + u64 \<times> u64 \<times> u64 \<times> u64) option" where
  "strncmp_shift r_off m l r n l_buf =
     while_ret (\<lambda>(l, r, n, l_buf). n \<ge> 8)
       (\<lambda>(l, r, n, l_buf). do {
          l_buf2 \<leftarrow> read_u64 m l;
          r_buf \<leftarrow> read_u64 m r;
          let l_buf3 = l_buf OR push_bit (8 * r_off) l_buf2;
          Some (if HASZERO l_buf2 then Inl (True, r, n, l_buf2, l_buf3, r_buf)
                else if l_buf3 \<noteq> r_buf then Inl (False, r, n, l_buf2, l_buf3, r_buf)
                else Inr (l + 8, r + 8, n - 8, drop_bit (8 * (8 - r_off)) l_buf2)) })
       (l, r, n, l_buf)"

text \<open>The comparison of the last words, as it occurs at each of the exits\<close>

definition strncmp_tail :: "u64 \<Rightarrow> u64 \<Rightarrow> u64 \<Rightarrow> u32 option" where
  "strncmp_tail l_buf r_buf n = do {
     (l_buf, r_buf, _, n) \<leftarrow> match_low False True True (l_buf, r_buf, 0, n);
     Some (if n = 0 then 0 else diff_low l_buf r_buf) }"

definition strncmp_shifted :: "mem \<Rightarrow> u64 \<Rightarrow> u64 \<Rightarrow> u64 \<Rightarrow> u32 option" where
  "strncmp_shifted m l r n = do {
     let r_off = unat (r AND 7);
     l_buf \<leftarrow> read_u64 m l;
     r_buf \<leftarrow> read_u64 m (r - of_nat r_off);
     let r_buf = drop_bit (8 * r_off) r_buf;
     if HASZERO l_buf then do {
       (l_buf, r_buf, i, n) \<leftarrow> match_low True True True (l_buf, r_buf, 8 - r_off, n);
       if n = 0 then Some 0
       else if i \<noteq> 0 then Some (diff_low l_buf r_buf)
       else do {
         r_buf \<leftarrow> read_u64 m (r - of_nat r_off + 8);
         strncmp_tail l_buf r_buf n } }
     else do {
       (l_buf, r_buf, i, n) \<leftarrow> match_low True True False (l_buf, r_buf, 8 - r_off, n);
       if n = 0 then Some 0
       else if i \<noteq> 0 then Some (diff_low l_buf r_buf)
       else do {
         x \<leftarrow> strncmp_shift r_off m (l + 8) (r + of_nat (8 - r_off)) n l_buf;
         case x of
           Inl (l_end, r, n, l_buf2, l_buf3, r_buf) \<Rightarrow>
             if l_end then do {
               (l_buf3, r_buf, i, _) \<leftarrow> match_low True False True (l_buf3, r_buf, 8, 0);
               if i \<noteq> 0 then Some (diff_low l_buf3 r_buf)
               else if n = 8 then Some 0
               else do {
                 let l_buf = drop_bit (8 * (8 - r_off)) l_buf2;
                 r_buf \<leftarrow> read_u64 m (r + 8);
                 strncmp_tail l_buf r_buf (n - 8) } }
             else do {
               (l_buf3, r_buf, _) \<leftarrow> match_low False False True (l_buf3, r_buf, 0, 0);
               Some (diff_low l_buf3 r_buf) }
         | Inr (l, r, n, l_buf) \<Rightarrow>
             if n = 0 then Some 0
             else do {
               r_buf \<leftarrow> read_u64 m r;
               (l_buf, r_buf, i, n) \<leftarrow> match_low True True True (l_buf, r_buf, r_off, n);
               if n = 0 then Some 0
               else if i \<noteq> 0 then Some (diff_low l_buf r_buf)
               else do {
                 l_buf \<leftarrow> read_u64 m l;
                 strncmp_tail l_buf r_buf n } } } } }"

definition strncmp :: "mem \<Rightarrow> u64 \<Rightarrow> u64 \<Rightarrow> u64 \<Rightarrow> u32 option" where
  "strncmp m sl sr n = do {
     x \<leftarrow> strncmp_bytes m sl sr n;
     let (l, r, n) = (case x of Inl st \<Rightarrow> st | Inr st \<Rightarrow> st);
     if n = 0 then Some 0
     else do {
       a \<leftarrow> read_byte m l;
       b \<leftarrow> read_byte m r;
       if a \<noteq> b then Some (byte_diff a b)
       else if a = 0 then Some 0
       else if r AND 7 = 0 then do {
         x \<leftarrow> strncmp_words m l r n;
         case x of
           Inl (l_buf, r_buf) \<Rightarrow> do {
             (l_buf, r_buf, _) \<leftarrow> match_low False False True (l_buf, r_buf, 0, 0);
             Some (diff_low l_buf r_buf) }
         | Inr (l, r, n) \<Rightarrow>
             if n = 0 then Some 0
             else do {
               l_buf \<leftarrow> read_u64 m l;
               r_buf \<leftarrow> read_u64 m r;
               strncmp_tail l_buf r_buf n } }
       else strncmp_shifted m l r n } }"

section \<open>The left string\<close>

text \<open>As long as no zero has been seen, the next byte of the left string is accessible.\<close>

definition left_ok :: "mem \<Rightarrow> u64 \<Rightarrow> nat \<Rightarrow> nat \<Rightarrow> bool" where
  "left_ok m l A N \<longleftrightarrow> (\<forall>x < N. (\<forall>i < x. bytes_at m l i \<noteq> 0) \<longrightarrow> x < A)"

lemma nonzero_words:
  assumes "\<forall>i < k. bytes_at m l i \<noteq> 0" "\<not> HASZERO (word_at m (addr l k))" "k' \<le> k + 8"
  shows "\<forall>i < k'. bytes_at m l i \<noteq> 0"
proof safe
  fix i assume "i < k'" "bytes_at m l i = 0"
  with assms(1) have "k \<le> i" using not_le by blast
  then have "byte_of (word_at m (addr l k)) (i - k) = 0"
    using \<open>i < k'\<close> \<open>bytes_at m l i = 0\<close> assms(3) by (simp add: bytes_of_word)
  then show False
    using assms(2,3) \<open>k \<le> i\<close> \<open>i < k'\<close> by (auto simp: HASZERO_iff dest!: spec [of _ "i - k"])
qed

lemma zero_word_stop:
  assumes "cmp_stop True m l r A N j" "HASZERO (word_at m (addr l k))"
  shows "j < k + 8"
proof -
  obtain y where "y < 8" "bytes_at m l (k + y) = 0"
    using assms(2) by (auto simp: HASZERO_iff bytes_of_word)
  then show ?thesis
    using cmp_stopD(2,3) [OF assms(1), of "k + y"] by (auto simp: not_less [symmetric] intro: ccontr)
qed

lemma nonzero_before:
  "cmp_stop True m l r A N j \<Longrightarrow> k \<le> j \<Longrightarrow> \<forall>i < k. bytes_at m l i \<noteq> 0"
  using cmp_stopD(2,3) less_le_trans by metis

text \<open>The words of one step, when the comparison has reached position \<open>k\<close>: without a zero and
  without a difference it goes on past them.\<close>

lemma step_words:
  assumes "cmp_stop True m l r A N j" "k \<le> j" "j < k + 8 \<Longrightarrow> j < N" "\<not> HASZERO (word_at m (addr l k))"
    "word_at m (addr l k) = word_at m (addr r k)"
  shows "k + 8 \<le> j"
  using assms holds_words [of m l r k] by (intro holds_eq [OF assms(1)]) (auto simp: HASZERO_iff)

lemma step_shifted:
  assumes "cmp_stop True m l r A N j" "k \<le> j" "j < k + 8 \<Longrightarrow> j < N" "carries m l off k buf" "off < 8"
    "\<forall>i < k + off. bytes_at m l i \<noteq> 0" "\<not> HASZERO (word_at m (addr l (k + off)))"
    "buf OR push_bit (8 * off) (word_at m (addr l (k + off))) = word_at m (addr r k)"
  shows "k + 8 \<le> j"
proof -
  have hold: "holds m l r k 8 (word_at m (addr r k)) (word_at m (addr r k))"
    using holds_carried [OF assms(4,5), of r] by (simp add: assms(8))
  have "\<forall>i < k + 8. bytes_at m l i \<noteq> 0"
    using nonzero_words [OF assms(6,7), of "k + 8"] by simp
  then have "\<forall>i < 8. byte_of (word_at m (addr r k)) i \<noteq> 0"
    using hold by (simp add: holds_def)
  then show ?thesis using holds_eq [OF assms(1,2) hold assms(3)] by blast
qed

section \<open>Correctness of \<open>strncmp\<close>\<close>

lemma strncmp_bytes_ok:
  assumes stop: "cmp_stop True m l r A N j" and N: "N < 2 ^ 64"
  shows "\<exists>x. strncmp_bytes m l r (remaining N 0) = Some x \<and>
    (\<exists>k \<le> j. (case x of Inl st \<Rightarrow> st | Inr st \<Rightarrow> st) = (addr l k, addr r k, remaining N k) \<and>
      (k < j \<longrightarrow> off8 (addr l k) = 0))"
  unfolding strncmp_bytes_def
proof (rule while_ret_post [where N = j and k = 0 and R = "\<lambda>k st. st = (addr l k, addr r k, remaining N k)"], goal_cases)
  case (3 k st)
  note P = cmp_stopD [OF stop]
  from 3 have k: "k < N" using P(1) N by (auto simp: addr_simps)
  show ?case
  proof (cases "k = j")
    case True
    then show ?thesis using 3 k P(4) read_at_stop [OF stop _ k] by auto
  next
    case False
    with 3 have "k < j" by simp
    then show ?thesis
      using 3 k P(2,3) read_at_stop [OF stop _ k] by (auto simp: addr_simps intro!: exI [of _ "Suc k"])
  qed
next
  case (4 k st)
  then show ?case using cmp_stopD(1) [OF stop] N by (auto simp: addr_simps)
qed (auto simp: addr_simps)

lemma strncmp_words_ok:
  assumes stop: "cmp_stop True m l r A N j" and N: "N < 2 ^ 64"
    and k0: "k0 \<le> j" "off8 (addr l k0) = 0" "off8 (addr r k0) = 0"
  shows "\<exists>x. strncmp_words m (addr l k0) (addr r k0) (remaining N k0) = Some x \<and>
    (\<exists>k \<le> j. x = Inl (word_at m (addr l k), word_at m (addr r k)) \<and> j < k + 8 \<and> j < N \<or>
       x = Inr (addr l k, addr r k, remaining N k) \<and> N < k + 8 \<and> off8 (addr l k) = 0 \<and> off8 (addr r k) = 0)"
  unfolding strncmp_words_def
proof (rule while_ret_post [where N = j and k = k0 and
      R = "\<lambda>k st. st = (addr l k, addr r k, remaining N k) \<and> off8 (addr l k) = 0 \<and> off8 (addr r k) = 0"], goal_cases)
  case (3 k st)
  then have k: "k + 8 \<le> N" using cmp_stopD(1) [OF stop] N by (auto simp: addr_simps)
  then have rd: "read_u64 m (addr l k) = Some (word_at m (addr l k))" "read_u64 m (addr r k) = Some (word_at m (addr r k))"
    using 3 read_at_stop [OF stop, of k] by auto
  show ?case
  proof (cases "HASZERO (word_at m (addr l k)) \<or> word_at m (addr l k) \<noteq> word_at m (addr r k)")
    case True
    then have "j < k + 8"
      using zero_word_stop [OF stop] holds_neq [OF stop 3(2) holds_words] by blast
    then show ?thesis using 3 k rd True by auto
  next
    case False
    then have "k + 8 \<le> j" using step_words [OF stop 3(2)] k by auto
    then show ?thesis using 3 k rd False by (auto simp: addr_simps intro!: exI [of _ "k + 8"])
  qed
next
  case (4 k st)
  then show ?case using N cmp_stopD(1) [OF stop] by (fastforce simp: addr_simps)
qed (use k0 in auto)

lemma strncmp_shift_ok:
  assumes stop: "cmp_stop True m l r A N j" and left: "left_ok m l A N" and N: "N < 2 ^ 64" and off: "0 < off" "off < 8"
    and k0: "k0 \<le> j" "off8 (addr l (k0 + off)) = 0" "off8 (addr r k0) = 0" "carries m l off k0 buf" "\<forall>i < k0 + off. bytes_at m l i \<noteq> 0"
  shows "\<exists>x. strncmp_shift off m (addr l (k0 + off)) (addr r k0) (remaining N k0) buf = Some x \<and>
    (\<exists>k \<le> j. \<exists>buf. carries m l off k buf \<and> off8 (addr r k) = 0 \<and> 
       (let w = word_at m (addr l (k + off)); v = buf OR push_bit (8 * off) w in
        x = Inl (HASZERO w, addr r k, remaining N k, w, v, word_at m (addr r k)) \<and> k + 8 \<le> N \<and>
          (HASZERO w \<or> v \<noteq> word_at m (addr r k)) \<or>
        x = Inr (addr l (k + off), addr r k, remaining N k, buf) \<and> N < k + 8 \<and> off8 (addr l (k + off)) = 0))"
  unfolding strncmp_shift_def
proof (rule while_ret_post [where N = j and k = k0 and
      R = "\<lambda>k st. \<exists>buf. st = (addr l (k + off), addr r k, remaining N k, buf) \<and>
        off8 (addr l (k + off)) = 0 \<and> off8 (addr r k) = 0 \<and> carries m l off k buf \<and> (\<forall>i < k + off. bytes_at m l i \<noteq> 0)"], goal_cases)
  case (3 k st)
  then obtain buf where st: "st = (addr l (k + off), addr r k, remaining N k, buf)"
    and al: "off8 (addr l (k + off)) = 0" "off8 (addr r k) = 0" and buf: "carries m l off k buf"
    and nz: "\<forall>i < k + off. bytes_at m l i \<noteq> 0"
    by blast
  have k: "k + 8 \<le> N" using 3 st cmp_stopD(1) [OF stop] N by (auto simp: addr_simps)
  let ?w = "word_at m (addr l (k + off))" and ?r = "word_at m (addr r k)"
  have e: "k + 8 + off = k + off + 8" by simp
  have next_buf: "carries m l off (k + 8) (drop_bit (8 * (8 - off)) ?w)"
    using off by (intro carries_drop) auto
  have r: "read_u64 m (addr r k) = Some ?r"
    using al read_at_stop [OF stop 3(2)] k by simp
  have "k + off < N" using k off by simp
  then have "k + off < A" using left nz by (simp add: left_ok_def)
  then have rd: "read_u64 m (addr l (k + off)) = Some ?w"
    using read_left [OF stop _ al(1)] by simp
  show ?case
  proof (cases "HASZERO ?w \<or> buf OR push_bit (8 * off) ?w \<noteq> ?r")
    case True
    let ?res = "(HASZERO ?w, addr r k, remaining N k, ?w, buf OR push_bit (8 * off) ?w, ?r)"
    show ?thesis
      using True 3(2) k buf al(2)
      by (intro disjI2 exI [of _ ?res] exI [of _ k] exI [of _ buf] conjI) (auto simp: st rd r Let_def)
  next
    case False
    then have "k + 8 \<le> j" using step_shifted [OF stop 3(2) _ buf off(2) nz] k by auto
    moreover have "\<forall>i < k + off + 8. bytes_at m l i \<noteq> 0"
      using nonzero_words [OF nz] False by blast
    ultimately show ?thesis
      using st al rd r False next_buf k by (auto simp: Let_def addr_simps e intro!: exI [of _ "k + 8"])
  qed
next
  case (4 k st)
  then obtain buf where "st = (addr l (k + off), addr r k, remaining N k, buf)" "\<not> 8 \<le> remaining N k"
    "off8 (addr l (k + off)) = 0" "off8 (addr r k) = 0" "carries m l off k buf"
    by auto
  moreover from this have "N < k + 8" using N by (simp add: addr_simps)
  ultimately show ?case using 4(2) by (auto simp: Let_def)
qed (use k0 in auto)

text \<open>The loops over buffer words, with a counter \<open>i\<close>: either they stop in these bytes, or
  they go through all of them.\<close>

lemma match_split:
  assumes stop: "cmp_stop tz m l r A N j" and "k \<le> j" "holds m l r k X v w" "tn \<Longrightarrow> n = remaining N k" "tn \<Longrightarrow> N < 2 ^ 64"
    and tz: "tz' \<noteq> tz \<Longrightarrow> \<not> tz' \<and> (\<forall>y < X. byte_of v y \<noteq> 0)"
  shows "j - k < X \<Longrightarrow> tn \<or> j < N \<Longrightarrow> match_low True tn tz' (v, w, X, n) =
      Some (drop_bit (8 * (j - k)) v, drop_bit (8 * (j - k)) w, X - (j - k), if tn then remaining N j else n)"
    and "X \<le> j - k \<Longrightarrow> match_low True tn tz' (v, w, X, n) =
      Some (drop_bit (8 * X) v, drop_bit (8 * X) w, 0, if tn then remaining N (k + X) else n)"
proof -
  note P = cmp_stopD(1) [OF stop]
  note low = match_low_gen [OF stop assms(2,3) _ _ _ assms(4,5) tz, of _ True X]
  show "match_low True tn tz' (v, w, X, n) =
      Some (drop_bit (8 * (j - k)) v, drop_bit (8 * (j - k)) w, X - (j - k), if tn then remaining N j else n)"
    if "j - k < X" "tn \<or> j < N"
  proof -
    from that(2) P have "tn \<and> j = N \<or> j < N \<and> j - k < X" using that(1) by auto
    with low [of "j - k"] show ?thesis using that(1) assms(2) by simp
  qed
  show "match_low True tn tz' (v, w, X, n) =
      Some (drop_bit (8 * X) v, drop_bit (8 * X) w, 0, if tn then remaining N (k + X) else n)" if "X \<le> j - k"
    using low [of X] that by simp
qed

lemma strncmp_tail_ok:
  assumes "cmp_stop True m l r A N j" "N < 2 ^ 64" "k \<le> j" "holds m l r k X v w" "j - k \<le> X" "j < N \<Longrightarrow> j - k < X"
  shows "strncmp_tail v w (remaining N k) = Some (cmp_value m l r N j)"
proof -
  obtain v' w' n' where "match_low False True True (v, w, 0, remaining N k) = Some (v', w', 0, n')"
    "(if n' = 0 then 0 else diff_low v' w') = cmp_value m l r N j"
    using match_last [OF assms] by blast
  then show ?thesis by (simp add: strncmp_tail_def)
qed

lemma holds_mono: "holds m l r k X v w \<Longrightarrow> Y \<le> X \<Longrightarrow> holds m l r k Y v w"
  by (simp add: holds_def)

lemma holds_carry:
  assumes "carries m l off k buf" "off \<le> 8"
  shows "holds m l r k off buf (word_at m (addr r k))"
  using assms by (simp add: holds_def carries_def bytes_of_word)

lemma strncmp_end:
  assumes stop: "cmp_stop True m l r A N j" and N: "N < 2 ^ 64" and off: "0 < off" "off < 8"
    and k: "k \<le> j" "k + 8 \<le> N" "off8 (addr r k) = 0" "carries m l off k buf"
    and w: "w = word_at m (addr l (k + off))" "HASZERO w"
  shows "(do {
      (l_buf3, r_buf, i, _) \<leftarrow> match_low True False True (buf OR push_bit (8 * off) w, word_at m (addr r k), 8, 0);
      if i \<noteq> 0 then Some (diff_low l_buf3 r_buf)
      else if remaining N k = 8 then Some 0
      else do {
        let l_buf = drop_bit (8 * (8 - off)) w;
        r_buf \<leftarrow> read_u64 m (addr r k + 8);
        strncmp_tail l_buf r_buf (remaining N k - 8) } }) = Some (cmp_value m l r N j)"
proof -
  note P = cmp_stopD [OF stop]
  have hold: "holds m l r k 8 (buf OR push_bit (8 * off) w) (word_at m (addr r k))"
    using holds_carried [OF k(4) off(2)] by (simp add: w(1))
  note split = match_split [OF stop k(1) hold, of False 0 True]
  have rem: "remaining N k = 8 \<longleftrightarrow> N = k + 8"
    using unat_remaining [OF N, of k] k(2) by (auto simp: word_unat_eq_iff)
  show ?thesis
  proof (cases "j - k < 8")
    case True
    then have "j < N" using k by simp
    then show ?thesis
      using split(1) True match_low_value [OF stop k(1) hold] by simp
  next
    case False
    then have k8: "k + 8 \<le> j" by simp
    show ?thesis
    proof (cases "N = k + 8")
      case True
      then have "\<not> j < N" using k8 by simp
      then show ?thesis using split(2) False rem True by (simp add: cmp_value_def)
    next
      case N8: False
      have "carries m l off (k + 8) (drop_bit (8 * (8 - off)) w)"
        unfolding w(1) using off by (intro carries_drop) auto
      then have hold2: "holds m l r (k + 8) off (drop_bit (8 * (8 - off)) w) (word_at m (addr r (k + 8)))"
        using off by (intro holds_carry) simp_all
      have "j < k + off + 8" using zero_word_stop [OF stop] w by blast
      then have "j - (k + 8) < off" using k8 by simp
      then have "strncmp_tail (drop_bit (8 * (8 - off)) w) (word_at m (addr r (k + 8))) (remaining N (k + 8)) = Some (cmp_value m l r N j)"
        using strncmp_tail_ok [OF stop N k8 hold2] by simp
      moreover have "read_u64 m (addr r (k + 8)) = Some (word_at m (addr r (k + 8)))"
        using read_at_stop(2) [OF stop k8] k(2,3) N8 by (simp add: addr_simps)
      ultimately show ?thesis
        using split(2) False rem N8 k(2) by (simp add: addr_simps)
    qed
  qed
qed

lemma strncmp_rest:
  assumes stop: "cmp_stop True m l r A N j" and N: "N < 2 ^ 64" and off: "0 < off" "off < 8"
    and k: "k \<le> j" "k < N" "N < k + 8" "off8 (addr r k) = 0" "off8 (addr l (k + off)) = 0" "carries m l off k buf"
  shows "(do {
      r_buf \<leftarrow> read_u64 m (addr r k);
      (l_buf, r_buf, i, n) \<leftarrow> match_low True True True (buf, r_buf, off, remaining N k);
      if n = 0 then Some 0
      else if i \<noteq> 0 then Some (diff_low l_buf r_buf)
      else do {
        l_buf \<leftarrow> read_u64 m (addr l (k + off));
        strncmp_tail l_buf r_buf n } }) = Some (cmp_value m l r N j)"
proof -
  note P = cmp_stopD [OF stop]
  have hold: "holds m l r k off buf (word_at m (addr r k))"
    using holds_carry [OF k(6)] off by simp
  note split = match_split [OF stop k(1) hold refl N, of True True]
  have rd: "read_u64 m (addr r k) = Some (word_at m (addr r k))"
    using read_at_stop(2) [OF stop k(1,2,4)] .
  show ?thesis
  proof (cases "j - k < off")
    case True
    show ?thesis
    proof (cases "j = N")
      case N: True
      then show ?thesis using split(1) True rd by (simp add: cmp_value_def remaining_def)
    next
      case False
      then have "j < N" using P(1) by simp
      then show ?thesis
        using split(1) True rd N match_low_value [OF stop k(1) hold] by (simp add: remaining_eq_0)
    qed
  next
    case False
    then have k1: "k + off \<le> j" using k(1) by simp
    show ?thesis
    proof (cases "k + off = N")
      case True
      then have "\<not> j < N" using k1 by simp
      then show ?thesis using split(2) False rd True by (simp add: cmp_value_def remaining_def)
    next
      case kN: False
      then have k1N: "k + off < N" using k1 P(1) by simp
      let ?v = "word_at m (addr l (k + off))" and ?w = "drop_bit (8 * off) (word_at m (addr r k))"
      have hold2: "holds m l r (k + off) (8 - off) ?v ?w"
        by (auto simp: holds_def bytes_of_word byte_of_drop add.assoc)
      have "strncmp_tail ?v ?w (remaining N (k + off)) = Some (cmp_value m l r N j)"
        using k1 k1N k(3) P(1) by (intro strncmp_tail_ok [OF stop N k1 hold2]) auto
      then show ?thesis
        using split(2) False rd N k1N read_at_stop(1) [OF stop k1 k1N k(5)] by (simp add: remaining_eq_0)
    qed
  qed
qed

lemma strncmp_shifted_ok:
  assumes stop: "cmp_stop True m l r A N j" and left: "left_ok m l A N" and N: "N < 2 ^ 64"
    and k: "k < j" "off8 (addr l k) = 0" "off = off8 (addr r k)" "off \<noteq> 0"
  shows "strncmp_shifted m (addr l k) (addr r k) (remaining N k) = Some (cmp_value m l r N j)"
proof -
  note P = cmp_stopD [OF stop]
  have off: "0 < off" "off < 8" using k(3,4) by (simp_all add: off8_less)
  have kN: "k < N" "k \<le> j" using k(1) P(1) by simp_all
  define lw where "lw = word_at m (addr l k)"
  define rw where "rw = drop_bit (8 * off) (word_at m (addr r k - of_nat off))"
  have rd: "read_u64 m (addr l k) = Some lw"
    "read_u64 m (addr r k - of_nat off) = Some (word_at m (addr r k - of_nat off))"
    using read_at_stop(1) [OF stop kN(2,1) k(2)] addr_minus_offset(1) [OF k(3,4) P(6) [OF kN(2,1)]] by (simp_all add: lw_def)
  have hold: "holds m l r k (8 - off) lw rw"
    using addr_minus_offset(2) [OF k(3,4) P(6) [OF kN(2,1)]] by (simp add: holds_def rw_def lw_def bytes_of_word)
  define k1 where "k1 = k + (8 - off)"
  define buf where "buf = drop_bit (8 * (8 - off)) lw"
  have k1: "k1 + off = k + 8" using off by (simp add: k1_def)
  have al: "off8 (addr l (k1 + off)) = 0" "off8 (addr r k1) = 0"
    using k(2) off8_next_word [OF k(3)] by (simp_all add: k1 addr_simps) (simp add: k1_def)
  have carry: "carries m l off k1 buf"
    unfolding buf_def lw_def by (rule carries_drop) (simp_all add: off k1_def)
  have args: "addr l k + 8 = addr l (k1 + off)" "addr r k + of_nat (8 - off) = addr r k1" 
    "addr r k - of_nat off + 8 = addr r k1"
    using off by (simp only: addr_plus_8 k1, simp only: addr_plus k1_def, simp add: k1_def addr_def of_nat_diff)
  note unfold = strncmp_shifted_def unat_and_7 k(3) [symmetric] Let_def rd rw_def [symmetric] lw_def [symmetric] args
  have tz: "y < 8 - off \<Longrightarrow> byte_of lw y \<noteq> 0" if "\<not> HASZERO lw" for y
    using that by (auto simp: HASZERO_iff)
  note split = match_split [OF stop kN(2) hold refl N, where tn = True and tz' = "HASZERO lw"]
  show ?thesis
  proof (cases "j - k < 8 - off")
    case True
    then have "\<not> 8 \<le> off + (j - k)" by simp
    moreover have "match_low True True (HASZERO lw) (lw, rw, 8 - off, remaining N k) =
        Some (drop_bit (8 * (j - k)) lw, drop_bit (8 * (j - k)) rw, 8 - off - (j - k), remaining N j)"
      using split(1) True tz by auto
    ultimately show ?thesis
      using N P(1) match_low_value [OF stop kN(2) hold True]
      by (cases "HASZERO lw"; cases "j = N") (simp_all add: unfold remaining_eq_0 cmp_value_def)
  next
    case False
    then have k1j: "k1 \<le> j" using k(1) off by (simp add: k1_def)
    have first: "match_low True True (HASZERO lw) (lw, rw, 8 - off, remaining N k) =
        Some (buf, drop_bit (8 * (8 - off)) rw, 0, remaining N k1)"
      using split(2) False tz by (auto simp: buf_def k1_def)
    show ?thesis
    proof (cases "k1 = N")
      case True
      then have "\<not> j < N" using k1j by simp
      then show ?thesis
        using first True by (cases "HASZERO lw") (simp_all add: unfold cmp_value_def remaining_def)
    next
      case kN1: False
      then have k1N: "k1 < N" using k1j P(1) by simp
      then have rem1: "remaining N k1 \<noteq> 0" using N by (simp add: remaining_eq_0)
      show ?thesis
      proof (cases "HASZERO lw")
        case True
        have "j < k1 + off" using zero_word_stop [OF stop, of k] True by (simp add: lw_def k1)
        then have "strncmp_tail buf (word_at m (addr r k1)) (remaining N k1) = Some (cmp_value m l r N j)"
          using k1j off by (intro strncmp_tail_ok [OF stop N k1j holds_carry [OF carry]]) auto
        then show ?thesis
          using True first rem1 read_at_stop(2) [OF stop k1j k1N al(2)] by (simp add: unfold del: of_nat_diff)
      next
        case False
        have nz: "\<forall>i < k1 + off. bytes_at m l i \<noteq> 0"
          using nonzero_words [OF nonzero_before [OF stop kN(2)] False [unfolded lw_def] order_refl] by (simp add: k1)
        from strncmp_shift_ok [OF stop left N off k1j al carry nz] obtain x k2 buf2 where
          x: "strncmp_shift off m (addr l (k1 + off)) (addr r k1) (remaining N k1) buf = Some x"
          and k2: "k2 \<le> j" "carries m l off k2 buf2" "off8 (addr r k2) = 0"
          and cases: "let w = word_at m (addr l (k2 + off)); v = buf2 OR push_bit (8 * off) w in
              x = Inl (HASZERO w, addr r k2, remaining N k2, w, v, word_at m (addr r k2)) \<and> k2 + 8 \<le> N \<and>
                (HASZERO w \<or> v \<noteq> word_at m (addr r k2)) \<or>
              x = Inr (addr l (k2 + off), addr r k2, remaining N k2, buf2) \<and> N < k2 + 8 \<and> off8 (addr l (k2 + off)) = 0"
          by blast
        define w where "w = word_at m (addr l (k2 + off))"
        define v where "v = buf2 OR push_bit (8 * off) w"
        have first': "match_low True True False (lw, rw, 8 - off, remaining N k) =
            Some (buf, drop_bit (8 * (8 - off)) rw, 0, remaining N k1)"
          using first False by simp
        note run = unfold first' x False rem1
        from cases consider (zero) "HASZERO w" "x = Inl (True, addr r k2, remaining N k2, w, v, word_at m (addr r k2))" "k2 + 8 \<le> N"
          | (neq) "x = Inl (False, addr r k2, remaining N k2, w, v, word_at m (addr r k2))" "v \<noteq> word_at m (addr r k2)" "k2 + 8 \<le> N"
          | (last) "x = Inr (addr l (k2 + off), addr r k2, remaining N k2, buf2)" "N < k2 + 8" "off8 (addr l (k2 + off)) = 0"
          unfolding Let_def w_def v_def by (cases "HASZERO (word_at m (addr l (k2 + off)))") auto
        then show ?thesis
        proof cases
          case zero
          show ?thesis
            using strncmp_end [OF stop N off k2(1) zero(3) k2(3,2) w_def zero(1)] zero(2) v_def
            by (simp add: run del: of_nat_diff)
        next
          case neq
          have hold2: "holds m l r k2 8 v (word_at m (addr r k2))"
            using holds_carried [OF k2(2) off(2)] by (simp add: v_def w_def)
          have "j < k2 + 8" using holds_neq [OF stop k2(1) hold2 neq(2)] .
          then have "j - k2 < 8" "j < N" using neq(3) k2(1) by simp_all
          then obtain v' w' where "match_low False False True (v, word_at m (addr r k2), 0, 0) = Some (v', w', 0, 0)"
            "diff_low v' w' = cmp_value m l r N j"
            using match_differing [OF stop k2(1) hold2] by blast
          then show ?thesis using neq(1) by (simp add: run del: of_nat_diff)
        next
          case last
          show ?thesis
          proof (cases "k2 = N")
            case True
            then have "\<not> j < N" using k2(1) by simp
            then show ?thesis using last(1) True N by (simp add: run cmp_value_def remaining_eq_0 del: of_nat_diff)
          next
            case False
            then have "k2 < N" using k2(1) P(1) by simp
            then show ?thesis
              using strncmp_rest [OF stop N off k2(1) _ last(2) k2(3) last(3) k2(2)] last(1) N
              by (simp add: run remaining_eq_0 del: of_nat_diff)
          qed
        qed
      qed
    qed
  qed
qed

lemma strncmp_at:
  assumes stop: "cmp_stop True m l r A (unat n) j" and left: "left_ok m l A (unat n)"
  shows "strncmp m l r n = Some (cmp_value m l r (unat n) j)"
proof -
  let ?N = "unat n"
  note N = unat_less_2p64 [of n] and P = cmp_stopD [OF stop]
  obtain x k where 1: "strncmp_bytes m l r n = Some x" "k \<le> j"
    "(case x of Inl st \<Rightarrow> st | Inr st \<Rightarrow> st) = (addr l k, addr r k, remaining ?N k)" "k < j \<longrightarrow> off8 (addr l k) = 0"
    using strncmp_bytes_ok [OF stop N] by (auto simp: addr_simps)
  consider (none) "k = ?N" | (diff) "k < ?N" "k = j" | (words) "k < j" "off8 (addr r k) = 0" | (shift) "k < j" "off8 (addr r k) \<noteq> 0"
    using 1(2) P(1) by linarith
  then show ?thesis
  proof cases
    case none
    then show ?thesis using 1 N P(1) by (simp add: strncmp_def addr_simps cmp_value_def)
  next
    case diff
    then have "bytes_at m l j \<noteq> bytes_at m r j \<or> bytes_at m r j = 0 \<and> bytes_at m l j = 0" using P(4) by auto
    then show ?thesis
      using 1 N diff read_at_stop(3,4) [OF stop 1(2) diff(1)] by (auto simp: strncmp_def addr_simps cmp_value_def byte_diff_def)
  next
    case words
    have k: "k < ?N" using words P(1) by simp
    have same: "bytes_at m l k = bytes_at m r k" "bytes_at m r k \<noteq> 0" using words P(2,3) by simp_all
    from words 1 have "off8 (addr l k) = 0" by simp
    from strncmp_words_ok [OF stop N 1(2) this words(2)] obtain x2 k2 where
      x2: "strncmp_words m (addr l k) (addr r k) (remaining ?N k) = Some x2" "k2 \<le> j"
      and cases: "x2 = Inl (word_at m (addr l k2), word_at m (addr r k2)) \<and> j < k2 + 8 \<and> j < ?N \<or>
       x2 = Inr (addr l k2, addr r k2, remaining ?N k2) \<and> ?N < k2 + 8 \<and> off8 (addr l k2) = 0 \<and> off8 (addr r k2) = 0"
      by blast
    have run: "strncmp m l r n = (case x2 of
        Inl (l_buf, r_buf) \<Rightarrow> do {
          (l_buf, r_buf, _) \<leftarrow> match_low False False True (l_buf, r_buf, 0, 0);
          Some (diff_low l_buf r_buf) }
      | Inr (l, r, n) \<Rightarrow>
          if n = 0 then Some 0
          else do { l_buf \<leftarrow> read_u64 m l; r_buf \<leftarrow> read_u64 m r; strncmp_tail l_buf r_buf n })"
      using 1 N k same words x2(1) read_at_stop(3,4) [OF stop 1(2) k] by (simp add: strncmp_def addr_simps)
    note hold = holds_words [of m l r k2]
    from cases show ?thesis
    proof (elim disjE conjE)
      assume *: "x2 = Inl (word_at m (addr l k2), word_at m (addr r k2))" "j < k2 + 8" "j < ?N"
      then have "j - k2 < 8" using x2(2) by simp
      then obtain v' w' where "match_low False False True (word_at m (addr l k2), word_at m (addr r k2), 0, 0) = Some (v', w', 0, 0)"
        "diff_low v' w' = cmp_value m l r ?N j"
        using match_differing [OF stop x2(2) hold _ *(3)] by blast
      then show ?thesis using run * by simp
    next
      assume *: "x2 = Inr (addr l k2, addr r k2, remaining ?N k2)" "?N < k2 + 8" "off8 (addr l k2) = 0" "off8 (addr r k2) = 0"
      show ?thesis
      proof (cases "k2 = ?N")
        case True
        then have "\<not> j < ?N" using x2(2) by simp
        then show ?thesis using run *(1) True by (simp add: cmp_value_def remaining_def)
      next
        case False
        then have k2N: "k2 < ?N" using x2(2) P(1) by simp
        have "strncmp_tail (word_at m (addr l k2)) (word_at m (addr r k2)) (remaining ?N k2) = Some (cmp_value m l r ?N j)"
          using *(2) P(1) x2(2) by (intro strncmp_tail_ok [OF stop N x2(2) hold]) auto
        then show ?thesis
          using run *(1) k2N N read_at_stop(1) [OF stop x2(2) k2N *(3)] read_at_stop(2) [OF stop x2(2) k2N *(4)]
          by (simp add: remaining_eq_0)
      qed
    qed
  next
    case shift
    have k: "k < ?N" using shift P(1) by simp
    have same: "bytes_at m l k = bytes_at m r k" "bytes_at m r k \<noteq> 0" using shift P(2,3) by simp_all
    from shift 1 have "off8 (addr l k) = 0" by simp
    from strncmp_shifted_ok [OF stop left N shift(1) this refl shift(2)] show ?thesis
      using 1 N k same shift read_at_stop(3,4) [OF stop 1(2) k] by (simp add: strncmp_def addr_simps)
  qed
qed

section \<open>Correctness of \<open>strcmp\<close>\<close>

lemma strcmp_bytes_ok:
  assumes stop: "cmp_stop True m l r A (Suc j) j"
  shows "\<exists>x. strcmp_bytes m l r = Some x \<and>
    (\<exists>k \<le> j. (case x of Inl st \<Rightarrow> st | Inr st \<Rightarrow> st) = (addr l k, addr r k) \<and> (k < j \<longrightarrow> off8 (addr l k) = 0))"
  unfolding strcmp_bytes_def
proof (rule while_ret_post [where N = j and k = 0 and R = "\<lambda>k st. st = (addr l k, addr r k)"], goal_cases)
  case (3 k st)
  note P = cmp_stopD [OF stop]
  have k: "k < Suc j" using 3 by simp
  show ?case
  proof (cases "k = j")
    case True
    then show ?thesis using 3 k P(4) read_at_stop [OF stop _ k] by auto
  next
    case False
    with 3 have "k < j" by simp
    then show ?thesis
      using 3 k P(2,3) read_at_stop [OF stop _ k] by (auto simp: addr_simps intro!: exI [of _ "Suc k"])
  qed
next
  case (4 k st)
  then show ?case by (auto simp: addr_simps)
qed (auto simp: addr_simps)

lemma strcmp_words_ok:
  assumes stop: "cmp_stop True m l r A (Suc j) j"
    and k0: "k0 \<le> j" "off8 (addr l k0) = 0" "off8 (addr r k0) = 0"
  shows "\<exists>x. strcmp_words m (addr l k0) (addr r k0) = Some x \<and>
    (\<exists>k \<le> j. x = (word_at m (addr l k), word_at m (addr r k)) \<and> j < k + 8)"
  unfolding strcmp_words_def
proof (rule loop_c_post [where N = j and k = k0 and
      R = "\<lambda>k st. st = (addr l k, addr r k) \<and> off8 (addr l k) = 0 \<and> off8 (addr r k) = 0"], goal_cases)
  case (3 k st)
  then have rd: "read_u64 m (addr l k) = Some (word_at m (addr l k))" "read_u64 m (addr r k) = Some (word_at m (addr r k))"
    using read_at_stop [OF stop, of k] by auto
  show ?case
  proof (cases "HASZERO (word_at m (addr l k)) \<or> word_at m (addr l k) \<noteq> word_at m (addr r k)")
    case True
    then have "j < k + 8"
      using zero_word_stop [OF stop] holds_neq [OF stop 3(2) holds_words] by blast
    then show ?thesis using 3 rd True by auto
  next
    case False
    then have "k + 8 \<le> j" using step_words [OF stop 3(2)] by auto
    then show ?thesis using 3 rd False by (auto simp: addr_simps intro!: exI [of _ "k + 8"])
  qed
qed (use k0 in auto)

lemma strcmp_shift_ok:
  assumes stop: "cmp_stop True m l r A (Suc j) j" and left: "\<And>N. left_ok m l A N" and off: "0 < off" "off < 8"
    and k0: "k0 \<le> j" "off8 (addr l (k0 + off)) = 0" "off8 (addr r k0) = 0" "carries m l off k0 buf" "\<forall>i < k0 + off. bytes_at m l i \<noteq> 0"
  shows "\<exists>x. strcmp_shift off m (addr l (k0 + off)) (addr r k0) buf = Some x \<and>
    (\<exists>k \<le> j. \<exists>buf. carries m l off k buf \<and> off8 (addr r k) = 0 \<and>
       (let w = word_at m (addr l (k + off)); v = buf OR push_bit (8 * off) w in
        x = (HASZERO w, addr r k, w, v, word_at m (addr r k)) \<and> (HASZERO w \<or> v \<noteq> word_at m (addr r k))))"
  unfolding strcmp_shift_def
proof (rule loop_c_post [where N = j and k = k0 and
      R = "\<lambda>k st. \<exists>buf. st = (addr l (k + off), addr r k, buf) \<and>
        off8 (addr l (k + off)) = 0 \<and> off8 (addr r k) = 0 \<and> carries m l off k buf \<and> (\<forall>i < k + off. bytes_at m l i \<noteq> 0)"], goal_cases)
  case (3 k st)
  then obtain buf where st: "st = (addr l (k + off), addr r k, buf)"
    and al: "off8 (addr l (k + off)) = 0" "off8 (addr r k) = 0" and buf: "carries m l off k buf"
    and nz: "\<forall>i < k + off. bytes_at m l i \<noteq> 0"
    by blast
  let ?w = "word_at m (addr l (k + off))" and ?r = "word_at m (addr r k)"
  have e: "k + 8 + off = k + off + 8" by simp
  have next_buf: "carries m l off (k + 8) (drop_bit (8 * (8 - off)) ?w)"
    using off by (intro carries_drop) auto
  have r: "read_u64 m (addr r k) = Some ?r"
    using al read_at_stop [OF stop 3(2)] 3(2) by simp
  have "k + off < A" using left [of "Suc (k + off)"] nz by (simp add: left_ok_def)
  then have rd: "read_u64 m (addr l (k + off)) = Some ?w"
    using read_left [OF stop _ al(1)] by simp
  show ?case
  proof (cases "HASZERO ?w \<or> buf OR push_bit (8 * off) ?w \<noteq> ?r")
    case True
    let ?res = "(HASZERO ?w, addr r k, ?w, buf OR push_bit (8 * off) ?w, ?r)"
    show ?thesis
      using True 3(2) buf al(2)
      by (intro disjI1 exI [of _ ?res] exI [of _ k] exI [of _ buf] conjI) (auto simp: st rd r Let_def)
  next
    case False
    then have "k + 8 \<le> j" using step_shifted [OF stop 3(2) _ buf off(2) nz] by auto
    moreover have "\<forall>i < k + off + 8. bytes_at m l i \<noteq> 0"
      using nonzero_words [OF nz] False by blast
    ultimately show ?thesis
      using st al rd r False next_buf by (auto simp: Let_def addr_simps e intro!: exI [of _ "k + 8"])
  qed
qed (use k0 in auto)

lemma strcmp_end:
  assumes stop: "cmp_stop True m l r A (Suc j) j" and off: "0 < off" "off < 8"
    and k: "k \<le> j" "off8 (addr r k) = 0" "carries m l off k buf"
    and w: "w = word_at m (addr l (k + off))" "HASZERO w"
  shows "(do {
      (l_buf3, r_buf, i, _) \<leftarrow> match_low True False True (buf OR push_bit (8 * off) w, word_at m (addr r k), 8, 0);
      if i \<noteq> 0 then Some (diff_low l_buf3 r_buf)
      else do {
        let l_buf = drop_bit (8 * (8 - off)) w;
        r_buf \<leftarrow> read_u64 m (addr r k + 8);
        (l_buf, r_buf, _) \<leftarrow> match_low False False True (l_buf, r_buf, 0, 0);
        Some (diff_low l_buf r_buf) } }) = Some (cmp_value m l r (Suc j) j)"
proof -
  have hold: "holds m l r k 8 (buf OR push_bit (8 * off) w) (word_at m (addr r k))"
    using holds_carried [OF k(3) off(2)] by (simp add: w(1))
  note split = match_split [OF stop k(1) hold, of False 0 True]
  show ?thesis
  proof (cases "j - k < 8")
    case True
    then show ?thesis
      using split(1) match_low_value [OF stop k(1) hold] by simp
  next
    case False
    then have k8: "k + 8 \<le> j" by simp
    have "carries m l off (k + 8) (drop_bit (8 * (8 - off)) w)"
      unfolding w(1) using off by (intro carries_drop) auto
    then have hold2: "holds m l r (k + 8) off (drop_bit (8 * (8 - off)) w) (word_at m (addr r (k + 8)))"
      using off by (intro holds_carry) simp_all
    have "j < k + off + 8" using zero_word_stop [OF stop] w by blast
    then have "j - (k + 8) < off" using k8 by simp
    then obtain v' w' where "match_low False False True (drop_bit (8 * (8 - off)) w, word_at m (addr r (k + 8)), 0, 0) = Some (v', w', 0, 0)"
      "diff_low v' w' = cmp_value m l r (Suc j) j"
      using match_differing [OF stop k8 hold2] by blast
    moreover have "read_u64 m (addr r (k + 8)) = Some (word_at m (addr r (k + 8)))"
      using read_at_stop(2) [OF stop k8] k(2) k8 by (simp add: addr_simps)
    ultimately show ?thesis
      using split(2) False by (simp add: addr_simps)
  qed
qed

lemma strcmp_shifted_ok:
  assumes stop: "cmp_stop True m l r A (Suc j) j" and left: "\<And>N. left_ok m l A N"
    and k: "k < j" "off8 (addr l k) = 0" "off = off8 (addr r k)" "off \<noteq> 0"
  shows "strcmp_shifted m (addr l k) (addr r k) = Some (cmp_value m l r (Suc j) j)"
proof -
  note P = cmp_stopD [OF stop]
  have off: "0 < off" "off < 8" using k(3,4) by (simp_all add: off8_less)
  have kN: "k < Suc j" "k \<le> j" using k(1) by simp_all
  define lw where "lw = word_at m (addr l k)"
  define rw where "rw = drop_bit (8 * off) (word_at m (addr r k - of_nat off))"
  have rd: "read_u64 m (addr l k) = Some lw"
    "read_u64 m (addr r k - of_nat off) = Some (word_at m (addr r k - of_nat off))"
    using read_at_stop(1) [OF stop kN(2,1) k(2)] addr_minus_offset(1) [OF k(3,4) P(6) [OF kN(2,1)]] by (simp_all add: lw_def)
  have hold: "holds m l r k (8 - off) lw rw"
    using addr_minus_offset(2) [OF k(3,4) P(6) [OF kN(2,1)]] by (simp add: holds_def rw_def lw_def bytes_of_word)
  define k1 where "k1 = k + (8 - off)"
  define buf where "buf = drop_bit (8 * (8 - off)) lw"
  have k1: "k1 + off = k + 8" using off by (simp add: k1_def)
  have al: "off8 (addr l (k1 + off)) = 0" "off8 (addr r k1) = 0"
    using k(2) off8_next_word [OF k(3)] by (simp_all add: k1 addr_simps) (simp add: k1_def)
  have carry: "carries m l off k1 buf"
    unfolding buf_def lw_def by (rule carries_drop) (simp_all add: off k1_def)
  have args: "addr l k + 8 = addr l (k1 + off)" "addr r k + of_nat (8 - off) = addr r k1"
    by (simp only: addr_plus_8 k1, simp only: addr_plus k1_def)
  note unfold = strcmp_shifted_def unat_and_7 k(3) [symmetric] Let_def rd rw_def [symmetric] lw_def [symmetric] args
  note split = match_split [OF stop kN(2) hold, where tn = False and tz' = True and n = 0]
  show ?thesis
  proof (cases "j - k < 8 - off")
    case True
    then have "\<not> 8 \<le> off + (j - k)" by simp
    then show ?thesis
      using split(1) True match_low_value [OF stop kN(2) hold True] by (simp add: unfold)
  next
    case False
    then have k1j: "k1 \<le> j" using k(1) off by (simp add: k1_def)
    have first: "match_low True False True (lw, rw, 8 - off, 0) = Some (buf, drop_bit (8 * (8 - off)) rw, 0, 0)"
      using split(2) False by (simp add: buf_def)
    show ?thesis
    proof (cases "HASZERO lw")
      case True
      have "j < k1 + off" using zero_word_stop [OF stop, of k] True by (simp add: lw_def k1)
      then have "j - k1 < off" using k1j by simp
      then obtain v' w' where "match_low False False True (buf, word_at m (addr r k1), 0, 0) = Some (v', w', 0, 0)"
        "diff_low v' w' = cmp_value m l r (Suc j) j"
        using match_differing [OF stop k1j holds_carry [OF carry]] off by auto
      then show ?thesis
        using True first k1j read_at_stop(2) [OF stop k1j _ al(2)] by (simp add: unfold del: of_nat_diff)
    next
      case False
      have nz: "\<forall>i < k1 + off. bytes_at m l i \<noteq> 0"
        using nonzero_words [OF nonzero_before [OF stop kN(2)] False [unfolded lw_def] order_refl] by (simp add: k1)
      from strcmp_shift_ok [OF stop left off k1j al carry nz] obtain x k2 buf2 where
        x: "strcmp_shift off m (addr l (k1 + off)) (addr r k1) buf = Some x"
        and k2: "k2 \<le> j" "carries m l off k2 buf2" "off8 (addr r k2) = 0"
        and cases: "let w = word_at m (addr l (k2 + off)); v = buf2 OR push_bit (8 * off) w in
            x = (HASZERO w, addr r k2, w, v, word_at m (addr r k2)) \<and> (HASZERO w \<or> v \<noteq> word_at m (addr r k2))"
        by blast
      define w where "w = word_at m (addr l (k2 + off))"
      define v where "v = buf2 OR push_bit (8 * off) w"
      note run = unfold first x False
      from cases have x': "x = (HASZERO w, addr r k2, w, v, word_at m (addr r k2))" "HASZERO w \<or> v \<noteq> word_at m (addr r k2)"
        unfolding Let_def w_def v_def by blast+
      show ?thesis
      proof (cases "HASZERO w")
        case True
        then show ?thesis
          using strcmp_end [OF stop off k2(1,3,2) w_def True] x'(1) v_def by (simp add: run del: of_nat_diff)
      next
        case neq: False
        have hold2: "holds m l r k2 8 v (word_at m (addr r k2))"
          using holds_carried [OF k2(2) off(2)] by (simp add: v_def w_def)
        have "j < k2 + 8" using holds_neq [OF stop k2(1) hold2] x'(2) neq by simp
        then have "j - k2 < 8" using k2(1) by simp
        then obtain v' w' where "match_low False False True (v, word_at m (addr r k2), 0, 0) = Some (v', w', 0, 0)"
          "diff_low v' w' = cmp_value m l r (Suc j) j"
          using match_differing [OF stop k2(1) hold2] by blast
        then show ?thesis using x'(1) neq by (simp add: run del: of_nat_diff)
      qed
    qed
  qed
qed

lemma strcmp_at:
  assumes stop: "cmp_stop True m l r A (Suc j) j" and left: "\<And>N. left_ok m l A N"
  shows "strcmp m l r = Some (cmp_value m l r (Suc j) j)"
proof -
  note P = cmp_stopD [OF stop]
  obtain x k where 1: "strcmp_bytes m l r = Some x" "k \<le> j"
    "(case x of Inl st \<Rightarrow> st | Inr st \<Rightarrow> st) = (addr l k, addr r k)" "k < j \<longrightarrow> off8 (addr l k) = 0"
    using strcmp_bytes_ok [OF stop] by blast
  then have k: "k < Suc j" by simp
  consider (diff) "k = j" | (words) "k < j" "off8 (addr r k) = 0" | (shift) "k < j" "off8 (addr r k) \<noteq> 0"
    using 1(2) by linarith
  then show ?thesis
  proof cases
    case diff
    then have "bytes_at m l j \<noteq> bytes_at m r j \<or> bytes_at m r j = 0 \<and> bytes_at m l j = 0" using P(4) by auto
    then show ?thesis
      using 1 diff read_at_stop(3,4) [OF stop 1(2) k] by (auto simp: strcmp_def addr_simps cmp_value_def byte_diff_def)
  next
    case words
    have same: "bytes_at m l k = bytes_at m r k" "bytes_at m r k \<noteq> 0" using words P(2,3) by simp_all
    from words 1 have "off8 (addr l k) = 0" by simp
    from strcmp_words_ok [OF stop 1(2) this words(2)] obtain k2 where
      2: "strcmp_words m (addr l k) (addr r k) = Some (word_at m (addr l k2), word_at m (addr r k2))" "k2 \<le> j" "j < k2 + 8"
      by blast
    then have "j - k2 < 8" by simp
    then obtain v' w' where "match_low False False True (word_at m (addr l k2), word_at m (addr r k2), 0, 0) = Some (v', w', 0, 0)"
      "diff_low v' w' = cmp_value m l r (Suc j) j"
      using match_differing [OF stop 2(2) holds_words] by blast
    then show ?thesis
      using 1 same words 2(1) read_at_stop(3,4) [OF stop 1(2) k] by (simp add: strcmp_def addr_simps)
  next
    case shift
    have same: "bytes_at m l k = bytes_at m r k" "bytes_at m r k \<noteq> 0" using shift P(2,3) by simp_all
    from shift 1 have "off8 (addr l k) = 0" by simp
    from strcmp_shifted_ok [OF stop left shift(1) this refl shift(2)] show ?thesis
      using 1 same shift read_at_stop(3,4) [OF stop 1(2) k] by (simp add: strcmp_def addr_simps)
  qed
qed

section \<open>The byte-wise comparison of strings\<close>

fun strcmp_ref :: "u8 list \<Rightarrow> u8 list \<Rightarrow> u32" where
  "strcmp_ref (a # as) (b # bs) = (if a \<noteq> b \<or> a = 0 then byte_diff a b else strcmp_ref as bs)"
| "strcmp_ref _ _ = 0"

lemma strcmp_ref_at:
  assumes "\<forall>i < j. i < length xs \<and> i < length ys \<and> xs ! i = ys ! i \<and> xs ! i \<noteq> 0"
    and "if d then j < length xs \<and> j < length ys \<and> (xs ! j \<noteq> ys ! j \<or> xs ! j = 0) else j = length xs \<or> j = length ys"
  shows "strcmp_ref xs ys = (if d then byte_diff (xs ! j) (ys ! j) else 0)"
  using assms
proof (induction xs ys arbitrary: j rule: list_induct2')
  case (4 x xs y ys)
  show ?case
  proof (cases j)
    case 0
    with 4 show ?thesis by (auto split: if_splits)
  next
    case (Suc j')
    with 4(2) have xy: "x = y" "x \<noteq> 0" by force+
    have a: "\<forall>i < j'. i < length xs \<and> i < length ys \<and> xs ! i = ys ! i \<and> xs ! i \<noteq> 0"
      using 4(2) Suc by force
    have b: "if d then j' < length xs \<and> j' < length ys \<and> (xs ! j' \<noteq> ys ! j' \<or> xs ! j' = 0) else j' = length xs \<or> j' = length ys"
      using 4(3) Suc by (auto split: if_splits)
    show ?thesis using 4(1) [OF a b] xy Suc by simp
  qed
qed (auto split: if_splits)

lemma strcmp_ref_stop:
  assumes stop: "cmp_stop True m l r A N j" and len: "j < N \<longrightarrow> j < K \<and> j < K'" "j = N \<longrightarrow> K = N \<and> K' = N"
  shows "strcmp_ref (bytes_of m l K) (bytes_of m r K') = cmp_value m l r N j"
proof -
  note P = cmp_stopD [OF stop]
  have le: "j \<le> K" "j \<le> K'" using len P(1) by (cases "j = N"; simp)+
  have "strcmp_ref (bytes_of m l K) (bytes_of m r K') =
      (if j < N then byte_diff (bytes_of m l K ! j) (bytes_of m r K' ! j) else 0)"
    using P(1) P(2-4) le len by (intro strcmp_ref_at) auto
  then show ?thesis using len by (simp add: cmp_value_def)
qed

section \<open>Properties\<close>

text \<open>C38: \<open>strcmp\<close> computes the byte-wise comparison of two strings of any alignments, and
  reads no word that lies wholly beyond the end of one of them.\<close>

theorem strcmp_correct:
  assumes l: "is_string m l K" and r: "is_string m r K'"
  shows "strcmp m l r = Some (strcmp_ref (bytes_of m l (Suc K)) (bytes_of m r (Suc K')))"
proof -
  have K: "bytes_at m l K = 0" "can_access m l (Suc K)" "bytes_at m r K' = 0" "can_access m r (Suc K')"
    using l r by (auto simp: is_string_def)
  obtain j where j: "j \<le> Suc K" "\<forall>i < j. bytes_at m l i = bytes_at m r i \<and> bytes_at m l i \<noteq> 0"
    "j < Suc K \<longrightarrow> bytes_at m l j \<noteq> bytes_at m r j \<or> bytes_at m l j = 0"
    using first_index [of "Suc K" "\<lambda>i. bytes_at m l i \<noteq> bytes_at m r i \<or> bytes_at m l i = 0"] by auto
  then have le: "j \<le> K" "j \<le> K'" using K(1,3) by (metis less_Suc_eq_le not_le)+
  then have stop: "cmp_stop True m l r (Suc K) (Suc j) j"
    using j K can_access_mono [OF K(4), of "Suc j"] by (auto simp: cmp_stop_def)
  have "left_ok m l (Suc K) N" for N
    using K(1) by (metis left_ok_def less_Suc_eq_le not_le)
  then have "strcmp m l r = Some (cmp_value m l r (Suc j) j)"
    using strcmp_at [OF stop] by blast
  then show ?thesis using strcmp_ref_stop [OF stop, of "Suc K" "Suc K'"] le by simp
qed

definition demo_strings :: mem where
  "demo_strings = demo_mem\<lparr>content := (\<lambda>a. if a = 12 \<or> a = 30 then 0 else if a = 29 then 9 else 7)\<rparr>"

lemma demo_strings_ok: "is_string demo_strings 3 9" "is_string demo_strings 20 10"
proof -
  have acc: "can_access demo_strings 3 10" "can_access demo_strings 20 11"
    using demo_mem_access [of 3 10] demo_mem_access [of 20 11] by (simp_all add: can_access_def demo_strings_def)
  have "list_all (\<lambda>i. bytes_at demo_strings 3 i \<noteq> 0) [0..<9]" "list_all (\<lambda>i. bytes_at demo_strings 20 i \<noteq> 0) [0..<10]"
    "bytes_at demo_strings 3 9 = 0" "bytes_at demo_strings 20 10 = 0"
    by code_simp+
  then show "is_string demo_strings 3 9" "is_string demo_strings 20 10"
    using acc by (simp_all add: is_string_def list_all_iff)
qed

theorem strcmp_witness:
  "is_string demo_strings 3 9 \<and> is_string demo_strings 20 10 \<and>
   strcmp demo_strings 3 20 = Some (strcmp_ref (bytes_of demo_strings 3 (Suc 9)) (bytes_of demo_strings 20 (Suc 10)))"
  using demo_strings_ok strcmp_correct [OF demo_strings_ok] by blast

text \<open>\<open>strncmp\<close> computes the byte-wise comparison of the first \<open>n\<close> bytes of two strings,
  which need not be terminated within them.\<close>

theorem strncmp_correct:
  assumes l: "is_prefix m l (unat n) K" and r: "is_prefix m r (unat n) K'"
  shows "strncmp m l r n =
    Some (strcmp_ref (bytes_of m l (min (Suc K) (unat n))) (bytes_of m r (min (Suc K') (unat n))))"
proof -
  let ?N = "unat n"
  note PL = is_prefixD [OF l] and PR = is_prefixD [OF r]
  obtain j where j: "j \<le> ?N" "\<forall>i < j. bytes_at m l i = bytes_at m r i \<and> bytes_at m l i \<noteq> 0"
    "j < ?N \<longrightarrow> bytes_at m l j \<noteq> bytes_at m r j \<or> bytes_at m l j = 0"
    using first_index [of ?N "\<lambda>i. bytes_at m l i \<noteq> bytes_at m r i \<or> bytes_at m l i = 0"] by auto
  have "j \<le> K"
  proof (rule ccontr)
    assume "\<not> j \<le> K"
    then show False using j(1) spec [OF j(2), of K] PL(4) by simp
  qed
  moreover have "j \<le> K'"
  proof (rule ccontr)
    assume "\<not> j \<le> K'"
    then show False using j(1) spec [OF j(2), of K'] PR(4) by simp
  qed
  ultimately have le: "j \<le> K" "j \<le> K'" .
  have acc: "can_access m l (min (Suc K) ?N)" "can_access m r (min (Suc K') ?N)"
    using l r by (simp_all add: is_prefix_def)
  have "can_access m r (min (Suc j) ?N)"
    by (rule can_access_mono [OF acc(2)]) (use le in auto)
  then have stop: "cmp_stop True m l r (min (Suc K) ?N) ?N j"
    using j le acc(1) by (auto simp: cmp_stop_def)
  have "x < min (Suc K) ?N" if "x < ?N" "\<forall>i < x. bytes_at m l i \<noteq> 0" for x
  proof (rule ccontr)
    assume "\<not> x < min (Suc K) ?N"
    then have "K < x" using that(1) by auto
    then show False using that PL(4) by auto
  qed
  then have "left_ok m l (min (Suc K) ?N) ?N" by (simp add: left_ok_def)
  then have "strncmp m l r n = Some (cmp_value m l r ?N j)"
    using strncmp_at [OF stop] by blast
  then show ?thesis using strcmp_ref_stop [OF stop, of "min (Suc K) ?N" "min (Suc K') ?N"] le j(1) by simp
qed

theorem strncmp_witness:
  "strncmp demo_strings 3 20 13 = Some (strcmp_ref (bytes_of demo_strings 3 10) (bytes_of demo_strings 20 11))"
proof -
  have "is_prefix demo_strings 3 (unat (13 :: u64)) 9" "is_prefix demo_strings 20 (unat (13 :: u64)) 10"
    using demo_strings_ok by (simp_all add: is_string_def is_prefix_def)
  moreover have "min (Suc 9) (unat (13 :: u64)) = 10" "min (Suc 10) (unat (13 :: u64)) = 11" by simp_all
  ultimately show ?thesis using strncmp_correct [of demo_strings 3 13 9 20 10] by (simp only: simp_thms)
qed

end
