(* ===== verification/StrCpy.thy ===== *)
theory StrCpy
  imports StrCmp
begin

text \<open>
  \<open>strcpy\<close> and \<open>strncpy\<close> of \<open>src/string\<close>: \<open>memcpy\<close> with the end of the source found by
  \<open>HASZERO\<close> on its words.
\<close>

section \<open>Storing the bytes of a word\<close>

text \<open>\<open>while (i && n && (buf & 0xff)) { *dp = buf & 0xff; buf >>= 8; d++; i--; n--; }\<close>; the
  flags say which of the three conditions a loop has.\<close>

definition store_low :: "bool \<Rightarrow> bool \<Rightarrow> bool \<Rightarrow> mem \<times> u64 \<times> u64 \<times> nat \<times> u64 \<Rightarrow> (mem \<times> u64 \<times> u64 \<times> nat \<times> u64) option" where
  "store_low ti tn tz =
     while_c (\<lambda>(m, d, buf, i, n). (ti \<longrightarrow> i \<noteq> 0) \<and> (tn \<longrightarrow> n \<noteq> 0) \<and> (tz \<longrightarrow> buf AND 0xff \<noteq> 0))
       (\<lambda>(m, d, buf, i, n). do {
          m \<leftarrow> write_byte m d (ucast (buf AND 0xff));
          Some (m, d + 1, drop_bit 8 buf, if ti then i - 1 else i, if tn then n - 1 else n) })"

section \<open>strcpy\<close>

definition strcpy_bytes :: "mem \<Rightarrow> u64 \<Rightarrow> u64 \<Rightarrow> (mem \<times> u64 \<times> u64 + mem \<times> u64 \<times> u64) option" where
  "strcpy_bytes m src dest =
     while_ret (\<lambda>(m, s, d). s AND 7 \<noteq> 0)
       (\<lambda>(m, s, d). do {
          b \<leftarrow> read_byte m s;
          if b \<noteq> 0 then do {
            m \<leftarrow> write_byte m d b;
            Some (Inr (m, s + 1, d + 1)) }
          else Some (Inl (m, s, d)) })
       (m, src, dest)"

definition strcpy_words :: "mem \<Rightarrow> u64 \<Rightarrow> u64 \<Rightarrow> (mem \<times> u64 \<times> u64) option" where
  "strcpy_words m s d =
     loop_c (\<lambda>(m, s, d). do {
       s_buf \<leftarrow> read_u64 m s;
       if HASZERO s_buf then Some (Inl (m, d, s_buf))
       else do {
         m \<leftarrow> write_u64 m d s_buf;
         Some (Inr (m, s + 8, d + 8)) } })
     (m, s, d)"

definition strcpy_shift :: "nat \<Rightarrow> mem \<Rightarrow> u64 \<Rightarrow> u64 \<Rightarrow> u64 \<Rightarrow> (mem \<times> u64 \<times> u64 \<times> u64) option" where
  "strcpy_shift d_off m s d s_buf1 =
     loop_c (\<lambda>(m, s, d, s_buf1). do {
       let s = s + 8;
       s_buf2 \<leftarrow> read_u64 m s;
       if HASZERO s_buf2 then Some (Inl (m, d, s_buf1, s_buf2))
       else do {
         m \<leftarrow> write_u64 m d (s_buf1 OR push_bit (8 * d_off) s_buf2);
         Some (Inr (m, s, d + 8, drop_bit (8 * (8 - d_off)) s_buf2)) } })
     (m, s, d, s_buf1)"

text \<open>The bytes of the last word up to its zero, then the terminating zero\<close>

definition strcpy_finish :: "mem \<Rightarrow> u64 \<Rightarrow> u64 \<Rightarrow> mem option" where
  "strcpy_finish m d s_buf = do {
     (m, d, _) \<leftarrow> store_low False False True (m, d, s_buf, 0, 0);
     write_byte m d 0 }"

definition strcpy_shifted :: "mem \<Rightarrow> u64 \<Rightarrow> u64 \<Rightarrow> mem option" where
  "strcpy_shifted m s d = do {
     let d_off = unat (d AND 7);
     s_buf1 \<leftarrow> read_u64 m s;
     if HASZERO s_buf1 then strcpy_finish m d s_buf1
     else do {
       (m, d, s_buf1, _) \<leftarrow> store_low True False False (m, d, s_buf1, 8 - d_off, 0);
       (m, d, s_buf1, s_buf2) \<leftarrow> strcpy_shift d_off m s d s_buf1;
       (m, d, _) \<leftarrow> store_low True False False (m, d, s_buf1, d_off, 0);
       strcpy_finish m d s_buf2 } }"

definition strcpy :: "mem \<Rightarrow> u64 \<Rightarrow> u64 \<Rightarrow> (mem \<times> u64) option" where
  "strcpy m dest src = do {
     x \<leftarrow> strcpy_bytes m src dest;
     let (m, s, d) = (case x of Inl st \<Rightarrow> st | Inr st \<Rightarrow> st);
     b \<leftarrow> read_byte m s;
     if b = 0 then do {
       m \<leftarrow> write_byte m d 0;
       Some (m, dest) }
     else if d AND 7 = 0 then do {
       (m, d, s_buf) \<leftarrow> strcpy_words m s d;
       m \<leftarrow> strcpy_finish m d s_buf;
       Some (m, dest) }
     else do {
       m \<leftarrow> strcpy_shifted m s d;
       Some (m, dest) } }"

section \<open>strncpy\<close>

definition strncpy_bytes :: "mem \<Rightarrow> u64 \<Rightarrow> u64 \<Rightarrow> u64 \<Rightarrow> (mem \<times> u64 \<times> u64 \<times> u64 + mem \<times> u64 \<times> u64 \<times> u64) option" where
  "strncpy_bytes m src dest n =
     while_ret (\<lambda>(m, s, d, n). n \<noteq> 0 \<and> s AND 7 \<noteq> 0)
       (\<lambda>(m, s, d, n). do {
          b \<leftarrow> read_byte m s;
          if b \<noteq> 0 then do {
            m \<leftarrow> write_byte m d b;
            Some (Inr (m, s + 1, d + 1, n - 1)) }
          else Some (Inl (m, s, d, n)) })
       (m, src, dest, n)"

definition strncpy_words :: "mem \<Rightarrow> u64 \<Rightarrow> u64 \<Rightarrow> u64 \<Rightarrow> (mem \<times> u64 \<times> u64 + mem \<times> u64 \<times> u64 \<times> u64) option" where
  "strncpy_words m s d n =
     while_ret (\<lambda>(m, s, d, n). n \<ge> 8)
       (\<lambda>(m, s, d, n). do {
          s_buf \<leftarrow> read_u64 m s;
          if HASZERO s_buf then Some (Inl (m, d, s_buf))
          else do {
            m \<leftarrow> write_u64 m d s_buf;
            Some (Inr (m, s + 8, d + 8, n - 8)) } })
       (m, s, d, n)"

definition strncpy_shift ::
  "nat \<Rightarrow> mem \<Rightarrow> u64 \<Rightarrow> u64 \<Rightarrow> u64 \<Rightarrow> u64 \<Rightarrow>
     (mem \<times> u64 \<times> u64 \<times> u64 \<times> u64 + mem \<times> u64 \<times> u64 \<times> u64 \<times> u64) option" where
  "strncpy_shift d_off m s d n s_buf1 =
     while_ret (\<lambda>(m, s, d, n, s_buf1). n \<ge> 8)
       (\<lambda>(m, s, d, n, s_buf1). do {
          let s = s + 8;
          s_buf2 \<leftarrow> read_u64 m s;
          let s_buf3 = s_buf1 OR push_bit (8 * d_off) s_buf2;
          if HASZERO s_buf2 then Some (Inl (m, d, n, s_buf2, s_buf3))
          else do {
            m \<leftarrow> write_u64 m d s_buf3;
            Some (Inr (m, s, d + 8, n - 8, drop_bit (8 * (8 - d_off)) s_buf2)) } })
       (m, s, d, n, s_buf1)"

text \<open>\<open>while (n && (buf & 0xff)) ...; return d - orig_d;\<close> in the aligned and shifted cases\<close>

definition strncpy_tail :: "u64 \<Rightarrow> mem \<Rightarrow> u64 \<Rightarrow> u64 \<Rightarrow> u64 \<Rightarrow> (mem \<times> u64) option" where
  "strncpy_tail orig_d m d s_buf n = do {
     (m, d, _) \<leftarrow> store_low False True True (m, d, s_buf, 0, n);
     Some (m, d - orig_d) }"

definition strncpy_shifted :: "u64 \<Rightarrow> mem \<Rightarrow> u64 \<Rightarrow> u64 \<Rightarrow> u64 \<Rightarrow> (mem \<times> u64) option" where
  "strncpy_shifted orig_d m s d n = do {
     let d_off = unat (d AND 7);
     s_buf1 \<leftarrow> read_u64 m s;
     if HASZERO s_buf1 then strncpy_tail orig_d m d s_buf1 n
     else do {
       (m, d, s_buf1, i, n) \<leftarrow> store_low True True False (m, d, s_buf1, 8 - d_off, n);
       if i \<noteq> 0 \<or> n = 0 then Some (m, d - orig_d)
       else do {
         x \<leftarrow> strncpy_shift d_off m s d n s_buf1;
         case x of
           Inl (m, d, n, s_buf2, s_buf3) \<Rightarrow> do {
             (m, d, s_buf3, i, _) \<leftarrow> store_low True False True (m, d, s_buf3, 8, 0);
             if i \<noteq> 0 then Some (m, d - orig_d)
             else strncpy_tail orig_d m d (drop_bit (8 * (8 - d_off)) s_buf2) (n - 8) }
         | Inr (m, s, d, n, s_buf1) \<Rightarrow>
             if n = 0 then Some (m, d - orig_d)
             else do {
               (m, d, s_buf1, i, n) \<leftarrow> store_low True True True (m, d, s_buf1, d_off, n);
               if i \<noteq> 0 \<or> n = 0 then Some (m, d - orig_d)
               else do {
                 s_buf1 \<leftarrow> read_u64 m (s + 8);
                 strncpy_tail orig_d m d s_buf1 n } } } } }"

definition strncpy_internal :: "mem \<Rightarrow> u64 \<Rightarrow> u64 \<Rightarrow> u64 \<Rightarrow> (mem \<times> u64) option" where
  "strncpy_internal m dest src n = do {
     x \<leftarrow> strncpy_bytes m src dest n;
     let (m, s, d, n) = (case x of Inl st \<Rightarrow> st | Inr st \<Rightarrow> st);
     if n = 0 then Some (m, d - dest)
     else do {
       b \<leftarrow> read_byte m s;
       if b = 0 then Some (m, d - dest)
       else if d AND 7 = 0 then do {
         x \<leftarrow> strncpy_words m s d n;
         case x of
           Inl (m, d, s_buf) \<Rightarrow> do {
             (m, d, _) \<leftarrow> store_low False False True (m, d, s_buf, 0, 0);
             Some (m, d - dest) }
         | Inr (m, s, d, n) \<Rightarrow>
             if n = 0 then Some (m, d - dest)
             else do {
               s_buf \<leftarrow> read_u64 m s;
               strncpy_tail dest m d s_buf n } }
       else strncpy_shifted dest m s d n } }"

definition strncpy :: "mem \<Rightarrow> u64 \<Rightarrow> u64 \<Rightarrow> u64 \<Rightarrow> (mem \<times> u64) option" where
  "strncpy m d s n = do {
     (m, byte_written) \<leftarrow> strncpy_internal m d s n;
     if byte_written < n then do {
       (m, _) \<leftarrow> memset m (d + byte_written) 0 (n - byte_written);
       Some (m, d) }
     else Some (m, d) }"

section \<open>The loop over the bytes of a word\<close>

lemma store_low_at:
  assumes acc: "can_access m d (k + x)" "k + x < 2 ^ 64"
    and buf: "\<And>y. y < x \<Longrightarrow> byte_of buf y = f (k + y)"
    and go: "\<And>y. y < x \<Longrightarrow> tz \<Longrightarrow> byte_of buf y \<noteq> 0" "ti \<Longrightarrow> x \<le> i" "tn \<Longrightarrow> n = remaining N k \<and> k + x \<le> N \<and> N < 2 ^ 64"
    and halt: "ti \<and> x = i \<or> tn \<and> k + x = N \<or> tz \<and> byte_of buf x = 0"
  shows "store_low ti tn tz (put_bytes m d k f, addr d k, buf, i, n) =
    Some (put_bytes m d (k + x) f, addr d (k + x), drop_bit (8 * x) buf, if ti then i - x else i, if tn then remaining N (k + x) else n)"
proof -
  let ?st = "\<lambda>y. (put_bytes m d (k + y) f, addr d (k + y), drop_bit (8 * y) buf, if ti then i - y else i, if tn then remaining N (k + y) else n)"
  have "\<exists>st. store_low ti tn tz (put_bytes m d k f, addr d k, buf, i, n) = Some st \<and> st = ?st x"
    unfolding store_low_def
  proof (rule while_c_post [where N = x and k = 0 and R = "\<lambda>y st. st = ?st y"], goal_cases)
    case (3 y st)
    have "y < x"
    proof (rule ccontr)
      assume "\<not> y < x"
      then have "y = x" using 3 by simp
      then show False
        using 3 halt go(3) by (auto simp: and_ff_zero_iff byte_of_drop remaining_eq_0)
    qed
    then have "write_byte (put_bytes m d (k + y) f) (addr d (k + y)) (ucast (drop_bit (8 * y) buf AND 0xff)) =
        Some (put_bytes m d (Suc (k + y)) f)"
      using acc buf by (subst write_byte_addr [where f = f]) (simp_all add: can_accessD ucast_and_ff byte_of_drop)
    then show ?case
      using 3 \<open>y < x\<close> go(2,3) by (auto simp: drop_bit_drop_bit addr_simps intro!: exI [of _ "Suc y"])
  next
    case (4 y st)
    have "\<not> y < x"
    proof
      assume "y < x"
      then show False
        using 4 go(1) [of y] go(2,3) by (auto simp: and_ff_zero_iff byte_of_drop remaining_eq_0)
    qed
    then show ?case using 4 by simp
  qed (use go in auto)
  then show ?thesis by simp
qed

section \<open>The source behind what has been copied\<close>

definition str_pre :: "mem \<Rightarrow> u64 \<Rightarrow> u64 \<Rightarrow> nat \<Rightarrow> nat \<Rightarrow> bool" where
  "str_pre m d s N K \<longleftrightarrow> is_prefix m s N K \<and> fwd_ok d s N \<and> can_access m d N"

lemma str_preD:
  assumes "str_pre m d s N K"
  shows "K \<le> N" "N < 2 ^ 64" "i < K \<Longrightarrow> bytes_at m s i \<noteq> 0" "K < N \<Longrightarrow> bytes_at m s K = 0"
    "k \<le> K \<Longrightarrow> k < N \<Longrightarrow> accessible m (addr s k)" "fwd_ok d s N" "can_access m d N"
    "n \<le> N \<Longrightarrow> can_access m d n"
  using assms is_prefixD [of m s N K] by (auto simp: str_pre_def intro: can_access_mono)

lemma str_source:
  assumes "str_pre m d s N K" "k \<le> i" "i \<le> K" "i < N"
  shows "read_byte (copied m d s k) (addr s i) = Some (bytes_at m s i)"
  using assms copied_source [of d s N k i m] str_preD(5,6) [OF assms(1)] by (simp add: read_byte_eq)

lemma str_word:
  assumes "str_pre m d s N K" "k \<le> k' + y" "k' + y \<le> K" "k' + y < N" "y < 8"
  shows "byte_of (word_at (copied m d s k) (addr s k')) y = bytes_at m s (k' + y)"
  using assms copied_source [of d s N k "k' + y" m] str_preD(6) [OF assms(1)]
  by (simp add: byte_of_word_at_addr addr_simps)

lemma str_read:
  assumes "str_pre m d s N K" "k' \<le> K" "k' < N" "off8 (addr s k') = 0"
  shows "read_u64 (copied m d s k) (addr s k') = Some (word_at (copied m d s k) (addr s k'))"
  using assms str_preD(5) [OF assms(1)] by (intro read_u64_addr [where j = 0]) (simp_all add: addr_simps)

lemma str_zero:
  assumes pre: "str_pre m d s N K" and k: "k \<le> k'" "k' \<le> K" and zero: "HASZERO (word_at (copied m d s k) (addr s k'))"
  shows "K < k' + 8"
proof (rule ccontr)
  note P = str_preD [OF pre]
  assume "\<not> K < k' + 8"
  then have "byte_of (word_at (copied m d s k) (addr s k')) y \<noteq> 0" if "y < 8" for y
    using that k P(1) P(3) [of "k' + y"] by (simp add: str_word [OF pre])
  with zero show False by (auto simp: HASZERO_iff)
qed

lemma str_nonzero:
  assumes pre: "str_pre m d s N K" and k: "k \<le> k'" "k' \<le> K" and nz: "\<not> HASZERO (word_at (copied m d s k) (addr s k'))"
    and x: "x \<le> k' + 8" "x \<le> N"
  shows "x \<le> K"
proof (rule ccontr)
  note P = str_preD [OF pre]
  assume "\<not> x \<le> K"
  then have "byte_of (word_at (copied m d s k) (addr s k')) (K - k') = 0"
    using k x P(4) by (subst str_word [OF pre]) auto
  with nz k x \<open>\<not> x \<le> K\<close> show False by (auto simp: HASZERO_iff dest!: spec [of _ "K - k'"])
qed

lemma str_write_word:
  assumes pre: "str_pre m d s N K" and k: "k + 8 \<le> K" "off8 (addr d k) = 0"
    and w: "\<And>y. y < 8 \<Longrightarrow> byte_of w y = bytes_at m s (k + y)"
  shows "write_u64 (copied m d s k) (addr d k) w = Some (copied m d s (k + 8))"
  using assms str_preD(1,2,7) [OF pre]
  by (subst write_u64_addr [where f = "bytes_at m s"]) (auto simp: can_accessD)

lemma str_store_low:
  assumes pre: "str_pre m d s N K" and x: "k + x \<le> K"
    and buf: "\<And>y. y < x \<Longrightarrow> byte_of buf y = bytes_at m s (k + y)"
    and go: "ti \<Longrightarrow> x \<le> i" "tn \<Longrightarrow> n = remaining N k"
    and halt: "ti \<and> x = i \<or> tn \<and> k + x = N \<or> tz \<and> byte_of buf x = 0"
  shows "store_low ti tn tz (copied m d s k, addr d k, buf, i, n) =
    Some (copied m d s (k + x), addr d (k + x), drop_bit (8 * x) buf, if ti then i - x else i, if tn then remaining N (k + x) else n)"
proof -
  note P = str_preD [OF pre]
  show ?thesis
    using x P(1,2) P(8) [of "k + x"] buf go halt P(3)
    by (intro store_low_at) auto
qed

text \<open>A carried word holds the bytes of the source as far as they matter.\<close>

definition str_carries :: "mem \<Rightarrow> u64 \<Rightarrow> nat \<Rightarrow> nat \<Rightarrow> nat \<Rightarrow> nat \<Rightarrow> u64 \<Rightarrow> bool" where
  "str_carries m s N K off k buf \<longleftrightarrow>
     (\<forall>i < off. k + i \<le> K \<and> k + i < N \<longrightarrow> byte_of buf i = bytes_at m s (k + i)) \<and> (\<forall>i \<ge> off. byte_of buf i = 0)"

lemma str_carry:
  assumes pre: "str_pre m d s N K" and off: "off < 8" and k: "k \<le> k'"
  shows "str_carries m s N K off (k' + (8 - off)) (drop_bit (8 * (8 - off)) (word_at (copied m d s k) (addr s k')))"
  unfolding str_carries_def
proof safe
  fix i assume "i < off" "k' + (8 - off) + i \<le> K" "k' + (8 - off) + i < N"
  then show "byte_of (drop_bit (8 * (8 - off)) (word_at (copied m d s k) (addr s k'))) i = bytes_at m s (k' + (8 - off) + i)"
    using off k str_preD(1) [OF pre] by (simp add: byte_of_drop str_word [OF pre] add.assoc)
next
  fix i assume "off \<le> i"
  then show "byte_of (drop_bit (8 * (8 - off)) (word_at (copied m d s k) (addr s k'))) i = 0"
    by (simp only: byte_of_drop) (simp add: byte_of_ge)
qed

lemma str_combine:
  assumes pre: "str_pre m d s N K" and off: "off < 8" and buf: "str_carries m s N K off k buf"
    and y: "y < 8" "k + y \<le> K" "k + y < N"
  shows "byte_of (buf OR push_bit (8 * off) (word_at (copied m d s k) (addr s (k + off)))) y = bytes_at m s (k + y)"
proof (cases "y < off")
  case True
  then show ?thesis using buf off y by (simp add: str_carries_def byte_of_or byte_of_push)
next
  case False
  then have "byte_of (word_at (copied m d s k) (addr s (k + off))) (y - off) = bytes_at m s (k + y)"
    using str_word [OF pre, of k "k + off" "y - off"] y by simp
  then show ?thesis using buf False y(1) by (simp add: str_carries_def byte_of_or byte_of_push)
qed

section \<open>Correctness of \<open>strcpy\<close>\<close>

lemma strcpy_finish_ok:
  assumes pre: "str_pre m d s N K" and k: "k \<le> K" "K < N"
    and buf: "\<And>y. k + y \<le> K \<Longrightarrow> byte_of buf y = bytes_at m s (k + y)"
  shows "strcpy_finish (copied m d s k) (addr d k) buf = Some (copied m d s (Suc K))"
proof -
  note P = str_preD [OF pre]
  have "store_low False False True (copied m d s k, addr d k, buf, 0, 0) =
      Some (copied m d s K, addr d K, drop_bit (8 * (K - k)) buf, 0, 0)"
    using str_store_low [OF pre, of k "K - k" buf False 0 False 0 True] k buf P(4) by simp
  moreover have "write_byte (copied m d s K) (addr d K) 0 = Some (copied m d s (Suc K))"
    using k P(2,4,7) by (subst write_byte_addr [where f = "bytes_at m s"]) (auto simp: can_accessD)
  ultimately show ?thesis by (simp add: strcpy_finish_def)
qed

lemma strcpy_bytes_ok:
  assumes pre: "str_pre m d s N K" and K: "K < N"
  shows "\<exists>x. strcpy_bytes m s d = Some x \<and>
    (\<exists>k \<le> K. (case x of Inl st \<Rightarrow> st | Inr st \<Rightarrow> st) = (copied m d s k, addr s k, addr d k) \<and>
      (k < K \<longrightarrow> off8 (addr s k) = 0))"
  unfolding strcpy_bytes_def
proof (rule while_ret_post [where N = K and k = 0 and R = "\<lambda>k st. st = (copied m d s k, addr s k, addr d k)"], goal_cases)
  case (3 k st)
  note P = str_preD [OF pre]
  have k: "k < N" using 3 K by simp
  then have rd: "read_byte (copied m d s k) (addr s k) = Some (bytes_at m s k)"
    using str_source [OF pre, of k k] 3 by simp
  show ?case
  proof (cases "k = K")
    case True
    then show ?thesis using 3 rd P(4) K by auto
  next
    case False
    then have "write_byte (copied m d s k) (addr d k) (bytes_at m s k) = Some (copied m d s (Suc k))"
      using 3 k P(2,7) by (subst write_byte_addr [where f = "bytes_at m s"]) (auto simp: can_accessD)
    then show ?thesis
      using 3 False rd P(3) [of k] by (auto simp: addr_simps intro!: exI [of _ "Suc k"])
  qed
qed (auto simp: addr_simps)

lemma strcpy_words_ok:
  assumes pre: "str_pre m d s N K" and K: "K < N"
    and k0: "k0 \<le> K" "off8 (addr s k0) = 0" "off8 (addr d k0) = 0"
  shows "\<exists>x. strcpy_words (copied m d s k0) (addr s k0) (addr d k0) = Some x \<and>
    (\<exists>k \<le> K. x = (copied m d s k, addr d k, word_at (copied m d s k) (addr s k)) \<and> K < k + 8)"
  unfolding strcpy_words_def
proof (rule loop_c_post [where N = K and k = k0 and
      R = "\<lambda>k st. st = (copied m d s k, addr s k, addr d k) \<and> off8 (addr s k) = 0 \<and> off8 (addr d k) = 0"], goal_cases)
  case (3 k st)
  then have rd: "read_u64 (copied m d s k) (addr s k) = Some (word_at (copied m d s k) (addr s k))"
    using str_read [OF pre] K by simp
  show ?case
  proof (cases "HASZERO (word_at (copied m d s k) (addr s k))")
    case True
    then show ?thesis using 3 rd str_zero [OF pre order_refl _ True] by auto
  next
    case False
    then have "min (k + 8) N \<le> K" using str_nonzero [OF pre order_refl _ False] 3 by simp
    then have k8: "k + 8 \<le> K" using K by simp
    then have "write_u64 (copied m d s k) (addr d k) (word_at (copied m d s k) (addr s k)) = Some (copied m d s (k + 8))"
      using 3 K by (intro str_write_word [OF pre]) (auto simp: str_word [OF pre])
    then show ?thesis using 3 rd False k8 by (auto simp: addr_simps intro!: exI [of _ "k + 8"])
  qed
qed (use k0 in auto)

lemma strcpy_shift_ok:
  assumes pre: "str_pre m d s N K" and K: "K < N" and off: "0 < off" "off < 8"
    and k0: "8 \<le> k0 + off" "k0 + off \<le> K" "off8 (addr s (k0 + off)) = 0" "off8 (addr d k0) = 0" "str_carries m s N K off k0 buf"
  shows "\<exists>x. strcpy_shift off (copied m d s k0) (addr s (k0 + off - 8)) (addr d k0) buf = Some x \<and>
    (\<exists>k \<le> K. \<exists>buf. x = (copied m d s k, addr d k, buf, word_at (copied m d s k) (addr s (k + off))) \<and>
       k + off \<le> K \<and> K < k + off + 8 \<and> str_carries m s N K off k buf)"
  unfolding strcpy_shift_def
proof (rule loop_c_post [where N = K and k = k0 and
      R = "\<lambda>k st. \<exists>buf. st = (copied m d s k, addr s (k + off - 8), addr d k, buf) \<and> 8 \<le> k + off \<and> k + off \<le> K \<and>
        off8 (addr s (k + off)) = 0 \<and> off8 (addr d k) = 0 \<and> str_carries m s N K off k buf"], goal_cases)
  case (3 k st)
  then obtain buf where st: "st = (copied m d s k, addr s (k + off - 8), addr d k, buf)"
    and k: "8 \<le> k + off" "k + off \<le> K" and al: "off8 (addr s (k + off)) = 0" "off8 (addr d k) = 0"
    and buf: "str_carries m s N K off k buf"
    by blast
  let ?w = "word_at (copied m d s k) (addr s (k + off))"
  have s8: "addr s (k + off - 8) + 8 = addr s (k + off)" using k by (simp add: addr_plus_8)
  have rd: "read_u64 (copied m d s k) (addr s (k + off)) = Some ?w"
    using str_read [OF pre k(2) _ al(1)] k K by simp
  show ?case
  proof (cases "HASZERO ?w")
    case True
    then have "K < k + off + 8" using str_zero [OF pre _ k(2) True] by simp
    then show ?thesis
      using st rd True k buf s8 3(2)
      by (intro disjI1 exI [of _ "(copied m d s k, addr d k, buf, ?w)"] conjI exI [of _ k] exI [of _ buf]) (simp_all add: Let_def)
  next
    case False
    then have "min (k + off + 8) N \<le> K" using str_nonzero [OF pre _ k(2) False] by simp
    then have k8: "k + 8 + off \<le> K" using K by simp
    have wr: "write_u64 (copied m d s k) (addr d k) (buf OR push_bit (8 * off) ?w) = Some (copied m d s (k + 8))"
      using k8 al K off by (intro str_write_word [OF pre]) (auto simp: str_combine [OF pre off(2) buf])
    have "k + off + (8 - off) = k + 8" using off by simp
    then have "str_carries m s N K off (k + 8) (drop_bit (8 * (8 - off)) ?w)"
      using str_carry [OF pre off(2), of k "k + off"] by simp
    moreover have "k + 8 + off - 8 = k + off" "addr s (k + 8 + off) = addr s (k + off) + 8" by (simp_all add: addr_def)
    ultimately show ?thesis
      using st rd wr al k k8 False s8 off8_addr_plus_8 [of s "k + off"]
      by (intro disjI2 exI [of _ "(copied m d s (k + 8), addr s (k + off), addr d (k + 8), drop_bit (8 * (8 - off)) ?w)"] conjI
          exI [of _ "k + 8"] exI [of _ "drop_bit (8 * (8 - off)) ?w"]) (simp_all add: Let_def addr_simps off8_add_8)
  qed
qed (use k0 in auto)

lemma strcpy_shifted_ok:
  assumes pre: "str_pre m d s N K" and K: "K < N"
    and k: "k \<le> K" "off8 (addr s k) = 0" "off = off8 (addr d k)" "off \<noteq> 0"
  shows "strcpy_shifted (copied m d s k) (addr s k) (addr d k) = Some (copied m d s (Suc K))"
proof -
  have off: "0 < off" "off < 8" using k(3,4) by (simp_all add: off8_less)
  define w where "w = word_at (copied m d s k) (addr s k)"
  have rd: "read_u64 (copied m d s k) (addr s k) = Some w"
    unfolding w_def using str_read [OF pre k(1) _ k(2)] k K by simp
  note unfold = strcpy_shifted_def unat_and_7 k(3) [symmetric] Let_def rd
  show ?thesis
  proof (cases "HASZERO w")
    case True
    then have "K < k + 8" using str_zero [OF pre order_refl k(1)] by (simp add: w_def)
    then have "strcpy_finish (copied m d s k) (addr d k) w = Some (copied m d s (Suc K))"
      using K by (intro strcpy_finish_ok [OF pre k(1) K]) (auto simp: w_def str_word [OF pre])
    then show ?thesis using True by (simp add: unfold)
  next
    case False
    then have "min (k + 8) N \<le> K" using str_nonzero [OF pre order_refl k(1)] by (simp add: w_def)
    then have k8: "k + 8 \<le> K" using K by simp
    define k1 where "k1 = k + (8 - off)"
    have k1: "k1 + off = k + 8" "8 \<le> k1 + off" "k1 + off - 8 = k" "k1 + off \<le> K" using off k8 by (simp_all add: k1_def)
    define buf where "buf = drop_bit (8 * (8 - off)) w"
    have first: "store_low True False False (copied m d s k, addr d k, w, 8 - off, 0) =
        Some (copied m d s k1, addr d k1, buf, 0, 0)"
      using str_store_low [OF pre, of k "8 - off" w True "8 - off" False 0 False] k8 off K
      by (simp add: k1_def buf_def w_def str_word [OF pre])
    have carry: "str_carries m s N K off k1 buf"
      using str_carry [OF pre off(2) order_refl, of k] by (simp add: buf_def w_def k1_def)
    have al: "off8 (addr s (k1 + off)) = 0" "off8 (addr d k1) = 0"
      using k(2) off8_next_word [OF k(3)] by (simp_all add: k1(1) addr_simps) (simp add: k1_def)
    from strcpy_shift_ok [OF pre K off k1(2,4) al carry] obtain k2 buf2 where
      shift: "strcpy_shift off (copied m d s k1) (addr s k) (addr d k1) buf =
        Some (copied m d s k2, addr d k2, buf2, word_at (copied m d s k2) (addr s (k2 + off)))"
      and k2: "k2 + off \<le> K" "K < k2 + off + 8" "str_carries m s N K off k2 buf2"
      using k1(3) by auto
    let ?w = "word_at (copied m d s k2) (addr s (k2 + off))"
    have last: "store_low True False False (copied m d s k2, addr d k2, buf2, off, 0) =
        Some (copied m d s (k2 + off), addr d (k2 + off), drop_bit (8 * off) buf2, 0, 0)"
      using str_store_low [OF pre, of k2 off buf2 True off False 0 False] k2 K by (simp add: str_carries_def)
    have "strcpy_finish (copied m d s (k2 + off)) (addr d (k2 + off)) ?w = Some (copied m d s (Suc K))"
      using K k2 by (intro strcpy_finish_ok [OF pre k2(1) K]) (auto simp: str_word [OF pre])
    then show ?thesis
      using False by (simp add: unfold first shift last del: of_nat_diff)
  qed
qed

text \<open>C39: \<open>strcpy\<close> copies the string with its terminating zero, and nothing else changes.\<close>

theorem strcpy_correct:
  assumes "is_string m src K" "Suc K < 2 ^ 64" "disjoint_buffers dest src (Suc K)" "can_access m dest (Suc K)"
  shows "strcpy m dest src = Some (put_bytes m dest (Suc K) (bytes_at m src), dest)"
proof -
  have pre: "str_pre m dest src (Suc K) K"
    using assms by (auto simp: str_pre_def is_prefix_def is_string_def disjoint_fwd_ok)
  note P = str_preD [OF pre] and K = lessI [of K]
  obtain x k where 1: "strcpy_bytes m src dest = Some x" "k \<le> K"
    "(case x of Inl st \<Rightarrow> st | Inr st \<Rightarrow> st) = (copied m dest src k, addr src k, addr dest k)" "k < K \<longrightarrow> off8 (addr src k) = 0"
    using strcpy_bytes_ok [OF pre K] by blast
  have rd: "read_byte (copied m dest src k) (addr src k) = Some (bytes_at m src k)"
    using str_source [OF pre order_refl 1(2)] 1(2) by simp
  consider (none) "k = K" | (words) "k < K" "off8 (addr dest k) = 0" | (shift) "k < K" "off8 (addr dest k) \<noteq> 0"
    using 1(2) by linarith
  then show ?thesis
  proof cases
    case none
    then have "write_byte (copied m dest src k) (addr dest k) 0 = Some (copied m dest src (Suc K))"
      using P(2,4,7) by (subst write_byte_addr [where f = "bytes_at m src"]) (auto simp: can_accessD)
    then show ?thesis using 1 none rd P(4) by (simp add: strcpy_def)
  next
    case words
    with 1 have al: "off8 (addr src k) = 0" by simp
    from strcpy_words_ok [OF pre K 1(2) al words(2)] obtain k2 where 2: "k2 \<le> K" "K < k2 + 8"
      "strcpy_words (copied m dest src k) (addr src k) (addr dest k) =
        Some (copied m dest src k2, addr dest k2, word_at (copied m dest src k2) (addr src k2))"
      by blast
    have "strcpy_finish (copied m dest src k2) (addr dest k2) (word_at (copied m dest src k2) (addr src k2)) =
        Some (copied m dest src (Suc K))"
      using 2 by (intro strcpy_finish_ok [OF pre 2(1) K]) (auto simp: str_word [OF pre])
    then show ?thesis using 1 2 words rd P(3) by (simp add: strcpy_def addr_simps)
  next
    case shift
    with 1 have al: "off8 (addr src k) = 0" by simp
    show ?thesis
      using strcpy_shifted_ok [OF pre K 1(2) al refl shift(2)] 1 shift rd P(3) by (simp add: strcpy_def addr_simps)
  qed
qed

section \<open>Correctness of \<open>strncpy\<close>\<close>

lemma strncpy_bytes_ok:
  assumes pre: "str_pre m d s N K"
  shows "\<exists>x. strncpy_bytes m s d (remaining N 0) = Some x \<and>
    (\<exists>k \<le> K. (case x of Inl st \<Rightarrow> st | Inr st \<Rightarrow> st) = (copied m d s k, addr s k, addr d k, remaining N k) \<and>
      (k < K \<longrightarrow> off8 (addr s k) = 0))"
  unfolding strncpy_bytes_def
proof (rule while_ret_post [where N = K and k = 0 and
      R = "\<lambda>k st. st = (copied m d s k, addr s k, addr d k, remaining N k)"], goal_cases)
  case (3 k st)
  note P = str_preD [OF pre]
  have k: "k < N" using 3 P(1,2) by (auto simp: addr_simps)
  then have rd: "read_byte (copied m d s k) (addr s k) = Some (bytes_at m s k)"
    using str_source [OF pre, of k k] 3 by simp
  show ?case
  proof (cases "k = K")
    case True
    then show ?thesis using 3 rd P(4) k by auto
  next
    case False
    then have "write_byte (copied m d s k) (addr d k) (bytes_at m s k) = Some (copied m d s (Suc k))"
      using 3 k P(2,7) by (subst write_byte_addr [where f = "bytes_at m s"]) (auto simp: can_accessD)
    then show ?thesis
      using 3 False rd k P(3) [of k] by (auto simp: addr_simps intro!: exI [of _ "Suc k"])
  qed
next
  case (4 k st)
  then show ?case using str_preD(1,2) [OF pre] by (auto simp: addr_simps)
qed (auto simp: addr_simps)

lemma strncpy_words_ok:
  assumes pre: "str_pre m d s N K" and k0: "k0 \<le> K" "off8 (addr s k0) = 0" "off8 (addr d k0) = 0"
  shows "\<exists>x. strncpy_words (copied m d s k0) (addr s k0) (addr d k0) (remaining N k0) = Some x \<and>
    (\<exists>k \<le> K. x = Inl (copied m d s k, addr d k, word_at (copied m d s k) (addr s k)) \<and> K < k + 8 \<and> K < N \<or>
       x = Inr (copied m d s k, addr s k, addr d k, remaining N k) \<and> N < k + 8 \<and> off8 (addr s k) = 0)"
  unfolding strncpy_words_def
proof (rule while_ret_post [where N = K and k = k0 and
      R = "\<lambda>k st. st = (copied m d s k, addr s k, addr d k, remaining N k) \<and> off8 (addr s k) = 0 \<and> off8 (addr d k) = 0"], goal_cases)
  case (3 k st)
  note P = str_preD(1,2) [OF pre]
  have k: "k + 8 \<le> N" using 3 P by (auto simp: addr_simps)
  then have rd: "read_u64 (copied m d s k) (addr s k) = Some (word_at (copied m d s k) (addr s k))"
    using str_read [OF pre] 3 by simp
  show ?case
  proof (cases "HASZERO (word_at (copied m d s k) (addr s k))")
    case True
    then have "K < k + 8" using str_zero [OF pre order_refl _ True] 3 by simp
    then show ?thesis using 3 rd True k by auto
  next
    case False
    then have k8: "k + 8 \<le> K" using str_nonzero [OF pre order_refl _ False] 3 k by simp
    then have "write_u64 (copied m d s k) (addr d k) (word_at (copied m d s k) (addr s k)) = Some (copied m d s (k + 8))"
      using 3 k by (intro str_write_word [OF pre]) (auto simp: str_word [OF pre])
    then show ?thesis using 3 rd False k8 k by (auto simp: addr_simps intro!: exI [of _ "k + 8"])
  qed
next
  case (4 k st)
  then show ?case using str_preD(1,2) [OF pre] by (fastforce simp: addr_simps)
qed (use k0 in auto)

lemma strncpy_shift_ok:
  assumes pre: "str_pre m d s N K" and off: "0 < off" "off < 8"
    and k0: "8 \<le> k0 + off" "k0 \<le> K" "min (k0 + off) N \<le> K" "off8 (addr s (k0 + off)) = 0" "off8 (addr d k0) = 0" "str_carries m s N K off k0 buf"
  shows "\<exists>x. strncpy_shift off (copied m d s k0) (addr s (k0 + off - 8)) (addr d k0) (remaining N k0) buf = Some x \<and>
    (\<exists>k \<le> K. \<exists>buf. str_carries m s N K off k buf \<and>
       (let w = word_at (copied m d s k) (addr s (k + off)) in
        x = Inl (copied m d s k, addr d k, remaining N k, w, buf OR push_bit (8 * off) w) \<and> k + 8 \<le> N \<and> K < k + off + 8 \<or>
        x = Inr (copied m d s k, addr s (k + off - 8), addr d k, remaining N k, buf) \<and> N < k + 8 \<and>
          8 \<le> k + off \<and> off8 (addr s (k + off)) = 0))"
  unfolding strncpy_shift_def
proof (rule while_ret_post [where N = K and k = k0 and
      R = "\<lambda>k st. \<exists>buf. st = (copied m d s k, addr s (k + off - 8), addr d k, remaining N k, buf) \<and> 8 \<le> k + off \<and> min (k + off) N \<le> K \<and>
        off8 (addr s (k + off)) = 0 \<and> off8 (addr d k) = 0 \<and> str_carries m s N K off k buf"], goal_cases)
  case (3 k st)
  note P = str_preD(1,2) [OF pre]
  from 3 obtain buf where st: "st = (copied m d s k, addr s (k + off - 8), addr d k, remaining N k, buf)"
    and k: "8 \<le> k + off" "min (k + off) N \<le> K" and al: "off8 (addr s (k + off)) = 0" "off8 (addr d k) = 0"
    and buf: "str_carries m s N K off k buf"
    by blast
  have n: "k + 8 \<le> N" using 3(3) st P by (simp add: addr_simps)
  then have kK: "k + off \<le> K" "k + off < N" using k(2) off by simp_all
  let ?w = "word_at (copied m d s k) (addr s (k + off))"
  have s8: "addr s (k + off - 8) + 8 = addr s (k + off)" using k by (simp add: addr_plus_8)
  have rd: "read_u64 (copied m d s k) (addr s (k + off)) = Some ?w"
    using str_read [OF pre kK al(1)] .
  show ?case
  proof (cases "HASZERO ?w")
    case True
    then have "K < k + off + 8" using str_zero [OF pre _ kK(1) True] by simp
    then show ?thesis using st rd True n buf s8 3(2)
      by (intro disjI2 exI [of _ "(copied m d s k, addr d k, remaining N k, ?w, buf OR push_bit (8 * off) ?w)"] conjI
          exI [of _ k] exI [of _ buf]) (simp_all add: Let_def)
  next
    case False
    then have k8: "min (k + off + 8) N \<le> K" using str_nonzero [OF pre _ kK(1) False] by simp
    then have "k + 8 \<le> K" using n by simp
    then have wr: "write_u64 (copied m d s k) (addr d k) (buf OR push_bit (8 * off) ?w) = Some (copied m d s (k + 8))"
      using n al off by (intro str_write_word [OF pre]) (auto simp: str_combine [OF pre off(2) buf])
    have "k + off + (8 - off) = k + 8" using off by simp
    then have "str_carries m s N K off (k + 8) (drop_bit (8 * (8 - off)) ?w)"
      using str_carry [OF pre off(2), of k "k + off"] by simp
    moreover have "off8 (addr s (k + 8 + off)) = 0" "k + 8 + off - 8 = k + off" "min (k + 8 + off) N \<le> K"
      using al(1) k8 off8_addr_plus_8 [of s "k + off"] by (simp_all add: ac_simps)
    ultimately show ?thesis
      using st rd wr al n False s8 \<open>k + 8 \<le> K\<close>
      by (intro disjI1 exI [of _ "(copied m d s (k + 8), addr s (k + off), addr d (k + 8), remaining N (k + 8), drop_bit (8 * (8 - off)) ?w)"] conjI
          exI [of _ "k + 8"] exI [of _ "drop_bit (8 * (8 - off)) ?w"]) (simp_all add: Let_def addr_simps off8_add_8)
  qed
next
  case (4 k st)
  then obtain buf where st: "st = (copied m d s k, addr s (k + off - 8), addr d k, remaining N k, buf)" "8 \<le> k + off"
    "off8 (addr s (k + off)) = 0" "str_carries m s N K off k buf" "\<not> 8 \<le> remaining N k"
    by auto
  then have "N < k + 8" using str_preD(1,2) [OF pre] by (simp add: addr_simps)
  then show ?case
    using st 4(2) by (intro exI [of _ k] exI [of _ buf] conjI) (simp_all add: Let_def)
qed (use k0 in auto)

lemma strncpy_tail_ok:
  assumes pre: "str_pre m d s N K" and k: "k \<le> K"
    and buf: "\<And>y. k + y \<le> K \<Longrightarrow> k + y < N \<Longrightarrow> byte_of buf y = bytes_at m s (k + y)"
  shows "strncpy_tail d (copied m d s k) (addr d k) buf (remaining N k) = Some (copied m d s K, of_nat K)"
proof -
  note P = str_preD [OF pre]
  have "K = N \<or> K < N" using P(1) by auto
  then have "store_low False True True (copied m d s k, addr d k, buf, 0, remaining N k) =
      Some (copied m d s K, addr d K, drop_bit (8 * (K - k)) buf, 0, remaining N K)"
    using str_store_low [OF pre, of k "K - k" buf False 0 True "remaining N k" True] k buf P(1,4) by auto
  then show ?thesis by (simp add: strncpy_tail_def)
qed

lemma strncpy_end:
  assumes pre: "str_pre m d s N K" and off: "0 < off" "off < 8"
    and k: "k \<le> K" "k + 8 \<le> N" "K < k + off + 8" "str_carries m s N K off k buf"
    and w: "w = word_at (copied m d s k) (addr s (k + off))"
  shows "(do {
      (m, d', s_buf3, i, _) \<leftarrow> store_low True False True (copied m d s k, addr d k, buf OR push_bit (8 * off) w, 8, 0);
      if i \<noteq> 0 then Some (m, d' - d)
      else strncpy_tail d m d' (drop_bit (8 * (8 - off)) w) (remaining N k - 8) }) = Some (copied m d s K, of_nat K)"
proof -
  note P = str_preD [OF pre]
  let ?v = "buf OR push_bit (8 * off) w"
  have v: "byte_of ?v y = bytes_at m s (k + y)" if "y < 8" "k + y \<le> K" for y
    using that k(2) unfolding w by (intro str_combine [OF pre off(2) k(4)]) auto
  show ?thesis
  proof (cases "K - k < 8")
    case True
    then have "store_low True False True (copied m d s k, addr d k, ?v, 8, 0) =
        Some (copied m d s K, addr d K, drop_bit (8 * (K - k)) ?v, 8 - (K - k), 0)"
      using str_store_low [OF pre, of k "K - k" ?v True 8 False 0 True] k(1,2) v P(4) by simp
    then show ?thesis using True by simp
  next
    case False
    then have k8: "k + 8 \<le> K" by simp
    then have first: "store_low True False True (copied m d s k, addr d k, ?v, 8, 0) =
        Some (copied m d s (k + 8), addr d (k + 8), drop_bit 64 ?v, 0, 0)"
      using str_store_low [OF pre, of k 8 ?v True 8 False 0 True] v by simp
    have "str_carries m s N K off (k + off + (8 - off)) (drop_bit (8 * (8 - off)) w)"
      unfolding w by (rule str_carry [OF pre off(2)]) simp
    then have "str_carries m s N K off (k + 8) (drop_bit (8 * (8 - off)) w)" using off by simp
    then have "strncpy_tail d (copied m d s (k + 8)) (addr d (k + 8)) (drop_bit (8 * (8 - off)) w) (remaining N (k + 8)) =
        Some (copied m d s K, of_nat K)"
      using k(3) by (intro strncpy_tail_ok [OF pre k8]) (auto simp: str_carries_def)
    then show ?thesis using first k(2) by (simp add: addr_simps)
  qed
qed

lemma strncpy_rest:
  assumes pre: "str_pre m d s N K" and off: "0 < off" "off < 8"
    and k: "k \<le> K" "k < N" "N < k + 8" "8 \<le> k + off" "off8 (addr s (k + off)) = 0" "str_carries m s N K off k buf"
  shows "(do {
      (m, d', s_buf1, i, n) \<leftarrow> store_low True True True (copied m d s k, addr d k, buf, off, remaining N k);
      if i \<noteq> 0 \<or> n = 0 then Some (m, d' - d)
      else do {
        s_buf1 \<leftarrow> read_u64 m (addr s (k + off - 8) + 8);
        strncpy_tail d m d' s_buf1 n } }) = Some (copied m d s K, of_nat K)"
proof -
  note P = str_preD [OF pre]
  have buf: "byte_of buf y = bytes_at m s (k + y)" if "y < off" "k + y \<le> K" "k + y < N" for y
    using that k(6) by (simp add: str_carries_def)
  show ?thesis
  proof (cases "K - k < off")
    case True
    have "K = N \<or> K < N" using P(1) by auto
    then have "store_low True True True (copied m d s k, addr d k, buf, off, remaining N k) =
        Some (copied m d s K, addr d K, drop_bit (8 * (K - k)) buf, off - (K - k), remaining N K)"
      using str_store_low [OF pre, of k "K - k" buf True off True "remaining N k" True] k(1,2) buf P(1,4) True by auto
    then show ?thesis using True by simp
  next
    case False
    then have k1: "k + off \<le> K" using k(1) by simp
    have first: "store_low True True True (copied m d s k, addr d k, buf, off, remaining N k) =
        Some (copied m d s (k + off), addr d (k + off), drop_bit (8 * off) buf, 0, remaining N (k + off))"
      using str_store_low [OF pre, of k off buf True off True "remaining N k" True] buf k1 P(1) by simp
    show ?thesis
    proof (cases "k + off = N")
      case True
      then have "K = k + off" using k1 P(1) by simp
      then show ?thesis using first True by (simp add: remaining_def)
    next
      case kN: False
      then have k1N: "k + off < N" using k1 P(1) by simp
      let ?w = "word_at (copied m d s (k + off)) (addr s (k + off))"
      have "addr s (k + off - 8) + 8 = addr s (k + off)" using k(4) by (simp add: addr_plus_8)
      moreover have "strncpy_tail d (copied m d s (k + off)) (addr d (k + off)) ?w (remaining N (k + off)) = Some (copied m d s K, of_nat K)"
        using k(3) by (intro strncpy_tail_ok [OF pre k1]) (auto intro!: str_word [OF pre])
      moreover have "read_u64 (copied m d s (k + off)) (addr s (k + off)) = Some ?w"
        using str_read [OF pre k1 k1N k(5)] .
      ultimately show ?thesis using first k1N P(2) by (simp add: remaining_eq_0)
    qed
  qed
qed

lemma strncpy_shifted_ok:
  assumes pre: "str_pre m d s N K"
    and k: "k \<le> K" "k < N" "off8 (addr s k) = 0" "off = off8 (addr d k)" "off \<noteq> 0"
  shows "strncpy_shifted d (copied m d s k) (addr s k) (addr d k) (remaining N k) = Some (copied m d s K, of_nat K)"
proof -
  note P = str_preD [OF pre]
  have off: "0 < off" "off < 8" using k(4,5) by (simp_all add: off8_less)
  define w where "w = word_at (copied m d s k) (addr s k)"
  have rd: "read_u64 (copied m d s k) (addr s k) = Some w"
    unfolding w_def using str_read [OF pre k(1,2,3)] .
  have w: "byte_of w y = bytes_at m s (k + y)" if "y < 8" "k + y \<le> K" "k + y < N" for y
    using that by (simp add: w_def str_word [OF pre])
  note unfold = strncpy_shifted_def unat_and_7 k(4) [symmetric] Let_def rd
  show ?thesis
  proof (cases "HASZERO w")
    case True
    then have "K < k + 8" using str_zero [OF pre order_refl k(1)] by (simp add: w_def)
    then have "strncpy_tail d (copied m d s k) (addr d k) w (remaining N k) = Some (copied m d s K, of_nat K)"
      using w by (intro strncpy_tail_ok [OF pre k(1)]) auto
    then show ?thesis using True by (simp add: unfold)
  next
    case False
    then have nz: "min (k + 8) N \<le> K" using str_nonzero [OF pre order_refl k(1)] by (simp add: w_def)
    show ?thesis
    proof (cases "N - k < 8 - off")
      case True
      then have KN: "K = N" using nz P(1) by simp
      have "store_low True True False (copied m d s k, addr d k, w, 8 - off, remaining N k) =
          Some (copied m d s N, addr d N, drop_bit (8 * (N - k)) w, 8 - off - (N - k), remaining N N)"
        using str_store_low [OF pre, of k "N - k" w True "8 - off" True "remaining N k" False] k(1,2) w True KN by simp
      moreover have "\<not> 8 \<le> off + (N - k)" using True by simp
      ultimately show ?thesis using False KN by (simp add: unfold)
    next
      case le: False
      define k1 where "k1 = k + (8 - off)"
      have k1: "k1 + off = k + 8" "8 \<le> k1 + off" "k1 + off - 8 = k" "k1 \<le> N" "k1 \<le> K" "min (k1 + off) N \<le> K"
        using off le nz k(2) by (simp_all add: k1_def)
      define buf where "buf = drop_bit (8 * (8 - off)) w"
      have first: "store_low True True False (copied m d s k, addr d k, w, 8 - off, remaining N k) =
          Some (copied m d s k1, addr d k1, buf, 0, remaining N k1)"
        using str_store_low [OF pre, of k "8 - off" w True "8 - off" True "remaining N k" False] w off k1(4,5)
        by (simp add: k1_def buf_def)
      show ?thesis
      proof (cases "k1 = N")
        case True
        then have "K = N" using k1(5) P(1) by simp
        then show ?thesis using False first True by (simp add: unfold remaining_def)
      next
        case kN1: False
        then have rem1: "remaining N k1 \<noteq> 0" using k1(4) P(2) by (simp add: remaining_eq_0)
        have carry: "str_carries m s N K off k1 buf"
          using str_carry [OF pre off(2) order_refl, of k] by (simp add: buf_def w_def k1_def)
        have al: "off8 (addr s (k1 + off)) = 0" "off8 (addr d k1) = 0"
          using k(3) off8_next_word [OF k(4)] by (simp_all add: k1(1) addr_simps) (simp add: k1_def)
        from strncpy_shift_ok [OF pre off k1(2,5,6) al carry] obtain x k2 buf2 where
          x: "strncpy_shift off (copied m d s k1) (addr s k) (addr d k1) (remaining N k1) buf = Some x"
          and k2: "k2 \<le> K" "str_carries m s N K off k2 buf2"
          and cases: "let w = word_at (copied m d s k2) (addr s (k2 + off)) in
            x = Inl (copied m d s k2, addr d k2, remaining N k2, w, buf2 OR push_bit (8 * off) w) \<and> k2 + 8 \<le> N \<and> K < k2 + off + 8 \<or>
            x = Inr (copied m d s k2, addr s (k2 + off - 8), addr d k2, remaining N k2, buf2) \<and> N < k2 + 8 \<and>
              8 \<le> k2 + off \<and> off8 (addr s (k2 + off)) = 0"
          using k1(3) by auto
        note run = unfold first x False rem1
        define w2 where "w2 = word_at (copied m d s k2) (addr s (k2 + off))"
        from cases consider (zero) "x = Inl (copied m d s k2, addr d k2, remaining N k2, w2, buf2 OR push_bit (8 * off) w2)" "k2 + 8 \<le> N" "K < k2 + off + 8"
          | (last) "x = Inr (copied m d s k2, addr s (k2 + off - 8), addr d k2, remaining N k2, buf2)" "N < k2 + 8"
              "8 \<le> k2 + off" "off8 (addr s (k2 + off)) = 0"
          unfolding Let_def w2_def [symmetric] by fast
        then show ?thesis
        proof cases
          case zero
          show ?thesis
            using strncpy_end [OF pre off k2(1) zero(2,3) k2(2) w2_def] zero(1) by (simp add: run del: of_nat_diff)
        next
          case last
          show ?thesis
          proof (cases "k2 = N")
            case True
            then have "K = N" using k2(1) P(1) by simp
            then show ?thesis using last(1) True P(2) by (simp add: run remaining_eq_0 del: of_nat_diff)
          next
            case False
            then have k2N: "k2 < N" using k2(1) P(1) by simp
            show ?thesis
              using strncpy_rest [OF pre off k2(1) k2N last(2,3,4) k2(2)] last(1) k2N P(2)
              by (simp add: run remaining_eq_0 del: of_nat_diff)
          qed
        qed
      qed
    qed
  qed
qed

lemma strncpy_internal_ok:
  assumes pre: "str_pre m d s (unat n) K"
  shows "strncpy_internal m d s n = Some (copied m d s K, of_nat K)"
proof -
  let ?N = "unat n"
  note P = str_preD [OF pre]
  obtain x k where 1: "strncpy_bytes m s d n = Some x" "k \<le> K"
    "(case x of Inl st \<Rightarrow> st | Inr st \<Rightarrow> st) = (copied m d s k, addr s k, addr d k, remaining ?N k)" "k < K \<longrightarrow> off8 (addr s k) = 0"
    using strncpy_bytes_ok [OF pre] by (auto simp: addr_simps)
  consider (none) "k = ?N" | (stop) "k < ?N" "k = K" | (words) "k < ?N" "k < K" "off8 (addr d k) = 0"
    | (shift) "k < ?N" "k < K" "off8 (addr d k) \<noteq> 0"
    using 1(2) P(1) by linarith
  then show ?thesis
  proof cases
    case none
    then have "K = k" using 1(2) P(1) by simp
    then show ?thesis using 1 none by (simp add: strncpy_internal_def remaining_def)
  next
    case stop
    then show ?thesis using 1 P(2,4) str_source [OF pre order_refl 1(2) stop(1)] by (simp add: strncpy_internal_def remaining_eq_0)
  next
    case words
    note rd = str_source [OF pre order_refl 1(2) words(1)]
    from 1 words have al: "off8 (addr s k) = 0" by simp
    from strncpy_words_ok [OF pre 1(2) al words(3)] obtain x2 k2 where
      x2: "strncpy_words (copied m d s k) (addr s k) (addr d k) (remaining ?N k) = Some x2" "k2 \<le> K"
      and cases: "x2 = Inl (copied m d s k2, addr d k2, word_at (copied m d s k2) (addr s k2)) \<and> K < k2 + 8 \<and> K < ?N \<or>
        x2 = Inr (copied m d s k2, addr s k2, addr d k2, remaining ?N k2) \<and> ?N < k2 + 8 \<and> off8 (addr s k2) = 0"
      by blast
    let ?w = "word_at (copied m d s k2) (addr s k2)"
    from cases show ?thesis
    proof (elim disjE conjE)
      assume *: "x2 = Inl (copied m d s k2, addr d k2, ?w)" "K < k2 + 8" "K < ?N"
      have "store_low False False True (copied m d s k2, addr d k2, ?w, 0, 0) =
          Some (copied m d s K, addr d K, drop_bit (8 * (K - k2)) ?w, 0, 0)"
        using str_store_low [OF pre, of k2 "K - k2" ?w False 0 False 0 True] x2(2) * P(4) by (simp add: str_word [OF pre])
      then show ?thesis
        using 1 words x2(1) * P(2,3) rd by (simp add: strncpy_internal_def remaining_eq_0 and_7_zero_iff)
    next
      assume *: "x2 = Inr (copied m d s k2, addr s k2, addr d k2, remaining ?N k2)" "?N < k2 + 8" "off8 (addr s k2) = 0"
      show ?thesis
      proof (cases "k2 = ?N")
        case True
        then have "K = k2" using x2(2) P(1) by simp
        then show ?thesis
          using 1 words x2(1) *(1) True P(2,3) rd by (simp add: strncpy_internal_def remaining_eq_0 and_7_zero_iff)
      next
        case False
        then have k2N: "k2 < ?N" using x2(2) P(1) by simp
        have "strncpy_tail d (copied m d s k2) (addr d k2) ?w (remaining ?N k2) = Some (copied m d s K, of_nat K)"
          using *(2) by (intro strncpy_tail_ok [OF pre x2(2)]) (auto simp: str_word [OF pre])
        then show ?thesis
          using 1 words x2(1) *(1) P(2,3) rd k2N str_read [OF pre x2(2) k2N *(3)]
          by (simp add: strncpy_internal_def remaining_eq_0 and_7_zero_iff)
      qed
    qed
  next
    case shift
    note rd = str_source [OF pre order_refl 1(2) shift(1)]
    from 1 shift have al: "off8 (addr s k) = 0" by simp
    show ?thesis
      using strncpy_shifted_ok [OF pre 1(2) shift(1) al refl shift(3)] 1 shift P(2,3) rd
      by (simp add: strncpy_internal_def remaining_eq_0 and_7_zero_iff)
  qed
qed

lemma put_bytes_addr:
  assumes "K + L \<le> 2 ^ 64"
  shows "put_bytes m (addr d K) L f = put_range m d K (K + L) (\<lambda>i. f (i - K))"
proof -
  have "(if 0 \<le> unat (a - addr d K) \<and> unat (a - addr d K) < L then f (unat (a - addr d K)) else content m a) =
      (if K \<le> unat (a - d) \<and> unat (a - d) < K + L then f (unat (a - d) - K) else content m a)" for a
  proof -
    have window: "unat (a - addr d K) < L \<longleftrightarrow> K \<le> unat (a - d) \<and> unat (a - d) < K + L"
      using unat_window [OF assms, of a d] by (simp add: addr_def)
    have "unat (a - addr d K) = unat (a - d) - K" if "K \<le> unat (a - d)"
      using unat_diff_offset [OF that] by (simp add: addr_def)
    with window show ?thesis by auto
  qed
  then show ?thesis
    unfolding put_range_def by (rule content_update_eqI)
qed

text \<open>\<open>strncpy\<close> copies the string, or its first \<open>n\<close> bytes, and fills the rest of the \<open>n\<close>
  bytes with zeros; where the string is longer, no terminating zero is written.\<close>

theorem strncpy_correct:
  assumes "is_prefix m s (unat n) K" "disjoint_buffers d s (unat n)" "can_access m d (unat n)"
  shows "strncpy m d s n = Some (put_bytes m d (unat n) (\<lambda>i. if i < K then bytes_at m s i else 0), d)"
proof -
  let ?N = "unat n" and ?f = "\<lambda>i. if i < K then bytes_at m s i else 0"
  have pre: "str_pre m d s ?N K" using assms by (simp add: str_pre_def disjoint_fwd_ok)
  note P = str_preD [OF pre]
  have copied: "copied m d s K = put_bytes m d K ?f" by (rule put_range_cong) simp
  have K: "(of_nat K :: u64) < n \<longleftrightarrow> K < ?N"
    using P(1,2) by (simp add: word_less_nat_alt unat_of_nat_u64)
  show ?thesis
  proof (cases "K < ?N")
    case True
    have u: "unat (n - of_nat K) = ?N - K"
      using P(1,2) by (simp add: unat_sub word_le_nat_alt unat_of_nat_u64)
    have "can_access (copied m d s K) (addr d K) (?N - K)"
      using P(7) by (simp add: can_access_def addr_addr)
    then have "memset (copied m d s K) (addr d K) 0 (n - of_nat K) =
        Some (put_bytes (copied m d s K) (addr d K) (?N - K) (\<lambda>_. 0), addr d K)"
      using memset_ok [of "copied m d s K" "addr d K" "n - of_nat K" 0] by (simp only: u)
    also have "put_bytes (copied m d s K) (addr d K) (?N - K) (\<lambda>_. 0) = put_range (put_bytes m d K ?f) d K ?N (\<lambda>_. 0)"
      using True P(2) by (subst put_bytes_addr) (simp_all add: copied)
    also have "\<dots> = put_range (put_bytes m d K ?f) d K ?N ?f" by (rule put_range_cong) simp
    also have "\<dots> = put_bytes m d ?N ?f" using True by simp
    finally show ?thesis
      using strncpy_internal_ok [OF pre] K True by (simp add: strncpy_def addr_def)
  next
    case False
    then have "K = ?N" using P(1) by simp
    then have "copied m d s K = put_bytes m d ?N ?f" using copied by simp
    then show ?thesis using strncpy_internal_ok [OF pre] K False by (simp add: strncpy_def)
  qed
qed

section \<open>Witnesses\<close>

lemma disjoint_demo2: "disjoint_buffers 40 3 13"
  by (auto simp: disjoint_buffers_def addr_def word_unat_eq_iff unat_word_ariths unat_of_nat take_bit_eq_mod)

lemma demo_strings_access: "can_access demo_strings 40 13"
  using demo_mem_access [of 40 13] by (simp add: can_access_def demo_strings_def)

theorem strcpy_witness:
  "strcpy demo_strings 40 3 = Some (put_bytes demo_strings 40 (Suc 9) (bytes_at demo_strings 3), 40)"
proof (rule strcpy_correct)
  show "disjoint_buffers 40 3 (Suc 9)" using disjoint_demo2 by (auto simp: disjoint_buffers_def)
  show "can_access demo_strings 40 (Suc 9)" by (rule can_access_mono [OF demo_strings_access]) simp
qed (use demo_strings_ok in simp_all)

theorem strncpy_witness:
  "strncpy demo_strings 40 3 13 =
    Some (put_bytes demo_strings 40 (unat (13 :: u64)) (\<lambda>i. if i < 9 then bytes_at demo_strings 3 i else 0), 40)"
  using demo_strings_ok(1) disjoint_demo2 demo_strings_access
  by (intro strncpy_correct) (simp_all add: is_string_def is_prefix_def)

end
