(* ===== verification/RbSpec.thy ===== *)
theory RbSpec
  imports Prelude
begin

text \<open>
  Red-black trees as the specification at the head of
  \<open>mini_libcxx/include/rbtree.hpp\<close> has them: the trees, the four rebalancing
  functions and the relation \<open>rb_insert_rel\<close>, transcribed branch by branch
  (the branches marked impossible there return \<open>(Nil, True)\<close> here too), and
  \<open>delete_leftmost\<close> and \<open>delete_root\<close>.  The theorems say that on valid trees
  the functions keep the in-order sequence, the colour condition and the black
  heights, and that the returned flag tells whether the black height changed.
\<close>

datatype rb_color = Black | Red

datatype (rb_set: 'v) rb_tree = Nil | Node 'v "'v rb_tree" "'v rb_tree" rb_color

fun rb_tree_color :: "'v rb_tree \<Rightarrow> rb_color" where
  "rb_tree_color Nil = Black"
| "rb_tree_color (Node _ _ _ c) = c"

fun rb_tree_bh :: "'v rb_tree \<Rightarrow> nat" where
  "rb_tree_bh Nil = 0"
| "rb_tree_bh (Node _ l _ c) = (if c = Black then Suc (rb_tree_bh l) else rb_tree_bh l)"

definition rb_insert_rel :: "'v rb_tree \<Rightarrow> 'v rb_tree \<Rightarrow> bool" where
  "rb_insert_rel tree tree' \<longleftrightarrow>
     rb_tree_bh tree' = rb_tree_bh tree \<or>
     rb_tree_bh tree' = Suc (rb_tree_bh tree) \<and>
     rb_tree_color tree' = Black \<and>
     (case tree' of
        Node _ l r _ \<Rightarrow> rb_tree_color l = Red \<longrightarrow> rb_tree_color r = Red \<longrightarrow> rb_tree_color tree = Red
      | _ \<Rightarrow> True)"

section \<open>The rebalancing functions\<close>

definition rb_insert_rebalance_left ::
  "'v \<Rightarrow> 'v rb_tree \<Rightarrow> 'v rb_tree \<Rightarrow> rb_color \<Rightarrow> bool \<Rightarrow> 'v rb_tree \<times> bool" where
  "rb_insert_rebalance_left x l' r c is_bh_equal =
    (case c of
      Black \<Rightarrow>
        (if is_bh_equal then
          (Node x l' r Black, True)
        else
          (case l' of
            Nil \<Rightarrow> (Nil, True)
          | Node l'_x l'_l l'_r _ \<Rightarrow>
              (case rb_tree_color l'_l of
                Black \<Rightarrow>
                  (case rb_tree_color l'_r of
                    Black \<Rightarrow> (Node x (Node l'_x l'_l l'_r Red) r Black, True)
                  | Red \<Rightarrow>
                      (case l'_r of
                        Nil \<Rightarrow> (Nil, True)
                      | Node l'_r_x l'_r_l l'_r_r l'_r_c \<Rightarrow>
                          (case rb_tree_color r of
                            Black \<Rightarrow> (Node l'_r_x (Node l'_x l'_l l'_r_l Red) (Node x l'_r_r r Red) Black, True)
                          | Red \<Rightarrow>
                              (case r of
                                Nil \<Rightarrow> (Nil, True)
                              | Node r_x r_l r_r r_c \<Rightarrow> (Node x l' (Node r_x r_l r_r Black) Red, True)))))
              | Red \<Rightarrow>
                  (case rb_tree_color l'_r of
                    Black \<Rightarrow>
                      (case rb_tree_color r of
                        Black \<Rightarrow> (Node l'_x l'_l (Node x l'_r r Red) Black, True)
                      | Red \<Rightarrow>
                          (case r of
                            Nil \<Rightarrow> (Nil, True)
                          | Node r_x r_l r_r r_c \<Rightarrow> (Node x l' (Node r_x r_l r_r Black) Red, True)))
                  | Red \<Rightarrow>
                      (case l'_l of
                        Nil \<Rightarrow> (Nil, True)
                      | Node l'_l_x l'_l_l l'_l_r _ \<Rightarrow> (Node l'_x (Node l'_l_x l'_l_l l'_l_r Black) (Node x l'_r r Black) Red, True))))))
    | Red \<Rightarrow>
        (if is_bh_equal then
          (Node x l' r Black, False)
        else
          (case l' of
            Nil \<Rightarrow> (Nil, True)
          | Node l'_x l'_l l'_r l'_c \<Rightarrow>
              (case rb_tree_color l'_l of
                Black \<Rightarrow>
                  (case rb_tree_color l'_r of
                    Black \<Rightarrow> (Node x (Node l'_x l'_l l'_r Red) r Black, False)
                  | Red \<Rightarrow>
                      (case l'_r of
                        Nil \<Rightarrow> (Nil, True)
                      | Node l'_r_x l'_r_l l'_r_r l'_r_c \<Rightarrow> (Node l'_r_x (Node l'_x l'_l l'_r_l Red) (Node x l'_r_r r Red) Black, False)))
              | Red \<Rightarrow>
                  (case rb_tree_color l'_r of
                    Black \<Rightarrow>
                      (case l'_l of
                        Nil \<Rightarrow> (Nil, True)
                      | Node l'_l_x l'_l_l l'_l_r l'_l_c \<Rightarrow> (Node l'_x (Node l'_l_x l'_l_l l'_l_r Red) (Node x l'_r r Red) Black, False))
                  | Red \<Rightarrow> (Nil, True))))))"

definition rb_insert_rebalance_right ::
  "'v \<Rightarrow> 'v rb_tree \<Rightarrow> 'v rb_tree \<Rightarrow> rb_color \<Rightarrow> bool \<Rightarrow> 'v rb_tree \<times> bool" where
  "rb_insert_rebalance_right x l r' c is_bh_equal =
    (case c of
      Black \<Rightarrow>
        (if is_bh_equal then
          (Node x l r' Black, True)
        else
          (case r' of
            Nil \<Rightarrow> (Nil, True)
          | Node r'_x r'_l r'_r r'_c \<Rightarrow>
              (case rb_tree_color r'_l of
                Black \<Rightarrow>
                  (case rb_tree_color r'_r of
                    Black \<Rightarrow> (Node x l (Node r'_x r'_l r'_r Red) Black, True)
                  | Red \<Rightarrow>
                      (case r'_r of
                        Nil \<Rightarrow> (Nil, True)
                      | Node r'_r_x r'_r_l r'_r_r r'_r_c \<Rightarrow>
                          (case rb_tree_color l of
                            Black \<Rightarrow> (Node r'_x (Node x l r'_l Red) r'_r Black, True)
                          | Red \<Rightarrow>
                              (case l of
                                Nil \<Rightarrow> (Nil, True)
                              | Node l_x l_l l_r l_c \<Rightarrow> (Node x (Node l_x l_l l_r Black) r' Red, True)))))
              | Red \<Rightarrow>
                  (case rb_tree_color r'_r of
                    Black \<Rightarrow>
                      (case r'_l of
                        Nil \<Rightarrow> (Nil, True)
                      | Node r'_l_x r'_l_l r'_l_r r'_l_c \<Rightarrow>
                          (case rb_tree_color l of
                            Black \<Rightarrow> (Node r'_l_x (Node x l r'_l_l Red) (Node r'_x r'_l_r r'_r Red) Black, True)
                          | Red \<Rightarrow>
                              (case l of
                                Nil \<Rightarrow> (Nil, True)
                              | Node l_x l_l l_r l_c \<Rightarrow> (Node x (Node l_x l_l l_r Black) r' Red, True))))
                  | Red \<Rightarrow>
                      (case r'_l of
                        Nil \<Rightarrow> (Nil, True)
                      | Node r'_l_x r'_l_l r'_l_r r'_l_c \<Rightarrow> (Node r'_l_x (Node x l r'_l_l Black) (Node r'_x r'_l_r r'_r Black) Red, True))))))
    | Red \<Rightarrow>
        (if is_bh_equal then
          (Node x l r' Black, False)
        else
          (case r' of
            Nil \<Rightarrow> (Nil, True)
          | Node r'_x r'_l r'_r r'_c \<Rightarrow>
              (case rb_tree_color r'_l of
                Black \<Rightarrow>
                  (case rb_tree_color r'_r of
                    Black \<Rightarrow> (Node x l (Node r'_x r'_l r'_r Red) Black, False)
                  | Red \<Rightarrow>
                      (case r'_r of
                        Nil \<Rightarrow> (Nil, True)
                      | Node r'_r_x r'_r_l r'_r_r r'_r_c \<Rightarrow> (Node r'_x (Node x l r'_l Red) (Node r'_r_x r'_r_l r'_r_r Red) Black, False)))
              | Red \<Rightarrow>
                  (case rb_tree_color r'_r of
                    Black \<Rightarrow>
                      (case r'_l of
                        Nil \<Rightarrow> (Nil, True)
                      | Node r'_l_x r'_l_l r'_l_r r'_l_c \<Rightarrow> (Node r'_l_x (Node x l r'_l_l Red) (Node r'_x r'_l_r r'_r Red) Black, False))
                  | Red \<Rightarrow> (Nil, True))))))"

definition rb_delete_rebalance_left ::
  "'v \<Rightarrow> 'v rb_tree \<Rightarrow> 'v rb_tree \<Rightarrow> rb_color \<Rightarrow> bool \<Rightarrow> 'v rb_tree \<times> bool" where
  "rb_delete_rebalance_left x l' r c is_bh_equal =
    (case c of
      Black \<Rightarrow>
        (if is_bh_equal then
          (Node x l' r Black, True)
        else
          (case rb_tree_color l' of
            Black \<Rightarrow>
              (case r of
                Nil \<Rightarrow> (Nil, True)
              | Node r_x r_l r_r r_c \<Rightarrow>
                  (case r_c of
                    Black \<Rightarrow>
                      (case rb_tree_color r_l of
                        Black \<Rightarrow>
                          (case rb_tree_color r_r of
                            Black \<Rightarrow> (Node x l' (Node r_x r_l r_r Red) Black, False)
                          | Red \<Rightarrow>
                              (case r_r of
                                Nil \<Rightarrow> (Nil, True)
                              | Node r_r_x r_r_l r_r_r _ \<Rightarrow> (Node r_x (Node x l' r_l Black) (Node r_r_x r_r_l r_r_r Black) Black, True)))
                      | Red \<Rightarrow>
                          (case r_l of
                            Nil \<Rightarrow> (Nil, True)
                          | Node r_l_x r_l_l r_l_r r_l_c \<Rightarrow> (Node r_l_x (Node x l' r_l_l Black) (Node r_x r_l_r r_r Black) Black, True)))
                  | Red \<Rightarrow>
                      (case r_l of
                        Nil \<Rightarrow> (Nil, True)
                      | Node r_l_x r_l_l r_l_r r_l_c \<Rightarrow>
                          (case rb_tree_color r_l_l of
                            Black \<Rightarrow> (Node r_x (Node r_l_x (Node x l' r_l_l Red) r_l_r Black) r_r Black, True)
                          | Red \<Rightarrow>
                              (case r_l_l of
                                Nil \<Rightarrow> (Nil, True)
                              | Node r_l_l_x r_l_l_l r_l_l_r r_l_l_c \<Rightarrow> (Node r_x (Node r_l_l_x (Node x l' r_l_l_l Black) (Node r_l_x r_l_l_r r_l_r Black) Red) r_r Black, True))))))
          | Red \<Rightarrow>
              (case l' of
                Nil \<Rightarrow> (Nil, True)
              | Node l'_x l'_l l'_r l'_c \<Rightarrow> (Node x (Node l'_x l'_l l'_r Black) r Black, True))))
    | Red \<Rightarrow>
        (if is_bh_equal then
          (case rb_tree_color l' of
            Black \<Rightarrow> (Node x l' r Red, True)
          | Red \<Rightarrow> (Nil, True))
        else
          (case rb_tree_color l' of
            Black \<Rightarrow>
              (case r of
                Nil \<Rightarrow> (Nil, True)
              | Node r_x r_l r_r r_c \<Rightarrow>
                  (case rb_tree_color r_l of
                    Black \<Rightarrow> (Node r_x (Node x l' r_l Red) r_r Black, True)
                  | Red \<Rightarrow>
                      (case r_l of
                        Nil \<Rightarrow> (Nil, True)
                      | Node r_l_x r_l_l r_l_r r_l_c \<Rightarrow> (Node r_l_x (Node x l' r_l_l Black) (Node r_x r_l_r r_r Black) Red, True))))
          | Red \<Rightarrow>
              (case l' of
                Nil \<Rightarrow> (Nil, True)
              | Node l'_x l'_l l'_r l'_c \<Rightarrow> (Node x (Node l'_x l'_l l'_r Black) r Red, True)))))"

definition rb_delete_rebalance_right ::
  "'v \<Rightarrow> 'v rb_tree \<Rightarrow> 'v rb_tree \<Rightarrow> rb_color \<Rightarrow> bool \<Rightarrow> 'v rb_tree \<times> bool" where
  "rb_delete_rebalance_right x l r' c is_bh_equal =
    (case c of
      Black \<Rightarrow>
        (if is_bh_equal then
          (Node x l r' Black, True)
        else
          (case rb_tree_color r' of
            Black \<Rightarrow>
              (case l of
                Nil \<Rightarrow> (Nil, True)
              | Node l_x l_l l_r l_c \<Rightarrow>
                  (case l_c of
                    Black \<Rightarrow>
                      (case rb_tree_color l_r of
                        Black \<Rightarrow>
                          (case rb_tree_color l_l of
                            Black \<Rightarrow> (Node x (Node l_x l_l l_r Red) r' Black, False)
                          | Red \<Rightarrow>
                              (case l_l of
                                Nil \<Rightarrow> (Nil, True)
                              | Node l_l_x l_l_l l_l_r _ \<Rightarrow> (Node l_x (Node l_l_x l_l_l l_l_r Black) (Node x l_r r' Black) Black, True)))
                      | Red \<Rightarrow>
                          (case l_r of
                            Nil \<Rightarrow> (Nil, True)
                          | Node l_r_x l_r_l l_r_r l_r_c \<Rightarrow> (Node l_r_x (Node l_x l_l l_r_l Black) (Node x l_r_r r' Black) Black, True)))
                  | Red \<Rightarrow>
                      (case l_r of
                        Nil \<Rightarrow> (Nil, True)
                      | Node l_r_x l_r_l l_r_r l_r_c \<Rightarrow>
                          (case rb_tree_color l_r_r of
                            Black \<Rightarrow> (Node l_x l_l (Node l_r_x l_r_l (Node x l_r_r r' Red) Black) Black, True)
                          | Red \<Rightarrow>
                              (case l_r_r of
                                Nil \<Rightarrow> (Nil, True)
                              | Node l_r_r_x l_r_r_l l_r_r_r l_r_r_c \<Rightarrow> (Node l_x l_l (Node l_r_r_x (Node l_r_x l_r_l l_r_r_l Black) (Node x l_r_r_r r' Black) Red) Black, True))))))
          | Red \<Rightarrow>
              (case r' of
                Nil \<Rightarrow> (Nil, True)
              | Node r'_x r'_l r'_r r'_c \<Rightarrow> (Node x l (Node r'_x r'_l r'_r Black) Black, True))))
    | Red \<Rightarrow>
        (if is_bh_equal then
          (case rb_tree_color r' of
            Black \<Rightarrow> (Node x l r' Red, True)
          | Red \<Rightarrow> (Nil, True))
        else
          (case rb_tree_color r' of
            Black \<Rightarrow>
              (case l of
                Nil \<Rightarrow> (Nil, True)
              | Node l_x l_l l_r l_c \<Rightarrow>
                  (case rb_tree_color l_r of
                    Black \<Rightarrow> (Node l_x l_l (Node x l_r r' Red) Black, True)
                  | Red \<Rightarrow>
                      (case l_r of
                        Nil \<Rightarrow> (Nil, True)
                      | Node l_r_x l_r_l l_r_r l_r_c \<Rightarrow> (Node l_r_x (Node l_x l_l l_r_l Black) (Node x l_r_r r' Black) Red, True))))
          | Red \<Rightarrow>
              (case r' of
                Nil \<Rightarrow> (Nil, True)
              | Node r'_x r'_l r'_r r'_c \<Rightarrow> (Node x l (Node r'_x r'_l r'_r Black) Red, True)))))"

section \<open>Deletion at the root of a subtree\<close>

fun delete_leftmost :: "'v rb_tree \<Rightarrow> ('v rb_tree \<times> bool \<times> 'v) option" where
  "delete_leftmost Nil = None"
| "delete_leftmost (Node x Nil r c) = Some (r, (case c of Black \<Rightarrow> False | Red \<Rightarrow> True), x)"
| "delete_leftmost (Node x l r c) =
     (case delete_leftmost l of
        None \<Rightarrow> None
      | Some (l', b, v) \<Rightarrow>
          (let (tree', b') = rb_delete_rebalance_left x l' r c b in Some (tree', b', v)))"

fun delete_root :: "'v rb_tree \<Rightarrow> 'v rb_tree \<times> bool" where
  "delete_root Nil = (Nil, True)"
| "delete_root (Node x l Nil c) = (l, (case c of Black \<Rightarrow> False | Red \<Rightarrow> True))"
| "delete_root (Node x l r c) =
     (case delete_leftmost r of
        None \<Rightarrow> (Nil, True)
      | Some (r', b, v) \<Rightarrow> rb_delete_rebalance_right v l r' c b)"

section \<open>Valid trees\<close>

fun inorder :: "'v rb_tree \<Rightarrow> 'v list" where
  "inorder Nil = []"
| "inorder (Node x l r _) = inorder l @ x # inorder r"

fun rb_ok :: "'v rb_tree \<Rightarrow> bool" where
  "rb_ok Nil \<longleftrightarrow> True"
| "rb_ok (Node _ l r c) \<longleftrightarrow>
     rb_ok l \<and> rb_ok r \<and> rb_tree_bh l = rb_tree_bh r \<and>
     (c = Red \<longrightarrow> rb_tree_color l = Black \<and> rb_tree_color r = Black)"

lemma rb_color_not_Red [simp]: "c \<noteq> Red \<longleftrightarrow> c = Black" and rb_color_not_Black [simp]: "c \<noteq> Black \<longleftrightarrow> c = Red"
  by (cases c; simp)+

lemma color_RedE:
  assumes "rb_tree_color t = Red"
  obtains x l r where "t = Node x l r Red"
  using assms by (cases t) auto

lemma bh_pos: "rb_ok t \<Longrightarrow> 0 < rb_tree_bh t \<Longrightarrow> t \<noteq> Nil"
  by auto


section \<open>Insertion\<close>

lemma rb_insert_rebalance_left_ok:
  assumes "rb_ok (Node x l r c)" "rb_ok l'" "rb_insert_rel l l'"
    and "rb_insert_rebalance_left x l' r c (rb_tree_bh l' = rb_tree_bh l) = (t, b)"
  shows "rb_ok t \<and> rb_insert_rel (Node x l r c) t \<and> b = (rb_tree_bh t = rb_tree_bh (Node x l r c)) \<and>
    inorder t = inorder l' @ x # inorder r"
  using assms
  unfolding rb_insert_rebalance_left_def rb_insert_rel_def
  by (auto split: rb_color.splits rb_tree.splits if_splits)

lemma rb_insert_rebalance_right_ok:
  assumes "rb_ok (Node x l r c)" "rb_ok r'" "rb_insert_rel r r'"
    and "rb_insert_rebalance_right x l r' c (rb_tree_bh r' = rb_tree_bh r) = (t, b)"
  shows "rb_ok t \<and> rb_insert_rel (Node x l r c) t \<and> b = (rb_tree_bh t = rb_tree_bh (Node x l r c)) \<and>
    inorder t = inorder l @ x # inorder r'"
  using assms
  unfolding rb_insert_rebalance_right_def rb_insert_rel_def
  by (auto split: rb_color.splits rb_tree.splits if_splits)

section \<open>Deletion\<close>

text \<open>What a subtree may look like after a deletion: as high as before, and then
  only red at the root if it was, or one black node lower.\<close>

definition rb_delete_rel :: "'v rb_tree \<Rightarrow> 'v rb_tree \<Rightarrow> bool" where
  "rb_delete_rel tree tree' \<longleftrightarrow>
     rb_tree_bh tree' = rb_tree_bh tree \<and> (rb_tree_color tree' = Red \<longrightarrow> rb_tree_color tree = Red) \<or>
     rb_tree_bh tree = Suc (rb_tree_bh tree')"

lemma rb_delete_rebalance_left_ok:
  assumes "rb_ok (Node x l r c)" "rb_ok l'" "rb_delete_rel l l'"
    and "rb_delete_rebalance_left x l' r c (rb_tree_bh l' = rb_tree_bh l) = (t, b)"
  shows "rb_ok t \<and> rb_delete_rel (Node x l r c) t \<and> b = (rb_tree_bh t = rb_tree_bh (Node x l r c)) \<and>
    inorder t = inorder l' @ x # inorder r"
  using assms
  unfolding rb_delete_rebalance_left_def rb_delete_rel_def
  by (auto split: rb_color.splits rb_tree.splits if_splits)

lemma rb_delete_rebalance_right_ok:
  assumes "rb_ok (Node x l r c)" "rb_ok r'" "rb_delete_rel r r'"
    and "rb_delete_rebalance_right x l r' c (rb_tree_bh r' = rb_tree_bh r) = (t, b)"
  shows "rb_ok t \<and> rb_delete_rel (Node x l r c) t \<and> b = (rb_tree_bh t = rb_tree_bh (Node x l r c)) \<and>
    inorder t = inorder l @ x # inorder r'"
  using assms
  unfolding rb_delete_rebalance_right_def rb_delete_rel_def
  by (auto split: rb_color.splits rb_tree.splits if_splits)

lemma delete_leftmost_ok:
  "rb_ok t \<Longrightarrow> t \<noteq> Nil \<Longrightarrow>
     \<exists>t' b v. delete_leftmost t = Some (t', b, v) \<and> rb_ok t' \<and> rb_delete_rel t t' \<and>
       b = (rb_tree_bh t' = rb_tree_bh t) \<and> inorder t = v # inorder t'"
proof (induction t rule: delete_leftmost.induct)
  case (3 x k a b k' r c)
  let ?l = "Node k a b k'"
  obtain l' b0 v where l': "delete_leftmost ?l = Some (l', b0, v)" "rb_ok l'" "rb_delete_rel ?l l'"
      "b0 = (rb_tree_bh l' = rb_tree_bh ?l)" "inorder ?l = v # inorder l'"
    using 3 by auto
  obtain t' b' where t': "rb_delete_rebalance_left x l' r c b0 = (t', b')" by force
  show ?case
    using rb_delete_rebalance_left_ok [OF 3(2) l'(2,3) t' [unfolded l'(4)]] l' t' by simp
qed (auto simp: rb_delete_rel_def split: rb_color.splits elim: color_RedE)

lemma delete_root_ok:
  assumes "rb_ok (Node x l r c)" "delete_root (Node x l r c) = (t, b)"
  shows "rb_ok t \<and> rb_delete_rel (Node x l r c) t \<and> b = (rb_tree_bh t = rb_tree_bh (Node x l r c)) \<and>
    inorder t = inorder l @ inorder r"
proof (cases r)
  case Nil
  then show ?thesis
    using assms by (auto simp: rb_delete_rel_def split: rb_color.splits)
next
  case (Node k a a' k')
  then obtain r' b0 v where r': "delete_leftmost r = Some (r', b0, v)" "rb_ok r'" "rb_delete_rel r r'"
      "b0 = (rb_tree_bh r' = rb_tree_bh r)" "inorder r = v # inorder r'"
    using delete_leftmost_ok [of r] assms(1) by auto
  have "rb_delete_rebalance_right v l r' c b0 = (t, b)"
    using assms(2) r'(1) Node by simp
  moreover have "rb_ok (Node v l r c)" using assms(1) by simp
  ultimately show ?thesis
    using rb_delete_rebalance_right_ok [of v l r c r' t b] r' by (simp add: rb_delete_rel_def)
qed

section \<open>Trees in context\<close>

text \<open>The way from a subtree up to the root: for every ancestor, whether the
  subtree is its left child, its key, the other child and its colour.\<close>

type_synonym 'v rb_frame = "bool \<times> 'v \<times> 'v rb_tree \<times> rb_color"

lemma rb_frame_cases [case_names left right]:
  fixes f :: "'v rb_frame"
  obtains (left) x s c where "f = (True, x, s, c)" | (right) x s c where "f = (False, x, s, c)"
  by (cases f) (metis (full_types))

fun fill_frame :: "'v rb_frame \<Rightarrow> 'v rb_tree \<Rightarrow> 'v rb_tree" where
  "fill_frame (True, x, s, c) t = Node x t s c"
| "fill_frame (False, x, s, c) t = Node x s t c"

fun plug :: "'v rb_tree \<Rightarrow> 'v rb_frame list \<Rightarrow> 'v rb_tree" where
  "plug t [] = t"
| "plug t (f # fs) = plug (fill_frame f t) fs"

text \<open>The keys to the left and to the right of the hole.\<close>

fun keys_before :: "'v rb_frame list \<Rightarrow> 'v list" where
  "keys_before [] = []"
| "keys_before ((True, x, s, c) # fs) = keys_before fs"
| "keys_before ((False, x, s, c) # fs) = keys_before fs @ inorder s @ [x]"

fun keys_after :: "'v rb_frame list \<Rightarrow> 'v list" where
  "keys_after [] = []"
| "keys_after ((True, x, s, c) # fs) = x # inorder s @ keys_after fs"
| "keys_after ((False, x, s, c) # fs) = keys_after fs"

lemma inorder_plug: "inorder (plug t fs) = keys_before fs @ inorder t @ keys_after fs"
proof (induction fs arbitrary: t)
  case (Cons f fs)
  then show ?case by (cases f rule: rb_frame_cases) auto
qed simp

lemma plug_append: "plug t (fs @ gs) = plug (plug t fs) gs"
  by (induction fs arbitrary: t) auto

text \<open>A subtree may be replaced by a valid one of the same black height that is
  red at the root only if the old one was.\<close>

lemma rb_ok_plug: "rb_ok (plug t fs) \<Longrightarrow> rb_ok t"
proof (induction fs arbitrary: t)
  case (Cons f fs)
  then show ?case by (cases f rule: rb_frame_cases) fastforce+
qed simp

lemma rb_ok_plug_replace:
  assumes "rb_ok (plug t fs)" "rb_ok t'" "rb_tree_bh t' = rb_tree_bh t"
    "rb_tree_color t' = Red \<Longrightarrow> rb_tree_color t = Red"
  shows "rb_ok (plug t' fs)"
  using assms
proof (induction fs arbitrary: t t')
  case (Cons f fs)
  have t: "rb_ok (fill_frame f t)"
    using Cons.prems(1) rb_ok_plug by fastforce
  show ?case
  proof (cases f rule: rb_frame_cases)
    case (left x s c)
    with Cons.prems t show ?thesis
      using Cons.IH [of "fill_frame f t" "fill_frame f t'"] by (cases "rb_tree_color t'") auto
  next
    case (right x s c)
    with Cons.prems t show ?thesis
      using Cons.IH [of "fill_frame f t" "fill_frame f t'"] by (cases "rb_tree_color t'") auto
  qed
qed simp

end
