(* ===== verification/RbOps.thy ===== *)
theory RbOps
  imports RbSpec
begin

text \<open>
  Insertion and removal as the loops of \<open>class rbtree\<close> perform them, on trees:
  the subtree that has just changed and the frames above it.  \<open>insert_fix\<close> is
  the loop of \<open>insert_rebalance\<close> with its early exit, \<open>delete_fix\<close> the last loop
  of \<open>remove_node\<close>.  Validity, the in-order sequence and the height are proved
  here, once; the theories on the heap show that the pointer code computes these
  trees.
\<close>

section \<open>Insertion\<close>

fun insert_step :: "'v rb_frame \<Rightarrow> 'v rb_tree \<Rightarrow> bool \<Rightarrow> 'v rb_tree \<times> bool" where
  "insert_step (True, x, s, c) t eq = rb_insert_rebalance_left x t s c eq"
| "insert_step (False, x, s, c) t eq = rb_insert_rebalance_right x s t c eq"

text \<open>\<open>is_bh_equal\<close> and either a red old root or a black new one: nothing above changes.\<close>

fun insert_stop :: "'v rb_frame \<Rightarrow> 'v rb_tree \<times> bool \<Rightarrow> bool" where
  "insert_stop (_, _, _, c) (t, b) \<longleftrightarrow> b \<and> (c = Red \<or> rb_tree_color t = Black)"

fun insert_fix :: "'v rb_tree \<Rightarrow> 'v rb_frame list \<Rightarrow> bool \<Rightarrow> 'v rb_tree" where
  "insert_fix t [] eq = t"
| "insert_fix t (f # fs) eq =
     (let res = insert_step f t eq
      in if insert_stop f res then plug (fst res) fs else insert_fix (fst res) fs (snd res))"

text \<open>A new node \<open>y\<close> is attached where the first frame has an empty child; only
  below a red node is there anything to repair.\<close>

fun emplace_at :: "'v \<Rightarrow> 'v rb_frame list \<Rightarrow> 'v rb_tree" where
  "emplace_at y [] = Node y Nil Nil Black"
| "emplace_at y ((d, x, s, c) # fs) =
     (if c = Red then insert_fix (Node y Nil Nil Red) ((d, x, s, c) # fs) True
      else plug (Node y Nil Nil Red) ((d, x, s, c) # fs))"

section \<open>Removal\<close>

fun delete_step :: "'v rb_frame \<Rightarrow> 'v rb_tree \<Rightarrow> 'v rb_tree \<times> bool" where
  "delete_step (True, x, s, c) t = rb_delete_rebalance_left x t s c False"
| "delete_step (False, x, s, c) t = rb_delete_rebalance_right x s t c False"

fun delete_fix :: "'v rb_tree \<Rightarrow> 'v rb_frame list \<Rightarrow> 'v rb_tree" where
  "delete_fix t [] = t"
| "delete_fix t (f # fs) =
     (let (t', b) = delete_step f t in if b then plug t' fs else delete_fix t' fs)"

fun blacken :: "'v rb_tree \<Rightarrow> 'v rb_tree" where
  "blacken Nil = Nil"
| "blacken (Node x l r _) = Node x l r Black"

text \<open>The way down to the leftmost node: its key, right child and colour, and the frames passed.\<close>

fun descend_left :: "'v rb_tree \<Rightarrow> 'v rb_frame list \<Rightarrow> ('v \<times> 'v rb_tree \<times> rb_color \<times> 'v rb_frame list) option" where
  "descend_left Nil fs = None"
| "descend_left (Node y Nil r c) fs = Some (y, r, c, fs)"
| "descend_left (Node y l r c) fs = descend_left l ((True, y, r, c) # fs)"

text \<open>A node of colour \<open>c\<close> with the only child \<open>p\<close> is taken out below \<open>fs\<close>.\<close>

definition splice_out :: "rb_color \<Rightarrow> 'v rb_tree \<Rightarrow> 'v rb_frame list \<Rightarrow> 'v rb_tree" where
  "splice_out c p fs =
     (if c = Red \<or> fs = [] then plug p fs
      else if rb_tree_color p = Red then plug (blacken p) fs
      else delete_fix p fs)"

definition remove_at :: "'v rb_tree \<Rightarrow> 'v rb_tree \<Rightarrow> rb_color \<Rightarrow> 'v rb_frame list \<Rightarrow> 'v rb_tree" where
  "remove_at l r c fs =
     (if l = Nil \<or> r = Nil then splice_out c (if l \<noteq> Nil then l else r) fs
      else case descend_left r [] of
        None \<Rightarrow> Nil
      | Some (y, yr, b, gs) \<Rightarrow> splice_out b yr (gs @ (False, y, l, c) # fs))"

section \<open>Insertion keeps trees valid\<close>

text \<open>Between two rounds: the new subtree \<open>t\<close> is red and as high as the old one
  \<open>s\<close>, or one higher, black, with exactly one red child, in the place of a red one.\<close>

definition insert_inv :: "'v rb_tree \<Rightarrow> 'v rb_tree \<Rightarrow> bool \<Rightarrow> bool" where
  "insert_inv s t eq \<longleftrightarrow> rb_ok t \<and>
     (if eq then rb_tree_bh t = rb_tree_bh s \<and> rb_tree_color t = Red
      else rb_tree_bh t = Suc (rb_tree_bh s) \<and> rb_tree_color s = Red \<and>
        (\<exists>x l r. t = Node x l r Black \<and> (rb_tree_color l = Red \<longleftrightarrow> rb_tree_color r = Black)))"

lemma insert_step_ok:
  assumes "insert_inv s t eq" "rb_ok (fill_frame f s)" "insert_step f t eq = (t', b)"
  shows "inorder t' = inorder (fill_frame f t)"
    and "if insert_stop f (t', b)
      then rb_ok t' \<and> rb_tree_bh t' = rb_tree_bh (fill_frame f s) \<and>
        (rb_tree_color t' = Red \<longrightarrow> rb_tree_color (fill_frame f s) = Red)
      else insert_inv (fill_frame f s) t' b"
  using assms
  by (cases f rule: rb_frame_cases;
      auto simp: insert_inv_def rb_insert_rebalance_left_def rb_insert_rebalance_right_def
        split: rb_color.splits rb_tree.splits if_splits)+

lemma insert_fix_ok:
  "insert_inv s t eq \<Longrightarrow> rb_ok (plug s fs) \<Longrightarrow>
     rb_ok (insert_fix t fs eq) \<and> inorder (insert_fix t fs eq) = inorder (plug t fs)"
proof (induction fs arbitrary: s t eq)
  case Nil
  then show ?case by (auto simp: insert_inv_def)
next
  case (Cons f fs)
  obtain t' b where step: "insert_step f t eq = (t', b)" by force
  have f: "rb_ok (fill_frame f s)" using Cons.prems(2) rb_ok_plug by fastforce
  note ok = insert_step_ok [OF Cons.prems(1) f step]
  show ?case
  proof (cases "insert_stop f (t', b)")
    case True
    with ok have "rb_ok (plug t' fs)"
      using Cons.prems(2) rb_ok_plug_replace [of "fill_frame f s" fs t'] by simp
    with True ok(1) show ?thesis by (simp add: step inorder_plug)
  next
    case False
    with ok show ?thesis
      using Cons.IH [of "fill_frame f s" t' b] Cons.prems(2) by (simp add: step inorder_plug)
  qed
qed

lemma emplace_at_ok:
  assumes "rb_ok (plug Nil fs)"
  shows "rb_ok (emplace_at y fs) \<and> inorder (emplace_at y fs) = keys_before fs @ y # keys_after fs"
proof (cases fs)
  case (Cons f gs)
  obtain d x s c where f: "f = (d, x, s, c)" by (cases f)
  show ?thesis
  proof (cases "c = Red")
    case True
    have "insert_inv Nil (Node y Nil Nil Red) True" by (simp add: insert_inv_def)
    from insert_fix_ok [OF this assms] show ?thesis
      using True by (cases d) (simp_all add: Cons f inorder_plug del: insert_fix.simps)
  next
    case False
    have "rb_ok (fill_frame f Nil)" using assms rb_ok_plug by (fastforce simp: Cons)
    with False have "rb_ok (fill_frame f (Node y Nil Nil Red)) \<and>
        rb_tree_bh (fill_frame f (Node y Nil Nil Red)) = rb_tree_bh (fill_frame f Nil) \<and>
        rb_tree_color (fill_frame f (Node y Nil Nil Red)) = rb_tree_color (fill_frame f Nil)"
      by (cases d) (auto simp: f)
    with assms False show ?thesis
      using rb_ok_plug_replace [of "fill_frame f Nil" gs "fill_frame f (Node y Nil Nil Red)"]
        inorder_plug [of "Node y Nil Nil Red" fs]
      by (simp add: Cons f)
  qed
qed simp

section \<open>Removal keeps trees valid\<close>

lemma delete_step_ok:
  assumes "rb_ok (fill_frame f s)" "rb_ok t" "rb_tree_bh s = Suc (rb_tree_bh t)" "rb_tree_color t = Black"
    and "delete_step f t = (t', b)"
  shows "inorder t' = inorder (fill_frame f t) \<and> rb_ok t' \<and>
    (if b then rb_tree_bh t' = rb_tree_bh (fill_frame f s) \<and>
        (rb_tree_color t' = Red \<longrightarrow> rb_tree_color (fill_frame f s) = Red)
     else rb_tree_bh (fill_frame f s) = Suc (rb_tree_bh t') \<and> rb_tree_color t' = Black)"
  using assms
  by (cases f rule: rb_frame_cases)
    (auto simp: rb_delete_rebalance_left_def rb_delete_rebalance_right_def
      split: rb_color.splits rb_tree.splits if_splits)

lemma delete_fix_ok:
  "rb_ok (plug s fs) \<Longrightarrow> rb_ok t \<Longrightarrow> rb_tree_bh s = Suc (rb_tree_bh t) \<Longrightarrow> rb_tree_color t = Black \<Longrightarrow>
     rb_ok (delete_fix t fs) \<and> inorder (delete_fix t fs) = inorder (plug t fs)"
proof (induction fs arbitrary: s t)
  case (Cons f fs)
  obtain t' b where step: "delete_step f t = (t', b)" by force
  have f: "rb_ok (fill_frame f s)" using Cons.prems(1) rb_ok_plug by fastforce
  note ok = delete_step_ok [OF f Cons.prems(2-4) step]
  show ?case
  proof (cases b)
    case True
    with ok have "rb_ok (plug t' fs)"
      using Cons.prems(1) rb_ok_plug_replace [of "fill_frame f s" fs t'] by simp
    with True ok show ?thesis by (simp add: step inorder_plug)
  next
    case False
    with ok show ?thesis
      using Cons.IH [of "fill_frame f s" t'] Cons.prems(1) by (simp add: step inorder_plug)
  qed
qed simp

lemma splice_out_ok:
  assumes "rb_ok (plug (fill_frame (d, y, Nil, b) p) fs)"
  shows "rb_ok (splice_out b p fs) \<and> inorder (splice_out b p fs) = keys_before fs @ inorder p @ keys_after fs"
proof -
  let ?s = "fill_frame (d, y, Nil, b) p"
  have s: "rb_ok ?s" using assms rb_ok_plug by blast
  consider "b = Red" | "b = Black" "fs = []" | "b = Black" "fs \<noteq> []" "rb_tree_color p = Red"
    | "b = Black" "fs \<noteq> []" "rb_tree_color p = Black"
    by (meson rb_color.exhaust)
  then show ?thesis
  proof cases
    case 1
    with s have "p = Nil" by (cases p; cases d) (auto split: if_splits)
    with 1 assms s show ?thesis
      using rb_ok_plug_replace [of ?s fs p] by (cases d) (auto simp: splice_out_def inorder_plug)
  next
    case 2
    with s show ?thesis by (cases d) (auto simp: splice_out_def)
  next
    case 3
    with assms s show ?thesis
      using rb_ok_plug_replace [of ?s fs "blacken p"]
      by (cases d) (auto simp: splice_out_def inorder_plug elim!: color_RedE)
  next
    case 4
    with assms s show ?thesis
      using delete_fix_ok [of ?s fs p] by (cases d) (auto simp: splice_out_def inorder_plug)
  qed
qed

lemma descend_left_plug:
  "t \<noteq> Nil \<Longrightarrow> \<exists>y r c gs. descend_left t fs = Some (y, r, c, gs @ fs) \<and>
     plug (Node y Nil r c) gs = t \<and> keys_before gs = []"
proof (induction t fs rule: descend_left.induct)
  case (3 y k a b k' r c fs)
  then obtain y' r' c' gs where
    "descend_left (Node k a b k') ((True, y, r, c) # fs) = Some (y', r', c', gs @ (True, y, r, c) # fs)"
    "plug (Node y' Nil r' c') gs = Node k a b k'" "keys_before gs = []"
    by auto
  moreover have "keys_before (gs @ [(True, y, r, c)]) = keys_before gs" for gs
  proof (induction gs)
    case (Cons f gs)
    then show ?case by (cases f rule: rb_frame_cases) auto
  qed simp
  ultimately show ?case
    by (auto simp: plug_append intro!: exI [of _ "gs @ [(True, y, r, c)]"])
qed auto

lemma keys_append:
  "keys_before (gs @ fs) = keys_before fs @ keys_before gs" "keys_after (gs @ fs) = keys_after gs @ keys_after fs"
proof (induction gs)
  case (Cons f gs)
  { case 1 with Cons show ?case by (cases f rule: rb_frame_cases) auto }
  { case 2 with Cons show ?case by (cases f rule: rb_frame_cases) auto }
qed auto

lemma remove_at_ok:
  assumes "rb_ok (plug (Node x l r c) fs)"
  shows "rb_ok (remove_at l r c fs) \<and>
    inorder (remove_at l r c fs) = keys_before fs @ inorder l @ inorder r @ keys_after fs"
proof (cases "l = Nil \<or> r = Nil")
  case True
  then have "remove_at l r c fs = splice_out c (if l = Nil then r else l) fs"
    "inorder (if l = Nil then r else l) = inorder l @ inorder r"
    "Node x l r c = fill_frame (l \<noteq> Nil, x, Nil, c) (if l = Nil then r else l)"
    by (auto simp: remove_at_def)
  with assms splice_out_ok [of "l \<noteq> Nil" x c "if l = Nil then r else l" fs] show ?thesis
    by simp
next
  case False
  then obtain y yr b gs where gs: "descend_left r [] = Some (y, yr, b, gs)"
      "plug (Node y Nil yr b) gs = r" "keys_before gs = []"
    using descend_left_plug [of r "[]"] by auto
  have "rb_ok (plug (Node y l r c) fs)"
    using rb_ok_plug_replace [OF assms, of "Node y l r c"] rb_ok_plug [OF assms] by simp
  then have "rb_ok (plug (fill_frame (False, y, Nil, b) yr) (gs @ (False, y, l, c) # fs))"
    by (simp add: plug_append gs)
  from splice_out_ok [OF this] False show ?thesis
    using inorder_plug [of "Node y Nil yr b" gs] by (simp add: remove_at_def gs keys_append)
qed

section \<open>Height\<close>

fun height :: "'v rb_tree \<Rightarrow> nat" where
  "height Nil = 0"
| "height (Node _ l r _) = Suc (max (height l) (height r))"

lemma height_le_bh:
  "rb_ok t \<Longrightarrow> height t \<le> 2 * rb_tree_bh t + (if rb_tree_color t = Red then 1 else 0)"
  by (induction t) (auto split: if_splits)

lemma bh_le_size: "rb_ok t \<Longrightarrow> 2 ^ rb_tree_bh t \<le> length (inorder t) + 1"
  by (induction t) (auto split: if_splits)

end
