(* ===== verification/RbHeap.thy ===== *)
theory RbHeap
  imports RbOps NodeStore
begin

text \<open>
  The nodes of \<open>mini_libcxx/include/rbtree.hpp\<close> on a heap, the pointer and
  colour primitives of \<open>class rbtree\<close>, and its two rebalancing functions for insertion.
  Dereferencing a null pointer or a node that does not exist is a fault, the
  value \<^term>\<open>None\<close>.  Each function is proved to turn the nodes of a tree into the
  nodes of the tree that the specification returns.
\<close>

section \<open>Nodes and primitives\<close>

record 'a rb_node =
  left :: ptr
  right :: ptr
  parent :: ptr
  flags :: u64
  storage :: "'a option"

type_synonym 'a rb_heap = "'a rb_node heap"

abbreviation RB_IS_LEFT_CHILD :: u64 where "RB_IS_LEFT_CHILD \<equiv> 0x01"
abbreviation RB_IS_RED :: u64 where "RB_IS_RED \<equiv> 0x02"

definition is_left_child :: "'a rb_node \<Rightarrow> bool" where
  "is_left_child n \<longleftrightarrow> flags n AND RB_IS_LEFT_CHILD \<noteq> 0"

definition is_red_no_check :: "'a rb_heap \<Rightarrow> ptr \<Rightarrow> bool option" where
  "is_red_no_check h p = do { n \<leftarrow> node_at h p; Some (flags n AND RB_IS_RED \<noteq> 0) }"

definition is_red :: "'a rb_heap \<Rightarrow> ptr \<Rightarrow> bool option" where
  "is_red h p = (if p = None then Some False else is_red_no_check h p)"

definition is_black :: "'a rb_heap \<Rightarrow> ptr \<Rightarrow> bool option" where
  "is_black h p = (if p = None then Some True
     else do { n \<leftarrow> node_at h p; Some (flags n AND RB_IS_RED = 0) })"

definition set_red :: "'a rb_heap \<Rightarrow> ptr \<Rightarrow> 'a rb_heap option" where
  "set_red h p = update_node h p (flags_update (\<lambda>f. f OR RB_IS_RED))"

definition set_black :: "'a rb_heap \<Rightarrow> ptr \<Rightarrow> 'a rb_heap option" where
  "set_black h p = update_node h p (flags_update (\<lambda>f. f AND NOT RB_IS_RED))"

definition set_color :: "'a rb_heap \<Rightarrow> ptr \<Rightarrow> bool \<Rightarrow> 'a rb_heap option" where
  "set_color h p red =
     update_node h p (flags_update (\<lambda>f. (f AND NOT RB_IS_RED) OR push_bit 1 (of_bool red)))"

definition set_left_no_check_no_flag :: "'a rb_heap \<Rightarrow> ptr \<Rightarrow> ptr \<Rightarrow> 'a rb_heap option" where
  "set_left_no_check_no_flag h p c = do {
     h \<leftarrow> update_node h p (left_update (\<lambda>_. c));
     update_node h c (parent_update (\<lambda>_. p)) }"

definition set_left_no_check :: "'a rb_heap \<Rightarrow> ptr \<Rightarrow> ptr \<Rightarrow> 'a rb_heap option" where
  "set_left_no_check h p c = do {
     h \<leftarrow> update_node h p (left_update (\<lambda>_. c));
     h \<leftarrow> update_node h c (parent_update (\<lambda>_. p));
     update_node h c (flags_update (\<lambda>f. f OR RB_IS_LEFT_CHILD)) }"

definition set_left :: "'a rb_heap \<Rightarrow> ptr \<Rightarrow> ptr \<Rightarrow> 'a rb_heap option" where
  "set_left h p c = do {
     h \<leftarrow> update_node h p (left_update (\<lambda>_. c));
     if c = None then Some h
     else do {
       h \<leftarrow> update_node h c (parent_update (\<lambda>_. p));
       update_node h c (flags_update (\<lambda>f. f OR RB_IS_LEFT_CHILD)) } }"

definition set_right_no_check_no_flag :: "'a rb_heap \<Rightarrow> ptr \<Rightarrow> ptr \<Rightarrow> 'a rb_heap option" where
  "set_right_no_check_no_flag h p c = do {
     h \<leftarrow> update_node h p (right_update (\<lambda>_. c));
     update_node h c (parent_update (\<lambda>_. p)) }"

definition set_right_no_check :: "'a rb_heap \<Rightarrow> ptr \<Rightarrow> ptr \<Rightarrow> 'a rb_heap option" where
  "set_right_no_check h p c = do {
     h \<leftarrow> update_node h p (right_update (\<lambda>_. c));
     h \<leftarrow> update_node h c (parent_update (\<lambda>_. p));
     update_node h c (flags_update (\<lambda>f. f AND NOT RB_IS_LEFT_CHILD)) }"

definition set_right :: "'a rb_heap \<Rightarrow> ptr \<Rightarrow> ptr \<Rightarrow> 'a rb_heap option" where
  "set_right h p c = do {
     h \<leftarrow> update_node h p (right_update (\<lambda>_. c));
     if c = None then Some h
     else do {
       h \<leftarrow> update_node h c (parent_update (\<lambda>_. p));
       update_node h c (flags_update (\<lambda>f. f AND NOT RB_IS_LEFT_CHILD)) } }"

definition get_left :: "'a rb_heap \<Rightarrow> ptr \<Rightarrow> ptr option" where
  "get_left h p = do { n \<leftarrow> node_at h p; Some (left n) }"

definition get_right :: "'a rb_heap \<Rightarrow> ptr \<Rightarrow> ptr option" where
  "get_right h p = do { n \<leftarrow> node_at h p; Some (right n) }"

definition get_parent :: "'a rb_heap \<Rightarrow> ptr \<Rightarrow> ptr option" where
  "get_parent h p = do { n \<leftarrow> node_at h p; Some (parent n) }"

section \<open>Rebalancing after insertion\<close>

definition do_rb_insert_rebalance_left :: "'a rb_heap \<Rightarrow> ptr \<Rightarrow> bool \<Rightarrow> ('a rb_heap \<times> ptr \<times> u8) option" where
  "do_rb_insert_rebalance_left h X is_bh_equal = do {
     c_red \<leftarrow> is_red_no_check h X;
     if c_red then do {
       h \<leftarrow> set_black h X;
       Some (h, X, 0x00) }
     else if is_bh_equal then Some (h, X, 0x01 OR 0x02)
     else do {
       R \<leftarrow> get_right h X;
       uncle_red \<leftarrow> is_red h R;
       if uncle_red then do {
         h \<leftarrow> set_black h R;
         h \<leftarrow> set_red h X;
         Some (h, X, 0x01) }
       else do {
         L \<leftarrow> get_left h X;
         LL \<leftarrow> get_left h L;
         LR \<leftarrow> get_right h L;
         ll_red \<leftarrow> is_red h LL;
         if ll_red then do {
           h \<leftarrow> set_left h X LR;
           h \<leftarrow> set_right_no_check h L X;
           h \<leftarrow> set_red h X;
           Some (h, L, 0x01 OR 0x02) }
         else do {
           LRL \<leftarrow> get_left h LR;
           LRR \<leftarrow> get_right h LR;
           h \<leftarrow> set_left h X LRR;
           h \<leftarrow> set_right h L LRL;
           h \<leftarrow> set_left_no_check_no_flag h LR L;
           h \<leftarrow> set_right_no_check h LR X;
           h \<leftarrow> set_red h X;
           h \<leftarrow> set_red h L;
           h \<leftarrow> set_black h LR;
           Some (h, LR, 0x01 OR 0x02) } } } }"

definition do_rb_insert_rebalance_right :: "'a rb_heap \<Rightarrow> ptr \<Rightarrow> bool \<Rightarrow> ('a rb_heap \<times> ptr \<times> u8) option" where
  "do_rb_insert_rebalance_right h X is_bh_equal = do {
     c_red \<leftarrow> is_red_no_check h X;
     if c_red then do {
       h \<leftarrow> set_black h X;
       Some (h, X, 0x00) }
     else if is_bh_equal then Some (h, X, 0x01 OR 0x02)
     else do {
       L \<leftarrow> get_left h X;
       uncle_red \<leftarrow> is_red h L;
       if uncle_red then do {
         h \<leftarrow> set_black h L;
         h \<leftarrow> set_red h X;
         Some (h, X, 0x01) }
       else do {
         R \<leftarrow> get_right h X;
         RL \<leftarrow> get_left h R;
         RR \<leftarrow> get_right h R;
         rr_red \<leftarrow> is_red h RR;
         if rr_red then do {
           h \<leftarrow> set_right h X RL;
           h \<leftarrow> set_left_no_check h R X;
           h \<leftarrow> set_red h X;
           Some (h, R, 0x01 OR 0x02) }
         else do {
           RLL \<leftarrow> get_left h RL;
           RLR \<leftarrow> get_right h RL;
           h \<leftarrow> set_right h X RLL;
           h \<leftarrow> set_left h R RLR;
           h \<leftarrow> set_right_no_check_no_flag h RL R;
           h \<leftarrow> set_left_no_check h RL X;
           h \<leftarrow> set_red h X;
           h \<leftarrow> set_red h R;
           h \<leftarrow> set_black h RL;
           Some (h, RL, 0x01 OR 0x02) } } } }"

section \<open>Trees on the heap\<close>

fun root :: "nat rb_tree \<Rightarrow> ptr" where
  "root Nil = None"
| "root (Node i _ _ _) = Some i"

definition node_red :: "'a rb_node \<Rightarrow> bool" where
  "node_red n \<longleftrightarrow> bit (flags n) 1"

definition node_left :: "'a rb_node \<Rightarrow> bool" where
  "node_left n \<longleftrightarrow> bit (flags n) 0"

lemma flags_and [simp]: "(f :: u64) AND 2 = 0 \<longleftrightarrow> \<not> bit f 1" "(f :: u64) AND 1 = 0 \<longleftrightarrow> \<not> bit f 0"
  using and_exp_eq_0_iff_not_bit [of f 1] and_exp_eq_0_iff_not_bit [of f 0] by simp_all

text \<open>The links of the nodes of a tree; where the root itself hangs is left open.\<close>

fun linked :: "'a rb_heap \<Rightarrow> nat rb_tree \<Rightarrow> nat \<Rightarrow> bool \<Rightarrow> bool" where
  "linked h Nil i b \<longleftrightarrow> True"
| "linked h (Node j _ _ _) i b \<longleftrightarrow> parent (the (h j)) = Some i \<and> node_left (the (h j)) = b"

fun shape :: "'a rb_heap \<Rightarrow> nat rb_tree \<Rightarrow> bool" where
  "shape h Nil \<longleftrightarrow> True"
| "shape h (Node i l r c) \<longleftrightarrow>
     live h i \<and> left (the (h i)) = root l \<and> right (the (h i)) = root r \<and> node_red (the (h i)) = (c = Red) \<and>
     linked h l i True \<and> linked h r i False \<and> shape h l \<and> shape h r"

abbreviation ids :: "nat rb_tree \<Rightarrow> nat set" where
  "ids \<equiv> rb_set"

lemma root_in_ids: "root t = Some i \<Longrightarrow> i \<in> ids t"
  by (cases t) auto

lemma linked_upd_other [simp]: "i \<notin> ids t \<Longrightarrow> linked (h(i := x)) t k b = linked h t k b"
  by (cases t) auto

lemma shape_upd_other [simp]: "i \<notin> ids t \<Longrightarrow> shape (h(i \<mapsto> x)) t = shape h t"
  by (induction t) auto

definition frame :: "nat set \<Rightarrow> 'a rb_heap \<Rightarrow> 'a rb_heap \<Rightarrow> bool" where
  "frame S h h' \<longleftrightarrow> dom h' = dom h \<and> (\<forall>i. i \<notin> S \<longrightarrow> h' i = h i) \<and>
     (\<forall>i. storage (the (h' i)) = storage (the (h i)))"

lemmas heap_ops = is_red_no_check_def is_red_def is_black_def set_red_def set_black_def
  set_color_def set_left_no_check_no_flag_def set_left_no_check_def set_left_def
  set_right_no_check_no_flag_def set_right_no_check_def set_right_def get_left_def get_right_def get_parent_def

lemma flag_bits [simp]:
  "bit (f OR (2::u64)) (Suc 0)" "bit (f OR (2::u64)) 0 = bit f 0"
  "bit (f OR (1::u64)) 0" "bit (f OR (1::u64)) (Suc 0) = bit f 1"
  "\<not> bit (f AND NOT (2::u64)) (Suc 0)" "bit (f AND NOT (2::u64)) 0 = bit f 0"
  "\<not> bit (f AND NOT (1::u64)) 0" "bit (f AND NOT (1::u64)) (Suc 0) = bit f 1"
  by (simp_all add: bit_simps)

lemma flag_bits_clear [simp]:
  "\<not> bit (f AND - 3 :: u64) (Suc 0)" "bit (f AND - 3 :: u64) 0 = bit f 0"
  "\<not> bit (f AND - 2 :: u64) 0" "bit (f AND - 2 :: u64) (Suc 0) = bit f 1"
  using flag_bits(5-) [of f] by simp_all

lemma frame_refl [simp]: "frame S h h"
  by (simp add: frame_def)

lemma frame_upd [simp]:
  "frame S h h' \<Longrightarrow> i \<in> S \<Longrightarrow> live h i \<Longrightarrow> storage n = storage (the (h' i)) \<Longrightarrow> frame S h (h'(i \<mapsto> n))"
  by (auto simp: frame_def live_def)

lemma ids_inorder: "ids t = set (inorder t)"
  by (induction t) auto


section \<open>The heap functions compute the specified trees\<close>

text \<open>What the caller is told: bit 0 that the black height stayed, bit 1 that
  nothing above can have changed.\<close>

definition insert_bits :: "rb_color \<Rightarrow> nat rb_tree \<Rightarrow> bool \<Rightarrow> u8" where
  "insert_bits c t b = (if b then (if c = Red \<or> rb_tree_color t = Black then 3 else 1) else 0)"

definition one_red_child :: "'v rb_tree \<Rightarrow> bool" where
  "one_red_child t \<longleftrightarrow> (\<exists>x l r. t = Node x l r Black \<and> (rb_tree_color l = Red \<longleftrightarrow> rb_tree_color r = Black))"

lemma one_red_childE:
  assumes "one_red_child t"
  obtains (l) x y ll lr r where "t = Node x (Node y ll lr Red) r Black" "rb_tree_color r = Black"
    | (r) x l y rl rr where "t = Node x l (Node y rl rr Red) Black" "rb_tree_color l = Black"
proof -
  obtain x l r where t: "t = Node x l r Black" "rb_tree_color l = Red \<longleftrightarrow> rb_tree_color r = Black"
    using assms by (auto simp: one_red_child_def)
  show thesis
  proof (cases "rb_tree_color l")
    case Red
    then show ?thesis using t l by (auto elim!: color_RedE)
  next
    case Black
    then have "rb_tree_color r = Red" using t(2) by (cases "rb_tree_color r") auto
    then show ?thesis using t Black r by (auto elim!: color_RedE)
  qed
qed

lemma uncle_cases:
  fixes t :: "nat rb_tree"
  obtains (red) x l r where "t = Node x l r Red" | (nil) "t = Nil" | (black) x l r where "t = Node x l r Black"
  by (cases t rule: rb_tree.exhaust) (use that in \<open>auto, metis rb_color.exhaust\<close>)

lemma is_red_root: "shape h t \<Longrightarrow> is_red h (root t) = Some (rb_tree_color t = Red)"
  by (cases t) (auto simp: is_red_def is_red_no_check_def node_at_def node_red_def live_def)

lemma is_black_root: "shape h t \<Longrightarrow> is_black h (root t) = Some (rb_tree_color t = Black)"
  by (cases t) (auto simp: is_black_def node_at_def node_red_def live_def)

lemma is_red_Some: "live h i \<Longrightarrow> is_red h (Some i) = Some (node_red (the (h i)))"
  by (auto simp: is_red_def is_red_no_check_def node_at_def node_red_def live_def)

lemma is_black_Some: "live h i \<Longrightarrow> is_black h (Some i) = Some (\<not> node_red (the (h i)))"
  by (auto simp: is_black_def node_at_def node_red_def live_def)

lemma is_red_None: "is_red h None = Some False" "is_black h None = Some True"
  by (simp_all add: is_red_def is_black_def)

lemmas heap_run = is_red_None is_red_no_check_def is_red_root is_red_Some is_black_root is_black_Some set_red_def set_black_def
  set_left_no_check_no_flag_def set_left_no_check_def set_left_def
  set_right_no_check_no_flag_def set_right_no_check_def set_right_def get_left_def get_right_def
  node_at_dom update_node_dom node_red_def node_left_def insert_bits_def ids_inorder [symmetric]

lemma do_insert_left_ok:
  assumes "shape h (Node x l r c)" "distinct (inorder (Node x l r c))"
    and "c = Red \<Longrightarrow> eq" "\<not> eq \<Longrightarrow> one_red_child l"
    and "rb_insert_rebalance_left x l r c eq = (t, b)"
  shows "\<exists>h'. do_rb_insert_rebalance_left h (Some x) eq = Some (h', root t, insert_bits c t b) \<and>
    shape h' t \<and> frame (ids (Node x l r c)) h h'"
proof (cases eq)
  case True
  then show ?thesis
    using assms by (cases c) (auto simp: do_rb_insert_rebalance_left_def rb_insert_rebalance_left_def heap_run)
next
  case False
  with assms have c: "c = Black" "one_red_child l" by (cases c, auto)
  note spec = assms(5) [unfolded rb_insert_rebalance_left_def] and run = do_rb_insert_rebalance_left_def heap_run
  show ?thesis
  proof (cases "rb_tree_color r")
    case Red
    then obtain ri rl rr where r: "r = Node ri rl rr Red" by (auto elim: color_RedE)
    have "t = Node x l (Node ri rl rr Black) Red" "b"
      using spec c False r by (auto elim!: one_red_childE split: rb_tree.splits)
    with r c False show ?thesis
      using assms(1,2) by (cases l) ((clarsimp simp: ids_inorder [symmetric], simp add: run)+)
  next
    case Black
    from c(2) show ?thesis
    proof (cases rule: one_red_childE)
      case (l li lli lll llr lr)
      have "t = Node li (Node lli lll llr Red) (Node x lr r Red) Black" "b"
        using spec c False Black l by auto
      with l c False show ?thesis
        using assms(1,2) Black by (cases lr) ((clarsimp simp: ids_inorder [symmetric], simp add: run)+)
    next
      case (r li ll lri lrl lrr)
      have "t = Node lri (Node li ll lrl Red) (Node x lrr r Red) Black" "b"
        using spec c False Black r by auto
      with r c False show ?thesis
        using assms(1,2) Black by (cases lrl; cases lrr) ((clarsimp simp: ids_inorder [symmetric], simp add: run)+)
    qed
  qed
qed

lemma do_insert_right_ok:
  assumes "shape h (Node x l r c)" "distinct (inorder (Node x l r c))"
    and "c = Red \<Longrightarrow> eq" "\<not> eq \<Longrightarrow> one_red_child r"
    and "rb_insert_rebalance_right x l r c eq = (t, b)"
  shows "\<exists>h'. do_rb_insert_rebalance_right h (Some x) eq = Some (h', root t, insert_bits c t b) \<and>
    shape h' t \<and> frame (ids (Node x l r c)) h h'"
proof (cases eq)
  case True
  then show ?thesis
    using assms by (cases c) (auto simp: do_rb_insert_rebalance_right_def rb_insert_rebalance_right_def heap_run)
next
  case False
  with assms have c: "c = Black" "one_red_child r" by (cases c, auto)
  note spec = assms(5) [unfolded rb_insert_rebalance_right_def] and run = do_rb_insert_rebalance_right_def heap_run
  show ?thesis
  proof (cases "rb_tree_color l")
    case Red
    then obtain li ll lr where l: "l = Node li ll lr Red" by (auto elim: color_RedE)
    have "t = Node x (Node li ll lr Black) r Red" "b"
      using spec c False l by (auto elim!: one_red_childE split: rb_tree.splits)
    with l c False show ?thesis
      using assms(1,2) by (cases r) ((clarsimp simp: ids_inorder [symmetric], simp add: run)+)
  next
    case Black
    from c(2) show ?thesis
    proof (cases rule: one_red_childE)
      case (r ri rl rri rrl rrr)
      have "t = Node ri (Node x l rl Red) (Node rri rrl rrr Red) Black" "b"
        using spec c False Black r by auto
      with r c False show ?thesis
        using assms(1,2) Black by (cases rl) ((clarsimp simp: ids_inorder [symmetric], simp add: run)+)
    next
      case (l ri rli rll rlr rr)
      have "t = Node rli (Node x l rll Red) (Node ri rlr rr Red) Black" "b"
        using spec c False Black l by auto
      with l c False show ?thesis
        using assms(1,2) Black by (cases rll; cases rlr) ((clarsimp simp: ids_inorder [symmetric], simp add: run)+)
    qed
  qed
qed

end
