(* ===== verification/RbHeapDelete.thy ===== *)
theory RbHeapDelete
  imports RbHeap
begin

text \<open>
  The two rebalancing functions for deletion, \<open>do_rb_delete_rebalance_left\<close> and
  \<open>do_rb_delete_rebalance_right\<close> of \<open>mini_libcxx/include/rbtree.hpp\<close>, on the
  heap.  They are called with one child lower than the other and are proved to
  compute what the specification does for \<open>is_bh_equal = false\<close>.
\<close>

section \<open>The functions\<close>

definition do_rb_delete_rebalance_left :: "'a rb_heap \<Rightarrow> ptr \<Rightarrow> ('a rb_heap \<times> ptr \<times> u8) option" where
  "do_rb_delete_rebalance_left h X = do {
     L \<leftarrow> get_left h X;
     c_red \<leftarrow> is_red_no_check h X;
     if \<not> c_red then do {
       R \<leftarrow> get_right h X;
       r_red \<leftarrow> is_red_no_check h R;
       RL \<leftarrow> get_left h R;
       if \<not> r_red then do {
         RR \<leftarrow> get_right h R;
         rl_black \<leftarrow> is_black h RL;
         if rl_black then do {
           rr_black \<leftarrow> is_black h RR;
           if rr_black then do {
             h \<leftarrow> set_red h R;
             Some (h, X, 0x00) }
           else do {
             h \<leftarrow> set_black h RR;
             h \<leftarrow> set_right h X RL;
             h \<leftarrow> set_left_no_check h R X;
             Some (h, R, 0x01) } }
         else do {
           RLL \<leftarrow> get_left h RL;
           RLR \<leftarrow> get_right h RL;
           h \<leftarrow> set_right h X RLL;
           h \<leftarrow> set_left h R RLR;
           h \<leftarrow> set_left_no_check h RL X;
           h \<leftarrow> set_right_no_check_no_flag h RL R;
           h \<leftarrow> set_black h RL;
           Some (h, RL, 0x01) } }
       else do {
         RLL \<leftarrow> get_left h RL;
         RLR \<leftarrow> get_right h RL;
         rll_black \<leftarrow> is_black h RLL;
         if rll_black then do {
           h \<leftarrow> set_right h X RLL;
           h \<leftarrow> set_left_no_check h RL X;
           h \<leftarrow> set_red h X;
           h \<leftarrow> set_black h R;
           Some (h, R, 0x01) }
         else do {
           RLLL \<leftarrow> get_left h RLL;
           RLLR \<leftarrow> get_right h RLL;
           h \<leftarrow> set_right h X RLLL;
           h \<leftarrow> set_left h RL RLLR;
           h \<leftarrow> set_left_no_check h RLL X;
           h \<leftarrow> set_right_no_check h RLL RL;
           h \<leftarrow> set_left_no_check_no_flag h R RLL;
           h \<leftarrow> set_black h R;
           Some (h, R, 0x01) } } }
     else do {
       R \<leftarrow> get_right h X;
       RL \<leftarrow> get_left h R;
       rl_black \<leftarrow> is_black h RL;
       if rl_black then do {
         h \<leftarrow> set_right h X RL;
         h \<leftarrow> set_left_no_check h R X;
         Some (h, R, 0x01) }
       else do {
         RLL \<leftarrow> get_left h RL;
         RLR \<leftarrow> get_right h RL;
         h \<leftarrow> set_right h X RLL;
         h \<leftarrow> set_left h R RLR;
         h \<leftarrow> set_right_no_check_no_flag h RL R;
         h \<leftarrow> set_left_no_check h RL X;
         h \<leftarrow> set_black h X;
         Some (h, RL, 0x01) } } }"

definition do_rb_delete_rebalance_right :: "'a rb_heap \<Rightarrow> ptr \<Rightarrow> ('a rb_heap \<times> ptr \<times> u8) option" where
  "do_rb_delete_rebalance_right h X = do {
     R \<leftarrow> get_right h X;
     c_red \<leftarrow> is_red_no_check h X;
     if \<not> c_red then do {
       L \<leftarrow> get_left h X;
       l_red \<leftarrow> is_red_no_check h L;
       LR \<leftarrow> get_right h L;
       if \<not> l_red then do {
         LL \<leftarrow> get_left h L;
         lr_black \<leftarrow> is_black h LR;
         if lr_black then do {
           ll_black \<leftarrow> is_black h LL;
           if ll_black then do {
             h \<leftarrow> set_red h L;
             Some (h, X, 0x00) }
           else do {
             h \<leftarrow> set_black h LL;
             h \<leftarrow> set_left h X LR;
             h \<leftarrow> set_right_no_check h L X;
             Some (h, L, 0x01) } }
         else do {
           LRL \<leftarrow> get_left h LR;
           LRR \<leftarrow> get_right h LR;
           h \<leftarrow> set_right h L LRL;
           h \<leftarrow> set_left h X LRR;
           h \<leftarrow> set_left_no_check_no_flag h LR L;
           h \<leftarrow> set_right_no_check h LR X;
           h \<leftarrow> set_black h LR;
           Some (h, LR, 0x01) } }
       else do {
         LRL \<leftarrow> get_left h LR;
         LRR \<leftarrow> get_right h LR;
         lrr_black \<leftarrow> is_black h LRR;
         if lrr_black then do {
           h \<leftarrow> set_left h X LRR;
           h \<leftarrow> set_right_no_check h LR X;
           h \<leftarrow> set_red h X;
           h \<leftarrow> set_black h L;
           Some (h, L, 0x01) }
         else do {
           LRRL \<leftarrow> get_left h LRR;
           LRRR \<leftarrow> get_right h LRR;
           h \<leftarrow> set_right h LR LRRL;
           h \<leftarrow> set_left h X LRRR;
           h \<leftarrow> set_left_no_check h LRR LR;
           h \<leftarrow> set_right_no_check h LRR X;
           h \<leftarrow> set_right_no_check_no_flag h L LRR;
           h \<leftarrow> set_black h L;
           Some (h, L, 0x01) } } }
     else do {
       L \<leftarrow> get_left h X;
       LR \<leftarrow> get_right h L;
       lr_black \<leftarrow> is_black h LR;
       if lr_black then do {
         h \<leftarrow> set_left h X LR;
         h \<leftarrow> set_right_no_check h L X;
         Some (h, L, 0x01) }
       else do {
         LRL \<leftarrow> get_left h LR;
         LRR \<leftarrow> get_right h LR;
         h \<leftarrow> set_right h L LRL;
         h \<leftarrow> set_left h X LRR;
         h \<leftarrow> set_left_no_check_no_flag h LR L;
         h \<leftarrow> set_right_no_check h LR X;
         h \<leftarrow> set_black h X;
         Some (h, LR, 0x01) } } }"

section \<open>They compute the specified trees\<close>

text \<open>When the left subtree is one black node too low, the right one has the nodes
  that the code dereferences.\<close>

lemma bh_pos_Node:
  assumes "rb_ok t" "0 < rb_tree_bh t"
  obtains x l r where "t = Node x l r Black" "rb_ok l" "rb_ok r"
  | x y ll lr z rl rr where "t = Node x (Node y ll lr Black) (Node z rl rr Black) Red"
    "rb_ok ll" "rb_ok lr" "rb_ok rl" "rb_ok rr"
proof (cases t)
  case (Node x l r c)
  show thesis
  proof (cases c)
    case Red
    then have "0 < rb_tree_bh l" "0 < rb_tree_bh r" "rb_tree_color l = Black" "rb_tree_color r = Black"
      using assms Node by auto
    then show ?thesis using that(2) assms Node Red by (cases l; cases r) auto
  qed (use that(1) assms Node in auto)
qed (use assms in auto)

lemma do_delete_left_ok:
  assumes "shape h (Node x l r c)" "distinct (inorder (Node x l r c))"
    and "rb_tree_color l = Black" "rb_ok r" "0 < rb_tree_bh r" "c = Red \<Longrightarrow> rb_tree_color r = Black"
    and "rb_delete_rebalance_left x l r c False = (t, b)"
  shows "\<exists>h'. do_rb_delete_rebalance_left h (Some x) = Some (h', root t, of_bool b) \<and>
    shape h' t \<and> frame (ids (Node x l r c)) h h' \<and> (\<not> b \<longrightarrow> root t = Some x \<and> h' x = h x)"
proof -
  note spec = assms(7) [unfolded rb_delete_rebalance_left_def] and run = do_rb_delete_rebalance_left_def heap_run
  from assms(4,5) show ?thesis
  proof (cases rule: bh_pos_Node)
    case (1 ri rl rr)
    show ?thesis
    proof (cases "rb_tree_color rl")
      case Red
      then obtain rli rll rlr where rl: "rl = Node rli rll rlr Red" by (auto elim: color_RedE)
      have "t = Node rli (Node x l rll Black) (Node ri rlr rr Black) c" "b"
        using spec assms(3) 1 rl by (auto split: rb_color.splits)
      with 1 rl show ?thesis
        using assms(1,2) by (cases rll; cases rlr; cases c) ((clarsimp simp: ids_inorder [symmetric], simp add: run)+)
    next
      case rl: Black
      show ?thesis
      proof (cases "c = Black \<and> rb_tree_color rr = Red")
        case True
        then obtain rri rrl rrr where rr: "rr = Node rri rrl rrr Red" by (auto elim: color_RedE)
        have "t = Node ri (Node x l rl Black) (Node rri rrl rrr Black) Black" "b"
          using spec assms(3) 1 rl rr True by (auto split: rb_color.splits)
        with 1 rl rr True show ?thesis
          using assms(1,2) by (cases rl) ((clarsimp simp: ids_inorder [symmetric], simp add: run)+)
      next
        case False
        show ?thesis
        proof (cases c)
          case Black
          then have "t = Node x l (Node ri rl rr Red) Black" "\<not> b"
            using spec assms(3) 1 rl False by (auto split: rb_color.splits)
          with 1 rl False Black show ?thesis
            using assms(1,2) by (clarsimp simp: ids_inorder [symmetric], simp add: run)
        next
          case Red
          then have "t = Node ri (Node x l rl Red) rr Black" "b"
            using spec assms(3) 1 rl False by (auto split: rb_color.splits)
          with 1 rl False Red show ?thesis
            using assms(1,2) by (cases rl) ((clarsimp simp: ids_inorder [symmetric], simp add: run)+)
        qed
      qed
    qed
  next
    case (2 ri rli rll rlr rri rrl rrr)
    then have c: "c = Black" using assms(6) by (cases c) auto
    show ?thesis
    proof (cases "rb_tree_color rll")
      case Black
      have "t = Node ri (Node rli (Node x l rll Red) rlr Black) (Node rri rrl rrr Black) Black" "b"
        using spec assms(3) 2 c Black by auto
      with 2 c Black show ?thesis
        using assms(1,2) by (cases rll) ((clarsimp simp: ids_inorder [symmetric], simp add: run)+)
    next
      case Red
      then obtain rlli rlll rllr where rll: "rll = Node rlli rlll rllr Red" by (auto elim: color_RedE)
      have "t = Node ri (Node rlli (Node x l rlll Black) (Node rli rllr rlr Black) Red) (Node rri rrl rrr Black) Black" "b"
        using spec assms(3) 2 c rll by auto
      with 2 c rll show ?thesis
        using assms(1,2) by (cases rlll; cases rllr) ((clarsimp simp: ids_inorder [symmetric], simp add: run)+)
    qed
  qed
qed

lemma do_delete_right_ok:
  assumes "shape h (Node x l r c)" "distinct (inorder (Node x l r c))"
    and "rb_tree_color r = Black" "rb_ok l" "0 < rb_tree_bh l" "c = Red \<Longrightarrow> rb_tree_color l = Black"
    and "rb_delete_rebalance_right x l r c False = (t, b)"
  shows "\<exists>h'. do_rb_delete_rebalance_right h (Some x) = Some (h', root t, of_bool b) \<and>
    shape h' t \<and> frame (ids (Node x l r c)) h h' \<and> (\<not> b \<longrightarrow> root t = Some x \<and> h' x = h x)"
proof -
  note spec = assms(7) [unfolded rb_delete_rebalance_right_def] and run = do_rb_delete_rebalance_right_def heap_run
  from assms(4,5) show ?thesis
  proof (cases rule: bh_pos_Node)
    case (1 li ll lr)
    show ?thesis
    proof (cases "rb_tree_color lr")
      case Red
      then obtain lri lrl lrr where lr: "lr = Node lri lrl lrr Red" by (auto elim: color_RedE)
      have "t = Node lri (Node li ll lrl Black) (Node x lrr r Black) c" "b"
        using spec assms(3) 1 lr by (auto split: rb_color.splits)
      with 1 lr show ?thesis
        using assms(1,2) by (cases lrl; cases lrr; cases c) ((clarsimp simp: ids_inorder [symmetric], simp add: run)+)
    next
      case lr: Black
      show ?thesis
      proof (cases "c = Black \<and> rb_tree_color ll = Red")
        case True
        then obtain lli lll llr where ll: "ll = Node lli lll llr Red" by (auto elim: color_RedE)
        have "t = Node li (Node lli lll llr Black) (Node x lr r Black) Black" "b"
          using spec assms(3) 1 lr ll True by (auto split: rb_color.splits)
        with 1 lr ll True show ?thesis
          using assms(1,2) by (cases lr) ((clarsimp simp: ids_inorder [symmetric], simp add: run)+)
      next
        case False
        show ?thesis
        proof (cases c)
          case Black
          then have "t = Node x (Node li ll lr Red) r Black" "\<not> b"
            using spec assms(3) 1 lr False by (auto split: rb_color.splits)
          with 1 lr False Black show ?thesis
            using assms(1,2) by (clarsimp simp: ids_inorder [symmetric], simp add: run)
        next
          case Red
          then have "t = Node li ll (Node x lr r Red) Black" "b"
            using spec assms(3) 1 lr False by (auto split: rb_color.splits)
          with 1 lr False Red show ?thesis
            using assms(1,2) by (cases lr) ((clarsimp simp: ids_inorder [symmetric], simp add: run)+)
        qed
      qed
    qed
  next
    case (2 li lli lll llr lri lrl lrr)
    then have c: "c = Black" using assms(6) by (cases c) auto
    show ?thesis
    proof (cases "rb_tree_color lrr")
      case Black
      have "t = Node li (Node lli lll llr Black) (Node lri lrl (Node x lrr r Red) Black) Black" "b"
        using spec assms(3) 2 c Black by auto
      with 2 c Black show ?thesis
        using assms(1,2) by (cases lrr) ((clarsimp simp: ids_inorder [symmetric], simp add: run)+)
    next
      case Red
      then obtain lrri lrrl lrrr where lrr: "lrr = Node lrri lrrl lrrr Red" by (auto elim: color_RedE)
      have "t = Node li (Node lli lll llr Black) (Node lrri (Node lri lrl lrrl Black) (Node x lrrr r Black) Red) Black" "b"
        using spec assms(3) 2 c lrr by auto
      with 2 c lrr show ?thesis
        using assms(1,2) by (cases lrrl; cases lrrr) ((clarsimp simp: ids_inorder [symmetric], simp add: run)+)
    qed
  qed
qed

end
