(* ===== verification/RbLoops.thy ===== *)
theory RbLoops
  imports RbHeapDelete
begin

text \<open>
  The loops of \<open>class rbtree\<close> that walk up the tree: \<open>insert_rebalance\<close>, and
  \<open>remove_node\<close> with its unlinking of a node and the loop that repairs the black
  heights.  The state is the heap of nodes and the \<open>root\<close> field.  \<open>insert_rebalance\<close>
  is proved to return and to compute \<open>insert_fix\<close>; \<open>remove_node\<close> is proved to
  compute \<open>remove_at\<close> exactly as long as its loop stops below the root, and to
  dereference the null parent of the root otherwise.
\<close>

section \<open>The root field\<close>

definition set_root_no_check :: "'a rb_heap \<Rightarrow> ptr \<Rightarrow> ('a rb_heap \<times> ptr) option" where
  "set_root_no_check h r = do {
     h \<leftarrow> update_node h r (parent_update (\<lambda>_. None));
     h \<leftarrow> update_node h r (flags_update (\<lambda>f. f AND NOT RB_IS_LEFT_CHILD));
     Some (h, r) }"

definition set_root :: "'a rb_heap \<Rightarrow> ptr \<Rightarrow> ('a rb_heap \<times> ptr) option" where
  "set_root h r = (if r = None then Some (h, None) else set_root_no_check h r)"

section \<open>insert_rebalance\<close>

partial_function (option) insert_rebalance_loop ::
  "'a rb_heap \<Rightarrow> ptr \<Rightarrow> ptr \<Rightarrow> bool \<Rightarrow> bool \<Rightarrow> ('a rb_heap \<times> ptr) option" where
  "insert_rebalance_loop h rt cur is_left is_bh_equal = do {
     cn \<leftarrow> node_at h cur;
     let par = parent cn;
     let was_left = flags cn AND RB_IS_LEFT_CHILD \<noteq> 0;
     (h, p, bits) \<leftarrow> (if is_left then do_rb_insert_rebalance_left h cur is_bh_equal
                       else do_rb_insert_rebalance_right h cur is_bh_equal);
     if par \<noteq> None then do {
       h \<leftarrow> (if was_left then set_left_no_check h par p else set_right_no_check h par p);
       if bits AND 0x02 \<noteq> 0 then Some (h, rt)
       else insert_rebalance_loop h rt par was_left (bits AND 0x01 \<noteq> 0) }
     else set_root_no_check h p }"

declare insert_rebalance_loop.simps [code]

definition insert_rebalance :: "'a rb_heap \<Rightarrow> ptr \<Rightarrow> ptr \<Rightarrow> bool \<Rightarrow> ('a rb_heap \<times> ptr) option" where
  "insert_rebalance h rt X is_left = insert_rebalance_loop h rt X is_left True"

section \<open>remove_node\<close>

partial_function (option) delete_rebalance_loop ::
  "'a rb_heap \<Rightarrow> ptr \<Rightarrow> ptr \<Rightarrow> bool \<Rightarrow> ('a rb_heap \<times> ptr) option" where
  "delete_rebalance_loop h rt p_parent p_is_left = do {
     pn \<leftarrow> node_at h p_parent;
     let p_grandparent = parent pn;
     let p_parent_was_left = flags pn AND RB_IS_LEFT_CHILD \<noteq> 0;
     (h, p, bits) \<leftarrow> (if p_is_left then do_rb_delete_rebalance_left h p_parent
                       else do_rb_delete_rebalance_right h p_parent);
     if bits \<noteq> 0 then
       (if p_grandparent \<noteq> None then do {
          h \<leftarrow> (if p_parent_was_left then set_left_no_check h p_grandparent p
                else set_right_no_check h p_grandparent p);
          Some (h, rt) }
        else set_root_no_check h p)
     else delete_rebalance_loop h rt p_grandparent p_parent_was_left }"

declare delete_rebalance_loop.simps [code]

text \<open>\<open>while (curr->left) { curr_parent = curr; curr = curr->left; }\<close>\<close>

partial_function (option) leftmost_loop :: "'a rb_heap \<Rightarrow> ptr \<Rightarrow> ptr \<Rightarrow> (ptr \<times> ptr) option" where
  "leftmost_loop h curr_parent cur = do {
     l \<leftarrow> get_left h cur;
     if l \<noteq> None then leftmost_loop h cur l else Some (curr_parent, cur) }"

declare leftmost_loop.simps [code]

text \<open>What the first half of \<open>remove_node\<close> leaves: done, or the place where the
  repair has to start.\<close>

type_synonym 'a unlinked = "('a rb_heap \<times> ptr) + ('a rb_heap \<times> ptr \<times> ptr \<times> bool)"

definition unlink_one_child ::
  "'a rb_heap \<Rightarrow> ptr \<Rightarrow> ptr \<Rightarrow> ptr \<Rightarrow> ptr \<Rightarrow> bool \<Rightarrow> bool \<Rightarrow> 'a unlinked option" where
  "unlink_one_child h rt parent_of_X left_of_X right_of_X was_X_left was_X_red = do {
     let p = (if left_of_X \<noteq> None then left_of_X else right_of_X);
     if parent_of_X \<noteq> None then do {
       h \<leftarrow> (if was_X_left then set_left h parent_of_X p else set_right h parent_of_X p);
       if was_X_red then Some (Inl (h, rt))
       else do {
         p_red \<leftarrow> is_red h p;
         if p_red then do {
           h \<leftarrow> set_black h p;
           Some (Inl (h, rt)) }
         else Some (Inr (h, rt, parent_of_X, was_X_left)) } }
     else do {
       (h, rt) \<leftarrow> set_root h p;
       Some (Inl (h, rt)) } }"

definition unlink_right_child ::
  "'a rb_heap \<Rightarrow> ptr \<Rightarrow> ptr \<Rightarrow> ptr \<Rightarrow> ptr \<Rightarrow> bool \<Rightarrow> bool \<Rightarrow> 'a unlinked option" where
  "unlink_right_child h rt parent_of_X left_of_X R was_X_left was_X_red = do {
     R_right \<leftarrow> get_right h R;
     b \<leftarrow> is_red_no_check h R;
     h \<leftarrow> set_left_no_check_no_flag h R left_of_X;
     h \<leftarrow> set_color h R was_X_red;
     rr_red \<leftarrow> is_red h R_right;
     (h, b) \<leftarrow> (if \<not> b \<and> rr_red then do { h \<leftarrow> set_black h R_right; Some (h, True) } else Some (h, b));
     (h, rt) \<leftarrow> (if parent_of_X \<noteq> None then do {
                    h \<leftarrow> (if was_X_left then set_left_no_check h parent_of_X R
                          else set_right_no_check_no_flag h parent_of_X R);
                    Some (h, rt) }
                  else set_root_no_check h R);
     if b then Some (Inl (h, rt)) else Some (Inr (h, rt, R, False)) }"

definition unlink_successor ::
  "'a rb_heap \<Rightarrow> ptr \<Rightarrow> ptr \<Rightarrow> ptr \<Rightarrow> ptr \<Rightarrow> bool \<Rightarrow> bool \<Rightarrow> 'a unlinked option" where
  "unlink_successor h rt parent_of_X left_of_X R was_X_left was_X_red = do {
     cur \<leftarrow> get_left h R;
     (curr_parent, Y) \<leftarrow> leftmost_loop h R cur;
     Y_right \<leftarrow> get_right h Y;
     b \<leftarrow> is_red_no_check h Y;
     h \<leftarrow> set_left h curr_parent Y_right;
     h \<leftarrow> set_left_no_check_no_flag h Y left_of_X;
     h \<leftarrow> set_color h Y was_X_red;
     yr_red \<leftarrow> is_red h Y_right;
     (h, b) \<leftarrow> (if \<not> b \<and> yr_red then do { h \<leftarrow> set_black h Y_right; Some (h, True) } else Some (h, b));
     h \<leftarrow> set_right_no_check_no_flag h Y R;
     (h, rt) \<leftarrow> (if parent_of_X \<noteq> None then do {
                    h \<leftarrow> (if was_X_left then set_left_no_check_no_flag h parent_of_X Y
                          else set_right_no_check h parent_of_X Y);
                    Some (h, rt) }
                  else set_root_no_check h Y);
     if b then Some (Inl (h, rt)) else Some (Inr (h, rt, curr_parent, True)) }"

definition remove_node :: "'a rb_heap \<Rightarrow> ptr \<Rightarrow> ptr \<Rightarrow> ('a rb_heap \<times> ptr) option" where
  "remove_node h rt X = do {
     i \<leftarrow> X;
     xn \<leftarrow> node_at h X;
     let parent_of_X = parent xn;
     let left_of_X = left xn;
     let right_of_X = right xn;
     let was_X_left = flags xn AND RB_IS_LEFT_CHILD \<noteq> 0;
     was_X_red \<leftarrow> is_red_no_check h X;
     let h = h(i := None);
     res \<leftarrow>
       (if left_of_X = None \<or> right_of_X = None then
          unlink_one_child h rt parent_of_X left_of_X right_of_X was_X_left was_X_red
        else do {
          rl \<leftarrow> get_left h right_of_X;
          if rl = None then unlink_right_child h rt parent_of_X left_of_X right_of_X was_X_left was_X_red
          else unlink_successor h rt parent_of_X left_of_X right_of_X was_X_left was_X_red });
     (case res of
        Inl done \<Rightarrow> Some done
      | Inr (h, rt, p_parent, p_is_left) \<Rightarrow> delete_rebalance_loop h rt p_parent p_is_left) }"

section \<open>A subtree and the nodes above it on the heap\<close>

text \<open>Where a node hangs: below the first frame, or at the root.\<close>

fun hangs :: "'a rb_heap \<Rightarrow> nat \<Rightarrow> nat rb_frame list \<Rightarrow> bool" where
  "hangs h i [] \<longleftrightarrow> parent (the (h i)) = None \<and> \<not> node_left (the (h i))"
| "hangs h i ((d, j, _) # _) \<longleftrightarrow> parent (the (h i)) = Some j \<and> node_left (the (h i)) = d"

fun hooked :: "'a rb_heap \<Rightarrow> nat rb_tree \<Rightarrow> nat rb_frame list \<Rightarrow> bool" where
  "hooked h Nil fs \<longleftrightarrow> True"
| "hooked h (Node i _ _ _) fs \<longleftrightarrow> hangs h i fs"

text \<open>The frames \<open>fs\<close> over a subtree with root \<open>p\<close>, themselves below the frames \<open>hs\<close>.\<close>

fun ctx_in :: "nat rb_frame list \<Rightarrow> 'a rb_heap \<Rightarrow> ptr \<Rightarrow> nat rb_frame list \<Rightarrow> bool" where
  "ctx_in hs h p [] \<longleftrightarrow> True"
| "ctx_in hs h p ((d, i, s, c) # fs) \<longleftrightarrow>
     live h i \<and> left (the (h i)) = (if d then p else root s) \<and> right (the (h i)) = (if d then root s else p) \<and>
     node_red (the (h i)) = (c = Red) \<and> linked h s i (\<not> d) \<and> shape h s \<and> hangs h i (fs @ hs) \<and>
     ctx_in hs h (Some i) fs"

abbreviation ctx :: "'a rb_heap \<Rightarrow> ptr \<Rightarrow> nat rb_frame list \<Rightarrow> bool" where
  "ctx \<equiv> ctx_in []"

definition rep :: "'a rb_heap \<Rightarrow> ptr \<Rightarrow> nat rb_tree \<Rightarrow> bool" where
  "rep h rt t \<longleftrightarrow> rt = root t \<and> shape h t \<and> hooked h t [] \<and> distinct (inorder t)"

fun frame_ids :: "nat rb_frame list \<Rightarrow> nat set" where
  "frame_ids [] = {}"
| "frame_ids ((_, i, s, _) # fs) = insert i (ids s \<union> frame_ids fs)"

lemma linked_hooked: "linked h t i d \<longleftrightarrow> hooked h t ((d, i, s, c) # fs)"
  by (cases t) auto

lemma ids_fill [simp]: "ids (fill_frame (d, i, s, c) t) = insert i (ids t \<union> ids s)"
  by (cases d) auto

lemma root_fill [simp]: "root (fill_frame (d, i, s, c) t) = Some i"
  by (cases d) auto

lemma ids_plug: "ids (plug t fs) = ids t \<union> frame_ids fs"
proof (induction fs arbitrary: t)
  case (Cons f fs)
  then show ?case by (cases f) (simp add: Un_ac)
qed simp

lemma shape_plug_in:
  "shape h (plug t fs) \<and> hooked h (plug t fs) hs \<longleftrightarrow> shape h t \<and> hooked h t (fs @ hs) \<and> ctx_in hs h (root t) fs"
proof (induction fs arbitrary: t)
  case (Cons f fs)
  obtain d i s c where f: "f = (d, i, s, c)" by (cases f)
  have "shape h (fill_frame f t) \<and> hooked h (fill_frame f t) (fs @ hs) \<and> ctx_in hs h (root (fill_frame f t)) fs \<longleftrightarrow>
    shape h t \<and> hooked h t (f # fs @ hs) \<and> ctx_in hs h (root t) (f # fs)"
    by (cases d; cases t) (simp_all add: f, blast+)
  with Cons show ?case by simp
qed simp

lemma shape_plug:
  "shape h (plug t fs) \<and> hooked h (plug t fs) [] \<longleftrightarrow> shape h t \<and> hooked h t fs \<and> ctx h (root t) fs"
  using shape_plug_in [of h t fs "[]"] by simp

lemma linked_cong: "(\<And>i. i \<in> ids t \<Longrightarrow> h' i = h i) \<Longrightarrow> linked h' t k b = linked h t k b"
  by (cases t) auto

lemma live_cong: "h' i = h i \<Longrightarrow> live h' i = live h i"
  by (simp add: live_def)

lemma shape_cong: "(\<And>i. i \<in> ids t \<Longrightarrow> h' i = h i) \<Longrightarrow> shape h' t = shape h t"
proof (induction t)
  case (Node i l r c)
  have "linked h' l i True = linked h l i True" "linked h' r i False = linked h r i False" "live h' i = live h i"
    using Node.prems by (auto intro!: linked_cong live_cong)
  with Node show ?case by simp
qed simp

lemma hangs_cong: "h' i = h i \<Longrightarrow> hangs h' i fs = hangs h i fs"
  by (cases fs) auto

lemma ctx_cong: "(\<And>i. i \<in> frame_ids fs \<Longrightarrow> h' i = h i) \<Longrightarrow> ctx_in hs h' p fs = ctx_in hs h p fs"
proof (induction fs arbitrary: p)
  case (Cons f fs)
  obtain d i s c where f: "f = (d, i, s, c)" by (cases f)
  have "linked h' s i (\<not> d) = linked h s i (\<not> d)" "shape h' s = shape h s" "live h' i = live h i"
      "hangs h' i (fs @ hs) = hangs h i (fs @ hs)"
    using Cons.prems f by (auto intro!: linked_cong shape_cong live_cong hangs_cong)
  with Cons f show ?case by simp
qed simp

lemma frame_trans:
  "frame S h h1 \<Longrightarrow> frame S' h1 h2 \<Longrightarrow> S' \<subseteq> S \<Longrightarrow> frame S h h2"
  by (auto simp: frame_def)

lemma frame_mono: "frame S h h' \<Longrightarrow> S \<subseteq> S' \<Longrightarrow> frame S' h h'"
  by (auto simp: frame_def)

lemma frame_eq: "frame S h h' \<Longrightarrow> i \<notin> S \<Longrightarrow> h' i = h i"
  by (auto simp: frame_def)

lemma shape_frame: "frame S h h' \<Longrightarrow> ids t \<inter> S = {} \<Longrightarrow> shape h' t = shape h t"
  by (rule shape_cong) (auto simp: frame_def)

lemma ctx_frame: "frame S h h' \<Longrightarrow> frame_ids fs \<inter> S = {} \<Longrightarrow> ctx_in hs h' p fs = ctx_in hs h p fs"
  by (rule ctx_cong) (auto simp: frame_def)

subsection \<open>Distinctness\<close>

lemma frame_ids_keys: "frame_ids fs = set (keys_before fs) \<union> set (keys_after fs)"
proof (induction fs)
  case (Cons f fs)
  then show ?case by (cases f rule: rb_frame_cases) (auto simp: ids_inorder)
qed simp

definition separate :: "nat rb_tree \<Rightarrow> nat rb_frame list \<Rightarrow> bool" where
  "separate t fs \<longleftrightarrow> distinct (inorder t) \<and> distinct (keys_before fs @ keys_after fs) \<and> ids t \<inter> frame_ids fs = {}"

lemma distinct_plug: "distinct (inorder (plug t fs)) \<longleftrightarrow> separate t fs"
  by (auto simp: inorder_plug separate_def frame_ids_keys ids_inorder)

lemma separate_Cons:
  assumes "separate t ((d, i, s, c) # fs)"
  shows "i \<notin> ids t" "i \<notin> ids s" "i \<notin> frame_ids fs" "ids t \<inter> ids s = {}" "ids t \<inter> frame_ids fs = {}"
    "ids s \<inter> frame_ids fs = {}" "separate (fill_frame (d, i, s, c) t) fs"
    "distinct (inorder (fill_frame (d, i, s, c) t))"
  using assms by (cases d; force simp: separate_def frame_ids_keys ids_inorder)+

lemma separate_cong: "separate t fs \<Longrightarrow> inorder t' = inorder t \<Longrightarrow> separate t' fs"
  by (simp add: separate_def ids_inorder)

lemma root_plug_Cons: "root (plug t (f # fs)) = root (plug t' (f # fs))"
proof (induction fs arbitrary: f t t')
  case Nil
  then show ?case by (cases f rule: rb_frame_cases) auto
qed auto

subsection \<open>Hanging a subtree below the first frame\<close>

lemma set_child_ok:
  assumes t: "shape h t" and ctx: "ctx_in hs h p ((d, j, s, c) # gs)" and sep: "separate t ((d, j, s, c) # gs)"
  shows "\<exists>h'. (if d then set_left h (Some j) (root t) else set_right h (Some j) (root t)) = Some h' \<and>
    shape h' t \<and> hooked h' t ((d, j, s, c) # gs @ hs) \<and> ctx_in hs h' (root t) ((d, j, s, c) # gs) \<and> frame (insert j (ids t)) h h'"
proof -
  note D = separate_Cons [OF sep]
  let ?r = "if d then set_left h (Some j) (root t) else set_right h (Some j) (root t)"
  obtain h' where h': "?r = Some h'" "shape h' t" "hooked h' t ((d, j, s, c) # gs @ hs)" "frame (insert j (ids t)) h h'"
      "left (the (h' j)) = (if d then root t else root s)" "right (the (h' j)) = (if d then root s else root t)"
      "node_red (the (h' j)) = (c = Red)" "hangs h' j (gs @ hs)"
    using t ctx D(1) sep [unfolded separate_def]
    by (cases d; cases t; cases "gs @ hs" rule: list.exhaust)
      (clarsimp simp: ids_inorder [symmetric] simp del: distinct_append, simp add: heap_run)+
  have eq: "h' i = h i" if "i \<in> ids s \<union> frame_ids gs" for i
    using that D h'(4) by (auto simp: frame_def)
  have "linked h' s j (\<not> d) = linked h s j (\<not> d)" "shape h' s = shape h s" "ctx_in hs h' (Some j) gs = ctx_in hs h (Some j) gs"
    using eq by (auto intro!: linked_cong shape_cong ctx_cong)
  moreover have "live h' j" using ctx h'(4) by (auto simp: frame_def live_def)
  ultimately show ?thesis
    using h' ctx by auto
qed

lemmas set_child_top = set_child_ok [where hs = "[]", unfolded append_Nil2]

lemma set_child_no_check:
  "set_left_no_check h p (Some k) = set_left h p (Some k)"
  "set_right_no_check h p (Some k) = set_right h p (Some k)"
  by (simp_all add: set_left_no_check_def set_left_def set_right_no_check_def set_right_def)

lemma set_root_ok:
  assumes "shape h t" "distinct (inorder t)"
  shows "\<exists>h'. set_root h (root t) = Some (h', root t) \<and> shape h' t \<and> hooked h' t [] \<and> frame (ids t) h h'"
  using assms
  by (cases t) (simp add: set_root_def, clarsimp simp: ids_inorder [symmetric],
    simp add: set_root_def set_root_no_check_def heap_run)

lemma set_root_no_check_Some: "set_root_no_check h (Some k) = set_root h (Some k)"
  by (simp add: set_root_def)

lemma repI:
  assumes "shape h t" "hooked h t fs" "ctx h (root t) fs" "separate t fs"
  shows "rep h (root (plug t fs)) (plug t fs)"
  using assms shape_plug [of h t fs] by (simp add: rep_def distinct_plug)

lemma repD:
  assumes "rep h rt (plug t fs)"
  shows "rt = root (plug t fs)" "shape h t" "hooked h t fs" "ctx h (root t) fs" "separate t fs"
  using assms shape_plug [of h t fs] by (simp_all add: rep_def distinct_plug)

section \<open>insert_rebalance\<close>

lemma insert_step_heap:
  assumes "shape h (fill_frame (d, i, s, c) t)" "distinct (inorder (fill_frame (d, i, s, c) t))"
    and "insert_inv t0 t eq" "rb_ok (fill_frame (d, i, s, c) t0)"
    and "insert_step (d, i, s, c) t eq = (t', b)"
  shows "\<exists>h'. (if d then do_rb_insert_rebalance_left h (Some i) eq else do_rb_insert_rebalance_right h (Some i) eq) =
      Some (h', root t', insert_bits c t' b) \<and> shape h' t' \<and> frame (ids (fill_frame (d, i, s, c) t)) h h'"
proof -
  have "c = Red \<Longrightarrow> eq" "\<not> eq \<Longrightarrow> one_red_child t"
    using assms(3,4) by (cases d; auto simp: insert_inv_def one_red_child_def split: if_splits)+
  then show ?thesis
    using do_insert_left_ok [of h i t s c eq t' b] do_insert_right_ok [of h i s t c eq t' b] assms(1,2,5)
    by (cases d) simp_all
qed

lemma insert_bits_simps:
  "insert_bits c t b AND 2 = 0 \<longleftrightarrow> \<not> (b \<and> (c = Red \<or> rb_tree_color t = Black))" "insert_bits c t b AND 1 = 0 \<longleftrightarrow> \<not> b"
  by (auto simp: insert_bits_def)

lemma inorder_Nil_iff: "inorder t = [] \<longleftrightarrow> t = Nil"
  by (cases t) auto

lemma inorder_fill_cong: "inorder t = inorder t' \<Longrightarrow> inorder (fill_frame f t) = inorder (fill_frame f t')"
  by (cases f rule: rb_frame_cases) auto

lemma insert_loop_ok:
  "insert_inv t0 t eq \<Longrightarrow> rb_ok (plug t0 ((d, i, s, c) # fs)) \<Longrightarrow> rep h rt (plug t ((d, i, s, c) # fs)) \<Longrightarrow>
    \<exists>h' rt'. insert_rebalance_loop h rt (Some i) d eq = Some (h', rt') \<and>
      rep h' rt' (insert_fix t ((d, i, s, c) # fs) eq) \<and> frame (ids (plug t ((d, i, s, c) # fs))) h h'"
proof (induction fs arbitrary: t0 t h eq d i s c)
  case (Cons g gs)
  let ?f = "(d, i, s, c)"
  obtain gd j gs' gc where g: "g = (gd, j, gs', gc)" by (cases g)
  obtain t' b where step: "insert_step ?f t eq = (t', b)" by force
  have ok0: "rb_ok (fill_frame ?f t0)" using Cons.prems(2) rb_ok_plug [of "fill_frame ?f t0" "g # gs"] by simp
  note ok = insert_step_ok [OF Cons.prems(1) ok0 step]
  have "rep h rt (plug (fill_frame ?f t) (g # gs))" using Cons.prems(3) by simp
  note R = repD [OF this]
  have sep': "separate t' (g # gs)" using R(5) ok(1) by (rule separate_cong)
  obtain h1 where h1: "(if d then do_rb_insert_rebalance_left h (Some i) eq else do_rb_insert_rebalance_right h (Some i) eq) =
      Some (h1, root t', insert_bits c t' b)" "shape h1 t'" "frame (ids (fill_frame ?f t)) h h1"
    using insert_step_heap [OF R(2) _ Cons.prems(1) ok0 step] R(5) by (auto simp: separate_def)
  have ids': "ids t' = ids (fill_frame ?f t)" using ok(1) by (simp add: ids_inorder)
  have "ctx h1 (Some i) (g # gs)"
    using R(4,5) by (subst ctx_frame [OF h1(3)]) (auto simp: separate_def)
  from set_child_top [OF h1(2) this [unfolded g] sep' [unfolded g]]
  obtain h2 where h2: "(if gd then set_left h1 (Some j) (root t') else set_right h1 (Some j) (root t')) = Some h2"
      "shape h2 t'" "hooked h2 t' (g # gs)" "ctx h2 (root t') (g # gs)" "frame (insert j (ids t')) h1 h2"
    unfolding g by blast
  have "t' \<noteq> Nil" using ids' by auto
  then obtain k where k: "root t' = Some k" by (cases t') auto
  have link: "(if gd then set_left_no_check h1 (Some j) (Some k) else set_right_no_check h1 (Some j) (Some k)) = Some h2"
    using h2(1) by (cases gd) (simp_all add: set_child_no_check k)
  have rt: "rt = root (plug t' (g # gs))" using R(1) root_plug_Cons by simp
  have rep2: "rep h2 rt (plug t' (g # gs))"
    unfolding rt using h2 sep' by (intro repI) auto
  have fr: "frame (ids (plug (fill_frame ?f t) (g # gs))) h h2"
    by (rule frame_trans [OF frame_mono [OF h1(3)] h2(5)]) (auto simp: ids_plug ids' g)
  have hi: "live h i" "parent (the (h i)) = Some j" "node_left (the (h i)) = gd"
    using R(2,3) by (cases d; auto simp: g)+
  show ?case
  proof (cases "insert_stop ?f (t', b)")
    case True
    have "insert_rebalance_loop h rt (Some i) d eq = Some (h2, rt)"
      using True h1(1) link by (subst insert_rebalance_loop.simps) (simp add: node_at_dom hi hi(3) [unfolded node_left_def] insert_bits_simps k)
    then show ?thesis
      using True rep2 fr by (simp add: step)
  next
    case False
    have "insert_rebalance_loop h rt (Some i) d eq = insert_rebalance_loop h2 rt (Some j) gd b"
      using False h1(1) link by (subst insert_rebalance_loop.simps) (simp add: node_at_dom hi hi(3) [unfolded node_left_def] insert_bits_simps k)
    moreover have "insert_inv (fill_frame ?f t0) t' b" using False ok(2) by simp
    ultimately show ?thesis
      using False Cons.IH [of "fill_frame ?f t0" t' b gd j gs' gc h2] Cons.prems(2) rep2 fr
      by (auto simp: step g intro: frame_trans simp: ids_plug ids')
  qed
next
  case Nil
  let ?f = "(d, i, s, c)"
  obtain t' b where step: "insert_step ?f t eq = (t', b)" by force
  have ok0: "rb_ok (fill_frame ?f t0)" using Nil.prems(2) by simp
  note ok = insert_step_ok [OF Nil.prems(1) ok0 step]
  have "rep h rt (fill_frame ?f t)" using Nil.prems(3) by simp
  then have R: "shape h (fill_frame ?f t)" "hooked h (fill_frame ?f t) []" "distinct (inorder (fill_frame ?f t))"
    by (simp_all add: rep_def)
  obtain h1 where h1: "(if d then do_rb_insert_rebalance_left h (Some i) eq else do_rb_insert_rebalance_right h (Some i) eq) =
      Some (h1, root t', insert_bits c t' b)" "shape h1 t'" "frame (ids (fill_frame ?f t)) h h1"
    using insert_step_heap [OF R(1,3) Nil.prems(1) ok0 step] by auto
  have ids': "ids t' = ids (fill_frame ?f t)" using ok(1) by (simp add: ids_inorder)
  obtain h2 where h2: "set_root h1 (root t') = Some (h2, root t')" "shape h2 t'" "hooked h2 t' []" "frame (ids t') h1 h2"
    using set_root_ok [OF h1(2)] R(3) ok(1) by auto
  have "t' \<noteq> Nil" using ids' by auto
  then obtain k where k: "root t' = Some k" by (cases t') auto
  have hi: "live h i" "parent (the (h i)) = None" using R(1,2) by (cases d; auto)+
  have "insert_rebalance_loop h rt (Some i) d eq = Some (h2, root t')"
    using h1(1) h2(1) by (subst insert_rebalance_loop.simps) (simp add: node_at_dom hi k set_root_no_check_Some)
  moreover have "rep h2 (root t') t'" using h2 R(3) ok(1) by (simp add: rep_def)
  ultimately show ?case
    using frame_trans [OF h1(3) h2(4)] by (auto simp: step ids' Let_def)
qed

end
