(* ===== verification/RbRemove.thy ===== *)
theory RbRemove
  imports RbLoops
begin

text \<open>
  \<open>remove_node\<close> is correct as long as its last loop stops below the root, and
  dereferences a null pointer when it does not.
\<close>

section \<open>The loop\<close>

text \<open>The loop walks past the root when no round restores the black height.\<close>

fun falls_off :: "'v rb_tree \<Rightarrow> 'v rb_frame list \<Rightarrow> bool" where
  "falls_off t [] \<longleftrightarrow> True"
| "falls_off t (f # fs) = (let (t', b) = delete_step f t in if b then False else falls_off t' fs)"

lemma delete_step_heap:
  assumes "shape h (fill_frame (d, i, s, c) t)" "distinct (inorder (fill_frame (d, i, s, c) t))"
    and "rb_ok (fill_frame (d, i, s, c) t0)" "rb_tree_bh t0 = Suc (rb_tree_bh t)" "rb_tree_color t = Black"
    and "delete_step (d, i, s, c) t = (t', b)"
  shows "\<exists>h'. (if d then do_rb_delete_rebalance_left h (Some i) else do_rb_delete_rebalance_right h (Some i)) =
      Some (h', root t', of_bool b) \<and> shape h' t' \<and> frame (ids (fill_frame (d, i, s, c) t)) h h' \<and>
      (\<not> b \<longrightarrow> root t' = Some i \<and> h' i = h i)"
  using do_delete_left_ok [of h i t s c t' b] do_delete_right_ok [of h i s t c t' b] assms
  by (cases d) auto

lemma delete_loop_ok:
  "rb_ok (plug t0 ((d, i, s, c) # fs)) \<Longrightarrow> rb_ok t \<Longrightarrow> rb_tree_bh t0 = Suc (rb_tree_bh t) \<Longrightarrow>
    rb_tree_color t = Black \<Longrightarrow> rep h rt (plug t ((d, i, s, c) # fs)) \<Longrightarrow>
    if falls_off t ((d, i, s, c) # fs) then delete_rebalance_loop h rt (Some i) d = None
    else \<exists>h' rt'. delete_rebalance_loop h rt (Some i) d = Some (h', rt') \<and>
      rep h' rt' (delete_fix t ((d, i, s, c) # fs)) \<and> frame (ids (plug t ((d, i, s, c) # fs))) h h'"
proof (induction fs arbitrary: t0 t h d i s c)
  case (Cons g gs)
  let ?f = "(d, i, s, c)"
  obtain gd j gs' gc where g: "g = (gd, j, gs', gc)" by (cases g)
  obtain t' b where step: "delete_step ?f t = (t', b)" by force
  have ok0: "rb_ok (fill_frame ?f t0)" using Cons.prems(1) rb_ok_plug [of "fill_frame ?f t0" "g # gs"] by simp
  note ok = delete_step_ok [OF ok0 Cons.prems(2-4) step]
  have "rep h rt (plug (fill_frame ?f t) (g # gs))" using Cons.prems(5) by simp
  note R = repD [OF this]
  have inorder': "inorder t' = inorder (fill_frame ?f t)" using ok by simp
  have sep': "separate t' (g # gs)" using R(5) inorder' by (rule separate_cong)
  obtain h1 where h1: "(if d then do_rb_delete_rebalance_left h (Some i) else do_rb_delete_rebalance_right h (Some i)) =
      Some (h1, root t', of_bool b)" "shape h1 t'" "frame (ids (fill_frame ?f t)) h h1"
      "\<not> b \<longrightarrow> root t' = Some i \<and> h1 i = h i"
    using delete_step_heap [OF R(2) _ ok0 Cons.prems(3,4) step] R(5) by (auto simp: separate_def)
  have ids': "ids t' = ids (fill_frame ?f t)" using inorder' by (simp add: ids_inorder)
  have ctx1: "ctx h1 (Some i) (g # gs)"
    using R(4,5) by (subst ctx_frame [OF h1(3)]) (auto simp: separate_def)
  have hi: "live h i" "parent (the (h i)) = Some j" "node_left (the (h i)) = gd"
    using R(2,3) by (cases d; auto simp: g)+
  note run = node_at_dom hi hi(3) [unfolded node_left_def]
  have rt: "rt = root (plug t' (g # gs))" using R(1) root_plug_Cons by simp
  show ?case
  proof (cases b)
    case True
    from set_child_top [OF h1(2) ctx1 [unfolded g] sep' [unfolded g]]
    obtain h2 where h2: "(if gd then set_left h1 (Some j) (root t') else set_right h1 (Some j) (root t')) = Some h2"
        "shape h2 t'" "hooked h2 t' (g # gs)" "ctx h2 (root t') (g # gs)" "frame (insert j (ids t')) h1 h2"
      unfolding g by blast
    have "t' \<noteq> Nil" using ids' by auto
    then obtain k where k: "root t' = Some k" by (cases t') auto
    have link: "(if gd then set_left_no_check h1 (Some j) (Some k) else set_right_no_check h1 (Some j) (Some k)) = Some h2"
      using h2(1) by (cases gd) (simp_all add: set_child_no_check k)
    have rep2: "rep h2 rt (plug t' (g # gs))"
      unfolding rt using h2 sep' by (intro repI) auto
    have fr: "frame (ids (plug (fill_frame ?f t) (g # gs))) h h2"
      by (rule frame_trans [OF frame_mono [OF h1(3)] h2(5)]) (auto simp: ids_plug ids' g)
    have "delete_rebalance_loop h rt (Some i) d = Some (h2, rt)"
      using True h1(1) link by (subst delete_rebalance_loop.simps) (simp add: run k)
    then show ?thesis using True rep2 fr by (simp add: step)
  next
    case False
    then have root': "root t' = Some i" "h1 i = h i" using h1(4) by auto
    have "hooked h1 t' (g # gs)" using root' hi by (cases t') (auto simp: g)
    then have rep1: "rep h1 rt (plug t' (g # gs))"
      unfolding rt using h1(2) ctx1 root'(1) sep' by (intro repI) auto
    have loop: "delete_rebalance_loop h rt (Some i) d = delete_rebalance_loop h1 rt (Some j) gd"
      using False h1(1) by (subst delete_rebalance_loop.simps) (simp add: run)
    have fr: "frame (ids (plug (fill_frame ?f t) (g # gs))) h h1"
      by (rule frame_mono [OF h1(3)]) (auto simp: ids_plug g)
    have "if falls_off t' (g # gs) then delete_rebalance_loop h1 rt (Some j) gd = None
      else \<exists>h' rt'. delete_rebalance_loop h1 rt (Some j) gd = Some (h', rt') \<and>
        rep h' rt' (delete_fix t' (g # gs)) \<and> frame (ids (plug t' (g # gs))) h1 h'"
      unfolding g
      by (rule Cons.IH [of "fill_frame ?f t0"]) (use Cons.prems(1) ok False rep1 in \<open>simp_all add: g\<close>)
    moreover have "ids (plug t' (g # gs)) = ids (plug t (?f # g # gs))"
      using ids' by (simp add: ids_plug g)
    ultimately show ?thesis
      using False fr frame_trans [OF fr] by (auto simp: step loop split: if_splits)
  qed
next
  case Nil
  let ?f = "(d, i, s, c)"
  obtain t' b where step: "delete_step ?f t = (t', b)" by force
  have ok0: "rb_ok (fill_frame ?f t0)" using Nil.prems(1) by simp
  note ok = delete_step_ok [OF ok0 Nil.prems(2-4) step]
  have "rep h rt (fill_frame ?f t)" using Nil.prems(5) by simp
  then have R: "shape h (fill_frame ?f t)" "hooked h (fill_frame ?f t) []" "distinct (inorder (fill_frame ?f t))"
    by (simp_all add: rep_def)
  obtain h1 where h1: "(if d then do_rb_delete_rebalance_left h (Some i) else do_rb_delete_rebalance_right h (Some i)) =
      Some (h1, root t', of_bool b)" "shape h1 t'" "frame (ids (fill_frame ?f t)) h h1"
    using delete_step_heap [OF R(1,3) ok0 Nil.prems(3,4) step] by auto
  have inorder': "inorder t' = inorder (fill_frame ?f t)" using ok by simp
  have ids': "ids t' = ids (fill_frame ?f t)" using inorder' by (simp add: ids_inorder)
  have hi: "live h i" "parent (the (h i)) = None" using R(1,2) by (cases d; auto)+
  show ?case
  proof (cases b)
    case True
    obtain h2 where h2: "set_root h1 (root t') = Some (h2, root t')" "shape h2 t'" "hooked h2 t' []" "frame (ids t') h1 h2"
      using set_root_ok [OF h1(2)] R(3) inorder' by auto
    have "t' \<noteq> Nil" using ids' by auto
    then obtain k where k: "root t' = Some k" by (cases t') auto
    have "delete_rebalance_loop h rt (Some i) d = Some (h2, root t')"
      using True h1(1) h2(1) by (subst delete_rebalance_loop.simps) (simp add: node_at_dom hi k set_root_no_check_Some)
    moreover have "rep h2 (root t') t'" using h2 R(3) inorder' by (simp add: rep_def)
    ultimately show ?thesis
      using True frame_trans [OF h1(3) h2(4)] by (auto simp: step ids')
  next
    case False
    have "delete_rebalance_loop h1 rt None wl = None" for wl
      by (subst delete_rebalance_loop.simps) (simp add: node_at_def)
    then have "delete_rebalance_loop h rt (Some i) d = None"
      using False h1(1) by (subst delete_rebalance_loop.simps) (auto simp: node_at_dom hi)
    then show ?thesis using False by (simp add: step)
  qed
qed

section \<open>Pieces of the unlinking\<close>

definition hook_of :: "nat rb_frame list \<Rightarrow> ptr \<times> bool" where
  "hook_of fs = (case fs of [] \<Rightarrow> (None, False) | (d, i, _) # _ \<Rightarrow> (Some i, d))"

lemma hook_of_simps [simp]: "hook_of [] = (None, False)" "hook_of ((d, i, s, c) # fs) = (Some i, d)"
  by (simp_all add: hook_of_def)

lemma hangs_hook: "hangs h i fs \<longleftrightarrow> (parent (the (h i)), node_left (the (h i))) = hook_of fs"
  by (cases fs) (auto simp: hook_of_def split: prod.splits)

lemma or_1_bit: "bit (f :: u64) 0 \<Longrightarrow> f OR 1 = f"
  by (rule bit_eqI) (auto simp: bit_simps bit_1_iff)

lemma and_not_1_bit: "\<not> bit (f :: u64) 0 \<Longrightarrow> f AND - 2 = f"
proof -
  assume "\<not> bit f 0"
  then have "f AND NOT 1 = f" by (intro bit_eqI) (auto simp: bit_simps bit_1_iff intro: Nat.gr0I)
  then show ?thesis by simp
qed

lemma no_flag_left:
  assumes "live h p" "live h k" "p \<noteq> k" "node_left (the (h k))"
  shows "set_left_no_check_no_flag h (Some p) (Some k) = set_left h (Some p) (Some k)"
  using assms
  by (auto simp: set_left_no_check_no_flag_def set_left_def update_node_dom node_left_def or_1_bit fun_eq_iff
      intro!: rb_node.equality)

lemma no_flag_right:
  assumes "live h p" "live h k" "p \<noteq> k" "\<not> node_left (the (h k))"
  shows "set_right_no_check_no_flag h (Some p) (Some k) = set_right h (Some p) (Some k)"
  using assms
  by (auto simp: set_right_no_check_no_flag_def set_right_def update_node_dom node_left_def and_not_1_bit fun_eq_iff
      intro!: rb_node.equality)

lemma live_root: "shape h t \<Longrightarrow> root t = Some k \<Longrightarrow> live h k"
  by (cases t) auto

lemma link_up_ok:
  assumes t: "shape h t" "root t = Some k" and ctx: "ctx h p fs" and sep: "separate t fs"
    and rt: "fs \<noteq> [] \<Longrightarrow> rt = root (plug t fs)"
    and L: "L = set_left_no_check \<or> node_left (the (h k)) \<and> L = set_left_no_check_no_flag"
    and R: "R = set_right_no_check \<or> \<not> node_left (the (h k)) \<and> R = set_right_no_check_no_flag"
  shows "\<exists>h' rt'. (if fst (hook_of fs) \<noteq> None then do {
        h \<leftarrow> (if snd (hook_of fs) then L h (fst (hook_of fs)) (Some k) else R h (fst (hook_of fs)) (Some k));
        Some (h, rt) }
      else set_root_no_check h (Some k)) = Some (h', rt') \<and>
    rep h' rt' (plug t fs) \<and> frame (ids t \<union> frame_ids fs) h h'"
proof (cases fs)
  case Nil
  then show ?thesis
    using set_root_ok [OF t(1)] sep t(2) by (auto simp: set_root_no_check_Some separate_def rep_def)
next
  case (Cons f gs)
  obtain d j s c where f: "f = (d, j, s, c)" by (cases f)
  note D = separate_Cons [OF sep [unfolded Cons f]]
  obtain h' where h': "(if d then set_left h (Some j) (root t) else set_right h (Some j) (root t)) = Some h'"
      "shape h' t" "hooked h' t fs" "ctx h' (root t) fs" "frame (insert j (ids t)) h h'"
    using set_child_top [OF t(1) ctx [unfolded Cons f] sep [unfolded Cons f]] unfolding Cons f by blast
  have "live h j" "live h k" "j \<noteq> k"
    using ctx live_root [OF t] D(1) root_in_ids [OF t(2)] by (auto simp: Cons f)
  then have "L h (Some j) (Some k) = set_left h (Some j) (root t)" "R h (Some j) (Some k) = set_right h (Some j) (root t)"
    using L R by (auto simp: no_flag_left no_flag_right set_child_no_check t(2))
  moreover have "rep h' rt (plug t fs)"
    using repI [of h' t fs] rt Cons h' sep by simp
  moreover have "frame (ids t \<union> frame_ids fs) h h'"
    by (rule frame_mono [OF h'(5)]) (auto simp: Cons f)
  ultimately show ?thesis
    using h'(1) by (auto simp: Cons f)
qed

lemma set_black_local:
  assumes "shape h t" "distinct (inorder t)" "t \<noteq> Nil"
  shows "\<exists>h'. set_black h (root t) = Some h' \<and> shape h' (blacken t) \<and> (\<forall>fs. hooked h' (blacken t) fs = hooked h t fs) \<and>
    frame (ids t) h h'"
proof -
  have "hangs (h(i \<mapsto> flags_update g n)) i fs = hangs h i fs"
    if "h i = Some n" "bit (g (flags n)) 0 = bit (flags n) 0" for i n g fs
    using that by (cases fs) (auto simp: node_left_def)
  then have hang: "live h i \<Longrightarrow> hangs (h(i \<mapsto> flags_update (\<lambda>f. f AND - 3) (the (h i)))) i fs = hangs h i fs" for i fs
    by (auto simp: live_def)
  show ?thesis
    using assms by (cases t) (simp, clarsimp simp: ids_inorder [symmetric], simp add: heap_run hang)
qed

lemma root_blacken [simp]: "root (blacken t) = root t"
  by (cases t) auto

lemma inorder_blacken [simp]: "inorder (blacken t) = inorder t"
  by (cases t) auto

lemma set_black_in:
  assumes "shape h (plug t gs)" "hooked h (plug t gs) hs" "separate t gs" "t \<noteq> Nil"
  shows "\<exists>h'. set_black h (root t) = Some h' \<and> shape h' (plug (blacken t) gs) \<and> hooked h' (plug (blacken t) gs) hs \<and>
    frame (ids t) h h'"
proof -
  have in_h: "shape h t" "hooked h t (gs @ hs)" "ctx_in hs h (root t) gs"
    using shape_plug_in [of h t gs hs] assms by auto
  then obtain h' where h': "set_black h (root t) = Some h'" "shape h' (blacken t)"
      "hooked h' (blacken t) (gs @ hs)" "frame (ids t) h h'"
    using set_black_local [of h t] assms(3,4) by (auto simp: separate_def)
  have "ctx_in hs h' (root (blacken t)) gs"
    using in_h(3) assms(3) by (subst ctx_frame [OF h'(4)]) (auto simp: separate_def)
  then show ?thesis
    using shape_plug_in [of h' "blacken t" gs hs] h' by auto
qed

lemma adopt_left_ok:
  assumes "shape h l" "root l = Some k" "node_left (the (h k))" "live h y" "y \<notin> ids l" "distinct (inorder l)"
  shows "\<exists>h1 h'. set_left_no_check_no_flag h (Some y) (Some k) = Some h1 \<and> set_color h1 (Some y) red = Some h' \<and>
    shape h' l \<and> linked h' l y True \<and> left (the (h' y)) = root l \<and> node_red (the (h' y)) = red \<and>
    right (the (h' y)) = right (the (h y)) \<and> parent (the (h' y)) = parent (the (h y)) \<and>
    node_left (the (h' y)) = node_left (the (h y)) \<and> frame (insert y (ids l)) h h'"
proof -
  have "bit ((f AND - 3) OR push_bit 1 (of_bool red)) (Suc 0) = red"
    "bit ((f AND - 3) OR push_bit 1 (of_bool red)) 0 = bit f 0" for f :: u64
    by (cases red; simp add: bit_simps)+
  then show ?thesis
    using assms
    by (cases l) (simp, clarsimp simp: ids_inorder [symmetric], simp add: heap_run set_color_def)
qed

lemma adopt_right_ok:
  assumes "shape h r" "root r = Some z" "\<not> node_left (the (h z))" "live h y" "y \<notin> ids r" "distinct (inorder r)"
  shows "\<exists>h'. set_right_no_check_no_flag h (Some y) (Some z) = Some h' \<and>
    shape h' r \<and> linked h' r y False \<and> right (the (h' y)) = root r \<and> node_red (the (h' y)) = node_red (the (h y)) \<and>
    left (the (h' y)) = left (the (h y)) \<and> node_left (the (h' y)) = node_left (the (h y)) \<and>
    frame (insert y (ids r)) h h'"
  using assms
  by (cases r) (simp, clarsimp simp: ids_inorder [symmetric], simp add: heap_run)

section \<open>The unlinking\<close>

text \<open>What the unlinking of a node of colour \<open>b\<close> with the only child \<open>p\<close> must leave.\<close>

definition spliced ::
  "'a rb_heap \<Rightarrow> nat set \<Rightarrow> rb_color \<Rightarrow> nat rb_tree \<Rightarrow> nat rb_frame list \<Rightarrow> 'a unlinked \<Rightarrow> bool" where
  "spliced h S b p fs res \<longleftrightarrow> (\<exists>h' rt'. frame S h h' \<and>
     (if b = Red \<or> fs = [] then res = Inl (h', rt') \<and> rep h' rt' (plug p fs)
      else if rb_tree_color p = Red then res = Inl (h', rt') \<and> rep h' rt' (plug (blacken p) fs)
      else res = Inr (h', rt', hook_of fs) \<and> rep h' rt' (plug p fs)))"

lemma unlink_one_child_ok:
  assumes p: "shape h p" "(if lx \<noteq> None then lx else rx) = root p"
    and ctx: "ctx h q fs" and sep: "separate p fs" and rt: "fs \<noteq> [] \<Longrightarrow> rt = root (plug p fs)"
  shows "\<exists>res. unlink_one_child h rt (fst (hook_of fs)) lx rx (snd (hook_of fs)) (b = Red) = Some res \<and>
    spliced h (ids p \<union> frame_ids fs) b p fs res"
proof (cases fs)
  case Nil
  obtain h' where "set_root h (root p) = Some (h', root p)" "shape h' p" "hooked h' p []" "frame (ids p) h h'"
    using set_root_ok [OF p(1)] sep by (auto simp: separate_def)
  then show ?thesis
    using p(2) sep unfolding Nil by (auto simp: unlink_one_child_def spliced_def rep_def separate_def)
next
  case (Cons f gs)
  obtain d j s c where f: "f = (d, j, s, c)" by (cases f)
  obtain h1 where h1: "(if d then set_left h (Some j) (root p) else set_right h (Some j) (root p)) = Some h1"
      "shape h1 p" "hooked h1 p fs" "ctx h1 (root p) fs" "frame (insert j (ids p)) h h1"
    using set_child_top [OF p(1) ctx [unfolded Cons f] sep [unfolded Cons f]] unfolding Cons f by blast
  have rep1: "rep h1 rt (plug p fs)"
    using repI [of h1 p fs] rt h1 sep Cons by simp
  have fr1: "frame (ids p \<union> frame_ids fs) h h1"
    by (rule frame_mono [OF h1(5)]) (auto simp: Cons f)
  have run: "unlink_one_child h rt (fst (hook_of fs)) lx rx (snd (hook_of fs)) red =
    (if red then Some (Inl (h1, rt))
     else do {
       p_red \<leftarrow> is_red h1 (root p);
       if p_red then do { h \<leftarrow> set_black h1 (root p); Some (Inl (h, rt)) }
       else Some (Inr (h1, rt, hook_of fs)) })" for red
    using h1(1) unfolding unlink_one_child_def p(2) Let_def by (cases d) (simp_all add: Cons f cong: if_cong)
  show ?thesis
  proof (cases "b = Red")
    case True
    then show ?thesis
      using rep1 fr1 unfolding spliced_def run by auto
  next
    case b: False
    show ?thesis
    proof (cases "rb_tree_color p = Red")
      case True
      then have "p \<noteq> Nil" by auto
      obtain h2 where h2: "set_black h1 (root p) = Some h2" "shape h2 (plug (blacken p) fs)"
          "hooked h2 (plug (blacken p) fs) []" "frame (ids p) h1 h2"
        using set_black_in [of h1 p fs "[]"] rep1 sep \<open>p \<noteq> Nil\<close> by (auto simp: rep_def)
      have "separate (blacken p) fs" using sep by (auto intro: separate_cong)
      then have "rep h2 rt (plug (blacken p) fs)"
        using h2 rt root_plug_Cons [of p f gs "blacken p"] distinct_plug [of "blacken p" fs] by (simp add: rep_def Cons)
      moreover have "frame (ids p \<union> frame_ids fs) h h2"
        by (rule frame_trans [OF fr1 h2(4)]) auto
      ultimately show ?thesis
        using b True h2(1) unfolding spliced_def run is_red_root [OF h1(2)] by (auto simp: Cons)
    next
      case False
      then show ?thesis
        using b rep1 fr1 unfolding spliced_def run is_red_root [OF h1(2)] by (auto simp: Cons)
    qed
  qed
qed

lemma linked_hooks: "(\<forall>fs. hooked h' t' fs = hooked h t fs) \<Longrightarrow> linked h' t' i d = linked h t i d"
  using linked_hooked [of h' t' i d Nil Black "[]"] linked_hooked [of h t i d Nil Black "[]"] by simp

text \<open>\<open>if (! b && is_red (c)) { set_black (c); b = true; }\<close>\<close>

lemma maybe_black:
  assumes "shape h t" "distinct (inorder t)"
  shows "\<exists>h'. do { red \<leftarrow> is_red h (root t);
        (if b \<noteq> Red \<and> red then do { h \<leftarrow> set_black h (root t); Some (h, True) } else Some (h, b = Red)) } =
      Some (h', b = Red \<or> rb_tree_color t = Red) \<and>
    shape h' (if b = Black \<and> rb_tree_color t = Red then blacken t else t) \<and>
    (\<forall>fs. hooked h' (if b = Black \<and> rb_tree_color t = Red then blacken t else t) fs = hooked h t fs) \<and>
    frame (ids t) h h'"
proof (cases "b = Black \<and> rb_tree_color t = Red")
  case True
  then have "t \<noteq> Nil" by auto
  with set_black_local [OF assms] True show ?thesis
    by (auto simp: is_red_root [OF assms(1)])
next
  case False
  then show ?thesis using assms(1) by (cases b) (auto simp: is_red_root)
qed

lemma unlink_right_child_ok:
  assumes l: "shape h l" "root l = Some k" "node_left (the (h k))"
    and r: "shape h (Node y Nil yr b)" "\<not> node_left (the (h y))"
    and ctx: "ctx h q fs" and sep: "separate (Node y l yr c) fs"
    and rt: "fs \<noteq> [] \<Longrightarrow> rt = root (plug (Node y l yr c) fs)"
  shows "\<exists>res. unlink_right_child h rt (fst (hook_of fs)) (Some k) (Some y) (snd (hook_of fs)) (c = Red) = Some res \<and>
    spliced h (ids (Node y l yr c) \<union> frame_ids fs) b yr ((False, y, l, c) # fs) res"
proof -
  have y: "live h y" "y \<notin> ids l" "distinct (inorder l)" "y \<notin> ids yr" "ids l \<inter> ids yr = {}" "distinct (inorder yr)"
      "ids (Node y l yr c) \<inter> frame_ids fs = {}"
    using r sep by (auto simp: separate_def ids_inorder)
  obtain h1 h2 where h2: "set_left_no_check_no_flag h (Some y) (Some k) = Some h1" "set_color h1 (Some y) (c = Red) = Some h2"
    "shape h2 l" "linked h2 l y True" "left (the (h2 y)) = root l" "node_red (the (h2 y)) = (c = Red)"
    "right (the (h2 y)) = right (the (h y))" "node_left (the (h2 y)) = node_left (the (h y))"
    "frame (insert y (ids l)) h h2"
    using adopt_left_ok [OF l y(1-3), of "c = Red"] by blast
  have live: "live h' y" if "frame S h h'" for S h'
    using that y(1) by (auto simp: live_def frame_def)
  have "h2 i = h i" if "i \<in> ids yr" for i
    using that y by (intro frame_eq [OF h2(9)]) auto
  then have yr2: "shape h2 yr" "linked h2 yr y False"
    using r(1) shape_cong [of yr h2 h] linked_cong [of yr h2 h y False] by simp_all
  define p where "p = (if b = Black \<and> rb_tree_color yr = Red then blacken yr else yr)"
  have p: "inorder p = inorder yr" "root p = root yr" "ids p = ids yr" by (simp_all add: p_def ids_inorder)
  obtain h3 where h3: "do { red \<leftarrow> is_red h2 (root yr);
        (if b \<noteq> Red \<and> red then do { h \<leftarrow> set_black h2 (root yr); Some (h, True) } else Some (h2, b = Red)) } =
      Some (h3, b = Red \<or> rb_tree_color yr = Red)"
      "shape h3 p" "\<forall>fs. hooked h3 p fs = hooked h2 yr fs" "frame (ids yr) h2 h3"
    unfolding p_def using maybe_black [OF yr2(1) y(6)] by blast
  have eq3: "h3 i = h2 i" if "i \<in> insert y (ids l)" for i
    using that y by (intro frame_eq [OF h3(4)]) auto
  have fr3: "frame (ids (Node y l yr c)) h h3"
    by (rule frame_trans [OF frame_mono [OF h2(9)] h3(4)]) auto
  have t3: "shape h3 (Node y l p c)" "\<not> node_left (the (h3 y))"
    using h2 h3(2) r yr2(2) linked_hooks [OF h3(3)] eq3 shape_cong [of l h3 h2] linked_cong [of l h3 h2 y True]
      live [OF fr3] p(2) by auto
  have "ctx h3 q fs"
    using ctx y(7) by (subst ctx_frame [OF fr3]) auto
  moreover have sep3: "separate (Node y l p c) fs"
    using sep by (rule separate_cong) (simp add: p)
  moreover have "fs \<noteq> [] \<Longrightarrow> rt = root (plug (Node y l p c) fs)"
    using rt root_plug_Cons by (cases fs) blast+
  ultimately obtain h4 rt4 where h4: "(if fst (hook_of fs) \<noteq> None then do {
        h \<leftarrow> (if snd (hook_of fs) then set_left_no_check h3 (fst (hook_of fs)) (Some y)
              else set_right_no_check_no_flag h3 (fst (hook_of fs)) (Some y));
        Some (h, rt) }
      else set_root_no_check h3 (Some y)) = Some (h4, rt4)"
      "rep h4 rt4 (plug (Node y l p c) fs)" "frame (ids (Node y l p c) \<union> frame_ids fs) h3 h4"
    using link_up_ok [OF t3(1), of y q fs rt set_left_no_check set_right_no_check_no_flag] t3(2) by auto
  have "unlink_right_child h rt (fst (hook_of fs)) (Some k) (Some y) (snd (hook_of fs)) (c = Red) =
    Some (if b = Red \<or> rb_tree_color yr = Red then Inl (h4, rt4) else Inr (h4, rt4, Some y, False))"
    using h2(1,2) h3(1) h4(1) r(1) y(1) unfolding unlink_right_child_def is_red_root [OF yr2(1)]
    by (simp add: get_right_def is_red_no_check_def node_at_dom node_red_def is_red_root [OF yr2(1)])
  moreover have "frame (ids (Node y l yr c) \<union> frame_ids fs) h h4"
    by (rule frame_trans [OF frame_mono [OF fr3] h4(3)]) (auto simp: p(3))
  ultimately show ?thesis
    using h4(2) unfolding spliced_def by (cases b; cases "rb_tree_color yr") (auto simp: p_def)
qed

lemma leftmost_loop_ok:
  "descend_left t ((True, i, s, c) # fs) = Some (y, yr, b, gs) \<Longrightarrow> shape h t \<Longrightarrow>
     \<exists>j s' c' gs'. gs = (True, j, s', c') # gs' \<and> leftmost_loop h (Some i) (root t) = Some (Some j, Some y)"
proof (induction t arbitrary: i s c fs)
  case (Node z zl zr zc)
  show ?case
  proof (cases zl)
    case Nil
    then show ?thesis
      using Node.prems by (subst leftmost_loop.simps) (auto simp: get_left_def node_at_dom)
  next
    case (Node w wl wr wc)
    then have "leftmost_loop h (Some i) (Some z) = leftmost_loop h (Some z) (root zl)"
      using Node.prems(2) by (subst leftmost_loop.simps) (auto simp: get_left_def node_at_dom)
    then show ?thesis
      using Node.IH(1) [of z zr zc "(True, i, s, c) # fs"] Node.prems Node by simp
  qed
qed simp

lemma separate_append:
  assumes "separate (Node x l r c) fs" "plug (Node y Nil yr b) gs = r"
  shows "separate (Node y Nil yr b) gs" "separate yr gs"
proof -
  show "separate (Node y Nil yr b) gs"
    using assms distinct_plug [of "Node y Nil yr b" gs] by (auto simp: separate_def)
  then show "separate yr gs" by (auto simp: separate_def)
qed

lemma unlink_successor_ok:
  assumes l: "shape h l" "root l = Some k" "node_left (the (h k))"
    and r: "shape h r" "r = Node z zl zr zc" "zl \<noteq> Nil" "linked h r x False"
    and desc: "descend_left r [] = Some (y, yr, b, gs)"
    and ctx: "ctx h q fs" and sep: "separate (Node x l r c) fs"
    and rt: "fs \<noteq> [] \<Longrightarrow> rt = root (plug (Node x l r c) fs)"
  shows "\<exists>res. unlink_successor h rt (fst (hook_of fs)) (Some k) (Some z) (snd (hook_of fs)) (c = Red) = Some res \<and>
    spliced h (ids l \<union> ids r \<union> frame_ids fs) b yr (gs @ (False, y, l, c) # fs) res"
proof -
  define hs where "hs = [(False, x, Nil :: nat rb_tree, Black)]"
  have gs: "plug (Node y Nil yr b) gs = r"
    using descend_left_plug [of r "[]"] desc r(2) by auto
  obtain cp cs cc gs' where gs': "gs = (True, cp, cs, cc) # gs'"
      and loop: "leftmost_loop h (Some z) (root zl) = Some (Some cp, Some y)"
    using leftmost_loop_ok [of zl z zr zc "[]" y yr b gs h] desc r(1,2,3) by (cases zl) auto
  note sepr = separate_append [OF sep gs]
  have inr: "shape h (Node y Nil yr b)" "hooked h (Node y Nil yr b) (gs @ hs)" "ctx_in hs h (Some y) gs"
    using shape_plug_in [of h "Node y Nil yr b" gs hs] r(1,4) linked_hooked [of h r x False] by (auto simp: gs hs_def)
  then have yl: "live h y" "node_left (the (h y))" "right (the (h y)) = root yr" "node_red (the (h y)) = (b = Red)" "shape h yr"
    by (auto simp: gs')
  have D: "ids r = insert y (ids yr \<union> frame_ids gs)" "y \<notin> ids yr" "y \<notin> frame_ids gs" "ids yr \<inter> frame_ids gs = {}"
      "ids l \<inter> ids r = {}" "ids l \<inter> frame_ids fs = {}" "ids r \<inter> frame_ids fs = {}" "distinct (inorder l)" "distinct (inorder yr)"
    using sepr sep ids_plug [of "Node y Nil yr b" gs] by (auto simp: gs separate_def ids_inorder)
  have cp: "cp \<in> frame_ids gs" by (simp add: gs')
  obtain h1 where h1: "set_left h (Some cp) (root yr) = Some h1" "shape h1 yr" "hooked h1 yr (gs @ hs)"
      "ctx_in hs h1 (root yr) gs" "frame (insert cp (ids yr)) h h1"
    using set_child_ok [OF yl(5), of hs "Some y" True cp cs cc gs'] inr(3) sepr(2) by (auto simp: gs')
  have eq1: "h1 i = h i" if "i \<in> insert y (ids l)" for i
    using that D cp by (intro frame_eq [OF h1(5)]) auto
  have "shape h1 l" using l(1) shape_cong [of l h1 h] eq1 by auto
  moreover have "node_left (the (h1 k))" using l eq1 root_in_ids [OF l(2)] by auto
  moreover have "live h1 y" using yl(1) eq1 by (simp add: live_def)
  moreover have "y \<notin> ids l" using D by auto
  ultimately obtain h2 h3 where h3: "set_left_no_check_no_flag h1 (Some y) (Some k) = Some h2"
      "set_color h2 (Some y) (c = Red) = Some h3" "shape h3 l" "linked h3 l y True" "left (the (h3 y)) = root l"
      "node_red (the (h3 y)) = (c = Red)" "right (the (h3 y)) = right (the (h1 y))"
      "node_left (the (h3 y)) = node_left (the (h1 y))" "frame (insert y (ids l)) h1 h3"
    using adopt_left_ok [of h1 l k y "c = Red"] l(2) D(8) by blast
  have eq3: "h3 i = h1 i" if "i \<in> ids yr \<union> frame_ids gs" for i
    using that D by (intro frame_eq [OF h3(9)]) auto
  have yr3: "shape h3 yr" "hooked h3 yr (gs @ hs)"
    using h1(2,3) shape_cong [of yr h3 h1] eq3 by (cases yr; auto simp: hangs_hook)+
  define p where "p = (if b = Black \<and> rb_tree_color yr = Red then blacken yr else yr)"
  have p: "inorder p = inorder yr" "root p = root yr" "ids p = ids yr" by (simp_all add: p_def ids_inorder)
  obtain h4 where h4: "do { red \<leftarrow> is_red h3 (root yr);
        (if b \<noteq> Red \<and> red then do { h \<leftarrow> set_black h3 (root yr); Some (h, True) } else Some (h3, b = Red)) } =
      Some (h4, b = Red \<or> rb_tree_color yr = Red)"
      "shape h4 p" "\<forall>fs. hooked h4 p fs = hooked h3 yr fs" "frame (ids yr) h3 h4"
    unfolding p_def using maybe_black [OF yr3(1) D(9)] by blast
  have eq4: "h4 i = h3 i" if "i \<in> insert y (ids l \<union> frame_ids gs)" for i
    using that D by (intro frame_eq [OF h4(4)]) auto
  define r1 where "r1 = plug p gs"
  have r1_ids: "ids r1 = ids yr \<union> frame_ids gs" by (simp add: r1_def ids_plug p)
  have "ctx_in hs h4 (root p) gs"
    using h1(4) ctx_cong [of gs h4 h1 hs] eq4 eq3 by (simp add: p)
  then have r1: "shape h4 r1" "hooked h4 r1 hs"
    using shape_plug_in [of h4 p gs hs] h4(2,3) yr3(2) by (auto simp: r1_def)
  have rz: "root r1 = Some z"
    using root_plug_Cons [of p "(True, cp, cs, cc)" gs' "Node y Nil yr b"] gs r(2) by (simp add: r1_def gs')
  have dr1: "distinct (inorder r1)"
    using distinct_plug [of p gs] sepr(2) separate_cong [OF sepr(2) p(1)] by (simp add: r1_def)
  have "\<not> node_left (the (h4 z))" using r1(2) rz by (cases r1) (auto simp: hs_def)
  moreover have "live h4 y" using \<open>live h1 y\<close> h3(9) eq4 [of y] by (auto simp: live_def frame_def)
  moreover have "y \<notin> ids r1" using D r1_ids by auto
  ultimately obtain h5 where h5: "set_right_no_check_no_flag h4 (Some y) (Some z) = Some h5" "shape h5 r1"
      "linked h5 r1 y False" "right (the (h5 y)) = root r1" "node_red (the (h5 y)) = node_red (the (h4 y))"
      "left (the (h5 y)) = left (the (h4 y))" "node_left (the (h5 y)) = node_left (the (h4 y))"
      "frame (insert y (ids r1)) h4 h5"
    using adopt_right_ok [OF r1(1) rz _ _ _ dr1, of y] by blast
  have eq5: "h5 i = h4 i" if "i \<in> ids l" for i
    using that D r1_ids by (intro frame_eq [OF h5(8)]) auto
  have "live h5 y" using \<open>live h4 y\<close> h5(8) by (auto simp: live_def frame_def)
  then have t5: "shape h5 (Node y l r1 c)" "node_left (the (h5 y))"
    using h5 h3(3-6,8) eq4 eq5 eq1 yl(2) shape_cong [of l h5 h3] linked_cong [of l h5 h3 y True] by auto
  have fr5: "frame (ids l \<union> ids r) h h5"
  proof -
    have "frame (ids l \<union> ids r) h h1" by (rule frame_mono [OF h1(5)]) (use D cp in auto)
    then have "frame (ids l \<union> ids r) h h3" by (rule frame_trans [OF _ h3(9)]) (use D in auto)
    then have "frame (ids l \<union> ids r) h h4" by (rule frame_trans [OF _ h4(4)]) (use D in auto)
    then show ?thesis by (rule frame_trans [OF _ h5(8)]) (use D r1_ids in auto)
  qed
  have "ctx h5 q fs"
    using ctx D(6,7) by (subst ctx_frame [OF fr5]) auto
  moreover have sep5: "separate (Node y l r1 c) fs"
    using sep D dr1 r1_ids \<open>y \<notin> ids r1\<close> by (auto simp: separate_def ids_inorder)
  moreover have "fs \<noteq> [] \<Longrightarrow> rt = root (plug (Node y l r1 c) fs)"
    using rt root_plug_Cons by (cases fs) blast+
  ultimately obtain h6 rt6 where h6: "(if fst (hook_of fs) \<noteq> None then do {
        h \<leftarrow> (if snd (hook_of fs) then set_left_no_check_no_flag h5 (fst (hook_of fs)) (Some y)
              else set_right_no_check h5 (fst (hook_of fs)) (Some y));
        Some (h, rt) }
      else set_root_no_check h5 (Some y)) = Some (h6, rt6)"
      "rep h6 rt6 (plug (Node y l r1 c) fs)" "frame (ids (Node y l r1 c) \<union> frame_ids fs) h5 h6"
    using link_up_ok [OF t5(1), of y q fs rt set_left_no_check_no_flag set_right_no_check] t5(2) by auto
  have "unlink_successor h rt (fst (hook_of fs)) (Some k) (Some z) (snd (hook_of fs)) (c = Red) =
    Some (if b = Red \<or> rb_tree_color yr = Red then Inl (h6, rt6) else Inr (h6, rt6, Some cp, True))"
    using h1(1) h3(1,2) h4(1) h5(1) h6(1) loop yl r(1,2) yr3(1) unfolding unlink_successor_def is_red_root [OF yr3(1)]
    by (cases b; cases "rb_tree_color yr") (simp_all add: get_right_def get_left_def is_red_no_check_def node_at_dom node_red_def is_red_root)
  moreover have "frame (ids l \<union> ids r \<union> frame_ids fs) h h6"
    by (rule frame_trans [OF frame_mono [OF fr5] h6(3)]) (use D r1_ids in auto)
  moreover have "plug p (gs @ (False, y, l, c) # fs) = plug (Node y l r1 c) fs"
    by (simp add: plug_append r1_def)
  ultimately show ?thesis
    using h6(2) unfolding spliced_def
    by (cases b; cases "rb_tree_color yr") (auto simp: p_def gs')
qed

section \<open>remove_node\<close>

lemma frame_ids_append: "frame_ids (gs @ fs) = frame_ids gs \<union> frame_ids fs"
  by (induction gs rule: frame_ids.induct) auto

definition splice_falls :: "rb_color \<Rightarrow> 'v rb_tree \<Rightarrow> 'v rb_frame list \<Rightarrow> bool" where
  "splice_falls b p fs \<longleftrightarrow> b = Black \<and> fs \<noteq> [] \<and> rb_tree_color p = Black \<and> falls_off p fs"

definition remove_falls :: "'v rb_tree \<Rightarrow> 'v rb_tree \<Rightarrow> rb_color \<Rightarrow> 'v rb_frame list \<Rightarrow> bool" where
  "remove_falls l r c fs =
     (if l = Nil \<or> r = Nil then splice_falls c (if l \<noteq> Nil then l else r) fs
      else case descend_left r [] of
        None \<Rightarrow> False
      | Some (y, yr, b, gs) \<Rightarrow> splice_falls b yr (gs @ (False, y, l, c) # fs))"

definition finish :: "'a unlinked \<Rightarrow> ('a rb_heap \<times> ptr) option" where
  "finish res = (case res of
     Inl done \<Rightarrow> Some done
   | Inr (h, rt, p_parent, p_is_left) \<Rightarrow> delete_rebalance_loop h rt p_parent p_is_left)"

lemma spliced_finish:
  assumes "spliced h S b p fs res" "rb_ok (plug (fill_frame (d, y, Nil, b) p) fs)" "ids p \<union> frame_ids fs \<subseteq> S"
  shows "if splice_falls b p fs then finish res = None
    else \<exists>h' rt'. finish res = Some (h', rt') \<and> rep h' rt' (splice_out b p fs) \<and> frame S h h'"
proof (cases "b = Red \<or> fs = [] \<or> rb_tree_color p = Red")
  case True
  then show ?thesis
    using assms(1) by (auto simp: spliced_def splice_falls_def splice_out_def finish_def split: if_splits)
next
  case False
  then obtain d' i s c gs where fs: "fs = (d', i, s, c) # gs" by (cases fs) auto
  obtain h1 rt1 where h1: "frame S h h1" "res = Inr (h1, rt1, Some i, d')" "rep h1 rt1 (plug p fs)"
    using assms(1) False by (auto simp: spliced_def fs)
  have "rb_ok (fill_frame (d, y, Nil, b) p)" using assms(2) rb_ok_plug by blast
  then have "rb_ok p" "rb_tree_bh (fill_frame (d, y, Nil, b) p) = Suc (rb_tree_bh p)"
    using False by (cases d; cases b; auto)+
  from delete_loop_ok [OF assms(2) [unfolded fs] this _ h1(3) [unfolded fs]] False
  show ?thesis
    using frame_trans [OF h1(1), of "ids (plug p fs)"] assms(3) False
    by (auto simp: h1(2) splice_falls_def splice_out_def finish_def fs ids_plug simp del: falls_off.simps delete_fix.simps plug.simps
        split: if_splits)
qed

lemma remove_node_eq:
  assumes "live h x"
  shows "remove_node h rt (Some x) =
    (let n = the (h x); h0 = h(x := None) in do {
       res \<leftarrow>
         (if left n = None \<or> right n = None then
            unlink_one_child h0 rt (parent n) (left n) (right n) (node_left n) (node_red n)
          else do {
            rl \<leftarrow> get_left h0 (right n);
            if rl = None then unlink_right_child h0 rt (parent n) (left n) (right n) (node_left n) (node_red n)
            else unlink_successor h0 rt (parent n) (left n) (right n) (node_left n) (node_red n) });
       finish res })"
  using assms
  unfolding remove_node_def finish_def Let_def node_left_def node_red_def
  by (simp add: node_at_dom is_red_no_check_def cong: if_cong)

lemma remove_node_ok:
  assumes rep: "rep h rt (plug (Node x l r c) fs)" and ok: "rb_ok (plug (Node x l r c) fs)"
  shows "if remove_falls l r c fs then remove_node h rt (Some x) = None
    else \<exists>h' rt'. remove_node h rt (Some x) = Some (h', rt') \<and> rep h' rt' (remove_at l r c fs) \<and>
      frame (ids l \<union> ids r \<union> frame_ids fs) (h(x := None)) h'"
proof -
  note R = repD [OF rep]
  define n where "n = the (h x)"
  define h0 where "h0 = h(x := None)"
  have n: "left n = root l" "right n = root r" "node_red n = (c = Red)" "(parent n, node_left n) = hook_of fs"
    "live h x" "linked h l x True" "linked h r x False" "shape h l" "shape h r"
    using R(2,3) by (auto simp: n_def hangs_hook)
  have hook: "parent n = fst (hook_of fs)" "node_left n = snd (hook_of fs)" using n(4) by (cases "hook_of fs"; simp)+
  have D: "x \<notin> ids l" "x \<notin> ids r" "x \<notin> frame_ids fs" "ids l \<inter> ids r = {}" "ids l \<inter> frame_ids fs = {}" "ids r \<inter> frame_ids fs = {}"
    using R(5) by (auto simp: separate_def ids_inorder)
  have h0: "shape h0 l" "shape h0 r" "ctx h0 (Some x) fs" "linked h0 l x True" "linked h0 r x False"
  proof -
    have eq: "h0 i = h i" if "i \<noteq> x" for i using that by (simp add: h0_def)
    have eqs: "h0 i = h i" if "i \<in> ids l \<union> ids r \<union> frame_ids fs" for i
      using that D by (intro eq) auto
    show "shape h0 l" using shape_cong [of l h0 h] eqs n(8) by simp
    show "shape h0 r" using shape_cong [of r h0 h] eqs n(9) by simp
    show "ctx h0 (Some x) fs" using ctx_cong [of fs h0 h "[]"] eqs R(4) by simp
    show "linked h0 l x True" using linked_cong [of l h0 h x] eqs n(6) by simp
    show "linked h0 r x False" using linked_cong [of r h0 h x] eqs n(7) by simp
  qed
  have rt: "fs \<noteq> [] \<Longrightarrow> rt = root (plug t fs)" for t
    using R(1) root_plug_Cons [of "Node x l r c" _ _ t] by (cases fs) auto
  let ?S = "ids l \<union> ids r \<union> frame_ids fs"
  have run: "remove_node h rt (Some x) = do {
       res \<leftarrow>
         (if root l = None \<or> root r = None then
            unlink_one_child h0 rt (fst (hook_of fs)) (root l) (root r) (snd (hook_of fs)) (c = Red)
          else do {
            rl \<leftarrow> get_left h0 (root r);
            if rl = None then unlink_right_child h0 rt (fst (hook_of fs)) (root l) (root r) (snd (hook_of fs)) (c = Red)
            else unlink_successor h0 rt (fst (hook_of fs)) (root l) (root r) (snd (hook_of fs)) (c = Red) });
       finish res }"
    by (subst remove_node_eq [OF n(5)]) (simp only: Let_def n_def [symmetric] h0_def [symmetric] n(1-3) hook)
  have one: ?thesis if "do {res \<leftarrow> X; finish res} = remove_node h rt (Some x)" "X = Some res"
      "spliced h0 S b p gs res" "rb_ok (plug (fill_frame (d, y, Nil, b) p) gs)" "ids p \<union> frame_ids gs \<subseteq> S" "S \<subseteq> ?S"
      "remove_falls l r c fs = splice_falls b p gs" "remove_at l r c fs = splice_out b p gs" for X res S b p gs d y
    using spliced_finish [OF that(3-5)] that frame_mono [OF _ that(6)] unfolding h0_def by (auto split: if_splits)
  show ?thesis
  proof (cases "l = Nil \<or> r = Nil")
    case True
    let ?p = "if l \<noteq> Nil then l else r"
    have p: "shape h0 ?p" "(if root l \<noteq> None then root l else root r) = root ?p" "separate ?p fs"
      using h0 True R(5) by (auto simp: separate_def)
    have "Node x l r c = fill_frame (l \<noteq> Nil, x, Nil, c) ?p" using True by auto
    with ok have ok1: "rb_ok (plug (fill_frame (l \<noteq> Nil, x, Nil, c) ?p) fs)" by simp
    obtain res where res: "unlink_one_child h0 rt (fst (hook_of fs)) (root l) (root r) (snd (hook_of fs)) (c = Red) = Some res"
        "spliced h0 (ids ?p \<union> frame_ids fs) c ?p fs res"
      using unlink_one_child_ok [OF p(1,2) h0(3) p(3) rt] by blast
    have "root l = None \<or> root r = None" using True by auto
    show ?thesis
      by (rule one [OF _ res(1,2) ok1]) (use True \<open>root l = None \<or> root r = None\<close> in \<open>auto simp: run remove_falls_def remove_at_def\<close>)
  next
    case False
    then obtain k z zl zr zc where k: "root l = Some k" and r: "r = Node z zl zr zc" by (cases l; cases r) auto
    obtain y yr b gs where gs: "descend_left r [] = Some (y, yr, b, gs)" "plug (Node y Nil yr b) gs = r"
      using descend_left_plug [of r "[]"] False by auto
    have sets: "ids yr \<union> frame_ids (gs @ (False, y, l, c) # fs) \<subseteq> ?S"
      using ids_plug [of "Node y Nil yr b" gs] unfolding gs(2) by (simp add: frame_ids_append) blast
    have kl: "node_left (the (h0 k))" using h0(4) k by (cases l) auto
    have "rb_ok (plug (Node y l r c) fs)"
      using rb_ok_plug_replace [OF ok, of "Node y l r c"] rb_ok_plug [OF ok] by simp
    then have ok1: "rb_ok (plug (fill_frame (False, y, Nil, b) yr) (gs @ (False, y, l, c) # fs))"
      by (simp add: plug_append gs)
    have falls: "remove_falls l r c fs = splice_falls b yr (gs @ (False, y, l, c) # fs)"
      "remove_at l r c fs = splice_out b yr (gs @ (False, y, l, c) # fs)"
      using False by (simp_all add: remove_falls_def remove_at_def gs)
    show ?thesis
    proof (cases zl)
      case Nil
      then have y: "y = z" "yr = zr" "b = zc" "gs = []" using gs(1) by (simp_all add: r)
      have "\<not> node_left (the (h0 y))" using h0(5) by (simp add: r y)
      moreover have "separate (Node y l yr c) fs" using R(5) by (auto simp: separate_def r Nil y)
      ultimately obtain res where res: "unlink_right_child h0 rt (fst (hook_of fs)) (Some k) (Some y) (snd (hook_of fs)) (c = Red) = Some res"
          "spliced h0 (ids (Node y l yr c) \<union> frame_ids fs) b yr ((False, y, l, c) # fs) res"
        using unlink_right_child_ok [OF h0(1) k kl _ _ h0(3), of y yr b c rt] h0(2) rt by (auto simp: r Nil y)
      show ?thesis
        by (rule one [OF _ res(1,2) ok1 [unfolded y(4) append_Nil]])
          (use falls sets h0(2) in \<open>auto simp: run k r Nil y get_left_def node_at_dom\<close>)
    next
      case (Node w wl wr wc)
      obtain res where res: "unlink_successor h0 rt (fst (hook_of fs)) (Some k) (Some z) (snd (hook_of fs)) (c = Red) = Some res"
          "spliced h0 ?S b yr (gs @ (False, y, l, c) # fs) res"
        using unlink_successor_ok [OF h0(1) k kl h0(2) r _ h0(5) gs(1) h0(3) R(5) rt] Node by auto
      show ?thesis
        by (rule one [OF _ res(1,2) ok1 sets _ falls])
          (use h0(2) in \<open>auto simp: run k r Node get_left_def node_at_dom\<close>)
    qed
  qed
qed

end
