(* ===== verification/RbTree.thy ===== *)
theory RbTree
  imports RbRemove
begin

text \<open>
  \<open>class rbtree\<close> as its clients see it: a tree is its container id and its root
  pointer, the nodes live in a store with the tags of \<open>TaggedPtr\<close>, and a client
  holds \<open>counted_ref\<close> handles.  \<open>std::terminate\<close> and every fault is
  \<^term>\<open>None\<close>.
\<close>

section \<open>State\<close>

type_synonym 'a rb_store = "'a rb_node node_store"

record rbtree =
  container_id :: u64
  tree_root :: ptr

definition allocate_node :: "'a rb_store \<Rightarrow> rbtree \<Rightarrow> u64 \<Rightarrow> 'a rb_store \<times> nat" where
  "allocate_node s t fl =
     (let (ts, p) = tagged_allocate (tagged s) (container_id t); i = the p in
      (\<lparr>tagged = ts, nodes = (nodes s)(i \<mapsto> \<lparr>left = None, right = None, parent = None, flags = fl, storage = None\<rparr>)\<rparr>, i))"

definition construct_value :: "'a rb_store \<Rightarrow> nat \<Rightarrow> 'a \<Rightarrow> 'a rb_store option" where
  "construct_value s i v = do {
     h \<leftarrow> update_node (nodes s) (Some i) (storage_update (\<lambda>_. Some v));
     Some (s\<lparr>nodes := h\<rparr>) }"

section \<open>Insertion\<close>

definition emplace_root_raw :: "'a rb_store \<Rightarrow> rbtree \<Rightarrow> ('a rb_store \<times> rbtree \<times> nat) option" where
  "emplace_root_raw s t =
     (if tree_root t \<noteq> None then None
      else let (s, p) = allocate_node s t 0 in Some (s, t\<lparr>tree_root := Some p\<rparr>, p))"

definition emplace_left_raw :: "'a rb_store \<Rightarrow> rbtree \<Rightarrow> ptr \<Rightarrow> ('a rb_store \<times> rbtree \<times> nat) option" where
  "emplace_left_raw s t X = do {
     ok \<leftarrow> counted_check (tagged s) X (container_id t);
     if \<not> ok then None
     else do {
       l \<leftarrow> get_left (nodes s) X;
       if l \<noteq> None then None
       else do {
         let (s, L) = allocate_node s t (RB_IS_RED OR RB_IS_LEFT_CHILD);
         h \<leftarrow> update_node (nodes s) X (left_update (\<lambda>_. Some L));
         h \<leftarrow> update_node h (Some L) (parent_update (\<lambda>_. X));
         x_red \<leftarrow> is_red_no_check h X;
         (h, rt) \<leftarrow> (if x_red then insert_rebalance h (tree_root t) X True else Some (h, tree_root t));
         Some (s\<lparr>nodes := h\<rparr>, t\<lparr>tree_root := rt\<rparr>, L) } } }"

definition emplace_right_raw :: "'a rb_store \<Rightarrow> rbtree \<Rightarrow> ptr \<Rightarrow> ('a rb_store \<times> rbtree \<times> nat) option" where
  "emplace_right_raw s t X = do {
     ok \<leftarrow> counted_check (tagged s) X (container_id t);
     if \<not> ok then None
     else do {
       r \<leftarrow> get_right (nodes s) X;
       if r \<noteq> None then None
       else do {
         let (s, R) = allocate_node s t RB_IS_RED;
         h \<leftarrow> update_node (nodes s) X (right_update (\<lambda>_. Some R));
         h \<leftarrow> update_node h (Some R) (parent_update (\<lambda>_. X));
         x_red \<leftarrow> is_red_no_check h X;
         (h, rt) \<leftarrow> (if x_red then insert_rebalance h (tree_root t) X False else Some (h, tree_root t));
         Some (s\<lparr>nodes := h\<rparr>, t\<lparr>tree_root := rt\<rparr>, R) } } }"

definition emplace_root :: "'a rb_store \<Rightarrow> rbtree \<Rightarrow> 'a \<Rightarrow> ('a rb_store \<times> rbtree \<times> ptr) option" where
  "emplace_root s t v = do {
     (s, t, p) \<leftarrow> emplace_root_raw s t;
     (s, h) \<leftarrow> with_handle s p;
     s \<leftarrow> construct_value s p v;
     Some (s, t, h) }"

definition emplace_left :: "'a rb_store \<Rightarrow> rbtree \<Rightarrow> ptr \<Rightarrow> 'a \<Rightarrow> ('a rb_store \<times> rbtree \<times> ptr) option" where
  "emplace_left s t X v = do {
     (s, t, p) \<leftarrow> emplace_left_raw s t X;
     (s, h) \<leftarrow> with_handle s p;
     s \<leftarrow> construct_value s p v;
     Some (s, t, h) }"

definition emplace_right :: "'a rb_store \<Rightarrow> rbtree \<Rightarrow> ptr \<Rightarrow> 'a \<Rightarrow> ('a rb_store \<times> rbtree \<times> ptr) option" where
  "emplace_right s t X v = do {
     (s, t, p) \<leftarrow> emplace_right_raw s t X;
     (s, h) \<leftarrow> with_handle s p;
     s \<leftarrow> construct_value s p v;
     Some (s, t, h) }"

definition emplace_root_null :: "'a rb_store \<Rightarrow> rbtree \<Rightarrow> ('a rb_store \<times> rbtree \<times> ptr) option" where
  "emplace_root_null s t = do { (s, t, p) \<leftarrow> emplace_root_raw s t; (s, h) \<leftarrow> with_handle s p; Some (s, t, h) }"

definition emplace_left_null :: "'a rb_store \<Rightarrow> rbtree \<Rightarrow> ptr \<Rightarrow> ('a rb_store \<times> rbtree \<times> ptr) option" where
  "emplace_left_null s t X = do { (s, t, p) \<leftarrow> emplace_left_raw s t X; (s, h) \<leftarrow> with_handle s p; Some (s, t, h) }"

definition emplace_right_null :: "'a rb_store \<Rightarrow> rbtree \<Rightarrow> ptr \<Rightarrow> ('a rb_store \<times> rbtree \<times> ptr) option" where
  "emplace_right_null s t X = do { (s, t, p) \<leftarrow> emplace_right_raw s t X; (s, h) \<leftarrow> with_handle s p; Some (s, t, h) }"

section \<open>Removal\<close>

text \<open>\<open>remove_node\<close> with the release of the block, which it does between reading the
  links of \<open>X\<close> and relinking its neighbours.\<close>

definition remove_and_release :: "'a rb_store \<Rightarrow> rbtree \<Rightarrow> ptr \<Rightarrow> ('a rb_store \<times> rbtree) option" where
  "remove_and_release s t X = do {
     ts \<leftarrow> tagged_deallocate (tagged s) X;
     (h, rt) \<leftarrow> remove_node (nodes s) (tree_root t) X;
     Some (\<lparr>tagged = ts, nodes = h\<rparr>, t\<lparr>tree_root := rt\<rparr>) }"

text \<open>\<open>remove\<close> destroys the value, which must exist, and the node; \<open>inform_destruct\<close>
  is for a client that has destroyed the value itself.\<close>

definition rbtree_remove :: "'a rb_store \<Rightarrow> rbtree \<Rightarrow> ptr \<Rightarrow> ('a rb_store \<times> rbtree) option" where
  "rbtree_remove s t X = do {
     ok \<leftarrow> counted_check (tagged s) X (container_id t);
     if \<not> ok then None
     else do {
       n \<leftarrow> node_at (nodes s) X;
       v \<leftarrow> storage n;
       remove_and_release s t X } }"

definition inform_destruct :: "'a rb_store \<Rightarrow> rbtree \<Rightarrow> ptr \<Rightarrow> ('a rb_store \<times> rbtree) option" where
  "inform_destruct s t X = do {
     ok \<leftarrow> counted_check (tagged s) X (container_id t);
     if \<not> ok then None else remove_and_release s t X }"

section \<open>Access\<close>

definition root_handle :: "'a rb_store \<Rightarrow> rbtree \<Rightarrow> ('a rb_store \<times> ptr) option" where
  "root_handle s t = handle_or_null s (tree_root t)"

definition left_handle :: "'a rb_store \<Rightarrow> rbtree \<Rightarrow> ptr \<Rightarrow> ('a rb_store \<times> ptr) option" where
  "left_handle s t X = do {
     ok \<leftarrow> counted_check (tagged s) X (container_id t);
     if \<not> ok then None else do { p \<leftarrow> get_left (nodes s) X; handle_or_null s p } }"

definition right_handle :: "'a rb_store \<Rightarrow> rbtree \<Rightarrow> ptr \<Rightarrow> ('a rb_store \<times> ptr) option" where
  "right_handle s t X = do {
     ok \<leftarrow> counted_check (tagged s) X (container_id t);
     if \<not> ok then None else do { p \<leftarrow> get_right (nodes s) X; handle_or_null s p } }"

definition parent_handle :: "'a rb_store \<Rightarrow> rbtree \<Rightarrow> ptr \<Rightarrow> ('a rb_store \<times> ptr) option" where
  "parent_handle s t X = do {
     ok \<leftarrow> counted_check (tagged s) X (container_id t);
     if \<not> ok then None else do { p \<leftarrow> get_parent (nodes s) X; handle_or_null s p } }"

definition rbtree_data :: "'a rb_store \<Rightarrow> rbtree \<Rightarrow> ptr \<Rightarrow> 'a option" where
  "rbtree_data s t X = do {
     ok \<leftarrow> counted_check (tagged s) X (container_id t);
     if \<not> ok then None else do { n \<leftarrow> node_at (nodes s) X; storage n } }"

definition rbtree_check :: "'a rb_store \<Rightarrow> rbtree \<Rightarrow> ptr \<Rightarrow> bool option" where
  "rbtree_check s t X = counted_check (tagged s) X (container_id t)"

definition rbtree_check_maybe_null :: "'a rb_store \<Rightarrow> rbtree \<Rightarrow> ptr \<Rightarrow> u32 option" where
  "rbtree_check_maybe_null s t X = counted_check_maybe_null (tagged s) X (container_id t)"

section \<open>Whole trees\<close>

text \<open>The inner loop of \<open>clear_subtree\<close>: down to a leaf, left children first.\<close>

partial_function (option) descend_leaf :: "'a rb_heap \<Rightarrow> ptr \<Rightarrow> ptr option" where
  "descend_leaf h cur = do {
     l \<leftarrow> get_left h cur;
     if l \<noteq> None then descend_leaf h l
     else do {
       r \<leftarrow> get_right h cur;
       if r \<noteq> None then descend_leaf h r else Some cur } }"

declare descend_leaf.simps [code]

partial_function (option) clear_subtree_loop :: "'a rb_store \<Rightarrow> ptr \<Rightarrow> ptr \<Rightarrow> 'a rb_store option" where
  "clear_subtree_loop s sub cur = do {
     cur \<leftarrow> descend_leaf (nodes s) cur;
     n \<leftarrow> node_at (nodes s) cur;
     v \<leftarrow> storage n;
     ts \<leftarrow> tagged_deallocate (tagged s) cur;
     if cur = sub then Some \<lparr>tagged = ts, nodes = (nodes s)(the cur := None)\<rparr>
     else do {
       let p = parent n;
       h \<leftarrow> (if flags n AND RB_IS_LEFT_CHILD \<noteq> 0 then update_node (nodes s) p (left_update (\<lambda>_. None))
             else update_node (nodes s) p (right_update (\<lambda>_. None)));
       clear_subtree_loop \<lparr>tagged = ts, nodes = h(the cur := None)\<rparr> sub p } }"

declare clear_subtree_loop.simps [code]

definition clear_subtree :: "'a rb_store \<Rightarrow> ptr \<Rightarrow> 'a rb_store option" where
  "clear_subtree s sub = clear_subtree_loop s sub sub"

definition rbtree_clear :: "'a rb_store \<Rightarrow> rbtree \<Rightarrow> ('a rb_store \<times> rbtree) option" where
  "rbtree_clear s t =
     (if tree_root t \<noteq> None then do {
        s \<leftarrow> clear_subtree s (tree_root t);
        Some (s, t\<lparr>tree_root := None\<rparr>) }
      else Some (s, t))"


section \<open>Well-formed trees\<close>

text \<open>\<open>T\<close> is the tree of ids behind \<open>t\<close>; \<open>own\<close> are the blocks held by the containers
  that share the store and \<open>hs\<close> the handles alive.\<close>

definition tree_ok :: "'a rb_store \<Rightarrow> rbtree \<Rightarrow> nat rb_tree \<Rightarrow> nat set \<Rightarrow> ptr list \<Rightarrow> bool" where
  "tree_ok s t T own hs \<longleftrightarrow> counted_ok (tagged s, own, hs) \<and> rep (nodes s) (tree_root t) T \<and> rb_ok T \<and>
     ids T \<subseteq> own \<and> (\<forall>i. live (nodes s) i \<longrightarrow> i \<in> own) \<and>
     (\<forall>i \<in> ids T. map_option tag_id (tags (tagged s) i) = Some (container_id t))"

lemma ids_plugE:
  assumes "x \<in> ids T"
  obtains l r c fs where "T = plug (Node x l r c) fs"
proof -
  have "\<exists>l r c fs. plug T gs = plug (Node x l r c) (fs @ gs)" if "x \<in> ids T" for gs
    using that
  proof (induction T arbitrary: gs)
    case (Node k a b c)
    consider "x = k" | "x \<in> ids a" | "x \<in> ids b" using Node.prems by auto
    then show ?case
    proof cases
      case 1
      then show ?thesis by (metis append_Nil)
    next
      case 2
      from Node.IH(1) [OF this, of "(True, k, b, c) # gs"] obtain l r c' fs where
        "plug a ((True, k, b, c) # gs) = plug (Node x l r c') ((fs @ [(True, k, b, c)]) @ gs)" by auto
      then show ?thesis by (metis plug.simps(2) fill_frame.simps(1))
    next
      case 3
      from Node.IH(2) [OF this, of "(False, k, a, c) # gs"] obtain l r c' fs where
        "plug b ((False, k, a, c) # gs) = plug (Node x l r c') ((fs @ [(False, k, a, c)]) @ gs)" by auto
      then show ?thesis by (metis plug.simps(2) fill_frame.simps(2))
    qed
  qed simp
  from this [OF assms, of "[]"] that show thesis by auto
qed

text \<open>The links of a node do not include its value.\<close>

definition links :: "'a rb_node \<Rightarrow> ptr \<times> ptr \<times> ptr \<times> u64" where
  "links n = (left n, right n, parent n, flags n)"

lemma rep_links:
  assumes "\<And>i. map_option links (h' i) = map_option links (h i)"
  shows "rep h' rt T = rep h rt T"
proof -
  have v: "live h' i = live h i" "live h i \<Longrightarrow> left (the (h' i)) = left (the (h i)) \<and> right (the (h' i)) = right (the (h i)) \<and>
      parent (the (h' i)) = parent (the (h i)) \<and> flags (the (h' i)) = flags (the (h i))" for i
    using assms [of i] by (cases "h i"; cases "h' i"; simp add: live_def links_def)+
  have lk: "shape h t \<Longrightarrow> linked h' t k d = linked h t k d" for t k d
    using v by (cases t) (auto simp: node_left_def)
  have sh: "shape h' t = shape h t" for t
  proof (induction t)
    case (Node i l r c)
    then show ?case using v [of i] lk by (auto simp: node_red_def)
  qed simp
  have "shape h t \<Longrightarrow> hooked h' t [] = hooked h t []" for t
    using v by (cases t) (auto simp: node_left_def)
  with sh show ?thesis by (auto simp: rep_def)
qed

lemma plug_bh_Nil: "plug Nil [] = Nil" by simp

section \<open>Insertion\<close>

lemma shape_live: "shape h t \<Longrightarrow> i \<in> ids t \<Longrightarrow> live h i"
  by (induction t) auto

lemma ctx_live: "ctx_in hs h p gs \<Longrightarrow> i \<in> frame_ids gs \<Longrightarrow> live h i"
proof (induction gs arbitrary: p)
  case (Cons g gs)
  then show ?case by (cases g) (auto intro: shape_live)
qed simp

text \<open>A new red leaf \<open>y\<close> in the empty place below \<open>x\<close>.\<close>

definition new_leaf :: "u64 \<Rightarrow> ptr \<Rightarrow> 'a rb_node" where
  "new_leaf fl p = \<lparr>left = None, right = None, parent = p, flags = fl, storage = None\<rparr>"

lemma attach_leaf:
  assumes rep: "rep h rt (plug Nil ((d, x, sb, c) # fs))" and y: "h y = None"
    and fl: "bit fl (Suc 0)" "bit fl 0 = d"
  shows "rep (h(x \<mapsto> (if d then left_update else right_update) (\<lambda>_. Some y) (the (h x)), y \<mapsto> new_leaf fl (Some x))) rt
    (plug (Node y Nil Nil Red) ((d, x, sb, c) # fs))" (is "rep ?h _ _")
proof -
  note R = repD [OF rep]
  have ctx: "live h x" "left (the (h x)) = (if d then None else root sb)" "right (the (h x)) = (if d then root sb else None)"
      "node_red (the (h x)) = (c = Red)" "linked h sb x (\<not> d)" "shape h sb" "hangs h x fs" "ctx h (Some x) fs"
    using R(4) by auto
  have "\<not> live h y" using y by (simp add: live_def)
  then have ny: "y \<noteq> x" "y \<notin> ids sb" "y \<notin> frame_ids fs"
    using ctx shape_live [of h sb y] ctx_live [of "[]" h "Some x" fs y] by auto
  have D: "x \<notin> ids sb" "x \<notin> frame_ids fs" using separate_Cons [OF R(5)] by auto
  have eq: "?h i = h i" if "i \<in> ids sb \<union> frame_ids fs" for i
    using that ny D by auto
  have "linked ?h sb x (\<not> d)" "shape ?h sb" "ctx ?h (Some x) fs"
    using ctx linked_cong [of sb ?h h x] shape_cong [of sb ?h h] ctx_cong [of fs ?h h "[]"] eq by auto
  moreover have "hangs ?h x fs" using ctx(7) ny by (cases fs) (auto simp: node_left_def)
  ultimately have "ctx ?h (Some y) ((d, x, sb, c) # fs)"
    using ctx ny by (simp add: node_red_def)
  moreover have "shape ?h (Node y Nil Nil Red)" "hooked ?h (Node y Nil Nil Red) ((d, x, sb, c) # fs)"
    using fl by (auto simp: new_leaf_def node_red_def node_left_def)
  moreover have "separate (Node y Nil Nil Red) ((d, x, sb, c) # fs)"
    using R(5) ny by (auto simp: separate_def)
  ultimately have "rep ?h (root (plug (Node y Nil Nil Red) ((d, x, sb, c) # fs))) (plug (Node y Nil Nil Red) ((d, x, sb, c) # fs))"
    by (intro repI) auto
  then show ?thesis using R(1) root_plug_Cons by metis
qed

text \<open>What an insertion may change: the links of the tree's nodes, never a value.\<close>

definition only_links :: "nat set \<Rightarrow> nat \<Rightarrow> 'a rb_heap \<Rightarrow> 'a rb_heap \<Rightarrow> bool" where
  "only_links S y h h' \<longleftrightarrow> live h' y \<and> (\<forall>j. j \<noteq> y \<longrightarrow> map_option storage (h' j) = map_option storage (h j)) \<and>
     (\<forall>j. j \<noteq> y \<longrightarrow> j \<notin> S \<longrightarrow> h' j = h j)"

lemma frame_storage: "frame S h h' \<Longrightarrow> map_option storage (h' i) = map_option storage (h i)"
  unfolding frame_def by (cases "h i"; cases "h' i") (auto simp: dom_def fun_eq_iff set_eq_iff dest: spec [of _ i])

lemma frame_live: "frame S h h' \<Longrightarrow> live h' i = live h i"
  unfolding frame_def live_def dom_def by blast

lemma rebalance_leaf:
  assumes rep: "rep h rt (plug (Node y Nil Nil Red) ((d, x, sb, c) # fs))" and ok: "rb_ok (plug Nil ((d, x, sb, c) # fs))"
  shows "\<exists>h' rt'. do {
      x_red \<leftarrow> is_red_no_check h (Some x);
      (if x_red then insert_rebalance h rt (Some x) d else Some (h, rt)) } = Some (h', rt') \<and>
    rep h' rt' (emplace_at y ((d, x, sb, c) # fs)) \<and> frame (insert y (ids (plug Nil ((d, x, sb, c) # fs)))) h h'"
proof -
  have x: "live h x" "node_red (the (h x)) = (c = Red)" using repD(4) [OF rep] by auto
  show ?thesis
  proof (cases "c = Red")
    case True
    have "insert_inv Nil (Node y Nil Nil Red) True" by (simp add: insert_inv_def)
    from insert_loop_ok [OF this ok rep] True x show ?thesis
      by (auto simp: is_red_no_check_def node_at_dom node_red_def insert_rebalance_def ids_plug insert_commute
          simp del: insert_fix.simps)
  next
    case False
    then show ?thesis
      using x rep by (simp add: is_red_no_check_def node_at_dom node_red_def)
  qed
qed

lemma check_in_tree:
  assumes "tree_ok s t T own hs" "x \<in> ids T"
  shows "counted_check (tagged s) (Some x) (container_id t) = Some True"
proof -
  have ok: "counted_ok (tagged s, own, hs)" and x: "x \<in> own" "map_option tag_id (tags (tagged s) x) = Some (container_id t)"
    using assms by (auto simp: tree_ok_def)
  then obtain tg where tg: "tags (tagged s) x = Some tg" "tag_id tg = container_id t" by auto
  then show ?thesis
    using counted_okD(2) [OF ok tg(1)] x count_word_tests(2) by (simp add: counted_check_def tag_at_def)
qed

lemma allocate_node_ok:
  assumes ok: "tree_ok s t T own hs" and al: "allocate_node s t fl = (s1, y)"
  shows "y = next_block (tagged s)" "y \<notin> own" "nodes s y = None" "counted_ok (tagged s1, insert y own, hs)"
    "nodes s1 = (nodes s)(y \<mapsto> new_leaf fl None)" "map_option tag_id (tags (tagged s1) y) = Some (container_id t)"
    "\<And>i. i \<noteq> y \<Longrightarrow> tags (tagged s1) i = tags (tagged s) i"
proof -
  have c: "counted_ok (tagged s, own, hs)" using ok by (simp add: tree_ok_def)
  show "y = next_block (tagged s)"
    using al by (auto simp: allocate_node_def tagged_allocate_def Let_def)
  moreover have "tags (tagged s) (next_block (tagged s)) = None"
    using counted_okD(2) [OF c, of "next_block (tagged s)"] by (cases "tags (tagged s) (next_block (tagged s))") auto
  ultimately show "y \<notin> own" using counted_okD(1) [OF c, of y] by simp
  then show "nodes s y = None" using ok by (auto simp: tree_ok_def live_def)
  show "counted_ok (tagged s1, insert y own, hs)"
    using tagged_allocate_ok [OF c, of "container_id t"] al by (auto simp: allocate_node_def tagged_allocate_def Let_def)
qed (use al in \<open>auto simp: allocate_node_def tagged_allocate_def Let_def new_leaf_def\<close>)

lemma attached_ok:
  assumes ok: "tree_ok s t (plug Nil ((d, x, sb, c) # fs)) own hs" and al: "allocate_node s t fl = (s1, y)"
    and fl: "bit fl (Suc 0)" "bit fl 0 = d"
    and upd: "U = (if d then left_update else right_update)"
  shows "\<exists>h1 h2 h3 rt'. update_node (nodes s1) (Some x) (U (\<lambda>_. Some y)) = Some h1 \<and>
    update_node h1 (Some y) (parent_update (\<lambda>_. Some x)) = Some h2 \<and>
    do { x_red \<leftarrow> is_red_no_check h2 (Some x);
         (if x_red then insert_rebalance h2 (tree_root t) (Some x) d else Some (h2, tree_root t)) } = Some (h3, rt') \<and>
    tree_ok (s1\<lparr>nodes := h3\<rparr>) (t\<lparr>tree_root := rt'\<rparr>) (emplace_at y ((d, x, sb, c) # fs)) (insert y own) hs \<and>
    only_links (ids (plug Nil ((d, x, sb, c) # fs))) y (nodes s) h3"
proof -
  let ?T = "plug Nil ((d, x, sb, c) # fs)"
  note A = allocate_node_ok [OF ok al]
  have T: "rep (nodes s) (tree_root t) ?T" "rb_ok ?T" "ids ?T \<subseteq> own" "\<And>i. live (nodes s) i \<Longrightarrow> i \<in> own"
      "\<And>i. i \<in> ids ?T \<Longrightarrow> map_option tag_id (tags (tagged s) i) = Some (container_id t)"
    using ok by (auto simp: tree_ok_def)
  have x: "x \<in> ids ?T" "live (nodes s) x" "x \<noteq> y"
    using repD(4) [OF T(1)] T(3) A(2) by (auto simp: ids_plug)
  define h2 where "h2 = (nodes s)(x \<mapsto> U (\<lambda>_. Some y) (the (nodes s x)), y \<mapsto> new_leaf fl (Some x))"
  have run: "update_node (nodes s1) (Some x) (U (\<lambda>_. Some y)) =
        Some ((nodes s1)(x \<mapsto> U (\<lambda>_. Some y) (the (nodes s x))))"
      "update_node ((nodes s1)(x \<mapsto> U (\<lambda>_. Some y) (the (nodes s x)))) (Some y) (parent_update (\<lambda>_. Some x)) = Some h2"
    using x A(3) by (auto simp: A(5) h2_def update_node_def live_def new_leaf_def fun_eq_iff)
  have "rep h2 (tree_root t) (plug (Node y Nil Nil Red) ((d, x, sb, c) # fs))"
    using attach_leaf [OF T(1) A(3) fl] by (simp add: h2_def upd)
  from rebalance_leaf [OF this T(2)] obtain h3 rt' where h3: "do { x_red \<leftarrow> is_red_no_check h2 (Some x);
         (if x_red then insert_rebalance h2 (tree_root t) (Some x) d else Some (h2, tree_root t)) } = Some (h3, rt')"
      "rep h3 rt' (emplace_at y ((d, x, sb, c) # fs))" "frame (insert y (ids ?T)) h2 h3"
    by blast
  have fin: "rb_ok (emplace_at y ((d, x, sb, c) # fs))" "ids (emplace_at y ((d, x, sb, c) # fs)) = insert y (ids ?T)"
    using emplace_at_ok [OF T(2), of y] by (auto simp: ids_inorder inorder_plug simp del: emplace_at.simps plug.simps)
  have "storage (U f n) = storage n" for f n by (simp add: upd)
  then have "only_links (ids ?T) y (nodes s) h3"
    using h3(3) frame_storage [OF h3(3)] frame_live [OF h3(3)] x
    by (auto simp: only_links_def h2_def frame_def live_def)
  moreover have "tree_ok (s1\<lparr>nodes := h3\<rparr>) (t\<lparr>tree_root := rt'\<rparr>) (emplace_at y ((d, x, sb, c) # fs)) (insert y own) hs"
    unfolding tree_ok_def
  proof (intro conjI ballI allI impI)
    fix i assume "i \<in> ids (emplace_at y ((d, x, sb, c) # fs))"
    then have "i = y \<or> i \<in> ids ?T \<and> i \<noteq> y" using fin(2) T(3) A(2) by auto
    then show "map_option tag_id (tags (tagged (s1\<lparr>nodes := h3\<rparr>)) i) = Some (container_id (t\<lparr>tree_root := rt'\<rparr>))"
      using A(6,7) T(5) by auto
  qed (use A(4) h3(2) fin T(3,4) frame_live [OF h3(3)] x in \<open>auto simp: h2_def simp del: emplace_at.simps plug.simps\<close>)
  ultimately show ?thesis using run h3(1) by blast
qed

lemma bit_leaf_flags: "bit (RB_IS_RED OR RB_IS_LEFT_CHILD) (Suc 0)" "bit (RB_IS_RED OR RB_IS_LEFT_CHILD) 0"
    "bit RB_IS_RED (Suc 0)" "\<not> bit RB_IS_RED 0"
  by (simp_all add: bit_simps)

lemma emplace_left_raw_ok:
  assumes ok: "tree_ok s t (plug (Node x Nil r c) fs) own hs"
  shows "\<exists>s' t' y. emplace_left_raw s t (Some x) = Some (s', t', y) \<and>
    tree_ok s' t' (emplace_at y ((True, x, r, c) # fs)) (insert y own) hs \<and> y \<notin> own \<and>
    only_links (ids (plug (Node x Nil r c) fs)) y (nodes s) (nodes s')"
proof -
  let ?T = "plug (Node x Nil r c) fs"
  have T: "?T = plug Nil ((True, x, r, c) # fs)" by simp
  obtain s1 y where al: "allocate_node s t (RB_IS_RED OR RB_IS_LEFT_CHILD) = (s1, y)" by force
  note A = allocate_node_ok [OF ok al]
  obtain h1 h2 h3 rt' where h: "update_node (nodes s1) (Some x) (left_update (\<lambda>_. Some y)) = Some h1"
    "update_node h1 (Some y) (parent_update (\<lambda>_. Some x)) = Some h2"
    "do { x_red \<leftarrow> is_red_no_check h2 (Some x);
         (if x_red then insert_rebalance h2 (tree_root t) (Some x) True else Some (h2, tree_root t)) } = Some (h3, rt')"
    "tree_ok (s1\<lparr>nodes := h3\<rparr>) (t\<lparr>tree_root := rt'\<rparr>) (emplace_at y ((True, x, r, c) # fs)) (insert y own) hs"
    "only_links (ids ?T) y (nodes s) h3"
    using attached_ok [OF ok [unfolded T] al, of left_update] unfolding T by (auto simp: bit_leaf_flags)
  have x: "x \<in> ids ?T" by (simp add: ids_plug)
  have "live (nodes s) x" "left (the (nodes s x)) = None"
    using ok repD(2) [of "nodes s" "tree_root t" "Node x Nil r c" fs] by (auto simp: tree_ok_def)
  then have "get_left (nodes s) (Some x) = Some None" by (simp add: get_left_def node_at_dom)
  then have "emplace_left_raw s t (Some x) = Some (s1\<lparr>nodes := h3\<rparr>, t\<lparr>tree_root := rt'\<rparr>, y)"
    using check_in_tree [OF ok x] h(1-3) al unfolding emplace_left_raw_def
    by (auto elim!: bind_SomeE)
  then show ?thesis using h(4,5) A(2) by auto
qed

lemma emplace_right_raw_ok:
  assumes ok: "tree_ok s t (plug (Node x l Nil c) fs) own hs"
  shows "\<exists>s' t' y. emplace_right_raw s t (Some x) = Some (s', t', y) \<and>
    tree_ok s' t' (emplace_at y ((False, x, l, c) # fs)) (insert y own) hs \<and> y \<notin> own \<and>
    only_links (ids (plug (Node x l Nil c) fs)) y (nodes s) (nodes s')"
proof -
  let ?T = "plug (Node x l Nil c) fs"
  have T: "?T = plug Nil ((False, x, l, c) # fs)" by simp
  obtain s1 y where al: "allocate_node s t RB_IS_RED = (s1, y)" by force
  note A = allocate_node_ok [OF ok al]
  obtain h1 h2 h3 rt' where h: "update_node (nodes s1) (Some x) (right_update (\<lambda>_. Some y)) = Some h1"
    "update_node h1 (Some y) (parent_update (\<lambda>_. Some x)) = Some h2"
    "do { x_red \<leftarrow> is_red_no_check h2 (Some x);
         (if x_red then insert_rebalance h2 (tree_root t) (Some x) False else Some (h2, tree_root t)) } = Some (h3, rt')"
    "tree_ok (s1\<lparr>nodes := h3\<rparr>) (t\<lparr>tree_root := rt'\<rparr>) (emplace_at y ((False, x, l, c) # fs)) (insert y own) hs"
    "only_links (ids ?T) y (nodes s) h3"
    using attached_ok [OF ok [unfolded T] al, of right_update] unfolding T by (auto simp: bit_leaf_flags)
  have x: "x \<in> ids ?T" by (simp add: ids_plug)
  have "live (nodes s) x" "right (the (nodes s x)) = None"
    using ok repD(2) [of "nodes s" "tree_root t" "Node x l Nil c" fs] by (auto simp: tree_ok_def)
  then have "get_right (nodes s) (Some x) = Some None" by (simp add: get_right_def node_at_dom)
  then have "emplace_right_raw s t (Some x) = Some (s1\<lparr>nodes := h3\<rparr>, t\<lparr>tree_root := rt'\<rparr>, y)"
    using check_in_tree [OF ok x] h(1-3) al unfolding emplace_right_raw_def
    by (auto elim!: bind_SomeE)
  then show ?thesis using h(4,5) A(2) by auto
qed

lemma with_handle_ok:
  assumes ok: "tree_ok s t T own hs" and i: "i \<in> own" and len: "length hs < 2 ^ 61"
  shows "\<exists>s'. with_handle s i = Some (s', Some i) \<and> tree_ok s' t T own (Some i # hs) \<and> nodes s' = nodes s"
proof -
  have c: "counted_ok (tagged s, own, hs)" using ok by (simp add: tree_ok_def)
  from create_counted_ref_ok [OF c i len] obtain ts where
    ts: "create_counted_ref (tagged s) (Some i) None = Some (ts, Some i)" "counted_ok (ts, own, Some i # hs)" by blast
  have "map_option tag_id (tags ts j) = map_option tag_id (tags (tagged s) j)" for j
    using ts(1) by (auto simp: create_counted_ref_def counted_clear_def tag_at_def set_word_def elim!: bind_SomeE split: if_splits)
  then have "tree_ok (s\<lparr>tagged := ts\<rparr>) t T own (Some i # hs)"
    using ok ts(2) by (simp add: tree_ok_def)
  then show ?thesis using ts(1) by (simp add: with_handle_def)
qed

lemma construct_value_ok:
  assumes ok: "tree_ok s t T own hs" and y: "live (nodes s) y"
  shows "\<exists>s'. construct_value s y v = Some s' \<and> tree_ok s' t T own hs \<and>
    nodes s' = (nodes s)(y \<mapsto> (the (nodes s y))\<lparr>storage := Some v\<rparr>)"
proof -
  let ?h = "(nodes s)(y \<mapsto> (the (nodes s y))\<lparr>storage := Some v\<rparr>)"
  have "rep ?h (tree_root t) T = rep (nodes s) (tree_root t) T"
    using y by (intro rep_links) (auto simp: live_def links_def)
  then have "tree_ok (s\<lparr>nodes := ?h\<rparr>) t T own hs"
    using ok y by (auto simp: tree_ok_def)
  then show ?thesis using y by (simp add: construct_value_def update_node_dom)
qed

lemma finish_insert:
  assumes ok: "tree_ok s1 t1 T' (insert y own) hs" and len: "length hs < 2 ^ 61" and ol: "only_links S y h (nodes s1)"
  shows "\<exists>s2 s3. with_handle s1 y = Some (s2, Some y) \<and> construct_value s2 y v = Some s3 \<and>
    tree_ok s3 t1 T' (insert y own) (Some y # hs) \<and> storage (the (nodes s3 y)) = Some v \<and>
    (\<forall>j. j \<noteq> y \<longrightarrow> map_option storage (nodes s3 j) = map_option storage (h j)) \<and>
    (\<forall>j. j \<noteq> y \<longrightarrow> j \<notin> S \<longrightarrow> nodes s3 j = h j)"
proof -
  obtain s2 where s2: "with_handle s1 y = Some (s2, Some y)" "tree_ok s2 t1 T' (insert y own) (Some y # hs)"
      "nodes s2 = nodes s1"
    using with_handle_ok [OF ok _ len, of y] by auto
  have "live (nodes s2) y" using ol s2(3) by (simp add: only_links_def)
  from construct_value_ok [OF s2(2) this, of v] obtain s3 where "construct_value s2 y v = Some s3"
      "tree_ok s3 t1 T' (insert y own) (Some y # hs)"
      "nodes s3 = (nodes s2)(y \<mapsto> (the (nodes s2 y))\<lparr>storage := Some v\<rparr>)"
    by blast
  with s2 ol show ?thesis by (auto simp: only_links_def)
qed

lemma in_tree_left:
  assumes "tree_ok s t T own hs" "x \<in> ids T" "left (the (nodes s x)) = None"
  obtains r c fs where "T = plug (Node x Nil r c) fs"
proof -
  obtain l r c fs where T: "T = plug (Node x l r c) fs" using assms(2) by (rule ids_plugE)
  then have "root l = None"
    using assms(1,3) repD(2) [of "nodes s" "tree_root t" "Node x l r c" fs] by (auto simp: tree_ok_def)
  then have "l = Nil" by (cases l) auto
  with T that show thesis by blast
qed

lemma in_tree_right:
  assumes "tree_ok s t T own hs" "x \<in> ids T" "right (the (nodes s x)) = None"
  obtains l c fs where "T = plug (Node x l Nil c) fs"
proof -
  obtain l r c fs where T: "T = plug (Node x l r c) fs" using assms(2) by (rule ids_plugE)
  then have "root r = None"
    using assms(1,3) repD(2) [of "nodes s" "tree_root t" "Node x l r c" fs] by (auto simp: tree_ok_def)
  then have "r = Nil" by (cases r) auto
  with T that show thesis by blast
qed

section \<open>The tree operations are correct\<close>

text \<open>A client that makes a tree, three nodes and then two more, for the examples.\<close>

definition empty_tree :: rbtree where
  "empty_tree = \<lparr>container_id = 0, tree_root = None\<rparr>"

lemma empty_tree_ok: "tree_ok empty_store empty_tree Nil {} []"
  by (simp add: tree_ok_def empty_store_def empty_tree_def counted_ok_def rep_def live_def)

lemma emplace_root_ok:
  assumes ok: "tree_ok s t Nil own hs" and len: "length hs < 2 ^ 61"
  shows "\<exists>s' t' y. emplace_root s t v = Some (s', t', Some y) \<and> y \<notin> own \<and>
    tree_ok s' t' (Node y Nil Nil Black) (insert y own) (Some y # hs) \<and> storage (the (nodes s' y)) = Some v"
proof -
  obtain s1 y where al: "allocate_node s t 0 = (s1, y)" by force
  note A = allocate_node_ok [OF ok al]
  have rt: "tree_root t = None" using ok by (simp add: tree_ok_def rep_def)
  have "tree_ok s1 (t\<lparr>tree_root := Some y\<rparr>) (Node y Nil Nil Black) (insert y own) hs"
    using A ok by (auto simp: tree_ok_def rep_def A(5) new_leaf_def live_def node_red_def node_left_def)
  moreover have "only_links {} y (nodes s) (nodes s1)"
    using A by (auto simp: only_links_def live_def)
  ultimately obtain s2 s3 where "with_handle s1 y = Some (s2, Some y)" "construct_value s2 y v = Some s3"
      "tree_ok s3 (t\<lparr>tree_root := Some y\<rparr>) (Node y Nil Nil Black) (insert y own) (Some y # hs)"
      "storage (the (nodes s3 y)) = Some v"
    using finish_insert [of s1 "t\<lparr>tree_root := Some y\<rparr>" "Node y Nil Nil Black" y own hs "{}" "nodes s" v] len by blast
  then show ?thesis
    using A(2) al rt by (auto simp: emplace_root_def emplace_root_raw_def)
qed

lemma emplace_left_ok:
  assumes ok: "tree_ok s t T own hs" and x: "x \<in> ids T" "left (the (nodes s x)) = None" and len: "length hs < 2 ^ 61"
  shows "\<exists>s' t' T' y xs ys. emplace_left s t (Some x) v = Some (s', t', Some y) \<and> y \<notin> own \<and>
    tree_ok s' t' T' (insert y own) (Some y # hs) \<and>
    inorder T = xs @ x # ys \<and> inorder T' = xs @ y # x # ys \<and>
    storage (the (nodes s' y)) = Some v \<and> (\<forall>j. j \<noteq> y \<longrightarrow> map_option storage (nodes s' j) = map_option storage (nodes s j)) \<and>
    (\<forall>j. j \<noteq> y \<longrightarrow> j \<notin> ids T \<longrightarrow> nodes s' j = nodes s j)"
proof -
  obtain r c fs where T: "T = plug (Node x Nil r c) fs" using in_tree_left [OF ok x] .
  obtain s1 t1 y where s1: "emplace_left_raw s t (Some x) = Some (s1, t1, y)"
      "tree_ok s1 t1 (emplace_at y ((True, x, r, c) # fs)) (insert y own) hs" "y \<notin> own"
      "only_links (ids T) y (nodes s) (nodes s1)"
    using emplace_left_raw_ok [OF ok [unfolded T]] unfolding T by blast
  obtain s2 s3 where s3: "with_handle s1 y = Some (s2, Some y)" "construct_value s2 y v = Some s3"
      "tree_ok s3 t1 (emplace_at y ((True, x, r, c) # fs)) (insert y own) (Some y # hs)" "storage (the (nodes s3 y)) = Some v"
      "\<forall>j. j \<noteq> y \<longrightarrow> map_option storage (nodes s3 j) = map_option storage (nodes s j)"
      "\<forall>j. j \<noteq> y \<longrightarrow> j \<notin> ids T \<longrightarrow> nodes s3 j = nodes s j"
    using finish_insert [OF s1(2) len s1(4)] by blast
  have "rb_ok (plug Nil ((True, x, r, c) # fs))" using ok by (simp add: tree_ok_def T)
  then have "inorder (emplace_at y ((True, x, r, c) # fs)) = keys_before fs @ y # x # (inorder r @ keys_after fs)"
    using emplace_at_ok [of "(True, x, r, c) # fs" y] by simp
  moreover have "inorder T = keys_before fs @ x # (inorder r @ keys_after fs)"
    by (simp add: T inorder_plug)
  moreover have "emplace_left s t (Some x) v = Some (s3, t1, Some y)"
    using s1(1) s3(1,2) by (simp add: emplace_left_def)
  ultimately show ?thesis using s1(3) s3 by blast
qed

lemma emplace_right_ok:
  assumes ok: "tree_ok s t T own hs" and x: "x \<in> ids T" "right (the (nodes s x)) = None" and len: "length hs < 2 ^ 61"
  shows "\<exists>s' t' T' y xs ys. emplace_right s t (Some x) v = Some (s', t', Some y) \<and> y \<notin> own \<and>
    tree_ok s' t' T' (insert y own) (Some y # hs) \<and>
    inorder T = xs @ x # ys \<and> inorder T' = xs @ x # y # ys \<and>
    storage (the (nodes s' y)) = Some v \<and> (\<forall>j. j \<noteq> y \<longrightarrow> map_option storage (nodes s' j) = map_option storage (nodes s j)) \<and>
    (\<forall>j. j \<noteq> y \<longrightarrow> j \<notin> ids T \<longrightarrow> nodes s' j = nodes s j)"
proof -
  obtain l c fs where T: "T = plug (Node x l Nil c) fs" using in_tree_right [OF ok x] .
  obtain s1 t1 y where s1: "emplace_right_raw s t (Some x) = Some (s1, t1, y)"
      "tree_ok s1 t1 (emplace_at y ((False, x, l, c) # fs)) (insert y own) hs" "y \<notin> own"
      "only_links (ids T) y (nodes s) (nodes s1)"
    using emplace_right_raw_ok [OF ok [unfolded T]] unfolding T by blast
  obtain s2 s3 where s3: "with_handle s1 y = Some (s2, Some y)" "construct_value s2 y v = Some s3"
      "tree_ok s3 t1 (emplace_at y ((False, x, l, c) # fs)) (insert y own) (Some y # hs)" "storage (the (nodes s3 y)) = Some v"
      "\<forall>j. j \<noteq> y \<longrightarrow> map_option storage (nodes s3 j) = map_option storage (nodes s j)"
      "\<forall>j. j \<noteq> y \<longrightarrow> j \<notin> ids T \<longrightarrow> nodes s3 j = nodes s j"
    using finish_insert [OF s1(2) len s1(4)] by blast
  have "rb_ok (plug Nil ((False, x, l, c) # fs))" using ok by (simp add: tree_ok_def T)
  then have "inorder (emplace_at y ((False, x, l, c) # fs)) = (keys_before fs @ inorder l) @ x # y # keys_after fs"
    using emplace_at_ok [of "(False, x, l, c) # fs" y] by simp
  moreover have "inorder T = (keys_before fs @ inorder l) @ x # keys_after fs"
    by (simp add: T inorder_plug)
  moreover have "emplace_right s t (Some x) v = Some (s3, t1, Some y)"
    using s1(1) s3(1,2) by (simp add: emplace_right_def)
  ultimately show ?thesis using s1(3) s3 by blast
qed

section \<open>Removal\<close>

lemma bh_plug_cong: "rb_tree_bh t = rb_tree_bh t' \<Longrightarrow> rb_tree_bh (plug t fs) = rb_tree_bh (plug t' fs)"
proof (induction fs arbitrary: t t')
  case (Cons f fs)
  then show ?case by (cases f rule: rb_frame_cases) auto
qed simp

lemma delete_fix_bh:
  "rb_ok (plug s fs) \<Longrightarrow> rb_ok t \<Longrightarrow> rb_tree_bh s = Suc (rb_tree_bh t) \<Longrightarrow> rb_tree_color t = Black \<Longrightarrow>
     rb_tree_bh (plug s fs) = (if falls_off t fs then Suc (rb_tree_bh (delete_fix t fs)) else rb_tree_bh (delete_fix t fs))"
proof (induction fs arbitrary: s t)
  case (Cons f fs)
  obtain t' b where step: "delete_step f t = (t', b)" by force
  have f: "rb_ok (fill_frame f s)" using Cons.prems(1) rb_ok_plug [of "fill_frame f s" fs] by simp
  note ok = delete_step_ok [OF f Cons.prems(2-4) step]
  show ?case
  proof (cases b)
    case True
    with ok show ?thesis using bh_plug_cong [of t' "fill_frame f s" fs] by (simp add: step)
  next
    case False
    with ok show ?thesis using Cons.IH [of "fill_frame f s" t'] Cons.prems(1) by (simp add: step)
  qed
qed simp

lemma splice_out_bh:
  assumes "rb_ok (plug (fill_frame (d, y, Nil, b) p) fs)" "fs \<noteq> []"
  shows "rb_tree_bh (plug (fill_frame (d, y, Nil, b) p) fs) =
    (if splice_falls b p fs then Suc (rb_tree_bh (splice_out b p fs)) else rb_tree_bh (splice_out b p fs))"
proof -
  let ?s = "fill_frame (d, y, Nil, b) p"
  have s: "rb_ok ?s" using assms(1) rb_ok_plug by blast
  consider "b = Red" | "b = Black" "rb_tree_color p = Red" | "b = Black" "rb_tree_color p = Black"
    by (meson rb_color.exhaust)
  then show ?thesis
  proof cases
    case 1
    then have "rb_tree_bh ?s = rb_tree_bh p" using s by (cases d) auto
    then show ?thesis using 1 bh_plug_cong [of ?s p fs] by (simp add: splice_falls_def splice_out_def)
  next
    case 2
    then have "rb_tree_bh ?s = rb_tree_bh (blacken p)" using s by (cases d) (auto elim!: color_RedE)
    then show ?thesis using 2 assms(2) bh_plug_cong [of ?s "blacken p" fs] by (simp add: splice_falls_def splice_out_def)
  next
    case 3
    then have "rb_tree_bh ?s = Suc (rb_tree_bh p)" "rb_ok p" using s by (cases d; auto)+
    with 3 assms show ?thesis
      using delete_fix_bh [of ?s fs p] by (simp add: splice_falls_def splice_out_def)
  qed
qed

text \<open>The loop of \<open>remove_node\<close> leaves the tree at the top exactly when the whole tree gets lower.\<close>

lemma remove_falls_iff:
  assumes "rb_ok (plug (Node x l r c) fs)" "fs \<noteq> [] \<or> l \<noteq> Nil \<and> r \<noteq> Nil"
  shows "rb_tree_bh (plug (Node x l r c) fs) =
    (if remove_falls l r c fs then Suc (rb_tree_bh (remove_at l r c fs)) else rb_tree_bh (remove_at l r c fs))"
proof (cases "l = Nil \<or> r = Nil")
  case True
  have eqs: "remove_at l r c fs = splice_out c (if l = Nil then r else l) fs"
    "remove_falls l r c fs = splice_falls c (if l = Nil then r else l) fs"
    "Node x l r c = fill_frame (l \<noteq> Nil, x, Nil, c) (if l = Nil then r else l)"
    using True by (auto simp: remove_at_def remove_falls_def)
  have "fs \<noteq> []" using assms(2) True by blast
  from splice_out_bh [OF assms(1) [unfolded eqs(3)] this] show ?thesis
    unfolding eqs .
next
  case False
  then obtain y yr b gs where gs: "descend_left r [] = Some (y, yr, b, gs)" "plug (Node y Nil yr b) gs = r"
    using descend_left_plug [of r "[]"] by auto
  let ?fs = "gs @ (False, y, l, c) # fs"
  have "rb_ok (plug (Node y l r c) fs)"
    using rb_ok_plug_replace [OF assms(1), of "Node y l r c"] rb_ok_plug [OF assms(1)] by simp
  then have "rb_ok (plug (fill_frame (False, y, Nil, b) yr) ?fs)" by (simp add: plug_append gs)
  from splice_out_bh [OF this] show ?thesis
    using False bh_plug_cong [of "Node x l r c" "Node y l r c" fs]
    by (simp add: plug_append gs remove_at_def remove_falls_def)
qed

lemma remove_node_tree:
  assumes ok: "tree_ok s t (plug (Node x l r c) fs) own hs"
  shows "if remove_falls l r c fs then remove_and_release s t (Some x) = None
    else \<exists>s' t'. remove_and_release s t (Some x) = Some (s', t') \<and> tree_ok s' t' (remove_at l r c fs) (own - {x}) hs \<and>
      nodes s' x = None \<and> (\<forall>j. j \<noteq> x \<longrightarrow> map_option storage (nodes s' j) = map_option storage (nodes s j)) \<and>
      (\<forall>j. j \<notin> ids (plug (Node x l r c) fs) \<longrightarrow> nodes s' j = nodes s j)"
proof -
  let ?T = "plug (Node x l r c) fs"
  have T: "counted_ok (tagged s, own, hs)" "rep (nodes s) (tree_root t) ?T" "rb_ok ?T" "ids ?T \<subseteq> own"
      "\<And>i. live (nodes s) i \<Longrightarrow> i \<in> own"
      "\<And>i. i \<in> ids ?T \<Longrightarrow> map_option tag_id (tags (tagged s) i) = Some (container_id t)"
    using ok by (auto simp: tree_ok_def)
  have idsT: "ids ?T = insert x (ids l \<union> ids r \<union> frame_ids fs)" by (simp add: ids_plug)
  have x: "x \<notin> ids l" "x \<notin> ids r" "x \<notin> frame_ids fs" using repD(5) [OF T(2)] by (auto simp: separate_def ids_inorder)
  obtain ts where ts: "tagged_deallocate (tagged s) (Some x) = Some ts" "counted_ok (ts, own - {x}, hs)"
    using tagged_deallocate_ok [OF T(1), of x] T(4) idsT by auto
  have tsid: "map_option tag_id (tags ts j) = map_option tag_id (tags (tagged s) j)" if "j \<noteq> x" for j
    using ts(1) that counted_okD(4) [OF T(1), of x] counted_okD(2) [OF T(1), of x] T(4) idsT count_word_tests(1)
    by (auto simp: tagged_deallocate_def tag_at_def set_word_def free_block_def elim!: bind_SomeE split: if_splits)
  note R = remove_node_ok [OF T(2,3)]
  show ?thesis
  proof (cases "remove_falls l r c fs")
    case True
    with R ts(1) show ?thesis by (simp add: remove_and_release_def)
  next
    case False
    let ?S = "ids l \<union> ids r \<union> frame_ids fs"
    obtain h' rt' where h': "remove_node (nodes s) (tree_root t) (Some x) = Some (h', rt')" "rep h' rt' (remove_at l r c fs)"
        "frame ?S ((nodes s)(x := None)) h'"
      using R False by auto
    note fin = remove_at_ok [OF T(3)]
    have ids': "ids (remove_at l r c fs) = ?S"
      using fin by (auto simp: ids_inorder frame_ids_keys)
    have x': "h' x = None" using frame_eq [OF h'(3), of x] x by simp
    have st: "map_option storage (h' j) = map_option storage (nodes s j)" if "j \<noteq> x" for j
      using frame_storage [OF h'(3), of j] that by simp
    have "tree_ok \<lparr>tagged = ts, nodes = h'\<rparr> (t\<lparr>tree_root := rt'\<rparr>) (remove_at l r c fs) (own - {x}) hs"
      unfolding tree_ok_def
    proof (intro conjI ballI allI impI)
      fix i assume "i \<in> ids (remove_at l r c fs)"
      then have "i \<in> ids ?T" "i \<noteq> x" using ids' idsT x by auto
      then show "map_option tag_id (tags (tagged \<lparr>tagged = ts, nodes = h'\<rparr>) i) = Some (container_id (t\<lparr>tree_root := rt'\<rparr>))"
        using T(6) tsid by simp
    next
      fix i assume "live (nodes \<lparr>tagged = ts, nodes = h'\<rparr>) i"
      then have "live h' i" by simp
      then show "i \<in> own - {x}"
        using frame_live [OF h'(3), of i] T(5) [of i] x' by (auto simp: live_def split: if_splits)
    qed (use ts(2) h'(2) fin ids' T(4) idsT x in auto)
    moreover have "remove_and_release s t (Some x) = Some (\<lparr>tagged = ts, nodes = h'\<rparr>, t\<lparr>tree_root := rt'\<rparr>)"
      using ts(1) h'(1) by (simp add: remove_and_release_def)
    moreover have "h' j = nodes s j" if "j \<notin> ids ?T" for j
      using that frame_eq [OF h'(3), of j] idsT by auto
    ultimately show ?thesis
      using False x' st by (intro if_not_P [THEN iffD2]) auto
  qed
qed

end
