(* ===== verification/RbClear.thy ===== *)
theory RbClear
  imports RbTree
begin

text \<open>\<open>clear_subtree\<close> and \<open>clear\<close>: every node of the tree is destroyed, children
  first, and no other node is touched.\<close>

definition drop_nodes :: "'a rb_heap \<Rightarrow> nat set \<Rightarrow> 'a rb_heap" where
  "drop_nodes h S = (\<lambda>j. if j \<in> S then None else h j)"

definition has_values :: "'a rb_heap \<Rightarrow> nat set \<Rightarrow> bool" where
  "has_values h S \<longleftrightarrow> (\<forall>j \<in> S. storage (the (h j)) \<noteq> None)"

lemma loop_descend:
  "descend_leaf (nodes s) cur = descend_leaf (nodes s) cur' \<Longrightarrow> clear_subtree_loop s sub cur = clear_subtree_loop s sub cur'"
  by (subst (1 2) clear_subtree_loop.simps) simp

lemma descend_left: "live h i \<Longrightarrow> left (the (h i)) = Some k \<Longrightarrow> descend_leaf h (Some i) = descend_leaf h (Some k)"
  by (subst descend_leaf.simps) (simp add: get_left_def node_at_dom)

lemma descend_right:
  "live h i \<Longrightarrow> left (the (h i)) = None \<Longrightarrow> right (the (h i)) = Some k \<Longrightarrow> descend_leaf h (Some i) = descend_leaf h (Some k)"
  by (subst descend_leaf.simps) (simp add: get_left_def get_right_def node_at_dom)

lemma descend_here:
  "live h i \<Longrightarrow> left (the (h i)) = None \<Longrightarrow> right (the (h i)) = None \<Longrightarrow> descend_leaf h (Some i) = Some (Some i)"
  by (subst descend_leaf.simps) (simp add: get_left_def get_right_def node_at_dom)

definition unhook :: "bool \<Rightarrow> 'a rb_node \<Rightarrow> 'a rb_node" where
  "unhook d n = (if d then n\<lparr>left := None\<rparr> else n\<lparr>right := None\<rparr>)"

text \<open>The loop, started at the root of \<open>t\<close>, comes back to it with its children gone.\<close>

definition can_clear :: "'a rb_heap \<Rightarrow> nat rb_tree \<Rightarrow> tag_store \<Rightarrow> nat set \<Rightarrow> ptr list \<Rightarrow> bool" where
  "can_clear h t ts own hs \<longleftrightarrow>
     shape h t \<and> distinct (inorder t) \<and> has_values h (ids t) \<and> counted_ok (ts, own, hs) \<and> ids t \<subseteq> own"

fun stripped :: "'a rb_heap \<Rightarrow> nat rb_tree \<Rightarrow> 'a rb_heap" where
  "stripped h Nil = h"
| "stripped h (Node i l r c) =
     (drop_nodes h (ids l \<union> ids r))(i \<mapsto> (the (h i))\<lparr>left := None, right := None\<rparr>)"

definition strips :: "nat \<Rightarrow> ptr list \<Rightarrow> nat rb_tree \<Rightarrow> 'a itself \<Rightarrow> bool" where
  "strips k hs t TY \<longleftrightarrow> (\<forall>(h :: 'a rb_heap) ts own i l r c. t = Node i l r c \<longrightarrow> k \<notin> ids l \<union> ids r \<longrightarrow> can_clear h t ts own hs \<longrightarrow>
     (\<exists>ts'. clear_subtree_loop \<lparr>tagged = ts, nodes = h\<rparr> (Some k) (Some i) =
         clear_subtree_loop \<lparr>tagged = ts', nodes = stripped h t\<rparr> (Some k) (Some i) \<and>
       counted_ok (ts', own - (ids l \<union> ids r), hs)))"

lemma stripsD:
  fixes h :: "'a rb_heap"
  assumes "strips k hs t TYPE('a)" "t = Node i l r c" "k \<notin> ids l \<union> ids r" "can_clear h t ts own hs"
  shows "\<exists>ts'. clear_subtree_loop \<lparr>tagged = ts, nodes = h\<rparr> (Some k) (Some i) =
      clear_subtree_loop \<lparr>tagged = ts', nodes = stripped h t\<rparr> (Some k) (Some i) \<and>
    counted_ok (ts', own - (ids l \<union> ids r), hs)"
  using assms unfolding strips_def by blast

lemma clear_child:
  fixes h :: "'a rb_heap"
  assumes st: "strips k hs t TYPE('a)" and ok: "can_clear h t ts own hs"
    and p: "linked h t p d" "live h p" "p \<notin> ids t" and k: "k \<notin> ids t" and t: "t \<noteq> Nil"
  shows "\<exists>ts'. clear_subtree_loop \<lparr>tagged = ts, nodes = h\<rparr> (Some k) (root t) =
      clear_subtree_loop \<lparr>tagged = ts', nodes = (drop_nodes h (ids t))(p \<mapsto> unhook d (the (h p)))\<rparr> (Some k) (Some p) \<and>
    counted_ok (ts', own - ids t, hs)"
proof -
  obtain i l r c where tn: "t = Node i l r c" using t by (cases t) auto
  define h2 where "h2 = stripped h t"
  obtain ts2 where ts2: "clear_subtree_loop \<lparr>tagged = ts, nodes = h\<rparr> (Some k) (Some i) =
      clear_subtree_loop \<lparr>tagged = ts2, nodes = h2\<rparr> (Some k) (Some i)" "counted_ok (ts2, own - (ids l \<union> ids r), hs)"
    using stripsD [OF st tn _ ok] k unfolding h2_def by (auto simp: tn)
  have n: "parent (the (h i)) = Some p" "node_left (the (h i)) = d" "storage (the (h i)) \<noteq> None" "i \<noteq> p" "i \<noteq> k"
    using p k ok by (auto simp: tn can_clear_def has_values_def)
  have D: "i \<notin> ids l" "i \<notin> ids r" "p \<notin> ids l" "p \<notin> ids r" "ids t \<subseteq> own" using ok p by (auto simp: tn can_clear_def ids_inorder)
  have h2: "h2 i = Some ((the (h i))\<lparr>left := None, right := None\<rparr>)" "h2 p = h p" "live h2 p"
    using n D p by (auto simp: h2_def tn drop_nodes_def live_def)
  obtain ts3 where ts3: "tagged_deallocate ts2 (Some i) = Some ts3" "counted_ok (ts3, own - (ids l \<union> ids r) - {i}, hs)"
    using tagged_deallocate_ok [OF ts2(2), of i] D by (auto simp: tn)
  have "clear_subtree_loop \<lparr>tagged = ts2, nodes = h2\<rparr> (Some k) (Some i) =
      clear_subtree_loop \<lparr>tagged = ts3, nodes = (h2(p \<mapsto> unhook d (the (h p))))(i := None)\<rparr> (Some k) (Some p)"
    using h2 ts3(1) n
    by (subst clear_subtree_loop.simps)
      (auto simp: descend_here live_def node_at_def update_node_dom unhook_def node_left_def)
  moreover have "(h2(p \<mapsto> unhook d (the (h p))))(i := None) = (drop_nodes h (ids t))(p \<mapsto> unhook d (the (h p)))"
    using n by (auto simp: h2_def tn drop_nodes_def fun_eq_iff)
  moreover have "own - (ids l \<union> ids r) - {i} = own - ids t" by (auto simp: tn)
  ultimately show ?thesis
    using ts2(1) ts3(2) by (metis root.simps(2) tn)
qed

text \<open>One child: nothing to do, or down to it and back.\<close>

lemma clear_side:
  fixes h :: "'a rb_heap"
  assumes st: "strips k hs t TYPE('a)" and ok: "can_clear h t ts own hs"
    and i: "live h i" "i \<notin> ids t" "linked h t i d" "if d then left (the (h i)) = root t
      else left (the (h i)) = None \<and> right (the (h i)) = root t" and k: "k \<notin> ids t"
  shows "\<exists>ts'. clear_subtree_loop \<lparr>tagged = ts, nodes = h\<rparr> (Some k) (Some i) =
      clear_subtree_loop \<lparr>tagged = ts', nodes = (drop_nodes h (ids t))(i \<mapsto> unhook d (the (h i)))\<rparr> (Some k) (Some i) \<and>
    counted_ok (ts', own - ids t, hs)"
proof (cases t)
  case Nil
  have "unhook d (the (h i)) = the (h i)" using i(4) Nil by (cases d) (simp_all add: unhook_def)
  then have "(drop_nodes h (ids t))(i \<mapsto> unhook d (the (h i))) = h"
    using i(1) Nil by (auto simp: drop_nodes_def live_def fun_eq_iff)
  then show ?thesis using ok Nil by (auto simp: can_clear_def)
next
  case (Node j a b c)
  then have "descend_leaf h (Some i) = descend_leaf h (root t)"
    using i by (auto simp: descend_left descend_right split: if_splits)
  then have "clear_subtree_loop \<lparr>tagged = ts, nodes = h\<rparr> (Some k) (Some i) =
      clear_subtree_loop \<lparr>tagged = ts, nodes = h\<rparr> (Some k) (root t)"
    by (intro loop_descend) simp
  then show ?thesis
    using clear_child [OF st ok i(3,1,2) k] Node by auto
qed

lemma strips_all: "strips k hs t TYPE('a)"
proof (induction t)
  case (Node i l r c)
  show ?case
    unfolding strips_def
  proof (intro allI impI)
    fix h :: "'a rb_heap" and ts own i' l' r' c'
    assume eq: "Node i l r c = Node i' l' r' c'" and k: "k \<notin> ids l' \<union> ids r'" and ok: "can_clear h (Node i l r c) ts own hs"
    have D: "i \<notin> ids l" "i \<notin> ids r" "ids l \<inter> ids r = {}" using ok by (auto simp: can_clear_def ids_inorder)
    have okl: "can_clear h l ts own hs" using ok by (auto simp: can_clear_def has_values_def)
    have i: "live h i" "linked h l i True" "linked h r i False" "left (the (h i)) = root l" "right (the (h i)) = root r"
      using ok by (auto simp: can_clear_def)
    define h1 where "h1 = (drop_nodes h (ids l))(i \<mapsto> unhook True (the (h i)))"
    obtain ts1 where ts1: "clear_subtree_loop \<lparr>tagged = ts, nodes = h\<rparr> (Some k) (Some i) =
        clear_subtree_loop \<lparr>tagged = ts1, nodes = h1\<rparr> (Some k) (Some i)" "counted_ok (ts1, own - ids l, hs)"
      using clear_side [OF Node.IH(1) okl i(1) D(1) i(2)] i(4) k eq unfolding h1_def by auto
    have h1r: "h1 j = h j" if "j \<in> ids r" for j
      using that D by (auto simp: h1_def drop_nodes_def)
    have "can_clear h1 r ts1 (own - ids l) hs"
      using ok D ts1(2) shape_cong [of r h1 h] h1r by (auto simp: can_clear_def has_values_def)
    moreover have "linked h1 r i False" using i(3) linked_cong [of r h1 h] h1r by simp
    moreover have "live h1 i" "left (the (h1 i)) = None" "right (the (h1 i)) = root r"
      using i by (simp_all add: h1_def unhook_def)
    ultimately obtain ts2 where ts2: "clear_subtree_loop \<lparr>tagged = ts1, nodes = h1\<rparr> (Some k) (Some i) =
        clear_subtree_loop \<lparr>tagged = ts2, nodes = (drop_nodes h1 (ids r))(i \<mapsto> unhook False (the (h1 i)))\<rparr> (Some k) (Some i)"
      "counted_ok (ts2, own - ids l - ids r, hs)"
      using clear_side [OF Node.IH(2), of h1 ts1 "own - ids l" i False] D k eq by auto
    have "(drop_nodes h1 (ids r))(i \<mapsto> unhook False (the (h1 i))) = stripped h (Node i l r c)"
      using D by (auto simp: h1_def drop_nodes_def unhook_def fun_eq_iff)
    then show "\<exists>ts'. clear_subtree_loop \<lparr>tagged = ts, nodes = h\<rparr> (Some k) (Some i') =
         clear_subtree_loop \<lparr>tagged = ts', nodes = stripped h (Node i l r c)\<rparr> (Some k) (Some i') \<and>
       counted_ok (ts', own - (ids l' \<union> ids r'), hs)"
      using ts1(1) ts2 eq by (auto simp: Diff_Un Diff_eq Int_assoc intro!: exI [of _ ts2])
  qed
qed (simp add: strips_def)

lemma clear_subtree_ok:
  assumes ok: "can_clear h t ts own hs" and t: "t \<noteq> Nil"
  shows "\<exists>ts'. clear_subtree \<lparr>tagged = ts, nodes = h\<rparr> (root t) = Some \<lparr>tagged = ts', nodes = drop_nodes h (ids t)\<rparr> \<and>
    counted_ok (ts', own - ids t, hs)"
proof -
  obtain i l r c where tn: "t = Node i l r c" using t by (cases t) auto
  have D: "i \<notin> ids l" "i \<notin> ids r" "ids t \<subseteq> own" using ok by (auto simp: tn can_clear_def ids_inorder)
  obtain ts2 where ts2: "clear_subtree_loop \<lparr>tagged = ts, nodes = h\<rparr> (Some i) (Some i) =
      clear_subtree_loop \<lparr>tagged = ts2, nodes = stripped h t\<rparr> (Some i) (Some i)" "counted_ok (ts2, own - (ids l \<union> ids r), hs)"
    using stripsD [OF strips_all tn _ ok, of i] D by auto
  obtain ts3 where ts3: "tagged_deallocate ts2 (Some i) = Some ts3" "counted_ok (ts3, own - (ids l \<union> ids r) - {i}, hs)"
    using tagged_deallocate_ok [OF ts2(2), of i] D by (auto simp: tn)
  have "storage (the (h i)) \<noteq> None" using ok by (simp add: tn can_clear_def has_values_def)
  then have "clear_subtree_loop \<lparr>tagged = ts2, nodes = stripped h t\<rparr> (Some i) (Some i) =
      Some \<lparr>tagged = ts3, nodes = (stripped h t)(i := None)\<rparr>"
    using ts3(1) by (subst clear_subtree_loop.simps) (auto simp: descend_here live_def node_at_def tn)
  moreover have "(stripped h t)(i := None) = drop_nodes h (ids t)" by (auto simp: tn drop_nodes_def fun_eq_iff)
  moreover have "own - (ids l \<union> ids r) - {i} = own - ids t" by (auto simp: tn)
  ultimately show ?thesis
    using ts2(1) ts3(2) by (simp add: clear_subtree_def tn)
qed

end
