(* ===== verification/RbProps.thy ===== *)
theory RbProps
  imports RbClear
begin

text \<open>The properties of the red-black tree, from the specification through the heap
  functions to the operations of \<open>class rbtree\<close>.\<close>

section \<open>Examples\<close>

text \<open>A root with two red children, each with a handle.\<close>

definition demo_shape :: "nat rb_tree" where
  "demo_shape = Node 0 (Node 1 Nil Nil Red) (Node 2 Nil Nil Red) Black"

definition demo_nodes :: "nat rb_heap" where
  "demo_nodes =
     [0 \<mapsto> \<lparr>left = Some 1, right = Some 2, parent = None, flags = 0, storage = Some 20\<rparr>,
      1 \<mapsto> \<lparr>left = None, right = None, parent = Some 0, flags = 3, storage = Some 10\<rparr>,
      2 \<mapsto> \<lparr>left = None, right = None, parent = Some 0, flags = 2, storage = Some 30\<rparr>]"

definition demo_tags :: tag_store where
  "demo_tags = \<lparr>tags = (\<lambda>i. if i < 3 then Some \<lparr>tag_id = 7, tag_word = COUNTER_MODE + 1\<rparr> else None),
     next_block = 3, lrefs = Map.empty\<rparr>"

definition demo :: "nat rb_store" where
  "demo = \<lparr>tagged = demo_tags, nodes = demo_nodes\<rparr>"

definition demo_tree :: rbtree where
  "demo_tree = \<lparr>container_id = 7, tree_root = Some 0\<rparr>"

lemma demo_rep: "rep demo_nodes (Some 0) demo_shape"
  by (simp add: rep_def demo_shape_def demo_nodes_def live_def node_red_def node_left_def bit_simps)

lemma demo_counted: "counted_ok (demo_tags, {0, 1, 2}, [Some 0, Some 1, Some 2])"
proof -
  have "i < 3 \<longleftrightarrow> i = 0 \<or> i = 1 \<or> i = 2" for i :: nat by auto
  then show ?thesis
    by (auto simp: counted_ok_def demo_tags_def count_word_def)
qed

lemma demo_ok: "tree_ok demo demo_tree demo_shape {0, 1, 2} [Some 0, Some 1, Some 2]"
  unfolding tree_ok_def
proof (intro conjI)
  show "rep (nodes demo) (tree_root demo_tree) demo_shape" using demo_rep by (simp add: demo_def demo_tree_def)
  show "counted_ok (tagged demo, {0, 1, 2}, [Some 0, Some 1, Some 2])" using demo_counted by (simp add: demo_def)
qed (auto simp: demo_shape_def demo_def demo_nodes_def demo_tags_def demo_tree_def live_def split: if_splits)

lemma demo_plug: "demo_shape = plug (Node 1 Nil Nil Red) [(True, 0, Node 2 Nil Nil Red, Black)]"
  by (simp add: demo_shape_def)

section \<open>The specification\<close>

text \<open>C1: the four rebalancing functions meet the claims made for them: given a
  valid old tree, a valid new subtree in the expected relation to the old one and
  the flag that compares the black heights, the result is valid, has the in-order
  sequence put together from its parts, stays in the relation and reports its own
  black height.\<close>

theorem rb_rebalance_correct:
  assumes "rb_ok (Node x l r c)" "rb_ok l'" "rb_ok r'"
  shows "(rb_insert_rel l l' \<longrightarrow> rb_insert_rebalance_left x l' r c (rb_tree_bh l' = rb_tree_bh l) = (t, b) \<longrightarrow>
      rb_ok t \<and> rb_insert_rel (Node x l r c) t \<and> b = (rb_tree_bh t = rb_tree_bh (Node x l r c)) \<and>
      inorder t = inorder l' @ x # inorder r) \<and>
    (rb_insert_rel r r' \<longrightarrow> rb_insert_rebalance_right x l r' c (rb_tree_bh r' = rb_tree_bh r) = (t, b) \<longrightarrow>
      rb_ok t \<and> rb_insert_rel (Node x l r c) t \<and> b = (rb_tree_bh t = rb_tree_bh (Node x l r c)) \<and>
      inorder t = inorder l @ x # inorder r') \<and>
    (rb_delete_rel l l' \<longrightarrow> rb_delete_rebalance_left x l' r c (rb_tree_bh l' = rb_tree_bh l) = (t, b) \<longrightarrow>
      rb_ok t \<and> rb_delete_rel (Node x l r c) t \<and> b = (rb_tree_bh t = rb_tree_bh (Node x l r c)) \<and>
      inorder t = inorder l' @ x # inorder r) \<and>
    (rb_delete_rel r r' \<longrightarrow> rb_delete_rebalance_right x l r' c (rb_tree_bh r' = rb_tree_bh r) = (t, b) \<longrightarrow>
      rb_ok t \<and> rb_delete_rel (Node x l r c) t \<and> b = (rb_tree_bh t = rb_tree_bh (Node x l r c)) \<and>
      inorder t = inorder l @ x # inorder r')"
  using rb_insert_rebalance_left_ok [OF assms(1,2)] rb_insert_rebalance_right_ok [OF assms(1,3)]
    rb_delete_rebalance_left_ok [OF assms(1,2)] rb_delete_rebalance_right_ok [OF assms(1,3)] by blast

theorem rb_rebalance_correct_witness:
  "rb_delete_rebalance_left (1 :: nat) Nil (Node 2 Nil (Node 3 Nil Nil Red) Black) Black False =
     (Node 2 (Node 1 Nil Nil Black) (Node 3 Nil Nil Black) Black, True) \<and>
   rb_ok (Node 2 (Node (1 :: nat) Nil Nil Black) (Node 3 Nil Nil Black) Black)"
  using rb_rebalance_correct [of "1 :: nat" "Node 0 Nil Nil Black" "Node 2 Nil (Node 3 Nil Nil Red) Black" Black Nil Nil
      "Node 2 (Node 1 Nil Nil Black) (Node 3 Nil Nil Black) Black" True]
  by (simp add: rb_delete_rel_def rb_delete_rebalance_left_def)

text \<open>\<open>delete_root\<close> takes exactly the root out of the in-order sequence of a valid
  tree, keeps it valid, and its flag says whether the black height stayed.\<close>

theorem delete_root_correct:
  assumes "rb_ok (Node x l r c)" "delete_root (Node x l r c) = (t, b)"
  shows "rb_ok t \<and> b = (rb_tree_bh t = rb_tree_bh (Node x l r c)) \<and> inorder t = inorder l @ inorder r"
  using delete_root_ok [OF assms] by simp

theorem delete_root_correct_witness:
  "delete_root demo_shape = (Node 2 (Node 1 Nil Nil Red) Nil Black, True) \<and>
   rb_ok (Node 2 (Node (1 :: nat) Nil Nil Red) Nil Black)"
  using delete_root_correct [of 0 "Node 1 Nil Nil Red" "Node 2 Nil Nil Red" Black "Node 2 (Node 1 Nil Nil Red) Nil Black" True]
  by (simp add: demo_shape_def rb_delete_rebalance_right_def)

text \<open>A valid tree with \<open>n\<close> nodes is at most about \<open>2 log n\<close> high.\<close>

theorem rb_height_bound:
  assumes "rb_ok t"
  shows "2 ^ (height t div 2) \<le> length (inorder t) + 1"
proof -
  have "height t div 2 \<le> rb_tree_bh t" using height_le_bh [OF assms] by (auto split: if_splits)
  then have "(2 :: nat) ^ (height t div 2) \<le> 2 ^ rb_tree_bh t" by simp
  with bh_le_size [OF assms] show ?thesis by linarith
qed

theorem rb_height_bound_witness: "2 ^ (height demo_shape div 2) \<le> length (inorder demo_shape) + 1"
  by (rule rb_height_bound) (simp add: demo_shape_def)

section \<open>The heap functions\<close>

text \<open>C2: \<open>do_rb_insert_rebalance_left\<close> and \<open>do_rb_insert_rebalance_right\<close>, under the
  assumptions their comment states, turn the nodes of a tree into those of the
  specified tree, return its root and the documented bits, and touch no other node
  and no value.\<close>

theorem do_rb_insert_rebalance_correct:
  assumes "shape h (Node x l r c)" "distinct (inorder (Node x l r c))" "c = Red \<longrightarrow> eq"
  shows "((eq \<or> one_red_child l) \<longrightarrow> rb_insert_rebalance_left x l r c eq = (t, b) \<longrightarrow>
      (\<exists>h'. do_rb_insert_rebalance_left h (Some x) eq = Some (h', root t, insert_bits c t b) \<and>
        shape h' t \<and> frame (ids (Node x l r c)) h h')) \<and>
    ((eq \<or> one_red_child r) \<longrightarrow> rb_insert_rebalance_right x l r c eq = (t, b) \<longrightarrow>
      (\<exists>h'. do_rb_insert_rebalance_right h (Some x) eq = Some (h', root t, insert_bits c t b) \<and>
        shape h' t \<and> frame (ids (Node x l r c)) h h'))"
  using do_insert_left_ok [OF assms(1,2)] do_insert_right_ok [OF assms(1,2)] assms(3) by blast

theorem do_rb_insert_rebalance_correct_witness:
  "\<exists>h'. do_rb_insert_rebalance_left demo_nodes (Some 0) True = Some (h', Some 0, 3) \<and> shape h' demo_shape"
  using do_rb_insert_rebalance_correct [of demo_nodes 0 "Node 1 Nil Nil Red" "Node 2 Nil Nil Red" Black True
      demo_shape True] demo_rep
  by (auto simp: rep_def demo_shape_def rb_insert_rebalance_left_def insert_bits_def)

text \<open>C3: \<open>do_rb_delete_rebalance_left\<close> and \<open>do_rb_delete_rebalance_right\<close>, called with a
  black child that has become one black node lower than its sibling, turn the nodes
  into those of the tree specified for \<open>is_bh_equal = false\<close>.\<close>

theorem do_rb_delete_rebalance_correct:
  assumes "shape h (Node x l r c)" "distinct (inorder (Node x l r c))"
  shows "(rb_tree_color l = Black \<and> rb_ok r \<and> 0 < rb_tree_bh r \<and> (c = Red \<longrightarrow> rb_tree_color r = Black) \<longrightarrow>
      rb_delete_rebalance_left x l r c False = (t, b) \<longrightarrow>
      (\<exists>h'. do_rb_delete_rebalance_left h (Some x) = Some (h', root t, of_bool b) \<and>
        shape h' t \<and> frame (ids (Node x l r c)) h h')) \<and>
    (rb_tree_color r = Black \<and> rb_ok l \<and> 0 < rb_tree_bh l \<and> (c = Red \<longrightarrow> rb_tree_color l = Black) \<longrightarrow>
      rb_delete_rebalance_right x l r c False = (t, b) \<longrightarrow>
      (\<exists>h'. do_rb_delete_rebalance_right h (Some x) = Some (h', root t, of_bool b) \<and>
        shape h' t \<and> frame (ids (Node x l r c)) h h'))"
  using do_delete_left_ok [OF assms] do_delete_right_ok [OF assms] by blast

text \<open>A black root whose left child has just gone.\<close>

definition low_nodes :: "nat rb_heap" where
  "low_nodes =
     [0 \<mapsto> \<lparr>left = None, right = Some 2, parent = None, flags = 0, storage = Some 20\<rparr>,
      2 \<mapsto> \<lparr>left = None, right = Some 3, parent = Some 0, flags = 0, storage = Some 30\<rparr>,
      3 \<mapsto> \<lparr>left = None, right = None, parent = Some 2, flags = 2, storage = Some 40\<rparr>]"

theorem do_rb_delete_rebalance_correct_witness:
  "\<exists>h'. do_rb_delete_rebalance_left low_nodes (Some 0) = Some (h', Some 2, 1) \<and>
     shape h' (Node 2 (Node 0 Nil Nil Black) (Node 3 Nil Nil Black) Black)"
proof -
  have "shape low_nodes (Node 0 Nil (Node 2 Nil (Node 3 Nil Nil Red) Black) Black)"
    by (simp add: low_nodes_def live_def node_red_def node_left_def bit_simps)
  from do_rb_delete_rebalance_correct [OF this, of "Node 2 (Node 0 Nil Nil Black) (Node 3 Nil Nil Black) Black" True]
  show ?thesis by (auto simp del: shape.simps simp: rb_delete_rebalance_left_def)
qed

section \<open>The operations of the tree\<close>

text \<open>C4: \<open>emplace_left\<close> under a node of the tree without a left child always
  succeeds, puts a new node with the value directly before that node in the in-order
  sequence, keeps the tree valid and its handles counted, and leaves every other
  value alone.\<close>

theorem emplace_left_correct:
  assumes "tree_ok s t T own hs" "x \<in> ids T" "left (the (nodes s x)) = None" "length hs < 2 ^ 61"
  shows "\<exists>s' t' T' y xs ys. emplace_left s t (Some x) v = Some (s', t', Some y) \<and> y \<notin> own \<and>
    tree_ok s' t' T' (insert y own) (Some y # hs) \<and>
    inorder T = xs @ x # ys \<and> inorder T' = xs @ y # x # ys \<and>
    storage (the (nodes s' y)) = Some v \<and> (\<forall>j. j \<noteq> y \<longrightarrow> map_option storage (nodes s' j) = map_option storage (nodes s j))"
  using emplace_left_ok [OF assms] by blast

theorem emplace_left_correct_witness:
  "\<exists>s' t' T'. emplace_left demo demo_tree (Some 1) 5 = Some (s', t', Some 3) \<and>
    tree_ok s' t' T' {0, 1, 2, 3} [Some 3, Some 0, Some 1, Some 2] \<and> inorder T' = [3, 1, 0, 2]"
proof -
  have pre: "1 \<in> ids demo_shape" "left (the (nodes demo 1)) = None" "length [Some 0, Some 1, Some (2 :: nat)] < 2 ^ 61"
    by (simp_all add: demo_shape_def demo_def demo_nodes_def)
  obtain s' t' T' y xs ys where E: "emplace_left demo demo_tree (Some 1) 5 = Some (s', t', Some y)" "y \<notin> {0, 1, 2}"
      "tree_ok s' t' T' (insert y {0, 1, 2}) [Some y, Some 0, Some 1, Some 2]"
      "inorder demo_shape = xs @ 1 # ys" "inorder T' = xs @ y # 1 # ys"
    using emplace_left_correct [OF demo_ok pre, of 5] by blast
  have "xs = []" "ys = [0, 2]" using E(4) by (auto simp: demo_shape_def Cons_eq_append_conv)
  moreover have "case_option False (\<lambda>(s, t, h). h = Some 3) (emplace_left demo demo_tree (Some 1) 5)" by code_simp
  ultimately show ?thesis using E by (auto simp: insert_commute)
qed

text \<open>\<open>emplace_right\<close> puts the new node directly after the given one.\<close>

theorem emplace_right_correct:
  assumes "tree_ok s t T own hs" "x \<in> ids T" "right (the (nodes s x)) = None" "length hs < 2 ^ 61"
  shows "\<exists>s' t' T' y xs ys. emplace_right s t (Some x) v = Some (s', t', Some y) \<and> y \<notin> own \<and>
    tree_ok s' t' T' (insert y own) (Some y # hs) \<and>
    inorder T = xs @ x # ys \<and> inorder T' = xs @ x # y # ys \<and>
    storage (the (nodes s' y)) = Some v \<and> (\<forall>j. j \<noteq> y \<longrightarrow> map_option storage (nodes s' j) = map_option storage (nodes s j))"
  using emplace_right_ok [OF assms] by blast

theorem emplace_right_correct_witness:
  "\<exists>s' t' T' y. emplace_right demo demo_tree (Some 2) 5 = Some (s', t', Some y) \<and>
    tree_ok s' t' T' (insert y {0, 1, 2}) [Some y, Some 0, Some 1, Some 2] \<and> inorder T' = [1, 0, 2, y]"
proof -
  have pre: "2 \<in> ids demo_shape" "right (the (nodes demo 2)) = None" "length [Some 0, Some 1, Some (2 :: nat)] < 2 ^ 61"
    by (simp_all add: demo_shape_def demo_def demo_nodes_def)
  obtain s' t' T' y xs ys where E: "emplace_right demo demo_tree (Some 2) 5 = Some (s', t', Some y)"
      "tree_ok s' t' T' (insert y {0, 1, 2}) [Some y, Some 0, Some 1, Some 2]"
      "inorder demo_shape = xs @ 2 # ys" "inorder T' = xs @ 2 # y # ys"
    using emplace_right_correct [OF demo_ok pre, of 5] by blast
  have "xs = [1, 0]" "ys = []" using E(3) by (auto simp: demo_shape_def Cons_eq_append_conv)
  then show ?thesis using E by auto
qed

lemma rbtree_remove_eq:
  assumes "tree_ok s t T own hs" "x \<in> ids T" "storage (the (nodes s x)) \<noteq> None"
  shows "rbtree_remove s t (Some x) = remove_and_release s t (Some x)"
proof -
  have "live (nodes s) x" using assms(1,2) by (elim ids_plugE) (use repD(2) in \<open>fastforce simp: tree_ok_def\<close>)
  then show ?thesis
    using assms(3) check_in_tree [OF assms(1,2)] by (auto simp: rbtree_remove_def node_at_dom)
qed

text \<open>C5: \<open>remove\<close> on the only way it is safe: when the node is the root with at
  most one child, or the black height of the whole tree does not drop, the node is
  unlinked and freed, the rest of the in-order sequence stays as it was, the tree is
  valid again and no other value changes.\<close>

theorem rbtree_remove_correct:
  assumes "tree_ok s t (plug (Node x l r c) fs) own hs" "storage (the (nodes s x)) \<noteq> None"
    and "fs = [] \<and> (l = Nil \<or> r = Nil) \<or> rb_tree_bh (remove_at l r c fs) = rb_tree_bh (plug (Node x l r c) fs)"
  shows "\<exists>s' t' T'. rbtree_remove s t (Some x) = Some (s', t') \<and> tree_ok s' t' T' (own - {x}) hs \<and>
    (\<exists>xs ys. inorder (plug (Node x l r c) fs) = xs @ x # ys \<and> inorder T' = xs @ ys) \<and>
    nodes s' x = None \<and> (\<forall>j. j \<noteq> x \<longrightarrow> map_option storage (nodes s' j) = map_option storage (nodes s j))"
proof -
  let ?T = "plug (Node x l r c) fs"
  have ok: "rb_ok ?T" using assms(1) by (simp add: tree_ok_def)
  have "\<not> remove_falls l r c fs"
  proof (cases "fs = [] \<and> (l = Nil \<or> r = Nil)")
    case True
    then show ?thesis by (auto simp: remove_falls_def splice_falls_def)
  next
    case False
    with assms(3) remove_falls_iff [OF ok] show ?thesis by (auto split: if_splits)
  qed
  then obtain s' t' where R: "remove_and_release s t (Some x) = Some (s', t')"
      "tree_ok s' t' (remove_at l r c fs) (own - {x}) hs" "nodes s' x = None"
      "\<forall>j. j \<noteq> x \<longrightarrow> map_option storage (nodes s' j) = map_option storage (nodes s j)"
    using remove_node_tree [OF assms(1)] by auto
  have "inorder ?T = (keys_before fs @ inorder l) @ x # inorder r @ keys_after fs" by (simp add: inorder_plug)
  moreover have "inorder (remove_at l r c fs) = (keys_before fs @ inorder l) @ inorder r @ keys_after fs"
    using remove_at_ok [OF ok] by simp
  ultimately have "\<exists>xs ys. inorder ?T = xs @ x # ys \<and> inorder (remove_at l r c fs) = xs @ ys" by blast
  moreover have "rbtree_remove s t (Some x) = Some (s', t')"
    using R(1) rbtree_remove_eq [OF assms(1) _ assms(2)] by (simp add: ids_plug)
  ultimately show ?thesis using R by blast
qed

theorem rbtree_remove_correct_witness:
  "\<exists>s' t' T'. rbtree_remove demo demo_tree (Some 1) = Some (s', t') \<and>
    tree_ok s' t' T' {0, 2} [Some 0, Some 1, Some 2] \<and> inorder T' = [0, 2]"
proof -
  have "storage (the (nodes demo 1)) \<noteq> None" by (simp add: demo_def demo_nodes_def)
  moreover have "rb_tree_bh (remove_at Nil Nil Red [(True, 0, Node (2 :: nat) Nil Nil Red, Black)]) = rb_tree_bh demo_shape"
    by (simp add: remove_at_def splice_out_def demo_shape_def)
  ultimately obtain s' t' T' xs ys where R: "rbtree_remove demo demo_tree (Some 1) = Some (s', t')"
      "tree_ok s' t' T' ({0, 1, 2} - {1}) [Some 0, Some 1, Some 2]" "inorder demo_shape = xs @ 1 # ys" "inorder T' = xs @ ys"
    using rbtree_remove_correct [OF demo_ok [unfolded demo_plug], folded demo_plug] by blast
  have "xs = []" "ys = [0, 2]" using R(3) by (auto simp: demo_shape_def Cons_eq_append_conv)
  moreover have "{0, 1, 2 :: nat} - {1} = {0, 2}" by auto
  ultimately show ?thesis using R by auto
qed



text \<open>C7: \<open>clear\<close> on a tree whose nodes all hold values destroys exactly these nodes
  and leaves the empty tree.\<close>

theorem rbtree_clear_correct:
  assumes "tree_ok s t T own hs" "\<forall>i \<in> ids T. storage (the (nodes s i)) \<noteq> None"
  shows "\<exists>s' t'. rbtree_clear s t = Some (s', t') \<and> tree_ok s' t' Nil (own - ids T) hs \<and>
    (\<forall>i. nodes s' i = (if i \<in> ids T then None else nodes s i))"
proof (cases "T = Nil")
  case True
  then have "tree_root t = None" using assms(1) by (simp add: tree_ok_def rep_def)
  then show ?thesis using assms(1) True by (simp add: rbtree_clear_def)
next
  case False
  have "can_clear (nodes s) T (tagged s) own hs"
    using assms by (auto simp: can_clear_def has_values_def tree_ok_def rep_def separate_def)
  from clear_subtree_ok [OF this False] obtain ts' where C:
      "clear_subtree s (root T) = Some \<lparr>tagged = ts', nodes = drop_nodes (nodes s) (ids T)\<rparr>"
      "counted_ok (ts', own - ids T, hs)"
    by (cases s) auto
  have "tree_root t = root T" using assms(1) by (simp add: tree_ok_def rep_def)
  moreover have "root T \<noteq> None" using False by (cases T) auto
  moreover have "tree_ok \<lparr>tagged = ts', nodes = drop_nodes (nodes s) (ids T)\<rparr> (t\<lparr>tree_root := None\<rparr>) Nil (own - ids T) hs"
    using C(2) assms(1) by (auto simp: tree_ok_def rep_def drop_nodes_def live_def split: if_splits)
  ultimately show ?thesis using C(1) by (simp add: rbtree_clear_def drop_nodes_def)
qed

theorem rbtree_clear_correct_witness:
  "\<exists>s' t'. rbtree_clear demo demo_tree = Some (s', t') \<and> tree_ok s' t' Nil ({} :: nat set) [Some 0, Some 1, Some 2]"
proof -
  have "\<forall>i \<in> ids demo_shape. storage (the (nodes demo i)) \<noteq> None" by (simp add: demo_shape_def demo_def demo_nodes_def)
  from rbtree_clear_correct [OF demo_ok this] show ?thesis by (auto simp: demo_shape_def)
qed

section \<open>A run that ends in the fault\<close>

definition six_nodes :: "(nat rb_store \<times> rbtree \<times> ptr list) option" where
  "six_nodes = do {
     (s, t, a) \<leftarrow> emplace_root empty_store empty_tree 6;
     (s, t, b) \<leftarrow> emplace_left s t a 4;
     (s, t, c) \<leftarrow> emplace_right s t a 8;
     (s, t, d) \<leftarrow> emplace_left s t b 3;
     (s, t, e) \<leftarrow> emplace_left s t d 2;
     (s, t, f) \<leftarrow> emplace_left s t e 1;
     Some (s, t, [a, b, c, d, e, f]) }"

fun remove_each :: "nat rb_store \<Rightarrow> rbtree \<Rightarrow> ptr list \<Rightarrow> (nat rb_store \<times> rbtree) option" where
  "remove_each s t [] = Some (s, t)"
| "remove_each s t (h # hs) = do { (s, t) \<leftarrow> rbtree_remove s t h; remove_each s t hs }"

text \<open>An example of that fault, through the interface alone: six values are
  inserted into an empty tree, three of them are removed again, and removing the
  fourth, held by a valid handle, dereferences a null pointer.\<close>

lemma remove_can_fault:
  "case six_nodes of None \<Rightarrow> False
   | Some (s, t, hs) \<Rightarrow>
      remove_each s t [hs ! 5, hs ! 4, hs ! 3] \<noteq> None \<and> remove_each s t [hs ! 5, hs ! 4, hs ! 3, hs ! 1] = None"
  by code_simp

end
