(* ===== verification/CList.thy ===== *)
theory CList
  imports Dll
begin

text \<open>
  \<open>mini_libcxx/include/list.hpp\<close>: the doubly linked list.  A list is its length, its
  container id and the two ends of its chain of nodes; the nodes and their tags live in
  a store that several lists may share.  \<open>std::terminate\<close>, a null dereference and the
  destruction of a value that was never constructed are \<^term>\<open>None\<close>.  The invariant
  \<open>list_ok\<close> names the sequence of nodes; each operation is shown to have its effect on
  that sequence and on nothing else in the store.
\<close>

section \<open>State\<close>

record 'a list_node =
  lprev :: ptr
  lnext :: ptr
  lstorage :: "'a option"

type_synonym 'a list_store = "'a list_node node_store"

record clist =
  len :: u64
  list_id :: u64
  head :: ptr
  tail :: ptr

definition list_new :: "u64 \<Rightarrow> clist" where
  "list_new i = \<lparr>len = 0, list_id = i, head = None, tail = None\<rparr>"

section \<open>Creating and removing nodes\<close>

definition fresh_node :: "'a list_node" where
  "fresh_node = \<lparr>lprev = None, lnext = None, lstorage = None\<rparr>"

definition create_node_empty :: "'a list_store \<Rightarrow> clist \<Rightarrow> 'a list_store \<times> clist \<times> nat" where
  "create_node_empty s l =
     (let (s, p) = new_node s (list_id l) fresh_node in
      (s, l\<lparr>head := Some p, tail := Some p, len := 1\<rparr>, p))"

definition create_node_before :: "'a list_store \<Rightarrow> clist \<Rightarrow> ptr \<Rightarrow> ('a list_store \<times> clist \<times> nat) option" where
  "create_node_before s l hp = do {
     n \<leftarrow> node_at (nodes s) hp;
     let (s, p) = new_node s (list_id l) fresh_node;
     h \<leftarrow> update_node (nodes s) (Some p) (lprev_update (\<lambda>_. lprev n));
     h \<leftarrow> update_node h (Some p) (lnext_update (\<lambda>_. hp));
     (h, l) \<leftarrow> (if lprev n \<noteq> None then do {
                    h \<leftarrow> update_node h (lprev n) (lnext_update (\<lambda>_. Some p));
                    Some (h, l) }
                else Some (h, l\<lparr>head := Some p\<rparr>));
     h \<leftarrow> update_node h hp (lprev_update (\<lambda>_. Some p));
     Some (s\<lparr>nodes := h\<rparr>, l\<lparr>len := len l + 1\<rparr>, p) }"

definition create_node_after :: "'a list_store \<Rightarrow> clist \<Rightarrow> ptr \<Rightarrow> ('a list_store \<times> clist \<times> nat) option" where
  "create_node_after s l hp = do {
     n \<leftarrow> node_at (nodes s) hp;
     let (s, p) = new_node s (list_id l) fresh_node;
     h \<leftarrow> update_node (nodes s) (Some p) (lnext_update (\<lambda>_. lnext n));
     h \<leftarrow> update_node h (Some p) (lprev_update (\<lambda>_. hp));
     (h, l) \<leftarrow> (if lnext n \<noteq> None then do {
                    h \<leftarrow> update_node h (lnext n) (lprev_update (\<lambda>_. Some p));
                    Some (h, l) }
                else Some (h, l\<lparr>tail := Some p\<rparr>));
     h \<leftarrow> update_node h hp (lnext_update (\<lambda>_. Some p));
     Some (s\<lparr>nodes := h\<rparr>, l\<lparr>len := len l + 1\<rparr>, p) }"

text \<open>\<open>remove_node\<close> frees the node but leaves the destruction of its value to the caller.\<close>

definition list_remove_node :: "'a list_store \<Rightarrow> clist \<Rightarrow> ptr \<Rightarrow> ('a list_store \<times> clist) option" where
  "list_remove_node s l hp = do {
     n \<leftarrow> node_at (nodes s) hp;
     (h, l) \<leftarrow> (if lprev n \<noteq> None then do {
                    h \<leftarrow> update_node (nodes s) (lprev n) (lnext_update (\<lambda>_. lnext n));
                    Some (h, l) }
                else Some (nodes s, l\<lparr>head := lnext n\<rparr>));
     (h, l) \<leftarrow> (if lnext n \<noteq> None then do {
                    h \<leftarrow> update_node h (lnext n) (lprev_update (\<lambda>_. lprev n));
                    Some (h, l) }
                else Some (h, l\<lparr>tail := lprev n\<rparr>));
     s \<leftarrow> drop_node (s\<lparr>nodes := h\<rparr>) hp;
     Some (s, l\<lparr>len := len l - 1\<rparr>) }"

definition emplace_front_raw :: "'a list_store \<Rightarrow> clist \<Rightarrow> ('a list_store \<times> clist \<times> nat) option" where
  "emplace_front_raw s l =
     (if head l \<noteq> None then create_node_before s l (head l) else Some (create_node_empty s l))"

definition emplace_back_raw :: "'a list_store \<Rightarrow> clist \<Rightarrow> ('a list_store \<times> clist \<times> nat) option" where
  "emplace_back_raw s l =
     (if tail l \<noteq> None then create_node_after s l (tail l) else Some (create_node_empty s l))"

definition emplace_before_raw :: "'a list_store \<Rightarrow> clist \<Rightarrow> ptr \<Rightarrow> ('a list_store \<times> clist \<times> nat) option" where
  "emplace_before_raw s l h = do {
     ok \<leftarrow> counted_check (tagged s) h (list_id l);
     if \<not> ok then None else create_node_before s l h }"

definition emplace_after_raw :: "'a list_store \<Rightarrow> clist \<Rightarrow> ptr \<Rightarrow> ('a list_store \<times> clist \<times> nat) option" where
  "emplace_after_raw s l h = do {
     ok \<leftarrow> counted_check (tagged s) h (list_id l);
     if \<not> ok then None else create_node_after s l h }"

text \<open>The destructor call on the value of a node; it must have been constructed.\<close>

definition destroy_value :: "'a list_store \<Rightarrow> ptr \<Rightarrow> unit option" where
  "destroy_value s p = do { n \<leftarrow> node_at (nodes s) p; v \<leftarrow> lstorage n; Some () }"

definition pop_front_unsafe :: "'a list_store \<Rightarrow> clist \<Rightarrow> ('a list_store \<times> clist) option" where
  "pop_front_unsafe s l = do {
     let p = head l;
     n \<leftarrow> node_at (nodes s) p;
     _ \<leftarrow> destroy_value s p;
     let l = l\<lparr>head := lnext n\<rparr>;
     (h, l) \<leftarrow> (if lnext n \<noteq> None then do {
                    h \<leftarrow> update_node (nodes s) (lnext n) (lprev_update (\<lambda>_. None));
                    Some (h, l) }
                else Some (nodes s, l\<lparr>tail := None\<rparr>));
     s \<leftarrow> drop_node (s\<lparr>nodes := h\<rparr>) p;
     Some (s, l\<lparr>len := len l - 1\<rparr>) }"

definition pop_back_unsafe :: "'a list_store \<Rightarrow> clist \<Rightarrow> ('a list_store \<times> clist) option" where
  "pop_back_unsafe s l = do {
     let p = tail l;
     n \<leftarrow> node_at (nodes s) p;
     _ \<leftarrow> destroy_value s p;
     let l = l\<lparr>tail := lprev n\<rparr>;
     (h, l) \<leftarrow> (if lprev n \<noteq> None then do {
                    h \<leftarrow> update_node (nodes s) (lprev n) (lnext_update (\<lambda>_. None));
                    Some (h, l) }
                else Some (nodes s, l\<lparr>head := None\<rparr>));
     s \<leftarrow> drop_node (s\<lparr>nodes := h\<rparr>) p;
     Some (s, l\<lparr>len := len l - 1\<rparr>) }"

section \<open>The interface\<close>

text \<open>The tail that all inserting operations share: a handle to the new node, and its
  value constructed in place.  The argument \<open>v\<close> is the value that the constructor makes,
  by default, from the arguments, or as a copy or by a move (\<open>emplace_*_default\<close>,
  \<open>emplace_*\<close>, \<open>push_*\<close>, \<open>insert_*\<close>, whose bodies are the same but for this call).\<close>

definition construct_cell :: "'a list_store \<Rightarrow> nat \<Rightarrow> 'a \<Rightarrow> 'a list_store option" where
  "construct_cell s p v = do {
     h \<leftarrow> update_node (nodes s) (Some p) (lstorage_update (\<lambda>_. Some v));
     Some (s\<lparr>nodes := h\<rparr>) }"

definition list_emplace_front :: "'a list_store \<Rightarrow> clist \<Rightarrow> 'a \<Rightarrow> ('a list_store \<times> clist \<times> ptr) option" where
  "list_emplace_front s l v = do {
     (s, l, p) \<leftarrow> emplace_front_raw s l;
     (s, h) \<leftarrow> with_handle s p;
     s \<leftarrow> construct_cell s p v;
     Some (s, l, h) }"

definition list_emplace_back :: "'a list_store \<Rightarrow> clist \<Rightarrow> 'a \<Rightarrow> ('a list_store \<times> clist \<times> ptr) option" where
  "list_emplace_back s l v = do {
     (s, l, p) \<leftarrow> emplace_back_raw s l;
     (s, h) \<leftarrow> with_handle s p;
     s \<leftarrow> construct_cell s p v;
     Some (s, l, h) }"

definition list_emplace_before ::
  "'a list_store \<Rightarrow> clist \<Rightarrow> ptr \<Rightarrow> 'a \<Rightarrow> ('a list_store \<times> clist \<times> ptr) option" where
  "list_emplace_before s l h v = do {
     (s, l, p) \<leftarrow> emplace_before_raw s l h;
     (s, nh) \<leftarrow> with_handle s p;
     s \<leftarrow> construct_cell s p v;
     Some (s, l, nh) }"

definition list_emplace_after ::
  "'a list_store \<Rightarrow> clist \<Rightarrow> ptr \<Rightarrow> 'a \<Rightarrow> ('a list_store \<times> clist \<times> ptr) option" where
  "list_emplace_after s l h v = do {
     (s, l, p) \<leftarrow> emplace_after_raw s l h;
     (s, nh) \<leftarrow> with_handle s p;
     s \<leftarrow> construct_cell s p v;
     Some (s, l, nh) }"

definition emplace_front_null :: "'a list_store \<Rightarrow> clist \<Rightarrow> ('a list_store \<times> clist \<times> ptr) option" where
  "emplace_front_null s l = do { (s, l, p) \<leftarrow> emplace_front_raw s l; (s, h) \<leftarrow> with_handle s p; Some (s, l, h) }"

definition emplace_back_null :: "'a list_store \<Rightarrow> clist \<Rightarrow> ('a list_store \<times> clist \<times> ptr) option" where
  "emplace_back_null s l = do { (s, l, p) \<leftarrow> emplace_back_raw s l; (s, h) \<leftarrow> with_handle s p; Some (s, l, h) }"

definition emplace_before_null :: "'a list_store \<Rightarrow> clist \<Rightarrow> ptr \<Rightarrow> ('a list_store \<times> clist \<times> ptr) option" where
  "emplace_before_null s l h = do {
     (s, l, p) \<leftarrow> emplace_before_raw s l h; (s, nh) \<leftarrow> with_handle s p; Some (s, l, nh) }"

definition emplace_after_null :: "'a list_store \<Rightarrow> clist \<Rightarrow> ptr \<Rightarrow> ('a list_store \<times> clist \<times> ptr) option" where
  "emplace_after_null s l h = do {
     (s, l, p) \<leftarrow> emplace_after_raw s l h; (s, nh) \<leftarrow> with_handle s p; Some (s, l, nh) }"

definition pop_front :: "'a list_store \<Rightarrow> clist \<Rightarrow> ('a list_store \<times> clist) option" where
  "pop_front s l = (if head l \<noteq> None then pop_front_unsafe s l else None)"

definition pop_back :: "'a list_store \<Rightarrow> clist \<Rightarrow> ('a list_store \<times> clist) option" where
  "pop_back s l = (if tail l \<noteq> None then pop_back_unsafe s l else None)"

definition list_remove :: "'a list_store \<Rightarrow> clist \<Rightarrow> ptr \<Rightarrow> ('a list_store \<times> clist) option" where
  "list_remove s l h = do {
     ok \<leftarrow> counted_check (tagged s) h (list_id l);
     if \<not> ok then None else do { _ \<leftarrow> destroy_value s h; list_remove_node s l h } }"

definition list_inform_destruct :: "'a list_store \<Rightarrow> clist \<Rightarrow> ptr \<Rightarrow> ('a list_store \<times> clist) option" where
  "list_inform_destruct s l h = do {
     ok \<leftarrow> counted_check (tagged s) h (list_id l);
     if \<not> ok then None else list_remove_node s l h }"

partial_function (option) list_clear :: "'a list_store \<Rightarrow> clist \<Rightarrow> ('a list_store \<times> clist) option" where
  "list_clear s l =
     (if head l \<noteq> None then do { (s, l) \<leftarrow> pop_front_unsafe s l; list_clear s l } else Some (s, l))"

declare list_clear.simps [code]

definition list_data :: "'a list_store \<Rightarrow> clist \<Rightarrow> ptr \<Rightarrow> 'a option" where
  "list_data s l h = do {
     ok \<leftarrow> counted_check (tagged s) h (list_id l);
     if \<not> ok then None else do { n \<leftarrow> node_at (nodes s) h; lstorage n } }"

definition list_front :: "'a list_store \<Rightarrow> clist \<Rightarrow> ('a list_store \<times> ptr) option" where
  "list_front s l = handle_or_null s (head l)"

definition list_back :: "'a list_store \<Rightarrow> clist \<Rightarrow> ('a list_store \<times> ptr) option" where
  "list_back s l = handle_or_null s (tail l)"

definition list_prev :: "'a list_store \<Rightarrow> clist \<Rightarrow> ptr \<Rightarrow> ('a list_store \<times> ptr) option" where
  "list_prev s l h = do {
     ok \<leftarrow> counted_check (tagged s) h (list_id l);
     if \<not> ok then None else do { n \<leftarrow> node_at (nodes s) h; handle_or_null s (lprev n) } }"

definition list_next :: "'a list_store \<Rightarrow> clist \<Rightarrow> ptr \<Rightarrow> ('a list_store \<times> ptr) option" where
  "list_next s l h = do {
     ok \<leftarrow> counted_check (tagged s) h (list_id l);
     if \<not> ok then None else do { n \<leftarrow> node_at (nodes s) h; handle_or_null s (lnext n) } }"

section \<open>Copying and moving\<close>

text \<open>\<open>push_back\<close> whose handle is dropped at once, as in the copying loops.\<close>

definition push_value :: "'a list_store \<Rightarrow> clist \<Rightarrow> 'a \<Rightarrow> ('a list_store \<times> clist) option" where
  "push_value s l v = do {
     (s, l, h) \<leftarrow> list_emplace_back s l v;
     (ts, _) \<leftarrow> counted_clear (tagged s) h;
     Some (s\<lparr>tagged := ts\<rparr>, l) }"

partial_function (option) append_nodes :: "'a list_store \<Rightarrow> clist \<Rightarrow> ptr \<Rightarrow> ('a list_store \<times> clist) option" where
  "append_nodes s l p =
     (if p \<noteq> None then do {
        n \<leftarrow> node_at (nodes s) p;
        v \<leftarrow> lstorage n;
        (s, l) \<leftarrow> push_value s l v;
        n \<leftarrow> node_at (nodes s) p;
        append_nodes s l (lnext n) }
      else Some (s, l))"

declare append_nodes.simps [code]

text \<open>\<open>list (const list&)\<close>; \<open>new_id\<close> is what \<open>get_tls_counter\<close> returns.\<close>

definition list_copy :: "'a list_store \<Rightarrow> u64 \<Rightarrow> clist \<Rightarrow> ('a list_store \<times> clist) option" where
  "list_copy s new_id other = append_nodes s (list_new new_id) (head other)"

definition list_move :: "u64 \<Rightarrow> clist \<Rightarrow> clist \<times> clist" where
  "list_move new_id other = (other, other\<lparr>head := None, tail := None, len := 0, list_id := new_id\<rparr>)"

text \<open>The three loops of \<open>operator= (const list&)\<close>: overwrite while both lists last,
  remove what is left over, append what is missing.\<close>

partial_function (option) overwrite_nodes :: "'a list_store \<Rightarrow> ptr \<Rightarrow> ptr \<Rightarrow> ('a list_store \<times> ptr \<times> ptr) option" where
  "overwrite_nodes s p q =
     (if p \<noteq> None \<and> q \<noteq> None then do {
        np \<leftarrow> node_at (nodes s) p;
        old \<leftarrow> lstorage np;
        nq \<leftarrow> node_at (nodes s) q;
        v \<leftarrow> lstorage nq;
        h \<leftarrow> update_node (nodes s) p (lstorage_update (\<lambda>_. Some v));
        np \<leftarrow> node_at h p;
        nq \<leftarrow> node_at h q;
        overwrite_nodes (s\<lparr>nodes := h\<rparr>) (lnext np) (lnext nq) }
      else Some (s, p, q))"

declare overwrite_nodes.simps [code]

partial_function (option) remove_rest :: "'a list_store \<Rightarrow> clist \<Rightarrow> ptr \<Rightarrow> ('a list_store \<times> clist) option" where
  "remove_rest s l p =
     (if p \<noteq> None then do {
        n \<leftarrow> node_at (nodes s) p;
        _ \<leftarrow> destroy_value s p;
        (s, l) \<leftarrow> list_remove_node s l p;
        remove_rest s l (lnext n) }
      else Some (s, l))"

declare remove_rest.simps [code]

definition list_assign :: "'a list_store \<Rightarrow> clist \<Rightarrow> clist \<Rightarrow> ('a list_store \<times> clist) option" where
  "list_assign s l other = do {
     (s, p, q) \<leftarrow> overwrite_nodes s (head l) (head other);
     (s, l) \<leftarrow> remove_rest s l p;
     append_nodes s l q }"

definition list_move_assign :: "'a list_store \<Rightarrow> u64 \<Rightarrow> clist \<Rightarrow> clist \<Rightarrow> ('a list_store \<times> clist \<times> clist) option" where
  "list_move_assign s new_id l other = do {
     (s, l) \<leftarrow> list_clear s l;
     let (l, other) = list_move new_id other;
     Some (s, l, other) }"

end
