(* ===== verification/CListOk.thy ===== *)
theory CListOk
  imports CList
begin

text \<open>The invariant of lists and the effect of each operation of \<open>list.hpp\<close> on the
  sequence of nodes.\<close>

section \<open>The invariant\<close>

definition lp :: "'a list_node heap \<Rightarrow> nat \<Rightarrow> ptr" where
  "lp h i = lprev (the (h i))"

definition ln :: "'a list_node heap \<Rightarrow> nat \<Rightarrow> ptr" where
  "ln h i = lnext (the (h i))"

definition list_ok :: "'a list_store \<Rightarrow> clist \<Rightarrow> nat list \<Rightarrow> (nat \<Rightarrow> u64 option) \<Rightarrow> ptr list \<Rightarrow> bool" where
  "list_ok s l xs own hs \<longleftrightarrow> store_ok s own hs \<and> (\<forall>x \<in> set xs. own x = Some (list_id l)) \<and> distinct xs \<and>
     head l = first xs None \<and> tail l = final None xs \<and> len l = of_nat (length xs) \<and>
     chain (lp (nodes s)) (ln (nodes s)) xs"

lemma list_okD:
  assumes "list_ok s l xs own hs"
  shows "store_ok s own hs" "distinct xs" "head l = first xs None" "tail l = final None xs"
    "len l = of_nat (length xs)" "chain (lp (nodes s)) (ln (nodes s)) xs" "x \<in> set xs \<Longrightarrow> own x = Some (list_id l)"
  using assms by (auto simp: list_ok_def)

lemma list_new_ok: "store_ok s own hs \<Longrightarrow> list_ok s (list_new i) [] own hs"
  by (simp add: list_ok_def list_new_def)

lemma list_ok_live: "list_ok s l xs own hs \<Longrightarrow> i \<in> set xs \<Longrightarrow> live (nodes s) i \<and> own i \<noteq> None"
  using store_okD(2) [OF list_okD(1)] list_okD(7) by fastforce

definition cell :: "'a list_store \<Rightarrow> nat \<Rightarrow> 'a option" where
  "cell s i = lstorage (the (nodes s i))"

text \<open>An operation relinks the nodes \<open>S\<close> and may free or make \<open>y\<close>; no other node changes, and
  no value but that of \<open>y\<close>.\<close>

definition relinks :: "nat set \<Rightarrow> nat \<Rightarrow> 'a list_store \<Rightarrow> 'a list_store \<Rightarrow> bool" where
  "relinks S y s s' \<longleftrightarrow> (\<forall>j. j \<noteq> y \<longrightarrow> cell s' j = cell s j) \<and>
     (\<forall>j. j \<noteq> y \<longrightarrow> j \<notin> S \<longrightarrow> nodes s' j = nodes s j)"

lemma relinksD:
  assumes "relinks S y s s'"
  shows "j \<noteq> y \<Longrightarrow> cell s' j = cell s j" "j \<noteq> y \<Longrightarrow> j \<notin> S \<Longrightarrow> nodes s' j = nodes s j"
  using assms by (auto simp: relinks_def)

lemma live_Some: "live h i \<Longrightarrow> \<exists>n. h i = Some n"
  by (auto simp: live_def)

lemma relink_same:
  "map_option (\<lambda>nd. nd\<lparr>lprev := lp h j, lnext := ln h j\<rparr>) (h j) = h j"
  "map_option (\<lambda>nd. nd\<lparr>lprev := lprev (the (h j)), lnext := lnext (the (h j))\<rparr>) (h j) = h j"
  by (cases "h j"; simp add: lp_def ln_def)+

section \<open>Insertion\<close>

lemma create_node_empty_ok:
  assumes ok: "list_ok s l [] own hs" and c: "create_node_empty s l = (s', l', y)"
  shows "list_ok s' l' [y] (own(y \<mapsto> list_id l)) hs" "own y = None" "relinks {} y s s'" "list_id l' = list_id l" "cell s' y = None"
proof -
  obtain s1 where n: "new_node s (list_id l) fresh_node = (s1, y)"
    using c by (auto simp: create_node_empty_def split: prod.splits)
  have eqs: "s' = s1" "l' = l\<lparr>head := Some y, tail := Some y, len := 1\<rparr>"
    using c n by (auto simp: create_node_empty_def)
  note N = new_node_ok [OF list_okD(1) [OF ok] n]
  show "list_ok s' l' [y] (own(y \<mapsto> list_id l)) hs"
    using N by (simp add: list_ok_def eqs lp_def ln_def fresh_node_def)
  show "own y = None" "list_id l' = list_id l" using N by (simp_all add: eqs)
  show "relinks {} y s s'" "cell s' y = None" using N by (auto simp: relinks_def eqs cell_def fresh_node_def)
qed

text \<open>The heap after a new node \<open>y\<close> has been linked in between \<open>a\<close> and \<open>b\<close>.\<close>

lemma linked_in:
  assumes ok: "list_ok s l (xs @ ys) own hs" and n: "new_node s (list_id l) fresh_node = (s1, y)"
    and h: "\<And>j. h j = (if j = y then Some \<lparr>lprev = final None xs, lnext = first ys None, lstorage = None\<rparr>
        else map_option (\<lambda>nd. nd\<lparr>lprev := link_prev (first ys None) (Some y) (lp (nodes s)) j,
          lnext := link_next (final None xs) (Some y) (ln (nodes s)) j\<rparr>) (nodes s j))"
    and l': "head l' = first (xs @ y # ys) None" "tail l' = final None (xs @ y # ys)" "len l' = len l + 1" "list_id l' = list_id l"
  shows "list_ok (s1\<lparr>nodes := h\<rparr>) l' (xs @ y # ys) (own(y \<mapsto> list_id l)) hs" "own y = None" "relinks (set (xs @ ys)) y s (s1\<lparr>nodes := h\<rparr>)"
    "cell (s1\<lparr>nodes := h\<rparr>) y = None"
proof -
  note N = new_node_ok [OF list_okD(1) [OF ok] n] and L = list_okD [OF ok]
  have y: "y \<notin> set (xs @ ys)" using N(2) L(7) by fastforce
  have lv: "live (nodes s) j" if "j \<in> set (xs @ ys)" for j using list_ok_live [OF ok that] by blast
  show "own y = None" by (rule N)
  have "live h j = live (nodes s1) j" for j
    using N(4) by (simp add: live_def h)
  then have "store_ok (s1\<lparr>nodes := h\<rparr>) (own(y \<mapsto> list_id l)) hs"
    using store_ok_nodes [OF N(1), of h] by simp
  moreover have "chain (lp h) (ln h) (xs @ y # ys)"
  proof (rule chain_insert [OF L(6)])
    show "distinct (xs @ y # ys)" using L(2) y by auto
    show "lp h j = link_prev (first ys None) (Some y) (lp (nodes s)) j \<and>
        ln h j = link_next (final None xs) (Some y) (ln (nodes s)) j" if "j \<in> set (xs @ ys)" for j
      using that lv [OF that] y by (auto simp: lp_def ln_def h live_def)
  qed (simp_all add: lp_def ln_def h)
  moreover have "distinct (xs @ y # ys)" using L(2) y by auto
  ultimately show "list_ok (s1\<lparr>nodes := h\<rparr>) l' (xs @ y # ys) (own(y \<mapsto> list_id l)) hs"
    using l' L(5,7) y by (auto simp: list_ok_def)
  have "h j = nodes s j" if "j \<noteq> y" "j \<notin> set (xs @ ys)" for j
    using that first_in [of ys None j] final_in [of None xs j] by (auto simp: h relink_same)
  moreover have "lstorage (the (h j)) = lstorage (the (nodes s j))" if "j \<noteq> y" for j
    using that by (cases "nodes s j") (simp_all add: h)
  ultimately show "relinks (set (xs @ ys)) y s (s1\<lparr>nodes := h\<rparr>)" by (simp add: relinks_def cell_def)
  show "cell (s1\<lparr>nodes := h\<rparr>) y = None" by (simp add: cell_def h)
qed

lemma create_node_before_ok:
  assumes ok: "list_ok s l (xs @ x # ys) own hs"
  shows "\<exists>s' l' y. create_node_before s l (Some x) = Some (s', l', y) \<and> own y = None \<and>
    list_ok s' l' (xs @ y # x # ys) (own(y \<mapsto> list_id l)) hs \<and> relinks (set (xs @ x # ys)) y s s' \<and>
    list_id l' = list_id l \<and> cell s' y = None"
proof -
  obtain s1 y where n: "new_node s (list_id l) fresh_node = (s1, y)" by force
  note N = new_node_ok [OF list_okD(1) [OF ok] n] and L = list_okD [OF ok]
  have y: "y \<notin> set (xs @ x # ys)" using N(2) L(7) by fastforce
  obtain nx where nx: "nodes s x = Some nx" using list_ok_live [OF ok, of x] by (auto simp: live_def)
  have p: "lprev nx = final None xs" using chain_prev [OF L(6)] nx by (simp add: lp_def)
  define h where "h = (\<lambda>j. if j = y then Some \<lparr>lprev = final None xs, lnext = first (x # ys) None, lstorage = None\<rparr>
        else map_option (\<lambda>nd. nd\<lparr>lprev := link_prev (first (x # ys) None) (Some y) (lp (nodes s)) j,
          lnext := link_next (final None xs) (Some y) (ln (nodes s)) j\<rparr>) (nodes s j))"
  have "\<exists>l'. create_node_before s l (Some x) = Some (s1\<lparr>nodes := h\<rparr>, l', y) \<and>
      head l' = first (xs @ y # x # ys) None \<and> tail l' = final None (xs @ y # x # ys) \<and> len l' = len l + 1 \<and> list_id l' = list_id l"
  proof (cases xs rule: rev_cases)
    case Nil
    have "h = (nodes s)(y \<mapsto> \<lparr>lprev = None, lnext = Some x, lstorage = None\<rparr>, x \<mapsto> nx\<lparr>lprev := Some y\<rparr>)"
      using y nx by (auto simp: h_def Nil fun_eq_iff relink_same) (simp add: ln_def)
    then show ?thesis
      using n nx p N(4) y L(3,4) by (simp add: create_node_before_def node_at_def update_node_def Nil fresh_node_def)
  next
    case (snoc zs z)
    obtain nz where nz: "nodes s z = Some nz" using list_ok_live [OF ok, of z] snoc by (auto simp: live_def)
    have ne: "z \<noteq> x" "z \<noteq> y" "x \<noteq> y" using L(2) snoc y by auto
    have "h = (nodes s)(y \<mapsto> \<lparr>lprev = Some z, lnext = Some x, lstorage = None\<rparr>, z \<mapsto> nz\<lparr>lnext := Some y\<rparr>, x \<mapsto> nx\<lparr>lprev := Some y\<rparr>)"
      using ne nx nz by (auto simp: h_def snoc fun_eq_iff relink_same) (simp_all add: ln_def lp_def)
    then show ?thesis
      using n nx nz p N(4) ne L(3,4) by (simp add: create_node_before_def node_at_def update_node_def snoc fresh_node_def)
  qed
  then show ?thesis
    using linked_in [OF ok n, of h] unfolding h_def by blast
qed

lemma create_node_after_ok:
  assumes ok: "list_ok s l (xs @ x # ys) own hs"
  shows "\<exists>s' l' y. create_node_after s l (Some x) = Some (s', l', y) \<and> own y = None \<and>
    list_ok s' l' (xs @ x # y # ys) (own(y \<mapsto> list_id l)) hs \<and> relinks (set (xs @ x # ys)) y s s' \<and>
    list_id l' = list_id l \<and> cell s' y = None"
proof -
  have ok': "list_ok s l ((xs @ [x]) @ ys) own hs" using ok by simp
  obtain s1 y where n: "new_node s (list_id l) fresh_node = (s1, y)" by force
  note N = new_node_ok [OF list_okD(1) [OF ok] n] and L = list_okD [OF ok]
  have y: "y \<notin> set (xs @ x # ys)" using N(2) L(7) by fastforce
  obtain nx where nx: "nodes s x = Some nx" using list_ok_live [OF ok, of x] by (auto simp: live_def)
  have p: "lnext nx = first ys None" using chain_next [OF L(6)] nx by (simp add: ln_def)
  define h where "h = (\<lambda>j. if j = y then Some \<lparr>lprev = final None (xs @ [x]), lnext = first ys None, lstorage = None\<rparr>
        else map_option (\<lambda>nd. nd\<lparr>lprev := link_prev (first ys None) (Some y) (lp (nodes s)) j,
          lnext := link_next (final None (xs @ [x])) (Some y) (ln (nodes s)) j\<rparr>) (nodes s j))"
  have "\<exists>l'. create_node_after s l (Some x) = Some (s1\<lparr>nodes := h\<rparr>, l', y) \<and>
      head l' = first ((xs @ [x]) @ y # ys) None \<and> tail l' = final None ((xs @ [x]) @ y # ys) \<and> len l' = len l + 1 \<and> list_id l' = list_id l"
  proof (cases ys)
    case Nil
    have "h = (nodes s)(y \<mapsto> \<lparr>lprev = Some x, lnext = None, lstorage = None\<rparr>, x \<mapsto> nx\<lparr>lnext := Some y\<rparr>)"
      using y nx by (auto simp: h_def Nil fun_eq_iff relink_same) (simp add: lp_def)
    then show ?thesis
      using n nx p N(4) y L(3,4) by (simp add: create_node_after_def node_at_def update_node_def Nil fresh_node_def)
  next
    case (Cons z zs)
    obtain nz where nz: "nodes s z = Some nz" using list_ok_live [OF ok, of z] Cons by (auto simp: live_def)
    have ne: "z \<noteq> x" "z \<noteq> y" "x \<noteq> y" using L(2) Cons y by auto
    have "h = (nodes s)(y \<mapsto> \<lparr>lprev = Some x, lnext = Some z, lstorage = None\<rparr>, z \<mapsto> nz\<lparr>lprev := Some y\<rparr>, x \<mapsto> nx\<lparr>lnext := Some y\<rparr>)"
      using ne nx nz by (auto simp: h_def Cons fun_eq_iff relink_same) (simp_all add: ln_def lp_def)
    then show ?thesis
      using n nx nz p N(4) ne L(3,4) by (simp add: create_node_after_def node_at_def update_node_def Cons fresh_node_def)
  qed
  then show ?thesis
    using linked_in [OF ok' n, of h] unfolding h_def by simp blast
qed

section \<open>Removal\<close>

lemma linked_out:
  assumes ok: "list_ok s l (xs @ x # ys) own hs"
    and h: "\<And>j. h j = map_option (\<lambda>nd. nd\<lparr>lprev := link_prev (first ys None) (final None xs) (lp (nodes s)) j,
        lnext := link_next (final None xs) (first ys None) (ln (nodes s)) j\<rparr>) (nodes s j)"
    and l': "head l' = first (xs @ ys) None" "tail l' = final None (xs @ ys)" "len l' = len l - 1" "list_id l' = list_id l"
  shows "\<exists>s'. drop_node (s\<lparr>nodes := h\<rparr>) (Some x) = Some s' \<and> list_ok s' l' (xs @ ys) (own(x := None)) hs \<and>
    relinks (set (xs @ ys)) x s s' \<and> nodes s' x = None"
proof -
  note L = list_okD [OF ok]
  have x: "own x \<noteq> None" "x \<notin> set (xs @ ys)" using L(2) L(7) [of x] by auto
  have lv: "live (nodes s) j" if "j \<in> set (xs @ x # ys)" for j using list_ok_live [OF ok that] by blast
  have "live h j = live (nodes s) j" for j by (simp add: live_def h)
  then have st: "store_ok (s\<lparr>nodes := h\<rparr>) own hs"
    using store_ok_nodes [OF L(1), of h] by simp
  from drop_node_ok [OF st x(1)] obtain s' where s': "drop_node (s\<lparr>nodes := h\<rparr>) (Some x) = Some s'"
      "store_ok s' (own(x := None)) hs" "nodes s' = h(x := None)"
    by auto
  have "chain (lp (nodes s')) (ln (nodes s')) (xs @ ys)"
  proof (rule chain_remove [OF L(6) L(2)])
    show "lp (nodes s') j = link_prev (first ys None) (final None xs) (lp (nodes s)) j \<and>
        ln (nodes s') j = link_next (final None xs) (first ys None) (ln (nodes s)) j" if "j \<in> set (xs @ ys)" for j
      using that lv [of j] x by (auto simp: lp_def ln_def s'(3) h live_def)
  qed
  moreover have "distinct (xs @ ys)" using L(2) by auto
  ultimately have "list_ok s' l' (xs @ ys) (own(x := None)) hs"
    using s'(2) l' L(5,7) x by (auto simp: list_ok_def)
  moreover have "h j = nodes s j" if "j \<noteq> x" "j \<notin> set (xs @ ys)" for j
    using that first_in [of ys None j] final_in [of None xs j] by (auto simp: h relink_same)
  moreover have "lstorage (the (h j)) = lstorage (the (nodes s j))" for j
    by (cases "nodes s j") (simp_all add: h)
  ultimately show ?thesis using s' by (auto simp: relinks_def cell_def)
qed

lemma list_remove_node_ok:
  assumes ok: "list_ok s l (xs @ x # ys) own hs"
  shows "\<exists>s' l'. list_remove_node s l (Some x) = Some (s', l') \<and> list_ok s' l' (xs @ ys) (own(x := None)) hs \<and>
    relinks (set (xs @ ys)) x s s' \<and> nodes s' x = None \<and> list_id l' = list_id l"
proof -
  note L = list_okD [OF ok]
  obtain nx where nx: "nodes s x = Some nx" using list_ok_live [OF ok, of x] by (auto simp: live_def)
  have p: "lprev nx = final None xs" "lnext nx = first ys None"
    using chain_prev [OF L(6)] chain_next [OF L(6)] nx by (simp_all add: lp_def ln_def)
  define h where "h = (\<lambda>j. map_option (\<lambda>nd. nd\<lparr>lprev := link_prev (first ys None) (final None xs) (lp (nodes s)) j,
        lnext := link_next (final None xs) (first ys None) (ln (nodes s)) j\<rparr>) (nodes s j))"
  have lv: "\<exists>n. nodes s j = Some n" if "j \<in> set (xs @ x # ys)" for j
    using list_ok_live [OF ok that] by (auto simp: live_def)
  define l' where "l' = l\<lparr>head := first (xs @ ys) None, tail := final None (xs @ ys), len := len l - 1\<rparr>"
  have l': "head l' = first (xs @ ys) None" "tail l' = final None (xs @ ys)" "len l' = len l - 1" "list_id l' = list_id l"
    by (simp_all add: l'_def)
  have run: "list_remove_node s l (Some x) = do { s' \<leftarrow> drop_node (s\<lparr>nodes := h\<rparr>) (Some x); Some (s', l') }"
  proof (cases xs rule: rev_cases)
    case Nil
    show ?thesis
    proof (cases ys)
      case ys: Nil
      have "h = nodes s" by (simp add: h_def Nil ys fun_eq_iff relink_same)
      then show ?thesis using nx p L(3,4)
        by (cases l) (simp add: list_remove_node_def node_at_def Nil ys l'_def)
    next
      case (Cons b bs)
      obtain nb where nb: "nodes s b = Some nb" using lv [of b] Cons by auto
      have "h = (nodes s)(b \<mapsto> nb\<lparr>lprev := None\<rparr>)"
        using nb by (auto simp: h_def Nil Cons fun_eq_iff relink_same) (simp add: ln_def)
      then show ?thesis using nx nb p L(3,4) by (cases l) (simp add: list_remove_node_def node_at_def update_node_def Nil Cons l'_def)
    qed
  next
    case (snoc as a)
    obtain na where na: "nodes s a = Some na" using lv [of a] snoc by auto
    show ?thesis
    proof (cases ys)
      case Nil
      have "h = (nodes s)(a \<mapsto> na\<lparr>lnext := None\<rparr>)"
        using na by (auto simp: h_def snoc Nil fun_eq_iff relink_same) (simp add: lp_def)
      then show ?thesis using nx na p L(3,4) by (cases l) (simp add: list_remove_node_def node_at_def update_node_def snoc Nil l'_def)
    next
      case (Cons b bs)
      obtain nb where nb: "nodes s b = Some nb" using lv [of b] Cons by auto
      have ne: "a \<noteq> b" using L(2) snoc Cons by auto
      then have "h = (nodes s)(a \<mapsto> na\<lparr>lnext := Some b\<rparr>, b \<mapsto> nb\<lparr>lprev := Some a\<rparr>)"
        using na nb by (auto simp: h_def snoc Cons fun_eq_iff relink_same) (simp_all add: lp_def ln_def)
      then show ?thesis using nx na nb p L(3,4) ne by (cases l) (simp add: list_remove_node_def node_at_def update_node_def snoc Cons l'_def)
    qed
  qed
  obtain s' where "drop_node (s\<lparr>nodes := h\<rparr>) (Some x) = Some s'" "list_ok s' l' (xs @ ys) (own(x := None)) hs"
      "relinks (set (xs @ ys)) x s s'" "nodes s' x = None"
    using linked_out [OF ok, of h, OF _ l'] by (auto simp: h_def)
  with l'(4) run show ?thesis by auto
qed

lemma pop_front_remove:
  assumes ok: "list_ok s l (x # xs) own hs"
  shows "pop_front_unsafe s l = do { _ \<leftarrow> destroy_value s (Some x); list_remove_node s l (Some x) }"
proof -
  note L = list_okD [OF ok]
  obtain nx where nx: "nodes s x = Some nx" using list_ok_live [OF ok, of x] by (auto simp: live_def)
  then have p: "lprev nx = None" "head l = Some x" using L(3,6) by (auto simp: lp_def)
  show ?thesis
    by (cases "lnext nx") (auto simp: pop_front_unsafe_def list_remove_node_def node_at_def p nx destroy_value_def)
qed

lemma pop_back_remove:
  assumes ok: "list_ok s l (xs @ [x]) own hs"
  shows "pop_back_unsafe s l = do { _ \<leftarrow> destroy_value s (Some x); list_remove_node s l (Some x) }"
proof -
  note L = list_okD [OF ok]
  obtain nx where nx: "nodes s x = Some nx" using list_ok_live [OF ok, of x] by (auto simp: live_def)
  then have p: "lnext nx = None" "tail l = Some x" using L(4,6) by (auto simp: ln_def)
  have swap: "l\<lparr>tail := None, head := None, len := c\<rparr> = l\<lparr>head := None, tail := None, len := c\<rparr>" for c by (cases l) simp
  show ?thesis
    by (cases "lprev nx") (auto simp: pop_back_unsafe_def list_remove_node_def node_at_def p nx destroy_value_def swap)
qed

lemma destroy_value_ok:
  "live (nodes s) x \<Longrightarrow> cell s x \<noteq> None \<Longrightarrow> destroy_value s (Some x) = Some ()"
  by (auto simp: destroy_value_def node_at_def live_def cell_def)

section \<open>The interface\<close>

lemma construct_cell_ok:
  assumes ok: "list_ok s l xs own hs" and y: "own y \<noteq> None"
  shows "\<exists>s'. construct_cell s y v = Some s' \<and> list_ok s' l xs own hs \<and>
    nodes s' = (nodes s)(y \<mapsto> (the (nodes s y))\<lparr>lstorage := Some v\<rparr>)"
proof -
  let ?h = "(nodes s)(y \<mapsto> (the (nodes s y))\<lparr>lstorage := Some v\<rparr>)"
  note L = list_okD [OF ok]
  have lv: "live (nodes s) y" using store_okD(2) [OF L(1)] y by blast
  have "lp ?h = lp (nodes s)" "ln ?h = ln (nodes s)" by (auto simp: lp_def ln_def fun_eq_iff)
  moreover have "store_ok (s\<lparr>nodes := ?h\<rparr>) own hs"
    using lv by (intro store_ok_nodes [OF L(1)]) auto
  ultimately have "list_ok (s\<lparr>nodes := ?h\<rparr>) l xs own hs" using L by (simp add: list_ok_def)
  then show ?thesis using lv by (simp add: construct_cell_def update_node_dom)
qed

lemma list_with_handle_ok:
  assumes ok: "list_ok s l xs own hs" and i: "own i \<noteq> None" and len: "length hs < 2 ^ 61"
  shows "\<exists>s'. with_handle s i = Some (s', Some i) \<and> list_ok s' l xs own (Some i # hs) \<and> nodes s' = nodes s"
  using with_handle_store [OF list_okD(1) [OF ok] i len] list_okD [OF ok] by (auto simp: list_ok_def)

text \<open>What an insertion does: a new node with the value and a handle, nothing else.\<close>

definition inserts :: "'a list_store \<Rightarrow> 'a list_store \<Rightarrow> nat set \<Rightarrow> nat \<Rightarrow> 'a \<Rightarrow> bool" where
  "inserts s s' S y v \<longleftrightarrow> relinks S y s s' \<and> cell s' y = Some v"

lemma finish_emplace:
  assumes ok: "list_ok s1 l1 zs (own(y \<mapsto> list_id l)) hs" and len: "length hs < 2 ^ 61" and r: "relinks S y s s1"
  shows "\<exists>s2 s3. with_handle s1 y = Some (s2, Some y) \<and> construct_cell s2 y v = Some s3 \<and>
    list_ok s3 l1 zs (own(y \<mapsto> list_id l)) (Some y # hs) \<and> inserts s s3 S y v"
proof -
  obtain s2 where s2: "with_handle s1 y = Some (s2, Some y)" "list_ok s2 l1 zs (own(y \<mapsto> list_id l)) (Some y # hs)"
      "nodes s2 = nodes s1"
    using list_with_handle_ok [OF ok _ len, of y] by auto
  obtain s3 where "construct_cell s2 y v = Some s3" "list_ok s3 l1 zs (own(y \<mapsto> list_id l)) (Some y # hs)"
      "nodes s3 = (nodes s2)(y \<mapsto> (the (nodes s2 y))\<lparr>lstorage := Some v\<rparr>)"
    using construct_cell_ok [OF s2(2), of y v] by auto
  with s2 r show ?thesis by (auto simp: inserts_def relinks_def cell_def)
qed

lemma list_emplace_before_ok:
  assumes ok: "list_ok s l (xs @ x # ys) own hs" and len: "length hs < 2 ^ 61"
  shows "\<exists>s' l' y. list_emplace_before s l (Some x) v = Some (s', l', Some y) \<and> own y = None \<and>
    list_ok s' l' (xs @ y # x # ys) (own(y \<mapsto> list_id l)) (Some y # hs) \<and> inserts s s' (set (xs @ x # ys)) y v \<and> list_id l' = list_id l"
proof -
  obtain s1 l1 y where c: "create_node_before s l (Some x) = Some (s1, l1, y)" "own y = None"
      "list_ok s1 l1 (xs @ y # x # ys) (own(y \<mapsto> list_id l)) hs" "relinks (set (xs @ x # ys)) y s s1" "list_id l1 = list_id l"
    using create_node_before_ok [OF ok] by blast
  have "counted_check (tagged s) (Some x) (list_id l) = Some True"
    using check_in_store [OF list_okD(1,7) [OF ok], of x] by simp
  with c finish_emplace [OF c(3) len c(4), of v] show ?thesis
    by (auto simp: list_emplace_before_def emplace_before_raw_def)
qed

lemma list_emplace_after_ok:
  assumes ok: "list_ok s l (xs @ x # ys) own hs" and len: "length hs < 2 ^ 61"
  shows "\<exists>s' l' y. list_emplace_after s l (Some x) v = Some (s', l', Some y) \<and> own y = None \<and>
    list_ok s' l' (xs @ x # y # ys) (own(y \<mapsto> list_id l)) (Some y # hs) \<and> inserts s s' (set (xs @ x # ys)) y v \<and> list_id l' = list_id l"
proof -
  obtain s1 l1 y where c: "create_node_after s l (Some x) = Some (s1, l1, y)" "own y = None"
      "list_ok s1 l1 (xs @ x # y # ys) (own(y \<mapsto> list_id l)) hs" "relinks (set (xs @ x # ys)) y s s1" "list_id l1 = list_id l"
    using create_node_after_ok [OF ok] by blast
  have "counted_check (tagged s) (Some x) (list_id l) = Some True"
    using check_in_store [OF list_okD(1,7) [OF ok], of x] by simp
  with c finish_emplace [OF c(3) len c(4), of v] show ?thesis
    by (auto simp: list_emplace_after_def emplace_after_raw_def)
qed

lemma list_emplace_front_ok:
  assumes ok: "list_ok s l xs own hs" and len: "length hs < 2 ^ 61"
  shows "\<exists>s' l' y. list_emplace_front s l v = Some (s', l', Some y) \<and> own y = None \<and>
    list_ok s' l' (y # xs) (own(y \<mapsto> list_id l)) (Some y # hs) \<and> inserts s s' (set xs) y v \<and> list_id l' = list_id l"
proof -
  have "\<exists>s1 l1 y. emplace_front_raw s l = Some (s1, l1, y) \<and> own y = None \<and> list_ok s1 l1 (y # xs) (own(y \<mapsto> list_id l)) hs \<and>
      relinks (set xs) y s s1 \<and> list_id l1 = list_id l"
  proof (cases xs)
    case Nil
    obtain s1 l1 y where c: "create_node_empty s l = (s1, l1, y)" by (metis prod_cases3)
    have "head l = None" using list_okD(3) [OF ok] Nil by simp
    with create_node_empty_ok [OF ok [unfolded Nil] c] c Nil show ?thesis by (auto simp: emplace_front_raw_def)
  next
    case (Cons x zs)
    then have "head l = Some x" using list_okD(3) [OF ok] by simp
    with create_node_before_ok [of s l "[]" x zs own hs] ok Cons show ?thesis by (auto simp: emplace_front_raw_def)
  qed
  then obtain s1 l1 y where c: "emplace_front_raw s l = Some (s1, l1, y)" "own y = None"
      "list_ok s1 l1 (y # xs) (own(y \<mapsto> list_id l)) hs" "relinks (set xs) y s s1" "list_id l1 = list_id l" by blast
  with finish_emplace [OF c(3) len c(4), of v] show ?thesis by (auto simp: list_emplace_front_def)
qed

lemma list_emplace_back_ok:
  assumes ok: "list_ok s l xs own hs" and len: "length hs < 2 ^ 61"
  shows "\<exists>s' l' y. list_emplace_back s l v = Some (s', l', Some y) \<and> own y = None \<and>
    list_ok s' l' (xs @ [y]) (own(y \<mapsto> list_id l)) (Some y # hs) \<and> inserts s s' (set xs) y v \<and> list_id l' = list_id l"
proof -
  have "\<exists>s1 l1 y. emplace_back_raw s l = Some (s1, l1, y) \<and> own y = None \<and> list_ok s1 l1 (xs @ [y]) (own(y \<mapsto> list_id l)) hs \<and>
      relinks (set xs) y s s1 \<and> list_id l1 = list_id l"
  proof (cases xs rule: rev_cases)
    case Nil
    obtain s1 l1 y where c: "create_node_empty s l = (s1, l1, y)" by (metis prod_cases3)
    have "tail l = None" using list_okD(4) [OF ok] Nil by simp
    with create_node_empty_ok [OF ok [unfolded Nil] c] c Nil show ?thesis by (auto simp: emplace_back_raw_def)
  next
    case (snoc zs x)
    then have "tail l = Some x" using list_okD(4) [OF ok] by simp
    with create_node_after_ok [of s l zs x "[]" own hs] ok snoc show ?thesis by (auto simp: emplace_back_raw_def)
  qed
  then obtain s1 l1 y where c: "emplace_back_raw s l = Some (s1, l1, y)" "own y = None"
      "list_ok s1 l1 (xs @ [y]) (own(y \<mapsto> list_id l)) hs" "relinks (set xs) y s s1" "list_id l1 = list_id l" by blast
  with finish_emplace [OF c(3) len c(4), of v] show ?thesis by (auto simp: list_emplace_back_def)
qed

lemma destroy_and_remove:
  assumes ok: "list_ok s l (xs @ x # ys) own hs" and v: "cell s x \<noteq> None"
  shows "\<exists>s' l'. do { _ \<leftarrow> destroy_value s (Some x); list_remove_node s l (Some x) } = Some (s', l') \<and>
    list_ok s' l' (xs @ ys) (own(x := None)) hs \<and> relinks (set (xs @ ys)) x s s' \<and> nodes s' x = None \<and> list_id l' = list_id l"
  using list_remove_node_ok [OF ok] destroy_value_ok [of s x] list_ok_live [OF ok, of x] v by auto

lemma list_remove_ok:
  assumes ok: "list_ok s l (xs @ x # ys) own hs" and v: "cell s x \<noteq> None"
  shows "\<exists>s' l'. list_remove s l (Some x) = Some (s', l') \<and> list_ok s' l' (xs @ ys) (own(x := None)) hs \<and>
    relinks (set (xs @ ys)) x s s' \<and> nodes s' x = None \<and> list_id l' = list_id l"
  using destroy_and_remove [OF assms] check_in_store [OF list_okD(1,7) [OF ok], of x] by (auto simp: list_remove_def)

lemma pop_front_ok:
  assumes ok: "list_ok s l (x # xs) own hs" and v: "cell s x \<noteq> None"
  shows "\<exists>s' l'. pop_front_unsafe s l = Some (s', l') \<and> list_ok s' l' xs (own(x := None)) hs \<and>
    relinks (set xs) x s s' \<and> nodes s' x = None \<and> list_id l' = list_id l"
  using destroy_and_remove [of s l "[]" x xs own hs] ok v pop_front_remove [OF ok] by simp

lemma pop_back_ok:
  assumes ok: "list_ok s l (xs @ [x]) own hs" and v: "cell s x \<noteq> None"
  shows "\<exists>s' l'. pop_back_unsafe s l = Some (s', l') \<and> list_ok s' l' xs (own(x := None)) hs \<and>
    relinks (set xs) x s s' \<and> nodes s' x = None \<and> list_id l' = list_id l"
  using destroy_and_remove [of s l xs x "[]" own hs] ok v pop_back_remove [OF ok] by simp

lemma list_clear_ok:
  assumes "list_ok s l xs own hs" "\<forall>i \<in> set xs. cell s i \<noteq> None"
  shows "\<exists>s' l'. list_clear s l = Some (s', l') \<and> list_ok s' l' [] (own |` (- set xs)) hs \<and> list_id l' = list_id l \<and>
    (\<forall>j. nodes s' j = (if j \<in> set xs then None else nodes s j))"
  using assms
proof (induction xs arbitrary: s l own)
  case Nil
  then have "head l = None" using list_okD(3) by fastforce
  moreover have "own |` UNIV = own" by (simp add: restrict_map_def)
  ultimately show ?case using Nil by (subst list_clear.simps) auto
next
  case (Cons x xs)
  obtain s1 l1 where p: "pop_front_unsafe s l = Some (s1, l1)" "list_ok s1 l1 xs (own(x := None)) hs"
      "relinks (set xs) x s s1" "nodes s1 x = None" "list_id l1 = list_id l"
    using pop_front_ok [OF Cons.prems(1)] Cons.prems(2) by auto
  have x: "x \<notin> set xs" using list_okD(2) [OF Cons.prems(1)] by simp
  have "\<forall>i \<in> set xs. cell s1 i \<noteq> None" using Cons.prems(2) relinksD(1) [OF p(3)] x by force
  from Cons.IH [OF p(2) this] obtain s2 l2 where c: "list_clear s1 l1 = Some (s2, l2)" "list_ok s2 l2 [] ((own(x := None)) |` (- set xs)) hs"
      "list_id l2 = list_id l1" "\<forall>j. nodes s2 j = (if j \<in> set xs then None else nodes s1 j)" by blast
  have "head l = Some x" using list_okD(3) [OF Cons.prems(1)] by simp
  then have "list_clear s l = Some (s2, l2)" using p(1) c(1) by (subst list_clear.simps) simp
  moreover have "(own(x := None)) |` (- set xs) = own |` (- set (x # xs))" by (auto simp: restrict_map_def fun_eq_iff)
  moreover have "nodes s2 j = (if j \<in> set (x # xs) then None else nodes s j)" for j
    using c(4) p(4) relinksD(2) [OF p(3), of j] by auto
  ultimately show ?case using c p(5) by auto
qed

section \<open>Other lists in the same store\<close>

lemma list_ok_other:
  assumes ok: "list_ok s ol zs own hs" and st: "store_ok s' own' hs'"
    and same: "\<And>j. j \<in> set zs \<Longrightarrow> nodes s' j = nodes s j \<and> own' j = own j"
  shows "list_ok s' ol zs own' hs'"
proof -
  have "seg (lp (nodes s')) (ln (nodes s')) None zs None = seg (lp (nodes s)) (ln (nodes s)) None zs None"
    using same by (intro seg_cong) (auto simp: lp_def ln_def)
  then show ?thesis using list_okD [OF ok] st same by (simp add: list_ok_def)
qed

lemma cell_eq: "nodes s' j = nodes s j \<Longrightarrow> cell s' j = cell s j"
  by (simp add: cell_def)

section \<open>Copying\<close>

lemma push_value_ok:
  assumes ok: "list_ok s l xs own hs" and len: "length hs < 2 ^ 61"
  shows "\<exists>s' l' y. push_value s l v = Some (s', l') \<and> own y = None \<and> list_ok s' l' (xs @ [y]) (own(y \<mapsto> list_id l)) hs \<and>
    inserts s s' (set xs) y v \<and> list_id l' = list_id l"
proof -
  obtain s1 l1 y where e: "list_emplace_back s l v = Some (s1, l1, Some y)" "own y = None"
      "list_ok s1 l1 (xs @ [y]) (own(y \<mapsto> list_id l)) (Some y # hs)" "inserts s s1 (set xs) y v" "list_id l1 = list_id l"
    using list_emplace_back_ok [OF ok len] by blast
  obtain s2 where d: "drop_handle s1 (Some y) = Some s2" "store_ok s2 (own(y \<mapsto> list_id l)) hs" "nodes s2 = nodes s1"
    using drop_handle_ok [of s1 _ "[]" "Some y" hs] list_okD(1) [OF e(3)] by auto
  have "push_value s l v = Some (s2, l1)"
    using e(1) d(1) by (auto simp: push_value_def drop_handle_def elim!: bind_SomeE)
  moreover have "list_ok s2 l1 (xs @ [y]) (own(y \<mapsto> list_id l)) hs"
    using list_ok_other [OF e(3) d(2)] d(3) by simp
  moreover have "inserts s s2 (set xs) y v" using e(4) d(3) by (simp add: inserts_def relinks_def cell_def)
  ultimately show ?thesis using e(2,5) by blast
qed

text \<open>The source of a copy: nodes that are not on the target list.\<close>

definition source :: "'a list_store \<Rightarrow> ptr \<Rightarrow> nat list \<Rightarrow> 'a list \<Rightarrow> bool" where
  "source s p zs vs \<longleftrightarrow> p = first zs None \<and> (\<exists>q. seg (lp (nodes s)) (ln (nodes s)) q zs None) \<and>
     (\<forall>z \<in> set zs. live (nodes s) z) \<and> map (cell s) zs = map Some vs"

lemma source_same:
  assumes "source s p zs vs" "\<And>j. j \<in> set zs \<Longrightarrow> nodes s' j = nodes s j"
  shows "source s' p zs vs"
proof -
  have "seg (lp (nodes s')) (ln (nodes s')) q zs None = seg (lp (nodes s)) (ln (nodes s)) q zs None" for q
    using assms(2) by (intro seg_cong) (auto simp: lp_def ln_def)
  moreover have "map (cell s') zs = map (cell s) zs" "\<forall>z \<in> set zs. live (nodes s') z = live (nodes s) z"
    using assms(2) by (simp_all add: cell_def live_def)
  ultimately show ?thesis using assms(1) unfolding source_def by metis
qed

lemma source_Cons:
  assumes "source s p (z # zs) (v # vs)"
  shows "p = Some z" "node_at (nodes s) (Some z) = Some (the (nodes s z))" "lstorage (the (nodes s z)) = Some v"
    "source s (lnext (the (nodes s z))) zs vs"
  using assms by (auto simp: source_def node_at_dom cell_def ln_def intro!: exI [of _ "Some z"])

text \<open>Copying adds new nodes for the values; nothing outside the target list changes.\<close>

definition appended :: "'a list_store \<Rightarrow> 'a list_store \<Rightarrow> nat list \<Rightarrow> nat list \<Rightarrow> 'a list \<Rightarrow> bool" where
  "appended s s' xs ys vs \<longleftrightarrow> map (cell s') ys = map Some vs \<and>
     (\<forall>j. j \<notin> set ys \<longrightarrow> cell s' j = cell s j) \<and> (\<forall>j. j \<notin> set ys \<longrightarrow> j \<notin> set xs \<longrightarrow> nodes s' j = nodes s j)"

definition own_more :: "(nat \<Rightarrow> u64 option) \<Rightarrow> nat list \<Rightarrow> u64 \<Rightarrow> nat \<Rightarrow> u64 option" where
  "own_more own ys i = (\<lambda>j. if j \<in> set ys then Some i else own j)"

lemma append_nodes_ok:
  assumes "list_ok s l xs own hs" "source s p zs vs" "set zs \<inter> set xs = {}" "length hs < 2 ^ 61"
  shows "\<exists>s' l' ys. append_nodes s l p = Some (s', l') \<and> list_ok s' l' (xs @ ys) (own_more own ys (list_id l)) hs \<and>
    (\<forall>y \<in> set ys. own y = None) \<and> appended s s' xs ys vs \<and> list_id l' = list_id l"
  using assms
proof (induction zs arbitrary: s l xs own p vs)
  case Nil
  then have "p = None" "vs = []" by (auto simp: source_def)
  moreover from this have "append_nodes s l p = Some (s, l)" by (subst append_nodes.simps) simp
  moreover note calculation
  ultimately show ?case using Nil by (intro exI [of _ s] exI [of _ l] exI [of _ "[]"]) (auto simp: appended_def own_more_def)
next
  case (Cons z zs)
  then obtain v vs' where vs: "vs = v # vs'" by (cases vs) (auto simp: source_def)
  note S = source_Cons [OF Cons.prems(2) [unfolded vs]]
  obtain nz where nz: "nodes s z = Some nz" using S(2) by (cases "nodes s z") (auto simp: node_at_def)
  have zlive: "own z \<noteq> None" using Cons.prems(2) store_okD(2) [OF list_okD(1) [OF Cons.prems(1)]] by (auto simp: source_def)
  obtain s1 l1 y where p: "push_value s l v = Some (s1, l1)" "own y = None" "list_ok s1 l1 (xs @ [y]) (own(y \<mapsto> list_id l)) hs"
      "inserts s s1 (set xs) y v" "list_id l1 = list_id l"
    using push_value_ok [OF Cons.prems(1,4)] by blast
  note R = relinksD [OF p(4) [unfolded inserts_def, THEN conjunct1]]
  have fresh: "y \<notin> set (z # zs)"
    using Cons.prems(2) p(2) store_okD(2) [OF list_okD(1) [OF Cons.prems(1)]] by (auto simp: source_def)
  have same: "nodes s1 j = nodes s j" if "j \<in> set (z # zs)" for j
    using that R(2) [of j] fresh Cons.prems(3) by auto
  then have "source s1 (lnext (the (nodes s z))) zs vs'" using source_same [OF S(4)] by simp
  moreover have "set zs \<inter> set (xs @ [y]) = {}" using Cons.prems(3) fresh by auto
  ultimately obtain s2 l2 ys where I: "append_nodes s1 l1 (lnext (the (nodes s z))) = Some (s2, l2)"
      "list_ok s2 l2 ((xs @ [y]) @ ys) (own_more (own(y \<mapsto> list_id l)) ys (list_id l1)) hs"
      "\<forall>y' \<in> set ys. (own(y \<mapsto> list_id l)) y' = None" "appended s1 s2 (xs @ [y]) ys vs'" "list_id l2 = list_id l1"
    using Cons.IH [OF p(3) _ _ Cons.prems(4)] by blast
  have "append_nodes s l p = Some (s2, l2)"
    using S(1,3) nz p(1) I(1) same [of z] by (subst append_nodes.simps) (simp add: node_at_def)
  moreover have "own_more (own(y \<mapsto> list_id l)) ys (list_id l1) = own_more own (y # ys) (list_id l)"
    using p(5) by (auto simp: own_more_def fun_eq_iff)
  moreover have ys: "y \<notin> set ys" "\<forall>y' \<in> set (y # ys). own y' = None" using I(3) p(2) by (auto split: if_splits)
  moreover have "appended s s2 xs (y # ys) vs"
    using I(4) p(4) R ys(1) by (auto simp: appended_def vs inserts_def)
  ultimately show ?case using I(2,5) p(5)
    by (intro exI [of _ s2] exI [of _ l2] exI [of _ "y # ys"]) simp
qed

lemma list_source:
  assumes "list_ok s ol zs own hs" "map (cell s) zs = map Some vs"
  shows "source s (head ol) zs vs"
  using list_okD [OF assms(1)] list_ok_live [OF assms(1)] assms(2) by (auto simp: source_def)

end
