(* ===== verification/CListCopy.thy ===== *)
theory CListCopy
  imports CListOk
begin

text \<open>Copying and assigning whole lists (\<open>list (const list&)\<close> and the three loops of
  \<open>operator= (const list&)\<close>), and what a client sees through its handles.\<close>

section \<open>Overwriting values in place\<close>

definition same_links :: "'a list_store \<Rightarrow> 'a list_store \<Rightarrow> bool" where
  "same_links s s' \<longleftrightarrow> tagged s' = tagged s \<and> lp (nodes s') = lp (nodes s) \<and> ln (nodes s') = ln (nodes s) \<and>
     (\<forall>j. live (nodes s') j = live (nodes s) j)"

lemma same_links_refl: "same_links s s"
  by (simp add: same_links_def)

lemma same_links_trans: "same_links s s' \<Longrightarrow> same_links s' s'' \<Longrightarrow> same_links s s''"
  by (simp add: same_links_def)

lemma same_links_list_ok:
  assumes "list_ok s l xs own hs" "same_links s s'"
  shows "list_ok s' l xs own hs"
  using assms by (simp add: list_ok_def same_links_def store_ok_def)

lemma set_cell:
  assumes "live (nodes s) i"
  obtains h where "update_node (nodes s) (Some i) (lstorage_update (\<lambda>_. Some v)) = Some h"
    "same_links s (s\<lparr>nodes := h\<rparr>)" "cell (s\<lparr>nodes := h\<rparr>) i = Some v" "\<And>j. j \<noteq> i \<Longrightarrow> h j = nodes s j"
proof
  let ?h = "(nodes s)(i \<mapsto> (the (nodes s i))\<lparr>lstorage := Some v\<rparr>)"
  show "update_node (nodes s) (Some i) (lstorage_update (\<lambda>_. Some v)) = Some ?h" using assms by (simp add: update_node_dom)
  show "same_links s (s\<lparr>nodes := ?h\<rparr>)" using assms by (auto simp: same_links_def lp_def ln_def fun_eq_iff)
qed (simp_all add: cell_def)

text \<open>\<open>target s p ps\<close>: the nodes \<open>ps\<close> of the list assigned to, from \<open>p\<close> on.\<close>

definition target :: "'a list_store \<Rightarrow> ptr \<Rightarrow> nat list \<Rightarrow> bool" where
  "target s p ps \<longleftrightarrow> p = first ps None \<and> (\<exists>q. seg (lp (nodes s)) (ln (nodes s)) q ps None) \<and>
     (\<forall>i \<in> set ps. live (nodes s) i \<and> cell s i \<noteq> None) \<and> distinct ps"

lemma overwrite_nodes_ok:
  assumes "target s p ps" "source s q zs vs" "set ps \<inter> set zs = {}"
  shows "\<exists>s'. overwrite_nodes s p q = Some (s', first (drop (length zs) ps) None, first (drop (length ps) zs) None) \<and>
    same_links s s' \<and> map (cell s') (take (length zs) ps) = map Some (take (length ps) vs) \<and>
    (\<forall>j. j \<notin> set (take (length zs) ps) \<longrightarrow> nodes s' j = nodes s j)"
  using assms
proof (induction ps arbitrary: s p q zs vs)
  case Nil
  then have "p = None" "q = first zs None" by (simp_all add: target_def source_def)
  then show ?case by (subst overwrite_nodes.simps) (simp add: same_links_refl)
next
  case (Cons x ps)
  show ?case
  proof (cases zs)
    case Nil
    then have "q = None" "vs = []" "p = Some x" using Cons.prems by (auto simp: target_def source_def)
    then show ?thesis using Nil by (subst overwrite_nodes.simps) (simp add: same_links_refl)
  next
    case z: (Cons z zs')
    then obtain v vs' where vs: "vs = v # vs'" using Cons.prems(2) by (cases vs) (auto simp: source_def)
    note S = source_Cons [OF Cons.prems(2) [unfolded z vs]]
    have T: "p = Some x" "live (nodes s) x" "cell s x \<noteq> None" "x \<notin> set ps" "x \<noteq> z" "x \<notin> set zs'"
      using Cons.prems(1,3) by (auto simp: target_def z)
    obtain nx where nx: "nodes s x = Some nx" using T(2) by (auto simp: live_def)
    obtain nz where nz: "nodes s z = Some nz" using S(2) by (cases "nodes s z") (auto simp: node_at_def)
    obtain ov where ov: "lstorage nx = Some ov" using T(3) nx by (auto simp: cell_def)
    obtain h where h: "update_node (nodes s) (Some x) (lstorage_update (\<lambda>_. Some v)) = Some h"
        "same_links s (s\<lparr>nodes := h\<rparr>)" "cell (s\<lparr>nodes := h\<rparr>) x = Some v" "\<And>j. j \<noteq> x \<Longrightarrow> h j = nodes s j"
      using set_cell [OF T(2)] by blast
    let ?s = "s\<lparr>nodes := h\<rparr>"
    have "cell ?s i = cell s i" if "i \<in> set ps" for i using that h(4) [of i] T(4) by (cases "i = x") (auto simp: cell_def)
    then have "target ?s (lnext nx) ps"
      using Cons.prems(1) h(2) nx by (auto simp: target_def same_links_def ln_def intro!: exI [of _ "Some x"])
    moreover have "source ?s (lnext nz) zs' vs'"
      using source_same [OF S(4), of ?s] h(4) T(6) nz by force
    moreover have "set ps \<inter> set zs' = {}" using Cons.prems(3) z by auto
    ultimately obtain s' where s': "overwrite_nodes ?s (lnext nx) (lnext nz) =
          Some (s', first (drop (length zs') ps) None, first (drop (length ps) zs') None)"
        "same_links ?s s'" "map (cell s') (take (length zs') ps) = map Some (take (length ps) vs')"
        "\<And>j. j \<notin> set (take (length zs') ps) \<Longrightarrow> nodes s' j = h j"
      using Cons.IH [of ?s "lnext nx" "lnext nz" zs' vs'] by auto
    have "lnext (the (h x)) = lnext nx" using h(2) nx by (auto simp: same_links_def ln_def fun_eq_iff dest: spec [of _ x])
    moreover obtain hx where hx: "h x = Some hx" using h(2) T(2) by (auto simp: same_links_def live_def)
    ultimately have "overwrite_nodes s p q = overwrite_nodes ?s (lnext nx) (lnext nz)"
      using T S(1,3) nx nz ov h(1,4) by (subst overwrite_nodes.simps) (simp add: node_at_def)
    moreover have "x \<notin> set (take (length zs') ps)" using T(4) by (meson in_set_takeD)
    then have "cell s' x = Some v" using s'(4) h(3) by (simp add: cell_def)
    moreover have "nodes s' j = nodes s j" if "j \<notin> set (take (length zs) (x # ps))" for j
      using that s'(4) [of j] h(4) [of j] by (auto simp: z)
    ultimately show ?thesis
      using s'(1-3) same_links_trans [OF h(2) s'(2)] by (auto simp: z vs)
  qed
qed

section \<open>Removing the rest\<close>

lemma remove_rest_ok:
  assumes "list_ok s l (xs @ ps) own hs" "\<forall>i \<in> set ps. cell s i \<noteq> None"
  shows "\<exists>s' l'. remove_rest s l (first ps None) = Some (s', l') \<and> list_ok s' l' xs (own |` (- set ps)) hs \<and>
    list_id l' = list_id l \<and> (\<forall>j. j \<notin> set ps \<longrightarrow> cell s' j = cell s j) \<and>
    (\<forall>j. j \<notin> set (xs @ ps) \<longrightarrow> nodes s' j = nodes s j)"
  using assms
proof (induction ps arbitrary: s l own)
  case Nil
  moreover have "own |` UNIV = own" by (simp add: restrict_map_def)
  ultimately show ?case by (subst remove_rest.simps) simp
next
  case (Cons x ps)
  have ok: "list_ok s l (xs @ x # ps) own hs" and d: "x \<notin> set ps" using Cons.prems(1) list_okD(2) by fastforce+
  obtain nx where nx: "nodes s x = Some nx" using list_ok_live [OF ok, of x] by (auto simp: live_def)
  have nxt: "lnext nx = first ps None" using chain_next [OF list_okD(6) [OF ok]] nx by (simp add: ln_def)
  have lx: "live (nodes s) x" using nx by (simp add: live_def)
  have dv: "destroy_value s (Some x) = Some ()" using destroy_value_ok [OF lx] Cons.prems(2) by simp
  obtain s1 l1 where r: "list_remove_node s l (Some x) = Some (s1, l1)" "list_ok s1 l1 (xs @ ps) (own(x := None)) hs"
      "relinks (set (xs @ ps)) x s s1" "list_id l1 = list_id l"
    using list_remove_node_ok [OF ok] by blast
  have "\<forall>i \<in> set ps. cell s1 i \<noteq> None" using Cons.prems(2) relinksD(1) [OF r(3)] d by force
  from Cons.IH [OF r(2) this] obtain s2 l2 where I: "remove_rest s1 l1 (first ps None) = Some (s2, l2)"
      "list_ok s2 l2 xs ((own(x := None)) |` (- set ps)) hs" "list_id l2 = list_id l1"
      "\<forall>j. j \<notin> set ps \<longrightarrow> cell s2 j = cell s1 j" "\<forall>j. j \<notin> set (xs @ ps) \<longrightarrow> nodes s2 j = nodes s1 j"
    by blast
  have "remove_rest s l (first (x # ps) None) = Some (s2, l2)"
    using nx nxt dv r(1) I(1) by (subst remove_rest.simps) (simp add: node_at_def)
  moreover have "(own(x := None)) |` (- set ps) = own |` (- set (x # ps))" by (auto simp: restrict_map_def fun_eq_iff)
  ultimately show ?case
    using I r(4) relinksD [OF r(3)] by auto
qed

section \<open>Copy construction and assignment\<close>

lemma own_more_None: "own_more own ys i j = (if j \<in> set ys then Some i else own j)"
  by (simp add: own_more_def)

lemma list_copy_ok:
  assumes ok: "list_ok s ol zs own hs" and vs: "map (cell s) zs = map Some vs" and len: "length hs < 2 ^ 61"
  shows "\<exists>s' l' ys own'. list_copy s i ol = Some (s', l') \<and> list_ok s' l' ys own' hs \<and> list_ok s' ol zs own' hs \<and>
    map (cell s') ys = map Some vs \<and> map (cell s') zs = map Some vs \<and> set ys \<inter> set zs = {} \<and> list_id l' = i"
proof -
  have new: "list_ok s (list_new i) [] own hs" using list_new_ok [OF list_okD(1) [OF ok]] .
  obtain s' l' ys where A: "list_copy s i ol = Some (s', l')" "list_ok s' l' ([] @ ys) (own_more own ys (list_id (list_new i))) hs"
      "\<forall>y \<in> set ys. own y = None" "appended s s' [] ys vs" "list_id l' = list_id (list_new i)"
    using append_nodes_ok [OF new list_source [OF ok vs] _ len] by (auto simp: list_copy_def)
  have dis: "set ys \<inter> set zs = {}" using A(3) list_ok_live [OF ok] by blast
  then have "list_ok s' ol zs (own_more own ys (list_id (list_new i))) hs"
    using A(4) by (intro list_ok_other [OF ok list_okD(1) [OF A(2)]]) (auto simp: appended_def own_more_def)
  moreover have "map (cell s') zs = map (cell s) zs" using A(4) dis by (auto simp: appended_def)
  ultimately show ?thesis using A dis vs by (auto simp: appended_def list_new_def)
qed

lemma list_assign_ok:
  assumes ok: "list_ok s l xs own hs" and ok': "list_ok s ol zs own hs" and dis: "set xs \<inter> set zs = {}"
    and vx: "\<forall>x \<in> set xs. cell s x \<noteq> None" and vs: "map (cell s) zs = map Some vs" and len: "length hs < 2 ^ 61"
  shows "\<exists>s' l' ys own'. list_assign s l ol = Some (s', l') \<and> list_ok s' l' ys own' hs \<and> list_ok s' ol zs own' hs \<and>
    map (cell s') ys = map Some vs \<and> map (cell s') zs = map Some vs \<and> set ys \<inter> set zs = {} \<and> list_id l' = list_id l"
proof -
  define n where "n = length zs"
  have lv: "length vs = n" using vs by (metis length_map n_def)
  have tgt: "target s (head l) xs" using list_okD [OF ok] list_ok_live [OF ok] vx by (auto simp: target_def)
  obtain s1 where O: "overwrite_nodes s (head l) (head ol) = Some (s1, first (drop n xs) None, first (drop (length xs) zs) None)"
      "same_links s s1" "map (cell s1) (take n xs) = map Some (take (length xs) vs)"
      "\<And>j. j \<notin> set (take n xs) \<Longrightarrow> nodes s1 j = nodes s j"
    using overwrite_nodes_ok [OF tgt list_source [OF ok' vs] dis] by (auto simp: n_def)
  have ok1: "list_ok s1 l (take n xs @ drop n xs) own hs" using same_links_list_ok [OF ok O(2)] by simp
  have notin: "j \<notin> set (take n xs)" if "j \<in> set (drop n xs)" for j
    using that list_okD(2) [OF ok1] unfolding distinct_append by blast
  have zs1: "nodes s1 j = nodes s j" if "j \<in> set zs" for j
    using that dis O(4) by (meson disjoint_iff in_set_takeD)
  have "\<forall>i \<in> set (drop n xs). cell s1 i \<noteq> None"
    using vx O(4) notin by (metis cell_eq in_set_dropD)
  from remove_rest_ok [OF ok1 this] obtain s2 l2 where R: "remove_rest s1 l (first (drop n xs) None) = Some (s2, l2)"
      "list_ok s2 l2 (take n xs) (own |` (- set (drop n xs))) hs" "list_id l2 = list_id l"
      "\<And>j. j \<notin> set (drop n xs) \<Longrightarrow> cell s2 j = cell s1 j" "\<And>j. j \<notin> set xs \<Longrightarrow> nodes s2 j = nodes s1 j"
    by auto
  have zs2: "nodes s2 j = nodes s j" if "j \<in> set zs" for j using that dis R(5) zs1 by (metis disjoint_iff)
  let ?own = "own |` (- set (drop n xs))"
  have ozs: "?own j = own j" if "j \<in> set zs" for j
    using that dis in_set_dropD [of j n xs] by (auto simp: restrict_map_def)
  have ok2: "list_ok s2 ol zs ?own hs"
    using zs2 ozs by (intro list_ok_other [OF ok' list_okD(1) [OF R(2)]]) simp
  define k where "k = length xs"
  have src: "source s2 (first (drop k zs) None) (drop k zs) (drop k vs)"
  proof -
    have "map (cell s2) zs = map Some vs" using vs zs2 by (metis (no_types, lifting) cell_eq map_cong)
    then have "map (cell s2) (drop k zs) = map Some (drop k vs)" by (metis drop_map)
    moreover have "seg (lp (nodes s2)) (ln (nodes s2)) (final None (take k zs)) (drop k zs) None"
      using list_okD(6) [OF ok2] by (metis append_take_drop_id seg_append)
    ultimately show ?thesis using list_ok_live [OF ok2] by (auto simp: source_def dest!: in_set_dropD)
  qed
  have "set (drop k zs) \<inter> set (take n xs) = {}" using dis by (auto dest!: in_set_dropD in_set_takeD)
  from append_nodes_ok [OF R(2) src this len] obtain s3 l3 ys where A:
      "append_nodes s2 l2 (first (drop k zs) None) = Some (s3, l3)" "list_ok s3 l3 (take n xs @ ys) (own_more ?own ys (list_id l2)) hs"
      "\<forall>y \<in> set ys. ?own y = None" "appended s2 s3 (take n xs) ys (drop k vs)" "list_id l3 = list_id l2"
    by blast
  have dys: "set ys \<inter> set zs = {}" using A(3) list_ok_live [OF ok2] by blast
  have zs3: "nodes s3 j = nodes s2 j" if "j \<in> set zs" for j
  proof -
    have "j \<notin> set ys" "j \<notin> set (take n xs)" using that dys dis in_set_takeD [of j n xs] by auto
    then show ?thesis using A(4) by (simp add: appended_def)
  qed
  have ok3: "list_ok s3 ol zs (own_more ?own ys (list_id l2)) hs"
    using zs3 dys by (intro list_ok_other [OF ok2 list_okD(1) [OF A(2)]]) (auto simp: own_more_def)
  have "cell s3 j = cell s1 j" if "j \<in> set (take n xs)" for j
  proof -
    have "j \<notin> set ys" using that A(3) list_ok_live [OF R(2), of j] by metis
    moreover have "j \<notin> set (drop n xs)" using that notin by blast
    ultimately show ?thesis using A(4) R(4) by (simp add: appended_def)
  qed
  then have "map (cell s3) (take n xs) = map Some (take k vs)" using O(3) by (simp add: k_def cong: map_cong)
  moreover have "map (cell s3) ys = map Some (drop k vs)" using A(4) by (simp add: appended_def)
  ultimately have "map (cell s3) (take n xs @ ys) = map Some (take k vs @ drop k vs)" by (simp only: map_append)
  moreover have "map (cell s3) zs = map Some vs" using vs zs3 zs2 by (metis (no_types, lifting) cell_eq map_cong)
  moreover have "list_assign s l ol = Some (s3, l3)" using O(1) R(1) A(1) by (simp add: list_assign_def k_def)
  moreover have "set (take n xs @ ys) \<inter> set zs = {}" using dys dis by (auto dest: in_set_takeD)
  ultimately show ?thesis using A(2,5) ok3 R(3) by (metis append_take_drop_id)
qed

section \<open>The list through its handles\<close>

text \<open>\<open>alone own l xs\<close>: no other container has the id of \<open>l\<close>.\<close>

definition alone :: "(nat \<Rightarrow> u64 option) \<Rightarrow> clist \<Rightarrow> nat list \<Rightarrow> bool" where
  "alone own l xs \<longleftrightarrow> (\<forall>i. own i = Some (list_id l) \<longrightarrow> i \<in> set xs)"

lemma list_data_eq:
  assumes ok: "list_ok s l xs own hs" and a: "alone own l xs"
  shows "list_data s l (Some i) = (if i \<in> set xs then cell s i else None)"
proof -
  note st = list_okD(1) [OF ok]
  have "counted_check (tagged s) (Some i) (list_id l) = Some True \<longleftrightarrow> i \<in> set xs"
    using counted_check_owned [OF st] a list_okD(7) [OF ok] by (auto simp: alone_def)
  then show ?thesis
    using list_ok_live [OF ok, of i]
    by (cases "counted_check (tagged s) (Some i) (list_id l)") (auto simp: list_data_def node_at_dom cell_def)
qed

end
