(* ===== verification/Contracts.thy ===== *)
theory Contracts
  imports Prelude
begin

text \<open>
  The contract of a container with unique keys: a client's calls, what a map from keys to
  values answers to them, and a simulation that makes every sequence of calls on a container
  answer the same.  \<open>ok n\<close> is the container's invariant with room for \<open>n\<close> more calls.

  What a client relies on when it keeps handles into a container: adding a value gives a
  new handle, removing a handle forgets exactly that one, and every other handle goes on
  giving the value it was made for.  \<open>list.hpp\<close> and \<open>hive.hpp\<close> provide this contract and
  \<open>hashmap.hpp\<close> uses it.  \<open>ok\<close> is the provider's invariant, \<open>room\<close> its capacity
  condition, \<open>look\<close> the checked access to a value.
\<close>

datatype ('k, 'v) map_call = Put 'k 'v | Assign 'k 'v | Delete 'k | Fetch 'k

datatype 'v answer = Done bool | Found "'v option"

fun map_step :: "('k \<Rightarrow> 'v option) \<Rightarrow> ('k, 'v) map_call \<Rightarrow> ('k \<Rightarrow> 'v option) \<times> 'v answer" where
  "map_step f (Put k v) = (if f k = None then (f(k \<mapsto> v), Done True) else (f, Done False))"
| "map_step f (Assign k v) = (f(k \<mapsto> v), Done (f k = None))"
| "map_step f (Delete k) = (f(k := None), Done (f k \<noteq> None))"
| "map_step f (Fetch k) = (f, Found (f k))"

fun map_run :: "('k \<Rightarrow> 'v option) \<Rightarrow> ('k, 'v) map_call list \<Rightarrow> ('k \<Rightarrow> 'v option) \<times> 'v answer list" where
  "map_run f [] = (f, [])"
| "map_run f (c # cs) = (let (f, a) = map_step f c; (f, as) = map_run f cs in (f, a # as))"

fun run_calls :: "('s \<Rightarrow> 'c \<Rightarrow> ('s \<times> 'a) option) \<Rightarrow> 's \<Rightarrow> 'c list \<Rightarrow> ('s \<times> 'a list) option" where
  "run_calls step s [] = Some (s, [])"
| "run_calls step s (c # cs) = do { (s, a) \<leftarrow> step s c; (s, as) \<leftarrow> run_calls step s cs; Some (s, a # as) }"

lemma map_run_append:
  "map_run f (cs @ ds) = (let (f, as) = map_run f cs; (f, bs) = map_run f ds in (f, as @ bs))"
  by (induction cs arbitrary: f) (auto split: prod.split)

locale key_map =
  fixes ok :: "nat \<Rightarrow> 's \<Rightarrow> bool" and look :: "'s \<Rightarrow> 'k \<Rightarrow> 'v option"
    and step :: "'s \<Rightarrow> ('k, 'v) map_call \<Rightarrow> ('s \<times> 'v answer) option"
  assumes step_ok: "ok (Suc n) s \<Longrightarrow>
      \<exists>s'. step s c = Some (s', snd (map_step (look s) c)) \<and> ok n s' \<and> look s' = fst (map_step (look s) c)"
begin

lemma run_ok:
  assumes "ok (length cs + n) s"
  shows "\<exists>s'. run_calls step s cs = Some (s', snd (map_run (look s) cs)) \<and> ok n s' \<and> look s' = fst (map_run (look s) cs)"
  using assms
proof (induction cs arbitrary: s)
  case Nil
  then show ?case by simp
next
  case (Cons c cs)
  then obtain s1 where S: "step s c = Some (s1, snd (map_step (look s) c))" "ok (length cs + n) s1" "look s1 = fst (map_step (look s) c)"
    using step_ok [of "length cs + n" s c] by auto
  from Cons.IH [OF S(2)] obtain s2 where "run_calls step s1 cs = Some (s2, snd (map_run (look s1) cs))" "ok n s2" "look s2 = fst (map_run (look s1) cs)"
    by blast
  then show ?case using S by (simp add: split_beta Let_def)
qed

text \<open>Calls on other keys in between change nothing for a key.\<close>

fun call_key :: "('k, 'v) map_call \<Rightarrow> 'k" where
  "call_key (Put k v) = k" | "call_key (Assign k v) = k" | "call_key (Delete k) = k" | "call_key (Fetch k) = k"

lemma map_run_other: "k \<notin> call_key ` set cs \<Longrightarrow> fst (map_run f cs) k = f k"
proof (induction cs arbitrary: f)
  case (Cons c cs)
  have "fst (map_step f c) k = f k" using Cons.prems by (cases c) auto
  then show ?case using Cons by (simp add: split_beta Let_def)
qed simp

lemma fetch_assigned:
  assumes "ok (length cs + Suc (Suc n)) s" "k \<notin> call_key ` set cs"
  shows "\<exists>s' as. run_calls step s (Assign k v # cs @ [Fetch k]) = Some (s', as) \<and> last as = Found (Some v)"
proof -
  have "ok (length (Assign k v # cs @ [Fetch k]) + n) s" using assms(1) by simp
  from run_ok [OF this] obtain s' where "run_calls step s (Assign k v # cs @ [Fetch k]) = Some (s', snd (map_run (look s) (Assign k v # cs @ [Fetch k])))"
    by blast
  moreover have "last (snd (map_run (look s) (Assign k v # cs @ [Fetch k]))) = Found (Some v)"
    using map_run_other [OF assms(2)] by (simp add: map_run_append split_beta Let_def)
  ultimately show ?thesis by blast
qed

end

locale handle_map =
  fixes ok :: "'s \<Rightarrow> bool" and room :: "'s \<Rightarrow> bool"
    and look :: "'s \<Rightarrow> 'h \<Rightarrow> 'v option"
    and add :: "'s \<Rightarrow> 'v \<Rightarrow> ('s \<times> 'h) option"
    and del :: "'s \<Rightarrow> 'h \<Rightarrow> 's option"
  assumes add_ok: "ok s \<Longrightarrow> room s \<Longrightarrow>
      \<exists>s' h. add s v = Some (s', h) \<and> ok s' \<and> look s h = None \<and> look s' = (look s)(h \<mapsto> v)"
    and del_ok: "ok s \<Longrightarrow> look s h \<noteq> None \<Longrightarrow>
      \<exists>s'. del s h = Some s' \<and> ok s' \<and> look s' = (look s)(h := None)"
begin

lemma addE:
  assumes "ok s" "room s"
  obtains s' h where "add s v = Some (s', h)" "ok s'" "look s h = None" "look s' = (look s)(h \<mapsto> v)"
  using add_ok [OF assms] by blast

lemma delE:
  assumes "ok s" "look s h \<noteq> None"
  obtains s' where "del s h = Some s'" "ok s'" "look s' = (look s)(h := None)"
  using del_ok [OF assms] by blast

text \<open>Adding a value and removing it again gives back what was there.\<close>

lemma add_del:
  assumes "ok s" "room s" "add s v = Some (s', h)"
  shows "\<exists>s''. del s' h = Some s'' \<and> ok s'' \<and> look s'' = look s"
proof -
  have A: "ok s'" "look s h = None" "look s' = (look s)(h \<mapsto> v)" using assms(3) add_ok [OF assms(1,2), of v] by auto
  then obtain s'' where "del s' h = Some s''" "ok s''" "look s'' = (look s')(h := None)"
    by (metis delE fun_upd_same option.distinct(1))
  then show ?thesis using A by (auto simp: fun_eq_iff)
qed

text \<open>A handle survives whatever happens to the others.\<close>

lemma stable_add: "ok s \<Longrightarrow> room s \<Longrightarrow> add s v = Some (s', h) \<Longrightarrow> look s k = Some w \<Longrightarrow> look s' k = Some w"
  using add_ok [of s v] by auto

lemma stable_del: "ok s \<Longrightarrow> look s h \<noteq> None \<Longrightarrow> del s h = Some s' \<Longrightarrow> k \<noteq> h \<Longrightarrow> look s' k = look s k"
  using del_ok [of s h] by auto

lemma del_twice: "ok s \<Longrightarrow> look s h \<noteq> None \<Longrightarrow> del s h = Some s' \<Longrightarrow> look s' h = None"
  using del_ok [of s h] by auto

end

end
