(* ===== verification/CListProps.thy ===== *)
theory CListProps
  imports CListCopy Contracts
begin

text \<open>The list as a provider of handles, and its properties.\<close>

section \<open>The list keeps values by handle\<close>

text \<open>A client's view: the store, the list and the handles alive.\<close>

type_synonym 'a list_view = "'a list_store \<times> clist \<times> ptr list"

definition view_ok :: "'a list_view \<Rightarrow> bool" where
  "view_ok = (\<lambda>(s, l, hs). \<exists>xs own. list_ok s l xs own hs \<and> alone own l xs \<and> (\<forall>x \<in> set xs. cell s x \<noteq> None))"

definition view_room :: "'a list_view \<Rightarrow> bool" where
  "view_room = (\<lambda>(s, l, hs). length hs < 2 ^ 61)"

definition view_look :: "'a list_view \<Rightarrow> ptr \<Rightarrow> 'a option" where
  "view_look = (\<lambda>(s, l, hs). list_data s l)"

definition view_add :: "'a list_view \<Rightarrow> 'a \<Rightarrow> ('a list_view \<times> ptr) option" where
  "view_add = (\<lambda>(s, l, hs) v. do { (s, l, h) \<leftarrow> list_emplace_back s l v; Some ((s, l, h # hs), h) })"

definition view_del :: "'a list_view \<Rightarrow> ptr \<Rightarrow> 'a list_view option" where
  "view_del = (\<lambda>(s, l, hs) h. do { (s, l) \<leftarrow> list_remove s l h; Some (s, l, hs) })"

lemma list_data_null: "list_data s l None = None"
  by (simp add: list_data_def counted_check_def)

lemma view_look_eq:
  assumes "list_ok s l xs own hs" "alone own l xs"
  shows "view_look (s, l, hs) = (\<lambda>p. case p of None \<Rightarrow> None | Some i \<Rightarrow> if i \<in> set xs then cell s i else None)"
  using list_data_eq [OF assms] by (auto simp: view_look_def list_data_null fun_eq_iff split: option.splits)

lemma alone_insert:
  "alone own l xs \<Longrightarrow> list_id l' = list_id l \<Longrightarrow> alone (own(y \<mapsto> list_id l)) l' (xs @ y # ys)"
  by (auto simp: alone_def)

interpretation lm: handle_map view_ok view_room view_look view_add view_del
proof
  fix s :: "'a list_view" and v
  assume "view_ok s" "view_room s"
  then obtain st l hs xs own where s: "s = (st, l, hs)" and ok: "list_ok st l xs own hs" "alone own l xs"
      "\<forall>x \<in> set xs. cell st x \<noteq> None" and len: "length hs < 2 ^ 61"
    by (auto simp: view_ok_def view_room_def)
  obtain st' l' y where E: "list_emplace_back st l v = Some (st', l', Some y)" "own y = None"
      "list_ok st' l' (xs @ [y]) (own(y \<mapsto> list_id l)) (Some y # hs)" "inserts st st' (set xs) y v" "list_id l' = list_id l"
    using list_emplace_back_ok [OF ok(1) len] by blast
  have y: "y \<notin> set xs" using list_ok_live [OF ok(1)] E(2) by blast
  have al: "alone (own(y \<mapsto> list_id l)) l' (xs @ [y])" using ok(2) E(5) by (simp add: alone_insert)
  have c: "cell st' y = Some v" "\<And>j. j \<noteq> y \<Longrightarrow> cell st' j = cell st j" using E(4) by (auto simp: inserts_def relinks_def)
  have "cell st' x \<noteq> None" if "x \<in> set (xs @ [y])" for x using that ok(3) c by (cases "x = y") auto
  then have "view_ok (st', l', Some y # hs)" using E(3) al unfolding view_ok_def by blast
  moreover have "view_look (st', l', Some y # hs) = (view_look s)(Some y \<mapsto> v)"
    using c y unfolding s view_look_eq [OF ok(1,2)] view_look_eq [OF E(3) al] by (auto simp: fun_eq_iff split: option.splits)
  moreover have "view_look s (Some y) = None" using y unfolding s view_look_eq [OF ok(1,2)] by simp
  ultimately show "\<exists>s' h. view_add s v = Some (s', h) \<and> view_ok s' \<and> view_look s h = None \<and> view_look s' = (view_look s)(h \<mapsto> v)"
    using E(1) by (auto simp: view_add_def s)
next
  fix s :: "'a list_view" and h
  assume "view_ok s" and h: "view_look s h \<noteq> None"
  then obtain st l hs xs own where s: "s = (st, l, hs)" and ok: "list_ok st l xs own hs" "alone own l xs"
      "\<forall>x \<in> set xs. cell st x \<noteq> None"
    by (auto simp: view_ok_def)
  obtain i where i: "h = Some i" "i \<in> set xs" "cell st i \<noteq> None"
    using h unfolding s view_look_eq [OF ok(1,2)] by (auto split: option.splits if_splits)
  obtain as bs where xs: "xs = as @ i # bs" using i(2) by (meson split_list)
  obtain st' l' where R: "list_remove st l (Some i) = Some (st', l')" "list_ok st' l' (as @ bs) (own(i := None)) hs"
      "relinks (set (as @ bs)) i st st'" "list_id l' = list_id l"
    using list_remove_ok [OF ok(1) [unfolded xs] i(3)] by blast
  have al: "alone (own(i := None)) l' (as @ bs)" using ok(2) R(4) xs by (auto simp: alone_def)
  have d: "i \<notin> set (as @ bs)" using list_okD(2) [OF ok(1)] xs by auto
  have c: "cell st' j = cell st j" if "j \<noteq> i" for j using that relinksD(1) [OF R(3)] by blast
  then have "view_ok (st', l', hs)" using R(2) al ok(3) xs d by (fastforce simp: view_ok_def)
  moreover have "view_look (st', l', hs) = (view_look s)(h := None)"
    using c d unfolding s view_look_eq [OF ok(1,2)] view_look_eq [OF R(2) al] i(1)
    by (auto simp: xs fun_eq_iff split: option.splits)
  ultimately show "\<exists>s'. view_del s h = Some s' \<and> view_ok s' \<and> view_look s' = (view_look s)(h := None)"
    using R(1) by (auto simp: view_del_def s i(1))
qed

section \<open>Properties\<close>

text \<open>A list of the values 10 and 20 with a handle to each node.\<close>

definition demo_list :: "(nat list_store \<times> clist) option" where
  "demo_list = do {
     (s, l, a) \<leftarrow> list_emplace_back empty_store (list_new 7) 10;
     (s, l, b) \<leftarrow> list_emplace_back s l 20;
     Some (s, l) }"

lemma demo_list_ok:
  obtains s l own where "demo_list = Some (s, l)" "list_ok s l [0, 1] own [Some 1, Some 0]" "cell s 0 = Some 10" "cell s 1 = Some 20"
    "list_id l = 7" "alone own l [0, 1]"
proof -
  have base: "list_ok empty_store (list_new 7) [] Map.empty []" by (rule list_new_ok [OF store_ok_empty])
  obtain s1 l1 y1 where A: "list_emplace_back empty_store (list_new 7) (10 :: nat) = Some (s1, l1, Some y1)"
      "list_ok s1 l1 ([] @ [y1]) (Map.empty(y1 \<mapsto> list_id (list_new 7))) [Some y1]" "inserts empty_store s1 (set []) y1 10"
      "list_id l1 = list_id (list_new 7)"
    using list_emplace_back_ok [OF base, of 10] by auto
  obtain s2 l2 y2 where B: "list_emplace_back s1 l1 (20 :: nat) = Some (s2, l2, Some y2)" "(Map.empty(y1 \<mapsto> list_id (list_new 7))) y2 = None"
      "list_ok s2 l2 (([] @ [y1]) @ [y2]) (Map.empty(y1 \<mapsto> list_id (list_new 7), y2 \<mapsto> list_id l1)) [Some y2, Some y1]"
      "inserts s1 s2 (set ([] @ [y1])) y2 20" "list_id l2 = list_id l1"
    using list_emplace_back_ok [OF A(2), of 20] by auto
  have run: "demo_list = Some (s2, l2)" using A(1) B(1) by (simp add: demo_list_def)
  have "map_option (\<lambda>(s, l). (head l, tail l)) demo_list = Some (Some 0, Some 1)" by code_simp
  then have "y1 = 0" "y2 = 1" using list_okD(3,4) [OF B(3)] unfolding run by simp_all
  moreover from this have "alone (Map.empty(y1 \<mapsto> list_id (list_new 7), y2 \<mapsto> list_id l1)) l2 [0, 1]" by (auto simp: alone_def)
  ultimately show thesis
    using that [OF run, of "Map.empty(y1 \<mapsto> list_id (list_new 7), y2 \<mapsto> list_id l1)"] A B
    by (auto simp: inserts_def relinks_def list_new_def)
qed

text \<open>C29: \<open>emplace_before\<close> and \<open>emplace_after\<close> put a new node with the value directly
  before or after the node of the given handle, hand out a reference to it, and leave
  every other value, and every node outside the list, as it was.\<close>

theorem list_insert_correct:
  assumes "list_ok s l (xs @ x # ys) own hs" "length hs < 2 ^ 61"
  shows "(\<exists>s' l' y. list_emplace_before s l (Some x) v = Some (s', l', Some y) \<and> own y = None \<and>
      list_ok s' l' (xs @ y # x # ys) (own(y \<mapsto> list_id l)) (Some y # hs) \<and> cell s' y = Some v \<and>
      (\<forall>j. j \<noteq> y \<longrightarrow> cell s' j = cell s j) \<and> (\<forall>j. j \<noteq> y \<longrightarrow> j \<notin> set (xs @ x # ys) \<longrightarrow> nodes s' j = nodes s j)) \<and>
    (\<exists>s' l' y. list_emplace_after s l (Some x) v = Some (s', l', Some y) \<and> own y = None \<and>
      list_ok s' l' (xs @ x # y # ys) (own(y \<mapsto> list_id l)) (Some y # hs) \<and> cell s' y = Some v \<and>
      (\<forall>j. j \<noteq> y \<longrightarrow> cell s' j = cell s j) \<and> (\<forall>j. j \<noteq> y \<longrightarrow> j \<notin> set (xs @ x # ys) \<longrightarrow> nodes s' j = nodes s j))"
  using list_emplace_before_ok [OF assms, of v] list_emplace_after_ok [OF assms, of v]
  unfolding inserts_def relinks_def by meson

theorem list_insert_correct_witness:
  "\<exists>s l s' l' y own hs. demo_list = Some (s, l) \<and> list_emplace_before s l (Some 1) 15 = Some (s', l', Some y) \<and>
    list_ok s' l' [0, y, 1] own hs \<and> cell s' y = Some 15"
proof -
  obtain s l own where D: "demo_list = Some (s, l)" "list_ok s l [0, 1] own [Some 1, Some 0]" by (rule demo_list_ok)
  then have "list_ok s l ([0] @ 1 # []) own [Some 1, Some 0]" by simp
  from list_insert_correct [OF this, of 15] D(1) show ?thesis by (simp del: list_ok_def) metis
qed

text \<open>\<open>remove\<close> through a handle takes exactly that node out and frees it; \<open>pop_front\<close>
  and \<open>pop_back\<close> take the first and the last; every other value stays.\<close>

theorem list_remove_correct:
  assumes "list_ok s l (xs @ x # ys) own hs" "cell s x \<noteq> None"
  shows "\<exists>s' l'. list_remove s l (Some x) = Some (s', l') \<and> list_ok s' l' (xs @ ys) (own(x := None)) hs \<and>
    nodes s' x = None \<and> (\<forall>j. j \<noteq> x \<longrightarrow> cell s' j = cell s j) \<and>
    (xs = [] \<longrightarrow> pop_front s l = Some (s', l')) \<and> (ys = [] \<longrightarrow> pop_back s l = Some (s', l'))"
proof -
  obtain s' l' where R: "list_remove s l (Some x) = Some (s', l')" "list_ok s' l' (xs @ ys) (own(x := None)) hs"
      "relinks (set (xs @ ys)) x s s'" "nodes s' x = None"
    using list_remove_ok [OF assms] by blast
  have run: "do { _ \<leftarrow> destroy_value s (Some x); list_remove_node s l (Some x) } = Some (s', l')"
    using check_in_store [OF list_okD(1,7) [OF assms(1)], of x] R(1) by (simp add: list_remove_def)
  have "pop_front s l = Some (s', l')" if "xs = []"
    using pop_front_remove [of s l x ys own hs] list_okD(3) [OF assms(1)] assms(1) that run by (simp add: pop_front_def)
  moreover have "pop_back s l = Some (s', l')" if "ys = []"
    using pop_back_remove [of s l xs x own hs] list_okD(4) [OF assms(1)] assms(1) that run by (simp add: pop_back_def)
  ultimately show ?thesis using R unfolding relinks_def by blast
qed

theorem list_remove_correct_witness:
  "\<exists>s l s' l' own. demo_list = Some (s, l) \<and> pop_front s l = Some (s', l') \<and>
    list_ok s' l' [1] own [Some 1, Some 0] \<and> nodes s' 0 = None \<and> cell s' 1 = Some 20"
proof -
  obtain s l own where D: "demo_list = Some (s, l)" "list_ok s l [0, 1] own [Some 1, Some 0]" "cell s 0 = Some 10" "cell s 1 = Some 20"
    by (rule demo_list_ok)
  then have "list_ok s l ([] @ 0 # [1]) own [Some 1, Some 0]" by simp
  from list_remove_correct [OF this] D obtain s' l' where "pop_front s l = Some (s', l')"
      "list_ok s' l' [1] (own(0 := None)) [Some 1, Some 0]" "nodes s' 0 = None" "\<forall>j. j \<noteq> 0 \<longrightarrow> cell s' j = cell s j"
    by auto
  with D show ?thesis by (intro exI [of _ s] exI [of _ l] exI [of _ s'] exI [of _ l'] exI [of _ "own(0 := None)"]) simp
qed

text \<open>Assigning a list to another in the same store makes its values those of the
  source, whichever of the two is longer, and leaves the source as it was; copy
  construction makes a new list with the values of the source.\<close>

theorem list_assign_correct:
  assumes "list_ok s l xs own hs" "list_ok s ol zs own hs" "set xs \<inter> set zs = {}"
    and "\<forall>x \<in> set xs. cell s x \<noteq> None" "map (cell s) zs = map Some vs" "length hs < 2 ^ 61"
  shows "(\<exists>s' l' ys own'. list_assign s l ol = Some (s', l') \<and> list_ok s' l' ys own' hs \<and> list_ok s' ol zs own' hs \<and>
      map (cell s') ys = map Some vs \<and> map (cell s') zs = map Some vs \<and> list_id l' = list_id l) \<and>
    (\<exists>s' l' ys own'. list_copy s i ol = Some (s', l') \<and> list_ok s' l' ys own' hs \<and> list_ok s' ol zs own' hs \<and>
      map (cell s') ys = map Some vs \<and> map (cell s') zs = map Some vs \<and> list_id l' = i)"
proof (intro conjI)
  show "\<exists>s' l' ys own'. list_assign s l ol = Some (s', l') \<and> list_ok s' l' ys own' hs \<and> list_ok s' ol zs own' hs \<and>
      map (cell s') ys = map Some vs \<and> map (cell s') zs = map Some vs \<and> list_id l' = list_id l"
    using list_assign_ok [OF assms] by blast
  show "\<exists>s' l' ys own'. list_copy s i ol = Some (s', l') \<and> list_ok s' l' ys own' hs \<and> list_ok s' ol zs own' hs \<and>
      map (cell s') ys = map Some vs \<and> map (cell s') zs = map Some vs \<and> list_id l' = i"
    using list_copy_ok [OF assms(2,5,6)] by blast
qed

theorem list_assign_correct_witness:
  "\<exists>s l s' l' ys own. demo_list = Some (s, l) \<and> list_assign s (list_new 9) l = Some (s', l') \<and>
    list_ok s' l' ys own [Some 1, Some 0] \<and> map (cell s') ys = [Some 10, Some 20]"
proof -
  obtain s l own where D: "demo_list = Some (s, l)" "list_ok s l [0, 1] own [Some 1, Some 0]" "cell s 0 = Some 10" "cell s 1 = Some 20"
    by (rule demo_list_ok)
  have new: "list_ok s (list_new 9) [] own [Some 1, Some 0]" using list_new_ok list_okD(1) [OF D(2)] by blast
  have pre: "set [] \<inter> set [0, 1] = ({} :: nat set)" "\<forall>x \<in> set []. cell s x \<noteq> None" "map (cell s) [0, 1] = map Some [10, 20]"
    "length [Some 1, Some (0 :: nat)] < 2 ^ 61" using D(3,4) by simp_all
  obtain s' l' ys own' where
      "list_assign s (list_new 9) l = Some (s', l')" "list_ok s' l' ys own' [Some 1, Some 0]" "map (cell s') ys = map Some [10, 20]"
    using list_assign_correct [OF new D(2) pre, THEN conjunct1] by blast
  with D(1) show ?thesis
    by (intro exI [of _ s] exI [of _ l] exI [of _ s'] exI [of _ l'] exI [of _ ys] exI [of _ own']) simp
qed

text \<open>A value added at the end and removed again through its handle leaves every
  access to the list as it was.\<close>

theorem list_add_remove_roundtrip:
  assumes "view_ok (s, l, hs)" "length hs < 2 ^ 61" "list_emplace_back s l v = Some (s', l', h)"
  shows "\<exists>s'' l''. list_remove s' l' h = Some (s'', l'') \<and> list_data s'' l'' = list_data s l \<and> view_ok (s'', l'', h # hs)"
  using lm.add_del [of "(s, l, hs)" v "(s', l', h # hs)" h] assms
  by (auto simp: view_room_def view_add_def view_del_def view_look_def elim!: bind_SomeE)

theorem list_add_remove_roundtrip_witness:
  "\<exists>s l s' l' h s'' l''. demo_list = Some (s, l) \<and> list_emplace_back s l 30 = Some (s', l', h) \<and>
    list_remove s' l' h = Some (s'', l'') \<and> list_data s'' l'' = list_data s l"
proof -
  obtain s l own where D: "demo_list = Some (s, l)" "list_ok s l [0, 1] own [Some 1, Some 0]" "cell s 0 = Some 10" "cell s 1 = Some 20"
    "list_id l = 7" "alone own l [0, 1]"
    by (rule demo_list_ok)
  then have "view_ok (s, l, [Some 1, Some 0])" by (auto simp: view_ok_def intro!: exI [of _ "[0, 1]"] exI [of _ own])
  moreover obtain s' l' h where "list_emplace_back s l 30 = Some (s', l', h)"
    using list_emplace_back_ok [OF D(2), of 30] by auto
  ultimately obtain s'' l'' where "list_emplace_back s l 30 = Some (s', l', h)" "list_remove s' l' h = Some (s'', l'')"
      "list_data s'' l'' = list_data s l"
    using list_add_remove_roundtrip [of s l "[Some 1, Some 0]" 30 s' l' h] by auto
  with D(1) show ?thesis by blast
qed

end
