(* ===== verification/HiveLinks.thy ===== *)
theory HiveLinks
  imports HiveBits
begin

text \<open>The two chains of chunks of a hive and the four operations that relink them.\<close>

section \<open>The chains\<close>

definition pe :: "'a hive_chunk heap \<Rightarrow> nat \<Rightarrow> ptr" where "pe h i = prev_empty (the (h i))"
definition ne :: "'a hive_chunk heap \<Rightarrow> nat \<Rightarrow> ptr" where "ne h i = next_empty (the (h i))"
definition pf :: "'a hive_chunk heap \<Rightarrow> nat \<Rightarrow> ptr" where "pf h i = prev_filled (the (h i))"
definition nf :: "'a hive_chunk heap \<Rightarrow> nat \<Rightarrow> ptr" where "nf h i = next_filled (the (h i))"

lemmas link_funs = pe_def ne_def pf_def nf_def

definition links_ok :: "'a hive_chunk heap \<Rightarrow> hive \<Rightarrow> nat list \<Rightarrow> nat list \<Rightarrow> bool" where
  "links_ok n h es fs \<longleftrightarrow> distinct es \<and> distinct fs \<and> (\<forall>x \<in> set es \<union> set fs. live n x) \<and>
     chain (pe n) (ne n) es \<and> chain (pf n) (nf n) fs \<and>
     empty_head h = first es None \<and> filled_head h = first fs None \<and> filled_tail h = final None fs"

lemma links_okD:
  assumes "links_ok n h es fs"
  shows "distinct es" "distinct fs" "x \<in> set es \<Longrightarrow> live n x" "x \<in> set fs \<Longrightarrow> live n x"
    "chain (pe n) (ne n) es" "chain (pf n) (nf n) fs"
    "empty_head h = first es None" "filled_head h = first fs None" "filled_tail h = final None fs"
  using assms by (auto simp: links_ok_def)

text \<open>What relinking leaves alone.\<close>

definition core :: "'a hive_chunk \<Rightarrow> u32 \<times> u32 \<times> u64 list \<times> (nat \<Rightarrow> 'a option)" where
  "core c = (log2_len c, filled_count c, bitmap c, slots c)"

definition same_cores :: "nat set \<Rightarrow> 'a hive_chunk heap \<Rightarrow> 'a hive_chunk heap \<Rightarrow> bool" where
  "same_cores S n n' \<longleftrightarrow> (\<forall>j. map_option core (n' j) = map_option core (n j)) \<and> (\<forall>j. j \<notin> S \<longrightarrow> n' j = n j)"

lemma same_cores_refl [simp]: "same_cores S n n"
  by (simp add: same_cores_def)

lemma same_cores_trans: "same_cores S n n' \<Longrightarrow> same_cores T n' n'' \<Longrightarrow> S \<subseteq> U \<Longrightarrow> T \<subseteq> U \<Longrightarrow> same_cores U n n''"
  unfolding same_cores_def by (metis subsetD)

lemma same_cores_upd:
  assumes c: "same_cores S n n'" and i: "live n' i" "i \<in> S" "core c = core (the (n' i))"
  shows "same_cores S n (n'(i \<mapsto> c))"
proof -
  have "map_option core (n' i) = Some (core c)" using i by (cases "n' i") (auto simp: live_def)
  then have "Some (core c) = map_option core (n i)" using c unfolding same_cores_def by metis
  then show ?thesis using c i(2) by (auto simp: same_cores_def)
qed

lemma same_coresD:
  assumes "same_cores S n n'"
  shows "live n' j = live n j" "core (the (n' j)) = core (the (n j))" "j \<notin> S \<Longrightarrow> n' j = n j"
proof -
  have m: "map_option core (n' j) = map_option core (n j)" "j \<notin> S \<Longrightarrow> n' j = n j" using assms by (auto simp: same_cores_def)
  show "live n' j = live n j" using m(1) by (metis live_def map_option_is_None)
  show "core (the (n' j)) = core (the (n j))" using m(1) by (cases "n j"; cases "n' j") auto
  show "j \<notin> S \<Longrightarrow> n' j = n j" by (rule m)
qed

lemma core_links [simp]:
  "core (c\<lparr>prev_empty := p\<rparr>) = core c" "core (c\<lparr>next_empty := p\<rparr>) = core c"
  "core (c\<lparr>prev_filled := p\<rparr>) = core c" "core (c\<lparr>next_filled := p\<rparr>) = core c"
  by (simp_all add: core_def)

lemma update_chunk_live: "live (nodes s) i \<Longrightarrow> update_chunk s (Some i) f = Some (s\<lparr>nodes := (nodes s)(i \<mapsto> f (the (nodes s i)))\<rparr>)"
  by (simp add: update_chunk_def update_node_dom)

section \<open>The chain of chunks with a free slot\<close>

lemma add_to_empty_list_ok:
  assumes ok: "links_ok (nodes s) h es fs" and p: "live (nodes s) p" "p \<notin> set es"
  shows "\<exists>n'. add_to_empty_list s h (Some p) = Some (s\<lparr>nodes := n'\<rparr>, h\<lparr>empty_head := Some p\<rparr>) \<and>
    links_ok n' (h\<lparr>empty_head := Some p\<rparr>) (p # es) fs \<and> same_cores (insert p (set es)) (nodes s) n'"
proof -
  note L = links_okD [OF ok]
  define n1 where "n1 = (nodes s)(p \<mapsto> (the (nodes s p))\<lparr>next_empty := first es None, prev_empty := None\<rparr>)"
  define n' where "n' = (case es of [] \<Rightarrow> n1 | e # _ \<Rightarrow> n1(e \<mapsto> (the (nodes s e))\<lparr>prev_empty := Some p\<rparr>))"
  have run: "add_to_empty_list s h (Some p) = Some (s\<lparr>nodes := n'\<rparr>, h\<lparr>empty_head := Some p\<rparr>)"
    using p L(3) L(7) by (cases es) (auto simp: add_to_empty_list_def update_chunk_live n'_def n1_def)
  have c1: "same_cores (insert p (set es)) (nodes s) n1"
    unfolding n1_def using p by (intro same_cores_upd) auto
  have c: "same_cores (insert p (set es)) (nodes s) n'"
  proof (cases es)
    case (Cons e es')
    then have "same_cores (insert p (set es)) (nodes s) (n1(e \<mapsto> (the (nodes s e))\<lparr>prev_empty := Some p\<rparr>))"
      using p L(3) by (intro same_cores_upd [OF c1]) (auto simp: n1_def)
    then show ?thesis using Cons by (simp add: n'_def)
  qed (use c1 in \<open>simp add: n'_def\<close>)
  have "chain (pe n') (ne n') ([] @ p # es)"
  proof (rule chain_insert)
    show "chain (pe (nodes s)) (ne (nodes s)) ([] @ es)" using L(5) by simp
    show "distinct ([] @ p # es)" using L(1) p by simp
    show "pe n' p = final None []" "ne n' p = first es None"
      using p by (auto simp: link_funs n'_def n1_def split: list.split)
    show "pe n' j = link_prev (first es None) (Some p) (pe (nodes s)) j \<and>
        ne n' j = link_next (final None []) (Some p) (ne (nodes s)) j" if "j \<in> set ([] @ es)" for j
      using p that by (cases es) (auto simp: link_funs n'_def n1_def)
  qed
  moreover have "chain (pf n') (nf n') fs = chain (pf (nodes s)) (nf (nodes s)) fs"
    using p by (intro seg_cong) (auto simp: link_funs n'_def n1_def split: list.split)
  moreover have "live n' x" if "x \<in> insert p (set es) \<union> set fs" for x
    using same_coresD(1) [OF c] p L(3,4) that by blast
  ultimately have "links_ok n' (h\<lparr>empty_head := Some p\<rparr>) (p # es) fs"
    using L p by (simp add: links_ok_def)
  with run c show ?thesis by blast
qed

lemma remove_from_empty_list_ok:
  assumes ok: "links_ok (nodes s) h (as @ p # bs) fs"
  shows "\<exists>n' h'. remove_from_empty_list s h (Some p) = Some (s\<lparr>nodes := n'\<rparr>, h') \<and>
    h' = h\<lparr>empty_head := first (as @ bs) None\<rparr> \<and>
    links_ok n' h' (as @ bs) fs \<and> same_cores (set (as @ p # bs)) (nodes s) n'"
proof -
  note L = links_okD [OF ok]
  let ?n = "nodes s" and ?prev = "final None as" and ?nxt = "first bs None"
  have d: "p \<notin> set as" "p \<notin> set bs" "set as \<inter> set bs = {}" using L(1) by auto
  have lk: "prev_empty (the (?n p)) = ?prev" "next_empty (the (?n p)) = ?nxt"
    using L(5) by (simp_all add: pe_def ne_def)
  define n1 where "n1 = (case ?prev of None \<Rightarrow> ?n | Some a \<Rightarrow> ?n(a \<mapsto> (the (?n a))\<lparr>next_empty := ?nxt\<rparr>))"
  define n2 where "n2 = (case ?nxt of None \<Rightarrow> n1 | Some b \<Rightarrow> n1(b \<mapsto> (the (?n b))\<lparr>prev_empty := ?prev\<rparr>))"
  define n' where "n' = n2(p \<mapsto> (the (?n p))\<lparr>prev_empty := None, next_empty := None\<rparr>)"
  have a: "a \<in> set as" if "?prev = Some a" for a using final_in [OF that] by simp
  have b: "b \<in> set bs" if "?nxt = Some b" for b using first_in [OF that] by simp
  have lv: "live ?n x" if "x \<in> set (as @ p # bs)" for x using L(3) that by blast
  have run: "remove_from_empty_list s h (Some p) = Some (s\<lparr>nodes := n'\<rparr>, h\<lparr>empty_head := first (as @ bs) None\<rparr>)"
  proof (cases ?prev)
    case None
    then have as: "as = []" by simp
    show ?thesis
    proof (cases ?nxt)
      case None
      then show ?thesis using as lk lv L(7) by (simp add: remove_from_empty_list_def node_at_dom update_chunk_live n'_def n2_def n1_def)
    next
      case (Some b')
      then show ?thesis using as lk lv L(7) b [OF Some] d
        by (auto simp: remove_from_empty_list_def node_at_dom update_chunk_live n'_def n2_def n1_def)
    qed
  next
    case (Some a')
    note sa = Some
    then have hd: "first (as @ bs) None = first as None" "first (as @ p # bs) None = first as None" by (cases as; simp)+
    have n: "a' \<noteq> p" "a' \<notin> set bs" using a [OF sa] d by auto
    show ?thesis
    proof (cases ?nxt)
      case None
      then show ?thesis using lk lv L(7) sa a [OF sa] n hd
        by (auto simp: remove_from_empty_list_def node_at_dom update_chunk_live n'_def n2_def n1_def)
    next
      case (Some b')
      have "b' \<noteq> a'" "b' \<noteq> p" using b [OF Some] n d by auto
      then show ?thesis using lk lv L(7) sa a [OF sa] n hd Some b [OF Some]
        by (auto simp: remove_from_empty_list_def node_at_dom update_chunk_live n'_def n2_def n1_def)
    qed
  qed
  have c1: "same_cores (set (as @ p # bs)) ?n n1"
    using a lv by (auto simp: n1_def split: option.split intro!: same_cores_upd)
  have c2: "same_cores (set (as @ p # bs)) ?n n2"
    using b lv d c1 same_coresD(1) [OF c1] a by (auto simp: n2_def n1_def split: option.splits intro!: same_cores_upd)
  have c: "same_cores (set (as @ p # bs)) ?n n'"
    unfolding n'_def using lv same_coresD(1,2) [OF c2] by (intro same_cores_upd [OF c2]) auto
  have "chain (pe n') (ne n') (as @ bs)"
  proof (rule chain_remove [OF L(5) L(1)])
    show "pe n' j = link_prev ?nxt ?prev (pe ?n) j \<and> ne n' j = link_next ?prev ?nxt (ne ?n) j" if "j \<in> set (as @ bs)" for j
      using that a b d by (cases ?prev; cases ?nxt) (auto simp: link_funs n'_def n2_def n1_def)
  qed
  moreover have "pf n' = pf ?n" "nf n' = nf ?n"
    using a b d by (cases ?prev; cases ?nxt; fastforce simp: link_funs n'_def n2_def n1_def fun_eq_iff)+
  moreover have "live n' x" if "x \<in> set (as @ bs) \<union> set fs" for x
    using same_coresD(1) [OF c] lv L(4) that by auto
  ultimately have "links_ok n' (h\<lparr>empty_head := first (as @ bs) None\<rparr>) (as @ bs) fs"
    using L by (auto simp: links_ok_def)
  with run c show ?thesis by blast
qed

section \<open>The chain of chunks with a value\<close>

lemma add_to_filled_list_ok:
  assumes ok: "links_ok (nodes s) h es fs" and p: "live (nodes s) p" "p \<notin> set fs"
  shows "\<exists>n' h'. add_to_filled_list s h (Some p) = Some (s\<lparr>nodes := n'\<rparr>, h') \<and>
    h' = h\<lparr>filled_head := first (fs @ [p]) None, filled_tail := Some p\<rparr> \<and>
    links_ok n' h' es (fs @ [p]) \<and> same_cores (insert p (set fs)) (nodes s) n'"
proof -
  note L = links_okD [OF ok]
  let ?h = "h\<lparr>filled_head := first (fs @ [p]) None, filled_tail := Some p\<rparr>"
  define n1 where "n1 = (nodes s)(p \<mapsto> (the (nodes s p))\<lparr>next_filled := None, prev_filled := final None fs\<rparr>)"
  define n' where "n' = (case final None fs of None \<Rightarrow> n1 | Some e \<Rightarrow> n1(e \<mapsto> (the (nodes s e))\<lparr>next_filled := Some p\<rparr>))"
  have e: "e \<in> set fs" "e \<noteq> p" "live (nodes s) e" if "final None fs = Some e" for e using final_in [OF that] p L(4) by auto
  have run: "add_to_filled_list s h (Some p) = Some (s\<lparr>nodes := n'\<rparr>, ?h)"
  proof (cases fs rule: rev_cases)
    case Nil
    then show ?thesis using p L(8,9) by (simp add: add_to_filled_list_def update_chunk_live n'_def n1_def)
  next
    case (snoc gs g)
    then have "first (fs @ [p]) None = filled_head h" using L(8) by (cases gs) simp_all
    then show ?thesis using snoc p L(8,9) e [of g] by (simp add: add_to_filled_list_def update_chunk_live n'_def n1_def)
  qed
  have c1: "same_cores (insert p (set fs)) (nodes s) n1"
    unfolding n1_def using p by (intro same_cores_upd) auto
  have c: "same_cores (insert p (set fs)) (nodes s) n'"
  proof (cases "final None fs")
    case (Some g)
    then have "same_cores (insert p (set fs)) (nodes s) (n1(g \<mapsto> (the (nodes s g))\<lparr>next_filled := Some p\<rparr>))"
      using p e [OF Some] by (intro same_cores_upd [OF c1]) (auto simp: n1_def)
    then show ?thesis using Some by (simp add: n'_def)
  qed (use c1 in \<open>simp add: n'_def\<close>)
  have "chain (pf n') (nf n') (fs @ [p])"
  proof (rule chain_insert)
    show "chain (pf (nodes s)) (nf (nodes s)) (fs @ [])" using L(6) by simp
    show "distinct (fs @ [p])" using L(2) p by simp
    show "pf n' p = final None fs" "nf n' p = first [] None"
      using p e by (auto simp: link_funs n'_def n1_def split: option.split)
    show "pf n' j = link_prev (first [] None) (Some p) (pf (nodes s)) j \<and>
        nf n' j = link_next (final None fs) (Some p) (nf (nodes s)) j" if "j \<in> set (fs @ [])" for j
      using p that e by (cases "final None fs") (auto simp: link_funs n'_def n1_def)
  qed
  moreover have "pe n' = pe (nodes s)" "ne n' = ne (nodes s)"
    using p e by (cases "final None fs"; fastforce simp: link_funs n'_def n1_def fun_eq_iff)+
  moreover have "live n' x" if "x \<in> set es \<union> set (fs @ [p])" for x
    using same_coresD(1) [OF c] p L(3,4) that by auto
  ultimately have "links_ok n' ?h es (fs @ [p])"
    using L p by (auto simp: links_ok_def)
  with run c show ?thesis by blast
qed

lemma remove_from_filled_list_ok:
  assumes ok: "links_ok (nodes s) h es (as @ p # bs)"
  shows "\<exists>n' h'. remove_from_filled_list s h (Some p) = Some (s\<lparr>nodes := n'\<rparr>, h') \<and>
    h' = h\<lparr>filled_head := first (as @ bs) None, filled_tail := final None (as @ bs)\<rparr> \<and>
    links_ok n' h' es (as @ bs) \<and> same_cores (set (as @ p # bs)) (nodes s) n'"
proof -
  note L = links_okD [OF ok]
  let ?n = "nodes s" and ?prev = "final None as" and ?nxt = "first bs None"
  let ?h = "h\<lparr>filled_head := first (as @ bs) None, filled_tail := final None (as @ bs)\<rparr>"
  have d: "p \<notin> set as" "p \<notin> set bs" "set as \<inter> set bs = {}" using L(2) by auto
  have lk: "prev_filled (the (?n p)) = ?prev" "next_filled (the (?n p)) = ?nxt"
    using L(6) by (simp_all add: pf_def nf_def)
  define n1 where "n1 = (case ?prev of None \<Rightarrow> ?n | Some a \<Rightarrow> ?n(a \<mapsto> (the (?n a))\<lparr>next_filled := ?nxt\<rparr>))"
  define n2 where "n2 = (case ?nxt of None \<Rightarrow> n1 | Some b \<Rightarrow> n1(b \<mapsto> (the (?n b))\<lparr>prev_filled := ?prev\<rparr>))"
  define n' where "n' = n2(p \<mapsto> (the (?n p))\<lparr>prev_filled := None, next_filled := None\<rparr>)"
  have a: "a \<in> set as" if "?prev = Some a" for a using final_in [OF that] by simp
  have b: "b \<in> set bs" if "?nxt = Some b" for b using first_in [OF that] by simp
  have lv: "live ?n x" if "x \<in> set (as @ p # bs)" for x using L(4) that by blast
  have run: "remove_from_filled_list s h (Some p) = Some (s\<lparr>nodes := n'\<rparr>, ?h)"
  proof (cases ?prev)
    case None
    then have as: "as = []" by simp
    show ?thesis
    proof (cases ?nxt)
      case None
      then show ?thesis using as lk lv L(8,9) by (simp add: remove_from_filled_list_def node_at_dom update_chunk_live n'_def n2_def n1_def)
    next
      case (Some b')
      then have "final (Some p) bs = final None bs" by (cases bs) auto
      then show ?thesis using as lk lv L(8,9) b [OF Some] d Some
        by (auto simp: remove_from_filled_list_def node_at_dom update_chunk_live n'_def n2_def n1_def)
    qed
  next
    case (Some a')
    note sa = Some
    then have hd: "first (as @ bs) None = first as None" "first (as @ p # bs) None = first as None" by (cases as; simp)+
    have n: "a' \<noteq> p" "a' \<notin> set bs" using a [OF sa] d by auto
    show ?thesis
    proof (cases ?nxt)
      case None
      then show ?thesis using lk lv L(8,9) sa a [OF sa] n hd
        by (auto simp: remove_from_filled_list_def node_at_dom update_chunk_live n'_def n2_def n1_def)
    next
      case (Some b')
      have "b' \<noteq> a'" "b' \<noteq> p" using b [OF Some] n d by auto
      moreover have "final (Some p) bs = final None bs" "final (Some a') bs = final None bs" using Some by (cases bs; auto)+
      ultimately show ?thesis using lk lv L(8,9) sa a [OF sa] n hd Some b [OF Some]
        by (auto simp: remove_from_filled_list_def node_at_dom update_chunk_live n'_def n2_def n1_def)
    qed
  qed
  have c1: "same_cores (set (as @ p # bs)) ?n n1"
    using a lv by (auto simp: n1_def split: option.split intro!: same_cores_upd)
  have c2: "same_cores (set (as @ p # bs)) ?n n2"
    using b lv d c1 same_coresD(1) [OF c1] a by (auto simp: n2_def n1_def split: option.splits intro!: same_cores_upd)
  have c: "same_cores (set (as @ p # bs)) ?n n'"
    unfolding n'_def using lv same_coresD(1,2) [OF c2] by (intro same_cores_upd [OF c2]) auto
  have "chain (pf n') (nf n') (as @ bs)"
  proof (rule chain_remove [OF L(6) L(2)])
    show "pf n' j = link_prev ?nxt ?prev (pf ?n) j \<and> nf n' j = link_next ?prev ?nxt (nf ?n) j" if "j \<in> set (as @ bs)" for j
      using that a b d by (cases ?prev; cases ?nxt) (auto simp: link_funs n'_def n2_def n1_def)
  qed
  moreover have "pe n' = pe ?n" "ne n' = ne ?n"
    using a b d by (cases ?prev; cases ?nxt; fastforce simp: link_funs n'_def n2_def n1_def fun_eq_iff)+
  moreover have "live n' x" if "x \<in> set es \<union> set (as @ bs)" for x
    using same_coresD(1) [OF c] lv L(3) that by auto
  ultimately have "links_ok n' ?h es (as @ bs)"
    using L by (auto simp: links_ok_def)
  with run c show ?thesis by blast
qed

text \<open>Values and the chunk of a new value change nothing in the chains.\<close>

lemma links_ok_upd:
  assumes ok: "links_ok n h es fs"
    and c: "prev_empty c = pe n p" "next_empty c = ne n p" "prev_filled c = pf n p" "next_filled c = nf n p"
    and h: "empty_head h' = empty_head h" "filled_head h' = filled_head h" "filled_tail h' = filled_tail h"
  shows "links_ok (n(p \<mapsto> c)) h' es fs"
proof -
  have "pe (n(p \<mapsto> c)) = pe n" "ne (n(p \<mapsto> c)) = ne n" "pf (n(p \<mapsto> c)) = pf n" "nf (n(p \<mapsto> c)) = nf n"
    using c by (simp_all add: link_funs fun_eq_iff)
  then show ?thesis using ok h by (simp add: links_ok_def)
qed

lemma links_ok_other:
  assumes ok: "links_ok n h es fs" and "p \<notin> set es" "p \<notin> set fs"
    and h: "empty_head h' = empty_head h" "filled_head h' = filled_head h" "filled_tail h' = filled_tail h"
  shows "links_ok (n(p := c)) h' es fs"
proof -
  have "chain (pe (n(p := c))) (ne (n(p := c))) es = chain (pe n) (ne n) es"
    "chain (pf (n(p := c))) (nf (n(p := c))) fs = chain (pf n) (nf n) fs"
    using assms(2,3) by (intro seg_cong; auto simp: link_funs)+
  then show ?thesis using ok h assms(2,3) by (auto simp: links_ok_def live_def)
qed

end
