(* ===== verification/HiveOk.thy ===== *)
theory HiveOk
  imports HiveLinks
begin

text \<open>The invariant of hives, and what reserving and giving back a slot do to it.\<close>

section \<open>Chunks\<close>

definition used :: "'a hive_chunk \<Rightarrow> nat set" where
  "used c = {i. i < slot_cap c \<and> slot_filled c i}"

definition chunk_ok :: "'a hive_chunk \<Rightarrow> bool" where
  "chunk_ok c \<longleftrightarrow> words_ok c \<and> unat (filled_count c) = card (used c) \<and> dom (slots c) \<subseteq> used c"

lemma finite_used [simp]: "finite (used c)"
  by (simp add: used_def)

lemma card_used: "card (used c) \<le> slot_cap c"
  using card_mono [of "{..<slot_cap c}" "used c"] by (auto simp: used_def)

lemma core_eq:
  assumes "core c = core c'"
  shows "used c = used c'" "chunk_ok c = chunk_ok c'" "slots c = slots c'" "slot_cap c = slot_cap c'" "words_ok c = words_ok c'"
    "bitmap c = bitmap c'" "log2_len c = log2_len c'" "filled_count c = filled_count c'"
  using assms by (auto simp: core_def used_def chunk_ok_def slot_cap_def words_ok_def slot_filled_def)

lemma chunk_okD:
  assumes "chunk_ok c"
  shows "words_ok c" "unat (filled_count c) = card (used c)" "dom (slots c) \<subseteq> used c"
  using assms by (simp_all add: chunk_ok_def)

lemma bit_address:
  fixes slot :: u32
  assumes "words_ok c" "unat slot < slot_cap c"
  shows "unat (drop_bit 6 slot) < length (bitmap c)" "unat (drop_bit 6 slot) = unat slot div 64" "unat (slot AND 63) = unat slot mod 64"
proof -
  have "k div 64 < (n + 63) div 64" if "k < n" for k n :: nat
    using div_le_mono [of "k + 64" "n + 63" 64] that by simp
  then show "unat (drop_bit 6 slot) < length (bitmap c)" using assms unat_div_64 [of slot] by (simp add: words_ok_def)
  show "unat (drop_bit 6 slot) = unat slot div 64" "unat (slot AND 63) = unat slot mod 64"
    by (rule unat_div_64, rule unat_and_63)
qed

lemma is_slot_filled_ok:
  assumes "words_ok c" "unat slot < slot_cap c"
  shows "is_slot_filled c slot = Some (slot_filled c (unat slot))"
  using bit_address [OF assms]
  by (simp add: is_slot_filled_def get_bitmap_word_def Let_def slot_filled_def push_bit_of_1 and_exp_eq_0_iff_not_bit)

lemma set_slot_filled_ok:
  assumes "words_ok c" "unat slot < slot_cap c"
  shows "\<exists>bm. set_slot_filled c slot b = Some (c\<lparr>bitmap := bm\<rparr>) \<and> words_ok (c\<lparr>bitmap := bm\<rparr>) \<and>
    used (c\<lparr>bitmap := bm\<rparr>) = (if b then insert (unat slot) (used c) else used c - {unat slot})"
proof -
  note A = bit_address [OF assms]
  let ?w = "unat slot div 64" and ?k = "unat slot mod 64"
  let ?v = "bitmap c ! ?w"
  define v' where "v' = (if b then ?v OR push_bit ?k 1 else ?v AND NOT (push_bit ?k 1))"
  let ?c = "c\<lparr>bitmap := (bitmap c)[?w := v']\<rparr>"
  have run: "set_slot_filled c slot b = Some ?c"
    using A by (simp add: set_slot_filled_def get_bitmap_word_def set_bitmap_word_def Let_def v'_def)
  have cap: "slot_cap ?c = slot_cap c" by (simp add: slot_cap_def)
  have w: "words_ok ?c" using assms(1) by (simp add: words_ok_def cap)
  have k: "?k < 64" by simp
  have bv: "bit v' j = (if j = ?k then b else bit ?v j)" if "j < 64" for j
    using that k by (auto simp: v'_def bit_simps)
  have "slot_filled ?c i = (if i = unat slot then b else slot_filled c i)" if "i < slot_cap c" for i
  proof (cases "i div 64 = ?w")
    case True
    then have "i = unat slot \<longleftrightarrow> i mod 64 = ?k" by (metis mult_div_mod_eq)
    then show ?thesis using True A bv [of "i mod 64"] by (simp add: slot_filled_def)
  next
    case False
    then show ?thesis by (auto simp: slot_filled_def)
  qed
  then have "used ?c = (if b then insert (unat slot) (used c) else used c - {unat slot})"
    using assms(2) by (auto simp: used_def cap split: if_splits)
  with run w show ?thesis by blast
qed

section \<open>The invariant\<close>

text \<open>\<open>es\<close> are the chunks with a free slot, \<open>fs\<close> those with a value, in the order of their
  chains; \<open>uses\<close> are the slots in use and \<open>cont\<close> the values in them.\<close>

definition uses :: "'a hive_chunk heap \<Rightarrow> nat list \<Rightarrow> (nat \<times> nat) set" where
  "uses n fs = Sigma (set fs) (\<lambda>i. used (the (n i)))"

definition cont :: "'a hive_chunk heap \<Rightarrow> nat list \<Rightarrow> nat \<times> nat \<Rightarrow> 'a option" where
  "cont n fs = (\<lambda>(i, k). if i \<in> set fs then slots (the (n i)) k else None)"

definition sorted_in :: "'a hive_chunk heap \<Rightarrow> nat list \<Rightarrow> nat list \<Rightarrow> bool" where
  "sorted_in n es fs \<longleftrightarrow> (\<forall>i \<in> set es \<union> set fs. chunk_ok (the (n i)) \<and>
     (i \<in> set es \<longleftrightarrow> card (used (the (n i))) < slot_cap (the (n i))) \<and> (i \<in> set fs \<longleftrightarrow> used (the (n i)) \<noteq> {}))"

definition hive_ok :: "'a hive_store \<Rightarrow> hive \<Rightarrow> nat list \<Rightarrow> nat list \<Rightarrow> (nat \<Rightarrow> u64 option) \<Rightarrow> ptr list \<Rightarrow> bool" where
  "hive_ok s h es fs own hs \<longleftrightarrow> store_ok s own hs \<and> links_ok (nodes s) h es fs \<and> sorted_in (nodes s) es fs \<and>
     set es \<subseteq> set fs \<and> (\<forall>i \<in> set fs. own i = Some (hive_id h)) \<and>
     hlen h = of_nat (card (uses (nodes s) fs)) \<and> next_log2_len h < 32"

lemma hive_okD:
  assumes "hive_ok s h es fs own hs"
  shows "store_ok s own hs" "links_ok (nodes s) h es fs" "sorted_in (nodes s) es fs" "set es \<subseteq> set fs"
    "i \<in> set fs \<Longrightarrow> own i = Some (hive_id h)" "hlen h = of_nat (card (uses (nodes s) fs))" "next_log2_len h < 32"
  using assms by (auto simp: hive_ok_def)

lemma hive_chunk_ok:
  assumes "hive_ok s h es fs own hs" "i \<in> set fs"
  shows "live (nodes s) i" "chunk_ok (the (nodes s i))" "used (the (nodes s i)) \<noteq> {}"
    "i \<in> set es \<longleftrightarrow> card (used (the (nodes s i))) < slot_cap (the (nodes s i))"
  using links_okD(4) [OF hive_okD(2) [OF assms(1)] assms(2)] hive_okD(3) [OF assms(1)] assms(2)
  unfolding sorted_in_def by blast+

lemma hive_new_ok: "store_ok s own hs \<Longrightarrow> hive_ok s (hive_new i) [] [] own hs"
  by (simp add: hive_ok_def hive_new_def links_ok_def sorted_in_def uses_def)

lemma finite_uses [simp]: "finite (uses n fs)"
  by (auto simp: uses_def)

lemma uses_iff: "(i, k) \<in> uses n fs \<longleftrightarrow> i \<in> set fs \<and> k \<in> used (the (n i))"
  by (simp add: uses_def)

lemma same_cores_uses:
  assumes "same_cores S n n'"
  shows "uses n' fs = uses n fs" "cont n' fs = cont n fs" "sorted_in n' es fs = sorted_in n es fs"
proof -
  note C = core_eq(1-4) [OF same_coresD(2) [OF assms]]
  show "uses n' fs = uses n fs" unfolding uses_def C ..
  show "cont n' fs = cont n fs" unfolding cont_def C ..
  show "sorted_in n' es fs = sorted_in n es fs" unfolding sorted_in_def C ..
qed

section \<open>A free slot\<close>

lemma seek_free:
  assumes "words_ok c" "card (used c) < slot_cap c"
  shows "\<exists>slot. find_first_empty_slot c = Some slot \<and> unat slot < slot_cap c \<and> unat slot \<notin> used c"
proof -
  obtain k where k: "k < slot_cap c" "k \<notin> used c"
  proof (rule ccontr)
    assume "\<not> thesis"
    then have "used c = {..<slot_cap c}" using that by (auto simp: used_def)
    then show False using assms(2) by simp
  qed
  then have "\<not> slot_filled c k" by (simp add: used_def)
  note S = seekD [of 0 k "slot_cap c" "\<lambda>i. \<not> slot_filled c i", OF le0 k(1) this]
  obtain r where r: "find_first_empty_slot c = Some r" "unat r = seek (\<lambda>i. \<not> slot_filled c i) 0 (slot_cap c)"
    using find_first_empty_ok [OF assms(1)] by blast
  then have "unat r < slot_cap c" "unat r \<notin> used c" using S(2,3) k(1) by (simp_all add: used_def)
  with r(1) show ?thesis by blast
qed

text \<open>A new chunk.\<close>

definition blank_chunk :: "u32 \<Rightarrow> 'a hive_chunk" where
  "blank_chunk l = \<lparr>prev_empty = None, next_empty = None, prev_filled = None, next_filled = None, log2_len = l, filled_count = 0,
    bitmap = replicate ((2 ^ unat l + 63) div 64) 0, slots = Map.empty\<rparr>"

lemma blank_chunk_ok:
  assumes "l < 32"
  defines "b \<equiv> (blank_chunk l :: 'a hive_chunk)"
  shows "slot_cap b = 2 ^ unat l" "used b = {}" "chunk_ok b" "slots b = Map.empty"
  unfolding b_def
proof -
  let ?b = "blank_chunk l :: 'a hive_chunk"
  show cap: "slot_cap ?b = 2 ^ unat l" by (simp add: blank_chunk_def slot_cap_def)
  have w: "words_ok ?b" using assms unfolding words_ok_def cap by (simp add: blank_chunk_def)
  have "\<not> slot_filled ?b k" if "k < slot_cap ?b" for k
  proof -
    have "k div 64 < (2 ^ unat l + 63) div 64" using div_le_mono [of "k + 64" "2 ^ unat l + 63" 64] that unfolding cap by simp
    then show ?thesis by (simp add: blank_chunk_def slot_filled_def)
  qed
  then show "used ?b = {}" by (auto simp: used_def)
  with w show "chunk_ok ?b" by (simp add: chunk_ok_def) (simp add: blank_chunk_def)
  show "slots ?b = Map.empty" by (simp add: blank_chunk_def)
qed

lemma create_chunk_blank:
  assumes "l < 32"
  shows "create_chunk s h l = Some (new_node s (hive_id h) (blank_chunk l))"
proof -
  let ?cap = "push_bit (unat l) 1 :: u64"
  have l: "unat l \<le> 31" using assms by (simp add: word_less_nat_alt)
  have le: "(2 :: nat) ^ unat l \<le> 2 ^ 31" using power_increasing [OF l, of "2 :: nat"] by simp
  have "unat ?cap = 2 ^ unat l" by (simp only: unsigned_push_bit_eq) (use l le in \<open>simp add: push_bit_eq_mult take_bit_nat_eq_self\<close>)
  then have "unat (?cap + 63) = 2 ^ unat l + 63" using le by (simp only: unat_word_ariths) simp
  moreover have "drop_bit 6 (?cap + 63) = (?cap + 63) div 64" by (simp add: drop_bit_eq_div)
  ultimately have "unat (drop_bit 6 (?cap + 63)) = (2 ^ unat l + 63) div 64" by (simp only: unat_div_distrib) simp
  moreover have "l < 64" using l by (simp add: word_less_nat_alt)
  ultimately show ?thesis unfolding create_chunk_def blank_chunk_def Let_def by simp
qed

text \<open>The chunk a new value goes to.\<close>

lemma fresh_or_head_ok:
  assumes ok: "hive_ok s h es fs own hs"
  shows "\<exists>s' h' p es' own'. fresh_or_head s h = Some (s', h', Some p) \<and> store_ok s' own' hs \<and> links_ok (nodes s') h' es' fs \<and>
    p \<in> set es' \<and> set es' \<subseteq> insert p (set fs) \<and> sorted_in (nodes s') es' fs \<and>
    (\<forall>i \<in> insert p (set fs). own' i = Some (hive_id h')) \<and> uses (nodes s') fs = uses (nodes s) fs \<and>
    cont (nodes s') fs = cont (nodes s) fs \<and> hlen h' = hlen h \<and> next_log2_len h' < 32 \<and> hive_id h' = hive_id h \<and>
    (p \<notin> set fs \<longrightarrow> own p = None \<and> slots (the (nodes s' p)) = Map.empty) \<and>
    own' = own(p \<mapsto> hive_id h) \<and> (\<forall>j. j \<notin> insert p (set fs) \<longrightarrow> nodes s' j = nodes s j)"
proof (cases es)
  case (Cons p es')
  note H = hive_okD [OF ok]
  have "empty_head h = Some p" using links_okD(7) [OF H(2)] Cons by simp
  then have "fresh_or_head s h = Some (s, h, Some p)" by (simp add: fresh_or_head_def)
  moreover have p: "p \<in> set fs" "own(p \<mapsto> hive_id h) = own" using H(4) H(5) [of p] Cons by (auto simp: fun_eq_iff)
  moreover have "\<forall>i \<in> insert p (set fs). own i = Some (hive_id h)" using H(5) p(1) by auto
  moreover have "p \<in> set es" "set es \<subseteq> insert p (set fs)" using H(4) Cons by auto
  ultimately show ?thesis using H(1-3,7)
    by (intro exI [of _ s] exI [of _ h] exI [of _ p] exI [of _ es] exI [of _ "own(p \<mapsto> hive_id h)"]) (simp del: fun_upd_apply)
next
  case Nil
  note H = hive_okD [OF ok]
  let ?l = "next_log2_len h" and ?h = "if next_log2_len h < 16 then h\<lparr>next_log2_len := next_log2_len h + 1\<rparr> else h"
  obtain s1 p where n: "new_node s (hive_id h) (blank_chunk ?l) = (s1, p)" by force
  note N = new_node_ok [OF H(1) n] and B = blank_chunk_ok [OF H(7), where 'a = 'a]
  have p: "p \<notin> set fs" using N(2) H(5) by fastforce
  have nn: "nodes s1 = (nodes s)(p \<mapsto> blank_chunk ?l)" using N(4) .
  have lk: "links_ok (nodes s1) ?h es fs" unfolding nn by (rule links_ok_other [OF H(2)]) (use p Nil in auto)
  have lv: "live (nodes s1) p" by (simp add: nn)
  obtain n' where A: "add_to_empty_list s1 ?h (Some p) = Some (s1\<lparr>nodes := n'\<rparr>, ?h\<lparr>empty_head := Some p\<rparr>)"
      "links_ok n' (?h\<lparr>empty_head := Some p\<rparr>) [p] fs" "same_cores {p} (nodes s1) n'"
    using add_to_empty_list_ok [OF lk lv] Nil by auto
  have "create_chunk s ?h ?l = Some (s1, p)" using n create_chunk_blank [OF H(7), of s ?h] by simp
  then have run: "fresh_or_head s h = Some (s1\<lparr>nodes := n'\<rparr>, ?h\<lparr>empty_head := Some p\<rparr>, Some p)"
    using links_okD(7) [OF H(2)] Nil A(1) by (simp add: fresh_or_head_def Let_def)
  have st: "store_ok (s1\<lparr>nodes := n'\<rparr>) (own(p \<mapsto> hive_id h)) hs"
    using store_ok_nodes [OF N(1)] same_coresD(1) [OF A(3)] by blast
  have so: "sorted_in (nodes s1) [p] fs"
    using H(3) p B Nil by (auto simp: sorted_in_def nn)
  have eqs: "uses (nodes s1) fs = uses (nodes s) fs" "cont (nodes s1) fs = cont (nodes s) fs"
    using p by (auto simp: uses_def cont_def nn fun_eq_iff split: if_splits)
  have lg: "next_log2_len ?h < 32"
  proof (cases "next_log2_len h < 16")
    case True
    then have "unat (next_log2_len h + 1) \<le> 16" using unat_inc [of "next_log2_len h" 16] by (simp add: word_less_nat_alt)
    then show ?thesis using True by (simp add: word_less_nat_alt)
  qed (use H(7) in simp)
  have "slots (the (n' p)) = Map.empty" using core_eq(3) [OF same_coresD(2) [OF A(3), of p]] B(4) by (simp add: nn)
  moreover have "\<forall>i \<in> insert p (set fs). (own(p \<mapsto> hive_id h)) i = Some (hive_id h)" using H(5) by simp
  moreover have "\<forall>j. j \<notin> insert p (set fs) \<longrightarrow> n' j = nodes s j" using same_coresD(3) [OF A(3)] nn by auto
  ultimately show ?thesis using run st A(2) so lg N(2)
    by (intro exI [of _ "s1\<lparr>nodes := n'\<rparr>"] exI [of _ "?h\<lparr>empty_head := Some p\<rparr>"] exI [of _ p] exI [of _ "[p]"] exI [of _ "own(p \<mapsto> hive_id h)"])
      (simp add: same_cores_uses [OF A(3)] eqs)
qed

section \<open>Taking and giving back a slot\<close>

lemma get_capacity_unat:
  assumes "words_ok c"
  shows "\<exists>cap. get_capacity c = Some cap \<and> unat cap = slot_cap c \<and> slot_cap c \<le> 2 ^ 31 \<and> 0 < slot_cap c"
  using get_capacity_ok [OF assms] by metis

lemma sorted_in_upd:
  assumes so: "sorted_in n es fs" and c: "chunk_ok c"
    and es: "set es' - {p} = set es - {p}" "p \<in> set es' \<longleftrightarrow> card (used c) < slot_cap c"
    and fs: "set fs' - {p} = set fs - {p}" "p \<in> set fs' \<longleftrightarrow> used c \<noteq> {}"
  shows "sorted_in (n(p \<mapsto> c)) es' fs'"
  unfolding sorted_in_def
proof
  fix i assume i: "i \<in> set es' \<union> set fs'"
  show "chunk_ok (the ((n(p \<mapsto> c)) i)) \<and>
     (i \<in> set es' \<longleftrightarrow> card (used (the ((n(p \<mapsto> c)) i))) < slot_cap (the ((n(p \<mapsto> c)) i))) \<and>
     (i \<in> set fs' \<longleftrightarrow> used (the ((n(p \<mapsto> c)) i)) \<noteq> {})"
  proof (cases "i = p")
    case True
    show ?thesis unfolding True fun_upd_same option.sel using c es(2) fs(2) by blast
  next
    case False
    have "i \<in> set es' \<longleftrightarrow> i \<in> set es" "i \<in> set fs' \<longleftrightarrow> i \<in> set fs" using es(1) fs(1) False by blast+
    then show ?thesis unfolding fun_upd_other [OF False] using so i unfolding sorted_in_def by blast
  qed
qed

lemma allocate_slot_ok:
  assumes ok: "hive_ok s h es fs own hs"
  shows "\<exists>s' h' i slot es' fs'. allocate_slot s h = Some (s', h', Some i, slot) \<and>
    hive_ok s' h' es' fs' (own(i \<mapsto> hive_id h)) hs \<and>
    (fs' = fs \<and> i \<in> set fs \<or> fs' = fs @ [i] \<and> i \<notin> set fs \<and> own i = None) \<and>
    uses (nodes s') fs' = insert (i, unat slot) (uses (nodes s) fs) \<and> (i, unat slot) \<notin> uses (nodes s) fs \<and>
    cont (nodes s') fs' = cont (nodes s) fs \<and> hive_id h' = hive_id h \<and> (\<forall>j. j \<notin> set fs' \<longrightarrow> nodes s' j = nodes s j)"
proof -
  obtain s1 h1 p es1 where F: "fresh_or_head s h = Some (s1, h1, Some p)" "store_ok s1 (own(p \<mapsto> hive_id h)) hs"
      "links_ok (nodes s1) h1 es1 fs" "p \<in> set es1" "set es1 \<subseteq> insert p (set fs)" "sorted_in (nodes s1) es1 fs"
      "\<forall>i \<in> insert p (set fs). (own(p \<mapsto> hive_id h)) i = Some (hive_id h1)" "uses (nodes s1) fs = uses (nodes s) fs"
      "cont (nodes s1) fs = cont (nodes s) fs" "hlen h1 = hlen h" "next_log2_len h1 < 32" "hive_id h1 = hive_id h"
      "p \<notin> set fs \<longrightarrow> own p = None \<and> slots (the (nodes s1 p)) = Map.empty"
      "\<forall>j. j \<notin> insert p (set fs) \<longrightarrow> nodes s1 j = nodes s j"
    using fresh_or_head_ok [OF ok] by metis
  define c where "c = the (nodes s1 p)"
  have lv: "live (nodes s1) p" using links_okD(3) [OF F(3,4)] .
  have c: "chunk_ok c" "card (used c) < slot_cap c" "p \<in> set fs \<longleftrightarrow> used c \<noteq> {}"
    using F(4,6) unfolding sorted_in_def c_def by blast+
  obtain slot where slot: "find_first_empty_slot c = Some slot" "unat slot < slot_cap c" "unat slot \<notin> used c"
    using seek_free [OF chunk_okD(1) [OF c(1)] c(2)] by blast
  obtain bm where bm: "set_slot_filled c slot True = Some (c\<lparr>bitmap := bm\<rparr>)" "words_ok (c\<lparr>bitmap := bm\<rparr>)"
      "used (c\<lparr>bitmap := bm\<rparr>) = insert (unat slot) (used c)"
    using set_slot_filled_ok [OF chunk_okD(1) [OF c(1)] slot(2), of True] by auto
  obtain cap where cap: "get_capacity c = Some cap" "unat cap = slot_cap c" "slot_cap c \<le> 2 ^ 31"
    using get_capacity_unat [OF chunk_okD(1) [OF c(1)]] by blast
  let ?fc = "filled_count c + 1"
  define c' where "c' = c\<lparr>bitmap := bm, filled_count := ?fc\<rparr>"
  have fc: "unat ?fc = card (used c) + 1"
    using c(2) cap(3) chunk_okD(2) [OF c(1)] by (simp add: unat_word_ariths)
  have c': "words_ok c'" "used c' = insert (unat slot) (used c)" "slot_cap c' = slot_cap c" "slots c' = slots c"
    using bm(2,3) by (simp_all add: c'_def words_ok_def slot_cap_def used_def slot_filled_def)
  have card': "card (used c') = card (used c) + 1" using slot(3) by (simp add: c'(2))
  have ok': "chunk_ok c'" using c'(1,2,4) fc card' chunk_okD(3) [OF c(1)] by (auto simp: chunk_ok_def c'_def)
  let ?n2 = "(nodes s1)(p \<mapsto> c')" and ?h2 = "h1\<lparr>hlen := hlen h1 + 1\<rparr>"
  let ?s2 = "s1\<lparr>nodes := ?n2\<rparr>"
  have lk2: "links_ok ?n2 ?h2 es1 fs" by (rule links_ok_upd [OF F(3)]) (simp_all add: c'_def c_def link_funs)
  let ?fs = "if p \<in> set fs then fs else fs @ [p]"
  have fc1: "?fc = 1 \<longleftrightarrow> p \<notin> set fs" using fc c(3) by (auto simp: word_unat_eq_iff)
  obtain n3 h3 where A: "(if ?fc = 1 then add_to_filled_list ?s2 ?h2 (Some p) else Some (?s2, ?h2)) = Some (s1\<lparr>nodes := n3\<rparr>, h3)"
      "links_ok n3 h3 es1 ?fs" "same_cores (set ?fs) ?n2 n3" "hlen h3 = hlen ?h2" "next_log2_len h3 = next_log2_len h1" "hive_id h3 = hive_id h1"
  proof (cases "p \<in> set fs")
    case True
    then show thesis using that [of ?n2 ?h2] fc1 lk2 by simp
  next
    case False
    obtain n' h' where "add_to_filled_list ?s2 ?h2 (Some p) = Some (?s2\<lparr>nodes := n'\<rparr>, h')"
        "h' = ?h2\<lparr>filled_head := first (fs @ [p]) None, filled_tail := Some p\<rparr>"
        "links_ok n' h' es1 (fs @ [p])" "same_cores (insert p (set fs)) ?n2 n'"
      using add_to_filled_list_ok [of ?s2 ?h2 es1 fs p] lk2 False by auto
    then show thesis using that [of n' h'] fc1 False by simp
  qed
  have full: "?fc = cap \<longleftrightarrow> \<not> card (used c') < slot_cap c'"
    using fc card' cap(2) c(2) c'(3) by (auto simp: word_unat_eq_iff)
  obtain as bs where es1: "es1 = as @ p # bs" using F(4) by (meson split_list)
  have d: "p \<notin> set as" "p \<notin> set bs" using links_okD(1) [OF F(3)] es1 by auto
  let ?es = "if ?fc = cap then as @ bs else es1"
  obtain n4 h4 where B: "(if ?fc = cap then remove_from_empty_list (s1\<lparr>nodes := n3\<rparr>) h3 (Some p) else Some (s1\<lparr>nodes := n3\<rparr>, h3)) = Some (s1\<lparr>nodes := n4\<rparr>, h4)"
      "links_ok n4 h4 ?es ?fs" "same_cores (set es1) n3 n4" "hlen h4 = hlen h3" "next_log2_len h4 = next_log2_len h3" "hive_id h4 = hive_id h3"
  proof (cases "?fc = cap")
    case True
    then show thesis using that remove_from_empty_list_ok [of "s1\<lparr>nodes := n3\<rparr>" h3 as p bs ?fs] A(2) es1 by auto
  next
    case False
    then show thesis using that [of n3 h3] A(2) by simp
  qed
  have run: "allocate_slot s h = Some (s1\<lparr>nodes := n4\<rparr>, h4, Some p, slot)"
  proof -
    have g: "node_at (nodes s1) (Some p) = Some c" "get_capacity (c\<lparr>bitmap := bm\<rparr>) = Some cap"
      using lv cap(1) by (simp_all add: node_at_dom c_def get_capacity_def split: if_splits)
    have u: "update_chunk s1 (Some p) (\<lambda>_. c\<lparr>bitmap := bm, filled_count := ?fc\<rparr>) = Some ?s2"
      using lv by (simp add: update_chunk_live c'_def)
    show ?thesis unfolding allocate_slot_def using F(1) g u slot(1) bm(1) A(1) B(1) by (simp add: Let_def)
  qed
  have sub: "set es1 \<subseteq> set ?fs" using F(5) by auto
  have sc: "same_cores (set ?fs) ?n2 n4" using same_cores_trans [OF A(3) B(3) order_refl sub] .
  have so: "sorted_in n4 ?es ?fs" unfolding same_cores_uses(3) [OF sc]
  proof (rule sorted_in_upd [OF F(6) ok'])
    show "set ?es - {p} = set es1 - {p}" using es1 by auto
    show "p \<in> set ?es \<longleftrightarrow> card (used c') < slot_cap c'" using full es1 d by auto
  qed (auto simp: c'(2))
  have u: "uses n4 ?fs = insert (p, unat slot) (uses (nodes s1) fs)" unfolding same_cores_uses(1) [OF sc]
    using c(3) c'(2) by (auto simp: uses_def c_def split: if_splits)
  have ct: "cont n4 ?fs = cont (nodes s1) fs" unfolding same_cores_uses(2) [OF sc]
    using c'(4) F(13) by (auto simp: cont_def fun_eq_iff c_def)
  have nu: "(p, unat slot) \<notin> uses (nodes s1) fs" using slot(3) by (auto simp: uses_def c_def)
  have "live n4 j = live (nodes s1) j" for j using same_coresD(1) [OF sc, of j] lv by (cases "j = p") auto
  then have st: "store_ok (s1\<lparr>nodes := n4\<rparr>) (own(p \<mapsto> hive_id h)) hs"
    using store_ok_nodes [OF F(2), of n4] by blast
  have "hive_ok (s1\<lparr>nodes := n4\<rparr>) h4 ?es ?fs (own(p \<mapsto> hive_id h)) hs"
    unfolding hive_ok_def using st B(2) so sub es1 F(7,10-12) A(4-6) B(4-6) u nu hive_okD(6) [OF ok] F(8)
    by (auto simp: card_insert_disjoint)
  moreover have "\<forall>j. j \<notin> set ?fs \<longrightarrow> n4 j = nodes s j" using same_coresD(3) [OF sc] F(14) by auto
  ultimately show ?thesis using run u nu ct F(8,9,12,13) A(6) B(6)
    by (intro exI [of _ "s1\<lparr>nodes := n4\<rparr>"] exI [of _ h4] exI [of _ p] exI [of _ slot] exI [of _ ?es] exI [of _ ?fs])
      (simp del: fun_upd_apply)
qed

end
