(* ===== verification/HiveOps.thy ===== *)
theory HiveOps
  imports HiveOk
begin

text \<open>What the operations of a hive do to its values: giving back a slot, adding, checking,
  reading and removing through a handle.\<close>

section \<open>Giving back a slot\<close>

lemma used_core: "log2_len c = log2_len c' \<Longrightarrow> bitmap c = bitmap c' \<Longrightarrow> used c = used c'"
  by (simp add: used_def slot_cap_def slot_filled_def)

lemma sorted_in_drop:
  assumes so: "sorted_in n es fs" and s: "set es' = set es - {i}" "set fs' = set fs - {i}"
  shows "sorted_in (n(i := x)) es' fs'"
  unfolding sorted_in_def
proof
  fix j assume j: "j \<in> set es' \<union> set fs'"
  then have "j \<noteq> i" using s by auto
  moreover from this have "j \<in> set es' \<longleftrightarrow> j \<in> set es" "j \<in> set fs' \<longleftrightarrow> j \<in> set fs" using s by auto
  ultimately show "chunk_ok (the ((n(i := x)) j)) \<and>
     (j \<in> set es' \<longleftrightarrow> card (used (the ((n(i := x)) j))) < slot_cap (the ((n(i := x)) j))) \<and>
     (j \<in> set fs' \<longleftrightarrow> used (the ((n(i := x)) j)) \<noteq> {})"
    using so j unfolding sorted_in_def by (metis fun_upd_other UnCI UnE)
qed

lemma remove_slot_ok:
  assumes ok: "hive_ok s h es fs own hs" and i: "i \<in> set fs" and slot: "unat slot \<in> used (the (nodes s i))"
    and gone: "slots (the (nodes s i)) (unat slot) = None"
  shows "\<exists>s' h' es' fs' own'. remove_slot s h (Some i) slot = Some (s', h') \<and> hive_ok s' h' es' fs' own' hs \<and>
    (used (the (nodes s i)) \<noteq> {unat slot} \<and> fs' = fs \<and> own' = own \<or>
     used (the (nodes s i)) = {unat slot} \<and> fs' = remove1 i fs \<and> own' = own(i := None)) \<and>
    uses (nodes s') fs' = uses (nodes s) fs - {(i, unat slot)} \<and> cont (nodes s') fs' = cont (nodes s) fs \<and>
    hive_id h' = hive_id h \<and> (\<forall>j. j \<notin> set fs \<longrightarrow> nodes s' j = nodes s j)"
proof -
  note H = hive_okD [OF ok]
  define c where "c = the (nodes s i)"
  note C = hive_chunk_ok [OF ok i, folded c_def]
  note slot = slot [folded c_def] and gone = gone [folded c_def]
  have lt: "unat slot < slot_cap c" using slot by (simp add: used_def)
  obtain bm where bm: "set_slot_filled c slot False = Some (c\<lparr>bitmap := bm\<rparr>)" "words_ok (c\<lparr>bitmap := bm\<rparr>)"
      "used (c\<lparr>bitmap := bm\<rparr>) = used c - {unat slot}"
    using set_slot_filled_ok [OF chunk_okD(1) [OF C(2)] lt, of False] by auto
  obtain cap where cap: "get_capacity c = Some cap" "unat cap = slot_cap c" "slot_cap c \<le> 2 ^ 31" "0 < slot_cap c"
    using get_capacity_unat [OF chunk_okD(1) [OF C(2)]] by blast
  let ?fc = "filled_count c - 1"
  define c' where "c' = c\<lparr>bitmap := bm, filled_count := ?fc\<rparr>"
  have c': "words_ok c'" "used c' = used c - {unat slot}" "slot_cap c' = slot_cap c" "slots c' = slots c"
    using bm(2,3) by (simp_all add: c'_def words_ok_def slot_cap_def used_def slot_filled_def)
  have card': "card (used c) = card (used c') + 1" unfolding c'(2) using card_Suc_Diff1 [OF finite_used slot] by linarith
  have nz: "filled_count c \<noteq> 0" using card' chunk_okD(2) [OF C(2)] by auto
  have fc: "unat ?fc = card (used c')" using unat_minus_one [OF nz] card' chunk_okD(2) [OF C(2)] by simp
  have ok': "chunk_ok c'" using c'(1,2,4) fc chunk_okD(3) [OF C(2)] gone by (auto simp: chunk_ok_def c'_def)
  let ?n1 = "(nodes s)(i \<mapsto> c')" and ?h1 = "h\<lparr>hlen := hlen h - 1\<rparr>"
  let ?s1 = "s\<lparr>nodes := ?n1\<rparr>"
  have lk1: "links_ok ?n1 ?h1 es fs" by (rule links_ok_upd [OF H(2)]) (simp_all add: c'_def c_def link_funs)
  have capnz: "cap \<noteq> 0" using cap(2,4) by auto
  have full: "?fc = cap - 1 \<longleftrightarrow> i \<notin> set es"
    using fc unat_minus_one [OF capnz] cap(2) card' C(4) card_used [of c] by (auto simp: word_unat_eq_iff)
  let ?es = "if i \<in> set es then es else i # es"
  have lv1: "live ?n1 i" by simp
  obtain n2 h2 where A: "(if ?fc = cap - 1 then add_to_empty_list ?s1 ?h1 (Some i) else Some (?s1, ?h1)) = Some (s\<lparr>nodes := n2\<rparr>, h2)"
      "links_ok n2 h2 ?es fs" "same_cores (set ?es) ?n1 n2" "hlen h2 = hlen ?h1" "next_log2_len h2 = next_log2_len h" "hive_id h2 = hive_id h"
  proof (cases "i \<in> set es")
    case True
    then show thesis using that [of ?n1 ?h1] full lk1 by simp
  next
    case False
    have "links_ok (nodes ?s1) ?h1 es fs" "live (nodes ?s1) i" using lk1 by simp_all
    from add_to_empty_list_ok [OF this False] obtain n' where "add_to_empty_list ?s1 ?h1 (Some i) = Some (?s1\<lparr>nodes := n'\<rparr>, ?h1\<lparr>empty_head := Some i\<rparr>)"
        "links_ok n' (?h1\<lparr>empty_head := Some i\<rparr>) (i # es) fs" "same_cores (insert i (set es)) ?n1 n'" by auto
    then show thesis using that [of n' "?h1\<lparr>empty_head := Some i\<rparr>"] False full by simp
  qed
  have sub: "set ?es \<subseteq> set fs" using H(4) i by auto
  have sc: "same_cores (set fs) ?n1 n2" using same_cores_trans [OF same_cores_refl A(3) empty_subsetI sub] .
  have u2: "uses n2 fs = uses (nodes s) fs - {(i, unat slot)}" unfolding same_cores_uses(1) [OF A(3)]
  proof (rule set_eqI)
    fix x :: "nat \<times> nat"
    obtain j k where x: "x = (j, k)" by force
    show "x \<in> uses ?n1 fs \<longleftrightarrow> x \<in> uses (nodes s) fs - {(i, unat slot)}"
      unfolding x by (cases "j = i") (simp_all add: uses_iff c'(2), simp_all add: c_def)
  qed
  have ct2: "cont n2 fs = cont (nodes s) fs" unfolding same_cores_uses(2) [OF A(3)]
    using c'(4) by (auto simp: cont_def fun_eq_iff c_def)
  have "live n2 j = live (nodes s) j" for j using same_coresD(1) [OF sc, of j] C(1) by (cases "j = i") auto
  then have st2: "store_ok (s\<lparr>nodes := n2\<rparr>) own hs" using store_ok_nodes [OF H(1), of n2] by blast
  have len: "hlen h - 1 = of_nat (card (uses (nodes s) fs - {(i, unat slot)}))"
  proof -
    have "(i, unat slot) \<in> uses (nodes s) fs" using i slot by (simp add: uses_iff c_def)
    from card_Suc_Diff1 [OF finite_uses this]
    have "hlen h = of_nat (Suc (card (uses (nodes s) fs - {(i, unat slot)})))" using H(6) by metis
    then show ?thesis by (metis add_diff_cancel_left' of_nat_Suc)
  qed
  have g: "node_at (nodes s) (Some i) = Some c" "get_capacity (c\<lparr>bitmap := bm\<rparr>) = Some cap"
      "update_chunk s (Some i) (\<lambda>_. c\<lparr>bitmap := bm, filled_count := ?fc\<rparr>) = Some ?s1"
    using C(1) cap(1) by (simp_all add: node_at_dom c_def get_capacity_def update_chunk_live c'_def split: if_splits)
  have run: "remove_slot s h (Some i) slot = (if ?fc = 0 then do {
       (s, h) \<leftarrow> remove_from_filled_list (s\<lparr>nodes := n2\<rparr>) h2 (Some i);
       (s, h) \<leftarrow> remove_from_empty_list s h (Some i);
       s \<leftarrow> destroy_chunk s (Some i);
       Some (s, h) } else Some (s\<lparr>nodes := n2\<rparr>, h2))"
    unfolding remove_slot_def using g bm(1) A(1) by (simp add: Let_def)
  have fr: "\<forall>j. j \<notin> set fs \<longrightarrow> n2 j = nodes s j" using same_coresD(3) [OF sc] i by auto
  show ?thesis
  proof (cases "used c = {unat slot}")
    case False
    then have ne: "used c' \<noteq> {}" using slot c'(2) by auto
    then have "?fc \<noteq> 0" using fc by (auto simp: word_unat_eq_iff)
    then have r: "remove_slot s h (Some i) slot = Some (s\<lparr>nodes := n2\<rparr>, h2)" using run by simp
    have "sorted_in n2 ?es fs" unfolding same_cores_uses(3) [OF A(3)]
    proof (rule sorted_in_upd [OF H(3) ok'])
      show "set ?es - {i} = set es - {i}" by auto
      have "card (used c') < slot_cap c'" using card' card_used [of c] c'(3) by simp
      then show "i \<in> set ?es \<longleftrightarrow> card (used c') < slot_cap c'" by auto
    qed (use ne i in auto)
    then have "hive_ok (s\<lparr>nodes := n2\<rparr>) h2 ?es fs own hs"
      unfolding hive_ok_def using st2 A(2,4-6) sub H(5,7) u2 len by simp
    then show ?thesis using r u2 ct2 A(6) fr False
      by (intro exI [of _ "s\<lparr>nodes := n2\<rparr>"] exI [of _ h2] exI [of _ ?es] exI [of _ fs] exI [of _ own]) (simp add: c_def)
  next
    case True
    then have em: "used c' = {}" using c'(2) by auto
    then have "?fc = 0" using fc by (auto simp: word_unat_eq_iff)
    obtain as bs where fs: "fs = as @ i # bs" using i by (meson split_list)
    have d: "i \<notin> set as" "i \<notin> set bs" using links_okD(2) [OF H(2)] fs by auto
    obtain es1 es2 where es: "?es = es1 @ i # es2" by (metis split_list list.set_intros(1))
    have de: "i \<notin> set es1" "i \<notin> set es2" using links_okD(1) [OF A(2)] unfolding es by auto
    obtain n3 h3 where B: "remove_from_filled_list (s\<lparr>nodes := n2\<rparr>) h2 (Some i) = Some (s\<lparr>nodes := n3\<rparr>, h3)"
        "links_ok n3 h3 (es1 @ i # es2) (as @ bs)" "same_cores (set fs) n2 n3" "hlen h3 = hlen h2" "next_log2_len h3 = next_log2_len h2" "hive_id h3 = hive_id h2"
      using remove_from_filled_list_ok [of "s\<lparr>nodes := n2\<rparr>" h2 ?es as i bs] A(2) unfolding fs es by auto
    obtain n4 h4 where D: "remove_from_empty_list (s\<lparr>nodes := n3\<rparr>) h3 (Some i) = Some (s\<lparr>nodes := n4\<rparr>, h4)"
        "links_ok n4 h4 (es1 @ es2) (as @ bs)" "same_cores (set ?es) n3 n4" "hlen h4 = hlen h3" "next_log2_len h4 = next_log2_len h3" "hive_id h4 = hive_id h3"
      using remove_from_empty_list_ok [of "s\<lparr>nodes := n3\<rparr>" h3 es1 i es2 "as @ bs"] B(2) unfolding es by auto
    have sc4: "same_cores (set fs) n2 n4" using same_cores_trans [OF B(3) D(3) order_refl sub] .
    have st4: "store_ok (s\<lparr>nodes := n4\<rparr>) own hs"
      using store_ok_nodes [OF st2, of n4] same_coresD(1) [OF sc4] by simp
    have "own i \<noteq> None" using H(5) [OF i] by simp
    then obtain s5 where s5: "drop_node (s\<lparr>nodes := n4\<rparr>) (Some i) = Some s5" "store_ok s5 (own(i := None)) hs" "nodes s5 = n4(i := None)"
      using drop_node_ok [OF st4] by auto
    have r: "remove_slot s h (Some i) slot = Some (s5, h4)"
      unfolding run using \<open>?fc = 0\<close> B(1) D(1) s5(1) by (simp add: destroy_chunk_def)
    have fs': "remove1 i fs = as @ bs" unfolding fs using d by (simp add: remove1_append)
    have u4: "uses (n4(i := None)) (as @ bs) = uses (nodes s) fs - {(i, unat slot)}"
    proof -
      have "uses (n4(i := None)) (as @ bs) = uses n4 (as @ bs)" using d by (auto simp: uses_def split: if_splits)
      also have "\<dots> = uses n2 (as @ bs)" by (rule same_cores_uses(1) [OF sc4])
      also have "\<dots> = uses n2 fs"
        using core_eq(1) [OF same_coresD(2) [OF A(3), of i]] em by (auto simp: uses_def fs)
      finally show ?thesis using u2 by simp
    qed
    have ct4: "cont (n4(i := None)) (as @ bs) = cont (nodes s) fs"
    proof -
      have "cont (n4(i := None)) (as @ bs) = cont n4 (as @ bs)" using d by (auto simp: cont_def fun_eq_iff)
      also have "\<dots> = cont n2 (as @ bs)" by (rule same_cores_uses(2) [OF sc4])
      also have "\<dots> = cont n2 fs"
      proof -
        have "slots (the (n2 i)) = Map.empty"
          using core_eq(3) [OF same_coresD(2) [OF A(3), of i]] chunk_okD(3) [OF ok'] em by simp
        then show ?thesis by (auto simp: cont_def fs fun_eq_iff)
      qed
      finally show ?thesis using ct2 by simp
    qed
    have so2: "sorted_in ?n1 (es1 @ es2) (as @ bs)"
    proof -
      have "set ?es = insert i (set (es1 @ es2))" unfolding es by auto
      moreover have "set ?es = insert i (set es)" by auto
      ultimately have "insert i (set es) = insert i (set (es1 @ es2))" by metis
      then have e: "set (es1 @ es2) = set es - {i}" using de by auto
      have f: "set (as @ bs) = set fs - {i}" using d fs by auto
      show ?thesis by (rule sorted_in_drop [OF H(3) e f])
    qed
    have so: "sorted_in (n4(i := None)) (es1 @ es2) (as @ bs)"
    proof -
      have "sorted_in n4 (es1 @ es2) (as @ bs)"
        using so2 same_cores_uses(3) [OF sc4] same_cores_uses(3) [OF A(3)] by blast
      then show ?thesis by (rule sorted_in_drop) (use d de in auto)
    qed
    have lk: "links_ok (n4(i := None)) h4 (es1 @ es2) (as @ bs)"
      by (rule links_ok_other [OF D(2)]) (use d de in auto)
    have sub': "set (es1 @ es2) \<subseteq> set (as @ bs)"
    proof -
      have "set (es1 @ i # es2) \<subseteq> set fs" using sub es by metis
      then show ?thesis using de by (auto simp: fs)
    qed
    have own': "\<forall>j \<in> set (as @ bs). (own(i := None)) j = Some (hive_id h)" using H(5) fs d by auto
    have "hive_ok s5 h4 (es1 @ es2) (as @ bs) (own(i := None)) hs"
      unfolding hive_ok_def s5(3) using s5(2) lk so sub' own' u4 len A(4-6) B(4-6) D(4-6) H(7) by simp
    moreover have "\<forall>j. j \<notin> set fs \<longrightarrow> nodes s5 j = nodes s j" using s5(3) fr same_coresD(3) [OF sc4] i by auto
    ultimately show ?thesis using r u4 ct4 True fs' A(6) B(6) D(6)
      by (intro exI [of _ s5] exI [of _ h4] exI [of _ "es1 @ es2"] exI [of _ "as @ bs"] exI [of _ "own(i := None)"]) (simp add: s5(3) c_def)
  qed
qed

section \<open>Values and handles\<close>

lemma hive_ok_store:
  assumes "hive_ok s h es fs own hs" "store_ok s' own hs'" "nodes s' = nodes s"
  shows "hive_ok s' h es fs own hs'"
  using assms by (simp add: hive_ok_def)

lemma sorted_in_core:
  assumes so: "sorted_in n es fs" and c: "chunk_ok c" "used c = used (the (n i))" "slot_cap c = slot_cap (the (n i))"
  shows "sorted_in (n(i \<mapsto> c)) es fs"
  unfolding sorted_in_def
proof
  fix j assume j: "j \<in> set es \<union> set fs"
  then show "chunk_ok (the ((n(i \<mapsto> c)) j)) \<and>
     (j \<in> set es \<longleftrightarrow> card (used (the ((n(i \<mapsto> c)) j))) < slot_cap (the ((n(i \<mapsto> c)) j))) \<and>
     (j \<in> set fs \<longleftrightarrow> used (the ((n(i \<mapsto> c)) j)) \<noteq> {})"
  proof (cases "j = i")
    case True
    show ?thesis unfolding True fun_upd_same option.sel c(2,3) using so j c(1) unfolding sorted_in_def True by blast
  next
    case False
    then show ?thesis unfolding fun_upd_other [OF False] using so j unfolding sorted_in_def by blast
  qed
qed

lemma slot_upd_ok:
  assumes ok: "hive_ok s h es fs own hs" and i: "i \<in> set fs" and k: "k \<in> used (the (nodes s i))"
  shows "\<exists>s'. update_chunk s (Some i) (slots_update (\<lambda>f. f(k := x))) = Some s' \<and> hive_ok s' h es fs own hs \<and>
    uses (nodes s') fs = uses (nodes s) fs \<and> cont (nodes s') fs = (cont (nodes s) fs)((i, k) := x) \<and>
    (\<forall>j. j \<noteq> i \<longrightarrow> nodes s' j = nodes s j) \<and> used (the (nodes s' i)) = used (the (nodes s i))"
proof -
  note H = hive_okD [OF ok]
  define c where "c = the (nodes s i)"
  note C = hive_chunk_ok [OF ok i, folded c_def]
  let ?c = "slots_update (\<lambda>f. f(k := x)) c"
  let ?s = "s\<lparr>nodes := (nodes s)(i \<mapsto> ?c)\<rparr>"
  have eqs: "used ?c = used c" "slot_cap ?c = slot_cap c" "words_ok ?c = words_ok c" "filled_count ?c = filled_count c"
    by (simp_all add: used_def slot_cap_def slot_filled_def words_ok_def)
  have ok': "chunk_ok ?c" using chunk_okD [OF C(2)] k [folded c_def] by (auto simp: chunk_ok_def eqs)
  have run: "update_chunk s (Some i) (slots_update (\<lambda>f. f(k := x))) = Some ?s" using C(1) by (simp add: update_chunk_live c_def)
  have u: "uses (nodes ?s) fs = uses (nodes s) fs"
  proof (rule set_eqI)
    fix y :: "nat \<times> nat"
    obtain j k where y: "y = (j, k)" by force
    show "y \<in> uses (nodes ?s) fs \<longleftrightarrow> y \<in> uses (nodes s) fs"
      unfolding y by (cases "j = i") (simp_all add: uses_iff eqs(1), simp_all add: c_def)
  qed
  have ct: "cont (nodes ?s) fs = (cont (nodes s) fs)((i, k) := x)"
    using i by (auto simp: cont_def fun_eq_iff c_def)
  have "links_ok ((nodes s)(i \<mapsto> ?c)) h es fs" by (rule links_ok_upd [OF H(2)]) (simp_all add: c_def link_funs)
  then have "links_ok (nodes ?s) h es fs" by simp
  moreover have "sorted_in (nodes ?s) es fs" using sorted_in_core [OF H(3) ok'] eqs(1,2) by (simp add: c_def)
  moreover have "store_ok ?s own hs" using C(1) by (intro store_ok_nodes [OF H(1)]) auto
  ultimately have "hive_ok ?s h es fs own hs" unfolding hive_ok_def u using H by auto
  then show ?thesis using run u ct eqs(1) by (intro exI [of _ ?s]) (simp add: c_def)
qed

lemma slot_handle_ok:
  assumes ok: "hive_ok s h es fs own hs" and i: "i \<in> set fs" and len: "length hs < 2 ^ 61"
  shows "\<exists>s'. slot_handle s (Some i) slot = Some (s', (Some i, slot)) \<and> hive_ok s' h es fs own (Some i # hs) \<and> nodes s' = nodes s"
proof -
  have "own i \<noteq> None" using hive_okD(5) [OF ok i] by simp
  then obtain s' where "with_handle s i = Some (s', Some i)" "store_ok s' own (Some i # hs)" "nodes s' = nodes s"
    using with_handle_store [OF hive_okD(1) [OF ok] _ len] by blast
  then show ?thesis using hive_ok_store [OF ok] by (auto simp: slot_handle_def)
qed

definition hive_alone :: "(nat \<Rightarrow> u64 option) \<Rightarrow> hive \<Rightarrow> nat list \<Rightarrow> bool" where
  "hive_alone own h fs \<longleftrightarrow> (\<forall>i. own i = Some (hive_id h) \<longrightarrow> i \<in> set fs)"

lemma hive_check_use:
  assumes ok: "hive_ok s h es fs own hs" and i: "i \<in> set fs"
  shows "hive_check s h (Some i, k) = Some (unat k \<in> used (the (nodes s i)))"
proof -
  note H = hive_okD [OF ok] and C = hive_chunk_ok [OF ok i]
  obtain cap where cap: "get_capacity (the (nodes s i)) = Some cap" "unat cap = slot_cap (the (nodes s i))"
    using get_capacity_unat [OF chunk_okD(1) [OF C(2)]] by blast
  have "counted_check (tagged s) (Some i) (hive_id h) = Some True" by (rule check_in_store [OF H(1) H(5) [OF i]])
  then show ?thesis
    using C(1) cap is_slot_filled_ok [OF chunk_okD(1) [OF C(2)], of k]
    by (simp add: hive_check_def node_at_dom word_le_nat_alt used_def)
qed

lemma hive_check_other:
  assumes ok: "hive_ok s h es fs own hs" and al: "hive_alone own h fs" and p: "p \<in> set hs" "\<And>i. p = Some i \<Longrightarrow> i \<notin> set fs"
  shows "hive_check s h (p, k) = Some False"
proof (cases p)
  case None
  then show ?thesis by (simp add: hive_check_def counted_check_def)
next
  case (Some i)
  note c = store_okD(1) [OF hive_okD(1) [OF ok]]
  have "own i \<noteq> Some (hive_id h)" using al p(2) Some by (auto simp: hive_alone_def)
  then have "counted_check (tagged s) p (hive_id h) \<noteq> Some True"
    unfolding Some using counted_check_owned [OF hive_okD(1) [OF ok], of i "hive_id h"] by simp
  moreover have "counted_check (tagged s) p (hive_id h) \<noteq> None"
  proof -
    have "tags (tagged s) i \<noteq> None" using counted_okD(3) [OF c] p(1) Some by simp
    then show ?thesis by (auto simp: Some counted_check_def tag_at_def)
  qed
  ultimately have "counted_check (tagged s) p (hive_id h) = Some False" by (cases "counted_check (tagged s) p (hive_id h)") auto
  then show ?thesis by (simp add: hive_check_def)
qed

lemma hive_data_eq:
  assumes ok: "hive_ok s h es fs own hs" and al: "hive_alone own h fs"
  shows "hive_data s h (Some i, k) = cont (nodes s) fs (i, unat k)"
proof (cases "i \<in> set fs")
  case True
  have "slots (the (nodes s i)) (unat k) = None" if "unat k \<notin> used (the (nodes s i))"
    using chunk_okD(3) [OF hive_chunk_ok(2) [OF ok True]] that by (auto simp: domIff subset_iff)
  then show ?thesis
    using True hive_check_use [OF ok True, of k] hive_chunk_ok(1) [OF ok True] by (simp add: hive_data_def node_at_dom cont_def)
next
  case False
  then have "own i \<noteq> Some (hive_id h)" using al by (auto simp: hive_alone_def)
  then have "counted_check (tagged s) (Some i) (hive_id h) \<noteq> Some True"
    using counted_check_owned [OF hive_okD(1) [OF ok], of i "hive_id h"] by simp
  then have "hive_check s h (Some i, k) \<noteq> Some True"
    by (cases "counted_check (tagged s) (Some i) (hive_id h)") (auto simp: hive_check_def)
  then have "hive_data s h (Some i, k) = None"
    by (cases "hive_check s h (Some i, k)") (auto simp: hive_data_def)
  then show ?thesis using False by (simp add: cont_def)
qed

section \<open>Adding and removing a value\<close>

text \<open>What a new slot \<open>(i, k)\<close> does to the sequence of chunks.\<close>

definition adds_slot :: "'a hive_store \<Rightarrow> 'a hive_store \<Rightarrow> nat list \<Rightarrow> nat list \<Rightarrow> nat \<Rightarrow> u32 \<Rightarrow> bool" where
  "adds_slot s s' fs fs' i k \<longleftrightarrow> (i \<in> set fs \<and> fs' = fs \<or> i \<notin> set fs \<and> fs' = fs @ [i]) \<and>
     (i, unat k) \<notin> uses (nodes s) fs \<and> uses (nodes s') fs' = insert (i, unat k) (uses (nodes s) fs) \<and>
     (\<forall>j. j \<notin> set fs' \<longrightarrow> nodes s' j = nodes s j)"

lemma take_slot_ok:
  assumes ok: "hive_ok s h es fs own hs" and len: "length hs < 2 ^ 61"
  obtains s1 s' h' i k es' fs' where "allocate_slot s h = Some (s1, h', Some i, k)" "slot_handle s1 (Some i) k = Some (s', (Some i, k))"
    "hive_ok s' h' es' fs' (own(i \<mapsto> hive_id h)) (Some i # hs)" "adds_slot s s' fs fs' i k"
    "i \<notin> set fs \<longrightarrow> own i = None" "cont (nodes s') fs' = cont (nodes s) fs" "hive_id h' = hive_id h"
proof -
  obtain s1 h1 i k es1 fs1 where A: "allocate_slot s h = Some (s1, h1, Some i, k)"
      "hive_ok s1 h1 es1 fs1 (own(i \<mapsto> hive_id h)) hs" "fs1 = fs \<and> i \<in> set fs \<or> fs1 = fs @ [i] \<and> i \<notin> set fs \<and> own i = None"
      "uses (nodes s1) fs1 = insert (i, unat k) (uses (nodes s) fs)" "(i, unat k) \<notin> uses (nodes s) fs"
      "cont (nodes s1) fs1 = cont (nodes s) fs" "hive_id h1 = hive_id h" "\<forall>j. j \<notin> set fs1 \<longrightarrow> nodes s1 j = nodes s j"
    using allocate_slot_ok [OF ok] by blast
  have i: "i \<in> set fs1" using A(3) by auto
  obtain s2 where B: "slot_handle s1 (Some i) k = Some (s2, (Some i, k))" "hive_ok s2 h1 es1 fs1 (own(i \<mapsto> hive_id h)) (Some i # hs)"
      "nodes s2 = nodes s1"
    using slot_handle_ok [OF A(2) i len] by blast
  have "adds_slot s s2 fs fs1 i k" using A(3-5,8) B(3) unfolding adds_slot_def by auto
  then show thesis using that [OF A(1) B(1,2)] A(3,6,7) B(3) by auto
qed

lemma hive_emplace_null_ok:
  assumes "hive_ok s h es fs own hs" "length hs < 2 ^ 61"
  shows "\<exists>s' h' i k es' fs'. hive_emplace_null s h = Some (s', h', (Some i, k)) \<and>
    hive_ok s' h' es' fs' (own(i \<mapsto> hive_id h)) (Some i # hs) \<and> adds_slot s s' fs fs' i k \<and>
    (i \<notin> set fs \<longrightarrow> own i = None) \<and> cont (nodes s') fs' = cont (nodes s) fs \<and> hive_id h' = hive_id h"
proof -
  obtain s0 s1 h1 i k es1 fs1 where A: "allocate_slot s h = Some (s0, h1, Some i, k)" "slot_handle s0 (Some i) k = Some (s1, (Some i, k))"
      "hive_ok s1 h1 es1 fs1 (own(i \<mapsto> hive_id h)) (Some i # hs)" "adds_slot s s1 fs fs1 i k" "i \<notin> set fs \<longrightarrow> own i = None"
      "cont (nodes s1) fs1 = cont (nodes s) fs" "hive_id h1 = hive_id h"
    by (rule take_slot_ok [OF assms])
  then show ?thesis
    by (intro exI [of _ s1] exI [of _ h1] exI [of _ i] exI [of _ k] exI [of _ es1] exI [of _ fs1]) (simp add: hive_emplace_null_def)
qed

lemma hive_emplace_ok:
  assumes ok: "hive_ok s h es fs own hs" and len: "length hs < 2 ^ 61"
  shows "\<exists>s' h' i k es' fs'. hive_emplace s h v = Some (s', h', (Some i, k)) \<and>
    hive_ok s' h' es' fs' (own(i \<mapsto> hive_id h)) (Some i # hs) \<and> adds_slot s s' fs fs' i k \<and>
    (i \<notin> set fs \<longrightarrow> own i = None) \<and> cont (nodes s') fs' = (cont (nodes s) fs)((i, unat k) \<mapsto> v) \<and> hive_id h' = hive_id h"
proof -
  obtain s0 s1 h1 i k es1 fs1 where A: "allocate_slot s h = Some (s0, h1, Some i, k)" "slot_handle s0 (Some i) k = Some (s1, (Some i, k))"
      "hive_ok s1 h1 es1 fs1 (own(i \<mapsto> hive_id h)) (Some i # hs)" "adds_slot s s1 fs fs1 i k" "i \<notin> set fs \<longrightarrow> own i = None"
      "cont (nodes s1) fs1 = cont (nodes s) fs" "hive_id h1 = hive_id h"
    by (rule take_slot_ok [OF assms])
  have "(i, unat k) \<in> uses (nodes s1) fs1" using A(4) by (auto simp: adds_slot_def)
  then have i: "i \<in> set fs1" "unat k \<in> used (the (nodes s1 i))" by (auto simp: uses_iff)
  obtain s2 where "update_chunk s1 (Some i) (slots_update (\<lambda>f. f(unat k := Some v))) = Some s2"
      "hive_ok s2 h1 es1 fs1 (own(i \<mapsto> hive_id h)) (Some i # hs)"
      "uses (nodes s2) fs1 = uses (nodes s1) fs1" "cont (nodes s2) fs1 = (cont (nodes s1) fs1)((i, unat k) := Some v)"
      "\<forall>j. j \<noteq> i \<longrightarrow> nodes s2 j = nodes s1 j"
    using slot_upd_ok [OF A(3) i] by blast
  moreover from this A(4) i(1) have "adds_slot s s2 fs fs1 i k" unfolding adds_slot_def by metis
  ultimately show ?thesis using A
    by (intro exI [of _ s2] exI [of _ h1] exI [of _ i] exI [of _ k] exI [of _ es1] exI [of _ fs1])
      (simp add: hive_emplace_def construct_slot_def)
qed

definition drops_slot :: "'a hive_store \<Rightarrow> 'a hive_store \<Rightarrow> nat list \<Rightarrow> nat list \<Rightarrow> (nat \<Rightarrow> u64 option) \<Rightarrow> (nat \<Rightarrow> u64 option) \<Rightarrow> nat \<Rightarrow> u32 \<Rightarrow> bool" where
  "drops_slot s s' fs fs' own own' i k \<longleftrightarrow>
     (used (the (nodes s i)) \<noteq> {unat k} \<and> fs' = fs \<and> own' = own \<or>
      used (the (nodes s i)) = {unat k} \<and> fs' = remove1 i fs \<and> own' = own(i := None)) \<and>
     uses (nodes s') fs' = uses (nodes s) fs - {(i, unat k)} \<and> (\<forall>j. j \<notin> set fs \<longrightarrow> nodes s' j = nodes s j)"

lemma hive_remove_ok:
  assumes ok: "hive_ok s h es fs own hs" and v: "cont (nodes s) fs (i, unat k) \<noteq> None"
  shows "\<exists>s' h' es' fs' own'. hive_remove s h (Some i, k) = Some (s', h') \<and> hive_ok s' h' es' fs' own' hs \<and>
    drops_slot s s' fs fs' own own' i k \<and> cont (nodes s') fs' = (cont (nodes s) fs)((i, unat k) := None) \<and> hive_id h' = hive_id h"
proof -
  have i: "i \<in> set fs" "slots (the (nodes s i)) (unat k) \<noteq> None" using v by (auto simp: cont_def split: if_splits)
  note C = hive_chunk_ok [OF ok i(1)]
  have k: "unat k \<in> used (the (nodes s i))" using chunk_okD(3) [OF C(2)] i(2) by auto
  obtain s1 where A: "update_chunk s (Some i) (slots_update (\<lambda>f. f(unat k := None))) = Some s1" "hive_ok s1 h es fs own hs"
      "uses (nodes s1) fs = uses (nodes s) fs" "cont (nodes s1) fs = (cont (nodes s) fs)((i, unat k) := None)"
      "\<forall>j. j \<noteq> i \<longrightarrow> nodes s1 j = nodes s j" "used (the (nodes s1 i)) = used (the (nodes s i))"
    using slot_upd_ok [OF ok i(1) k, of None] by blast
  have "slots (the (nodes s1 i)) (unat k) = None" using fun_cong [OF A(4), of "(i, unat k)"] i(1) by (simp add: cont_def)
  then obtain s2 h2 es2 fs2 own2 where B: "remove_slot s1 h (Some i) k = Some (s2, h2)" "hive_ok s2 h2 es2 fs2 own2 hs"
      "used (the (nodes s1 i)) \<noteq> {unat k} \<and> fs2 = fs \<and> own2 = own \<or>
       used (the (nodes s1 i)) = {unat k} \<and> fs2 = remove1 i fs \<and> own2 = own(i := None)"
      "uses (nodes s2) fs2 = uses (nodes s1) fs - {(i, unat k)}" "cont (nodes s2) fs2 = cont (nodes s1) fs"
      "hive_id h2 = hive_id h" "\<forall>j. j \<notin> set fs \<longrightarrow> nodes s2 j = nodes s1 j"
    using remove_slot_ok [OF A(2) i(1)] k A(6) by metis
  have "hive_remove s h (Some i, k) = Some (s2, h2)"
    using hive_check_use [OF ok i(1), of k] k C(1) i(2) A(1) B(1) by (auto simp: hive_remove_def node_at_dom)
  moreover have "drops_slot s s2 fs fs2 own own2 i k"
    using B(3,4,7) A(3,5,6) i(1) unfolding drops_slot_def by metis
  ultimately show ?thesis using B(2,5,6) A(4) by metis
qed

lemma hive_inform_destruct_ok:
  assumes ok: "hive_ok s h es fs own hs" and k: "(i, unat k) \<in> uses (nodes s) fs" "cont (nodes s) fs (i, unat k) = None"
  shows "\<exists>s' h' es' fs' own'. hive_inform_destruct s h (Some i, k) = Some (s', h') \<and> hive_ok s' h' es' fs' own' hs \<and>
    drops_slot s s' fs fs' own own' i k \<and> cont (nodes s') fs' = cont (nodes s) fs \<and> hive_id h' = hive_id h"
proof -
  have i: "i \<in> set fs" "unat k \<in> used (the (nodes s i))" "slots (the (nodes s i)) (unat k) = None"
    using k by (auto simp: cont_def uses_iff)
  have "hive_inform_destruct s h (Some i, k) = remove_slot s h (Some i) k"
    using hive_check_use [OF ok i(1), of k] i(2) by (simp add: hive_inform_destruct_def)
  then show ?thesis using remove_slot_ok [OF ok i] unfolding drops_slot_def by metis
qed

end
