(* ===== verification/HiveIter.thy ===== *)
theory HiveIter
  imports HiveOps
begin

text \<open>Iteration over a hive: the order of the slots in use, and the first, last, next and
  previous one.\<close>

section \<open>The order of the slots\<close>

definition slot_list :: "'a hive_chunk \<Rightarrow> nat list" where
  "slot_list c = filter (slot_filled c) [0..<slot_cap c]"

definition visit :: "'a hive_chunk heap \<Rightarrow> nat list \<Rightarrow> (nat \<times> nat) list" where
  "visit n fs = concat (map (\<lambda>i. map (Pair i) (slot_list (the (n i)))) fs)"

definition pos_of :: "nat \<times> nat \<Rightarrow> ptr \<times> u32" where
  "pos_of = (\<lambda>(i, k). (Some i, of_nat k))"

definition pos_first :: "(nat \<times> nat) list \<Rightarrow> ptr \<times> u32" where
  "pos_first xs = (if xs = [] then (None, 0) else pos_of (hd xs))"

definition pos_last :: "(nat \<times> nat) list \<Rightarrow> ptr \<times> u32" where
  "pos_last xs = (if xs = [] then (None, 0) else pos_of (last xs))"

lemma set_slot_list [simp]: "set (slot_list c) = used c"
  by (auto simp: slot_list_def used_def)

lemma slot_list_distinct [simp]: "distinct (slot_list c)"
  by (simp add: slot_list_def)

lemma visit_simps [simp]: "visit n [] = []" "visit n (i # fs) = map (Pair i) (slot_list (the (n i))) @ visit n fs"
  "visit n (fs @ gs) = visit n fs @ visit n gs"
  by (simp_all add: visit_def)

lemma set_visit: "set (visit n fs) = uses n fs"
  by (induction fs) (auto simp: uses_def)

lemma distinct_visit: "distinct fs \<Longrightarrow> distinct (visit n fs)"
  by (induction fs) (auto simp: distinct_map inj_on_def set_visit uses_def)

lemma length_visit: "distinct fs \<Longrightarrow> length (visit n fs) = card (uses n fs)"
  using distinct_card [OF distinct_visit, of fs n] by (simp add: set_visit)

lemma seek_filter: "a \<le> n \<Longrightarrow> seek P a n = (case filter P [a..<n] of [] \<Rightarrow> n | x # _ \<Rightarrow> x)"
proof (induction "n - a" arbitrary: a)
  case (Suc d)
  then have "[a..<n] = a # [Suc a..<n]" by (simp add: upt_conv_Cons)
  then show ?case using Suc.hyps(1) [of "Suc a"] Suc.hyps(2)
    by (cases "P a") (simp_all add: seek_def split: list.split)
qed (simp add: seek_def)

lemma seek_down_last: "seek_down P a n = (if filter P [0..<a] = [] then n else last (filter P [0..<a]))"
  by (simp add: seek_down_def split: list.split)

lemma filter_split:
  assumes "filter P [0..<n] = xs @ k # ys"
  shows "filter P [0..<k] = xs" "filter P [Suc k..<n] = ys" "k < n"
proof -
  have "k \<in> set (filter P [0..<n])" using assms by simp
  then have k: "k < n" "P k" by auto
  have "[0..<n] = [0..<k] @ k # [Suc k..<n]" using k(1) by (metis le0 le_add_diff_inverse less_imp_le_nat upt_add_eq_append upt_conv_Cons)
  then have "filter P [0..<n] = filter P [0..<k] @ k # filter P [Suc k..<n]" using k(2) by simp
  moreover have "distinct (filter P [0..<n])" by simp
  ultimately show "filter P [0..<k] = xs" "filter P [Suc k..<n] = ys"
    using assms append_Cons_eq_iff [of k "filter P [0..<k]" "filter P [Suc k..<n]" xs ys] by auto
  show "k < n" by (rule k)
qed

lemma visit_split:
  assumes v: "visit n fs = xs @ (i, k) # ys" and d: "distinct fs"
  obtains as bs l1 l2 where "fs = as @ i # bs" "slot_list (the (n i)) = l1 @ k # l2"
    "xs = visit n as @ map (Pair i) l1" "ys = map (Pair i) l2 @ visit n bs"
proof -
  have "(i, k) \<in> uses n fs" using v set_visit [of n fs] by (metis in_set_conv_decomp)
  then have i: "i \<in> set fs" "k \<in> set (slot_list (the (n i)))" by (auto simp: uses_iff)
  obtain as bs where fs: "fs = as @ i # bs" using i(1) by (meson split_list)
  obtain l1 l2 where l: "slot_list (the (n i)) = l1 @ k # l2" using i(2) by (meson split_list)
  have "i \<notin> set as" "i \<notin> set bs" using d fs by auto
  then have "(i, k) \<notin> set (visit n as @ map (Pair i) l1)"
    using l slot_list_distinct [of "the (n i)"] by (auto simp: set_visit uses_iff)
  moreover have "(i, k) \<notin> set (map (Pair i) l2 @ visit n bs)"
    using \<open>i \<notin> set bs\<close> l slot_list_distinct [of "the (n i)"] by (auto simp: set_visit uses_iff)
  moreover have "(visit n as @ map (Pair i) l1) @ (i, k) # (map (Pair i) l2 @ visit n bs) = xs @ (i, k) # ys"
    using v fs l by simp
  ultimately have "visit n as @ map (Pair i) l1 = xs \<and> map (Pair i) l2 @ visit n bs = ys"
    by (rule append_Cons_eq_iff [THEN iffD1])
  then show thesis using that fs l by simp
qed

section \<open>First and last\<close>

lemma small_slot: "k < 2 ^ 31 \<Longrightarrow> unat (of_nat k :: u32) = k"
  by (simp add: unat_of_nat take_bit_nat_eq_self)

lemma of_nat_slot: "unat (r :: u32) = k \<Longrightarrow> r = of_nat k"
  by auto

lemma front_loop_ok:
  assumes ok: "hive_ok s h es (as @ bs) own hs"
  shows "front_loop s (first bs None) = Some (pos_first (visit (nodes s) bs))"
proof (cases bs)
  case Nil
  then show ?thesis by (simp add: front_loop.simps pos_first_def)
next
  case (Cons b bs')
  let ?c = "the (nodes s b)"
  note C = hive_chunk_ok [OF ok, of b, unfolded Cons, simplified]
  note W = chunk_okD(1) [OF C(2)]
  obtain cap where cap: "get_capacity ?c = Some cap" "unat cap = slot_cap ?c" using get_capacity_unat [OF W] by blast
  obtain r where r: "find_first_filled_slot ?c = Some r" "unat r = seek (slot_filled ?c) 0 (slot_cap ?c)"
    using find_first_filled_ok [OF W] by blast
  obtain k l where l: "slot_list ?c = k # l" using C(3) set_slot_list [of ?c] by (cases "slot_list ?c") auto
  then have "unat r = k" "k \<in> used ?c" using r(2) seek_filter [of 0 "slot_cap ?c" "slot_filled ?c"] set_slot_list [of ?c]
    by (auto simp: slot_list_def)
  then have "r < cap" "r = of_nat k" using cap(2) by (auto simp: word_less_nat_alt used_def)
  then show ?thesis using Cons C(1) cap(1) r(1) l by (simp add: front_loop.simps node_at_dom pos_first_def pos_of_def)
qed

lemma back_loop_ok:
  assumes ok: "hive_ok s h es (as @ bs) own hs"
  shows "back_loop s (final None as) = Some (pos_last (visit (nodes s) as))"
proof (cases as rule: rev_cases)
  case Nil
  then show ?thesis by (simp add: back_loop.simps pos_last_def)
next
  case (snoc as' a)
  let ?c = "the (nodes s a)"
  note C = hive_chunk_ok [OF ok, of a, unfolded snoc, simplified]
  note W = chunk_okD(1) [OF C(2)]
  obtain cap where cap: "get_capacity ?c = Some cap" "unat cap = slot_cap ?c" using get_capacity_unat [OF W] by blast
  obtain r where r: "find_last_filled_slot ?c = Some r" "unat r = seek_down (slot_filled ?c) (slot_cap ?c) (slot_cap ?c)"
    using find_last_filled_ok [OF W] by blast
  obtain l k where l: "slot_list ?c = l @ [k]" using C(3) set_slot_list [of ?c] by (cases "slot_list ?c" rule: rev_cases) auto
  then have "unat r = k" "k \<in> used ?c" using r(2) set_slot_list [of ?c]
    by (auto simp: slot_list_def seek_down_last)
  then have "r < cap" "r = of_nat k" using cap(2) by (auto simp: word_less_nat_alt used_def)
  then show ?thesis using snoc C(1) cap(1) r(1) l by (simp add: back_loop.simps node_at_dom pos_last_def pos_of_def)
qed

section \<open>Next and previous\<close>

lemma next_position_ok:
  assumes ok: "hive_ok s h es fs own hs" and v: "visit (nodes s) fs = xs @ (i, k) # ys"
  shows "next_position s (Some i) (of_nat k) = Some (pos_first ys)"
proof -
  note L = links_okD [OF hive_okD(2) [OF ok]]
  obtain as bs l1 l2 where S: "fs = as @ i # bs" "slot_list (the (nodes s i)) = l1 @ k # l2"
      "ys = map (Pair i) l2 @ visit (nodes s) bs"
    using visit_split [OF v L(2)] by metis
  let ?c = "the (nodes s i)"
  note C = hive_chunk_ok [OF ok, of i, unfolded S(1), simplified]
  note W = chunk_okD(1) [OF C(2)]
  obtain cap where cap: "get_capacity ?c = Some cap" "unat cap = slot_cap ?c" "slot_cap ?c \<le> 2 ^ 31"
    using get_capacity_unat [OF W] by blast
  note K = filter_split [OF S(2) [unfolded slot_list_def]]
  have uk: "unat (of_nat k :: u32) = k" using K(3) cap(3) by (intro small_slot) simp
  obtain r where r: "find_next_filled_slot ?c (of_nat k) = Some r" "unat r = seek (slot_filled ?c) (k + 1) (slot_cap ?c)"
    using find_next_filled_ok [OF W, of "of_nat k"] K(3) uk by auto
  have r': "unat r = (case l2 of [] \<Rightarrow> slot_cap ?c | x # _ \<Rightarrow> x)" using r(2) K(2,3) seek_filter [of "k + 1" "slot_cap ?c" "slot_filled ?c"] by simp
  have n: "next_filled ?c = first bs None" using L(6) S(1) by (simp add: nf_def)
  show ?thesis
  proof (cases l2)
    case Nil
    then have "\<not> r < cap" using r' cap(2) by (simp add: word_less_nat_alt)
    moreover have "front_loop s (first bs None) = Some (pos_first (visit (nodes s) bs))"
      using front_loop_ok [of s h es "as @ [i]" bs] ok S(1) by simp
    ultimately show ?thesis using C(1) r(1) cap(1) n Nil S(3) by (simp add: next_position_def node_at_dom)
  next
    case (Cons x l)
    then have "x \<in> used ?c" "r = of_nat x" using S(2) r' set_slot_list [of ?c] by auto
    then have "r < cap" using r' cap(2) Cons by (simp add: word_less_nat_alt used_def)
    then show ?thesis using C(1) r(1) cap(1) Cons S(3) \<open>r = of_nat x\<close>
      by (simp add: next_position_def node_at_dom pos_first_def pos_of_def)
  qed
qed

lemma prev_position_ok:
  assumes ok: "hive_ok s h es fs own hs" and v: "visit (nodes s) fs = xs @ (i, k) # ys"
  shows "prev_position s (Some i) (of_nat k) = Some (pos_last xs)"
proof -
  note L = links_okD [OF hive_okD(2) [OF ok]]
  obtain as bs l1 l2 where S: "fs = as @ i # bs" "slot_list (the (nodes s i)) = l1 @ k # l2"
      "xs = visit (nodes s) as @ map (Pair i) l1"
    using visit_split [OF v L(2)] by metis
  let ?c = "the (nodes s i)"
  note C = hive_chunk_ok [OF ok, of i, unfolded S(1), simplified]
  note W = chunk_okD(1) [OF C(2)]
  obtain cap where cap: "get_capacity ?c = Some cap" "unat cap = slot_cap ?c" "slot_cap ?c \<le> 2 ^ 31"
    using get_capacity_unat [OF W] by blast
  note K = filter_split [OF S(2) [unfolded slot_list_def]]
  have uk: "unat (of_nat k :: u32) = k" using K(3) cap(3) by (intro small_slot) simp
  obtain r where r: "find_prev_filled_slot ?c (of_nat k) = Some r" "unat r = seek_down (slot_filled ?c) k (slot_cap ?c)"
    using find_prev_filled_ok [OF W, of "of_nat k"] K(3) uk by auto
  have r': "unat r = (if l1 = [] then slot_cap ?c else last l1)" using r(2) K(1) by (simp add: seek_down_last)
  have n: "prev_filled ?c = final None as" using L(6) S(1) by (simp add: pf_def)
  show ?thesis
  proof (cases l1 rule: rev_cases)
    case Nil
    then have "\<not> r < cap" using r' cap(2) by (simp add: word_less_nat_alt)
    moreover have "back_loop s (final None as) = Some (pos_last (visit (nodes s) as))"
      using back_loop_ok [of s h es as "i # bs"] ok S(1) by simp
    ultimately show ?thesis using C(1) r(1) cap(1) n Nil S(3) by (simp add: prev_position_def node_at_dom)
  next
    case (snoc l x)
    then have u: "unat r = x" using r' by simp
    have "x \<in> used ?c" using S(2) snoc set_slot_list [of ?c] by auto
    moreover have "r = of_nat x" using u by (rule of_nat_slot)
    ultimately have "r < cap" using u cap(2) by (simp add: word_less_nat_alt used_def)
    then show ?thesis using C(1) r(1) cap(1) snoc S(3) \<open>r = of_nat x\<close>
      by (simp add: prev_position_def node_at_dom pos_last_def pos_of_def)
  qed
qed

section \<open>Positions as handles\<close>

lemma position_handle_ok:
  assumes ok: "hive_ok s h es fs own hs" and len: "length hs < 2 ^ 61" and pos: "\<And>i. fst pos = Some i \<Longrightarrow> i \<in> set fs"
    and nul: "fst pos = None \<Longrightarrow> pos = null_handle"
  shows "\<exists>s'. position_handle s pos = Some (s', pos) \<and> hive_ok s' h es fs own (fst pos # hs) \<and> nodes s' = nodes s"
proof (cases "fst pos")
  case None
  have "store_ok s own (None # hs)" using hive_okD(1) [OF ok] len by (auto simp: store_ok_def counted_ok_def)
  then show ?thesis using None nul hive_ok_store [OF ok] by (auto simp: position_handle_def null_handle_def)
next
  case (Some i)
  then show ?thesis using slot_handle_ok [OF ok pos [OF Some] len, of "snd pos"] by (cases pos) (auto simp: position_handle_def)
qed

lemma pos_first_in:
  assumes "set ys \<subseteq> uses n fs"
  shows "fst (pos_first ys) = Some i \<Longrightarrow> i \<in> set fs" "fst (pos_first ys) = None \<Longrightarrow> pos_first ys = null_handle"
    "fst (pos_last ys) = Some i \<Longrightarrow> i \<in> set fs" "fst (pos_last ys) = None \<Longrightarrow> pos_last ys = null_handle"
proof -
  have "fst (hd ys) \<in> set fs \<and> fst (last ys) \<in> set fs" if "ys \<noteq> []"
    using assms hd_in_set [OF that] last_in_set [OF that] by (auto simp: uses_def)
  then show "fst (pos_first ys) = Some i \<Longrightarrow> i \<in> set fs" "fst (pos_first ys) = None \<Longrightarrow> pos_first ys = null_handle"
    "fst (pos_last ys) = Some i \<Longrightarrow> i \<in> set fs" "fst (pos_last ys) = None \<Longrightarrow> pos_last ys = null_handle"
    by (auto simp: pos_first_def pos_last_def pos_of_def null_handle_def split: if_splits prod.splits)
qed

lemma hive_front_ok:
  assumes ok: "hive_ok s h es fs own hs" and len: "length hs < 2 ^ 61"
  shows "\<exists>s'. hive_front s h = Some (s', pos_first (visit (nodes s) fs)) \<and>
    hive_ok s' h es fs own (fst (pos_first (visit (nodes s) fs)) # hs) \<and> nodes s' = nodes s"
proof -
  let ?v = "visit (nodes s) fs"
  have "front_loop s (filled_head h) = Some (pos_first ?v)"
    using front_loop_ok [of s h es "[]" fs] ok links_okD(8) [OF hive_okD(2) [OF ok]] by simp
  then show ?thesis
    using position_handle_ok [OF ok len, of "pos_first ?v"] pos_first_in(1,2) [of ?v "nodes s" fs] set_visit [of "nodes s" fs]
    by (simp add: hive_front_def)
qed

lemma hive_back_ok:
  assumes ok: "hive_ok s h es fs own hs" and len: "length hs < 2 ^ 61"
  shows "\<exists>s'. hive_back s h = Some (s', pos_last (visit (nodes s) fs)) \<and>
    hive_ok s' h es fs own (fst (pos_last (visit (nodes s) fs)) # hs) \<and> nodes s' = nodes s"
proof -
  let ?v = "visit (nodes s) fs"
  have "back_loop s (filled_tail h) = Some (pos_last ?v)"
    using back_loop_ok [of s h es fs "[]"] ok links_okD(9) [OF hive_okD(2) [OF ok]] by simp
  then show ?thesis
    using position_handle_ok [OF ok len, of "pos_last ?v"] pos_first_in(3,4) [of ?v "nodes s" fs] set_visit [of "nodes s" fs]
    by (simp add: hive_back_def)
qed

lemma hive_next_ok:
  assumes ok: "hive_ok s h es fs own hs" and len: "length hs < 2 ^ 61" and v: "visit (nodes s) fs = xs @ (i, k) # ys"
  shows "\<exists>s'. hive_next s h (Some i, of_nat k) = Some (s', pos_first ys) \<and> hive_next_unsafe s (Some i, of_nat k) = Some (s', pos_first ys) \<and>
    hive_ok s' h es fs own (fst (pos_first ys) # hs) \<and> nodes s' = nodes s"
proof -
  have sub: "set ys \<subseteq> uses (nodes s) fs" "(i, k) \<in> uses (nodes s) fs" using v set_visit [of "nodes s" fs] by auto
  then have i: "i \<in> set fs" "k \<in> used (the (nodes s i))" by (auto simp: uses_iff)
  obtain cap :: u32 where "unat cap = slot_cap (the (nodes s i))" "slot_cap (the (nodes s i)) \<le> 2 ^ 31"
    using get_capacity_unat [OF chunk_okD(1) [OF hive_chunk_ok(2) [OF ok i(1)]]] by blast
  then have "unat (of_nat k :: u32) = k" using i(2) by (intro small_slot) (simp add: used_def)
  then have c: "hive_check s h (Some i, of_nat k) = Some True" using hive_check_use [OF ok i(1), of "of_nat k"] i(2) by simp
  obtain s' where s': "position_handle s (pos_first ys) = Some (s', pos_first ys)" "hive_ok s' h es fs own (fst (pos_first ys) # hs)" "nodes s' = nodes s"
    using position_handle_ok [OF ok len, of "pos_first ys"] pos_first_in(1,2) [OF sub(1)] by blast
  then show ?thesis using c next_position_ok [OF ok v] by (intro exI [of _ s']) (simp add: hive_next_def hive_next_unsafe_def)
qed

lemma hive_prev_ok:
  assumes ok: "hive_ok s h es fs own hs" and len: "length hs < 2 ^ 61" and v: "visit (nodes s) fs = xs @ (i, k) # ys"
  shows "\<exists>s'. hive_prev s h (Some i, of_nat k) = Some (s', pos_last xs) \<and>
    hive_ok s' h es fs own (fst (pos_last xs) # hs) \<and> nodes s' = nodes s"
proof -
  have sub: "set xs \<subseteq> uses (nodes s) fs" "(i, k) \<in> uses (nodes s) fs" using v set_visit [of "nodes s" fs] by auto
  then have i: "i \<in> set fs" "k \<in> used (the (nodes s i))" by (auto simp: uses_iff)
  obtain cap :: u32 where "unat cap = slot_cap (the (nodes s i))" "slot_cap (the (nodes s i)) \<le> 2 ^ 31"
    using get_capacity_unat [OF chunk_okD(1) [OF hive_chunk_ok(2) [OF ok i(1)]]] by blast
  then have "unat (of_nat k :: u32) = k" using i(2) by (intro small_slot) (simp add: used_def)
  then have c: "hive_check s h (Some i, of_nat k) = Some True" using hive_check_use [OF ok i(1), of "of_nat k"] i(2) by simp
  obtain s' where s': "position_handle s (pos_last xs) = Some (s', pos_last xs)" "hive_ok s' h es fs own (fst (pos_last xs) # hs)" "nodes s' = nodes s"
    using position_handle_ok [OF ok len, of "pos_last xs"] pos_first_in(3,4) [OF sub(1)] by blast
  then show ?thesis using c prev_position_ok [OF ok v] by (intro exI [of _ s']) (simp add: hive_prev_def hive_prev_unsafe_def)
qed

end
