(* ===== verification/HiveClear.thy ===== *)
theory HiveClear
  imports HiveIter
begin

text \<open>\<open>pop_front\<close>, \<open>pop_back\<close>, \<open>clear\<close> and \<open>capacity\<close>, and what one hive keeps while another
  in the same store changes.\<close>

section \<open>Taking the first or the last value\<close>

lemma counted_bool_owned:
  assumes "store_ok s own hs" "own i \<noteq> None"
  shows "counted_bool (tagged s) (Some i) = Some True"
proof -
  obtain cid where "own i = Some cid" using assms(2) by auto
  then have "counted_check (tagged s) (Some i) cid = Some True" using check_in_store [OF assms(1)] by blast
  then show ?thesis by (auto simp: counted_check_def counted_bool_def elim!: bind_SomeE split: if_splits)
qed

lemma hive_pop_ok:
  assumes ok: "hive_ok s h es fs own (Some i # hs)" and v: "cont (nodes s) fs (i, unat k) \<noteq> None"
  shows "\<exists>s' h' es' fs' own'. hive_pop (s, (Some i, k)) h = Some (s', h') \<and> hive_ok s' h' es' fs' own' hs \<and>
    drops_slot s s' fs fs' own own' i k \<and> cont (nodes s') fs' = (cont (nodes s) fs)((i, unat k) := None) \<and> hive_id h' = hive_id h"
proof -
  have i: "i \<in> set fs" using v by (auto simp: cont_def split: if_splits)
  have b: "counted_bool (tagged s) (Some i) = Some True"
    using counted_bool_owned [OF hive_okD(1) [OF ok]] hive_okD(5) [OF ok i] by simp
  obtain s1 h1 es1 fs1 own1 where R: "hive_remove s h (Some i, k) = Some (s1, h1)" "hive_ok s1 h1 es1 fs1 own1 (Some i # hs)"
      "drops_slot s s1 fs fs1 own own1 i k" "cont (nodes s1) fs1 = (cont (nodes s) fs)((i, unat k) := None)" "hive_id h1 = hive_id h"
    using hive_remove_ok [OF ok v] by blast
  obtain s2 where D: "drop_handle s1 (Some i) = Some s2" "store_ok s2 own1 hs" "nodes s2 = nodes s1"
    using drop_handle_ok [of s1 own1 "[]" "Some i" hs] hive_okD(1) [OF R(2)] by auto
  have "hive_pop (s, (Some i, k)) h = Some (s2, h1)" using b R(1) D(1) by (simp add: hive_pop_def)
  moreover have "hive_ok s2 h1 es1 fs1 own1 hs" using hive_ok_store [OF R(2) D(2,3)] .
  moreover have "drops_slot s s2 fs fs1 own own1 i k" using R(3) D(3) by (simp add: drops_slot_def)
  ultimately show ?thesis using R(4,5) D(3) by metis
qed

lemma hive_pop_null: "hive_pop (s, null_handle) h = None"
  by (simp add: hive_pop_def counted_bool_def null_handle_def)

text \<open>The slot numbers of a chunk fit in 31 bits.\<close>

lemma use_small:
  assumes ok: "hive_ok s h es fs own hs" and u: "(i, k) \<in> uses (nodes s) fs"
  shows "unat (of_nat k :: u32) = k"
proof -
  have i: "i \<in> set fs" "k \<in> used (the (nodes s i))" using u by (auto simp: uses_iff)
  obtain cap :: u32 where "unat cap = slot_cap (the (nodes s i))" "slot_cap (the (nodes s i)) \<le> 2 ^ 31"
    using get_capacity_unat [OF chunk_okD(1) [OF hive_chunk_ok(2) [OF ok i(1)]]] by blast
  then show ?thesis using i(2) by (intro small_slot) (simp add: used_def)
qed

lemma hive_pop_front_ok:
  assumes ok: "hive_ok s h es fs own hs" and len: "length hs < 2 ^ 61" and v: "visit (nodes s) fs = (i, k) # ys"
    and val: "cont (nodes s) fs (i, k) \<noteq> None"
  shows "\<exists>s' h' es' fs' own'. hive_pop_front s h = Some (s', h') \<and> hive_ok s' h' es' fs' own' hs \<and>
    drops_slot s s' fs fs' own own' i (of_nat k) \<and> cont (nodes s') fs' = (cont (nodes s) fs)((i, k) := None) \<and> hive_id h' = hive_id h"
proof -
  have "(i, k) \<in> uses (nodes s) fs" using v set_visit [of "nodes s" fs] by auto
  note k = use_small [OF ok this]
  obtain s1 where F: "hive_front s h = Some (s1, (Some i, of_nat k))" "hive_ok s1 h es fs own (Some i # hs)" "nodes s1 = nodes s"
    using hive_front_ok [OF ok len] v by (auto simp: pos_first_def pos_of_def)
  have "cont (nodes s1) fs (i, unat (of_nat k :: u32)) \<noteq> None" using val F(3) k by simp
  from hive_pop_ok [OF F(2) this] show ?thesis using F(1,3) k by (simp add: hive_pop_front_def drops_slot_def)
qed

lemma hive_pop_back_ok:
  assumes ok: "hive_ok s h es fs own hs" and len: "length hs < 2 ^ 61" and v: "visit (nodes s) fs = ys @ [(i, k)]"
    and val: "cont (nodes s) fs (i, k) \<noteq> None"
  shows "\<exists>s' h' es' fs' own'. hive_pop_back s h = Some (s', h') \<and> hive_ok s' h' es' fs' own' hs \<and>
    drops_slot s s' fs fs' own own' i (of_nat k) \<and> cont (nodes s') fs' = (cont (nodes s) fs)((i, k) := None) \<and> hive_id h' = hive_id h"
proof -
  have "(i, k) \<in> uses (nodes s) fs" using v set_visit [of "nodes s" fs] by auto
  note k = use_small [OF ok this]
  obtain s1 where F: "hive_back s h = Some (s1, (Some i, of_nat k))" "hive_ok s1 h es fs own (Some i # hs)" "nodes s1 = nodes s"
    using hive_back_ok [OF ok len] v by (auto simp: pos_last_def pos_of_def)
  have "cont (nodes s1) fs (i, unat (of_nat k :: u32)) \<noteq> None" using val F(3) k by simp
  from hive_pop_ok [OF F(2) this] show ?thesis using F(1,3) k by (simp add: hive_pop_back_def drops_slot_def)
qed

section \<open>Destroying all values of a chunk\<close>

lemma lowest_bit_cleared:
  fixes val :: u64
  assumes b: "bit val m" and low: "\<And>j. j < m \<Longrightarrow> \<not> bit val j"
  shows "bit (val AND (val - 1)) k \<longleftrightarrow> bit val k \<and> k \<noteq> m"
proof -
  have m: "m < 64" using bit_imp_le_length [OF b] by simp
  let ?hi = "val AND NOT (mask (Suc m))"
  have hi: "bit ?hi j \<longleftrightarrow> bit val j \<and> m < j" for j
    using bit_imp_le_length [of val j] by (auto simp: bit_simps)
  have v: "val = ?hi + push_bit m 1"
  proof -
    have "?hi AND push_bit m 1 = 0" by (rule bit_word_eqI) (auto simp: bit_simps)
    moreover have "val = ?hi OR push_bit m 1"
    proof (rule bit_word_eqI)
      fix j assume "j < LENGTH(64)"
      show "bit val j \<longleftrightarrow> bit (?hi OR push_bit m 1) j"
        using hi [of j] b low [of j] m by (cases j m rule: linorder_cases) (auto simp: bit_or_iff bit_exp_iff)
    qed
    ultimately show ?thesis by (metis disjunctive_add_eq_or)
  qed
  have d: "?hi AND mask m = 0" by (rule bit_word_eqI) (auto simp: bit_simps)
  have "val - 1 = ?hi + mask m" using v by (metis add_diff_eq mask_eq_exp_minus_1 push_bit_of_1)
  also have "\<dots> = ?hi OR mask m" using d by (rule disjunctive_add_eq_or)
  finally have "bit (val - 1) k \<longleftrightarrow> bit ?hi k \<or> k < m \<and> k < 64" by (simp only: bit_or_iff bit_mask_iff) (use m in auto)
  then show ?thesis using hi [of k] low [of k] by (cases k m rule: linorder_cases) (auto simp: bit_and_iff)
qed

definition drop_slots :: "nat set \<Rightarrow> 'a hive_chunk \<Rightarrow> 'a hive_chunk" where
  "drop_slots S c = c\<lparr>slots := (\<lambda>k. if k \<in> S then None else slots c k)\<rparr>"

lemma drop_slots_simps [simp]:
  "drop_slots {} c = c" "drop_slots S (drop_slots T c) = drop_slots (S \<union> T) c"
  "bitmap (drop_slots S c) = bitmap c" "log2_len (drop_slots S c) = log2_len c" "filled_count (drop_slots S c) = filled_count c"
  "slots (drop_slots S c) k = (if k \<in> S then None else slots c k)"
  "prev_empty (drop_slots S c) = prev_empty c" "next_empty (drop_slots S c) = next_empty c"
  "prev_filled (drop_slots S c) = prev_filled c" "next_filled (drop_slots S c) = next_filled c"
  by (auto simp: drop_slots_def fun_eq_iff)

lemma destroy_bits_ok:
  assumes "unat (w :: u32) < 2 ^ 26" "\<And>k. bit val k \<Longrightarrow> slots c (64 * unat w + k) \<noteq> None"
  shows "destroy_bits c w val = Some (drop_slots {64 * unat w + k | k. bit val k} c)"
  using assms(2)
proof (induction "card {k. bit val k}" arbitrary: c val)
  case 0
  have "finite {k. bit val k}" using finite_bit_word [of val] by simp
  then have "{k. bit val k} = {}" using 0 by simp
  then have "val = 0" by (intro bit_word_eqI) auto
  then show ?case by (simp add: destroy_bits.simps)
next
  case (Suc d)
  have nz: "val \<noteq> 0"
  proof
    assume "val = 0"
    then have "{k. bit val k} = {}" by simp
    then show False using Suc.hyps(2) by (simp only: card.empty)
  qed
  note Z = ctz_eq [OF nz]
  let ?m = "seek (bit val) 0 64"
  obtain j where j: "j < 64" "bit val j" using nz bit_word_eqI [of val 0] by auto
  note D = seekD [of 0 j 64 "bit val", OF le0 j]
  have low: "bit (val AND (val - 1)) k \<longleftrightarrow> bit val k \<and> k \<noteq> ?m" for k
    using lowest_bit_cleared [OF D(3)] D(4) by simp
  then have S: "{k. bit (val AND (val - 1)) k} = {k. bit val k} - {?m}" by auto
  have fin: "finite {k. bit val k}" using finite_bit_word [of val] by simp
  have card: "d = card {k. bit (val AND (val - 1)) k}" unfolding S using Suc.hyps(2) D(3) fin by (simp add: card_Diff_singleton)
  have num: "unat (push_bit 6 w OR count_trailing_zeros_u64 val) = 64 * unat w + ?m"
    using slot_number [OF assms(1)] Z by simp
  let ?c = "drop_slots {64 * unat w + ?m} c"
  have c: "c\<lparr>slots := (slots c)(64 * unat w + ?m := None)\<rparr> = ?c" by (simp add: drop_slots_def fun_upd_def)
  have "destroy_bits ?c w (val AND (val - 1)) = Some (drop_slots {64 * unat w + k | k. bit (val AND (val - 1)) k} ?c)"
    by (rule Suc.hyps(1) [OF card]) (use low Suc.prems in auto)
  moreover have "{64 * unat w + k | k. bit (val AND (val - 1)) k} \<union> {64 * unat w + ?m} = {64 * unat w + k | k. bit val k}"
    using low D(3) by auto
  ultimately have "destroy_bits ?c w (val AND (val - 1)) = Some (drop_slots {64 * unat w + k | k. bit val k} c)" by simp
  moreover obtain v where "slots c (64 * unat w + ?m) = Some v" using Suc.prems [OF D(3)] by auto
  ultimately show ?case using nz num c by (simp add: destroy_bits.simps [of c w val] Let_def)
qed

lemma destroy_values_ok:
  assumes ok: "words_ok c" and full: "\<And>k. k \<in> used c \<Longrightarrow> slots c k \<noteq> None"
    and cap: "get_capacity c = Some cap" "unat cap = slot_cap c" "unat nw = (slot_cap c + 63) div 64" "(slot_cap c + 63) div 64 \<le> 2 ^ 26"
    and w: "w \<le> nw"
  shows "destroy_values (drop_slots {k \<in> used c. k < 64 * unat w} c) cap nw w = Some (drop_slots (used c) c)"
  using w
proof (induction "unat nw - unat w" arbitrary: w)
  case 0
  then have "w = nw" by (simp add: word_le_nat_alt word_unat_eq_iff)
  moreover have "{k \<in> used c. k < 64 * unat nw} = used c" using cap(3) by (auto simp: used_def)
  ultimately show ?case by (simp add: destroy_values.simps)
next
  case (Suc d)
  have lt: "w < nw" using Suc.hyps(2) by (simp add: word_less_nat_alt)
  have small: "unat w < 2 ^ 26" using lt cap(3,4) by (simp add: word_less_nat_alt)
  have w1: "unat (w + 1) = unat w + 1" using unat_inc [OF lt] .
  let ?c = "drop_slots {k \<in> used c. k < 64 * unat w} c"
  let ?val = "if w = nw - 1 \<and> cap AND 63 \<noteq> 0 then bitmap c ! unat w AND (push_bit (unat (cap AND 63)) 1 - 1) else bitmap c ! unat w"
  have bits: "bit ?val k \<longleftrightarrow> 64 * unat w + k \<in> used c" if "k < 64" for k
    using bit_last_word [of nw cap w k "bitmap c ! unat w"] cap(2,3) lt that by (auto simp: used_def slot_filled_word)
  have big: "\<not> bit ?val k" if "\<not> k < 64" for k using bit_imp_le_length [of ?val k] that by auto
  have S: "{64 * unat w + k | k. bit ?val k} = {k \<in> used c. 64 * unat w \<le> k \<and> k < 64 * unat w + 64}"
  proof (rule set_eqI)
    fix x
    show "x \<in> {64 * unat w + k | k. bit ?val k} \<longleftrightarrow> x \<in> {k \<in> used c. 64 * unat w \<le> k \<and> k < 64 * unat w + 64}"
    proof
      assume "x \<in> {64 * unat w + k | k. bit ?val k}"
      then obtain k where "x = 64 * unat w + k" "bit ?val k" by blast
      moreover from this have "k < 64" using big by blast
      ultimately show "x \<in> {k \<in> used c. 64 * unat w \<le> k \<and> k < 64 * unat w + 64}" using bits [of k] by simp
    next
      assume x: "x \<in> {k \<in> used c. 64 * unat w \<le> k \<and> k < 64 * unat w + 64}"
      then have "x = 64 * unat w + (x - 64 * unat w)" "x - 64 * unat w < 64" by auto
      then show "x \<in> {64 * unat w + k | k. bit ?val k}" using bits [of "x - 64 * unat w"] x by auto
    qed
  qed
  have "destroy_bits ?c w ?val = Some (drop_slots {64 * unat w + k | k. bit ?val k} ?c)"
  proof (rule destroy_bits_ok [OF small])
    fix k assume "bit ?val k"
    then have "64 * unat w + k \<in> used c" using bits big by blast
    then show "slots ?c (64 * unat w + k) \<noteq> None" using full by simp
  qed
  moreover have "{k \<in> used c. 64 * unat w \<le> k \<and> k < 64 * unat w + 64} \<union> {k \<in> used c. k < 64 * unat w} = {k \<in> used c. k < 64 * unat (w + 1)}"
    using w1 by auto
  ultimately have step: "destroy_bits ?c w ?val = Some (drop_slots {k \<in> used c. k < 64 * unat (w + 1)} c)"
    unfolding S by simp
  have g: "get_bitmap_word ?c w = Some (bitmap c ! unat w)"
    using get_bitmap_word_ok [OF ok cap(3) lt] by (simp add: get_bitmap_word_def split: if_splits)
  have "w + 1 \<le> nw" using w1 lt by (simp add: word_le_nat_alt word_less_nat_alt)
  then have "destroy_values (drop_slots {k \<in> used c. k < 64 * unat (w + 1)} c) cap nw (w + 1) = Some (drop_slots (used c) c)"
    using Suc.hyps(1) [of "w + 1"] Suc.hyps(2) w1 by simp
  then show ?case using lt g step by (subst destroy_values.simps) (simp add: Let_def)
qed

section \<open>clear\<close>

text \<open>The invariant between two rounds of the loop of \<open>clear\<close>: the count of values is not
  kept up to date.\<close>

definition shape_ok :: "'a hive_store \<Rightarrow> hive \<Rightarrow> nat list \<Rightarrow> nat list \<Rightarrow> (nat \<Rightarrow> u64 option) \<Rightarrow> ptr list \<Rightarrow> bool" where
  "shape_ok s h es fs own hs \<longleftrightarrow> store_ok s own hs \<and> links_ok (nodes s) h es fs \<and> sorted_in (nodes s) es fs \<and>
     set es \<subseteq> set fs \<and> (\<forall>i \<in> set fs. own i = Some (hive_id h))"

definition chunk_full :: "'a hive_chunk \<Rightarrow> bool" where
  "chunk_full c \<longleftrightarrow> dom (slots c) = used c"

lemma remove1_split:
  assumes "distinct xs" "xs = as @ p # bs"
  shows "remove1 p xs = as @ bs"
  using assms by (simp add: remove1_append)

lemma clear_filled_step:
  assumes ok: "shape_ok s h es (p # fs) own hs" and full: "chunk_full (the (nodes s p))"
  shows "\<exists>s' h'. clear_filled s h = clear_filled s' h' \<and> shape_ok s' h' (remove1 p es) fs (own(p := None)) hs \<and>
    hive_id h' = hive_id h \<and> (\<forall>j. j \<notin> set (p # fs) \<longrightarrow> nodes s' j = nodes s j) \<and>
    (\<forall>j \<in> set fs. core (the (nodes s' j)) = core (the (nodes s j)))"
proof -
  have H: "store_ok s own hs" "links_ok (nodes s) h es (p # fs)" "sorted_in (nodes s) es (p # fs)" "set es \<subseteq> set (p # fs)"
    "\<forall>i \<in> set (p # fs). own i = Some (hive_id h)" using ok by (simp_all add: shape_ok_def)
  note L = links_okD [OF H(2)]
  define c where "c = the (nodes s p)"
  have C: "chunk_ok c" "p \<in> set es \<longleftrightarrow> card (used c) < slot_cap c" using H(3) unfolding sorted_in_def c_def by auto
  have lv: "live (nodes s) p" using L(4) by simp
  obtain cap where cap: "get_capacity c = Some cap" "unat cap = slot_cap c" "unat (drop_bit 6 (cap + 63)) = (slot_cap c + 63) div 64"
      "(slot_cap c + 63) div 64 \<le> 2 ^ 26"
    using get_capacity_ok [OF chunk_okD(1) [OF C(1)]] by metis
  let ?nw = "drop_bit 6 (cap + 63)" and ?c1 = "drop_slots (used c) c"
  have "slots c k \<noteq> None" if "k \<in> used c" for k using full that by (auto simp: chunk_full_def c_def [symmetric])
  from destroy_values_ok [OF chunk_okD(1) [OF C(1)] this cap(1-4), of 0]
  have dv: "destroy_values c cap ?nw 0 = Some ?c1" by simp
  let ?n1 = "(nodes s)(p \<mapsto> ?c1)"
  have lk1: "links_ok (nodes (s\<lparr>nodes := ?n1\<rparr>)) h es ([] @ p # fs)"
  proof -
    have "links_ok ?n1 h es (p # fs)" by (rule links_ok_upd [OF H(2)]) (simp_all add: c_def link_funs)
    then show ?thesis by simp
  qed
  obtain n2 h2 where A: "remove_from_filled_list (s\<lparr>nodes := ?n1\<rparr>) h (Some p) = Some (s\<lparr>nodes := n2\<rparr>, h2)" "hive_id h2 = hive_id h"
      "links_ok n2 h2 es fs" "same_cores (set (p # fs)) ?n1 n2"
    using remove_from_filled_list_ok [OF lk1] by auto
  have cond: "filled_count ?c1 < cap \<longleftrightarrow> p \<in> set es"
    using C chunk_okD(2) [OF C(1)] cap(2) by (simp add: word_less_nat_alt)
  obtain n3 h3 where B: "(if filled_count ?c1 < cap then remove_from_empty_list (s\<lparr>nodes := n2\<rparr>) h2 (Some p) else Some (s\<lparr>nodes := n2\<rparr>, h2))
        = Some (s\<lparr>nodes := n3\<rparr>, h3)" "hive_id h3 = hive_id h" "links_ok n3 h3 (remove1 p es) fs" "same_cores (set (p # fs)) n2 n3"
  proof (cases "p \<in> set es")
    case True
    then obtain as bs where es: "es = as @ p # bs" by (meson split_list)
    have r: "remove1 p es = as @ bs" by (rule remove1_split [OF L(1) es])
    have "links_ok (nodes (s\<lparr>nodes := n2\<rparr>)) h2 (as @ p # bs) fs" using A(3) es by simp
    from remove_from_empty_list_ok [OF this] obtain n' h' where R:
      "remove_from_empty_list (s\<lparr>nodes := n2\<rparr>) h2 (Some p) = Some (s\<lparr>nodes := n'\<rparr>, h')" "hive_id h' = hive_id h"
      "links_ok n' h' (as @ bs) fs" "same_cores (set es) n2 n'" using A(2) unfolding es [symmetric] by auto
    then show thesis using that [of n' h'] True cond r R same_cores_trans [OF same_cores_refl R(4) empty_subsetI H(4)] by simp
  next
    case False
    then show thesis using that [of n2 h2] A cond by (simp add: remove1_idem)
  qed
  have sc: "same_cores (set (p # fs)) ?n1 n3" using same_cores_trans [OF A(4) B(4) order_refl order_refl] .
  have "live n3 j = live (nodes s) j" for j using same_coresD(1) [OF sc, of j] lv by (cases "j = p") auto
  then have "store_ok (s\<lparr>nodes := n3\<rparr>) own hs" using store_ok_nodes [OF H(1), of n3] by blast
  moreover have "own p \<noteq> None" using H(5) by simp
  ultimately obtain s4 where s4: "drop_node (s\<lparr>nodes := n3\<rparr>) (Some p) = Some s4" "store_ok s4 (own(p := None)) hs" "nodes s4 = n3(p := None)"
    using drop_node_ok by force
  have d: "p \<notin> set fs" "distinct es" using L(1,2) by simp_all
  have "sorted_in ?n1 (remove1 p es) fs" by (rule sorted_in_drop [OF H(3)]) (use d in auto)
  then have "sorted_in n3 (remove1 p es) fs" using same_cores_uses(3) [OF sc] by blast
  then have so: "sorted_in (nodes s4) (remove1 p es) fs" unfolding s4(3) by (rule sorted_in_drop) (use d in auto)
  have lk: "links_ok (nodes s4) h3 (remove1 p es) fs" unfolding s4(3) by (rule links_ok_other [OF B(3)]) (use d in auto)
  have ok': "shape_ok s4 h3 (remove1 p es) fs (own(p := None)) hs"
    using s4(2) lk so H(4,5) d B(2) unfolding shape_ok_def by auto
  have fh: "filled_head h = Some p" using L(8) by simp
  have step: "clear_filled s h = clear_filled s4 h3"
    using fh lv cap(1) dv A(1) B(1) s4(1) clear_filled.simps [of s h]
    by (simp add: node_at_dom c_def [symmetric] update_chunk_live destroy_chunk_def Let_def)
  have "nodes s4 j = nodes s j" if "j \<notin> set (p # fs)" for j using same_coresD(3) [OF sc that] that s4(3) by simp
  moreover have "core (the (nodes s4 j)) = core (the (nodes s j))" if "j \<in> set fs" for j
    using same_coresD(2) [OF sc, of j] that d s4(3) by (metis fun_upd_other)
  ultimately show ?thesis using step ok' B(2) by blast
qed

lemma clear_filled_ok:
  assumes "shape_ok s h es fs own hs" "\<forall>i \<in> set fs. chunk_full (the (nodes s i))"
  shows "\<exists>s' h'. clear_filled s h = Some (s', h') \<and> shape_ok s' h' [] [] (\<lambda>i. if i \<in> set fs then None else own i) hs \<and>
    hive_id h' = hive_id h \<and> (\<forall>j. j \<notin> set fs \<longrightarrow> nodes s' j = nodes s j)"
  using assms
proof (induction fs arbitrary: s h es own)
  case Nil
  then have "es = []" "filled_head h = None" by (simp_all add: shape_ok_def links_ok_def)
  then show ?case using Nil by (simp add: clear_filled.simps)
next
  case (Cons p fs)
  obtain s1 h1 where S: "clear_filled s h = clear_filled s1 h1" "shape_ok s1 h1 (remove1 p es) fs (own(p := None)) hs"
      "hive_id h1 = hive_id h" "\<forall>j. j \<notin> set (p # fs) \<longrightarrow> nodes s1 j = nodes s j" "\<forall>j \<in> set fs. core (the (nodes s1 j)) = core (the (nodes s j))"
    using clear_filled_step [OF Cons.prems(1)] Cons.prems(2) by auto
  have "\<forall>i \<in> set fs. chunk_full (the (nodes s1 i))"
    using Cons.prems(2) core_eq(1,3) [OF bspec [OF S(5)]] by (simp add: chunk_full_def)
  from Cons.IH [OF S(2) this] obtain s2 h2 where R: "clear_filled s1 h1 = Some (s2, h2)"
      "shape_ok s2 h2 [] [] (\<lambda>i. if i \<in> set fs then None else (own(p := None)) i) hs" "hive_id h2 = hive_id h1"
      "\<forall>j. j \<notin> set fs \<longrightarrow> nodes s2 j = nodes s1 j" by blast
  have e: "(\<lambda>i. if i \<in> set fs then None else (own(p := None)) i) = (\<lambda>i. if i \<in> set (p # fs) then None else own i)"
    by (auto simp: fun_eq_iff)
  then show ?case using S R(1) R(2) [unfolded e] R(3,4) by (intro exI [of _ s2] exI [of _ h2]) simp
qed

lemma hive_clear_ok:
  assumes ok: "hive_ok s h es fs own hs" and full: "\<forall>u \<in> uses (nodes s) fs. cont (nodes s) fs u \<noteq> None"
  shows "\<exists>s' h'. hive_clear s h = Some (s', h') \<and> hive_ok s' h' [] [] (\<lambda>i. if i \<in> set fs then None else own i) hs \<and>
    hive_id h' = hive_id h \<and> (\<forall>j. j \<notin> set fs \<longrightarrow> nodes s' j = nodes s j)"
proof -
  have "chunk_full (the (nodes s i))" if "i \<in> set fs" for i
  proof -
    have "used (the (nodes s i)) \<subseteq> dom (slots (the (nodes s i)))" using full that by (auto simp: uses_def cont_def)
    then show ?thesis using chunk_okD(3) [OF hive_chunk_ok(2) [OF ok that]] by (auto simp: chunk_full_def)
  qed
  moreover have "shape_ok s h es fs own hs" using ok by (simp add: hive_ok_def shape_ok_def)
  ultimately obtain s1 h1 where C: "clear_filled s h = Some (s1, h1)" "shape_ok s1 h1 [] [] (\<lambda>i. if i \<in> set fs then None else own i) hs"
      "hive_id h1 = hive_id h" "\<forall>j. j \<notin> set fs \<longrightarrow> nodes s1 j = nodes s j" using clear_filled_ok by blast
  have "empty_head h1 = None" using C(2) by (simp add: shape_ok_def links_ok_def)
  then have "hive_clear s h = Some (s1, h1\<lparr>hlen := 0, next_log2_len := 3\<rparr>)" using C(1) by (simp add: hive_clear_def clear_empty.simps)
  moreover have "hive_ok s1 (h1\<lparr>hlen := 0, next_log2_len := 3\<rparr>) [] [] (\<lambda>i. if i \<in> set fs then None else own i) hs"
    using C(2) by (simp add: hive_ok_def shape_ok_def links_ok_def uses_def)
  ultimately show ?thesis using C(3,4) by auto
qed

section \<open>capacity\<close>

lemma filled_capacity_ok:
  assumes ok: "hive_ok s h es (as @ bs) own hs"
  shows "filled_capacity s (first bs None) acc = Some (acc + of_nat (\<Sum>i\<leftarrow>bs. slot_cap (the (nodes s i))))"
  using ok
proof (induction bs arbitrary: as acc)
  case Nil
  then show ?case by (simp add: filled_capacity.simps)
next
  case (Cons b bs)
  let ?c = "the (nodes s b)"
  have C: "live (nodes s) b" "chunk_ok ?c" using hive_chunk_ok [OF Cons.prems, of b] by simp_all
  obtain cap where cap: "get_capacity ?c = Some cap" "unat cap = slot_cap ?c" using get_capacity_unat [OF chunk_okD(1) [OF C(2)]] by blast
  have n: "next_filled ?c = first bs None" using links_okD(6) [OF hive_okD(2) [OF Cons.prems]] by (simp add: nf_def)
  have "(ucast cap :: u64) = of_nat (slot_cap ?c)" using cap(2) by (metis of_nat_unat ucast_id unsigned_of_nat)
  then show ?case using Cons.IH [of "as @ [b]"] Cons.prems C(1) cap(1) n
    by (subst filled_capacity.simps) (simp add: node_at_dom)
qed

lemma unused_capacity_ok:
  assumes ok: "hive_ok s h (as @ bs) fs own hs"
  shows "unused_capacity s (first bs None) acc = Some acc"
  using ok
proof (induction bs arbitrary: as acc)
  case Nil
  then show ?case by (simp add: unused_capacity.simps)
next
  case (Cons b bs)
  let ?c = "the (nodes s b)"
  have "b \<in> set fs" using hive_okD(4) [OF Cons.prems] by auto
  note C = hive_chunk_ok [OF Cons.prems this]
  obtain cap where cap: "get_capacity ?c = Some cap" using get_capacity_unat [OF chunk_okD(1) [OF C(2)]] by blast
  have n: "next_empty ?c = first bs None" using links_okD(5) [OF hive_okD(2) [OF Cons.prems]] by (simp add: ne_def)
  have "filled_count ?c \<noteq> 0" using chunk_okD(2) [OF C(2)] C(3) by auto
  then show ?case using Cons.IH [of "as @ [b]"] Cons.prems C(1) cap n
    by (subst unused_capacity.simps) (simp add: node_at_dom)
qed

lemma hive_capacity_ok:
  assumes ok: "hive_ok s h es fs own hs"
  shows "hive_capacity s h = Some (of_nat (\<Sum>i\<leftarrow>fs. slot_cap (the (nodes s i))))"
  using filled_capacity_ok [of s h es "[]" fs own hs 0] unused_capacity_ok [of s h "[]" es fs own hs] ok
    links_okD(7,8) [OF hive_okD(2) [OF ok]]
  by (simp add: hive_capacity_def)

end
