(* ===== verification/HiveCopy.thy ===== *)
theory HiveCopy
  imports HiveClear "HOL-Library.Multiset"
begin

text \<open>Copying one hive into another in the same store.\<close>

section \<open>A hive beside another\<close>

lemma hive_frame:
  assumes ok: "hive_ok s h es fs own hs" and st: "store_ok s' own' hs'"
    and same: "\<And>j. j \<in> set fs \<Longrightarrow> nodes s' j = nodes s j" "\<And>j. j \<in> set fs \<Longrightarrow> own' j = own j"
  shows "hive_ok s' h es fs own' hs'" "visit (nodes s') fs = visit (nodes s) fs" "cont (nodes s') fs = cont (nodes s) fs"
proof -
  note H = hive_okD [OF ok] and L = links_okD [OF hive_okD(2) [OF ok]]
  have es: "nodes s' j = nodes s j" if "j \<in> set es" for j using that H(4) same(1) by auto
  have "chain (pe (nodes s')) (ne (nodes s')) es = chain (pe (nodes s)) (ne (nodes s)) es"
    "chain (pf (nodes s')) (nf (nodes s')) fs = chain (pf (nodes s)) (nf (nodes s)) fs"
    using es same(1) by (intro seg_cong; simp add: link_funs)+
  then have "links_ok (nodes s') h es fs"
    using L es same(1) unfolding links_ok_def by (auto simp: live_def)
  moreover have "sorted_in (nodes s') es fs"
    unfolding sorted_in_def
  proof
    fix i assume i: "i \<in> set es \<union> set fs"
    then have e: "nodes s' i = nodes s i" using es same(1) by auto
    show "chunk_ok (the (nodes s' i)) \<and> (i \<in> set es \<longleftrightarrow> card (used (the (nodes s' i))) < slot_cap (the (nodes s' i))) \<and>
      (i \<in> set fs \<longleftrightarrow> used (the (nodes s' i)) \<noteq> {})" unfolding e using H(3) i unfolding sorted_in_def by blast
  qed
  moreover have "uses (nodes s') fs = uses (nodes s) fs" unfolding uses_def by (rule Sigma_cong) (simp_all add: same(1))
  ultimately show "hive_ok s' h es fs own' hs'" unfolding hive_ok_def using st H(4-7) same(2) by simp
  show "visit (nodes s') fs = visit (nodes s) fs" unfolding visit_def using same(1) by (auto intro!: arg_cong [where f = concat])
  show "cont (nodes s') fs = cont (nodes s) fs" unfolding cont_def using same(1) by (auto simp: fun_eq_iff)
qed

section \<open>The values of a hive\<close>

text \<open>All values, as many times as they are there, whatever their places.\<close>

definition hive_bag :: "'a hive_chunk heap \<Rightarrow> nat list \<Rightarrow> 'a option multiset" where
  "hive_bag n fs = image_mset (cont n fs) (mset_set (uses n fs))"

lemma hive_bag_Nil [simp]: "hive_bag n [] = {#}"
  by (simp add: hive_bag_def uses_def)

lemma hive_bag_visit: "distinct fs \<Longrightarrow> hive_bag n fs = mset (map (cont n fs) (visit n fs))"
  by (metis hive_bag_def distinct_visit mset_map mset_set_set set_visit)

lemma hive_bag_add:
  assumes "adds_slot s s' fs fs' i k" "cont (nodes s') fs' = (cont (nodes s) fs)((i, unat k) \<mapsto> v)"
  shows "hive_bag (nodes s') fs' = add_mset (Some v) (hive_bag (nodes s) fs)"
proof -
  have u: "uses (nodes s') fs' = insert (i, unat k) (uses (nodes s) fs)" "(i, unat k) \<notin> uses (nodes s) fs"
    using assms(1) by (auto simp: adds_slot_def)
  have "image_mset (cont (nodes s') fs') (mset_set (uses (nodes s) fs)) = image_mset (cont (nodes s) fs) (mset_set (uses (nodes s) fs))"
    using u(2) by (intro image_mset_cong) (auto simp: assms(2))
  then show ?thesis using u(2) by (simp add: hive_bag_def u(1)) (simp add: assms(2))
qed

section \<open>The copying loop\<close>

lemma hive_push_ok:
  assumes ok: "hive_ok s h es fs own hs" and len: "length hs < 2 ^ 61"
  shows "\<exists>s' h' i k es' fs'. hive_push s h v = Some (s', h') \<and> hive_ok s' h' es' fs' (own(i \<mapsto> hive_id h)) hs \<and>
    adds_slot s s' fs fs' i k \<and> (i \<notin> set fs \<longrightarrow> own i = None) \<and>
    cont (nodes s') fs' = (cont (nodes s) fs)((i, unat k) \<mapsto> v) \<and> hive_id h' = hive_id h"
proof -
  obtain s1 h1 i k es1 fs1 where E: "hive_emplace s h v = Some (s1, h1, (Some i, k))"
      "hive_ok s1 h1 es1 fs1 (own(i \<mapsto> hive_id h)) (Some i # hs)" "adds_slot s s1 fs fs1 i k" "i \<notin> set fs \<longrightarrow> own i = None"
      "cont (nodes s1) fs1 = (cont (nodes s) fs)((i, unat k) \<mapsto> v)" "hive_id h1 = hive_id h"
    using hive_emplace_ok [OF assms] by blast
  obtain s2 where D: "drop_handle s1 (Some i) = Some s2" "store_ok s2 (own(i \<mapsto> hive_id h)) hs" "nodes s2 = nodes s1"
    using drop_handle_ok [of s1 "own(i \<mapsto> hive_id h)" "[]" "Some i" hs] hive_okD(1) [OF E(2)] by auto
  have "adds_slot s s2 fs fs1 i k" using E(3) D(3) by (simp add: adds_slot_def)
  then show ?thesis using E D(1,3) hive_ok_store [OF E(2) D(2,3)]
    by (intro exI [of _ s2] exI [of _ h1] exI [of _ i] exI [of _ k] exI [of _ es1] exI [of _ fs1]) (simp add: hive_push_def)
qed

lemma copy_values_ok:
  assumes "hive_ok s h es fs own (fst (pos_first ys) # hs)" "hive_ok s oh oes ofs own (fst (pos_first ys) # hs)"
    and "set fs \<inter> set ofs = {}" "visit (nodes s) ofs = xs @ ys" "map (cont (nodes s) ofs) ys = map Some vs" "length hs + 2 < 2 ^ 61"
  shows "\<exists>s' h' es' fs' own'. copy_values s h (pos_first ys) = Some (s', h') \<and> hive_ok s' h' es' fs' own' hs \<and>
    hive_ok s' oh oes ofs own' hs \<and> set fs' \<inter> set ofs = {} \<and> (\<forall>j \<in> set ofs. nodes s' j = nodes s j) \<and>
    hive_bag (nodes s') fs' = hive_bag (nodes s) fs + mset (map Some vs) \<and> hive_id h' = hive_id h"
  using assms
proof (induction ys arbitrary: s h es fs own xs vs)
  case Nil
  note st = hive_okD(1) [OF Nil.prems(1)]
  obtain s1 where D: "drop_handle s None = Some s1" "store_ok s1 own hs" "nodes s1 = nodes s"
    using drop_handle_ok [of s own "[]" None hs] st by (auto simp: pos_first_def)
  have "copy_values s h (pos_first []) = Some (s1, h)"
    using D(1) by (simp add: copy_values.simps [of s h] pos_first_def counted_bool_def)
  then show ?case using hive_ok_store [OF Nil.prems(1) D(2,3)] hive_ok_store [OF Nil.prems(2) D(2,3)] D(3) Nil.prems(3,5)
    by (intro exI [of _ s1] exI [of _ h] exI [of _ es] exI [of _ fs] exI [of _ own]) simp
next
  case (Cons y ys)
  obtain i k where y: "y = (i, k)" by force
  let ?ha = "(Some i, of_nat k :: u32)"
  have pf: "pos_first (y # ys) = ?ha" by (simp add: pos_first_def pos_of_def y)
  note ok = Cons.prems(1) [unfolded pf fst_conv] and oo = Cons.prems(2) [unfolded pf fst_conv]
  have u: "(i, k) \<in> uses (nodes s) ofs" using Cons.prems(4) set_visit [of "nodes s" ofs] y by (metis in_set_conv_decomp)
  then have i: "i \<in> set ofs" by (simp add: uses_iff)
  note uk = use_small [OF oo u]
  have b: "counted_bool (tagged s) (Some i) = Some True"
    using counted_bool_owned [OF hive_okD(1) [OF oo]] hive_okD(5) [OF oo i] by simp
  obtain v ws where vs: "vs = v # ws" "slots (the (nodes s i)) k = Some v" "map (cont (nodes s) ofs) ys = map Some ws"
    using Cons.prems(5) i y by (cases vs) (auto simp: cont_def)
  have len: "length (Some i # hs) < 2 ^ 61" using Cons.prems(6) by simp
  obtain s1 h1 j m es1 fs1 where P: "hive_push s h v = Some (s1, h1)" "hive_ok s1 h1 es1 fs1 (own(j \<mapsto> hive_id h)) (Some i # hs)"
      "adds_slot s s1 fs fs1 j m" "j \<notin> set fs \<longrightarrow> own j = None" "cont (nodes s1) fs1 = (cont (nodes s) fs)((j, unat m) \<mapsto> v)" "hive_id h1 = hive_id h"
    using hive_push_ok [OF ok len] by blast
  have "own j = None \<or> j \<in> set fs" using P(4) by blast
  then have j: "j \<notin> set ofs" using hive_okD(5) [OF oo, of j] Cons.prems(3) by auto
  have fs1: "set fs1 \<subseteq> insert j (set fs)" using P(3) by (auto simp: adds_slot_def)
  have same: "nodes s1 x = nodes s x" "(own(j \<mapsto> hive_id h)) x = own x" if "x \<in> set ofs" for x
    using P(3) that j fs1 Cons.prems(3) by (auto simp: adds_slot_def)
  note F = hive_frame [OF oo hive_okD(1) [OF P(2)] same]
  have v1: "visit (nodes s1) ofs = xs @ (i, k) # ys" using F(2) Cons.prems(4) y by simp
  have "length (Some i # hs) < 2 ^ 61" using Cons.prems(6) by simp
  from hive_next_ok [OF F(1) this v1] obtain s2 where N: "hive_next_unsafe s1 ?ha = Some (s2, pos_first ys)"
      "hive_ok s2 oh oes ofs (own(j \<mapsto> hive_id h)) (fst (pos_first ys) # Some i # hs)" "nodes s2 = nodes s1" by blast
  obtain s3 where D: "drop_handle s2 (Some i) = Some s3" "store_ok s3 (own(j \<mapsto> hive_id h)) (fst (pos_first ys) # hs)" "nodes s3 = nodes s2"
    using drop_handle_ok [of s2 "own(j \<mapsto> hive_id h)" "[fst (pos_first ys)]" "Some i" hs] hive_okD(1) [OF N(2)] by auto
  have ok3: "hive_ok s3 h1 es1 fs1 (own(j \<mapsto> hive_id h)) (fst (pos_first ys) # hs)"
    using hive_ok_store [OF P(2) D(2)] D(3) N(3) by simp
  have oo3: "hive_ok s3 oh oes ofs (own(j \<mapsto> hive_id h)) (fst (pos_first ys) # hs)"
    using hive_ok_store [OF N(2) D(2,3)] .
  have n3: "nodes s3 = nodes s1" using D(3) N(3) by simp
  have step: "copy_values s h (pos_first (y # ys)) = copy_values s3 h1 (pos_first ys)"
    using b hive_chunk_ok(1) [OF oo i] vs(2) uk P(1) N(1) D(1)
    unfolding pf by (subst copy_values.simps) (simp add: node_at_dom)
  have dj: "set fs1 \<inter> set ofs = {}" using fs1 j Cons.prems(3) by auto
  have v3: "visit (nodes s3) ofs = (xs @ [(i, k)]) @ ys" "map (cont (nodes s3) ofs) ys = map Some ws"
    using v1 F(3) vs(3) n3 by simp_all
  from Cons.IH [OF ok3 oo3 dj v3 Cons.prems(6)] obtain s' h' es' fs' own' where R:
    "copy_values s3 h1 (pos_first ys) = Some (s', h')" "hive_ok s' h' es' fs' own' hs" "hive_ok s' oh oes ofs own' hs"
    "set fs' \<inter> set ofs = {}" "\<forall>j \<in> set ofs. nodes s' j = nodes s3 j"
    "hive_bag (nodes s') fs' = hive_bag (nodes s3) fs1 + mset (map Some ws)" "hive_id h' = hive_id h1" by blast
  have "hive_bag (nodes s') fs' = hive_bag (nodes s) fs + mset (map Some vs)"
    using R(6) hive_bag_add [OF P(3,5)] n3 vs(1) by simp
  then show ?case using step R(1-5,7) same(1) n3 P(6) by metis
qed

lemma hive_copy_ok:
  assumes oo: "hive_ok s oh oes ofs own hs" and vs: "map (cont (nodes s) ofs) (visit (nodes s) ofs) = map Some vs" and len: "length hs + 2 < 2 ^ 61"
  shows "\<exists>s' h' es' fs' own'. hive_copy s i oh = Some (s', h') \<and> hive_ok s' h' es' fs' own' hs \<and>
    hive_ok s' oh oes ofs own' hs \<and> set fs' \<inter> set ofs = {} \<and> (\<forall>j \<in> set ofs. nodes s' j = nodes s j) \<and>
    hive_bag (nodes s') fs' = mset (map Some vs) \<and> hive_id h' = i"
proof -
  let ?v = "visit (nodes s) ofs"
  have "length hs < 2 ^ 61" using len by simp
  from hive_front_ok [OF oo this] obtain s1 where F: "hive_front s oh = Some (s1, pos_first ?v)"
      "hive_ok s1 oh oes ofs own (fst (pos_first ?v) # hs)" "nodes s1 = nodes s" by blast
  have new: "hive_ok s1 (hive_new i) [] [] own (fst (pos_first ?v) # hs)" using hive_new_ok [OF hive_okD(1) [OF F(2)]] .
  have v: "visit (nodes s1) ofs = [] @ ?v" "map (cont (nodes s1) ofs) ?v = map Some vs" using F(3) vs by simp_all
  have e: "hive_id (hive_new i) = i" by (simp add: hive_new_def)
  from copy_values_ok [OF new F(2) _ v len] F(1,3) show ?thesis by (simp add: hive_copy_def e)
qed

lemma hive_assign_ok:
  assumes ok: "hive_ok s h es fs own hs" and oo: "hive_ok s oh oes ofs own hs" and dj: "set fs \<inter> set ofs = {}"
    and full: "\<forall>u \<in> uses (nodes s) fs. cont (nodes s) fs u \<noteq> None"
    and vs: "map (cont (nodes s) ofs) (visit (nodes s) ofs) = map Some vs" and len: "length hs + 2 < 2 ^ 61"
  shows "\<exists>s' h' es' fs' own'. hive_assign s h oh = Some (s', h') \<and> hive_ok s' h' es' fs' own' hs \<and>
    hive_ok s' oh oes ofs own' hs \<and> set fs' \<inter> set ofs = {} \<and> (\<forall>j \<in> set ofs. nodes s' j = nodes s j) \<and>
    hive_bag (nodes s') fs' = mset (map Some vs) \<and> hive_id h' = hive_id h"
proof -
  let ?own = "\<lambda>i. if i \<in> set fs then None else own i"
  obtain s1 h1 where C: "hive_clear s h = Some (s1, h1)" "hive_ok s1 h1 [] [] ?own hs" "hive_id h1 = hive_id h"
      "\<forall>j. j \<notin> set fs \<longrightarrow> nodes s1 j = nodes s j" using hive_clear_ok [OF ok full] by blast
  have same: "nodes s1 j = nodes s j" "?own j = own j" if "j \<in> set ofs" for j using that dj C(4) by auto
  note W = hive_frame [OF oo hive_okD(1) [OF C(2)] same]
  let ?v = "visit (nodes s1) ofs"
  have "length hs < 2 ^ 61" using len by simp
  from hive_front_ok [OF W(1) this] obtain s2 where F: "hive_front s1 oh = Some (s2, pos_first ?v)"
      "hive_ok s2 oh oes ofs ?own (fst (pos_first ?v) # hs)" "nodes s2 = nodes s1" by blast
  have h1: "hive_ok s2 h1 [] [] ?own (fst (pos_first ?v) # hs)" using hive_ok_store [OF C(2) hive_okD(1) [OF F(2)] F(3)] .
  have v: "visit (nodes s2) ofs = [] @ ?v" "map (cont (nodes s2) ofs) ?v = map Some vs" using F(3) vs W(2,3) by simp_all
  from copy_values_ok [OF h1 F(2) _ v len] obtain s' h' es' fs' own' where
    "copy_values s2 h1 (pos_first ?v) = Some (s', h')" "hive_ok s' h' es' fs' own' hs"
    "hive_ok s' oh oes ofs own' hs" "set fs' \<inter> set ofs = {}" "\<forall>j \<in> set ofs. nodes s' j = nodes s2 j"
    "hive_bag (nodes s') fs' = mset (map Some vs)" "hive_id h' = hive_id h1" by auto
  then show ?thesis using C(1,3) F(1,3) same(1)
    by (intro exI [of _ s'] exI [of _ h'] exI [of _ es'] exI [of _ fs'] exI [of _ own']) (simp add: hive_assign_def)
qed

end
