(* ===== verification/HiveProps.thy ===== *)
theory HiveProps
  imports HiveCopy Contracts
begin

text \<open>The hive as a provider of handles, and its properties.\<close>

section \<open>The hive keeps values by handle\<close>

type_synonym 'a hive_view = "'a hive_store \<times> hive \<times> ptr list"

definition hview_ok :: "'a hive_view \<Rightarrow> bool" where
  "hview_ok = (\<lambda>(s, h, hs). \<exists>es fs own. hive_ok s h es fs own hs \<and> hive_alone own h fs)"

definition hview_room :: "'a hive_view \<Rightarrow> bool" where
  "hview_room = (\<lambda>(s, h, hs). length hs < 2 ^ 61)"

definition hview_look :: "'a hive_view \<Rightarrow> hive_handle \<Rightarrow> 'a option" where
  "hview_look = (\<lambda>(s, h, hs). hive_data s h)"

definition hview_add :: "'a hive_view \<Rightarrow> 'a \<Rightarrow> ('a hive_view \<times> hive_handle) option" where
  "hview_add = (\<lambda>(s, h, hs) v. do { (s, h, ha) \<leftarrow> hive_emplace s h v; Some ((s, h, fst ha # hs), ha) })"

definition hview_del :: "'a hive_view \<Rightarrow> hive_handle \<Rightarrow> 'a hive_view option" where
  "hview_del = (\<lambda>(s, h, hs) ha. do { (s, h) \<leftarrow> hive_remove s h ha; Some (s, h, hs) })"

lemma hive_data_null: "hive_data s h (None, k) = None"
  by (simp add: hive_data_def hive_check_def counted_check_def)

lemma hview_look_eq:
  assumes "hive_ok s h es fs own hs" "hive_alone own h fs"
  shows "hview_look (s, h, hs) = (\<lambda>(p, k). case p of None \<Rightarrow> None | Some i \<Rightarrow> cont (nodes s) fs (i, unat k))"
  using hive_data_eq [OF assms] by (auto simp: hview_look_def hive_data_null fun_eq_iff split: option.splits)

lemma handle_upd:
  "(\<lambda>(p, k). case p of None \<Rightarrow> None | Some j \<Rightarrow> (f((i, unat m) := x)) (j, unat (k :: u32))) =
   (\<lambda>(p, k). case p of None \<Rightarrow> None | Some j \<Rightarrow> f (j, unat k))((Some i, m) := x)"
  by (auto simp: fun_eq_iff word_unat_eq_iff split: option.splits)

lemma alone_adds:
  assumes "hive_alone own h fs" "adds_slot s s' fs fs' i k" "hive_id h' = hive_id h"
  shows "hive_alone (own(i \<mapsto> hive_id h)) h' fs'"
  using assms by (auto simp: hive_alone_def adds_slot_def)

lemma alone_drops:
  assumes "hive_alone own h fs" "drops_slot s s' fs fs' own own' i k" "hive_id h' = hive_id h"
  shows "hive_alone own' h' fs'"
proof -
  have "j \<in> set (remove1 i fs)" if "j \<in> set fs" "j \<noteq> i" for j using that by simp
  then show ?thesis using assms unfolding hive_alone_def drops_slot_def by (auto split: if_splits)
qed

lemma cont_unused: "hive_ok s h es fs own hs \<Longrightarrow> u \<notin> uses (nodes s) fs \<Longrightarrow> cont (nodes s) fs u = None"
  using chunk_okD(3) [OF hive_chunk_ok(2)] by (cases u) (fastforce simp: cont_def uses_iff domIff)

interpretation hm: handle_map hview_ok hview_room hview_look hview_add hview_del
proof
  fix s :: "'a hive_view" and v
  assume "hview_ok s" "hview_room s"
  then obtain st h hs es fs own where s: "s = (st, h, hs)" and ok: "hive_ok st h es fs own hs" "hive_alone own h fs"
      and len: "length hs < 2 ^ 61"
    by (auto simp: hview_ok_def hview_room_def)
  obtain st' h' i k es' fs' where E: "hive_emplace st h v = Some (st', h', (Some i, k))"
      "hive_ok st' h' es' fs' (own(i \<mapsto> hive_id h)) (Some i # hs)" "adds_slot st st' fs fs' i k"
      "cont (nodes st') fs' = (cont (nodes st) fs)((i, unat k) \<mapsto> v)" "hive_id h' = hive_id h"
    using hive_emplace_ok [OF ok(1) len] by blast
  note al = alone_adds [OF ok(2) E(3,5)]
  have "hview_ok (st', h', Some i # hs)" using E(2) al unfolding hview_ok_def by blast
  moreover have "hview_look (st', h', Some i # hs) = (hview_look s)((Some i, k) \<mapsto> v)"
    unfolding s hview_look_eq [OF ok] hview_look_eq [OF E(2) al] E(4) handle_upd ..
  moreover have "hview_look s (Some i, k) = None"
    using cont_unused [OF ok(1), of "(i, unat k)"] E(3) unfolding s hview_look_eq [OF ok] by (simp add: adds_slot_def)
  ultimately show "\<exists>s' h. hview_add s v = Some (s', h) \<and> hview_ok s' \<and> hview_look s h = None \<and> hview_look s' = (hview_look s)(h \<mapsto> v)"
    using E(1) by (intro exI [of _ "(st', h', Some i # hs)"] exI [of _ "(Some i, k)"]) (simp add: hview_add_def s)
next
  fix s :: "'a hive_view" and ha
  assume "hview_ok s" and l: "hview_look s ha \<noteq> None"
  then obtain st h hs es fs own where s: "s = (st, h, hs)" and ok: "hive_ok st h es fs own hs" "hive_alone own h fs"
    by (auto simp: hview_ok_def)
  obtain i k where ha: "ha = (Some i, k)" "cont (nodes st) fs (i, unat k) \<noteq> None"
    using l unfolding s hview_look_eq [OF ok] by (cases ha) (auto split: option.splits)
  obtain st' h' es' fs' own' where R: "hive_remove st h (Some i, k) = Some (st', h')" "hive_ok st' h' es' fs' own' hs"
      "drops_slot st st' fs fs' own own' i k" "cont (nodes st') fs' = (cont (nodes st) fs)((i, unat k) := None)" "hive_id h' = hive_id h"
    using hive_remove_ok [OF ok(1) ha(2)] by blast
  note al = alone_drops [OF ok(2) R(3,5)]
  have "hview_ok (st', h', hs)" using R(2) al unfolding hview_ok_def by blast
  moreover have "hview_look (st', h', hs) = (hview_look s)(ha := None)"
    unfolding s ha(1) hview_look_eq [OF ok] hview_look_eq [OF R(2) al] R(4) handle_upd ..
  ultimately show "\<exists>s'. hview_del s ha = Some s' \<and> hview_ok s' \<and> hview_look s' = (hview_look s)(ha := None)"
    using R(1) by (intro exI [of _ "(st', h', hs)"]) (simp add: hview_del_def s ha(1))
qed

section \<open>A small hive\<close>

text \<open>A hive of the values 10 and 20 with a handle to each.\<close>

definition demo_hive :: "(nat hive_store \<times> hive \<times> hive_handle \<times> hive_handle) option" where
  "demo_hive = do {
     (s, h, a) \<leftarrow> hive_emplace empty_store (hive_new 7) 10;
     (s, h, b) \<leftarrow> hive_emplace s h 20;
     Some (s, h, a, b) }"

lemma demo_hive_ok:
  obtains s h es own where "demo_hive = Some (s, h, (Some 0, 0), (Some 0, 1))" "hive_ok s h es [0] own [Some 0, Some 0]"
    "visit (nodes s) [0] = [(0, 0), (0, 1)]" "cont (nodes s) [0] = [(0, 0) \<mapsto> 10, (0, 1) \<mapsto> 20]" "hive_alone own h [0]" "hive_id h = 7"
    "uses (nodes s) [0] = {(0, 0), (0, 1)}"
proof -
  have base: "hive_ok empty_store (hive_new 7) [] [] Map.empty []" by (rule hive_new_ok [OF store_ok_empty])
  obtain s1 h1 i1 k1 es1 fs1 where A: "hive_emplace empty_store (hive_new 7) (10 :: nat) = Some (s1, h1, (Some i1, k1))"
      "hive_ok s1 h1 es1 fs1 (Map.empty(i1 \<mapsto> hive_id (hive_new 7))) [Some i1]" "adds_slot (empty_store :: nat hive_store) s1 [] fs1 i1 k1"
      "cont (nodes s1) fs1 = (cont (nodes (empty_store :: nat hive_store)) [])((i1, unat k1) \<mapsto> 10)" "hive_id h1 = hive_id (hive_new 7)"
    using hive_emplace_ok [OF base, of 10] by auto
  have l1: "length [Some i1] < 2 ^ 61" by simp
  obtain s2 h2 i2 k2 es2 fs2 where B: "hive_emplace s1 h1 (20 :: nat) = Some (s2, h2, (Some i2, k2))"
      "hive_ok s2 h2 es2 fs2 (Map.empty(i1 \<mapsto> hive_id (hive_new 7), i2 \<mapsto> hive_id h1)) [Some i2, Some i1]" "adds_slot s1 s2 fs1 fs2 i2 k2"
      "cont (nodes s2) fs2 = (cont (nodes s1) fs1)((i2, unat k2) \<mapsto> 20)" "hive_id h2 = hive_id h1"
    using hive_emplace_ok [OF A(2) l1, of 20] by blast
  have run: "demo_hive = Some (s2, h2, (Some i1, k1), (Some i2, k2))" using A(1) B(1) by (simp add: demo_hive_def)
  have "map_option (\<lambda>(s, h, a, b). (a, b)) demo_hive = Some ((Some 0, 0), (Some 0, 1))" by code_simp
  then have i: "i1 = 0" "k1 = 0" "i2 = 0" "k2 = 1" unfolding run by simp_all
  have fs: "fs1 = [0]" "fs2 = [0]" using A(3) B(3) by (auto simp: adds_slot_def i)
  have u: "uses (nodes s2) [0] = {(0, 0), (0, 1)}" using A(3) B(3) by (auto simp: adds_slot_def i fs) (auto simp: uses_def)
  have c: "cont (nodes s2) [0] = [(0, 0) \<mapsto> 10, (0, 1) \<mapsto> 20]"
  proof -
    have "cont n [] = Map.empty" for n :: "nat hive_chunk heap" by (simp add: cont_def fun_eq_iff)
    then show ?thesis using A(4) B(4) unfolding i fs by simp
  qed
  have "k \<in> used (the (nodes s2 0)) \<longleftrightarrow> (0, k) \<in> uses (nodes s2) [0]" for k by (simp add: uses_iff)
  then have "used (the (nodes s2 0)) = {0, 1}" unfolding u by (intro set_eqI) simp
  then have "set (slot_list (the (nodes s2 0))) = set [0, 1]" by simp
  moreover have "sorted (slot_list (the (nodes s2 0)))" by (simp add: slot_list_def sorted_wrt_filter)
  ultimately have "slot_list (the (nodes s2 0)) = [0, 1]" by (intro sorted_distinct_set_unique) simp_all
  then have v: "visit (nodes s2) [0] = [(0, 0), (0, 1)]" by simp
  let ?own = "Map.empty(i1 \<mapsto> hive_id (hive_new 7), i2 \<mapsto> hive_id h1)"
  have al: "hive_alone ?own h2 [0]" by (auto simp: hive_alone_def i)
  have "hive_ok s2 h2 es2 [0] ?own [Some 0, Some 0]" using B(2) by (simp add: i fs)
  then show thesis using that [of s2 h2 es2 ?own] run v c al A(5) B(5) u by (simp add: i hive_new_def)
qed

section \<open>Properties\<close>

definition head_or :: "'a \<Rightarrow> 'a list \<Rightarrow> 'a" where
  "head_or d xs = (if xs = [] then d else hd xs)"

definition last_or :: "'a \<Rightarrow> 'a list \<Rightarrow> 'a" where
  "last_or d xs = (if xs = [] then d else last xs)"

lemma seek_head_or: "a \<le> n \<Longrightarrow> seek P a n = head_or n (filter P [a..<n])"
  by (simp add: seek_filter head_or_def split: list.split)

lemma seek_last_or: "seek_down P a n = last_or n (filter P [0..<a])"
  by (simp add: seek_down_last last_or_def)

text \<open>C30: the five word-at-a-time searches through the bitmap of a chunk agree with the
  search slot by slot, and give the capacity when there is no such slot; they end and read no
  word outside the bitmap.\<close>

theorem bitmap_searches_correct:
  assumes "words_ok c"
  shows "map_option unat (find_first_empty_slot c) = Some (head_or (slot_cap c) (filter (\<lambda>i. \<not> slot_filled c i) [0..<slot_cap c])) \<and>
    map_option unat (find_first_filled_slot c) = Some (head_or (slot_cap c) (filter (slot_filled c) [0..<slot_cap c])) \<and>
    map_option unat (find_last_filled_slot c) = Some (last_or (slot_cap c) (filter (slot_filled c) [0..<slot_cap c])) \<and>
    (\<forall>cur. unat cur < slot_cap c \<longrightarrow>
      map_option unat (find_next_filled_slot c cur) = Some (head_or (slot_cap c) (filter (slot_filled c) [unat cur + 1..<slot_cap c])) \<and>
      map_option unat (find_prev_filled_slot c cur) = Some (last_or (slot_cap c) (filter (slot_filled c) [0..<unat cur])))"
proof (intro conjI allI impI)
  show "map_option unat (find_first_empty_slot c) = Some (head_or (slot_cap c) (filter (\<lambda>i. \<not> slot_filled c i) [0..<slot_cap c]))"
    using find_first_empty_ok [OF assms] by (auto simp: seek_head_or)
  show "map_option unat (find_first_filled_slot c) = Some (head_or (slot_cap c) (filter (slot_filled c) [0..<slot_cap c]))"
    using find_first_filled_ok [OF assms] by (auto simp: seek_head_or)
  show "map_option unat (find_last_filled_slot c) = Some (last_or (slot_cap c) (filter (slot_filled c) [0..<slot_cap c]))"
    using find_last_filled_ok [OF assms] by (auto simp: seek_last_or)
  fix cur :: u32 assume cur: "unat cur < slot_cap c"
  show "map_option unat (find_next_filled_slot c cur) = Some (head_or (slot_cap c) (filter (slot_filled c) [unat cur + 1..<slot_cap c]))"
    using find_next_filled_ok [OF assms cur] cur by (auto simp: seek_head_or)
  show "map_option unat (find_prev_filled_slot c cur) = Some (last_or (slot_cap c) (filter (slot_filled c) [0..<unat cur]))"
    using find_prev_filled_ok [OF assms cur] by (auto simp: seek_last_or)
qed

definition demo_chunk :: "nat hive_chunk" where
  "demo_chunk = \<lparr>prev_empty = None, next_empty = None, prev_filled = None, next_filled = None, log2_len = 7, filled_count = 3,
     bitmap = [2 ^ 5, 2 ^ 2 + 2 ^ 60], slots = Map.empty\<rparr>"

theorem bitmap_searches_correct_witness:
  "map_option unat (find_next_filled_slot demo_chunk 5) = Some (head_or 128 (filter (slot_filled demo_chunk) [6..<128])) \<and>
    find_next_filled_slot demo_chunk 5 = Some 66 \<and> find_prev_filled_slot demo_chunk 66 = Some 5 \<and> find_last_filled_slot demo_chunk = Some 124"
proof -
  have ok: "words_ok demo_chunk" and cap: "slot_cap demo_chunk = 128" by (simp_all add: words_ok_def slot_cap_def demo_chunk_def)
  have "map_option unat (find_next_filled_slot demo_chunk 5) = Some (head_or 128 (filter (slot_filled demo_chunk) [6..<128]))"
    using bitmap_searches_correct [OF ok, THEN conjunct2, THEN conjunct2, THEN conjunct2, THEN spec, of 5] unfolding cap by simp
  moreover have "find_next_filled_slot demo_chunk 5 = Some 66" "find_prev_filled_slot demo_chunk 66 = Some 5"
    "find_last_filled_slot demo_chunk = Some 124" by code_simp+
  ultimately show ?thesis by blast
qed

text \<open>C31: \<open>emplace\<close> puts the value in a slot that was free, in a chunk with a free slot or in
  a new one, and hands out a reference to it; no other value changes, the length grows by one,
  and reading through the handle gives the value.\<close>

theorem hive_emplace_correct:
  assumes "hive_ok s h es fs own hs" "hive_alone own h fs" "length hs < 2 ^ 61"
  shows "\<exists>s' h' i k es' fs' own'. hive_emplace s h v = Some (s', h', (Some i, k)) \<and>
    hive_ok s' h' es' fs' own' (Some i # hs) \<and> hive_alone own' h' fs' \<and>
    (i, unat k) \<notin> uses (nodes s) fs \<and> uses (nodes s') fs' = insert (i, unat k) (uses (nodes s) fs) \<and>
    cont (nodes s') fs' = (cont (nodes s) fs)((i, unat k) \<mapsto> v) \<and>
    hive_data s' h' (Some i, k) = Some v \<and> hive_size h' = hive_size h + 1 \<and>
    (\<forall>j. j \<notin> set fs' \<longrightarrow> nodes s' j = nodes s j)"
proof -
  obtain s' h' i k es' fs' where E: "hive_emplace s h v = Some (s', h', (Some i, k))"
      "hive_ok s' h' es' fs' (own(i \<mapsto> hive_id h)) (Some i # hs)" "adds_slot s s' fs fs' i k"
      "cont (nodes s') fs' = (cont (nodes s) fs)((i, unat k) \<mapsto> v)" "hive_id h' = hive_id h"
    using hive_emplace_ok [OF assms(1,3)] by blast
  note al = alone_adds [OF assms(2) E(3,5)]
  have "hive_data s' h' (Some i, k) = Some v" using hive_data_eq [OF E(2) al, of i k] E(4) by simp
  moreover have "hive_size h' = hive_size h + 1"
    using hive_okD(6) [OF E(2)] hive_okD(6) [OF assms(1)] E(3) by (simp add: hive_size_def adds_slot_def)
  moreover have "(i, unat k) \<notin> uses (nodes s) fs" "uses (nodes s') fs' = insert (i, unat k) (uses (nodes s) fs)"
      "\<forall>j. j \<notin> set fs' \<longrightarrow> nodes s' j = nodes s j" using E(3) by (simp_all add: adds_slot_def)
  ultimately show ?thesis using E(1,2,4) al by blast
qed

theorem hive_emplace_correct_witness:
  "\<exists>s h s' h' i k. demo_hive = Some (s, h, (Some 0, 0), (Some 0, 1)) \<and> hive_emplace s h 30 = Some (s', h', (Some i, k)) \<and>
    hive_data s' h' (Some i, k) = Some 30 \<and> hive_size h' = hive_size h + 1"
proof -
  obtain s h es own where D: "demo_hive = Some (s, h, (Some 0, 0), (Some 0, 1))" "hive_ok s h es [0] own [Some 0, Some 0]"
    "hive_alone own h [0]" by (rule demo_hive_ok)
  have "length [Some (0 :: nat), Some 0] < 2 ^ 61" by simp
  from hive_emplace_correct [OF D(2,3) this, of 30] D(1) show ?thesis by blast
qed

text \<open>C32: \<open>remove\<close> through a handle destroys exactly that value and frees its slot, and the
  chunk with it when it was the last; the length shrinks by one and every other handle keeps
  its value.  A handle whose slot is not in use is refused.\<close>

theorem hive_remove_correct:
  assumes "hive_ok s h es fs own hs" "hive_alone own h fs" "hive_data s h (Some i, k) \<noteq> None"
  shows "\<exists>s' h' es' fs' own'. hive_remove s h (Some i, k) = Some (s', h') \<and> hive_ok s' h' es' fs' own' hs \<and> hive_alone own' h' fs' \<and>
    uses (nodes s') fs' = uses (nodes s) fs - {(i, unat k)} \<and> hive_data s' h' = (hive_data s h)((Some i, k) := None) \<and>
    hive_size h' = hive_size h - 1 \<and> (set fs' = set fs \<or> set fs' = set fs - {i} \<and> nodes s' i = None) \<and>
    (Some i \<in> set hs \<longrightarrow> hive_check s' h' (Some i, k) = Some False)"
proof -
  have v: "cont (nodes s) fs (i, unat k) \<noteq> None" using assms(3) hive_data_eq [OF assms(1,2)] by simp
  obtain s' h' es' fs' own' where R: "hive_remove s h (Some i, k) = Some (s', h')" "hive_ok s' h' es' fs' own' hs"
      "drops_slot s s' fs fs' own own' i k" "cont (nodes s') fs' = (cont (nodes s) fs)((i, unat k) := None)" "hive_id h' = hive_id h"
    using hive_remove_ok [OF assms(1) v] by blast
  note al = alone_drops [OF assms(2) R(3,5)]
  have "hview_look (s', h', hs) = (hview_look (s, h, hs))((Some i, k) := None)"
    unfolding hview_look_eq [OF R(2) al] hview_look_eq [OF assms(1,2)] R(4) handle_upd ..
  then have look: "hive_data s' h' = (hive_data s h)((Some i, k) := None)" by (simp add: hview_look_def)
  have u: "uses (nodes s') fs' = uses (nodes s) fs - {(i, unat k)}" using R(3) by (simp add: drops_slot_def)
  have iu: "(i, unat k) \<in> uses (nodes s) fs" using v cont_unused [OF assms(1), of "(i, unat k)"] by metis
  have "card (uses (nodes s) fs) = Suc (card (uses (nodes s') fs'))" unfolding u using card_Suc_Diff1 [OF finite_uses iu] by simp
  then have "hive_size h' = hive_size h - 1" using hive_okD(6) [OF R(2)] hive_okD(6) [OF assms(1)] by (simp add: hive_size_def)
  moreover have "set fs' = set fs \<or> set fs' = set fs - {i} \<and> nodes s' i = None"
  proof (cases "fs' = fs")
    case False
    then have "fs' = remove1 i fs" "own' i = None" using R(3) by (auto simp: drops_slot_def)
    then show ?thesis using links_okD(2) [OF hive_okD(2) [OF assms(1)]] store_okD(2) [OF hive_okD(1) [OF R(2)], of i]
      by (simp add: live_def)
  qed simp
  moreover have "hive_check s' h' (Some i, k) = Some False" if "Some i \<in> set hs"
  proof (cases "i \<in> set fs'")
    case True
    then show ?thesis using hive_check_use [OF R(2) True, of k] u by (metis DiffD2 singletonI uses_iff)
  next
    case False
    then show ?thesis using hive_check_other [OF R(2) al that] by simp
  qed
  ultimately show ?thesis using R(1,2) al u look by blast
qed

theorem hive_remove_correct_witness:
  "\<exists>s h s' h'. demo_hive = Some (s, h, (Some 0, 0), (Some 0, 1)) \<and> hive_remove s h (Some 0, 0) = Some (s', h') \<and>
    hive_check s' h' (Some 0, 0) = Some False \<and> hive_data s' h' (Some 0, 1) = Some 20"
proof -
  obtain s h es own where D: "demo_hive = Some (s, h, (Some 0, 0), (Some 0, 1))" "hive_ok s h es [0] own [Some 0, Some 0]"
    "cont (nodes s) [0] = [(0, 0) \<mapsto> 10, (0, 1) \<mapsto> 20]" "hive_alone own h [0]" by (rule demo_hive_ok)
  have d: "hive_data s h (Some 0, 0) = Some 10" "hive_data s h (Some 0, 1) = Some 20" using hive_data_eq [OF D(2,4), of 0] D(3) by simp_all
  then have "hive_data s h (Some 0, 0) \<noteq> None" by simp
  from hive_remove_correct [OF D(2,4) this] obtain s' h' where "hive_remove s h (Some 0, 0) = Some (s', h')"
    "hive_data s' h' = (hive_data s h)((Some 0, 0) := None)" "hive_check s' h' (Some 0, 0) = Some False" by auto
  with D(1) d show ?thesis by (intro exI [of _ s] exI [of _ h] exI [of _ s'] exI [of _ h']) simp
qed

text \<open>C33: \<open>front\<close>, \<open>next\<close>, \<open>prev\<close> and \<open>back\<close> walk through one list of places in which every slot in
  use appears exactly once; past either end they give the null handle, and no value changes.\<close>

theorem hive_iteration_correct:
  assumes "hive_ok s h es fs own hs" "length hs < 2 ^ 61"
  shows "\<exists>vs. distinct vs \<and> set vs = uses (nodes s) fs \<and> of_nat (length vs) = hive_size h \<and>
    (\<exists>s'. hive_front s h = Some (s', pos_first vs) \<and> nodes s' = nodes s) \<and>
    (\<exists>s'. hive_back s h = Some (s', pos_last vs) \<and> nodes s' = nodes s) \<and>
    (\<forall>xs i k ys. vs = xs @ (i, k) # ys \<longrightarrow>
      (\<exists>s'. hive_next s h (Some i, of_nat k) = Some (s', pos_first ys) \<and> nodes s' = nodes s \<and>
        hive_ok s' h es fs own (fst (pos_first ys) # hs)) \<and>
      (\<exists>s'. hive_prev s h (Some i, of_nat k) = Some (s', pos_last xs) \<and> nodes s' = nodes s \<and>
        hive_ok s' h es fs own (fst (pos_last xs) # hs)))"
proof -
  let ?v = "visit (nodes s) fs"
  note d = links_okD(2) [OF hive_okD(2) [OF assms(1)]]
  have "distinct ?v" "set ?v = uses (nodes s) fs" by (simp_all add: distinct_visit [OF d] set_visit)
  moreover have "of_nat (length ?v) = hive_size h" using length_visit [OF d, of "nodes s"] hive_okD(6) [OF assms(1)] by (simp add: hive_size_def)
  moreover have "\<exists>s'. hive_front s h = Some (s', pos_first ?v) \<and> nodes s' = nodes s" using hive_front_ok [OF assms] by blast
  moreover have "\<exists>s'. hive_back s h = Some (s', pos_last ?v) \<and> nodes s' = nodes s" using hive_back_ok [OF assms] by blast
  moreover have "(\<exists>s'. hive_next s h (Some i, of_nat k) = Some (s', pos_first ys) \<and> nodes s' = nodes s \<and>
        hive_ok s' h es fs own (fst (pos_first ys) # hs)) \<and>
      (\<exists>s'. hive_prev s h (Some i, of_nat k) = Some (s', pos_last xs) \<and> nodes s' = nodes s \<and>
        hive_ok s' h es fs own (fst (pos_last xs) # hs))" if "?v = xs @ (i, k) # ys" for xs i k ys
    using hive_next_ok [OF assms that] hive_prev_ok [OF assms that] by blast
  ultimately show ?thesis by (intro exI [of _ ?v]) blast
qed

theorem hive_iteration_correct_witness:
  "\<exists>s h es own vs s'. demo_hive = Some (s, h, (Some 0, 0), (Some 0, 1)) \<and> hive_ok s h es [0] own [Some 0, Some 0] \<and>
    distinct vs \<and> set vs = {(0, 0), (0, 1)} \<and> hive_front s h = Some (s', pos_first vs)"
proof -
  obtain s h es own where D: "demo_hive = Some (s, h, (Some 0, 0), (Some 0, 1))" "hive_ok s h es [0] own [Some 0, Some 0]"
    "uses (nodes s) [0] = {(0, 0), (0, 1)}" by (rule demo_hive_ok)
  moreover have "length [Some (0 :: nat), Some 0] < 2 ^ 61" by simp
  ultimately show ?thesis using hive_iteration_correct [OF D(2)] D(1-3) by metis
qed

text \<open>\<open>clear\<close> destroys every value and gives back every chunk, whatever mixture of full and
  partly filled chunks there is; other containers in the store keep their nodes.\<close>

theorem hive_clear_correct:
  assumes "hive_ok s h es fs own hs" "\<forall>u \<in> uses (nodes s) fs. cont (nodes s) fs u \<noteq> None"
  shows "\<exists>s' h' own'. hive_clear s h = Some (s', h') \<and> hive_ok s' h' [] [] own' hs \<and> hive_empty h' \<and> hive_capacity s' h' = Some 0 \<and>
    (\<forall>i \<in> set fs. nodes s' i = None) \<and> (\<forall>j. j \<notin> set fs \<longrightarrow> nodes s' j = nodes s j \<and> own' j = own j)"
proof -
  let ?own = "\<lambda>i. if i \<in> set fs then None else own i"
  obtain s' h' where C: "hive_clear s h = Some (s', h')" "hive_ok s' h' [] [] ?own hs" "\<forall>j. j \<notin> set fs \<longrightarrow> nodes s' j = nodes s j"
    using hive_clear_ok [OF assms] by blast
  have "hive_empty h'" using hive_okD(6) [OF C(2)] by (simp add: hive_empty_def uses_def)
  moreover have "hive_capacity s' h' = Some 0" using hive_capacity_ok [OF C(2)] by simp
  moreover have "nodes s' i = None" if "i \<in> set fs" for i using store_okD(2) [OF hive_okD(1) [OF C(2)], of i] that by (simp add: live_def)
  ultimately show ?thesis using C by (intro exI [of _ s'] exI [of _ h'] exI [of _ ?own]) simp
qed

theorem hive_clear_correct_witness:
  "\<exists>s h s' h'. demo_hive = Some (s, h, (Some 0, 0), (Some 0, 1)) \<and> hive_clear s h = Some (s', h') \<and> hive_empty h' \<and> nodes s' 0 = None"
proof -
  obtain s h es own where D: "demo_hive = Some (s, h, (Some 0, 0), (Some 0, 1))" "hive_ok s h es [0] own [Some 0, Some 0]"
    "uses (nodes s) [0] = {(0, 0), (0, 1)}" "cont (nodes s) [0] = [(0, 0) \<mapsto> 10, (0, 1) \<mapsto> 20]" by (rule demo_hive_ok)
  have "\<forall>u \<in> uses (nodes s) [0]. cont (nodes s) [0] u \<noteq> None" unfolding D(3,4) by simp
  from hive_clear_correct [OF D(2) this] D(1) show ?thesis by auto
qed

text \<open>Assigning a hive to another, or copy-constructing one, gives the target exactly the
  values of the source, each as often as it is there, and leaves the source as it was.\<close>

theorem hive_assign_correct:
  assumes "hive_ok s h es fs own hs" "hive_ok s oh oes ofs own hs" "set fs \<inter> set ofs = {}"
    and "\<forall>u \<in> uses (nodes s) fs. cont (nodes s) fs u \<noteq> None"
    and "map (cont (nodes s) ofs) (visit (nodes s) ofs) = map Some vs" "length hs + 2 < 2 ^ 61"
  shows "(\<exists>s' h' es' fs' own'. hive_assign s h oh = Some (s', h') \<and> hive_ok s' h' es' fs' own' hs \<and> hive_ok s' oh oes ofs own' hs \<and>
      (\<forall>j \<in> set ofs. nodes s' j = nodes s j) \<and> mset (map (cont (nodes s') fs') (visit (nodes s') fs')) = mset (map Some vs) \<and> hive_id h' = hive_id h) \<and>
    (\<exists>s' h' es' fs' own'. hive_copy s i oh = Some (s', h') \<and> hive_ok s' h' es' fs' own' hs \<and> hive_ok s' oh oes ofs own' hs \<and>
      (\<forall>j \<in> set ofs. nodes s' j = nodes s j) \<and> mset (map (cont (nodes s') fs') (visit (nodes s') fs')) = mset (map Some vs) \<and> hive_id h' = i)"
proof -
  have bag: "hive_bag (nodes t) gs = mset (map (cont (nodes t) gs) (visit (nodes t) gs))" if "hive_ok t g ds gs o1 ks" for t g ds gs o1 ks
    using hive_bag_visit [OF links_okD(2) [OF hive_okD(2) [OF that]]] .
  obtain s1 h1 es1 fs1 own1 where A: "hive_assign s h oh = Some (s1, h1)" "hive_ok s1 h1 es1 fs1 own1 hs" "hive_ok s1 oh oes ofs own1 hs"
      "\<forall>j \<in> set ofs. nodes s1 j = nodes s j" "hive_bag (nodes s1) fs1 = mset (map Some vs)" "hive_id h1 = hive_id h"
    using hive_assign_ok [OF assms] by blast
  obtain s2 h2 es2 fs2 own2 where B: "hive_copy s i oh = Some (s2, h2)" "hive_ok s2 h2 es2 fs2 own2 hs" "hive_ok s2 oh oes ofs own2 hs"
      "\<forall>j \<in> set ofs. nodes s2 j = nodes s j" "hive_bag (nodes s2) fs2 = mset (map Some vs)" "hive_id h2 = i"
    using hive_copy_ok [OF assms(2,5,6), of i] by blast
  from A(1-4) A(5) [unfolded bag [OF A(2)]] A(6) B(1-4) B(5) [unfolded bag [OF B(2)]] B(6) show ?thesis by blast
qed

theorem hive_assign_correct_witness:
  "\<exists>s h s' h' es own es' fs' own'. demo_hive = Some (s, h, (Some 0, 0), (Some 0, 1)) \<and> hive_ok s h es [0] own [Some 0, Some 0] \<and>
    hive_copy s 9 h = Some (s', h') \<and> hive_ok s' h' es' fs' own' [Some 0, Some 0] \<and>
    mset (map (cont (nodes s') fs') (visit (nodes s') fs')) = {#Some 10, Some 20#} \<and> nodes s' 0 = nodes s 0"
proof -
  obtain s h es own where D: "demo_hive = Some (s, h, (Some 0, 0), (Some 0, 1))" "hive_ok s h es [0] own [Some 0, Some 0]"
    "visit (nodes s) [0] = [(0, 0), (0, 1)]" "cont (nodes s) [0] = [(0, 0) \<mapsto> 10, (0, 1) \<mapsto> 20]" by (rule demo_hive_ok)
  have new: "hive_ok s (hive_new 9) [] [] own [Some 0, Some 0]" by (rule hive_new_ok [OF hive_okD(1) [OF D(2)]])
  have pre: "set [] \<inter> set [0 :: nat] = {}" "\<forall>u \<in> uses (nodes s) []. cont (nodes s) [] u \<noteq> None"
    "map (cont (nodes s) [0]) (visit (nodes s) [0]) = map Some [10, 20]" "length [Some (0 :: nat), Some 0] + 2 < 2 ^ 61"
    using D(3,4) by (simp_all add: uses_def)
  from hive_assign_correct [OF new D(2) pre, of 9, THEN conjunct2] obtain s' h' es' fs' own' where
    "hive_copy s 9 h = Some (s', h')" "hive_ok s' h' es' fs' own' [Some 0, Some 0]" "\<forall>j \<in> set [0]. nodes s' j = nodes s j"
    "mset (map (cont (nodes s') fs') (visit (nodes s') fs')) = mset (map Some [10, 20])" by blast
  with D(1,2) show ?thesis
    by (intro exI [of _ s] exI [of _ h] exI [of _ s'] exI [of _ h'] exI [of _ es] exI [of _ own] exI [of _ es'] exI [of _ fs'] exI [of _ own']) simp
qed

text \<open>A value added to a hive and removed again through its handle leaves every access to
  the hive as it was.\<close>

theorem hive_add_remove_roundtrip:
  assumes "hview_ok (s, h, hs)" "length hs < 2 ^ 61" "hive_emplace s h v = Some (s', h', ha)"
  shows "\<exists>s'' h''. hive_remove s' h' ha = Some (s'', h'') \<and> hive_data s'' h'' = hive_data s h \<and> hview_ok (s'', h'', fst ha # hs)"
  using hm.add_del [of "(s, h, hs)" v "(s', h', fst ha # hs)" ha] assms
  by (auto simp: hview_room_def hview_add_def hview_del_def hview_look_def elim!: bind_SomeE)

theorem hive_add_remove_roundtrip_witness:
  "\<exists>s h s' h' ha s'' h''. demo_hive = Some (s, h, (Some 0, 0), (Some 0, 1)) \<and> hive_emplace s h 30 = Some (s', h', ha) \<and>
    hive_remove s' h' ha = Some (s'', h'') \<and> hive_data s'' h'' = hive_data s h"
proof -
  obtain s h es own where D: "demo_hive = Some (s, h, (Some 0, 0), (Some 0, 1))" "hive_ok s h es [0] own [Some 0, Some 0]"
    "hive_alone own h [0]" by (rule demo_hive_ok)
  then have ok: "hview_ok (s, h, [Some 0, Some 0])" by (auto simp: hview_ok_def)
  have len: "length [Some (0 :: nat), Some 0] < 2 ^ 61" by simp
  obtain s' h' ha where E: "hive_emplace s h 30 = Some (s', h', ha)" using hive_emplace_ok [OF D(2) len, of 30] by blast
  from hive_add_remove_roundtrip [OF ok len E] D(1) E show ?thesis by blast
qed

text \<open>C34: a handle is accepted exactly when its slot is in use, so a handle kept beyond the
  removal of its value is refused until the slot is used again, and then it gives the new
  value: handles have no generation count.\<close>

theorem hive_stale_handle:
  assumes "hive_ok s h es fs own hs" "hive_alone own h fs"
  shows "(\<forall>i k. Some i \<in> set hs \<longrightarrow> hive_check s h (Some i, k) = Some ((i, unat k) \<in> uses (nodes s) fs)) \<and>
    (\<forall>i k v s1 h1 s2 h2. hive_remove s h (Some i, k) = Some (s1, h1) \<longrightarrow> hive_emplace s1 h1 v = Some (s2, h2, (Some i, k)) \<longrightarrow>
      hive_data s h (Some i, k) \<noteq> None \<longrightarrow> length hs < 2 ^ 61 \<longrightarrow> hive_data s2 h2 (Some i, k) = Some v)"
proof (intro conjI allI impI)
  fix i k assume "Some i \<in> set hs"
  then show "hive_check s h (Some i, k) = Some ((i, unat k) \<in> uses (nodes s) fs)"
    using hive_check_use [OF assms(1), of i k] hive_check_other [OF assms, of "Some i" k] by (cases "i \<in> set fs") (simp_all add: uses_iff)
next
  fix i k v s1 h1 s2 h2
  assume r: "hive_remove s h (Some i, k) = Some (s1, h1)" and e: "hive_emplace s1 h1 v = Some (s2, h2, (Some i, k))"
    and d: "hive_data s h (Some i, k) \<noteq> None" and len: "length hs < 2 ^ 61"
  have "hview_ok (s, h, hs)" "hview_look (s, h, hs) (Some i, k) \<noteq> None" using assms d by (auto simp: hview_ok_def hview_look_def)
  then obtain t where "hview_del (s, h, hs) (Some i, k) = Some t" "hview_ok t" by (rule hm.delE)
  then have "hview_ok (s1, h1, hs)" "hview_room (s1, h1, hs)" using r len by (auto simp: hview_del_def hview_room_def)
  then obtain t' ha where A: "hview_add (s1, h1, hs) v = Some (t', ha)" "hview_look t' = (hview_look (s1, h1, hs))(ha \<mapsto> v)"
    by (rule hm.addE)
  then have "t' = (s2, h2, Some i # hs)" "ha = (Some i, k)" using e by (auto simp: hview_add_def)
  then show "hive_data s2 h2 (Some i, k) = Some v" using A(2) by (simp add: hview_look_def)
qed

theorem hive_stale_handle_witness:
  "\<exists>s h s1 h1 s2 h2. demo_hive = Some (s, h, (Some 0, 0), (Some 0, 1)) \<and> hive_remove s h (Some 0, 0) = Some (s1, h1) \<and>
    hive_emplace s1 h1 30 = Some (s2, h2, (Some 0, 0)) \<and> hive_data s h (Some 0, 0) = Some 10 \<and> hive_data s2 h2 (Some 0, 0) = Some 30"
proof -
  obtain s h es own where D: "demo_hive = Some (s, h, (Some 0, 0), (Some 0, 1))" "hive_ok s h es [0] own [Some 0, Some 0]"
    "cont (nodes s) [0] = [(0, 0) \<mapsto> 10, (0, 1) \<mapsto> 20]" "hive_alone own h [0]" by (rule demo_hive_ok)
  have d: "hive_data s h (Some 0, 0) = Some 10" using hive_data_eq [OF D(2,4), of 0 0] D(3) by simp
  have run: "map_option (\<lambda>(s, h, ha). ha) (do { (s, h, a, b) \<leftarrow> demo_hive; (s, h) \<leftarrow> hive_remove s h a; hive_emplace s h 30 }) = Some (Some 0, 0)"
    by code_simp
  then obtain s1 h1 s2 h2 where R: "hive_remove s h (Some 0, 0) = Some (s1, h1)" "hive_emplace s1 h1 30 = Some (s2, h2, (Some 0, 0))"
    unfolding D(1) by (auto elim!: bind_SomeE)
  then have "hive_data s2 h2 (Some 0, 0) = Some 30" using hive_stale_handle [OF D(2,4)] d by simp
  with D(1) R d show ?thesis by blast
qed

end
