(* ===== verification/HashTable.thy ===== *)
theory HashTable
  imports Swar Hive
begin

text \<open>
  One table of \<open>hashmap.hpp\<close>: a control byte and a slot per position, probed in groups of
  eight.  A control byte is 0 for an empty slot, \<open>0x7F\<close> for a tombstone, and has its top bit
  set for a slot in use, with seven bits of the hash below it.  A slot holds a key and the
  handle of the value in the hive of the map.
\<close>

section \<open>Data\<close>

text \<open>\<open>raw_dyn_array.hpp\<close>: storage of some length, with the objects alive in it.  Storage is
  not bounds-checked; an access outside is a fault.\<close>

type_synonym 'a raw_dyn_array = "(u64 \<times> (nat \<Rightarrow> 'a option)) option"

definition raw_allocate :: "u64 \<Rightarrow> 'a raw_dyn_array \<Rightarrow> u64 \<Rightarrow> 'a raw_dyn_array option" where
  "raw_allocate sz r n =
     (if r \<noteq> None then None
      else if unat sz * unat n \<ge> 2 ^ 64 then None
      else Some (Some (n, Map.empty)))"

definition raw_construct_at :: "'a raw_dyn_array \<Rightarrow> u64 \<Rightarrow> 'a \<Rightarrow> 'a raw_dyn_array option" where
  "raw_construct_at r i x = do {
     (n, f) \<leftarrow> r;
     if i < n then Some (Some (n, f(unat i \<mapsto> x))) else None }"

definition raw_destroy_at :: "'a raw_dyn_array \<Rightarrow> u64 \<Rightarrow> 'a raw_dyn_array option" where
  "raw_destroy_at r i = do {
     (n, f) \<leftarrow> r;
     x \<leftarrow> f (unat i);
     if i < n then Some (Some (n, f(unat i := None))) else None }"

definition raw_at :: "'a raw_dyn_array \<Rightarrow> u64 \<Rightarrow> 'a option" where
  "raw_at r i = do { (n, f) \<leftarrow> r; if i < n then f (unat i) else None }"

definition raw_deallocate :: "'a raw_dyn_array \<Rightarrow> 'a raw_dyn_array" where
  "raw_deallocate r = None"

record 'k hash_table =
  random_key :: "u8 list"
  ctrl :: "u8 list"
  tslots :: "('k \<times> hive_handle) raw_dyn_array"
  capacity :: u64
  tsize :: u64
  tombstones :: u64

definition new_table :: "'k hash_table" where
  "new_table = \<lparr>random_key = replicate 32 0, ctrl = [], tslots = None, capacity = 0, tsize = 0, tombstones = 0\<rparr>"

definition move_table :: "'k hash_table \<Rightarrow> 'k hash_table \<times> 'k hash_table" where
  "move_table other =
     (other, other\<lparr>ctrl := [], tslots := None, capacity := 0, tsize := 0, tombstones := 0\<rparr>)"

definition GROUP_SIZE :: u64 where
  "GROUP_SIZE = 8"

definition NOT_FOUND :: u64 where
  "NOT_FOUND = - 1"

definition CTRL_EMPTY :: u8 where
  "CTRL_EMPTY = 0x00"

definition CTRL_TOMBSTONE :: u8 where
  "CTRL_TOMBSTONE = 0x7F"

text \<open>What the map takes from outside: the hash of a key under a random key, the entropy
  source (\<open>getrandom\<close>, its answer to the \<open>n\<close>-th request, \<^term>\<open>None\<close> for an error) and the size
  of a slot in bytes.\<close>

record 'k hash_env =
  hash_fn :: "u8 list \<Rightarrow> 'k \<Rightarrow> u64"
  getrandom :: "nat \<Rightarrow> u8 list option"
  slot_bytes :: u64

definition refresh_random_key :: "'k hash_env \<Rightarrow> nat \<Rightarrow> (u8 list \<times> nat) option" where
  "refresh_random_key E d = do { key \<leftarrow> getrandom E d; Some (key, Suc d) }"

section \<open>Control bytes and handles\<close>

definition tag_byte :: "u64 \<Rightarrow> u8" where
  "tag_byte hash_val = 0x80 OR ucast (hash_val AND 0x7F)"

definition ctrl_at :: "'k hash_table \<Rightarrow> u64 \<Rightarrow> u8 option" where
  "ctrl_at t i = (if unat i < length (ctrl t) then Some (ctrl t ! unat i) else None)"

definition set_ctrl :: "'k hash_table \<Rightarrow> u64 \<Rightarrow> u8 \<Rightarrow> 'k hash_table option" where
  "set_ctrl t i c = (if unat i < length (ctrl t) then Some (t\<lparr>ctrl := (ctrl t)[unat i := c]\<rparr>) else None)"

text \<open>The copy constructor and the destructor of a handle.\<close>

definition copy_ref :: "'v hive_store \<Rightarrow> hive_handle \<Rightarrow> ('v hive_store \<times> hive_handle) option" where
  "copy_ref s ha = do { (ts, r) \<leftarrow> counted_copy (tagged s) (fst ha); Some (s\<lparr>tagged := ts\<rparr>, (r, snd ha)) }"

definition drop_ref :: "'v hive_store \<Rightarrow> hive_handle \<Rightarrow> 'v hive_store option" where
  "drop_ref s ha = drop_handle s (fst ha)"

text \<open>A slot in use is left: its key and its handle are destroyed.\<close>

definition destroy_slot :: "'v hive_store \<Rightarrow> 'k hash_table \<Rightarrow> u64 \<Rightarrow> ('v hive_store \<times> 'k hash_table) option" where
  "destroy_slot s t i = do {
     (k, ha) \<leftarrow> raw_at (tslots t) i;
     s \<leftarrow> drop_ref s ha;
     r \<leftarrow> raw_destroy_at (tslots t) i;
     Some (s, t\<lparr>tslots := r\<rparr>) }"

text \<open>A slot found by \<open>find_insert_slot\<close> is taken into use.\<close>

definition fill_slot ::
  "'v hive_store \<Rightarrow> 'k hash_table \<Rightarrow> u64 \<Rightarrow> 'k \<Rightarrow> hive_handle \<Rightarrow> u64 \<Rightarrow> ('v hive_store \<times> 'k hash_table) option" where
  "fill_slot s t slot k h hash_val = do {
     c \<leftarrow> ctrl_at t slot;
     let t = (if c = CTRL_TOMBSTONE then t\<lparr>tombstones := tombstones t - 1\<rparr> else t);
     (s, h) \<leftarrow> copy_ref s h;
     r \<leftarrow> raw_construct_at (tslots t) slot (k, h);
     t \<leftarrow> set_ctrl (t\<lparr>tslots := r\<rparr>) slot (tag_byte hash_val);
     Some (s, t\<lparr>tsize := tsize t + 1\<rparr>) }"

text \<open>A slot in use becomes a tombstone.\<close>

definition erase_slot :: "'v hive_store \<Rightarrow> 'k hash_table \<Rightarrow> u64 \<Rightarrow> ('v hive_store \<times> 'k hash_table) option" where
  "erase_slot s t i = do {
     (s, t) \<leftarrow> destroy_slot s t i;
     t \<leftarrow> set_ctrl t i CTRL_TOMBSTONE;
     Some (s, t\<lparr>tsize := tsize t - 1, tombstones := tombstones t + 1\<rparr>) }"

section \<open>Whole tables\<close>

definition init_table :: "'k hash_env \<Rightarrow> nat \<Rightarrow> 'k hash_table \<Rightarrow> u64 \<Rightarrow> ('k hash_table \<times> nat) option" where
  "init_table E d tbl cap =
     (if unat (slot_bytes E) * unat cap \<ge> 2 ^ 64 then None
      else do {
        let tbl = tbl\<lparr>capacity := cap, tsize := 0, tombstones := 0\<rparr>;
        let tbl = tbl\<lparr>ctrl := []\<rparr>;
        let tbl = tbl\<lparr>ctrl := ctrl tbl @ replicate (unat cap) CTRL_EMPTY\<rparr>;
        r \<leftarrow> raw_allocate (slot_bytes E) (tslots tbl) cap;
        (key, d) \<leftarrow> refresh_random_key E d;
        Some (tbl\<lparr>tslots := r, random_key := key\<rparr>, d) })"

text \<open>For evaluation, the tests for overflow on binary integers.\<close>

lemma overflow_int: "2 ^ 64 \<le> unat (a :: u64) * unat b \<longleftrightarrow> 2 ^ 64 \<le> uint a * uint b"
proof -
  have "2 ^ 64 \<le> unat a * unat b \<longleftrightarrow> int (2 ^ 64) \<le> int (unat a * unat b)" by (rule of_nat_le_iff [symmetric])
  then show ?thesis by simp
qed

lemmas overflow_code [code] = raw_allocate_def [unfolded overflow_int] init_table_def [unfolded overflow_int]

definition clear_slots :: "'v hive_store \<Rightarrow> 'k hash_table \<Rightarrow> ('v hive_store \<times> 'k hash_table \<times> u64) option" where
  "clear_slots s tbl =
     while_c (\<lambda>(s, tbl, i). i < capacity tbl)
       (\<lambda>(s, tbl, i). do {
          c \<leftarrow> ctrl_at tbl i;
          (s, tbl) \<leftarrow> (if c AND 0x80 \<noteq> 0 then do {
             (s, tbl) \<leftarrow> destroy_slot s tbl i;
             tbl \<leftarrow> set_ctrl tbl i CTRL_EMPTY;
             Some (s, tbl) } else Some (s, tbl));
          Some (s, tbl, i + 1) })
       (s, tbl, 0)"

definition clear_table :: "'v hive_store \<Rightarrow> 'k hash_table \<Rightarrow> ('v hive_store \<times> 'k hash_table) option" where
  "clear_table s tbl =
     (if capacity tbl = 0 then Some (s, tbl)
      else do {
        (s, tbl, i) \<leftarrow> clear_slots s tbl;
        Some (s, tbl\<lparr>tsize := 0, tombstones := 0\<rparr>) })"

section \<open>Probing\<close>

text \<open>Eight control bytes in one load.\<close>

fun word_of_bytes :: "u8 list \<Rightarrow> u64" where
  "word_of_bytes [] = 0"
| "word_of_bytes (b # bs) = ucast b OR push_bit 8 (word_of_bytes bs)"

definition group_word :: "'k hash_table \<Rightarrow> u64 \<Rightarrow> u64 option" where
  "group_word t base =
     (if unat base + 8 \<le> length (ctrl t) then Some (word_of_bytes (take 8 (drop (unat base) (ctrl t)))) else None)"

text \<open>The flags of the bytes of \<open>x\<close> that are zero (and of some more, see \<open>Probe\<close>).\<close>

definition zero_flags :: "u64 \<Rightarrow> u64" where
  "zero_flags x = (x - 0x0101010101010101) AND NOT x AND 0x8080808080808080"

definition flag_slot :: "u64 \<Rightarrow> u64 \<Rightarrow> u64" where
  "flag_slot base flags = base + ucast (drop_bit 3 (count_trailing_zeros_u64 flags))"

definition match_slot :: "'k hash_table \<Rightarrow> 'k \<Rightarrow> u64 \<Rightarrow> u64 \<Rightarrow> (u64 + u64) option" where
  "match_slot t key base matches =
     while_ret (\<lambda>matches. matches \<noteq> 0)
       (\<lambda>matches. do {
          (k, h) \<leftarrow> raw_at (tslots t) (flag_slot base matches);
          Some (if k = key then Inl (flag_slot base matches) else Inr (matches AND (matches - 1))) })
       matches"

definition find_slot :: "'k hash_table \<Rightarrow> 'k \<Rightarrow> u64 \<Rightarrow> u64 option" where
  "find_slot tbl key hash_val =
     (if capacity tbl = 0 then Some NOT_FOUND
      else do {
        let num_groups = capacity tbl div GROUP_SIZE;
        let target = tag_byte hash_val;
        x \<leftarrow> while_ret (\<lambda>(probe, g, probe_step). probe < num_groups)
          (\<lambda>(probe, g, probe_step). do {
             let base = g * GROUP_SIZE;
             ctrl8 \<leftarrow> group_word tbl base;
             let match_mask = 0x0101010101010101 * ucast target;
             r \<leftarrow> match_slot tbl key base (zero_flags (ctrl8 XOR match_mask));
             Some (case r of
                 Inl i \<Rightarrow> Inl i
               | Inr _ \<Rightarrow> if zero_flags ctrl8 \<noteq> 0 then Inl NOT_FOUND
                          else Inr (probe + 1, (g + probe_step) AND (num_groups - 1), probe_step + 1)) })
          (0, drop_bit 7 hash_val AND (num_groups - 1), 1);
        Some (case x of Inl i \<Rightarrow> i | Inr _ \<Rightarrow> NOT_FOUND) })"

definition find_insert_slot :: "'k hash_table \<Rightarrow> 'k \<Rightarrow> u64 \<Rightarrow> u64 option" where
  "find_insert_slot tbl key hash_val = do {
     let num_groups = capacity tbl div GROUP_SIZE;
     let target = tag_byte hash_val;
     x \<leftarrow> while_ret (\<lambda>(probe, g, probe_step, first_avail_slot). probe < num_groups)
       (\<lambda>(probe, g, probe_step, first_avail_slot). do {
          let base = g * GROUP_SIZE;
          ctrl8 \<leftarrow> group_word tbl base;
          let match_mask = 0x0101010101010101 * ucast target;
          r \<leftarrow> match_slot tbl key base (zero_flags (ctrl8 XOR match_mask));
          let avail = NOT ctrl8 AND 0x8080808080808080;
          let first_avail_slot = (if avail \<noteq> 0 \<and> first_avail_slot = NOT_FOUND then flag_slot base avail else first_avail_slot);
          Some (case r of
              Inl i \<Rightarrow> Inl i
            | Inr _ \<Rightarrow> if zero_flags ctrl8 \<noteq> 0 then Inl first_avail_slot
                       else Inr (probe + 1, (g + probe_step) AND (num_groups - 1), probe_step + 1, first_avail_slot)) })
       (0, drop_bit 7 hash_val AND (num_groups - 1), 1, NOT_FOUND);
     Some (case x of Inl i \<Rightarrow> i | Inr (_, _, _, first_avail_slot) \<Rightarrow> first_avail_slot) }"

end
