(* ===== verification/HashMap.thy ===== *)
theory HashMap
  imports HashTable
begin

text \<open>
  Every operation of \<open>hashmap.hpp\<close>, over the store of the hive that holds its values.  The map
  has two tables: while it rehashes, the entries move from the first to the second, four with
  each operation.  \<open>E\<close> gives the hash function and the entropy source, and \<open>d\<close> counts the
  random keys drawn.  A handle is a reference: making a copy and destroying one count.
\<close>

record 'k hashmap =
  table0 :: "'k hash_table"
  table1 :: "'k hash_table"
  hm_hive :: hive
  rehashing :: bool
  rehash_idx :: u64

definition REHASH_STEP_COUNT :: u64 where
  "REHASH_STEP_COUNT = 4"

text \<open>\<open>i\<close> is the id the hive gets.\<close>

definition hm_new :: "'k hash_env \<Rightarrow> nat \<Rightarrow> u64 \<Rightarrow> (nat \<times> 'k hashmap) option" where
  "hm_new E d i = do {
     (key, d) \<leftarrow> refresh_random_key E d;
     Some (d, \<lparr>table0 = new_table\<lparr>random_key := key\<rparr>, table1 = new_table, hm_hive = hive_new i, rehashing = False, rehash_idx = 0\<rparr>) }"

section \<open>Rehashing\<close>

definition start_rehash :: "'k hash_env \<Rightarrow> nat \<Rightarrow> 'k hashmap \<Rightarrow> (nat \<times> 'k hashmap) option" where
  "start_rehash E d m =
     (if rehashing m then Some (d, m)
      else do {
        let t = table0 m;
        let new_cap = capacity t * 2;
        let new_cap = (if tsize t \<le> capacity t div 4 \<and> capacity t > 8 then capacity t div 2
                       else if tsize t * 2 \<le> capacity t then capacity t
                       else new_cap);
        let new_cap = (if new_cap < 8 then 8 else new_cap);
        (t1, d) \<leftarrow> init_table E d (table1 m) new_cap;
        Some (d, m\<lparr>table1 := t1, rehashing := True, rehash_idx := 0\<rparr>) })"

text \<open>One entry moves from slot \<open>i\<close> of the first table to the second; the local handle \<open>h\<close>
  ends with the block.\<close>

definition transfer :: "'k hash_env \<Rightarrow> 'v hive_store \<Rightarrow> 'k hash_table \<Rightarrow> 'k hash_table \<Rightarrow> u64 \<Rightarrow>
    ('v hive_store \<times> 'k hash_table \<times> 'k hash_table) option" where
  "transfer E s t0 t1 i = do {
     (k, ha) \<leftarrow> raw_at (tslots t0) i;
     (s, h) \<leftarrow> copy_ref s ha;
     let hash_val = hash_fn E (random_key t1) k;
     dest_slot \<leftarrow> find_insert_slot t1 k hash_val;
     (s, t1) \<leftarrow> fill_slot s t1 dest_slot k h hash_val;
     (s, t0) \<leftarrow> destroy_slot s t0 i;
     t0 \<leftarrow> set_ctrl t0 i CTRL_TOMBSTONE;
     s \<leftarrow> drop_ref s h;
     Some (s, t0, t1) }"

definition transfer_rest :: "'k hash_env \<Rightarrow> 'v hive_store \<Rightarrow> 'k hash_table \<Rightarrow> 'k hash_table \<Rightarrow> u64 \<Rightarrow>
    ('v hive_store \<times> 'k hash_table \<times> 'k hash_table \<times> u64) option" where
  "transfer_rest E s t0 t1 i =
     while_c (\<lambda>(s, t0, t1, i). i < capacity t0)
       (\<lambda>(s, t0, t1, i). do {
          c \<leftarrow> ctrl_at t0 i;
          (s, t0, t1) \<leftarrow> (if c AND 0x80 \<noteq> 0 then transfer E s t0 t1 i else Some (s, t0, t1));
          Some (s, t0, t1, i + 1) })
       (s, t0, t1, i)"

definition finalize_rehash :: "'k hash_env \<Rightarrow> 'v hive_store \<Rightarrow> 'k hashmap \<Rightarrow> ('v hive_store \<times> 'k hashmap) option" where
  "finalize_rehash E s m = do {
     (s, t0, t1) \<leftarrow> (if tsize (table0 m) > 0 then do {
        (s, t0, t1, i) \<leftarrow> transfer_rest E s (table0 m) (table1 m) (rehash_idx m);
        Some (s, t0\<lparr>tsize := 0\<rparr>, t1) }
      else Some (s, table0 m, table1 m));
     let t0 = t0\<lparr>tslots := raw_deallocate (tslots t0), ctrl := []\<rparr>;
     let (t0, t1) = move_table t1;
     Some (s, m\<lparr>table0 := t0, table1 := t1, rehashing := False, rehash_idx := 0\<rparr>) }"

definition step_entries :: "'k hash_env \<Rightarrow> u64 \<Rightarrow> 'v hive_store \<Rightarrow> 'k hashmap \<Rightarrow> ('v hive_store \<times> 'k hashmap \<times> u64) option" where
  "step_entries E n s m =
     while_c (\<lambda>(s, m, moved). rehash_idx m < capacity (table0 m) \<and> moved < n)
       (\<lambda>(s, m, moved). do {
          c \<leftarrow> ctrl_at (table0 m) (rehash_idx m);
          (s, m, moved) \<leftarrow> (if c AND 0x80 \<noteq> 0 then do {
             (s, t0, t1) \<leftarrow> transfer E s (table0 m) (table1 m) (rehash_idx m);
             Some (s, m\<lparr>table0 := t0\<lparr>tsize := tsize t0 - 1\<rparr>, table1 := t1\<rparr>, moved + 1) }
           else Some (s, m, moved));
          Some (s, m\<lparr>rehash_idx := rehash_idx m + 1\<rparr>, moved) })
       (s, m, 0)"

definition step_rehash :: "'k hash_env \<Rightarrow> u64 \<Rightarrow> 'v hive_store \<Rightarrow> 'k hashmap \<Rightarrow> ('v hive_store \<times> 'k hashmap) option" where
  "step_rehash E n s m =
     (if \<not> rehashing m then Some (s, m)
      else do {
        (s, m, moved) \<leftarrow> step_entries E n s m;
        if rehash_idx m \<ge> capacity (table0 m) \<or> tsize (table0 m) = 0 then finalize_rehash E s m
        else Some (s, m) })"

definition finish_rehash :: "'k hash_env \<Rightarrow> 'v hive_store \<Rightarrow> 'k hashmap \<Rightarrow> ('v hive_store \<times> 'k hashmap) option" where
  "finish_rehash E s m =
     while_c (\<lambda>(s, m). rehashing m) (\<lambda>(s, m). step_rehash E (capacity (table0 m)) s m) (s, m)"

definition ensure_capacity_for_insert ::
  "'k hash_env \<Rightarrow> 'v hive_store \<Rightarrow> nat \<Rightarrow> 'k hashmap \<Rightarrow> ('v hive_store \<times> nat \<times> 'k hashmap) option" where
  "ensure_capacity_for_insert E s d m =
     (if capacity (table0 m) = 0 then do {
        (t, d) \<leftarrow> init_table E d (table0 m) 8;
        Some (s, d, m\<lparr>table0 := t\<rparr>) }
      else if \<not> rehashing m then
        if (tsize (table0 m) + tombstones (table0 m) + 1) * 8 > capacity (table0 m) * 7 then do {
          (d, m) \<leftarrow> start_rehash E d m;
          (s, m) \<leftarrow> step_rehash E REHASH_STEP_COUNT s m;
          Some (s, d, m) }
        else Some (s, d, m)
      else
        if (tsize (table1 m) + tombstones (table1 m) + 1) * 8 > capacity (table1 m) * 7 then do {
          (s, m) \<leftarrow> finalize_rehash E s m;
          (d, m) \<leftarrow> start_rehash E d m;
          (s, m) \<leftarrow> step_rehash E REHASH_STEP_COUNT s m;
          Some (s, d, m) }
        else Some (s, d, m))"

definition check_shrink ::
  "'k hash_env \<Rightarrow> 'v hive_store \<Rightarrow> nat \<Rightarrow> 'k hashmap \<Rightarrow> ('v hive_store \<times> nat \<times> 'k hashmap) option" where
  "check_shrink E s d m =
     (if rehashing m then Some (s, d, m)
      else if capacity (table0 m) > 8 \<and> tsize (table0 m) \<le> capacity (table0 m) div 4 then do {
        (d, m) \<leftarrow> start_rehash E d m;
        (s, m) \<leftarrow> step_rehash E REHASH_STEP_COUNT s m;
        Some (s, d, m) }
      else Some (s, d, m))"

section \<open>Lookup\<close>

definition hm_size :: "'k hashmap \<Rightarrow> u64" where
  "hm_size m = hive_size (hm_hive m)"

definition hm_empty :: "'k hashmap \<Rightarrow> bool" where
  "hm_empty m = hive_empty (hm_hive m)"

definition hm_capacity :: "'k hashmap \<Rightarrow> u64" where
  "hm_capacity m = (if rehashing m then capacity (table1 m) else capacity (table0 m))"

definition find_in :: "'k hash_env \<Rightarrow> 'k hash_table \<Rightarrow> 'k \<Rightarrow> u64 option" where
  "find_in E t k = find_slot t k (hash_fn E (random_key t) k)"

definition hm_search :: "'k hash_env \<Rightarrow> 'v hive_store \<Rightarrow> 'k hashmap \<Rightarrow> 'k \<Rightarrow> ('v hive_store \<times> hive_handle) option" where
  "hm_search E s m k =
     (if capacity (table0 m) = 0 then Some (s, null_handle)
      else do {
        s1 \<leftarrow> (if rehashing m then find_in E (table1 m) k else Some NOT_FOUND);
        if s1 \<noteq> NOT_FOUND then do { (k', ha) \<leftarrow> raw_at (tslots (table1 m)) s1; copy_ref s ha }
        else do {
          s0 \<leftarrow> find_in E (table0 m) k;
          if s0 \<noteq> NOT_FOUND then do { (k', ha) \<leftarrow> raw_at (tslots (table0 m)) s0; copy_ref s ha }
          else Some (s, null_handle) } })"

definition hm_contains :: "'k hash_env \<Rightarrow> 'v hive_store \<Rightarrow> 'k hashmap \<Rightarrow> 'k \<Rightarrow> ('v hive_store \<times> bool) option" where
  "hm_contains E s m k = do {
     (s, h) \<leftarrow> hm_search E s m k;
     b \<leftarrow> counted_bool (tagged s) (fst h);
     s \<leftarrow> drop_ref s h;
     Some (s, b) }"

text \<open>\<open>at\<close> gives a reference to the value; here, the value it reads.\<close>

definition hm_at :: "'k hash_env \<Rightarrow> 'v hive_store \<Rightarrow> 'k hashmap \<Rightarrow> 'k \<Rightarrow> ('v hive_store \<times> 'v) option" where
  "hm_at E s m k = do {
     (s, h) \<leftarrow> hm_search E s m k;
     b \<leftarrow> counted_bool (tagged s) (fst h);
     if \<not> b then None
     else do {
       v \<leftarrow> hive_data s (hm_hive m) h;
       s \<leftarrow> drop_ref s h;
       Some (s, v) } }"

definition hm_value :: "'v hive_store \<Rightarrow> 'k hashmap \<Rightarrow> hive_handle \<Rightarrow> 'v option" where
  "hm_value s m h = hive_data s (hm_hive m) h"

text \<open>The search for a slot with a given handle, from slot to slot.\<close>

definition match_handle :: "'v hive_store \<Rightarrow> 'k hash_table \<Rightarrow> hive_handle \<Rightarrow> (u64 + u64) option" where
  "match_handle s t h =
     while_ret (\<lambda>i. i < capacity t)
       (\<lambda>i. do {
          c \<leftarrow> ctrl_at t i;
          e \<leftarrow> (if c AND 0x80 \<noteq> 0 then do { (k, ha) \<leftarrow> raw_at (tslots t) i; hive_handle_eq (tagged s) ha h } else Some False);
          Some (if e then Inl i else Inr (i + 1)) })
       0"

definition hm_key :: "'v hive_store \<Rightarrow> 'k hashmap \<Rightarrow> hive_handle \<Rightarrow> 'k option" where
  "hm_key s m h = do {
     r \<leftarrow> match_handle s (table0 m) h;
     case r of
       Inl i \<Rightarrow> map_option fst (raw_at (tslots (table0 m)) i)
     | Inr _ \<Rightarrow>
         if rehashing m then do {
           r \<leftarrow> match_handle s (table1 m) h;
           case r of Inl i \<Rightarrow> map_option fst (raw_at (tslots (table1 m)) i) | Inr _ \<Rightarrow> None }
         else None }"

definition hm_front :: "'v hive_store \<Rightarrow> 'k hashmap \<Rightarrow> ('v hive_store \<times> hive_handle) option" where
  "hm_front s m = hive_front s (hm_hive m)"

definition hm_next :: "'v hive_store \<Rightarrow> 'k hashmap \<Rightarrow> hive_handle \<Rightarrow> ('v hive_store \<times> hive_handle) option" where
  "hm_next s m h = hive_next s (hm_hive m) h"

section \<open>Insertion\<close>

text \<open>The value is the one the constructor makes from the arguments, by default for
  \<open>insert_default\<close>.  The handle that is returned is the local one.\<close>

definition hm_emplace :: "'k hash_env \<Rightarrow> 'v hive_store \<Rightarrow> nat \<Rightarrow> 'k hashmap \<Rightarrow> 'k \<Rightarrow> 'v \<Rightarrow>
    ('v hive_store \<times> nat \<times> 'k hashmap \<times> bool \<times> hive_handle) option" where
  "hm_emplace E s d m k v = do {
     (s, m) \<leftarrow> step_rehash E REHASH_STEP_COUNT s m;
     (s, existing) \<leftarrow> hm_search E s m k;
     b \<leftarrow> counted_bool (tagged s) (fst existing);
     if b then Some (s, d, m, False, existing)
     else do {
       (s, d, m) \<leftarrow> ensure_capacity_for_insert E s d m;
       let target = (if rehashing m then table1 m else table0 m);
       (s, hv, h) \<leftarrow> hive_emplace s (hm_hive m) v;
       let hash_val = hash_fn E (random_key target) k;
       slot \<leftarrow> find_insert_slot target k hash_val;
       (s, target) \<leftarrow> fill_slot s target slot k h hash_val;
       s \<leftarrow> drop_ref s existing;
       let m = m\<lparr>hm_hive := hv\<rparr>;
       Some (s, d, if rehashing m then m\<lparr>table1 := target\<rparr> else m\<lparr>table0 := target\<rparr>, True, h) } }"

text \<open>\<open>hive_.get (h) = v\<close>\<close>

definition assign_value :: "'v hive_store \<Rightarrow> hive \<Rightarrow> hive_handle \<Rightarrow> 'v \<Rightarrow> 'v hive_store option" where
  "assign_value s h ha v = do {
     _ \<leftarrow> hive_data s h ha;
     construct_slot s (fst ha) (snd ha) v }"

definition hm_insert_or_assign :: "'k hash_env \<Rightarrow> 'v hive_store \<Rightarrow> nat \<Rightarrow> 'k hashmap \<Rightarrow> 'k \<Rightarrow> 'v \<Rightarrow>
    ('v hive_store \<times> nat \<times> 'k hashmap \<times> bool \<times> hive_handle) option" where
  "hm_insert_or_assign E s d m k v = do {
     (s, m) \<leftarrow> step_rehash E REHASH_STEP_COUNT s m;
     (s, existing) \<leftarrow> hm_search E s m k;
     b \<leftarrow> counted_bool (tagged s) (fst existing);
     if b then do {
       s \<leftarrow> assign_value s (hm_hive m) existing v;
       Some (s, d, m, False, existing) }
     else do {
       (s, d, m, r) \<leftarrow> hm_emplace E s d m k v;
       s \<leftarrow> drop_ref s existing;
       Some (s, d, m, r) } }"

text \<open>\<open>operator[]\<close>: the value its reference reads.\<close>

definition hm_index :: "'k hash_env \<Rightarrow> 'v hive_store \<Rightarrow> nat \<Rightarrow> 'k hashmap \<Rightarrow> 'k \<Rightarrow> 'v \<Rightarrow>
    ('v hive_store \<times> nat \<times> 'k hashmap \<times> 'v) option" where
  "hm_index E s d m k def = do {
     (s, d, m, b, h) \<leftarrow> hm_emplace E s d m k def;
     v \<leftarrow> hive_data s (hm_hive m) h;
     s \<leftarrow> drop_ref s h;
     Some (s, d, m, v) }"

section \<open>Removal\<close>

text \<open>The slot \<open>i\<close> of one of the tables is emptied, its value removed, and the first table
  shrunk when few entries are left.\<close>

definition remove_from :: "'k hash_env \<Rightarrow> bool \<Rightarrow> 'v hive_store \<Rightarrow> nat \<Rightarrow> 'k hashmap \<Rightarrow> u64 \<Rightarrow>
    ('v hive_store \<times> nat \<times> 'k hashmap) option" where
  "remove_from E second s d m i = do {
     let t = (if second then table1 m else table0 m);
     (k, ha) \<leftarrow> raw_at (tslots t) i;
     (s, h) \<leftarrow> copy_ref s ha;
     (s, t) \<leftarrow> erase_slot s t i;
     (s, hv) \<leftarrow> hive_remove s (hm_hive m) h;
     let m = (if second then m\<lparr>table1 := t, hm_hive := hv\<rparr> else m\<lparr>table0 := t, hm_hive := hv\<rparr>);
     (s, d, m) \<leftarrow> check_shrink E s d m;
     s \<leftarrow> drop_ref s h;
     Some (s, d, m) }"

definition hm_remove :: "'k hash_env \<Rightarrow> 'v hive_store \<Rightarrow> nat \<Rightarrow> 'k hashmap \<Rightarrow> 'k \<Rightarrow>
    ('v hive_store \<times> nat \<times> 'k hashmap \<times> bool) option" where
  "hm_remove E s d m k =
     (if capacity (table0 m) = 0 then Some (s, d, m, False)
      else do {
        (s, m) \<leftarrow> step_rehash E REHASH_STEP_COUNT s m;
        s1 \<leftarrow> (if rehashing m then find_in E (table1 m) k else Some NOT_FOUND);
        if s1 \<noteq> NOT_FOUND then do {
          (s, d, m) \<leftarrow> remove_from E True s d m s1;
          Some (s, d, m, True) }
        else do {
          s0 \<leftarrow> find_in E (table0 m) k;
          if s0 \<noteq> NOT_FOUND then do {
            (s, d, m) \<leftarrow> remove_from E False s d m s0;
            Some (s, d, m, True) }
          else Some (s, d, m, False) } })"

definition erase_slot_matching_handle :: "'v hive_store \<Rightarrow> 'k hashmap \<Rightarrow> hive_handle \<Rightarrow> ('v hive_store \<times> 'k hashmap \<times> bool) option" where
  "erase_slot_matching_handle s m h = do {
     r \<leftarrow> match_handle s (table0 m) h;
     case r of
       Inl i \<Rightarrow> do { (s, t) \<leftarrow> erase_slot s (table0 m) i; Some (s, m\<lparr>table0 := t\<rparr>, True) }
     | Inr _ \<Rightarrow>
         if rehashing m then do {
           r \<leftarrow> match_handle s (table1 m) h;
           case r of
             Inl i \<Rightarrow> do { (s, t) \<leftarrow> erase_slot s (table1 m) i; Some (s, m\<lparr>table1 := t\<rparr>, True) }
           | Inr _ \<Rightarrow> Some (s, m, False) }
         else Some (s, m, False) }"

definition hm_remove_handle :: "'k hash_env \<Rightarrow> 'v hive_store \<Rightarrow> nat \<Rightarrow> 'k hashmap \<Rightarrow> hive_handle \<Rightarrow>
    ('v hive_store \<times> nat \<times> 'k hashmap) option" where
  "hm_remove_handle E s d m h = do {
     b \<leftarrow> counted_bool (tagged s) (fst h);
     if \<not> b then Some (s, d, m)
     else do {
       (s, m) \<leftarrow> step_rehash E REHASH_STEP_COUNT s m;
       (s, m, found) \<leftarrow> erase_slot_matching_handle s m h;
       if found then do {
         (s, hv) \<leftarrow> hive_remove s (hm_hive m) h;
         check_shrink E s d (m\<lparr>hm_hive := hv\<rparr>) }
       else None } }"

definition hm_inform_destruct :: "'k hash_env \<Rightarrow> 'v hive_store \<Rightarrow> nat \<Rightarrow> 'k hashmap \<Rightarrow> hive_handle \<Rightarrow>
    ('v hive_store \<times> nat \<times> 'k hashmap) option" where
  "hm_inform_destruct E s d m h = do {
     b \<leftarrow> counted_bool (tagged s) (fst h);
     if \<not> b then Some (s, d, m)
     else do {
       (s, m) \<leftarrow> step_rehash E REHASH_STEP_COUNT s m;
       (s, m, found) \<leftarrow> erase_slot_matching_handle s m h;
       if found then do {
         (s, hv) \<leftarrow> hive_inform_destruct s (hm_hive m) h;
         check_shrink E s d (m\<lparr>hm_hive := hv\<rparr>) }
       else None } }"

section \<open>Whole maps\<close>

definition clear_tables :: "'v hive_store \<Rightarrow> 'k hashmap \<Rightarrow> ('v hive_store \<times> 'k hashmap) option" where
  "clear_tables s m = do {
     (s, t0) \<leftarrow> clear_table s (table0 m);
     let m = m\<lparr>table0 := t0\<rparr>;
     if rehashing m then do {
       (s, t1) \<leftarrow> clear_table s (table1 m);
       Some (s, m\<lparr>table1 := t1\<rparr>) }
     else Some (s, m) }"

definition hm_clear :: "'v hive_store \<Rightarrow> 'k hashmap \<Rightarrow> ('v hive_store \<times> 'k hashmap) option" where
  "hm_clear s m = do {
     (s, m) \<leftarrow> clear_tables s m;
     let m = (if rehashing m then
         m\<lparr>table1 := (table1 m)\<lparr>tslots := raw_deallocate (tslots (table1 m)), ctrl := [], capacity := 0\<rparr>,
           rehashing := False, rehash_idx := 0\<rparr>
       else m);
     (s, hv) \<leftarrow> hive_clear s (hm_hive m);
     Some (s, m\<lparr>hm_hive := hv\<rparr>) }"

text \<open>The destructor: the tables are cleared, the members end after that.\<close>

definition hm_destroy :: "'v hive_store \<Rightarrow> 'k hashmap \<Rightarrow> 'v hive_store option" where
  "hm_destroy s m = do {
     (s, m) \<leftarrow> clear_tables s m;
     (s, hv) \<leftarrow> hive_clear s (hm_hive m);
     Some s }"

text \<open>Every entry of a table of another map is inserted.\<close>

definition insert_entries :: "'k hash_env \<Rightarrow> 'v hive_store \<Rightarrow> nat \<Rightarrow> 'k hashmap \<Rightarrow> 'k hash_table \<Rightarrow> hive \<Rightarrow>
    ('v hive_store \<times> nat \<times> 'k hashmap \<times> u64) option" where
  "insert_entries E s d m t hv =
     while_c (\<lambda>(s, d, m, i). i < capacity t)
       (\<lambda>(s, d, m, i). do {
          c \<leftarrow> ctrl_at t i;
          (s, d, m) \<leftarrow> (if c AND 0x80 \<noteq> 0 then do {
             (k, ha) \<leftarrow> raw_at (tslots t) i;
             v \<leftarrow> hive_data s hv ha;
             (s, d, m, b, h) \<leftarrow> hm_emplace E s d m k v;
             s \<leftarrow> drop_ref s h;
             Some (s, d, m) }
           else Some (s, d, m));
          Some (s, d, m, i + 1) })
       (s, d, m, 0)"

definition insert_all :: "'k hash_env \<Rightarrow> 'v hive_store \<Rightarrow> nat \<Rightarrow> 'k hashmap \<Rightarrow> 'k hashmap \<Rightarrow>
    ('v hive_store \<times> nat \<times> 'k hashmap) option" where
  "insert_all E s d m other = do {
     (s, d, m, i) \<leftarrow> insert_entries E s d m (table0 other) (hm_hive other);
     (s, d, m, i) \<leftarrow> (if rehashing other then insert_entries E s d m (table1 other) (hm_hive other) else Some (s, d, m, i));
     Some (s, d, m) }"

definition copy_capacity :: "u64 \<Rightarrow> u64 option" where
  "copy_capacity n = while_c (\<lambda>cap. cap * 7 < n * 8) (\<lambda>cap. Some (cap * 2)) 8"

definition hm_copy :: "'k hash_env \<Rightarrow> 'v hive_store \<Rightarrow> nat \<Rightarrow> u64 \<Rightarrow> 'k hashmap \<Rightarrow> ('v hive_store \<times> nat \<times> 'k hashmap) option" where
  "hm_copy E s d i other = do {
     (d, m) \<leftarrow> hm_new E d i;
     if hm_empty other then Some (s, d, m)
     else do {
       target_cap \<leftarrow> copy_capacity (hm_size other);
       (t, d) \<leftarrow> init_table E d (table0 m) target_cap;
       insert_all E s d (m\<lparr>table0 := t\<rparr>) other } }"

text \<open>Copy assignment from another map.\<close>

definition hm_assign :: "'k hash_env \<Rightarrow> 'v hive_store \<Rightarrow> nat \<Rightarrow> 'k hashmap \<Rightarrow> 'k hashmap \<Rightarrow> ('v hive_store \<times> nat \<times> 'k hashmap) option" where
  "hm_assign E s d m other = do {
     (s, m) \<leftarrow> hm_clear s m;
     insert_all E s d m other }"

text \<open>The move constructor gives the new map and what is left of the other.\<close>

definition hm_move :: "u64 \<Rightarrow> 'k hashmap \<Rightarrow> 'k hashmap \<times> 'k hashmap" where
  "hm_move i other =
     (let (hv, ohv) = hive_move i (hm_hive other);
          (t0, o0) = move_table (table0 other);
          (t1, o1) = move_table (table1 other) in
      (\<lparr>table0 = t0, table1 = t1, hm_hive = hv, rehashing = rehashing other, rehash_idx = rehash_idx other\<rparr>,
       \<lparr>table0 = o0, table1 = o1, hm_hive = ohv, rehashing = False, rehash_idx = 0\<rparr>))"

text \<open>Move assignment from another map; \<open>i\<close> is the new id of the hive left behind.\<close>

definition hm_move_assign :: "'v hive_store \<Rightarrow> u64 \<Rightarrow> 'k hashmap \<Rightarrow> 'k hashmap \<Rightarrow> ('v hive_store \<times> 'k hashmap \<times> 'k hashmap) option" where
  "hm_move_assign s i m other = do {
     (s, m) \<leftarrow> hm_clear s m;
     let (t0, o0) = move_table (table0 other);
     let (t1, o1) = move_table (table1 other);
     (s, hv, ohv) \<leftarrow> hive_move_assign s i (hm_hive m) (hm_hive other);
     Some (s, \<lparr>table0 = t0, table1 = t1, hm_hive = hv, rehashing = rehashing other, rehash_idx = rehash_idx other\<rparr>,
       \<lparr>table0 = o0, table1 = o1, hm_hive = ohv, rehashing = False, rehash_idx = 0\<rparr>) }"

end
