(* ===== verification/Probe.thy ===== *)
theory Probe
  imports HashTable HiveClear
begin

text \<open>
  Probing a group of eight control bytes with word operations, and the order in which
  groups are probed: the steps 1, 2, 3, ... lead to the triangular numbers, which modulo a
  power of two go through every group once.
\<close>

section \<open>Flags\<close>

lemma zero_flags_byte:
  assumes "i < 8"
  obtains c where "byte_of (zero_flags x) i = (byte_of x i - 1 - of_bool c) AND NOT (byte_of x i) AND 0x80"
    "c \<longrightarrow> (\<exists>j < i. byte_of x j = 0)"
proof -
  obtain c where c: "byte_of (x - ONES) i = byte_of x i - 1 - of_bool c" "c \<longrightarrow> (\<exists>j < i. byte_of x j = 0)"
    using byte_of_sub_ones [of i 8 x False] assms by (auto simp: ONES_ones)
  have "byte_of (zero_flags x) i = (byte_of x i - 1 - of_bool c) AND NOT (byte_of x i) AND 0x80"
    using assms c(1) byte_of_HIGHS [OF assms]
    by (simp add: zero_flags_def byte_of_and byte_of_not HIGHS_def ONES_val and.assoc)
  with c(2) that show thesis by blast
qed

lemma bit_of_byte: "bit w (8 * i + n) \<longleftrightarrow> bit (byte_of w i) n" if "n < 8"
  using that by (simp add: bit_byte_of)

lemma byte_7_bit: "bit (v AND 0x80 :: u8) n \<longleftrightarrow> n = 7 \<and> bit v 7"
  using bit_exp_iff [where 'a = "8 word", of 7 n] by (auto simp: bit_and_iff)

lemma byte_7_bit_iff: "bit (v AND 0x80 :: u8) 7 \<longleftrightarrow> v AND 0x80 \<noteq> 0"
proof
  assume "v AND 0x80 \<noteq> 0"
  then obtain n where "bit (v AND 0x80) n" using bit_word_eqI [of "v AND 0x80" 0] by auto
  then show "bit (v AND 0x80) 7" using byte_7_bit by metis
qed auto

lemma zero_flagsD:
  assumes "bit (zero_flags x) j"
  shows "j < 64" "j mod 8 = 7" "byte_of x (j div 8) = 0 \<or> byte_of x (j div 8) = 1"
proof -
  show j: "j < 64" using bit_imp_le_length [OF assms] by simp
  obtain c where c: "byte_of (zero_flags x) (j div 8) = (byte_of x (j div 8) - 1 - of_bool c) AND NOT (byte_of x (j div 8)) AND 0x80"
    by (rule zero_flags_byte [of "j div 8" x]) (use j in auto)
  have b: "bit (byte_of (zero_flags x) (j div 8)) (j mod 8)" using assms bit_of_byte [of "j mod 8" "zero_flags x" "j div 8"] by simp
  then show "j mod 8 = 7" unfolding c and.assoc [symmetric] byte_7_bit by blast
  have "byte_of (zero_flags x) (j div 8) \<noteq> 0" using b by auto
  then show "byte_of x (j div 8) = 0 \<or> byte_of x (j div 8) = 1" unfolding c flag_byte by blast
qed

lemma zero_flags_zero:
  assumes "i < 8" "byte_of x i = 0"
  shows "bit (zero_flags x) (8 * i + 7)"
proof -
  obtain c where c: "byte_of (zero_flags x) i = (byte_of x i - 1 - of_bool c) AND NOT (byte_of x i) AND 0x80"
    using zero_flags_byte [OF assms(1), of x] by blast
  have "byte_of (zero_flags x) i \<noteq> 0" unfolding c flag_byte using assms(2) by blast
  then have "bit (byte_of (zero_flags x) i) 7"
    unfolding c and.assoc [symmetric] byte_7_bit_iff .
  then show ?thesis by (simp add: bit_byte_of)
qed

lemma zero_flags_iff: "zero_flags x \<noteq> 0 \<longleftrightarrow> (\<exists>i < 8. byte_of x i = 0)"
  using HASZERO_iff [of x] by (simp add: zero_flags_def HASZERO_def HIGHS_def ONES_val)

lemma avail_bit: "bit (NOT w AND 0x8080808080808080) j \<longleftrightarrow> j < 64 \<and> j mod 8 = 7 \<and> byte_of w (j div 8) AND 0x80 = 0"
proof (cases "j < 64")
  case True
  then have i: "j div 8 < 8" by simp
  have "bit (NOT w AND 0x8080808080808080) j \<longleftrightarrow> bit (byte_of (NOT w AND 0x8080808080808080) (j div 8)) (j mod 8)"
    using bit_of_byte [of "j mod 8" _ "j div 8"] by simp
  also have "byte_of (NOT w AND 0x8080808080808080) (j div 8) = NOT (byte_of w (j div 8)) AND 0x80"
    using i byte_of_HIGHS [OF i] by (simp add: byte_of_and byte_of_not HIGHS_def ONES_val)
  also have "bit \<dots> (j mod 8) \<longleftrightarrow> j mod 8 = 7 \<and> bit (NOT (byte_of w (j div 8))) 7" by (rule byte_7_bit)
  also have "bit (NOT (byte_of w (j div 8))) 7 \<longleftrightarrow> byte_of w (j div 8) AND 0x80 = 0"
    using byte_7_bit_iff [of "byte_of w (j div 8)"] byte_7_bit [of "byte_of w (j div 8)" 7] by (simp add: bit_not_iff)
  finally show ?thesis using True by simp
next
  case False
  then show ?thesis using bit_imp_le_length [of "NOT w AND 0x8080808080808080" j] by auto
qed

section \<open>From flags to slots\<close>

lemma lowest_flag:
  fixes m :: u64
  assumes "m \<noteq> 0"
  obtains l where "unat (count_trailing_zeros_u64 m) = l" "l < 64" "bit m l" "\<And>j. j < l \<Longrightarrow> \<not> bit m j"
proof -
  note Z = ctz_eq [OF assms]
  obtain j where j: "j < 64" "bit m j" using assms bit_word_eqI [of m 0] by auto
  note D = seekD [of 0 j 64 "bit m", OF le0 j]
  show thesis by (rule that [OF Z D(3)]) (use D(4) in simp)
qed

lemma flag_slot_eq:
  assumes "unat (count_trailing_zeros_u64 m) = l" "l < 64"
  shows "flag_slot base m = base + of_nat (l div 8)"
proof -
  have "ucast (drop_bit 3 (count_trailing_zeros_u64 m)) = (of_nat (l div 8) :: u64)"
    using assms by (simp add: word_unat_eq_iff unsigned_ucast_eq unat_div drop_bit_eq_div unat_of_nat take_bit_nat_eq_self)
  then show ?thesis by (simp add: flag_slot_def)
qed

lemma match_slot_ok:
  assumes bits: "\<And>j. bit m j \<Longrightarrow> j mod 8 = 7 \<and> raw_at (tslots t) (base + of_nat (j div 8)) = Some (K (j div 8), H (j div 8))"
  shows "\<exists>x. match_slot t key base m = Some x \<and>
    (case x of Inl i \<Rightarrow> \<exists>j < 8. bit m (8 * j + 7) \<and> K j = key \<and> i = base + of_nat j
     | Inr _ \<Rightarrow> \<forall>j. bit m (8 * j + 7) \<longrightarrow> K j \<noteq> key)"
  unfolding match_slot_def
proof (rule while_ret_post [where N = 64 and k = 0 and
      R = "\<lambda>k m'. (\<forall>j. bit m' j \<longleftrightarrow> bit m j \<and> k \<le> j) \<and> (\<forall>j < k. bit m j \<longrightarrow> K (j div 8) \<noteq> key)"], goal_cases)
  case (3 k m')
  then have m': "\<And>j. bit m' j \<longleftrightarrow> bit m j \<and> k \<le> j" and old: "\<And>j. j < k \<Longrightarrow> bit m j \<Longrightarrow> K (j div 8) \<noteq> key" by auto
  obtain l where l: "unat (count_trailing_zeros_u64 m') = l" "l < 64" "bit m' l" "\<And>j. j < l \<Longrightarrow> \<not> bit m' j"
    using lowest_flag [OF 3(3)] by blast
  have r: "raw_at (tslots t) (flag_slot base m') = Some (K (l div 8), H (l div 8))" "l mod 8 = 7" "k \<le> l" "bit m l"
    using bits [of l] l(3) m' flag_slot_eq [OF l(1,2)] by auto
  have l8: "8 * (l div 8) + 7 = l" using r(2) by presburger
  show ?case
  proof (cases "K (l div 8) = key")
    case True
    then show ?thesis using r l l8 flag_slot_eq [OF l(1,2), of base] by (intro disjI2) (auto intro!: exI [of _ "l div 8"])
  next
    case False
    have "bit (m' AND (m' - 1)) j \<longleftrightarrow> bit m j \<and> Suc l \<le> j" for j
      using lowest_bit_cleared [OF l(3,4), of j] l(4) [of j] m' [of j] r(3) by (auto simp: Suc_le_eq) (metis linorder_neqE_nat)
    moreover have "K (j div 8) \<noteq> key" if "j < Suc l" "bit m j" for j
      using that old [of j] l(4) [of j] m' [of j] False by (cases "j < l") (auto simp: less_Suc_eq not_le)
    ultimately show ?thesis
      using r(1,3) False l(2) by (intro disjI1 exI [of _ "m' AND (m' - 1)"]) (auto intro!: exI [of _ "Suc l"])
  qed
next
  case (4 k m')
  then have "\<not> bit m' j" for j by simp
  moreover have "bit m' j \<longleftrightarrow> bit m j \<and> k \<le> j" for j using 4(1) by blast
  ultimately have "j < k" if "bit m j" for j using that by (meson not_le)
  then have "K (j div 8) \<noteq> key" if "bit m j" for j using that 4(1) by blast
  then show ?case by fastforce
qed auto

section \<open>The order of the groups\<close>

definition tri :: "nat \<Rightarrow> nat" where
  "tri p = p * (p + 1) div 2"

lemma tri_Suc: "tri (Suc p) = tri p + Suc p"
  by (simp add: tri_def)

lemma two_tri: "2 * tri p = p * (p + 1)"
  by (simp add: tri_def)

definition probe_at :: "nat \<Rightarrow> nat \<Rightarrow> nat \<Rightarrow> nat" where
  "probe_at G g p = (g + tri p) mod G"

lemma probe_at_simps: "probe_at G g 0 = g mod G" "probe_at G g (Suc p) = (probe_at G g p + Suc p) mod G"
  by (simp add: probe_at_def tri_def) (simp only: probe_at_def tri_Suc mod_add_left_eq add.assoc)

lemma probe_at_less: "0 < G \<Longrightarrow> probe_at G g p < G"
  by (simp add: probe_at_def)

lemma power_two_dvd_mult:
  fixes a b :: nat
  assumes "2 ^ k dvd a * b" "odd b"
  shows "2 ^ k dvd a"
proof -
  have "coprime (2 ^ k) b" using assms(2) by simp
  then show ?thesis using assms(1) by (simp add: coprime_dvd_mult_left_iff)
qed

lemma tri_distinct:
  assumes "p < q" "q < 2 ^ n"
  shows "tri p mod 2 ^ n \<noteq> tri q mod 2 ^ n"
proof
  assume "tri p mod 2 ^ n = tri q mod 2 ^ n"
  have le: "tri p \<le> tri q" using assms(1) unfolding tri_def by (intro div_le_mono mult_le_mono) simp_all
  have "2 ^ n dvd tri q - tri p" using le \<open>tri p mod 2 ^ n = tri q mod 2 ^ n\<close> by (metis mod_eq_dvd_iff_nat)
  then have d: "2 ^ Suc n dvd 2 * (tri q - tri p)" by simp
  have "2 * (tri q - tri p) = q * (q + 1) - p * (p + 1)" by (simp only: diff_mult_distrib2 two_tri)
  also have "\<dots> = (q - p) * (q + p + 1)"
  proof -
    obtain r where "q = p + r" using assms(1) less_imp_add_positive by blast
    then show ?thesis by (simp add: algebra_simps)
  qed
  finally have d: "2 ^ Suc n dvd (q - p) * (q + p + 1)" using d by simp
  have small: "q + p + 1 < 2 ^ Suc n" "q - p < 2 ^ Suc n" using assms by simp_all
  consider "odd (q + p + 1)" | "odd (q - p)" using assms(1) by (cases "even q"; cases "even p") auto
  then show False
  proof cases
    case 1
    then have "2 ^ Suc n dvd q - p" using d power_two_dvd_mult by blast
    then show False using small(2) assms(1) by (meson dvd_imp_le zero_less_diff not_le)
  next
    case 2
    then have "2 ^ Suc n dvd q + p + 1" using d power_two_dvd_mult by (metis mult.commute)
    then show False using small(1) dvd_imp_le [of "2 ^ Suc n" "q + p + 1"] by linarith
  qed
qed

lemma probe_at_inj: "inj_on (probe_at (2 ^ n) g) {..<2 ^ n}"
proof (rule linorder_inj_onI')
  fix p q assume "p \<in> {..<2 ^ n}" "q \<in> {..<(2 :: nat) ^ n}" "p < q"
  then have ne: "tri p mod 2 ^ n \<noteq> tri q mod 2 ^ n" by (intro tri_distinct) simp_all
  have le: "tri p \<le> tri q" using \<open>p < q\<close> unfolding tri_def by (intro div_le_mono mult_le_mono) simp_all
  show "probe_at (2 ^ n) g p \<noteq> probe_at (2 ^ n) g q"
  proof
    assume "probe_at (2 ^ n) g p = probe_at (2 ^ n) g q"
    then have "2 ^ n dvd (g + tri q) - (g + tri p)"
      unfolding probe_at_def using le by (metis mod_eq_dvd_iff_nat add_le_cancel_left)
    then show False using ne le by (metis diff_cancel mod_eq_dvd_iff_nat)
  qed
qed

lemma probe_at_covers:
  assumes "i < 2 ^ n"
  obtains p where "p < 2 ^ n" "probe_at (2 ^ n) g p = i"
proof -
  have "probe_at (2 ^ n) g ` {..<2 ^ n} = {..<2 ^ n}"
    by (rule endo_inj_surj) (auto simp: probe_at_inj probe_at_less)
  then have "i \<in> probe_at (2 ^ n) g ` {..<2 ^ n}" using assms by simp
  then show thesis using that by auto
qed

end
