(* ===== verification/HashTableOk.thy ===== *)
theory HashTableOk
  imports Probe HiveOps
begin

text \<open>
  The invariant of one table, and that the two searches of \<open>hashmap.hpp\<close> find what they
  should: \<open>find_slot\<close> the slot of a key, \<open>find_insert_slot\<close> a slot where a new key will be found.
\<close>

section \<open>The invariant\<close>

definition is_full :: "u8 \<Rightarrow> bool" where
  "is_full c \<longleftrightarrow> c AND 0x80 \<noteq> 0"

definition cap_of :: "'k hash_table \<Rightarrow> nat" where
  "cap_of t = unat (capacity t)"

definition elems :: "'k hash_table \<Rightarrow> nat \<Rightarrow> ('k \<times> hive_handle) option" where
  "elems t = (case tslots t of None \<Rightarrow> Map.empty | Some (n, f) \<Rightarrow> f)"

definition hash_of :: "'k hash_env \<Rightarrow> 'k hash_table \<Rightarrow> 'k \<Rightarrow> u64" where
  "hash_of E t k = hash_fn E (random_key t) k"

definition group_has_empty :: "'k hash_table \<Rightarrow> nat \<Rightarrow> bool" where
  "group_has_empty t g \<longleftrightarrow> (\<exists>i < 8. ctrl t ! (8 * g + i) = 0)"

definition group_of :: "'k hash_table \<Rightarrow> u64 \<Rightarrow> nat \<Rightarrow> nat" where
  "group_of t hash_val p = probe_at (cap_of t div 8) (unat hash_val div 128) p"

text \<open>A search for the hash gets to the group: it meets no group with an empty slot before.\<close>

definition reach :: "'k hash_table \<Rightarrow> u64 \<Rightarrow> nat \<Rightarrow> bool" where
  "reach t hash_val g \<longleftrightarrow> (\<exists>p < cap_of t div 8. group_of t hash_val p = g \<and> (\<forall>q < p. \<not> group_has_empty t (group_of t hash_val q)))"

definition table_shape :: "'k hash_table \<Rightarrow> bool" where
  "table_shape t \<longleftrightarrow> (\<exists>n. cap_of t = 8 * 2 ^ n) \<and> cap_of t < 2 ^ 60 \<and> length (ctrl t) = cap_of t \<and>
     tslots t = Some (capacity t, elems t) \<and>
     (\<forall>i. elems t i \<noteq> None \<longleftrightarrow> i < cap_of t \<and> is_full (ctrl t ! i)) \<and>
     (\<forall>i < cap_of t. is_full (ctrl t ! i) \<or> ctrl t ! i = 0 \<or> ctrl t ! i = 0x7F) \<and>
     unat (tsize t) = card (dom (elems t))"

definition table_ok :: "'k hash_env \<Rightarrow> 'k hash_table \<Rightarrow> bool" where
  "table_ok E t \<longleftrightarrow> table_shape t \<and>
     (\<forall>i k h. elems t i = Some (k, h) \<longrightarrow> ctrl t ! i = tag_byte (hash_of E t k) \<and> reach t (hash_of E t k) (i div 8)) \<and>
     (\<forall>i j k h h'. elems t i = Some (k, h) \<longrightarrow> elems t j = Some (k, h') \<longrightarrow> i = j)"

definition tombs :: "'k hash_table \<Rightarrow> nat set" where
  "tombs t = {i. i < cap_of t \<and> ctrl t ! i = 0x7F}"

definition tombs_ok :: "'k hash_table \<Rightarrow> bool" where
  "tombs_ok t \<longleftrightarrow> unat (tombstones t) = card (tombs t)"

lemma table_shapeD:
  assumes "table_shape t"
  shows "\<exists>n. cap_of t = 8 * 2 ^ n" "cap_of t < 2 ^ 60" "length (ctrl t) = cap_of t" "tslots t = Some (capacity t, elems t)"
    "elems t i \<noteq> None \<longleftrightarrow> i < cap_of t \<and> is_full (ctrl t ! i)"
    "i < cap_of t \<Longrightarrow> is_full (ctrl t ! i) \<or> ctrl t ! i = 0 \<or> ctrl t ! i = 0x7F"
    "unat (tsize t) = card (dom (elems t))"
  using assms by (simp_all add: table_shape_def)

lemma table_okD:
  assumes "table_ok E t"
  shows "table_shape t" "elems t i = Some (k, h) \<Longrightarrow> ctrl t ! i = tag_byte (hash_of E t k)"
    "elems t i = Some (k, h) \<Longrightarrow> reach t (hash_of E t k) (i div 8)"
    "elems t i = Some (k, h) \<Longrightarrow> elems t j = Some (k, h') \<Longrightarrow> i = j"
  using assms by (auto simp: table_ok_def)

lemma bit_tag_byte: "bit (tag_byte v) 7"
proof -
  have "bit (0x80 :: u8) 7" by simp
  then show ?thesis unfolding tag_byte_def bit_or_iff by blast
qed

lemma is_full_bit: "is_full c \<longleftrightarrow> bit c 7"
  using byte_7_bit_iff [of c] byte_7_bit [of c 7] by (simp add: is_full_def)

lemma is_full_simps [simp]:
  "is_full (tag_byte v)" "\<not> is_full 0" "\<not> is_full 0x7F"
  by (simp_all add: is_full_bit bit_tag_byte)

lemma full_not [simp]: "is_full c \<Longrightarrow> c \<noteq> 0" "is_full c \<Longrightarrow> c \<noteq> 0x7F" "tag_byte v \<noteq> 0" "tag_byte v \<noteq> 0x7F"
  using is_full_simps by metis+

lemma finite_elems [simp]: "table_shape t \<Longrightarrow> finite (dom (elems t))"
  using table_shapeD(5) [of t] by (intro finite_subset [of "dom (elems t)" "{..<cap_of t}"]) (simp_all add: subset_iff domIff)

lemma elems_less: "table_shape t \<Longrightarrow> elems t i = Some x \<Longrightarrow> i < cap_of t"
  using table_shapeD(5) [of t i] by auto

lemma finite_tombs [simp]: "finite (tombs t)"
  by (simp add: tombs_def)

section \<open>Words and numbers\<close>

lemma unat_and_power:
  fixes x G :: u64
  assumes "unat G = 2 ^ n"
  shows "unat (x AND (G - 1)) = unat x mod 2 ^ n"
proof -
  have "G = of_nat (unat G)" by simp
  also have "\<dots> = 2 ^ n" unfolding assms by simp
  finally have "G = 2 ^ n" .
  then have "x AND (G - 1) = take_bit n x" by (simp add: take_bit_eq_mask mask_eq_exp_minus_1)
  then have "unat (x AND (G - 1)) = take_bit n (unat x)" by (simp only: unsigned_take_bit_eq)
  then show ?thesis by (simp only: take_bit_eq_mod)
qed

lemma groups_word:
  assumes "table_shape t"
  obtains n where "cap_of t div 8 = 2 ^ n" "cap_of t = 8 * 2 ^ n" "unat (capacity t div GROUP_SIZE) = 2 ^ n" "8 * 2 ^ n < (2 :: nat) ^ 60"
  using table_shapeD(1,2) [OF assms] by (auto simp: GROUP_SIZE_def unat_div cap_of_def)

lemma byte_of_group_bytes: "i < length bs \<Longrightarrow> length bs \<le> 8 \<Longrightarrow> byte_of (word_of_bytes bs) i = bs ! i"
  by (induction bs arbitrary: i) (auto simp: byte_of_cons nth_Cons')

lemma group_word_ok:
  assumes ok: "table_shape t" and g: "g < cap_of t div 8"
  obtains w where "group_word t (of_nat g * GROUP_SIZE) = Some w" "\<And>i. i < 8 \<Longrightarrow> byte_of w i = ctrl t ! (8 * g + i)"
proof -
  have le: "8 * g + 8 \<le> cap_of t" using g by linarith
  have "of_nat g * GROUP_SIZE = (of_nat (8 * g) :: u64)" by (simp add: GROUP_SIZE_def)
  then have u: "unat (of_nat g * GROUP_SIZE :: u64) = 8 * g"
    using le table_shapeD(2) [OF ok] unat_of_nat_u64 [of "8 * g"] by simp
  show thesis
  proof (rule that)
    show "group_word t (of_nat g * GROUP_SIZE) = Some (word_of_bytes (take 8 (drop (8 * g) (ctrl t))))"
      using le table_shapeD(3) [OF ok] by (simp add: group_word_def u)
    show "byte_of (word_of_bytes (take 8 (drop (8 * g) (ctrl t)))) i = ctrl t ! (8 * g + i)" if "i < 8" for i
      using that le table_shapeD(3) [OF ok] by (simp add: byte_of_group_bytes)
  qed
qed

lemma raw_at_elems: "table_shape t \<Longrightarrow> i < cap_of t \<Longrightarrow> raw_at (tslots t) (of_nat i) = elems t i"
  using table_shapeD(2,4) [of t] by (auto simp: raw_at_def word_less_nat_alt unat_of_nat_u64 cap_of_def)

lemma xor_0_iff: "v XOR w = 0 \<longleftrightarrow> v = w" for v w :: "'a :: len word"
proof
  assume "v XOR w = 0"
  show "v = w"
  proof (rule bit_word_eqI)
    fix n
    have "\<not> bit (v XOR w) n" using \<open>v XOR w = 0\<close> by simp
    then show "bit v n = bit w n" by (simp add: bit_xor_iff)
  qed
qed simp

lemma xor_near_full: "c XOR tag_byte v = 0 \<or> c XOR tag_byte v = 1 \<Longrightarrow> is_full c"
proof -
  assume "c XOR tag_byte v = 0 \<or> c XOR tag_byte v = 1"
  then have "\<not> bit (c XOR tag_byte v) 7" by (auto simp: bit_1_iff)
  then show ?thesis using bit_tag_byte [of v] by (simp add: bit_xor_iff is_full_bit)
qed

section \<open>One group\<close>

text \<open>The word with the eight control bytes tells whether there is an empty slot, and a key
  of the group is found in it.\<close>

lemma probe_group:
  assumes ok: "table_ok E t" and g: "g < cap_of t div 8"
  obtains w x where "group_word t (of_nat g * GROUP_SIZE) = Some w" "\<forall>i < 8. byte_of w i = ctrl t ! (8 * g + i)"
    "zero_flags w \<noteq> 0 \<longleftrightarrow> group_has_empty t g"
    "match_slot t k (of_nat g * GROUP_SIZE) (zero_flags (w XOR 0x0101010101010101 * ucast (tag_byte (hash_of E t k)))) = Some x"
    "case x of Inl i \<Rightarrow> \<exists>j < 8. \<exists>h. elems t (8 * g + j) = Some (k, h) \<and> i = of_nat (8 * g + j)
       | Inr _ \<Rightarrow> \<forall>j < 8. \<forall>h. elems t (8 * g + j) \<noteq> Some (k, h)"
proof -
  note S = table_okD(1) [OF ok]
  let ?v = "hash_of E t k"
  let ?K = "\<lambda>j. fst (the (elems t (8 * g + j)))" and ?H = "\<lambda>j. snd (the (elems t (8 * g + j)))"
  obtain w where w: "group_word t (of_nat g * GROUP_SIZE) = Some w" "\<And>i. i < 8 \<Longrightarrow> byte_of w i = ctrl t ! (8 * g + i)"
    using group_word_ok [OF S g] by blast
  have e: "zero_flags w \<noteq> 0 \<longleftrightarrow> group_has_empty t g" using w(2) by (auto simp: zero_flags_iff group_has_empty_def)
  have le: "8 * g + 8 \<le> cap_of t" using g by linarith
  let ?x = "w XOR 0x0101010101010101 * ucast (tag_byte ?v)"
  have x: "byte_of ?x i = ctrl t ! (8 * g + i) XOR tag_byte ?v" if "i < 8" for i
    using that byte_of_repeat [OF that, of "tag_byte ?v"] w(2) by (simp add: byte_of_xor mult.commute)
  have base: "of_nat g * GROUP_SIZE + of_nat j = (of_nat (8 * g + j) :: u64)" for j by (simp add: GROUP_SIZE_def)
  have alive: "j mod 8 = 7 \<and> raw_at (tslots t) (of_nat g * GROUP_SIZE + of_nat (j div 8)) = Some (?K (j div 8), ?H (j div 8))"
    if "bit (zero_flags ?x) j" for j
  proof -
    note Z = zero_flagsD [OF that]
    have j: "j div 8 < 8" using Z(1) by simp
    have "is_full (ctrl t ! (8 * g + j div 8))" using Z(3) unfolding x [OF j] by (rule xor_near_full)
    then have "elems t (8 * g + j div 8) \<noteq> None" using table_shapeD(5) [OF S] le j by simp
    then show ?thesis using Z(2) raw_at_elems [OF S, of "8 * g + j div 8"] le j unfolding base by auto
  qed
  from match_slot_ok [where K = ?K and H = ?H, OF alive] obtain r where r:
      "match_slot t k (of_nat g * GROUP_SIZE) (zero_flags ?x) = Some r"
      "case r of Inl i \<Rightarrow> \<exists>j < 8. bit (zero_flags ?x) (8 * j + 7) \<and> ?K j = k \<and> i = of_nat g * GROUP_SIZE + of_nat j
        | Inr _ \<Rightarrow> \<forall>j. bit (zero_flags ?x) (8 * j + 7) \<longrightarrow> ?K j \<noteq> k" by blast
  have "case r of Inl i \<Rightarrow> \<exists>j < 8. \<exists>h. elems t (8 * g + j) = Some (k, h) \<and> i = of_nat (8 * g + j)
       | Inr _ \<Rightarrow> \<forall>j < 8. \<forall>h. elems t (8 * g + j) \<noteq> Some (k, h)"
  proof (cases r)
    case (Inl i)
    then obtain j where j: "j < 8" "bit (zero_flags ?x) (8 * j + 7)" "?K j = k" "i = of_nat (8 * g + j)"
      using r(2) unfolding base by auto
    have "(8 * j + 7) div 8 = j" by simp
    then have "elems t (8 * g + j) = Some (k, ?H j)"
      using alive [OF j(2)] raw_at_elems [OF S, of "8 * g + j"] le j(1,3) unfolding base by simp
    then show ?thesis unfolding Inl sum.case using j(1,4) by blast
  next
    case (Inr u)
    have "False" if j: "j < 8" "elems t (8 * g + j) = Some (k, h)" for j h
    proof -
      have "byte_of ?x j = 0" using table_okD(2) [OF ok j(2)] x [OF j(1)] by simp
      from zero_flags_zero [OF j(1) this] show False using r(2) Inr j(2) by auto
    qed
    then show ?thesis using Inr by auto
  qed
  with w(1) e r(1) that show thesis using w(2) by blast
qed

text \<open>The first slot of a group that is not in use.\<close>

lemma avail_slot:
  assumes ok: "table_shape t" and g: "g < cap_of t div 8" and w: "\<And>i. i < 8 \<Longrightarrow> byte_of w i = ctrl t ! (8 * g + i)"
  shows "NOT w AND 0x8080808080808080 = 0 \<Longrightarrow> i < 8 \<Longrightarrow> is_full (ctrl t ! (8 * g + i))"
    and "NOT w AND 0x8080808080808080 \<noteq> 0 \<Longrightarrow> \<exists>j < 8. flag_slot (of_nat g * GROUP_SIZE) (NOT w AND 0x8080808080808080) = of_nat (8 * g + j) \<and>
      \<not> is_full (ctrl t ! (8 * g + j))"
proof -
  let ?m = "NOT w AND 0x8080808080808080"
  show "is_full (ctrl t ! (8 * g + i))" if "?m = 0" "i < 8"
  proof -
    have "\<not> bit ?m (8 * i + 7)" unfolding that(1) by simp
    then show ?thesis using that(2) w [OF that(2)] by (simp add: avail_bit is_full_def)
  qed
  show "\<exists>j < 8. flag_slot (of_nat g * GROUP_SIZE) ?m = of_nat (8 * g + j) \<and> \<not> is_full (ctrl t ! (8 * g + j))" if nz: "?m \<noteq> 0"
  proof -
    obtain l where l: "unat (count_trailing_zeros_u64 ?m) = l" "l < 64" "bit ?m l" by (rule lowest_flag [OF nz])
    have "l div 8 < 8" using l(2) by simp
    moreover from this have "\<not> is_full (ctrl t ! (8 * g + l div 8))" using l(3) w by (simp add: avail_bit is_full_def)
    ultimately show ?thesis using flag_slot_eq [OF l(1,2)] by (intro exI [of _ "l div 8"]) (simp add: GROUP_SIZE_def)
  qed
qed

section \<open>The walk over the groups\<close>

lemma group_of_less: "table_shape t \<Longrightarrow> group_of t v p < cap_of t div 8"
  by (rule groups_word, assumption) (simp add: group_of_def probe_at_less)

lemma first_group:
  assumes "table_shape t"
  shows "drop_bit 7 v AND (capacity t div GROUP_SIZE - 1) = of_nat (group_of t v 0)"
proof -
  obtain n where n: "cap_of t div 8 = 2 ^ n" "unat (capacity t div GROUP_SIZE) = 2 ^ n" "8 * 2 ^ n < (2 :: nat) ^ 60"
    using groups_word [OF assms] by metis
  have lt: "unat (drop_bit 7 v) mod 2 ^ n < 2 ^ 64"
    using le_less_trans [OF mod_less_eq_dividend unat_less_2p64] .
  have "unat (drop_bit 7 v AND (capacity t div GROUP_SIZE - 1)) = unat (drop_bit 7 v) mod 2 ^ n"
    by (rule unat_and_power [OF n(2)])
  also have "unat (drop_bit 7 v) = unat v div 128"
    by (simp add: drop_bit_eq_div unat_div)
  finally show ?thesis
    using lt by (simp add: word_unat_eq_iff group_of_def n(1) probe_at_simps unat_of_nat_u64 drop_bit_eq_div unat_div)
qed

lemma next_group:
  assumes "table_shape t" "p < cap_of t div 8"
  shows "(of_nat (group_of t v p) + of_nat (Suc p)) AND (capacity t div GROUP_SIZE - 1) = of_nat (group_of t v (Suc p))"
proof -
  obtain n where n: "cap_of t div 8 = 2 ^ n" "unat (capacity t div GROUP_SIZE) = 2 ^ n" "8 * 2 ^ n < (2 :: nat) ^ 60"
    using groups_word [OF assms(1)] by metis
  have g: "group_of t v p < 2 ^ n" "group_of t v (Suc p) < 2 ^ n"
    using group_of_less [OF assms(1)] n(1) by metis+
  have "unat (of_nat (group_of t v p + Suc p) :: u64) = group_of t v p + Suc p"
    by (rule unat_of_nat_u64) (use g(1) assms(2) n(1,3) in simp)
  then have "unat ((of_nat (group_of t v p + Suc p) :: u64) AND (capacity t div GROUP_SIZE - 1)) = (group_of t v p + Suc p) mod 2 ^ n"
    by (simp only: unat_and_power [OF n(2)])
  also have "\<dots> = group_of t v (Suc p)" by (simp only: group_of_def probe_at_simps n(1))
  also have "\<dots> = unat (of_nat (group_of t v (Suc p)) :: u64)" using g(2) n(3) by (simp add: unat_of_nat_u64)
  finally show ?thesis by (simp only: word_unat_eq_iff of_nat_add)
qed

lemma probe_less:
  assumes "table_shape t" "p \<le> cap_of t div 8"
  shows "of_nat p < capacity t div GROUP_SIZE \<longleftrightarrow> p < cap_of t div 8"
proof -
  obtain n where n: "cap_of t div 8 = 2 ^ n" "unat (capacity t div GROUP_SIZE) = 2 ^ n" "8 * 2 ^ n < (2 :: nat) ^ 60"
    using groups_word [OF assms(1)] by metis
  then have "unat (of_nat p :: u64) = p" using assms(2) by (intro unat_of_nat_u64) simp
  then show ?thesis using n by (simp add: word_less_nat_alt)
qed

text \<open>A key that is in the table is met before any group with an empty slot.\<close>

lemma key_not_beyond:
  assumes ok: "table_ok E t" and k: "elems t i = Some (k, h)"
    and before: "\<And>q. q < p \<Longrightarrow> \<not> group_has_empty t (group_of t (hash_of E t k) q) \<and>
        (\<forall>j < 8. \<forall>h. elems t (8 * group_of t (hash_of E t k) q + j) \<noteq> Some (k, h))"
  obtains q where "q < cap_of t div 8" "p \<le> q" "group_of t (hash_of E t k) q = i div 8"
    "\<And>r. r < q \<Longrightarrow> \<not> group_has_empty t (group_of t (hash_of E t k) r)"
proof -
  obtain q where q: "q < cap_of t div 8" "group_of t (hash_of E t k) q = i div 8"
      "\<And>r. r < q \<Longrightarrow> \<not> group_has_empty t (group_of t (hash_of E t k) r)"
    using table_okD(3) [OF ok k] by (auto simp: reach_def)
  have "8 * (i div 8) + i mod 8 = i" "i mod 8 < 8" by simp_all
  then have "p \<le> q" using before [of q] q(2) k by (metis not_le)
  with q that show thesis by blast
qed

lemma of_nat_inj_cap:
  assumes "table_shape t" "i < cap_of t"
  shows "unat (of_nat i :: u64) = i" "of_nat i \<noteq> NOT_FOUND"
proof -
  show u: "unat (of_nat i :: u64) = i" using assms table_shapeD(2) [OF assms(1)] by (simp add: unat_of_nat_u64)
  have "unat NOT_FOUND = 2 ^ 64 - 1" by (simp add: NOT_FOUND_def unsigned_minus_1_eq_mask mask_eq_exp_minus_1)
  then show "of_nat i \<noteq> NOT_FOUND" using u assms(2) table_shapeD(2) [OF assms(1)] by auto
qed

lemma find_slot_ok:
  assumes ok: "table_ok E t"
  shows "\<exists>r. find_slot t k (hash_of E t k) = Some r \<and>
    ((\<exists>i h. elems t i = Some (k, h) \<and> r = of_nat i) \<or> (\<forall>i h. elems t i \<noteq> Some (k, h)) \<and> r = NOT_FOUND)"
proof -
  let ?v = "hash_of E t k" and ?G = "cap_of t div 8"
  note S = table_okD(1) [OF ok]
  define Q where "Q r \<longleftrightarrow> (\<exists>i h. elems t i = Some (k, h) \<and> r = of_nat i) \<or> (\<forall>i h. elems t i \<noteq> Some (k, h)) \<and> r = NOT_FOUND" for r :: u64
  have nz: "capacity t \<noteq> 0" using table_shapeD(1) [OF S] by (auto simp: cap_of_def)
  define R where "R p st \<longleftrightarrow> st = (of_nat p, of_nat (group_of t ?v p), of_nat (Suc p)) \<and>
      (\<forall>q < p. \<not> group_has_empty t (group_of t ?v q) \<and> (\<forall>j < 8. \<forall>h. elems t (8 * group_of t ?v q + j) \<noteq> Some (k, h)))"
    for p and st :: "u64 \<times> u64 \<times> u64"
  have "\<exists>x. while_ret (\<lambda>(probe, g, probe_step). probe < capacity t div GROUP_SIZE)
          (\<lambda>(probe, g, probe_step). do {
             ctrl8 \<leftarrow> group_word t (g * GROUP_SIZE);
             r \<leftarrow> match_slot t k (g * GROUP_SIZE) (zero_flags (ctrl8 XOR 0x0101010101010101 * ucast (tag_byte ?v)));
             Some (case r of
                 Inl i \<Rightarrow> Inl i
               | Inr _ \<Rightarrow> if zero_flags ctrl8 \<noteq> 0 then Inl NOT_FOUND
                          else Inr (probe + 1, (g + probe_step) AND (capacity t div GROUP_SIZE - 1), probe_step + 1)) })
          (0, drop_bit 7 ?v AND (capacity t div GROUP_SIZE - 1), 1) = Some x \<and>
      Q (case x of Inl i \<Rightarrow> i | Inr _ \<Rightarrow> NOT_FOUND)"
  proof (rule while_ret_post [where N = ?G and k = 0 and R = R], goal_cases)
    case 1
    show ?case by (simp add: R_def first_group [OF S])
  next
    case (3 p st)
    then have st: "st = (of_nat p, of_nat (group_of t ?v p), of_nat (Suc p))"
      and before: "\<And>q. q < p \<Longrightarrow> \<not> group_has_empty t (group_of t ?v q) \<and> (\<forall>j < 8. \<forall>h. elems t (8 * group_of t ?v q + j) \<noteq> Some (k, h))"
      and p: "p < ?G"
      using probe_less [OF S] by (auto simp: R_def)
    obtain w x where w: "group_word t (of_nat (group_of t ?v p) * GROUP_SIZE) = Some w"
        "zero_flags w \<noteq> 0 \<longleftrightarrow> group_has_empty t (group_of t ?v p)"
        "match_slot t k (of_nat (group_of t ?v p) * GROUP_SIZE) (zero_flags (w XOR 0x0101010101010101 * ucast (tag_byte ?v))) = Some x"
        "case x of Inl i \<Rightarrow> \<exists>j < 8. \<exists>h. elems t (8 * group_of t ?v p + j) = Some (k, h) \<and> i = of_nat (8 * group_of t ?v p + j)
           | Inr _ \<Rightarrow> \<forall>j < 8. \<forall>h. elems t (8 * group_of t ?v p + j) \<noteq> Some (k, h)"
      by (rule probe_group [OF ok group_of_less [OF S]])
    show ?case
    proof (cases x)
      case (Inl i)
      then have "Q i" using w(4) unfolding Q_def sum.case Inl by blast
      then show ?thesis using Inl by (simp add: st w(1,3))
    next
      case (Inr u)
      then have none: "\<forall>j < 8. \<forall>h. elems t (8 * group_of t ?v p + j) \<noteq> Some (k, h)" using w(4) by simp
      show ?thesis
      proof (cases "group_has_empty t (group_of t ?v p)")
        case True
        have "elems t i \<noteq> Some (k, h)" for i h
        proof
          assume k: "elems t i = Some (k, h)"
          obtain q where q: "q < ?G" "p \<le> q" "group_of t ?v q = i div 8" "\<And>r. r < q \<Longrightarrow> \<not> group_has_empty t (group_of t ?v r)"
            using key_not_beyond [OF ok k before] by metis
          then have "q = p" using True by (metis le_neq_implies_less)
          moreover have "8 * (i div 8) + i mod 8 = i" "i mod 8 < 8" by simp_all
          ultimately show False using none k q(3) by metis
        qed
        then have "Q NOT_FOUND" by (auto simp: Q_def)
        moreover have "zero_flags w \<noteq> 0" using True w(2) by simp
        ultimately show ?thesis using Inr by (simp add: st w(1,3))
      next
        case False
        have "R (Suc p) (of_nat (Suc p), of_nat (group_of t ?v (Suc p)), of_nat (Suc (Suc p)))"
          using before none False by (auto simp: R_def less_Suc_eq)
        then show ?thesis
          using False Inr p next_group [OF S p, of ?v] w(2)
          by (intro disjI1) (auto simp: st w(1,3) add.commute intro!: exI [of _ "Suc p"])
      qed
    qed
  next
    case (4 p st)
    then have p: "p = ?G" and before: "\<And>q. q < p \<Longrightarrow> \<not> group_has_empty t (group_of t ?v q) \<and> (\<forall>j < 8. \<forall>h. elems t (8 * group_of t ?v q + j) \<noteq> Some (k, h))"
      using probe_less [OF S, of p] by (auto simp: R_def)
    have "elems t i \<noteq> Some (k, h)" for i h
    proof
      assume "elems t i = Some (k, h)"
      from key_not_beyond [OF ok this before] p show False by (metis not_le)
    qed
    then show ?case by (auto simp: Q_def)
  qed simp
  then have "\<exists>r. find_slot t k ?v = Some r \<and> Q r"
    unfolding find_slot_def Let_def using nz by auto
  then show ?thesis unfolding Q_def .
qed

text \<open>For a key that is not in the table, \<open>find_insert_slot\<close> gives a slot that is not in use and
  that a search for the key gets to, when there is one.\<close>

lemma find_insert_slot_cases:
  assumes ok: "table_ok E t" and new: "\<And>i h. elems t i \<noteq> Some (k, h)"
  shows "(\<exists>i < cap_of t. find_insert_slot t k (hash_of E t k) = Some (of_nat i) \<and> \<not> is_full (ctrl t ! i) \<and> reach t (hash_of E t k) (i div 8)) \<or>
    find_insert_slot t k (hash_of E t k) = Some NOT_FOUND \<and> card (dom (elems t)) = cap_of t"
proof -
  let ?v = "hash_of E t k" and ?G = "cap_of t div 8"
  note S = table_okD(1) [OF ok]
  define good where "good p r \<longleftrightarrow> (\<exists>i < cap_of t. r = of_nat i \<and> \<not> is_full (ctrl t ! i) \<and> (\<exists>q < p. group_of t ?v q = i div 8))" for p and r :: u64
  define Q where "Q r \<longleftrightarrow> (\<exists>i < cap_of t. r = of_nat i \<and> \<not> is_full (ctrl t ! i) \<and> reach t ?v (i div 8)) \<or>
      r = NOT_FOUND \<and> card (dom (elems t)) = cap_of t" for r :: u64
  define R where "R p st \<longleftrightarrow> (\<exists>fa. st = (of_nat p, of_nat (group_of t ?v p), of_nat (Suc p), fa) \<and>
      (\<forall>q < p. \<not> group_has_empty t (group_of t ?v q)) \<and>
      (good p fa \<or> fa = NOT_FOUND \<and> (\<forall>q < p. \<forall>j < 8. is_full (ctrl t ! (8 * group_of t ?v q + j)))))"
    for p and st :: "u64 \<times> u64 \<times> u64 \<times> u64"
  have goodQ: "Q r" if g: "good p r" "p \<le> ?G" "\<And>q. Suc q < p \<Longrightarrow> \<not> group_has_empty t (group_of t ?v q)" for p r
  proof -
    obtain i q where i: "i < cap_of t" "r = of_nat i" "\<not> is_full (ctrl t ! i)" "q < p" "group_of t ?v q = i div 8"
      using g(1) unfolding good_def by blast
    then have "reach t ?v (i div 8)" using g(2,3) unfolding reach_def by (intro exI [of _ q]) auto
    with i show ?thesis unfolding Q_def by blast
  qed
  have "\<exists>x. while_ret (\<lambda>(probe, g, probe_step, first_avail_slot). probe < capacity t div GROUP_SIZE)
       (\<lambda>(probe, g, probe_step, first_avail_slot). do {
          ctrl8 \<leftarrow> group_word t (g * GROUP_SIZE);
          r \<leftarrow> match_slot t k (g * GROUP_SIZE) (zero_flags (ctrl8 XOR 0x0101010101010101 * ucast (tag_byte ?v)));
          Some (case r of
              Inl i \<Rightarrow> Inl i
            | Inr _ \<Rightarrow> if zero_flags ctrl8 \<noteq> 0
                then Inl (if NOT ctrl8 AND 0x8080808080808080 \<noteq> 0 \<and> first_avail_slot = NOT_FOUND
                  then flag_slot (g * GROUP_SIZE) (NOT ctrl8 AND 0x8080808080808080) else first_avail_slot)
                else Inr (probe + 1, (g + probe_step) AND (capacity t div GROUP_SIZE - 1), probe_step + 1,
                  if NOT ctrl8 AND 0x8080808080808080 \<noteq> 0 \<and> first_avail_slot = NOT_FOUND
                  then flag_slot (g * GROUP_SIZE) (NOT ctrl8 AND 0x8080808080808080) else first_avail_slot)) })
       (0, drop_bit 7 ?v AND (capacity t div GROUP_SIZE - 1), 1, NOT_FOUND) = Some x \<and>
      Q (case x of Inl i \<Rightarrow> i | Inr (_, _, _, first_avail_slot) \<Rightarrow> first_avail_slot)"
  proof (rule while_ret_post [where N = ?G and k = 0 and R = R], goal_cases)
    case 1
    show ?case by (simp add: R_def first_group [OF S])
  next
    case (3 p st)
    then obtain fa where st: "st = (of_nat p, of_nat (group_of t ?v p), of_nat (Suc p), fa)"
      and before: "\<And>q. q < p \<Longrightarrow> \<not> group_has_empty t (group_of t ?v q)"
      and fa: "good p fa \<or> fa = NOT_FOUND \<and> (\<forall>q < p. \<forall>j < 8. is_full (ctrl t ! (8 * group_of t ?v q + j)))"
      and p: "p < ?G"
      using probe_less [OF S] by (auto simp: R_def)
    let ?g = "group_of t ?v p"
    have g: "?g < ?G" by (rule group_of_less [OF S])
    obtain w x where w: "group_word t (of_nat ?g * GROUP_SIZE) = Some w" "\<forall>i < 8. byte_of w i = ctrl t ! (8 * ?g + i)"
        "zero_flags w \<noteq> 0 \<longleftrightarrow> group_has_empty t ?g"
        "match_slot t k (of_nat ?g * GROUP_SIZE) (zero_flags (w XOR 0x0101010101010101 * ucast (tag_byte ?v))) = Some x"
        "case x of Inl i \<Rightarrow> \<exists>j < 8. \<exists>h. elems t (8 * ?g + j) = Some (k, h) \<and> i = of_nat (8 * ?g + j)
           | Inr _ \<Rightarrow> \<forall>j < 8. \<forall>h. elems t (8 * ?g + j) \<noteq> Some (k, h)"
      by (rule probe_group [OF ok g])
    obtain u where x: "x = Inr u" using w(5) new by (cases x) auto
    let ?m = "NOT w AND 0x8080808080808080"
    define fa' where "fa' = (if ?m \<noteq> 0 \<and> fa = NOT_FOUND then flag_slot (of_nat ?g * GROUP_SIZE) ?m else fa)"
    have bytes: "byte_of w i = ctrl t ! (8 * ?g + i)" if "i < 8" for i using w(2) that by blast
    have A: "?m = 0 \<Longrightarrow> i < 8 \<Longrightarrow> is_full (ctrl t ! (8 * ?g + i))"
      "?m \<noteq> 0 \<Longrightarrow> \<exists>j < 8. flag_slot (of_nat ?g * GROUP_SIZE) ?m = of_nat (8 * ?g + j) \<and> \<not> is_full (ctrl t ! (8 * ?g + j))" for i
      using avail_slot [OF S g bytes] by blast+
    have good_mono: "good (Suc p) fa" if "good p fa" using that unfolding good_def by (metis less_SucI)
    have good_nf: "fa \<noteq> NOT_FOUND" if "good p fa" using that of_nat_inj_cap(2) [OF S] unfolding good_def by auto
    have fa': "good (Suc p) fa' \<or> fa' = NOT_FOUND \<and> ?m = 0 \<and> (\<forall>q < Suc p. \<forall>j < 8. is_full (ctrl t ! (8 * group_of t ?v q + j)))"
    proof (cases "good p fa")
      case True
      then show ?thesis using good_mono good_nf by (simp add: fa'_def)
    next
      case False
      then have nf: "fa = NOT_FOUND" "\<forall>q < p. \<forall>j < 8. is_full (ctrl t ! (8 * group_of t ?v q + j))" using fa by auto
      show ?thesis
      proof (cases "?m = 0")
        case True
        then show ?thesis using nf A(1) by (auto simp: fa'_def less_Suc_eq)
      next
        case False
        then obtain j where j: "j < 8" "flag_slot (of_nat ?g * GROUP_SIZE) ?m = of_nat (8 * ?g + j)" "\<not> is_full (ctrl t ! (8 * ?g + j))"
          using A(2) by blast
        have "8 * ?g + j < cap_of t" "(8 * ?g + j) div 8 = ?g" using g j(1) by simp_all
        then have "good (Suc p) (of_nat (8 * ?g + j))" using j(3) unfolding good_def by (metis lessI)
        then show ?thesis using False nf(1) j(2) by (simp add: fa'_def)
      qed
    qed
    show ?case
    proof (cases "group_has_empty t ?g")
      case True
      then obtain j where j: "j < 8" "ctrl t ! (8 * ?g + j) = 0" by (auto simp: group_has_empty_def)
      then have "?m \<noteq> 0" using A(1) [OF _ j(1)] by auto
      then have "good (Suc p) fa'" using fa' by blast
      then have "Q fa'" using before p by (intro goodQ [of "Suc p"]) auto
      then show ?thesis using True w(3) by (simp add: st w(1,4) x fa'_def)
    next
      case False
      have "R (Suc p) (of_nat (Suc p), of_nat (group_of t ?v (Suc p)), of_nat (Suc (Suc p)), fa')"
        using before fa' False by (auto simp: R_def less_Suc_eq)
      then show ?thesis
        using False p next_group [OF S p, of ?v] w(3)
        by (intro disjI1) (auto simp: st w(1,4) x add.commute fa'_def intro!: exI [of _ "Suc p"])
    qed
  next
    case (4 p st)
    then obtain fa where st: "p = ?G" "st = (of_nat p, of_nat (group_of t ?v p), of_nat (Suc p), fa)"
      and before: "\<And>q. q < p \<Longrightarrow> \<not> group_has_empty t (group_of t ?v q)"
      and fa: "good p fa \<or> fa = NOT_FOUND \<and> (\<forall>q < p. \<forall>j < 8. is_full (ctrl t ! (8 * group_of t ?v q + j)))"
      using probe_less [OF S, of p] by (auto simp: R_def)
    obtain n where n: "?G = 2 ^ n" "cap_of t = 8 * 2 ^ n" using groups_word [OF S] by metis
    have "Q fa"
    proof (cases "good p fa")
      case True
      then show ?thesis by (rule goodQ) (use st(1) before in auto)
    next
      case False
      then have nf: "fa = NOT_FOUND" and full: "\<And>q j. q < ?G \<Longrightarrow> j < 8 \<Longrightarrow> is_full (ctrl t ! (8 * group_of t ?v q + j))"
        using fa st(1) by blast+
      have "elems t i \<noteq> None" if i: "i < cap_of t" for i
      proof -
        have "i div 8 < 2 ^ n" using i n(2) by simp
        then obtain q where q: "q < 2 ^ n" "probe_at (2 ^ n) (unat ?v div 128) q = i div 8" by (rule probe_at_covers)
        then have "group_of t ?v q = i div 8" "q < ?G" using n(1) by (simp_all add: group_of_def)
        then have "is_full (ctrl t ! (8 * (i div 8) + i mod 8))" using full [of q "i mod 8"] by simp
        then show ?thesis using table_shapeD(5) [OF S] i by simp
      qed
      then have "dom (elems t) = {..<cap_of t}" using elems_less [OF S] by (auto simp: dom_def)
      then show ?thesis using nf by (simp add: Q_def)
    qed
    then show ?case by (simp add: st(2))
  qed simp
  then have "\<exists>r. find_insert_slot t k ?v = Some r \<and> Q r"
    unfolding find_insert_slot_def Let_def by auto
  then show ?thesis unfolding Q_def by blast
qed

lemma find_insert_slot_ok:
  assumes ok: "table_ok E t" and new: "\<And>i h. elems t i \<noteq> Some (k, h)" and room: "card (dom (elems t)) < cap_of t"
  obtains i where "find_insert_slot t k (hash_of E t k) = Some (of_nat i)" "i < cap_of t" "\<not> is_full (ctrl t ! i)"
    "reach t (hash_of E t k) (i div 8)"
  using find_insert_slot_cases [OF ok new] room that by auto

end
