(* ===== verification/HiveRefs.thy ===== *)
theory HiveRefs
  imports HiveProps HashTable
begin

text \<open>
  Hives as the hash map uses them: several hives in one store, each seen as the set of its
  slots in use and the values reached through handles, together with the references alive.
  Every operation on one hive keeps the others.
\<close>

section \<open>The view\<close>

text \<open>A hive, the handles of its slots in use, and what each handle reads.\<close>

type_synonym 'v hive_look = "hive \<times> hive_handle set \<times> (hive_handle \<Rightarrow> 'v option)"

definition slot_handles :: "(nat \<times> nat) set \<Rightarrow> hive_handle set" where
  "slot_handles U = {(Some i, k) | i k. (i, unat k) \<in> U}"

definition holds :: "'v hive_store \<Rightarrow> (nat \<Rightarrow> u64 option) \<Rightarrow> ptr list \<Rightarrow> 'v hive_look \<Rightarrow> bool" where
  "holds s own hs = (\<lambda>(h, U, D). \<exists>es fs. hive_ok s h es fs own hs \<and> hive_alone own h fs \<and>
     U = slot_handles (uses (nodes s) fs) \<and> D = hive_data s h)"

definition refs_ok :: "'v hive_store \<Rightarrow> ptr multiset \<Rightarrow> 'v hive_look list \<Rightarrow> bool" where
  "refs_ok s H vs \<longleftrightarrow> (\<exists>own hs. mset hs = H \<and> store_ok s own hs \<and> distinct (map (hive_id \<circ> fst) vs) \<and> (\<forall>v \<in> set vs. holds s own hs v))"

lemma slot_handles_iff [simp]: "(Some i, k) \<in> slot_handles U \<longleftrightarrow> (i, unat k) \<in> U" "(None, k) \<notin> slot_handles U"
  by (auto simp: slot_handles_def)

lemma slot_handles_upd:
  "slot_handles (insert (i, unat k) U) = insert (Some i, k) (slot_handles U)"
  "slot_handles (U - {(i, unat k)}) = slot_handles U - {(Some i, k)}"
  by (auto simp: slot_handles_def word_unat_eq_iff)

lemma data_eq:
  assumes "hive_ok s h es fs own hs" "hive_alone own h fs"
  shows "hive_data s h = (\<lambda>(p, k). case p of None \<Rightarrow> None | Some i \<Rightarrow> cont (nodes s) fs (i, unat k))"
  using hview_look_eq [OF assms] by (simp add: hview_look_def)

lemma data_upd:
  assumes "hive_ok s h es fs own hs" "hive_alone own h fs" "hive_ok s' h' es' fs' own' hs'" "hive_alone own' h' fs'"
    and "cont (nodes s') fs' = (cont (nodes s) fs)((i, unat k) := x)"
  shows "hive_data s' h' = (hive_data s h)((Some i, k) := x)"
  unfolding data_eq [OF assms(1,2)] data_eq [OF assms(3,4)] assms(5) handle_upd ..

text \<open>A hive is kept as long as its own chunks are.\<close>

lemma holds_frame:
  assumes v: "holds s own hs v" and st: "store_ok s' own' hs'"
    and same: "\<And>j. own j = Some (hive_id (fst v)) \<Longrightarrow> nodes s' j = nodes s j"
    and own: "\<And>j. own' j = Some (hive_id (fst v)) \<longleftrightarrow> own j = Some (hive_id (fst v))"
  shows "holds s' own' hs' v"
proof -
  obtain h U D where v_eq: "v = (h, U, D)" by (cases v)
  with v obtain es fs where H: "hive_ok s h es fs own hs" "hive_alone own h fs" "U = slot_handles (uses (nodes s) fs)" "D = hive_data s h"
    by (auto simp: holds_def)
  have fs: "own j = Some (hive_id h)" if "j \<in> set fs" for j using hive_okD(5) [OF H(1) that] .
  have "own' j = own j" if "j \<in> set fs" for j using own [of j] fs [OF that] v_eq by simp
  then have N: "hive_ok s' h es fs own' hs'" "cont (nodes s') fs = cont (nodes s) fs"
    using hive_frame [OF H(1) st] same fs v_eq by auto
  have al: "hive_alone own' h fs" using H(2) own v_eq by (auto simp: hive_alone_def)
  have "uses (nodes s') fs = uses (nodes s) fs" using same fs v_eq unfolding uses_def by (intro Sigma_cong) auto
  moreover have "hive_data s' h = hive_data s h" unfolding data_eq [OF N(1) al] data_eq [OF H(1,2)] N(2) ..
  ultimately show ?thesis using N(1) al H(3,4) unfolding v_eq holds_def prod.case by metis
qed

lemma refs_okE:
  assumes "refs_ok s H ((h, U, D) # vs)"
  obtains own hs es fs where "mset hs = H" "hive_ok s h es fs own hs" "hive_alone own h fs"
    "U = slot_handles (uses (nodes s) fs)" "D = hive_data s h" "\<forall>v \<in> set vs. holds s own hs v"
    "distinct (map (hive_id \<circ> fst) vs)" "\<forall>v \<in> set vs. hive_id (fst v) \<noteq> hive_id h"
proof -
  from assms obtain own hs where o: "mset hs = H" "store_ok s own hs" "distinct (map (hive_id \<circ> fst) ((h, U, D) # vs))"
      "\<forall>v \<in> set ((h, U, D) # vs). holds s own hs v"
    unfolding refs_ok_def by blast
  then have "holds s own hs (h, U, D)" by simp
  then obtain es fs where f: "hive_ok s h es fs own hs" "hive_alone own h fs" "U = slot_handles (uses (nodes s) fs)" "D = hive_data s h"
    unfolding holds_def by blast
  have "hive_id (fst v) \<noteq> hive_id h" if "v \<in> set vs" for v
    using o(3) that by (metis (no_types) comp_apply distinct.simps(2) fst_conv image_eqI list.set_map list.simps(9))
  moreover have "distinct (map (hive_id \<circ> fst) vs)" "\<forall>v \<in> set vs. holds s own hs v" using o(3,4) by simp_all
  ultimately show thesis using that o(1,2) f by blast
qed

lemma refs_hiveD:
  assumes "refs_ok s H ((h, U, D) # vs)"
  shows "\<exists>own hs es fs. hive_ok s h es fs own hs \<and> hive_alone own h fs \<and> U = slot_handles (uses (nodes s) fs) \<and> D = hive_data s h"
  by (rule refs_okE [OF assms]) metis

lemma refs_okI:
  assumes "mset hs = H" "hive_ok s h es fs own hs" "hive_alone own h fs"
    and "U = slot_handles (uses (nodes s) fs)" "D = hive_data s h" "\<forall>v \<in> set vs. holds s own hs v"
    and "distinct (map (hive_id \<circ> fst) vs)" "\<forall>v \<in> set vs. hive_id (fst v) \<noteq> hive_id h"
  shows "refs_ok s H ((h, U, D) # vs)"
proof -
  have "holds s own hs (h, U, D)" using assms(2-5) unfolding holds_def by blast
  moreover have "distinct (map (hive_id \<circ> fst) ((h, U, D) # vs))" using assms(7,8) by force
  ultimately show ?thesis using assms(1,6) hive_okD(1) [OF assms(2)] unfolding refs_ok_def by (intro exI [of _ own] exI [of _ hs]) auto
qed

lemma refs_ok_swap: "refs_ok s H (v # w # vs) \<longleftrightarrow> refs_ok s H (w # v # vs)"
  unfolding refs_ok_def by (simp add: conj_ac eq_commute)

section \<open>References\<close>

lemma store_ok_count:
  assumes "store_ok s own hs" "mset hs = mset hs'"
  shows "store_ok s own hs'"
proof -
  have l: "length hs = length hs'" using assms(2) by (metis size_mset)
  have "handles_of hs i = count (mset hs) (Some i)" for hs i
    by (induction hs) (auto simp: handles_of_def)
  then have "handles_of hs i = handles_of hs' i" for i using assms(2) by simp
  with l show ?thesis using assms(1) by (simp add: store_ok_def counted_ok_def)
qed

lemma counted_copy_store:
  assumes ok: "store_ok s own hs" and h: "h \<in> set hs" and len: "length hs < 2 ^ 61"
  shows "\<exists>ts. counted_copy (tagged s) h = Some (ts, h) \<and> store_ok (s\<lparr>tagged := ts\<rparr>) own (h # hs)"
proof -
  obtain ts where ts: "counted_copy (tagged s) h = Some (ts, h)" "counted_ok (ts, dom own, h # hs)"
    using counted_copy_ok [OF store_okD(1) [OF ok] h len] by blast
  have "map_option tag_id (tags ts j) = map_option tag_id (tags (tagged s) j)" for j
    using ts(1) by (auto simp: counted_copy_def tag_at_def set_word_def elim!: bind_SomeE split: if_splits)
  then have "store_ok (s\<lparr>tagged := ts\<rparr>) own (h # hs)" using ok ts(2) by (simp only: store_ok_def) simp
  then show ?thesis using ts(1) by blast
qed

lemma refs_store:
  assumes ok: "refs_ok s H vs" and st: "\<And>own hs. store_ok s own hs \<Longrightarrow> mset hs = H \<Longrightarrow> \<exists>hs'. store_ok s' own hs' \<and> mset hs' = H'"
    and n: "nodes s' = nodes s"
  shows "refs_ok s' H' vs"
proof -
  obtain own hs where O: "mset hs = H" "store_ok s own hs" "distinct (map (hive_id \<circ> fst) vs)" "\<forall>v \<in> set vs. holds s own hs v"
    using ok by (auto simp: refs_ok_def)
  then obtain hs' where "store_ok s' own hs'" "mset hs' = H'" using st by blast
  moreover have "holds s' own hs' v" if "v \<in> set vs" for v
    by (rule holds_frame [of s own hs]) (use O that n calculation in auto)
  ultimately show ?thesis using O(3) unfolding refs_ok_def by blast
qed

lemma copy_ref_ok:
  assumes ok: "refs_ok s H vs" and h: "fst ha \<in># H" and len: "size H < 2 ^ 61"
  shows "\<exists>s'. copy_ref s ha = Some (s', ha) \<and> refs_ok s' (add_mset (fst ha) H) vs"
proof -
  obtain own hs where O: "mset hs = H" "store_ok s own hs" using ok by (auto simp: refs_ok_def)
  have l: "length hs < 2 ^ 61" "fst ha \<in> set hs" using len h O(1) by (auto simp flip: size_mset)
  obtain ts where ts: "counted_copy (tagged s) (fst ha) = Some (ts, fst ha)"
    using counted_copy_store [OF O(2) l(2,1)] by blast
  have "refs_ok (s\<lparr>tagged := ts\<rparr>) (add_mset (fst ha) H) vs"
  proof (rule refs_store [OF ok])
    fix own hs assume o: "store_ok s own hs" "mset hs = H"
    have "length hs < 2 ^ 61" "fst ha \<in> set hs" using len h o(2) by (auto simp flip: size_mset)
    from counted_copy_store [OF o(1) this(2,1)] ts show "\<exists>hs'. store_ok (s\<lparr>tagged := ts\<rparr>) own hs' \<and> mset hs' = add_mset (fst ha) H"
      using o(2) by (intro exI [of _ "fst ha # hs"]) auto
  qed simp
  then show ?thesis using ts by (simp add: copy_ref_def)
qed

lemma drop_ref_ok:
  assumes ok: "refs_ok s (add_mset (fst ha) H) vs"
  shows "\<exists>s'. drop_ref s ha = Some s' \<and> refs_ok s' H vs"
proof -
  have front: "\<exists>s'. drop_handle s (fst ha) = Some s' \<and> (\<exists>hs'. store_ok s' own hs' \<and> mset hs' = H) \<and> nodes s' = nodes s"
    if "store_ok s own hs" "mset hs = add_mset (fst ha) H" for own hs
  proof -
    have "fst ha \<in># mset hs" using that(2) by simp
    then obtain xs ys where hs: "hs = xs @ fst ha # ys" by (metis set_mset_mset split_list)
    from drop_handle_ok [OF that(1) [unfolded hs]] obtain s' where
      "drop_handle s (fst ha) = Some s'" "store_ok s' own (xs @ ys)" "nodes s' = nodes s" by blast
    moreover have "mset (xs @ ys) = H" using that(2) unfolding hs by simp
    ultimately show ?thesis by blast
  qed
  obtain own hs where O: "mset hs = add_mset (fst ha) H" "store_ok s own hs" using ok by (auto simp: refs_ok_def)
  from front [OF O(2,1)] obtain s' where s': "drop_handle s (fst ha) = Some s'" "nodes s' = nodes s" by blast
  have "refs_ok s' H vs" by (rule refs_store [OF ok _ s'(2)]) (use front s'(1) in fastforce)
  then show ?thesis using s'(1) by (simp add: drop_ref_def)
qed

section \<open>Operations on one of the hives\<close>

lemma emplace_refs:
  assumes ok: "refs_ok s H ((h, U, D) # vs)" and len: "size H < 2 ^ 61"
  obtains s' h' ha where "hive_emplace s h v = Some (s', h', ha)" "ha \<notin> U" "hive_id h' = hive_id h" "fst ha \<noteq> None"
    "refs_ok s' (add_mset (fst ha) H) ((h', insert ha U, D(ha \<mapsto> v)) # vs)"
proof -
  obtain own hs es fs where O: "mset hs = H" "hive_ok s h es fs own hs" "hive_alone own h fs"
      "U = slot_handles (uses (nodes s) fs)" "D = hive_data s h" "\<forall>v \<in> set vs. holds s own hs v"
      "distinct (map (hive_id \<circ> fst) vs)" "\<forall>v \<in> set vs. hive_id (fst v) \<noteq> hive_id h"
    by (rule refs_okE [OF ok])
  have "length hs < 2 ^ 61" using len O(1) by (simp flip: size_mset)
  from hive_emplace_ok [OF O(2) this] obtain s' h' i k es' fs' where E: "hive_emplace s h v = Some (s', h', (Some i, k))"
      "hive_ok s' h' es' fs' (own(i \<mapsto> hive_id h)) (Some i # hs)" "adds_slot s s' fs fs' i k" "i \<notin> set fs \<longrightarrow> own i = None"
      "cont (nodes s') fs' = (cont (nodes s) fs)((i, unat k) \<mapsto> v)" "hive_id h' = hive_id h" by blast
  note al = alone_adds [OF O(3) E(3,6)]
  have i: "own i = None \<or> own i = Some (hive_id h)" using E(4) hive_okD(5) [OF O(2)] by blast
  have fs': "set fs' = insert i (set fs)" using E(3) by (auto simp: adds_slot_def)
  have "holds s' (own(i \<mapsto> hive_id h)) (Some i # hs) v" if "v \<in> set vs" for v
  proof (rule holds_frame [OF O(6) [rule_format, OF that] hive_okD(1) [OF E(2)]])
    fix j assume j: "own j = Some (hive_id (fst v))"
    then have "j \<noteq> i" "j \<notin> set fs" using i O(8) [rule_format, OF that] hive_okD(5) [OF O(2), of j] by auto
    then show "nodes s' j = nodes s j" using E(3) fs' by (auto simp: adds_slot_def)
  next
    show "(own(i \<mapsto> hive_id h)) j = Some (hive_id (fst v)) \<longleftrightarrow> own j = Some (hive_id (fst v))" for j
      using i O(8) [rule_format, OF that] by auto
  qed
  moreover have "insert (Some i, k) U = slot_handles (uses (nodes s') fs')"
    using E(3) O(4) by (simp add: adds_slot_def slot_handles_upd)
  ultimately have "refs_ok s' (add_mset (Some i) H) ((h', insert (Some i, k) U, D((Some i, k) \<mapsto> v)) # vs)"
    using O(1,5,7,8) E(2,6) al data_upd [OF O(2,3) E(2) al E(5)] by (intro refs_okI [of "Some i # hs"]) auto
  moreover have "(Some i, k) \<notin> U" using E(3) O(4) by (simp add: adds_slot_def)
  ultimately show thesis using that E(1,6) by simp
qed

text \<open>\<open>remove\<close> and \<open>inform_destruct\<close> give a slot back.\<close>

lemma drops_refs:
  assumes O: "mset hs = H" "hive_ok s h es fs own hs" "hive_alone own h fs"
      "U = slot_handles (uses (nodes s) fs)" "\<forall>v \<in> set vs. holds s own hs v"
      "distinct (map (hive_id \<circ> fst) vs)" "\<forall>v \<in> set vs. hive_id (fst v) \<noteq> hive_id h"
    and i: "i \<in> set fs"
    and R: "hive_ok s' h' es' fs' own' hs" "drops_slot s s' fs fs' own own' i k" "hive_id h' = hive_id h"
  shows "refs_ok s' H ((h', U - {(Some i, k)}, hive_data s' h') # vs)"
proof -
  note al = alone_drops [OF O(3) R(2,3)]
  have i': "own i = Some (hive_id h)" by (rule hive_okD(5) [OF O(2) i])
  have "holds s' own' hs v" if "v \<in> set vs" for v
  proof (rule holds_frame [OF O(5) [rule_format, OF that] hive_okD(1) [OF R(1)]])
    fix j assume j: "own j = Some (hive_id (fst v))"
    then have "j \<notin> set fs" using O(7) [rule_format, OF that] hive_okD(5) [OF O(2), of j] by auto
    then show "nodes s' j = nodes s j" using R(2) by (auto simp: drops_slot_def)
  next
    show "own' j = Some (hive_id (fst v)) \<longleftrightarrow> own j = Some (hive_id (fst v))" for j
      using i' O(7) [rule_format, OF that] R(2) by (auto simp: drops_slot_def split: if_splits)
  qed
  moreover have "U - {(Some i, k)} = slot_handles (uses (nodes s') fs')"
    using R(2) O(4) by (simp add: drops_slot_def slot_handles_upd)
  ultimately show ?thesis using O(1,6,7) R(1,3) al by (intro refs_okI [of hs]) auto
qed

lemma remove_refs:
  assumes ok: "refs_ok s H ((h, U, D) # vs)" and v: "D ha \<noteq> None"
  obtains s' h' where "hive_remove s h ha = Some (s', h')" "hive_id h' = hive_id h"
    "refs_ok s' H ((h', U - {ha}, D(ha := None)) # vs)"
proof -
  obtain own hs es fs where O: "mset hs = H" "hive_ok s h es fs own hs" "hive_alone own h fs"
      "U = slot_handles (uses (nodes s) fs)" "D = hive_data s h" "\<forall>v \<in> set vs. holds s own hs v"
      "distinct (map (hive_id \<circ> fst) vs)" "\<forall>v \<in> set vs. hive_id (fst v) \<noteq> hive_id h"
    by (rule refs_okE [OF ok])
  obtain i k where ha: "ha = (Some i, k)" and c: "cont (nodes s) fs (i, unat k) \<noteq> None"
    using v unfolding O(5) data_eq [OF O(2,3)] by (cases ha) (auto split: option.splits)
  have i: "i \<in> set fs" using c by (auto simp: cont_def split: if_splits)
  from hive_remove_ok [OF O(2) c] obtain s' h' es' fs' own' where R: "hive_remove s h (Some i, k) = Some (s', h')"
      "hive_ok s' h' es' fs' own' hs" "drops_slot s s' fs fs' own own' i k"
      "cont (nodes s') fs' = (cont (nodes s) fs)((i, unat k) := None)" "hive_id h' = hive_id h" by blast
  from drops_refs [OF O(1-4,6-8) i R(2,3,5)] data_upd [OF O(2,3) R(2) alone_drops [OF O(3) R(3,5)] R(4)]
  show thesis using that R(1,5) O(5) ha by simp
qed

lemma inform_refs:
  assumes ok: "refs_ok s H ((h, U, D) # vs)" and v: "ha \<in> U" "D ha = None"
  obtains s' h' where "hive_inform_destruct s h ha = Some (s', h')" "hive_id h' = hive_id h"
    "refs_ok s' H ((h', U - {ha}, D) # vs)"
proof -
  obtain own hs es fs where O: "mset hs = H" "hive_ok s h es fs own hs" "hive_alone own h fs"
      "U = slot_handles (uses (nodes s) fs)" "D = hive_data s h" "\<forall>v \<in> set vs. holds s own hs v"
      "distinct (map (hive_id \<circ> fst) vs)" "\<forall>v \<in> set vs. hive_id (fst v) \<noteq> hive_id h"
    by (rule refs_okE [OF ok])
  obtain i k where ha: "ha = (Some i, k)" and u: "(i, unat k) \<in> uses (nodes s) fs"
    using v(1) unfolding O(4) by (cases ha; cases "fst ha") auto
  have c: "cont (nodes s) fs (i, unat k) = None" using v(2) unfolding O(5) data_eq [OF O(2,3)] ha by simp
  have i: "i \<in> set fs" using u by (simp add: uses_iff)
  from hive_inform_destruct_ok [OF O(2) u c] obtain s' h' es' fs' own' where R: "hive_inform_destruct s h (Some i, k) = Some (s', h')"
      "hive_ok s' h' es' fs' own' hs" "drops_slot s s' fs fs' own own' i k"
      "cont (nodes s') fs' = cont (nodes s) fs" "hive_id h' = hive_id h" by blast
  note al = alone_drops [OF O(3) R(3,5)]
  have "hive_data s' h' = D" unfolding O(5) data_eq [OF O(2,3)] data_eq [OF R(2) al] R(4) ..
  with drops_refs [OF O(1-4,6-8) i R(2,3,5)] show thesis using that R(1,5) ha by simp
qed

section \<open>Reading\<close>

lemma data_refs: "refs_ok s H ((h, U, D) # vs) \<Longrightarrow> hive_data s h ha = D ha"
  using refs_hiveD by metis

lemma size_refs:
  assumes "refs_ok s H ((h, U, D) # vs)"
  shows "finite U" "hlen h = of_nat (card U)"
proof -
  obtain own hs es fs where O: "hive_ok s h es fs own hs" "U = slot_handles (uses (nodes s) fs)"
    using refs_hiveD [OF assms] by blast
  let ?f = "\<lambda>(i, k). (Some i, of_nat k :: u32)"
  have U: "U = ?f ` uses (nodes s) fs"
  proof (intro set_eqI iffI)
    fix x assume "x \<in> U"
    then obtain i k where "x = (Some i, k)" "(i, unat k) \<in> uses (nodes s) fs" unfolding O(2) by (auto simp: slot_handles_def)
    then show "x \<in> ?f ` uses (nodes s) fs" by (intro image_eqI [of _ _ "(i, unat k)"]) auto
  next
    fix x assume "x \<in> ?f ` uses (nodes s) fs"
    then obtain i k where "x = (Some i, of_nat k)" "(i, k) \<in> uses (nodes s) fs" by auto
    then show "x \<in> U" unfolding O(2) using use_small [OF O(1)] by simp
  qed
  have "inj_on ?f (uses (nodes s) fs)"
  proof (rule inj_onI)
    fix x y assume xy: "x \<in> uses (nodes s) fs" "y \<in> uses (nodes s) fs" "?f x = ?f y"
    then have "unat (of_nat (snd x) :: u32) = unat (of_nat (snd y) :: u32)" "fst x = fst y" by (auto simp: case_prod_beta)
    moreover have "unat (of_nat (snd x) :: u32) = snd x" "unat (of_nat (snd y) :: u32) = snd y"
      using use_small [OF O(1), of "fst x" "snd x"] use_small [OF O(1), of "fst y" "snd y"] xy(1,2) by simp_all
    ultimately show "x = y" by (simp only: prod_eq_iff)
  qed
  then have "card U = card (uses (nodes s) fs)" unfolding U by (rule card_image)
  then show "finite U" "hlen h = of_nat (card U)" using hive_okD(6) [OF O(1)] unfolding U by simp_all
qed

lemma bool_refs:
  assumes "refs_ok s H ((h, U, D) # vs)" "ha \<in> U"
  shows "counted_bool (tagged s) (fst ha) = Some True" "fst ha \<noteq> None"
proof -
  obtain own hs es fs where O: "hive_ok s h es fs own hs" "U = slot_handles (uses (nodes s) fs)"
    using refs_hiveD [OF assms(1)] by blast
  obtain i k where ha: "ha = (Some i, k)" and u: "i \<in> set fs"
    using assms(2) unfolding O(2) by (cases ha; cases "fst ha") (auto simp: uses_iff)
  then show "counted_bool (tagged s) (fst ha) = Some True" "fst ha \<noteq> None"
    using counted_bool_owned [OF hive_okD(1) [OF O(1)], of i] hive_okD(5) [OF O(1) u] by auto
qed

lemma eq_refs:
  assumes "refs_ok s H ((h, U, D) # vs)" "ha \<in> U" "hb \<in> U"
  shows "hive_handle_eq (tagged s) ha hb = Some (ha = hb)"
  using bool_refs [OF assms(1,2)] by (auto simp: hive_handle_eq_def prod_eq_iff)

end
