(* ===== verification/HashSlots.thy ===== *)
theory HashSlots
  imports HashTableOk HiveRefs
begin

text \<open>
  What taking a slot into use, leaving it and starting or clearing a whole table do to one
  table of the hash map.

  Starting a table and clearing one.
\<close>

section \<open>The entries of a table\<close>

definition tbl_entries :: "'k hash_table \<Rightarrow> ('k \<times> hive_handle) list" where
  "tbl_entries t = List.map_filter (elems t) [0..<cap_of t]"

definition tbl_map :: "'k hash_table \<Rightarrow> 'k \<Rightarrow> hive_handle option" where
  "tbl_map t = map_of (tbl_entries t)"

lemma map_filter_split:
  assumes "i < n"
  shows "List.map_filter f [0..<n] = List.map_filter f [0..<i] @ (case f i of None \<Rightarrow> [] | Some x \<Rightarrow> [x]) @ List.map_filter f [Suc i..<n]"
proof -
  have "[0..<n] = [0..<i] @ i # [Suc i..<n]"
    using assms by (metis le0 less_imp_le_nat upt_add_eq_append le_add_diff_inverse upt_conv_Cons)
  then show ?thesis by (simp only:) (simp add: List.map_filter_def split: option.split)
qed

lemma map_filter_cong: "(\<And>j. j \<in> set xs \<Longrightarrow> f j = g j) \<Longrightarrow> List.map_filter f xs = List.map_filter g xs"
  by (induction xs) (auto simp: map_filter_simps split: option.split)

lemma set_map_filter: "x \<in> set (List.map_filter f xs) \<longleftrightarrow> (\<exists>j \<in> set xs. f j = Some x)"
  by (force simp: List.map_filter_def)

lemma mset_map_filter_upd:
  assumes "i < n" "f i = None"
  shows "mset (List.map_filter (f(i \<mapsto> x)) [0..<n]) = add_mset x (mset (List.map_filter f [0..<n]))"
proof -
  have "List.map_filter (f(i \<mapsto> x)) [0..<i] = List.map_filter f [0..<i]"
    "List.map_filter (f(i \<mapsto> x)) [Suc i..<n] = List.map_filter f [Suc i..<n]" by (auto intro!: map_filter_cong)
  then show ?thesis using assms(2) by (simp add: map_filter_split [OF assms(1)])
qed

lemma length_map_filter: "length (List.map_filter f [0..<n]) = card {j. j < n \<and> f j \<noteq> None}"
proof -
  have "length (List.map_filter f [0..<n]) = length (filter (\<lambda>j. f j \<noteq> None) [0..<n])"
    by (simp add: List.map_filter_def comp_def)
  also have "\<dots> = card {j. j < n \<and> f j \<noteq> None}"
    by (subst distinct_card [symmetric]) (auto intro: arg_cong [where f = card])
  finally show ?thesis .
qed

lemma entries_length: "table_shape t \<Longrightarrow> length (tbl_entries t) = card (dom (elems t))"
  using table_shapeD(5) [of t] unfolding tbl_entries_def length_map_filter by (intro arg_cong [where f = card]) auto

lemma in_entries: "table_shape t \<Longrightarrow> x \<in> set (tbl_entries t) \<longleftrightarrow> (\<exists>i. elems t i = Some x)"
  unfolding tbl_entries_def set_map_filter set_upt by (metis elems_less atLeastLessThan_iff le0)

lemma distinct_map_filter:
  assumes "\<And>i j x y. f i = Some x \<Longrightarrow> f j = Some y \<Longrightarrow> fst x = fst y \<Longrightarrow> i = j" "distinct xs"
  shows "distinct (map fst (List.map_filter f xs))"
  using assms(2)
proof (induction xs)
  case (Cons a xs)
  have "fst x \<notin> fst ` set (List.map_filter f xs)" if "f a = Some x" for x
    using Cons.prems assms(1) [OF that] by (auto simp: set_map_filter)
  then show ?case using Cons by (auto simp: map_filter_simps split: option.split)
qed (simp add: map_filter_simps)

lemma distinct_entries:
  assumes "table_ok E t"
  shows "distinct (map fst (tbl_entries t))"
  unfolding tbl_entries_def
proof (rule distinct_map_filter)
  fix i j x y assume "elems t i = Some x" "elems t j = Some y" "fst x = fst y"
  then show "i = j" using table_okD(4) [OF assms, of i "fst x" "snd x" j "snd y"] by (simp only: prod.collapse) (metis prod.collapse)
qed simp

lemma tbl_map_eq: "table_ok E t \<Longrightarrow> tbl_map t k = Some h \<longleftrightarrow> (\<exists>i. elems t i = Some (k, h))"
  unfolding tbl_map_def map_of_eq_Some_iff [OF distinct_entries] in_entries [OF table_okD(1)] ..

lemma tbl_map_None: "table_ok E t \<Longrightarrow> tbl_map t k = None \<longleftrightarrow> (\<forall>i h. elems t i \<noteq> Some (k, h))"
  using tbl_map_eq [of E t k] by (metis not_None_eq)

text \<open>The searches in terms of the map.\<close>

lemma find_slot_map:
  assumes ok: "table_ok E t"
  shows "find_slot t k (hash_of E t k) = Some NOT_FOUND \<and> tbl_map t k = None \<or>
    (\<exists>i h. find_slot t k (hash_of E t k) = Some (of_nat i) \<and> of_nat i \<noteq> NOT_FOUND \<and> i < cap_of t \<and> elems t i = Some (k, h) \<and>
      raw_at (tslots t) (of_nat i) = Some (k, h) \<and> tbl_map t k = Some h)"
proof -
  note S = table_okD(1) [OF ok]
  have "raw_at (tslots t) (of_nat i) = Some (k, h) \<and> of_nat i \<noteq> NOT_FOUND \<and> i < cap_of t" if "elems t i = Some (k, h)" for i h
    using that raw_at_elems [OF S, of i] elems_less [OF S that] of_nat_inj_cap(2) [OF S, of i] by simp
  then show ?thesis using find_slot_ok [OF ok, of k] tbl_map_eq [OF ok, of k] tbl_map_None [OF ok, of k] by metis
qed

section \<open>One slot changes\<close>

definition upd_slot :: "'k hash_table \<Rightarrow> nat \<Rightarrow> u8 \<Rightarrow> ('k \<times> hive_handle) option \<Rightarrow> 'k hash_table" where
  "upd_slot t i c x = t\<lparr>ctrl := (ctrl t)[i := c], tslots := Some (capacity t, (elems t)(i := x))\<rparr>"

lemma upd_slot_simps [simp]:
  "capacity (upd_slot t i c x) = capacity t" "cap_of (upd_slot t i c x) = cap_of t" "random_key (upd_slot t i c x) = random_key t"
  "elems (upd_slot t i c x) = (elems t)(i := x)" "ctrl (upd_slot t i c x) = (ctrl t)[i := c]"
  "tsize (upd_slot t i c x) = tsize t" "tombstones (upd_slot t i c x) = tombstones t"
  by (simp_all add: upd_slot_def cap_of_def elems_def)

lemma counts_simps [simp]:
  "cap_of (t\<lparr>tsize := n\<rparr>) = cap_of t" "elems (t\<lparr>tsize := n\<rparr>) = elems t"
  "cap_of (t\<lparr>tombstones := n\<rparr>) = cap_of t" "elems (t\<lparr>tombstones := n\<rparr>) = elems t"
  "hash_of E (t\<lparr>tsize := n\<rparr>) = hash_of E t" "hash_of E (t\<lparr>tombstones := n\<rparr>) = hash_of E t"
  "group_of (t\<lparr>tsize := n\<rparr>) = group_of t" "group_of (t\<lparr>tombstones := n\<rparr>) = group_of t"
  "group_has_empty (t\<lparr>tsize := n\<rparr>) = group_has_empty t" "group_has_empty (t\<lparr>tombstones := n\<rparr>) = group_has_empty t"
  by (simp_all add: cap_of_def elems_def hash_of_def fun_eq_iff group_of_def group_has_empty_def)

lemma hash_of_upd [simp]: "hash_of E (upd_slot t i c x) = hash_of E t"
  by (simp add: hash_of_def fun_eq_iff)

lemma reach_mono:
  assumes "reach t v g" "cap_of t' = cap_of t" "\<And>g. group_has_empty t' g \<Longrightarrow> group_has_empty t g"
  shows "reach t' v g"
  using assms unfolding reach_def group_of_def by metis

lemma table_ok_tombs: "table_ok E (t\<lparr>tombstones := n\<rparr>) = table_ok E t"
  by (simp add: table_ok_def table_shape_def reach_def)

lemma upd_slot_ok:
  assumes ok: "table_ok E t" and i: "i < cap_of t" and c: "c = 0x7F \<or> is_full c" "is_full c \<longleftrightarrow> x \<noteq> None"
    and x: "\<And>k h. x = Some (k, h) \<Longrightarrow> c = tag_byte (hash_of E t k) \<and> reach t (hash_of E t k) (i div 8) \<and>
        (\<forall>j h'. j \<noteq> i \<longrightarrow> elems t j \<noteq> Some (k, h'))"
    and n: "unat n = card (dom ((elems t)(i := x)))"
  shows "table_ok E ((upd_slot t i c x)\<lparr>tsize := n\<rparr>)"
proof -
  note S = table_okD(1) [OF ok]
  let ?t = "(upd_slot t i c x)\<lparr>tsize := n\<rparr>"
  have c0: "c \<noteq> 0" using c(1) full_not by auto
  have l: "length (ctrl t) = cap_of t" by (rule table_shapeD(3) [OF S])
  have e: "group_has_empty t g" if "group_has_empty ?t g" for g
  proof -
    obtain j where j: "j < 8" "(ctrl t)[i := c] ! (8 * g + j) = 0" using \<open>group_has_empty ?t g\<close> by (auto simp: group_has_empty_def)
    then have "8 * g + j \<noteq> i" using c0 l i by auto
    then show ?thesis using j by (auto simp: group_has_empty_def)
  qed
  have reach: "reach t v g \<Longrightarrow> reach ?t v g" for v g by (rule reach_mono [where t = t]) (auto intro: e)
  have "table_shape ?t"
    unfolding table_shape_def
  proof (intro conjI allI impI)
    show "\<exists>n. cap_of ?t = 8 * 2 ^ n" "cap_of ?t < 2 ^ 60" "length (ctrl ?t) = cap_of ?t"
      using table_shapeD(1-3) [OF S] by simp_all
    show "tslots ?t = Some (capacity ?t, elems ?t)" by (simp add: upd_slot_def elems_def)
    show "elems ?t j \<noteq> None \<longleftrightarrow> j < cap_of ?t \<and> is_full (ctrl ?t ! j)" for j
      using table_shapeD(5) [OF S, of j] c(2) i l by (cases "j = i") simp_all
    show "is_full (ctrl ?t ! j) \<or> ctrl ?t ! j = 0 \<or> ctrl ?t ! j = 127" if "j < cap_of ?t" for j
      using that table_shapeD(6) [OF S, of j] c(1) l by (cases "j = i") auto
    show "unat (tsize ?t) = card (dom (elems ?t))" using n by simp
  qed
  moreover have "ctrl ?t ! j = tag_byte (hash_of E ?t k) \<and> reach ?t (hash_of E ?t k) (j div 8)" if "elems ?t j = Some (k, h)" for j k h
  proof (cases "j = i")
    case True
    then show ?thesis using that x [of k h] i l reach by simp
  next
    case False
    then show ?thesis using that table_okD(2,3) [OF ok, of j k h] reach by simp
  qed
  moreover have "j = j'" if "elems ?t j = Some (k, h)" "elems ?t j' = Some (k, h')" for j j' k h h'
    using that x [of k h] x [of k h'] table_okD(4) [OF ok, of j k h j' h'] by (auto simp del: split_paired_All split: if_splits)
  ultimately show ?thesis unfolding table_ok_def by blast
qed

lemma size_bound:
  assumes "table_shape t"
  shows "card (dom (elems t)) + card (tombs t) \<le> cap_of t" "card (dom (elems t)) < 2 ^ 60" "card (tombs t) < 2 ^ 60"
proof -
  have "dom (elems t) \<inter> tombs t = {}" using table_shapeD(5) [OF assms] by (auto simp: tombs_def) (metis is_full_simps(3) option.distinct(1))
  then have "card (dom (elems t)) + card (tombs t) = card (dom (elems t) \<union> tombs t)" by (simp add: card_Un_disjoint assms)
  also have "\<dots> \<le> card {..<cap_of t}"
    by (rule card_mono) (use elems_less [OF assms] in \<open>auto simp: tombs_def\<close>)
  finally show "card (dom (elems t)) + card (tombs t) \<le> cap_of t" by simp
  then show "card (dom (elems t)) < 2 ^ 60" "card (tombs t) < 2 ^ 60" using table_shapeD(2) [OF assms] by linarith+
qed

lemma unat_inc_small: "unat (n :: u64) < 2 ^ 60 \<Longrightarrow> unat (n + 1) = unat n + 1"
  by (simp add: unat_word_ariths)

lemma unat_dec_pos: "0 < unat (n :: u64) \<Longrightarrow> unat (n - 1) = unat n - 1"
  using unat_sub [of 1 n] by (simp add: word_le_nat_alt)

section \<open>A slot is taken into use\<close>

lemma fill_slot_step:
  assumes ok: "table_ok E t" and i: "i < cap_of t" "\<not> is_full (ctrl t ! i)" "reach t (hash_of E t k) (i div 8)"
    and new: "tbl_map t k = None" and s: "copy_ref s h = Some (s', h)"
  obtains t' where "fill_slot s t (of_nat i) k h (hash_of E t k) = Some (s', t')" "table_ok E t'"
    "tombstones t' - of_nat (card (tombs t')) = tombstones t - of_nat (card (tombs t))"
    "capacity t' = capacity t" "random_key t' = random_key t" "elems t' = (elems t)(i \<mapsto> (k, h))" "elems t i = None"
    "tombs t' = tombs t - {i}"
proof -
  note S = table_okD(1) [OF ok]
  let ?c = "ctrl t ! i" and ?e = "tag_byte (hash_of E t k)"
  note u = of_nat_inj_cap(1) [OF S i(1)]
  have l: "length (ctrl t) = cap_of t" by (rule table_shapeD(3) [OF S])
  have free: "elems t i = None" using table_shapeD(5) [OF S, of i] i(2) by metis
  define tm' where "tm' = (if ?c = CTRL_TOMBSTONE then tombstones t - 1 else tombstones t)"
  define t' where "t' = (upd_slot t i ?e (Some (k, h)))\<lparr>tsize := tsize t + 1, tombstones := tm'\<rparr>"
  have "fill_slot s t (of_nat i) k h (hash_of E t k) = Some (s', t')"
    using i(1) l s table_shapeD(4) [OF S] u
    by (simp add: fill_slot_def ctrl_at_def set_ctrl_def raw_construct_at_def Let_def t'_def tm'_def upd_slot_def word_less_nat_alt cap_of_def)
  moreover have "table_ok E t'"
  proof -
    have n: "unat (tsize t + 1) = card (dom ((elems t)(i \<mapsto> (k, h))))"
      using unat_inc_small [of "tsize t"] size_bound(2) [OF S] table_shapeD(7) [OF S] free finite_elems [OF S]
      by (simp add: card_insert_if domIff)
    have "table_ok E ((upd_slot t i ?e (Some (k, h)))\<lparr>tsize := tsize t + 1\<rparr>)"
      using i new n by (intro upd_slot_ok [OF ok]) (auto simp: tbl_map_None [OF ok])
    then have "table_ok E ((upd_slot t i ?e (Some (k, h)))\<lparr>tsize := tsize t + 1\<rparr>\<lparr>tombstones := tm'\<rparr>)" by (simp only: table_ok_tombs)
    then show ?thesis by (simp add: t'_def)
  qed
  moreover have tb: "tombs t' = tombs t - {i}"
    using i(1) l by (auto simp: tombs_def t'_def cap_of_def nth_list_update)
  moreover have "tombstones t' - of_nat (card (tombs t')) = tombstones t - of_nat (card (tombs t))"
  proof (cases "?c = CTRL_TOMBSTONE")
    case True
    then have "i \<in> tombs t" using i(1) by (simp add: tombs_def CTRL_TOMBSTONE_def)
    then have "card (tombs t) = Suc (card (tombs t'))" unfolding tb by (metis card_Suc_Diff1 finite_tombs)
    then show ?thesis using True by (simp add: t'_def tm'_def)
  next
    case False
    then have "i \<notin> tombs t" by (simp add: tombs_def CTRL_TOMBSTONE_def)
    then show ?thesis using False tb by (simp add: t'_def tm'_def)
  qed
  moreover have "elems t' = (elems t)(i \<mapsto> (k, h))" by (simp add: t'_def elems_def upd_slot_def)
  ultimately show thesis using that free by (simp add: t'_def)
qed

lemma tombs_ok_word:
  assumes "table_shape t"
  shows "tombs_ok t \<longleftrightarrow> tombstones t - of_nat (card (tombs t)) = 0"
proof -
  have "unat (of_nat (card (tombs t)) :: u64) = card (tombs t)" using size_bound(3) [OF assms] by (simp add: unat_of_nat_u64)
  then have "tombs_ok t \<longleftrightarrow> tombstones t = of_nat (card (tombs t))" by (simp add: tombs_ok_def word_unat_eq_iff)
  then show ?thesis by simp
qed

lemma fill_slot_ok:
  assumes ok: "table_ok E t" and tm: "tombs_ok t" and i: "i < cap_of t" "\<not> is_full (ctrl t ! i)" "reach t (hash_of E t k) (i div 8)"
    and new: "tbl_map t k = None" and s: "copy_ref s h = Some (s', h)"
  obtains t' where "fill_slot s t (of_nat i) k h (hash_of E t k) = Some (s', t')" "table_ok E t'" "tombs_ok t'"
    "capacity t' = capacity t" "random_key t' = random_key t" "elems t' = (elems t)(i \<mapsto> (k, h))" "elems t i = None"
    "card (tombs t') \<le> card (tombs t)"
proof -
  obtain t' where T: "fill_slot s t (of_nat i) k h (hash_of E t k) = Some (s', t')" "table_ok E t'"
    "tombstones t' - of_nat (card (tombs t')) = tombstones t - of_nat (card (tombs t))"
    "capacity t' = capacity t" "random_key t' = random_key t" "elems t' = (elems t)(i \<mapsto> (k, h))" "elems t i = None"
    "tombs t' = tombs t - {i}"
    by (rule fill_slot_step [OF ok i new s])
  have "tombs_ok t'" using tm T(3) tombs_ok_word [OF table_okD(1) [OF ok]] tombs_ok_word [OF table_okD(1) [OF T(2)]] by simp
  moreover have "card (tombs t') \<le> card (tombs t)" unfolding T(8) by (simp add: card_mono)
  ultimately show thesis using that T(1,2,4-7) by blast
qed

section \<open>A slot is left\<close>

lemma destroy_slot_ok:
  assumes S: "table_shape t" and e: "elems t i = Some (k, h)" and s: "drop_ref s h = Some s'"
  shows "destroy_slot s t (of_nat i) = Some (s', t\<lparr>tslots := Some (capacity t, (elems t)(i := None))\<rparr>)"
proof -
  note i = elems_less [OF S e]
  show ?thesis
    using raw_at_elems [OF S i] e s table_shapeD(4) [OF S] of_nat_inj_cap(1) [OF S i] i
    by (simp add: destroy_slot_def raw_destroy_at_def word_less_nat_alt cap_of_def)
qed

text \<open>The state after the control byte is set and the size is lowered.\<close>

lemma vacate_slot_ok:
  assumes ok: "table_ok E t" and e: "elems t i = Some (k, h)" and s: "drop_ref s h = Some s'"
  obtains t' where "(do { (s, t) \<leftarrow> destroy_slot s t (of_nat i); t \<leftarrow> set_ctrl t (of_nat i) CTRL_TOMBSTONE; Some (s, t\<lparr>tsize := tsize t - 1\<rparr>) }) = Some (s', t')"
    "table_ok E t'" "capacity t' = capacity t" "random_key t' = random_key t" "elems t' = (elems t)(i := None)"
    "tombs t' = insert i (tombs t)" "i \<notin> tombs t" "tombstones t' = tombstones t" "unat (tsize t') = unat (tsize t) - 1"
proof -
  note S = table_okD(1) [OF ok]
  note i = elems_less [OF S e]
  have l: "length (ctrl t) = cap_of t" by (rule table_shapeD(3) [OF S])
  define t' where "t' = (upd_slot t i 0x7F None)\<lparr>tsize := tsize t - 1\<rparr>"
  have pos: "0 < card (dom (elems t))" using e finite_elems [OF S] by (auto simp: card_gt_0_iff)
  have n: "unat (tsize t - 1) = unat (tsize t) - 1" using unat_dec_pos [of "tsize t"] pos table_shapeD(7) [OF S] by simp
  have "(do { (s, t) \<leftarrow> destroy_slot s t (of_nat i); t \<leftarrow> set_ctrl t (of_nat i) CTRL_TOMBSTONE; Some (s, t\<lparr>tsize := tsize t - 1\<rparr>) }) = Some (s', t')"
    using i l of_nat_inj_cap(1) [OF S i]
    by (simp add: destroy_slot_ok [OF S e s] set_ctrl_def t'_def upd_slot_def CTRL_TOMBSTONE_def)
  moreover have "table_ok E t'"
    unfolding t'_def using i e table_shapeD(7) [OF S] finite_elems [OF S] n
    by (intro upd_slot_ok [OF ok]) (auto simp: card_Diff_singleton domI)
  moreover have "tombs t' = insert i (tombs t)"
    using i l by (auto simp: tombs_def t'_def cap_of_def nth_list_update)
  moreover have "i \<notin> tombs t" using table_shapeD(5) [OF S, of i] e by (auto simp: tombs_def)
  ultimately show thesis using that n by (simp add: t'_def elems_def upd_slot_def)
qed

lemma erase_slot_ok:
  assumes ok: "table_ok E t" and e: "elems t i = Some (k, h)" and s: "drop_ref s h = Some s'"
  obtains t' where "erase_slot s t (of_nat i) = Some (s', t')" "table_ok E t'" "capacity t' = capacity t" "random_key t' = random_key t"
    "elems t' = (elems t)(i := None)" "card (tombs t') = card (tombs t) + 1" "tombs_ok t \<Longrightarrow> tombs_ok t'" "unat (tsize t') = unat (tsize t) - 1"
proof -
  obtain t1 where V: "(do { (s, t) \<leftarrow> destroy_slot s t (of_nat i); t \<leftarrow> set_ctrl t (of_nat i) CTRL_TOMBSTONE; Some (s, t\<lparr>tsize := tsize t - 1\<rparr>) }) = Some (s', t1)"
    "table_ok E t1" "capacity t1 = capacity t" "random_key t1 = random_key t" "elems t1 = (elems t)(i := None)"
    "tombs t1 = insert i (tombs t)" "i \<notin> tombs t" "tombstones t1 = tombstones t" "unat (tsize t1) = unat (tsize t) - 1"
    by (rule vacate_slot_ok [OF assms])
  define t' where "t' = t1\<lparr>tombstones := tombstones t1 + 1\<rparr>"
  have "erase_slot s t (of_nat i) = Some (s', t')"
    using V(1) by (auto simp: erase_slot_def t'_def elim!: bind_SomeE split: prod.splits)
  moreover have "table_ok E t'" using V(2) by (simp add: t'_def table_ok_tombs)
  moreover have tb: "tombs t' = insert i (tombs t)" using V(6) by (simp add: tombs_def t'_def cap_of_def)
  moreover have "tombs_ok t'" if "tombs_ok t"
    using that V(7,8) tb unat_inc_small [of "tombstones t"] size_bound(3) [OF table_okD(1) [OF ok]]
    by (simp add: tombs_ok_def t'_def)
  ultimately show thesis using that V by (simp add: t'_def elems_def)
qed

section \<open>A new table\<close>

definition env_ok :: "'k hash_env \<Rightarrow> bool" where
  "env_ok E \<longleftrightarrow> (\<forall>d. getrandom E d \<noteq> None) \<and> 16 \<le> unat (slot_bytes E)"

lemma init_table_ok:
  assumes E: "env_ok E" and cap: "unat cap = 8 * 2 ^ n" "unat (slot_bytes E) * unat cap < 2 ^ 64" and t: "tslots tbl = None"
  obtains t' where "init_table E d tbl cap = Some (t', Suc d)" "table_ok E t'" "tombs_ok t'" "capacity t' = cap" "elems t' = Map.empty" "tombs t' = {}"
proof -
  obtain key where key: "getrandom E d = Some key" using E by (auto simp: env_ok_def)
  define t' where "t' = tbl\<lparr>capacity := cap, tsize := 0, tombstones := 0, ctrl := replicate (unat cap) 0, tslots := Some (cap, Map.empty), random_key := key\<rparr>"
  have "16 * unat cap \<le> unat (slot_bytes E) * unat cap" using E by (intro mult_right_mono) (auto simp: env_ok_def)
  then have "16 * unat cap < 2 ^ 64" using cap(2) by (rule le_less_trans)
  then have small: "unat cap < 2 ^ 60" by simp
  have e: "elems t' = Map.empty" "cap_of t' = unat cap" by (simp_all add: t'_def elems_def cap_of_def)
  have "init_table E d tbl cap = Some (t', Suc d)"
    using cap(2) t key by (simp add: init_table_def raw_allocate_def refresh_random_key_def Let_def t'_def CTRL_EMPTY_def not_le)
  moreover have "table_shape t'"
    unfolding table_shape_def e using cap(1) small by (simp add: t'_def)
  then have "table_ok E t'" by (simp add: table_ok_def e)
  moreover have "tombs t' = {}" by (auto simp: tombs_def e) (simp add: t'_def)
  moreover from this have "tombs_ok t'" by (simp add: tombs_ok_def) (simp add: t'_def)
  ultimately show thesis using that e by (simp add: t'_def)
qed

section \<open>Clearing\<close>

definition refs_of :: "('k \<times> hive_handle) list \<Rightarrow> ptr multiset" where
  "refs_of es = mset (map (fst \<circ> snd) es)"

lemma refs_of_simps [simp]:
  "refs_of [] = {#}" "refs_of (x # es) = add_mset (fst (snd x)) (refs_of es)" "refs_of (es @ fs) = refs_of es + refs_of fs"
  by (simp_all add: refs_of_def)

lemma refs_of_mset: "mset es = mset fs \<Longrightarrow> refs_of es = refs_of fs"
  by (simp add: refs_of_def)

lemma size_refs_of [simp]: "size (refs_of es) = length es"
  by (simp add: refs_of_def)

definition clear_upto :: "'k hash_table \<Rightarrow> nat \<Rightarrow> 'k hash_table" where
  "clear_upto t i = t\<lparr>ctrl := map (\<lambda>(j, c). if j < i \<and> is_full c then 0 else c) (enumerate 0 (ctrl t)),
     tslots := Some (capacity t, \<lambda>j. if j < i then None else elems t j)\<rparr>"

lemma clear_upto_simps [simp]:
  "capacity (clear_upto t i) = capacity t" "random_key (clear_upto t i) = random_key t"
  "elems (clear_upto t i) j = (if j < i then None else elems t j)" "length (ctrl (clear_upto t i)) = length (ctrl t)"
  "tslots (clear_upto t i) = Some (capacity t, \<lambda>j. if j < i then None else elems t j)"
  by (simp_all add: clear_upto_def elems_def)

lemma clear_upto_nth: "j < length (ctrl t) \<Longrightarrow> ctrl (clear_upto t i) ! j = (if j < i \<and> is_full (ctrl t ! j) then 0 else ctrl t ! j)"
  by (simp add: clear_upto_def nth_enumerate_eq)

lemma clear_upto_0: "table_shape t \<Longrightarrow> clear_upto t 0 = t"
proof -
  assume S: "table_shape t"
  have "map (\<lambda>(j, c). if j < 0 \<and> is_full c then 0 else c) (enumerate 0 (ctrl t)) = ctrl t"
    by (rule nth_equalityI) (auto simp: nth_enumerate_eq)
  then show ?thesis using table_shapeD(4) [OF S] by (cases t) (simp add: clear_upto_def)
qed

lemma clear_upto_free:
  assumes S: "table_shape t" and free: "\<not> is_full (ctrl t ! i)"
  shows "clear_upto t (Suc i) = clear_upto t i"
proof -
  have "elems t i = None" using free table_shapeD(5) [OF S, of i] by metis
  then have f: "(\<lambda>j. if j < Suc i then None else elems t j) = (\<lambda>j. if j < i then None else elems t j)"
    by (auto simp: fun_eq_iff less_Suc_eq)
  have c: "map (\<lambda>(j, c). if j < Suc i \<and> is_full c then 0 else c) (enumerate 0 (ctrl t)) =
      map (\<lambda>(j, c). if j < i \<and> is_full c then 0 else c) (enumerate 0 (ctrl t))"
    by (rule nth_equalityI) (use free in \<open>auto simp: nth_enumerate_eq less_Suc_eq\<close>)
  show ?thesis unfolding clear_upto_def f c ..
qed

lemma clear_upto_full:
  assumes S: "table_shape t" and i: "i < cap_of t" "is_full (ctrl t ! i)"
  shows "(clear_upto t i)\<lparr>tslots := Some (capacity t, (\<lambda>j. if j < i then None else elems t j)(i := None)), ctrl := (ctrl (clear_upto t i))[i := 0]\<rparr> =
       clear_upto t (Suc i)"
proof -
  have l: "length (ctrl t) = cap_of t" by (rule table_shapeD(3) [OF S])
  have f: "(\<lambda>j. if j < i then None else elems t j)(i := None) = (\<lambda>j. if j < Suc i then None else elems t j)"
    by (auto simp: fun_eq_iff less_Suc_eq)
  have "(ctrl (clear_upto t i))[i := 0] = ctrl (clear_upto t (Suc i))"
    by (rule nth_equalityI) (use l i in \<open>auto simp: nth_list_update clear_upto_nth less_Suc_eq\<close>)
  then show ?thesis unfolding f by (simp add: clear_upto_def)
qed

lemma clear_slots_ok:
  assumes S: "table_shape t" and refs: "refs_ok s (refs_of (tbl_entries t) + H) vs"
  shows "\<exists>s'. clear_slots s t = Some (s', clear_upto t (cap_of t), capacity t) \<and> refs_ok s' H vs"
proof -
  define R where "R i st \<longleftrightarrow> (\<exists>s. st = (s, clear_upto t i, of_nat i :: u64) \<and>
      refs_ok s (refs_of (List.map_filter (elems t) [i..<cap_of t]) + H) vs)" for i st
  have l: "length (ctrl t) = cap_of t" by (rule table_shapeD(3) [OF S])
  have cap: "capacity t = of_nat (cap_of t)" by (simp add: cap_of_def)
  have u: "unat (of_nat i :: u64) = i" if "i \<le> cap_of t" for i
    using that table_shapeD(2) [OF S] by (simp add: unat_of_nat_u64)
  have "\<exists>st. clear_slots s t = Some st \<and> (\<exists>s'. st = (s', clear_upto t (cap_of t), capacity t) \<and> refs_ok s' H vs)"
    unfolding clear_slots_def
  proof (rule while_c_post [where N = "cap_of t" and k = 0 and R = R], goal_cases)
    case 1
    show ?case using refs by (simp add: R_def clear_upto_0 [OF S] tbl_entries_def)
  next
    case (3 i st)
    then obtain s where st: "st = (s, clear_upto t i, of_nat i)" and r: "refs_ok s (refs_of (List.map_filter (elems t) [i..<cap_of t]) + H) vs"
      and i: "i < cap_of t" using u [of i] by (auto simp: R_def word_less_nat_alt cap_of_def)
    have upt: "[i..<cap_of t] = i # [Suc i..<cap_of t]" using i by (rule upt_conv_Cons)
    have c: "ctrl_at (clear_upto t i) (of_nat i) = Some (ctrl t ! i)"
      using i l u [of i] by (simp add: ctrl_at_def clear_upto_nth)
    show ?case
    proof (cases "is_full (ctrl t ! i)")
      case True
      then obtain k h where e: "elems t i = Some (k, h)" using table_shapeD(5) [OF S, of i] i by auto
      have "refs_ok s (add_mset (fst h) (refs_of (List.map_filter (elems t) [Suc i..<cap_of t]) + H)) vs"
        using r by (simp add: upt e map_filter_simps)
      from drop_ref_ok [OF this] obtain s' where s': "drop_ref s h = Some s'" "refs_ok s' (refs_of (List.map_filter (elems t) [Suc i..<cap_of t]) + H) vs" by blast
      have "destroy_slot s (clear_upto t i) (of_nat i) = Some (s', (clear_upto t i)\<lparr>tslots := Some (capacity t, (\<lambda>j. if j < i then None else elems t j)(i := None))\<rparr>)"
        using u [of i] i e s'(1) by (simp add: destroy_slot_def raw_at_def raw_destroy_at_def word_less_nat_alt cap_of_def)
      moreover have "R (Suc i) (s', clear_upto t (Suc i), of_nat (Suc i))" using s'(2) by (simp add: R_def)
      ultimately show ?thesis
        using True i c l u [of i] clear_upto_full [OF S i True]
        by (simp add: st is_full_def set_ctrl_def CTRL_EMPTY_def add.commute) (intro exI [of _ "Suc i"], simp)
    next
      case False
      have "elems t i = None" using False table_shapeD(5) [OF S, of i] by metis
      then have "R (Suc i) (s, clear_upto t (Suc i), of_nat (Suc i))" using r by (simp add: R_def upt map_filter_simps)
      then show ?thesis
        using False i c clear_upto_free [OF S False] by (auto simp: st is_full_def add.commute intro!: exI [of _ "Suc i"])
    qed
  next
    case (4 i st)
    then have "i = cap_of t" using u [of i] by (auto simp: R_def word_less_nat_alt cap_of_def)
    then show ?case using 4(1) by (auto simp: R_def cap map_filter_simps)
  qed simp
  then show ?thesis by auto
qed

lemma clear_table_ok:
  assumes S: "table_shape t" and refs: "refs_ok s (refs_of (tbl_entries t) + H) vs"
  obtains s' t' where "clear_table s t = Some (s', t')" "refs_ok s' H vs" "capacity t' = capacity t" "random_key t' = random_key t"
    "elems t' = Map.empty" "table_shape t'" "tombs t' = tombs t" "tombstones t' = 0"
proof -
  obtain s' where C: "clear_slots s t = Some (s', clear_upto t (cap_of t), capacity t)" "refs_ok s' H vs"
    using clear_slots_ok [OF S refs] by blast
  define t' where "t' = (clear_upto t (cap_of t))\<lparr>tsize := 0, tombstones := 0\<rparr>"
  have l: "length (ctrl t) = cap_of t" by (rule table_shapeD(3) [OF S])
  have nz: "capacity t \<noteq> 0" using table_shapeD(1) [OF S] by (auto simp: cap_of_def)
  have "clear_table s t = Some (s', t')" using C(1) nz by (simp add: clear_table_def t'_def)
  moreover have "elems t' j = None" for j
    using elems_less [OF S, of j] by (cases "elems t j") (auto simp: t'_def elems_def)
  then have e: "elems t' = Map.empty" by (simp add: fun_eq_iff)
  have c: "ctrl t' ! j = (if is_full (ctrl t ! j) then 0 else ctrl t ! j)" if "j < cap_of t" for j
    using that l by (simp add: t'_def clear_upto_nth)
  have cp: "cap_of t' = cap_of t" by (simp add: t'_def cap_of_def)
  moreover have "tombs t' = tombs t" unfolding tombs_def cp using c by (auto split: if_splits)
  moreover have "table_shape t'"
    unfolding table_shape_def
  proof (intro conjI allI impI)
    show "\<exists>n. cap_of t' = 8 * 2 ^ n" "cap_of t' < 2 ^ 60" "length (ctrl t') = cap_of t'"
      using table_shapeD(1-3) [OF S] unfolding cp by (simp_all add: t'_def)
    show "tslots t' = Some (capacity t', elems t')" by (simp add: t'_def elems_def)
    show "elems t' i \<noteq> None \<longleftrightarrow> i < cap_of t' \<and> is_full (ctrl t' ! i)" for i unfolding e cp using c [of i] by simp
    show "is_full (ctrl t' ! i) \<or> ctrl t' ! i = 0 \<or> ctrl t' ! i = 127" if "i < cap_of t'" for i
      using that table_shapeD(6) [OF S, of i] c [of i] unfolding cp by auto
    show "unat (tsize t') = card (dom (elems t'))" unfolding e by (simp add: t'_def)
  qed
  moreover have "capacity t' = capacity t" "random_key t' = random_key t" "tombstones t' = 0" by (simp_all add: t'_def)
  ultimately show thesis using that C(2) e by blast
qed

end
