(* ===== verification/HashMapOk.thy ===== *)
theory HashMapOk
  imports HashMap HashSlots
begin

text \<open>
  The invariant of the hash map and the moves between its tables.  A map at rest has one
  table, filled to seven eighths at most with entries and tombstones.  A map that rehashes has
  two; the second cannot fill up before the first is empty, because every insertion moves four
  entries first: with \<open>N\<close> entries at the start, four times what the second table holds never
  passes five times the number of entries that left the first.
\<close>

section \<open>The invariant\<close>

definition hm_entries :: "'k hashmap \<Rightarrow> ('k \<times> hive_handle) list" where
  "hm_entries m = tbl_entries (table0 m) @ tbl_entries (table1 m)"

definition hm_lookup :: "'k hashmap \<Rightarrow> 'k \<Rightarrow> hive_handle option" where
  "hm_lookup m = map_of (hm_entries m)"

definition blank :: "'k hash_table \<Rightarrow> bool" where
  "blank t \<longleftrightarrow> capacity t = 0 \<and> tslots t = None"

definition load :: "'k hash_table \<Rightarrow> nat" where
  "load t = length (tbl_entries t) + card (tombs t)"

definition fits :: "'k hash_env \<Rightarrow> nat \<Rightarrow> bool" where
  "fits E n \<longleftrightarrow> unat (slot_bytes E) * n < 2 ^ 64"

definition at_rest :: "'k hash_env \<Rightarrow> 'k hash_table \<Rightarrow> bool" where
  "at_rest E t \<longleftrightarrow> table_ok E t \<and> tombs_ok t \<and> 8 * load t \<le> 7 * cap_of t \<and> fits E (cap_of t)"

definition resting :: "'k hash_env \<Rightarrow> 'k hashmap \<Rightarrow> bool" where
  "resting E m \<longleftrightarrow> \<not> rehashing m \<and> blank (table1 m) \<and> (blank (table0 m) \<or> at_rest E (table0 m))"

text \<open>\<open>x\<close> is what the bound has to spare.\<close>

definition moving :: "'k hash_env \<Rightarrow> nat \<Rightarrow> nat \<Rightarrow> 'k hashmap \<Rightarrow> bool" where
  "moving E N x m \<longleftrightarrow> rehashing m \<and> table_ok E (table0 m) \<and> table_ok E (table1 m) \<and> tombs_ok (table1 m) \<and>
     (\<forall>i < unat (rehash_idx m). elems (table0 m) i = None) \<and> rehash_idx m \<le> capacity (table0 m) \<and>
     length (tbl_entries (table0 m)) \<le> N \<and> 4 * load (table1 m) + x \<le> 5 * (N - length (tbl_entries (table0 m))) \<and>
     10 * N \<le> 7 * cap_of (table1 m) \<and> fits E (cap_of (table1 m))"

definition hm_ok :: "'k hash_env \<Rightarrow> 'k hashmap \<Rightarrow> bool" where
  "hm_ok E m \<longleftrightarrow> (resting E m \<or> (\<exists>N. moving E N 0 m)) \<and> distinct (map fst (hm_entries m))"

lemma movingD:
  assumes "moving E N x m"
  shows "rehashing m" "table_ok E (table0 m)" "table_ok E (table1 m)" "tombs_ok (table1 m)"
    "i < unat (rehash_idx m) \<Longrightarrow> elems (table0 m) i = None" "rehash_idx m \<le> capacity (table0 m)"
    "length (tbl_entries (table0 m)) \<le> N" "4 * load (table1 m) + x \<le> 5 * (N - length (tbl_entries (table0 m)))"
    "10 * N \<le> 7 * cap_of (table1 m)" "fits E (cap_of (table1 m))"
  using assms by (simp_all add: moving_def)

lemma moving_less: "moving E N x m \<Longrightarrow> y \<le> x \<Longrightarrow> moving E N y m"
  by (auto simp: moving_def)

lemma blank_entries [simp]: "blank t \<Longrightarrow> tbl_entries t = []"
  by (simp add: blank_def tbl_entries_def cap_of_def map_filter_simps)

lemma cap_pos: "table_shape t \<Longrightarrow> 8 \<le> cap_of t"
  using table_shapeD(1) [of t] by auto

lemma nonblank_cap: "table_ok E t \<Longrightarrow> capacity t \<noteq> 0"
  using cap_pos [OF table_okD(1)] by (fastforce simp: cap_of_def)

lemma size_load: "length (tbl_entries t) \<le> load t"
  by (simp add: load_def)

lemma entries_count: "table_ok E t \<Longrightarrow> length (tbl_entries t) = unat (tsize t)"
  using entries_length table_shapeD(7) table_okD(1) by metis

section \<open>Entries come and go\<close>

lemma entries_add:
  assumes "elems t' = (elems t)(i \<mapsto> x)" "elems t i = None" "i < cap_of t" "capacity t' = capacity t"
  shows "mset (tbl_entries t') = add_mset x (mset (tbl_entries t))"
  using mset_map_filter_upd [of i "cap_of t" "elems t" x] assms by (simp add: tbl_entries_def cap_of_def)

lemma entries_del:
  assumes "elems t' = (elems t)(i := None)" "elems t i = Some x" "i < cap_of t" "capacity t' = capacity t"
  shows "mset (tbl_entries t) = add_mset x (mset (tbl_entries t'))"
proof -
  have "elems t = (elems t')(i \<mapsto> x)" using assms(1,2) by auto
  then show ?thesis by (rule entries_add) (use assms in \<open>simp_all add: cap_of_def\<close>)
qed

lemma length_mset_add: "mset xs = add_mset x (mset ys) \<Longrightarrow> length xs = Suc (length ys)"
  by (metis size_add_mset size_mset)

lemma mset_imp_map_of:
  assumes "mset xs = mset ys" "distinct (map fst xs)"
  shows "map_of xs = map_of ys" "distinct (map fst ys)"
proof -
  have m: "mset (map fst xs) = mset (map fst ys)" using assms(1) by (metis mset_map)
  then show d: "distinct (map fst ys)" using assms(2) mset_eq_imp_distinct_iff by blast
  have "map_of xs k = Some v \<longleftrightarrow> map_of ys k = Some v" for k v
    using assms d map_of_eq_Some_iff [of xs] map_of_eq_Some_iff [of ys] by (metis mset_eq_setD)
  then show "map_of xs = map_of ys" by (metis not_Some_eq ext)
qed

section \<open>One entry moves\<close>

lemma transfer_ok:
  assumes t0: "table_ok E t0" and t1: "table_ok E t1" "tombs_ok t1" and e: "elems t0 i = Some (k, ha)"
    and new: "tbl_map t1 k = None" and room: "length (tbl_entries t1) < cap_of t1"
    and refs: "refs_ok s R vs" "fst ha \<in># R" "size R + 1 < 2 ^ 61"
  obtains s' t0' t1' j where "transfer E s t0 t1 (of_nat i) = Some (s', t0', t1')" "refs_ok s' R vs"
    "table_ok E (t0'\<lparr>tsize := tsize t0' - 1\<rparr>)" "capacity t0' = capacity t0" "elems t0' = (elems t0)(i := None)" "i < cap_of t0"
    "table_ok E t1'" "tombs_ok t1'" "capacity t1' = capacity t1" "elems t1' = (elems t1)(j \<mapsto> (k, ha))" "elems t1 j = None" "j < cap_of t1"
    "card (tombs t1') \<le> card (tombs t1)"
proof -
  note S0 = table_okD(1) [OF t0] and S1 = table_okD(1) [OF t1(1)]
  note i = elems_less [OF S0 e]
  obtain s1 where s1: "copy_ref s ha = Some (s1, ha)" "refs_ok s1 (add_mset (fst ha) R) vs"
    using copy_ref_ok [OF refs(1,2)] refs(3) by auto
  obtain s2 where s2: "copy_ref s1 ha = Some (s2, ha)" "refs_ok s2 (add_mset (fst ha) (add_mset (fst ha) R)) vs"
    using copy_ref_ok [OF s1(2), of ha] refs(3) by auto
  obtain s3 where s3: "drop_ref s2 ha = Some s3" "refs_ok s3 (add_mset (fst ha) R) vs" using drop_ref_ok [OF s2(2)] by blast
  obtain s4 where s4: "drop_ref s3 ha = Some s4" "refs_ok s4 R vs" using drop_ref_ok [OF s3(2)] by blast
  have new': "\<And>i h. elems t1 i \<noteq> Some (k, h)" using new tbl_map_None [OF t1(1)] by blast
  have "card (dom (elems t1)) < cap_of t1" using room entries_length [OF S1] by simp
  obtain j where j: "find_insert_slot t1 k (hash_of E t1 k) = Some (of_nat j)"
      "j < cap_of t1" "\<not> is_full (ctrl t1 ! j)" "reach t1 (hash_of E t1 k) (j div 8)"
    by (rule find_insert_slot_ok [OF t1(1) new' \<open>card (dom (elems t1)) < cap_of t1\<close>])
  obtain t1' where F: "fill_slot s1 t1 (of_nat j) k ha (hash_of E t1 k) = Some (s2, t1')" "table_ok E t1'" "tombs_ok t1'"
    "capacity t1' = capacity t1" "random_key t1' = random_key t1" "elems t1' = (elems t1)(j \<mapsto> (k, ha))" "elems t1 j = None"
    "card (tombs t1') \<le> card (tombs t1)"
    by (rule fill_slot_ok [OF t1 j(2-4) new s2(1)])
  obtain t0' where V: "(do { (s, t) \<leftarrow> destroy_slot s2 t0 (of_nat i); t \<leftarrow> set_ctrl t (of_nat i) CTRL_TOMBSTONE; Some (s, t\<lparr>tsize := tsize t - 1\<rparr>) }) = Some (s3, t0')"
    "table_ok E t0'" "capacity t0' = capacity t0" "random_key t0' = random_key t0" "elems t0' = (elems t0)(i := None)"
    "tombs t0' = insert i (tombs t0)" "i \<notin> tombs t0" "tombstones t0' = tombstones t0" "unat (tsize t0') = unat (tsize t0) - 1"
    by (rule vacate_slot_ok [OF t0 e s3(1)])
  obtain t0a t0b where D: "destroy_slot s2 t0 (of_nat i) = Some (s3, t0a)" "set_ctrl t0a (of_nat i) CTRL_TOMBSTONE = Some t0b"
      "t0' = t0b\<lparr>tsize := tsize t0b - 1\<rparr>"
    using V(1) by (auto elim!: bind_SomeE split: prod.splits)
  have "transfer E s t0 t1 (of_nat i) = Some (s4, t0b, t1')"
    using raw_at_elems [OF S0 i] e s1(1) j(1) F(1) D(1,2) s4(1) by (simp add: transfer_def hash_of_def Let_def)
  moreover have "capacity t0b = capacity t0" "elems t0b = (elems t0)(i := None)" using V(3,5) D(3) by simp_all
  ultimately show thesis using that s4(2) V(2) D(3) i F(2-4,6-8) j(2) by blast
qed

lemma tsize_simps [simp]:
  "capacity (t\<lparr>tsize := n\<rparr>) = capacity t" "tbl_entries (t\<lparr>tsize := n\<rparr>) = tbl_entries t" "tombs (t\<lparr>tsize := n\<rparr>) = tombs t"
  by (simp_all add: tbl_entries_def tombs_def)

text \<open>One round of the loop of \<open>step_rehash\<close> that moves an entry keeps the map and gains one.\<close>

lemma transfer_moving:
  assumes mv: "moving E N x m" and d: "distinct (map fst (hm_entries m))" and e: "elems (table0 m) (unat (rehash_idx m)) = Some (k, ha)"
    and refs: "refs_ok s (refs_of (hm_entries m) + H) vs" "length (hm_entries m) + size H + 1 < 2 ^ 61"
  obtains s' t0 t1 where "transfer E s (table0 m) (table1 m) (rehash_idx m) = Some (s', t0, t1)"
    "mset (tbl_entries t0 @ tbl_entries t1) = mset (hm_entries m)"
    "refs_ok s' (refs_of (hm_entries m) + H) vs"
    "moving E N (Suc x) (m\<lparr>table0 := t0\<lparr>tsize := tsize t0 - 1\<rparr>, table1 := t1, rehash_idx := rehash_idx m + 1\<rparr>)"
    "capacity t0 = capacity (table0 m)" "capacity t1 = capacity (table1 m)" "length (tbl_entries (table0 m)) = Suc (length (tbl_entries t0))"
    "load t1 \<le> Suc (load (table1 m))"
proof -
  let ?i = "unat (rehash_idx m)"
  note M = movingD [OF mv]
  note S0 = table_okD(1) [OF M(2)] and S1 = table_okD(1) [OF M(3)]
  have k0: "(k, ha) \<in> set (tbl_entries (table0 m))" using e in_entries [OF S0] by blast
  have new: "tbl_map (table1 m) k = None"
  proof -
    have "k \<notin> fst ` set (tbl_entries (table1 m))" using d k0 by (force simp: hm_entries_def)
    then show ?thesis by (simp add: tbl_map_def map_of_eq_None_iff)
  qed
  have room: "length (tbl_entries (table1 m)) < cap_of (table1 m)"
    using M(7-9) size_load [of "table1 m"] cap_pos [OF S1] by linarith
  have R: "fst ha \<in># refs_of (hm_entries m) + H" using k0 by (force simp: refs_of_def hm_entries_def)
  have sz: "size (refs_of (hm_entries m) + H) + 1 < 2 ^ 61" using refs(2) by simp
  obtain s' t0 t1 j where T: "transfer E s (table0 m) (table1 m) (of_nat ?i) = Some (s', t0, t1)" "refs_ok s' (refs_of (hm_entries m) + H) vs"
    "table_ok E (t0\<lparr>tsize := tsize t0 - 1\<rparr>)" "capacity t0 = capacity (table0 m)" "elems t0 = (elems (table0 m))(?i := None)" "?i < cap_of (table0 m)"
    "table_ok E t1" "tombs_ok t1" "capacity t1 = capacity (table1 m)" "elems t1 = (elems (table1 m))(j \<mapsto> (k, ha))" "elems (table1 m) j = None"
    "j < cap_of (table1 m)" "card (tombs t1) \<le> card (tombs (table1 m))"
    by (rule transfer_ok [OF M(2-4) e new room refs(1) R sz])
  note e0 = entries_del [OF T(5) e T(6,4)] and e1 = entries_add [OF T(10-12,9)]
  have ms: "mset (tbl_entries t0 @ tbl_entries t1) = mset (hm_entries m)" using e0 e1 by (simp add: hm_entries_def)
  note l0 = length_mset_add [OF e0] and l1 = length_mset_add [OF e1]
  have ld: "load t1 \<le> Suc (load (table1 m))" using l1 T(13) by (simp add: load_def)
  have idx: "unat (rehash_idx m + 1) = Suc ?i"
    using T(6) table_shapeD(2) [OF S0] by (simp add: unat_word_ariths)
  have "moving E N (Suc x) (m\<lparr>table0 := t0\<lparr>tsize := tsize t0 - 1\<rparr>, table1 := t1, rehash_idx := rehash_idx m + 1\<rparr>)"
    unfolding moving_def
  proof (intro conjI allI impI)
    show "elems (table0 (m\<lparr>table0 := t0\<lparr>tsize := tsize t0 - 1\<rparr>, table1 := t1, rehash_idx := rehash_idx m + 1\<rparr>)) i = None"
      if "i < unat (rehash_idx (m\<lparr>table0 := t0\<lparr>tsize := tsize t0 - 1\<rparr>, table1 := t1, rehash_idx := rehash_idx m + 1\<rparr>))" for i
      using that M(5) [of i] by (auto simp: idx T(5) less_Suc_eq)
  qed (use M T l0 l1 ld idx in \<open>auto simp: word_le_nat_alt cap_of_def\<close>)
  then show thesis using that T(1,2,4,9) ms l0 ld by simp
qed

end
