(* ===== verification/HashRehash.thy ===== *)
theory HashRehash
  imports HashMapOk
begin

text \<open>Rehashing: starting it, its steps, its end, and the two callers that start it.\<close>

section \<open>Steps\<close>

text \<open>What a rehash step keeps: the entries, the references, the hive and the capacity.\<close>

definition same_map :: "'k hashmap \<Rightarrow> 'k hashmap \<Rightarrow> bool" where
  "same_map m m' \<longleftrightarrow> mset (hm_entries m') = mset (hm_entries m) \<and> hm_hive m' = hm_hive m"

lemma same_mapD:
  assumes "same_map m m'"
  shows "mset (hm_entries m') = mset (hm_entries m)" "hm_hive m' = hm_hive m" "refs_of (hm_entries m') = refs_of (hm_entries m)"
    "length (hm_entries m') = length (hm_entries m)" "set (hm_entries m') = set (hm_entries m)"
proof -
  show m: "mset (hm_entries m') = mset (hm_entries m)" "hm_hive m' = hm_hive m" using assms by (simp_all add: same_map_def)
  show "refs_of (hm_entries m') = refs_of (hm_entries m)" by (rule refs_of_mset [OF m(1)])
  show "length (hm_entries m') = length (hm_entries m)" by (rule mset_eq_length [OF m(1)])
  show "set (hm_entries m') = set (hm_entries m)" by (rule mset_eq_setD [OF m(1)])
qed

lemma same_map_keys: "same_map m m' \<Longrightarrow> distinct (map fst (hm_entries m)) \<Longrightarrow> distinct (map fst (hm_entries m'))"
  using mset_imp_map_of(2) same_mapD(1) by metis

lemma same_map_lookup: "same_map m m' \<Longrightarrow> distinct (map fst (hm_entries m)) \<Longrightarrow> hm_lookup m' = hm_lookup m"
  unfolding hm_lookup_def by (metis mset_imp_map_of(1) same_mapD(1))

lemma same_map_refl [simp]: "same_map m m"
  by (simp add: same_map_def)

lemma same_map_trans: "same_map a b \<Longrightarrow> same_map b c \<Longrightarrow> same_map a c"
  by (simp add: same_map_def)

text \<open>A new table has at most four slots for each entry, or as many as the old one.\<close>

definition grown :: "'k hashmap \<Rightarrow> 'k hashmap \<Rightarrow> bool" where
  "grown m m' \<longleftrightarrow> unat (hm_capacity m') \<le> max (unat (hm_capacity m)) (max 8 (4 * length (hm_entries m)))"

lemma grown_same: "hm_capacity m' = hm_capacity m \<Longrightarrow> grown m m'"
  by (simp add: grown_def)

lemma grown_refl [simp]: "grown m m"
  by (simp add: grown_def)

lemma grown_trans:
  assumes "grown a b" "grown b c" "length (hm_entries b) \<le> length (hm_entries a)"
  shows "grown a c"
  using assms by (auto simp: grown_def)

definition total :: "'k hashmap \<Rightarrow> nat" where
  "total m = load (table1 m) + length (tbl_entries (table0 m))"

lemma step_entries_ok:
  assumes mv: "moving E N 0 m" and d: "distinct (map fst (hm_entries m))"
    and refs: "refs_ok s (refs_of (hm_entries m) + H) vs" "length (hm_entries m) + size H + 1 < 2 ^ 61"
  shows "\<exists>st. step_entries E n s m = Some st \<and> (\<exists>s' m' mvd x. st = (s', m', mvd) \<and> refs_ok s' (refs_of (hm_entries m) + H) vs \<and> same_map m m' \<and>
    moving E N x m' \<and> (x = unat n \<or> capacity (table0 m') \<le> rehash_idx m') \<and> total m' \<le> total m \<and>
    capacity (table1 m') = capacity (table1 m) \<and> length (tbl_entries (table0 m')) + x = length (tbl_entries (table0 m)))"
  unfolding step_entries_def
proof (rule while_c_post [where N = "cap_of (table0 m)" and k = "unat (rehash_idx m)" and
      R = "\<lambda>k st. \<exists>s' m' x. st = (s', m', of_nat x) \<and> k = unat (rehash_idx m') \<and> x \<le> unat n \<and>
        refs_ok s' (refs_of (hm_entries m) + H) vs \<and> same_map m m' \<and> moving E N x m' \<and> total m' \<le> total m \<and>
        capacity (table0 m') = capacity (table0 m) \<and> capacity (table1 m') = capacity (table1 m) \<and>
        length (tbl_entries (table0 m')) + x = length (tbl_entries (table0 m))"], goal_cases)
  case 1
  show ?case using mv refs by (intro exI [of _ s] exI [of _ m] exI [of _ 0]) auto
next
  case 2
  show ?case using movingD(6) [OF mv] by (simp add: cap_of_def word_le_nat_alt)
next
  case (3 k st)
  then obtain s1 m1 x where st: "st = (s1, m1, of_nat x)" and k: "k = unat (rehash_idx m1)" and x: "x \<le> unat n"
    and r: "refs_ok s1 (refs_of (hm_entries m) + H) vs" and sm: "same_map m m1" and mo: "moving E N x m1" and tot: "total m1 \<le> total m"
    and cap: "capacity (table0 m1) = capacity (table0 m)" "capacity (table1 m1) = capacity (table1 m)"
    and cnt: "length (tbl_entries (table0 m1)) + x = length (tbl_entries (table0 m))"
    and b: "rehash_idx m1 < capacity (table0 m1)" "of_nat x < n" by auto
  note M = movingD [OF mo]
  note S0 = table_okD(1) [OF M(2)]
  have x64: "unat (of_nat x :: u64) = x" using x by (meson le_less_trans unat_less_2p64 unat_of_nat_u64)
  then have xn: "x < unat n" using b(2) by (simp add: word_less_nat_alt)
  have i: "unat (rehash_idx m1) < cap_of (table0 m1)" using b(1) by (simp add: word_less_nat_alt cap_of_def)
  have idx: "unat (rehash_idx m1 + 1) = Suc (unat (rehash_idx m1))"
    using i table_shapeD(2) [OF S0] by (simp add: unat_word_ariths)
  have kN: "Suc k \<le> cap_of (table0 m)" using i k cap(1) by (simp add: cap_of_def)
  have c: "ctrl_at (table0 m1) (rehash_idx m1) = Some (ctrl (table0 m1) ! unat (rehash_idx m1))"
    using i table_shapeD(3) [OF S0] by (simp add: ctrl_at_def)
  show ?case
  proof (cases "is_full (ctrl (table0 m1) ! unat (rehash_idx m1))")
    case True
    then obtain key ha where e: "elems (table0 m1) (unat (rehash_idx m1)) = Some (key, ha)"
      using table_shapeD(5) [OF S0, of "unat (rehash_idx m1)"] i by auto
    note SM = same_mapD [OF sm]
    have r': "refs_ok s1 (refs_of (hm_entries m1) + H) vs" "length (hm_entries m1) + size H + 1 < 2 ^ 61"
      using r refs(2) SM(3,4) by simp_all
    obtain s' t0 t1 where T: "transfer E s1 (table0 m1) (table1 m1) (rehash_idx m1) = Some (s', t0, t1)"
      "mset (tbl_entries t0 @ tbl_entries t1) = mset (hm_entries m1)"
      "refs_ok s' (refs_of (hm_entries m1) + H) vs"
      "moving E N (Suc x) (m1\<lparr>table0 := t0\<lparr>tsize := tsize t0 - 1\<rparr>, table1 := t1, rehash_idx := rehash_idx m1 + 1\<rparr>)"
      "capacity t0 = capacity (table0 m1)" "capacity t1 = capacity (table1 m1)" "length (tbl_entries (table0 m1)) = Suc (length (tbl_entries t0))"
      "load t1 \<le> Suc (load (table1 m1))"
      by (rule transfer_moving [OF mo same_map_keys [OF sm d] e r'])
    let ?m = "m1\<lparr>table0 := t0\<lparr>tsize := tsize t0 - 1\<rparr>, table1 := t1, rehash_idx := rehash_idx m1 + 1\<rparr>"
    have "same_map m ?m" using sm T(2) by (simp add: same_map_def hm_entries_def)
    moreover have "total ?m \<le> total m" using tot T(7,8) by (simp add: total_def)
    moreover have "length (tbl_entries (table0 ?m)) + Suc x = length (tbl_entries (table0 m))" using cnt T(7) by simp
    moreover have "refs_ok s' (refs_of (hm_entries m) + H) vs" using T(3) SM(3) by simp
    moreover have "(of_nat x :: u64) + 1 = of_nat (Suc x)" by (simp add: add.commute)
    ultimately show ?thesis
      using True c T(1,4-6) cap xn idx k kN
      by (intro exI [of _ "(s', ?m, of_nat (Suc x))"] conjI exI [of _ "Suc k"] exI [of _ s'] exI [of _ ?m] exI [of _ "Suc x"])
        (simp_all add: st is_full_def)
  next
    case False
    then have free: "elems (table0 m1) (unat (rehash_idx m1)) = None" using table_shapeD(5) [OF S0] by metis
    let ?m = "m1\<lparr>rehash_idx := rehash_idx m1 + 1\<rparr>"
    have "moving E N x ?m"
      using M free idx i unfolding moving_def by (auto simp: less_Suc_eq word_le_nat_alt cap_of_def)
    moreover have "same_map m ?m" "total ?m \<le> total m" using sm tot by (simp_all add: same_map_def hm_entries_def total_def)
    ultimately show ?thesis
      using False c cap x idx k kN r cnt
      by (intro exI [of _ "(s1, ?m, of_nat x)"] conjI exI [of _ "Suc k"] exI [of _ s1] exI [of _ ?m] exI [of _ x])
        (simp_all add: st is_full_def)
  qed
next
  case (4 k st)
  then obtain s1 m1 x where st: "st = (s1, m1, of_nat x)" and x: "x \<le> unat n"
    and P: "refs_ok s1 (refs_of (hm_entries m) + H) vs" "same_map m m1" "moving E N x m1" "total m1 \<le> total m"
      "capacity (table1 m1) = capacity (table1 m)" "length (tbl_entries (table0 m1)) + x = length (tbl_entries (table0 m))"
    and b: "\<not> (rehash_idx m1 < capacity (table0 m1) \<and> of_nat x < n)" by auto
  have "unat (of_nat x :: u64) = x" using x by (meson le_less_trans unat_less_2p64 unat_of_nat_u64)
  then have "x = unat n \<or> capacity (table0 m1) \<le> rehash_idx m1" using b x by (auto simp: word_less_nat_alt not_less word_le_nat_alt)
  then show ?case using st P by blast
qed

lemma finalize_ok:
  assumes mv: "moving E N x m" and fin: "capacity (table0 m) \<le> rehash_idx m \<or> tsize (table0 m) = 0"
  obtains m' where "finalize_rehash E s m = Some (s, m')" "same_map m m'" "\<not> rehashing m'" "blank (table1 m')"
    "table_ok E (table0 m')" "tombs_ok (table0 m')" "load (table0 m') = load (table1 m)" "capacity (table0 m') = capacity (table1 m)"
    "tbl_entries (table0 m) = []" "rehash_idx m' = 0"
proof -
  note M = movingD [OF mv]
  note S0 = table_okD(1) [OF M(2)]
  have e: "tbl_entries (table0 m) = []"
  proof (cases "tsize (table0 m) = 0")
    case True
    then show ?thesis using entries_count [OF M(2)] by simp
  next
    case False
    then have "cap_of (table0 m) \<le> unat (rehash_idx m)" using fin by (simp add: word_le_nat_alt cap_of_def)
    then have "elems (table0 m) i = None" for i using M(5) [of i] elems_less [OF S0, of i] by (cases "elems (table0 m) i") auto
    then show ?thesis by (simp add: tbl_entries_def List.map_filter_def)
  qed
  then have z: "tsize (table0 m) = 0" using entries_count [OF M(2)] by (simp add: unat_eq_zero)
  define m' where "m' = m\<lparr>table0 := table1 m, table1 := snd (move_table (table1 m)), rehashing := False, rehash_idx := 0\<rparr>"
  have "finalize_rehash E s m = Some (s, m')"
    using z by (simp add: finalize_rehash_def m'_def move_table_def Let_def)
  moreover have b: "blank (table1 m')" by (simp add: m'_def move_table_def blank_def)
  moreover have "same_map m m'" using e blank_entries [OF b] by (simp add: same_map_def hm_entries_def m'_def)
  ultimately show thesis using that e M(3,4) by (simp add: m'_def)
qed

text \<open>A step of \<open>n\<close> entries leaves a map at rest, or one with \<open>n\<close> entries moved.\<close>

lemma step_rehash_ok:
  assumes mv: "moving E N 0 m" and d: "distinct (map fst (hm_entries m))"
    and refs: "refs_ok s (refs_of (hm_entries m) + H) vs" "length (hm_entries m) + size H + 1 < 2 ^ 61"
  obtains s' m' where "step_rehash E n s m = Some (s', m')" "refs_ok s' (refs_of (hm_entries m) + H) vs" "same_map m m'"
    "moving E N (unat n) m' \<or> \<not> rehashing m' \<and> blank (table1 m') \<and> at_rest E (table0 m') \<and> load (table0 m') \<le> total m"
    "hm_capacity m' = hm_capacity m" "length (tbl_entries (table0 m)) \<le> unat n \<longrightarrow> \<not> rehashing m'"
proof -
  obtain s1 m1 mvd x where S: "step_entries E n s m = Some (s1, m1, mvd)" "refs_ok s1 (refs_of (hm_entries m) + H) vs" "same_map m m1"
      "moving E N x m1" "x = unat n \<or> capacity (table0 m1) \<le> rehash_idx m1" "total m1 \<le> total m" "capacity (table1 m1) = capacity (table1 m)"
      "length (tbl_entries (table0 m1)) + x = length (tbl_entries (table0 m))"
    using step_entries_ok [OF mv d refs, of n] by blast
  note M = movingD(1) [OF mv] and M1 = movingD [OF S(4)]
  show thesis
  proof (cases "capacity (table0 m1) \<le> rehash_idx m1 \<or> tsize (table0 m1) = 0")
    case True
    obtain m2 where F: "finalize_rehash E s1 m1 = Some (s1, m2)" "same_map m1 m2" "\<not> rehashing m2" "blank (table1 m2)"
      "table_ok E (table0 m2)" "tombs_ok (table0 m2)" "load (table0 m2) = load (table1 m1)" "capacity (table0 m2) = capacity (table1 m1)"
      "tbl_entries (table0 m1) = []" "rehash_idx m2 = 0"
      by (rule finalize_ok [OF S(4) True])
    have "at_rest E (table0 m2)"
      using F(5-9) M1(8-10) by (simp add: at_rest_def cap_of_def)
    moreover have "load (table0 m2) \<le> total m" using F(7) S(6) by (simp add: total_def)
    ultimately show thesis using that [of s1 m2] S(1-3,7) F(1-4,8) True M same_map_trans [OF S(3) F(2)]
      by (simp add: step_rehash_def hm_capacity_def)
  next
    case False
    then have "moving E N (unat n) m1" using S(4,5) by auto
    moreover have "\<not> length (tbl_entries (table0 m)) \<le> unat n"
      using False S(5,8) entries_count [OF M1(2)] unat_eq_zero [of "tsize (table0 m1)"] by linarith
    ultimately show thesis using that [of s1 m1] S(1-3,7) False M M1(1) by (simp add: step_rehash_def hm_capacity_def)
  qed
qed

section \<open>Starting\<close>

lemma load_bound:
  assumes "table_shape t"
  shows "load t \<le> cap_of t"
  using size_bound(1) [OF assms] entries_length [OF assms] by (simp add: load_def)

lemma load_test:
  assumes ok: "table_ok E t" and tm: "tombs_ok t"
  shows "capacity t * 7 < (tsize t + tombstones t + 1) * 8 \<longleftrightarrow> 7 * cap_of t < 8 * (load t + 1)"
proof -
  note S = table_okD(1) [OF ok]
  have l: "unat (tsize t) + unat (tombstones t) = load t" using entries_count [OF ok] tm by (simp add: load_def tombs_ok_def)
  have b: "load t \<le> cap_of t" "cap_of t < 2 ^ 60" using load_bound [OF S] table_shapeD(2) [OF S] by auto
  have a: "unat (tsize t + tombstones t) = load t" using l b by (simp add: unat_word_ariths)
  then have "unat (tsize t + tombstones t + 1) = load t + 1" using b unat_inc_small [of "tsize t + tombstones t"] by simp
  then have "unat ((tsize t + tombstones t + 1) * 8) = 8 * (load t + 1)" using b by (subst unat_word_ariths) simp
  moreover have "unat (capacity t * 7) = 7 * cap_of t" using b by (subst unat_word_ariths) (simp add: cap_of_def)
  ultimately show ?thesis by (simp add: word_less_nat_alt)
qed

lemma new_capacity:
  assumes ok: "at_rest E t" and c: "c = capacity t" and z: "z = tsize t"
  defines "new \<equiv> (if z \<le> c div 4 \<and> c > 8 then c div 2 else if z * 2 \<le> c then c else c * 2)"
  shows "\<exists>n. unat new = 8 * 2 ^ n" "unat new \<le> 2 * cap_of t" "2 * length (tbl_entries t) \<le> cap_of t \<Longrightarrow> unat new \<le> cap_of t"
    "10 * length (tbl_entries t) \<le> 7 * unat new" "8 * length (tbl_entries t) + 8 \<le> 7 * unat new" "\<not> new < 8"
    "unat new \<le> max (cap_of t) (4 * length (tbl_entries t))"
proof -
  have T: "table_ok E t" "8 * load t \<le> 7 * cap_of t" using ok by (auto simp: at_rest_def)
  note S = table_okD(1) [OF T(1)]
  obtain n where n: "cap_of t = 8 * 2 ^ n" using table_shapeD(1) [OF S] by blast
  have small: "cap_of t < 2 ^ 60" by (rule table_shapeD(2) [OF S])
  let ?l = "length (tbl_entries t)"
  have l: "unat z = ?l" "?l \<le> cap_of t" "8 * ?l \<le> 7 * cap_of t"
    using entries_count [OF T(1)] z size_load [of t] T(2) load_bound [OF S] by auto
  have uc: "unat c = cap_of t" by (simp add: c cap_of_def)
  have t1: "z \<le> c div 4 \<and> c > 8 \<longleftrightarrow> ?l \<le> cap_of t div 4 \<and> 8 < cap_of t"
    by (simp add: word_le_nat_alt word_less_nat_alt unat_div l uc)
  have "unat (z * 2) = 2 * ?l" using l small by (simp add: unat_word_ariths)
  then have t2: "z * 2 \<le> c \<longleftrightarrow> 2 * ?l \<le> cap_of t" by (simp add: word_le_nat_alt uc)
  have u2: "unat (c * 2) = 2 * cap_of t" using uc small by (simp add: unat_word_ariths)
  have ud: "unat (c div 2) = cap_of t div 2" by (simp add: unat_div uc)
  have new_eq: "unat new = (if ?l \<le> cap_of t div 4 \<and> 8 < cap_of t then cap_of t div 2 else if 2 * ?l \<le> cap_of t then cap_of t else 2 * cap_of t)"
    unfolding new_def t1 t2 using u2 ud uc by simp
  consider (half) "?l \<le> cap_of t div 4" "8 < cap_of t" "unat new = cap_of t div 2"
    | (same) "2 * ?l \<le> cap_of t" "unat new = cap_of t" | (double) "\<not> 2 * ?l \<le> cap_of t" "unat new = 2 * cap_of t"
    using new_eq by (cases "?l \<le> cap_of t div 4 \<and> 8 < cap_of t"; cases "2 * ?l \<le> cap_of t") auto
  then have "(\<exists>n. unat new = 8 * 2 ^ n) \<and> unat new \<le> 2 * cap_of t \<and> (2 * ?l \<le> cap_of t \<longrightarrow> unat new \<le> cap_of t) \<and>
    10 * ?l \<le> 7 * unat new \<and> 8 * ?l + 8 \<le> 7 * unat new \<and> unat new \<le> max (cap_of t) (4 * ?l)"
  proof cases
    case half
    then obtain n' where n': "n = Suc n'" using n by (cases n) auto
    then have "unat new = 8 * 2 ^ n'" using half(3) n by simp
    then show ?thesis using half n n' by auto
  next
    case same
    have "(1 :: nat) \<le> 2 ^ n" by simp
    then have "8 * ?l + 8 \<le> 7 * unat new" using same n by linarith
    then show ?thesis using same n by auto
  next
    case double
    then have "unat new = 8 * 2 ^ Suc n" using n by simp
    then have "\<exists>n. unat new = 8 * 2 ^ n" by blast
    moreover have "8 * ?l + 8 \<le> 7 * unat new" "10 * ?l \<le> 7 * unat new" using double(2) l(3) cap_pos [OF S] by linarith+
    ultimately show ?thesis using double by simp
  qed
  then show "\<exists>n. unat new = 8 * 2 ^ n" "unat new \<le> 2 * cap_of t" "2 * ?l \<le> cap_of t \<Longrightarrow> unat new \<le> cap_of t"
    "10 * ?l \<le> 7 * unat new" "8 * ?l + 8 \<le> 7 * unat new" "unat new \<le> max (cap_of t) (4 * ?l)" by blast+
  from this(1) show "\<not> new < 8" by (auto simp: word_less_nat_alt)
qed

lemma fits_le: "fits E n \<Longrightarrow> k \<le> n \<Longrightarrow> fits E k"
  unfolding fits_def by (meson le_less_trans mult_le_mono2)

lemma start_rehash_ok:
  assumes E: "env_ok E" and rest: "\<not> rehashing m" "blank (table1 m)" "at_rest E (table0 m)"
    and grow: "fits E (2 * cap_of (table0 m)) \<or> 2 * length (tbl_entries (table0 m)) \<le> cap_of (table0 m)"
  obtains m' N where "start_rehash E d m = Some (Suc d, m')" "moving E N 0 m'" "same_map m m'" "total m' = N"
    "8 * N + 8 \<le> 7 * cap_of (table1 m')" "N = length (tbl_entries (table0 m))" "grown m m'"
proof -
  let ?t = "table0 m" and ?l = "length (tbl_entries (table0 m))"
  define new where "new = (if tsize ?t \<le> capacity ?t div 4 \<and> capacity ?t > 8 then capacity ?t div 2 else if tsize ?t * 2 \<le> capacity ?t then capacity ?t else capacity ?t * 2)"
  note C = new_capacity [OF rest(3) refl refl, folded new_def]
  obtain n where n: "unat new = 8 * 2 ^ n" using C(1) by blast
  have T: "table_ok E ?t" "fits E (cap_of ?t)" using rest(3) by (auto simp: at_rest_def)
  have "fits E (unat new)" using grow C(2,3) T(2) fits_le by blast
  then have f: "unat (slot_bytes E) * unat new < 2 ^ 64" by (simp add: fits_def)
  have "tslots (table1 m) = None" using rest(2) by (simp add: blank_def)
  from init_table_ok [OF E n f this, of d] obtain t1 where t1: "init_table E d (table1 m) new = Some (t1, Suc d)" "table_ok E t1" "tombs_ok t1"
      "capacity t1 = new" "elems t1 = Map.empty" "tombs t1 = {}" by blast
  have e1: "tbl_entries t1 = []" using t1(5) by (simp add: tbl_entries_def List.map_filter_def)
  let ?m = "m\<lparr>table1 := t1, rehashing := True, rehash_idx := 0\<rparr>"
  have "start_rehash E d m = Some (Suc d, ?m)"
    using rest(1) t1(1) C(6) unfolding start_rehash_def Let_def new_def [symmetric] by simp
  moreover have "moving E ?l 0 ?m"
    using T(1) t1 e1 C(4) f by (auto simp: moving_def load_def cap_of_def fits_def)
  moreover have "same_map m ?m" using blank_entries [OF rest(2)] e1 by (simp add: same_map_def hm_entries_def)
  moreover have "total ?m = ?l" using e1 t1(6) by (simp add: total_def load_def)
  moreover have "8 * ?l + 8 \<le> 7 * cap_of (table1 ?m)" using C(5) t1(4) by (simp add: cap_of_def)
  moreover have "grown m ?m"
    using C(7) t1(4) rest(1) by (auto simp: grown_def hm_capacity_def hm_entries_def cap_of_def)
  ultimately show thesis using that by blast
qed

text \<open>Starting and the first step.\<close>

lemma start_step_ok:
  assumes E: "env_ok E" and rest: "\<not> rehashing m" "blank (table1 m)" "at_rest E (table0 m)"
    and grow: "fits E (2 * cap_of (table0 m)) \<or> 2 * length (tbl_entries (table0 m)) \<le> cap_of (table0 m)"
    and d: "distinct (map fst (hm_entries m))"
    and refs: "refs_ok s (refs_of (hm_entries m) + H) vs" "length (hm_entries m) + size H + 1 < 2 ^ 61"
  obtains m1 s' m' N where "start_rehash E dr m = Some (Suc dr, m1)" "step_rehash E n s m1 = Some (s', m')"
    "refs_ok s' (refs_of (hm_entries m) + H) vs" "same_map m m'"
    "moving E N (unat n) m' \<or> \<not> rehashing m' \<and> blank (table1 m') \<and> at_rest E (table0 m') \<and> 8 * (load (table0 m') + 1) \<le> 7 * cap_of (table0 m')"
    "grown m m'"
proof -
  obtain m1 N where A: "start_rehash E dr m = Some (Suc dr, m1)" "moving E N 0 m1" "same_map m m1" "total m1 = N"
    "8 * N + 8 \<le> 7 * cap_of (table1 m1)" "N = length (tbl_entries (table0 m))" "grown m m1"
    by (rule start_rehash_ok [OF E rest grow])
  note SM = same_mapD [OF A(3)]
  have r: "refs_ok s (refs_of (hm_entries m1) + H) vs" "length (hm_entries m1) + size H + 1 < 2 ^ 61" using refs SM(3,4) by simp_all
  obtain s' m' where B: "step_rehash E n s m1 = Some (s', m')" "refs_ok s' (refs_of (hm_entries m1) + H) vs" "same_map m1 m'"
    "moving E N (unat n) m' \<or> \<not> rehashing m' \<and> blank (table1 m') \<and> at_rest E (table0 m') \<and> load (table0 m') \<le> total m1"
    "hm_capacity m' = hm_capacity m1" "length (tbl_entries (table0 m1)) \<le> unat n \<longrightarrow> \<not> rehashing m'"
    by (rule step_rehash_ok [where n = n, OF A(2) same_map_keys [OF A(3) d] r])
  have cap: "cap_of (table0 m') = cap_of (table1 m1)" if "\<not> rehashing m'"
    using B(5) movingD(1) [OF A(2)] that by (simp add: hm_capacity_def cap_of_def)
  have "moving E N (unat n) m' \<or> \<not> rehashing m' \<and> blank (table1 m') \<and> at_rest E (table0 m') \<and> 8 * (load (table0 m') + 1) \<le> 7 * cap_of (table0 m')"
    using B(4) A(4,5) cap by auto
  moreover have "grown m m'" using A(7) B(5) by (simp add: grown_def)
  ultimately show thesis using that A(1) B(1,2) SM(3) same_map_trans [OF A(3) B(3)] by simp
qed

section \<open>Room for an insertion\<close>

definition ready :: "'k hash_env \<Rightarrow> 'k hashmap \<Rightarrow> bool" where
  "ready E m \<longleftrightarrow> (\<exists>N. moving E N 4 m) \<or>
     \<not> rehashing m \<and> blank (table1 m) \<and> at_rest E (table0 m) \<and> 8 * (load (table0 m) + 1) \<le> 7 * cap_of (table0 m)"

definition can_grow :: "'k hash_env \<Rightarrow> 'k hashmap \<Rightarrow> bool" where
  "can_grow E m \<longleftrightarrow> fits E 8 \<and> fits E (2 * unat (hm_capacity m))"

lemma unat_REHASH_STEP_COUNT [simp]: "unat REHASH_STEP_COUNT = 4"
  by (simp add: REHASH_STEP_COUNT_def)

lemma ensure_capacity_ok:
  assumes E: "env_ok E" and ok: "resting E m \<or> (\<exists>N. moving E N 4 m)" and grow: "can_grow E m"
    and d: "distinct (map fst (hm_entries m))"
    and refs: "refs_ok s (refs_of (hm_entries m) + H) vs" "length (hm_entries m) + size H + 1 < 2 ^ 61"
  obtains s' d' m' where "ensure_capacity_for_insert E s dr m = Some (s', d', m')" "refs_ok s' (refs_of (hm_entries m) + H) vs"
    "same_map m m'" "ready E m'" "grown m m'"
proof -
  consider (new) "\<not> rehashing m" "blank (table1 m)" "blank (table0 m)" | (rest) "\<not> rehashing m" "blank (table1 m)" "at_rest E (table0 m)"
    | (move) N where "moving E N 4 m"
    using ok by (auto simp: resting_def)
  then show thesis
  proof cases
    case new
    have f: "unat (slot_bytes E) * unat (8 :: u64) < 2 ^ 64" using grow by (simp add: can_grow_def fits_def)
    have "unat (8 :: u64) = 8 * 2 ^ 0" "tslots (table0 m) = None" using new(3) by (simp_all add: blank_def)
    from init_table_ok [OF E this(1) f this(2), of dr] obtain t where t: "init_table E dr (table0 m) 8 = Some (t, Suc dr)" "table_ok E t" "tombs_ok t"
        "capacity t = 8" "elems t = Map.empty" "tombs t = {}" by blast
    have e: "tbl_entries t = []" using t(5) by (simp add: tbl_entries_def List.map_filter_def)
    have "ready E (m\<lparr>table0 := t\<rparr>)" using new t e grow by (simp add: ready_def at_rest_def load_def cap_of_def can_grow_def)
    moreover have "same_map m (m\<lparr>table0 := t\<rparr>)" using blank_entries [OF new(3)] e by (simp add: same_map_def hm_entries_def)
    moreover have "grown m (m\<lparr>table0 := t\<rparr>)" using new(1) t(4) by (simp add: grown_def hm_capacity_def)
    ultimately show thesis using that [of s "Suc dr" "m\<lparr>table0 := t\<rparr>"] t(1) new(3) refs(1)
      by (simp add: ensure_capacity_for_insert_def blank_def)
  next
    case rest
    have T: "table_ok E (table0 m)" "tombs_ok (table0 m)" using rest(3) by (auto simp: at_rest_def)
    note nz = nonblank_cap [OF T(1)]
    show thesis
    proof (cases "7 * cap_of (table0 m) < 8 * (load (table0 m) + 1)")
      case True
      have "fits E (2 * cap_of (table0 m))" using grow rest(1) by (simp add: can_grow_def hm_capacity_def cap_of_def)
      then have g: "fits E (2 * cap_of (table0 m)) \<or> 2 * length (tbl_entries (table0 m)) \<le> cap_of (table0 m)" ..
      obtain m1 s' m' N where A: "start_rehash E dr m = Some (Suc dr, m1)" "step_rehash E REHASH_STEP_COUNT s m1 = Some (s', m')"
        "refs_ok s' (refs_of (hm_entries m) + H) vs" "same_map m m'"
        "moving E N (unat REHASH_STEP_COUNT) m' \<or> \<not> rehashing m' \<and> blank (table1 m') \<and> at_rest E (table0 m') \<and> 8 * (load (table0 m') + 1) \<le> 7 * cap_of (table0 m')"
        "grown m m'"
        by (rule start_step_ok [OF E rest g d refs])
      have "ready E m'" using A(5) by (auto simp: ready_def)
      then show thesis using that [of s' "Suc dr" m'] A(1-4,6) nz rest(1) True load_test [OF T]
        by (simp add: ensure_capacity_for_insert_def)
    next
      case False
      then have "ready E m" using rest by (auto simp: ready_def)
      then show thesis using that [of s dr m] nz rest(1) False load_test [OF T] refs(1)
        by (simp add: ensure_capacity_for_insert_def)
    qed
  next
    case move
    note M = movingD [OF move]
    have "4 * load (table1 m) + 4 \<le> 5 * N" by (rule order_trans [OF M(8)]) simp
    then have "\<not> 7 * cap_of (table1 m) < 8 * (load (table1 m) + 1)" using M(9) by presburger
    then show thesis using that [of s dr m] nonblank_cap [OF M(2)] M(1) load_test [OF M(3,4)] refs(1) move
      by (auto simp: ensure_capacity_for_insert_def ready_def)
  qed
qed

lemma check_shrink_ok:
  assumes E: "env_ok E" and ok: "hm_ok E m"
    and refs: "refs_ok s (refs_of (hm_entries m) + H) vs" "length (hm_entries m) + size H + 1 < 2 ^ 61"
  obtains s' d' m' where "check_shrink E s dr m = Some (s', d', m')" "refs_ok s' (refs_of (hm_entries m) + H) vs"
    "same_map m m'" "hm_ok E m'" "grown m m'"
proof (cases "rehashing m \<or> \<not> (capacity (table0 m) > 8 \<and> tsize (table0 m) \<le> capacity (table0 m) div 4)")
  case True
  then show thesis using that [of s dr m] ok refs(1) by (auto simp: check_shrink_def)
next
  case False
  have d: "distinct (map fst (hm_entries m))" using ok by (simp add: hm_ok_def)
  have "resting E m" using ok False movingD(1) by (auto simp: hm_ok_def)
  then have rest: "\<not> rehashing m" "blank (table1 m)" "at_rest E (table0 m)" using False by (auto simp: resting_def blank_def)
  have T: "table_ok E (table0 m)" using rest(3) by (auto simp: at_rest_def)
  have "2 * length (tbl_entries (table0 m)) \<le> cap_of (table0 m)"
    using False entries_count [OF T] by (auto simp: word_le_nat_alt unat_div cap_of_def)
  then have g: "fits E (2 * cap_of (table0 m)) \<or> 2 * length (tbl_entries (table0 m)) \<le> cap_of (table0 m)" ..
  obtain m1 s' m' N where A: "start_rehash E dr m = Some (Suc dr, m1)" "step_rehash E REHASH_STEP_COUNT s m1 = Some (s', m')"
    "refs_ok s' (refs_of (hm_entries m) + H) vs" "same_map m m'"
    "moving E N (unat REHASH_STEP_COUNT) m' \<or> \<not> rehashing m' \<and> blank (table1 m') \<and> at_rest E (table0 m') \<and> 8 * (load (table0 m') + 1) \<le> 7 * cap_of (table0 m')"
    "grown m m'"
    by (rule start_step_ok [OF E rest g d refs])
  have "resting E m' \<or> (\<exists>N. moving E N 0 m')" using A(5) moving_less by (fastforce simp: resting_def)
  then have "hm_ok E m'" using same_map_keys [OF A(4) d] by (simp add: hm_ok_def)
  then show thesis using that [of s' "Suc dr" m'] A(1-4,6) False by (auto simp: check_shrink_def)
qed

end
