(* ===== verification/HashOps.thy ===== *)
theory HashOps
  imports HashRehash
begin

text \<open>
  The operations of the hash map on the level of keys and values: a map from keys to handles
  (the tables) and from handles to values (the hive).
\<close>

section \<open>The abstract map\<close>

text \<open>\<open>H\<close> are the references clients hold, \<open>D\<close> what handles read, \<open>vs\<close> the other hives of the store.\<close>

definition hm_view :: "'k hash_env \<Rightarrow> 'v hive_store \<Rightarrow> 'k hashmap \<Rightarrow> ptr multiset \<Rightarrow> (hive_handle \<Rightarrow> 'v option) \<Rightarrow> 'v hive_look list \<Rightarrow> bool" where
  "hm_view E s m H D vs \<longleftrightarrow> hm_ok E m \<and>
     refs_ok s (refs_of (hm_entries m) + H) ((hm_hive m, snd ` set (hm_entries m), D) # vs) \<and>
     distinct (map snd (hm_entries m)) \<and> (\<forall>h \<in> snd ` set (hm_entries m). D h \<noteq> None)"

definition hm_abs :: "'k hashmap \<Rightarrow> (hive_handle \<Rightarrow> 'v option) \<Rightarrow> 'k \<Rightarrow> 'v option" where
  "hm_abs m D k = Option.bind (hm_lookup m k) D"

definition small_refs :: "'k hashmap \<Rightarrow> ptr multiset \<Rightarrow> bool" where
  "small_refs m H \<longleftrightarrow> length (hm_entries m) + size H + 4 < 2 ^ 61"

lemma hm_viewD:
  assumes "hm_view E s m H D vs"
  shows "hm_ok E m" "refs_ok s (refs_of (hm_entries m) + H) ((hm_hive m, snd ` set (hm_entries m), D) # vs)"
    "distinct (map snd (hm_entries m))" "h \<in> snd ` set (hm_entries m) \<Longrightarrow> D h \<noteq> None" "distinct (map fst (hm_entries m))"
    "resting E m \<or> (\<exists>N. moving E N 0 m)"
  using assms by (auto simp: hm_view_def hm_ok_def)

lemma lookup_iff: "distinct (map fst (hm_entries m)) \<Longrightarrow> hm_lookup m k = Some h \<longleftrightarrow> (k, h) \<in> set (hm_entries m)"
  by (simp add: hm_lookup_def)

lemma same_map_abs: "same_map m m' \<Longrightarrow> distinct (map fst (hm_entries m)) \<Longrightarrow> hm_abs m' D = hm_abs m D"
  by (simp add: hm_abs_def fun_eq_iff same_map_lookup)

lemma same_map_view:
  assumes v: "hm_view E s m H D vs" and sm: "same_map m m'" and ok: "hm_ok E m'"
    and r: "refs_ok s' (refs_of (hm_entries m) + H') ((hm_hive m, snd ` set (hm_entries m), D) # vs)"
  shows "hm_view E s' m' H' D vs"
proof -
  note SM = same_mapD [OF sm]
  have "mset (map snd (hm_entries m')) = mset (map snd (hm_entries m))" using SM(1) by (metis mset_map)
  then have "distinct (map snd (hm_entries m'))" using hm_viewD(3) [OF v] mset_eq_imp_distinct_iff by blast
  then show ?thesis using v ok r SM by (simp add: hm_view_def)
qed

text \<open>A list of entries with one more.\<close>

lemma one_more_entry:
  assumes m: "mset xs = add_mset (k, h) (mset ys)" and d: "distinct (map fst xs)"
  shows "distinct (map fst ys)" "map_of ys k = None" "map_of xs = (map_of ys)(k \<mapsto> h)" "set xs = insert (k, h) (set ys)"
proof -
  have "mset xs = mset ((k, h) # ys)" using m by simp
  note M = mset_imp_map_of [OF this d]
  show "distinct (map fst ys)" "map_of ys k = None" using M(2) by (auto simp: map_of_eq_None_iff)
  show "map_of xs = (map_of ys)(k \<mapsto> h)" using M(1) by simp
  show "set xs = insert (k, h) (set ys)" using m by (metis set_mset_add_mset_insert set_mset_mset)
qed

section \<open>A step at the start of an operation\<close>

lemma op_step_ok:
  assumes v: "hm_view E s m H D vs" and sz: "small_refs m H"
  obtains s' m' where "step_rehash E REHASH_STEP_COUNT s m = Some (s', m')" "hm_view E s' m' H D vs" "same_map m m'"
    "resting E m' \<or> (\<exists>N. moving E N 4 m')" "hm_capacity m' = hm_capacity m"
proof (cases "rehashing m")
  case False
  then have "resting E m" using hm_viewD(6) [OF v] movingD(1) by blast
  then show thesis using that [of s m] False v by (simp add: step_rehash_def)
next
  case True
  then obtain N where mv: "moving E N 0 m" using hm_viewD(6) [OF v] by (auto simp: resting_def)
  note V = hm_viewD [OF v]
  have "length (hm_entries m) + size H + 1 < 2 ^ 61" using sz by (simp add: small_refs_def)
  from step_rehash_ok [OF mv V(5,2) this] obtain s' m' where S: "step_rehash E REHASH_STEP_COUNT s m = Some (s', m')"
    "refs_ok s' (refs_of (hm_entries m) + H) ((hm_hive m, snd ` set (hm_entries m), D) # vs)" "same_map m m'"
    "moving E N (unat REHASH_STEP_COUNT) m' \<or> \<not> rehashing m' \<and> blank (table1 m') \<and> at_rest E (table0 m') \<and> load (table0 m') \<le> total m"
    "hm_capacity m' = hm_capacity m" by blast
  then have st: "resting E m' \<or> (\<exists>N. moving E N 4 m')" by (auto simp: resting_def)
  then have "hm_ok E m'" using moving_less same_map_keys [OF S(3) V(5)] by (fastforce simp: hm_ok_def)
  from same_map_view [OF v S(3) this S(2)] show thesis using that S(1,3,5) st by blast
qed

section \<open>Searching\<close>

lemma lookup_tables:
  assumes "distinct (map fst (hm_entries m))"
  shows "hm_lookup m k = (case tbl_map (table1 m) k of None \<Rightarrow> tbl_map (table0 m) k | Some h \<Rightarrow> Some h)"
    "tbl_map (table1 m) k = Some h \<Longrightarrow> tbl_map (table0 m) k = None"
proof -
  show d: "tbl_map (table0 m) k = None" if "tbl_map (table1 m) k = Some h" for h
  proof -
    have "k \<in> fst ` set (tbl_entries (table1 m))" using that by (force simp: tbl_map_def dest: map_of_SomeD)
    then show ?thesis using assms by (auto simp: hm_entries_def tbl_map_def map_of_eq_None_iff)
  qed
  show "hm_lookup m k = (case tbl_map (table1 m) k of None \<Rightarrow> tbl_map (table0 m) k | Some h \<Rightarrow> Some h)"
    unfolding hm_lookup_def hm_entries_def map_of_append using d by (auto simp: tbl_map_def map_add_def split: option.split)
qed

lemma find_in_ok:
  assumes "table_ok E t"
  shows "find_in E t k = Some NOT_FOUND \<and> tbl_map t k = None \<or>
    (\<exists>i h. find_in E t k = Some (of_nat i) \<and> of_nat i \<noteq> NOT_FOUND \<and> i < cap_of t \<and> elems t i = Some (k, h) \<and>
      raw_at (tslots t) (of_nat i) = Some (k, h) \<and> tbl_map t k = Some h)"
  using find_slot_map [OF assms, of k] by (simp add: find_in_def hash_of_def)

text \<open>The slot that the two tables give for a key.\<close>

lemma find_both:
  assumes ok: "hm_ok E m" and nb: "capacity (table0 m) \<noteq> 0"
  obtains (second) i h where "rehashing m" "find_in E (table1 m) k = Some (of_nat i)" "of_nat i \<noteq> NOT_FOUND"
      "elems (table1 m) i = Some (k, h)" "raw_at (tslots (table1 m)) (of_nat i) = Some (k, h)" "hm_lookup m k = Some h" "i < cap_of (table1 m)"
    | (first) i h where "rehashing m \<Longrightarrow> find_in E (table1 m) k = Some NOT_FOUND" "find_in E (table0 m) k = Some (of_nat i)" "of_nat i \<noteq> NOT_FOUND"
      "elems (table0 m) i = Some (k, h)" "raw_at (tslots (table0 m)) (of_nat i) = Some (k, h)" "hm_lookup m k = Some h" "i < cap_of (table0 m)"
    | (absent) "rehashing m \<Longrightarrow> find_in E (table1 m) k = Some NOT_FOUND" "find_in E (table0 m) k = Some NOT_FOUND" "hm_lookup m k = None"
proof -
  have d: "distinct (map fst (hm_entries m))" using ok by (simp add: hm_ok_def)
  have t0: "table_ok E (table0 m)" using ok nb by (auto simp: hm_ok_def resting_def at_rest_def blank_def moving_def)
  have t1: "rehashing m \<and> table_ok E (table1 m) \<or> \<not> rehashing m \<and> tbl_map (table1 m) k = None"
    using ok by (auto simp: hm_ok_def resting_def moving_def tbl_map_def)
  note L = lookup_tables [OF d, of k]
  show thesis
  proof (cases "rehashing m \<and> tbl_map (table1 m) k \<noteq> None")
    case True
    then show thesis using second find_in_ok [of E "table1 m" k] t1 L(1) by auto
  next
    case False
    then have n: "tbl_map (table1 m) k = None" "rehashing m \<Longrightarrow> find_in E (table1 m) k = Some NOT_FOUND"
      using t1 find_in_ok [of E "table1 m" k] by auto
    show thesis using find_in_ok [OF t0, of k] first absent n L(1) by auto
  qed
qed

lemma lookup_blank:
  assumes "hm_ok E m" "capacity (table0 m) = 0"
  shows "hm_lookup m k = None" "hm_entries m = []"
proof -
  have "resting E m" using assms nonblank_cap by (auto simp: hm_ok_def moving_def)
  then have "blank (table0 m)" "blank (table1 m)" using assms(2) nonblank_cap by (auto simp: resting_def at_rest_def)
  then show "hm_entries m = []" by (simp add: hm_entries_def)
  then show "hm_lookup m k = None" by (simp add: hm_lookup_def)
qed

lemma search_copy:
  assumes v: "hm_view E s m H D vs" and sz: "length (hm_entries m) + size H < 2 ^ 61" and l: "hm_lookup m k = Some h"
  obtains s' where "copy_ref s h = Some (s', h)" "hm_view E s' m (add_mset (fst h) H) D vs"
proof -
  note V = hm_viewD [OF v]
  have "(k, h) \<in> set (hm_entries m)" using l lookup_iff [OF V(5)] by simp
  then have "fst h \<in># refs_of (hm_entries m) + H" by (force simp: refs_of_def)
  from copy_ref_ok [OF V(2) this] sz obtain s' where "copy_ref s h = Some (s', h)"
      "refs_ok s' (refs_of (hm_entries m) + add_mset (fst h) H) ((hm_hive m, snd ` set (hm_entries m), D) # vs)" by auto
  with same_map_view [OF v same_map_refl V(1)] show thesis using that by blast
qed

lemma hm_search_ok:
  assumes v: "hm_view E s m H D vs" and sz: "length (hm_entries m) + size H < 2 ^ 61"
  shows "(case hm_lookup m k of None \<Rightarrow> hm_search E s m k = Some (s, null_handle)
     | Some h \<Rightarrow> \<exists>s'. hm_search E s m k = Some (s', h) \<and> hm_view E s' m (add_mset (fst h) H) D vs)"
proof (cases "capacity (table0 m) = 0")
  case True
  then show ?thesis using lookup_blank(1) [OF hm_viewD(1) [OF v] True] by (simp add: hm_search_def)
next
  case False
  show ?thesis
    using hm_viewD(1) [OF v] False
  proof (cases rule: find_both [where k = k])
    case (second i h)
    from search_copy [OF v sz second(6)] show ?thesis using second False by (auto simp: hm_search_def)
  next
    case (first i h)
    from search_copy [OF v sz first(6)] show ?thesis using first False by (auto simp: hm_search_def)
  next
    case absent
    then show ?thesis using False by (auto simp: hm_search_def)
  qed
qed

lemma bool_null [simp]: "counted_bool ts (fst null_handle) = Some False"
  by (simp add: counted_bool_def null_handle_def)

lemma drop_null [simp]: "drop_ref s null_handle = Some s"
  by (simp add: drop_ref_def drop_handle_def counted_clear_def null_handle_def)

lemma bool_entry:
  assumes v: "hm_view E s m H D vs" and l: "hm_lookup m k = Some h"
  shows "counted_bool (tagged s) (fst h) = Some True" "D h \<noteq> None"
proof -
  have "h \<in> snd ` set (hm_entries m)" using map_of_SomeD [OF l [unfolded hm_lookup_def]] by (metis image_eqI snd_conv)
  then show "counted_bool (tagged s) (fst h) = Some True" "D h \<noteq> None"
    using bool_refs(1) [OF hm_viewD(2) [OF v]] hm_viewD(4) [OF v] by blast+
qed

lemma view_drop:
  assumes "hm_view E s m (add_mset (fst h) H) D vs"
  obtains s' where "drop_ref s h = Some s'" "hm_view E s' m H D vs"
proof -
  note V = hm_viewD [OF assms]
  have "refs_ok s (add_mset (fst h) (refs_of (hm_entries m) + H)) ((hm_hive m, snd ` set (hm_entries m), D) # vs)" using V(2) by simp
  from drop_ref_ok [OF this] obtain s' where "drop_ref s h = Some s'"
      "refs_ok s' (refs_of (hm_entries m) + H) ((hm_hive m, snd ` set (hm_entries m), D) # vs)" by blast
  then show thesis using that same_map_view [OF assms same_map_refl V(1)] by blast
qed

end
