(* ===== verification/HashInsert.thy ===== *)
theory HashInsert
  imports HashOps
begin

text \<open>Inserting into the hash map, and reading a value through a key.\<close>

section \<open>A new entry\<close>

text \<open>The table that takes new entries.\<close>

definition target :: "'k hashmap \<Rightarrow> 'k hash_table" where
  "target m = (if rehashing m then table1 m else table0 m)"

definition set_target :: "'k hashmap \<Rightarrow> 'k hash_table \<Rightarrow> 'k hashmap" where
  "set_target m t = (if rehashing m then m\<lparr>table1 := t\<rparr> else m\<lparr>table0 := t\<rparr>)"

lemma ready_target:
  assumes "ready E m"
  shows "table_ok E (target m)" "tombs_ok (target m)" "length (tbl_entries (target m)) < cap_of (target m)"
proof -
  have "table_ok E (target m) \<and> tombs_ok (target m) \<and> 8 * (load (target m) + 1) \<le> 7 * cap_of (target m)"
  proof (cases "rehashing m")
    case True
    then obtain N where mv: "moving E N 4 m" using assms by (auto simp: ready_def)
    note M = movingD [OF mv]
    have "4 * load (table1 m) + 4 \<le> 5 * N" by (rule order_trans [OF M(8)]) simp
    then have "8 * (load (table1 m) + 1) \<le> 7 * cap_of (table1 m)" using M(9) by presburger
    then show ?thesis using True M by (simp add: target_def)
  next
    case False
    then show ?thesis using assms movingD(1) by (auto simp: ready_def target_def at_rest_def)
  qed
  then show "table_ok E (target m)" "tombs_ok (target m)" "length (tbl_entries (target m)) < cap_of (target m)"
    using size_load [of "target m"] by auto
qed

lemma insert_target:
  assumes rd: "ready E m" and d: "distinct (map fst (hm_entries m))" and l: "hm_lookup m k = None"
    and t: "table_ok E t" "tombs_ok t" "capacity t = capacity (target m)" "elems t = (elems (target m))(i \<mapsto> (k, h))" "elems (target m) i = None"
      "i < cap_of (target m)" "card (tombs t) \<le> card (tombs (target m))"
  shows "hm_ok E (set_target m t)" "mset (hm_entries (set_target m t)) = add_mset (k, h) (mset (hm_entries m))"
proof -
  note e = entries_add [OF t(4-6,3)]
  show ms: "mset (hm_entries (set_target m t)) = add_mset (k, h) (mset (hm_entries m))"
    using e by (simp add: hm_entries_def set_target_def target_def split: if_splits)
  have "k \<notin> fst ` set (hm_entries m)" using l by (simp add: hm_lookup_def map_of_eq_None_iff)
  moreover have "mset (map fst (hm_entries (set_target m t))) = mset (k # map fst (hm_entries m))"
    using arg_cong [OF ms, of "image_mset fst"] by simp
  ultimately have d': "distinct (map fst (hm_entries (set_target m t)))" using d by (metis (no_types) mset_eq_imp_distinct_iff distinct.simps(2) list.set_map)
  have ld: "load t \<le> load (target m) + 1" using length_mset_add [OF e] t(7) by (simp add: load_def)
  have "resting E (set_target m t) \<or> (\<exists>N. moving E N 0 (set_target m t))"
  proof (cases "rehashing m")
    case True
    then obtain N where mv: "moving E N 4 m" using rd by (auto simp: ready_def)
    note M = movingD [OF mv]
    have "moving E N 0 (set_target m t)"
      using M t(1-3) ld True unfolding moving_def by (simp add: set_target_def target_def cap_of_def)
    then show ?thesis by blast
  next
    case False
    then have r: "blank (table1 m)" "at_rest E (table0 m)" "8 * (load (table0 m) + 1) \<le> 7 * cap_of (table0 m)"
      using rd movingD(1) by (auto simp: ready_def)
    have "at_rest E t" using r t(1-3) ld False by (simp add: at_rest_def target_def cap_of_def)
    then show ?thesis using False r(1) by (simp add: resting_def set_target_def)
  qed
  then show "hm_ok E (set_target m t)" using d' by (simp add: hm_ok_def)
qed

lemma entries_hive [simp]: "hm_entries (m\<lparr>hm_hive := hv\<rparr>) = hm_entries m" "hm_hive (set_target m t) = hm_hive m"
  "hm_ok E (m\<lparr>hm_hive := hv\<rparr>) = hm_ok E m" "set_target (m\<lparr>hm_hive := hv\<rparr>) t = (set_target m t)\<lparr>hm_hive := hv\<rparr>"
  by (simp_all add: hm_entries_def set_target_def hm_ok_def resting_def moving_def)

section \<open>emplace\<close>

text \<open>\<open>emplace\<close> for a key that is there, and for a new one.\<close>

lemma hm_emplace_old:
  assumes v: "hm_view E s m H D vs" and sz: "small_refs m H" and l: "hm_lookup m k = Some h"
  obtains s' m' where "hm_emplace E s d m k val = Some (s', d, m', False, h)" "hm_view E s' m' (add_mset (fst h) H) D vs" "same_map m m'" "grown m m'"
proof -
  obtain s1 m1 where S: "step_rehash E REHASH_STEP_COUNT s m = Some (s1, m1)" "hm_view E s1 m1 H D vs" "same_map m m1"
    "resting E m1 \<or> (\<exists>N. moving E N 4 m1)" "hm_capacity m1 = hm_capacity m"
    by (rule op_step_ok [OF v sz])
  have l1: "hm_lookup m1 k = Some h" using same_map_lookup [OF S(3) hm_viewD(5) [OF v]] l by simp
  have "length (hm_entries m1) + size H < 2 ^ 61" using sz same_mapD(4) [OF S(3)] by (simp add: small_refs_def)
  from hm_search_ok [OF S(2) this, of k] obtain s2 where F: "hm_search E s1 m1 k = Some (s2, h)" "hm_view E s2 m1 (add_mset (fst h) H) D vs"
    unfolding l1 by auto
  show thesis using that [of s2 m1] S(1,3) F bool_entry(1) [OF F(2) l1] grown_same [OF S(5)] by (simp add: hm_emplace_def)
qed

lemma hm_emplace_new:
  assumes E: "env_ok E" and v: "hm_view E s m H D vs" and sz: "small_refs m H" and grow: "can_grow E m" and l: "hm_lookup m k = None"
  obtains s' d' m' h where "hm_emplace E s d m k val = Some (s', d', m', True, h)" "hm_view E s' m' (add_mset (fst h) H) (D(h \<mapsto> val)) vs"
    "hm_lookup m' = (hm_lookup m)(k \<mapsto> h)" "h \<notin> snd ` set (hm_entries m)" "mset (hm_entries m') = add_mset (k, h) (mset (hm_entries m))"
    "grown m m'"
proof -
  obtain s1 m1 where S: "step_rehash E REHASH_STEP_COUNT s m = Some (s1, m1)" "hm_view E s1 m1 H D vs" "same_map m m1"
    "resting E m1 \<or> (\<exists>N. moving E N 4 m1)" "hm_capacity m1 = hm_capacity m"
    by (rule op_step_ok [OF v sz])
  note V1 = hm_viewD [OF S(2)] and SM1 = same_mapD [OF S(3)]
  have l1: "hm_lookup m1 k = None" using same_map_lookup [OF S(3) hm_viewD(5) [OF v]] l by simp
  have z1: "length (hm_entries m1) + size H + 4 < 2 ^ 61" using sz SM1(4) by (simp add: small_refs_def)
  have F: "hm_search E s1 m1 k = Some (s1, null_handle)" using hm_search_ok [OF S(2), of k] z1 l1 by simp
  have g1: "can_grow E m1" using grow S(5) by (simp add: can_grow_def)
  have z1': "length (hm_entries m1) + size H + 1 < 2 ^ 61" using z1 by simp
  obtain s2 d2 m2 where C: "ensure_capacity_for_insert E s1 d m1 = Some (s2, d2, m2)"
    "refs_ok s2 (refs_of (hm_entries m1) + H) ((hm_hive m1, snd ` set (hm_entries m1), D) # vs)" "same_map m1 m2" "ready E m2"
    "grown m1 m2"
    by (rule ensure_capacity_ok [OF E S(4) g1 V1(5,2) z1'])
  note SM2 = same_mapD [OF C(3)]
  have l2: "hm_lookup m2 k = None" using same_map_lookup [OF C(3) V1(5)] l1 by simp
  have d2: "distinct (map fst (hm_entries m2))" by (rule same_map_keys [OF C(3) V1(5)])
  have sz2: "size (refs_of (hm_entries m1) + H) < 2 ^ 61" using z1 by simp
  obtain s3 hv h where P: "hive_emplace s2 (hm_hive m1) val = Some (s3, hv, h)" "h \<notin> snd ` set (hm_entries m1)" "hive_id hv = hive_id (hm_hive m1)"
    "fst h \<noteq> None" "refs_ok s3 (add_mset (fst h) (refs_of (hm_entries m1) + H)) ((hv, insert h (snd ` set (hm_entries m1)), D(h \<mapsto> val)) # vs)"
    by (rule emplace_refs [OF C(2) sz2])
  note T = ready_target [OF C(4)]
  have new: "tbl_map (target m2) k = None"
    using l2 lookup_tables [OF d2, of k] by (auto simp: target_def split: option.splits)
  then have new': "\<And>i h. elems (target m2) i \<noteq> Some (k, h)" using tbl_map_None [OF T(1)] by blast
  have "card (dom (elems (target m2))) < cap_of (target m2)" using T(3) entries_length [OF table_okD(1) [OF T(1)]] by simp
  then obtain j where j: "find_insert_slot (target m2) k (hash_of E (target m2) k) = Some (of_nat j)"
      "j < cap_of (target m2)" "\<not> is_full (ctrl (target m2) ! j)" "reach (target m2) (hash_of E (target m2) k) (j div 8)"
    by (rule find_insert_slot_ok [OF T(1) new'])
  obtain s4 where K: "copy_ref s3 h = Some (s4, h)"
    "refs_ok s4 (add_mset (fst h) (add_mset (fst h) (refs_of (hm_entries m1) + H))) ((hv, insert h (snd ` set (hm_entries m1)), D(h \<mapsto> val)) # vs)"
    using copy_ref_ok [OF P(5), of h] z1 by auto
  obtain t where I: "fill_slot s3 (target m2) (of_nat j) k h (hash_of E (target m2) k) = Some (s4, t)" "table_ok E t" "tombs_ok t"
    "capacity t = capacity (target m2)" "random_key t = random_key (target m2)" "elems t = (elems (target m2))(j \<mapsto> (k, h))" "elems (target m2) j = None"
    "card (tombs t) \<le> card (tombs (target m2))"
    by (rule fill_slot_ok [OF T(1,2) j(2-4) new K(1)])
  let ?m = "(set_target m2 t)\<lparr>hm_hive := hv\<rparr>"
  note N = insert_target [OF C(4) d2 l2 I(2-4,6,7) j(2) I(8)]
  have ms: "mset (hm_entries ?m) = add_mset (k, h) (mset (hm_entries m))" using N(2) SM1(1) SM2(1) by simp
  have dk: "distinct (map fst (hm_entries ?m))" using N(1) by (simp add: hm_ok_def)
  note O = one_more_entry [OF ms dk]
  have run: "hm_emplace E s d m k val = Some (s4, d2, ?m, True, h)"
    using S(1) F C(1) P(1) j(1) I(1) SM2(2)
    by (simp add: hm_emplace_def Let_def target_def hash_of_def set_target_def split: if_splits)
  have hn: "h \<notin> snd ` set (hm_entries m)" using P(2) SM1(5) by simp
  have "mset (map snd (hm_entries ?m)) = mset (h # map snd (hm_entries m))" using arg_cong [OF ms, of "image_mset snd"] by simp
  moreover have "distinct (h # map snd (hm_entries m))" using hn hm_viewD(3) [OF v] by simp
  ultimately have ds: "distinct (map snd (hm_entries ?m))" using mset_eq_imp_distinct_iff by blast
  have "refs_of (hm_entries ?m) = add_mset (fst h) (refs_of (hm_entries m))" using refs_of_mset [of "hm_entries ?m" "(k, h) # hm_entries m"] ms by simp
  then have rf: "refs_ok s4 (refs_of (hm_entries ?m) + add_mset (fst h) H) ((hv, snd ` set (hm_entries ?m), D(h \<mapsto> val)) # vs)"
    using K(2) SM1(3,5) O(4) by simp
  have "hm_view E s4 ?m (add_mset (fst h) H) (D(h \<mapsto> val)) vs"
    using N(1) rf ds O(4) hm_viewD(4) [OF v] hn unfolding hm_view_def by auto
  moreover have "hm_lookup ?m = (hm_lookup m)(k \<mapsto> h)" using O(3) by (simp add: hm_lookup_def)
  moreover have "grown m ?m"
  proof -
    have c: "hm_capacity ?m = hm_capacity m2" using I(4) by (simp add: hm_capacity_def set_target_def target_def)
    have "grown m m2" by (rule grown_trans [OF grown_same [OF S(5)] C(5)]) (simp add: SM1(4))
    then show ?thesis using c by (simp add: grown_def)
  qed
  ultimately show thesis using that run hn ms by blast
qed

section \<open>Reading and assigning through a key\<close>

lemma hm_at_ok:
  assumes v: "hm_view E s m H D vs" and sz: "small_refs m H"
  shows "(case hm_abs m D k of None \<Rightarrow> hm_at E s m k = None | Some val \<Rightarrow> \<exists>s'. hm_at E s m k = Some (s', val) \<and> hm_view E s' m H D vs)"
proof -
  have z: "length (hm_entries m) + size H < 2 ^ 61" using sz by (simp add: small_refs_def)
  note S = hm_search_ok [OF v z, of k]
  show ?thesis
  proof (cases "hm_lookup m k")
    case None
    then show ?thesis using S by (simp add: hm_at_def hm_abs_def)
  next
    case (Some h)
    then obtain s1 where s1: "hm_search E s m k = Some (s1, h)" "hm_view E s1 m (add_mset (fst h) H) D vs" using S by auto
    note B = bool_entry [OF s1(2) Some]
    obtain s2 where s2: "drop_ref s1 h = Some s2" "hm_view E s2 m H D vs" by (rule view_drop [OF s1(2)])
    show ?thesis using B s1(1) s2 Some data_refs [OF hm_viewD(2) [OF s1(2)], of h]
      by (auto simp: hm_at_def hm_abs_def)
  qed
qed

lemma hm_contains_ok:
  assumes v: "hm_view E s m H D vs" and sz: "small_refs m H"
  obtains s' where "hm_contains E s m k = Some (s', hm_abs m D k \<noteq> None)" "hm_view E s' m H D vs"
proof -
  have z: "length (hm_entries m) + size H < 2 ^ 61" using sz by (simp add: small_refs_def)
  note S = hm_search_ok [OF v z, of k]
  show thesis
  proof (cases "hm_lookup m k")
    case None
    then show ?thesis using S that v by (simp add: hm_contains_def hm_abs_def)
  next
    case (Some h)
    then obtain s1 where s1: "hm_search E s m k = Some (s1, h)" "hm_view E s1 m (add_mset (fst h) H) D vs" using S by auto
    note B = bool_entry [OF s1(2) Some]
    obtain s2 where s2: "drop_ref s1 h = Some s2" "hm_view E s2 m H D vs" by (rule view_drop [OF s1(2)])
    show ?thesis using B s1(1) s2 Some that by (simp add: hm_contains_def hm_abs_def)
  qed
qed

text \<open>Writing a value through a handle.\<close>

lemma assign_refs:
  assumes ok: "refs_ok s H ((h, U, D) # vs)" and v: "ha \<in> U" "D ha \<noteq> None"
  obtains s' where "assign_value s h ha val = Some s'" "refs_ok s' H ((h, U, D(ha \<mapsto> val)) # vs)"
proof -
  obtain own hs es fs where O: "mset hs = H" "hive_ok s h es fs own hs" "hive_alone own h fs"
      "U = slot_handles (uses (nodes s) fs)" "D = hive_data s h" "\<forall>v \<in> set vs. holds s own hs v"
      "distinct (map (hive_id \<circ> fst) vs)" "\<forall>v \<in> set vs. hive_id (fst v) \<noteq> hive_id h"
    by (rule refs_okE [OF ok])
  obtain i k where ha: "ha = (Some i, k)" and u: "(i, unat k) \<in> uses (nodes s) fs"
    using v(1) unfolding O(4) by (cases ha; cases "fst ha") auto
  then have i: "i \<in> set fs" "unat k \<in> used (the (nodes s i))" by (auto simp: uses_iff)
  obtain s' where U: "update_chunk s (Some i) (slots_update (\<lambda>f. f(unat k := Some val))) = Some s'" "hive_ok s' h es fs own hs"
      "uses (nodes s') fs = uses (nodes s) fs" "cont (nodes s') fs = (cont (nodes s) fs)((i, unat k) := Some val)" "\<forall>j. j \<noteq> i \<longrightarrow> nodes s' j = nodes s j"
    using slot_upd_ok [OF O(2) i, of "Some val"] by blast
  have iv: "own i = Some (hive_id h)" by (rule hive_okD(5) [OF O(2) i(1)])
  have "holds s' own hs v" if "v \<in> set vs" for v
  proof (rule holds_frame [OF O(6) [rule_format, OF that] hive_okD(1) [OF U(2)]])
    fix j assume "own j = Some (hive_id (fst v))"
    then have "j \<noteq> i" using iv O(8) that by auto
    then show "nodes s' j = nodes s j" using U(5) by simp
  qed simp
  then have "refs_ok s' H ((h, U, D(ha \<mapsto> val)) # vs)"
    using O(1,3,4,7,8) U(2,3) data_upd [OF O(2,3) U(2) O(3) U(4)] O(5) ha by (intro refs_okI [of hs]) auto
  moreover have "assign_value s h ha val = Some s'"
    using v(2) U(1) data_refs [OF ok, of ha] ha by (auto simp: assign_value_def construct_slot_def)
  ultimately show thesis using that by blast
qed

lemma hm_insert_or_assign_old:
  assumes v: "hm_view E s m H D vs" and sz: "small_refs m H" and l: "hm_lookup m k = Some h"
  obtains s' m' where "hm_insert_or_assign E s d m k val = Some (s', d, m', False, h)" "hm_view E s' m' (add_mset (fst h) H) (D(h \<mapsto> val)) vs"
    "same_map m m'" "grown m m'"
proof -
  obtain s1 m1 where S: "step_rehash E REHASH_STEP_COUNT s m = Some (s1, m1)" "hm_view E s1 m1 H D vs" "same_map m m1"
    "resting E m1 \<or> (\<exists>N. moving E N 4 m1)" "hm_capacity m1 = hm_capacity m"
    by (rule op_step_ok [OF v sz])
  have l1: "hm_lookup m1 k = Some h" using same_map_lookup [OF S(3) hm_viewD(5) [OF v]] l by simp
  have "length (hm_entries m1) + size H < 2 ^ 61" using sz same_mapD(4) [OF S(3)] by (simp add: small_refs_def)
  from hm_search_ok [OF S(2) this, of k] obtain s2 where F: "hm_search E s1 m1 k = Some (s2, h)" "hm_view E s2 m1 (add_mset (fst h) H) D vs"
    unfolding l1 by auto
  note V = hm_viewD [OF F(2)] and B = bool_entry [OF F(2) l1]
  have hin: "h \<in> snd ` set (hm_entries m1)" using map_of_SomeD [OF l1 [unfolded hm_lookup_def]] by (metis image_eqI snd_conv)
  obtain s3 where A: "assign_value s2 (hm_hive m1) h val = Some s3"
    "refs_ok s3 (refs_of (hm_entries m1) + add_mset (fst h) H) ((hm_hive m1, snd ` set (hm_entries m1), D(h \<mapsto> val)) # vs)"
    by (rule assign_refs [OF V(2) hin B(2)])
  have "hm_view E s3 m1 (add_mset (fst h) H) (D(h \<mapsto> val)) vs" using V(1,3,4) A(2) by (auto simp: hm_view_def)
  then show thesis using that S(1,3) F(1) B(1) A(1) grown_same [OF S(5)] by (simp add: hm_insert_or_assign_def)
qed

lemma hm_insert_or_assign_new:
  assumes E: "env_ok E" and v: "hm_view E s m H D vs" and sz: "small_refs m H" and grow: "can_grow E m" and l: "hm_lookup m k = None"
  obtains s' d' m' h where "hm_insert_or_assign E s d m k val = Some (s', d', m', True, h)" "hm_view E s' m' (add_mset (fst h) H) (D(h \<mapsto> val)) vs"
    "hm_lookup m' = (hm_lookup m)(k \<mapsto> h)" "h \<notin> snd ` set (hm_entries m)" "mset (hm_entries m') = add_mset (k, h) (mset (hm_entries m))"
    "grown m m'"
proof -
  obtain s1 m1 where S: "step_rehash E REHASH_STEP_COUNT s m = Some (s1, m1)" "hm_view E s1 m1 H D vs" "same_map m m1"
    "resting E m1 \<or> (\<exists>N. moving E N 4 m1)" "hm_capacity m1 = hm_capacity m"
    by (rule op_step_ok [OF v sz])
  note SM1 = same_mapD [OF S(3)] and L = same_map_lookup [OF S(3) hm_viewD(5) [OF v]]
  have z1: "small_refs m1 H" "length (hm_entries m1) + size H < 2 ^ 61" using sz SM1(4) by (simp_all add: small_refs_def)
  have l1: "hm_lookup m1 k = None" using L l by simp
  have F: "hm_search E s1 m1 k = Some (s1, null_handle)" using hm_search_ok [OF S(2) z1(2), of k] l1 by simp
  have g1: "can_grow E m1" using grow S(5) by (simp add: can_grow_def)
  obtain s' d' m' h where P: "hm_emplace E s1 d m1 k val = Some (s', d', m', True, h)" "hm_view E s' m' (add_mset (fst h) H) (D(h \<mapsto> val)) vs"
    "hm_lookup m' = (hm_lookup m1)(k \<mapsto> h)" "h \<notin> snd ` set (hm_entries m1)" "mset (hm_entries m') = add_mset (k, h) (mset (hm_entries m1))"
    "grown m1 m'"
    by (rule hm_emplace_new [OF E S(2) z1(1) g1 l1])
  have "hm_insert_or_assign E s d m k val = Some (s', d', m', True, h)" using S(1) F P(1) by (simp add: hm_insert_or_assign_def)
  moreover have "grown m m'" by (rule grown_trans [OF grown_same [OF S(5)] P(6)]) (simp add: SM1(4))
  ultimately show thesis using that P(2-5) L SM1(1,5) by simp
qed

end
