(* ===== verification/HashRemove.thy ===== *)
theory HashRemove
  imports HashInsert
begin

text \<open>Removing from the hash map by key and by handle, and clearing it.\<close>

section \<open>An entry goes\<close>

lemma map_of_less:
  assumes "map_of xs = (map_of ys)(k \<mapsto> h)" "map_of ys k = None"
  shows "map_of ys = (map_of xs)(k := None)"
  using assms by (auto simp: fun_eq_iff)

text \<open>The map without the entry that slot \<open>i\<close> of one of its tables held.\<close>

definition set_table :: "bool \<Rightarrow> 'k hashmap \<Rightarrow> 'k hash_table \<Rightarrow> 'k hashmap" where
  "set_table second m t = (if second then m\<lparr>table1 := t\<rparr> else m\<lparr>table0 := t\<rparr>)"

definition get_table :: "bool \<Rightarrow> 'k hashmap \<Rightarrow> 'k hash_table" where
  "get_table second m = (if second then table1 m else table0 m)"

lemma set_table_simps [simp]:
  "hm_hive (set_table b m t) = hm_hive m" "rehashing (set_table b m t) = rehashing m" "hm_entries ((set_table b m t)\<lparr>hm_hive := hv\<rparr>) = hm_entries (set_table b m t)"
  by (simp_all add: set_table_def hm_entries_def)

lemma capacity_set_table:
  "capacity t = capacity (get_table b m) \<Longrightarrow> hm_capacity ((set_table b m t)\<lparr>hm_hive := hv\<rparr>) = hm_capacity m"
  by (simp add: hm_capacity_def set_table_def get_table_def split: if_splits)

lemma load_erase:
  assumes "mset (tbl_entries t) = add_mset x (mset (tbl_entries t'))" "card (tombs t') = card (tombs t) + 1"
  shows "load t' = load t"
  using length_mset_add [OF assms(1)] assms(2) by (simp add: load_def)

lemma erase_ok:
  assumes ok: "hm_ok E m" and e: "elems (get_table b m) i = Some (k, h)" and b: "b \<Longrightarrow> rehashing m" and nb: "capacity (table0 m) \<noteq> 0"
    and s: "drop_ref s h = Some s'"
  obtains t where "erase_slot s (get_table b m) (of_nat i) = Some (s', t)" "hm_ok E (set_table b m t)"
    "mset (hm_entries m) = add_mset (k, h) (mset (hm_entries (set_table b m t)))" "i < cap_of (get_table b m)"
    "capacity t = capacity (get_table b m)"
proof -
  have tok: "table_ok E (get_table b m)"
    using ok b nb by (auto simp: hm_ok_def resting_def at_rest_def blank_def moving_def get_table_def)
  note i = elems_less [OF table_okD(1) [OF tok] e]
  obtain t where T: "erase_slot s (get_table b m) (of_nat i) = Some (s', t)" "table_ok E t" "capacity t = capacity (get_table b m)"
    "random_key t = random_key (get_table b m)" "elems t = (elems (get_table b m))(i := None)" "card (tombs t) = card (tombs (get_table b m)) + 1"
    "tombs_ok (get_table b m) \<Longrightarrow> tombs_ok t" "unat (tsize t) = unat (tsize (get_table b m)) - 1"
    using erase_slot_ok [OF tok e s] by blast
  note ms = entries_del [OF T(5) e i T(3)]
  have M: "mset (hm_entries m) = add_mset (k, h) (mset (hm_entries (set_table b m t)))"
    using ms by (simp add: hm_entries_def set_table_def get_table_def split: if_splits)
  have d: "distinct (map fst (hm_entries (set_table b m t)))" using one_more_entry(1) [OF M] ok by (simp add: hm_ok_def)
  have ld: "load t = load (get_table b m)" by (rule load_erase [OF ms T(6)])
  note len = length_mset_add [OF ms]
  have "resting E (set_table b m t) \<or> (\<exists>N. moving E N 0 (set_table b m t))"
  proof (cases "rehashing m")
    case True
    then obtain N where "moving E N 0 m" using ok by (auto simp: hm_ok_def resting_def)
    note M = movingD [OF this]
    have "moving E N 0 (set_table b m t)"
      using M T ld len by (cases b) (auto simp: moving_def set_table_def get_table_def cap_of_def)
    then show ?thesis by blast
  next
    case False
    then have r: "blank (table1 m)" "at_rest E (table0 m)" and nbb: "\<not> b" using ok nb b movingD(1) by (auto simp: hm_ok_def resting_def blank_def)
    have "at_rest E t" using r(2) T nbb ld by (simp add: at_rest_def get_table_def cap_of_def)
    then show ?thesis using r(1) False nbb by (simp add: resting_def set_table_def)
  qed
  then have "hm_ok E (set_table b m t)" using d by (simp add: hm_ok_def)
  then show thesis using that T(1,3) M i by blast
qed

text \<open>The removal of an entry, once its slot is known.\<close>

lemma remove_from_ok:
  assumes E: "env_ok E" and v: "hm_view E s m H D vs" and sz: "length (hm_entries m) + size H + 3 < 2 ^ 61"
    and e: "elems (get_table b m) i = Some (k, h)" and b: "b \<Longrightarrow> rehashing m" and nb: "capacity (table0 m) \<noteq> 0"
    and r: "raw_at (tslots (get_table b m)) (of_nat i) = Some (k, h)" and l: "hm_lookup m k = Some h"
  obtains s' d' m' where "remove_from E b s d m (of_nat i) = Some (s', d', m')" "hm_view E s' m' H (D(h := None)) vs"
    "hm_lookup m' = (hm_lookup m)(k := None)" "mset (hm_entries m) = add_mset (k, h) (mset (hm_entries m'))" "grown m m'"
proof -
  note V = hm_viewD [OF v]
  obtain s1 where A: "copy_ref s h = Some (s1, h)" "hm_view E s1 m (add_mset (fst h) H) D vs"
    by (rule search_copy [OF v _ l]) (use sz in simp)
  note V1 = hm_viewD [OF A(2)]
  have kh: "(k, h) \<in> set (hm_entries m)" using l lookup_iff [OF V(5)] by simp
  have hin: "fst h \<in># refs_of (hm_entries m)" using kh by (force simp: refs_of_def)
  obtain s2 where B: "drop_ref s1 h = Some s2" "refs_ok s2 (refs_of (hm_entries m) + H) ((hm_hive m, snd ` set (hm_entries m), D) # vs)"
    using drop_ref_ok [of s1 h "refs_of (hm_entries m) + H"] V1(2) by auto
  obtain t where T: "erase_slot s1 (get_table b m) (of_nat i) = Some (s2, t)" "hm_ok E (set_table b m t)"
    "mset (hm_entries m) = add_mset (k, h) (mset (hm_entries (set_table b m t)))" "i < cap_of (get_table b m)"
    "capacity t = capacity (get_table b m)"
    by (rule erase_ok [OF V(1) e b nb B(1)])
  note O = one_more_entry [OF T(3) V(5)]
  have Dh: "D h \<noteq> None" using bool_entry(2) [OF v l] .
  obtain s3 hv where C: "hive_remove s2 (hm_hive m) h = Some (s3, hv)" "hive_id hv = hive_id (hm_hive m)"
    "refs_ok s3 (refs_of (hm_entries m) + H) ((hv, snd ` set (hm_entries m) - {h}, D(h := None)) # vs)"
    by (rule remove_refs [OF B(2) Dh])
  let ?m = "(set_table b m t)\<lparr>hm_hive := hv\<rparr>"
  have rf: "refs_of (hm_entries m) = add_mset (fst h) (refs_of (hm_entries ?m))"
    using refs_of_mset [of "hm_entries m" "(k, h) # hm_entries ?m"] T(3) by simp
  have "mset (map snd (hm_entries m)) = mset (h # map snd (hm_entries ?m))" using arg_cong [OF T(3), of "image_mset snd"] by simp
  then have ds: "distinct (h # map snd (hm_entries ?m))" using V(3) mset_eq_imp_distinct_iff by blast
  have U: "snd ` set (hm_entries m) - {h} = snd ` set (hm_entries ?m)" using O(4) ds by auto
  have r3: "refs_ok s3 (refs_of (hm_entries ?m) + add_mset (fst h) H) ((hm_hive ?m, snd ` set (hm_entries ?m), D(h := None)) # vs)"
    using C(3) unfolding rf U by simp
  have l3: "length (hm_entries ?m) + size (add_mset (fst h) H) + 1 < 2 ^ 61"
    using sz length_mset_add [OF T(3)] by simp
  have ok3: "hm_ok E ?m" using T(2) by simp
  obtain s4 d4 m4 where K: "check_shrink E s3 d ?m = Some (s4, d4, m4)"
    "refs_ok s4 (refs_of (hm_entries ?m) + add_mset (fst h) H) ((hm_hive ?m, snd ` set (hm_entries ?m), D(h := None)) # vs)" "same_map ?m m4" "hm_ok E m4"
    "grown ?m m4"
    by (rule check_shrink_ok [OF E ok3 r3 l3])
  have v3: "hm_view E s3 ?m (add_mset (fst h) H) (D(h := None)) vs"
    using ok3 r3 ds V(4) O(4) by (auto simp: hm_view_def)
  note v4 = same_map_view [OF v3 K(3,4,2)]
  obtain s5 where F: "drop_ref s4 h = Some s5" "hm_view E s5 m4 H (D(h := None)) vs" by (rule view_drop [OF v4])
  have "remove_from E b s d m (of_nat i) = Some (s5, d4, m4)"
    using r A(1) T(1) C(1) K(1) F(1) by (cases b) (simp_all add: remove_from_def get_table_def set_table_def)
  moreover have "hm_lookup m4 = (hm_lookup m)(k := None)"
    using same_map_lookup [OF K(3)] hm_viewD(5) [OF v3] map_of_less [OF O(3,2)] by (simp add: hm_lookup_def)
  moreover have "mset (hm_entries m) = add_mset (k, h) (mset (hm_entries m4))" using T(3) same_mapD(1) [OF K(3)] by simp
  moreover have "grown m m4"
    by (rule grown_trans [OF grown_same K(5)]) (use T(5) capacity_set_table length_mset_add [OF T(3)] in simp_all)
  ultimately show thesis using that F(2) by blast
qed

lemma hm_remove_ok:
  assumes E: "env_ok E" and v: "hm_view E s m H D vs" and sz: "small_refs m H" and l: "hm_lookup m k = Some h"
  obtains s' d' m' where "hm_remove E s d m k = Some (s', d', m', True)" "hm_view E s' m' H (D(h := None)) vs"
    "hm_lookup m' = (hm_lookup m)(k := None)" "mset (hm_entries m) = add_mset (k, h) (mset (hm_entries m'))" "grown m m'"
proof -
  have nb0: "capacity (table0 m) \<noteq> 0" using lookup_blank(1) [OF hm_viewD(1) [OF v], of k] l by auto
  obtain s1 m1 where S: "step_rehash E REHASH_STEP_COUNT s m = Some (s1, m1)" "hm_view E s1 m1 H D vs" "same_map m m1"
    "resting E m1 \<or> (\<exists>N. moving E N 4 m1)" "hm_capacity m1 = hm_capacity m"
    by (rule op_step_ok [OF v sz])
  note L = same_map_lookup [OF S(3) hm_viewD(5) [OF v]] and SM = same_mapD [OF S(3)]
  have l1: "hm_lookup m1 k = Some h" using L l by simp
  have nb: "capacity (table0 m1) \<noteq> 0" using lookup_blank(1) [OF hm_viewD(1) [OF S(2)], of k] l1 by auto
  have z1: "length (hm_entries m1) + size H + 3 < 2 ^ 61" using sz SM(4) by (simp add: small_refs_def)
  show thesis
    using hm_viewD(1) [OF S(2)] nb
  proof (cases rule: find_both [where k = k])
    case (second i h')
    then have h': "h' = h" using l1 by simp
    have e: "elems (get_table True m1) i = Some (k, h)" "raw_at (tslots (get_table True m1)) (of_nat i) = Some (k, h)"
      using second(4,5) h' by (simp_all add: get_table_def)
    obtain s' d' m' where R: "remove_from E True s1 d m1 (of_nat i) = Some (s', d', m')" "hm_view E s' m' H (D(h := None)) vs"
      "hm_lookup m' = (hm_lookup m1)(k := None)" "mset (hm_entries m1) = add_mset (k, h) (mset (hm_entries m'))" "grown m1 m'"
      by (rule remove_from_ok [OF E S(2) z1 e(1) second(1) nb e(2) l1])
    have "grown m m'" by (rule grown_trans [OF grown_same [OF S(5)] R(5)]) (simp add: SM(4))
    then show thesis using that [of s' d' m'] R S(1) second nb0 L SM(1) by (simp add: hm_remove_def)
  next
    case (first i h')
    then have h': "h' = h" using l1 by simp
    have e: "elems (get_table False m1) i = Some (k, h)" "raw_at (tslots (get_table False m1)) (of_nat i) = Some (k, h)"
      using first(4,5) h' by (simp_all add: get_table_def)
    obtain s' d' m' where R: "remove_from E False s1 d m1 (of_nat i) = Some (s', d', m')" "hm_view E s' m' H (D(h := None)) vs"
      "hm_lookup m' = (hm_lookup m1)(k := None)" "mset (hm_entries m1) = add_mset (k, h) (mset (hm_entries m'))" "grown m1 m'"
      by (rule remove_from_ok [OF E S(2) z1 e(1) _ nb e(2) l1]) simp
    have "grown m m'" by (rule grown_trans [OF grown_same [OF S(5)] R(5)]) (simp add: SM(4))
    then show thesis using that [of s' d' m'] R S(1) first nb0 L SM(1) by (cases "rehashing m1") (simp_all add: hm_remove_def)
  next
    case absent
    then show thesis using l1 by simp
  qed
qed

lemma hm_remove_absent:
  assumes v: "hm_view E s m H D vs" and sz: "small_refs m H" and l: "hm_lookup m k = None"
  obtains s' m' where "hm_remove E s d m k = Some (s', d, m', False)" "hm_view E s' m' H D vs" "same_map m m'" "grown m m'"
proof (cases "capacity (table0 m) = 0")
  case True
  then show thesis using that [of s m] v by (simp add: hm_remove_def)
next
  case nb0: False
  obtain s1 m1 where S: "step_rehash E REHASH_STEP_COUNT s m = Some (s1, m1)" "hm_view E s1 m1 H D vs" "same_map m m1"
    "resting E m1 \<or> (\<exists>N. moving E N 4 m1)" "hm_capacity m1 = hm_capacity m"
    by (rule op_step_ok [OF v sz])
  have l1: "hm_lookup m1 k = None" using same_map_lookup [OF S(3) hm_viewD(5) [OF v]] l by simp
  show thesis
  proof (cases "capacity (table0 m1) = 0")
    case True
    have "resting E m1" using True hm_viewD(6) [OF S(2)] nonblank_cap movingD(2) by blast
    then have "\<not> rehashing m1" by (simp add: resting_def)
    moreover from this have "find_in E (table0 m1) k = Some NOT_FOUND" using True by (simp add: find_in_def find_slot_def)
    ultimately show thesis using that [of s1 m1] S(1-3) nb0 grown_same [OF S(5)] by (simp add: hm_remove_def)
  next
    case nb: False
    show thesis
      using hm_viewD(1) [OF S(2)] nb
    proof (cases rule: find_both [where k = k])
      case absent
      then show thesis using that [of s1 m1] S(1-3) nb0 grown_same [OF S(5)] by (cases "rehashing m1") (simp_all add: hm_remove_def)
    qed (use l1 in simp_all)
  qed
qed

section \<open>By handle\<close>

text \<open>The search from slot to slot finds the slot of a handle of the map.\<close>

lemma match_handle_ok:
  assumes S: "table_shape t" and eq: "\<And>k ha. (k, ha) \<in> set (tbl_entries t) \<Longrightarrow> hive_handle_eq (tagged s) ha h = Some (ha = h)"
  shows "\<exists>r. match_handle s t h = Some r \<and>
    (case r of Inl i \<Rightarrow> \<exists>j k. i = of_nat j \<and> j < cap_of t \<and> elems t j = Some (k, h) | Inr _ \<Rightarrow> h \<notin> snd ` set (tbl_entries t))"
  unfolding match_handle_def
proof (rule while_ret_post [where N = "cap_of t" and k = 0 and
      R = "\<lambda>k st. st = of_nat k \<and> (\<forall>j < k. \<forall>x. elems t j \<noteq> Some (x, h))"], goal_cases)
  case (3 k st)
  then have st: "st = of_nat k" and old: "\<forall>j < k. \<forall>x. elems t j \<noteq> Some (x, h)" and b: "st < capacity t" and k: "k \<le> cap_of t" by auto
  have u: "unat (of_nat k :: u64) = k" using k table_shapeD(2) [OF S] by (simp add: unat_of_nat_u64)
  then have k: "k < cap_of t" using b st by (simp add: word_less_nat_alt cap_of_def)
  have c: "ctrl_at t st = Some (ctrl t ! k)" using u k table_shapeD(3) [OF S] by (simp add: ctrl_at_def st)
  show ?case
  proof (cases "is_full (ctrl t ! k)")
    case True
    then obtain x ha where e: "elems t k = Some (x, ha)" using table_shapeD(5) [OF S, of k] k by auto
    then have "hive_handle_eq (tagged s) ha h = Some (ha = h)" using eq in_entries [OF S] by blast
    then show ?thesis
    proof (cases "ha = h")
      case True
      then show ?thesis
        using \<open>is_full (ctrl t ! k)\<close> \<open>hive_handle_eq (tagged s) ha h = Some (ha = h)\<close> c e raw_at_elems [OF S k] k
        by (intro disjI2) (auto simp: st is_full_def)
    next
      case False
      then show ?thesis
        using \<open>is_full (ctrl t ! k)\<close> \<open>hive_handle_eq (tagged s) ha h = Some (ha = h)\<close> c e raw_at_elems [OF S k] k old
        by (intro disjI1) (auto simp: st is_full_def less_Suc_eq add.commute intro!: exI [of _ "Suc k"])
    qed
  next
    case False
    then have "elems t k = None" using table_shapeD(5) [OF S] by metis
    then show ?thesis using False c k old by (auto simp: st is_full_def less_Suc_eq add.commute intro!: exI [of _ "Suc k"])
  qed
next
  case (4 k st)
  then have "unat (of_nat k :: u64) = k" using table_shapeD(2) [OF S] by (simp add: unat_of_nat_u64)
  then have "k = cap_of t" using 4 by (simp add: word_less_nat_alt cap_of_def)
  then show ?case using 4(1) elems_less [OF S] in_entries [OF S] by (auto simp: image_iff) blast
qed auto

lemma first_table:
  assumes "hm_ok E m" "hm_entries m \<noteq> []"
  shows "table_ok E (table0 m)" "capacity (table0 m) \<noteq> 0" "rehashing m \<Longrightarrow> table_ok E (table1 m)" "\<not> rehashing m \<Longrightarrow> tbl_entries (table1 m) = []"
proof -
  show "table_ok E (table0 m)" using assms by (auto simp: hm_ok_def resting_def at_rest_def moving_def hm_entries_def)
  then show "capacity (table0 m) \<noteq> 0" by (rule nonblank_cap)
  show "rehashing m \<Longrightarrow> table_ok E (table1 m)" "\<not> rehashing m \<Longrightarrow> tbl_entries (table1 m) = []"
    using assms by (auto simp: hm_ok_def resting_def moving_def)
qed

text \<open>The two tables together: the slot found is the only one with that handle.\<close>

lemma find_handle:
  assumes v: "hm_view E s m H D vs" and h: "(k, h) \<in> set (hm_entries m)"
  obtains (first) i where "match_handle s (table0 m) h = Some (Inl (of_nat i))" "elems (table0 m) i = Some (k, h)" "i < cap_of (table0 m)"
    | (second) i u where "match_handle s (table0 m) h = Some (Inr u)" "rehashing m" "match_handle s (table1 m) h = Some (Inl (of_nat i))"
      "elems (table1 m) i = Some (k, h)" "i < cap_of (table1 m)"
proof -
  note V = hm_viewD [OF v]
  have ne: "hm_entries m \<noteq> []" using h by auto
  note F = first_table [OF V(1) ne]
  have hin: "h \<in> snd ` set (hm_entries m)" using h by force
  have eq: "hive_handle_eq (tagged s) ha h = Some (ha = h)" if "(k', ha) \<in> set (hm_entries m)" for k' ha
    using eq_refs [OF V(2) _ hin, of ha] that by force
  have uniq: "k' = k" if "(k', h) \<in> set (hm_entries m)" for k'
    using that h V(3) by (metis distinct_map inj_onD prod.inject snd_conv)
  have "\<exists>r. match_handle s (table0 m) h = Some r \<and>
    (case r of Inl i \<Rightarrow> \<exists>j k. i = of_nat j \<and> j < cap_of (table0 m) \<and> elems (table0 m) j = Some (k, h) | Inr _ \<Rightarrow> h \<notin> snd ` set (tbl_entries (table0 m)))"
    by (rule match_handle_ok [OF table_okD(1) [OF F(1)]]) (metis eq hm_entries_def UnCI set_append)
  then obtain r where r: "match_handle s (table0 m) h = Some r"
    "case r of Inl i \<Rightarrow> \<exists>j k. i = of_nat j \<and> j < cap_of (table0 m) \<and> elems (table0 m) j = Some (k, h) | Inr _ \<Rightarrow> h \<notin> snd ` set (tbl_entries (table0 m))" by blast
  show thesis
  proof (cases r)
    case (Inl x)
    then obtain j k' where j: "x = of_nat j" "j < cap_of (table0 m)" "elems (table0 m) j = Some (k', h)" using r(2) by auto
    then have "(k', h) \<in> set (hm_entries m)" using in_entries [OF table_okD(1) [OF F(1)]] by (auto simp: hm_entries_def)
    then show thesis using first [of j] r(1) Inl j uniq by simp
  next
    case (Inr u)
    then have n: "h \<notin> snd ` set (tbl_entries (table0 m))" using r(2) by simp
    then have k1: "(k, h) \<in> set (tbl_entries (table1 m))" using h by (force simp: hm_entries_def)
    then have rh: "rehashing m" using F(4) by (cases "rehashing m") simp_all
    note t1 = F(3) [OF rh]
    have "\<exists>r. match_handle s (table1 m) h = Some r \<and>
      (case r of Inl i \<Rightarrow> \<exists>j k. i = of_nat j \<and> j < cap_of (table1 m) \<and> elems (table1 m) j = Some (k, h) | Inr _ \<Rightarrow> h \<notin> snd ` set (tbl_entries (table1 m)))"
      by (rule match_handle_ok [OF table_okD(1) [OF t1]]) (metis eq hm_entries_def UnCI set_append)
    then obtain q where q: "match_handle s (table1 m) h = Some q"
      "case q of Inl i \<Rightarrow> \<exists>j k. i = of_nat j \<and> j < cap_of (table1 m) \<and> elems (table1 m) j = Some (k, h) | Inr _ \<Rightarrow> h \<notin> snd ` set (tbl_entries (table1 m))" by blast
    show thesis
    proof (cases q)
      case (Inl x)
      then obtain j k' where j: "x = of_nat j" "j < cap_of (table1 m)" "elems (table1 m) j = Some (k', h)" using q(2) by auto
      then have "(k', h) \<in> set (hm_entries m)" using in_entries [OF table_okD(1) [OF t1]] by (auto simp: hm_entries_def)
      then show thesis using second [of u j] r(1) Inr q(1) Inl j uniq rh by simp
    next
      case (Inr w)
      then show thesis using q(2) k1 by force
    qed
  qed
qed

lemma hm_key_ok:
  assumes v: "hm_view E s m H D vs" and h: "(k, h) \<in> set (hm_entries m)"
  shows "hm_key s m h = Some k"
proof -
  have ne: "hm_entries m \<noteq> []" using h by auto
  note F = first_table [OF hm_viewD(1) [OF v] ne]
  show ?thesis
    using v h
  proof (cases rule: find_handle)
    case (first i)
    then show ?thesis using raw_at_elems [OF table_okD(1) [OF F(1)] first(3)] by (simp add: hm_key_def)
  next
    case (second i u)
    then show ?thesis using raw_at_elems [OF table_okD(1) [OF F(3)] second(5)] by (simp add: hm_key_def)
  qed
qed

text \<open>\<open>remove\<close> with a handle the client holds.\<close>

lemma hm_remove_handle_ok:
  assumes E: "env_ok E" and v: "hm_view E s m H D vs" and sz: "small_refs m H" and l: "hm_lookup m k = Some h"
  obtains s' d' m' where "hm_remove_handle E s d m h = Some (s', d', m')" "hm_view E s' m' H (D(h := None)) vs"
    "hm_lookup m' = (hm_lookup m)(k := None)" "mset (hm_entries m) = add_mset (k, h) (mset (hm_entries m'))" "grown m m'"
proof -
  obtain s1 m1 where S: "step_rehash E REHASH_STEP_COUNT s m = Some (s1, m1)" "hm_view E s1 m1 H D vs" "same_map m m1"
    "resting E m1 \<or> (\<exists>N. moving E N 4 m1)" "hm_capacity m1 = hm_capacity m"
    by (rule op_step_ok [OF v sz])
  note V = hm_viewD [OF S(2)]
  note L = same_map_lookup [OF S(3) hm_viewD(5) [OF v]] and SM = same_mapD [OF S(3)]
  have l1: "hm_lookup m1 k = Some h" using L l by simp
  have kh: "(k, h) \<in> set (hm_entries m1)" using l1 lookup_iff [OF V(5)] by simp
  then have ne: "hm_entries m1 \<noteq> []" by auto
  have "fst h \<in># refs_of (hm_entries m1)" using kh by (force simp: refs_of_def)
  then obtain R where R: "refs_of (hm_entries m1) + H = add_mset (fst h) R" by (metis insert_DiffM multi_member_split union_mset_add_mset_left)
  obtain s2 where B: "drop_ref s1 h = Some s2" "refs_ok s2 R ((hm_hive m1, snd ` set (hm_entries m1), D) # vs)"
    using drop_ref_ok [of s1 h R] V(2) R by auto
  obtain b i where bi: "elems (get_table b m1) i = Some (k, h)" "b \<longrightarrow> rehashing m1"
    "\<And>t. erase_slot s1 (get_table b m1) (of_nat i) = Some (s2, t) \<Longrightarrow> erase_slot_matching_handle s1 m1 h = Some (s2, set_table b m1 t, True)"
    using S(2) kh
  proof (cases rule: find_handle)
    case (first i)
    then show thesis using that [of False i] by (simp add: get_table_def set_table_def erase_slot_matching_handle_def)
  next
    case (second i u)
    then show thesis using that [of True i] by (simp add: get_table_def set_table_def erase_slot_matching_handle_def)
  qed
  obtain t where T: "erase_slot s1 (get_table b m1) (of_nat i) = Some (s2, t)" "hm_ok E (set_table b m1 t)"
    "mset (hm_entries m1) = add_mset (k, h) (mset (hm_entries (set_table b m1 t)))" "i < cap_of (get_table b m1)"
    "capacity t = capacity (get_table b m1)"
    by (rule erase_ok [OF V(1) bi(1) _ first_table(2) [OF V(1) ne] B(1)]) (use bi(2) in simp)
  note O = one_more_entry [OF T(3) V(5)]
  have Dh: "D h \<noteq> None" by (rule bool_entry(2) [OF S(2) l1])
  obtain s3 hv where C: "hive_remove s2 (hm_hive m1) h = Some (s3, hv)" "hive_id hv = hive_id (hm_hive m1)"
    "refs_ok s3 R ((hv, snd ` set (hm_entries m1) - {h}, D(h := None)) # vs)"
    by (rule remove_refs [OF B(2) Dh])
  let ?m = "(set_table b m1 t)\<lparr>hm_hive := hv\<rparr>"
  have "refs_of (hm_entries m1) = add_mset (fst h) (refs_of (hm_entries ?m))"
    using refs_of_mset [of "hm_entries m1" "(k, h) # hm_entries ?m"] T(3) by simp
  then have rf: "R = refs_of (hm_entries ?m) + H" using R by simp
  have "mset (map snd (hm_entries m1)) = mset (h # map snd (hm_entries ?m))" using arg_cong [OF T(3), of "image_mset snd"] by simp
  then have ds: "distinct (h # map snd (hm_entries ?m))" using V(3) mset_eq_imp_distinct_iff by blast
  have U: "snd ` set (hm_entries m1) - {h} = snd ` set (hm_entries ?m)" using O(4) ds by auto
  have r3: "refs_ok s3 (refs_of (hm_entries ?m) + H) ((hm_hive ?m, snd ` set (hm_entries ?m), D(h := None)) # vs)"
    using C(3) unfolding rf U by simp
  have l3: "length (hm_entries ?m) + size H + 1 < 2 ^ 61"
    using sz length_mset_add [OF T(3)] SM(4) by (simp add: small_refs_def)
  have ok3: "hm_ok E ?m" using T(2) by simp
  obtain s4 d4 m4 where K: "check_shrink E s3 d ?m = Some (s4, d4, m4)"
    "refs_ok s4 (refs_of (hm_entries ?m) + H) ((hm_hive ?m, snd ` set (hm_entries ?m), D(h := None)) # vs)" "same_map ?m m4" "hm_ok E m4"
    "grown ?m m4"
    by (rule check_shrink_ok [OF E ok3 r3 l3])
  have v3: "hm_view E s3 ?m H (D(h := None)) vs"
    using ok3 r3 ds V(4) O(4) by (auto simp: hm_view_def)
  have "hm_remove_handle E s d m h = Some (s4, d4, m4)"
    using bool_entry(1) [OF v l] S(1) bi(3) [OF T(1)] C(1) K(1) by (simp add: hm_remove_handle_def)
  moreover have "hm_lookup m4 = (hm_lookup m)(k := None)"
    using same_map_lookup [OF K(3)] hm_viewD(5) [OF v3] map_of_less [OF O(3,2)] L by (simp add: hm_lookup_def)
  moreover have "mset (hm_entries m) = add_mset (k, h) (mset (hm_entries m4))" using T(3) same_mapD(1) [OF K(3)] SM(1) by simp
  moreover have "grown m1 m4"
    by (rule grown_trans [OF grown_same K(5)]) (use T(5) capacity_set_table length_mset_add [OF T(3)] in simp_all)
  then have "grown m m4" by (rule grown_trans [OF grown_same [OF S(5)]]) (simp add: SM(4))
  ultimately show thesis using that same_map_view [OF v3 K(3,4,2)] by blast
qed

end
