(* ===== verification/HashClear.thy ===== *)
theory HashClear
  imports HashRemove
begin

text \<open>
  Whole hash maps: a new one, the end of a rehash, \<open>clear\<close> and the destructor.
\<close>

section \<open>A new map\<close>

definition fresh_id :: "'v hive_store \<Rightarrow> u64 \<Rightarrow> bool" where
  "fresh_id s i \<longleftrightarrow> (\<forall>j t. tags (tagged s) j = Some t \<longrightarrow> tag_id t \<noteq> i)"

lemma new_refs:
  assumes ok: "refs_ok s H vs" and i: "fresh_id s i" "\<forall>v \<in> set vs. hive_id (fst v) \<noteq> i"
  shows "refs_ok s H ((hive_new i, {}, Map.empty) # vs)"
proof -
  obtain own hs where O: "mset hs = H" "store_ok s own hs" "distinct (map (hive_id \<circ> fst) vs)" "\<forall>v \<in> set vs. holds s own hs v"
    using ok unfolding refs_ok_def by blast
  have "own j \<noteq> Some i" for j using i(1) store_okD(3) [OF O(2), of j i] by (auto simp: fresh_id_def)
  then have al: "hive_alone own (hive_new i) []" by (simp add: hive_alone_def hive_new_def)
  have N: "hive_ok s (hive_new i) [] [] own hs" by (rule hive_new_ok [OF O(2)])
  have "Map.empty = hive_data s (hive_new i)" unfolding data_eq [OF N al] by (auto simp: cont_def split: option.splits)
  moreover have "hive_id (hive_new i) = i" by (simp add: hive_new_def)
  ultimately show ?thesis
    using O i(2) al by (intro refs_okI [OF O(1) N al]) (auto simp: uses_def slot_handles_def)
qed

lemma refs_empty: "refs_ok empty_store {#} []"
  using store_ok_empty unfolding refs_ok_def by (intro exI [of _ Map.empty] exI [of _ "[]"]) simp

lemma hm_new_ok:
  assumes E: "env_ok E" and ok: "refs_ok s H vs" "fresh_id s i" "\<forall>v \<in> set vs. hive_id (fst v) \<noteq> i"
  obtains m where "hm_new E d i = Some (Suc d, m)" "hm_view E s m H Map.empty vs" "hm_entries m = []" "hm_capacity m = 0" "hive_id (hm_hive m) = i"
    "resting E m" "hm_hive m = hive_new i"
proof -
  obtain key where "getrandom E d = Some key" using E by (auto simp: env_ok_def)
  then have run: "hm_new E d i = Some (Suc d, \<lparr>table0 = new_table\<lparr>random_key := key\<rparr>, table1 = new_table, hm_hive = hive_new i, rehashing = False, rehash_idx = 0\<rparr>)"
    (is "_ = Some (_, ?m)") by (simp add: hm_new_def refresh_random_key_def)
  have b: "blank (table0 ?m)" "blank (table1 ?m)" by (simp_all add: blank_def new_table_def)
  have e: "hm_entries ?m = []" using blank_entries [OF b(1)] blank_entries [OF b(2)] by (simp add: hm_entries_def)
  have r: "resting E ?m" using b by (simp add: resting_def)
  then have "hm_ok E ?m" using e by (simp add: hm_ok_def)
  then have "hm_view E s ?m H Map.empty vs" using new_refs [OF ok] e by (simp add: hm_view_def)
  then show thesis using that [of ?m] run e r by (simp add: hm_capacity_def new_table_def hive_new_def)
qed

section \<open>The end of a rehash\<close>

lemma while_c_once:
  assumes "b x" "c x = Some y" "\<not> b y"
  shows "while_c b c x = Some y"
  using assms by (simp add: while_c.simps)

text \<open>One round moves every entry that is left.\<close>

lemma finish_rehash_ok:
  assumes v: "hm_view E s m H D vs" and sz: "small_refs m H"
  obtains s' m' where "finish_rehash E s m = Some (s', m')" "hm_view E s' m' H D vs" "same_map m m'" "\<not> rehashing m'"
    "hm_capacity m' = hm_capacity m"
proof (cases "rehashing m")
  case False
  then show thesis using that [of s m] v by (simp add: finish_rehash_def while_c.simps)
next
  case True
  note V = hm_viewD [OF v]
  then obtain N where mv: "moving E N 0 m" using True by (auto simp: resting_def)
  note M = movingD [OF mv]
  have l: "length (hm_entries m) + size H + 1 < 2 ^ 61" using sz by (simp add: small_refs_def)
  obtain s' m' where S: "step_rehash E (capacity (table0 m)) s m = Some (s', m')"
    "refs_ok s' (refs_of (hm_entries m) + H) ((hm_hive m, snd ` set (hm_entries m), D) # vs)" "same_map m m'"
    "moving E N (unat (capacity (table0 m))) m' \<or> \<not> rehashing m' \<and> blank (table1 m') \<and> at_rest E (table0 m') \<and> load (table0 m') \<le> total m"
    "hm_capacity m' = hm_capacity m" "length (tbl_entries (table0 m)) \<le> unat (capacity (table0 m)) \<longrightarrow> \<not> rehashing m'"
    by (rule step_rehash_ok [where n = "capacity (table0 m)", OF mv V(5,2) l])
  have "length (tbl_entries (table0 m)) \<le> unat (capacity (table0 m))"
    using size_load [of "table0 m"] load_bound [OF table_okD(1) [OF M(2)]] by (simp add: cap_of_def)
  then have nr: "\<not> rehashing m'" using S(6) by blast
  then have "resting E m'" using S(4) movingD(1) by (auto simp: resting_def)
  then have "hm_ok E m'" using same_map_keys [OF S(3) V(5)] by (simp add: hm_ok_def)
  from same_map_view [OF v S(3) this S(2)] have "hm_view E s' m' H D vs" .
  moreover have "finish_rehash E s m = Some (s', m')"
    unfolding finish_rehash_def by (rule while_c_once) (use True S(1) nr in simp_all)
  ultimately show thesis using that S(3,5) nr by blast
qed

section \<open>clear\<close>

lemma clear_refs:
  assumes ok: "refs_ok s H ((h, U, D) # vs)" and full: "\<forall>ha \<in> U. D ha \<noteq> None"
  obtains s' h' where "hive_clear s h = Some (s', h')" "hive_id h' = hive_id h" "refs_ok s' H ((h', {}, Map.empty) # vs)"
proof -
  obtain own hs es fs where O: "mset hs = H" "hive_ok s h es fs own hs" "hive_alone own h fs"
      "U = slot_handles (uses (nodes s) fs)" "D = hive_data s h" "\<forall>v \<in> set vs. holds s own hs v"
      "distinct (map (hive_id \<circ> fst) vs)" "\<forall>v \<in> set vs. hive_id (fst v) \<noteq> hive_id h"
    using refs_okE [OF ok] by metis
  have u: "k < 2 ^ 32" if "(i, k) \<in> uses (nodes s) fs" for i k
  proof -
    have "i \<in> set fs" "k < slot_cap (the (nodes s i))" using that by (auto simp: uses_iff used_def)
    moreover from this have "words_ok (the (nodes s i))" using chunk_okD(1) [OF hive_chunk_ok(2) [OF O(2)]] by blast
    then have "slot_cap (the (nodes s i)) \<le> 2 ^ 31" by (rule get_capacity_ok)
    ultimately show ?thesis by simp
  qed
  have "\<forall>u \<in> uses (nodes s) fs. cont (nodes s) fs u \<noteq> None"
  proof
    fix u assume "u \<in> uses (nodes s) fs"
    then obtain i k where ik: "u = (i, k)" "(i, k) \<in> uses (nodes s) fs" by (cases u) auto
    then have k: "unat (of_nat k :: u32) = k" using u by (simp add: unat_of_nat take_bit_nat_eq_self)
    then have "(Some i, of_nat k) \<in> U" using ik unfolding O(4) by simp
    then have "D (Some i, of_nat k) \<noteq> None" using full by blast
    then show "cont (nodes s) fs u \<noteq> None" unfolding O(5) data_eq [OF O(2,3)] using k ik by simp
  qed
  from hive_clear_ok [OF O(2) this] obtain s' h' where C: "hive_clear s h = Some (s', h')"
      "hive_ok s' h' [] [] (\<lambda>i. if i \<in> set fs then None else own i) hs" "hive_id h' = hive_id h" "\<forall>j. j \<notin> set fs \<longrightarrow> nodes s' j = nodes s j"
    by blast
  let ?own = "\<lambda>i. if i \<in> set fs then None else own i"
  have al: "hive_alone ?own h' []" using O(3) C(3) by (auto simp: hive_alone_def)
  have "holds s' ?own hs v" if v: "v \<in> set vs" for v
  proof (rule holds_frame [OF O(6) [rule_format, OF v] hive_okD(1) [OF C(2)]])
    have o: "own j \<noteq> Some (hive_id (fst v))" if "j \<in> set fs" for j using hive_okD(5) [OF O(2) that] O(8) v by auto
    show "nodes s' j = nodes s j" if "own j = Some (hive_id (fst v))" for j using that o C(4) by blast
    show "?own j = Some (hive_id (fst v)) \<longleftrightarrow> own j = Some (hive_id (fst v))" for j using o by auto
  qed
  moreover have "Map.empty = hive_data s' h'" unfolding data_eq [OF C(2) al] by (auto simp: cont_def split: option.splits)
  ultimately have "refs_ok s' H ((h', {}, Map.empty) # vs)"
    using O(1,7,8) C(3) by (intro refs_okI [OF O(1) C(2) al]) (auto simp: uses_def slot_handles_def)
  then show thesis using that C(1,3) by blast
qed

lemma no_entries: "elems t = Map.empty \<Longrightarrow> tbl_entries t = []"
  by (simp add: tbl_entries_def List.map_filter_def)

lemma clear_any_table:
  assumes t: "blank t \<or> table_shape t" and refs: "refs_ok s (refs_of (tbl_entries t) + H) vs"
  obtains s' t' where "clear_table s t = Some (s', t')" "refs_ok s' H vs" "capacity t' = capacity t" "tbl_entries t' = []"
    "blank t' \<and> blank t \<or> table_shape t' \<and> table_shape t \<and> elems t' = Map.empty \<and> tombs t' = tombs t \<and> tombstones t' = 0"
proof (cases "blank t")
  case True
  then show thesis using that [of s t] refs by (simp add: clear_table_def blank_def)
next
  case False
  then have S: "table_shape t" using t by blast
  obtain s' t' where "clear_table s t = Some (s', t')" "refs_ok s' H vs" "capacity t' = capacity t" "random_key t' = random_key t"
    "elems t' = Map.empty" "table_shape t'" "tombs t' = tombs t" "tombstones t' = 0"
    by (rule clear_table_ok [OF S refs])
  then show thesis using that S no_entries by blast
qed

text \<open>\<open>clear\<close> gives back every reference of the tables and every value of the hive.\<close>

lemma clear_tables_ok:
  assumes v: "hm_view E s m H D vs"
  obtains s' m' where "clear_tables s m = Some (s', m')" "refs_ok s' H ((hm_hive m, snd ` set (hm_entries m), D) # vs)"
    "rehashing m' = rehashing m" "hm_hive m' = hm_hive m" "tbl_entries (table0 m') = []" "capacity (table0 m') = capacity (table0 m)"
    "blank (table0 m') \<and> blank (table0 m) \<or> table_shape (table0 m') \<and> table_shape (table0 m) \<and> elems (table0 m') = Map.empty \<and>
      tombs (table0 m') = tombs (table0 m) \<and> tombstones (table0 m') = 0"
    "rehashing m \<or> table1 m' = table1 m \<and> blank (table1 m)"
proof -
  note V = hm_viewD [OF v]
  let ?vs = "(hm_hive m, snd ` set (hm_entries m), D) # vs"
  have t0: "blank (table0 m) \<or> table_shape (table0 m)" using V(6) table_okD(1) by (auto simp: resting_def at_rest_def moving_def)
  have r0: "refs_ok s (refs_of (tbl_entries (table0 m)) + (refs_of (tbl_entries (table1 m)) + H)) ?vs"
    using V(2) by (simp add: hm_entries_def ac_simps)
  obtain s1 t1 where A: "clear_table s (table0 m) = Some (s1, t1)" "refs_ok s1 (refs_of (tbl_entries (table1 m)) + H) ?vs"
    "capacity t1 = capacity (table0 m)" "tbl_entries t1 = []"
    "blank t1 \<and> blank (table0 m) \<or> table_shape t1 \<and> table_shape (table0 m) \<and> elems t1 = Map.empty \<and> tombs t1 = tombs (table0 m) \<and> tombstones t1 = 0"
    by (rule clear_any_table [OF t0 r0])
  show thesis
  proof (cases "rehashing m")
    case False
    then have b: "blank (table1 m)" using V(6) movingD(1) by (auto simp: resting_def)
    show thesis using that [of s1 "m\<lparr>table0 := t1\<rparr>"] A b False blank_entries [OF b] by (simp add: clear_tables_def)
  next
    case True
    have S1: "blank (table1 m) \<or> table_shape (table1 m)" using V(6) True table_okD(1) by (auto simp: resting_def moving_def)
    obtain s2 t2 where B: "clear_table s1 (table1 m) = Some (s2, t2)" "refs_ok s2 H ?vs" "capacity t2 = capacity (table1 m)" "tbl_entries t2 = []"
      by (rule clear_any_table [OF S1 A(2)]) blast
    show thesis using that [of s2 "m\<lparr>table0 := t1, table1 := t2\<rparr>"] A B True by (simp add: clear_tables_def)
  qed
qed

lemma hm_clear_ok:
  assumes v: "hm_view E s m H D vs"
  obtains s' m' where "hm_clear s m = Some (s', m')" "refs_ok s' H ((hm_hive m', {}, Map.empty) # vs)" "hive_id (hm_hive m') = hive_id (hm_hive m)"
    "\<not> rehashing m'" "blank (table1 m')" "hm_entries m' = []" "capacity (table0 m') = capacity (table0 m)"
    "blank (table0 m') \<and> blank (table0 m) \<or> table_shape (table0 m') \<and> table_shape (table0 m) \<and> elems (table0 m') = Map.empty \<and>
      tombs (table0 m') = tombs (table0 m) \<and> tombstones (table0 m') = 0"
proof -
  obtain s1 m1 where A: "clear_tables s m = Some (s1, m1)" "refs_ok s1 H ((hm_hive m, snd ` set (hm_entries m), D) # vs)"
    "rehashing m1 = rehashing m" "hm_hive m1 = hm_hive m" "tbl_entries (table0 m1) = []" "capacity (table0 m1) = capacity (table0 m)"
    "blank (table0 m1) \<and> blank (table0 m) \<or> table_shape (table0 m1) \<and> table_shape (table0 m) \<and> elems (table0 m1) = Map.empty \<and>
      tombs (table0 m1) = tombs (table0 m) \<and> tombstones (table0 m1) = 0"
    "rehashing m \<or> table1 m1 = table1 m \<and> blank (table1 m)"
    by (rule clear_tables_ok [OF v])
  define m2 where "m2 = (if rehashing m1 then
         m1\<lparr>table1 := (table1 m1)\<lparr>tslots := raw_deallocate (tslots (table1 m1)), ctrl := [], capacity := 0\<rparr>, rehashing := False, rehash_idx := 0\<rparr>
       else m1)"
  have b: "blank (table1 m2)" using A(3,8) by (auto simp: m2_def blank_def raw_deallocate_def)
  have t0: "table0 m2 = table0 m1" and nr: "\<not> rehashing m2" and hv: "hm_hive m2 = hm_hive m1" by (simp_all add: m2_def)
  obtain s3 h3 where C: "hive_clear s1 (hm_hive m) = Some (s3, h3)" "hive_id h3 = hive_id (hm_hive m)" "refs_ok s3 H ((h3, {}, Map.empty) # vs)"
    by (rule clear_refs [OF A(2)]) (use hm_viewD(4) [OF v] in blast)+
  have "hm_clear s m = Some (s3, m2\<lparr>hm_hive := h3\<rparr>)"
    using A(1,4) C(1) by (simp add: hm_clear_def Let_def m2_def [symmetric] hv)
  moreover have "hm_entries (m2\<lparr>hm_hive := h3\<rparr>) = []" using A(5) t0 blank_entries [OF b] by (simp add: hm_entries_def)
  ultimately show thesis using that [of s3 "m2\<lparr>hm_hive := h3\<rparr>"] A(6,7) C(2,3) t0 b nr by simp
qed

text \<open>Without tombstones before, a map that was at rest is at rest again.\<close>

lemma empty_table_ok: "table_shape t \<Longrightarrow> elems t = Map.empty \<Longrightarrow> table_ok E t"
  by (simp add: table_ok_def)

lemma cleared_view:
  assumes v: "hm_view E s m H D vs" and r: "\<not> rehashing m" "tombs (table0 m) = {}" and c: "hm_clear s m = Some (s', m')"
  shows "hm_view E s' m' H Map.empty vs"
proof -
  obtain s1 m1 where A: "hm_clear s m = Some (s1, m1)" "refs_ok s1 H ((hm_hive m1, {}, Map.empty) # vs)" "hive_id (hm_hive m1) = hive_id (hm_hive m)"
    "\<not> rehashing m1" "blank (table1 m1)" "hm_entries m1 = []" "capacity (table0 m1) = capacity (table0 m)"
    "blank (table0 m1) \<and> blank (table0 m) \<or> table_shape (table0 m1) \<and> table_shape (table0 m) \<and> elems (table0 m1) = Map.empty \<and>
      tombs (table0 m1) = tombs (table0 m) \<and> tombstones (table0 m1) = 0"
    by (rule hm_clear_ok [OF v])
  have eq: "s1 = s'" "m1 = m'" using A(1) c by simp_all
  have rest: "resting E m" using hm_viewD(6) [OF v] r(1) movingD(1) by blast
  have "blank (table0 m1) \<or> at_rest E (table0 m1)"
  proof (rule disjCI)
    assume nb: "\<not> at_rest E (table0 m1)"
    show "blank (table0 m1)"
    proof (rule ccontr)
      assume n: "\<not> blank (table0 m1)"
      then have T: "table_shape (table0 m1)" "table_shape (table0 m)" "elems (table0 m1) = Map.empty" "tombs (table0 m1) = {}" "tombstones (table0 m1) = 0"
        using A(8) r(2) by auto
      have "\<not> blank (table0 m)" using table_shapeD(4) [OF T(2)] by (auto simp: blank_def)
      then have "fits E (cap_of (table0 m1))" using rest A(7) by (auto simp: resting_def at_rest_def cap_of_def)
      then have "at_rest E (table0 m1)" using T no_entries [OF T(3)] empty_table_ok [OF T(1,3)] by (simp add: at_rest_def tombs_ok_def load_def)
      with nb show False by blast
    qed
  qed
  then have "resting E m1" using A(4,5) by (simp add: resting_def)
  then have "hm_ok E m1" using A(6) by (simp add: hm_ok_def)
  then show ?thesis using A(2,6) eq by (simp add: hm_view_def)
qed

text \<open>The destructor frees every value.\<close>

lemma hm_destroy_ok:
  assumes v: "hm_view E s m H D vs"
  obtains s' h' where "hm_destroy s m = Some s'" "refs_ok s' H ((h', {}, Map.empty) # vs)" "hive_id h' = hive_id (hm_hive m)"
proof -
  obtain s1 m1 where A: "clear_tables s m = Some (s1, m1)" "refs_ok s1 H ((hm_hive m, snd ` set (hm_entries m), D) # vs)" "hm_hive m1 = hm_hive m"
    by (rule clear_tables_ok [OF v]) blast
  obtain s3 h3 where C: "hive_clear s1 (hm_hive m) = Some (s3, h3)" "hive_id h3 = hive_id (hm_hive m)" "refs_ok s3 H ((h3, {}, Map.empty) # vs)"
    by (rule clear_refs [OF A(2)]) (use hm_viewD(4) [OF v] in blast)+
  show thesis using that [of s3 h3] A(1,3) C by (simp add: hm_destroy_def)
qed

end
