(* ===== verification/HashFull.thy ===== *)
theory HashFull
  imports HashClear
begin

text \<open>
  A map whose count of tombstones is too low by \<open>T\<close>, as \<open>clear_table\<close> leaves it: it is not
  rehashed when it fills up, and the key after the last slot faults.
\<close>

definition loose :: "'k hash_env \<Rightarrow> nat \<Rightarrow> 'v hive_store \<Rightarrow> 'k hashmap \<Rightarrow> ptr multiset \<Rightarrow> 'v hive_look list \<Rightarrow> bool" where
  "loose E T s m H vs \<longleftrightarrow> \<not> rehashing m \<and> table_ok E (table0 m) \<and>
     (\<exists>D. refs_ok s (refs_of (tbl_entries (table0 m)) + H) ((hm_hive m, snd ` set (tbl_entries (table0 m)), D) # vs)) \<and>
     tombstones (table0 m) - of_nat (card (tombs (table0 m))) = - of_nat T \<and> T \<le> load (table0 m) \<and>
     cap_of (table0 m) + 8 \<le> 8 * T"

lemma looseD:
  assumes "loose E T s m H vs"
  shows "\<not> rehashing m" "table_ok E (table0 m)" "tombstones (table0 m) - of_nat (card (tombs (table0 m))) = - of_nat T"
    "T \<le> load (table0 m)" "cap_of (table0 m) + 8 \<le> 8 * T"
    "\<exists>D. refs_ok s (refs_of (tbl_entries (table0 m)) + H) ((hm_hive m, snd ` set (tbl_entries (table0 m)), D) # vs)"
  using assms by (simp_all add: loose_def)

text \<open>The test for the load factor never fires.\<close>

lemma loose_no_rehash:
  assumes l: "loose E T s m H vs"
  shows "ensure_capacity_for_insert E s d m = Some (s, d, m)"
proof -
  note L = looseD [OF l]
  note S = table_okD(1) [OF L(2)]
  let ?t = "table0 m"
  have b: "load ?t \<le> cap_of ?t" "cap_of ?t < 2 ^ 60" using load_bound [OF S] table_shapeD(2) [OF S] by auto
  have "tombstones ?t = of_nat (card (tombs ?t)) - of_nat T" using L(3) by (simp add: algebra_simps)
  moreover have "tsize ?t = of_nat (length (tbl_entries ?t))" using entries_count [OF L(2)] by simp
  ultimately have "tsize ?t + tombstones ?t + 1 = of_nat (load ?t) - of_nat T + 1" by (simp add: load_def)
  then have "tsize ?t + tombstones ?t + 1 = of_nat (load ?t - T + 1)" using L(4) by (simp add: of_nat_diff)
  then have "(tsize ?t + tombstones ?t + 1) * 8 = of_nat (load ?t - T + 1) * 8" by (rule arg_cong)
  also have "\<dots> = of_nat (8 * (load ?t - T + 1))" by (simp only: of_nat_mult of_nat_numeral mult.commute)
  finally have e: "(tsize ?t + tombstones ?t + 1) * 8 = of_nat (8 * (load ?t - T + 1))" .
  have "capacity ?t * 7 = of_nat (7 * cap_of ?t)" by (simp add: cap_of_def)
  moreover have "8 * (load ?t - T + 1) \<le> 7 * cap_of ?t"
  proof -
    obtain q where "load ?t = T + q" using L(4) le_Suc_ex by blast
    then show ?thesis using b(1) L(5) by simp
  qed
  moreover have "7 * cap_of ?t < 2 ^ 64" using b(2) by simp
  ultimately have "\<not> capacity ?t * 7 < (tsize ?t + tombstones ?t + 1) * 8"
    unfolding e by (simp add: word_less_nat_alt unat_of_nat_u64 del: of_nat_mult of_nat_add)
  then show ?thesis using L(1) nonblank_cap [OF L(2)] by (simp add: ensure_capacity_for_insert_def)
qed

lemma loose_insert:
  assumes l: "loose E T s m H vs" and sz: "size H + cap_of (table0 m) + 2 < 2 ^ 61" and new: "tbl_map (table0 m) k = None"
  shows "length (tbl_entries (table0 m)) = cap_of (table0 m) \<Longrightarrow> hm_emplace E s d m k v = None"
    "length (tbl_entries (table0 m)) < cap_of (table0 m) \<Longrightarrow>
      \<exists>s' m' h. hm_emplace E s d m k v = Some (s', d, m', True, h) \<and> loose E T s' m' (add_mset (fst h) H) vs \<and>
        cap_of (table0 m') = cap_of (table0 m) \<and> length (tbl_entries (table0 m')) = Suc (length (tbl_entries (table0 m))) \<and>
        fst ` set (tbl_entries (table0 m')) = insert k (fst ` set (tbl_entries (table0 m)))"
proof -
  note L = looseD [OF l]
  note S = table_okD(1) [OF L(2)]
  let ?t = "table0 m" and ?hash = "hash_of E (table0 m) k"
  obtain D where r: "refs_ok s (refs_of (tbl_entries ?t) + H) ((hm_hive m, snd ` set (tbl_entries ?t), D) # vs)" using L(6) by blast
  have len: "length (tbl_entries ?t) \<le> cap_of ?t" "cap_of ?t < 2 ^ 60"
    using size_load [of ?t] load_bound [OF S] table_shapeD(2) [OF S] by auto
  then have "size (refs_of (tbl_entries ?t) + H) < 2 ^ 61" using sz by simp
  from emplace_refs [OF r this] obtain s1 hv h where P: "hive_emplace s (hm_hive m) v = Some (s1, hv, h)" "h \<notin> snd ` set (tbl_entries ?t)"
    "hive_id hv = hive_id (hm_hive m)" "fst h \<noteq> None"
    "refs_ok s1 (add_mset (fst h) (refs_of (tbl_entries ?t) + H)) ((hv, insert h (snd ` set (tbl_entries ?t)), D(h \<mapsto> v)) # vs)" by blast
  have "find_in E ?t k = Some NOT_FOUND" using find_in_ok [OF L(2), of k] new by auto
  then have F: "hm_search E s m k = Some (s, null_handle)" using L(1) by (simp add: hm_search_def)
  have run: "hm_emplace E s d m k v = (do {
      slot \<leftarrow> find_insert_slot ?t k ?hash;
      (s, t) \<leftarrow> fill_slot s1 ?t slot k h ?hash;
      Some (s, d, m\<lparr>hm_hive := hv, table0 := t\<rparr>, True, h) })"
    using L(1) F loose_no_rehash [OF l] P(1) by (simp add: hm_emplace_def step_rehash_def Let_def hash_of_def)
  have none: "\<And>i h. elems ?t i \<noteq> Some (k, h)" using new tbl_map_None [OF L(2)] by blast
  show "hm_emplace E s d m k v = None" if full: "length (tbl_entries ?t) = cap_of ?t"
  proof -
    have c: "card (dom (elems ?t)) = cap_of ?t" using full entries_length [OF S] by simp
    then have "dom (elems ?t) = {..<cap_of ?t}"
      using elems_less [OF S] by (intro card_subset_eq) (auto simp: dom_def)
    then have "elems ?t i \<noteq> None" if "i < cap_of ?t" for i using that by blast
    then have "is_full (ctrl ?t ! i)" if "i < cap_of ?t" for i using that table_shapeD(5) [OF S] by blast
    then have "find_insert_slot ?t k ?hash = Some NOT_FOUND" using find_insert_slot_cases [OF L(2) none] by auto
    moreover have "unat NOT_FOUND = 2 ^ 64 - 1" by (simp add: NOT_FOUND_def unsigned_minus_1_eq_mask mask_eq_exp_minus_1)
    then have "ctrl_at ?t NOT_FOUND = None" using len(2) table_shapeD(3) [OF S] by (simp add: ctrl_at_def)
    ultimately show ?thesis using run by (simp add: fill_slot_def)
  qed
  show "\<exists>s' m' h. hm_emplace E s d m k v = Some (s', d, m', True, h) \<and> loose E T s' m' (add_mset (fst h) H) vs \<and>
        cap_of (table0 m') = cap_of ?t \<and> length (tbl_entries (table0 m')) = Suc (length (tbl_entries ?t)) \<and>
        fst ` set (tbl_entries (table0 m')) = insert k (fst ` set (tbl_entries ?t))"
    if room: "length (tbl_entries ?t) < cap_of ?t"
  proof -
    have "card (dom (elems ?t)) < cap_of ?t" using room entries_length [OF S] by simp
    then obtain j where j: "find_insert_slot ?t k ?hash = Some (of_nat j)" "j < cap_of ?t" "\<not> is_full (ctrl ?t ! j)" "reach ?t ?hash (j div 8)"
      by (rule find_insert_slot_ok [OF L(2) none])
    obtain s2 where K: "copy_ref s1 h = Some (s2, h)"
      "refs_ok s2 (add_mset (fst h) (add_mset (fst h) (refs_of (tbl_entries ?t) + H))) ((hv, insert h (snd ` set (tbl_entries ?t)), D(h \<mapsto> v)) # vs)"
      using copy_ref_ok [OF P(5), of h] len sz by auto
    obtain t where I: "fill_slot s1 ?t (of_nat j) k h ?hash = Some (s2, t)" "table_ok E t"
      "tombstones t - of_nat (card (tombs t)) = tombstones ?t - of_nat (card (tombs ?t))"
      "capacity t = capacity ?t" "random_key t = random_key ?t" "elems t = (elems ?t)(j \<mapsto> (k, h))" "elems ?t j = None"
      "tombs t = tombs ?t - {j}"
      by (rule fill_slot_step [OF L(2) j(2-4) new K(1)])
    let ?m = "m\<lparr>hm_hive := hv, table0 := t\<rparr>"
    note e = entries_add [OF I(6,7) j(2) I(4)]
    have cp: "cap_of t = cap_of ?t" using I(4) by (simp add: cap_of_def)
    have st: "set (tbl_entries t) = insert (k, h) (set (tbl_entries ?t))" using e by (metis set_mset_add_mset_insert set_mset_mset)
    have rf: "refs_of (tbl_entries t) = add_mset (fst h) (refs_of (tbl_entries ?t))" using refs_of_mset [of "tbl_entries t" "(k, h) # tbl_entries ?t"] e by simp
    have "card (tombs ?t) \<le> Suc (card (tombs t))" unfolding I(8) by (cases "j \<in> tombs ?t") (simp_all add: card_Diff_singleton)
    then have "load ?t \<le> load t" using length_mset_add [OF e] by (simp add: load_def)
    then have "loose E T s2 ?m (add_mset (fst h) H) vs"
      using L(1,3-5) I(2,3) K(2) cp st rf by (auto simp: loose_def)
    then show ?thesis using run j(1) I(1) cp length_mset_add [OF e] st
      by (intro exI [of _ s2] exI [of _ ?m] exI [of _ h]) simp
  qed
qed

text \<open>Inserting one key after the other; the caller keeps no handle.\<close>

fun insert_keys :: "'k hash_env \<Rightarrow> 'v hive_store \<Rightarrow> nat \<Rightarrow> 'k hashmap \<Rightarrow> ('k \<times> 'v) list \<Rightarrow> ('v hive_store \<times> nat \<times> 'k hashmap) option" where
  "insert_keys E s d m [] = Some (s, d, m)"
| "insert_keys E s d m ((k, v) # kvs) = do {
     (s, d, m, b, h) \<leftarrow> hm_emplace E s d m k v;
     s \<leftarrow> drop_ref s h;
     insert_keys E s d m kvs }"

lemma loose_insert_keys:
  assumes "loose E T s m H vs" "size H + cap_of (table0 m) + 2 < 2 ^ 61" "distinct (map fst kvs)" "fst ` set kvs \<inter> fst ` set (tbl_entries (table0 m)) = {}"
  shows "length (tbl_entries (table0 m)) + length kvs \<le> cap_of (table0 m) \<longleftrightarrow> insert_keys E s d m kvs \<noteq> None"
  using assms
proof (induction kvs arbitrary: s m)
  case Nil
  note S = table_okD(1) [OF looseD(2) [OF Nil(1)]]
  show ?case using size_load [of "table0 m"] load_bound [OF S] by simp
next
  case (Cons x kvs)
  obtain k v where x: "x = (k, v)" by (cases x)
  note S = table_okD(1) [OF looseD(2) [OF Cons.prems(1)]]
  have new: "tbl_map (table0 m) k = None" using Cons.prems(4) x by (auto simp: tbl_map_def map_of_eq_None_iff)
  note I = loose_insert [OF Cons.prems(1,2) new, where d = d and v = v]
  consider (full) "length (tbl_entries (table0 m)) = cap_of (table0 m)" | (room) "length (tbl_entries (table0 m)) < cap_of (table0 m)"
    using size_load [of "table0 m"] load_bound [OF S] by linarith
  then show ?case
  proof cases
    case full
    then show ?thesis using I(1) x by simp
  next
    case room
    then obtain s1 m1 h where P: "hm_emplace E s d m k v = Some (s1, d, m1, True, h)" "loose E T s1 m1 (add_mset (fst h) H) vs"
        "cap_of (table0 m1) = cap_of (table0 m)" "length (tbl_entries (table0 m1)) = Suc (length (tbl_entries (table0 m)))"
        "fst ` set (tbl_entries (table0 m1)) = insert k (fst ` set (tbl_entries (table0 m)))" using I(2) by blast
    obtain D where D: "refs_ok s1 (refs_of (tbl_entries (table0 m1)) + add_mset (fst h) H) ((hm_hive m1, snd ` set (tbl_entries (table0 m1)), D) # vs)"
      using looseD(6) [OF P(2)] by blast
    then obtain s2 where dr: "drop_ref s1 h = Some s2" "refs_ok s2 (refs_of (tbl_entries (table0 m1)) + H) ((hm_hive m1, snd ` set (tbl_entries (table0 m1)), D) # vs)"
      using drop_ref_ok [of s1 h "refs_of (tbl_entries (table0 m1)) + H"] by auto
    have l2: "loose E T s2 m1 H vs" using P(2) dr(2) by (auto simp: loose_def)
    have "fst ` set kvs \<inter> fst ` set (tbl_entries (table0 m1)) = {}" using Cons.prems(3,4) P(5) x by auto
    moreover have "size H + cap_of (table0 m1) + 2 < 2 ^ 61" using Cons.prems(2) P(3) by simp
    ultimately show ?thesis using Cons.IH [OF l2] Cons.prems(3) P dr(1) x by simp
  qed
qed

lemma cleared_loose:
  assumes v: "hm_view E s m H D vs" and r: "\<not> rehashing m" and T: "cap_of (table0 m) + 8 \<le> 8 * card (tombs (table0 m))"
  obtains s' m' where "hm_clear s m = Some (s', m')" "loose E (card (tombs (table0 m))) s' m' H vs" "tbl_entries (table0 m') = []"
    "cap_of (table0 m') = cap_of (table0 m)"
proof -
  obtain s1 m1 where A: "hm_clear s m = Some (s1, m1)" "refs_ok s1 H ((hm_hive m1, {}, Map.empty) # vs)" "hive_id (hm_hive m1) = hive_id (hm_hive m)"
    "\<not> rehashing m1" "blank (table1 m1)" "hm_entries m1 = []" "capacity (table0 m1) = capacity (table0 m)"
    "blank (table0 m1) \<and> blank (table0 m) \<or> table_shape (table0 m1) \<and> table_shape (table0 m) \<and> elems (table0 m1) = Map.empty \<and>
      tombs (table0 m1) = tombs (table0 m) \<and> tombstones (table0 m1) = 0"
    by (rule hm_clear_ok [OF v])
  have "\<not> blank (table0 m)" using T by (auto simp: tombs_def blank_def cap_of_def)
  then have B: "table_shape (table0 m1)" "elems (table0 m1) = Map.empty" "tombs (table0 m1) = tombs (table0 m)" "tombstones (table0 m1) = 0"
    using A(8) by auto
  have "loose E (card (tombs (table0 m))) s1 m1 H vs"
    using A(2,4,7) B empty_table_ok [OF B(1,2)] no_entries [OF B(2)] T by (auto simp: loose_def load_def cap_of_def)
  then show thesis using that A(1,7) no_entries [OF B(2)] by (simp add: cap_of_def)
qed

end
