(* ===== verification/HashKeyMap.thy ===== *)
theory HashKeyMap
  imports HashClear Contracts
begin

text \<open>
  The operations of the hash map on the map from keys to values.

  The hash map as a container with unique keys.
\<close>

lemma abs_none_iff: "hm_view E s m H D vs \<Longrightarrow> hm_abs m D k = None \<longleftrightarrow> hm_lookup m k = None"
  using bool_entry(2) [of E s m H D vs k] by (cases "hm_lookup m k") (simp_all add: hm_abs_def)

lemma lookup_in: "hm_lookup m k = Some h \<Longrightarrow> h \<in> snd ` set (hm_entries m)"
  unfolding hm_lookup_def by (drule map_of_SomeD) force

text \<open>Only the handle of the key itself reads another value.\<close>

lemma lookup_handles:
  assumes v: "hm_view E s m H D vs" and "hm_lookup m k = Some h" "hm_lookup m k' = Some h"
  shows "k = k'"
proof -
  note V = hm_viewD [OF v]
  have "(k, h) \<in> set (hm_entries m)" "(k', h) \<in> set (hm_entries m)" using assms(2,3) lookup_iff [OF V(5)] by simp_all
  then show ?thesis using V(3) inj_onD [of snd "set (hm_entries m)" "(k, h)" "(k', h)"] by (simp add: distinct_map)
qed

lemma abs_insert:
  assumes "hm_lookup m' = (hm_lookup m)(k \<mapsto> h)" "h \<notin> snd ` set (hm_entries m)"
  shows "hm_abs m' (D(h \<mapsto> x)) = (hm_abs m D)(k \<mapsto> x)"
  using assms lookup_in [of m] by (auto simp: fun_eq_iff hm_abs_def bind_eq_None_conv split: bind_split)

lemma abs_update:
  assumes v: "hm_view E s m H D vs" and l: "hm_lookup m k = Some h"
  shows "hm_abs m (D(h := x)) = (hm_abs m D)(k := x)"
proof
  fix k'
  show "hm_abs m (D(h := x)) k' = ((hm_abs m D)(k := x)) k'"
    using l lookup_handles [OF v l, of k'] by (cases "hm_lookup m k'") (auto simp: hm_abs_def)
qed

lemma abs_delete:
  assumes v: "hm_view E s m H D vs" and l: "hm_lookup m k = Some h" and d: "hm_lookup m' = (hm_lookup m)(k := None)"
  shows "hm_abs m' (D(h := None)) = (hm_abs m D)(k := None)"
proof
  fix k'
  show "hm_abs m' (D(h := None)) k' = ((hm_abs m D)(k := None)) k'"
    using l d lookup_handles [OF v l, of k'] by (cases "hm_lookup m k'") (auto simp: hm_abs_def)
qed

text \<open>\<open>room\<close>: the map may take \<open>n\<close> more entries.\<close>

definition hm_room :: "'k hash_env \<Rightarrow> nat \<Rightarrow> 'k hashmap \<Rightarrow> ptr multiset \<Rightarrow> bool" where
  "hm_room E n m H \<longleftrightarrow> length (hm_entries m) + n + size H + 4 < 2 ^ 61 \<and>
     fits E (2 * max (unat (hm_capacity m)) (max 8 (4 * (length (hm_entries m) + n))))"

lemma hm_roomD:
  assumes "hm_room E n m H"
  shows "small_refs m H" "can_grow E m"
proof -
  show "small_refs m H" using assms by (simp add: hm_room_def small_refs_def)
  have "fits E (2 * max (unat (hm_capacity m)) (max 8 (4 * (length (hm_entries m) + n))))" using assms by (simp add: hm_room_def)
  then show "can_grow E m" unfolding can_grow_def by (auto elim: fits_le)
qed

lemma hm_room_step:
  assumes r: "hm_room E n m H" and g: "grown m m'" and l: "length (hm_entries m') + n' \<le> length (hm_entries m) + n" and h: "size H' = size H"
  shows "hm_room E n' m' H'"
proof -
  let ?b = "max (unat (hm_capacity m)) (max 8 (4 * (length (hm_entries m) + n)))"
  have "unat (hm_capacity m') \<le> ?b" using g unfolding grown_def by (rule order_trans) auto
  then have "2 * max (unat (hm_capacity m')) (max 8 (4 * (length (hm_entries m') + n'))) \<le> 2 * ?b" using l by auto
  then show ?thesis using r l h fits_le unfolding hm_room_def by fastforce
qed

lemma emplace_abs:
  assumes E: "env_ok E" and v: "hm_view E s m H D vs" and r: "hm_room E (Suc n) m H"
  obtains s' d' m' h D' where "hm_emplace E s d m k x = Some (s', d', m', hm_abs m D k = None, h)" "hm_view E s' m' (add_mset (fst h) H) D' vs"
    "hm_abs m' D' = (if hm_abs m D k = None then (hm_abs m D)(k \<mapsto> x) else hm_abs m D)" "hm_room E n m' H" "hm_lookup m' k = Some h"
    "\<forall>h \<in> snd ` set (hm_entries m). D' h = D h"
    "set (hm_entries m') = (if hm_abs m D k = None then insert (k, h) (set (hm_entries m)) else set (hm_entries m))"
proof (cases "hm_lookup m k")
  case None
  obtain s' d' m' h where P: "hm_emplace E s d m k x = Some (s', d', m', True, h)" "hm_view E s' m' (add_mset (fst h) H) (D(h \<mapsto> x)) vs"
    "hm_lookup m' = (hm_lookup m)(k \<mapsto> h)" "h \<notin> snd ` set (hm_entries m)" "mset (hm_entries m') = add_mset (k, h) (mset (hm_entries m))" "grown m m'"
    by (rule hm_emplace_new [OF E v hm_roomD [OF r] None])
  have "hm_room E n m' H" by (rule hm_room_step [OF r P(6)]) (simp_all add: length_mset_add [OF P(5)])
  moreover have "set (hm_entries m') = insert (k, h) (set (hm_entries m))" using P(5) by (metis set_mset_add_mset_insert set_mset_mset)
  moreover have "\<forall>ha \<in> snd ` set (hm_entries m). (D(h \<mapsto> x)) ha = D ha" using P(4) by (intro ballI fun_upd_other) metis
  ultimately show thesis using that [of s' d' m' h "D(h \<mapsto> x)"] P(1-4) abs_insert [OF P(3,4), of D x] abs_none_iff [OF v] None by simp
next
  case (Some h)
  obtain s' m' where P: "hm_emplace E s d m k x = Some (s', d, m', False, h)" "hm_view E s' m' (add_mset (fst h) H) D vs" "same_map m m'" "grown m m'"
    by (rule hm_emplace_old [OF v hm_roomD(1) [OF r] Some])
  note SM = same_mapD [OF P(3)] and V = hm_viewD [OF v]
  have "hm_room E n m' H" by (rule hm_room_step [OF r P(4)]) (simp_all add: SM(4))
  then show thesis
    using that [of s' d m' h D] P(1,2) abs_none_iff [OF v, of k] Some same_map_abs [OF P(3) V(5), of D] same_map_lookup [OF P(3) V(5)] SM(5) by simp
qed

lemma assign_abs:
  assumes E: "env_ok E" and v: "hm_view E s m H D vs" and r: "hm_room E (Suc n) m H"
  obtains s' d' m' h D' where "hm_insert_or_assign E s d m k x = Some (s', d', m', hm_abs m D k = None, h)" "hm_view E s' m' (add_mset (fst h) H) D' vs"
    "hm_abs m' D' = (hm_abs m D)(k \<mapsto> x)" "hm_room E n m' H" "hm_lookup m' k = Some h"
proof (cases "hm_lookup m k")
  case None
  obtain s' d' m' h where P: "hm_insert_or_assign E s d m k x = Some (s', d', m', True, h)" "hm_view E s' m' (add_mset (fst h) H) (D(h \<mapsto> x)) vs"
    "hm_lookup m' = (hm_lookup m)(k \<mapsto> h)" "h \<notin> snd ` set (hm_entries m)" "mset (hm_entries m') = add_mset (k, h) (mset (hm_entries m))" "grown m m'"
    by (rule hm_insert_or_assign_new [OF E v hm_roomD [OF r] None])
  have "hm_room E n m' H" by (rule hm_room_step [OF r P(6)]) (simp_all add: length_mset_add [OF P(5)])
  then show thesis using that [of s' d' m' h "D(h \<mapsto> x)"] P(1-3) abs_insert [OF P(3,4), of D x] abs_none_iff [OF v] None by simp
next
  case (Some h)
  obtain s' m' where P: "hm_insert_or_assign E s d m k x = Some (s', d, m', False, h)" "hm_view E s' m' (add_mset (fst h) H) (D(h \<mapsto> x)) vs"
    "same_map m m'" "grown m m'"
    by (rule hm_insert_or_assign_old [OF v hm_roomD(1) [OF r] Some])
  note SM = same_mapD [OF P(3)] and V = hm_viewD [OF v]
  have "hm_room E n m' H" by (rule hm_room_step [OF r P(4)]) (simp_all add: SM(4))
  then show thesis
    using that [of s' d m' h "D(h \<mapsto> x)"] P(1,2) abs_none_iff [OF v, of k] Some same_map_abs [OF P(3) V(5), of "D(h \<mapsto> x)"] abs_update [OF v Some, of "Some x"]
      same_map_lookup [OF P(3) V(5)] by simp
qed

lemma remove_abs:
  assumes E: "env_ok E" and v: "hm_view E s m H D vs" and r: "hm_room E (Suc n) m H"
  obtains s' d' m' D' where "hm_remove E s d m k = Some (s', d', m', hm_abs m D k \<noteq> None)" "hm_view E s' m' H D' vs"
    "hm_abs m' D' = (hm_abs m D)(k := None)" "hm_room E n m' H"
proof (cases "hm_lookup m k")
  case None
  obtain s' m' where P: "hm_remove E s d m k = Some (s', d, m', False)" "hm_view E s' m' H D vs" "same_map m m'" "grown m m'"
    by (rule hm_remove_absent [OF v hm_roomD(1) [OF r] None])
  note SM = same_mapD [OF P(3)] and V = hm_viewD [OF v]
  have n: "hm_abs m D k = None" using None abs_none_iff [OF v] by simp
  have "hm_room E n m' H" by (rule hm_room_step [OF r P(4)]) (simp_all add: SM(4))
  then show thesis using that [of s' d m' D] P(1,2) n same_map_abs [OF P(3) V(5), of D] fun_upd_idem [of "hm_abs m D" k None] by simp
next
  case (Some h)
  obtain s' d' m' where P: "hm_remove E s d m k = Some (s', d', m', True)" "hm_view E s' m' H (D(h := None)) vs"
    "hm_lookup m' = (hm_lookup m)(k := None)" "mset (hm_entries m) = add_mset (k, h) (mset (hm_entries m'))" "grown m m'"
    by (rule hm_remove_ok [OF E v hm_roomD(1) [OF r] Some])
  have "hm_room E n m' H" by (rule hm_room_step [OF r P(5)]) (simp_all add: length_mset_add [OF P(4)])
  then show thesis using that [of s' d' m' "D(h := None)"] P(1,2) abs_delete [OF v Some P(3)] abs_none_iff [OF v] Some by simp
qed

text \<open>\<open>operator[]\<close>.\<close>

lemma index_abs:
  assumes E: "env_ok E" and v: "hm_view E s m H D vs" and r: "hm_room E (Suc n) m H"
  obtains s' d' m' D' where "hm_index E s d m k x = Some (s', d', m', case hm_abs m D k of None \<Rightarrow> x | Some y \<Rightarrow> y)" "hm_view E s' m' H D' vs"
    "hm_abs m' D' = (if hm_abs m D k = None then (hm_abs m D)(k \<mapsto> x) else hm_abs m D)" "hm_room E n m' H"
proof -
  obtain s1 d1 m1 h D1 where P: "hm_emplace E s d m k x = Some (s1, d1, m1, hm_abs m D k = None, h)" "hm_view E s1 m1 (add_mset (fst h) H) D1 vs"
    "hm_abs m1 D1 = (if hm_abs m D k = None then (hm_abs m D)(k \<mapsto> x) else hm_abs m D)" "hm_room E n m1 H" "hm_lookup m1 k = Some h"
    by (rule emplace_abs [OF E v r]) blast
  obtain s2 where Q: "drop_ref s1 h = Some s2" "hm_view E s2 m1 H D1 vs" by (rule view_drop [OF P(2)])
  have "hive_data s1 (hm_hive m1) h = D1 h" by (rule data_refs [OF hm_viewD(2) [OF P(2)]])
  also have "\<dots> = hm_abs m1 D1 k" using P(5) by (simp add: hm_abs_def)
  also have "\<dots> = Some (case hm_abs m D k of None \<Rightarrow> x | Some y \<Rightarrow> y)" unfolding P(3) by (auto split: option.splits)
  finally show thesis using that [of s2 d1 m1 D1] P(1,3,4) Q by (simp add: hm_index_def)
qed

text \<open>The state of a client that keeps no handle: the store, the random keys drawn, the map.\<close>

type_synonym ('k, 'v) hm_state = "'v hive_store \<times> nat \<times> 'k hashmap"

definition hm_look :: "('k, 'v) hm_state \<Rightarrow> 'k \<Rightarrow> 'v option" where
  "hm_look = (\<lambda>(s, d, m). hm_abs m (hive_data s (hm_hive m)))"

definition hm_state_ok :: "'k hash_env \<Rightarrow> nat \<Rightarrow> ('k, 'v) hm_state \<Rightarrow> bool" where
  "hm_state_ok E n = (\<lambda>(s, d, m). env_ok E \<and> (\<exists>H D vs. hm_view E s m H D vs \<and> hm_room E n m H))"

fun hm_call :: "'k hash_env \<Rightarrow> ('k, 'v) hm_state \<Rightarrow> ('k, 'v) map_call \<Rightarrow> (('k, 'v) hm_state \<times> 'v answer) option" where
  "hm_call E (s, d, m) (Put k v) = do {
     (s, d, m, b, h) \<leftarrow> hm_emplace E s d m k v;
     s \<leftarrow> drop_ref s h;
     Some ((s, d, m), Done b) }"
| "hm_call E (s, d, m) (Assign k v) = do {
     (s, d, m, b, h) \<leftarrow> hm_insert_or_assign E s d m k v;
     s \<leftarrow> drop_ref s h;
     Some ((s, d, m), Done b) }"
| "hm_call E (s, d, m) (Delete k) = do {
     (s, d, m, b) \<leftarrow> hm_remove E s d m k;
     Some ((s, d, m), Done b) }"
| "hm_call E (s, d, m) (Fetch k) = do {
     (s, b) \<leftarrow> hm_contains E s m k;
     if b then do {
       (s, v) \<leftarrow> hm_at E s m k;
       Some ((s, d, m), Found (Some v)) }
     else Some ((s, d, m), Found None) }"

lemma view_data: "hm_view E s m H D vs \<Longrightarrow> hive_data s (hm_hive m) = D"
  by (rule ext, rule data_refs [OF hm_viewD(2)])

lemma view_look: "hm_view E s m H D vs \<Longrightarrow> hm_look (s, d, m) = hm_abs m D"
  by (simp add: hm_look_def view_data)

lemma hm_room_less: "hm_room E (Suc n) m H \<Longrightarrow> hm_room E n m H"
  by (rule hm_room_step [where m = m and n = "Suc n"]) simp_all

interpretation hk: key_map "hm_state_ok E" hm_look "hm_call E" for E :: "'k hash_env"
proof
  fix n and st :: "('k, 'v) hm_state" and c
  assume "hm_state_ok E (Suc n) st"
  then obtain s d m H D vs where st: "st = (s, d, m)" and E: "env_ok E" and v: "hm_view E s m H D vs" and r: "hm_room E (Suc n) m H"
    by (auto simp: hm_state_ok_def)
  note L = view_look [OF v, of d]
  have reach_it: "\<exists>st'. hm_call E st c = Some (st', snd (map_step (hm_look st) c)) \<and> hm_state_ok E n st' \<and> hm_look st' = fst (map_step (hm_look st) c)"
    if "hm_call E st c = Some ((s', d', m'), snd (map_step (hm_abs m D) c))" "hm_view E s' m' H D' vs" "hm_room E n m' H"
      "hm_abs m' D' = fst (map_step (hm_abs m D) c)" for s' d' m' D'
    using that E L view_look [OF that(2), of d'] by (auto simp: st hm_state_ok_def)
  show "\<exists>st'. hm_call E st c = Some (st', snd (map_step (hm_look st) c)) \<and> hm_state_ok E n st' \<and> hm_look st' = fst (map_step (hm_look st) c)"
  proof (cases c)
    case (Put k x)
    obtain s1 d1 m1 h D1 where P: "hm_emplace E s d m k x = Some (s1, d1, m1, hm_abs m D k = None, h)" "hm_view E s1 m1 (add_mset (fst h) H) D1 vs"
      "hm_abs m1 D1 = (if hm_abs m D k = None then (hm_abs m D)(k \<mapsto> x) else hm_abs m D)" "hm_room E n m1 H"
      by (rule emplace_abs [OF E v r]) blast
    obtain s2 where "drop_ref s1 h = Some s2" "hm_view E s2 m1 H D1 vs" by (rule view_drop [OF P(2)])
    then show ?thesis using P by (intro reach_it [of s2 d1 m1 D1]) (simp_all add: st Put)
  next
    case (Assign k x)
    obtain s1 d1 m1 h D1 where P: "hm_insert_or_assign E s d m k x = Some (s1, d1, m1, hm_abs m D k = None, h)" "hm_view E s1 m1 (add_mset (fst h) H) D1 vs"
      "hm_abs m1 D1 = (hm_abs m D)(k \<mapsto> x)" "hm_room E n m1 H"
      by (rule assign_abs [OF E v r]) blast
    obtain s2 where "drop_ref s1 h = Some s2" "hm_view E s2 m1 H D1 vs" by (rule view_drop [OF P(2)])
    then show ?thesis using P by (intro reach_it [of s2 d1 m1 D1]) (simp_all add: st Assign)
  next
    case (Delete k)
    obtain s1 d1 m1 D1 where P: "hm_remove E s d m k = Some (s1, d1, m1, hm_abs m D k \<noteq> None)" "hm_view E s1 m1 H D1 vs"
      "hm_abs m1 D1 = (hm_abs m D)(k := None)" "hm_room E n m1 H"
      by (rule remove_abs [OF E v r]) blast
    then show ?thesis by (intro reach_it [of s1 d1 m1 D1]) (simp_all add: st Delete)
  next
    case (Fetch k)
    note z = hm_roomD(1) [OF r]
    obtain s1 where C: "hm_contains E s m k = Some (s1, hm_abs m D k \<noteq> None)" "hm_view E s1 m H D vs" by (rule hm_contains_ok [OF v z])
    show ?thesis
    proof (cases "hm_abs m D k")
      case None
      then show ?thesis using C hm_room_less [OF r] by (intro reach_it [of s1 d m D]) (simp_all add: st Fetch)
    next
      case (Some x)
      then obtain s2 where "hm_at E s1 m k = Some (s2, x)" "hm_view E s2 m H D vs" using hm_at_ok [OF C(2) z, of k] by auto
      then show ?thesis using C Some hm_room_less [OF r] by (intro reach_it [of s2 d m D]) (simp_all add: st Fetch)
    qed
  qed
qed

end
