(* ===== verification/HashCopy.thy ===== *)
theory HashCopy
  imports HashKeyMap
begin

text \<open>
  Copies of a hash map.  The source map is one of the other hives of the store, and the
  references of its tables are among those the target does not own.
\<close>

definition vals :: "(hive_handle \<Rightarrow> 'v option) \<Rightarrow> ('k \<times> hive_handle) list \<Rightarrow> 'k \<Rightarrow> 'v option" where
  "vals D es k = Option.bind (map_of es k) D"

lemma vals_entries: "vals D (hm_entries m) = hm_abs m D"
  by (simp add: fun_eq_iff vals_def hm_abs_def hm_lookup_def)

lemma vals_Nil [simp]: "vals D [] = Map.empty"
  by (simp add: vals_def fun_eq_iff)

lemma vals_append:
  assumes "\<forall>h \<in> snd ` set es. D h \<noteq> None"
  shows "vals D (es @ fs) = vals D fs ++ vals D es"
proof
  fix k
  show "vals D (es @ fs) k = (vals D fs ++ vals D es) k"
  proof (cases "map_of es k")
    case (Some h)
    then have "h \<in> snd ` set es" by (auto dest!: map_of_SomeD intro: rev_image_eqI)
    then show ?thesis using Some assms by (cases "D h") (auto simp: vals_def map_add_def)
  qed (simp add: vals_def map_add_def)
qed

lemma other_data:
  assumes "hm_view E s m H D ((oh, Uo, Do) # vs)"
  shows "hive_data s oh = Do"
  using hm_viewD(2) [OF assms] data_refs unfolding refs_ok_swap [of s _ "(hm_hive m, snd ` set (hm_entries m), D)"] by (simp add: fun_eq_iff) blast

text \<open>One table of the source.\<close>

lemma insert_entries_ok:
  assumes E: "env_ok E" and S: "table_shape t" and dk: "distinct (map fst (tbl_entries t))"
    and full: "\<forall>h \<in> snd ` set (tbl_entries t). Do h \<noteq> None"
    and v: "hm_view E s m H D ((oh, Uo, Do) # vs)" and r: "hm_room E (length (tbl_entries t) + n) m H"
  shows "\<exists>x. insert_entries E s d m t oh = Some x \<and> (\<exists>s' d' m' D' i. x = (s', d', m', i) \<and> hm_view E s' m' H D' ((oh, Uo, Do) # vs) \<and>
    hm_abs m' D' = vals Do (tbl_entries t) ++ hm_abs m D \<and> hm_room E n m' H)"
proof -
  let ?es = "\<lambda>i. List.map_filter (elems t) [0..<i]" and ?fs = "\<lambda>i. List.map_filter (elems t) [i..<cap_of t]"
  let ?vs = "(oh, Uo, Do) # vs"
  define R where "R i st \<longleftrightarrow> (\<exists>s' d' m' D'. st = (s', d', m', of_nat i) \<and> hm_view E s' m' H D' ?vs \<and>
    hm_abs m' D' = vals Do (?es i) ++ hm_abs m D \<and> hm_room E (length (?fs i) + n) m' H)"
    for i and st :: "'b hive_store \<times> nat \<times> 'a hashmap \<times> u64"
  have u: "unat (of_nat i :: u64) = i" if "i \<le> cap_of t" for i using that table_shapeD(2) [OF S] by (simp add: unat_of_nat_u64)
  have sp: "tbl_entries t = ?es i @ (case elems t i of None \<Rightarrow> [] | Some x \<Rightarrow> [x]) @ ?fs (Suc i)"
    "?es (Suc i) = ?es i @ (case elems t i of None \<Rightarrow> [] | Some x \<Rightarrow> [x])" "?fs i = (case elems t i of None \<Rightarrow> [] | Some x \<Rightarrow> [x]) @ ?fs (Suc i)"
    if "i < cap_of t" for i
    using map_filter_split [OF that, of "elems t"] that
    by (simp_all add: tbl_entries_def upt_conv_Cons List.map_filter_def split: option.split)
  show ?thesis
    unfolding insert_entries_def
  proof (rule while_c_post [where R = R and N = "cap_of t" and k = 0], goal_cases)
    case 1
    show ?case unfolding R_def by (rule exI [of _ s], rule exI [of _ d], rule exI [of _ m], rule exI [of _ D])
        (use v r in \<open>simp add: tbl_entries_def List.map_filter_def\<close>)
  next
    case (3 i st)
    then obtain s1 d1 m1 D1 where st: "st = (s1, d1, m1, of_nat i)" and v1: "hm_view E s1 m1 H D1 ?vs"
      and a1: "hm_abs m1 D1 = vals Do (?es i) ++ hm_abs m D" and r1: "hm_room E (length (?fs i) + n) m1 H"
      and i: "i < cap_of t" using u by (auto simp: R_def word_less_nat_alt cap_of_def)
    have c: "ctrl_at t (of_nat i) = Some (ctrl t ! i)" using u [of i] i table_shapeD(3) [OF S] by (simp add: ctrl_at_def)
    have s1: "of_nat i + 1 = (of_nat (Suc i) :: u64)" by (simp add: add.commute)
    show ?case
    proof (cases "elems t i")
      case None
      then have "\<not> is_full (ctrl t ! i)" using table_shapeD(5) [OF S, of i] i by blast
      moreover have "R (Suc i) (s1, d1, m1, of_nat (Suc i))" using v1 a1 r1 sp [OF i] None by (auto simp: R_def)
      ultimately show ?thesis using c i s1 by (auto simp: st is_full_def simp del: of_nat_Suc intro!: exI [of _ "Suc i"])
    next
      case (Some kh)
      obtain k h where kh: "kh = (k, h)" by (cases kh)
      have f: "is_full (ctrl t ! i)" using Some table_shapeD(5) [OF S, of i] by simp
      have "(k, h) \<in> set (tbl_entries t)" using in_entries [OF S] Some kh by blast
      then have "Do h \<noteq> None" using full by (metis image_eqI snd_conv)
      then obtain x where x: "Do h = Some x" by blast
      have "map_of (?es i) k = None" using dk sp(1) [OF i] Some kh by (auto simp: map_of_eq_None_iff)
      then have nk: "vals Do (?es i) k = None" by (simp add: vals_def)
      have upd: "vals Do (?es (Suc i)) = (vals Do (?es i))(k \<mapsto> x)"
        using \<open>map_of (?es i) k = None\<close> sp(2) [OF i] Some kh x by (auto simp: vals_def fun_eq_iff map_add_def split: option.splits)
      have r2: "hm_room E (Suc (length (?fs (Suc i)) + n)) m1 H" using r1 sp(3) [OF i] Some by simp
      obtain s2 d2 m2 h2 D2 where P: "hm_emplace E s1 d1 m1 k x = Some (s2, d2, m2, hm_abs m1 D1 k = None, h2)"
        "hm_view E s2 m2 (add_mset (fst h2) H) D2 ?vs" "hm_abs m2 D2 = (if hm_abs m1 D1 k = None then (hm_abs m1 D1)(k \<mapsto> x) else hm_abs m1 D1)"
        "hm_room E (length (?fs (Suc i)) + n) m2 H"
        by (rule emplace_abs [OF E v1 r2]) blast
      obtain s3 where Q: "drop_ref s2 h2 = Some s3" "hm_view E s3 m2 H D2 ?vs" by (rule view_drop [OF P(2)])
      have "hm_abs m2 D2 = vals Do (?es (Suc i)) ++ hm_abs m D"
        unfolding P(3) upd a1 using nk by (auto simp: fun_eq_iff map_add_def split: option.splits)
      then have "R (Suc i) (s3, d2, m2, of_nat (Suc i))" using Q(2) P(4) by (auto simp: R_def)
      then show ?thesis
        using f c i s1 raw_at_elems [OF S i] Some kh other_data [OF v1] x P(1) Q(1)
        by (auto simp: st is_full_def simp del: of_nat_Suc intro!: exI [of _ "Suc i"])
    qed
  next
    case (4 i st)
    then have "i = cap_of t" using u [of i] by (auto simp: R_def word_less_nat_alt cap_of_def)
    then show ?case using 4(1) by (auto simp: R_def tbl_entries_def List.map_filter_def)
  qed simp
qed

lemma insert_blank:
  assumes "capacity t = 0"
  shows "insert_entries E s d m t oh = Some (s, d, m, 0)"
  using assms by (simp add: insert_entries_def while_c.simps)

text \<open>Both tables of the source.\<close>

lemma insert_all_ok:
  assumes E: "env_ok E" and o: "hm_ok E oth" "\<forall>h \<in> snd ` set (hm_entries oth). Do h \<noteq> None"
    and v: "hm_view E s m H D ((hm_hive oth, Uo, Do) # vs)" and r: "hm_room E (length (hm_entries oth)) m H"
  obtains s' d' m' D' where "insert_all E s d m oth = Some (s', d', m')" "hm_view E s' m' H D' ((hm_hive oth, Uo, Do) # vs)"
    "hm_abs m' D' = hm_abs oth Do ++ hm_abs m D"
proof -
  let ?vs = "(hm_hive oth, Uo, Do) # vs" and ?t0 = "table0 oth" and ?t1 = "table1 oth"
  have t: "(blank ?t0 \<or> table_shape ?t0) \<and> (if rehashing oth then table_shape ?t1 else blank ?t1)"
    using o(1) table_okD(1) by (auto simp: hm_ok_def resting_def at_rest_def moving_def)
  have d: "distinct (map fst (tbl_entries ?t0))" "distinct (map fst (tbl_entries ?t1))" using o(1) by (auto simp: hm_ok_def hm_entries_def)
  have f: "\<forall>h \<in> snd ` set (tbl_entries ?t0). Do h \<noteq> None" "\<forall>h \<in> snd ` set (tbl_entries ?t1). Do h \<noteq> None"
    using o(2) by (auto simp: hm_entries_def)
  have r0: "hm_room E (length (tbl_entries ?t0) + length (tbl_entries ?t1)) m H" using r by (simp add: hm_entries_def)
  have "\<exists>s1 d1 m1 D1 i. insert_entries E s d m ?t0 (hm_hive oth) = Some (s1, d1, m1, i) \<and> hm_view E s1 m1 H D1 ?vs \<and>
    hm_abs m1 D1 = vals Do (tbl_entries ?t0) ++ hm_abs m D \<and> hm_room E (length (tbl_entries ?t1)) m1 H"
  proof (cases "blank ?t0")
    case True
    then show ?thesis using v r0 blank_entries [OF True] insert_blank [of ?t0 E s d m "hm_hive oth"] by (auto simp: blank_def)
  next
    case False
    then show ?thesis using insert_entries_ok [OF E _ d(1) f(1) v r0, of d] t by auto
  qed
  then obtain s1 d1 m1 D1 i where A: "insert_entries E s d m ?t0 (hm_hive oth) = Some (s1, d1, m1, i)" "hm_view E s1 m1 H D1 ?vs"
    "hm_abs m1 D1 = vals Do (tbl_entries ?t0) ++ hm_abs m D" "hm_room E (length (tbl_entries ?t1)) m1 H" by blast
  have all: "hm_abs oth Do = vals Do (tbl_entries ?t1) ++ vals Do (tbl_entries ?t0)"
    using vals_append [OF f(1)] by (simp add: vals_entries [symmetric] hm_entries_def)
  show thesis
  proof (cases "rehashing oth")
    case False
    then have "tbl_entries ?t1 = []" using t by simp
    then show thesis using that [of s1 d1 m1 D1] A all False by (simp add: insert_all_def)
  next
    case True
    then obtain s2 d2 m2 D2 j where "insert_entries E s1 d1 m1 ?t1 (hm_hive oth) = Some (s2, d2, m2, j)" "hm_view E s2 m2 H D2 ?vs"
      "hm_abs m2 D2 = vals Do (tbl_entries ?t1) ++ hm_abs m1 D1"
      using insert_entries_ok [OF E _ d(2) f(2) A(2), of 0 d1] A(4) t by auto
    then show thesis using that [of s2 d2 m2 D2] A(1,3) all True by (simp add: insert_all_def)
  qed
qed

section \<open>The copy constructor and copy assignment\<close>

lemma copy_capacity_ok:
  assumes "n < 2 ^ 59"
  shows "\<exists>cap. copy_capacity (of_nat n) = Some cap \<and> (\<exists>j. unat cap = 8 * 2 ^ j) \<and> unat cap \<le> max 8 (4 * n)"
  unfolding copy_capacity_def
proof (rule while_c_post [where R = "\<lambda>j cap. unat cap = 8 * 2 ^ j \<and> unat cap \<le> max 8 (4 * n)" and k = 0 and N = 60], goal_cases)
  case (3 j cap)
  have "unat cap < 2 ^ 61" using 3(1) assms by auto
  then have u: "unat (cap * 7) = unat cap * 7" "unat (cap * 2) = unat cap * 2" by (simp_all add: unat_word_ariths)
  have "unat (of_nat n * 8 :: u64) = n * 8" using assms by (simp add: unat_word_ariths unat_of_nat_u64)
  then have le: "unat cap * 7 < n * 8" using 3(3) u(1) by (simp add: word_less_nat_alt)
  then have "(2 :: nat) ^ j < 2 ^ 60" using 3(1) assms by simp
  then have "j < 60" by (rule power_less_imp_less_exp [rotated]) simp
  then show ?case using le 3(1) u(2) by (intro exI [of _ "cap * 2"] conjI exI [of _ "Suc j"]) auto
qed (use assms in \<open>auto\<close>)

lemma abs_no_entries: "hm_entries m = [] \<Longrightarrow> hm_abs m D = Map.empty"
  by (simp add: hm_abs_def hm_lookup_def fun_eq_iff)

lemma view_swap:
  assumes v: "hm_view E s m (refs_of (hm_entries oth) + H) D ((hm_hive oth, snd ` set (hm_entries oth), Do) # vs)"
    and o: "hm_ok E oth" "distinct (map snd (hm_entries oth))" "\<forall>h \<in> snd ` set (hm_entries oth). Do h \<noteq> None"
  shows "hm_view E s oth (refs_of (hm_entries m) + H) Do ((hm_hive m, snd ` set (hm_entries m), D) # vs)"
  using hm_viewD(2) [OF v] o refs_ok_swap [of s _ "(hm_hive m, snd ` set (hm_entries m), D)"]
  by (simp add: hm_view_def ac_simps)

lemma view_others:
  assumes v: "hm_view E s m H D vs"
  shows "refs_ok s (refs_of (hm_entries m) + H) ((hm_hive m, snd ` set (hm_entries m), D) # vs)" "hm_ok E m"
    "distinct (map snd (hm_entries m))" "\<forall>h \<in> snd ` set (hm_entries m). D h \<noteq> None"
  using assms by (simp_all add: hm_view_def)

lemma size_view:
  assumes v: "hm_view E s m H D vs"
  shows "hm_size m = of_nat (length (hm_entries m))"
proof -
  have "card (snd ` set (hm_entries m)) = length (hm_entries m)"
    using distinct_card [OF hm_viewD(3) [OF v]] by simp
  then show ?thesis using size_refs(2) [OF hm_viewD(2) [OF v]] by (simp add: hm_size_def hive_size_def)
qed

lemma room_small: "env_ok E \<Longrightarrow> hm_room E n m H \<Longrightarrow> length (hm_entries m) + n < 2 ^ 59"
proof -
  assume E: "env_ok E" and r: "hm_room E n m H"
  let ?k = "2 * max (unat (hm_capacity m)) (max 8 (4 * (length (hm_entries m) + n)))"
  have "4 * (length (hm_entries m) + n) \<le> max (unat (hm_capacity m)) (max 8 (4 * (length (hm_entries m) + n)))"
    by (intro max.coboundedI2) simp
  then have "8 * (length (hm_entries m) + n) \<le> ?k" by linarith
  then have "16 * (8 * (length (hm_entries m) + n)) \<le> unat (slot_bytes E) * ?k" using E unfolding env_ok_def by (meson mult_le_mono)
  also have "\<dots> < 2 ^ 64" using r by (simp add: hm_room_def fits_def)
  finally show ?thesis by simp
qed

text \<open>The source is left as it was.\<close>

lemma hm_copy_ok:
  assumes E: "env_ok E" and v: "hm_view E s oth H Do vs" and i: "fresh_id s i" "i \<noteq> hive_id (hm_hive oth)" "\<forall>v \<in> set vs. hive_id (fst v) \<noteq> i"
    and r: "hm_room E (length (hm_entries oth)) oth H"
  obtains s' d' m' D' where "hm_copy E s d i oth = Some (s', d', m')"
    "hm_view E s' m' (refs_of (hm_entries oth) + H) D' ((hm_hive oth, snd ` set (hm_entries oth), Do) # vs)"
    "hm_view E s' oth (refs_of (hm_entries m') + H) Do ((hm_hive m', snd ` set (hm_entries m'), D') # vs)" "hm_abs m' D' = hm_abs oth Do"
proof -
  note O = view_others [OF v]
  let ?H = "refs_of (hm_entries oth) + H" and ?vs = "(hm_hive oth, snd ` set (hm_entries oth), Do) # vs" and ?n = "length (hm_entries oth)"
  have ids: "\<forall>v \<in> set ?vs. hive_id (fst v) \<noteq> i" using i by simp
  obtain m where N: "hm_new E d i = Some (Suc d, m)" "hm_view E s m ?H Map.empty ?vs" "hm_entries m = []" "hm_capacity m = 0" "resting E m"
    by (rule hm_new_ok [OF E O(1) i(1) ids]) blast
  have small: "?n < 2 ^ 58" using room_small [OF E r] by simp
  have sz: "hm_size oth = of_nat ?n" by (rule size_view [OF v])
  have "\<exists>s' d' m' D'. hm_copy E s d i oth = Some (s', d', m') \<and> hm_view E s' m' ?H D' ?vs \<and> hm_abs m' D' = hm_abs oth Do"
  proof (cases "hm_empty oth")
    case True
    then have "?n = 0" using sz small by (simp add: hm_empty_def hive_empty_def hm_size_def hive_size_def word_unat_eq_iff unat_of_nat_u64)
    then have "hm_entries oth = []" by simp
    then show ?thesis using N(1,2) True by (auto simp: hm_copy_def abs_no_entries N(3))
  next
    case False
    have "?n < 2 ^ 59" using small by simp
    from copy_capacity_ok [OF this] obtain cap j where C: "copy_capacity (of_nat ?n) = Some cap" "unat cap = 8 * 2 ^ j" "unat cap \<le> max 8 (4 * ?n)"
      by blast
    have f: "fits E (2 * max (unat cap) (max 8 (4 * ?n)))" "fits E (unat cap)"
      using r C(3) unfolding hm_room_def by (auto elim!: fits_le)
    have b: "blank (table0 m)" "blank (table1 m)" "\<not> rehashing m"
      using N(4,5) nonblank_cap by (auto simp: resting_def at_rest_def hm_capacity_def)
    then have "tslots (table0 m) = None" by (simp add: blank_def)
    from init_table_ok [OF E C(2) _ this, of "Suc d"] f(2) obtain t where t: "init_table E (Suc d) (table0 m) cap = Some (t, Suc (Suc d))"
        "table_ok E t" "tombs_ok t" "capacity t = cap" "elems t = Map.empty" "tombs t = {}" by (auto simp: fits_def)
    let ?m = "m\<lparr>table0 := t\<rparr>"
    have e: "hm_entries ?m = []" using no_entries [OF t(5)] blank_entries [OF b(2)] by (simp add: hm_entries_def)
    have "resting E ?m" using b t no_entries [OF t(5)] f(2) by (simp add: resting_def at_rest_def load_def cap_of_def)
    then have "hm_ok E ?m" using e by (simp add: hm_ok_def)
    then have vm: "hm_view E s ?m ?H Map.empty ?vs" using N(2,3) e by (simp add: hm_view_def)
    have rm: "hm_room E ?n ?m ?H"
      using r f(1) e b(3) t(4) by (simp add: hm_room_def hm_capacity_def ac_simps)
    obtain s' d' m' D' where "insert_all E s (Suc (Suc d)) ?m oth = Some (s', d', m')" "hm_view E s' m' ?H D' ?vs"
      "hm_abs m' D' = hm_abs oth Do ++ hm_abs ?m Map.empty"
      by (rule insert_all_ok [OF E O(2,4) vm rm])
    then show ?thesis using N(1) False sz C(1) t(1) by (auto simp: hm_copy_def abs_no_entries [OF e])
  qed
  then show thesis using that view_swap [OF _ O(2-4)] by blast
qed

text \<open>Assignment to a map at rest that holds no tombstone; \<open>HashFull\<close> shows why.\<close>

lemma hm_assign_ok:
  assumes E: "env_ok E" and v: "hm_view E s m (refs_of (hm_entries oth) + H) D ((hm_hive oth, snd ` set (hm_entries oth), Do) # vs)"
    and o: "hm_ok E oth" "distinct (map snd (hm_entries oth))" "\<forall>h \<in> snd ` set (hm_entries oth). Do h \<noteq> None"
    and m: "\<not> rehashing m" "tombs (table0 m) = {}" and r: "hm_room E (length (hm_entries oth)) m (refs_of (hm_entries oth) + H)"
  obtains s' d' m' D' where "hm_assign E s d m oth = Some (s', d', m')"
    "hm_view E s' m' (refs_of (hm_entries oth) + H) D' ((hm_hive oth, snd ` set (hm_entries oth), Do) # vs)"
    "hm_view E s' oth (refs_of (hm_entries m') + H) Do ((hm_hive m', snd ` set (hm_entries m'), D') # vs)" "hm_abs m' D' = hm_abs oth Do"
proof -
  let ?H = "refs_of (hm_entries oth) + H" and ?vs = "(hm_hive oth, snd ` set (hm_entries oth), Do) # vs" and ?n = "length (hm_entries oth)"
  obtain s1 m1 where A: "hm_clear s m = Some (s1, m1)" "\<not> rehashing m1" "hm_entries m1 = []" "capacity (table0 m1) = capacity (table0 m)"
    by (rule hm_clear_ok [OF v]) blast
  note v1 = cleared_view [OF v m A(1)]
  have rm: "hm_room E ?n m1 ?H" by (rule hm_room_step [OF r]) (use A m(1) in \<open>simp_all add: grown_def hm_capacity_def\<close>)
  obtain s' d' m' D' where B: "insert_all E s1 d m1 oth = Some (s', d', m')" "hm_view E s' m' ?H D' ?vs"
    "hm_abs m' D' = hm_abs oth Do ++ hm_abs m1 Map.empty"
    by (rule insert_all_ok [OF E o(1,3) v1 rm])
  then show thesis using that [OF _ B(2) view_swap [OF B(2) o]] A(1) B(1,3) by (simp add: hm_assign_def abs_no_entries [OF A(3)])
qed

end
