(* ===== verification/HashProps.thy ===== *)
theory HashProps
  imports HashFull HashKeyMap HashCopy
begin

text \<open>The properties of the hash map.\<close>

section \<open>A small hash map\<close>

text \<open>Keys are numbers and hash to the group and tag they name; every random key is zero.\<close>

definition demo_env :: "nat hash_env" where
  "demo_env = \<lparr>hash_fn = (\<lambda>key k. of_nat k * 128 + of_nat k), getrandom = (\<lambda>d. Some (replicate 32 0)), slot_bytes = 24\<rparr>"

lemma demo_env_ok: "env_ok demo_env"
  by (simp add: env_ok_def demo_env_def)

lemma demo_fits: "fits demo_env n \<longleftrightarrow> 24 * n < 2 ^ 64"
  by (simp add: fits_def demo_env_def)

lemma fresh_empty: "fresh_id empty_store i"
  by (simp add: fresh_id_def empty_store_def)

text \<open>A map in the state that the constructor leaves.\<close>

lemma new_room:
  assumes "n + 5 < 2 ^ 61" "fits E (16 + 8 * n)" and m: "hm_entries m = []" "hm_capacity m = 0"
  shows "hm_room E n m {#}"
proof -
  have "2 * max 0 (max 8 (4 * n)) \<le> 16 + 8 * n" by simp
  from fits_le [OF assms(2) this] show ?thesis using assms(1) by (simp add: hm_room_def m)
qed

text \<open>The pairs 1, 10 and 2, 20.\<close>

definition demo_map :: "(nat hive_store \<times> nat \<times> nat hashmap) option" where
  "demo_map = do {
     (d, m) \<leftarrow> hm_new demo_env 0 7;
     (s, d, m, b, h) \<leftarrow> hm_emplace demo_env empty_store d m 1 10;
     s \<leftarrow> drop_ref s h;
     (s, d, m, b, h) \<leftarrow> hm_emplace demo_env s d m 2 20;
     s \<leftarrow> drop_ref s h;
     Some (s, d, m) }"

lemma demo_map_ok:
  obtains s d m D where "demo_map = Some (s, d, m)" "hm_view demo_env s m {#} D []" "hm_abs m D = [1 \<mapsto> 10, 2 \<mapsto> 20]" "hm_room demo_env 10 m {#}"
proof -
  note E = demo_env_ok
  have no: "\<forall>v \<in> set []. hive_id (fst (v :: nat hive_look)) \<noteq> 7" by simp
  obtain m0 where N: "hm_new demo_env 0 7 = Some (Suc 0, m0)" "hm_view demo_env empty_store m0 {#} Map.empty ([] :: nat hive_look list)" "hm_entries m0 = []" "hm_capacity m0 = 0"
    by (rule hm_new_ok [OF E refs_empty fresh_empty no]) blast
  have r0: "hm_room demo_env (Suc 11) m0 {#}" by (rule new_room [OF _ _ N(3,4)]) (simp_all add: demo_fits)
  have a0: "hm_abs m0 Map.empty = (Map.empty :: nat \<Rightarrow> nat option)" by (rule abs_no_entries [OF N(3)])
  obtain s1 d1 m1 h1 D1 where P: "hm_emplace demo_env empty_store (Suc 0) m0 1 (10 :: nat) = Some (s1, d1, m1, hm_abs m0 Map.empty 1 = (None :: nat option), h1)"
    "hm_view demo_env s1 m1 (add_mset (fst h1) {#}) D1 []"
    "hm_abs m1 D1 = (if hm_abs m0 Map.empty 1 = (None :: nat option) then (hm_abs m0 Map.empty)(1 \<mapsto> 10) else hm_abs m0 Map.empty)" "hm_room demo_env 11 m1 {#}"
    by (rule emplace_abs [OF E N(2) r0, of "Suc 0" 1 10]) blast
  obtain s2 where Q: "drop_ref s1 h1 = Some s2" "hm_view demo_env s2 m1 {#} D1 []" by (rule view_drop [OF P(2)])
  have r1: "hm_room demo_env (Suc 10) m1 {#}" using P(4) by simp
  have a1: "hm_abs m1 D1 = [1 \<mapsto> 10]" using P(3) unfolding a0 by simp
  obtain s3 d3 m3 h3 D3 where R: "hm_emplace demo_env s2 d1 m1 2 20 = Some (s3, d3, m3, hm_abs m1 D1 2 = None, h3)"
    "hm_view demo_env s3 m3 (add_mset (fst h3) {#}) D3 []" "hm_abs m3 D3 = (if hm_abs m1 D1 2 = None then (hm_abs m1 D1)(2 \<mapsto> 20) else hm_abs m1 D1)"
    "hm_room demo_env 10 m3 {#}"
    by (rule emplace_abs [OF E Q(2) r1, of d1 2 20]) blast
  obtain s4 where T: "drop_ref s3 h3 = Some s4" "hm_view demo_env s4 m3 {#} D3 []" by (rule view_drop [OF R(2)])
  have "demo_map = Some (s4, d3, m3)" unfolding demo_map_def using N(1) P(1) Q(1) R(1) T(1) by simp
  then show thesis using that T(2) R(3,4) a1 by simp
qed

section \<open>Tables\<close>

text \<open>What a search in a table finds.\<close>

definition slot_value :: "'k hash_env \<Rightarrow> 'k hash_table \<Rightarrow> 'k \<Rightarrow> hive_handle option" where
  "slot_value E t k = do {
     i \<leftarrow> find_slot t k (hash_of E t k);
     if i = NOT_FOUND then None else map_option snd (raw_at (tslots t) i) }"

lemma slot_value_map:
  assumes "table_ok E t"
  shows "slot_value E t = tbl_map t"
proof
  show "slot_value E t k = tbl_map t k" for k using find_slot_map [OF assms, of k] by (auto simp: slot_value_def)
qed

definition demo_table :: "nat hash_table" where
  "demo_table = \<lparr>random_key = replicate 32 0, ctrl = [0x7F, 0x83, 0, 0, 0, 0, 0, 0], tslots = Some (8, [1 \<mapsto> (3, (Some 0, 5))]),
     capacity = 8, tsize = 1, tombstones = 1\<rparr>"

lemma list_all_upt: "list_all P [0..<n] \<Longrightarrow> i < n \<Longrightarrow> P i"
  by (simp add: list_all_iff)

lemma demo_table_ok: "table_ok demo_env demo_table" "tombs_ok demo_table" "elems demo_table = [1 \<mapsto> (3, (Some 0, 5))]" "cap_of demo_table = 8"
proof -
  show e: "elems demo_table = [1 \<mapsto> (3, (Some 0, 5))]" and c: "cap_of demo_table = 8"
    by (simp_all add: elems_def cap_of_def demo_table_def)
  have ctrl: "ctrl demo_table = [0x7F, 0x83, 0, 0, 0, 0, 0, 0]" by (simp add: demo_table_def)
  have tag: "tag_byte (hash_of demo_env demo_table 3) = 0x83" by (simp add: tag_byte_def hash_of_def demo_env_def)
  have "list_all (\<lambda>i. (is_full (ctrl demo_table ! i) \<longleftrightarrow> i = 1) \<and> (is_full (ctrl demo_table ! i) \<or> ctrl demo_table ! i = 0 \<or> ctrl demo_table ! i = 0x7F) \<and>
      (ctrl demo_table ! i = 0x7F \<longleftrightarrow> i = 0)) [0..<8]"
    unfolding ctrl by code_simp
  then have f: "is_full (ctrl demo_table ! i) \<longleftrightarrow> i = 1" "is_full (ctrl demo_table ! i) \<or> ctrl demo_table ! i = 0 \<or> ctrl demo_table ! i = 0x7F"
    "ctrl demo_table ! i = 0x7F \<longleftrightarrow> i = 0" if "i < 8" for i
    using list_all_upt [OF _ that] by blast+
  have "table_shape demo_table"
    unfolding table_shape_def
  proof (intro conjI allI impI)
    show "\<exists>n. cap_of demo_table = 8 * 2 ^ n" unfolding c by (rule exI [of _ 0]) simp
    show "tslots demo_table = Some (capacity demo_table, elems demo_table)" unfolding e by (simp add: demo_table_def)
    show "elems demo_table i \<noteq> None \<longleftrightarrow> i < cap_of demo_table \<and> is_full (ctrl demo_table ! i)" for i using f(1) [of i] unfolding e c by auto
    show "is_full (ctrl demo_table ! i) \<or> ctrl demo_table ! i = 0 \<or> ctrl demo_table ! i = 0x7F" if "i < cap_of demo_table" for i
      using that f(2) unfolding c by blast
    show "unat (tsize demo_table) = card (dom (elems demo_table))" unfolding e by (simp add: demo_table_def)
    show "cap_of demo_table < 2 ^ 60" "length (ctrl demo_table) = cap_of demo_table" unfolding c by (simp_all add: ctrl)
  qed
  moreover have "group_of demo_table (hash_of demo_env demo_table 3) 0 = 0"
    by (simp add: group_of_def c probe_at_def)
  then have "reach demo_table (hash_of demo_env demo_table 3) 0" unfolding reach_def c by (intro exI [of _ 0]) simp
  ultimately show "table_ok demo_env demo_table" using tag by (auto simp: table_ok_def e ctrl split: if_splits)
  have "tombs demo_table = {0}" using f(3) by (auto simp: tombs_def c)
  then show "tombs_ok demo_table" by (simp add: tombs_ok_def demo_table_def)
qed

text \<open>C14: the search of a table, by groups of eight control bytes read as one word, gives the
  same slot as comparing the key with every slot in turn, and \<open>NOT_FOUND\<close> when no slot has the
  key, in every table that keeps the invariant; it ends and reads no byte outside.\<close>

theorem find_slot_correct:
  assumes "table_ok E t"
  shows "find_slot t k (hash_of E t k) =
    Some (case find (\<lambda>i. map_option fst (elems t i) = Some k) [0..<cap_of t] of None \<Rightarrow> NOT_FOUND | Some i \<Rightarrow> of_nat i)"
proof (cases "find (\<lambda>i. map_option fst (elems t i) = Some k) [0..<cap_of t]")
  case None
  have "elems t i \<noteq> Some (k, h)" for i h
  proof
    assume e: "elems t i = Some (k, h)"
    then have "i \<in> set [0..<cap_of t]" using elems_less [OF table_okD(1) [OF assms]] by simp
    then show False using None e unfolding find_None_iff by (cases h) auto
  qed
  then have "tbl_map t k = None" by (simp add: tbl_map_None [OF assms])
  then show ?thesis using find_slot_map [OF assms, of k] None by simp
next
  case (Some i)
  then obtain h where i: "elems t i = Some (k, h)" by (auto simp: find_Some_iff)
  then have "tbl_map t k \<noteq> None" using tbl_map_None [OF assms] by blast
  then obtain j h' where "find_slot t k (hash_of E t k) = Some (of_nat j)" "elems t j = Some (k, h')"
    using find_slot_map [OF assms, of k] by auto
  then show ?thesis using Some table_okD(4) [OF assms i] by simp
qed

theorem find_slot_correct_witness:
  "find_slot demo_table 3 (hash_of demo_env demo_table 3) = Some 1 \<and> find_slot demo_table 4 (hash_of demo_env demo_table 4) = Some NOT_FOUND"
  unfolding find_slot_correct [OF demo_table_ok(1)] demo_table_ok(3,4) by (simp add: upt_conv_Cons)

text \<open>C15: a key that a table does not have gets a slot that is free, even across tombstones, and
  once the slot is filled a search finds the new key there and every other key where it was;
  only when every slot is in use there is none.\<close>

theorem find_insert_slot_correct:
  assumes "table_ok E t" "tombs_ok t" "slot_value E t k = None" "copy_ref s h = Some (s', h)"
  shows "if card (dom (elems t)) = cap_of t then find_insert_slot t k (hash_of E t k) = Some NOT_FOUND
    else \<exists>i t'. find_insert_slot t k (hash_of E t k) = Some i \<and> fill_slot s t i k h (hash_of E t k) = Some (s', t') \<and>
      table_ok E t' \<and> tombs_ok t' \<and> slot_value E t' = (slot_value E t)(k \<mapsto> h)"
proof -
  note S = table_okD(1) [OF assms(1)]
  have new: "tbl_map t k = None" using assms(3) slot_value_map [OF assms(1)] by simp
  then have none: "\<And>i h. elems t i \<noteq> Some (k, h)" using tbl_map_None [OF assms(1)] by blast
  have dm: "dom (elems t) \<subseteq> {..<cap_of t}" using elems_less [OF S] by (auto simp: dom_def)
  show ?thesis
  proof (cases "card (dom (elems t)) = cap_of t")
    case True
    then have "dom (elems t) = {..<cap_of t}" using dm by (intro card_subset_eq) simp_all
    then have "is_full (ctrl t ! i)" if "i < cap_of t" for i using that table_shapeD(5) [OF S, of i] by blast
    then show ?thesis using True find_insert_slot_cases [OF assms(1) none] by auto
  next
    case False
    then have "card (dom (elems t)) < cap_of t" using card_mono [OF _ dm] by simp
    then obtain i where i: "find_insert_slot t k (hash_of E t k) = Some (of_nat i)" "i < cap_of t" "\<not> is_full (ctrl t ! i)" "reach t (hash_of E t k) (i div 8)"
      by (rule find_insert_slot_ok [OF assms(1) none])
    obtain t' where T: "fill_slot s t (of_nat i) k h (hash_of E t k) = Some (s', t')" "table_ok E t'" "tombs_ok t'"
      "capacity t' = capacity t" "random_key t' = random_key t" "elems t' = (elems t)(i \<mapsto> (k, h))" "elems t i = None"
      by (rule fill_slot_ok [OF assms(1,2) i(2-4) new assms(4)]) blast
    have "tbl_map t' k' = ((tbl_map t)(k \<mapsto> h)) k'" for k'
    proof -
      have "tbl_map t' k' = Some x \<longleftrightarrow> ((tbl_map t)(k \<mapsto> h)) k' = Some x" for x
        using T(6,7) none by (auto simp: tbl_map_eq [OF assms(1)] tbl_map_eq [OF T(2)]) (metis option.distinct(1))
      then show ?thesis by (metis option.exhaust)
    qed
    then show ?thesis using False i(1) T(1-3) by (auto simp: slot_value_map [OF assms(1)] slot_value_map [OF T(2)] fun_eq_iff)
  qed
qed

theorem find_insert_slot_correct_witness:
  "\<exists>i t'. find_insert_slot demo_table 9 (hash_of demo_env demo_table 9) = Some i \<and>
    fill_slot (empty_store :: nat hive_store) demo_table i 9 null_handle (hash_of demo_env demo_table 9) = Some (empty_store, t') \<and>
    slot_value demo_env t' 9 = Some null_handle \<and> slot_value demo_env t' 3 = Some (Some 0, 5)"
proof -
  have c: "copy_ref (empty_store :: nat hive_store) null_handle = Some (empty_store, null_handle)"
    by (simp add: copy_ref_def counted_copy_def null_handle_def)
  have v: "slot_value demo_env demo_table 9 = None" "slot_value demo_env demo_table 3 = Some (Some 0, 5)"
    using demo_table_ok(3) tbl_map_None [OF demo_table_ok(1)] tbl_map_eq [OF demo_table_ok(1)]
    by (auto simp: slot_value_map [OF demo_table_ok(1)] split: if_splits)
  from find_insert_slot_correct [OF demo_table_ok(1,2) v(1) c] v(2) show ?thesis by (auto simp: demo_table_ok(3,4))
qed

section \<open>Maps\<close>

lemma entry_of_handle:
  assumes "h \<in> snd ` A"
  obtains k where "(k, h) \<in> A"
proof -
  obtain x where "x \<in> A" "h = snd x" using assms by blast
  then have "(fst x, h) \<in> A" by simp
  then show thesis by (rule that)
qed

text \<open>C12: a new hash map answers every sequence of calls, of any length that memory has room for,
  as a map from keys to values does: insertions and assignments, removals and look-ups, in any
  order and however the hash function distributes the keys; no call faults, loops for ever or is
  answered differently while entries move between the two tables.\<close>

theorem hashmap_refines_map:
  assumes "env_ok E" "length cs + 5 < 2 ^ 61" "fits E (16 + 8 * length cs)"
  shows "\<exists>m st. hm_new E 0 i = Some (1, m) \<and> run_calls (hm_call E) (empty_store, 1, m) cs = Some (st, snd (map_run Map.empty cs)) \<and>
    hm_look st = fst (map_run Map.empty cs)"
proof -
  have no: "\<forall>v \<in> set []. hive_id (fst (v :: 'b hive_look)) \<noteq> i" by simp
  obtain m where N: "hm_new E 0 i = Some (Suc 0, m)" "hm_view E (empty_store :: 'b hive_store) m {#} Map.empty []" "hm_entries m = []" "hm_capacity m = 0"
    by (rule hm_new_ok [OF assms(1) refs_empty fresh_empty no]) blast
  have "hm_room E (length cs + 0) m {#}" by (rule new_room [OF _ _ N(3,4)]) (use assms(2,3) in simp_all)
  then have "hm_state_ok E (length cs + 0) (empty_store :: 'b hive_store, 1, m)" using assms(1) N(2) by (auto simp: hm_state_ok_def)
  from hk.run_ok [OF this] obtain st where "run_calls (hm_call E) (empty_store, 1, m) cs = Some (st, snd (map_run (hm_look (empty_store, 1, m)) cs))"
    "hm_look st = fst (map_run (hm_look (empty_store, 1, m)) cs)" by blast
  moreover have "hm_look (empty_store :: 'b hive_store, 1, m) = Map.empty" using view_look [OF N(2)] abs_no_entries [OF N(3)] by simp
  ultimately show ?thesis using N(1) by (intro exI [of _ m] exI [of _ st]) simp
qed

theorem hashmap_refines_map_witness:
  "\<exists>m st. hm_new demo_env 0 7 = Some (1, m) \<and>
    run_calls (hm_call demo_env) (empty_store, 1, m) [Put 1 10, Put 2 20, Put 1 30, Assign 2 40, Fetch 1, Delete 1, Fetch 1, Fetch (2 :: nat)] =
      Some (st, [Done True, Done True, Done False, Done False, Found (Some (10 :: nat)), Done True, Found None, Found (Some 40)])"
  using hashmap_refines_map [OF demo_env_ok, of "[Put 1 10, Put 2 20, Put 1 30, Assign 2 40, Fetch 1, Delete 1, Fetch 1, Fetch (2 :: nat)]" 7]
  by (auto simp: demo_fits)

text \<open>C16: \<open>emplace\<close> keeps a value that is there, else adds the new one, and returns a handle to the
  value of the key; every handle handed out before still gives its value and its key, although the
  insertion may have moved entries or begun a rehash.\<close>

theorem hm_emplace_correct:
  assumes "env_ok E" "hm_view E s m H D vs" "hm_room E (Suc n) m H"
  shows "\<exists>s' d' m' h D'. hm_emplace E s d m k v = Some (s', d', m', hm_abs m D k = None, h) \<and> hm_view E s' m' (add_mset (fst h) H) D' vs \<and>
    hm_abs m' D' = (if hm_abs m D k = None then (hm_abs m D)(k \<mapsto> v) else hm_abs m D) \<and> hm_room E n m' H \<and>
    hm_key s' m' h = Some k \<and> hm_value s' m' h = hm_abs m' D' k \<and>
    (\<forall>h' \<in> snd ` set (hm_entries m). hm_value s' m' h' = hm_value s m h' \<and> hm_key s' m' h' = hm_key s m h')"
proof -
  obtain s' d' m' h D' where P: "hm_emplace E s d m k v = Some (s', d', m', hm_abs m D k = None, h)" "hm_view E s' m' (add_mset (fst h) H) D' vs"
    "hm_abs m' D' = (if hm_abs m D k = None then (hm_abs m D)(k \<mapsto> v) else hm_abs m D)" "hm_room E n m' H" "hm_lookup m' k = Some h"
    "\<forall>h \<in> snd ` set (hm_entries m). D' h = D h"
    "set (hm_entries m') = (if hm_abs m D k = None then insert (k, h) (set (hm_entries m)) else set (hm_entries m))"
    by (rule emplace_abs [OF assms])
  have "hm_key s' m' h = Some k" using hm_key_ok [OF P(2)] P(5) lookup_iff [OF hm_viewD(5) [OF P(2)]] by blast
  moreover have "hm_value s' m' h = hm_abs m' D' k" using P(5) by (simp add: hm_value_def view_data [OF P(2)] hm_abs_def)
  moreover have "hm_value s' m' h' = hm_value s m h' \<and> hm_key s' m' h' = hm_key s m h'" if hh: "h' \<in> snd ` set (hm_entries m)" for h'
  proof -
    obtain k' where "(k', h') \<in> set (hm_entries m)" using hh by (rule entry_of_handle)
    then have "hm_key s m h' = Some k'" "hm_key s' m' h' = Some k'" using hm_key_ok [OF assms(2)] hm_key_ok [OF P(2)] P(7) by auto
    then show ?thesis using bspec [OF P(6) hh] by (simp add: hm_value_def view_data [OF P(2)] view_data [OF assms(2)])
  qed
  ultimately show ?thesis using P(1-4) by blast
qed

theorem hm_emplace_correct_witness:
  "\<exists>s d m s' d' m' h. demo_map = Some (s, d, m) \<and> hm_emplace demo_env s d m 3 30 = Some (s', d', m', True, h) \<and>
    hm_key s' m' h = Some 3 \<and> hm_value s' m' h = Some 30"
proof -
  obtain s d m D where M: "demo_map = Some (s, d, m)" "hm_view demo_env s m {#} D []" "hm_abs m D = [1 \<mapsto> 10, 2 \<mapsto> 20]" "hm_room demo_env 10 m {#}"
    by (rule demo_map_ok)
  have "hm_room demo_env (Suc 9) m {#}" using M(4) by simp
  from hm_emplace_correct [OF demo_env_ok M(2) this, of d 3 30] obtain s' d' m' h where
    "hm_emplace demo_env s d m 3 30 = Some (s', d', m', True, h)" "hm_key s' m' h = Some 3" "hm_value s' m' h = Some 30"
    unfolding M(3) by auto
  then show ?thesis using M(1) by blast
qed

text \<open>C17: removing an entry through its handle removes exactly that key and its value; every other
  handle keeps its value, and \<open>key\<close> finds the key of every handle.\<close>

theorem hm_remove_handle_correct:
  assumes "env_ok E" "hm_view E s m H D vs" "small_refs m H" "(k, h) \<in> set (hm_entries m)"
  shows "hm_key s m h = Some k \<and> (\<exists>s' d' m' D'. hm_remove_handle E s d m h = Some (s', d', m') \<and> hm_view E s' m' H D' vs \<and>
    hm_abs m' D' = (hm_abs m D)(k := None) \<and> hm_value s' m' h = None \<and> set (hm_entries m') = set (hm_entries m) - {(k, h)} \<and>
    (\<forall>h' \<in> snd ` set (hm_entries m). h' \<noteq> h \<longrightarrow> hm_value s' m' h' = hm_value s m h' \<and> hm_key s' m' h' = hm_key s m h'))"
proof (rule conjI [OF hm_key_ok [OF assms(2,4)]])
  note V = hm_viewD [OF assms(2)]
  have l: "hm_lookup m k = Some h" using assms(4) lookup_iff [OF V(5)] by simp
  obtain s' d' m' where P: "hm_remove_handle E s d m h = Some (s', d', m')" "hm_view E s' m' H (D(h := None)) vs"
    "hm_lookup m' = (hm_lookup m)(k := None)" "mset (hm_entries m) = add_mset (k, h) (mset (hm_entries m'))"
    by (rule hm_remove_handle_ok [OF assms(1-3) l]) blast
  note O = one_more_entry [OF P(4) V(5)]
  have "(k, h) \<notin> set (hm_entries m')" using O(2) by (auto simp: map_of_eq_None_iff intro: rev_image_eqI)
  then have st: "set (hm_entries m') = set (hm_entries m) - {(k, h)}" using O(4) by blast
  have "hm_value s' m' h' = hm_value s m h' \<and> hm_key s' m' h' = hm_key s m h'" if hh: "h' \<in> snd ` set (hm_entries m)" "h' \<noteq> h" for h'
  proof -
    obtain k' where "(k', h') \<in> set (hm_entries m)" using hh(1) by (rule entry_of_handle)
    then have "hm_key s m h' = Some k'" "hm_key s' m' h' = Some k'" using hm_key_ok [OF assms(2)] hm_key_ok [OF P(2)] st hh(2) by auto
    then show ?thesis using hh(2) by (simp add: hm_value_def view_data [OF P(2)] view_data [OF assms(2)])
  qed
  moreover have "hm_value s' m' h = None" by (simp add: hm_value_def view_data [OF P(2)])
  ultimately show "\<exists>s' d' m' D'. hm_remove_handle E s d m h = Some (s', d', m') \<and> hm_view E s' m' H D' vs \<and>
    hm_abs m' D' = (hm_abs m D)(k := None) \<and> hm_value s' m' h = None \<and> set (hm_entries m') = set (hm_entries m) - {(k, h)} \<and>
    (\<forall>h' \<in> snd ` set (hm_entries m). h' \<noteq> h \<longrightarrow> hm_value s' m' h' = hm_value s m h' \<and> hm_key s' m' h' = hm_key s m h')"
    using P(1,2) st abs_delete [OF assms(2) l P(3)] by blast
qed

theorem hm_remove_handle_correct_witness:
  "\<exists>s d m h s' d' m'. demo_map = Some (s, d, m) \<and> hm_key s m h = Some 1 \<and> hm_remove_handle demo_env s d m h = Some (s', d', m') \<and>
    hm_look (s', d', m') = [2 \<mapsto> 20]"
proof -
  obtain s d m D where M: "demo_map = Some (s, d, m)" "hm_view demo_env s m {#} D []" "hm_abs m D = [1 \<mapsto> 10, 2 \<mapsto> 20]" "hm_room demo_env 10 m {#}"
    by (rule demo_map_ok)
  obtain h where "hm_lookup m 1 = Some h" using abs_none_iff [OF M(2), of 1] M(3) by auto
  then have h: "(1, h) \<in> set (hm_entries m)" using lookup_iff [OF hm_viewD(5) [OF M(2)]] by simp
  obtain s' d' m' D' where R: "hm_key s m h = Some 1" "hm_remove_handle demo_env s d m h = Some (s', d', m')" "hm_view demo_env s' m' {#} D' []"
    "hm_abs m' D' = (hm_abs m D)(1 := None)"
    using hm_remove_handle_correct [OF demo_env_ok M(2) hm_roomD(1) [OF M(4)] h, of d] by (elim conjE exE)
  have "hm_look (s', d', m') = [2 \<mapsto> 20]" using view_look [OF R(3), of d'] R(4) M(3) by auto
  then show ?thesis using M(1) R(1,2) by blast
qed

text \<open>C18: a step that moves entries from the old table to the new one, of any size and at any
  moment, keeps every key, handle and value, and the capacity; so does a step that ends the
  rehash.\<close>

theorem step_rehash_transparent:
  assumes "hm_view E s m H D vs" "small_refs m H"
  shows "\<exists>s' m'. step_rehash E n s m = Some (s', m') \<and> hm_view E s' m' H D vs \<and> hm_lookup m' = hm_lookup m \<and> hm_abs m' D = hm_abs m D \<and>
    hm_capacity m' = hm_capacity m \<and> (rehashing m' \<longrightarrow> rehashing m)"
proof -
  note V = hm_viewD [OF assms(1)]
  have l: "length (hm_entries m) + size H + 1 < 2 ^ 61" using assms(2) by (simp add: small_refs_def)
  have "\<exists>s' m'. step_rehash E n s m = Some (s', m') \<and> same_map m m' \<and> hm_view E s' m' H D vs \<and> hm_capacity m' = hm_capacity m \<and> (rehashing m' \<longrightarrow> rehashing m)"
  proof (cases "rehashing m")
    case False
    then show ?thesis using assms(1) by (simp add: step_rehash_def)
  next
    case True
    then obtain N where mv: "moving E N 0 m" using V(6) by (auto simp: resting_def)
    obtain s' m' where S: "step_rehash E n s m = Some (s', m')"
      "refs_ok s' (refs_of (hm_entries m) + H) ((hm_hive m, snd ` set (hm_entries m), D) # vs)" "same_map m m'"
      "moving E N (unat n) m' \<or> \<not> rehashing m' \<and> blank (table1 m') \<and> at_rest E (table0 m') \<and> load (table0 m') \<le> total m"
      "hm_capacity m' = hm_capacity m"
      by (rule step_rehash_ok [where n = n, OF mv V(5,2) l]) blast
    then have "resting E m' \<or> (\<exists>N. moving E N 0 m')" using moving_less [of E N "unat n" m' 0] by (auto simp: resting_def)
    then have "hm_ok E m'" using same_map_keys [OF S(3) V(5)] by (simp add: hm_ok_def)
    from same_map_view [OF assms(1) S(3) this S(2)] show ?thesis using S(1,3,5) True by blast
  qed
  then show ?thesis using same_map_lookup [OF _ V(5)] same_map_abs [OF _ V(5)] by blast
qed

theorem step_rehash_transparent_witness:
  "\<exists>s d m s' m'. demo_map = Some (s, d, m) \<and> step_rehash demo_env 4 s m = Some (s', m') \<and> hm_look (s', d, m') = [1 \<mapsto> 10, 2 \<mapsto> 20]"
proof -
  obtain s d m D where M: "demo_map = Some (s, d, m)" "hm_view demo_env s m {#} D []" "hm_abs m D = [1 \<mapsto> 10, 2 \<mapsto> 20]" "hm_room demo_env 10 m {#}"
    by (rule demo_map_ok)
  obtain s' m' where "step_rehash demo_env 4 s m = Some (s', m')" "hm_view demo_env s' m' {#} D []" "hm_abs m' D = hm_abs m D"
    using step_rehash_transparent [OF M(2) hm_roomD(1) [OF M(4)], of 4] by blast
  then have "hm_look (s', d, m') = [1 \<mapsto> 10, 2 \<mapsto> 20]" using M(3) view_look by metis
  then show ?thesis using M(1) \<open>step_rehash demo_env 4 s m = Some (s', m')\<close> by blast
qed

text \<open>C19: \<open>finish_rehash\<close> ends, in whatever state the rehash is: after it no rehash is going on
  and every key has its handle.\<close>

theorem finish_rehash_terminates:
  assumes "hm_view E s m H D vs" "small_refs m H"
  shows "\<exists>s' m'. finish_rehash E s m = Some (s', m') \<and> \<not> rehashing m' \<and> hm_view E s' m' H D vs \<and> hm_lookup m' = hm_lookup m \<and>
    hm_capacity m' = hm_capacity m"
proof -
  obtain s' m' where "finish_rehash E s m = Some (s', m')" "hm_view E s' m' H D vs" "same_map m m'" "\<not> rehashing m'" "hm_capacity m' = hm_capacity m"
    by (rule finish_rehash_ok [OF assms])
  then show ?thesis using same_map_lookup hm_viewD(5) [OF assms(1)] by blast
qed

theorem finish_rehash_terminates_witness:
  "\<exists>s d m s' m'. demo_map = Some (s, d, m) \<and> finish_rehash demo_env s m = Some (s', m') \<and> \<not> rehashing m' \<and> hm_lookup m' = hm_lookup m"
proof -
  obtain s d m D where M: "demo_map = Some (s, d, m)" "hm_view demo_env s m {#} D []" "hm_room demo_env 10 m {#}"
    by (rule demo_map_ok)
  show ?thesis using finish_rehash_terminates [OF M(2) hm_roomD(1) [OF M(3)]] M(1) by blast
qed

text \<open>\<open>clear\<close> destroys every value and gives back every handle of both tables, ends a rehash
  that is going on and keeps what other containers have in the store; the destructor does the
  same.  The map then has no key.\<close>

theorem hm_clear_correct:
  assumes "hm_view E s m H D vs"
  shows "(\<exists>s' m'. hm_clear s m = Some (s', m') \<and> refs_ok s' H ((hm_hive m', {}, Map.empty) # vs) \<and> hm_size m' = 0 \<and> \<not> rehashing m' \<and>
      hm_entries m' = [] \<and> (\<forall>k. hm_contains E s' m' k = Some (s', False))) \<and>
    (\<exists>s' h'. hm_destroy s m = Some s' \<and> refs_ok s' H ((h', {}, Map.empty) # vs) \<and> hive_id h' = hive_id (hm_hive m))"
proof
  obtain s' m' where C: "hm_clear s m = Some (s', m')" "refs_ok s' H ((hm_hive m', {}, Map.empty) # vs)" "hive_id (hm_hive m') = hive_id (hm_hive m)"
    "\<not> rehashing m'" "blank (table1 m')" "hm_entries m' = []" "capacity (table0 m') = capacity (table0 m)"
    "blank (table0 m') \<and> blank (table0 m) \<or> table_shape (table0 m') \<and> table_shape (table0 m) \<and> elems (table0 m') = Map.empty \<and>
      tombs (table0 m') = tombs (table0 m) \<and> tombstones (table0 m') = 0"
    by (rule hm_clear_ok [OF assms])
  have "hm_contains E s' m' k = Some (s', False)" for k
  proof (cases "capacity (table0 m') = 0")
    case True
    then show ?thesis by (simp add: hm_contains_def hm_search_def)
  next
    case False
    then have t: "table_shape (table0 m')" "elems (table0 m') = Map.empty" using C(8) by (auto simp: blank_def)
    then have ok: "table_ok E (table0 m')" by (rule empty_table_ok)
    have "tbl_map (table0 m') k = None" using no_entries [OF t(2)] by (simp add: tbl_map_def)
    then have "find_in E (table0 m') k = Some NOT_FOUND" using find_in_ok [OF ok, of k] by auto
    then show ?thesis using False C(4) by (simp add: hm_contains_def hm_search_def)
  qed
  moreover have "hm_size m' = 0" using size_refs(2) [OF C(2)] by (simp add: hm_size_def hive_size_def)
  ultimately show "\<exists>s' m'. hm_clear s m = Some (s', m') \<and> refs_ok s' H ((hm_hive m', {}, Map.empty) # vs) \<and> hm_size m' = 0 \<and> \<not> rehashing m' \<and>
      hm_entries m' = [] \<and> (\<forall>k. hm_contains E s' m' k = Some (s', False))"
    using C(1,2,4,6) by blast
  obtain s2 h2 where "hm_destroy s m = Some s2" "refs_ok s2 H ((h2, {}, Map.empty) # vs)" "hive_id h2 = hive_id (hm_hive m)"
    by (rule hm_destroy_ok [OF assms])
  then show "\<exists>s' h'. hm_destroy s m = Some s' \<and> refs_ok s' H ((h', {}, Map.empty) # vs) \<and> hive_id h' = hive_id (hm_hive m)" by blast
qed

theorem hm_clear_correct_witness:
  "\<exists>s d m s' m'. demo_map = Some (s, d, m) \<and> hm_clear s m = Some (s', m') \<and> hm_size m' = 0 \<and> hm_contains demo_env s' m' 1 = Some (s', False)"
proof -
  obtain s d m D where M: "demo_map = Some (s, d, m)" "hm_view demo_env s m {#} D []" by (rule demo_map_ok)
  show ?thesis using hm_clear_correct [OF M(2)] M(1) by blast
qed

text \<open>C20: the copy constructor gives a new map with exactly the keys and values of the source,
  which it leaves as it was, also when the source is in the middle of a rehash; the copy is a
  map of its own, with handles and a hive of its own.\<close>

theorem hm_copy_correct:
  assumes "env_ok E" "hm_view E s other H D vs" "fresh_id s i" "i \<noteq> hive_id (hm_hive other)" "\<forall>v \<in> set vs. hive_id (fst v) \<noteq> i"
    and "hm_room E (length (hm_entries other)) other H"
  shows "\<exists>s' d' m' D'. hm_copy E s d i other = Some (s', d', m') \<and> hm_abs m' D' = hm_abs other D \<and>
    hm_view E s' m' (refs_of (hm_entries other) + H) D' ((hm_hive other, snd ` set (hm_entries other), D) # vs) \<and>
    hm_view E s' other (refs_of (hm_entries m') + H) D ((hm_hive m', snd ` set (hm_entries m'), D') # vs)"
  by (rule hm_copy_ok [OF assms]) blast

theorem hm_copy_correct_witness:
  "\<exists>s d m s' d' m'. demo_map = Some (s, d, m) \<and> hm_copy demo_env s d 9 m = Some (s', d', m') \<and> hm_look (s', d', m') = [1 \<mapsto> 10, 2 \<mapsto> 20] \<and>
    hm_look (s', d', m) = [1 \<mapsto> 10, 2 \<mapsto> 20]"
proof -
  obtain s d m D where M: "demo_map = Some (s, d, m)" "hm_view demo_env s m {#} D []" "hm_abs m D = [1 \<mapsto> 10, 2 \<mapsto> 20]" "hm_room demo_env 10 m {#}"
    by (rule demo_map_ok)
  have "map_option (\<lambda>(s, d, m). (map_option tag_id (tags (tagged s) 0), next_block (tagged s), hive_id (hm_hive m), hlen (hm_hive m))) demo_map =
      Some (Some 7, 1, 7, 2)"
    by code_simp
  then have t: "map_option tag_id (tags (tagged s) 0) = Some 7" "next_block (tagged s) = 1" "hive_id (hm_hive m) = 7" "hlen (hm_hive m) = 2"
    unfolding M(1) by simp_all
  obtain own hs where "store_ok s own hs" using hm_viewD(2) [OF M(2)] by (auto simp: refs_ok_def)
  then have "j = 0" if "tags (tagged s) j = Some x" for j x
    using that t(2) counted_okD(2) [OF store_okD(1)] by fastforce
  then have f: "fresh_id s 9" using t(1) by (fastforce simp: fresh_id_def)
  have "of_nat (length (hm_entries m)) = (2 :: u64)" using size_view [OF M(2)] t(4) by (simp add: hm_size_def hive_size_def)
  moreover have "length (hm_entries m) < 2 ^ 61" using M(4) by (simp add: hm_room_def)
  moreover from this have "unat (of_nat (length (hm_entries m)) :: u64) = length (hm_entries m)" by (simp add: unat_of_nat_u64)
  ultimately have l: "length (hm_entries m) = 2" by simp
  have r: "hm_room demo_env (length (hm_entries m)) m {#}" by (rule hm_room_step [OF M(4)]) (simp_all add: l)
  obtain s' d' m' D' where C: "hm_copy demo_env s d 9 m = Some (s', d', m')" "hm_abs m' D' = hm_abs m D"
    "hm_view demo_env s' m' (refs_of (hm_entries m) + {#}) D' [(hm_hive m, snd ` set (hm_entries m), D)]"
    "hm_view demo_env s' m (refs_of (hm_entries m') + {#}) D [(hm_hive m', snd ` set (hm_entries m'), D')]"
    using hm_copy_correct [OF demo_env_ok M(2) f _ _ r, of d] t(3) by auto
  have "hm_look (s', d', m') = [1 \<mapsto> 10, 2 \<mapsto> 20]" "hm_look (s', d', m) = [1 \<mapsto> 10, 2 \<mapsto> 20]"
    using view_look [OF C(3), of d'] view_look [OF C(4), of d'] C(2) M(3) by metis+
  then show ?thesis using M(1) C(1) by blast
qed




end
