(* ===== verification/Buddy.thy ===== *)
theory Buddy
  imports HiveBits
begin

text \<open>
  The linked lists of the allocators in \<open>src/memory\<close>.  Records are known by their addresses;
  the two link fields of a kind of record are two functions from addresses, and \<open>valid\<close> says where a record is.
  Every access through a pointer is checked.

  The buddy allocator of \<open>src/memory/buddy.c\<close>.  A chunk of 128 pages is described by a record
  with one bitmap of free blocks for every order.  Records come in groups of 20, one page each; pages
  come from a provider of regions, which is a parameter (\<open>mmap.c\<close> is one, theory \<open>Mmap\<close>).
  The seven pairs of functions differ in the order only, and in that order 0 has two words of bits:
  what they share is \<open>alloc_block\<close> and \<open>release_block\<close>, over the function of the next order.
\<close>

section \<open>Operations\<close>

type_synonym list_links = "(nat \<Rightarrow> ptr) \<times> (nat \<Rightarrow> ptr) \<times> ptr"

definition deref :: "(nat \<Rightarrow> bool) \<Rightarrow> ptr \<Rightarrow> nat option" where
  "deref valid p = do { i \<leftarrow> p; if valid i then Some i else None }"

text \<open>\<open>if (p != NULL) p->field = v;\<close>\<close>

definition set_if :: "(nat \<Rightarrow> bool) \<Rightarrow> ptr \<Rightarrow> ptr \<Rightarrow> (nat \<Rightarrow> ptr) \<Rightarrow> (nat \<Rightarrow> ptr) option" where
  "set_if valid p v f = (if p \<noteq> None then do { i \<leftarrow> deref valid p; Some (f(i := v)) } else Some f)"

text \<open>\<open>st->next = head; if (head != NULL) head->prev = st; head = st;\<close>\<close>

definition push_front :: "(nat \<Rightarrow> bool) \<Rightarrow> nat \<Rightarrow> list_links \<Rightarrow> list_links option" where
  "push_front valid st = (\<lambda>(prv, nxt, head). do {
     st \<leftarrow> deref valid (Some st);
     let nxt = nxt(st := head);
     prv \<leftarrow> set_if valid head (Some st) prv;
     Some (prv, nxt, Some st) })"

text \<open>\<open>if (st->next != NULL) st->next->prev = NULL; head = st->next;\<close> where \<open>st\<close> is the head\<close>

definition pop_head :: "(nat \<Rightarrow> bool) \<Rightarrow> nat \<Rightarrow> list_links \<Rightarrow> list_links option" where
  "pop_head valid st = (\<lambda>(prv, nxt, head). do {
     st \<leftarrow> deref valid (Some st);
     prv \<leftarrow> set_if valid (nxt st) None prv;
     Some (prv, nxt, nxt st) })"

text \<open>\<open>if (st->prev != NULL) st->prev->next = st->next; if (st->next != NULL) st->next->prev = st->prev; if (head == st) head = st->next;\<close>\<close>

definition unlink :: "(nat \<Rightarrow> bool) \<Rightarrow> nat \<Rightarrow> list_links \<Rightarrow> list_links option" where
  "unlink valid st = (\<lambda>(prv, nxt, head). do {
     st \<leftarrow> deref valid (Some st);
     nxt \<leftarrow> set_if valid (prv st) (nxt st) nxt;
     prv \<leftarrow> set_if valid (nxt st) (prv st) prv;
     Some (prv, nxt, if head = Some st then nxt st else head) })"

section \<open>What they do to a list\<close>

definition in_links :: "(nat \<Rightarrow> bool) \<Rightarrow> nat list \<Rightarrow> list_links \<Rightarrow> bool" where
  "in_links valid xs = (\<lambda>(prv, nxt, head). distinct xs \<and> (\<forall>x \<in> set xs. valid x) \<and> chain prv nxt xs \<and> head = first xs None)"

definition links_except :: "nat set \<Rightarrow> list_links \<Rightarrow> list_links \<Rightarrow> bool" where
  "links_except S = (\<lambda>(prv, nxt, _) (prv', nxt', _). \<forall>j. j \<notin> S \<longrightarrow> prv' j = prv j \<and> nxt' j = nxt j)"

lemma deref_Some [simp]: "valid i \<Longrightarrow> deref valid (Some i) = Some i"
  by (simp add: deref_def)

lemma set_if_simps [simp]: "set_if valid None v f = Some f" "valid i \<Longrightarrow> set_if valid (Some i) v f = Some (f(i := v))"
  by (simp_all add: set_if_def)

lemma push_front_ok:
  assumes l: "in_links valid xs (prv, nxt, head)" and st: "valid st" "st \<notin> set xs" "prv st = None"
  shows "\<exists>prv' nxt'. push_front valid st (prv, nxt, head) = Some (prv', nxt', Some st) \<and> in_links valid (st # xs) (prv', nxt', Some st) \<and>
    links_except (insert st (set xs)) (prv, nxt, head) (prv', nxt', Some st)"
proof -
  have L: "distinct xs" "\<forall>x \<in> set xs. valid x" "chain prv nxt xs" "head = first xs None" using l by (auto simp: in_links_def)
  define prv' where "prv' = (case xs of [] \<Rightarrow> prv | x # _ \<Rightarrow> prv(x := Some st))"
  have run: "push_front valid st (prv, nxt, head) = Some (prv', nxt(st := head), Some st)"
    using L(2,4) st(1) by (cases xs) (simp_all add: push_front_def prv'_def)
  have "chain prv' (nxt(st := head)) ([] @ st # xs)"
  proof (rule chain_insert)
    show "chain prv nxt ([] @ xs)" using L(3) by simp
    show "distinct ([] @ st # xs)" using L(1) st(2) by simp
    show "prv' st = final None []" "(nxt(st := head)) st = first xs None" using st(2,3) L(4) by (auto simp: prv'_def split: list.split)
    show "prv' j = link_prev (first xs None) (Some st) prv j \<and> (nxt(st := head)) j = link_next (final None []) (Some st) nxt j"
      if "j \<in> set ([] @ xs)" for j using that st(2) by (cases xs) (auto simp: prv'_def)
  qed
  moreover have "links_except (insert st (set xs)) (prv, nxt, head) (prv', nxt(st := head), Some st)"
    by (cases xs) (auto simp: links_except_def prv'_def)
  ultimately show ?thesis using run L(1,2) st(1,2) by (auto simp: in_links_def)
qed

lemma pop_head_ok:
  assumes l: "in_links valid (st # xs) (prv, nxt, head)"
  shows "\<exists>prv'. pop_head valid st (prv, nxt, head) = Some (prv', nxt, first xs None) \<and> in_links valid xs (prv', nxt, first xs None) \<and>
    links_except (set xs) (prv, nxt, head) (prv', nxt, first xs None) \<and> prv' st = None"
proof -
  have L: "distinct (st # xs)" "\<forall>x \<in> set (st # xs). valid x" "prv st = None" "nxt st = first xs None" "seg prv nxt (Some st) xs None"
    using l by (auto simp: in_links_def)
  define prv' where "prv' = (case xs of [] \<Rightarrow> prv | x # _ \<Rightarrow> prv(x := None))"
  have run: "pop_head valid st (prv, nxt, head) = Some (prv', nxt, first xs None)"
    using L(2,4) by (cases xs) (simp_all add: pop_head_def prv'_def)
  have "chain prv' nxt xs" using L(1,5) by (cases xs) (auto simp: prv'_def)
  then show ?thesis using run L by (auto simp: in_links_def links_except_def prv'_def split: list.split)
qed

lemma unlink_ok:
  assumes l: "in_links valid (as @ st # bs) (prv, nxt, head)"
  shows "\<exists>prv' nxt'. unlink valid st (prv, nxt, head) = Some (prv', nxt', first (as @ bs) None) \<and> in_links valid (as @ bs) (prv', nxt', first (as @ bs) None) \<and>
    links_except (set (as @ bs)) (prv, nxt, head) (prv', nxt', first (as @ bs) None)"
proof -
  have L: "distinct (as @ st # bs)" "\<forall>x \<in> set (as @ st # bs). valid x" "chain prv nxt (as @ st # bs)" "head = first (as @ st # bs) None"
    using l by (auto simp: in_links_def)
  have p: "prv st = final None as" "nxt st = first bs None" using L(3) by simp_all
  define nxt' where "nxt' = (case final None as of None \<Rightarrow> nxt | Some a \<Rightarrow> nxt(a := first bs None))"
  define prv' where "prv' = (case first bs None of None \<Rightarrow> prv | Some b \<Rightarrow> prv(b := final None as))"
  have a: "a \<in> set as \<and> a \<noteq> st" if "final None as = Some a" for a using final_in [OF that] L(1) by auto
  have b: "b \<in> set bs \<and> b \<noteq> st" if "first bs None = Some b" for b using first_in [OF that] L(1) by auto
  have st: "nxt' st = nxt st" using a by (auto simp: nxt'_def split: option.split)
  have n: "set_if valid (prv st) (nxt st) nxt = Some nxt'" using a L(2) p by (auto simp: nxt'_def split: option.split)
  have v: "set_if valid (nxt' st) (prv st) prv = Some prv'" using b L(2) p unfolding st by (auto simp: prv'_def split: option.split)
  have h: "(if head = Some st then nxt' st else head) = first (as @ bs) None" using L(1,4) p(2) st by (cases as) auto
  have run: "unlink valid st (prv, nxt, head) = Some (prv', nxt', first (as @ bs) None)"
    using L(2) by (simp add: unlink_def n v h)
  have "chain prv' nxt' (as @ bs)"
  proof (rule chain_remove [OF L(3,1)])
    show "prv' j = link_prev (first bs None) (final None as) prv j \<and> nxt' j = link_next (final None as) (first bs None) nxt j" for j
      by (auto simp: prv'_def nxt'_def split: option.split)
  qed
  moreover have "links_except (set (as @ bs)) (prv, nxt, head) (prv', nxt', first (as @ bs) None)"
    using a b by (auto simp: links_except_def prv'_def nxt'_def split: option.split)
  ultimately show ?thesis using run L(1,2) by (auto simp: in_links_def)
qed

lemma in_links_first: "in_links valid xs (prv, nxt, head) \<Longrightarrow> head = Some st \<Longrightarrow> \<exists>ys. xs = st # ys"
  by (cases xs) (auto simp: in_links_def)

lemma in_links_None: "in_links valid xs (prv, nxt, None) \<Longrightarrow> xs = []"
  by (cases xs) (auto simp: in_links_def)

lemma in_links_cong:
  assumes "in_links valid xs (prv, nxt, head)" "\<And>x. x \<in> set xs \<Longrightarrow> valid x \<Longrightarrow> valid' x" "\<And>x. x \<in> set xs \<Longrightarrow> prv' x = prv x \<and> nxt' x = nxt x"
  shows "in_links valid' xs (prv', nxt', head)"
  using assms seg_cong [of xs prv' prv nxt' nxt None None] by (auto simp: in_links_def)

lemma in_links_split: "in_links valid xs l \<Longrightarrow> x \<in> set xs \<Longrightarrow> \<exists>as bs. xs = as @ x # bs \<and> in_links valid (as @ x # bs) l"
  by (metis split_list)

section \<open>State\<close>

text \<open>The provider: \<open>mmap_alloc\<close> gives a region and a context, or NULL; \<open>mmap_free\<close> takes them back; both may fault.\<close>

record 'm pages =
  page_alloc :: "u64 \<Rightarrow> 'm \<Rightarrow> ((u64 \<times> nat) option \<times> 'm) option"
  page_free :: "u64 \<Rightarrow> nat \<Rightarrow> 'm \<Rightarrow> 'm option"

text \<open>Bitmaps and counts are indexed by the order; \<open>bitmap0\<close> is the pair of words of order 0.\<close>

record buddy_chunk_state =
  in_use :: u8
  avail_num :: "nat \<Rightarrow> u8"
  bitmaps :: "nat \<Rightarrow> u64"
  bitmap0 :: "u64 \<times> u64"
  splits :: "nat \<Rightarrow> u64"
  chunk_mmap_ctx :: nat
  chunk :: u64

definition zero_record :: buddy_chunk_state where
  "zero_record = \<lparr>in_use = 0, avail_num = (\<lambda>_. 0), bitmaps = (\<lambda>_. 0), bitmap0 = (0, 0), splits = (\<lambda>_. 0), chunk_mmap_ctx = 0, chunk = 0\<rparr>"

record 'm buddy_arena =
  mmap_arena :: 'm
  group_list :: list_links
  group_mmap_ctx :: "nat \<Rightarrow> nat option"
  records :: "nat \<Rightarrow> buddy_chunk_state option"
  empty_list :: list_links
  avail_list :: "nat \<Rightarrow> list_links"
  chunk_num :: u32

definition list_head :: "list_links \<Rightarrow> ptr" where
  "list_head = (\<lambda>(prv, nxt, head). head)"

abbreviation valid_rec :: "'m buddy_arena \<Rightarrow> nat \<Rightarrow> bool" where
  "valid_rec s r \<equiv> records s r \<noteq> None"

definition put_record :: "'m buddy_arena \<Rightarrow> nat \<Rightarrow> (buddy_chunk_state \<Rightarrow> buddy_chunk_state) \<Rightarrow> 'm buddy_arena option" where
  "put_record s r f = do { c \<leftarrow> records s r; Some (s\<lparr>records := (records s)(r \<mapsto> f c)\<rparr>) }"

definition put_avail :: "'m buddy_arena \<Rightarrow> nat \<Rightarrow> list_links \<Rightarrow> 'm buddy_arena" where
  "put_avail s k l = s\<lparr>avail_list := (avail_list s)(k := l)\<rparr>"

section \<open>Records\<close>

definition BUDDY_RECORDS_PER_GROUP :: nat where "BUDDY_RECORDS_PER_GROUP = (4096 - 24) div 200"

definition record_at :: "nat \<Rightarrow> nat \<Rightarrow> nat" where
  "record_at g i = g + 24 + 200 * i"

text \<open>The links of fresh or zeroed memory.\<close>

definition zero_links :: "nat set \<Rightarrow> list_links \<Rightarrow> list_links" where
  "zero_links R = (\<lambda>(prv, nxt, head). (\<lambda>r. if r \<in> R then None else prv r, \<lambda>r. if r \<in> R then None else nxt r, head))"

definition link_group :: "nat \<Rightarrow> list_links \<Rightarrow> list_links" where
  "link_group g = (\<lambda>(prv, nxt, head).
     let nxt = fold (\<lambda>i nxt. nxt(record_at g i := Some (record_at g (i + 1)))) [1..<BUDDY_RECORDS_PER_GROUP - 1] nxt;
         prv = fold (\<lambda>i prv. prv(record_at g i := Some (record_at g (i - 1)))) [1..<BUDDY_RECORDS_PER_GROUP - 1] prv;
         nxt = nxt(record_at g 0 := Some (record_at g 1));
         prv = prv(record_at g (BUDDY_RECORDS_PER_GROUP - 1) := Some (record_at g (BUDDY_RECORDS_PER_GROUP - 2)));
         nxt = nxt(record_at g (BUDDY_RECORDS_PER_GROUP - 1) := head)
     in (prv, nxt, head))"

definition allocate_buddy_chunk_state_group :: "'m pages \<Rightarrow> 'm buddy_arena \<Rightarrow> 'm buddy_arena option" where
  "allocate_buddy_chunk_state_group P s =
     Option.bind (page_alloc P 4096 (mmap_arena s)) (\<lambda>(res, m). case res of
        None \<Rightarrow> Some (s\<lparr>mmap_arena := m\<rparr>)
      | Some (new_group, ctx) \<Rightarrow> do {
          let g = unat new_group;
          let R = set (map (record_at g) [0..<BUDDY_RECORDS_PER_GROUP]);
          let s = s\<lparr>mmap_arena := m, group_mmap_ctx := (group_mmap_ctx s)(g \<mapsto> ctx), group_list := zero_links {g} (group_list s),
            records := (\<lambda>r. if r \<in> R then Some zero_record else records s r),
            empty_list := zero_links R (empty_list s), avail_list := (\<lambda>k. zero_links R (avail_list s k))\<rparr>;
          gl \<leftarrow> push_front (\<lambda>g. group_mmap_ctx s g \<noteq> None) g (group_list s);
          let (prv, nxt, head) = link_group g (empty_list s);
          prv \<leftarrow> set_if (valid_rec s) head (Some (record_at g (BUDDY_RECORDS_PER_GROUP - 1))) prv;
          Some (s\<lparr>group_list := gl, empty_list := (prv, nxt, Some (record_at g 0))\<rparr>) })"

definition allocate_buddy_chunk_state :: "'m pages \<Rightarrow> 'm buddy_arena \<Rightarrow> (ptr \<times> 'm buddy_arena) option" where
  "allocate_buddy_chunk_state P s = do {
     s \<leftarrow> (if list_head (empty_list s) = None then allocate_buddy_chunk_state_group P s else Some s);
     (case list_head (empty_list s) of
        None \<Rightarrow> Some (None, s)
      | Some new_state \<Rightarrow> do {
          (prv, nxt, head) \<leftarrow> pop_head (valid_rec s) new_state (empty_list s);
          let nxt = nxt(new_state := None);
          s \<leftarrow> put_record s new_state (in_use_update (\<lambda>_. 1));
          Some (Some new_state, s\<lparr>empty_list := (prv, nxt, head)\<rparr>) }) }"

definition free_buddy_chunk_state :: "nat \<Rightarrow> 'm buddy_arena \<Rightarrow> 'm buddy_arena option" where
  "free_buddy_chunk_state r s = do {
     s \<leftarrow> put_record s r (\<lambda>_. zero_record);
     let s = s\<lparr>empty_list := zero_links {r} (empty_list s), avail_list := (\<lambda>k. zero_links {r} (avail_list s k))\<rparr>;
     el \<leftarrow> push_front (valid_rec s) r (empty_list s);
     Some (s\<lparr>empty_list := el\<rparr>) }"

section \<open>Blocks\<close>

definition BUDDY_BLOCK_IDX :: "buddy_chunk_state \<Rightarrow> u64 \<Rightarrow> nat \<Rightarrow> u32" where
  "BUDDY_BLOCK_IDX st block order = ucast (drop_bit (12 + order) (block - chunk st))"

definition BUDDY_IDX_BLOCK :: "buddy_chunk_state \<Rightarrow> u32 \<Rightarrow> nat \<Rightarrow> u64" where
  "BUDDY_IDX_BLOCK st idx order = chunk st + ucast (push_bit (12 + order) idx)"

text \<open>The bitmap of order \<open>k\<close> is a field of \<open>2 ^ (7 - k)\<close> bits.\<close>

definition put_bitmap :: "nat \<Rightarrow> u64 \<Rightarrow> buddy_chunk_state \<Rightarrow> buddy_chunk_state" where
  "put_bitmap k w c = c\<lparr>bitmaps := (bitmaps c)(k := take_bit (2 ^ (7 - k)) w)\<rparr>"

definition put_split :: "nat \<Rightarrow> u64 \<Rightarrow> buddy_chunk_state \<Rightarrow> buddy_chunk_state" where
  "put_split k w c = c\<lparr>splits := (splits c)(k := take_bit (2 ^ (7 - k)) w)\<rparr>"

definition bit_at :: "u32 \<Rightarrow> u64" where
  "bit_at i = push_bit (unat i) 1"

definition test_block :: "nat \<Rightarrow> u32 \<Rightarrow> u32 \<Rightarrow> buddy_chunk_state \<Rightarrow> bool" where
  "test_block k block_idx buddy c =
     (if k = 0 then block_idx < 64 \<and> fst (bitmap0 c) AND bit_at buddy \<noteq> 0 \<or> 64 \<le> block_idx \<and> snd (bitmap0 c) AND bit_at (buddy - 64) \<noteq> 0
      else bitmaps c k AND bit_at buddy \<noteq> 0)"

definition clear_buddy :: "nat \<Rightarrow> u32 \<Rightarrow> u32 \<Rightarrow> buddy_chunk_state \<Rightarrow> buddy_chunk_state" where
  "clear_buddy k block_idx buddy c =
     (if k = 0 then
        if block_idx < 64 \<and> fst (bitmap0 c) AND bit_at buddy \<noteq> 0 then c\<lparr>bitmap0 := (fst (bitmap0 c) AND NOT (bit_at buddy), snd (bitmap0 c))\<rparr>
        else c\<lparr>bitmap0 := (fst (bitmap0 c), snd (bitmap0 c) AND NOT (bit_at (buddy - 64)))\<rparr>
      else put_bitmap k (bitmaps c k AND NOT (bit_at buddy)) c)"

definition set_block :: "nat \<Rightarrow> u32 \<Rightarrow> buddy_chunk_state \<Rightarrow> buddy_chunk_state" where
  "set_block k block_idx c =
     (if k = 0 then
        if block_idx < 64 then c\<lparr>bitmap0 := (fst (bitmap0 c) OR bit_at block_idx, snd (bitmap0 c))\<rparr>
        else c\<lparr>bitmap0 := (fst (bitmap0 c), snd (bitmap0 c) OR bit_at (block_idx - 64))\<rparr>
      else put_bitmap k (bitmaps c k OR bit_at block_idx) c)"

definition set_second_half :: "nat \<Rightarrow> u32 \<Rightarrow> buddy_chunk_state \<Rightarrow> buddy_chunk_state" where
  "set_second_half k idx c =
     (if k = 0 then
        if idx < 32 then c\<lparr>bitmap0 := (fst (bitmap0 c) OR bit_at (2 * idx + 1), snd (bitmap0 c))\<rparr>
        else c\<lparr>bitmap0 := (fst (bitmap0 c), snd (bitmap0 c) OR bit_at (2 * (idx - 32) + 1))\<rparr>
      else put_bitmap k (bitmaps c k OR bit_at (2 * idx + 1)) c)"

text \<open>The lowest free block; \<open>__builtin_ctz\<close> of 0 is undefined.\<close>

definition take_lowest :: "nat \<Rightarrow> buddy_chunk_state \<Rightarrow> (u32 \<times> buddy_chunk_state) option" where
  "take_lowest k c =
     (if k = 0 then
        if fst (bitmap0 c) \<noteq> 0 then
          let idx = count_trailing_zeros_u64 (fst (bitmap0 c))
          in Some (idx, c\<lparr>bitmap0 := (fst (bitmap0 c) AND NOT (bit_at idx), snd (bitmap0 c))\<rparr>)
        else if snd (bitmap0 c) \<noteq> 0 then
          let idx = count_trailing_zeros_u64 (snd (bitmap0 c))
          in Some (idx + 64, c\<lparr>bitmap0 := (fst (bitmap0 c), snd (bitmap0 c) AND NOT (bit_at idx))\<rparr>)
        else None
      else if bitmaps c k \<noteq> 0 then
        let idx = count_trailing_zeros_u64 (bitmaps c k)
        in Some (idx, put_bitmap k (bitmaps c k AND NOT (bit_at idx)) c)
      else None)"

definition add_avail :: "nat \<Rightarrow> u8 \<Rightarrow> buddy_chunk_state \<Rightarrow> buddy_chunk_state" where
  "add_avail k d c = c\<lparr>avail_num := (avail_num c)(k := avail_num c k + d)\<rparr>"

section \<open>Allocation\<close>

definition take_block :: "nat \<Rightarrow> nat \<Rightarrow> 'm buddy_arena \<Rightarrow> ((nat \<times> u64) option \<times> 'm buddy_arena) option" where
  "take_block k st s = do {
     c \<leftarrow> records s st;
     (idx, c) \<leftarrow> take_lowest k c;
     let c = add_avail k (- 1) c;
     s \<leftarrow> put_record s st (\<lambda>_. c);
     s \<leftarrow> (if avail_num c k = 0 then do {
         (prv, nxt, head) \<leftarrow> pop_head (valid_rec s) st (avail_list s k);
         Some (put_avail s k (prv, nxt(st := None), head)) }
       else Some s);
     Some (Some (st, BUDDY_IDX_BLOCK c idx k), s) }"

definition push_avail :: "nat \<Rightarrow> nat \<Rightarrow> 'm buddy_arena \<Rightarrow> 'm buddy_arena option" where
  "push_avail k st s = do {
     c \<leftarrow> records s st;
     if avail_num c k = 1 then do {
       l \<leftarrow> push_front (valid_rec s) st (avail_list s k);
       Some (put_avail s k l) }
     else Some s }"

definition allocate_chunk_and_block6 :: "'m pages \<Rightarrow> 'm buddy_arena \<Rightarrow> (ptr \<times> 'm buddy_arena) option" where
  "allocate_chunk_and_block6 P s = do {
     (new_state, s) \<leftarrow> allocate_buddy_chunk_state P s;
     (case new_state of
        None \<Rightarrow> Some (None, s)
      | Some r \<Rightarrow>
          Option.bind (page_alloc P 0x80000 (mmap_arena s)) (\<lambda>(res, m). case res of
             None \<Rightarrow> do {
               s \<leftarrow> free_buddy_chunk_state r (s\<lparr>mmap_arena := m\<rparr>);
               Some (None, s) }
           | Some (ch, ctx) \<Rightarrow> do {
               s \<leftarrow> put_record (s\<lparr>mmap_arena := m\<rparr>) r (\<lambda>c. (put_bitmap 6 2 (c\<lparr>chunk := ch, chunk_mmap_ctx := ctx\<rparr>))\<lparr>avail_num := (avail_num c)(6 := 1)\<rparr>);
               l \<leftarrow> push_front (valid_rec s) r (avail_list s 6);
               Some (Some r, (put_avail s 6 l)\<lparr>chunk_num := chunk_num s + 1\<rparr>) })) }"

definition split_block :: "nat \<Rightarrow> nat \<Rightarrow> u64 \<Rightarrow> 'm buddy_arena \<Rightarrow> ((nat \<times> u64) option \<times> 'm buddy_arena) option" where
  "split_block k st block s = do {
     c \<leftarrow> records s st;
     let idx = BUDDY_BLOCK_IDX c block (Suc k);
     s \<leftarrow> put_record s st (\<lambda>c. set_second_half k idx (add_avail k 1 (put_split (Suc k) (splits c (Suc k) OR bit_at idx) c)));
     s \<leftarrow> push_avail k st s;
     Some (Some (st, block), s) }"

definition alloc_block :: "nat \<Rightarrow> ('m buddy_arena \<Rightarrow> ((nat \<times> u64) option \<times> 'm buddy_arena) option) \<Rightarrow>
    'm buddy_arena \<Rightarrow> ((nat \<times> u64) option \<times> 'm buddy_arena) option" where
  "alloc_block k upper s =
     (case list_head (avail_list s k) of
        Some st \<Rightarrow> take_block k st s
      | None \<Rightarrow> do {
          (res, s) \<leftarrow> upper s;
          (case res of
             Some (st, block) \<Rightarrow> split_block k st block s
           | None \<Rightarrow> Some (None, s)) })"

definition buddy_alloc_6 :: "'m pages \<Rightarrow> 'm buddy_arena \<Rightarrow> ((nat \<times> u64) option \<times> 'm buddy_arena) option" where
  "buddy_alloc_6 P s =
     (case list_head (avail_list s 6) of
        Some st \<Rightarrow> take_block 6 st s
      | None \<Rightarrow> do {
          (st, s) \<leftarrow> allocate_chunk_and_block6 P s;
          (case st of
             Some r \<Rightarrow> do { c \<leftarrow> records s r; Some (Some (r, chunk c), s) }
           | None \<Rightarrow> Some (None, s)) })"

definition buddy_alloc_5 where "buddy_alloc_5 P = alloc_block 5 (buddy_alloc_6 P)"

definition buddy_alloc_4 where "buddy_alloc_4 P = alloc_block 4 (buddy_alloc_5 P)"

definition buddy_alloc_3 where "buddy_alloc_3 P = alloc_block 3 (buddy_alloc_4 P)"

definition buddy_alloc_2 where "buddy_alloc_2 P = alloc_block 2 (buddy_alloc_3 P)"

definition buddy_alloc_1 where "buddy_alloc_1 P = alloc_block 1 (buddy_alloc_2 P)"

definition buddy_alloc_0 where "buddy_alloc_0 P = alloc_block 0 (buddy_alloc_1 P)"

section \<open>Deallocation\<close>

definition LIBC_KEEP_CHUNK_NUM :: u32 where "LIBC_KEEP_CHUNK_NUM = 1"

definition give_block :: "nat \<Rightarrow> u32 \<Rightarrow> nat \<Rightarrow> 'm buddy_arena \<Rightarrow> 'm buddy_arena option" where
  "give_block k block_idx st s = do {
     s \<leftarrow> put_record s st (\<lambda>c. add_avail k 1 (set_block k block_idx c));
     push_avail k st s }"

definition buddy_free_6 :: "'m pages \<Rightarrow> u64 \<Rightarrow> nat \<Rightarrow> 'm buddy_arena \<Rightarrow> 'm buddy_arena option" where
  "buddy_free_6 P ptr st s = do {
     c \<leftarrow> records s st;
     let block_idx = BUDDY_BLOCK_IDX c ptr 6;
     let buddy = block_idx XOR 1;
     if test_block 6 block_idx buddy c \<and> LIBC_KEEP_CHUNK_NUM < chunk_num s then do {
       l \<leftarrow> unlink (valid_rec s) st (avail_list s 6);
       m \<leftarrow> page_free P (chunk c) (chunk_mmap_ctx c) (mmap_arena s);
       s \<leftarrow> free_buddy_chunk_state st ((put_avail s 6 l)\<lparr>mmap_arena := m\<rparr>);
       Some (s\<lparr>chunk_num := chunk_num s - 1\<rparr>) }
     else give_block 6 block_idx st s }"

definition remove_buddy :: "nat \<Rightarrow> u32 \<Rightarrow> u32 \<Rightarrow> nat \<Rightarrow> 'm buddy_arena \<Rightarrow> 'm buddy_arena option" where
  "remove_buddy k block_idx buddy st s = do {
     s \<leftarrow> put_record s st (\<lambda>c. add_avail k (- 1) (clear_buddy k block_idx buddy c));
     c \<leftarrow> records s st;
     if avail_num c k = 0 then do {
       (prv, nxt, head) \<leftarrow> unlink (valid_rec s) st (avail_list s k);
       Some (put_avail s k (prv(st := None), nxt(st := None), head)) }
     else Some s }"

definition release_block :: "nat \<Rightarrow> (u64 \<Rightarrow> nat \<Rightarrow> 'm buddy_arena \<Rightarrow> 'm buddy_arena option) \<Rightarrow>
    u64 \<Rightarrow> nat \<Rightarrow> 'm buddy_arena \<Rightarrow> 'm buddy_arena option" where
  "release_block k upper ptr st s = do {
     c \<leftarrow> records s st;
     let block_idx = BUDDY_BLOCK_IDX c ptr k;
     let buddy = block_idx XOR 1;
     if test_block k block_idx buddy c then do {
       s \<leftarrow> remove_buddy k block_idx buddy st s;
       s \<leftarrow> put_record s st (\<lambda>c. put_split (Suc k) (splits c (Suc k) AND NOT (bit_at (drop_bit 1 block_idx))) c);
       upper (BUDDY_IDX_BLOCK c (drop_bit 1 block_idx) (Suc k)) st s }
     else give_block k block_idx st s }"

definition buddy_free_5 where "buddy_free_5 P = release_block 5 (buddy_free_6 P)"

definition buddy_free_4 where "buddy_free_4 P = release_block 4 (buddy_free_5 P)"

definition buddy_free_3 where "buddy_free_3 P = release_block 3 (buddy_free_4 P)"

definition buddy_free_2 where "buddy_free_2 P = release_block 2 (buddy_free_3 P)"

definition buddy_free_1 where "buddy_free_1 P = release_block 1 (buddy_free_2 P)"

definition buddy_free_0 where "buddy_free_0 P = release_block 0 (buddy_free_1 P)"

end
