(* ===== verification/BuddyChunk.thy ===== *)
theory BuddyChunk
  imports Buddy
begin

text \<open>
  Blocks of a chunk of 128 pages.  The block \<open>(k, i)\<close> of order \<open>k\<close> holds the \<open>2 ^ k\<close> pages \<open>p\<close> with
  \<open>p div 2 ^ k = i\<close>.  A tiling is a set of blocks that holds every page exactly once; splitting a
  block and merging two buddies lead from one tiling to another.

  One chunk of the buddy allocator.  The bitmaps of its record stand for a set of free blocks; with the
  blocks that are given out they tile the chunk.  Each operation on the bitmaps is a step between tilings.
\<close>

type_synonym tile = "nat \<times> nat"

definition tile_ok :: "tile \<Rightarrow> bool" where
  "tile_ok = (\<lambda>(k, i). k \<le> 7 \<and> i < 2 ^ (7 - k))"

definition pages_of :: "tile \<Rightarrow> nat set" where
  "pages_of = (\<lambda>(k, i). {i * 2 ^ k ..< Suc i * 2 ^ k})"

definition tiling :: "tile set \<Rightarrow> bool" where
  "tiling B \<longleftrightarrow> (\<forall>b \<in> B. tile_ok b) \<and> (\<forall>p < 128. \<exists>!k. (k, p div 2 ^ k) \<in> B)"

lemma pages_of_iff: "p \<in> pages_of (k, i) \<longleftrightarrow> p div 2 ^ k = i"
proof -
  have "p div 2 ^ k = i \<longleftrightarrow> i * 2 ^ k \<le> p \<and> p < Suc i * 2 ^ k"
  proof
    assume "p div 2 ^ k = i"
    then show "i * 2 ^ k \<le> p \<and> p < Suc i * 2 ^ k"
      using div_mult_mod_eq [of p "2 ^ k"] mod_less_divisor [of "2 ^ k" p] by (auto simp del: mod_less_divisor)
  next
    assume "i * 2 ^ k \<le> p \<and> p < Suc i * 2 ^ k"
    then show "p div 2 ^ k = i" by (intro div_nat_eqI) (simp_all add: mult.commute)
  qed
  then show ?thesis by (simp add: pages_of_def)
qed

lemma tile_okD: "tile_ok (k, i) \<Longrightarrow> p div 2 ^ k = i \<Longrightarrow> p < 128"
proof -
  assume a: "tile_ok (k, i)" "p div 2 ^ k = i"
  then have "p < Suc i * 2 ^ k" using pages_of_iff [of p k i] by (simp add: pages_of_def)
  also have "\<dots> \<le> 2 ^ (7 - k) * 2 ^ k" using a by (intro mult_le_mono1) (simp add: tile_ok_def)
  also have "\<dots> = 128" using a by (simp add: tile_ok_def flip: power_add)
  finally show "p < 128" .
qed

lemma tiling_whole: "tiling {(7, 0)}"
  unfolding tiling_def
proof (intro conjI allI impI)
  fix p :: nat assume "p < 128"
  then show "\<exists>!k. (k, p div 2 ^ k) \<in> {(7, 0)}" by (intro ex1I [of _ 7]) auto
qed (simp add: tile_ok_def)

lemma tiling_tile_ok: "tiling B \<Longrightarrow> b \<in> B \<Longrightarrow> tile_ok b"
  by (simp add: tiling_def)

lemma tiling_unique: "tiling B \<Longrightarrow> (k, i) \<in> B \<Longrightarrow> (k', i') \<in> B \<Longrightarrow> p div 2 ^ k = i \<Longrightarrow> p div 2 ^ k' = i' \<Longrightarrow> k = k'"
  using tile_okD [of k i p] unfolding tiling_def by blast

text \<open>Different blocks of a tiling have no page in common.\<close>

lemma tiling_disjoint:
  assumes "tiling B" "b \<in> B" "b' \<in> B" "b \<noteq> b'"
  shows "pages_of b \<inter> pages_of b' = {}"
proof -
  obtain k i k' i' where b: "b = (k, i)" "b' = (k', i')" by (cases b; cases b')
  have "k = k'" "i = i'" if "p \<in> pages_of b" "p \<in> pages_of b'" for p
    using tiling_unique [OF assms(1), of k i k' i' p] assms(2,3) that unfolding b pages_of_iff by auto
  then show ?thesis using assms(4) b by auto
qed

section \<open>Halves\<close>

lemma half_div: "(p :: nat) div 2 ^ k div 2 = p div 2 ^ Suc k"
  by (simp add: div_mult2_eq [symmetric] mult.commute)

lemma half_cases: "p div 2 ^ Suc k = i \<longleftrightarrow> p div 2 ^ k = 2 * i \<or> p div 2 ^ k = Suc (2 * i)" for p :: nat
proof -
  have "m div 2 = i \<longleftrightarrow> m = 2 * i \<or> m = Suc (2 * i)" for m :: nat by presburger
  then show ?thesis unfolding half_div [symmetric] .
qed

lemma half_first: "(i * 2 ^ Suc k) div 2 ^ Suc k = (i :: nat)" "(i * 2 ^ Suc k) div 2 ^ k = 2 * (i :: nat)"
  by simp_all

lemma tile_ok_halves: "tile_ok (Suc k, i) \<Longrightarrow> tile_ok (k, 2 * i) \<and> tile_ok (k, Suc (2 * i))"
proof -
  assume "tile_ok (Suc k, i)"
  then have k: "Suc k \<le> 7" "i < 2 ^ (7 - Suc k)" by (simp_all add: tile_ok_def)
  then have "7 - k = Suc (7 - Suc k)" by simp
  then have "(2 :: nat) ^ (7 - k) = 2 * 2 ^ (7 - Suc k)" by simp
  then show ?thesis using k unfolding tile_ok_def by auto
qed

lemma tile_ok_parent: "tile_ok (k, i) \<Longrightarrow> k < 7 \<Longrightarrow> tile_ok (Suc k, i div 2)"
proof -
  assume "tile_ok (k, i)" and k: "k < 7"
  then have "i < 2 ^ (7 - k)" by (simp add: tile_ok_def)
  moreover have "7 - k = Suc (7 - Suc k)" using k by simp
  ultimately have "i < 2 * 2 ^ (7 - Suc k)" by simp
  then show ?thesis using k by (simp add: tile_ok_def less_mult_imp_div_less mult.commute)
qed

lemma tiling_split:
  assumes t: "tiling B" and b: "(Suc k, i) \<in> B"
  shows "tiling (insert (k, 2 * i) (insert (k, Suc (2 * i)) (B - {(Suc k, i)})))" "(k, 2 * i) \<notin> B" "(k, Suc (2 * i)) \<notin> B"
proof -
  have ok: "tile_ok (k, 2 * i)" "tile_ok (k, Suc (2 * i))" using tiling_tile_ok [OF t b] tile_ok_halves by auto
  have not: "(k, j) \<notin> B" if "p div 2 ^ Suc k = i" "p div 2 ^ k = j" for p j
    using tiling_unique [OF t b, of k j p] that by auto
  show "(k, 2 * i) \<notin> B" using not [of "i * 2 ^ Suc k" "2 * i"] half_first [of i k] by blast
  have "(Suc (2 * i) * 2 ^ k) div 2 ^ k = Suc (2 * i)" by (rule nonzero_mult_div_cancel_right) simp
  then show "(k, Suc (2 * i)) \<notin> B" using not [of "Suc (2 * i) * 2 ^ k" "Suc (2 * i)"] half_cases [of "Suc (2 * i) * 2 ^ k" k i] by blast
  show "tiling (insert (k, 2 * i) (insert (k, Suc (2 * i)) (B - {(Suc k, i)})))"
    unfolding tiling_def
  proof (intro conjI allI impI ballI)
    fix p :: nat assume p: "p < 128"
    then obtain k0 where k0: "(k0, p div 2 ^ k0) \<in> B" "\<And>k'. (k', p div 2 ^ k') \<in> B \<Longrightarrow> k' = k0" using t unfolding tiling_def by blast
    show "\<exists>!k'. (k', p div 2 ^ k') \<in> insert (k, 2 * i) (insert (k, Suc (2 * i)) (B - {(Suc k, i)}))"
    proof (cases "p div 2 ^ Suc k = i")
      case True
      then have k0': "k0 = Suc k" using k0(2) [of "Suc k"] b by (simp del: power_Suc)
      show ?thesis
      proof (rule ex1I)
        show "(k, p div 2 ^ k) \<in> insert (k, 2 * i) (insert (k, Suc (2 * i)) (B - {(Suc k, i)}))" using True half_cases [of p k i] by auto
        show "k' = k" if "(k', p div 2 ^ k') \<in> insert (k, 2 * i) (insert (k, Suc (2 * i)) (B - {(Suc k, i)}))" for k'
          using that k0(2) [of k'] True unfolding k0' by blast
      qed
    next
      case False
      then have "p div 2 ^ k \<noteq> 2 * i" "p div 2 ^ k \<noteq> Suc (2 * i)" using half_cases [of p k i] by auto
      show ?thesis
      proof (rule ex1I)
        show "(k0, p div 2 ^ k0) \<in> insert (k, 2 * i) (insert (k, Suc (2 * i)) (B - {(Suc k, i)}))" using k0(1) False by auto
        show "k' = k0" if "(k', p div 2 ^ k') \<in> insert (k, 2 * i) (insert (k, Suc (2 * i)) (B - {(Suc k, i)}))" for k'
          using that k0(2) [of k'] \<open>p div 2 ^ k \<noteq> 2 * i\<close> \<open>p div 2 ^ k \<noteq> Suc (2 * i)\<close> by blast
      qed
    qed
  qed (use t ok in \<open>auto simp: tiling_def\<close>)
qed

text \<open>The buddy of a block is its index with the lowest bit changed.\<close>

definition twin :: "nat \<Rightarrow> nat" where
  "twin i = (if even i then Suc i else i - 1)"

lemma twin_simps: "twin i div 2 = i div 2" "twin i \<noteq> i" "twin (twin i) = i" "i < 2 * n \<Longrightarrow> twin i < 2 * n"
  unfolding twin_def by (presburger, auto elim: oddE)

lemma twin_halves: "{i, twin i} = {2 * (i div 2), Suc (2 * (i div 2))}"
  by (cases "even i") (auto simp: twin_def elim!: evenE oddE)

lemma tiling_merge:
  assumes t: "tiling B" and b: "(k, i) \<in> B" "(k, twin i) \<in> B" and k: "k < 7"
  shows "tiling (insert (Suc k, i div 2) (B - {(k, i), (k, twin i)}))" "(Suc k, i div 2) \<notin> B"
proof -
  let ?h = "i div 2"
  have "Pair k ` {i, twin i} = Pair k ` {2 * ?h, Suc (2 * ?h)}" unfolding twin_halves ..
  then have e: "{(k, i), (k, twin i)} = {(k, 2 * ?h), (k, Suc (2 * ?h))}" by (simp only: image_insert image_empty)
  have "{(k, 2 * ?h), (k, Suc (2 * ?h))} \<subseteq> B" unfolding e [symmetric] using b by blast
  then have h: "(k, 2 * ?h) \<in> B" "(k, Suc (2 * ?h)) \<in> B" "{(k, i), (k, twin i)} = {(k, 2 * ?h), (k, Suc (2 * ?h))}"
    using e by blast+
  show no: "(Suc k, ?h) \<notin> B" using tiling_split(2) [OF t, of k ?h] h(1) by blast
  show "tiling (insert (Suc k, i div 2) (B - {(k, i), (k, twin i)}))"
    unfolding tiling_def
  proof (intro conjI allI impI ballI)
    fix p :: nat assume p: "p < 128"
    then obtain k0 where k0: "(k0, p div 2 ^ k0) \<in> B" "\<And>k'. (k', p div 2 ^ k') \<in> B \<Longrightarrow> k' = k0" using t unfolding tiling_def by blast
    show "\<exists>!k'. (k', p div 2 ^ k') \<in> insert (Suc k, i div 2) (B - {(k, i), (k, twin i)})"
      unfolding h(3)
    proof (cases "p div 2 ^ Suc k = ?h")
      case True
      then have "(k, p div 2 ^ k) \<in> B" using half_cases [of p k ?h] h(1,2) by auto
      then have k0': "k0 = k" using k0(2) by blast
      show "\<exists>!k'. (k', p div 2 ^ k') \<in> insert (Suc k, ?h) (B - {(k, 2 * ?h), (k, Suc (2 * ?h))})"
      proof (rule ex1I)
        show "(Suc k, p div 2 ^ Suc k) \<in> insert (Suc k, ?h) (B - {(k, 2 * ?h), (k, Suc (2 * ?h))})" using True by simp
        show "k' = Suc k" if "(k', p div 2 ^ k') \<in> insert (Suc k, ?h) (B - {(k, 2 * ?h), (k, Suc (2 * ?h))})" for k'
        proof (rule ccontr)
          assume ne: "k' \<noteq> Suc k"
          then have "(k', p div 2 ^ k') \<in> B" using that by blast
          then have "k' = k" using k0(2) k0' by blast
          moreover have "p div 2 ^ k = 2 * ?h \<or> p div 2 ^ k = Suc (2 * ?h)" using True half_cases by blast
          ultimately show False using that ne by (elim disjE) simp_all
        qed
      qed
    next
      case False
      then have "p div 2 ^ k \<noteq> 2 * ?h" "p div 2 ^ k \<noteq> Suc (2 * ?h)" using half_cases [of p k ?h] by auto
      show "\<exists>!k'. (k', p div 2 ^ k') \<in> insert (Suc k, ?h) (B - {(k, 2 * ?h), (k, Suc (2 * ?h))})"
      proof (rule ex1I)
        show "(k0, p div 2 ^ k0) \<in> insert (Suc k, ?h) (B - {(k, 2 * ?h), (k, Suc (2 * ?h))})"
          using k0(1) \<open>p div 2 ^ k \<noteq> 2 * ?h\<close> \<open>p div 2 ^ k \<noteq> Suc (2 * ?h)\<close> by blast
        show "k' = k0" if "(k', p div 2 ^ k') \<in> insert (Suc k, ?h) (B - {(k, 2 * ?h), (k, Suc (2 * ?h))})" for k'
          using that k0(2) [of k'] False by blast
      qed
    qed
  qed (use t tile_ok_parent [OF tiling_tile_ok [OF t b(1)] k] in \<open>auto simp: tiling_def\<close>)
qed

section \<open>Bits\<close>

definition free_bit :: "nat \<Rightarrow> nat \<Rightarrow> buddy_chunk_state \<Rightarrow> bool" where
  "free_bit k i c = (if k = 0 then if i < 64 then bit (fst (bitmap0 c)) i else bit (snd (bitmap0 c)) (i - 64) else bit (bitmaps c k) i)"

definition frees :: "buddy_chunk_state \<Rightarrow> tile set" where
  "frees c = {(k, i). k \<le> 6 \<and> i < 2 ^ (7 - k) \<and> free_bit k i c}"

definition fit :: "buddy_chunk_state \<Rightarrow> bool" where
  "fit c \<longleftrightarrow> (\<forall>k. 1 \<le> k \<and> k \<le> 6 \<longrightarrow> take_bit (2 ^ (7 - k)) (bitmaps c k) = bitmaps c k)"

text \<open>What the bitmaps do not touch.\<close>

definition same_rest :: "buddy_chunk_state \<Rightarrow> buddy_chunk_state \<Rightarrow> bool" where
  "same_rest c c' \<longleftrightarrow> in_use c' = in_use c \<and> avail_num c' = avail_num c \<and> chunk c' = chunk c \<and> chunk_mmap_ctx c' = chunk_mmap_ctx c"

lemma bit_at_iff: "bit (bit_at i) n \<longleftrightarrow> n = unat i \<and> n < 64"
  by (auto simp: bit_at_def bit_simps)

lemma and_bit_at: "unat i < 64 \<Longrightarrow> w AND bit_at i \<noteq> 0 \<longleftrightarrow> bit w (unat i)"
proof
  assume "w AND bit_at i \<noteq> 0"
  then obtain n where "bit (w AND bit_at i) n" using bit_word_eqI [of "w AND bit_at i" 0] by auto
  then show "bit w (unat i)" by (auto simp: bit_simps bit_at_iff)
next
  assume "unat i < 64" "bit w (unat i)"
  then have "bit (w AND bit_at i) (unat i)" by (simp add: bit_simps bit_at_iff)
  then show "w AND bit_at i \<noteq> 0" by auto
qed

lemma and_bit_at0: "unat i < 64 \<Longrightarrow> w AND bit_at i = 0 \<longleftrightarrow> \<not> bit w (unat i)"
  using and_bit_at by blast

lemma u32_nat: "n < 128 \<Longrightarrow> unat (of_nat n :: u32) = n"
  by (simp add: unat_of_nat take_bit_nat_eq_self)

lemma u32_minus64: "n < 128 \<Longrightarrow> 64 \<le> n \<Longrightarrow> unat (of_nat n - 64 :: u32) = n - 64"
  by (subst unat_sub) (simp_all add: word_le_nat_alt u32_nat)

lemma u32_less64: "n < 128 \<Longrightarrow> (of_nat n :: u32) < 64 \<longleftrightarrow> n < 64"
  by (simp add: word_less_nat_alt u32_nat)

lemma u32_le64: "n < 128 \<Longrightarrow> 64 \<le> (of_nat n :: u32) \<longleftrightarrow> 64 \<le> n"
  by (simp add: word_le_nat_alt u32_nat)

lemma tile_bound: "i < 2 ^ (7 - k) \<Longrightarrow> i < (128 :: nat)"
  using power_increasing [of "7 - k" 7 "2 :: nat"] by simp

lemma tile_bound_pos: "i < 2 ^ (7 - k) \<Longrightarrow> 0 < k \<Longrightarrow> i < (64 :: nat)"
proof -
  assume "0 < k" and i: "i < 2 ^ (7 - k)"
  then have "7 - k \<le> 6" by simp
  then show "i < 64" using power_increasing [of "7 - k" 6 "2 :: nat"] i by simp
qed

lemma frees_le: "(k, i) \<in> frees c \<Longrightarrow> k \<le> 6 \<and> i < 2 ^ (7 - k) \<and> tile_ok (k, i)"
  by (auto simp: frees_def tile_ok_def)

lemma fit_bit: "fit c \<Longrightarrow> 1 \<le> k \<Longrightarrow> k \<le> 6 \<Longrightarrow> bit (bitmaps c k) i \<Longrightarrow> i < 2 ^ (7 - k)"
  using bit_take_bit_iff [of "2 ^ (7 - k)" "bitmaps c k" i] by (auto simp: fit_def)

lemma fit_put: "fit c \<Longrightarrow> fit (put_bitmap k w c)"
  by (simp add: fit_def put_bitmap_def)

section \<open>The operations on bitmaps\<close>

lemma twin_word: "(of_nat i :: u32) XOR 1 = of_nat (twin i)"
proof -
  have "twin i = i XOR 1" by (cases "even i") (auto simp: twin_def xor_Suc_0_eq)
  then show ?thesis by (simp add: of_nat_xor_eq)
qed

lemma twin_bound: "k \<le> 6 \<Longrightarrow> i < 2 ^ (7 - k) \<Longrightarrow> twin i < 2 ^ (7 - k)"
proof -
  assume k: "k \<le> 6" and i: "i < 2 ^ (7 - k)"
  then have "7 - k = Suc (6 - k)" by simp
  then show ?thesis using twin_simps(4) [of i "2 ^ (6 - k)"] i by simp
qed

lemma twin_64: "twin i < 64 \<longleftrightarrow> i < 64" "64 \<le> i \<Longrightarrow> 64 \<le> twin i"
  by (auto simp: twin_def elim!: oddE)

lemma free_bit_put: "0 < k \<Longrightarrow> free_bit k' j (put_bitmap k w c) = (if k' = k then j < 2 ^ (7 - k) \<and> bit w j else free_bit k' j c)"
  by (auto simp: free_bit_def put_bitmap_def bit_take_bit_iff)

lemma free_bit_bitmap0: "free_bit k' j (c\<lparr>bitmap0 := p\<rparr>) = (if k' = 0 then if j < 64 then bit (fst p) j else bit (snd p) (j - 64) else free_bit k' j c)"
  by (simp add: free_bit_def)

lemma frees_eqI:
  "(\<And>k' j. k' \<le> 6 \<Longrightarrow> j < 2 ^ (7 - k') \<Longrightarrow> free_bit k' j c' \<longleftrightarrow> (if k' = k \<and> j = i then b else free_bit k' j c)) \<Longrightarrow> k \<le> 6 \<Longrightarrow> i < 2 ^ (7 - k) \<Longrightarrow>
    frees c' = (if b then insert (k, i) (frees c) else frees c - {(k, i)})"
  by (auto simp: frees_def split: if_splits)

lemma set_block_rest: "same_rest c (set_block k b c)" "fit c \<Longrightarrow> fit (set_block k b c)"
  by (simp_all add: set_block_def same_rest_def put_bitmap_def fit_def)

lemma set_block_frees:
  assumes "k \<le> 6" "i < 2 ^ (7 - k)"
  shows "frees (set_block k (of_nat i) c) = insert (k, i) (frees c)"
proof -
  have i: "i < 128" using tile_bound [OF assms(2)] .
  have "frees (set_block k (of_nat i) c) = (if True then insert (k, i) (frees c) else frees c - {(k, i)})"
  proof (rule frees_eqI [OF _ assms])
    fix k' j :: nat assume j: "k' \<le> 6" "j < 2 ^ (7 - k')"
    show "free_bit k' j (set_block k (of_nat i) c) \<longleftrightarrow> (if k' = k \<and> j = i then True else free_bit k' j c)"
    proof (cases "k = 0")
      case True
      then show ?thesis using i j
        by (auto simp: set_block_def free_bit_bitmap0 u32_less64 u32_nat u32_minus64 bit_simps bit_at_iff free_bit_def)
    next
      case False
      then have "i < 64" using tile_bound_pos [OF assms(2)] by simp
      moreover have "k' = k \<Longrightarrow> free_bit k j c = bit (bitmaps c k) j \<and> j < 64" using False tile_bound_pos [OF j(2)] by (simp add: free_bit_def)
      ultimately show ?thesis using False i j assms by (auto simp: set_block_def free_bit_put u32_nat bit_simps bit_at_iff)
    qed
  qed
  then show ?thesis by simp
qed

lemma second_half: "i < 64 \<Longrightarrow> set_second_half k (of_nat i) c = set_block k (of_nat (Suc (2 * i))) c"
proof -
  assume i: "i < 64"
  have "(of_nat i :: u32) < 32 \<longleftrightarrow> i < 32" using i by (simp add: word_less_nat_alt u32_nat)
  moreover have "(of_nat (Suc (2 * i)) :: u32) < 64 \<longleftrightarrow> i < 32" using i by (subst u32_less64) auto
  moreover have "2 * (of_nat i - 32) + 1 = (of_nat (Suc (2 * i)) - 64 :: u32)" "2 * of_nat i + 1 = (of_nat (Suc (2 * i)) :: u32)" by simp_all
  ultimately show ?thesis unfolding set_second_half_def set_block_def by (simp add: ac_simps)
qed

lemma test_block_iff:
  assumes "k \<le> 6" "i < 2 ^ (7 - k)"
  shows "test_block k (of_nat i) (of_nat i XOR 1) c \<longleftrightarrow> (k, twin i) \<in> frees c"
proof -
  have t: "twin i < 2 ^ (7 - k)" "twin i < 128" "i < 128" using twin_bound [OF assms] tile_bound assms(2) by blast+
  show ?thesis
  proof (cases "k = 0")
    case True
    then show ?thesis using t assms twin_64 [of i]
      by (auto simp: test_block_def twin_word u32_less64 u32_le64 and_bit_at u32_nat u32_minus64 frees_def free_bit_def not_less)
  next
    case False
    then have "twin i < 64" using tile_bound_pos [OF t(1)] by simp
    then show ?thesis using False t assms by (auto simp: test_block_def twin_word and_bit_at u32_nat frees_def free_bit_def)
  qed
qed

lemma clear_rest: "same_rest c (clear_buddy k b w c)" "fit c \<Longrightarrow> fit (clear_buddy k b w c)"
  by (simp_all add: clear_buddy_def same_rest_def put_bitmap_def fit_def)

lemma clear_frees:
  assumes "k \<le> 6" "i < 2 ^ (7 - k)" and f: "(k, twin i) \<in> frees c"
  shows "frees (clear_buddy k (of_nat i) (of_nat i XOR 1) c) = frees c - {(k, twin i)}"
proof -
  have t: "twin i < 2 ^ (7 - k)" "twin i < 128" "i < 128" using twin_bound [OF assms(1,2)] tile_bound assms(2) by blast+
  have "frees (clear_buddy k (of_nat i) (of_nat i XOR 1) c) = (if False then insert (k, twin i) (frees c) else frees c - {(k, twin i)})"
  proof (rule frees_eqI [OF _ assms(1) t(1)])
    fix k' j :: nat assume j: "k' \<le> 6" "j < 2 ^ (7 - k')"
    show "free_bit k' j (clear_buddy k (of_nat i) (of_nat i XOR 1) c) \<longleftrightarrow> (if k' = k \<and> j = twin i then False else free_bit k' j c)"
    proof (cases "k = 0")
      case True
      then show ?thesis using t j twin_64 [of i] f
        by (auto simp: clear_buddy_def twin_word and_bit_at0 free_bit_bitmap0 u32_less64 u32_nat u32_minus64 bit_simps bit_at_iff free_bit_def frees_def)
    next
      case False
      then have "twin i < 64" using tile_bound_pos [OF t(1)] by simp
      moreover have "k' = k \<Longrightarrow> free_bit k j c = bit (bitmaps c k) j \<and> j < 64" using False tile_bound_pos [OF j(2)] by (simp add: free_bit_def)
      ultimately show ?thesis using False t j assms by (auto simp: clear_buddy_def twin_word free_bit_put u32_nat bit_simps bit_at_iff)
    qed
  qed
  then show ?thesis by simp
qed

lemma take_lowest_rest: "take_lowest k c = Some (j, c') \<Longrightarrow> same_rest c c' \<and> splits c' = splits c \<and> (fit c \<longrightarrow> fit c')"
  by (auto simp: take_lowest_def same_rest_def put_bitmap_def fit_def Let_def split: if_splits)

lemma word_bit_ex: "w \<noteq> 0 \<Longrightarrow> \<exists>i. bit w i" for w :: u64
  using bit_word_eqI [of w 0] by auto

lemma ctz_bit: "w \<noteq> 0 \<Longrightarrow> \<exists>n. count_trailing_zeros_u64 w = of_nat n \<and> n < 64 \<and> bit w n"
proof -
  assume w: "w \<noteq> 0"
  obtain i where "bit w i" using word_bit_ex [OF w] by blast
  then have "bit w (seek (bit w) 0 64)" using seekD(3) [of 0 i 64 "bit w"] bit_imp_le_length [of w i] by simp
  then show ?thesis using ctz_eq [OF w] by (intro exI [of _ "seek (bit w) 0 64"]) (simp add: word_unat_eq_iff u32_nat)
qed

lemma take_lowest_ok:
  assumes "fit c" "k \<le> 6" "(k, j) \<in> frees c"
  shows "\<exists>i c'. take_lowest k c = Some (of_nat i, c') \<and> (k, i) \<in> frees c \<and> frees c' = frees c - {(k, i)}"
proof (cases "k = 0")
  case True
  have j: "free_bit 0 j c" using assms(3) True by (simp add: frees_def)
  show ?thesis
  proof (cases "fst (bitmap0 c) = 0")
    case False
    obtain n where n: "count_trailing_zeros_u64 (fst (bitmap0 c)) = of_nat n" "n < 64" "bit (fst (bitmap0 c)) n" using ctz_bit [OF False] by blast
    have "frees (c\<lparr>bitmap0 := (fst (bitmap0 c) AND NOT (bit_at (of_nat n)), snd (bitmap0 c))\<rparr>) = (if False then insert (0, n) (frees c) else frees c - {(0, n)})"
      by (rule frees_eqI) (use n(2) in \<open>auto simp: free_bit_bitmap0 bit_simps bit_at_iff u32_nat free_bit_def\<close>)
    moreover have "take_lowest 0 c = Some (of_nat n, c\<lparr>bitmap0 := (fst (bitmap0 c) AND NOT (bit_at (of_nat n)), snd (bitmap0 c))\<rparr>)"
      using False n(1) by (simp add: take_lowest_def Let_def)
    moreover have "(0, n) \<in> frees c" using n by (simp add: frees_def free_bit_def)
    ultimately show ?thesis using True by auto
  next
    case False': True
    then have "bit (snd (bitmap0 c)) (j - 64)" using j by (auto simp: free_bit_def split: if_splits)
    then have s: "snd (bitmap0 c) \<noteq> 0" by auto
    obtain n where n: "count_trailing_zeros_u64 (snd (bitmap0 c)) = of_nat n" "n < 64" "bit (snd (bitmap0 c)) n" using ctz_bit [OF s] by blast
    have "frees (c\<lparr>bitmap0 := (0, snd (bitmap0 c) AND NOT (bit_at (of_nat n)))\<rparr>) = (if False then insert (0, n + 64) (frees c) else frees c - {(0, n + 64)})"
      by (rule frees_eqI) (use n(2) False' in \<open>auto simp: free_bit_bitmap0 bit_simps bit_at_iff u32_nat free_bit_def\<close>)
    moreover have "take_lowest 0 c = Some (of_nat (n + 64), c\<lparr>bitmap0 := (0, snd (bitmap0 c) AND NOT (bit_at (of_nat n)))\<rparr>)"
      using False' s n(1) by (simp add: take_lowest_def Let_def)
    moreover have "(0, n + 64) \<in> frees c" using n by (simp add: frees_def free_bit_def)
    ultimately show ?thesis using True by (metis (full_types))
  qed
next
  case False
  then have "bit (bitmaps c k) j" using assms(3) by (simp add: frees_def free_bit_def)
  then have s: "bitmaps c k \<noteq> 0" by auto
  obtain n where n: "count_trailing_zeros_u64 (bitmaps c k) = of_nat n" "n < 64" "bit (bitmaps c k) n" using ctz_bit [OF s] by blast
  have b: "n < 2 ^ (7 - k)" using fit_bit [OF assms(1) _ assms(2) n(3)] False by simp
  have "frees (put_bitmap k (bitmaps c k AND NOT (bit_at (of_nat n))) c) = (if False then insert (k, n) (frees c) else frees c - {(k, n)})"
  proof (rule frees_eqI [OF _ assms(2) b])
    fix k' j :: nat assume j: "k' \<le> 6" "j < 2 ^ (7 - k')"
    have "k' = k \<Longrightarrow> free_bit k j c = bit (bitmaps c k) j \<and> j < 64" using False tile_bound_pos [OF j(2)] by (simp add: free_bit_def)
    then show "free_bit k' j (put_bitmap k (bitmaps c k AND NOT (bit_at (of_nat n))) c) \<longleftrightarrow> (if k' = k \<and> j = n then False else free_bit k' j c)"
      using False n(2) j by (auto simp: free_bit_put u32_nat bit_simps bit_at_iff)
  qed
  moreover have "take_lowest k c = Some (of_nat n, put_bitmap k (bitmaps c k AND NOT (bit_at (of_nat n))) c)"
    using False s n(1) by (simp add: take_lowest_def Let_def)
  moreover have "(k, n) \<in> frees c" using n b assms(2) False by (simp add: frees_def free_bit_def)
  ultimately show ?thesis by auto
qed

section \<open>The blocks that are given out\<close>

definition inner :: "tile set \<Rightarrow> nat \<Rightarrow> nat \<Rightarrow> bool" where
  "inner B k i \<longleftrightarrow> (\<exists>(j, m) \<in> B. j < k \<and> m div 2 ^ (k - j) = i)"

definition row :: "tile set \<Rightarrow> nat \<Rightarrow> nat set" where
  "row F k = {i. (k, i) \<in> F}"

definition counts :: "buddy_chunk_state \<Rightarrow> bool" where
  "counts c \<longleftrightarrow> (\<forall>k \<le> 6. unat (avail_num c k) = card (row (frees c) k))"

definition split_ok :: "buddy_chunk_state \<Rightarrow> tile set \<Rightarrow> bool" where
  "split_ok c B \<longleftrightarrow> (\<forall>k i. 0 < k \<and> k \<le> 6 \<and> i < 2 ^ (7 - k) \<longrightarrow> (bit (splits c k) i \<longleftrightarrow> inner B k i))"

definition coalesced :: "buddy_chunk_state \<Rightarrow> bool" where
  "coalesced c \<longleftrightarrow> (\<forall>k i. k < 6 \<longrightarrow> (k, i) \<in> frees c \<longrightarrow> (k, twin i) \<notin> frees c)"

definition chunk_state_ok :: "buddy_chunk_state \<Rightarrow> tile set \<Rightarrow> bool" where
  "chunk_state_ok c T \<longleftrightarrow> fit c \<and> tiling (frees c \<union> T) \<and> frees c \<inter> T = {} \<and> (\<forall>(k, i) \<in> T. k \<le> 6) \<and> counts c \<and> split_ok c (frees c \<union> T) \<and> coalesced c"

text \<open>What the record itself says is given out: the block is not free, not split, and its parent is split.\<close>

definition given_out :: "buddy_chunk_state \<Rightarrow> tile set" where
  "given_out c = {(k, i). k \<le> 6 \<and> i < 2 ^ (7 - k) \<and> \<not> free_bit k i c \<and> (0 < k \<longrightarrow> \<not> bit (splits c k) i) \<and> (k < 6 \<longrightarrow> bit (splits c (Suc k)) (i div 2))}"

lemma given_outI: "k \<le> 6 \<Longrightarrow> i < 2 ^ (7 - k) \<Longrightarrow> \<not> free_bit k i c \<Longrightarrow> (0 < k \<Longrightarrow> \<not> bit (splits c k) i) \<Longrightarrow> (k < 6 \<Longrightarrow> bit (splits c (Suc k)) (i div 2)) \<Longrightarrow> (k, i) \<in> given_out c"
  by (simp add: given_out_def)

lemma inner_page: "inner B k i \<Longrightarrow> \<exists>j m. (j, m) \<in> B \<and> j < k \<and> (m * 2 ^ j) div 2 ^ j = m \<and> (m * 2 ^ j) div 2 ^ k = i"
proof -
  assume "inner B k i"
  then obtain j m where j: "(j, m) \<in> B" "j < k" "m div 2 ^ (k - j) = i" by (auto simp: inner_def)
  have "(2 :: nat) ^ k = 2 ^ j * 2 ^ (k - j)" using j(2) by (simp flip: power_add)
  then have "(m * 2 ^ j) div 2 ^ k = i" using j(3) by (simp add: div_mult2_eq)
  then show ?thesis using j by (intro exI [of _ j] exI [of _ m]) simp
qed

lemma innerI: "(j, p div 2 ^ j) \<in> B \<Longrightarrow> j < k \<Longrightarrow> p div 2 ^ k = i \<Longrightarrow> inner B k i"
proof -
  assume j: "(j, p div 2 ^ j) \<in> B" "j < k" "p div 2 ^ k = i"
  then have "(2 :: nat) ^ k = 2 ^ j * 2 ^ (k - j)" by (simp flip: power_add)
  then have "p div 2 ^ j div 2 ^ (k - j) = i" using j(3) by (simp add: div_mult2_eq)
  then show ?thesis using j(1,2) by (auto simp: inner_def)
qed

lemma not_inner: "tiling B \<Longrightarrow> (k, i) \<in> B \<Longrightarrow> \<not> inner B k i"
proof
  assume t: "tiling B" "(k, i) \<in> B" "inner B k i"
  obtain j m where "(j, m) \<in> B" "j < k" "(m * 2 ^ j) div 2 ^ j = m" "(m * 2 ^ j) div 2 ^ k = i" using inner_page [OF t(3)] by blast
  then show False using tiling_unique [OF t(1,2), of j m "m * 2 ^ j"] by simp
qed

lemma first_page: "k \<le> 6 \<Longrightarrow> i < 2 ^ (7 - k) \<Longrightarrow> i * 2 ^ k < (128 :: nat)"
proof -
  assume k: "k \<le> 6" and i: "i < 2 ^ (7 - k)"
  have "i * 2 ^ k < 2 ^ (7 - k) * 2 ^ k" using i by simp
  also have "\<dots> = 128" using k by (simp flip: power_add)
  finally show ?thesis .
qed

lemma given_out_eq:
  assumes c: "chunk_state_ok c T"
  shows "given_out c = T"
proof -
  let ?B = "frees c \<union> T"
  have t: "tiling ?B" and d: "frees c \<inter> T = {}" and le: "\<And>k i. (k, i) \<in> T \<Longrightarrow> k \<le> 6" and s: "split_ok c ?B" using c by (auto simp: chunk_state_ok_def)
  have sp: "bit (splits c k) i \<longleftrightarrow> inner ?B k i" if "0 < k" "k \<le> 6" "i < 2 ^ (7 - k)" for k i using s that by (simp add: split_ok_def)
  show ?thesis
  proof (intro set_eqI iffI; clarify)
    fix k i assume T: "(k, i) \<in> T"
    then have k: "k \<le> 6" "i < 2 ^ (7 - k)" using le tiling_tile_ok [OF t, of "(k, i)"] by (auto simp: tile_ok_def)
    show "(k, i) \<in> given_out c"
    proof (rule given_outI [OF k])
      show "\<not> free_bit k i c" using T d k by (auto simp: frees_def)
      show "\<not> bit (splits c k) i" if "0 < k" using sp [OF that k] not_inner [OF t, of k i] T by simp
      show "bit (splits c (Suc k)) (i div 2)" if l: "k < 6"
      proof -
        have "i div 2 < 2 ^ (7 - Suc k)" using tile_ok_parent [of k i] k l by (simp add: tile_ok_def)
        moreover have "inner ?B (Suc k) (i div 2)" using T by (intro innerI [of k "i * 2 ^ k"]) (simp_all add: half_div [symmetric])
        ultimately show ?thesis using sp [of "Suc k" "i div 2"] l by simp
      qed
    qed
  next
    fix k i assume g: "(k, i) \<in> given_out c"
    then have k: "k \<le> 6" "i < 2 ^ (7 - k)" by (auto simp: given_out_def)
    let ?p = "i * 2 ^ k"
    obtain j where j: "(j, ?p div 2 ^ j) \<in> ?B" using t first_page [OF k] unfolding tiling_def by blast
    have j6: "j \<le> 6" using j le frees_le by auto
    have "\<not> j < k" using sp [of k i] innerI [OF j, of k i] g k by (auto simp: given_out_def)
    moreover have "\<not> k < j"
    proof
      assume l: "k < j"
      then have k6: "k < 6" using j6 by simp
      have "i div 2 < 2 ^ (7 - Suc k)" using tile_ok_parent [of k i] k k6 by (simp add: tile_ok_def)
      then have "inner ?B (Suc k) (i div 2)" using sp [of "Suc k" "i div 2"] g k6 by (simp add: given_out_def)
      then obtain n m where m: "(n, m) \<in> ?B" "n < Suc k" "(m * 2 ^ n) div 2 ^ n = m" "(m * 2 ^ n) div 2 ^ Suc k = i div 2" using inner_page by blast
      have e: "(2 :: nat) ^ j = 2 ^ Suc k * 2 ^ (j - Suc k)" using l by (simp flip: power_add power_Suc)
      have "?p div 2 ^ Suc k = i div 2" by (simp add: half_div [symmetric])
      then have "(m * 2 ^ n) div 2 ^ j = ?p div 2 ^ j" using m(4) unfolding e by (simp add: div_mult2_eq del: power_Suc)
      then have "n = j" using tiling_unique [OF t m(1) j, of "m * 2 ^ n"] m(3) by simp
      then show False using m(2) l by simp
    qed
    ultimately have "j = k" by simp
    then have "(k, i) \<in> ?B" using j by simp
    then show "(k, i) \<in> T" using g by (auto simp: given_out_def frees_def)
  qed
qed

end
