(* ===== verification/BuddySteps.thy ===== *)
theory BuddySteps
  imports BuddyChunk
begin

text \<open>What each operation on the record of a chunk does to the blocks that are given out.\<close>

section \<open>Numbers of free blocks\<close>

lemma row_simps: "row (insert (k, i) F) j = (if j = k then insert i (row F j) else row F j)" "row (F - {(k, i)}) j = (if j = k then row F j - {i} else row F j)"
  by (auto simp: row_def)

lemma row_bound: "row (frees c) k \<subseteq> {..<2 ^ (7 - k)}"
  by (auto simp: row_def frees_def)

lemma row_finite [simp]: "finite (row (frees c) k)"
  using row_bound finite_subset by blast

lemma row_card: "card (row (frees c) k) \<le> 128"
proof -
  have "card (row (frees c) k) \<le> card {..<2 ^ (7 - k) :: nat}" by (intro card_mono row_bound) simp
  also have "\<dots> \<le> 128" using power_increasing [of "7 - k" 7 "2 :: nat"] by simp
  finally show ?thesis .
qed

lemma counts_insert:
  assumes "counts c" "frees c' = insert (k, i) (frees c)" "(k, i) \<notin> frees c" "avail_num c' = (avail_num c)(k := avail_num c k + 1)"
  shows "counts c'"
  unfolding counts_def
proof (intro allI impI)
  fix j :: nat assume j: "j \<le> 6"
  have n: "unat (avail_num c j) = card (row (frees c) j)" using assms(1) j by (simp add: counts_def)
  show "unat (avail_num c' j) = card (row (frees c') j)"
  proof (cases "j = k")
    case True
    have "i \<notin> row (frees c) k" using assms(3) by (simp add: row_def)
    then show ?thesis using n True row_card [of c k] by (simp add: assms(2,4) row_simps unat_word_ariths)
  next
    case False
    then show ?thesis using n by (simp add: assms(2,4) row_simps)
  qed
qed

lemma counts_remove:
  assumes "counts c" "frees c' = frees c - {(k, i)}" "(k, i) \<in> frees c" "avail_num c' = (avail_num c)(k := avail_num c k - 1)"
  shows "counts c'"
  unfolding counts_def
proof (intro allI impI)
  fix j :: nat assume j: "j \<le> 6"
  have n: "unat (avail_num c j) = card (row (frees c) j)" using assms(1) j by (simp add: counts_def)
  show "unat (avail_num c' j) = card (row (frees c') j)"
  proof (cases "j = k")
    case True
    have i: "i \<in> row (frees c) k" using assms(3) by (simp add: row_def)
    then have "0 < card (row (frees c) k)" by (auto simp: card_gt_0_iff)
    then have "(1 :: u8) \<le> avail_num c k" using n True by (simp add: word_le_nat_alt)
    then show ?thesis using n True i by (simp add: assms(2,4) row_simps unat_sub card_Diff_singleton)
  next
    case False
    then show ?thesis using n by (simp add: assms(2,4) row_simps)
  qed
qed

lemma counts_pos: "counts c \<Longrightarrow> k \<le> 6 \<Longrightarrow> avail_num c k \<noteq> 0 \<longleftrightarrow> (\<exists>i. (k, i) \<in> frees c)"
proof -
  assume c: "counts c" "k \<le> 6"
  then have "unat (avail_num c k) = card (row (frees c) k)" by (simp add: counts_def)
  then have "avail_num c k \<noteq> 0 \<longleftrightarrow> row (frees c) k \<noteq> {}" by (metis card_gt_0_iff less_not_refl neq0_conv row_finite unat_eq_0)
  then show ?thesis by (auto simp: row_def)
qed

lemma add_avail_simps [simp]:
  "frees (add_avail k d c) = frees c" "fit (add_avail k d c) = fit c" "splits (add_avail k d c) = splits c"
  "avail_num (add_avail k d c) = (avail_num c)(k := avail_num c k + d)"
  "in_use (add_avail k d c) = in_use c" "chunk (add_avail k d c) = chunk c" "chunk_mmap_ctx (add_avail k d c) = chunk_mmap_ctx c"
  by (simp_all add: add_avail_def frees_def free_bit_def fit_def)

lemma put_split_simps [simp]:
  "frees (put_split k w c) = frees c" "fit (put_split k w c) = fit c" "avail_num (put_split k w c) = avail_num c"
  "in_use (put_split k w c) = in_use c" "chunk (put_split k w c) = chunk c" "chunk_mmap_ctx (put_split k w c) = chunk_mmap_ctx c"
  by (simp_all add: put_split_def frees_def free_bit_def fit_def)

lemma set_block_simps [simp]:
  "splits (set_block k b c) = splits c" "avail_num (set_block k b c) = avail_num c"
  "in_use (set_block k b c) = in_use c" "chunk (set_block k b c) = chunk c" "chunk_mmap_ctx (set_block k b c) = chunk_mmap_ctx c"
  by (simp_all add: set_block_def put_bitmap_def)

lemma clear_buddy_simps [simp]:
  "splits (clear_buddy k b w c) = splits c" "avail_num (clear_buddy k b w c) = avail_num c"
  "in_use (clear_buddy k b w c) = in_use c" "chunk (clear_buddy k b w c) = chunk c" "chunk_mmap_ctx (clear_buddy k b w c) = chunk_mmap_ctx c"
  by (simp_all add: clear_buddy_def put_bitmap_def)

section \<open>Taking and giving back\<close>

lemma split_ok_cong: "split_ok c B \<Longrightarrow> splits c' = splits c \<Longrightarrow> split_ok c' B"
  by (simp add: split_ok_def)

lemma chunk_take:
  assumes c: "chunk_state_ok c T" and k: "k \<le> 6" and a: "avail_num c k \<noteq> 0"
  shows "\<exists>i c'. take_lowest k c = Some (of_nat i, c') \<and> i < 2 ^ (7 - k) \<and> (k, i) \<notin> T \<and>
    chunk_state_ok (add_avail k (- 1) c') (insert (k, i) T) \<and> same_rest c c'"
proof -
  have C: "fit c" "tiling (frees c \<union> T)" "frees c \<inter> T = {}" "\<forall>(k, i) \<in> T. k \<le> 6" "counts c" "split_ok c (frees c \<union> T)" "coalesced c"
    using c by (simp_all add: chunk_state_ok_def)
  obtain j where "(k, j) \<in> frees c" using counts_pos [OF C(5) k] a by blast
  then obtain i c' where r: "take_lowest k c = Some (of_nat i, c')" "(k, i) \<in> frees c" "frees c' = frees c - {(k, i)}"
    using take_lowest_ok [OF C(1) k] by blast
  note R = take_lowest_rest [OF r(1)]
  have u: "frees c' \<union> insert (k, i) T = frees c \<union> T" using r(2,3) by blast
  have "counts (add_avail k (- 1) c')"
    by (rule counts_remove [OF C(5) _ r(2)]) (use r(3) R in \<open>simp_all add: same_rest_def\<close>)
  moreover have "split_ok (add_avail k (- 1) c') (frees c \<union> T)" using R by (intro split_ok_cong [OF C(6)]) simp
  moreover have "coalesced (add_avail k (- 1) c')" using C(7) r(3) by (auto simp: coalesced_def)
  ultimately have "chunk_state_ok (add_avail k (- 1) c') (insert (k, i) T)"
    using C R r(3) k u by (auto simp: chunk_state_ok_def)
  then show ?thesis using r R C(3) frees_le [OF r(2)] by (intro exI [of _ i] exI [of _ c']) auto
qed

lemma chunk_give:
  assumes c: "chunk_state_ok c T" and b: "(k, i) \<in> T" and t: "k < 6 \<Longrightarrow> (k, twin i) \<notin> frees c"
  shows "chunk_state_ok (add_avail k 1 (set_block k (of_nat i) c)) (T - {(k, i)})"
proof -
  have C: "fit c" "tiling (frees c \<union> T)" "frees c \<inter> T = {}" "\<forall>(k, i) \<in> T. k \<le> 6" "counts c" "split_ok c (frees c \<union> T)" "coalesced c"
    using c by (simp_all add: chunk_state_ok_def)
  let ?c = "add_avail k 1 (set_block k (of_nat i) c)"
  have k: "k \<le> 6" "i < 2 ^ (7 - k)" using C(4) b tiling_tile_ok [OF C(2), of "(k, i)"] by (auto simp: tile_ok_def)
  note f = set_block_frees [OF k, of c]
  have n: "(k, i) \<notin> frees c" using b C(3) by blast
  have u: "insert (k, i) (frees c) \<union> (T - {(k, i)}) = frees c \<union> T" using b by blast
  have "counts ?c" by (rule counts_insert [OF C(5) _ n]) (simp_all add: f)
  moreover have "split_ok ?c (frees c \<union> T)" by (rule split_ok_cong [OF C(6)]) simp
  moreover have "coalesced ?c" using C(7) t twin_simps(2,3) unfolding coalesced_def add_avail_simps f by (metis insert_iff prod.inject)
  ultimately show ?thesis using C set_block_rest(2) [OF C(1)] u n b by (auto simp: chunk_state_ok_def f)
qed

text \<open>When both blocks of order 6 are there, no smaller block is.\<close>

lemma chunk_last:
  assumes c: "chunk_state_ok c T" and b: "(6, i) \<in> T" and t: "(6, twin i) \<in> frees c"
  shows "T = {(6, i)}" "(k, j) \<in> frees c \<Longrightarrow> k = 6"
proof -
  have C: "tiling (frees c \<union> T)" "frees c \<inter> T = {}" using c by (simp_all add: chunk_state_ok_def)
  have i: "i < 2" using tiling_tile_ok [OF C(1), of "(6, i)"] b by (simp add: tile_ok_def)
  have *: "k = 6 \<and> (m = i \<or> m = twin i)" if km: "(k, m) \<in> frees c \<union> T" for k m
  proof -
    have ok: "tile_ok (k, m)" using tiling_tile_ok [OF C(1) km] .
    have k: "k \<le> 6" using c km frees_le [of k m c] by (auto simp: chunk_state_ok_def)
    have p: "m * 2 ^ k < 128" using first_page [OF k] ok by (simp add: tile_ok_def)
    have two: "n = i \<or> n = twin i" if "n < 2" for n using that i by (auto simp: twin_def elim!: oddE)
    have "m * 2 ^ k div 2 ^ 6 < 2" using p by (simp add: less_mult_imp_div_less)
    then obtain n where n: "(6, n) \<in> frees c \<union> T" "m * 2 ^ k div 2 ^ 6 = n" using two b t by blast
    have "k = 6" using tiling_unique [OF C(1) km n(1), of "m * 2 ^ k"] n(2) by simp
    moreover from this have "m < 2" using ok by (simp add: tile_ok_def)
    ultimately show ?thesis using two by blast
  qed
  show "T = {(6, i)}" using * b t C(2) by (auto; fastforce)
  show "(k, j) \<in> frees c \<Longrightarrow> k = 6" using * [of k j] by blast
qed

section \<open>Splitting and merging\<close>

abbreviation halved :: "nat \<Rightarrow> nat \<Rightarrow> tile set \<Rightarrow> tile set" where
  "halved k i B \<equiv> insert (k, 2 * i) (insert (k, Suc (2 * i)) (B - {(Suc k, i)}))"

lemma inner_halved:
  assumes t: "tiling B" and b: "(Suc k, i) \<in> B"
  shows "inner (halved k i B) n j \<longleftrightarrow> inner B n j \<or> n = Suc k \<and> j = i"
proof -
  have up: "2 * i div 2 ^ (n - k) = i div 2 ^ (n - Suc k) \<and> Suc (2 * i) div 2 ^ (n - k) = i div 2 ^ (n - Suc k)" if "Suc k \<le> n"
  proof -
    have "n - k = Suc (n - Suc k)" using that by simp
    then show ?thesis by (simp add: div_mult2_eq)
  qed
  show ?thesis
  proof
    assume "inner (halved k i B) n j"
    then obtain k' m where m: "(k', m) \<in> halved k i B" "k' < n" "m div 2 ^ (n - k') = j" by (auto simp: inner_def)
    show "inner B n j \<or> n = Suc k \<and> j = i"
    proof (cases "(k', m) \<in> B")
      case True
      then show ?thesis using m by (auto simp: inner_def)
    next
      case False
      then have k': "k' = k" "m = 2 * i \<or> m = Suc (2 * i)" using m(1) by auto
      then have "i div 2 ^ (n - Suc k) = j" using up m(2,3) by auto
      then show ?thesis using b m(2) k'(1) by (cases "n = Suc k") (auto simp: inner_def intro!: bexI [of _ "(Suc k, i)"])
    qed
  next
    assume a: "inner B n j \<or> n = Suc k \<and> j = i"
    show "inner (halved k i B) n j"
    proof (cases "Suc k \<le> n \<and> i div 2 ^ (n - Suc k) = j")
      case True
      then have "(k, 2 * i) \<in> halved k i B \<and> k < n \<and> 2 * i div 2 ^ (n - k) = j" using up by auto
      then show ?thesis unfolding inner_def by blast
    next
      case False
      then obtain k' m where m: "(k', m) \<in> B" "k' < n" "m div 2 ^ (n - k') = j" using a by (auto simp: inner_def)
      then have "(k', m) \<in> halved k i B" using False by auto
      then show ?thesis using m(2,3) unfolding inner_def by blast
    qed
  qed
qed

lemma bit_put_split: "bit (splits (put_split k w c) n) i \<longleftrightarrow> (if n = k then i < 2 ^ (7 - k) \<and> bit w i else bit (splits c n) i)"
  by (simp add: put_split_def bit_take_bit_iff)

lemma chunk_split:
  assumes c: "chunk_state_ok c T" and b: "(Suc k, i) \<in> T"
  shows "chunk_state_ok (set_second_half k (of_nat i) (add_avail k 1 (put_split (Suc k) (splits c (Suc k) OR bit_at (of_nat i)) c)))
    (insert (k, 2 * i) (T - {(Suc k, i)}))"
proof -
  have C: "fit c" "tiling (frees c \<union> T)" "frees c \<inter> T = {}" "\<forall>(k, i) \<in> T. k \<le> 6" "counts c" "split_ok c (frees c \<union> T)" "coalesced c"
    using c by (simp_all add: chunk_state_ok_def)
  let ?B = "frees c \<union> T"
  have k: "Suc k \<le> 6" "i < 2 ^ (7 - Suc k)" using C(4) b tiling_tile_ok [OF C(2), of "(Suc k, i)"] by (auto simp: tile_ok_def)
  then have i: "i < 64" using tile_bound_pos [of i "Suc k"] by simp
  have h: "Suc (2 * i) < 2 ^ (7 - k)" using tile_ok_halves [of k i] k by (simp add: tile_ok_def)
  have bB: "(Suc k, i) \<in> ?B" "(Suc k, i) \<notin> frees c" using b C(3) by auto
  note t = tiling_split [OF C(2) bB(1)]
  define c1 where "c1 = put_split (Suc k) (splits c (Suc k) OR bit_at (of_nat i)) c"
  define c2 where "c2 = set_block k (of_nat (Suc (2 * i))) (add_avail k 1 c1)"
  have f: "frees c2 = insert (k, Suc (2 * i)) (frees c)" unfolding c2_def c1_def by (subst set_block_frees [OF _ h]) (use k in simp_all)
  have u: "frees c2 \<union> insert (k, 2 * i) (T - {(Suc k, i)}) = halved k i ?B" unfolding f using bB(2) by auto
  have "fit c2" unfolding c2_def c1_def by (intro set_block_rest(2)) (simp add: C(1))
  moreover have "counts c2" by (rule counts_insert [OF C(5) f]) (use t(3) in \<open>simp_all add: c2_def c1_def\<close>)
  moreover have "split_ok c2 (halved k i ?B)"
    unfolding split_ok_def
  proof (intro allI impI)
    fix n j :: nat assume n: "0 < n \<and> n \<le> 6 \<and> j < 2 ^ (7 - n)"
    have "bit (splits c2 n) j \<longleftrightarrow> (if n = Suc k then j < 2 ^ (7 - Suc k) \<and> (bit (splits c (Suc k)) j \<or> j = i) else bit (splits c n) j)"
      using i by (auto simp: c2_def c1_def bit_put_split bit_simps bit_at_iff u32_nat)
    also have "\<dots> \<longleftrightarrow> bit (splits c n) j \<or> n = Suc k \<and> j = i" using n by auto
    finally show "bit (splits c2 n) j \<longleftrightarrow> inner (halved k i ?B) n j" using C(6) n inner_halved [OF C(2) bB(1)] by (simp add: split_ok_def)
  qed
  moreover have "coalesced c2"
    unfolding coalesced_def
  proof (intro allI impI)
    fix n j :: nat assume n: "n < 6" "(n, j) \<in> frees c2"
    have "twin (Suc (2 * i)) = 2 * i" "j = twin (twin j)" by (simp_all add: twin_def)
    then have "(n, j) = (k, Suc (2 * i)) \<Longrightarrow> (n, twin j) \<notin> frees c2" "(n, twin j) = (k, Suc (2 * i)) \<Longrightarrow> (n, j) \<notin> frees c2"
      using t(2) unfolding f by auto
    then show "(n, twin j) \<notin> frees c2" using C(7) n unfolding f coalesced_def by blast
  qed
  moreover have "tiling (halved k i ?B)" using t(1) .
  moreover have "frees c2 \<inter> insert (k, 2 * i) (T - {(Suc k, i)}) = {}" unfolding f using C(3) t(2,3) by auto
  moreover have "\<forall>(k', j) \<in> insert (k, 2 * i) (T - {(Suc k, i)}). k' \<le> 6" using C(4) k by auto
  ultimately have "chunk_state_ok c2 (insert (k, 2 * i) (T - {(Suc k, i)}))" unfolding chunk_state_ok_def u by blast
  then show ?thesis unfolding second_half [OF i] c2_def c1_def .
qed

lemma halved_merged:
  assumes "tiling B" "(k, i) \<in> B" "(k, twin i) \<in> B"
  shows "B = halved k (i div 2) (insert (Suc k, i div 2) (B - {(k, i), (k, twin i)})) \<or> (Suc k, i div 2) \<in> B"
proof -
  have "Pair k ` {i, twin i} = Pair k ` {2 * (i div 2), Suc (2 * (i div 2))}" unfolding twin_halves ..
  then have "{(k, i), (k, twin i)} = {(k, 2 * (i div 2)), (k, Suc (2 * (i div 2)))}" by (simp only: image_insert image_empty)
  moreover from this have "{(k, 2 * (i div 2)), (k, Suc (2 * (i div 2)))} \<subseteq> B" using assms(2,3) by (metis empty_subsetI insert_subset)
  ultimately show ?thesis by auto
qed

lemma chunk_merge:
  assumes c: "chunk_state_ok c T" and b: "(k, i) \<in> T" and tw: "(k, twin i) \<in> frees c" and k6: "k < 6"
  shows "chunk_state_ok (put_split (Suc k) (splits c (Suc k) AND NOT (bit_at (of_nat (i div 2)))) (add_avail k (- 1) (clear_buddy k (of_nat i) (of_nat i XOR 1) c)))
    (insert (Suc k, i div 2) (T - {(k, i)}))"
proof -
  have C: "fit c" "tiling (frees c \<union> T)" "frees c \<inter> T = {}" "\<forall>(k, i) \<in> T. k \<le> 6" "counts c" "split_ok c (frees c \<union> T)" "coalesced c"
    using c by (simp_all add: chunk_state_ok_def)
  let ?B = "frees c \<union> T" and ?h = "i div 2"
  let ?M = "insert (Suc k, ?h) (?B - {(k, i), (k, twin i)})"
  have k: "k \<le> 6" "i < 2 ^ (7 - k)" using C(4) b tiling_tile_ok [OF C(2), of "(k, i)"] by (auto simp: tile_ok_def)
  have h: "?h < 2 ^ (7 - Suc k)" "?h < 64" using tile_ok_parent [of k i] k k6 tile_bound_pos [of ?h "Suc k"] by (auto simp: tile_ok_def)
  have B: "(k, i) \<in> ?B" "(k, twin i) \<in> ?B" using b tw by auto
  have "k < 7" using k6 by simp
  note m = tiling_merge [OF C(2) B this]
  define c1 where "c1 = add_avail k (- 1) (clear_buddy k (of_nat i) (of_nat i XOR 1) c)"
  define c2 where "c2 = put_split (Suc k) (splits c (Suc k) AND NOT (bit_at (of_nat ?h))) c1"
  have f: "frees c2 = frees c - {(k, twin i)}" unfolding c2_def c1_def by (simp add: clear_frees [OF k tw])
  have nb: "(k, i) \<notin> frees c" "(k, twin i) \<notin> T" using b tw C(3) by auto
  have u: "frees c2 \<union> insert (Suc k, ?h) (T - {(k, i)}) = ?M" unfolding f using nb by auto
  have "fit c2" unfolding c2_def c1_def using clear_rest(2) [OF C(1)] by simp
  moreover have "counts c2" by (rule counts_remove [OF C(5) f tw]) (simp add: c2_def c1_def)
  moreover have "split_ok c2 ?M"
    unfolding split_ok_def
  proof (intro allI impI)
    fix n j :: nat assume n: "0 < n \<and> n \<le> 6 \<and> j < 2 ^ (7 - n)"
    have "bit (splits c2 n) j \<longleftrightarrow> (if n = Suc k then j < 2 ^ (7 - Suc k) \<and> bit (splits c (Suc k)) j \<and> j \<noteq> ?h else bit (splits c n) j)"
      using h(2) bit_imp_le_length [of "splits c (Suc k)" j] by (auto simp: c2_def c1_def bit_put_split bit_simps bit_at_iff u32_nat)
    also have "\<dots> \<longleftrightarrow> bit (splits c n) j \<and> \<not> (n = Suc k \<and> j = ?h)" using n by auto
    also have "\<dots> \<longleftrightarrow> inner ?B n j \<and> \<not> (n = Suc k \<and> j = ?h)" using C(6) n by (simp add: split_ok_def)
    also have "inner ?B n j \<longleftrightarrow> inner ?M n j \<or> n = Suc k \<and> j = ?h"
    proof -
      have "?B = halved k ?h ?M" using halved_merged [OF C(2) B] m(2) by blast
      moreover have "inner (halved k ?h ?M) n j \<longleftrightarrow> inner ?M n j \<or> n = Suc k \<and> j = ?h" by (rule inner_halved [OF m(1)]) simp
      ultimately show ?thesis by (metis (no_types, lifting))
    qed
    finally show "bit (splits c2 n) j \<longleftrightarrow> inner ?M n j" using not_inner [OF m(1), of "Suc k" ?h] by auto
  qed
  moreover have "coalesced c2" using C(7) unfolding coalesced_def f by blast
  moreover have "tiling ?M" using m(1) .
  moreover have "frees c2 \<inter> insert (Suc k, ?h) (T - {(k, i)}) = {}" unfolding f using C(3) m(2) by auto
  moreover have "\<forall>(k', j) \<in> insert (Suc k, ?h) (T - {(k, i)}). k' \<le> 6" using C(4) k6 by auto
  ultimately have "chunk_state_ok c2 (insert (Suc k, ?h) (T - {(k, i)}))" unfolding chunk_state_ok_def u by blast
  then show ?thesis unfolding c2_def c1_def .
qed

section \<open>A new chunk\<close>

lemma bit_two: "bit (2 :: u64) i \<longleftrightarrow> i = Suc 0"
  using bit_exp_iff [of 1 i, where 'a = u64] by auto

lemma chunk_new:
  assumes z: "frees c = {}" "fit c" "avail_num c = (\<lambda>_. 0)" "splits c = (\<lambda>_. 0)"
  shows "chunk_state_ok ((put_bitmap 6 2 c)\<lparr>avail_num := (avail_num c)(6 := 1)\<rparr>) {(6, 0)}"
proof -
  let ?c = "(put_bitmap 6 2 c)\<lparr>avail_num := (avail_num c)(6 := 1)\<rparr>"
  have e: "{(7, 0)} - {(Suc 6, 0)} = ({} :: tile set)" by simp
  have t: "tiling {(6, 0), (6, 1)}" using tiling_split(1) [OF tiling_whole, of 6 0] unfolding e by simp
  have "free_bit k i ?c \<longleftrightarrow> (if k = 6 then i = 1 else free_bit k i c)" if "i < 2 ^ (7 - k)" for k i
    using that bit_two [of i] by (auto simp: free_bit_def put_bitmap_def bit_take_bit_iff)
  then have f: "frees ?c = {(6, 1)}" using z(1) by (auto simp: frees_def split: if_splits)
  have u: "frees ?c \<union> {(6, 0)} = {(6, 0), (6, 1)}" unfolding f by auto
  have "counts ?c" unfolding counts_def f using z(3) by (auto simp: row_def put_bitmap_def)
  moreover have "split_ok ?c {(6, 0), (6, 1)}" using z(4) by (auto simp: split_ok_def inner_def put_bitmap_def)
  moreover have "fit ?c" using z(2) by (simp add: fit_def put_bitmap_def)
  moreover have "coalesced ?c" unfolding coalesced_def f by auto
  ultimately show ?thesis using t unfolding chunk_state_ok_def u by (simp add: f)
qed

lemma frees_zero: "frees zero_record = {}" "fit zero_record" "avail_num zero_record = (\<lambda>_. 0)" "splits zero_record = (\<lambda>_. 0)" "in_use zero_record = 0"
  by (auto simp: zero_record_def frees_def free_bit_def fit_def)

end
