(* ===== verification/BuddyOk.thy ===== *)
theory BuddyOk
  imports BuddySteps
begin

text \<open>
  The invariant of the buddy allocator, and the interface to the provider of pages as a locale.
  The blocks that are given out are read off the records (\<open>live_blocks\<close>); \<open>buddy_ok\<close> says that every chunk
  is tiled, that the lists hold the records they should, and that records and chunks lie in
  regions of the provider.
\<close>

section \<open>The provider of pages\<close>

text \<open>\<open>regions\<close> are the regions given out, by their contexts; \<open>credit\<close> is a number of requests that will
  surely succeed, which may be 0.\<close>

type_synonym region_map = "nat \<Rightarrow> (u64 \<times> u64) option"

definition region :: "u64 \<times> u64 \<Rightarrow> nat set" where
  "region = (\<lambda>(p, len). {unat p ..< unat p + unat len})"

locale page_source =
  fixes P :: "'m pages" and ok :: "'m \<Rightarrow> bool" and regions :: "'m \<Rightarrow> region_map" and credit :: "'m \<Rightarrow> nat"
  assumes page_alloc_ok: "ok m \<Longrightarrow> len \<in> {4096, 0x80000} \<Longrightarrow> \<exists>res m'. page_alloc P len m = Some (res, m') \<and> ok m' \<and>
      (0 < credit m \<longrightarrow> res \<noteq> None) \<and> credit m \<le> Suc (credit m') \<and> (case res of None \<Rightarrow> regions m' = regions m | Some (p, x) \<Rightarrow> regions m x = None \<and> regions m' = (regions m)(x \<mapsto> (p, len)))"
    and page_free_ok: "ok m \<Longrightarrow> regions m x = Some (p, len) \<Longrightarrow> \<exists>m'. page_free P p x m = Some m' \<and> ok m' \<and> regions m' = (regions m)(x := None)"
    and region_bound: "ok m \<Longrightarrow> regions m x = Some (p, len) \<Longrightarrow> p \<noteq> 0 \<and> unat p + unat len \<le> 2 ^ 64"
    and region_disjoint: "ok m \<Longrightarrow> regions m x = Some a \<Longrightarrow> regions m y = Some b \<Longrightarrow> x \<noteq> y \<Longrightarrow> region a \<inter> region b = {}"

section \<open>The invariant\<close>

definition used_records :: "'m buddy_arena \<Rightarrow> nat set" where
  "used_records s = {r. \<exists>c. records s r = Some c \<and> in_use c \<noteq> 0}"

definition live_blocks :: "'m buddy_arena \<Rightarrow> (nat \<times> tile) set" where
  "live_blocks s = {(r, b). \<exists>c. records s r = Some c \<and> in_use c \<noteq> 0 \<and> b \<in> given_out c}"

definition groups_ok :: "region_map \<Rightarrow> 'm buddy_arena \<Rightarrow> bool" where
  "groups_ok reg s \<longleftrightarrow> (\<forall>g x. group_mmap_ctx s g = Some x \<longrightarrow> (\<exists>p. g = unat p \<and> reg x = Some (p, 4096))) \<and>
     (\<exists>gs. in_links (\<lambda>g. group_mmap_ctx s g \<noteq> None) gs (group_list s) \<and> set gs = dom (group_mmap_ctx s)) \<and>
     (\<forall>r. records s r \<noteq> None \<longleftrightarrow> (\<exists>g i. group_mmap_ctx s g \<noteq> None \<and> i < BUDDY_RECORDS_PER_GROUP \<and> r = record_at g i))"

definition empties_ok :: "'m buddy_arena \<Rightarrow> bool" where
  "empties_ok s \<longleftrightarrow> (\<exists>es. in_links (valid_rec s) es (empty_list s) \<and> set es = {r. \<exists>c. records s r = Some c \<and> in_use c = 0})"

definition avail_ok :: "'m buddy_arena \<Rightarrow> nat \<Rightarrow> bool" where
  "avail_ok s k \<longleftrightarrow> (\<exists>xs. in_links (valid_rec s) xs (avail_list s k) \<and> set xs = {r. \<exists>c. records s r = Some c \<and> avail_num c k \<noteq> 0} \<and>
     (\<forall>r. r \<notin> set xs \<longrightarrow> valid_rec s r \<longrightarrow> fst (avail_list s k) r = None))"

definition record_ok :: "region_map \<Rightarrow> buddy_chunk_state \<Rightarrow> bool" where
  "record_ok reg c \<longleftrightarrow> (if in_use c = 0 then c = zero_record else chunk_state_ok c (given_out c) \<and> reg (chunk_mmap_ctx c) = Some (chunk c, 0x80000))"

definition chunks_ok :: "region_map \<Rightarrow> 'm buddy_arena \<Rightarrow> bool" where
  "chunks_ok reg s \<longleftrightarrow> (\<forall>r c. records s r = Some c \<longrightarrow> record_ok reg c) \<and>
     (\<forall>r c r' c'. records s r = Some c \<longrightarrow> records s r' = Some c' \<longrightarrow> in_use c \<noteq> 0 \<longrightarrow> in_use c' \<noteq> 0 \<longrightarrow> chunk_mmap_ctx c = chunk_mmap_ctx c' \<longrightarrow> r = r')"

definition buddy_ok :: "('m \<Rightarrow> bool) \<Rightarrow> ('m \<Rightarrow> region_map) \<Rightarrow> 'm buddy_arena \<Rightarrow> bool" where
  "buddy_ok ok regions s \<longleftrightarrow> ok (mmap_arena s) \<and> groups_ok (regions (mmap_arena s)) s \<and> empties_ok s \<and> (\<forall>k \<le> 6. avail_ok s k) \<and>
     chunks_ok (regions (mmap_arena s)) s \<and> chunk_num s = of_nat (card (used_records s))"

text \<open>The addresses of a block.\<close>

definition block_range :: "'m buddy_arena \<Rightarrow> nat \<times> tile \<Rightarrow> nat set" where
  "block_range s = (\<lambda>(r, k, i). case records s r of None \<Rightarrow> {} | Some c \<Rightarrow> {unat (chunk c) + i * 2 ^ (12 + k) ..< unat (chunk c) + Suc i * 2 ^ (12 + k)})"

definition same_ranges :: "(nat \<times> tile) set \<Rightarrow> 'm buddy_arena \<Rightarrow> 'm buddy_arena \<Rightarrow> bool" where
  "same_ranges L s s' \<longleftrightarrow> (\<forall>b \<in> L. block_range s' b = block_range s b)"

section \<open>The lists of records with free blocks\<close>

abbreviation set_record :: "'m buddy_arena \<Rightarrow> nat \<Rightarrow> buddy_chunk_state \<Rightarrow> 'm buddy_arena" where
  "set_record s r c \<equiv> s\<lparr>records := (records s)(r \<mapsto> c)\<rparr>"

lemma put_record_eq: "records s r = Some c \<Longrightarrow> put_record s r f = Some (set_record s r (f c))"
  by (simp add: put_record_def)

lemma valid_set_record: "records s r = Some c \<Longrightarrow> valid_rec (set_record s r c') = valid_rec s"
  by (rule ext) auto

lemma put_avail_simps [simp]:
  "records (put_avail s k l) = records s" "mmap_arena (put_avail s k l) = mmap_arena s" "group_list (put_avail s k l) = group_list s"
  "group_mmap_ctx (put_avail s k l) = group_mmap_ctx s" "empty_list (put_avail s k l) = empty_list s" "chunk_num (put_avail s k l) = chunk_num s"
  "avail_list (put_avail s k l) = (avail_list s)(k := l)" "put_avail s k (avail_list s k) = s"
  "put_avail (set_record s r c) k (avail_list s k) = set_record s r c"
  by (simp_all add: put_avail_def)

lemma links_cases: "\<exists>prv nxt head. l = ((prv, nxt, head) :: list_links)"
  by (metis prod_cases3)

lemma avail_same:
  assumes "avail_ok s k" "records s r = Some c" "avail_num c' k = 0 \<longleftrightarrow> avail_num c k = 0"
  shows "avail_ok (set_record s r c') k"
  using assms unfolding avail_ok_def valid_set_record [OF assms(2)] by (auto elim!: ex_forward)

lemma avail_okI:
  assumes "records s r = Some c" "in_links (valid_rec s) xs (prv, nxt, head)" "set xs = {q. \<exists>d. records (set_record s r c') q = Some d \<and> avail_num d k \<noteq> 0}"
    and "\<And>q. q \<notin> set xs \<Longrightarrow> valid_rec s q \<Longrightarrow> prv q = None"
  shows "avail_ok (put_avail (set_record s r c') k (prv, nxt, head)) k"
proof -
  have "valid_rec (set_record s r c') q \<longleftrightarrow> valid_rec s q" for q using assms(1) by auto
  then show ?thesis unfolding avail_ok_def put_avail_simps fun_upd_same valid_set_record [OF assms(1)] fst_conv
    by (intro exI [of _ xs] conjI allI impI assms(2-4)) blast+
qed

lemma avail_push:
  assumes a: "avail_ok s k" "records s r = Some c" "avail_num c k = 0" "avail_num c' k \<noteq> 0"
  shows "\<exists>l. push_front (valid_rec (set_record s r c')) r (avail_list s k) = Some l \<and> avail_ok (put_avail (set_record s r c') k l) k"
proof -
  obtain prv nxt head where l: "avail_list s k = (prv, nxt, head)" using links_cases by blast
  obtain xs where xs: "in_links (valid_rec s) xs (prv, nxt, head)" "set xs = {r. \<exists>c. records s r = Some c \<and> avail_num c k \<noteq> 0}"
    "\<And>r. r \<notin> set xs \<Longrightarrow> valid_rec s r \<Longrightarrow> prv r = None" using a(1) by (auto simp: avail_ok_def l)
  have r: "r \<notin> set xs" "valid_rec s r" using a(2,3) xs(2) by auto
  obtain prv' nxt' where p: "push_front (valid_rec s) r (prv, nxt, head) = Some (prv', nxt', Some r)" "in_links (valid_rec s) (r # xs) (prv', nxt', Some r)"
    "links_except (insert r (set xs)) (prv, nxt, head) (prv', nxt', Some r)" using push_front_ok [OF xs(1) r(2,1) xs(3) [OF r]] by blast
  have "set (r # xs) = {q. \<exists>d. records (set_record s r c') q = Some d \<and> avail_num d k \<noteq> 0}" using xs(2) a(4) by auto
  moreover have "prv' q = None" if "q \<notin> set (r # xs)" "valid_rec s q" for q using p(3) xs(3) that by (auto simp: links_except_def)
  ultimately have "avail_ok (put_avail (set_record s r c') k (prv', nxt', Some r)) k"
    using p(2) by (intro avail_okI [OF a(2)])
  then show ?thesis using p(1) unfolding l valid_set_record [OF a(2)] by blast
qed

lemma avail_pop:
  assumes a: "avail_ok s k" "records s r = Some c" "list_head (avail_list s k) = Some r" "avail_num c' k = 0"
  shows "\<exists>prv nxt head. pop_head (valid_rec (set_record s r c')) r (avail_list s k) = Some (prv, nxt, head) \<and>
    avail_ok (put_avail (set_record s r c') k (prv, nxt(r := None), head)) k"
proof -
  obtain prv nxt where l: "avail_list s k = (prv, nxt, Some r)" using links_cases [of "avail_list s k"] a(3) by (auto simp: list_head_def)
  obtain ys where ys: "in_links (valid_rec s) ys (prv, nxt, Some r)" "set ys = {r. \<exists>c. records s r = Some c \<and> avail_num c k \<noteq> 0}"
    "\<And>r. r \<notin> set ys \<Longrightarrow> valid_rec s r \<Longrightarrow> prv r = None" using a(1) by (auto simp: avail_ok_def l)
  obtain xs where x: "ys = r # xs" using in_links_first [OF ys(1)] by blast
  obtain prv' where p: "pop_head (valid_rec s) r (prv, nxt, Some r) = Some (prv', nxt, first xs None)" "in_links (valid_rec s) xs (prv', nxt, first xs None)"
    "links_except (set xs) (prv, nxt, Some r) (prv', nxt, first xs None)" "prv' r = None" using pop_head_ok [OF ys(1) [unfolded x]] by blast
  have d: "r \<notin> set xs" using ys(1) by (simp add: in_links_def x)
  have "set xs = {q. \<exists>d. records (set_record s r c') q = Some d \<and> avail_num d k \<noteq> 0}" using ys(2) d a(4) unfolding x by auto
  moreover have "prv' q = None" if "q \<notin> set xs" "valid_rec s q" for q using p(3,4) ys(3) [of q] that by (cases "q = r") (auto simp: links_except_def x)
  moreover have "in_links (valid_rec s) xs (prv', nxt(r := None), first xs None)" by (rule in_links_cong [OF p(2)]) (use d in auto)
  ultimately have "avail_ok (put_avail (set_record s r c') k (prv', nxt(r := None), first xs None)) k"
    by (intro avail_okI [OF a(2)])
  then show ?thesis using p(1) unfolding l valid_set_record [OF a(2)] by blast
qed

lemma avail_unlink:
  assumes a: "avail_ok s k" "records s r = Some c" "avail_num c k \<noteq> 0" "avail_num c' k = 0"
  shows "\<exists>prv nxt head. unlink (valid_rec (set_record s r c')) r (avail_list s k) = Some (prv, nxt, head) \<and>
    avail_ok (put_avail (set_record s r c') k (prv(r := None), nxt(r := None), head)) k"
proof -
  obtain prv nxt head where l: "avail_list s k = (prv, nxt, head)" using links_cases by blast
  obtain ys where ys: "in_links (valid_rec s) ys (prv, nxt, head)" "set ys = {r. \<exists>c. records s r = Some c \<and> avail_num c k \<noteq> 0}"
    "\<And>r. r \<notin> set ys \<Longrightarrow> valid_rec s r \<Longrightarrow> prv r = None" using a(1) by (auto simp: avail_ok_def l)
  have "r \<in> set ys" using a(2,3) ys(2) by auto
  then obtain as bs where x: "ys = as @ r # bs" using split_list by metis
  obtain prv' nxt' where p: "unlink (valid_rec s) r (prv, nxt, head) = Some (prv', nxt', first (as @ bs) None)" "in_links (valid_rec s) (as @ bs) (prv', nxt', first (as @ bs) None)"
    "links_except (set (as @ bs)) (prv, nxt, head) (prv', nxt', first (as @ bs) None)" using unlink_ok [OF ys(1) [unfolded x]] by blast
  have d: "r \<notin> set (as @ bs)" using ys(1) by (simp add: in_links_def x)
  have "set (as @ bs) = {q. \<exists>d. records (set_record s r c') q = Some d \<and> avail_num d k \<noteq> 0}" using ys(2) d a(4) unfolding x by auto
  moreover have "(prv'(r := None)) q = None" if "q \<notin> set (as @ bs)" "valid_rec s q" for q using p(3) ys(3) [of q] that by (cases "q = r") (auto simp: links_except_def x)
  moreover have "in_links (valid_rec s) (as @ bs) (prv'(r := None), nxt'(r := None), first (as @ bs) None)" by (rule in_links_cong [OF p(2)]) (use d in auto)
  ultimately have "avail_ok (put_avail (set_record s r c') k (prv'(r := None), nxt'(r := None), first (as @ bs) None)) k"
    by (intro avail_okI [OF a(2)])
  then show ?thesis using p(1) unfolding l valid_set_record [OF a(2)] by blast
qed

section \<open>One record changes\<close>

lemma finite_valid: "groups_ok reg s \<Longrightarrow> finite {r. valid_rec s r}"
proof -
  assume g: "groups_ok reg s"
  obtain gs where "set gs = dom (group_mmap_ctx s)" using g by (auto simp: groups_ok_def)
  then have f: "finite (dom (group_mmap_ctx s))" by (metis List.finite_set)
  have "{r. valid_rec s r} \<subseteq> (\<lambda>(g, i). record_at g i) ` (dom (group_mmap_ctx s) \<times> {..<BUDDY_RECORDS_PER_GROUP})" using g by (auto simp: groups_ok_def)
  then show ?thesis by (rule finite_subset) (simp add: f)
qed

lemma live_set_record:
  assumes "records s r = Some c" "in_use c \<noteq> 0" "in_use c' = in_use c"
  shows "live_blocks (set_record s r c') = live_blocks s - {r} \<times> given_out c \<union> {r} \<times> given_out c'" "used_records (set_record s r c') = used_records s"
  using assms by (auto simp: live_blocks_def used_records_def split: if_splits)

lemma live_put_avail [simp]: "live_blocks (put_avail s k l) = live_blocks s" "used_records (put_avail s k l) = used_records s" "block_range (put_avail s k l) = block_range s"
  by (simp_all add: live_blocks_def used_records_def block_range_def)

lemma range_set_record: "records s r = Some c \<Longrightarrow> chunk c' = chunk c \<Longrightarrow> block_range (set_record s r c') = block_range s"
  by (rule ext) (simp add: block_range_def split: prod.split)

lemma buddy_record: "buddy_ok ok reg s \<Longrightarrow> records s r = Some c \<Longrightarrow> in_use c \<noteq> 0 \<Longrightarrow>
    chunk_state_ok c (given_out c) \<and> reg (mmap_arena s) (chunk_mmap_ctx c) = Some (chunk c, 0x80000)"
  by (simp add: buddy_ok_def chunks_ok_def record_ok_def)

lemma chunks_okI:
  "(\<And>r c. records s r = Some c \<Longrightarrow> record_ok reg c) \<Longrightarrow>
    (\<And>r c r' c'. records s r = Some c \<Longrightarrow> records s r' = Some c' \<Longrightarrow> in_use c \<noteq> 0 \<Longrightarrow> in_use c' \<noteq> 0 \<Longrightarrow> chunk_mmap_ctx c = chunk_mmap_ctx c' \<Longrightarrow> r = r') \<Longrightarrow> chunks_ok reg s"
  unfolding chunks_ok_def by blast

lemma chunks_record: "chunks_ok reg s \<Longrightarrow> records s r = Some c \<Longrightarrow> record_ok reg c"
  unfolding chunks_ok_def by blast

lemma chunks_put_avail: "chunks_ok reg (put_avail s k l) = chunks_ok reg s"
  by (simp only: chunks_ok_def put_avail_simps)

lemma chunks_inj:
  "chunks_ok reg s \<Longrightarrow> records s r = Some c \<Longrightarrow> records s r' = Some c' \<Longrightarrow> in_use c \<noteq> 0 \<Longrightarrow> in_use c' \<noteq> 0 \<Longrightarrow> chunk_mmap_ctx c = chunk_mmap_ctx c' \<Longrightarrow> r = r'"
  unfolding chunks_ok_def by blast

lemma buddy_avail: "buddy_ok ok reg s \<Longrightarrow> k \<le> 6 \<Longrightarrow> avail_ok s k"
  by (simp add: buddy_ok_def)

lemma liveE: "(r, b) \<in> live_blocks s \<Longrightarrow> (\<And>c. records s r = Some c \<Longrightarrow> in_use c \<noteq> 0 \<Longrightarrow> b \<in> given_out c \<Longrightarrow> thesis) \<Longrightarrow> thesis"
  by (auto simp: live_blocks_def)

lemma record_change:
  assumes s: "buddy_ok ok reg s" and r: "records s r = Some c" "in_use c \<noteq> 0"
    and c': "chunk_state_ok c' T" "in_use c' = in_use c" "chunk c' = chunk c" "chunk_mmap_ctx c' = chunk_mmap_ctx c"
    and k: "\<And>j. j \<noteq> k \<Longrightarrow> j \<le> 6 \<Longrightarrow> avail_num c' j = avail_num c j"
    and l: "avail_ok (put_avail (set_record s r c') k l) k"
  shows "buddy_ok ok reg (put_avail (set_record s r c') k l) \<and> live_blocks (put_avail (set_record s r c') k l) = live_blocks s - {r} \<times> given_out c \<union> {r} \<times> T \<and>
    block_range (put_avail (set_record s r c') k l) = block_range s"
proof (intro conjI)
  let ?s = "put_avail (set_record s r c') k l"
  have T: "T = given_out c'" using given_out_eq [OF c'(1)] ..
  show "live_blocks ?s = live_blocks s - {r} \<times> given_out c \<union> {r} \<times> T" unfolding T using live_set_record(1) [OF r c'(2)] by simp
  show "block_range ?s = block_range s" using range_set_record [OF r(1) c'(3)] by simp
  have S: "ok (mmap_arena s)" "groups_ok (reg (mmap_arena s)) s" "empties_ok s" "\<And>k. k \<le> 6 \<Longrightarrow> avail_ok s k" "chunks_ok (reg (mmap_arena s)) s"
    "chunk_num s = of_nat (card (used_records s))" using s by (simp_all add: buddy_ok_def)
  have v: "records ?s q \<noteq> None \<longleftrightarrow> records s q \<noteq> None" for q using r(1) by simp
  have "groups_ok (reg (mmap_arena ?s)) ?s" using S(2) v unfolding groups_ok_def by simp
  moreover have "empties_ok ?s"
  proof -
    have "{q. \<exists>d. records ?s q = Some d \<and> in_use d = 0} = {q. \<exists>d. records s q = Some d \<and> in_use d = 0}" using r c'(2) by auto
    then show ?thesis using S(3) valid_set_record [OF r(1), of c'] unfolding empties_ok_def by simp
  qed
  moreover have "avail_ok ?s j" if "j \<le> 6" for j
  proof (cases "j = k")
    case False
    have "avail_ok (set_record s r c') j" by (rule avail_same [OF S(4) [OF that] r(1)]) (use k [OF False that] in simp)
    then show ?thesis using False unfolding avail_ok_def by simp
  qed (use l in simp)
  moreover have "chunks_ok (reg (mmap_arena ?s)) ?s"
  proof -
    have "record_ok (reg (mmap_arena s)) c'" using S(5) r c' T unfolding chunks_ok_def record_ok_def by auto
    then have "record_ok (reg (mmap_arena s)) d" if "records (set_record s r c') q = Some d" for q d
      using that S(5) by (cases "q = r") (auto simp: chunks_ok_def)
    moreover have "q = q'" if "records (set_record s r c') q = Some d" "records (set_record s r c') q' = Some d'" "in_use d \<noteq> 0" "in_use d' \<noteq> 0" "chunk_mmap_ctx d = chunk_mmap_ctx d'"
      for q d q' d'
    proof -
      have old: "\<exists>e. records s q = Some e \<and> in_use e = in_use d \<and> chunk_mmap_ctx e = chunk_mmap_ctx d" if "records (set_record s r c') q = Some d" for q d
        using that r(1) c'(2,4) by (cases "q = r") auto
      note t = that
      obtain e e' where "records s q = Some e" "in_use e = in_use d" "chunk_mmap_ctx e = chunk_mmap_ctx d"
        "records s q' = Some e'" "in_use e' = in_use d'" "chunk_mmap_ctx e' = chunk_mmap_ctx d'" using old [OF t(1)] old [OF t(2)] by blast
      then show "q = q'" using chunks_inj [OF S(5), of q e q' e'] t(3-5) by simp
    qed
    ultimately have "chunks_ok (reg (mmap_arena s)) (set_record s r c')" by (rule chunks_okI)
    then show ?thesis by (simp add: chunks_put_avail)
  qed
  moreover have "ok (mmap_arena ?s)" using S(1) by simp
  moreover have "chunk_num ?s = of_nat (card (used_records ?s))" unfolding live_put_avail live_set_record(2) [OF r c'(2)] using S(6) by simp
  ultimately show "buddy_ok ok reg ?s" unfolding buddy_ok_def by blast
qed

end
