(* ===== verification/BuddyRun.thy ===== *)
theory BuddyRun
  imports BuddyOk
begin

text \<open>Allocation and deallocation of the orders below 6, over the functions of the next order.\<close>

section \<open>Addresses\<close>

lemma block_start_word:
  assumes "k \<le> 6" "i < 2 ^ (7 - k)"
  shows "unat (ucast (push_bit (12 + k) (of_nat i :: u32)) :: u64) = i * 2 ^ (12 + k)" "Suc i * 2 ^ (12 + k) \<le> 2 ^ 19"
proof -
  have "Suc i * 2 ^ (12 + k) \<le> 2 ^ (7 - k) * 2 ^ (12 + k)" using assms(2) by (intro mult_le_mono1) simp
  also have "\<dots> = 2 ^ 19" using assms(1) by (simp flip: power_add)
  finally show le: "Suc i * 2 ^ (12 + k) \<le> 2 ^ 19" .
  then have lt: "i * 2 ^ (12 + k) < 2 ^ 32" by simp
  have "push_bit (12 + k) (of_nat i :: u32) = of_nat (i * 2 ^ (12 + k))" by (simp add: push_bit_eq_mult)
  then have "unat (push_bit (12 + k) (of_nat i :: u32)) = i * 2 ^ (12 + k)"
    using lt by (simp add: unat_of_nat take_bit_nat_eq_self del: of_nat_mult)
  then show "unat (ucast (push_bit (12 + k) (of_nat i :: u32)) :: u64) = i * 2 ^ (12 + k)" using lt
    by (simp add: unsigned_ucast_eq take_bit_nat_eq_self)
qed

lemma idx_block:
  assumes "k \<le> 6" "i < 2 ^ (7 - k)" "unat (chunk c) + 2 ^ 19 \<le> 2 ^ 64"
  shows "unat (BUDDY_IDX_BLOCK c (of_nat i) k) = unat (chunk c) + i * 2 ^ (12 + k)"
proof -
  have "0 < (2 :: nat) ^ (12 + k)" by simp
  then have "i * 2 ^ (12 + k) < 2 ^ 19" using block_start_word(2) [OF assms(1,2)] unfolding mult_Suc by linarith
  then show ?thesis using block_start_word(1) [OF assms(1,2)] assms(3) by (simp add: BUDDY_IDX_BLOCK_def unat_word_ariths)
qed

lemma block_idx:
  assumes k: "k \<le> 6" "i < 2 ^ (7 - k)" and p: "unat p \<in> {unat (chunk c) + i * 2 ^ (12 + k) ..< unat (chunk c) + Suc i * 2 ^ (12 + k)}"
  shows "BUDDY_BLOCK_IDX c p k = of_nat i"
proof -
  have "unat (p - chunk c) = unat p - unat (chunk c)" using p by (intro unat_sub) (simp add: word_le_nat_alt)
  then have d: "i * 2 ^ (12 + k) \<le> unat (p - chunk c)" "unat (p - chunk c) < Suc i * 2 ^ (12 + k)" using p by auto
  then have "unat (p - chunk c) div 2 ^ (12 + k) = i" by (intro div_nat_eqI) (simp_all add: mult.commute)
  moreover have "unat (drop_bit (12 + k) (p - chunk c)) = unat (p - chunk c) div 2 ^ (12 + k)"
    by (simp add: unat_drop_bit_eq drop_bit_eq_div [of _ "unat (p - chunk c)"])
  ultimately have "drop_bit (12 + k) (p - chunk c) = of_nat i" using tile_bound [OF k(2)]
    by (simp add: word_unat_eq_iff unat_of_nat take_bit_nat_eq_self)
  then show ?thesis using tile_bound [OF k(2)] by (simp add: BUDDY_BLOCK_IDX_def word_unat_eq_iff unat_of_nat take_bit_nat_eq_self unsigned_ucast_eq)
qed

section \<open>Steps\<close>

text \<open>A request that fails finds no free block of its order or a larger one.\<close>

definition alloc_step :: "nat \<Rightarrow> 'm buddy_arena \<Rightarrow> (nat \<times> u64) option \<Rightarrow> 'm buddy_arena \<Rightarrow> bool" where
  "alloc_step k s res s' \<longleftrightarrow> same_ranges (live_blocks s) s s' \<and> (case res of
     None \<Rightarrow> live_blocks s' = live_blocks s \<and> (\<forall>r c j i. records s r = Some c \<longrightarrow> (j, i) \<in> frees c \<longrightarrow> j < k)
   | Some (r, p) \<Rightarrow> \<exists>i. (r, k, i) \<notin> live_blocks s \<and> live_blocks s' = insert (r, k, i) (live_blocks s) \<and> block_range s' (r, k, i) = {unat p ..< unat p + 2 ^ (12 + k)})"

definition free_step :: "nat \<times> tile \<Rightarrow> 'm buddy_arena \<Rightarrow> 'm buddy_arena \<Rightarrow> bool" where
  "free_step b s s' \<longleftrightarrow> live_blocks s' = live_blocks s - {b} \<and> same_ranges (live_blocks s') s s'"

lemma alloc_stepI:
  "same_ranges (live_blocks s) s s' \<Longrightarrow> (r, k, i) \<notin> live_blocks s \<Longrightarrow> live_blocks s' = insert (r, k, i) (live_blocks s) \<Longrightarrow>
    block_range s' (r, k, i) = {unat p ..< unat p + 2 ^ (12 + k)} \<Longrightarrow> alloc_step k s (Some (r, p)) s'"
  by (auto simp: alloc_step_def)

lemma block_range_eq: "records s r = Some c \<Longrightarrow> unat p = unat (chunk c) + i * 2 ^ (12 + k) \<Longrightarrow> block_range s (r, k, i) = {unat p ..< unat p + 2 ^ (12 + k)}"
  by (simp add: block_range_def algebra_simps)

definition alloc_spec :: "('m \<Rightarrow> bool) \<Rightarrow> ('m \<Rightarrow> region_map) \<Rightarrow> ('m \<Rightarrow> nat) \<Rightarrow> nat \<Rightarrow> ('m buddy_arena \<Rightarrow> ((nat \<times> u64) option \<times> 'm buddy_arena) option) \<Rightarrow> bool" where
  "alloc_spec ok regions credit k f \<longleftrightarrow> (\<forall>s. buddy_ok ok regions s \<longrightarrow>
     (\<exists>res s'. f s = Some (res, s') \<and> buddy_ok ok regions s' \<and> alloc_step k s res s' \<and> (1 < credit (mmap_arena s) \<longrightarrow> res \<noteq> None)))"

definition free_spec :: "('m \<Rightarrow> bool) \<Rightarrow> ('m \<Rightarrow> region_map) \<Rightarrow> nat \<Rightarrow> (u64 \<Rightarrow> nat \<Rightarrow> 'm buddy_arena \<Rightarrow> 'm buddy_arena option) \<Rightarrow> bool" where
  "free_spec ok regions k f \<longleftrightarrow> (\<forall>s r i p. buddy_ok ok regions s \<longrightarrow> (r, k, i) \<in> live_blocks s \<longrightarrow> unat p \<in> block_range s (r, k, i) \<longrightarrow>
     (\<exists>s'. f p r s = Some s' \<and> buddy_ok ok regions s' \<and> free_step (r, k, i) s s'))"

lemma push_avail_ok:
  assumes "avail_ok s k" "records s r = Some c" "avail_num c' k = avail_num c k + 1" "avail_num c' k \<noteq> 0"
  shows "\<exists>l. push_avail k r (set_record s r c') = Some (put_avail (set_record s r c') k l) \<and> avail_ok (put_avail (set_record s r c') k l) k"
proof (cases "avail_num c' k = 1")
  case True
  then have "avail_num c k = 0" using assms(3) by simp
  then obtain l where "push_front (valid_rec (set_record s r c')) r (avail_list s k) = Some l" "avail_ok (put_avail (set_record s r c') k l) k"
    using avail_push [OF assms(1,2) _ assms(4)] by blast
  then show ?thesis using True by (intro exI [of _ l]) (simp add: push_avail_def)
next
  case False
  then have "avail_num c k \<noteq> 0" using assms(3) by auto
  then have "avail_ok (set_record s r c') k" using avail_same [OF assms(1,2)] assms(4) by simp
  then show ?thesis using False by (intro exI [of _ "avail_list s k"]) (simp add: push_avail_def)
qed

lemma counts_step: "chunk_state_ok c' T \<Longrightarrow> k \<le> 6 \<Longrightarrow> (k, i) \<in> frees c' \<Longrightarrow> avail_num c' k \<noteq> 0"
  using counts_pos [of c' k] by (auto simp: chunk_state_ok_def)

context page_source
begin

lemma chunk_bound: "buddy_ok ok regions s \<Longrightarrow> records s r = Some c \<Longrightarrow> in_use c \<noteq> 0 \<Longrightarrow> chunk c \<noteq> 0 \<and> unat (chunk c) + 2 ^ 19 \<le> 2 ^ 64"
  using region_bound [where m = "mmap_arena s" and x = "chunk_mmap_ctx c" and p = "chunk c" and len = "0x80000"] buddy_record [of ok regions s r c] by (simp add: buddy_ok_def)

lemma live_block: "buddy_ok ok regions s \<Longrightarrow> (r, k, i) \<in> live_blocks s \<Longrightarrow> k \<le> 6 \<and> i < 2 ^ (7 - k)"
  by (auto simp: live_blocks_def given_out_def)

lemma no_avail:
  assumes s: "buddy_ok ok regions s" and k: "k \<le> 6" and h: "list_head (avail_list s k) = None" and c: "records s r = Some c"
  shows "(k, i) \<notin> frees c"
proof -
  obtain prv nxt where l: "avail_list s k = (prv, nxt, None)" using links_cases [of "avail_list s k"] h by (auto simp: list_head_def)
  obtain xs where xs: "in_links (valid_rec s) xs (prv, nxt, None)" "set xs = {r. \<exists>c. records s r = Some c \<and> avail_num c k \<noteq> 0}"
    using buddy_avail [OF s k] by (auto simp: avail_ok_def l)
  have a: "avail_num c k = 0" using in_links_None [OF xs(1)] xs(2) c by auto
  show ?thesis
  proof (cases "in_use c = 0")
    case True
    then have "c = zero_record" using s c by (auto simp: buddy_ok_def chunks_ok_def record_ok_def)
    then show ?thesis by (simp add: frees_zero)
  next
    case False
    then show ?thesis using buddy_record [OF s c] counts_step [of c _ k i] k a by blast
  qed
qed

lemma take_block_ok:
  assumes s: "buddy_ok ok regions s" and k: "k \<le> 6" and h: "list_head (avail_list s k) = Some r"
  shows "\<exists>p s'. take_block k r s = Some (Some (r, p), s') \<and> buddy_ok ok regions s' \<and> alloc_step k s (Some (r, p)) s'"
proof -
  obtain prv nxt where l: "avail_list s k = (prv, nxt, Some r)" using links_cases [of "avail_list s k"] h by (auto simp: list_head_def)
  obtain xs where xs: "in_links (valid_rec s) xs (prv, nxt, Some r)" "set xs = {r. \<exists>c. records s r = Some c \<and> avail_num c k \<noteq> 0}"
    using buddy_avail [OF s k] by (auto simp: avail_ok_def l)
  then have "r \<in> set xs" using in_links_first [OF xs(1)] by auto
  then obtain c where c: "records s r = Some c" "avail_num c k \<noteq> 0" using xs(2) by blast
  have u: "in_use c \<noteq> 0"
  proof
    assume "in_use c = 0"
    then have "c = zero_record" using s c(1) by (auto simp: buddy_ok_def chunks_ok_def record_ok_def)
    then show False using c(2) by (simp add: zero_record_def)
  qed
  note C = buddy_record [OF s c(1) u, THEN conjunct1]
  obtain i c1 where t: "take_lowest k c = Some (of_nat i, c1)" "i < 2 ^ (7 - k)" "(k, i) \<notin> given_out c"
    "chunk_state_ok (add_avail k (- 1) c1) (insert (k, i) (given_out c))" "same_rest c c1" using chunk_take [OF C k c(2)] by blast
  define c2 where "c2 = add_avail k (- 1) c1"
  define p where "p = BUDDY_IDX_BLOCK c2 (of_nat i) k"
  have rest: "in_use c2 = in_use c" "chunk c2 = chunk c" "chunk_mmap_ctx c2 = chunk_mmap_ctx c" "\<And>j. j \<noteq> k \<Longrightarrow> avail_num c2 j = avail_num c j"
    using t(5) by (simp_all add: same_rest_def c2_def)
  have p: "unat p = unat (chunk c) + i * 2 ^ (12 + k)" unfolding p_def using idx_block [OF k t(2), of c2] chunk_bound [OF s c(1) u] rest(2) by simp
  obtain l where run: "take_block k r s = Some (Some (r, p), put_avail (set_record s r c2) k l)" and l: "avail_ok (put_avail (set_record s r c2) k l) k"
  proof (cases "avail_num c2 k = 0")
    case True
    obtain prv nxt head where "pop_head (valid_rec (set_record s r c2)) r (avail_list s k) = Some (prv, nxt, head)"
      "avail_ok (put_avail (set_record s r c2) k (prv, nxt(r := None), head)) k" using avail_pop [OF buddy_avail [OF s k] c(1) h True] by blast
    then show ?thesis using True by (intro that [of "(prv, nxt(r := None), head)"]) (simp_all add: take_block_def c(1) t(1) c2_def [symmetric] put_record_eq [OF c(1)] p_def Let_def del: add_avail_simps)
  next
    case False
    have "avail_ok (set_record s r c2) k" using avail_same [OF buddy_avail [OF s k] c(1)] False c(2) by simp
    then show ?thesis using False by (intro that [of "avail_list s k"]) (simp_all add: take_block_def c(1) t(1) c2_def [symmetric] put_record_eq [OF c(1)] p_def Let_def del: add_avail_simps)
  qed
  define s' where "s' = put_avail (set_record s r c2) k l"
  have G: "buddy_ok ok regions s'" "live_blocks s' = live_blocks s - {r} \<times> given_out c \<union> {r} \<times> insert (k, i) (given_out c)" "block_range s' = block_range s"
    using record_change [OF s c(1) u t(4) [folded c2_def] rest(1-3) rest(4) l] unfolding s'_def by blast+
  have "live_blocks s' = insert (r, k, i) (live_blocks s)" using c(1) u unfolding G(2) by (auto simp: live_blocks_def)
  moreover have "(r, k, i) \<notin> live_blocks s" using t(3) c(1) by (auto simp: live_blocks_def)
  ultimately have "alloc_step k s (Some (r, p)) s'"
    using block_range_eq [where k = k, OF c(1) p] by (intro alloc_stepI) (simp_all add: same_ranges_def G(3))
  then show ?thesis using run [folded s'_def] G(1) by blast
qed

lemma split_block_ok:
  assumes s: "buddy_ok ok regions s" and b: "(r, Suc k, i) \<in> live_blocks s" and p: "block_range s (r, Suc k, i) = {unat p ..< unat p + 2 ^ (12 + Suc k)}"
  shows "\<exists>s'. split_block k r p s = Some (Some (r, p), s') \<and> buddy_ok ok regions s' \<and> (r, k, 2 * i) \<notin> live_blocks s \<and>
    live_blocks s' = insert (r, k, 2 * i) (live_blocks s - {(r, Suc k, i)}) \<and> block_range s' = block_range s \<and> block_range s' (r, k, 2 * i) = {unat p ..< unat p + 2 ^ (12 + k)}"
proof -
  obtain c where c: "records s r = Some c" "in_use c \<noteq> 0" "(Suc k, i) \<in> given_out c" using liveE [OF b] by metis
  note C = buddy_record [OF s c(1,2), THEN conjunct1]
  have k: "Suc k \<le> 6" "i < 2 ^ (7 - Suc k)" using live_block [OF s b] by simp_all
  have i: "i < 64" using tile_bound_pos [OF k(2)] by simp
  have B: "unat (chunk c) + i * 2 ^ (12 + Suc k) = unat p" "unat p \<in> {unat (chunk c) + i * 2 ^ (12 + Suc k) ..< unat (chunk c) + Suc i * 2 ^ (12 + Suc k)}"
  proof -
    have "{unat (chunk c) + i * 2 ^ (12 + Suc k) ..< unat (chunk c) + Suc i * 2 ^ (12 + Suc k)} = {unat p ..< unat p + 2 ^ (12 + Suc k)}"
      using p c(1) by (simp add: block_range_def)
    moreover have lt: "unat (chunk c) + i * 2 ^ (12 + Suc k) < unat (chunk c) + Suc i * 2 ^ (12 + Suc k)" by simp
    moreover have "unat p < unat p + 2 ^ (12 + Suc k)" by simp
    ultimately show "unat (chunk c) + i * 2 ^ (12 + Suc k) = unat p" by (rule atLeastLessThan_inj(1))
    then show "unat p \<in> {unat (chunk c) + i * 2 ^ (12 + Suc k) ..< unat (chunk c) + Suc i * 2 ^ (12 + Suc k)}" using lt by (metis atLeastLessThan_iff order_refl)
  qed
  define c' where "c' = set_second_half k (of_nat i) (add_avail k 1 (put_split (Suc k) (splits c (Suc k) OR bit_at (of_nat i)) c))"
  note C' = chunk_split [OF C c(3), folded c'_def]
  have rest: "in_use c' = in_use c" "chunk c' = chunk c" "chunk_mmap_ctx c' = chunk_mmap_ctx c" "avail_num c' = (avail_num c)(k := avail_num c k + 1)"
    by (simp_all add: c'_def second_half [OF i])
  have "(k, Suc (2 * i)) \<in> frees c'"
    unfolding c'_def second_half [OF i] using tile_ok_halves [of k i] k by (subst set_block_frees) (simp_all add: tile_ok_def)
  then have "avail_num c' k \<noteq> 0" using counts_step [OF C'] k by simp
  then obtain l where l: "push_avail k r (set_record s r c') = Some (put_avail (set_record s r c') k l)" "avail_ok (put_avail (set_record s r c') k l) k"
    using push_avail_ok [OF buddy_avail [OF s] c(1), of k c'] rest(4) k by auto
  define s' where "s' = put_avail (set_record s r c') k l"
  have run: "split_block k r p s = Some (Some (r, p), s')"
    by (simp add: split_block_def c(1) block_idx [OF k B(2)] put_record_eq [OF c(1)] c'_def [symmetric] l(1) s'_def)
  have G: "buddy_ok ok regions s'" "live_blocks s' = live_blocks s - {r} \<times> given_out c \<union> {r} \<times> insert (k, 2 * i) (given_out c - {(Suc k, i)})" "block_range s' = block_range s"
    using record_change [OF s c(1,2) C' rest(1-3) _ l(2)] rest(4) unfolding s'_def by auto
  have "(k, 2 * i) \<notin> frees c \<union> given_out c" using C c(3) tiling_split(2) [of "frees c \<union> given_out c" k i] by (simp add: chunk_state_ok_def)
  then have "(r, k, 2 * i) \<notin> live_blocks s" using c(1) by (auto simp: live_blocks_def)
  moreover have "live_blocks s' = insert (r, k, 2 * i) (live_blocks s - {(r, Suc k, i)})" using c(1,2) unfolding G(2) by (auto simp: live_blocks_def)
  moreover have "block_range s' (r, k, 2 * i) = {unat p ..< unat p + 2 ^ (12 + k)}" unfolding G(3)
    by (rule block_range_eq [OF c(1)]) (use B(1) in \<open>simp add: power_add algebra_simps\<close>)
  ultimately show ?thesis using run G(1,3) by blast
qed

lemma alloc_block_ok:
  assumes u: "alloc_spec ok regions credit (Suc k) upper" and k: "k < 6"
  shows "alloc_spec ok regions credit k (alloc_block k upper)"
  unfolding alloc_spec_def
proof (intro allI impI)
  fix s assume s: "buddy_ok ok regions s"
  have k6: "k \<le> 6" using k by simp
  show "\<exists>res s'. alloc_block k upper s = Some (res, s') \<and> buddy_ok ok regions s' \<and> alloc_step k s res s' \<and> (1 < credit (mmap_arena s) \<longrightarrow> res \<noteq> None)"
  proof (cases "list_head (avail_list s k)")
    case (Some r)
    then show ?thesis using take_block_ok [OF s k6 Some] by (auto simp: alloc_block_def)
  next
    case None
    obtain res s1 where u: "upper s = Some (res, s1)" "buddy_ok ok regions s1" "alloc_step (Suc k) s res s1" "1 < credit (mmap_arena s) \<Longrightarrow> res \<noteq> None"
      using u s unfolding alloc_spec_def by blast
    show ?thesis
    proof (cases res)
      case None': None
      have "j < k" if "records s r = Some c" "(j, n) \<in> frees c" for r c j n
      proof -
        have "\<forall>r c j i. records s r = Some c \<longrightarrow> (j, i) \<in> frees c \<longrightarrow> j < Suc k" using u(3) unfolding None' alloc_step_def by simp
        then have "j < Suc k" using that by blast
        moreover have "j \<noteq> k" using no_avail [OF s k6 None that(1)] that(2) by blast
        ultimately show ?thesis by simp
      qed
      then have "alloc_step k s None s1" using u(3) unfolding None' alloc_step_def by auto
      then show ?thesis using u(1,2,4) None None' by (auto simp: alloc_block_def)
    next
      case (Some rp)
      obtain r p where rp: "rp = (r, p)" by (cases rp)
      obtain i where i: "(r, Suc k, i) \<notin> live_blocks s" "live_blocks s1 = insert (r, Suc k, i) (live_blocks s)" "block_range s1 (r, Suc k, i) = {unat p ..< unat p + 2 ^ (12 + Suc k)}"
        "same_ranges (live_blocks s) s s1" using u(3) unfolding Some rp alloc_step_def by auto
      have m: "(r, Suc k, i) \<in> live_blocks s1" using i(2) by simp
      obtain s' where s': "split_block k r p s1 = Some (Some (r, p), s')" "buddy_ok ok regions s'" "(r, k, 2 * i) \<notin> live_blocks s1"
        "live_blocks s' = insert (r, k, 2 * i) (live_blocks s1 - {(r, Suc k, i)})" "block_range s' = block_range s1" "block_range s' (r, k, 2 * i) = {unat p ..< unat p + 2 ^ (12 + k)}"
        using split_block_ok [OF u(2) m i(3)] by blast
      have "live_blocks s' = insert (r, k, 2 * i) (live_blocks s)" using s'(4) i(1,2) by auto
      moreover have "(r, k, 2 * i) \<notin> live_blocks s" using s'(3) i(2) by auto
      moreover have "same_ranges (live_blocks s) s s'" using i(4) s'(5) by (simp add: same_ranges_def)
      ultimately have "alloc_step k s (Some (r, p)) s'" using s'(6) by (intro alloc_stepI)
      then show ?thesis using None u(1) Some rp s'(1,2) by (auto simp: alloc_block_def)
    qed
  qed
qed

section \<open>Deallocation\<close>

lemma give_block_ok:
  assumes s: "buddy_ok ok regions s" and b: "(r, k, i) \<in> live_blocks s" and c: "records s r = Some c" and t: "k < 6 \<Longrightarrow> (k, twin i) \<notin> frees c"
  shows "\<exists>s'. give_block k (of_nat i) r s = Some s' \<and> buddy_ok ok regions s' \<and> free_step (r, k, i) s s'"
proof -
  have u: "in_use c \<noteq> 0" "(k, i) \<in> given_out c" using liveE [OF b] c by force+
  note C = buddy_record [OF s c u(1), THEN conjunct1]
  have k: "k \<le> 6" "i < 2 ^ (7 - k)" using live_block [OF s b] by simp_all
  define c' where "c' = add_avail k 1 (set_block k (of_nat i) c)"
  note C' = chunk_give [OF C u(2) t, folded c'_def]
  have "(k, i) \<in> frees c'" unfolding c'_def using k by (simp add: set_block_frees)
  then have "avail_num c' k \<noteq> 0" using counts_step [OF C' k(1)] by simp
  then obtain l where l: "push_avail k r (set_record s r c') = Some (put_avail (set_record s r c') k l)" "avail_ok (put_avail (set_record s r c') k l) k"
    using push_avail_ok [OF buddy_avail [OF s k(1)] c, of c'] by (auto simp: c'_def)
  define s' where "s' = put_avail (set_record s r c') k l"
  have run: "give_block k (of_nat i) r s = Some s'" using l(1) by (simp add: give_block_def put_record_eq [OF c] c'_def s'_def)
  have G: "buddy_ok ok regions s'" "live_blocks s' = live_blocks s - {r} \<times> given_out c \<union> {r} \<times> (given_out c - {(k, i)})" "block_range s' = block_range s"
    using record_change [OF s c u(1) C' _ _ _ _ l(2)] unfolding s'_def by (auto simp: c'_def)
  have "live_blocks s' = live_blocks s - {(r, k, i)}" using c u(1) unfolding G(2) by (auto simp: live_blocks_def)
  then show ?thesis using run G(1,3) by (auto simp: free_step_def same_ranges_def)
qed

lemma release_block_ok:
  assumes up: "free_spec ok regions (Suc k) upper" and k: "k < 6"
  shows "free_spec ok regions k (release_block k upper)"
  unfolding free_spec_def
proof (intro allI impI)
  fix s r i and p :: u64
  assume s: "buddy_ok ok regions s" and b: "(r, k, i) \<in> live_blocks s" and p: "unat p \<in> block_range s (r, k, i)"
  obtain c where c: "records s r = Some c" "in_use c \<noteq> 0" "(k, i) \<in> given_out c" using liveE [OF b] by metis
  note C = buddy_record [OF s c(1,2), THEN conjunct1]
  have k: "k \<le> 6" "k < 6" "i < 2 ^ (7 - k)" using live_block [OF s b] k by simp_all
  have idx: "BUDDY_BLOCK_IDX c p k = of_nat i" using p c(1) by (intro block_idx [OF k(1,3)]) (simp add: block_range_def)
  show "\<exists>s'. release_block k upper p r s = Some s' \<and> buddy_ok ok regions s' \<and> free_step (r, k, i) s s'"
  proof (cases "(k, twin i) \<in> frees c")
    case False
    obtain s' where "give_block k (of_nat i) r s = Some s'" "buddy_ok ok regions s'" "free_step (r, k, i) s s'" using give_block_ok [OF s b c(1) False] by blast
    then show ?thesis using False by (simp add: release_block_def c(1) idx test_block_iff [OF k(1,3)] Let_def)
  next
    case True
    let ?h = "i div 2"
    have h: "?h < 2 ^ (7 - Suc k)" "Suc k \<le> 6" using tile_ok_parent [of k i] k by (simp_all add: tile_ok_def)
    have db: "drop_bit 1 (of_nat i :: u32) = of_nat ?h" using tile_bound [OF k(3)]
      by (simp add: word_unat_eq_iff unat_drop_bit_eq drop_bit_eq_div [of _ i] drop_bit_eq_div [of _ "unat (of_nat i :: u32)"] u32_nat)
    define c1 where "c1 = add_avail k (- 1) (clear_buddy k (of_nat i) (of_nat i XOR 1) c)"
    define c' where "c' = put_split (Suc k) (splits c (Suc k) AND NOT (bit_at (of_nat ?h))) c1"
    note C' = chunk_merge [OF C c(3) True k(2), folded c1_def, folded c'_def]
    have rest: "in_use c' = in_use c" "chunk c' = chunk c" "chunk_mmap_ctx c' = chunk_mmap_ctx c" "avail_num c' = (avail_num c)(k := avail_num c k - 1)"
      "avail_num c1 = avail_num c'" "splits c1 = splits c"
      by (simp_all add: c'_def c1_def)
    have a: "avail_num c k \<noteq> 0" using counts_step [OF C k(1) True] .
    obtain l where run: "remove_buddy k (of_nat i) (of_nat i XOR 1) r s = Some (put_avail (set_record s r c1) k l)" and l: "avail_ok (put_avail (set_record s r c') k l) k"
    proof (cases "avail_num c' k = 0")
      case True
      obtain prv nxt head where "unlink (valid_rec (set_record s r c')) r (avail_list s k) = Some (prv, nxt, head)"
        "avail_ok (put_avail (set_record s r c') k (prv(r := None), nxt(r := None), head)) k" using avail_unlink [OF buddy_avail [OF s k(1)] c(1) a True] by blast
      then show ?thesis using True unfolding valid_set_record [OF c(1)]
        by (intro that [of "(prv(r := None), nxt(r := None), head)"])
          (simp_all add: remove_buddy_def put_record_eq [OF c(1)] c1_def [symmetric] rest(5) valid_set_record [OF c(1), simplified] del: add_avail_simps)
    next
      case False
      have "avail_ok (set_record s r c') k" using avail_same [OF buddy_avail [OF s k(1)] c(1)] False a by simp
      then show ?thesis using False
        by (intro that [of "avail_list s k"]) (simp_all add: remove_buddy_def put_record_eq [OF c(1)] c1_def [symmetric] rest(5) del: add_avail_simps)
    qed
    define s2 where "s2 = put_avail (set_record s r c') k l"
    have G: "buddy_ok ok regions s2" "live_blocks s2 = live_blocks s - {r} \<times> given_out c \<union> {r} \<times> insert (Suc k, ?h) (given_out c - {(k, i)})" "block_range s2 = block_range s"
      using record_change [OF s c(1,2) C' rest(1-3) _ l] rest(4) unfolding s2_def by auto
    have r2: "records (put_avail (set_record s r c1) k l) r = Some c1" by simp
    have put: "put_record (put_avail (set_record s r c1) k l) r (\<lambda>c. put_split (Suc k) (splits c (Suc k) AND NOT (bit_at (drop_bit 1 (of_nat i)))) c) = Some s2"
      unfolding put_record_eq [OF r2] db s2_def by (simp add: put_avail_def c'_def rest(6))
    have no: "(r, Suc k, ?h) \<notin> live_blocks s"
      using C c(1,3) True tiling_merge(2) [of "frees c \<union> given_out c" k i] k by (auto simp: chunk_state_ok_def live_blocks_def)
    have L: "live_blocks s2 = insert (r, Suc k, ?h) (live_blocks s - {(r, k, i)})" using c(1,2) unfolding G(2) by (auto simp: live_blocks_def)
    define q where "q = BUDDY_IDX_BLOCK c (of_nat ?h) (Suc k)"
    have "unat q = unat (chunk c) + ?h * 2 ^ (12 + Suc k)" unfolding q_def using idx_block [OF h(2,1), of c] chunk_bound [OF s c(1,2)] by simp
    then have "block_range s (r, Suc k, ?h) = {unat q ..< unat q + 2 ^ (12 + Suc k)}" by (rule block_range_eq [OF c(1)])
    then have "unat q \<in> block_range s2 (r, Suc k, ?h)" unfolding G(3) by simp
    then obtain s' where s': "upper q r s2 = Some s'" "buddy_ok ok regions s'" "free_step (r, Suc k, ?h) s2 s'" using up G(1) L unfolding free_spec_def by blast
    have "free_step (r, k, i) s s'" using s'(3) no unfolding free_step_def L same_ranges_def G(3) by auto
    moreover have "release_block k upper p r s = Some s'"
      using True s'(1) run put by (simp add: release_block_def c(1) idx test_block_iff [OF k(1,3)] Let_def db [unfolded One_nat_def] q_def [symmetric])
    ultimately show ?thesis using s'(2) by blast
  qed
qed

end

end
