(* ===== verification/BuddyArena.thy ===== *)
theory BuddyArena
  imports BuddyRun
begin

text \<open>
  Records and chunks come and go: groups of records, the list of empty records, and the functions of order 6.

  Chunks are set up and taken down, and all seven pairs of functions meet their specification.
\<close>

section \<open>All records but one\<close>

text \<open>The invariant without the record \<open>r\<close>, which is being set up or taken down.\<close>

definition avail_but :: "nat \<Rightarrow> 'm buddy_arena \<Rightarrow> nat \<Rightarrow> bool" where
  "avail_but r s k \<longleftrightarrow> (\<exists>xs. in_links (valid_rec s) xs (avail_list s k) \<and> set xs = {q. q \<noteq> r \<and> (\<exists>c. records s q = Some c \<and> avail_num c k \<noteq> 0)} \<and>
     (\<forall>q. q \<noteq> r \<longrightarrow> q \<notin> set xs \<longrightarrow> valid_rec s q \<longrightarrow> fst (avail_list s k) q = None))"

definition rest_ok :: "('m \<Rightarrow> bool) \<Rightarrow> ('m \<Rightarrow> region_map) \<Rightarrow> nat \<Rightarrow> 'm buddy_arena \<Rightarrow> bool" where
  "rest_ok ok regions r s \<longleftrightarrow> ok (mmap_arena s) \<and> groups_ok (regions (mmap_arena s)) s \<and> valid_rec s r \<and>
     (\<exists>es. in_links (valid_rec s) es (empty_list s) \<and> set es = {q. q \<noteq> r \<and> (\<exists>c. records s q = Some c \<and> in_use c = 0)}) \<and>
     (\<forall>k \<le> 6. avail_but r s k) \<and>
     (\<forall>q c. q \<noteq> r \<longrightarrow> records s q = Some c \<longrightarrow> record_ok (regions (mmap_arena s)) c) \<and>
     (\<forall>q c q' c'. q \<noteq> r \<longrightarrow> q' \<noteq> r \<longrightarrow> records s q = Some c \<longrightarrow> records s q' = Some c' \<longrightarrow> in_use c \<noteq> 0 \<longrightarrow> in_use c' \<noteq> 0 \<longrightarrow>
        chunk_mmap_ctx c = chunk_mmap_ctx c' \<longrightarrow> q = q')"

lemma zero_links_simps: "zero_links R (prv, nxt, head) = (\<lambda>r. if r \<in> R then None else prv r, \<lambda>r. if r \<in> R then None else nxt r, head)"
  by (simp add: zero_links_def)

lemma in_links_zero:
  assumes "in_links valid xs l" "set xs \<inter> R = {}" "\<And>x. x \<in> set xs \<Longrightarrow> valid x \<Longrightarrow> valid' x"
  shows "in_links valid' xs (zero_links R l)"
proof -
  obtain prv nxt head where l: "l = (prv, nxt, head)" using links_cases by blast
  show ?thesis unfolding l zero_links_simps by (rule in_links_cong [OF assms(1) [unfolded l] assms(3)]) (use assms(2) in auto)
qed

lemma fst_zero_links: "fst (zero_links R l) q = (if q \<in> R then None else fst l q)"
  by (simp add: zero_links_def split: prod.split)

lemma groups_cong:
  "groups_ok reg s \<Longrightarrow> group_mmap_ctx s' = group_mmap_ctx s \<Longrightarrow> group_list s' = group_list s \<Longrightarrow> valid_rec s' = valid_rec s \<Longrightarrow> groups_ok reg s'"
proof -
  assume a: "groups_ok reg s" "group_mmap_ctx s' = group_mmap_ctx s" "group_list s' = group_list s" "valid_rec s' = valid_rec s"
  have "valid_rec s' r \<longleftrightarrow> valid_rec s r" for r using fun_cong [OF a(4)] .
  then show "groups_ok reg s'" using a(1-3) unfolding groups_ok_def by simp
qed

text \<open>A record that is given back.\<close>

lemma free_record_ok:
  assumes t: "rest_ok ok regions r t"
  shows "\<exists>s. free_buddy_chunk_state r t = Some s \<and> buddy_ok ok regions (s\<lparr>chunk_num := of_nat (card (used_records t - {r}))\<rparr>) \<and>
    chunk_num s = chunk_num t \<and> live_blocks s = {(q, b) \<in> live_blocks t. q \<noteq> r} \<and> (\<forall>q. q \<noteq> r \<longrightarrow> records s q = records t q)"
proof -
  have T: "ok (mmap_arena t)" "groups_ok (regions (mmap_arena t)) t" "valid_rec t r" "\<And>k. k \<le> 6 \<Longrightarrow> avail_but r t k"
    "\<And>q c. q \<noteq> r \<Longrightarrow> records t q = Some c \<Longrightarrow> record_ok (regions (mmap_arena t)) c"
    "\<And>q c q' c'. q \<noteq> r \<Longrightarrow> q' \<noteq> r \<Longrightarrow> records t q = Some c \<Longrightarrow> records t q' = Some c' \<Longrightarrow> in_use c \<noteq> 0 \<Longrightarrow> in_use c' \<noteq> 0 \<Longrightarrow> chunk_mmap_ctx c = chunk_mmap_ctx c' \<Longrightarrow> q = q'"
    using t unfolding rest_ok_def by blast+
  obtain es where es: "in_links (valid_rec t) es (empty_list t)" "set es = {q. q \<noteq> r \<and> (\<exists>c. records t q = Some c \<and> in_use c = 0)}" using t unfolding rest_ok_def by blast
  obtain c where c: "records t r = Some c" using T(3) by blast
  define t1 where "t1 = (set_record t r zero_record)\<lparr>empty_list := zero_links {r} (empty_list t), avail_list := (\<lambda>k. zero_links {r} (avail_list t k))\<rparr>"
  have v: "valid_rec t1 = valid_rec t" using valid_set_record [OF c] by (simp add: t1_def)
  obtain prv nxt head where l: "zero_links {r} (empty_list t) = (prv, nxt, head)" using links_cases by blast
  have pl: "in_links (valid_rec t1) es (prv, nxt, head)" unfolding l [symmetric] v by (rule in_links_zero [OF es(1)]) (use es(2) in auto)
  have pn: "prv r = None" using fst_zero_links [of "{r}" "empty_list t" r] unfolding l by simp
  have vr: "valid_rec t1 r" "r \<notin> set es" using fun_cong [OF v, of r] T(3) es(2) by blast+
  obtain prv' nxt' where p: "push_front (valid_rec t1) r (prv, nxt, head) = Some (prv', nxt', Some r)" "in_links (valid_rec t1) (r # es) (prv', nxt', Some r)"
    using push_front_ok [OF pl vr pn] by blast
  define s where "s = t1\<lparr>empty_list := (prv', nxt', Some r)\<rparr>"
  have run: "free_buddy_chunk_state r t = Some s"
    using p(1) unfolding free_buddy_chunk_state_def put_record_eq [OF c] Option.bind.bind_lunit Let_def s_def t1_def by (simp add: l)
  have R: "records s = (records t)(r \<mapsto> zero_record)" "mmap_arena s = mmap_arena t" "empty_list s = (prv', nxt', Some r)" "group_mmap_ctx s = group_mmap_ctx t"
    "group_list s = group_list t" "avail_list s = (\<lambda>k. zero_links {r} (avail_list t k))" "chunk_num s = chunk_num t" by (simp_all add: s_def t1_def)
  have v': "valid_rec s = valid_rec t" using v by (simp add: s_def)
  let ?s = "s\<lparr>chunk_num := of_nat (card (used_records t - {r}))\<rparr>"
  have "groups_ok (regions (mmap_arena ?s)) ?s" using groups_cong [OF T(2), of ?s] v' by (simp add: R)
  moreover have "empties_ok ?s"
  proof -
    have "in_links (valid_rec ?s) (r # es) (empty_list ?s)" using p(2) v v' by (simp add: R)
    moreover have "set (r # es) = {q. \<exists>d. records ?s q = Some d \<and> in_use d = 0}" using es(2) by (auto simp: R zero_record_def)
    ultimately show ?thesis unfolding empties_ok_def by blast
  qed
  moreover have "avail_ok ?s k" if "k \<le> 6" for k
  proof -
    note k = that
    obtain xs where xs: "in_links (valid_rec t) xs (avail_list t k)" "set xs = {q. q \<noteq> r \<and> (\<exists>c. records t q = Some c \<and> avail_num c k \<noteq> 0)}"
      "\<And>q. q \<noteq> r \<Longrightarrow> q \<notin> set xs \<Longrightarrow> valid_rec t q \<Longrightarrow> fst (avail_list t k) q = None" using T(4) [OF k] unfolding avail_but_def by blast
    have "in_links (valid_rec ?s) xs (avail_list ?s k)" using in_links_zero [OF xs(1), of "{r}" "valid_rec t"] xs(2) v' by (simp add: R)
    moreover have "set xs = {q. \<exists>d. records ?s q = Some d \<and> avail_num d k \<noteq> 0}" using xs(2) by (auto simp: R zero_record_def)
    moreover have "fst (avail_list ?s k) q = None" if "q \<notin> set xs" "valid_rec ?s q" for q
      using xs(3) [of q] that by (auto simp: R fst_zero_links split: if_splits)
    ultimately show ?thesis unfolding avail_ok_def by blast
  qed
  moreover have "chunks_ok (regions (mmap_arena ?s)) ?s"
  proof (rule chunks_okI)
    show "record_ok (regions (mmap_arena ?s)) d" if "records ?s q = Some d" for q d
      using that T(5) [of q d] by (cases "q = r") (simp_all add: R record_ok_def frees_zero)
    show "q = q'" if "records ?s q = Some d" "records ?s q' = Some d'" "in_use d \<noteq> 0" "in_use d' \<noteq> 0" "chunk_mmap_ctx d = chunk_mmap_ctx d'" for q d q' d'
    proof -
      have "q \<noteq> r" "q' \<noteq> r" using that(1-4) by (auto simp: R frees_zero)
      then show ?thesis using T(6) [of q q' d d'] that by (simp add: R)
    qed
  qed
  moreover have "used_records ?s = used_records t - {r}" by (auto simp: used_records_def R frees_zero)
  ultimately have "buddy_ok ok regions ?s" using T(1) unfolding buddy_ok_def by (simp add: R)
  moreover have "live_blocks s = {(q, b) \<in> live_blocks t. q \<noteq> r}" by (auto simp: live_blocks_def R frees_zero split: if_splits)
  ultimately show ?thesis using run R(1,7) by auto
qed

section \<open>Groups of records\<close>

lemma group_size [simp]: "BUDDY_RECORDS_PER_GROUP = 20"
  by (simp add: BUDDY_RECORDS_PER_GROUP_def)

lemma record_at_inj [simp]: "record_at g i = record_at g j \<longleftrightarrow> i = j"
  by (simp add: record_at_def)

lemma fold_links: "distinct is \<Longrightarrow> fold (\<lambda>i f. f(record_at g i := b i)) is f (record_at g j) = (if j \<in> set is then b j else f (record_at g j))"
  by (induction "is" arbitrary: f) auto

lemma link_group_ok:
  assumes "prv (record_at g 0) = None" "\<forall>i < 20. valid (record_at g i)"
  shows "\<exists>prv' nxt'. link_group g (prv, nxt, None) = (prv', nxt', None) \<and> in_links valid (map (record_at g) [0..<20]) (prv', nxt', Some (record_at g 0))"
proof -
  obtain prv' nxt' where l: "link_group g (prv, nxt, None) = (prv', nxt', None)" by (simp add: link_group_def Let_def)
  have P: "prv' (record_at g i) = (if i = 0 then None else Some (record_at g (i - 1)))" if "i < 20" for i
    using l that assms(1) by (auto simp: link_group_def Let_def fold_links)
  have N: "nxt' (record_at g i) = (if i = 19 then None else Some (record_at g (i + 1)))" if "i < 20" for i
    using l that by (auto simp: link_group_def Let_def fold_links)
  have "seg prv' nxt' (if n = 0 then None else Some (record_at g (n - 1))) (map (record_at g) [n..<20]) None" if "n \<le> 20" for n
    using that
  proof (induction "20 - n" arbitrary: n)
    case 0
    then show ?case by simp
  next
    case (Suc m)
    then have "n < 20" by simp
    then have "[n..<20] = n # [Suc n..<20]" by (rule upt_conv_Cons)
    moreover have "seg prv' nxt' (Some (record_at g n)) (map (record_at g) [Suc n..<20]) None" using Suc.hyps(1) [of "Suc n"] Suc.hyps(2) by simp
    moreover have "first (map (record_at g) [Suc n..<20]) None = (if n = 19 then None else Some (record_at g (n + 1)))"
      using \<open>n < 20\<close> by (cases "n = 19") (simp_all add: upt_conv_Cons)
    ultimately show ?case using P [OF \<open>n < 20\<close>] N [OF \<open>n < 20\<close>] by (auto simp: Dll.seg.simps)
  qed
  from this [of 0] have "chain prv' nxt' (map (record_at g) [0..<20])" by simp
  moreover have "distinct (map (record_at g) [0..<20])" by (simp add: distinct_map inj_on_def)
  moreover have "first (map (record_at g) [0..<20]) None = Some (record_at g 0)" by (simp add: upt_conv_Cons)
  ultimately have "in_links valid (map (record_at g) [0..<20]) (prv', nxt', Some (record_at g 0))" using assms(2) by (auto simp: in_links_def)
  then show ?thesis using l by blast
qed

section \<open>Regions\<close>

lemma groups_mono: "groups_ok reg s \<Longrightarrow> (\<And>x p. reg x = Some (p, 4096) \<Longrightarrow> reg' x = Some (p, 4096)) \<Longrightarrow> groups_ok reg' s"
  unfolding groups_ok_def by blast

lemma groups_arena [simp]: "groups_ok reg (s\<lparr>mmap_arena := m\<rparr>) = groups_ok reg s" "groups_ok reg (s\<lparr>chunk_num := n\<rparr>) = groups_ok reg s"
  by (simp_all add: groups_ok_def)

lemma record_mono: "record_ok reg c \<Longrightarrow> (in_use c \<noteq> 0 \<Longrightarrow> reg (chunk_mmap_ctx c) = Some (chunk c, 0x80000) \<Longrightarrow> reg' (chunk_mmap_ctx c) = Some (chunk c, 0x80000)) \<Longrightarrow> record_ok reg' c"
  by (simp add: record_ok_def split: if_splits)

lemma arena_simps [simp]:
  "empties_ok (s\<lparr>mmap_arena := m\<rparr>) = empties_ok s" "avail_ok (s\<lparr>mmap_arena := m\<rparr>) k = avail_ok s k" "used_records (s\<lparr>mmap_arena := m\<rparr>) = used_records s"
  "live_blocks (s\<lparr>mmap_arena := m\<rparr>) = live_blocks s" "block_range (s\<lparr>mmap_arena := m\<rparr>) = block_range s"
  "live_blocks (s\<lparr>chunk_num := n\<rparr>) = live_blocks s" "block_range (s\<lparr>chunk_num := n\<rparr>) = block_range s" "used_records (s\<lparr>chunk_num := n\<rparr>) = used_records s"
  by (simp_all add: empties_ok_def avail_ok_def used_records_def live_blocks_def block_range_def fun_eq_iff)

lemma buddy_regions:
  assumes s: "buddy_ok ok regions s" and m: "ok m" "regions (mmap_arena s) \<subseteq>\<^sub>m regions m"
  shows "buddy_ok ok regions (s\<lparr>mmap_arena := m\<rparr>)"
proof -
  let ?s = "s\<lparr>mmap_arena := m\<rparr>"
  have up: "regions (mmap_arena s) x = Some v \<Longrightarrow> regions m x = Some v" for x v using m(2) by (auto simp: map_le_def dom_def)
  have S: "groups_ok (regions (mmap_arena s)) s" "empties_ok s" "\<And>k. k \<le> 6 \<Longrightarrow> avail_ok s k" "chunks_ok (regions (mmap_arena s)) s"
    "chunk_num s = of_nat (card (used_records s))" using s by (simp_all add: buddy_ok_def)
  have "groups_ok (regions m) ?s" using groups_mono [OF S(1) up] by simp
  moreover have "chunks_ok (regions m) ?s"
  proof (rule chunks_okI)
    show "record_ok (regions m) c" if "records ?s q = Some c" for q c
      using record_mono [OF chunks_record [OF S(4)] up] that by simp
    show "q = q'" if "records ?s q = Some d" "records ?s q' = Some d'" "in_use d \<noteq> 0" "in_use d' \<noteq> 0" "chunk_mmap_ctx d = chunk_mmap_ctx d'" for q d q' d'
      using chunks_inj [OF S(4), of q d q' d'] that by simp
  qed
  ultimately show ?thesis using S(2,3,5) m(1) unfolding buddy_ok_def by simp
qed

context page_source
begin

text \<open>The pages of a new group hold no record yet.\<close>

lemma new_group:
  assumes s: "buddy_ok ok regions s" and m: "ok m" "regions (mmap_arena s) x = None" "regions m = (regions (mmap_arena s))(x \<mapsto> (p, 4096))"
  shows "group_mmap_ctx s (unat p) = None" "i < 20 \<Longrightarrow> records s (record_at (unat p) i) = None"
proof -
  have G: "\<exists>q. g = unat q \<and> regions (mmap_arena s) y = Some (q, 4096)" if "group_mmap_ctx s g = Some y" for g y
    using s that by (auto simp: buddy_ok_def groups_ok_def)
  have dis: "region (p, 4096) \<inter> {g ..< g + 4096} = {}" if g: "group_mmap_ctx s g = Some y" for g y
  proof -
    obtain q where q: "g = unat q" "regions (mmap_arena s) y = Some (q, 4096)" using G [OF g] by blast
    then have "x \<noteq> y" using m(2) by auto
    moreover have "regions m y = Some (q, 4096)" "regions m x = Some (p, 4096)" using q(2) \<open>x \<noteq> y\<close> m(3) by auto
    ultimately have "region (p, 4096) \<inter> region (q, 4096) = {}" using region_disjoint [OF m(1)] by blast
    then show ?thesis unfolding q(1) by (simp add: region_def)
  qed
  have in_p: "unat p + j \<in> region (p, 4096)" if "j < 4096" for j using that by (simp add: region_def)
  show "group_mmap_ctx s (unat p) = None"
  proof (rule ccontr)
    assume "group_mmap_ctx s (unat p) \<noteq> None"
    then obtain y where "group_mmap_ctx s (unat p) = Some y" by blast
    then show False using dis [of "unat p" y] in_p [of 0] by auto
  qed
  show "records s (record_at (unat p) i) = None" if i: "i < 20"
  proof (rule ccontr)
    assume "records s (record_at (unat p) i) \<noteq> None"
    then obtain g j y where g: "group_mmap_ctx s g = Some y" "j < 20" "record_at (unat p) i = record_at g j"
      using s by (auto simp: buddy_ok_def groups_ok_def)
    have "record_at (unat p) i \<in> region (p, 4096)" using in_p [of "24 + 200 * i"] i by (simp add: record_at_def add.assoc)
    moreover have "record_at (unat p) i \<in> {g ..< g + 4096}" unfolding g(3) using g(2) by (simp add: record_at_def)
    ultimately show False using dis [OF g(1)] by blast
  qed
qed

lemma alloc_group_ok:
  assumes s: "buddy_ok ok regions s" and e: "list_head (empty_list s) = None"
  shows "\<exists>s'. allocate_buddy_chunk_state_group P s = Some s' \<and> buddy_ok ok regions s' \<and> (\<forall>r c. records s r = Some c \<longrightarrow> records s' r = Some c) \<and>
    live_blocks s' = live_blocks s \<and> (0 < credit (mmap_arena s) \<longrightarrow> list_head (empty_list s') \<noteq> None) \<and> credit (mmap_arena s) \<le> Suc (credit (mmap_arena s'))"
proof -
  obtain res m where a: "page_alloc P 4096 (mmap_arena s) = Some (res, m)" "ok m"
    "case res of None \<Rightarrow> regions m = regions (mmap_arena s) | Some (p, x) \<Rightarrow> regions (mmap_arena s) x = None \<and> regions m = (regions (mmap_arena s))(x \<mapsto> (p, 4096))"
    "0 < credit (mmap_arena s) \<Longrightarrow> res \<noteq> None" "credit (mmap_arena s) \<le> Suc (credit m)"
    using page_alloc_ok [of "mmap_arena s" 4096] s by (auto simp: buddy_ok_def)
  show ?thesis
  proof (cases res)
    case None
    then show ?thesis using a buddy_regions [OF s a(2)] by (intro exI [of _ "s\<lparr>mmap_arena := m\<rparr>"]) (auto simp: allocate_buddy_chunk_state_group_def)
  next
    case (Some px)
    obtain p x where px: "px = (p, x)" by (cases px)
    have m: "regions (mmap_arena s) x = None" "regions m = (regions (mmap_arena s))(x \<mapsto> (p, 4096))" using a(3) by (simp_all add: Some px)
    have up: "regions (mmap_arena s) y = Some v \<Longrightarrow> regions m y = Some v" for y v using m by auto
    define g where "g = unat p"
    have new: "group_mmap_ctx s g = None" "i < 20 \<Longrightarrow> records s (record_at g i) = None" for i using new_group [OF s a(2) m] by (simp_all add: g_def)
    define R where "R = set (map (record_at g) [0..<20])"
    have R: "r \<in> R \<longleftrightarrow> (\<exists>i < 20. r = record_at g i)" for r by (auto simp: R_def)
    have oldR: "records s r = Some c \<Longrightarrow> r \<notin> R" for r c using new(2) by (auto simp: R)
    have S: "groups_ok (regions (mmap_arena s)) s" "empties_ok s" "\<And>k. k \<le> 6 \<Longrightarrow> avail_ok s k" "chunks_ok (regions (mmap_arena s)) s"
      "chunk_num s = of_nat (card (used_records s))" using s by (simp_all add: buddy_ok_def)
    obtain gs where gs: "in_links (\<lambda>g. group_mmap_ctx s g \<noteq> None) gs (group_list s)" "set gs = dom (group_mmap_ctx s)" using S(1) unfolding groups_ok_def by blast
    obtain gprv gnxt ghead where gl: "zero_links {g} (group_list s) = (gprv, gnxt, ghead)" using links_cases by blast
    have gz: "in_links (\<lambda>h. ((group_mmap_ctx s)(g \<mapsto> x)) h \<noteq> None) gs (gprv, gnxt, ghead)"
      unfolding gl [symmetric] by (rule in_links_zero [OF gs(1)]) (use gs(2) new(1) in auto)
    have gp: "gprv g = None" using fst_zero_links [of "{g}" "group_list s" g] unfolding gl by simp
    have gn: "((group_mmap_ctx s)(g \<mapsto> x)) g \<noteq> None" "g \<notin> set gs" using gs(2) new(1) by auto
    obtain gprv' gnxt' where push: "push_front (\<lambda>h. ((group_mmap_ctx s)(g \<mapsto> x)) h \<noteq> None) g (gprv, gnxt, ghead) = Some (gprv', gnxt', Some g)"
      "in_links (\<lambda>h. ((group_mmap_ctx s)(g \<mapsto> x)) h \<noteq> None) (g # gs) (gprv', gnxt', Some g)"
      using push_front_ok [OF gz gn gp] by blast
    obtain es where es: "in_links (valid_rec s) es (empty_list s)" "set es = {r. \<exists>c. records s r = Some c \<and> in_use c = 0}" using S(2) unfolding empties_ok_def by blast
    obtain eprv enxt where el: "empty_list s = (eprv, enxt, None)" using links_cases [of "empty_list s"] e by (auto simp: list_head_def)
    have es0: "set es = {}" using in_links_None [OF es(1) [unfolded el]] by simp
    obtain zprv znxt where ez: "zero_links R (empty_list s) = (zprv, znxt, None)" by (simp add: el zero_links_simps)
    have zp: "zprv (record_at g 0) = None" using fst_zero_links [of R "empty_list s" "record_at g 0"] R [of "record_at g 0"] unfolding ez by auto
    define rs where "rs = (\<lambda>r. if r \<in> R then Some zero_record else records s r)"
    have vR: "\<forall>i < 20. rs (record_at g i) \<noteq> None" by (auto simp: rs_def R)
    obtain eprv' enxt' where link: "link_group g (zprv, znxt, None) = (eprv', enxt', None)"
      "in_links (\<lambda>r. rs r \<noteq> None) (map (record_at g) [0..<20]) (eprv', enxt', Some (record_at g 0))"
      using link_group_ok [of zprv g "\<lambda>r. rs r \<noteq> None" znxt, OF zp vR] by blast
    define s' where "s' = s\<lparr>mmap_arena := m, group_mmap_ctx := (group_mmap_ctx s)(g \<mapsto> x), group_list := (gprv', gnxt', Some g), records := rs,
      empty_list := (eprv', enxt', Some (record_at g 0)), avail_list := (\<lambda>k. zero_links R (avail_list s k))\<rparr>"
    have run: "allocate_buddy_chunk_state_group P s = Some s'"
      unfolding allocate_buddy_chunk_state_group_def a(1) Some px Option.bind.bind_lunit prod.case option.case Let_def group_size g_def [symmetric] R_def [symmetric]
      by (simp add: gl ez link(1) push(1) [simplified] s'_def rs_def)
    have r': "records s' = rs" "mmap_arena s' = m" "group_list s' = (gprv', gnxt', Some g)" "group_mmap_ctx s' = (group_mmap_ctx s)(g \<mapsto> x)"
      "empty_list s' = (eprv', enxt', Some (record_at g 0))" "avail_list s' = (\<lambda>k. zero_links R (avail_list s k))" "chunk_num s' = chunk_num s" by (simp_all add: s'_def)
    have keep: "records s r = Some c \<Longrightarrow> rs r = Some c" for r c using oldR by (simp add: rs_def)
    have inv: "rs r = Some c \<Longrightarrow> c = zero_record \<and> r \<in> R \<or> records s r = Some c" for r c by (auto simp: rs_def split: if_splits)
    have "groups_ok (regions m) s'"
    proof -
      have "\<exists>q. h = unat q \<and> regions m y = Some (q, 4096)" if "group_mmap_ctx s' h = Some y" for h y
      proof (cases "h = g")
        case True
        then show ?thesis using that m(2) by (auto simp: r' g_def)
      next
        case False
        then have "group_mmap_ctx s h = Some y" using that by (simp add: r')
        then obtain q where "h = unat q" "regions (mmap_arena s) y = Some (q, 4096)" using S(1) unfolding groups_ok_def by blast
        then show ?thesis using up by blast
      qed
      moreover have "rs r \<noteq> None \<longleftrightarrow> (\<exists>h i. group_mmap_ctx s' h \<noteq> None \<and> i < 20 \<and> r = record_at h i)" for r
      proof -
        have "records s r \<noteq> None \<longleftrightarrow> (\<exists>h i. group_mmap_ctx s h \<noteq> None \<and> i < 20 \<and> r = record_at h i)" using S(1) unfolding groups_ok_def by simp
        then show ?thesis by (auto simp: rs_def r' R)
      qed
      moreover have "set (g # gs) = dom (group_mmap_ctx s')" using gs(2) by (auto simp: r')
      moreover have "in_links (\<lambda>h. group_mmap_ctx s' h \<noteq> None) (g # gs) (group_list s')" using push(2) by (simp only: r')
      ultimately show ?thesis unfolding groups_ok_def r'(1) group_size by blast
    qed
    moreover have "empties_ok s'"
    proof -
      have "set (map (record_at g) [0..<20]) = {r. \<exists>c. records s' r = Some c \<and> in_use c = 0}"
        using es(2) es0 by (auto simp: r'(1) rs_def R frees_zero split: if_splits)
      then show ?thesis using link(2) unfolding empties_ok_def r' by blast
    qed
    moreover have "avail_ok s' k" if k: "k \<le> 6" for k
    proof -
      obtain xs where xs: "in_links (valid_rec s) xs (avail_list s k)" "set xs = {r. \<exists>c. records s r = Some c \<and> avail_num c k \<noteq> 0}"
        "\<And>r. r \<notin> set xs \<Longrightarrow> valid_rec s r \<Longrightarrow> fst (avail_list s k) r = None" using S(3) [OF k] unfolding avail_ok_def by blast
      have "in_links (valid_rec s') xs (avail_list s' k)" unfolding r' using oldR keep xs(2) by (intro in_links_zero [OF xs(1)]) auto
      moreover have "set xs = {r. \<exists>c. records s' r = Some c \<and> avail_num c k \<noteq> 0}"
        using xs(2) keep inv by (auto simp: r'(1) frees_zero) (metis frees_zero(3))
      moreover have "fst (avail_list s' k) r = None" if "r \<notin> set xs" "valid_rec s' r" for r
        using xs(3) [of r] that by (auto simp: r' rs_def fst_zero_links split: if_splits)
      ultimately show ?thesis unfolding avail_ok_def by blast
    qed
    moreover have "chunks_ok (regions m) s'"
    proof (rule chunks_okI)
      show "record_ok (regions m) c" if "records s' r = Some c" for r c
      proof (cases "records s r = Some c")
        case True
        then show ?thesis using record_mono [OF chunks_record [OF S(4)] up] by simp
      next
        case False
        then have "c = zero_record" using inv [of r c] that by (simp add: r'(1))
        then show ?thesis by (simp add: record_ok_def frees_zero)
      qed
      show "q = q'" if "records s' q = Some d" "records s' q' = Some d'" "in_use d \<noteq> 0" "in_use d' \<noteq> 0" "chunk_mmap_ctx d = chunk_mmap_ctx d'" for q d q' d'
      proof -
        have "records s q = Some d" "records s q' = Some d'" using inv [of q d] inv [of q' d'] that by (auto simp: r'(1) frees_zero)
        then show ?thesis using chunks_inj [OF S(4), of q d q' d'] that by simp
      qed
    qed
    moreover have "used_records s' = used_records s"
      using keep inv unfolding used_records_def r'(1) by (auto simp: frees_zero) (metis frees_zero(5))
    moreover have "live_blocks s' = live_blocks s"
      using keep inv unfolding live_blocks_def r'(1) by (auto simp: frees_zero) (metis frees_zero(5))
    ultimately show ?thesis using run a(2,5) S(5) keep unfolding buddy_ok_def by (intro exI [of _ s']) (simp add: r'(1,2,5,7) list_head_def)
  qed
qed

end

section \<open>A record for a new chunk\<close>

lemma rest_okI:
  assumes "ok (mmap_arena t)" "groups_ok (regions (mmap_arena t)) t" "valid_rec t r"
    and "\<exists>es. in_links (valid_rec t) es (empty_list t) \<and> set es = {q. q \<noteq> r \<and> (\<exists>c. records t q = Some c \<and> in_use c = 0)}"
    and "\<And>k. k \<le> 6 \<Longrightarrow> avail_but r t k"
    and "\<And>q c. q \<noteq> r \<Longrightarrow> records t q = Some c \<Longrightarrow> record_ok (regions (mmap_arena t)) c"
    and "\<And>q c q' c'. q \<noteq> r \<Longrightarrow> q' \<noteq> r \<Longrightarrow> records t q = Some c \<Longrightarrow> records t q' = Some c' \<Longrightarrow> in_use c \<noteq> 0 \<Longrightarrow> in_use c' \<noteq> 0 \<Longrightarrow> chunk_mmap_ctx c = chunk_mmap_ctx c' \<Longrightarrow> q = q'"
  shows "rest_ok ok regions r t"
  unfolding rest_ok_def using assms(1-4) by (intro conjI allI impI) ((rule assms(5-7); assumption) | blast)+

lemma rest_okD:
  assumes "rest_ok ok regions r t"
  shows "ok (mmap_arena t)" "groups_ok (regions (mmap_arena t)) t" "valid_rec t r"
    "\<exists>es. in_links (valid_rec t) es (empty_list t) \<and> set es = {q. q \<noteq> r \<and> (\<exists>c. records t q = Some c \<and> in_use c = 0)}"
    "\<And>k. k \<le> 6 \<Longrightarrow> avail_but r t k"
    "\<And>q c. q \<noteq> r \<Longrightarrow> records t q = Some c \<Longrightarrow> record_ok (regions (mmap_arena t)) c"
    "\<And>q c q' c'. q \<noteq> r \<Longrightarrow> q' \<noteq> r \<Longrightarrow> records t q = Some c \<Longrightarrow> records t q' = Some c' \<Longrightarrow> in_use c \<noteq> 0 \<Longrightarrow> in_use c' \<noteq> 0 \<Longrightarrow> chunk_mmap_ctx c = chunk_mmap_ctx c' \<Longrightarrow> q = q'"
  using assms unfolding rest_ok_def by blast+

lemma avail_but_arena [simp]: "avail_but r (s\<lparr>mmap_arena := m\<rparr>) k = avail_but r s k"
  by (simp add: avail_but_def)

lemma rest_regions:
  assumes t: "rest_ok ok regions r t" and m: "ok m" "\<And>x p. regions (mmap_arena t) x = Some (p, 4096) \<Longrightarrow> regions m x = Some (p, 4096)"
    and c: "\<And>q c. q \<noteq> r \<Longrightarrow> records t q = Some c \<Longrightarrow> in_use c \<noteq> 0 \<Longrightarrow> regions (mmap_arena t) (chunk_mmap_ctx c) = Some (chunk c, 0x80000) \<Longrightarrow>
      regions m (chunk_mmap_ctx c) = Some (chunk c, 0x80000)"
  shows "rest_ok ok regions r (t\<lparr>mmap_arena := m\<rparr>)"
proof -
  note T = rest_okD [OF t]
  show ?thesis
  proof (rule rest_okI)
    show "groups_ok (regions (mmap_arena (t\<lparr>mmap_arena := m\<rparr>))) (t\<lparr>mmap_arena := m\<rparr>)" using groups_mono [OF T(2) m(2)] by simp
    show "record_ok (regions (mmap_arena (t\<lparr>mmap_arena := m\<rparr>))) d" if "q \<noteq> r" "records (t\<lparr>mmap_arena := m\<rparr>) q = Some d" for q d
      using record_mono [of "regions (mmap_arena t)" d "regions m"] T(6) [of q d] c [of q d] that by simp
    show "q = q'" if "q \<noteq> r" "q' \<noteq> r" "records (t\<lparr>mmap_arena := m\<rparr>) q = Some d" "records (t\<lparr>mmap_arena := m\<rparr>) q' = Some d'" "in_use d \<noteq> 0" "in_use d' \<noteq> 0"
        "chunk_mmap_ctx d = chunk_mmap_ctx d'" for q d q' d'
      using T(7) [of q q' d d'] that by simp
  qed (use T(3-5) m(1) in simp_all)
qed

lemma buddyD:
  assumes "buddy_ok ok regions s"
  shows "ok (mmap_arena s)" "groups_ok (regions (mmap_arena s)) s" "empties_ok s" "\<And>k. k \<le> 6 \<Longrightarrow> avail_ok s k" "chunks_ok (regions (mmap_arena s)) s"
    "chunk_num s = of_nat (card (used_records s))"
  using assms unfolding buddy_ok_def by blast+

lemma pop_record:
  assumes s: "buddy_ok ok regions s" and h: "list_head (empty_list s) = Some r"
  shows "\<exists>prv nxt head. pop_head (valid_rec s) r (empty_list s) = Some (prv, nxt, head) \<and> records s r = Some zero_record \<and>
    rest_ok ok regions r ((set_record s r (zero_record\<lparr>in_use := 1\<rparr>))\<lparr>empty_list := (prv, nxt(r := None), head)\<rparr>) \<and> (\<forall>k \<le> 6. fst (avail_list s k) r = None)"
proof -
  note S = buddyD [OF s]
  obtain prv nxt where l: "empty_list s = (prv, nxt, Some r)" using links_cases [of "empty_list s"] h by (auto simp: list_head_def)
  obtain ys where ys: "in_links (valid_rec s) ys (prv, nxt, Some r)" "set ys = {r. \<exists>c. records s r = Some c \<and> in_use c = 0}"
    using S(3) unfolding empties_ok_def l by blast
  obtain xs where x: "ys = r # xs" using in_links_first [OF ys(1)] by blast
  obtain prv' where p: "pop_head (valid_rec s) r (prv, nxt, Some r) = Some (prv', nxt, first xs None)" "in_links (valid_rec s) xs (prv', nxt, first xs None)"
    using pop_head_ok [OF ys(1) [unfolded x]] by blast
  have d: "r \<notin> set xs" using ys(1) by (simp add: in_links_def x)
  obtain c where c: "records s r = Some c" "in_use c = 0" using ys(2) by (auto simp: x)
  have z: "records s r = Some zero_record" using chunks_record [OF S(5) c(1)] c by (simp add: record_ok_def)
  let ?t = "(set_record s r (zero_record\<lparr>in_use := 1\<rparr>))\<lparr>empty_list := (prv', nxt(r := None), first xs None)\<rparr>"
  have v: "valid_rec ?t = valid_rec s" using valid_set_record [OF c(1)] by simp
  have zr: "fst (avail_list s k) r = None" if k: "k \<le> 6" for k
  proof -
    obtain as where "set as = {q. \<exists>c. records s q = Some c \<and> avail_num c k \<noteq> 0}" "\<And>q. q \<notin> set as \<Longrightarrow> valid_rec s q \<Longrightarrow> fst (avail_list s k) q = None"
      using S(4) [OF k] unfolding avail_ok_def by blast
    then show ?thesis using z by (simp add: frees_zero)
  qed
  have "rest_ok ok regions r ?t"
  proof (rule rest_okI)
    show "groups_ok (regions (mmap_arena ?t)) ?t" using groups_cong [OF S(2), of ?t] v by simp
    show "\<exists>es. in_links (valid_rec ?t) es (empty_list ?t) \<and> set es = {q. q \<noteq> r \<and> (\<exists>c. records ?t q = Some c \<and> in_use c = 0)}"
    proof (intro exI conjI)
      have "in_links (valid_rec s) xs (prv', nxt(r := None), first xs None)" by (rule in_links_cong [OF p(2)]) (use d in auto)
      then show "in_links (valid_rec ?t) xs (empty_list ?t)" unfolding v by simp
      show "set xs = {q. q \<noteq> r \<and> (\<exists>c. records ?t q = Some c \<and> in_use c = 0)}" using ys(2) d unfolding x by auto
    qed
    show "avail_but r ?t k" if k: "k \<le> 6" for k
    proof -
      obtain as where as: "in_links (valid_rec s) as (avail_list s k)" "set as = {q. \<exists>c. records s q = Some c \<and> avail_num c k \<noteq> 0}"
        "\<And>q. q \<notin> set as \<Longrightarrow> valid_rec s q \<Longrightarrow> fst (avail_list s k) q = None" using S(4) [OF k] unfolding avail_ok_def by blast
      have "in_links (valid_rec ?t) as (avail_list ?t k)" unfolding v using as(1) by simp
      moreover have "set as = {q. q \<noteq> r \<and> (\<exists>c. records ?t q = Some c \<and> avail_num c k \<noteq> 0)}" using as(2) z by (auto simp: frees_zero)
      moreover have "fst (avail_list ?t k) q = None" if "q \<noteq> r" "q \<notin> set as" "valid_rec ?t q" for q using as(3) [of q] that by simp
      ultimately show ?thesis unfolding avail_but_def by blast
    qed
    show "record_ok (regions (mmap_arena ?t)) d" if "q \<noteq> r" "records ?t q = Some d" for q d using chunks_record [OF S(5), of q d] that by simp
    show "q = q'" if "q \<noteq> r" "q' \<noteq> r" "records ?t q = Some d" "records ?t q' = Some d'" "in_use d \<noteq> 0" "in_use d' \<noteq> 0" "chunk_mmap_ctx d = chunk_mmap_ctx d'" for q d q' d'
      using chunks_inj [OF S(5), of q d q' d'] that by simp
  qed (use S(1) in simp_all)
  then show ?thesis using p(1) z zr unfolding l by blast
qed

text \<open>The record gets its chunk.\<close>

lemma install_chunk:
  assumes t: "rest_ok ok regions r t" and c': "chunk_state_ok c' {(6, 0)}" "in_use c' \<noteq> 0" "\<And>k. k < 6 \<Longrightarrow> avail_num c' k = 0" "avail_num c' 6 \<noteq> 0"
    and reg: "regions (mmap_arena t) (chunk_mmap_ctx c') = Some (chunk c', 0x80000)"
    and new: "\<And>q c. q \<noteq> r \<Longrightarrow> records t q = Some c \<Longrightarrow> in_use c \<noteq> 0 \<Longrightarrow> chunk_mmap_ctx c \<noteq> chunk_mmap_ctx c'"
    and prev: "\<And>k. k \<le> 6 \<Longrightarrow> fst (avail_list t k) r = None"
  shows "\<exists>l. push_front (valid_rec (set_record t r c')) r (avail_list t 6) = Some l \<and>
    buddy_ok ok regions ((put_avail (set_record t r c') 6 l)\<lparr>chunk_num := of_nat (card (used_records t - {r})) + 1\<rparr>)"
proof -
  note T = rest_okD [OF t]
  obtain c where c: "records t r = Some c" using T(3) by blast
  note v = valid_set_record [OF c, of c']
  obtain prv nxt head where l: "avail_list t 6 = (prv, nxt, head)" using links_cases by blast
  obtain xs where xs: "in_links (valid_rec t) xs (prv, nxt, head)" "set xs = {q. q \<noteq> r \<and> (\<exists>c. records t q = Some c \<and> avail_num c 6 \<noteq> 0)}"
    "\<And>q. q \<noteq> r \<Longrightarrow> q \<notin> set xs \<Longrightarrow> valid_rec t q \<Longrightarrow> prv q = None" using T(5) [of 6] unfolding avail_but_def l fst_conv by blast
  have "r \<notin> set xs" "prv r = None" using xs(2) prev [of 6] by (auto simp: l)
  then obtain prv' nxt' where p: "push_front (valid_rec t) r (prv, nxt, head) = Some (prv', nxt', Some r)" "in_links (valid_rec t) (r # xs) (prv', nxt', Some r)"
    "links_except (insert r (set xs)) (prv, nxt, head) (prv', nxt', Some r)" using push_front_ok [OF xs(1) T(3)] by blast
  let ?s = "(put_avail (set_record t r c') 6 (prv', nxt', Some r))\<lparr>chunk_num := of_nat (card (used_records t - {r})) + 1\<rparr>"
  have vs: "valid_rec ?s = valid_rec t" using v by simp
  have "groups_ok (regions (mmap_arena ?s)) ?s" using groups_cong [OF T(2), of ?s] vs by simp
  moreover have "empties_ok ?s"
  proof -
    obtain es where "in_links (valid_rec t) es (empty_list t)" "set es = {q. q \<noteq> r \<and> (\<exists>c. records t q = Some c \<and> in_use c = 0)}" using T(4) by blast
    moreover have "{q. q \<noteq> r \<and> (\<exists>c. records t q = Some c \<and> in_use c = 0)} = {q. \<exists>c. records ?s q = Some c \<and> in_use c = 0}" using c'(2) by auto
    ultimately show ?thesis unfolding empties_ok_def vs by auto
  qed
  moreover have "avail_ok ?s k" if k: "k \<le> 6" for k
  proof (cases "k = 6")
    case True
    have "set (r # xs) = {q. \<exists>d. records (set_record t r c') q = Some d \<and> avail_num d 6 \<noteq> 0}" using xs(2) c'(4) by auto
    moreover have "prv' q = None" if "q \<notin> set (r # xs)" "valid_rec t q" for q using p(3) xs(3) [of q] that by (auto simp: links_except_def)
    ultimately have "avail_ok (put_avail (set_record t r c') 6 (prv', nxt', Some r)) 6" by (intro avail_okI [OF c p(2)])
    then show ?thesis unfolding True avail_ok_def by simp
  next
    case False
    obtain as where as: "in_links (valid_rec t) as (avail_list t k)" "set as = {q. q \<noteq> r \<and> (\<exists>c. records t q = Some c \<and> avail_num c k \<noteq> 0)}"
      "\<And>q. q \<noteq> r \<Longrightarrow> q \<notin> set as \<Longrightarrow> valid_rec t q \<Longrightarrow> fst (avail_list t k) q = None" using T(5) [OF k] unfolding avail_but_def by blast
    have "in_links (valid_rec ?s) as (avail_list ?s k)" unfolding vs using as(1) False by simp
    moreover have "set as = {q. \<exists>c. records ?s q = Some c \<and> avail_num c k \<noteq> 0}" using as(2) c'(3) [of k] False k by auto
    moreover have "fst (avail_list ?s k) q = None" if "q \<notin> set as" "valid_rec ?s q" for q
      using as(3) [of q] prev [OF k] that False by (cases "q = r") simp_all
    ultimately show ?thesis unfolding avail_ok_def by blast
  qed
  moreover have "chunks_ok (regions (mmap_arena ?s)) ?s"
  proof (rule chunks_okI)
    show "record_ok (regions (mmap_arena ?s)) d" if "records ?s q = Some d" for q d
      using that T(6) [of q d] c'(1,2) reg given_out_eq [OF c'(1)] by (cases "q = r") (auto simp: record_ok_def)
    show "q = q'" if "records ?s q = Some d" "records ?s q' = Some d'" "in_use d \<noteq> 0" "in_use d' \<noteq> 0" "chunk_mmap_ctx d = chunk_mmap_ctx d'" for q d q' d'
    proof (cases "q = r \<or> q' = r")
      case True
      then show ?thesis using that new [of q d] new [of q' d'] by (cases "q = r"; cases "q' = r") auto
    next
      case False
      then show ?thesis using T(7) [of q q' d d'] that by simp
    qed
  qed
  moreover have "card (used_records ?s) = Suc (card (used_records t - {r}))"
  proof -
    have "used_records t \<subseteq> {q. valid_rec t q}" by (auto simp: used_records_def)
    then have f: "finite (used_records t - {r})" using finite_valid [OF T(2)] by (meson finite_Diff finite_subset)
    have e: "used_records ?s = insert r (used_records t - {r})" using c'(2) by (auto simp: used_records_def)
    show ?thesis unfolding e by (rule card_insert_disjoint [OF f]) simp
  qed
  ultimately have "buddy_ok ok regions ?s" using T(1) unfolding buddy_ok_def by simp
  then show ?thesis using p(1) unfolding v l by blast
qed

section \<open>The functions of order 6\<close>

definition fresh_record :: "('m \<Rightarrow> bool) \<Rightarrow> ('m \<Rightarrow> region_map) \<Rightarrow> nat \<Rightarrow> 'm buddy_arena \<Rightarrow> 'm buddy_arena \<Rightarrow> bool" where
  "fresh_record ok regions r s t \<longleftrightarrow> rest_ok ok regions r t \<and> records t r = Some (zero_record\<lparr>in_use := 1\<rparr>) \<and> (\<forall>k \<le> 6. fst (avail_list t k) r = None) \<and>
     chunk_num t = of_nat (card (used_records t - {r})) \<and> {(q, b) \<in> live_blocks t. q \<noteq> r} = live_blocks s \<and> (\<forall>q c. q \<noteq> r \<longrightarrow> records s q = Some c \<longrightarrow> records t q = Some c)"

lemma ranges_keep: "(\<And>q c. (\<exists>b. (q, b) \<in> live_blocks s) \<Longrightarrow> records s q = Some c \<Longrightarrow> \<exists>d. records s' q = Some d \<and> chunk d = chunk c) \<Longrightarrow> same_ranges (live_blocks s) s s'"
proof -
  assume a: "\<And>q c. (\<exists>b. (q, b) \<in> live_blocks s) \<Longrightarrow> records s q = Some c \<Longrightarrow> \<exists>d. records s' q = Some d \<and> chunk d = chunk c"
  have "block_range s' (q, b) = block_range s (q, b)" if q: "(q, b) \<in> live_blocks s" for q b
  proof -
    obtain c where c: "records s q = Some c" using liveE [OF q] by metis
    obtain d where "records s' q = Some d" "chunk d = chunk c" using a [OF _ c] q by blast
    then show ?thesis using c by (simp add: block_range_def split: prod.split)
  qed
  then show "same_ranges (live_blocks s) s s'" by (auto simp: same_ranges_def)
qed

context page_source
begin

lemma alloc_record_ok:
  assumes s: "buddy_ok ok regions s"
  shows "\<exists>res t. allocate_buddy_chunk_state P s = Some (res, t) \<and> (case res of
      None \<Rightarrow> buddy_ok ok regions t \<and> live_blocks t = live_blocks s \<and> (\<forall>r c. records s r = Some c \<longrightarrow> records t r = Some c)
    | Some r \<Rightarrow> fresh_record ok regions r s t) \<and> (0 < credit (mmap_arena s) \<longrightarrow> res \<noteq> None) \<and> credit (mmap_arena s) \<le> Suc (credit (mmap_arena t))"
proof -
  obtain s1 where s1: "(if list_head (empty_list s) = None then allocate_buddy_chunk_state_group P s else Some s) = Some s1" "buddy_ok ok regions s1"
    "\<And>r c. records s r = Some c \<Longrightarrow> records s1 r = Some c" "live_blocks s1 = live_blocks s"
    "0 < credit (mmap_arena s) \<longrightarrow> list_head (empty_list s1) \<noteq> None" "credit (mmap_arena s) \<le> Suc (credit (mmap_arena s1))"
    using alloc_group_ok [OF s] s by (cases "list_head (empty_list s)") auto
  show ?thesis
  proof (cases "list_head (empty_list s1)")
    case None
    then show ?thesis using s1 by (intro exI [of _ None] exI [of _ s1]) (simp add: allocate_buddy_chunk_state_def)
  next
    case (Some r)
    obtain prv nxt head where p: "pop_head (valid_rec s1) r (empty_list s1) = Some (prv, nxt, head)" "records s1 r = Some zero_record"
      "rest_ok ok regions r ((set_record s1 r (zero_record\<lparr>in_use := 1\<rparr>))\<lparr>empty_list := (prv, nxt(r := None), head)\<rparr>)" "\<forall>k \<le> 6. fst (avail_list s1 k) r = None"
      using pop_record [OF s1(2) Some] by blast
    define t where "t = (set_record s1 r (zero_record\<lparr>in_use := 1\<rparr>))\<lparr>empty_list := (prv, nxt(r := None), head)\<rparr>"
    have run: "allocate_buddy_chunk_state P s = Some (Some r, t)"
      unfolding allocate_buddy_chunk_state_def s1(1) Option.bind.bind_lunit Some option.case p(1) prod.case Let_def put_record_eq [OF p(2)] t_def by simp
    have "used_records t - {r} = used_records s1" using p(2) by (auto simp: used_records_def t_def frees_zero)
    moreover have "{(q, b) \<in> live_blocks t. q \<noteq> r} = live_blocks s1" using p(2) by (auto simp: live_blocks_def t_def frees_zero split: if_splits)
    moreover have "records t q = Some c" if "q \<noteq> r" "records s q = Some c" for q c using that s1(3) by (simp add: t_def)
    moreover have "records t r = Some (zero_record\<lparr>in_use := 1\<rparr>)" "avail_list t = avail_list s1" "chunk_num t = chunk_num s1" by (simp_all add: t_def)
    ultimately have "fresh_record ok regions r s t" using p(3,4) s1(4) buddyD(6) [OF s1(2)] unfolding fresh_record_def t_def [symmetric] by simp
    then show ?thesis using run s1(6) by (auto simp: t_def)
  qed
qed

lemma buddy_alloc_6_ok: "alloc_spec ok regions credit 6 (buddy_alloc_6 P)"
  unfolding alloc_spec_def
proof (intro allI impI)
  fix s assume s: "buddy_ok ok regions s"
  show "\<exists>res s'. buddy_alloc_6 P s = Some (res, s') \<and> buddy_ok ok regions s' \<and> alloc_step 6 s res s' \<and> (1 < credit (mmap_arena s) \<longrightarrow> res \<noteq> None)"
  proof (cases "list_head (avail_list s 6)")
    case (Some r)
    then show ?thesis using take_block_ok [OF s _ Some] by (auto simp: buddy_alloc_6_def)
  next
    case None
    obtain res t where t: "allocate_buddy_chunk_state P s = Some (res, t)" "case res of
      None \<Rightarrow> buddy_ok ok regions t \<and> live_blocks t = live_blocks s \<and> (\<forall>r c. records s r = Some c \<longrightarrow> records t r = Some c)
    | Some r \<Rightarrow> fresh_record ok regions r s t" "0 < credit (mmap_arena s) \<longrightarrow> res \<noteq> None" "credit (mmap_arena s) \<le> Suc (credit (mmap_arena t))"
      using alloc_record_ok [OF s] by (elim exE conjE) (rule that)
    have few: "j < 6" if "records s r = Some c" "(j, i) \<in> frees c" for r c j i
      using no_avail [OF s _ None that(1), of i] frees_le [OF that(2)] that(2) by (cases "j = 6") auto
    show ?thesis
    proof (cases res)
      case None': None
      have "alloc_step 6 s None t" using t(2) few unfolding None' alloc_step_def by (auto intro!: ranges_keep)
      then show ?thesis using t None None' by (auto simp: buddy_alloc_6_def allocate_chunk_and_block6_def)
    next
      case (Some r)
      have F: "rest_ok ok regions r t" "records t r = Some (zero_record\<lparr>in_use := 1\<rparr>)" "\<And>k. k \<le> 6 \<Longrightarrow> fst (avail_list t k) r = None"
        "chunk_num t = of_nat (card (used_records t - {r}))" "{(q, b) \<in> live_blocks t. q \<noteq> r} = live_blocks s" "\<And>q c. q \<noteq> r \<Longrightarrow> records s q = Some c \<Longrightarrow> records t q = Some c"
        using t(2) unfolding Some option.case fresh_record_def by blast+
      have notr: "(r, b) \<notin> live_blocks s" for b using F(5) by blast
      obtain res' m where a: "page_alloc P 0x80000 (mmap_arena t) = Some (res', m)" "ok m"
        "case res' of None \<Rightarrow> regions m = regions (mmap_arena t) | Some (p, x) \<Rightarrow> regions (mmap_arena t) x = None \<and> regions m = (regions (mmap_arena t))(x \<mapsto> (p, 0x80000))"
        "0 < credit (mmap_arena t) \<Longrightarrow> res' \<noteq> None"
        using page_alloc_ok [of "mmap_arena t" "0x80000"] rest_okD(1) [OF F(1)] by auto
      have rest: "rest_ok ok regions r (t\<lparr>mmap_arena := m\<rparr>)"
        by (rule rest_regions [OF F(1) a(2)]) (use a(3) in \<open>auto split: option.splits prod.splits\<close>)
      show ?thesis
      proof (cases res')
        case None'': None
        obtain s2 where s2: "free_buddy_chunk_state r (t\<lparr>mmap_arena := m\<rparr>) = Some s2" "buddy_ok ok regions (s2\<lparr>chunk_num := of_nat (card (used_records t - {r}))\<rparr>)"
          "chunk_num s2 = chunk_num t" "live_blocks s2 = {(q, b) \<in> live_blocks t. q \<noteq> r}" "\<And>q. q \<noteq> r \<Longrightarrow> records s2 q = records t q"
          using free_record_ok [OF rest] by auto
        have "s2\<lparr>chunk_num := of_nat (card (used_records t - {r}))\<rparr> = s2" using s2(3) F(4) by simp
        then have "buddy_ok ok regions s2" using s2(2) by simp
        moreover have "same_ranges (live_blocks s) s s2" using F(6) s2(5) notr by (intro ranges_keep) metis
        ultimately have "buddy_ok ok regions s2 \<and> alloc_step 6 s None s2" using s2(4) F(5) few by (simp add: alloc_step_def)
        moreover have "buddy_alloc_6 P s = Some (None, s2)"
          using None t(1) Some a(1) None'' s2(1) by (simp add: buddy_alloc_6_def allocate_chunk_and_block6_def)
        moreover have "\<not> 1 < credit (mmap_arena s)" using t(4) a(4) None'' by auto
        ultimately show ?thesis by blast
      next
        case (Some px)
        obtain ch x where px: "px = (ch, x)" by (cases px)
        have m: "regions (mmap_arena t) x = None" "regions m x = Some (ch, 0x80000)" using a(3) by (simp_all add: Some px)
        define t1 where "t1 = t\<lparr>mmap_arena := m\<rparr>"
        define c' where "c' = (put_bitmap 6 2 (zero_record\<lparr>in_use := 1, chunk := ch, chunk_mmap_ctx := x\<rparr>))\<lparr>avail_num := (avail_num zero_record)(6 := 1)\<rparr>"
        let ?z = "zero_record\<lparr>in_use := 1, chunk := ch, chunk_mmap_ctx := x\<rparr>"
        have "frees ?z = {}" "fit ?z" "avail_num ?z = (\<lambda>_. 0)" "splits ?z = (\<lambda>_. 0)" by (auto simp: zero_record_def frees_def free_bit_def fit_def)
        then have c': "chunk_state_ok c' {(6, 0)}" unfolding c'_def using chunk_new [of ?z] by simp
        have C': "in_use c' \<noteq> 0" "\<And>k. k < 6 \<Longrightarrow> avail_num c' k = 0" "avail_num c' 6 \<noteq> 0" "chunk c' = ch" "chunk_mmap_ctx c' = x"
          by (simp_all add: c'_def put_bitmap_def frees_zero)
        have reg: "regions (mmap_arena t1) (chunk_mmap_ctx c') = Some (chunk c', 0x80000)" using m(2) by (simp add: t1_def C')
        have new: "chunk_mmap_ctx d \<noteq> chunk_mmap_ctx c'" if "q \<noteq> r" "records t1 q = Some d" "in_use d \<noteq> 0" for q d
          using rest_okD(6) [OF F(1), of q d] that m(1) by (auto simp: t1_def C' record_ok_def)
        have prev: "fst (avail_list t1 k) r = None" if "k \<le> 6" for k using F(3) [OF that] by (simp add: t1_def)
        have "\<exists>l. push_front (valid_rec (set_record t1 r c')) r (avail_list t1 6) = Some l \<and>
          buddy_ok ok regions ((put_avail (set_record t1 r c') 6 l)\<lparr>chunk_num := of_nat (card (used_records t1 - {r})) + 1\<rparr>)"
          by (rule install_chunk [OF rest [folded t1_def] c' C'(1-3) reg]) (simp_all add: new prev)
        then obtain l where l: "push_front (valid_rec (set_record t1 r c')) r (avail_list t1 6) = Some l"
          "buddy_ok ok regions ((put_avail (set_record t1 r c') 6 l)\<lparr>chunk_num := of_nat (card (used_records t1 - {r})) + 1\<rparr>)"
          by blast
        define s' where "s' = (put_avail (set_record t1 r c') 6 l)\<lparr>chunk_num := of_nat (card (used_records t1 - {r})) + 1\<rparr>"
        have n: "chunk_num t1 = of_nat (card (used_records t1 - {r}))" using F(4) by (simp add: t1_def)
        have r1: "records t1 r = Some (zero_record\<lparr>in_use := 1\<rparr>)" using F(2) by (simp add: t1_def)
        have "allocate_chunk_and_block6 P s = Some (Some r, s')"
          unfolding allocate_chunk_and_block6_def t(1) \<open>res = Some r\<close> Some px a(1) Option.bind.bind_lunit prod.case option.case t1_def [symmetric] put_record_eq [OF r1]
          using l(1) n by (simp add: c'_def s'_def)
        then have run: "buddy_alloc_6 P s = Some (Some (r, ch), s')" using None C'(4) by (simp add: buddy_alloc_6_def s'_def)
        have rs: "records s' = (records t)(r \<mapsto> c')" by (simp add: s'_def t1_def)
        have "live_blocks s' = {(q, b) \<in> live_blocks t. q \<noteq> r} \<union> {r} \<times> given_out c'" using C'(1) by (auto simp: live_blocks_def rs split: if_splits)
        then have L: "live_blocks s' = insert (r, 6, 0) (live_blocks s)" unfolding F(5) given_out_eq [OF c'] by simp
        have "block_range s' (r, 6, 0) = {unat ch ..< unat ch + 2 ^ (12 + 6)}" by (rule block_range_eq [of _ _ c']) (simp_all add: rs C'(4))
        moreover have "same_ranges (live_blocks s) s s'" using F(6) notr by (intro ranges_keep) (metis rs fun_upd_other)
        ultimately have "alloc_step 6 s (Some (r, ch)) s'" using L notr by (intro alloc_stepI)
        then show ?thesis using run l(2) [folded s'_def] by blast
      qed
    qed
  qed
qed

lemma unlink_chunk:
  assumes s: "buddy_ok ok regions s" and c: "records s r = Some c" "in_use c \<noteq> 0" and g: "given_out c = {(6, i)}" "(6, twin i) \<in> frees c"
    and m: "ok m" "regions m = (regions (mmap_arena s))(chunk_mmap_ctx c := None)"
  shows "\<exists>l. unlink (valid_rec s) r (avail_list s 6) = Some l \<and> rest_ok ok regions r ((put_avail s 6 l)\<lparr>mmap_arena := m\<rparr>)"
proof -
  note S = buddyD [OF s]
  note C = buddy_record [OF s c, THEN conjunct1]
  have reg: "regions (mmap_arena s) (chunk_mmap_ctx c) = Some (chunk c, 0x80000)" using buddy_record [OF s c] by simp
  have i6: "(6, i) \<in> given_out c" using g(1) by simp
  have a6: "avail_num c 6 \<noteq> 0" using counts_step [OF C _ g(2)] by simp
  have a: "avail_num c k = 0" if "k < 6" for k
    using chunk_last(2) [OF C i6 g(2), of k] counts_pos [of c k] C that by (auto simp: chunk_state_ok_def)
  obtain prv nxt head where u: "unlink (valid_rec (set_record s r zero_record)) r (avail_list s 6) = Some (prv, nxt, head)"
    "avail_ok (put_avail (set_record s r zero_record) 6 (prv(r := None), nxt(r := None), head)) 6"
    using avail_unlink [OF S(4) [of 6] c(1) a6, of zero_record] by (auto simp: frees_zero)
  let ?s = "put_avail s 6 (prv, nxt, head)"
  have "avail_but r ?s k" if k: "k \<le> 6" for k
  proof (cases "k = 6")
    case True
    obtain xs where xs: "in_links (valid_rec s) xs (prv(r := None), nxt(r := None), head)" "set xs = {q. \<exists>d. records (set_record s r zero_record) q = Some d \<and> avail_num d 6 \<noteq> 0}"
      "\<And>q. q \<notin> set xs \<Longrightarrow> valid_rec (set_record s r zero_record) q \<Longrightarrow> (prv(r := None)) q = None"
      using u(2) unfolding avail_ok_def put_avail_simps fun_upd_same fst_conv valid_set_record [OF c(1)] by blast
    have e: "set xs = {q. q \<noteq> r \<and> (\<exists>d. records s q = Some d \<and> avail_num d 6 \<noteq> 0)}" using xs(2) by (auto simp: frees_zero)
    have "in_links (valid_rec s) xs (prv, nxt, head)" by (rule in_links_cong [OF xs(1)]) (use e in auto)
    moreover have "prv q = None" if "q \<noteq> r" "q \<notin> set xs" "valid_rec s q" for q using xs(3) [of q] that by simp
    ultimately show ?thesis using e True unfolding avail_but_def put_avail_simps True fun_upd_same fst_conv by blast
  next
    case False
    then have "k < 6" using k by simp
    obtain xs where xs: "in_links (valid_rec s) xs (avail_list s k)" "set xs = {q. \<exists>d. records s q = Some d \<and> avail_num d k \<noteq> 0}"
      "\<And>q. q \<notin> set xs \<Longrightarrow> valid_rec s q \<Longrightarrow> fst (avail_list s k) q = None" using S(4) [OF k] unfolding avail_ok_def by blast
    have e: "set xs = {q. q \<noteq> r \<and> (\<exists>d. records s q = Some d \<and> avail_num d k \<noteq> 0)}" using xs(2) a [OF \<open>k < 6\<close>] c(1) by auto
    have "avail_list ?s k = avail_list s k" using False by simp
    then show ?thesis using e xs(1,3) unfolding avail_but_def put_avail_simps(1) by auto
  qed
  moreover have "groups_ok (regions (mmap_arena s)) ?s" by (rule groups_cong [OF S(2)]) simp_all
  moreover have "\<exists>es. in_links (valid_rec ?s) es (empty_list ?s) \<and> set es = {q. q \<noteq> r \<and> (\<exists>d. records ?s q = Some d \<and> in_use d = 0)}"
  proof -
    obtain es where "in_links (valid_rec s) es (empty_list s)" "set es = {q. \<exists>d. records s q = Some d \<and> in_use d = 0}" using S(3) unfolding empties_ok_def by blast
    then show ?thesis using c by (intro exI [of _ es]) auto
  qed
  ultimately have rest: "rest_ok ok regions r ?s"
    using S(1) c(1) chunks_record [OF S(5)] chunks_inj [OF S(5)] by (intro rest_okI) (simp_all; blast)+
  have "rest_ok ok regions r (?s\<lparr>mmap_arena := m\<rparr>)"
  proof (rule rest_regions [OF rest m(1)])
    show "regions m x = Some (p, 4096)" if "regions (mmap_arena ?s) x = Some (p, 4096)" for x p using that reg m(2) by auto
    show "regions m (chunk_mmap_ctx d) = Some (chunk d, 0x80000)"
      if "q \<noteq> r" "records ?s q = Some d" "in_use d \<noteq> 0" "regions (mmap_arena ?s) (chunk_mmap_ctx d) = Some (chunk d, 0x80000)" for q d
      using chunks_inj [OF S(5), of q d r c] c that m(2) by auto
  qed
  moreover have "unlink (valid_rec s) r (avail_list s 6) = Some (prv, nxt, head)" using u(1) unfolding valid_set_record [OF c(1)] .
  ultimately show ?thesis by blast
qed

lemma buddy_free_6_ok: "free_spec ok regions 6 (buddy_free_6 P)"
  unfolding free_spec_def
proof (intro allI impI)
  fix s r i and p :: u64
  assume s: "buddy_ok ok regions s" and b: "(r, 6, i) \<in> live_blocks s" and p: "unat p \<in> block_range s (r, 6, i)"
  obtain c where c: "records s r = Some c" "in_use c \<noteq> 0" "(6, i) \<in> given_out c" using liveE [OF b] by metis
  note C = buddy_record [OF s c(1,2), THEN conjunct1]
  have k: "6 \<le> (6 :: nat)" "i < 2 ^ (7 - 6)" using live_block [OF s b] by simp_all
  have idx: "BUDDY_BLOCK_IDX c p 6 = of_nat i" using p c(1) by (intro block_idx [OF k]) (simp add: block_range_def)
  show "\<exists>s'. buddy_free_6 P p r s = Some s' \<and> buddy_ok ok regions s' \<and> free_step (r, 6, i) s s'"
  proof (cases "(6, twin i) \<in> frees c \<and> LIBC_KEEP_CHUNK_NUM < chunk_num s")
    case False
    obtain s' where "give_block 6 (of_nat i) r s = Some s'" "buddy_ok ok regions s'" "free_step (r, 6, i) s s'" using give_block_ok [OF s b c(1)] by blast
    moreover have "(if test_block 6 (of_nat i) (of_nat i XOR 1) c \<and> LIBC_KEEP_CHUNK_NUM < chunk_num s then x else y) = y" for x y :: "'m buddy_arena option"
      using False unfolding test_block_iff [OF k] by (rule if_not_P)
    ultimately show ?thesis by (simp add: buddy_free_6_def c(1) idx Let_def)
  next
    case True
    have reg: "regions (mmap_arena s) (chunk_mmap_ctx c) = Some (chunk c, 0x80000)" using buddy_record [OF s c(1,2)] by simp
    obtain m where m: "page_free P (chunk c) (chunk_mmap_ctx c) (mmap_arena s) = Some m" "ok m" "regions m = (regions (mmap_arena s))(chunk_mmap_ctx c := None)"
      using page_free_ok [OF buddyD(1) [OF s] reg] by blast
    have g: "given_out c = {(6, i)}" using chunk_last(1) [OF C c(3)] True by blast
    obtain l where l: "unlink (valid_rec s) r (avail_list s 6) = Some l" "rest_ok ok regions r ((put_avail s 6 l)\<lparr>mmap_arena := m\<rparr>)"
      using unlink_chunk [OF s c(1,2) g _ m(2,3)] True by blast
    define t where "t = (put_avail s 6 l)\<lparr>mmap_arena := m\<rparr>"
    obtain s2 where s2: "free_buddy_chunk_state r t = Some s2" "buddy_ok ok regions (s2\<lparr>chunk_num := of_nat (card (used_records t - {r}))\<rparr>)"
      "chunk_num s2 = chunk_num t" "live_blocks s2 = {(q, b) \<in> live_blocks t. q \<noteq> r}" "\<And>q. q \<noteq> r \<Longrightarrow> records s2 q = records t q"
      using free_record_ok [OF l(2) [folded t_def]] by auto
    have t: "used_records t = used_records s" "live_blocks t = live_blocks s" "records t = records s" "chunk_num t = chunk_num s" by (simp_all add: t_def)
    have u: "finite (used_records s)" "r \<in> used_records s"
    proof -
      have "used_records s \<subseteq> {q. valid_rec s q}" by (auto simp: used_records_def)
      then show "finite (used_records s)" using finite_valid [OF buddyD(2) [OF s]] finite_subset by blast
      show "r \<in> used_records s" using c(1,2) by (auto simp: used_records_def)
    qed
    have "card (used_records s) = Suc (card (used_records s - {r}))" by (rule card.remove [OF u])
    then have n: "chunk_num s2 - 1 = of_nat (card (used_records t - {r}))" using s2(3) buddyD(6) [OF s] by (simp add: t)
    define s' where "s' = s2\<lparr>chunk_num := chunk_num s2 - 1\<rparr>"
    have run: "buddy_free_6 P p r s = Some s'" using True l(1) m(1) s2(1) [unfolded t_def]
      by (simp add: buddy_free_6_def c(1) idx test_block_iff [OF k] Let_def s'_def)
    have L: "live_blocks s' = {(q, b) \<in> live_blocks s. q \<noteq> r}" unfolding s'_def by (simp add: s2(4) t)
    have "(r, b) \<in> live_blocks s \<longleftrightarrow> b = (6, i)" for b using c(1,2) g by (simp add: live_blocks_def)
    then have "{(q, b) \<in> live_blocks s. q \<noteq> r} = live_blocks s - {(r, 6, i)}" by auto
    with L have "live_blocks s' = live_blocks s - {(r, 6, i)}" by simp
    moreover have "block_range s' b = block_range s b" if "b \<in> live_blocks s'" for b
    proof -
      have "fst b \<noteq> r" using that unfolding L by auto
      then show ?thesis using s2(5) by (cases b) (simp add: s'_def block_range_def t)
    qed
    ultimately have "free_step (r, 6, i) s s'" by (simp add: free_step_def same_ranges_def)
    moreover have "buddy_ok ok regions s'" unfolding s'_def n by (rule s2(2))
    ultimately show ?thesis using run by blast
  qed
qed

section \<open>All orders\<close>

lemma buddy_alloc_ok:
  "alloc_spec ok regions credit 6 (buddy_alloc_6 P)" "alloc_spec ok regions credit 5 (buddy_alloc_5 P)" "alloc_spec ok regions credit 4 (buddy_alloc_4 P)"
  "alloc_spec ok regions credit 3 (buddy_alloc_3 P)" "alloc_spec ok regions credit 2 (buddy_alloc_2 P)" "alloc_spec ok regions credit 1 (buddy_alloc_1 P)" "alloc_spec ok regions credit 0 (buddy_alloc_0 P)"
proof -
  show a6: "alloc_spec ok regions credit 6 (buddy_alloc_6 P)" by (rule buddy_alloc_6_ok)
  have a5: "alloc_spec ok regions credit 5 (buddy_alloc_5 P)" using alloc_block_ok [of 5 "buddy_alloc_6 P"] a6 by (simp add: buddy_alloc_5_def)
  have a4: "alloc_spec ok regions credit 4 (buddy_alloc_4 P)" using alloc_block_ok [of 4 "buddy_alloc_5 P"] a5 by (simp add: buddy_alloc_4_def)
  have a3: "alloc_spec ok regions credit 3 (buddy_alloc_3 P)" using alloc_block_ok [of 3 "buddy_alloc_4 P"] a4 by (simp add: buddy_alloc_3_def)
  have a2: "alloc_spec ok regions credit 2 (buddy_alloc_2 P)" using alloc_block_ok [of 2 "buddy_alloc_3 P"] a3 by (simp add: buddy_alloc_2_def)
  have a1: "alloc_spec ok regions credit 1 (buddy_alloc_1 P)" using alloc_block_ok [of 1 "buddy_alloc_2 P"] a2 by (simp add: buddy_alloc_1_def numeral_2_eq_2)
  have a0: "alloc_spec ok regions credit 0 (buddy_alloc_0 P)" using alloc_block_ok [of 0 "buddy_alloc_1 P"] a1 by (simp add: buddy_alloc_0_def)
  show "alloc_spec ok regions credit 5 (buddy_alloc_5 P)" "alloc_spec ok regions credit 4 (buddy_alloc_4 P)" "alloc_spec ok regions credit 3 (buddy_alloc_3 P)"
    "alloc_spec ok regions credit 2 (buddy_alloc_2 P)" "alloc_spec ok regions credit 1 (buddy_alloc_1 P)" "alloc_spec ok regions credit 0 (buddy_alloc_0 P)" by (fact a5 a4 a3 a2 a1 a0)+
qed

lemma buddy_free_ok:
  "free_spec ok regions 6 (buddy_free_6 P)" "free_spec ok regions 5 (buddy_free_5 P)" "free_spec ok regions 4 (buddy_free_4 P)"
  "free_spec ok regions 3 (buddy_free_3 P)" "free_spec ok regions 2 (buddy_free_2 P)" "free_spec ok regions 1 (buddy_free_1 P)" "free_spec ok regions 0 (buddy_free_0 P)"
proof -
  show a6: "free_spec ok regions 6 (buddy_free_6 P)" by (rule buddy_free_6_ok)
  have a5: "free_spec ok regions 5 (buddy_free_5 P)" using release_block_ok [of 5 "buddy_free_6 P"] a6 by (simp add: buddy_free_5_def)
  have a4: "free_spec ok regions 4 (buddy_free_4 P)" using release_block_ok [of 4 "buddy_free_5 P"] a5 by (simp add: buddy_free_4_def)
  have a3: "free_spec ok regions 3 (buddy_free_3 P)" using release_block_ok [of 3 "buddy_free_4 P"] a4 by (simp add: buddy_free_3_def)
  have a2: "free_spec ok regions 2 (buddy_free_2 P)" using release_block_ok [of 2 "buddy_free_3 P"] a3 by (simp add: buddy_free_2_def)
  have a1: "free_spec ok regions 1 (buddy_free_1 P)" using release_block_ok [of 1 "buddy_free_2 P"] a2 by (simp add: buddy_free_1_def numeral_2_eq_2)
  have a0: "free_spec ok regions 0 (buddy_free_0 P)" using release_block_ok [of 0 "buddy_free_1 P"] a1 by (simp add: buddy_free_0_def)
  show "free_spec ok regions 5 (buddy_free_5 P)" "free_spec ok regions 4 (buddy_free_4 P)" "free_spec ok regions 3 (buddy_free_3 P)"
    "free_spec ok regions 2 (buddy_free_2 P)" "free_spec ok regions 1 (buddy_free_1 P)" "free_spec ok regions 0 (buddy_free_0 P)" by (fact a5 a4 a3 a2 a1 a0)+
qed

end

end
