(* ===== verification/Mmap.thy ===== *)
theory Mmap
  imports BuddyArena
begin

text \<open>
  The allocator of regions, \<open>src/memory/mmap.c\<close>, over a kernel that is a parameter.  A record holds the
  address and the length of a region; records come in groups of 127, one page each.  A record is in
  one of two lists, active and inactive, through the same pair of links.  \<open>mmap_ok\<close> is the invariant;
  this allocator is a provider of pages, so what \<open>BuddyArena\<close> shows holds over it.

  \<open>mmap.c\<close> keeps its records and regions: the invariant, and the interpretation as a provider of pages.
\<close>

section \<open>The kernel\<close>

record 'k kernel =
  mmap_call :: "u64 \<Rightarrow> u64 \<Rightarrow> u32 \<Rightarrow> u32 \<Rightarrow> u32 \<Rightarrow> u64 \<Rightarrow> 'k \<Rightarrow> u64 \<times> 'k"
  munmap_call :: "u64 \<Rightarrow> u64 \<Rightarrow> 'k \<Rightarrow> u32 \<times> 'k"

definition PROT_READ :: u32 where "PROT_READ = 1"
definition PROT_WRITE :: u32 where "PROT_WRITE = 2"
definition MAP_PRIVATE :: u32 where "MAP_PRIVATE = 2"
definition MAP_ANONYMOUS :: u32 where "MAP_ANONYMOUS = 0x20"

definition mmap :: "'k kernel \<Rightarrow> u64 \<Rightarrow> u64 \<Rightarrow> u32 \<Rightarrow> u32 \<Rightarrow> u32 \<Rightarrow> u64 \<Rightarrow> 'k \<Rightarrow> u64 \<times> 'k" where
  "mmap K addr len prot flags fd offset k = mmap_call K addr len prot flags fd offset k"

definition munmap :: "'k kernel \<Rightarrow> u64 \<Rightarrow> u64 \<Rightarrow> 'k \<Rightarrow> u32 \<times> 'k" where
  "munmap K addr len k = munmap_call K addr len k"

section \<open>State\<close>

record mmap_record =
  region_len :: u64
  region_ptr :: u64

record 'k mmap_arena =
  kernel_state :: 'k
  mgroup_list :: list_links
  mgroups :: "nat set"
  mrecords :: "nat \<Rightarrow> mmap_record option"
  rec_prev :: "nat \<Rightarrow> ptr"
  rec_next :: "nat \<Rightarrow> ptr"
  active_list_head :: ptr
  inactive_list_head :: ptr

abbreviation valid_mrec :: "'k mmap_arena \<Rightarrow> nat \<Rightarrow> bool" where
  "valid_mrec s r \<equiv> mrecords s r \<noteq> None"

definition MMAP_RECORDS_PER_GROUP :: nat where "MMAP_RECORDS_PER_GROUP = 127"

definition mrecord_at :: "nat \<Rightarrow> nat \<Rightarrow> nat" where
  "mrecord_at g i = g + 16 + 32 * i"

section \<open>Operations\<close>

text \<open>The links of the records of a new group, whose page is zero.\<close>

definition link_mgroup :: "nat \<Rightarrow> list_links \<Rightarrow> list_links" where
  "link_mgroup g = (\<lambda>(prv, nxt, head).
     let n = MMAP_RECORDS_PER_GROUP;
         nxt = fold (\<lambda>i nxt. nxt(mrecord_at g i := Some (mrecord_at g (i + 1)))) [0..<n - 1] nxt;
         prv = fold (\<lambda>i prv. prv(mrecord_at g (i + 1) := Some (mrecord_at g i))) [0..<n - 1] prv
     in (prv, nxt(mrecord_at g (n - 1) := head), head))"

definition allocate_mmap_record_group :: "'k kernel \<Rightarrow> 'k mmap_arena \<Rightarrow> 'k mmap_arena option" where
  "allocate_mmap_record_group K s =
     (let (new_group, k) = mmap K 0 4096 (PROT_READ OR PROT_WRITE) (MAP_PRIVATE OR MAP_ANONYMOUS) 0 0 (kernel_state s); s = s\<lparr>kernel_state := k\<rparr>
      in if sint new_group < 0 then Some s
         else do {
           let g = unat new_group;
           let R = set (map (mrecord_at g) [0..<MMAP_RECORDS_PER_GROUP]);
           let (prv, nxt, head) = zero_links R (rec_prev s, rec_next s, inactive_list_head s);
           let s = s\<lparr>mgroups := insert g (mgroups s), mgroup_list := zero_links {g} (mgroup_list s),
             mrecords := (\<lambda>r. if r \<in> R then Some \<lparr>region_len = 0, region_ptr = 0\<rparr> else mrecords s r)\<rparr>;
           gl \<leftarrow> push_front (\<lambda>g. g \<in> mgroups s) g (mgroup_list s);
           let (prv, nxt, head) = link_mgroup g (prv, nxt, head);
           prv \<leftarrow> set_if (valid_mrec s) head (Some (mrecord_at g (MMAP_RECORDS_PER_GROUP - 1))) prv;
           Some (s\<lparr>mgroup_list := gl, rec_prev := prv, rec_next := nxt, inactive_list_head := Some (mrecord_at g 0)\<rparr>) })"

definition mmap_alloc :: "'k kernel \<Rightarrow> u64 \<Rightarrow> 'k mmap_arena \<Rightarrow> ((u64 \<times> nat) option \<times> 'k mmap_arena) option" where
  "mmap_alloc K len s = do {
     s \<leftarrow> (if inactive_list_head s = None then allocate_mmap_record_group K s else Some s);
     (case inactive_list_head s of
        None \<Rightarrow> Some (None, s)
      | Some st \<Rightarrow>
          (let (ptr, k) = mmap K 0 len (PROT_READ OR PROT_WRITE) (MAP_PRIVATE OR MAP_ANONYMOUS) 0 0 (kernel_state s); s = s\<lparr>kernel_state := k\<rparr>
           in if sint ptr < 0 then Some (None, s)
              else do {
                (prv, nxt, inactive) \<leftarrow> pop_head (valid_mrec s) st (rec_prev s, rec_next s, inactive_list_head s);
                let s = s\<lparr>mrecords := (mrecords s)(st \<mapsto> \<lparr>region_len = len, region_ptr = ptr\<rparr>), inactive_list_head := inactive\<rparr>;
                (prv, nxt, active) \<leftarrow> push_front (valid_mrec s) st (prv, nxt, active_list_head s);
                Some (Some (ptr, st), s\<lparr>rec_prev := prv, rec_next := nxt, active_list_head := active\<rparr>) })) }"

text \<open>Taking a record out of the active list.\<close>

definition leave_active :: "(nat \<Rightarrow> bool) \<Rightarrow> nat \<Rightarrow> list_links \<Rightarrow> list_links option" where
  "leave_active valid st = (\<lambda>(prv, nxt, head). do {
     st \<leftarrow> deref valid (Some st);
     prv \<leftarrow> set_if valid (nxt st) (prv st) prv;
     if prv st \<noteq> None then do {
       nxt \<leftarrow> set_if valid (prv st) (nxt st) nxt;
       Some (prv(st := None), nxt, head) }
     else Some (prv, nxt, nxt st) })"

definition mmap_free :: "'k kernel \<Rightarrow> u64 \<Rightarrow> nat \<Rightarrow> 'k mmap_arena \<Rightarrow> 'k mmap_arena option" where
  "mmap_free K ptr st s = do {
     c \<leftarrow> mrecords s st;
     let (_, k) = munmap K (region_ptr c) (region_len c) (kernel_state s);
     let s = s\<lparr>kernel_state := k, mrecords := (mrecords s)(st \<mapsto> \<lparr>region_len = 0, region_ptr = 0\<rparr>)\<rparr>;
     (prv, nxt, active) \<leftarrow> leave_active (valid_mrec s) st (rec_prev s, rec_next s, active_list_head s);
     (prv, nxt, inactive) \<leftarrow> push_front (valid_mrec s) st (prv, nxt, inactive_list_head s);
     Some (s\<lparr>rec_prev := prv, rec_next := nxt, active_list_head := active, inactive_list_head := inactive\<rparr>) }"

definition mmap_pages :: "'k kernel \<Rightarrow> 'k mmap_arena pages" where
  "mmap_pages K = \<lparr>page_alloc = mmap_alloc K, page_free = mmap_free K\<rparr>"

section \<open>What the kernel promises\<close>

text \<open>\<open>mapped\<close> gives the regions of the process: \<open>mmap\<close> adds one apart from all others or fails with a
  negative number, \<open>munmap\<close> of a whole region removes it.  \<open>credit\<close> is a number of calls for at most 512
  KiB that will not fail; it may be 0.\<close>

definition kernel_ok :: "'k kernel \<Rightarrow> ('k \<Rightarrow> (u64 \<times> u64) set) \<Rightarrow> ('k \<Rightarrow> nat) \<Rightarrow> bool" where
  "kernel_ok K mapped credit \<longleftrightarrow>
     (\<forall>k len p k'. 0 < len \<longrightarrow> mmap_call K 0 len (PROT_READ OR PROT_WRITE) (MAP_PRIVATE OR MAP_ANONYMOUS) 0 0 k = (p, k') \<longrightarrow>
        (if sint p < 0 then mapped k' = mapped k else p \<noteq> 0 \<and> unat p + unat len \<le> 2 ^ 64 \<and>
           (\<forall>a \<in> mapped k. region a \<inter> region (p, len) = {}) \<and> mapped k' = insert (p, len) (mapped k)) \<and>
        (len \<le> 0x80000 \<longrightarrow> (0 < credit k \<longrightarrow> \<not> sint p < 0) \<and> credit k \<le> Suc (credit k'))) \<and>
     (\<forall>k p len r k'. (p, len) \<in> mapped k \<longrightarrow> munmap_call K p len k = (r, k') \<longrightarrow> mapped k' = mapped k - {(p, len)})"

section \<open>The invariant\<close>

definition mmap_regions :: "'k mmap_arena \<Rightarrow> region_map" where
  "mmap_regions s r = (case mrecords s r of None \<Rightarrow> None | Some c \<Rightarrow> if region_len c = 0 then None else Some (region_ptr c, region_len c))"

definition apart :: "(u64 \<times> u64) set \<Rightarrow> bool" where
  "apart M \<longleftrightarrow> (\<forall>a \<in> M. \<forall>b \<in> M. a \<noteq> b \<longrightarrow> region a \<inter> region b = {}) \<and> (\<forall>(p, len) \<in> M. p \<noteq> 0 \<and> 0 < len \<and> unat p + unat len \<le> 2 ^ 64)"

definition mgroups_ok :: "(u64 \<times> u64) set \<Rightarrow> 'k mmap_arena \<Rightarrow> bool" where
  "mgroups_ok M s \<longleftrightarrow> (\<forall>g \<in> mgroups s. \<exists>p. g = unat p \<and> (p, 4096) \<in> M) \<and>
     (\<exists>gs. in_links (\<lambda>g. g \<in> mgroups s) gs (mgroup_list s) \<and> set gs = mgroups s) \<and>
     (\<forall>r. mrecords s r \<noteq> None \<longleftrightarrow> (\<exists>g i. g \<in> mgroups s \<and> i < MMAP_RECORDS_PER_GROUP \<and> r = mrecord_at g i))"

definition mlists_ok :: "'k mmap_arena \<Rightarrow> bool" where
  "mlists_ok s \<longleftrightarrow> (\<exists>xs. in_links (valid_mrec s) xs (rec_prev s, rec_next s, active_list_head s) \<and> set xs = {r. \<exists>c. mrecords s r = Some c \<and> region_len c \<noteq> 0}) \<and>
     (\<exists>xs. in_links (valid_mrec s) xs (rec_prev s, rec_next s, inactive_list_head s) \<and> set xs = {r. \<exists>c. mrecords s r = Some c \<and> region_len c = 0})"

definition mregions_ok :: "(u64 \<times> u64) set \<Rightarrow> 'k mmap_arena \<Rightarrow> bool" where
  "mregions_ok M s \<longleftrightarrow> (\<forall>r p len. mmap_regions s r = Some (p, len) \<longrightarrow> (p, len) \<in> M \<and> unat p \<notin> mgroups s) \<and>
     (\<forall>r r' a. mmap_regions s r = Some a \<longrightarrow> mmap_regions s r' = Some a \<longrightarrow> r = r')"

definition mmap_ok :: "'k kernel \<Rightarrow> ('k \<Rightarrow> (u64 \<times> u64) set) \<Rightarrow> ('k \<Rightarrow> nat) \<Rightarrow> 'k mmap_arena \<Rightarrow> bool" where
  "mmap_ok K mapped credit s \<longleftrightarrow> kernel_ok K mapped credit \<and> apart (mapped (kernel_state s)) \<and> mgroups_ok (mapped (kernel_state s)) s \<and> mlists_ok s \<and>
     mregions_ok (mapped (kernel_state s)) s"

text \<open>A request needs at most two mappings.\<close>

definition mmap_credit :: "('k \<Rightarrow> nat) \<Rightarrow> 'k mmap_arena \<Rightarrow> nat" where
  "mmap_credit credit s = credit (kernel_state s) div 2"

lemma mmap_okD:
  assumes "mmap_ok K mapped credit s"
  shows "kernel_ok K mapped credit" "apart (mapped (kernel_state s))" "mgroups_ok (mapped (kernel_state s)) s" "mlists_ok s" "mregions_ok (mapped (kernel_state s)) s"
  using assms by (simp_all add: mmap_ok_def)

lemma mmap_cases:
  assumes "kernel_ok K mapped credit" "0 < len" "mmap K 0 len (PROT_READ OR PROT_WRITE) (MAP_PRIVATE OR MAP_ANONYMOUS) 0 0 k = (p, k')" "apart (mapped k)"
  shows "apart (mapped k') \<and> mapped k \<subseteq> mapped k' \<and> (len \<le> 0x80000 \<longrightarrow> (0 < credit k \<longrightarrow> \<not> sint p < 0) \<and> credit k \<le> Suc (credit k')) \<and> (\<not> sint p < 0 \<longrightarrow> (p, len) \<in> mapped k' \<and> (\<forall>a \<in> mapped k. region a \<inter> region (p, len) = {}))"
proof -
  have c: "if sint p < 0 then mapped k' = mapped k else p \<noteq> 0 \<and> unat p + unat len \<le> 2 ^ 64 \<and>
      (\<forall>a \<in> mapped k. region a \<inter> region (p, len) = {}) \<and> mapped k' = insert (p, len) (mapped k)"
    and cr: "len \<le> 0x80000 \<longrightarrow> (0 < credit k \<longrightarrow> \<not> sint p < 0) \<and> credit k \<le> Suc (credit k')"
    using assms(1-3) unfolding kernel_ok_def mmap_def by blast+
  show ?thesis
  proof (cases "sint p < 0")
    case False
    then have c: "p \<noteq> 0" "unat p + unat len \<le> 2 ^ 64" "\<forall>a \<in> mapped k. region a \<inter> region (p, len) = {}" "mapped k' = insert (p, len) (mapped k)" using c by simp_all
    have "apart (mapped k')" using assms(2,4) c(1-3) unfolding apart_def c(4) by (auto simp: Int_commute)
    then show ?thesis using c(3,4) cr by auto
  qed (use c cr assms(4) in simp)
qed

lemma region_start: "0 < len \<Longrightarrow> unat p \<in> region (p, len)"
  by (simp add: region_def word_less_nat_alt)

lemma mrecord_at_inj [simp]: "mrecord_at g i = mrecord_at g j \<longleftrightarrow> i = j"
  by (simp add: mrecord_at_def)

lemma mgroup_size [simp]: "MMAP_RECORDS_PER_GROUP = 127"
  by (simp add: MMAP_RECORDS_PER_GROUP_def)

section \<open>Groups of records\<close>

lemma fold_mlinks:
  "distinct is \<Longrightarrow> fold (\<lambda>i f. f(mrecord_at g i := Some (mrecord_at g (i + 1)))) is f (mrecord_at g j) = (if j \<in> set is then Some (mrecord_at g (j + 1)) else f (mrecord_at g j))"
  "distinct is \<Longrightarrow> fold (\<lambda>i f. f(mrecord_at g (i + 1) := Some (mrecord_at g i))) is f (mrecord_at g j) = (if j \<in> Suc ` set is then Some (mrecord_at g (j - 1)) else f (mrecord_at g j))"
  by (induction "is" arbitrary: f) auto

lemma link_mgroup_ok:
  assumes "prv (mrecord_at g 0) = None" "\<forall>i < 127. valid (mrecord_at g i)"
  shows "\<exists>prv' nxt'. link_mgroup g (prv, nxt, None) = (prv', nxt', None) \<and> in_links valid (map (mrecord_at g) [0..<127]) (prv', nxt', Some (mrecord_at g 0)) \<and>
    (\<forall>j. j \<notin> mrecord_at g ` {..<127} \<longrightarrow> prv' j = prv j \<and> nxt' j = nxt j)"
proof -
  define nxt' where "nxt' = (fold (\<lambda>i nxt. nxt(mrecord_at g i := Some (mrecord_at g (i + 1)))) [0..<126] nxt)(mrecord_at g 126 := None)"
  define prv' where "prv' = fold (\<lambda>i prv. prv(mrecord_at g (i + 1) := Some (mrecord_at g i))) [0..<126] prv"
  have l: "link_mgroup g (prv, nxt, None) = (prv', nxt', None)" by (simp add: link_mgroup_def Let_def nxt'_def prv'_def)
  have P: "prv' (mrecord_at g i) = (if i = 0 then None else Some (mrecord_at g (i - 1)))" if "i < 127" for i
  proof -
    have "prv' (mrecord_at g i) = (if i \<in> Suc ` set [0..<126] then Some (mrecord_at g (i - 1)) else prv (mrecord_at g i))" unfolding prv'_def by (rule fold_mlinks) simp
    moreover have "i \<in> Suc ` set [0..<126] \<longleftrightarrow> i \<noteq> 0" using that by (cases i) auto
    ultimately show ?thesis using assms(1) by simp
  qed
  have N: "nxt' (mrecord_at g i) = (if i = 126 then None else Some (mrecord_at g (i + 1)))" if "i < 127" for i
  proof -
    have "(fold (\<lambda>i nxt. nxt(mrecord_at g i := Some (mrecord_at g (i + 1)))) [0..<126] nxt) (mrecord_at g i) =
      (if i \<in> set [0..<126] then Some (mrecord_at g (i + 1)) else nxt (mrecord_at g i))" by (rule fold_mlinks) simp
    then show ?thesis using that by (simp add: nxt'_def)
  qed
  have "seg prv' nxt' (if n = 0 then None else Some (mrecord_at g (n - 1))) (map (mrecord_at g) [n..<127]) None" if "n \<le> 127" for n
    using that
  proof (induction "127 - n" arbitrary: n)
    case 0
    then show ?case by simp
  next
    case (Suc m)
    then have n: "n < 127" by simp
    then have "[n..<127] = n # [Suc n..<127]" by (rule upt_conv_Cons)
    moreover have "seg prv' nxt' (Some (mrecord_at g n)) (map (mrecord_at g) [Suc n..<127]) None" using Suc.hyps(1) [of "Suc n"] Suc.hyps(2) by simp
    moreover have "first (map (mrecord_at g) [Suc n..<127]) None = (if n = 126 then None else Some (mrecord_at g (n + 1)))"
      using n by (cases "n = 126") (simp_all add: upt_conv_Cons)
    ultimately show ?case using P [OF n] N [OF n] by (auto simp: Dll.seg.simps)
  qed
  from this [of 0] have "chain prv' nxt' (map (mrecord_at g) [0..<127])" by simp
  moreover have "distinct (map (mrecord_at g) [0..<127])" by (simp add: distinct_map inj_on_def)
  moreover have "first (map (mrecord_at g) [0..<127]) None = Some (mrecord_at g 0)" by (simp add: upt_conv_Cons)
  ultimately have L: "in_links valid (map (mrecord_at g) [0..<127]) (prv', nxt', Some (mrecord_at g 0))" using assms(2) by (auto simp: in_links_def)
  have "prv' j = prv j \<and> nxt' j = nxt j" if j: "j \<notin> mrecord_at g ` {..<127}" for j
  proof -
    have "fold (\<lambda>i prv. prv(mrecord_at g (i + 1) := Some (mrecord_at g i))) is f j = f j" if "set is \<subseteq> {..<126}" for "is" f
      using that j by (induction "is" arbitrary: f) auto
    moreover have "fold (\<lambda>i nxt. nxt(mrecord_at g i := Some (mrecord_at g (i + 1)))) is f j = f j" if "set is \<subseteq> {..<126}" for "is" f
      using that j by (induction "is" arbitrary: f) auto
    moreover have "set [0..<126] \<subseteq> {..<126 :: nat}" "j \<noteq> mrecord_at g 126" using j by auto
    ultimately show ?thesis unfolding prv'_def nxt'_def by simp
  qed
  then show ?thesis using l L by blast
qed

lemma mlists_okD:
  assumes "mlists_ok s"
  obtains as "is" where "in_links (valid_mrec s) as (rec_prev s, rec_next s, active_list_head s)" "set as = {r. \<exists>c. mrecords s r = Some c \<and> region_len c \<noteq> 0}"
    "in_links (valid_mrec s) is (rec_prev s, rec_next s, inactive_list_head s)" "set is = {r. \<exists>c. mrecords s r = Some c \<and> region_len c = 0}"
  using assms unfolding mlists_ok_def by blast

lemma mlists_okI:
  assumes "in_links (valid_mrec s) as (rec_prev s, rec_next s, active_list_head s)" "set as = {r. \<exists>c. mrecords s r = Some c \<and> region_len c \<noteq> 0}"
    "in_links (valid_mrec s) is (rec_prev s, rec_next s, inactive_list_head s)" "set is = {r. \<exists>c. mrecords s r = Some c \<and> region_len c = 0}"
  shows "mlists_ok s"
  unfolding mlists_ok_def using assms by blast

text \<open>A new mapping that the records do not use yet.\<close>

lemma kernel_step:
  assumes s: "mmap_ok K mapped credit s" and m: "apart (mapped k)" "mapped (kernel_state s) \<subseteq> mapped k"
  shows "mmap_ok K mapped credit (s\<lparr>kernel_state := k\<rparr>)" "mmap_regions (s\<lparr>kernel_state := k\<rparr>) = mmap_regions s"
proof -
  note S = mmap_okD [OF s]
  show e: "mmap_regions (s\<lparr>kernel_state := k\<rparr>) = mmap_regions s" by (simp add: mmap_regions_def fun_eq_iff)
  have "mgroups_ok (mapped k) (s\<lparr>kernel_state := k\<rparr>)" using S(3) m(2) unfolding mgroups_ok_def by (auto; blast)
  moreover have "mlists_ok (s\<lparr>kernel_state := k\<rparr>)" using S(4) by (simp add: mlists_ok_def)
  moreover have "mregions_ok (mapped k) (s\<lparr>kernel_state := k\<rparr>)" using S(5) m(2) unfolding mregions_ok_def e by auto
  ultimately show "mmap_ok K mapped credit (s\<lparr>kernel_state := k\<rparr>)" using S(1) m(1) by (simp add: mmap_ok_def)
qed

lemma alloc_mgroup_ok:
  assumes s: "mmap_ok K mapped credit s" and e: "inactive_list_head s = None"
  shows "\<exists>s'. allocate_mmap_record_group K s = Some s' \<and> mmap_ok K mapped credit s' \<and> mmap_regions s' = mmap_regions s \<and>
    (0 < credit (kernel_state s) \<longrightarrow> inactive_list_head s' \<noteq> None) \<and> credit (kernel_state s) \<le> Suc (credit (kernel_state s'))"
proof -
  note S = mmap_okD [OF s]
  obtain p k where a: "mmap K 0 4096 (PROT_READ OR PROT_WRITE) (MAP_PRIVATE OR MAP_ANONYMOUS) 0 0 (kernel_state s) = (p, k)" by (cases "mmap K 0 4096 (PROT_READ OR PROT_WRITE) (MAP_PRIVATE OR MAP_ANONYMOUS) 0 0 (kernel_state s)")
  have m: "apart (mapped k)" "mapped (kernel_state s) \<subseteq> mapped k"
    "\<not> sint p < 0 \<Longrightarrow> (p, 4096) \<in> mapped k \<and> (\<forall>a \<in> mapped (kernel_state s). region a \<inter> region (p, 4096) = {})"
    "0 < credit (kernel_state s) \<Longrightarrow> \<not> sint p < 0" "credit (kernel_state s) \<le> Suc (credit k)"
    using mmap_cases [OF S(1) _ a S(2)] by simp_all
  show ?thesis
  proof (cases "sint p < 0")
    case True
    then show ?thesis using a kernel_step [OF s m(1,2)] m(4,5) by (intro exI [of _ "s\<lparr>kernel_state := k\<rparr>"]) (auto simp: allocate_mmap_record_group_def)
  next
    case False
    have m': "(p, 4096) \<in> mapped k" "\<And>a. a \<in> mapped (kernel_state s) \<Longrightarrow> region a \<inter> region (p, 4096) = {}" using m(3) [OF False] by blast+
    define g where "g = unat p"
    have inp: "g + j \<in> region (p, 4096)" if "j < 4096" for j using that by (simp add: region_def g_def)
    have oldg: "region (p, 4096) \<inter> {h ..< h + 4096} = {}" if h: "h \<in> mgroups s" for h
    proof -
      obtain q where "h = unat q" "(q, 4096) \<in> mapped (kernel_state s)" using S(3) h unfolding mgroups_ok_def by blast
      then show ?thesis using m'(2) [of "(q, 4096)"] by (auto simp: region_def Int_commute)
    qed
    have "g \<in> {g ..< g + 4096}" "g \<in> region (p, 4096)" using inp [of 0] by simp_all
    then have newg: "g \<notin> mgroups s" using oldg [of g] by blast
    have newr: "mrecords s (mrecord_at g i) = None" if i: "i < 127" for i
    proof (rule ccontr)
      assume "mrecords s (mrecord_at g i) \<noteq> None"
      then obtain h j where h: "h \<in> mgroups s" "j < 127" "mrecord_at g i = mrecord_at h j" using S(3) unfolding mgroups_ok_def by auto
      have "mrecord_at g i \<in> region (p, 4096)" using inp [of "16 + 32 * i"] i by (simp add: mrecord_at_def add.assoc)
      moreover have "mrecord_at g i \<in> {h ..< h + 4096}" unfolding h(3) using h(2) by (simp add: mrecord_at_def)
      ultimately show False using oldg [OF h(1)] by blast
    qed
    define R where "R = set (map (mrecord_at g) [0..<127])"
    have R: "r \<in> R \<longleftrightarrow> (\<exists>i < 127. r = mrecord_at g i)" for r by (auto simp: R_def)
    have oldR: "mrecords s r = Some c \<Longrightarrow> r \<notin> R" for r c using newr by (auto simp: R)
    obtain gs where gs: "in_links (\<lambda>h. h \<in> mgroups s) gs (mgroup_list s)" "set gs = mgroups s" using S(3) unfolding mgroups_ok_def by blast
    obtain gprv gnxt ghead where gl: "zero_links {g} (mgroup_list s) = (gprv, gnxt, ghead)" using links_cases by blast
    have gz: "in_links (\<lambda>h. h \<in> insert g (mgroups s)) gs (gprv, gnxt, ghead)" unfolding gl [symmetric] by (rule in_links_zero [OF gs(1)]) (use gs(2) newg in auto)
    have gp: "gprv g = None" using fst_zero_links [of "{g}" "mgroup_list s" g] unfolding gl by simp
    have gn: "g \<in> insert g (mgroups s)" "g \<notin> set gs" using gs(2) newg by auto
    obtain gprv' gnxt' where push: "push_front (\<lambda>h. h \<in> insert g (mgroups s)) g (gprv, gnxt, ghead) = Some (gprv', gnxt', Some g)"
      "in_links (\<lambda>h. h \<in> insert g (mgroups s)) (g # gs) (gprv', gnxt', Some g)" using push_front_ok [OF gz gn gp] by blast
    obtain as "is" where L: "in_links (valid_mrec s) as (rec_prev s, rec_next s, active_list_head s)" "set as = {r. \<exists>c. mrecords s r = Some c \<and> region_len c \<noteq> 0}"
      "in_links (valid_mrec s) is (rec_prev s, rec_next s, inactive_list_head s)" "set is = {r. \<exists>c. mrecords s r = Some c \<and> region_len c = 0}"
      using mlists_okD [OF S(4)] .
    have is0: "set is = {}" using in_links_None [OF L(3) [unfolded e]] by simp
    define zprv znxt where "zprv = (\<lambda>r. if r \<in> R then None else rec_prev s r)" and "znxt = (\<lambda>r. if r \<in> R then None else rec_next s r)"
    have z: "zero_links R (rec_prev s, rec_next s, None) = (zprv, znxt, None)" by (simp add: zero_links_simps zprv_def znxt_def)
    define rs where "rs = (\<lambda>r. if r \<in> R then Some \<lparr>region_len = 0, region_ptr = 0\<rparr> else mrecords s r)"
    have zp: "zprv (mrecord_at g 0) = None" "\<forall>i < 127. rs (mrecord_at g i) \<noteq> None" by (auto simp: zprv_def rs_def R)
    obtain prv' nxt' where link: "link_mgroup g (zprv, znxt, None) = (prv', nxt', None)"
      "in_links (\<lambda>r. rs r \<noteq> None) (map (mrecord_at g) [0..<127]) (prv', nxt', Some (mrecord_at g 0))"
      "\<forall>j. j \<notin> mrecord_at g ` {..<127} \<longrightarrow> prv' j = zprv j \<and> nxt' j = znxt j"
      using link_mgroup_ok [of zprv g "\<lambda>r. rs r \<noteq> None" znxt, OF zp] by blast
    define s' where "s' = s\<lparr>kernel_state := k, mgroups := insert g (mgroups s), mgroup_list := (gprv', gnxt', Some g), mrecords := rs,
      rec_prev := prv', rec_next := nxt', inactive_list_head := Some (mrecord_at g 0)\<rparr>"
    have run: "allocate_mmap_record_group K s = Some s'"
      unfolding allocate_mmap_record_group_def a prod.case Let_def mgroup_size g_def [symmetric] R_def [symmetric]
      using False by (simp add: e z link(1) gl push(1) [simplified] s'_def rs_def cong: if_cong)
    have r': "mrecords s' = rs" "kernel_state s' = k" "mgroups s' = insert g (mgroups s)" "mgroup_list s' = (gprv', gnxt', Some g)" "rec_prev s' = prv'" "rec_next s' = nxt'"
      "active_list_head s' = active_list_head s" "inactive_list_head s' = Some (mrecord_at g 0)" by (simp_all add: s'_def)
    have keep: "mrecords s r = Some c \<Longrightarrow> rs r = Some c" for r c using oldR by (simp add: rs_def)
    have reg: "mmap_regions s' = mmap_regions s"
    proof
      show "mmap_regions s' r = mmap_regions s r" for r using newr by (auto simp: mmap_regions_def r' rs_def R)
    qed
    have "mgroups_ok (mapped k) s'"
    proof -
      have "\<exists>q. h = unat q \<and> (q, 4096) \<in> mapped k" if h: "h \<in> mgroups s'" for h
      proof (cases "h = g")
        case False
        then have "h \<in> mgroups s" using h by (simp add: r')
        then show ?thesis using S(3) m(2) unfolding mgroups_ok_def by blast
      qed (use m'(1) g_def in blast)
      moreover have "rs r \<noteq> None \<longleftrightarrow> (\<exists>h i. h \<in> mgroups s' \<and> i < 127 \<and> r = mrecord_at h i)" for r
      proof -
        have "mrecords s r \<noteq> None \<longleftrightarrow> (\<exists>h i. h \<in> mgroups s \<and> i < 127 \<and> r = mrecord_at h i)" using S(3) unfolding mgroups_ok_def by simp
        then show ?thesis by (auto simp: rs_def r' R)
      qed
      moreover have "set (g # gs) = mgroups s'" using gs(2) by (simp add: r')
      moreover have "in_links (\<lambda>h. h \<in> mgroups s') (g # gs) (mgroup_list s')" using push(2) by (simp only: r')
      ultimately show ?thesis unfolding mgroups_ok_def r'(1) mgroup_size by blast
    qed
    moreover have "mlists_ok s'"
    proof (rule mlists_okI)
      show "in_links (valid_mrec s') as (rec_prev s', rec_next s', active_list_head s')" unfolding r'
      proof (rule in_links_cong [OF L(1)])
        show "rs x \<noteq> None" if "x \<in> set as" for x using that L(2) keep by auto
        show "prv' x = rec_prev s x \<and> nxt' x = rec_next s x" if "x \<in> set as" for x
        proof -
          have "x \<notin> R" using that L(2) oldR by auto
          moreover from this have "x \<notin> mrecord_at g ` {..<127}" by (auto simp: R)
          ultimately show ?thesis using link(3) by (simp add: zprv_def znxt_def)
        qed
      qed
      show "set as = {r. \<exists>c. mrecords s' r = Some c \<and> region_len c \<noteq> 0}" using L(2) oldR by (auto simp: r' rs_def split: if_splits)
      show "in_links (valid_mrec s') (map (mrecord_at g) [0..<127]) (rec_prev s', rec_next s', inactive_list_head s')" unfolding r' using link(2) .
      show "set (map (mrecord_at g) [0..<127]) = {r. \<exists>c. mrecords s' r = Some c \<and> region_len c = 0}"
        using L(4) is0 by (auto simp: r' rs_def R split: if_splits)
    qed
    moreover have "mregions_ok (mapped k) s'"
    proof -
      have "unat q \<noteq> g" if "mmap_regions s r = Some (q, len)" for r q len
      proof -
        have "(q, len) \<in> mapped (kernel_state s)" using S(5) that unfolding mregions_ok_def by blast
        then have "region (q, len) \<inter> region (p, 4096) = {}" "0 < len" using m'(2) S(2) unfolding apart_def by blast+
        then show ?thesis using region_start [of len q] inp [of 0] by auto
      qed
      then show ?thesis using S(5) m(2) unfolding mregions_ok_def reg r'(3) by (auto; blast)
    qed
    ultimately have "mmap_ok K mapped credit s'" using S(1) m(1) unfolding mmap_ok_def r'(2) by blast
    moreover have "inactive_list_head s' \<noteq> None \<and> credit (kernel_state s) \<le> Suc (credit (kernel_state s'))" using m(5) by (simp add: r')
    ultimately show ?thesis using run reg by blast
  qed
qed

section \<open>Allocation and release\<close>

lemma regions_update:
  "mmap_regions s' r = (if r = st then (if region_len c = 0 then None else Some (region_ptr c, region_len c)) else mmap_regions s r)"
  if "mrecords s' = (mrecords s)(st \<mapsto> c)"
  using that by (simp add: mmap_regions_def)

lemma mgroups_cong:
  assumes "mgroups_ok M s" "mgroups s' = mgroups s" "mgroup_list s' = mgroup_list s" "valid_mrec s' = valid_mrec s" "\<And>p. unat p \<in> mgroups s \<Longrightarrow> (p, 4096) \<in> M \<Longrightarrow> (p, 4096) \<in> M'"
  shows "mgroups_ok M' s'"
proof -
  have "valid_mrec s' r \<longleftrightarrow> valid_mrec s r" for r using fun_cong [OF assms(4)] .
  moreover have "\<forall>g \<in> mgroups s. \<exists>p. g = unat p \<and> (p, 4096) \<in> M'"
  proof
    fix g assume g: "g \<in> mgroups s"
    have "\<forall>g \<in> mgroups s. \<exists>p. g = unat p \<and> (p, 4096) \<in> M" using assms(1) by (simp add: mgroups_ok_def)
    then obtain p where "g = unat p" "(p, 4096) \<in> M" using g by blast
    then show "\<exists>p. g = unat p \<and> (p, 4096) \<in> M'" using assms(5) [of p] g by blast
  qed
  ultimately show ?thesis using assms(1) unfolding mgroups_ok_def assms(2,3) by simp
qed

lemma mmap_alloc_ok:
  assumes s: "mmap_ok K mapped credit s" and len: "len \<in> {4096, 0x80000}"
  shows "\<exists>res s'. mmap_alloc K len s = Some (res, s') \<and> mmap_ok K mapped credit s' \<and>
    (0 < mmap_credit credit s \<longrightarrow> res \<noteq> None) \<and> mmap_credit credit s \<le> Suc (mmap_credit credit s') \<and> (case res of None \<Rightarrow> mmap_regions s' = mmap_regions s | Some (p, x) \<Rightarrow> mmap_regions s x = None \<and> mmap_regions s' = (mmap_regions s)(x \<mapsto> (p, len)))"
proof -
  obtain s1 where s1: "(if inactive_list_head s = None then allocate_mmap_record_group K s else Some s) = Some s1" "mmap_ok K mapped credit s1" "mmap_regions s1 = mmap_regions s"
    "0 < credit (kernel_state s) \<longrightarrow> inactive_list_head s1 \<noteq> None" "credit (kernel_state s) \<le> Suc (credit (kernel_state s1))"
    using alloc_mgroup_ok [OF s] s by (cases "inactive_list_head s") auto
  note S = mmap_okD [OF s1(2)]
  have len0: "0 < len" "len \<noteq> 0" using len by auto
  show ?thesis
  proof (cases "inactive_list_head s1")
    case None
    then show ?thesis using s1 by (intro exI [of _ None] exI [of _ s1]) (auto simp: mmap_alloc_def mmap_credit_def)
  next
    case (Some st)
    obtain p k where a: "mmap K 0 len (PROT_READ OR PROT_WRITE) (MAP_PRIVATE OR MAP_ANONYMOUS) 0 0 (kernel_state s1) = (p, k)"
      by (cases "mmap K 0 len (PROT_READ OR PROT_WRITE) (MAP_PRIVATE OR MAP_ANONYMOUS) 0 0 (kernel_state s1)")
    have m: "apart (mapped k)" "mapped (kernel_state s1) \<subseteq> mapped k"
      "\<not> sint p < 0 \<Longrightarrow> (p, len) \<in> mapped k \<and> (\<forall>a \<in> mapped (kernel_state s1). region a \<inter> region (p, len) = {})"
      "0 < credit (kernel_state s1) \<Longrightarrow> \<not> sint p < 0" "credit (kernel_state s1) \<le> Suc (credit k)"
      using mmap_cases [OF S(1) len0(1) a S(2)] len by auto
    have cr: "mmap_credit credit s \<le> Suc (credit k div 2)" "0 < mmap_credit credit s \<Longrightarrow> \<not> sint p < 0"
      using s1(5) m(4,5) by (auto simp: mmap_credit_def)
    show ?thesis
    proof (cases "sint p < 0")
      case True
      then show ?thesis using s1(1,3) Some a kernel_step [OF s1(2) m(1,2)] cr
        by (intro exI [of _ None] exI [of _ "s1\<lparr>kernel_state := k\<rparr>"]) (auto simp: mmap_alloc_def mmap_credit_def)
    next
      case False
      have m': "(p, len) \<in> mapped k" "\<And>a. a \<in> mapped (kernel_state s1) \<Longrightarrow> region a \<inter> region (p, len) = {}" using m(3) [OF False] by blast+
      have fresh: "(p, len) \<notin> mapped (kernel_state s1)" using m'(2) [of "(p, len)"] region_start [OF len0(1), of p] by blast
      obtain as ys where L: "in_links (valid_mrec s1) as (rec_prev s1, rec_next s1, active_list_head s1)" "set as = {r. \<exists>c. mrecords s1 r = Some c \<and> region_len c \<noteq> 0}"
        "in_links (valid_mrec s1) ys (rec_prev s1, rec_next s1, inactive_list_head s1)" "set ys = {r. \<exists>c. mrecords s1 r = Some c \<and> region_len c = 0}"
        using mlists_okD [OF S(4)] .
      obtain xs where ys: "ys = st # xs" using in_links_first [OF L(3) Some] by blast
      obtain prv where pop: "pop_head (valid_mrec s1) st (rec_prev s1, rec_next s1, Some st) = Some (prv, rec_next s1, first xs None)"
        "in_links (valid_mrec s1) xs (prv, rec_next s1, first xs None)"
        "links_except (set xs) (rec_prev s1, rec_next s1, Some st) (prv, rec_next s1, first xs None)" "prv st = None"
        using pop_head_ok [OF L(3) [unfolded ys Some]] by blast
      obtain c where c: "mrecords s1 st = Some c" "region_len c = 0" using L(4) by (auto simp: ys)
      define rs where "rs = (mrecords s1)(st \<mapsto> \<lparr>region_len = len, region_ptr = p\<rparr>)"
      have v: "(\<lambda>r. rs r \<noteq> None) = valid_mrec s1" using c(1) by (auto simp: rs_def)
      have disj: "x \<in> set as \<Longrightarrow> x \<notin> set ys" for x using L(2,4) by auto
      have stx: "st \<notin> set xs" "st \<notin> set as" using L(3) disj [of st] by (auto simp: in_links_def ys)
      have LA: "in_links (valid_mrec s1) as (prv, rec_next s1, active_list_head s1)"
        by (rule in_links_cong [OF L(1)]) (use pop(3) disj in \<open>auto simp: links_except_def ys\<close>)
      have vst: "valid_mrec s1 st" using c(1) by simp
      obtain prv' nxt' where push: "push_front (valid_mrec s1) st (prv, rec_next s1, active_list_head s1) = Some (prv', nxt', Some st)"
        "in_links (valid_mrec s1) (st # as) (prv', nxt', Some st)" "links_except (insert st (set as)) (prv, rec_next s1, active_list_head s1) (prv', nxt', Some st)"
        using push_front_ok [OF LA vst stx(2) pop(4)] by blast
      have "x \<notin> insert st (set as)" if "x \<in> set xs" for x using that disj [of x] stx(1) by (auto simp: ys)
      then have LI: "in_links (valid_mrec s1) xs (prv', nxt', first xs None)"
        using push(3) by (intro in_links_cong [OF pop(2)]) (simp_all add: links_except_def)
      define s' where "s' = s1\<lparr>kernel_state := k, mrecords := rs, rec_prev := prv', rec_next := nxt', active_list_head := Some st, inactive_list_head := first xs None\<rparr>"
      have run: "mmap_alloc K len s = Some (Some (p, st), s')"
        unfolding mmap_alloc_def s1(1) Option.bind.bind_lunit Some option.case a prod.case Let_def
        using False pop(1) push(1) v by (simp add: s'_def rs_def [symmetric] Some)
      have r': "mrecords s' = rs" "kernel_state s' = k" "mgroups s' = mgroups s1" "mgroup_list s' = mgroup_list s1" "rec_prev s' = prv'" "rec_next s' = nxt'"
        "active_list_head s' = Some st" "inactive_list_head s' = first xs None" by (simp_all add: s'_def)
      have reg: "mmap_regions s' = (mmap_regions s1)(st \<mapsto> (p, len))" using regions_update [of s' s1 st] len0(2) by (auto simp: r' rs_def)
      have none: "mmap_regions s1 st = None" using c by (simp add: mmap_regions_def)
      have "mgroups_ok (mapped k) s'" using m(2) v by (intro mgroups_cong [OF S(3)]) (auto simp: r')
      moreover have "mlists_ok s'"
      proof (rule mlists_okI)
        show "in_links (valid_mrec s') (st # as) (rec_prev s', rec_next s', active_list_head s')" unfolding r' v by (rule push(2))
        show "set (st # as) = {r. \<exists>c. mrecords s' r = Some c \<and> region_len c \<noteq> 0}" using L(2) len0(2) by (auto simp: r' rs_def)
        show "in_links (valid_mrec s') xs (rec_prev s', rec_next s', inactive_list_head s')" unfolding r' v by (rule LI)
        show "set xs = {r. \<exists>c. mrecords s' r = Some c \<and> region_len c = 0}" using L(4) stx(1) len0(2) unfolding ys by (auto simp: r' rs_def)
      qed
      moreover have "mregions_ok (mapped k) s'"
      proof -
        have O: "(q, l) \<in> mapped (kernel_state s1)" "unat q \<notin> mgroups s1" if "mmap_regions s1 r = Some (q, l)" for r q l
          using S(5) that unfolding mregions_ok_def by blast+
        have "unat p \<notin> mgroups s1"
        proof
          assume "unat p \<in> mgroups s1"
          then obtain q where "unat p = unat q" "(q, 4096) \<in> mapped (kernel_state s1)" using S(3) unfolding mgroups_ok_def by blast
          then show False using m'(2) [of "(q, 4096)"] region_start [OF len0(1), of p] region_start [of 4096 q] by auto
        qed
        moreover have "r = st" if "mmap_regions s1 r = Some (p, len)" for r using O(1) [OF that] fresh by simp
        ultimately show ?thesis using S(5) m(2) m'(1) unfolding mregions_ok_def reg r'(3) by (auto split: if_splits)
      qed
      ultimately have "mmap_ok K mapped credit s'" using S(1) m(1) unfolding mmap_ok_def r'(2) by blast
      then show ?thesis using run reg none s1(3) cr(1) by (auto simp: mmap_credit_def r')
    qed
  qed
qed

lemma leave_active_ok:
  assumes l: "in_links valid (as @ st # bs) (prv, nxt, head)"
  shows "\<exists>prv' nxt'. leave_active valid st (prv, nxt, head) = Some (prv', nxt', first (as @ bs) None) \<and> in_links valid (as @ bs) (prv', nxt', first (as @ bs) None) \<and>
    links_except (set (as @ st # bs)) (prv, nxt, head) (prv', nxt', first (as @ bs) None) \<and> prv' st = None"
proof -
  have L: "distinct (as @ st # bs)" "\<forall>x \<in> set (as @ st # bs). valid x" "chain prv nxt (as @ st # bs)" "head = first (as @ st # bs) None"
    using l by (auto simp: in_links_def)
  have p: "prv st = final None as" "nxt st = first bs None" using L(3) by simp_all
  have a: "a \<in> set as \<and> a \<noteq> st" if "final None as = Some a" for a using final_in [OF that] L(1) by auto
  have b: "b \<in> set bs \<and> b \<noteq> st" if "first bs None = Some b" for b using first_in [OF that] L(1) by auto
  define prv1 where "prv1 = (case first bs None of None \<Rightarrow> prv | Some b \<Rightarrow> prv(b := final None as))"
  define nxt' where "nxt' = (case final None as of None \<Rightarrow> nxt | Some a \<Rightarrow> nxt(a := first bs None))"
  define prv' where "prv' = (if as = [] then prv1 else prv1(st := None))"
  have st: "prv1 st = final None as" using b p(1) by (auto simp: prv1_def split: option.split)
  have v: "set_if valid (nxt st) (prv st) prv = Some prv1" using b L(2) p by (auto simp: prv1_def split: option.split)
  have n: "set_if valid (prv1 st) (nxt st) nxt = Some nxt'" using a L(2) p unfolding st by (auto simp: nxt'_def split: option.split)
  have run: "leave_active valid st (prv, nxt, head) = Some (prv', nxt', first (as @ bs) None)"
  proof (cases "as = []")
    case True
    then show ?thesis using L(2) v p(2) by (simp add: leave_active_def st prv'_def nxt'_def)
  next
    case False
    then have "prv1 st \<noteq> None" using st by simp
    moreover have "first (as @ bs) None = head" unfolding L(4) using False by (cases as) simp_all
    moreover have "deref valid (Some st) = Some st" using L(2) by simp
    ultimately show ?thesis using False unfolding leave_active_def prod.case prv'_def by (simp only: v n Option.bind.bind_lunit if_True if_False not_False_eq_True)
  qed
  have "chain prv' nxt' (as @ bs)"
  proof (rule chain_remove [OF L(3,1)])
    show "prv' j = link_prev (first bs None) (final None as) prv j \<and> nxt' j = link_next (final None as) (first bs None) nxt j" if "j \<in> set (as @ bs)" for j
      using that L(1) by (auto simp: prv'_def prv1_def nxt'_def split: option.split)
  qed
  moreover have "links_except (set (as @ st # bs)) (prv, nxt, head) (prv', nxt', first (as @ bs) None)"
    using a b by (auto simp: links_except_def prv'_def prv1_def nxt'_def split: option.split)
  moreover have "prv' st = None" using st by (simp add: prv'_def)
  ultimately show ?thesis using run L(1,2) by (auto simp: in_links_def)
qed

lemma mmap_free_ok:
  assumes s: "mmap_ok K mapped credit s" and x: "mmap_regions s st = Some (p, len)"
  shows "\<exists>s'. mmap_free K p st s = Some s' \<and> mmap_ok K mapped credit s' \<and> mmap_regions s' = (mmap_regions s)(st := None)"
proof -
  note S = mmap_okD [OF s]
  obtain c where c: "mrecords s st = Some c" "region_len c \<noteq> 0" "region_ptr c = p" "region_len c = len" using x by (auto simp: mmap_regions_def split: option.splits if_splits)
  obtain r k where a: "munmap K p len (kernel_state s) = (r, k)" by (cases "munmap K p len (kernel_state s)")
  have inM: "(p, len) \<in> mapped (kernel_state s)" "unat p \<notin> mgroups s" using S(5) x unfolding mregions_ok_def by blast+
  have M: "mapped k = mapped (kernel_state s) - {(p, len)}" using S(1) inM(1) a unfolding kernel_ok_def munmap_def by blast
  obtain ys "is" where L: "in_links (valid_mrec s) ys (rec_prev s, rec_next s, active_list_head s)" "set ys = {r. \<exists>c. mrecords s r = Some c \<and> region_len c \<noteq> 0}"
    "in_links (valid_mrec s) is (rec_prev s, rec_next s, inactive_list_head s)" "set is = {r. \<exists>c. mrecords s r = Some c \<and> region_len c = 0}"
    using mlists_okD [OF S(4)] .
  have "st \<in> set ys" using L(2) c by auto
  then obtain as bs where ys: "ys = as @ st # bs" using split_list by metis
  obtain prv nxt where out: "leave_active (valid_mrec s) st (rec_prev s, rec_next s, active_list_head s) = Some (prv, nxt, first (as @ bs) None)"
    "in_links (valid_mrec s) (as @ bs) (prv, nxt, first (as @ bs) None)" "prv st = None"
    "links_except (set ys) (rec_prev s, rec_next s, active_list_head s) (prv, nxt, first (as @ bs) None)"
    using leave_active_ok [OF L(1) [unfolded ys]] unfolding ys by blast
  have disj: "x \<in> set is \<Longrightarrow> x \<notin> set ys" for x using L(2,4) by auto
  have LI: "in_links (valid_mrec s) is (prv, nxt, inactive_list_head s)"
    using disj out(4) by (intro in_links_cong [OF L(3)]) (simp_all add: links_except_def)
  have sti: "st \<notin> set is" "valid_mrec s st" using L(4) c by auto
  obtain prv' nxt' where push: "push_front (valid_mrec s) st (prv, nxt, inactive_list_head s) = Some (prv', nxt', Some st)"
    "in_links (valid_mrec s) (st # is) (prv', nxt', Some st)" "links_except (insert st (set is)) (prv, nxt, inactive_list_head s) (prv', nxt', Some st)"
    using push_front_ok [OF LI sti(2,1) out(3)] by blast
  have d: "st \<notin> set (as @ bs)" using L(1) by (simp add: in_links_def ys)
  have "x \<notin> insert st (set is)" if "x \<in> set (as @ bs)" for x using that d disj [of x] by (auto simp: ys)
  then have LA: "in_links (valid_mrec s) (as @ bs) (prv', nxt', first (as @ bs) None)"
    using push(3) by (intro in_links_cong [OF out(2)]) (simp_all add: links_except_def)
  define rs where "rs = (mrecords s)(st \<mapsto> \<lparr>region_len = 0, region_ptr = 0\<rparr>)"
  have v: "(\<lambda>r. rs r \<noteq> None) = valid_mrec s" using c(1) by (auto simp: rs_def)
  define s' where "s' = s\<lparr>kernel_state := k, mrecords := rs, rec_prev := prv', rec_next := nxt', active_list_head := first (as @ bs) None, inactive_list_head := Some st\<rparr>"
  have run: "mmap_free K p st s = Some s'"
    unfolding mmap_free_def c(1,3,4) Option.bind.bind_lunit a prod.case Let_def using out(1) push(1) v by (simp add: c(3,4) a s'_def rs_def [symmetric])
  have r': "mrecords s' = rs" "kernel_state s' = k" "mgroups s' = mgroups s" "mgroup_list s' = mgroup_list s" "rec_prev s' = prv'" "rec_next s' = nxt'"
    "active_list_head s' = first (as @ bs) None" "inactive_list_head s' = Some st" by (simp_all add: s'_def)
  have reg: "mmap_regions s' = (mmap_regions s)(st := None)" using regions_update [of s' s st] by (auto simp: r' rs_def)
  have "apart (mapped k)" using S(2) unfolding apart_def M by blast
  moreover have "mgroups_ok (mapped k) s'" using inM(2) v unfolding M by (intro mgroups_cong [OF S(3)]) (auto simp: r')
  moreover have "mlists_ok s'"
  proof (rule mlists_okI)
    show "in_links (valid_mrec s') (as @ bs) (rec_prev s', rec_next s', active_list_head s')" unfolding r' v by (rule LA)
    show "set (as @ bs) = {r. \<exists>c. mrecords s' r = Some c \<and> region_len c \<noteq> 0}" using L(2) d unfolding ys by (auto simp: r' rs_def)
    show "in_links (valid_mrec s') (st # is) (rec_prev s', rec_next s', inactive_list_head s')" unfolding r' v by (rule push(2))
    show "set (st # is) = {r. \<exists>c. mrecords s' r = Some c \<and> region_len c = 0}" using L(4) by (auto simp: r' rs_def)
  qed
  moreover have "mregions_ok (mapped k) s'"
  proof -
    have O: "(q, l) \<in> mapped (kernel_state s)" "unat q \<notin> mgroups s" if "mmap_regions s r = Some (q, l)" for r q l
      using S(5) that unfolding mregions_ok_def by blast+
    have I: "r = r'" if "mmap_regions s r = Some a" "mmap_regions s r' = Some a" for r r' a using S(5) that unfolding mregions_ok_def by blast
    have "(q, l) \<noteq> (p, len)" if "mmap_regions s r = Some (q, l)" "r \<noteq> st" for r q l using I [of r "(p, len)" st] that x by auto
    then show ?thesis unfolding mregions_ok_def reg r'(3) M using O I by (auto split: if_splits)
  qed
  ultimately have "mmap_ok K mapped credit s'" using S(1) unfolding mmap_ok_def r'(2) by blast
  then show ?thesis using run reg by blast
qed

section \<open>A provider of pages\<close>

interpretation mm: page_source "mmap_pages K" "mmap_ok K mapped credit" mmap_regions "mmap_credit credit" for K :: "'k kernel" and mapped credit
proof unfold_locales
  show "\<exists>res m'. page_alloc (mmap_pages K) len m = Some (res, m') \<and> mmap_ok K mapped credit m' \<and>
      (0 < mmap_credit credit m \<longrightarrow> res \<noteq> None) \<and> mmap_credit credit m \<le> Suc (mmap_credit credit m') \<and> (case res of None \<Rightarrow> mmap_regions m' = mmap_regions m | Some (p, x) \<Rightarrow> mmap_regions m x = None \<and> mmap_regions m' = (mmap_regions m)(x \<mapsto> (p, len)))"
    if "mmap_ok K mapped credit m" "len \<in> {4096, 0x80000}" for m len using mmap_alloc_ok [OF that] by (simp add: mmap_pages_def)
  show "\<exists>m'. page_free (mmap_pages K) p x m = Some m' \<and> mmap_ok K mapped credit m' \<and> mmap_regions m' = (mmap_regions m)(x := None)"
    if "mmap_ok K mapped credit m" "mmap_regions m x = Some (p, len)" for m x p len using mmap_free_ok [OF that] by (simp add: mmap_pages_def)
  show "p \<noteq> 0 \<and> unat p + unat len \<le> 2 ^ 64" if "mmap_ok K mapped credit m" "mmap_regions m x = Some (p, len)" for m x p len
    using mmap_okD(2,5) [OF that(1)] that(2) unfolding apart_def mregions_ok_def by blast
  show "region a \<inter> region b = {}" if "mmap_ok K mapped credit m" "mmap_regions m x = Some a" "mmap_regions m y = Some b" "x \<noteq> y" for m x y a b
  proof -
    have "a \<in> mapped (kernel_state m)" "b \<in> mapped (kernel_state m)" using mmap_okD(5) [OF that(1)] that(2,3) unfolding mregions_ok_def by (cases a; cases b; blast)+
    moreover have "a \<noteq> b" using mmap_okD(5) [OF that(1)] that(2-4) unfolding mregions_ok_def by blast
    ultimately show ?thesis using mmap_okD(2) [OF that(1)] unfolding apart_def by blast
  qed
qed

end
