(* ===== verification/BuddyProps.thy ===== *)
theory BuddyProps
  imports Mmap
begin

text \<open>
  The buddy allocator over \<open>mmap.c\<close>: what a client of \<open>buddy_alloc_0\<close> to \<open>buddy_alloc_6\<close> and
  \<open>buddy_free_0\<close> to \<open>buddy_free_6\<close> sees, for every kernel that keeps its promises.
\<close>

section \<open>All orders\<close>

definition buddy_alloc :: "nat \<Rightarrow> 'm pages \<Rightarrow> 'm buddy_arena \<Rightarrow> ((nat \<times> u64) option \<times> 'm buddy_arena) option" where
  "buddy_alloc k = [buddy_alloc_0, buddy_alloc_1, buddy_alloc_2, buddy_alloc_3, buddy_alloc_4, buddy_alloc_5, buddy_alloc_6] ! k"

definition buddy_free :: "nat \<Rightarrow> 'm pages \<Rightarrow> u64 \<Rightarrow> nat \<Rightarrow> 'm buddy_arena \<Rightarrow> 'm buddy_arena option" where
  "buddy_free k = [buddy_free_0, buddy_free_1, buddy_free_2, buddy_free_3, buddy_free_4, buddy_free_5, buddy_free_6] ! k"

lemma order_cases: "k < 7 \<Longrightarrow> k \<in> {0, 1, 2, 3, 4, 5, 6}" for k :: nat
  by auto

context page_source
begin

lemma alloc_all: "k < 7 \<Longrightarrow> alloc_spec ok regions credit k (buddy_alloc k P)"
  using buddy_alloc_ok order_cases [of k] by (auto simp: buddy_alloc_def)

lemma free_all: "k < 7 \<Longrightarrow> free_spec ok regions k (buddy_free k P)"
  using buddy_free_ok order_cases [of k] by (auto simp: buddy_free_def)

lemma block_in_region:
  assumes s: "buddy_ok ok regions s" and b: "(r, k, i) \<in> live_blocks s"
  shows "\<exists>c. records s r = Some c \<and> in_use c \<noteq> 0 \<and> regions (mmap_arena s) (chunk_mmap_ctx c) = Some (chunk c, 0x80000) \<and>
    block_range s (r, k, i) \<subseteq> region (chunk c, 0x80000) \<and> 0 \<notin> block_range s (r, k, i)"
proof -
  obtain c where c: "records s r = Some c" "in_use c \<noteq> 0" using liveE [OF b] by metis
  have k: "k \<le> 6" "i < 2 ^ (7 - k)" using live_block [OF s b] by simp_all
  have "Suc i * 2 ^ (12 + k) \<le> 2 ^ 19" using block_start_word(2) [OF k] .
  moreover have "0 < unat (chunk c)" using chunk_bound [OF s c] by (simp add: unat_gt_0)
  ultimately show ?thesis using c buddy_record [OF s c] by (auto simp: block_range_def region_def)
qed

lemma blocks_disjoint:
  assumes s: "buddy_ok ok regions s" and b: "b \<in> live_blocks s" and b': "b' \<in> live_blocks s" and ne: "b \<noteq> b'"
  shows "block_range s b \<inter> block_range s b' = {}"
proof -
  obtain r k i r' k' i' where bb: "b = (r, k, i)" "b' = (r', k', i')" by (cases b; cases b') auto
  obtain c where c: "records s r = Some c" "in_use c \<noteq> 0" "regions (mmap_arena s) (chunk_mmap_ctx c) = Some (chunk c, 0x80000)"
    "block_range s b \<subseteq> region (chunk c, 0x80000)" using block_in_region [OF s, of r k i] b unfolding bb by blast
  obtain c' where c': "records s r' = Some c'" "in_use c' \<noteq> 0" "regions (mmap_arena s) (chunk_mmap_ctx c') = Some (chunk c', 0x80000)"
    "block_range s b' \<subseteq> region (chunk c', 0x80000)" using block_in_region [OF s, of r' k' i'] b' unfolding bb by blast
  show ?thesis
  proof (cases "r = r'")
    case False
    then have "chunk_mmap_ctx c \<noteq> chunk_mmap_ctx c'" using chunks_inj [OF buddyD(5) [OF s] c(1) c'(1) c(2) c'(2)] by blast
    then have "region (chunk c, 0x80000) \<inter> region (chunk c', 0x80000) = {}" using region_disjoint [OF buddyD(1) [OF s] c(3) c'(3)] by blast
    then show ?thesis using c(4) c'(4) by blast
  next
    case True
    have t: "tiling (frees c \<union> given_out c)" using buddy_record [OF s c(1,2)] by (simp add: chunk_state_ok_def)
    have m: "(k, i) \<in> frees c \<union> given_out c" "(k', i') \<in> frees c \<union> given_out c" "(k, i) \<noteq> (k', i')"
      using b b' c(1) ne unfolding bb True by (auto simp: live_blocks_def)
    have d: "pages_of (k, i) \<inter> pages_of (k', i') = {}" using tiling_disjoint [OF t m] .
    have page: "(a - unat (chunk c)) div 4096 \<in> pages_of (n, j)" if "a \<in> block_range s (r, n, j)" for a n j
    proof -
      have "unat (chunk c) + j * 2 ^ (12 + n) \<le> a" "a < unat (chunk c) + Suc j * 2 ^ (12 + n)" using that c(1) by (auto simp: block_range_def)
      then have "j * 2 ^ (12 + n) \<le> a - unat (chunk c)" "a - unat (chunk c) < Suc j * 2 ^ (12 + n)" by linarith+
      then have "j * 2 ^ n * 4096 \<le> a - unat (chunk c)" "a - unat (chunk c) < Suc j * 2 ^ n * 4096" by (simp_all add: power_add algebra_simps)
      then show ?thesis by (simp add: pages_of_def less_eq_div_iff_mult_less_eq less_mult_imp_div_less del: mult_Suc)
    qed
    show ?thesis using page [of _ k i] page [of _ k' i'] d unfolding bb True by blast
  qed
qed

end

section \<open>A fresh arena and a kernel\<close>

definition empty_mmap :: "'k \<Rightarrow> 'k mmap_arena" where
  "empty_mmap k = \<lparr>kernel_state = k, mgroup_list = (\<lambda>_. None, \<lambda>_. None, None), mgroups = {}, mrecords = (\<lambda>_. None),
     rec_prev = (\<lambda>_. None), rec_next = (\<lambda>_. None), active_list_head = None, inactive_list_head = None\<rparr>"

definition empty_arena :: "'m \<Rightarrow> 'm buddy_arena" where
  "empty_arena m = \<lparr>mmap_arena = m, group_list = (\<lambda>_. None, \<lambda>_. None, None), group_mmap_ctx = (\<lambda>_. None), records = (\<lambda>_. None),
     empty_list = (\<lambda>_. None, \<lambda>_. None, None), avail_list = (\<lambda>_. (\<lambda>_. None, \<lambda>_. None, None)), chunk_num = 0\<rparr>"

lemma in_links_empty: "in_links valid [] (prv, nxt, None)" "set xs = {} \<longleftrightarrow> xs = []"
  by (auto simp: in_links_def)

lemma empty_mmap_ok: "kernel_ok K mapped credit \<Longrightarrow> apart (mapped k) \<Longrightarrow> mmap_ok K mapped credit (empty_mmap k)"
  by (simp add: mmap_ok_def mgroups_ok_def mlists_ok_def mregions_ok_def mmap_regions_def empty_mmap_def in_links_empty)

lemma empty_arena_ok: "ok m \<Longrightarrow> buddy_ok ok regions (empty_arena m)"
  by (simp add: buddy_ok_def groups_ok_def empties_ok_def avail_ok_def chunks_ok_def used_records_def empty_arena_def in_links_empty)

text \<open>A kernel that maps one region after the other.\<close>

definition below :: "nat \<Rightarrow> (u64 \<times> u64) list \<Rightarrow> (u64 \<times> u64) list" where
  "below n = filter (\<lambda>(p, len). p \<noteq> 0 \<and> 0 < len \<and> unat p + unat len \<le> n)"

definition demo_kernel :: "(nat \<times> (u64 \<times> u64) list) kernel" where
  "demo_kernel = \<lparr>mmap_call = (\<lambda>addr len prot flags fd offset (n, xs).
       if 0 < n \<and> n + unat len \<le> 2 ^ 47 then (of_nat n, n + unat len, (of_nat n, len) # below n xs) else (- 12, n, xs)),
     munmap_call = (\<lambda>p len (n, xs). (0, n, removeAll (p, len) xs))\<rparr>"

definition demo_mapped :: "nat \<times> (u64 \<times> u64) list \<Rightarrow> (u64 \<times> u64) set" where
  "demo_mapped = (\<lambda>(n, xs). set (below n xs))"

definition demo_credit :: "nat \<times> (u64 \<times> u64) list \<Rightarrow> nat" where
  "demo_credit = (\<lambda>(n, xs). if 0 < n then (2 ^ 47 - n) div 2 ^ 19 else 0)"

lemma below_grow: "0 < n \<Longrightarrow> n + unat len \<le> 2 ^ 47 \<Longrightarrow> 0 < len \<Longrightarrow> below (n + unat len) ((of_nat n, len) # below n xs) = (of_nat n, len) # below n xs"
proof -
  assume n: "0 < n" "n + unat len \<le> 2 ^ 47" "0 < len"
  then have u: "unat (of_nat n :: u64) = n" by (simp add: unat_of_nat take_bit_nat_eq_self)
  then have "(of_nat n :: u64) \<noteq> 0" using n(1) by (metis unat_0 less_irrefl)
  then show ?thesis using n u by (auto simp: below_def intro!: filter_cong)
qed

lemma demo_kernel_ok: "kernel_ok demo_kernel demo_mapped demo_credit"
  unfolding kernel_ok_def
proof (intro conjI allI impI)
  fix k :: "nat \<times> (u64 \<times> u64) list" and len p :: u64 and k' :: "nat \<times> (u64 \<times> u64) list"
  assume l: "0 < len" and c: "mmap_call demo_kernel 0 len (PROT_READ OR PROT_WRITE) (MAP_PRIVATE OR MAP_ANONYMOUS) 0 0 k = (p, k')"
  obtain n xs where k: "k = (n, xs)" by (cases k)
  have "(if sint p < 0 then demo_mapped k' = demo_mapped k else p \<noteq> 0 \<and> unat p + unat len \<le> 2 ^ 64 \<and>
       (\<forall>a \<in> demo_mapped k. region a \<inter> region (p, len) = {}) \<and> demo_mapped k' = insert (p, len) (demo_mapped k)) \<and>
    (len \<le> 0x80000 \<longrightarrow> (0 < demo_credit k \<longrightarrow> \<not> sint p < 0) \<and> demo_credit k \<le> Suc (demo_credit k'))"
  proof (cases "0 < n \<and> n + unat len \<le> 2 ^ 47")
    case True
    then have e: "p = of_nat n" "k' = (n + unat len, (of_nat n, len) # below n xs)" using c by (auto simp: demo_kernel_def k)
    have u: "unat p = n" using True by (simp add: e unat_of_nat take_bit_nat_eq_self)
    have "uint p = int n" using u by (metis of_nat_unat)
    then have "sint p = int n" using True by (simp add: sint_uint signed_take_bit_int_eq_self)
    then have "\<not> sint p < 0" by simp
    moreover have "p \<noteq> 0" using u True by auto
    moreover have "region a \<inter> region (p, len) = {}" if "a \<in> demo_mapped k" for a
      using that u by (auto simp: demo_mapped_def k below_def region_def)
    moreover have "demo_mapped k' = insert (p, len) (demo_mapped k)" using below_grow [of n len xs] True l by (simp add: demo_mapped_def k e)
    moreover have "demo_credit k \<le> Suc (demo_credit k')" if "len \<le> 0x80000"
    proof -
      have "unat len \<le> 2 ^ 19" using that by (simp add: word_le_nat_alt)
      then have "2 ^ 47 - n \<le> (2 ^ 47 - (n + unat len)) + 2 ^ 19" using True by linarith
      then have "(2 ^ 47 - n) div 2 ^ 19 \<le> ((2 ^ 47 - (n + unat len)) + 2 ^ 19) div 2 ^ 19" by (rule div_le_mono)
      then show ?thesis using True by (simp add: demo_credit_def k e)
    qed
    ultimately show ?thesis using u True by simp
  next
    case False
    then have e: "p = - 12" "k' = k" using c by (auto simp: demo_kernel_def k)
    moreover have "demo_credit k = 0" if "len \<le> 0x80000"
    proof -
      have "unat len \<le> 2 ^ 19" using that by (simp add: word_le_nat_alt)
      then have "n = 0 \<or> 2 ^ 47 - n < 2 ^ 19" using False by auto
      then show ?thesis by (auto simp: demo_credit_def k)
    qed
    ultimately show ?thesis by simp
  qed
  then show "if sint p < 0 then demo_mapped k' = demo_mapped k else p \<noteq> 0 \<and> unat p + unat len \<le> 2 ^ 64 \<and>
       (\<forall>a \<in> demo_mapped k. region a \<inter> region (p, len) = {}) \<and> demo_mapped k' = insert (p, len) (demo_mapped k)"
    "len \<le> 0x80000 \<Longrightarrow> 0 < demo_credit k \<Longrightarrow> \<not> sint p < 0" "len \<le> 0x80000 \<Longrightarrow> demo_credit k \<le> Suc (demo_credit k')" by blast+
next
  fix k :: "nat \<times> (u64 \<times> u64) list" and p len :: u64 and r and k' :: "nat \<times> (u64 \<times> u64) list"
  assume "(p, len) \<in> demo_mapped k" "munmap_call demo_kernel p len k = (r, k')"
  then show "demo_mapped k' = demo_mapped k - {(p, len)}" by (cases k) (auto simp: demo_kernel_def demo_mapped_def below_def)
qed

definition demo_arena :: "(nat \<times> (u64 \<times> u64) list) mmap_arena buddy_arena" where
  "demo_arena = empty_arena (empty_mmap (65536, []))"

abbreviation demo_ok :: "(nat \<times> (u64 \<times> u64) list) mmap_arena buddy_arena \<Rightarrow> bool" where
  "demo_ok \<equiv> buddy_ok (mmap_ok demo_kernel demo_mapped demo_credit) mmap_regions"

lemma demo_arena_ok: "demo_ok demo_arena"
  unfolding demo_arena_def by (intro empty_arena_ok empty_mmap_ok demo_kernel_ok) (simp add: demo_mapped_def below_def apart_def)

lemma demo_arena_credit: "3 < demo_credit (kernel_state (mmap_arena demo_arena))"
  by (simp add: demo_arena_def empty_arena_def empty_mmap_def demo_credit_def)

lemma demo_live: "live_blocks demo_arena = {}"
  by (simp add: demo_arena_def empty_arena_def live_blocks_def)

section \<open>Properties\<close>

lemma buddy_alloc_run:
  assumes s: "buddy_ok (mmap_ok K mapped credit) mmap_regions s" and k: "k < 7"
  shows "\<exists>res s'. buddy_alloc k (mmap_pages K) s = Some (res, s') \<and> buddy_ok (mmap_ok K mapped credit) mmap_regions s' \<and>
    (\<forall>b \<in> live_blocks s. block_range s' b = block_range s b) \<and> (3 < credit (kernel_state (mmap_arena s)) \<longrightarrow> res \<noteq> None) \<and>
    (case res of
       None \<Rightarrow> live_blocks s' = live_blocks s \<and> (\<forall>r c j i. records s r = Some c \<longrightarrow> (j, i) \<in> frees c \<longrightarrow> j < k)
     | Some (r, p) \<Rightarrow> \<exists>i. (r, k, i) \<notin> live_blocks s \<and> live_blocks s' = insert (r, k, i) (live_blocks s) \<and> p \<noteq> 0 \<and>
         block_range s' (r, k, i) = {unat p ..< unat p + 2 ^ (12 + k)} \<and> (\<forall>b \<in> live_blocks s. block_range s b \<inter> {unat p ..< unat p + 2 ^ (12 + k)} = {}))"
proof -
  obtain res s' where r: "buddy_alloc k (mmap_pages K) s = Some (res, s')" "buddy_ok (mmap_ok K mapped credit) mmap_regions s'" "alloc_step k s res s'"
    "1 < mmap_credit credit (mmap_arena s) \<longrightarrow> res \<noteq> None" using mm.alloc_all [OF k] s unfolding alloc_spec_def by blast
  have keep: "\<forall>b \<in> live_blocks s. block_range s' b = block_range s b" using r(3) by (simp add: alloc_step_def same_ranges_def)
  have cr: "3 < credit (kernel_state (mmap_arena s)) \<longrightarrow> res \<noteq> None" using r(4) unfolding mmap_credit_def by linarith
  show ?thesis
  proof (cases res)
    case None
    then show ?thesis using r(1-3) keep cr unfolding alloc_step_def by (intro exI [of _ res] exI [of _ s']) simp
  next
    case (Some rp)
    obtain q p where rp: "rp = (q, p)" by (cases rp)
    obtain i where i: "(q, k, i) \<notin> live_blocks s" "live_blocks s' = insert (q, k, i) (live_blocks s)" "block_range s' (q, k, i) = {unat p ..< unat p + 2 ^ (12 + k)}"
      using r(3) unfolding Some rp alloc_step_def by auto
    have m: "(q, k, i) \<in> live_blocks s'" using i(2) by simp
    have "0 \<notin> block_range s' (q, k, i)" using mm.block_in_region [OF r(2) m] by blast
    then have "p \<noteq> 0" unfolding i(3) by auto
    moreover have "block_range s b \<inter> {unat p ..< unat p + 2 ^ (12 + k)} = {}" if b: "b \<in> live_blocks s" for b
    proof -
      have "b \<in> live_blocks s'" "b \<noteq> (q, k, i)" using b i(1,2) by auto
      then have "block_range s' b \<inter> block_range s' (q, k, i) = {}" using mm.blocks_disjoint [OF r(2) _ m] by blast
      then show ?thesis using keep b i(3) by simp
    qed
    ultimately show ?thesis using r(1,2) keep cr i by (intro exI [of _ res] exI [of _ s']) (auto simp: Some rp)
  qed
qed

lemma buddy_free_run:
  assumes s: "buddy_ok (mmap_ok K mapped credit) mmap_regions s" and b: "(r, k, i) \<in> live_blocks s" and p: "unat p \<in> block_range s (r, k, i)"
  shows "\<exists>s'. buddy_free k (mmap_pages K) p r s = Some s' \<and> buddy_ok (mmap_ok K mapped credit) mmap_regions s' \<and> live_blocks s' = live_blocks s - {(r, k, i)} \<and>
    (\<forall>b \<in> live_blocks s'. block_range s' b = block_range s b) \<and> (\<forall>q c j n. records s' q = Some c \<longrightarrow> (j, n) \<in> frees c \<longrightarrow> (j, twin n) \<in> frees c \<longrightarrow> j = 6)"
proof -
  have k: "k < 7" using mm.live_block [OF s b] by simp
  obtain s' where f: "buddy_free k (mmap_pages K) p r s = Some s'" "buddy_ok (mmap_ok K mapped credit) mmap_regions s'" "free_step (r, k, i) s s'"
    using mm.free_all [OF k] s b p unfolding free_spec_def by blast
  have "j = 6" if "records s' q = Some c" "(j, n) \<in> frees c" "(j, twin n) \<in> frees c" for q c j n
  proof (cases "in_use c = 0")
    case True
    then show ?thesis using chunks_record [OF buddyD(5) [OF f(2)] that(1)] that(2) by (simp add: record_ok_def frees_zero)
  next
    case False
    then have "coalesced c" using buddy_record [OF f(2) that(1)] by (simp add: chunk_state_ok_def)
    then have "\<not> j < 6" using that(2,3) unfolding coalesced_def by blast
    then show ?thesis using frees_le [OF that(2)] by simp
  qed
  then show ?thesis using f by (auto simp: free_step_def same_ranges_def)
qed

text \<open>C8: every request for \<open>2 ^ k\<close> pages, \<open>k < 7\<close>, returns and keeps the invariant.  The
  invariant holds of an empty arena (\<open>empty_arena_ok\<close>) and includes what the kernel promises, \<open>kernel_ok\<close>; the blocks
  given out, \<open>live_blocks\<close>, are read off the bitmaps of the records.  A block that is given
  out is not null, has exactly its size, and lies apart from every block that is still given out; all
  of these stay where they are.  NULL is returned only when no chunk has a free block of this
  or a larger order, and never while the kernel grants four more mappings.\<close>

theorem buddy_alloc_correct:
  assumes "buddy_ok (mmap_ok K mapped credit) mmap_regions s" "k < 7"
  shows "\<exists>res s'. buddy_alloc k (mmap_pages K) s = Some (res, s') \<and> buddy_ok (mmap_ok K mapped credit) mmap_regions s' \<and>
    (\<forall>b \<in> live_blocks s. block_range s' b = block_range s b) \<and> (3 < credit (kernel_state (mmap_arena s)) \<longrightarrow> res \<noteq> None) \<and>
    (case res of
       None \<Rightarrow> live_blocks s' = live_blocks s \<and> (\<forall>r c j i. records s r = Some c \<longrightarrow> (j, i) \<in> frees c \<longrightarrow> j < k)
     | Some (r, p) \<Rightarrow> \<exists>i. (r, k, i) \<notin> live_blocks s \<and> live_blocks s' = insert (r, k, i) (live_blocks s) \<and> p \<noteq> 0 \<and>
         block_range s' (r, k, i) = {unat p ..< unat p + 2 ^ (12 + k)} \<and> (\<forall>b \<in> live_blocks s. block_range s b \<inter> {unat p ..< unat p + 2 ^ (12 + k)} = {}))"
  by (rule buddy_alloc_run [OF assms])

lemma buddy_alloc_correct_witness:
  "\<exists>r p s'. buddy_alloc 3 (mmap_pages demo_kernel) demo_arena = Some (Some (r, p), s') \<and> demo_ok s' \<and> p \<noteq> 0 \<and>
    (\<exists>i. live_blocks s' = {(r, 3, i)} \<and> block_range s' (r, 3, i) = {unat p ..< unat p + 2 ^ 15})"
proof -
  have "3 < (7 :: nat)" by simp
  from buddy_alloc_correct [OF demo_arena_ok this] demo_arena_credit show ?thesis by (auto simp: demo_live split: option.splits)
qed

text \<open>C9: giving back a block, through any address inside it, returns, keeps the invariant and removes exactly
  this block from those that are given out; all others stay where they are.  Free buddies are
  merged: two free buddies are left only at the highest order, in a chunk that is kept.\<close>

theorem buddy_free_correct:
  assumes "buddy_ok (mmap_ok K mapped credit) mmap_regions s" "(r, k, i) \<in> live_blocks s" "unat p \<in> block_range s (r, k, i)"
  shows "\<exists>s'. buddy_free k (mmap_pages K) p r s = Some s' \<and> buddy_ok (mmap_ok K mapped credit) mmap_regions s' \<and> live_blocks s' = live_blocks s - {(r, k, i)} \<and>
    (\<forall>b \<in> live_blocks s'. block_range s' b = block_range s b) \<and> (\<forall>q c j n. records s' q = Some c \<longrightarrow> (j, n) \<in> frees c \<longrightarrow> (j, twin n) \<in> frees c \<longrightarrow> j = 6)"
  by (rule buddy_free_run [OF assms])

lemma buddy_free_correct_witness:
  "\<exists>r p s s'. buddy_alloc 0 (mmap_pages demo_kernel) demo_arena = Some (Some (r, p), s) \<and> live_blocks s \<noteq> {} \<and>
    buddy_free 0 (mmap_pages demo_kernel) (p + 100) r s = Some s' \<and> demo_ok s' \<and> live_blocks s' = {}"
proof -
  have "0 < (7 :: nat)" by simp
  from buddy_alloc_run [OF demo_arena_ok this] demo_arena_credit obtain r p s i
    where a: "buddy_alloc 0 (mmap_pages demo_kernel) demo_arena = Some (Some (r, p), s)" "demo_ok s" "live_blocks s = {(r, 0, i)}"
      "block_range s (r, 0, i) = {unat p ..< unat p + 2 ^ 12}" by (auto simp: demo_live split: option.splits)
  have m: "(r, 0, i) \<in> live_blocks s" using a(3) by simp
  obtain c where c: "records s r = Some c" "in_use c \<noteq> 0" "block_range s (r, 0, i) \<subseteq> region (chunk c, 0x80000)" using mm.block_in_region [OF a(2) m] by blast
  have "unat p + 2 ^ 12 - 1 \<in> region (chunk c, 0x80000)" using c(3) unfolding a(4) by (auto simp: subset_iff)
  then have "unat p + 2 ^ 12 \<le> 2 ^ 64" using mm.chunk_bound [OF a(2) c(1,2)] by (simp add: region_def)
  then have "unat (p + 100) = unat p + 100" by (simp add: unat_word_ariths)
  then have q: "unat (p + 100) \<in> block_range s (r, 0, i)" unfolding a(4) by simp
  from buddy_free_correct [OF a(2) m q] a(1,3) show ?thesis by auto
qed

end
