(* ===== verification/Spec2Isabelle.thy ===== *)
theory Spec2Isabelle
  imports NtruTotal FipsProps StrBlend StrMove StrCpy RbProps CListProps HiveProps HashProps BuddyProps
begin

text \<open>
  Verification library for mini_libc, a small C library for AArch64 Linux with a
  C++ container library (mini_libcxx) on top.

  \<^bold>\<open>Parts of the program.\<close>  \<open>src/string\<close> holds the byte and string routines, written
  with 64-bit accesses; \<open>src/memory\<close> the allocator, in three layers (\<open>mmap.c\<close> for regions,
  \<open>buddy.c\<close> for 1 to 64 pages, \<open>small_class.c\<close> and \<open>malloc.c\<close> for the rest); \<open>src/crypto\<close> the cryptography;
  the files directly under \<open>src\<close> wrap system calls.  \<open>mini_libcxx/include\<close> holds the
  containers.  Their nodes are allocated through \<open>tagged_ptr.hpp\<close>, which puts a
  container id and a reference word before each node, so that a handle kept by a
  client (\<open>counted_ref\<close> or \<open>linked_ref\<close>) can be checked; \<open>rbtree.hpp\<close> is a red-black
  tree of such nodes and the base of \<open>map.hpp\<close> and \<open>set.hpp\<close>.

  \<^bold>\<open>Theories.\<close>
  \<^item> \<open>Prelude\<close>: word arithmetic read through \<open>unat\<close>, the option monad of faults,
    \<open>while\<close> loops that may fault, and their progress rules.
  \<^item> \<open>ByteMem\<close>: the byte memory of the C routines, with little-endian 64-bit loads
    and stores of \<open>string_internal.h\<close>; an access outside the memory is a fault.
  \<^item> \<open>StrCopy\<close>: \<open>memset.c\<close> and \<open>memcpy.c\<close>; \<open>StrMove\<close>: \<open>memmove.c\<close>, both directions; \<open>StrBlend\<close>: \<open>memxor.c\<close> and \<open>cond_memcpy.c\<close>, two
    instances of one walk over both buffers.
  \<^item> \<open>Swar\<close>: the test \<open>HASZERO\<close> for a zero byte in a word; \<open>StrLen\<close>: \<open>strlen.c\<close> and
    \<open>strnlen.c\<close>; \<open>SafeCmp\<close>: \<open>memcmp_zero.c\<close> and \<open>safe_memcmp.c\<close>; \<open>MemCmp\<close>: \<open>memcmp.c\<close>;
    \<open>StrCmp\<close>: \<open>strcmp.c\<close> and \<open>strncmp.c\<close>; \<open>StrCpy\<close>: \<open>strcpy.c\<close> and \<open>strncpy.c\<close>.
  \<^item> \<open>RbSpec\<close>: the specification at the head of \<open>rbtree.hpp\<close> (written there as Gallina
    text), with its claims proved.
  \<^item> \<open>RbOps\<close>: the walks up the tree as functions on a subtree and the path above it.
  \<^item> \<open>RbHeap\<close>, \<open>RbHeapDelete\<close>: the nodes on a heap, the setters, and
    \<open>do_rb_insert_rebalance_*\<close>, \<open>do_rb_delete_rebalance_*\<close> with their refinement of
    \<open>RbSpec\<close>.
  \<^item> \<open>RbLoops\<close>, \<open>RbRemove\<close>: \<open>insert_rebalance\<close> and \<open>remove_node\<close>; the relation \<open>rep\<close>
    between a heap and the tree it holds; refinement of \<open>RbOps\<close>.
  \<^item> \<open>TaggedPtr\<close>: allocations with their tags, both kinds of references, and the step
    relation of clients that hold \<open>counted_ref\<close> handles.
  \<^item> \<open>RbTree\<close>, \<open>RbClear\<close>: the public operations of \<open>class rbtree\<close> over a store of nodes
    and tags; the invariant \<open>tree_ok\<close> and its preservation.
  \<^item> \<open>RbProps\<close>: the properties of the tree.
  \<^item> \<open>NodeStore\<close>: what all containers share: a heap of nodes of any type, one tagged
    allocation each, with \<open>new_node\<close>, \<open>drop_node\<close> and the handles to a node;
    \<open>store_ok\<close> is the invariant of a store that several containers use.
  \<^item> \<open>Dll\<close>: doubly linked chains of nodes, insertion and removal.
  \<^item> \<open>CList\<close>: every operation of \<open>list.hpp\<close>; \<open>CListOk\<close>, \<open>CListCopy\<close>: the invariant
    \<open>list_ok\<close>, the effect of each operation, and copying; \<open>CListProps\<close>: properties.
  \<^item> \<open>Hive\<close>: every operation of \<open>hive.hpp\<close>; \<open>HiveBits\<close>: the searches in the bitmap of a
    chunk; \<open>HiveLinks\<close>: the chains of chunks; \<open>HiveOk\<close>, \<open>HiveOps\<close>: the invariant
    \<open>hive_ok\<close>, taking and giving back slots, access by handle; \<open>HiveIter\<close>: iteration;
    \<open>HiveClear\<close>, \<open>HiveCopy\<close>: \<open>clear\<close>, \<open>capacity\<close> and copies; \<open>HiveProps\<close>: properties.
  \<^item> \<open>HashTable\<close>: one table of \<open>hashmap.hpp\<close>, with \<open>raw_dyn_array.hpp\<close>; \<open>Probe\<close>: the search
    for a byte in a word and the order in which groups are probed; \<open>HashTableOk\<close>,
    \<open>HashSlots\<close>: the invariant \<open>table_ok\<close>, searching, filling, emptying and
    clearing; \<open>HiveRefs\<close>: the hives of a store and the references that are alive.
  \<^item> \<open>HashMap\<close>: every operation of \<open>hashmap.hpp\<close>; \<open>HashMapOk\<close>, \<open>HashRehash\<close>: the invariant
    \<open>hm_ok\<close> of the two tables and incremental rehashing; \<open>HashOps\<close>, \<open>HashInsert\<close>,
    \<open>HashRemove\<close>, \<open>HashClear\<close>, \<open>HashCopy\<close>: the operations; \<open>HashKeyMap\<close>: the map from
    keys to values; \<open>HashFull\<close>: what \<open>clear\<close> leaves behind; \<open>HashProps\<close>: properties.
  \<^item> \<open>Contracts\<close>: the contract of a container with unique keys, as a locale: every sequence of
    calls is answered as by a map; \<open>HashKeyMap\<close> interprets it on the hash map.  The contract of a
    container that is used through handles, as another; \<open>CListProps\<close> and \<open>HiveProps\<close> interpret it on
    the list and on the hive.
  \<^item> \<open>Buddy\<close>: the linked lists of records that the allocators share, and every operation of
    \<open>buddy.c\<close> over a provider of regions; \<open>BuddyChunk\<close>: blocks as a tiling of the 128 pages
    of a chunk, and the bitmaps and counts of a record against it; \<open>BuddySteps\<close>: taking, splitting,
    giving back and merging blocks in one record; \<open>BuddyOk\<close>: the invariant \<open>buddy_ok\<close> of all records, lists and groups, and the
    contract \<open>page_source\<close> of a provider, as a locale; \<open>BuddyRun\<close>, \<open>BuddyArena\<close>: the operations under this
    contract, up to the specifications \<open>alloc_spec\<close> and \<open>free_spec\<close> of all seven orders.
  \<^item> \<open>Mmap\<close>: every operation of \<open>mmap.c\<close> over a kernel, its invariant \<open>mmap_ok\<close>, and the
    interpretation of \<open>page_source\<close> on it; \<open>BuddyProps\<close>: properties of both layers together.
  \<^item> \<open>SortNet\<close>, \<open>Sort\<close>: the constant-time sort of \<open>crypto/sort/sort.c\<close>: the loops of the
    network, the comparison by borrow, and that the network sorts every array.
  \<^item> \<open>CLoop\<close>: bounded \<open>for\<close> loops over arrays and their invariant rule, for \<open>crypto/\<close>.
  \<^item> \<open>NtruEncode\<close>, \<open>NtruCodec\<close>, \<open>NtruRoundtrip\<close>: \<open>ntru_lprime/encode.c\<close>, and
    that decoding undoes encoding; \<open>NtruMult\<close>, \<open>NtruMultOk\<close>: the multiplication of
    polynomials of \<open>utility.c\<close> and their rounding, against the ring of polynomials modulo
    \<open>x^653 - x - 1\<close>; \<open>NtruShort\<close>, \<open>NtruShortOk\<close>: the generation of random and of short ones.
  \<^item> \<open>NtruKem\<close>: \<open>gen_key.c\<close>, \<open>encrypt.c\<close> and \<open>decrypt.c\<close>; \<open>NtruKemOk\<close>, \<open>NtruTotal\<close>:
    each part runs to its end and what it computes; \<open>NtruDecaps\<close>: properties.
  \<^item> \<open>Sponge\<close>: the sponge of \<open>keccak_p.h\<close>; \<open>Fips\<close>: \<open>fips202.c\<close>; \<open>FipsSpec\<close>: the functions of FIPS
    202 and SP 800-185 as the standards define them; \<open>FipsProps\<close>: the code computes them.

  \<^bold>\<open>How code is read.\<close>  A null dereference, an access to freed storage,
  \<open>std::terminate\<close> and an infinite loop are the value \<^term>\<open>None\<close>; so a theorem that
  gives \<^term>\<open>Some r\<close> also says that the code returns.  Integers are words of their
  width.  Loops are \<open>partial_function (option)\<close> or the \<open>while\<close> combinators of
  \<open>Prelude\<close>; no fuel is used.  Objects on the C++ heap are named by natural numbers and
  never reused; \<open>aligned_tagged_alloc\<close> never fails, as its callers assume.  The
  \<open>if consteval\<close> branches, which the compiler runs, are not modelled.  The hash function,
  \<open>getrandom\<close> and the size of a slot are parameters of the hash map (\<open>hash_env\<close>); \<open>env_ok\<close>
  states that \<open>getrandom\<close> delivers and that a slot has at least 16 bytes.  The permutation
  of Keccak, which a template generates, and the AES functions, which are written with
  AArch64 intrinsics, are parameters of the cryptographic functions; nothing is assumed of
  them but the length of what they return.  The records of the allocators are known by their
  addresses, as numbers, and an access to one that was never made is a fault; a page from
  \<open>mmap\<close> is zero.  The kernel is a parameter of \<open>mmap.c\<close>; \<open>kernel_ok\<close> states that \<open>mmap\<close> gives a region apart
  from all others that are mapped, or a negative number, and that \<open>munmap\<close> unmaps a whole region.

  \<^bold>\<open>What is shown.\<close>  The string routines write exactly the bytes they should, for every
  alignment.  The red-black tree refines its specification on the heap; insertion is
  correct; removal is correct except when the whole tree gets lower, where the code
  dereferences a null pointer, and a run of the public interface reaches that state.
  Handles are safe: a check tells in every reachable state whether the node is still
  owned, nothing is leaked and nothing is freed early.  Lists and hives hold exactly the
  values that were put in and not taken out, in an order that iteration follows, and their
  handles reach them; a hive accepts a handle whenever its slot is in use, so also one
  kept from an earlier value of the slot.  The hash map answers every sequence of
  insertions, assignments, removals and look-ups from a new map as a map from keys to
  values does, whatever the hash function and while it rehashes; only \<open>clear\<close> breaks its
  invariant, by leaving tombstones that are no longer counted, and a run shows that a later
  insertion then writes outside the table.  The sort sorts every array of every length and
  width.  Encoding and decoding of NTRU LPRime are inverse, the multiplication is that of the
  ring, and decapsulation recovers the encapsulated input from an honest ciphertext and
  falls back to the random string of the secret key for any other; but the two sides hash
  an accepted input with different prefixes, so their session keys are hashes of different
  strings.  The buddy allocator hands out blocks of the right size that never overlap and stay where they
  are, takes back exactly the block it is given, merges free buddies, and fails only when it has
  no block and the kernel refuses one.  The functions of \<open>fips202.c\<close> compute what the standards define, for every
  permutation of the state.

  \<^bold>\<open>Not modelled.\<close>  AES (\<open>crypto/sk/aes\<close>) and the permutation of Keccak (\<open>keccak_p.j2\<close>) are
  intrinsics and templates, Farfalle and SPHINCS+ templates over such code; CROSS, UOV,
  \<open>vector.hpp\<close> and the wrappers \<open>map.hpp\<close> and \<open>set.hpp\<close> are left for an extension, as are
  \<open>memory/small_class.c\<close> and \<open>memory/malloc.c\<close> (the size classes, the words before a block and the free set shared
  between threads); the rest of \<open>src\<close> passes arguments to system calls.  The
  constant-evaluation branches of the containers and the time that code takes are outside
  the model.
\<close>

end
